(* ===== verification/Chopstx_Prelude.thy ===== *)
theory Chopstx_Prelude
  imports Main "HOL-Library.Word" "HOL-Library.Monad_Syntax"
begin

text \<open>
  Shared vocabulary of the development: the C integer types as words, the list
  functions that describe a priority queue (where an element is inserted, what order the
  queue keeps), and circular doubly linked lists over an arbitrary pair of link
  functions. Nothing here mentions the kernel state; the theories that model the
  source import this one.
\<close>

unbundle bit_operations_syntax

section \<open>Machine integers\<close>

type_synonym u8 = "8 word"
type_synonym u16 = "16 word"
type_synonym u32 = "32 word"

text \<open>Addresses are 32-bit words; a pointer that may be NULL is an \<open>option\<close>.\<close>

type_synonym addr = u32
type_synonym tid = u32  \<comment> \<open>address of a \<open>struct chx_thread\<close>, \<open>chopstx_t\<close>\<close>
type_synonym mid = u32  \<comment> \<open>address of a \<open>chopstx_mutex_t\<close>\<close>
type_synonym cid = u32  \<comment> \<open>address of a \<open>chopstx_cond_t\<close>\<close>

lemma unat_sub_le: "b \<le> a \<Longrightarrow> unat (a - b) = unat a - unat (b :: 'a::len word)"
  by (simp add: unat_sub)

lemma unat_add_lt:
  "unat a + unat b < 2 ^ LENGTH('a) \<Longrightarrow> unat (a + b) = unat a + unat (b :: 'a::len word)"
  by (simp add: unat_word_ariths)

lemma unat_minus_2: "unat (x - 2 :: u32) = (if 2 \<le> unat x then unat x - 2 else unat x + 4294967294)"
  by (auto simp: unat_sub_if' word_le_nat_alt)

lemma unat_u16_less: "unat (w :: u16) < 65536"
proof -
  have "unat w < 2 ^ LENGTH(16)" by (rule unsigned_less)
  then show ?thesis by simp
qed

text \<open>A halfword and its two bytes.\<close>

lemma mask_ff: "(0xff :: u16) = mask 8"
  by (simp add: mask_eq_exp_minus_1)

lemma mask_ff32: "(0xff :: u32) = mask 8"
  by (simp add: mask_eq_exp_minus_1)

lemma u8_bit: "bit (x :: u8) n \<Longrightarrow> n < 8"
  by (drule bit_imp_le_length) simp

lemma low_high:
  "ucast ((ucast (x :: u8) :: u16) OR push_bit 8 (ucast (y :: u8))) = x"
  "ucast (drop_bit 8 ((ucast (x :: u8) :: u16) OR push_bit 8 (ucast (y :: u8)))) = y"
  "ucast (((w :: u16) AND 0xff) OR push_bit 8 (ucast (y :: u8))) = (ucast w :: u8)"
  "ucast (drop_bit 8 (((w :: u16) AND 0xff) OR push_bit 8 (ucast (y :: u8)))) = y"
  "ucast (w AND 0xff) = (ucast w :: u8)" "ucast (drop_bit 8 (ucast (x :: u8) :: u16)) = (0 :: u8)"
  "ucast (ucast (x :: u8) :: u16) = x" "ucast (drop_bit 8 (push_bit 8 (ucast (y :: u8)) :: u16)) = y"
  unfolding mask_ff by (auto intro!: bit_word_eqI simp: bit_simps dest: u8_bit)

section \<open>Priority-ordered lists\<close>

text \<open>
  \<open>enq_list f x xs\<close> is the list after \<open>x\<close> is put in front of the first element whose
  key is smaller than the key of \<open>x\<close> (first in, first out among equals);
  \<open>push_list\<close> puts it in front of the first element whose key is not greater (last in,
  first out among equals).
\<close>

definition enq_list :: "('a \<Rightarrow> 'k::linorder) \<Rightarrow> 'a \<Rightarrow> 'a list \<Rightarrow> 'a list" where
  "enq_list f x xs = takeWhile (\<lambda>y. f x \<le> f y) xs @ x # dropWhile (\<lambda>y. f x \<le> f y) xs"

definition push_list :: "('a \<Rightarrow> 'k::linorder) \<Rightarrow> 'a \<Rightarrow> 'a list \<Rightarrow> 'a list" where
  "push_list f x xs = takeWhile (\<lambda>y. f x < f y) xs @ x # dropWhile (\<lambda>y. f x < f y) xs"

text \<open>Highest key first.\<close>

definition desc :: "('a \<Rightarrow> 'k::linorder) \<Rightarrow> 'a list \<Rightarrow> bool" where
  "desc f xs \<longleftrightarrow> sorted_wrt (\<lambda>x y. f y \<le> f x) xs"

lemma desc_Nil [simp]: "desc f []"
  by (simp add: desc_def)

lemma desc_Cons [simp]: "desc f (x # xs) \<longleftrightarrow> (\<forall>y \<in> set xs. f y \<le> f x) \<and> desc f xs"
  by (simp add: desc_def)

lemma desc_append:
  "desc f (xs @ ys) \<longleftrightarrow> desc f xs \<and> desc f ys \<and> (\<forall>x \<in> set xs. \<forall>y \<in> set ys. f y \<le> f x)"
  by (simp add: desc_def sorted_wrt_append)

lemma enq_list_Nil [simp]: "enq_list f x [] = [x]"
  by (simp add: enq_list_def)

lemma enq_list_Cons [simp]:
  "enq_list f x (y # ys) = (if f x \<le> f y then y # enq_list f x ys else x # y # ys)"
  by (simp add: enq_list_def)

lemma push_list_Nil [simp]: "push_list f x [] = [x]"
  by (simp add: push_list_def)

lemma push_list_Cons [simp]:
  "push_list f x (y # ys) = (if f x < f y then y # push_list f x ys else x # y # ys)"
  by (simp add: push_list_def)

lemma set_enq_list [simp]: "set (enq_list f x xs) = insert x (set xs)"
  by (induction xs) auto

lemma set_push_list [simp]: "set (push_list f x xs) = insert x (set xs)"
  by (induction xs) auto

lemma enq_list_not_Nil [simp]: "enq_list f x xs \<noteq> []"
  by (simp add: enq_list_def)

lemma push_list_not_Nil [simp]: "push_list f x xs \<noteq> []"
  by (simp add: push_list_def)

lemma length_enq_list [simp]: "length (enq_list f x xs) = Suc (length xs)"
  by (induction xs) auto

lemma distinct_enq_list [simp]: "distinct (enq_list f x xs) \<longleftrightarrow> x \<notin> set xs \<and> distinct xs"
  by (induction xs) auto

lemma distinct_push_list [simp]: "distinct (push_list f x xs) \<longleftrightarrow> x \<notin> set xs \<and> distinct xs"
  by (induction xs) auto

lemma desc_enq_list: "desc f xs \<Longrightarrow> desc f (enq_list f x xs)"
  by (induction xs) auto

lemma desc_push_list: "desc f xs \<Longrightarrow> desc f (push_list f x xs)"
  by (induction xs) auto

lemma desc_cong: "(\<And>x. x \<in> set xs \<Longrightarrow> f x = g x) \<Longrightarrow> desc f xs = desc g xs"
  by (induction xs) auto

lemma enq_list_cong:
  "(\<And>y. y \<in> insert x (set xs) \<Longrightarrow> f y = g y) \<Longrightarrow> enq_list f x xs = enq_list g x xs"
  by (induction xs) auto

lemma desc_remove1: "desc f xs \<Longrightarrow> desc f (remove1 x xs)"
  by (induction xs) (auto dest: notin_set_remove1 in_set_remove1 [THEN iffD1, rotated] set_remove1_subset [THEN subsetD])

lemma desc_hd: "desc f xs \<Longrightarrow> y \<in> set xs \<Longrightarrow> f y \<le> f (hd xs)"
  by (cases xs) auto

text \<open>First in, first out: among the elements of one key, \<open>enq_list\<close> appends.\<close>

lemma filter_key_below:
  "\<forall>y \<in> set xs. f y \<le> f a \<Longrightarrow> \<not> (k::'k::linorder) \<le> f a \<Longrightarrow> [y \<leftarrow> xs. f y = k] = []"
  by (auto simp: filter_empty_conv)

lemma enq_list_fifo:
  "desc f xs \<Longrightarrow>
   [y \<leftarrow> enq_list f x xs. f y = k] = [y \<leftarrow> xs. f y = k] @ (if f x = k then [x] else [])"
  by (induction xs) (auto simp: filter_key_below)

text \<open>Last in, first out: among the elements of one key, \<open>push_list\<close> prepends.\<close>

lemma push_list_lifo:
  "desc f xs \<Longrightarrow>
   [y \<leftarrow> push_list f x xs. f y = k] = (if f x = k then [x] else []) @ [y \<leftarrow> xs. f y = k]"
  by (induction xs) (auto simp: filter_empty_conv)

section \<open>Bytes in memory\<close>

text \<open>The \<open>n\<close> bytes from address \<open>p\<close> on, and a memory after bytes were copied to \<open>p\<close>.\<close>

definition bytes :: "(addr \<Rightarrow> u8) \<Rightarrow> addr \<Rightarrow> nat \<Rightarrow> u8 list" where
  "bytes m p n = List.map (\<lambda>i. m (p + of_nat i)) [0..<n]"

lemma length_bytes [simp]: "length (bytes m p n) = n"
  by (simp add: bytes_def)

lemma bytes_append: "bytes m p (k + n) = bytes m p k @ bytes m (p + of_nat k) n"
  unfolding bytes_def
  by (rule nth_equalityI) (auto simp: nth_append algebra_simps of_nat_diff)

definition put_bytes :: "addr \<Rightarrow> u8 list \<Rightarrow> (addr \<Rightarrow> u8) \<Rightarrow> addr \<Rightarrow> u8" where
  "put_bytes p bs m = (\<lambda>a. if unat (a - p) < length bs then bs ! unat (a - p) else m a)"

lemma put_bytes_Nil [simp]: "put_bytes p [] m = m"
  by (simp add: put_bytes_def)

lemma unat_diff_add: "k < 2 ^ 32 \<Longrightarrow> unat (p + of_nat k - p :: addr) = k"
  by (simp add: unat_of_nat take_bit_nat_eq_self)

lemma bytes_put:
  assumes "length bs = n" "n < 2 ^ 32"
  shows "bytes (put_bytes p bs m) p n = bs"
  using assms by (intro nth_equalityI) (auto simp: bytes_def put_bytes_def unat_of_nat take_bit_nat_eq_self)

text \<open>Copying two pieces one after the other copies the whole.\<close>

lemma unat_sub_wrap:
  "unat (x - y :: addr) = (if unat y \<le> unat x then unat x - unat y else 4294967296 + unat x - unat y)"
proof (cases "unat y \<le> unat x")
  case False
  then have "x < y" by (simp add: word_less_nat_alt)
  then have "uint x < uint y" by (simp add: word_less_def)
  then have "uint (x - y) = uint x - uint y + 2 ^ 32" by (simp add: uint_sub_if_size word_size)
  then have d: "uint (x - y) = uint x - uint y + 4294967296" by simp
  have y: "uint y < 4294967296" "0 \<le> uint x" using unsigned_less [of y] by simp_all
  have "uint y \<le> 4294967296 + uint x" using y by linarith
  then have "nat (uint x - uint y + 4294967296) = nat (4294967296 + uint x) - nat (uint y)"
    by (subst nat_diff_distrib [symmetric]) (simp_all add: algebra_simps)
  also have "nat (4294967296 + uint x) = 4294967296 + nat (uint x)" by (subst nat_add_distrib) simp_all
  finally show ?thesis using False by (simp only: unat_eq_nat_uint d if_False)
qed (simp add: unat_sub_le word_le_nat_alt)

lemma put_bytes_append:
  assumes "length (as @ bs) < 4294967296"
  shows "put_bytes (p + of_nat (length as)) bs (put_bytes p as m) = put_bytes p (as @ bs) m"
proof
  fix a :: addr
  have "unat (of_nat (length as) :: addr) = length as"
    using assms by (simp add: unat_of_nat take_bit_nat_eq_self)
  then have "unat (a - (p + of_nat (length as))) = (if length as \<le> unat (a - p)
      then unat (a - p) - length as else 4294967296 + unat (a - p) - length as)"
    using unat_sub_wrap [of "a - p" "of_nat (length as)"] by (simp add: algebra_simps)
  then show "put_bytes (p + of_nat (length as)) bs (put_bytes p as m) a = put_bytes p (as @ bs) m a"
    using assms by (auto simp: put_bytes_def nth_append)
qed

text \<open>A halfword in memory, low byte first.\<close>

definition mem16 :: "(addr \<Rightarrow> u8) \<Rightarrow> addr \<Rightarrow> u16" where
  "mem16 m p = ucast (m p) OR push_bit 8 (ucast (m (p + 1)))"

definition put16 :: "addr \<Rightarrow> u16 \<Rightarrow> (addr \<Rightarrow> u8) \<Rightarrow> addr \<Rightarrow> u8" where
  "put16 p w m = m(p := ucast w, p + 1 := ucast (drop_bit 8 w))"

section \<open>Circular doubly linked lists\<close>

text \<open>
  \<open>links n p a xs b\<close>: following \<open>n\<close> from \<open>a\<close> visits \<open>xs\<close> and arrives at \<open>b\<close>, and \<open>p\<close>
  leads back. A circular list with head \<open>q\<close> is a link path from \<open>q\<close> to \<open>q\<close> through
  distinct elements different from \<open>q\<close>.
\<close>

fun links :: "('a \<Rightarrow> 'a) \<Rightarrow> ('a \<Rightarrow> 'a) \<Rightarrow> 'a \<Rightarrow> 'a list \<Rightarrow> 'a \<Rightarrow> bool" where
  "links n p a [] b \<longleftrightarrow> n a = b \<and> p b = a"
| "links n p a (x # xs) b \<longleftrightarrow> n a = x \<and> p x = a \<and> links n p x xs b"

definition dll :: "('a \<Rightarrow> 'a) \<Rightarrow> ('a \<Rightarrow> 'a) \<Rightarrow> 'a \<Rightarrow> 'a list \<Rightarrow> bool" where
  "dll n p q xs \<longleftrightarrow> distinct (q # xs) \<and> links n p q xs q"

lemma links_append:
  "links n p a (xs @ y # ys) b \<longleftrightarrow> links n p a xs y \<and> links n p y ys b"
  by (induction xs arbitrary: a) auto

lemma links_split:
  "links n p a (xs @ ys) b \<longleftrightarrow> links n p a xs (hd (ys @ [b])) \<and> links n p (last (a # xs)) ys b"
proof (induction xs arbitrary: a)
  case Nil
  then show ?case by (cases ys) auto
qed auto

lemma links_cong:
  "(\<And>z. z \<in> insert a (set xs) \<Longrightarrow> n z = n' z) \<Longrightarrow> (\<And>z. z \<in> insert b (set xs) \<Longrightarrow> p z = p' z)
   \<Longrightarrow> links n p a xs b = links n' p' a xs b"
  by (induction xs arbitrary: a) auto

lemma links_next: "links n p a xs b \<Longrightarrow> n a = hd (xs @ [b])"
  by (cases xs) auto

lemma links_prev: "links n p a xs b \<Longrightarrow> p b = last (a # xs)"
  by (induction xs arbitrary: a) auto

lemma dll_cong:
  "(\<And>z. z \<in> insert q (set xs) \<Longrightarrow> n z = n' z \<and> p z = p' z) \<Longrightarrow> dll n p q xs = dll n' p' q xs"
  unfolding dll_def using links_cong [of q xs n n' q p p'] by auto

lemma dll_next: "dll n p q xs \<Longrightarrow> n q = hd (xs @ [q])"
  by (auto simp: dll_def dest: links_next)

lemma dll_prev: "dll n p q xs \<Longrightarrow> p q = last (q # xs)"
  unfolding dll_def by (blast dest: links_prev)

lemma dll_mid:
  "dll n p q (as @ x # bs) \<Longrightarrow> n x = hd (bs @ [q]) \<and> p x = last (q # as)"
  unfolding dll_def links_append by (blast dest: links_next links_prev)

lemma links_unique:
  "links n p a xs q \<Longrightarrow> links n p a ys q \<Longrightarrow> q \<notin> set xs \<Longrightarrow> q \<notin> set ys \<Longrightarrow> xs = ys"
proof (induction xs arbitrary: a ys)
  case Nil
  then show ?case by (cases ys) auto
next
  case (Cons x xs)
  then show ?case by (cases ys) auto
qed

lemma dll_unique: "dll n p q xs \<Longrightarrow> dll n p q ys \<Longrightarrow> xs = ys"
  unfolding dll_def using links_unique by fastforce

lemma dll_empty_iff: "dll n p q xs \<Longrightarrow> n q = q \<longleftrightarrow> xs = []"
  by (cases xs) (auto simp: dll_def)

lemma links_change_end:
  "links n p a xs b \<Longrightarrow> distinct (a # xs) \<Longrightarrow> n' (last (a # xs)) = b' \<Longrightarrow> p' b' = last (a # xs) \<Longrightarrow>
   (\<And>z. z \<in> insert a (set xs) \<Longrightarrow> z \<noteq> last (a # xs) \<Longrightarrow> n' z = n z) \<Longrightarrow>
   (\<And>z. z \<in> set xs \<Longrightarrow> p' z = p z) \<Longrightarrow> links n' p' a xs b'"
proof (induction xs arbitrary: a)
  case (Cons x xs)
  have neq: "a \<noteq> last (x # xs)"
    using Cons.prems(2) by (metis distinct.simps(2) last_in_set list.distinct(1))
  have "links n' p' x xs b'"
    using Cons.prems by (intro Cons.IH) auto
  with Cons.prems neq show ?case by auto
qed auto

lemma links_change_start:
  "links n p a xs b \<Longrightarrow> a \<notin> set xs \<Longrightarrow> n' a' = hd (xs @ [b]) \<Longrightarrow> p' (hd (xs @ [b])) = a' \<Longrightarrow>
   (\<And>z. z \<in> set xs \<Longrightarrow> n' z = n z) \<Longrightarrow>
   (\<And>z. z \<in> insert b (set xs) \<Longrightarrow> z \<noteq> hd (xs @ [b]) \<Longrightarrow> p' z = p z) \<Longrightarrow>
   distinct (xs @ [b]) \<Longrightarrow> links n' p' a' xs b"
proof (cases xs)
  case (Cons x xs')
  assume A: "links n p a xs b" "n' a' = hd (xs @ [b])" "p' (hd (xs @ [b])) = a'"
    "\<And>z. z \<in> set xs \<Longrightarrow> n' z = n z"
    "\<And>z. z \<in> insert b (set xs) \<Longrightarrow> z \<noteq> hd (xs @ [b]) \<Longrightarrow> p' z = p z" "distinct (xs @ [b])"
  have "links n' p' x xs' b = links n p x xs' b"
    using A(4,5,6) Cons by (intro links_cong) auto
  with A Cons show ?thesis by auto
qed auto

text \<open>Insertion in front of the element (or head) that follows \<open>as\<close>.\<close>

lemma dll_insert:
  assumes d: "dll n p q (as @ bs)" and x: "x \<notin> insert q (set (as @ bs))"
    and n': "n' = n(x := hd (bs @ [q]), last (q # as) := x)"
    and p': "p' = p(x := last (q # as), hd (bs @ [q]) := x)"
  shows "dll n' p' q (as @ x # bs)"
proof -
  let ?r = "hd (bs @ [q])" and ?l = "last (q # as)"
  have dist: "distinct (q # as @ bs)" using d by (simp add: dll_def)
  have l: "?l \<in> insert q (set as)" and r: "?r \<in> insert q (set bs)"
    by (auto simp: hd_append intro: hd_in_set)
  have mid: "links n p q as ?r" "links n p ?l bs q"
    using d by (auto simp: dll_def links_split)
  have 1: "links n' p' q as x"
    by (rule links_change_end [of n p q as ?r]) (use mid dist x l r n' p' in auto)
  have 2: "links n' p' x bs q"
    by (rule links_change_start [of n p ?l bs q]) (use mid dist x l r n' p' in auto)
  show ?thesis using 1 2 dist x by (auto simp: dll_def links_append)
qed

text \<open>Removal of \<open>x\<close>, which is left linked to itself.\<close>

lemma dll_delete:
  assumes d: "dll n p q (as @ x # bs)"
    and n': "n' = n(last (q # as) := hd (bs @ [q]), x := x)"
    and p': "p' = p(hd (bs @ [q]) := last (q # as), x := x)"
  shows "dll n' p' q (as @ bs)" and "dll n' p' x []"
proof -
  let ?r = "hd (bs @ [q])" and ?l = "last (q # as)"
  have dist: "distinct (q # as @ x # bs)" using d by (simp add: dll_def)
  have l: "?l \<in> insert q (set as)" and r: "?r \<in> insert q (set bs)"
    by (auto simp: hd_append intro: hd_in_set)
  have mid: "links n p q as x" "links n p x bs q"
    using d by (auto simp: dll_def links_append)
  have 1: "links n' p' q as ?r"
    by (rule links_change_end [of n p q as x]) (use mid dist l r n' p' in auto)
  have 2: "links n' p' ?l bs q"
    by (rule links_change_start [of n p x bs q]) (use mid dist l r n' p' in auto)
  show "dll n' p' q (as @ bs)" using 1 2 dist by (auto simp: dll_def links_split)
  show "dll n' p' x []" using n' p' by (simp add: dll_def)
qed

end
