(* ===== verification/Kernel_State.thy ===== *)
theory Kernel_State
  imports Chopstx_Prelude
begin

text \<open>
  The memory of the kernel (\<open>chopstx.c\<close>, \<open>chopstx.h\<close>), one record field per struct
  field: a field maps the address of an object to the value stored there, so that two
  pointers to the same object see the same store. The structs inherit from one another in
  the source (\<open>chx_px\<close> and \<open>chx_thread\<close> start with the fields of \<open>chx_pq\<close>); the records
  extend one another in the same way. The last record holds the global variables and the
  few bits of the processor the kernel writes to.
\<close>

section \<open>Pointers\<close>

text \<open>
  A \<open>struct chx_pq *\<close> points to a thread, to a poll proxy, or (through the casts of the
  list routines) to the head of a queue. Heads are named by the object they are the first
  field of.
\<close>

datatype ptr =
    Thr tid      \<comment> \<open>a \<open>struct chx_thread\<close>\<close>
  | Px addr      \<comment> \<open>a \<open>struct chx_px\<close>, on the stack of \<open>chopstx_poll\<close>\<close>
  | Qready | Qtimer | Qjoin | Qintr
  | Mtxq mid     \<comment> \<open>\<open>&mutex->q\<close>\<close>
  | Condq cid    \<comment> \<open>\<open>&cond->q\<close>\<close>

primrec is_node :: "ptr \<Rightarrow> bool" where
  "is_node (Thr t) = True"
| "is_node (Px x) = True"
| "is_node Qready = False"
| "is_node Qtimer = False"
| "is_node Qjoin = False"
| "is_node Qintr = False"
| "is_node (Mtxq m) = False"
| "is_node (Condq c) = False"

text \<open>The address behind a node pointer: what a cast to another node struct keeps.\<close>

fun node_addr :: "ptr \<Rightarrow> addr" where
  "node_addr (Thr t) = t"
| "node_addr (Px x) = x"
| "node_addr _ = 0"

text \<open>\<open>(struct chx_mtx *)tp->parent\<close>: meant for the parent of a thread that waits for a mutex.\<close>

fun mtx_of :: "ptr option \<Rightarrow> mid option" where
  "mtx_of (Some (Mtxq m)) = Some m"
| "mtx_of _ = None"

section \<open>Thread states\<close>

datatype tstate =
    THREAD_RUNNING
  | THREAD_READY
  | THREAD_WAIT_MTX
  | THREAD_WAIT_CND
  | THREAD_WAIT_TIME
  | THREAD_WAIT_EXIT
  | THREAD_WAIT_POLL
  | THREAD_EXITED
  | THREAD_FINISHED

datatype poll_type = CHOPSTX_POLL_COND | CHOPSTX_POLL_INTR | CHOPSTX_POLL_JOIN

section \<open>Structs\<close>

record pq_mem =
  pq_next :: "ptr \<Rightarrow> ptr"
  pq_prev :: "ptr \<Rightarrow> ptr"
  pq_is_proxy :: "ptr \<Rightarrow> bool"
  pq_prio :: "ptr \<Rightarrow> u8"
  pq_parent :: "ptr \<Rightarrow> ptr option"
  pq_v :: "ptr \<Rightarrow> u32"

record px_mem = pq_mem +
  px_master :: "addr \<Rightarrow> tid"
  px_counter_p :: "addr \<Rightarrow> addr"
  px_ready_p :: "addr \<Rightarrow> addr option"

record thread_mem = px_mem +
  th_state :: "tid \<Rightarrow> tstate"
  flag_detached :: "tid \<Rightarrow> bool"
  flag_got_cancel :: "tid \<Rightarrow> bool"
  flag_join_req :: "tid \<Rightarrow> bool"
  flag_sched_rr :: "tid \<Rightarrow> bool"
  flag_cancelable :: "tid \<Rightarrow> bool"
  prio_orig :: "tid \<Rightarrow> u8"
  mutex_list :: "tid \<Rightarrow> mid option"
  th_clp :: "tid \<Rightarrow> addr option"

text \<open>\<open>struct chx_mtx\<close>; its queue \<open>q\<close> is the head \<open>Mtxq m\<close>.\<close>

record mtx_mem = thread_mem +
  mtx_owner :: "mid \<Rightarrow> tid option"
  mtx_list :: "mid \<Rightarrow> mid option"

text \<open>\<open>struct chx_cleanup\<close>: the routine and its argument are the application's.\<close>

record clp_mem = mtx_mem +
  clp_next :: "addr \<Rightarrow> addr option"
  clp_routine :: "addr \<Rightarrow> addr"
  clp_arg :: "addr \<Rightarrow> addr"

text \<open>
  Poll descriptors: \<open>struct chx_poll_head\<close> and the three structs that extend it;
  \<open>counter\<close> is the memory of the counters on the stacks of callers of \<open>chopstx_poll\<close>.
\<close>

record poll_mem = clp_mem +
  counter :: "addr \<Rightarrow> u32"
  pd_type :: "addr \<Rightarrow> poll_type"
  pd_ready :: "addr \<Rightarrow> u16"
  pd_cond :: "addr \<Rightarrow> cid"
  pd_mutex :: "addr \<Rightarrow> mid option"
  pd_check :: "addr \<Rightarrow> addr"
  pd_arg :: "addr \<Rightarrow> addr"
  pd_thd :: "addr \<Rightarrow> tid"
  pd_irq :: "addr \<Rightarrow> u8"

text \<open>
  Global variables and hardware. \<open>systick\<close> is the SysTick counter (it counts down to zero
  and stops); \<open>masked\<close> says that scheduling interrupts are inhibited (BASEPRI or PRIMASK);
  \<open>pendsv\<close> is the pending bit of PendSV; \<open>nvic_enabled\<close> and \<open>nvic_pending\<close> are the NVIC's
  enable and pending bits.
\<close>

record kst = poll_mem +
  running :: "tid option"
  chx_allow_sleep :: int
  systick :: u32
  masked :: bool
  pendsv :: bool
  nvic_enabled :: "u8 \<Rightarrow> bool"
  nvic_pending :: "u8 \<Rightarrow> bool"

text \<open>
  \<open>running\<close> as the API functions use it: they dereference it without a test, because they
  run on a thread.
\<close>

definition cur :: "'z kst_scheme \<Rightarrow> tid" where
  "cur s = the (running s)"

lemma cur_eq [simp]: "running s = Some t \<Longrightarrow> cur s = t"
  by (simp add: cur_def)

section \<open>A memory to start from\<close>

text \<open>
  Zeroed memory in which every object is linked to itself: the state before any
  initialisation of the kernel; the concrete instances of the properties start here.
\<close>

definition blank :: kst where
  "blank = \<lparr>pq_next = (\<lambda>x. x), pq_prev = (\<lambda>x. x), pq_is_proxy = (\<lambda>x. False), pq_prio = (\<lambda>x. 0),
     pq_parent = (\<lambda>x. None), pq_v = (\<lambda>x. 0),
     px_master = (\<lambda>x. 0), px_counter_p = (\<lambda>x. 0), px_ready_p = (\<lambda>x. None),
     th_state = (\<lambda>x. THREAD_RUNNING), flag_detached = (\<lambda>x. False), flag_got_cancel = (\<lambda>x. False),
     flag_join_req = (\<lambda>x. False), flag_sched_rr = (\<lambda>x. False), flag_cancelable = (\<lambda>x. False),
     prio_orig = (\<lambda>x. 0), mutex_list = (\<lambda>x. None), th_clp = (\<lambda>x. None),
     mtx_owner = (\<lambda>x. None), mtx_list = (\<lambda>x. None),
     clp_next = (\<lambda>x. None), clp_routine = (\<lambda>x. 0), clp_arg = (\<lambda>x. 0),
     counter = (\<lambda>x. 0), pd_type = (\<lambda>x. CHOPSTX_POLL_COND), pd_ready = (\<lambda>x. 0), pd_cond = (\<lambda>x. 0),
     pd_mutex = (\<lambda>x. None), pd_check = (\<lambda>x. 0), pd_arg = (\<lambda>x. 0), pd_thd = (\<lambda>x. 0), pd_irq = (\<lambda>x. 0),
     running = None, chx_allow_sleep = 0, systick = 0, masked = False, pendsv = False,
     nvic_enabled = (\<lambda>x. False), nvic_pending = (\<lambda>x. False)\<rparr>"

end
