(* ===== verification/Linked_List.thy ===== *)
theory Linked_List
  imports Kernel_State
begin

text \<open>
  The doubly linked lists of \<open>chopstx.c\<close> (\<open>ll_empty\<close> to \<open>ll_prio_enqueue\<close>), written
  assignment by assignment on the pointer fields, and their refinement: \<open>wfl\<close> says that
  every queue head of a map \<open>Q\<close> is the head of a circular list that holds exactly the
  elements \<open>Q\<close> lists for it, and each routine changes \<open>Q\<close> in one place only. A loop over
  a list is a \<open>partial_function (option)\<close>: on a corrupted list it may not end, and then
  its value is \<open>None\<close>.
\<close>

section \<open>The routines\<close>

definition ll_empty :: "ptr \<Rightarrow> 'z kst_scheme \<Rightarrow> bool" where
  "ll_empty q s \<longleftrightarrow> q = pq_next s q"

definition ll_dequeue :: "ptr \<Rightarrow> 'z kst_scheme \<Rightarrow> 'z kst_scheme" where
  "ll_dequeue pq s =
     (let s = s\<lparr>pq_prev := (pq_prev s)(pq_next s pq := pq_prev s pq)\<rparr>;
          s = s\<lparr>pq_next := (pq_next s)(pq_prev s pq := pq_next s pq)\<rparr>;
          s = s\<lparr>pq_next := (pq_next s)(pq := pq)\<rparr>
      in s\<lparr>pq_prev := (pq_prev s)(pq := pq)\<rparr>)"

definition ll_insert :: "ptr \<Rightarrow> ptr \<Rightarrow> 'z kst_scheme \<Rightarrow> 'z kst_scheme" where
  "ll_insert pq0 pq s =
     (let s = s\<lparr>pq_next := (pq_next s)(pq0 := pq)\<rparr>;
          s = s\<lparr>pq_prev := (pq_prev s)(pq0 := pq_prev s pq)\<rparr>;
          s = s\<lparr>pq_next := (pq_next s)(pq_prev s pq := pq0)\<rparr>
      in s\<lparr>pq_prev := (pq_prev s)(pq := pq0)\<rparr>)"

definition ll_pop :: "ptr \<Rightarrow> 'z kst_scheme \<Rightarrow> ptr option \<times> 'z kst_scheme" where
  "ll_pop q s =
     (if q = pq_next s q then (None, s)
      else (Some (pq_next s q), ll_dequeue (pq_next s q) s))"

text \<open>
  The search loop of \<open>ll_prio_push\<close> and \<open>ll_prio_enqueue\<close>: from \<open>p\<close>, the first element
  whose priority satisfies \<open>stop\<close>, or the head \<open>q0\<close>.
\<close>

partial_function (option) ll_seek ::
  "(u8 \<Rightarrow> bool) \<Rightarrow> ptr \<Rightarrow> ptr \<Rightarrow> 'z kst_scheme \<Rightarrow> ptr option" where
  "ll_seek stop p q0 s =
     (if p = q0 then Some p
      else if stop (pq_prio s p) then Some p
      else ll_seek stop (pq_next s p) q0 s)"

definition ll_prio_push :: "ptr \<Rightarrow> ptr \<Rightarrow> 'z kst_scheme \<Rightarrow> 'z kst_scheme option" where
  "ll_prio_push pq0 q0 s = do {
     p \<leftarrow> ll_seek (\<lambda>pr. pr \<le> pq_prio s pq0) (pq_next s q0) q0 s;
     Some (ll_insert pq0 p (s\<lparr>pq_parent := (pq_parent s)(pq0 := Some q0)\<rparr>)) }"

definition ll_prio_enqueue :: "ptr \<Rightarrow> ptr \<Rightarrow> 'z kst_scheme \<Rightarrow> 'z kst_scheme option" where
  "ll_prio_enqueue pq0 q0 s = do {
     p \<leftarrow> ll_seek (\<lambda>pr. pr < pq_prio s pq0) (pq_next s q0) q0 s;
     Some (ll_insert pq0 p (s\<lparr>pq_parent := (pq_parent s)(pq0 := Some q0)\<rparr>)) }"

section \<open>The queues of the kernel as lists\<close>

definition wfl :: "(ptr \<Rightarrow> ptr) \<Rightarrow> (ptr \<Rightarrow> ptr) \<Rightarrow> (ptr \<rightharpoonup> ptr list) \<Rightarrow> bool" where
  "wfl n p Q \<longleftrightarrow>
     (\<forall>q xs. Q q = Some xs \<longrightarrow> \<not> is_node q \<and> (\<forall>x \<in> set xs. is_node x) \<and> dll n p q xs) \<and>
     (\<forall>q q' xs xs'. Q q = Some xs \<longrightarrow> Q q' = Some xs' \<longrightarrow> q \<noteq> q' \<longrightarrow> set xs \<inter> set xs' = {})"

abbreviation wfq :: "'z kst_scheme \<Rightarrow> (ptr \<rightharpoonup> ptr list) \<Rightarrow> bool" where
  "wfq s Q \<equiv> wfl (pq_next s) (pq_prev s) Q"

text \<open>A node in no queue, and a node that is moreover linked to itself.\<close>

definition loose :: "(ptr \<rightharpoonup> ptr list) \<Rightarrow> ptr \<Rightarrow> bool" where
  "loose Q x \<longleftrightarrow> is_node x \<and> (\<forall>q xs. Q q = Some xs \<longrightarrow> x \<notin> set xs)"

definition selflinked :: "'z kst_scheme \<Rightarrow> ptr \<Rightarrow> bool" where
  "selflinked s x \<longleftrightarrow> pq_next s x = x \<and> pq_prev s x = x"

text \<open>Relinking keeps the links of the loose nodes other than \<open>X\<close>.\<close>

definition keeps ::
  "'z kst_scheme \<Rightarrow> (ptr \<rightharpoonup> ptr list) \<Rightarrow> ptr set \<Rightarrow> (ptr \<Rightarrow> ptr) \<Rightarrow> (ptr \<Rightarrow> ptr) \<Rightarrow> bool" where
  "keeps s Q X n p \<longleftrightarrow> (\<forall>z. loose Q z \<longrightarrow> z \<notin> X \<longrightarrow> n z = pq_next s z \<and> p z = pq_prev s z)"

lemma keepsD: "keeps s Q X n p \<Longrightarrow> loose Q z \<Longrightarrow> z \<notin> X \<Longrightarrow> n z = pq_next s z \<and> p z = pq_prev s z"
  by (simp add: keeps_def)

lemma wfl_dll: "wfl n p Q \<Longrightarrow> Q q = Some xs \<Longrightarrow> dll n p q xs"
  by (simp add: wfl_def)

lemma wfl_distinct: "wfl n p Q \<Longrightarrow> Q q = Some xs \<Longrightarrow> distinct xs"
  by (auto simp: wfl_def dll_def)

lemma wfl_head: "wfl n p Q \<Longrightarrow> Q q = Some xs \<Longrightarrow> \<not> is_node q"
  by (simp add: wfl_def)

lemma wfl_node: "wfl n p Q \<Longrightarrow> Q q = Some xs \<Longrightarrow> x \<in> set xs \<Longrightarrow> is_node x"
  by (simp add: wfl_def)

lemma wfl_disjoint:
  "wfl n p Q \<Longrightarrow> Q q = Some xs \<Longrightarrow> Q q' = Some xs' \<Longrightarrow> x \<in> set xs \<Longrightarrow> x \<in> set xs' \<Longrightarrow> q = q'"
  unfolding wfl_def by blast

lemma wfl_next: "wfl n p Q \<Longrightarrow> Q q = Some xs \<Longrightarrow> n q = hd (xs @ [q])"
  by (blast dest: wfl_dll dll_next)

lemma looseD: "loose Q x \<Longrightarrow> Q q = Some xs \<Longrightarrow> x \<notin> set xs"
  by (simp add: loose_def)

lemma loose_node: "loose Q x \<Longrightarrow> is_node x"
  by (simp add: loose_def)

text \<open>Changing the links inside one queue's territory leaves the other queues alone.\<close>

lemma wfl_change_one:
  assumes w: "wfl n p Q" and q: "Q q = Some xs"
    and d: "dll n' p' q ys" and nodes: "\<forall>y \<in> set ys. is_node y"
    and ys: "\<And>y. y \<in> set ys \<Longrightarrow> y \<in> set xs \<or> loose Q y"
    and fr: "\<And>z. z \<noteq> q \<Longrightarrow> z \<notin> set xs \<Longrightarrow> \<not> loose Q z \<Longrightarrow> n' z = n z \<and> p' z = p z"
  shows "wfl n' p' (Q(q \<mapsto> ys))"
  unfolding wfl_def
proof (intro conjI allI impI ballI)
  fix q1 zs assume *: "(Q(q \<mapsto> ys)) q1 = Some zs"
  have goal: "\<not> is_node q1 \<and> (\<forall>x \<in> set zs. is_node x) \<and> dll n' p' q1 zs"
  proof (cases "q1 = q")
    case True
    with * d nodes wfl_head [OF w q] show ?thesis by simp
  next
    case ne: False
    have q1: "Q q1 = Some zs" using * ne by simp
    have "n' z = n z \<and> p' z = p z" if "z \<in> insert q1 (set zs)" for z
    proof (rule fr)
      show "z \<noteq> q" using that ne wfl_node [OF w q1] wfl_head [OF w q] by auto
      show "z \<notin> set xs"
        using that wfl_disjoint [OF w q1 q] wfl_head [OF w q1] wfl_node [OF w q] ne by auto
      show "\<not> loose Q z" using that wfl_head [OF w q1] q1 by (auto dest: looseD loose_node)
    qed
    then have "dll n' p' q1 zs = dll n p q1 zs" by (intro dll_cong) auto
    with w q1 show ?thesis by (simp add: wfl_def)
  qed
  show "\<not> is_node q1" and "\<And>x. x \<in> set zs \<Longrightarrow> is_node x" and "dll n' p' q1 zs"
    using goal by auto
next
  fix q1 q2 zs ws
  assume "(Q(q \<mapsto> ys)) q1 = Some zs" "(Q(q \<mapsto> ys)) q2 = Some ws" "q1 \<noteq> q2"
  then show "set zs \<inter> set ws = {}"
    using w q ys unfolding wfl_def loose_def by (auto split: if_splits) blast+
qed

section \<open>The routines on well-formed queues\<close>

lemma ll_empty_iff: "wfq s Q \<Longrightarrow> Q q = Some xs \<Longrightarrow> ll_empty q s \<longleftrightarrow> xs = []"
  using dll_empty_iff [OF wfl_dll] unfolding ll_empty_def by metis

text \<open>
  Each routine that relinks leaves everything but the two link fields alone; its lemma gives
  the new links as \<open>n\<close> and \<open>p\<close> and the lists they represent.
\<close>

lemma ll_insert_wfq:
  assumes w: "wfq s Q" and q: "Q q = Some (as @ bs)" and x: "loose Q x"
    and r: "r = hd (bs @ [q])"
  shows "\<exists>n p. ll_insert x r s = s\<lparr>pq_next := n, pq_prev := p\<rparr> \<and> wfl n p (Q(q \<mapsto> as @ x # bs)) \<and>
    keeps s Q {x} n p"
proof -
  let ?l = "last (q # as)"
  have d: "dll (pq_next s) (pq_prev s) q (as @ bs)" using w q by (rule wfl_dll)
  then have l: "pq_prev s r = ?l"
    using r by (cases bs) (auto dest: dll_prev dll_mid)
  have xq: "x \<notin> insert q (set (as @ bs))"
    using x q w by (auto dest: looseD loose_node wfl_head)
  then have "x \<noteq> r" using r by (auto simp: hd_append split: if_splits)
  define n where "n = (pq_next s)(x := r, ?l := x)"
  define p where "p = (pq_prev s)(x := ?l, r := x)"
  have eq: "ll_insert x r s = s\<lparr>pq_next := n, pq_prev := p\<rparr>"
    using \<open>x \<noteq> r\<close> by (simp add: ll_insert_def Let_def n_def p_def l)
  have "wfl n p (Q(q \<mapsto> as @ x # bs))"
  proof (rule wfl_change_one [OF w q])
    show "dll n p q (as @ x # bs)"
      using d xq by (rule dll_insert) (simp_all add: n_def p_def r)
    show "\<forall>y \<in> set (as @ x # bs). is_node y"
      using w q x by (auto dest: wfl_node loose_node)
    fix z assume z: "z \<noteq> q" "z \<notin> set (as @ bs)" "\<not> loose Q z"
    have "?l \<in> insert q (set as)" "r \<in> insert q (set bs)"
      using r by (auto simp: hd_append intro: hd_in_set)
    with z x have "z \<noteq> ?l" "z \<noteq> r" "z \<noteq> x" by auto
    then show "n z = pq_next s z \<and> p z = pq_prev s z"
      by (simp add: n_def p_def del: last.simps)
  qed (use x in auto)
  moreover have "keeps s Q {x} n p"
    unfolding keeps_def
  proof (intro allI impI)
    fix z assume z: "loose Q z" "z \<notin> {x}"
    have "?l \<in> insert q (set as)" "r \<in> insert q (set bs)"
      using r by (auto simp: hd_append intro: hd_in_set)
    with z q wfl_head [OF w q] have "z \<noteq> ?l" "z \<noteq> r" "z \<noteq> x"
      by (auto dest: looseD loose_node)
    then show "n z = pq_next s z \<and> p z = pq_prev s z"
      by (simp add: n_def p_def del: last.simps)
  qed
  ultimately show ?thesis using eq by blast
qed

lemma ll_dequeue_wfq:
  assumes w: "wfq s Q" and q: "Q q = Some xs" and x: "x \<in> set xs"
  shows "\<exists>n p. ll_dequeue x s = s\<lparr>pq_next := n, pq_prev := p\<rparr> \<and>
    wfl n p (Q(q \<mapsto> remove1 x xs)) \<and> n x = x \<and> p x = x \<and> keeps s Q {} n p"
proof -
  obtain as bs where xs: "xs = as @ x # bs" "x \<notin> set as"
    using x by (metis split_list_first)
  let ?l = "last (q # as)" and ?r = "hd (bs @ [q])"
  have d: "dll (pq_next s) (pq_prev s) q (as @ x # bs)" using w q xs wfl_dll by metis
  have nx: "pq_next s x = ?r" and px: "pq_prev s x = ?l" using dll_mid [OF d] by auto
  have dist: "distinct (q # as @ x # bs)" using d by (simp add: dll_def)
  then have ne: "?r \<noteq> x" "?l \<noteq> x"
    by (auto simp: hd_append split: if_splits)
  define n where "n = (pq_next s)(?l := ?r, x := x)"
  define p where "p = (pq_prev s)(?r := ?l, x := x)"
  have eq: "ll_dequeue x s = s\<lparr>pq_next := n, pq_prev := p\<rparr>"
    using ne by (simp add: ll_dequeue_def Let_def n_def p_def nx px)
  have "remove1 x xs = as @ bs" using xs by (simp add: remove1_append)
  moreover have "wfl n p (Q(q \<mapsto> as @ bs))"
  proof (rule wfl_change_one [OF w q])
    show "dll n p q (as @ bs)"
      by (rule dll_delete(1) [OF d]) (simp_all add: n_def p_def)
    show "\<forall>y \<in> set (as @ bs). is_node y" using w q xs by (auto dest: wfl_node)
    fix z assume z: "z \<noteq> q" "z \<notin> set xs" "\<not> loose Q z"
    have "?l \<in> insert q (set as)" "?r \<in> insert q (set bs)"
      by (auto simp: hd_append intro: hd_in_set)
    with z xs have "z \<noteq> ?l" "z \<noteq> ?r" "z \<noteq> x" by auto
    then show "n z = pq_next s z \<and> p z = pq_prev s z"
      by (simp add: n_def p_def del: last.simps)
  qed (use xs in auto)
  moreover have "n x = x \<and> p x = x" by (simp add: n_def p_def)
  moreover have "keeps s Q {} n p"
    unfolding keeps_def
  proof (intro allI impI)
    fix z assume z: "loose Q z"
    have "?l \<in> insert q (set as)" "?r \<in> insert q (set bs)"
      by (auto simp: hd_append intro: hd_in_set)
    with z q xs wfl_head [OF w q] have "z \<noteq> ?l" "z \<noteq> ?r" "z \<noteq> x"
      by (auto dest: looseD loose_node)
    then show "n z = pq_next s z \<and> p z = pq_prev s z"
      by (simp add: n_def p_def del: last.simps)
  qed
  ultimately show ?thesis using eq by auto
qed

lemma ll_dequeue_frame:
  assumes "ll_dequeue x s = s\<lparr>pq_next := n, pq_prev := p\<rparr>"
    and "pq_next s' = pq_next s" and "pq_prev s' = pq_prev s"
  shows "ll_dequeue x s' = s'\<lparr>pq_next := n, pq_prev := p\<rparr>"
proof -
  have "n = pq_next (ll_dequeue x s)" "p = pq_prev (ll_dequeue x s)" using assms(1) by simp_all
  with assms(2,3) show ?thesis by (simp add: ll_dequeue_def Let_def)
qed

lemma ll_dequeue_selflinked: "selflinked s x \<Longrightarrow> ll_dequeue x s = s"
  by (simp add: ll_dequeue_def Let_def selflinked_def fun_upd_idem)

lemma loose_after_remove:
  assumes w: "wfl n p Q" and q: "Q q = Some xs" and x: "x \<in> set xs"
  shows "loose (Q(q \<mapsto> remove1 x xs)) x"
  unfolding loose_def
proof (intro conjI allI impI)
  show "is_node x" using w q x by (rule wfl_node)
  fix q1 ys assume "(Q(q \<mapsto> remove1 x xs)) q1 = Some ys"
  then show "x \<notin> set ys"
    using wfl_disjoint [OF w _ q _ x] wfl_distinct [OF w q] by (auto split: if_splits)
qed

lemma ll_pop_empty: "wfq s Q \<Longrightarrow> Q q = Some [] \<Longrightarrow> ll_pop q s = (None, s)"
  using ll_empty_iff [of s Q q "[]"] by (simp add: ll_pop_def ll_empty_def)

lemma ll_pop_wfq:
  assumes w: "wfq s Q" and q: "Q q = Some (x # xs)"
  shows "\<exists>n p. ll_pop q s = (Some x, s\<lparr>pq_next := n, pq_prev := p\<rparr>) \<and>
    wfl n p (Q(q \<mapsto> xs)) \<and> n x = x \<and> p x = x \<and> keeps s Q {} n p"
proof -
  have nq: "pq_next s q = x" using wfl_next [OF w q] by simp
  have "q \<noteq> x" using wfl_dll [OF w q] by (simp add: dll_def)
  obtain n p where "ll_dequeue x s = s\<lparr>pq_next := n, pq_prev := p\<rparr>"
    "wfl n p (Q(q \<mapsto> xs))" "n x = x" "p x = x" "keeps s Q {} n p"
    using ll_dequeue_wfq [OF w q, of x] by auto
  with nq \<open>q \<noteq> x\<close> show ?thesis by (auto simp: ll_pop_def)
qed

text \<open>The search loop ends on a well-formed queue.\<close>

lemma ll_seek_links:
  "links (pq_next s) (pq_prev s) a xs q \<Longrightarrow> q \<notin> set xs \<Longrightarrow>
   ll_seek stop (hd (xs @ [q])) q s =
     Some (hd (dropWhile (\<lambda>y. \<not> stop (pq_prio s y)) xs @ [q]))"
proof (induction xs arbitrary: a)
  case Nil
  then show ?case by (simp add: ll_seek.simps)
next
  case (Cons x xs)
  show ?case
  proof (cases "stop (pq_prio s x)")
    case True
    then show ?thesis by (simp add: ll_seek.simps [of _ x])
  next
    case False
    have "pq_next s x = hd (xs @ [q])" using Cons.prems(1) by (auto dest: links_next)
    with False Cons show ?thesis by (auto simp: ll_seek.simps [of _ x])
  qed
qed

lemma ll_seek_wfq:
  assumes w: "wfq s Q" and q: "Q q = Some xs"
  shows "ll_seek stop (pq_next s q) q s =
     Some (hd (dropWhile (\<lambda>y. \<not> stop (pq_prio s y)) xs @ [q]))"
  using wfl_dll [OF w q] wfl_next [OF w q] ll_seek_links [of s q xs q stop]
  by (simp add: dll_def)

lemma ll_prio_enqueue_wfq:
  assumes w: "wfq s Q" and q: "Q q = Some xs" and x: "loose Q x"
  shows "\<exists>n p. ll_prio_enqueue x q s =
      Some (s\<lparr>pq_parent := (pq_parent s)(x := Some q), pq_next := n, pq_prev := p\<rparr>) \<and>
    wfl n p (Q(q \<mapsto> enq_list (pq_prio s) x xs)) \<and> keeps s Q {x} n p"
proof -
  let ?P = "\<lambda>y. pq_prio s x \<le> pq_prio s y"
  let ?s = "s\<lparr>pq_parent := (pq_parent s)(x := Some q)\<rparr>"
  have seek: "ll_seek (\<lambda>pr. pr < pq_prio s x) (pq_next s q) q s = Some (hd (dropWhile ?P xs @ [q]))"
    using ll_seek_wfq [OF w q] by (simp add: not_less)
  have "\<exists>n p. ll_insert x (hd (dropWhile ?P xs @ [q])) ?s = ?s\<lparr>pq_next := n, pq_prev := p\<rparr> \<and>
      wfl n p (Q(q \<mapsto> takeWhile ?P xs @ x # dropWhile ?P xs)) \<and> keeps ?s Q {x} n p"
    by (rule ll_insert_wfq) (use w q x in simp_all)
  then show ?thesis by (auto simp: ll_prio_enqueue_def seek enq_list_def keeps_def)
qed

lemma ll_prio_push_wfq:
  assumes w: "wfq s Q" and q: "Q q = Some xs" and x: "loose Q x"
  shows "\<exists>n p. ll_prio_push x q s =
      Some (s\<lparr>pq_parent := (pq_parent s)(x := Some q), pq_next := n, pq_prev := p\<rparr>) \<and>
    wfl n p (Q(q \<mapsto> push_list (pq_prio s) x xs)) \<and> keeps s Q {x} n p"
proof -
  let ?P = "\<lambda>y. pq_prio s x < pq_prio s y"
  let ?s = "s\<lparr>pq_parent := (pq_parent s)(x := Some q)\<rparr>"
  have seek: "ll_seek (\<lambda>pr. pr \<le> pq_prio s x) (pq_next s q) q s = Some (hd (dropWhile ?P xs @ [q]))"
    using ll_seek_wfq [OF w q] by (simp add: not_le)
  have "\<exists>n p. ll_insert x (hd (dropWhile ?P xs @ [q])) ?s = ?s\<lparr>pq_next := n, pq_prev := p\<rparr> \<and>
      wfl n p (Q(q \<mapsto> takeWhile ?P xs @ x # dropWhile ?P xs)) \<and> keeps ?s Q {x} n p"
    by (rule ll_insert_wfq) (use w q x in simp_all)
  then show ?thesis by (auto simp: ll_prio_push_def seek push_list_def keeps_def)
qed

end
