(* ===== verification/Ready_Queue.thy ===== *)
theory Ready_Queue
  imports Linked_List
begin

text \<open>
  The ready queue (\<open>chx_ready_pop\<close>, \<open>chx_ready_push\<close>, \<open>chx_ready_enqueue\<close>) and the
  interface every priority queue of the kernel offers its clients, the locale
  \<open>prio_queue\<close>: an enqueue that keeps the order and a pop that takes the head. Filling an
  empty queue and draining it again sorts by priority, stably. The spin locks of the source
  are empty on a uniprocessor and leave no trace in the model.
\<close>

section \<open>The operations\<close>

definition chx_ready_pop :: "'z kst_scheme \<Rightarrow> tid option \<times> 'z kst_scheme" where
  "chx_ready_pop s =
     (case ll_pop Qready s of
        (None, s) \<Rightarrow> (None, s)
      | (Some p, s) \<Rightarrow>
          (let tp = node_addr p
           in (Some tp, s\<lparr>th_state := (th_state s)(tp := THREAD_RUNNING)\<rparr>)))"

definition chx_ready_push :: "tid \<Rightarrow> 'z kst_scheme \<Rightarrow> 'z kst_scheme option" where
  "chx_ready_push tp s =
     ll_prio_push (Thr tp) Qready (s\<lparr>th_state := (th_state s)(tp := THREAD_READY)\<rparr>)"

definition chx_ready_enqueue :: "tid \<Rightarrow> 'z kst_scheme \<Rightarrow> 'z kst_scheme option" where
  "chx_ready_enqueue tp s =
     ll_prio_enqueue (Thr tp) Qready (s\<lparr>th_state := (th_state s)(tp := THREAD_READY)\<rparr>)"

section \<open>Their effect on well-formed queues\<close>

text \<open>A node that is linked to itself is in no queue.\<close>

lemma selflinked_loose:
  assumes w: "wfq s Q" and x: "is_node x" "selflinked s x"
  shows "loose Q x"
  unfolding loose_def
proof (intro conjI allI impI notI)
  fix q xs assume q: "Q q = Some xs" and mem: "x \<in> set xs"
  obtain as bs where xs: "xs = as @ x # bs" using mem by (metis split_list)
  have d: "dll (pq_next s) (pq_prev s) q (as @ x # bs)" using wfl_dll [OF w q] xs by simp
  then have "distinct (q # as @ x # bs)" by (simp add: dll_def)
  moreover have "hd (bs @ [q]) = x" using dll_mid [OF d] x by (simp add: selflinked_def)
  ultimately show False by (cases bs) auto
qed (rule x(1))

lemma chx_ready_enqueue_wfq:
  assumes "wfq s Q" and "Q Qready = Some xs" and "loose Q (Thr t)"
  shows "\<exists>n p. chx_ready_enqueue t s =
      Some (s\<lparr>th_state := (th_state s)(t := THREAD_READY),
              pq_parent := (pq_parent s)(Thr t := Some Qready), pq_next := n, pq_prev := p\<rparr>) \<and>
    wfl n p (Q(Qready \<mapsto> enq_list (pq_prio s) (Thr t) xs)) \<and>
    keeps s Q {Thr t} n p"
  using ll_prio_enqueue_wfq [of "s\<lparr>th_state := (th_state s)(t := THREAD_READY)\<rparr>" Q] assms
  by (simp add: chx_ready_enqueue_def keeps_def)

lemma chx_ready_push_wfq:
  assumes "wfq s Q" and "Q Qready = Some xs" and "loose Q (Thr t)"
  shows "\<exists>n p. chx_ready_push t s =
      Some (s\<lparr>th_state := (th_state s)(t := THREAD_READY),
              pq_parent := (pq_parent s)(Thr t := Some Qready), pq_next := n, pq_prev := p\<rparr>) \<and>
    wfl n p (Q(Qready \<mapsto> push_list (pq_prio s) (Thr t) xs)) \<and>
    keeps s Q {Thr t} n p"
  using ll_prio_push_wfq [of "s\<lparr>th_state := (th_state s)(t := THREAD_READY)\<rparr>" Q] assms
  by (simp add: chx_ready_push_def keeps_def)

lemma chx_ready_pop_empty:
  "wfq s Q \<Longrightarrow> Q Qready = Some [] \<Longrightarrow> chx_ready_pop s = (None, s)"
  by (simp add: chx_ready_pop_def ll_pop_empty)

lemma chx_ready_pop_wfq:
  assumes "wfq s Q" and "Q Qready = Some (Thr t # xs)"
  shows "\<exists>n p. chx_ready_pop s =
      (Some t, s\<lparr>th_state := (th_state s)(t := THREAD_RUNNING), pq_next := n, pq_prev := p\<rparr>) \<and>
    wfl n p (Q(Qready \<mapsto> xs)) \<and> n (Thr t) = Thr t \<and> p (Thr t) = Thr t \<and>
    keeps s Q {} n p"
proof -
  obtain n p where "ll_pop Qready s = (Some (Thr t), s\<lparr>pq_next := n, pq_prev := p\<rparr>)"
    "wfl n p (Q(Qready \<mapsto> xs))" "n (Thr t) = Thr t" "p (Thr t) = Thr t" "keeps s Q {} n p"
    using ll_pop_wfq [OF assms] by blast
  then show ?thesis by (intro exI [of _ n] exI [of _ p]) (simp add: chx_ready_pop_def Let_def)
qed

section \<open>Priority queues as an interface\<close>

text \<open>
  \<open>rep s xs\<close>: the queue holds \<open>xs\<close> in state \<open>s\<close>; \<open>free s x\<close>: \<open>x\<close> is in no queue;
  \<open>key s x\<close>: its priority.
\<close>

fun enq_all :: "('e \<Rightarrow> 's \<Rightarrow> 's option) \<Rightarrow> 'e list \<Rightarrow> 's \<Rightarrow> 's option" where
  "enq_all enq [] s = Some s"
| "enq_all enq (x # xs) s = do { s \<leftarrow> enq x s; enq_all enq xs s }"

fun pop_n :: "('s \<Rightarrow> 'e option \<times> 's) \<Rightarrow> nat \<Rightarrow> 's \<Rightarrow> 'e list" where
  "pop_n pop 0 s = []"
| "pop_n pop (Suc n) s =
     (case pop s of (None, s) \<Rightarrow> [] | (Some x, s) \<Rightarrow> x # pop_n pop n s)"

locale prio_queue =
  fixes rep :: "'s \<Rightarrow> 'e list \<Rightarrow> bool"
    and free :: "'s \<Rightarrow> 'e \<Rightarrow> bool"
    and key :: "'s \<Rightarrow> 'e \<Rightarrow> 'k::linorder"
    and enq :: "'e \<Rightarrow> 's \<Rightarrow> 's option"
    and pop :: "'s \<Rightarrow> 'e option \<times> 's"
  assumes enq_law: "rep s xs \<Longrightarrow> free s x \<Longrightarrow>
      \<exists>s'. enq x s = Some s' \<and> rep s' (enq_list (key s) x xs) \<and> key s' = key s \<and>
           (\<forall>y. y \<noteq> x \<longrightarrow> free s y \<longrightarrow> free s' y)"
    and pop_Nil_law: "rep s [] \<Longrightarrow> pop s = (None, s)"
    and pop_Cons_law: "rep s (x # xs) \<Longrightarrow>
      \<exists>s'. pop s = (Some x, s') \<and> rep s' xs \<and> key s' = key s \<and> free s' x"
begin

lemma pop_highest:
  assumes "rep s xs" and "desc (key s) xs" and "xs \<noteq> []"
  shows "\<exists>x s'. pop s = (Some x, s') \<and> rep s' (tl xs) \<and> (\<forall>y \<in> set xs. key s y \<le> key s x)"
  using assms pop_Cons_law [of s "hd xs" "tl xs"] desc_hd [OF assms(2)]
  by (cases xs) force+

lemma pop_n_rep: "rep s xs \<Longrightarrow> pop_n pop (length xs) s = xs"
proof (induction xs arbitrary: s)
  case (Cons x xs)
  obtain s' where "pop s = (Some x, s')" "rep s' xs" using pop_Cons_law [OF Cons.prems] by blast
  with Cons.IH show ?case by simp
qed simp

lemma enq_all_rep:
  "rep s ys \<Longrightarrow> desc (key s) ys \<Longrightarrow> distinct xs \<Longrightarrow> (\<forall>x \<in> set xs. free s x) \<Longrightarrow>
   \<exists>s' zs. enq_all enq xs s = Some s' \<and> rep s' zs \<and> key s' = key s \<and> desc (key s) zs \<and>
     length zs = length ys + length xs \<and> set zs = set ys \<union> set xs \<and>
     (\<forall>k. [y \<leftarrow> zs. key s y = k] = [y \<leftarrow> ys. key s y = k] @ [x \<leftarrow> xs. key s x = k])"
proof (induction xs arbitrary: s ys)
  case (Cons x xs)
  obtain s1 where s1: "enq x s = Some s1" "rep s1 (enq_list (key s) x ys)" "key s1 = key s"
      "\<forall>y. y \<noteq> x \<longrightarrow> free s y \<longrightarrow> free s1 y"
    using enq_law [OF Cons.prems(1), of x] Cons.prems(4) by auto
  have "\<forall>y \<in> set xs. free s1 y" using s1(4) Cons.prems(3,4) by auto
  then obtain s' zs where "enq_all enq xs s1 = Some s'" "rep s' zs" "key s' = key s1"
      "desc (key s1) zs" "length zs = length (enq_list (key s) x ys) + length xs"
      "set zs = set (enq_list (key s) x ys) \<union> set xs"
      "\<forall>k. [y \<leftarrow> zs. key s1 y = k] =
        [y \<leftarrow> enq_list (key s) x ys. key s1 y = k] @ [x \<leftarrow> xs. key s1 x = k]"
    using Cons.IH [OF s1(2)] s1(3) Cons.prems(2,3) desc_enq_list by (metis distinct.simps(2))
  with s1 show ?case by (auto simp: enq_list_fifo [OF Cons.prems(2)])
qed auto

text \<open>Enqueueing distinct elements and popping them all sorts them, stably.\<close>

lemma fill_drain:
  assumes "rep s []" and "distinct xs" and "\<forall>x \<in> set xs. free s x"
  shows "\<exists>s' zs. enq_all enq xs s = Some s' \<and> pop_n pop (length xs) s' = zs \<and>
    desc (key s) zs \<and> set zs = set xs \<and>
    (\<forall>k. [y \<leftarrow> zs. key s y = k] = [x \<leftarrow> xs. key s x = k])"
  using enq_all_rep [OF assms(1) _ assms(2,3)] pop_n_rep by fastforce

end

section \<open>The ready queue as a priority queue\<close>

definition ready_rep :: "'z kst_scheme \<Rightarrow> tid list \<Rightarrow> bool" where
  "ready_rep s ts \<longleftrightarrow> (\<exists>Q. wfq s Q \<and> Q Qready = Some (map Thr ts))"

definition thread_free :: "'z kst_scheme \<Rightarrow> tid \<Rightarrow> bool" where
  "thread_free s t \<longleftrightarrow> selflinked s (Thr t)"

definition thread_prio :: "'z kst_scheme \<Rightarrow> tid \<Rightarrow> u8" where
  "thread_prio s t = pq_prio s (Thr t)"

lemma enq_list_map: "enq_list f (g x) (map g xs) = map g (enq_list (\<lambda>y. f (g y)) x xs)"
  by (induction xs) auto

interpretation ready: prio_queue ready_rep thread_free thread_prio chx_ready_enqueue chx_ready_pop
proof
  fix s :: "'z kst_scheme" and xs x
  assume r: "ready_rep s xs" and f: "thread_free s x"
  then obtain Q where w: "wfq s Q" and q: "Q Qready = Some (map Thr xs)"
    by (auto simp: ready_rep_def)
  have l: "loose Q (Thr x)" using w f by (auto simp: thread_free_def intro: selflinked_loose)
  obtain n p where e: "chx_ready_enqueue x s =
      Some (s\<lparr>th_state := (th_state s)(x := THREAD_READY),
              pq_parent := (pq_parent s)(Thr x := Some Qready), pq_next := n, pq_prev := p\<rparr>)"
    and w': "wfl n p (Q(Qready \<mapsto> enq_list (pq_prio s) (Thr x) (map Thr xs)))"
    and k: "keeps s Q {Thr x} n p"
    using chx_ready_enqueue_wfq [OF w q l] by blast
  have "selflinked s (Thr y) \<Longrightarrow> y \<noteq> x \<Longrightarrow> n (Thr y) = Thr y \<and> p (Thr y) = Thr y" for y
    using keepsD [OF k, of "Thr y"] selflinked_loose [OF w, of "Thr y"]
    by (simp add: selflinked_def)
  then show "\<exists>s'. chx_ready_enqueue x s = Some s' \<and>
      ready_rep s' (enq_list (thread_prio s) x xs) \<and> thread_prio s' = thread_prio s \<and>
      (\<forall>y. y \<noteq> x \<longrightarrow> thread_free s y \<longrightarrow> thread_free s' y)"
    using e w' unfolding enq_list_map
    by (auto simp: ready_rep_def thread_free_def thread_prio_def [abs_def] selflinked_def
        intro!: exI [of _ "Q(Qready \<mapsto> map Thr (enq_list (\<lambda>y. pq_prio s (Thr y)) x xs))"])
next
  fix s :: "'z kst_scheme"
  assume "ready_rep s []"
  then show "chx_ready_pop s = (None, s)"
    by (auto simp: ready_rep_def chx_ready_pop_empty)
next
  fix s :: "'z kst_scheme" and x xs
  assume "ready_rep s (x # xs)"
  then obtain Q where w: "wfq s Q" and q: "Q Qready = Some (Thr x # map Thr xs)"
    by (auto simp: ready_rep_def)
  show "\<exists>s'. chx_ready_pop s = (Some x, s') \<and> ready_rep s' xs \<and> thread_prio s' = thread_prio s \<and>
      thread_free s' x"
    using chx_ready_pop_wfq [OF w q]
    by (auto simp: ready_rep_def thread_free_def thread_prio_def [abs_def] selflinked_def
        intro!: exI [of _ "Q(Qready \<mapsto> map Thr xs)"])
qed

section \<open>Properties\<close>

lemma no_queues: "wfl n p [q \<mapsto> []] \<longleftrightarrow> \<not> is_node q \<and> n q = q \<and> p q = q"
  by (auto simp: wfl_def dll_def)

text \<open>
  The ready queue sorts stably: distinct threads enqueued by \<open>chx_ready_enqueue\<close> into an
  empty ready queue, then taken out one by one by \<open>chx_ready_pop\<close>, come out with the highest
  priority first, and threads of the same priority in the order they were enqueued.
\<close>

lemma ready_queue_stable_sort:
  assumes "wfq s Q" and "Q Qready = Some []" and "distinct ts"
    and "\<forall>t \<in> set ts. selflinked s (Thr t)"
  shows "\<exists>s' us. enq_all chx_ready_enqueue ts s = Some s' \<and>
    pop_n chx_ready_pop (length ts) s' = us \<and> desc (\<lambda>t. pq_prio s (Thr t)) us \<and>
    set us = set ts \<and>
    (\<forall>k. [t \<leftarrow> us. pq_prio s (Thr t) = k] = [t \<leftarrow> ts. pq_prio s (Thr t) = k])"
proof -
  have "ready_rep s []" using assms(1,2) by (auto simp: ready_rep_def)
  then show ?thesis using ready.fill_drain [of s ts] assms(3,4)
    by (simp add: thread_free_def thread_prio_def [abs_def])
qed

lemma ready_queue_stable_sort_witness:
  "\<exists>s' us. enq_all chx_ready_enqueue [1, 2, 3] (blank\<lparr>pq_prio := (\<lambda>x. 0)(Thr 2 := 7)\<rparr>) = Some s' \<and>
    pop_n chx_ready_pop 3 s' = us \<and> set us = {1, 2, 3} \<and>
    [t \<leftarrow> us. (if t = 2 then 7 else 0 :: u8) = 7] = [2] \<and> [t \<leftarrow> us. (if t = 2 then 7 else 0 :: u8) = 0] = [1, 3]"
proof -
  let ?s = "blank\<lparr>pq_prio := (\<lambda>x. 0)(Thr 2 := 7)\<rparr>"
  have f: "(\<lambda>t. pq_prio ?s (Thr t)) = (\<lambda>t. if t = 2 then 7 else 0)" by auto
  have "\<exists>s' us. enq_all chx_ready_enqueue [1, 2, 3] ?s = Some s' \<and>
    pop_n chx_ready_pop (length [1, 2, 3 :: tid]) s' = us \<and> desc (\<lambda>t. pq_prio ?s (Thr t)) us \<and>
    set us = set [1, 2, 3] \<and>
    (\<forall>k. [t \<leftarrow> us. pq_prio ?s (Thr t) = k] = [t \<leftarrow> [1, 2, 3]. pq_prio ?s (Thr t) = k])"
    by (rule ready_queue_stable_sort [of _ "[Qready \<mapsto> []]"])
      (simp_all add: no_queues blank_def selflinked_def)
  then obtain s' us where "enq_all chx_ready_enqueue [1, 2, 3] ?s = Some s'"
    "pop_n chx_ready_pop 3 s' = us" "set us = {1, 2, 3}"
    and k: "\<And>k. [t \<leftarrow> us. pq_prio ?s (Thr t) = k] = [t \<leftarrow> [1, 2, 3]. pq_prio ?s (Thr t) = k]"
    by (auto simp del: pop_n.simps enq_all.simps simp: numeral_3_eq_3)
  then show ?thesis using k [of 7] k [of 0]
    by (intro exI [of _ s'] exI [of _ us]) (simp del: pop_n.simps enq_all.simps)
qed

end
