(* ===== verification/Cortex_M.thy ===== *)
theory Cortex_M
  imports Ready_Queue
begin

text \<open>
  The processor layer of \<open>chopstx-cortex-m.c\<close> that the portable code calls: SysTick, the
  NVIC, the scheduling lock and the request of PendSV. The hardware registers are fields
  of the state; the model keeps the effect of a write that the kernel relies on (a reload
  of SysTick sets its counter, which then runs down to zero and stops; ISER and ICER
  writes set and clear one enable bit, ICPR writes clear one pending bit). Barriers and
  interrupt priorities have no state in the model.
\<close>

definition MHZ :: u32 where "MHZ = 72"

definition CHOPSTX_PRIO_INHIBIT_PREEMPTION :: u8 where
  "CHOPSTX_PRIO_INHIBIT_PREEMPTION = 248"

section \<open>SysTick\<close>

definition chx_systick_reset :: "'z kst_scheme \<Rightarrow> 'z kst_scheme" where
  "chx_systick_reset s = s\<lparr>systick := 0\<rparr>"

definition chx_systick_reload :: "u32 \<Rightarrow> 'z kst_scheme \<Rightarrow> 'z kst_scheme" where
  "chx_systick_reload ticks s = s\<lparr>systick := ticks\<rparr>"

definition chx_systick_get :: "'z kst_scheme \<Rightarrow> u32" where
  "chx_systick_get s = systick s"

definition usec_to_ticks :: "u32 \<Rightarrow> u32" where
  "usec_to_ticks usec = usec * MHZ"

section \<open>Interrupt controller\<close>

definition chx_enable_intr :: "u8 \<Rightarrow> 'z kst_scheme \<Rightarrow> 'z kst_scheme" where
  "chx_enable_intr irq s = s\<lparr>nvic_enabled := (nvic_enabled s)(irq := True)\<rparr>"

definition chx_clr_intr :: "u8 \<Rightarrow> 'z kst_scheme \<Rightarrow> 'z kst_scheme" where
  "chx_clr_intr irq s = s\<lparr>nvic_pending := (nvic_pending s)(irq := False)\<rparr>"

definition chx_disable_intr :: "u8 \<Rightarrow> 'z kst_scheme \<Rightarrow> 'z kst_scheme" where
  "chx_disable_intr irq s = s\<lparr>nvic_enabled := (nvic_enabled s)(irq := False)\<rparr>"

section \<open>The scheduling lock\<close>

definition chx_cpu_sched_lock :: "'z kst_scheme \<Rightarrow> 'z kst_scheme" where
  "chx_cpu_sched_lock s =
     (if pq_prio s (Thr (cur s)) < CHOPSTX_PRIO_INHIBIT_PREEMPTION then s\<lparr>masked := True\<rparr> else s)"

definition chx_cpu_sched_unlock :: "'z kst_scheme \<Rightarrow> 'z kst_scheme" where
  "chx_cpu_sched_unlock s =
     (if pq_prio s (Thr (cur s)) < CHOPSTX_PRIO_INHIBIT_PREEMPTION then s\<lparr>masked := False\<rparr> else s)"

text \<open>\<open>prio\<close> is 16 bits wide: \<open>MAX_PRIO\<close> (256) exceeds every thread priority.\<close>

definition MAX_PRIO :: u16 where "MAX_PRIO = 255 + 1"

definition chx_request_preemption :: "u16 \<Rightarrow> 'z kst_scheme \<Rightarrow> 'z kst_scheme" where
  "chx_request_preemption prio s =
     (if running s = None \<or> ucast (pq_prio s (Thr (cur s))) < prio
      then s\<lparr>pendsv := True\<rparr> else s)"

lemma unat_u8_less: "unat (p :: u8) < 256"
  using unsigned_less [where w = p] by simp

lemma ucast_u8_u16: "unat (ucast (p :: u8) :: u16) = unat p"
  using unat_u8_less [of p] by (simp add: unsigned_ucast_eq take_bit_nat_eq_self)

lemma prio_below_MAX_PRIO: "(ucast (p :: u8) :: u16) < MAX_PRIO"
  using unat_u8_less [of p] by (simp add: MAX_PRIO_def word_less_nat_alt ucast_u8_u16)

lemma request_MAX_PRIO: "chx_request_preemption MAX_PRIO s = s\<lparr>pendsv := True\<rparr>"
  by (simp add: chx_request_preemption_def prio_below_MAX_PRIO)

lemmas arch_defs = chx_systick_reset_def chx_systick_reload_def chx_systick_get_def
  chx_enable_intr_def chx_clr_intr_def chx_disable_intr_def
  chx_cpu_sched_lock_def chx_cpu_sched_unlock_def

end
