(* ===== verification/Timer_Queue.thy ===== *)
theory Timer_Queue
  imports Cortex_M
begin

text \<open>
  The timer queue of \<open>chopstx.c\<close>: a list of threads in order of expiry, SysTick counting
  down to the first, each thread's \<open>v\<close> holding the ticks from its own expiry to the next
  one's. The abstraction \<open>timer_abs\<close> turns the differences into absolute ticks; the
  operations are shown to insert into, delete from and expire that abstract list.
\<close>

section \<open>The operations\<close>

definition chx_set_timer :: "ptr \<Rightarrow> u32 \<Rightarrow> 'z kst_scheme \<Rightarrow> 'z kst_scheme" where
  "chx_set_timer tp ticks s =
     (if tp = Qtimer then chx_systick_reload ticks s
      else s\<lparr>pq_v := (pq_v s)(tp := ticks)\<rparr>)"

text \<open>
  The loop of \<open>chx_timer_insert\<close> with the code after it: the loop ends by \<open>break\<close> after
  an insertion in front of \<open>p\<close>, or at the head, where the thread becomes the last entry.
\<close>

partial_function (option) timer_insert_loop ::
  "tid \<Rightarrow> ptr \<Rightarrow> u32 \<Rightarrow> u32 \<Rightarrow> 'z kst_scheme \<Rightarrow> 'z kst_scheme option" where
  "timer_insert_loop tp p ticks next_ticks s =
     (if p = Qtimer then
        (let s = s\<lparr>pq_parent := (pq_parent s)(Thr tp := Some Qtimer)\<rparr>;
             s = ll_insert (Thr tp) p s;
             s = chx_set_timer (pq_prev s (Thr tp)) ticks s
         in Some (chx_set_timer (Thr tp) 1 s))
      else if ticks < next_ticks then
        (let s = s\<lparr>pq_parent := (pq_parent s)(Thr tp := Some Qtimer)\<rparr>;
             s = ll_insert (Thr tp) p s;
             s = chx_set_timer (pq_prev s (Thr tp)) ticks s
         in Some (chx_set_timer (Thr tp) (next_ticks - ticks) s))
      else timer_insert_loop tp (pq_next s p) (ticks - next_ticks) (pq_v s p) s)"

definition chx_timer_insert :: "tid \<Rightarrow> u32 \<Rightarrow> 'z kst_scheme \<Rightarrow> 'z kst_scheme option" where
  "chx_timer_insert tp usec s =
     timer_insert_loop tp (pq_next s Qtimer) (usec_to_ticks usec) (chx_systick_get s) s"

text \<open>The loop of \<open>chx_timer_dequeue\<close>: \<open>ticks_remained += p->v\<close> up to \<open>tp\<close>.\<close>

partial_function (option) timer_sum ::
  "tid \<Rightarrow> ptr \<Rightarrow> u32 \<Rightarrow> 'z kst_scheme \<Rightarrow> u32 option" where
  "timer_sum tp p acc s =
     (if p = Thr tp then Some acc
      else timer_sum tp (pq_next s p) (acc + pq_v s p) s)"

definition chx_timer_dequeue :: "tid \<Rightarrow> 'z kst_scheme \<Rightarrow> (u32 \<times> 'z kst_scheme) option" where
  "chx_timer_dequeue tp s = do {
     let ticks_remained = chx_systick_get s;
     let tp_prev = pq_prev s (Thr tp);
     (ticks_remained, s) \<leftarrow>
       (if tp_prev = Qtimer then
          (if pq_next s (Thr tp) = Qtimer
           then Some (ticks_remained, chx_systick_reload 0 s)
           else Some (ticks_remained, chx_systick_reload (ticks_remained + pq_v s (Thr tp)) s))
        else do {
          ticks_remained \<leftarrow> timer_sum tp (pq_next s Qtimer) ticks_remained s;
          Some (ticks_remained,
                s\<lparr>pq_v := (pq_v s)(tp_prev := pq_v s tp_prev + pq_v s (Thr tp))\<rparr>) });
     let s = ll_dequeue (Thr tp) s;
     Some (ticks_remained, s\<lparr>pq_v := (pq_v s)(Thr tp := 0)\<rparr>) }"

text \<open>The priority \<open>chx_timer_expired\<close> will ask a preemption for, updated for one thread.\<close>

definition expired_prio :: "tid \<Rightarrow> u16 \<Rightarrow> 'z kst_scheme \<Rightarrow> u16" where
  "expired_prio tp prio s =
     (if running s = Some tp then MAX_PRIO
      else if prio < ucast (pq_prio s (Thr tp)) then ucast (pq_prio s (Thr tp))
      else prio)"

partial_function (option) timer_expire_loop ::
  "ptr \<Rightarrow> u32 \<Rightarrow> u16 \<Rightarrow> 'z kst_scheme \<Rightarrow> (u32 \<times> u16 \<times> 'z kst_scheme) option" where
  "timer_expire_loop p next_tick prio s =
     (if p \<noteq> Qtimer \<and> next_tick = 0 then do {
        let tp = node_addr p;
        let next_tick = pq_v s (Thr tp);
        let s = s\<lparr>pq_v := (pq_v s)(Thr tp := 0)\<rparr>;
        let tp_next = pq_next s (Thr tp);
        let s = ll_dequeue (Thr tp) s;
        s \<leftarrow> chx_ready_enqueue tp s;
        timer_expire_loop tp_next next_tick (expired_prio tp prio s) s }
      else Some (next_tick, prio, s))"

definition chx_timer_expired :: "'z kst_scheme \<Rightarrow> 'z kst_scheme option" where
  "chx_timer_expired s = do {
     (prio, s) \<leftarrow>
       (case ll_pop Qtimer s of
          (None, s) \<Rightarrow> Some (0, s)
        | (Some p, s) \<Rightarrow> do {
            let tp = node_addr p;
            let next_tick = pq_v s (Thr tp);
            let s = s\<lparr>pq_v := (pq_v s)(Thr tp := 0)\<rparr>;
            s \<leftarrow> chx_ready_enqueue tp s;
            let prio = expired_prio tp 0 s;
            if \<not> ll_empty Qtimer s then do {
              (next_tick, prio, s) \<leftarrow> timer_expire_loop (pq_next s Qtimer) next_tick prio s;
              Some (prio, if \<not> ll_empty Qtimer s then chx_set_timer Qtimer next_tick s else s) }
            else Some (prio, s) });
     Some (chx_request_preemption prio s) }"

section \<open>Absolute expiry times\<close>

text \<open>
  The value that says when the successor of \<open>x\<close> expires: SysTick for the head, \<open>v\<close> for an
  entry (the two cases of \<open>chx_set_timer\<close>).
\<close>

definition tval :: "'z kst_scheme \<Rightarrow> ptr \<Rightarrow> u32" where
  "tval s x = (if x = Qtimer then systick s else pq_v s x)"

fun deadlines :: "(ptr \<Rightarrow> nat) \<Rightarrow> nat \<Rightarrow> ptr list \<Rightarrow> (ptr \<times> nat) list" where
  "deadlines f c [] = []"
| "deadlines f c (x # xs) = (x, c) # deadlines f (c + f x) xs"

definition timer_abs :: "'z kst_scheme \<Rightarrow> ptr list \<Rightarrow> (ptr \<times> nat) list" where
  "timer_abs s xs = deadlines (\<lambda>x. unat (tval s x)) (unat (tval s Qtimer)) xs"

lemma timer_abs_cong:
  "systick s = systick s' \<Longrightarrow> pq_v s = pq_v s' \<Longrightarrow> timer_abs s = timer_abs s'"
  by (simp add: timer_abs_def [abs_def] tval_def [abs_def] cong: if_cong)

text \<open>Insertion into the abstract list: behind every entry that expires no later.\<close>

fun timer_ins :: "ptr \<Rightarrow> nat \<Rightarrow> (ptr \<times> nat) list \<Rightarrow> (ptr \<times> nat) list" where
  "timer_ins x k [] = [(x, k)]"
| "timer_ins x k ((y, d) # ds) = (if d \<le> k then (y, d) # timer_ins x k ds else (x, k) # (y, d) # ds)"

lemma map_fst_deadlines [simp]: "map fst (deadlines f c xs) = xs"
  by (induction xs arbitrary: c) auto

lemma map_fst_timer_abs [simp]: "map fst (timer_abs s xs) = xs"
  by (simp add: timer_abs_def)

lemma set_timer_ins [simp]: "set (timer_ins x k ds) = insert (x, k) (set ds)"
  by (induction x k ds rule: timer_ins.induct) auto

lemma deadlines_append:
  "deadlines f c (xs @ ys) = deadlines f c xs @ deadlines f (c + sum_list (map f xs)) ys"
  by (induction xs arbitrary: c) (auto simp: add.assoc)

lemma deadlines_cong:
  "(\<And>x. x \<in> set xs \<Longrightarrow> f x = g x) \<Longrightarrow> deadlines f c xs = deadlines g c xs"
  by (induction xs arbitrary: c) auto

lemma deadlines_ge: "(x, d) \<in> set (deadlines f c xs) \<Longrightarrow> c \<le> d"
  by (induction xs arbitrary: c) force+

lemma deadlines_sorted: "sorted (map snd (deadlines f c xs))"
  by (induction xs arbitrary: c) (auto dest: deadlines_ge order_trans [OF le_add1])

lemma sorted_timer_ins: "sorted (map snd ds) \<Longrightarrow> sorted (map snd (timer_ins x k ds))"
  by (induction x k ds rule: timer_ins.induct) auto

text \<open>
  The pure core of insertion: giving \<open>k'\<close> to the entry in front and the rest of its
  difference to the new entry inserts one deadline and moves no other.
\<close>

lemma deadlines_insert:
  "distinct (a # bs1 @ x # bs2) \<Longrightarrow> K = sum_list (map f (butlast (a # bs1))) + k' \<Longrightarrow>
   f' (last (a # bs1)) = k' \<Longrightarrow>
   (bs2 \<noteq> [] \<Longrightarrow> k' < f (last (a # bs1)) \<and> f' x = f (last (a # bs1)) - k') \<Longrightarrow>
   (\<And>y. y \<in> set (a # bs1 @ bs2) \<Longrightarrow> y \<noteq> last (a # bs1) \<Longrightarrow> f' y = f y) \<Longrightarrow>
   deadlines f' (c + f' a) (bs1 @ x # bs2) = timer_ins x (c + K) (deadlines f (c + f a) (bs1 @ bs2))"
proof (induction bs1 arbitrary: a c K)
  case Nil
  show ?case
  proof (cases bs2)
    case (Cons y ys)
    have "deadlines f' c' bs2 = deadlines f c' bs2" for c'
      by (rule deadlines_cong) (use Nil Cons in auto)
    with Nil Cons show ?thesis by simp
  qed (use Nil in simp)
next
  case (Cons b bs1)
  have fa: "f' a = f a" using Cons.prems(1,5) by (metis append_Cons distinct.simps(2)
        in_set_conv_decomp last.simps last_in_set list.distinct(1) list.set_intros(1) Un_iff set_append)
  have "deadlines f' (c + f a + f' b) (bs1 @ x # bs2) =
      timer_ins x (c + f a + (K - f a)) (deadlines f (c + f a + f b) (bs1 @ bs2))"
    by (rule Cons.IH) (use Cons.prems in auto)
  with Cons.prems fa show ?case by (simp add: add.assoc)
qed

lemma filter_deadlines_notin:
  "x \<notin> set xs \<Longrightarrow> [(y, d) \<leftarrow> deadlines f c xs. y \<noteq> x] = deadlines f c xs"
  by (induction xs arbitrary: c) auto

lemma deadlines_delete:
  assumes "distinct (a # as @ x # bs)"
    and "bs \<noteq> [] \<Longrightarrow> f' (last (a # as)) = f (last (a # as)) + f x"
    and "\<And>y. y \<in> set (a # as @ bs) \<Longrightarrow> y \<noteq> last (a # as) \<Longrightarrow> f' y = f y"
  shows "deadlines f' (c + f' a) (as @ bs) = [(y, d) \<leftarrow> deadlines f (c + f a) (as @ x # bs). y \<noteq> x]"
  using assms
proof (induction as arbitrary: a c)
  case Nil
  have eq: "deadlines f' c' bs = deadlines f c' bs" for c'
    by (rule deadlines_cong) (use Nil in auto)
  have "x \<notin> set bs" and "bs \<noteq> [] \<Longrightarrow> f' a = f a + f x" using Nil.prems by auto
  then show ?case by (cases "bs = []") (simp_all add: eq filter_deadlines_notin add.assoc)
next
  case (Cons b as)
  have "a \<noteq> last (b # as)" using Cons.prems(1)
    by (metis Un_iff distinct.simps(2) last_in_set list.distinct(1) set_append append_Cons)
  then have fa: "f' a = f a" using Cons.prems(3) by simp
  have "deadlines f' (c + f a + f' b) (as @ bs) =
      [(y, d) \<leftarrow> deadlines f (c + f a + f b) (as @ x # bs). y \<noteq> x]"
    by (rule Cons.IH) (use Cons.prems in auto)
  with Cons.prems fa show ?case by simp
qed

section \<open>Insertion\<close>

lemma tval_set_timer:
  "tval (chx_set_timer a k s) x = (if x = a then k else tval s x)"
  by (simp add: tval_def chx_set_timer_def chx_systick_reload_def)

text \<open>The state after an entry \<open>t\<close> is linked in behind \<open>a\<close> with differences \<open>k\<close> and \<open>w\<close>.\<close>

definition timer_put ::
  "tid \<Rightarrow> ptr \<Rightarrow> u32 \<Rightarrow> u32 \<Rightarrow> (ptr \<Rightarrow> ptr) \<Rightarrow> (ptr \<Rightarrow> ptr) \<Rightarrow> 'z kst_scheme \<Rightarrow> 'z kst_scheme" where
  "timer_put t a k w n p s =
     s\<lparr>pq_parent := (pq_parent s)(Thr t := Some Qtimer), pq_next := n, pq_prev := p,
       pq_v := (if a = Qtimer then pq_v s else (pq_v s)(a := k))(Thr t := w),
       systick := if a = Qtimer then k else systick s\<rparr>"

lemma set_timer_put:
  "a \<noteq> Thr t \<Longrightarrow>
   chx_set_timer (Thr t) w (chx_set_timer a k
     (s\<lparr>pq_parent := (pq_parent s)(Thr t := Some Qtimer), pq_next := n, pq_prev := p\<rparr>)) =
   timer_put t a k w n p s"
  by (cases "a = Qtimer") (simp_all add: chx_set_timer_def timer_put_def chx_systick_reload_def)

lemma timer_put_tval:
  "a \<noteq> Thr t \<Longrightarrow> tval (timer_put t a k w n p s) x =
     (if x = Thr t then w else if x = a then k else tval s x)"
  by (auto simp: tval_def timer_put_def)

lemma timer_link_in:
  assumes w: "wfq s Q" and q: "Q Qtimer = Some (as @ bs)" and x: "loose Q (Thr t)"
  shows "\<exists>n p. (let s1 = s\<lparr>pq_parent := (pq_parent s)(Thr t := Some Qtimer)\<rparr>;
                 s2 = ll_insert (Thr t) (hd (bs @ [Qtimer])) s1;
                 s3 = chx_set_timer (pq_prev s2 (Thr t)) k s2
             in chx_set_timer (Thr t) v s3) = timer_put t (last (Qtimer # as)) k v n p s \<and>
           wfl n p (Q(Qtimer \<mapsto> as @ Thr t # bs)) \<and> keeps s Q {Thr t} n p"
proof -
  let ?s1 = "s\<lparr>pq_parent := (pq_parent s)(Thr t := Some Qtimer)\<rparr>"
  obtain n p where e: "ll_insert (Thr t) (hd (bs @ [Qtimer])) ?s1 = ?s1\<lparr>pq_next := n, pq_prev := p\<rparr>"
    and w': "wfl n p (Q(Qtimer \<mapsto> as @ Thr t # bs))" and k: "keeps ?s1 Q {Thr t} n p"
    using ll_insert_wfq [of ?s1 Q Qtimer as bs "Thr t" "hd (bs @ [Qtimer])"] w q x by auto
  have d: "dll n p Qtimer (as @ Thr t # bs)" using wfl_dll [OF w'] by simp
  then have pr: "p (Thr t) = last (Qtimer # as)" by (blast dest: dll_mid)
  have "last (Qtimer # as) \<in> insert Qtimer (set as)" by simp
  then have "last (Qtimer # as) \<noteq> Thr t"
    using d by (auto simp: dll_def simp del: last.simps)
  then show ?thesis using w' k
    apply -
    apply (rule exI [of _ n], rule exI [of _ p])
    by (simp add: Let_def e pr keeps_def set_timer_put del: last.simps)
qed

lemma timer_insert_loop_wfq:
  assumes w: "wfq s Q" and x: "loose Q (Thr t)"
  shows "Q Qtimer = Some (as @ bs) \<Longrightarrow> a = last (Qtimer # as) \<Longrightarrow>
    \<exists>bs1 bs2 k' n p. bs = bs1 @ bs2 \<and>
      timer_insert_loop t (hd (bs @ [Qtimer])) k (tval s a) s =
        Some (timer_put t (last (a # bs1)) k'
                (if bs2 = [] then 1 else tval s (last (a # bs1)) - k') n p s) \<and>
      unat k = sum_list (map (\<lambda>y. unat (tval s y)) (butlast (a # bs1))) + unat k' \<and>
      (bs2 \<noteq> [] \<longrightarrow> k' < tval s (last (a # bs1))) \<and>
      wfl n p (Q(Qtimer \<mapsto> as @ bs1 @ Thr t # bs2)) \<and> keeps s Q {Thr t} n p"
proof (induction bs arbitrary: as a k)
  case Nil
  obtain n p where e: "(let s1 = s\<lparr>pq_parent := (pq_parent s)(Thr t := Some Qtimer)\<rparr>;
                 s2 = ll_insert (Thr t) (hd ([] @ [Qtimer])) s1;
                 s3 = chx_set_timer (pq_prev s2 (Thr t)) k s2
             in chx_set_timer (Thr t) 1 s3) = timer_put t a k 1 n p s"
      and w': "wfl n p (Q(Qtimer \<mapsto> as @ [] @ Thr t # []))" and kp: "keeps s Q {Thr t} n p"
    using timer_link_in [OF w Nil.prems(1) x] Nil.prems(2) unfolding append_Nil by blast
  have "timer_insert_loop t (hd ([] @ [Qtimer])) k (tval s a) s = Some (timer_put t a k 1 n p s)"
    using e by (simp add: timer_insert_loop.simps [of _ Qtimer] Let_def)
  with w' kp show ?case
    apply -
    apply (rule exI [of _ "[]"], rule exI [of _ "[]"], rule exI [of _ k],
        rule exI [of _ n], rule exI [of _ p])
    by (simp del: fun_upd_apply)
next
  case (Cons b bs)
  have b: "b \<noteq> Qtimer" using wfl_node [OF w Cons.prems(1), of b] by auto
  show ?case
  proof (cases "k < tval s a")
    case True
    obtain n p where "(let s1 = s\<lparr>pq_parent := (pq_parent s)(Thr t := Some Qtimer)\<rparr>;
                 s2 = ll_insert (Thr t) (hd ((b # bs) @ [Qtimer])) s1;
                 s3 = chx_set_timer (pq_prev s2 (Thr t)) k s2
             in chx_set_timer (Thr t) (tval s a - k) s3) = timer_put t a k (tval s a - k) n p s"
        "wfl n p (Q(Qtimer \<mapsto> as @ Thr t # b # bs))" "keeps s Q {Thr t} n p"
      using timer_link_in [OF w Cons.prems(1) x] Cons.prems(2) by blast
    with True b show ?thesis
      apply -
      apply (rule exI [of _ "[]"], rule exI [of _ "b # bs"], rule exI [of _ k],
          rule exI [of _ n], rule exI [of _ p])
      by (simp add: timer_insert_loop.simps [of _ b] Let_def del: fun_upd_apply)
  next
    case False
    have nb: "pq_next s b = hd (bs @ [Qtimer])"
      using dll_mid [OF wfl_dll [OF w Cons.prems(1)]] by blast
    have tb: "tval s b = pq_v s b" using b by (simp add: tval_def)
    have k: "unat k = unat (tval s a) + unat (k - tval s a)"
      using False by (simp add: unat_sub_le not_less word_le_nat_alt)
    have q': "Q Qtimer = Some ((as @ [b]) @ bs)" and l': "b = last (Qtimer # as @ [b])"
      using Cons.prems(1) by simp_all
    obtain bs1 bs2 k' n p where *: "bs = bs1 @ bs2"
      "timer_insert_loop t (hd (bs @ [Qtimer])) (k - tval s a) (tval s b) s =
        Some (timer_put t (last (b # bs1)) k'
                (if bs2 = [] then 1 else tval s (last (b # bs1)) - k') n p s)"
      "unat (k - tval s a) = sum_list (map (\<lambda>y. unat (tval s y)) (butlast (b # bs1))) + unat k'"
      "bs2 \<noteq> [] \<longrightarrow> k' < tval s (last (b # bs1))"
      "wfl n p (Q(Qtimer \<mapsto> (as @ [b]) @ bs1 @ Thr t # bs2))" "keeps s Q {Thr t} n p"
      using Cons.IH [OF q' l', of "k - tval s a"] by blast
    then show ?thesis using False b nb tb k
      apply -
      apply (rule exI [of _ "b # bs1"], rule exI [of _ bs2], rule exI [of _ k'],
          rule exI [of _ n], rule exI [of _ p])
      by (simp add: timer_insert_loop.simps [of _ b] del: fun_upd_apply)
  qed
qed

text \<open>
  \<open>chx_timer_insert\<close> inserts the thread at its absolute expiry time and moves no other:
  the refinement of the difference list to the list of deadlines.
\<close>

lemma chx_timer_insert_wfq:
  assumes w: "wfq s Q" and q: "Q Qtimer = Some xs" and x: "loose Q (Thr t)"
  shows "\<exists>a k v n p xs'. chx_timer_insert t usec s = Some (timer_put t a k v n p s) \<and>
    wfl n p (Q(Qtimer \<mapsto> xs')) \<and> keeps s Q {Thr t} n p \<and> a \<in> insert Qtimer (set xs) \<and>
    timer_abs (timer_put t a k v n p s) xs' =
      timer_ins (Thr t) (unat (usec_to_ticks usec)) (timer_abs s xs)"
proof -
  let ?k = "usec_to_ticks usec" and ?f = "\<lambda>y. unat (tval s y)"
  have q': "Q Qtimer = Some ([] @ xs)" and hd: "Qtimer = last (Qtimer # [])" using q by simp_all
  obtain bs1 bs2 k' n p where b: "xs = bs1 @ bs2" and
    run: "timer_insert_loop t (hd (xs @ [Qtimer])) ?k (tval s Qtimer) s =
        Some (timer_put t (last (Qtimer # bs1)) k'
                (if bs2 = [] then 1 else tval s (last (Qtimer # bs1)) - k') n p s)" and
    k: "unat ?k = sum_list (map ?f (butlast (Qtimer # bs1))) + unat k'" and
    lt: "bs2 \<noteq> [] \<longrightarrow> k' < tval s (last (Qtimer # bs1))" and
    w0: "wfl n p (Q(Qtimer \<mapsto> [] @ bs1 @ Thr t # bs2))" and kp: "keeps s Q {Thr t} n p"
    using timer_insert_loop_wfq [OF w x q' hd, of ?k] by blast
  have w': "wfl n p (Q(Qtimer \<mapsto> bs1 @ Thr t # bs2))" using w0 by simp
  let ?a = "last (Qtimer # bs1)"
  let ?v = "if bs2 = [] then 1 else tval s ?a - k'"
  let ?s' = "timer_put t ?a k' ?v n p s"
  have dist: "distinct (Qtimer # bs1 @ Thr t # bs2)"
    using wfl_dll [OF w', of Qtimer] by (simp add: dll_def)
  have ain: "?a \<in> insert Qtimer (set bs1)" by simp
  with dist have at: "?a \<noteq> Thr t" by auto
  have "deadlines (\<lambda>y. unat (tval ?s' y)) (0 + unat (tval ?s' Qtimer)) (bs1 @ Thr t # bs2) =
      timer_ins (Thr t) (0 + unat ?k) (deadlines ?f (0 + ?f Qtimer) (bs1 @ bs2))"
  proof (rule deadlines_insert [OF dist k])
    show "unat (tval ?s' ?a) = unat k'" using at by (simp add: timer_put_tval del: last.simps)
    show "unat k' < ?f ?a \<and> unat (tval ?s' (Thr t)) = ?f ?a - unat k'" if "bs2 \<noteq> []"
      using that lt at by (simp add: timer_put_tval word_less_nat_alt unat_sub_le
          order_less_imp_le word_le_nat_alt del: last.simps)
    show "unat (tval ?s' y) = ?f y" if "y \<in> set (Qtimer # bs1 @ bs2)" "y \<noteq> ?a" for y
      using that dist at by (auto simp: timer_put_tval simp del: last.simps)
  qed
  then have "timer_abs ?s' (bs1 @ Thr t # bs2) = timer_ins (Thr t) (unat ?k) (timer_abs s xs)"
    by (simp add: timer_abs_def b)
  moreover have "chx_timer_insert t usec s = Some ?s'"
    using run wfl_next [OF w q] by (simp add: chx_timer_insert_def chx_systick_get_def tval_def)
  moreover have "?a \<in> insert Qtimer (set xs)" using ain b by (auto simp del: last.simps)
  ultimately show ?thesis using w' kp by blast
qed

section \<open>Deletion\<close>

text \<open>
  Every expiry time lies within the 24 bits of SysTick. Reloading SysTick writes the first
  of them, so it never writes a value the register cannot hold.
\<close>

definition timer_ok :: "'z kst_scheme \<Rightarrow> ptr list \<Rightarrow> bool" where
  "timer_ok s xs \<longleftrightarrow> (\<forall>(x, d) \<in> set (timer_abs s xs). d < 2 ^ 24)"

lemma timer_okD: "timer_ok s xs \<Longrightarrow> (x, d) \<in> set (timer_abs s xs) \<Longrightarrow> d < 2 ^ 24"
  by (auto simp: timer_ok_def)

lemma unat_sum_list:
  "sum_list (map (\<lambda>x. unat (f x)) xs) < 2 ^ 32 \<Longrightarrow>
   unat (sum_list (map f xs) :: u32) = sum_list (map (\<lambda>x. unat (f x)) xs)"
  by (induction xs) (simp_all add: unat_word_ariths)

lemma timer_sum_links:
  "links (pq_next s) (pq_prev s) a bs (Thr t) \<Longrightarrow> Thr t \<notin> set bs \<Longrightarrow>
   timer_sum t (hd (bs @ [Thr t])) acc s = Some (acc + sum_list (map (pq_v s) bs))"
proof (induction bs arbitrary: a acc)
  case Nil
  then show ?case by (simp add: timer_sum.simps)
next
  case (Cons b bs)
  then have "pq_next s b = hd (bs @ [Thr t])" by (auto dest: links_next)
  with Cons show ?case by (auto simp: timer_sum.simps [of _ b] add.assoc)
qed

definition timer_del ::
  "tid \<Rightarrow> ptr \<Rightarrow> u32 \<Rightarrow> (ptr \<Rightarrow> ptr) \<Rightarrow> (ptr \<Rightarrow> ptr) \<Rightarrow> 'z kst_scheme \<Rightarrow> 'z kst_scheme" where
  "timer_del t a k n p s =
     s\<lparr>pq_next := n, pq_prev := p,
       pq_v := (if a = Qtimer then pq_v s else (pq_v s)(a := k))(Thr t := 0),
       systick := if a = Qtimer then k else systick s\<rparr>"

lemma timer_del_tval:
  "a \<noteq> Thr t \<Longrightarrow> x \<noteq> Thr t \<Longrightarrow> tval (timer_del t a k n p s) x = (if x = a then k else tval s x)"
  by (auto simp: tval_def timer_del_def)

text \<open>The value \<open>chx_timer_dequeue\<close> gives to the entry (or SysTick) in front.\<close>

lemma timer_dequeue_run:
  assumes w: "wfq s Q" and q: "Q Qtimer = Some (as @ Thr t # bs)"
    and n: "ll_dequeue (Thr t) s = s\<lparr>pq_next := n, pq_prev := p\<rparr>"
    and dl: "Thr t \<notin> set as"
  shows "chx_timer_dequeue t s =
     Some (systick s + sum_list (map (pq_v s) as),
       timer_del t (last (Qtimer # as))
         (if as = [] \<and> bs = [] then 0
          else tval s (last (Qtimer # as)) + pq_v s (Thr t)) n p s)"
proof -
  have d: "dll (pq_next s) (pq_prev s) Qtimer (as @ Thr t # bs)" using w q by (rule wfl_dll)
  have nx: "pq_next s (Thr t) = hd (bs @ [Qtimer])" and pr: "pq_prev s (Thr t) = last (Qtimer # as)"
    using dll_mid [OF d] by auto
  have nodes: "is_node y" if "y \<in> set as \<union> set bs" for y using wfl_node [OF w q, of y] that by auto
  have bsq: "hd (bs @ [Qtimer]) = Qtimer \<longleftrightarrow> bs = []"
    using nodes [of "hd bs"] by (cases bs) auto
  show ?thesis
  proof (cases "as = []")
    case True
    then show ?thesis using nx pr bsq
      by (cases "bs = []") (simp_all add: chx_timer_dequeue_def chx_systick_get_def
          chx_systick_reload_def timer_del_def tval_def Let_def ll_dequeue_frame [OF n])
  next
    case False
    then have "last (Qtimer # as) \<in> set as" by simp
    then have ne: "last (Qtimer # as) \<noteq> Qtimer" using nodes [of "last (Qtimer # as)"] by auto
    have "timer_sum t (pq_next s Qtimer) (systick s) s = Some (systick s + sum_list (map (pq_v s) as))"
      using timer_sum_links [of s Qtimer as t "systick s"] d dl dll_next [OF d] False
      by (simp add: dll_def links_append)
    then show ?thesis using nx pr bsq ne False
      by (simp add: chx_timer_dequeue_def chx_systick_get_def
          timer_del_def tval_def Let_def ll_dequeue_frame [OF n] del: last.simps)
  qed
qed

text \<open>
  \<open>chx_timer_dequeue\<close> removes the thread, returns the ticks to its expiry, and moves no
  other expiry time.
\<close>

lemma chx_timer_dequeue_wfq:
  assumes w: "wfq s Q" and q: "Q Qtimer = Some xs" and t: "Thr t \<in> set xs" and ok: "timer_ok s xs"
  shows "\<exists>r a k n p. chx_timer_dequeue t s = Some (r, timer_del t a k n p s) \<and>
    wfl n p (Q(Qtimer \<mapsto> remove1 (Thr t) xs)) \<and> n (Thr t) = Thr t \<and> p (Thr t) = Thr t \<and>
    keeps s Q {} n p \<and> a \<in> insert Qtimer (set xs) \<and> a \<noteq> Thr t \<and>
    (Thr t, unat r) \<in> set (timer_abs s xs) \<and>
    timer_abs (timer_del t a k n p s) (remove1 (Thr t) xs) = [(y, d) \<leftarrow> timer_abs s xs. y \<noteq> Thr t]"
proof -
  let ?f = "\<lambda>y. unat (tval s y)"
  obtain as bs where xs: "xs = as @ Thr t # bs" "Thr t \<notin> set as"
    using t by (metis split_list_first)
  then have rem: "remove1 (Thr t) xs = as @ bs" by (simp add: remove1_append)
  let ?a = "last (Qtimer # as)"
  let ?k = "if as = [] \<and> bs = [] then 0 else tval s ?a + pq_v s (Thr t)"
  obtain n p where n: "ll_dequeue (Thr t) s = s\<lparr>pq_next := n, pq_prev := p\<rparr>"
    and w': "wfl n p (Q(Qtimer \<mapsto> remove1 (Thr t) xs))"
    and self: "n (Thr t) = Thr t" "p (Thr t) = Thr t" and kp: "keeps s Q {} n p"
    using ll_dequeue_wfq [OF w q t] by blast
  let ?s' = "timer_del t ?a ?k n p s"
  let ?r = "systick s + sum_list (map (pq_v s) as)"
  have run: "chx_timer_dequeue t s = Some (?r, ?s')"
    using timer_dequeue_run [OF w _ n xs(2)] q xs by simp
  have dist: "distinct (Qtimer # as @ Thr t # bs)" using wfl_dll [OF w q] xs by (simp add: dll_def)
  have ain: "?a \<in> insert Qtimer (set as)" by simp
  have at: "?a \<noteq> Thr t" using ain dist by auto
  have nodes: "y \<noteq> Qtimer" if "y \<in> set xs" for y using wfl_node [OF w q that] by auto
  have abs: "timer_abs s xs = deadlines ?f (?f Qtimer) as @
      (Thr t, ?f Qtimer + sum_list (map ?f as)) #
      deadlines ?f (?f Qtimer + sum_list (map ?f as) + ?f (Thr t)) bs"
    by (simp add: timer_abs_def xs deadlines_append)
  have tv: "tval s y = pq_v s y" if "y \<in> set as" for y
    using nodes [of y] that xs by (auto simp: tval_def)
  have D: "?f Qtimer + sum_list (map ?f as) < 2 ^ 24"
    by (rule timer_okD [OF ok, of "Thr t"]) (simp add: abs)
  have eqs: "map ?f as = map (\<lambda>y. unat (pq_v s y)) as" using tv by simp
  have u1: "unat (sum_list (map (pq_v s) as)) = sum_list (map ?f as)"
    using unat_sum_list [of "pq_v s" as] D unfolding eqs by simp
  have r: "unat ?r = ?f Qtimer + sum_list (map ?f as)"
    using D u1 by (simp add: tval_def unat_add_lt)
  have gap: "unat ?k = ?f ?a + ?f (Thr t)" if ne: "bs \<noteq> []"
  proof -
    obtain y ys where "bs = y # ys" using ne by (cases bs) auto
    then have "?f Qtimer + sum_list (map ?f as) + ?f (Thr t) < 2 ^ 24"
      by (intro timer_okD [OF ok, of y]) (simp add: abs)
    moreover have "?f ?a \<le> ?f Qtimer + sum_list (map ?f as)"
    proof (cases "as = []")
      case False
      then have "?f (last as) \<in> set (map ?f as)" by simp
      with False show ?thesis using member_le_sum_list [of "?f (last as)" "map ?f as"] by simp
    qed simp
    ultimately show ?thesis using ne by (simp add: unat_add_lt tval_def)
  qed
  have "deadlines (\<lambda>y. unat (tval ?s' y)) (0 + unat (tval ?s' Qtimer)) (as @ bs) =
      [(y, d) \<leftarrow> deadlines ?f (0 + ?f Qtimer) (as @ Thr t # bs). y \<noteq> Thr t]"
  proof (rule deadlines_delete [OF dist])
    show "unat (tval ?s' ?a) = ?f ?a + ?f (Thr t)" if "bs \<noteq> []"
      using gap [OF that] at by (simp add: timer_del_tval del: last.simps)
    show "unat (tval ?s' y) = ?f y" if "y \<in> set (Qtimer # as @ bs)" "y \<noteq> ?a" for y
      using that dist at by (subst timer_del_tval) (auto simp del: last.simps)
  qed
  then have "timer_abs ?s' (remove1 (Thr t) xs) = [(y, d) \<leftarrow> timer_abs s xs. y \<noteq> Thr t]"
    unfolding timer_abs_def rem add_0 by (simp only: xs(1))
  moreover have "(Thr t, unat ?r) \<in> set (timer_abs s xs)" by (simp add: abs r)
  moreover have "?a \<in> insert Qtimer (set xs)" using ain xs by (auto simp del: last.simps)
  ultimately show ?thesis using run w' self kp at by blast
qed

text \<open>
  Deleting a thread that is in no queue does not return: the sum loop follows the timer
  queue round and round and never meets the thread.
\<close>

lemma timer_sum_diverges:
  assumes w: "wfq s Q" and q: "Q Qtimer = Some xs" and t: "Thr t \<notin> set xs"
    and p: "p \<in> insert Qtimer (set xs)"
  shows "timer_sum t p acc s = None"
proof (rule ccontr)
  assume "timer_sum t p acc s \<noteq> None"
  then obtain r where ret: "timer_sum t p acc s = Some r" by blast
  have step: "pq_next s z \<in> insert Qtimer (set xs)" if "z \<in> insert Qtimer (set xs)" for z
  proof (cases "z = Qtimer")
    case True
    then show ?thesis using dll_next [OF wfl_dll [OF w q]] by (cases xs) auto
  next
    case False
    then have "z \<in> set xs" using that by simp
    then obtain as bs where "xs = as @ z # bs" by (metis split_list)
    then show ?thesis using dll_mid [of _ _ Qtimer as z bs] wfl_dll [OF w q] by (cases bs) auto
  qed
  have "tp = t \<longrightarrow> s' = s \<longrightarrow> p' \<notin> insert Qtimer (set xs)"
    if "timer_sum tp p' acc' s' = Some r'" for tp p' acc' s' r'
  proof (rule timer_sum.raw_induct [where P = "\<lambda>tp p acc s' r. tp = t \<longrightarrow> s' = s \<longrightarrow>
        p \<notin> insert Qtimer (set xs)", OF _ that])
    fix f :: "tid \<Rightarrow> ptr \<Rightarrow> u32 \<Rightarrow> 'a kst_scheme \<Rightarrow> u32 option" and tp p acc s' r
    assume IH: "\<And>tp p acc s' r. f tp p acc s' = Some r \<Longrightarrow>
        tp = t \<longrightarrow> s' = s \<longrightarrow> p \<notin> insert Qtimer (set xs)"
      and eq: "(if p = Thr tp then Some acc else f tp (pq_next s' p) (acc + pq_v s' p) s') = Some r"
    show "tp = t \<longrightarrow> s' = s \<longrightarrow> p \<notin> insert Qtimer (set xs)"
    proof (intro impI notI)
      assume *: "tp = t" "s' = s" "p \<in> insert Qtimer (set xs)"
      then have "p \<noteq> Thr t" using t by auto
      with eq * have "f t (pq_next s p) (acc + pq_v s p) s = Some r" by simp
      then show False using IH step [OF *(3)] by blast
    qed
  qed
  then show False using ret p by blast
qed

section \<open>Expiry\<close>

text \<open>The fields of the threads \<open>ts\<close> after they were moved to the ready queue.\<close>

definition expire_set :: "tid list \<Rightarrow> 'z kst_scheme \<Rightarrow> 'z kst_scheme" where
  "expire_set ts s =
     s\<lparr>pq_v := (\<lambda>x. if x \<in> Thr ` set ts then 0 else pq_v s x),
       th_state := (\<lambda>t. if t \<in> set ts then THREAD_READY else th_state s t),
       pq_parent := (\<lambda>x. if x \<in> Thr ` set ts then Some Qready else pq_parent s x)\<rparr>"

lemma expire_set_Cons:
  "(expire_set ts (s\<lparr>pq_v := (pq_v s)(Thr t := 0), th_state := (th_state s)(t := THREAD_READY),
      pq_parent := (pq_parent s)(Thr t := Some Qready), pq_next := n1, pq_prev := p1\<rparr>))
      \<lparr>pq_next := n, pq_prev := p\<rparr> = (expire_set (t # ts) s)\<lparr>pq_next := n, pq_prev := p\<rparr>"
proof -
  have "(\<lambda>x. if x \<in> Thr ` set ts then 0 else ((pq_v s)(Thr t := 0)) x) =
      (\<lambda>x. if x \<in> Thr ` set (t # ts) then 0 else pq_v s x)"
    "(\<lambda>u. if u \<in> set ts then THREAD_READY else ((th_state s)(t := THREAD_READY)) u) =
      (\<lambda>u. if u \<in> set (t # ts) then THREAD_READY else th_state s u)"
    "(\<lambda>x. if x \<in> Thr ` set ts then Some Qready else ((pq_parent s)(Thr t := Some Qready)) x) =
      (\<lambda>x. if x \<in> Thr ` set (t # ts) then Some Qready else pq_parent s x)"
    by auto
  then show ?thesis by (simp add: expire_set_def cong: if_cong del: fun_upd_apply)
qed

abbreviation enq_fold :: "('e \<Rightarrow> 'k::linorder) \<Rightarrow> 'e list \<Rightarrow> 'e list \<Rightarrow> 'e list" where
  "enq_fold f rs xs \<equiv> foldl (\<lambda>rs x. enq_list f x rs) rs xs"

abbreviation prio_fold :: "'z kst_scheme \<Rightarrow> u16 \<Rightarrow> tid list \<Rightarrow> u16" where
  "prio_fold s pr ts \<equiv> foldl (\<lambda>pr t. expired_prio t pr s) pr ts"

lemma expire_one:
  assumes w: "wfq s Q" and q: "Q Qtimer = Some (Thr t # xs)" and r: "Q Qready = Some rs"
  shows "\<exists>n p. chx_ready_enqueue t (ll_dequeue (Thr t) (s\<lparr>pq_v := (pq_v s)(Thr t := 0)\<rparr>)) =
      Some (s\<lparr>pq_v := (pq_v s)(Thr t := 0), th_state := (th_state s)(t := THREAD_READY),
              pq_parent := (pq_parent s)(Thr t := Some Qready), pq_next := n, pq_prev := p\<rparr>) \<and>
    wfl n p (Q(Qtimer \<mapsto> xs, Qready \<mapsto> enq_list (pq_prio s) (Thr t) rs)) \<and>
    (\<forall>z. loose Q z \<longrightarrow> n z = pq_next s z \<and> p z = pq_prev s z)"
proof -
  obtain n1 p1 where d: "ll_dequeue (Thr t) s = s\<lparr>pq_next := n1, pq_prev := p1\<rparr>"
    and w1: "wfl n1 p1 (Q(Qtimer \<mapsto> xs))" and k1: "keeps s Q {} n1 p1"
    using ll_dequeue_wfq [OF w q, of "Thr t"] by auto
  let ?s1 = "s\<lparr>pq_v := (pq_v s)(Thr t := 0), pq_next := n1, pq_prev := p1\<rparr>"
  have e1: "ll_dequeue (Thr t) (s\<lparr>pq_v := (pq_v s)(Thr t := 0)\<rparr>) = ?s1"
    by (simp add: ll_dequeue_frame [OF d])
  have l: "loose (Q(Qtimer \<mapsto> xs)) (Thr t)"
    using loose_after_remove [OF w q, of "Thr t"] by simp
  obtain n p where e2: "chx_ready_enqueue t ?s1 =
      Some (?s1\<lparr>th_state := (th_state ?s1)(t := THREAD_READY),
              pq_parent := (pq_parent ?s1)(Thr t := Some Qready), pq_next := n, pq_prev := p\<rparr>)"
    and w2: "wfl n p ((Q(Qtimer \<mapsto> xs))(Qready \<mapsto> enq_list (pq_prio ?s1) (Thr t) rs))"
    and k2: "keeps ?s1 (Q(Qtimer \<mapsto> xs)) {Thr t} n p"
    using chx_ready_enqueue_wfq [of ?s1 "Q(Qtimer \<mapsto> xs)" rs t] w1 l r by auto
  have "n z = pq_next s z \<and> p z = pq_prev s z" if z: "loose Q z" for z
  proof -
    have "z \<noteq> Thr t" using looseD [OF z q] by auto
    moreover have "loose (Q(Qtimer \<mapsto> xs)) z"
      using z looseD [OF z q] by (auto simp: loose_def split: if_splits)
    ultimately show ?thesis using keepsD [OF k1 z] keepsD [OF k2, of z] by simp
  qed
  with e1 e2 w2 show ?thesis by auto
qed

text \<open>One thread expires, then those that expire with it.\<close>

lemma expire_join:
  assumes w: "wfq s Q" and q: "Q Qtimer = Some (Thr t # map Thr ts)" and r: "Q Qready = Some rs"
    and k1: "\<forall>z. loose Q z \<longrightarrow> n1 z = pq_next s z \<and> p1 z = pq_prev s z"
    and s1: "s1 = s\<lparr>pq_v := (pq_v s)(Thr t := 0), th_state := (th_state s)(t := THREAD_READY),
      pq_parent := (pq_parent s)(Thr t := Some Qready), pq_next := n1, pq_prev := p1\<rparr>"
    and Q': "Q' = Q(Qtimer \<mapsto> map Thr ts, Qready \<mapsto> enq_list (pq_prio s) (Thr t) rs)"
    and ts: "ts = ts1 @ ts2"
    and w2: "wfl n p (Q'(Qtimer \<mapsto> map Thr ts2, Qready \<mapsto>
      enq_fold (pq_prio s1) (enq_list (pq_prio s) (Thr t) rs) (map Thr ts1)))"
    and k2: "\<forall>z. loose Q' z \<longrightarrow> n z = pq_next s1 z \<and> p z = pq_prev s1 z"
    and rest: "g' = (if ts1 = [] then pq_v s (Thr t) else pq_v s1 (Thr (last ts1)))"
      "ts1 \<noteq> [] \<longrightarrow> pq_v s (Thr t) = 0" "\<forall>t \<in> set (butlast ts1). pq_v s1 (Thr t) = 0"
  shows "wfl n p (Q(Qtimer \<mapsto> map Thr ts2, Qready \<mapsto> enq_fold (pq_prio s) rs (map Thr (t # ts1))))"
    and "\<forall>z. loose Q z \<longrightarrow> n z = pq_next s z \<and> p z = pq_prev s z"
    and "g' = pq_v s (Thr (last (t # ts1)))"
    and "\<forall>u \<in> set (butlast (t # ts1)). pq_v s (Thr u) = 0"
proof -
  have "t \<notin> set ts" using wfl_distinct [OF w q] by auto
  then have last: "ts1 \<noteq> [] \<Longrightarrow> last ts1 \<noteq> t" and bl: "t \<notin> set (butlast ts1)"
    using ts by (auto dest: in_set_butlastD)
  have "Q'(Qtimer \<mapsto> map Thr ts2, Qready \<mapsto>
      enq_fold (pq_prio s1) (enq_list (pq_prio s) (Thr t) rs) (map Thr ts1)) =
    Q(Qtimer \<mapsto> map Thr ts2, Qready \<mapsto> enq_fold (pq_prio s) rs (map Thr (t # ts1)))"
    by (simp add: fun_eq_iff Q' s1)
  with w2 show "wfl n p (Q(Qtimer \<mapsto> map Thr ts2, Qready \<mapsto> enq_fold (pq_prio s) rs (map Thr (t # ts1))))"
    by simp
  show "\<forall>z. loose Q z \<longrightarrow> n z = pq_next s z \<and> p z = pq_prev s z"
  proof (intro allI impI)
    fix z assume z: "loose Q z"
    then have "loose Q' z" using looseD [OF z q] looseD [OF z r]
      by (auto simp: loose_def Q' split: if_splits)
    with k1 k2 z show "n z = pq_next s z \<and> p z = pq_prev s z" by (simp add: s1)
  qed
  show "g' = pq_v s (Thr (last (t # ts1)))" using rest(1) last by (simp add: s1)
  show "\<forall>u \<in> set (butlast (t # ts1)). pq_v s (Thr u) = 0"
    using rest(2,3) bl by (auto simp: s1 split: if_splits)
qed

lemma timer_expire_loop_wfq:
  "wfq s Q \<Longrightarrow> Q Qtimer = Some (map Thr ts) \<Longrightarrow> Q Qready = Some rs \<Longrightarrow>
   \<exists>ts1 ts2 n p g'. ts = ts1 @ ts2 \<and>
     timer_expire_loop (hd (map Thr ts @ [Qtimer])) g prio s =
       Some (g', prio_fold s prio ts1, (expire_set ts1 s)\<lparr>pq_next := n, pq_prev := p\<rparr>) \<and>
     wfl n p (Q(Qtimer \<mapsto> map Thr ts2, Qready \<mapsto> enq_fold (pq_prio s) rs (map Thr ts1))) \<and>
     (\<forall>z. loose Q z \<longrightarrow> n z = pq_next s z \<and> p z = pq_prev s z) \<and>
     (ts2 \<noteq> [] \<longrightarrow> g' \<noteq> 0) \<and> g' = (if ts1 = [] then g else pq_v s (Thr (last ts1))) \<and>
     (ts1 \<noteq> [] \<longrightarrow> g = 0) \<and> (\<forall>t \<in> set (butlast ts1). pq_v s (Thr t) = 0)"
proof (induction ts arbitrary: s Q rs g prio)
  case Nil
  have Q: "Q(Qtimer \<mapsto> [], Qready \<mapsto> rs) = Q" using Nil by (simp add: fun_upd_idem)
  show ?case
    apply (rule exI [of _ "[]"], rule exI [of _ "[]"], rule exI [of _ "pq_next s"],
        rule exI [of _ "pq_prev s"], rule exI [of _ g])
    using Nil Q by (simp add: timer_expire_loop.simps expire_set_def del: fun_upd_apply)
next
  case (Cons t ts)
  show ?case
  proof (cases "g = 0")
    case False
    have Q: "Q(Qtimer \<mapsto> map Thr (t # ts), Qready \<mapsto> rs) = Q"
      using Cons.prems by (simp add: fun_upd_idem)
    show ?thesis
      apply (rule exI [of _ "[]"], rule exI [of _ "t # ts"], rule exI [of _ "pq_next s"],
          rule exI [of _ "pq_prev s"], rule exI [of _ g])
      using Cons.prems Q False
      by (simp add: timer_expire_loop.simps [of "Thr t"] expire_set_def del: fun_upd_apply)
  next
    case True
    let ?Q = "Q(Qtimer \<mapsto> map Thr ts, Qready \<mapsto> enq_list (pq_prio s) (Thr t) rs)"
    have q: "Q Qtimer = Some (Thr t # map Thr ts)" using Cons.prems(2) by simp
    have nx: "pq_next s (Thr t) = hd (map Thr ts @ [Qtimer])"
      using dll_mid [of "pq_next s" "pq_prev s" Qtimer "[]" "Thr t" "map Thr ts"]
        wfl_dll [OF Cons.prems(1) q] by simp
    obtain n1 p1 where e1: "chx_ready_enqueue t (ll_dequeue (Thr t) (s\<lparr>pq_v := (pq_v s)(Thr t := 0)\<rparr>)) =
        Some (s\<lparr>pq_v := (pq_v s)(Thr t := 0), th_state := (th_state s)(t := THREAD_READY),
              pq_parent := (pq_parent s)(Thr t := Some Qready), pq_next := n1, pq_prev := p1\<rparr>)"
        (is "_ = Some ?s1")
      and w1: "wfl n1 p1 ?Q"
      and k1: "\<forall>z. loose Q z \<longrightarrow> n1 z = pq_next s z \<and> p1 z = pq_prev s z"
      using expire_one [OF Cons.prems(1) q Cons.prems(3)] by blast
    have w1': "wfq ?s1 ?Q" using w1 by simp
    have Q1: "?Q Qtimer = Some (map Thr ts)" and
      Q2: "?Q Qready = Some (enq_list (pq_prio s) (Thr t) rs)" by simp_all
    obtain ts1 ts2 n p g' where ts: "ts = ts1 @ ts2" and
      run: "timer_expire_loop (hd (map Thr ts @ [Qtimer])) (pq_v s (Thr t)) (expired_prio t prio s) ?s1 =
        Some (g', prio_fold ?s1 (expired_prio t prio s) ts1,
              (expire_set ts1 ?s1)\<lparr>pq_next := n, pq_prev := p\<rparr>)" and
      w2: "wfl n p (?Q(Qtimer \<mapsto> map Thr ts2, Qready \<mapsto>
        enq_fold (pq_prio ?s1) (enq_list (pq_prio s) (Thr t) rs) (map Thr ts1)))" and
      k2: "\<forall>z. loose ?Q z \<longrightarrow> n z = pq_next ?s1 z \<and> p z = pq_prev ?s1 z" and
      rest: "ts2 \<noteq> [] \<longrightarrow> g' \<noteq> 0" "g' = (if ts1 = [] then pq_v s (Thr t) else pq_v ?s1 (Thr (last ts1)))"
        "ts1 \<noteq> [] \<longrightarrow> pq_v s (Thr t) = 0" "\<forall>t \<in> set (butlast ts1). pq_v ?s1 (Thr t) = 0"
      using Cons.IH [OF w1' Q1 Q2, of "pq_v s (Thr t)" "expired_prio t prio s"] by blast
    note join = expire_join [OF Cons.prems(1) q Cons.prems(3) k1 refl refl ts w2 k2 rest(2-4)]
    have st: "(expire_set ts1 ?s1)\<lparr>pq_next := n, pq_prev := p\<rparr> =
        (expire_set (t # ts1) s)\<lparr>pq_next := n, pq_prev := p\<rparr>"
      by (rule expire_set_Cons)
    have ep: "expired_prio u pr ?s1 = expired_prio u pr s" for u pr
      by (simp add: expired_prio_def)
    have "timer_expire_loop (Thr t) 0 prio s =
        Some (g', prio_fold s prio (t # ts1), (expire_set (t # ts1) s)\<lparr>pq_next := n, pq_prev := p\<rparr>)"
    proof -
      have ep0: "expired_prio t prio (ll_dequeue (Thr t) (s\<lparr>pq_v := (pq_v s)(Thr t := 0)\<rparr>)) =
          expired_prio t prio s"
        by (simp add: expired_prio_def ll_dequeue_def Let_def)
      show ?thesis
        using run e1 nx
        by (simp add: timer_expire_loop.simps [of "Thr t"] Let_def ep st ep0 del: fun_upd_apply)
    qed
    then show ?thesis using ts True rest(1) join
      apply -
      apply (rule exI [of _ "t # ts1"], rule exI [of _ ts2], rule exI [of _ n], rule exI [of _ p],
          rule exI [of _ g'])
      by (simp del: fun_upd_apply)
  qed
qed

text \<open>The entries that expire together with the first are those at zero difference.\<close>

lemma deadlines_due:
  "(\<forall>y \<in> set (butlast (x # xs)). f y = 0) \<Longrightarrow> (ys \<noteq> [] \<longrightarrow> 0 < f (last (x # xs))) \<Longrightarrow>
   [(y, d) \<leftarrow> deadlines f 0 (x # xs @ ys). d = 0] = map (\<lambda>y. (y, 0)) (x # xs) \<and>
   [(y, d) \<leftarrow> deadlines f 0 (x # xs @ ys). d \<noteq> 0] = deadlines f (f (last (x # xs))) ys"
proof (induction xs arbitrary: x)
  case Nil
  have "0 < d" if "(y, d) \<in> set (deadlines f (f x) ys)" and "ys \<noteq> []" for y d
    using deadlines_ge [OF that(1)] Nil.prems(2) that(2) by simp
  then have "[(y, d) \<leftarrow> deadlines f (f x) ys. d = 0] = []"
      "[(y, d) \<leftarrow> deadlines f (f x) ys. 0 < d] = deadlines f (f x) ys"
    by (cases "ys = []"; auto simp: filter_empty_conv filter_id_conv)+
  then show ?case by simp
qed auto

lemma expired_deadlines:
  assumes dist: "distinct (map Thr (t # ts))" and ts: "ts = ts1 @ ts2"
    and zeros: "\<forall>u \<in> set (butlast (t # ts1)). pq_v s (Thr u) = 0"
    and g': "ts2 \<noteq> [] \<longrightarrow> g' \<noteq> 0" "g' = pq_v s (Thr (last (t # ts1)))"
    and T: "ts2 \<noteq> [] \<Longrightarrow> T = g'"
  shows "[(y, d) \<leftarrow> timer_abs (s\<lparr>systick := 0\<rparr>) (map Thr (t # ts)). d = 0] = map (\<lambda>u. (Thr u, 0)) (t # ts1)"
    and "timer_abs ((expire_set (t # ts1) s)\<lparr>pq_next := n, pq_prev := p, systick := T\<rparr>) (map Thr ts2) =
      [(y, d) \<leftarrow> timer_abs (s\<lparr>systick := 0\<rparr>) (map Thr (t # ts)). d \<noteq> 0]"
proof -
  let ?f = "\<lambda>y. unat (tval s y)"
  let ?s2 = "(expire_set (t # ts1) s)\<lparr>pq_next := n, pq_prev := p, systick := T\<rparr>"
  have due: "[(y, d) \<leftarrow> deadlines ?f 0 (Thr t # map Thr ts1 @ map Thr ts2). d = 0] =
        map (\<lambda>y. (y, 0)) (Thr t # map Thr ts1) \<and>
      [(y, d) \<leftarrow> deadlines ?f 0 (Thr t # map Thr ts1 @ map Thr ts2). d \<noteq> 0] =
        deadlines ?f (?f (last (Thr t # map Thr ts1))) (map Thr ts2)"
  proof (rule deadlines_due)
    show "\<forall>y \<in> set (butlast (Thr t # map Thr ts1)). ?f y = 0"
      using zeros by (simp add: tval_def map_butlast [symmetric])
    have "last (Thr t # map Thr ts1) = Thr (last (t # ts1))" by (simp add: last_map)
    then show "map Thr ts2 \<noteq> [] \<longrightarrow> 0 < ?f (last (Thr t # map Thr ts1))"
      using g' by (simp add: tval_def unat_gt_0 del: last.simps)
  qed
  have tv: "tval ?s2 x = tval s x" if "x \<in> set (map Thr ts2)" for x
    using that dist ts by (auto simp: tval_def expire_set_def)
  have absr: "timer_abs ?s2 (map Thr ts2) = deadlines ?f (?f (last (Thr t # map Thr ts1))) (map Thr ts2)"
  proof -
    have "deadlines (\<lambda>x. unat (tval ?s2 x)) c (map Thr ts2) = deadlines ?f c (map Thr ts2)" for c
      by (rule deadlines_cong) (simp only: tv)
    moreover have "tval ?s2 Qtimer = tval s (last (Thr t # map Thr ts1))" if "ts2 \<noteq> []"
      using T [OF that] g'(2) by (simp add: tval_def last_map)
    ultimately show ?thesis unfolding timer_abs_def by (cases "ts2 = []") simp_all
  qed
  have "deadlines (\<lambda>y. unat (tval (s\<lparr>systick := 0\<rparr>) y)) 0 (map Thr (t # ts)) = deadlines ?f 0 (map Thr (t # ts))"
    by (rule deadlines_cong) (auto simp: tval_def)
  then have lst: "timer_abs (s\<lparr>systick := 0\<rparr>) (map Thr (t # ts)) = deadlines ?f 0 (Thr t # map Thr ts1 @ map Thr ts2)"
    by (simp add: timer_abs_def tval_def [of _ Qtimer] ts del: deadlines.simps)
  show "[(y, d) \<leftarrow> timer_abs (s\<lparr>systick := 0\<rparr>) (map Thr (t # ts)). d = 0] = map (\<lambda>u. (Thr u, 0)) (t # ts1)"
    "timer_abs ?s2 (map Thr ts2) = [(y, d) \<leftarrow> timer_abs (s\<lparr>systick := 0\<rparr>) (map Thr (t # ts)). d \<noteq> 0]"
    unfolding lst absr using due by (simp_all only: list.map map_map o_def)
qed

lemma chx_timer_expired_wfq:
  assumes w: "wfq s Q" and q: "Q Qtimer = Some (map Thr (t # ts))" and r: "Q Qready = Some rs"
  shows "\<exists>due rest n p T. t # ts = due @ rest \<and>
    chx_timer_expired s = Some (chx_request_preemption (prio_fold s 0 due)
      ((expire_set due s)\<lparr>pq_next := n, pq_prev := p, systick := T\<rparr>)) \<and>
    wfl n p (Q(Qtimer \<mapsto> map Thr rest, Qready \<mapsto> enq_fold (pq_prio s) rs (map Thr due))) \<and>
    (\<forall>z. loose Q z \<longrightarrow> n z = pq_next s z \<and> p z = pq_prev s z) \<and>
    [(y, d) \<leftarrow> timer_abs (s\<lparr>systick := 0\<rparr>) (map Thr (t # ts)). d = 0] = map (\<lambda>u. (Thr u, 0)) due \<and>
    timer_abs ((expire_set due s)\<lparr>pq_next := n, pq_prev := p, systick := T\<rparr>) (map Thr rest) =
      [(y, d) \<leftarrow> timer_abs (s\<lparr>systick := 0\<rparr>) (map Thr (t # ts)). d \<noteq> 0]"
proof -
  let ?f = "\<lambda>y. unat (tval s y)"
  let ?s0 = "s\<lparr>pq_v := (pq_v s)(Thr t := 0)\<rparr>"
  let ?Q = "Q(Qtimer \<mapsto> map Thr ts, Qready \<mapsto> enq_list (pq_prio s) (Thr t) rs)"
  have q': "Q Qtimer = Some (Thr t # map Thr ts)" using q by simp
  obtain n0 p0 where pop: "ll_pop Qtimer s = (Some (Thr t), s\<lparr>pq_next := n0, pq_prev := p0\<rparr>)"
    and d: "ll_dequeue (Thr t) s = s\<lparr>pq_next := n0, pq_prev := p0\<rparr>"
    using ll_pop_wfq [OF w q'] by (fastforce simp: ll_pop_def split: if_splits)
  have swap: "s\<lparr>pq_next := n0, pq_prev := p0, pq_v := (pq_v s)(Thr t := 0)\<rparr> = ll_dequeue (Thr t) ?s0"
    by (simp add: ll_dequeue_frame [OF d])
  obtain n1 p1 where e1: "chx_ready_enqueue t (ll_dequeue (Thr t) ?s0) =
      Some (s\<lparr>pq_v := (pq_v s)(Thr t := 0), th_state := (th_state s)(t := THREAD_READY),
              pq_parent := (pq_parent s)(Thr t := Some Qready), pq_next := n1, pq_prev := p1\<rparr>)"
      (is "_ = Some ?s1")
    and w1: "wfl n1 p1 ?Q"
    and k1: "\<forall>z. loose Q z \<longrightarrow> n1 z = pq_next s z \<and> p1 z = pq_prev s z"
    using expire_one [OF w q' r] by blast
  have w1': "wfq ?s1 ?Q" using w1 by simp
  have Q1: "?Q Qtimer = Some (map Thr ts)" and
    Q2: "?Q Qready = Some (enq_list (pq_prio s) (Thr t) rs)" by simp_all
  let ?pr = "expired_prio t 0 s"
  obtain ts1 ts2 n p g' where ts: "ts = ts1 @ ts2" and
    run: "timer_expire_loop (hd (map Thr ts @ [Qtimer])) (pq_v s (Thr t)) ?pr ?s1 =
      Some (g', prio_fold ?s1 ?pr ts1, (expire_set ts1 ?s1)\<lparr>pq_next := n, pq_prev := p\<rparr>)" and
    w2: "wfl n p (?Q(Qtimer \<mapsto> map Thr ts2, Qready \<mapsto>
      enq_fold (pq_prio ?s1) (enq_list (pq_prio s) (Thr t) rs) (map Thr ts1)))" and
    k2: "\<forall>z. loose ?Q z \<longrightarrow> n z = pq_next ?s1 z \<and> p z = pq_prev ?s1 z" and
    rest: "ts2 \<noteq> [] \<longrightarrow> g' \<noteq> 0" "g' = (if ts1 = [] then pq_v s (Thr t) else pq_v ?s1 (Thr (last ts1)))"
      "ts1 \<noteq> [] \<longrightarrow> pq_v s (Thr t) = 0" "\<forall>t \<in> set (butlast ts1). pq_v ?s1 (Thr t) = 0"
    using timer_expire_loop_wfq [OF w1' Q1 Q2, of "pq_v s (Thr t)" ?pr] by blast
  note join = expire_join [OF w q' r k1 refl refl ts w2 k2 rest(2-4)]
  note w3 = join(1) and ll = join(2) and g' = join(3) and zeros = join(4)
  define T where "T = (if ts2 = [] then systick s else g')"
  let ?s2 = "(expire_set (t # ts1) s)\<lparr>pq_next := n, pq_prev := p, systick := T\<rparr>"
  have ep: "expired_prio u pr ?s1 = expired_prio u pr s" for u pr
    by (simp add: expired_prio_def)
  have st: "(expire_set ts1 ?s1)\<lparr>pq_next := n, pq_prev := p\<rparr> =
      (expire_set (t # ts1) s)\<lparr>pq_next := n, pq_prev := p\<rparr>" (is "?s3 = ?s4")
    by (rule expire_set_Cons)
  have e2: "chx_ready_enqueue t (s\<lparr>pq_next := n0, pq_prev := p0, pq_v := (pq_v s)(Thr t := 0)\<rparr>) = Some ?s1"
    using e1 swap by simp
  have em1: "ll_empty Qtimer ?s1 \<longleftrightarrow> ts = []" and nx1: "n1 Qtimer = hd (map Thr ts @ [Qtimer])"
    using ll_empty_iff [OF w1' Q1] wfl_next [OF w1 Q1] by simp_all
  have "wfq ?s4 (Q(Qtimer \<mapsto> map Thr ts2, Qready \<mapsto> enq_fold (pq_prio s) rs (map Thr (t # ts1))))"
    using w3 by simp
  from ll_empty_iff [OF this] have em2: "ll_empty Qtimer ?s4 \<longleftrightarrow> ts2 = []" by simp
  have run2: "chx_timer_expired s = Some (chx_request_preemption (prio_fold s 0 (t # ts1)) ?s2)"
  proof (cases "ts = []")
    case True
    then have "?s1 = ?s4" using run ts st by (simp add: timer_expire_loop.simps del: fun_upd_apply)
    moreover have "?s4 = ?s2" using True ts by (simp add: T_def expire_set_def)
    ultimately show ?thesis using pop e2 em1 True ts ep
      by (simp add: chx_timer_expired_def Let_def del: fun_upd_apply)
  next
    case False
    have "?s2 = (if ts2 = [] then ?s4 else chx_set_timer Qtimer g' ?s4)"
      by (simp add: T_def expire_set_def chx_set_timer_def chx_systick_reload_def)
    then show ?thesis using pop e2 em1 False run em2 st nx1 ep
      by (simp add: chx_timer_expired_def Let_def del: fun_upd_apply)
  qed
  have T: "ts2 \<noteq> [] \<Longrightarrow> T = g'" by (simp add: T_def)
  note expired_deadlines(1) [OF wfl_distinct [OF w q] ts zeros rest(1) g' T]
    expired_deadlines(2) [OF wfl_distinct [OF w q] ts zeros rest(1) g' T, where n = n and p = p]
  moreover have "t # ts = (t # ts1) @ ts2" using ts by simp
  ultimately show ?thesis using run2 w3 ll by blast
qed

section \<open>Timers as an interface\<close>

text \<open>
  \<open>rep s ds\<close>: the timers armed in state \<open>s\<close>, with the ticks to their expiry; \<open>lim\<close>
  bounds the ticks a timer can be armed for.
\<close>

locale timers =
  fixes rep :: "'s \<Rightarrow> (ptr \<times> nat) list \<Rightarrow> bool"
    and free :: "'s \<Rightarrow> 'e \<Rightarrow> bool"
    and node :: "'e \<Rightarrow> ptr"
    and ticks :: "'u \<Rightarrow> nat"
    and lim :: nat
    and arm :: "'e \<Rightarrow> 'u \<Rightarrow> 's \<Rightarrow> 's option"
    and cancel :: "'e \<Rightarrow> 's \<Rightarrow> ('v::len word \<times> 's) option"
  assumes arm_law: "rep s ds \<Longrightarrow> free s x \<Longrightarrow> ticks u < lim \<Longrightarrow>
      \<exists>s'. arm x u s = Some s' \<and> rep s' (timer_ins (node x) (ticks u) ds)"
    and cancel_law: "rep s ds \<Longrightarrow> node x \<in> fst ` set ds \<Longrightarrow>
      \<exists>r s'. cancel x s = Some (r, s') \<and> (node x, unat r) \<in> set ds \<and>
        rep s' [(y, d) \<leftarrow> ds. y \<noteq> node x] \<and> free s' x"
    and rep_sorted: "rep s ds \<Longrightarrow> sorted (map snd ds)"
    and free_law: "rep s ds \<Longrightarrow> free s x \<Longrightarrow> node x \<notin> fst ` set ds"
begin

text \<open>Arming a timer and cancelling it gives back its ticks and disturbs no other.\<close>

lemma arm_cancel:
  assumes r: "rep s ds" and f: "free s x" and l: "ticks u < lim"
  shows "\<exists>s1 r s2. arm x u s = Some s1 \<and> cancel x s1 = Some (r, s2) \<and> unat r = ticks u \<and>
    rep s2 ds \<and> free s2 x"
proof -
  obtain s1 where s1: "arm x u s = Some s1" "rep s1 (timer_ins (node x) (ticks u) ds)"
    using arm_law [OF r f l] by blast
  obtain r s2 where s2: "cancel x s1 = Some (r, s2)"
      "(node x, unat r) \<in> set (timer_ins (node x) (ticks u) ds)"
      "rep s2 [(y, d) \<leftarrow> timer_ins (node x) (ticks u) ds. y \<noteq> node x]" "free s2 x"
    using cancel_law [OF s1(2), of x] by force
  have "node x \<notin> fst ` set ds" using free_law [OF r f] .
  then have "[(y, d) \<leftarrow> timer_ins (node x) k ds. y \<noteq> node x] = ds" for k
    by (induction "node x" k ds rule: timer_ins.induct) (auto simp: filter_id_conv intro: rev_image_eqI)
  moreover have "unat r = ticks u" using s2(2) \<open>node x \<notin> fst ` set ds\<close> by force
  ultimately show ?thesis using s1 s2 by simp
qed

text \<open>The timers of several threads are kept in order of expiry.\<close>

lemma arm_sorted:
  "rep s ds \<Longrightarrow> free s x \<Longrightarrow> ticks u < lim \<Longrightarrow>
   \<exists>s1 es. arm x u s = Some s1 \<and> rep s1 es \<and> sorted (map snd es) \<and>
     set es = insert (node x, ticks u) (set ds)"
  using arm_law [of s ds x u] rep_sorted set_timer_ins by metis

end

text \<open>The timer queue of the kernel: all expiry times fit in SysTick's 24 bits.\<close>

definition timer_rep :: "'z kst_scheme \<Rightarrow> (ptr \<times> nat) list \<Rightarrow> bool" where
  "timer_rep s ds \<longleftrightarrow> (\<exists>Q xs. wfq s Q \<and> Q Qtimer = Some xs \<and> timer_ok s xs \<and> ds = timer_abs s xs)"

lemma timer_ins_ok: "timer_ok s xs \<Longrightarrow> k < 2 ^ 24 \<Longrightarrow> timer_abs s' xs' = timer_ins x k (timer_abs s xs) \<Longrightarrow>
  timer_ok s' xs'"
  by (auto simp: timer_ok_def)

lemma timer_del_ok:
  "timer_ok s xs \<Longrightarrow> timer_abs s' xs' = [(y, d) \<leftarrow> timer_abs s xs. P y d] \<Longrightarrow> timer_ok s' xs'"
  by (auto simp: timer_ok_def)

interpretation timer: timers timer_rep thread_free Thr "\<lambda>u. unat (usec_to_ticks u)" "2 ^ 24"
  chx_timer_insert chx_timer_dequeue
proof
  fix s :: "'z kst_scheme" and ds x u
  assume r: "timer_rep s ds" and f: "thread_free s x" and l: "unat (usec_to_ticks u) < 2 ^ 24"
  then obtain Q xs where w: "wfq s Q" and q: "Q Qtimer = Some xs" and ok: "timer_ok s xs"
    and ds: "ds = timer_abs s xs" by (auto simp: timer_rep_def)
  have lo: "loose Q (Thr x)" using w f by (auto simp: thread_free_def intro: selflinked_loose)
  obtain a k v n p xs' where *: "chx_timer_insert x u s = Some (timer_put x a k v n p s)"
      "wfl n p (Q(Qtimer \<mapsto> xs'))"
      "timer_abs (timer_put x a k v n p s) xs' =
        timer_ins (Thr x) (unat (usec_to_ticks u)) (timer_abs s xs)"
    using chx_timer_insert_wfq [OF w q lo, of u] by blast
  have "wfq (timer_put x a k v n p s) (Q(Qtimer \<mapsto> xs'))" using *(2) by (simp add: timer_put_def)
  moreover have "timer_ok (timer_put x a k v n p s) xs'" using timer_ins_ok [OF ok l *(3)] .
  ultimately show "\<exists>s'. chx_timer_insert x u s = Some s' \<and>
      timer_rep s' (timer_ins (Thr x) (unat (usec_to_ticks u)) ds)"
    unfolding timer_rep_def ds using *(1,3)
    by (metis fun_upd_same)
next
  fix s :: "'z kst_scheme" and ds x
  assume r: "timer_rep s ds" and x: "Thr x \<in> fst ` set ds"
  then obtain Q xs where w: "wfq s Q" and q: "Q Qtimer = Some xs" and ok: "timer_ok s xs"
    and ds: "ds = timer_abs s xs" by (auto simp: timer_rep_def)
  have "Thr x \<in> set xs" using x unfolding ds by (metis list.set_map map_fst_timer_abs)
  then obtain r a k n p where *: "chx_timer_dequeue x s = Some (r, timer_del x a k n p s)"
      "wfl n p (Q(Qtimer \<mapsto> remove1 (Thr x) xs))" "n (Thr x) = Thr x" "p (Thr x) = Thr x"
      "(Thr x, unat r) \<in> set (timer_abs s xs)"
      "timer_abs (timer_del x a k n p s) (remove1 (Thr x) xs) = [(y, d) \<leftarrow> timer_abs s xs. y \<noteq> Thr x]"
    using chx_timer_dequeue_wfq [OF w q _ ok, of x] by blast
  have "wfq (timer_del x a k n p s) (Q(Qtimer \<mapsto> remove1 (Thr x) xs))"
    and "thread_free (timer_del x a k n p s) x"
    using *(2-4) by (simp_all add: timer_del_def thread_free_def selflinked_def)
  then show "\<exists>r s'. chx_timer_dequeue x s = Some (r, s') \<and> (Thr x, unat r) \<in> set ds \<and>
      timer_rep s' [(y, d) \<leftarrow> ds. y \<noteq> Thr x] \<and> thread_free s' x"
    unfolding timer_rep_def ds using *(1,5,6) timer_del_ok [OF ok *(6)]
    by (metis fun_upd_same)
next
  fix s :: "'z kst_scheme" and ds
  assume "timer_rep s ds"
  then show "sorted (map snd ds)"
    by (auto simp: timer_rep_def timer_abs_def deadlines_sorted)
next
  fix s :: "'z kst_scheme" and ds x
  assume "timer_rep s ds" "thread_free s x"
  then show "Thr x \<notin> fst ` set ds"
    unfolding timer_rep_def thread_free_def
    by (metis list.set_map looseD map_fst_timer_abs selflinked_loose is_node.simps(1))
qed

section \<open>Properties\<close>

text \<open>
  A state with two armed timers: thread 1 expires in 3 ticks, thread 2 in 8, thread 3 with it.
\<close>

definition three_timers :: kst where
  "three_timers = blank\<lparr>
     pq_next := (\<lambda>x. x)(Qtimer := Thr 1, Thr 1 := Thr 2, Thr 2 := Thr 3, Thr 3 := Qtimer),
     pq_prev := (\<lambda>x. x)(Thr 1 := Qtimer, Thr 2 := Thr 1, Thr 3 := Thr 2, Qtimer := Thr 3),
     pq_v := (\<lambda>x. 0)(Thr 1 := 5, Thr 3 := 1), systick := 3\<rparr>"

lemma three_timers_wfq: "wfq three_timers [Qtimer \<mapsto> [Thr 1, Thr 2, Thr 3], Qready \<mapsto> []]"
  by (auto simp: three_timers_def blank_def wfl_def dll_def split: if_splits)

lemma three_timers_abs:
  "timer_abs three_timers [Thr 1, Thr 2, Thr 3] = [(Thr 1, 3), (Thr 2, 8), (Thr 3, 8)]"
  by (simp add: timer_abs_def tval_def three_timers_def)

text \<open>
  C8: Arming a timer inserts one deadline and moves no other: \<open>chx_timer_insert\<close> returns, the
  timer queue then lists the thread at exactly its \<open>usec\<close> in ticks from now, behind the
  entries that expire no later, and every other entry still expires when it did.
\<close>

theorem timer_insert_refines:
  assumes "wfq s Q" and "Q Qtimer = Some xs" and "loose Q (Thr t)"
  shows "\<exists>s' ds. chx_timer_insert t usec s = Some s' \<and>
    ds = timer_ins (Thr t) (unat (usec_to_ticks usec)) (timer_abs s xs) \<and>
    wfq s' (Q(Qtimer \<mapsto> map fst ds)) \<and> timer_abs s' (map fst ds) = ds \<and>
    pq_parent s' (Thr t) = Some Qtimer"
proof -
  obtain a k v n p xs' where *: "chx_timer_insert t usec s = Some (timer_put t a k v n p s)"
      "wfl n p (Q(Qtimer \<mapsto> xs'))"
      "timer_abs (timer_put t a k v n p s) xs' =
        timer_ins (Thr t) (unat (usec_to_ticks usec)) (timer_abs s xs)" (is "_ = ?ds")
    using chx_timer_insert_wfq [OF assms] by blast
  moreover have "xs' = map fst ?ds" using *(3) map_fst_timer_abs by metis
  moreover have "pq_parent (timer_put t a k v n p s) (Thr t) = Some Qtimer"
    "wfq (timer_put t a k v n p s) (Q(Qtimer \<mapsto> xs'))"
    using *(2) by (simp_all add: timer_put_def)
  ultimately show ?thesis by metis
qed

lemma timer_insert_refines_witness:
  "\<exists>s' ds. chx_timer_insert 4 0 three_timers = Some s' \<and>
    ds = [(Thr 4, 0), (Thr 1, 3), (Thr 2, 8), (Thr 3, 8)] \<and>
    timer_abs s' (map fst ds) = ds"
proof -
  have "loose [Qtimer \<mapsto> [Thr 1, Thr 2, Thr 3], Qready \<mapsto> []] (Thr 4)"
    by (auto simp: loose_def split: if_splits)
  from timer_insert_refines [OF three_timers_wfq _ this, of "[Thr 1, Thr 2, Thr 3]" 0]
  show ?thesis by (auto simp: three_timers_abs usec_to_ticks_def)
qed

text \<open>
  Cancelling a timer deletes one deadline and moves no other: \<open>chx_timer_dequeue\<close>
  returns, its result is the number of ticks that were left, every other thread still expires
  when it did, and the thread is out of the queue with \<open>v\<close> zero. The 24-bit bound is what
  SysTick can hold.
\<close>

lemma timer_dequeue_refines:
  assumes "wfq s Q" and "Q Qtimer = Some xs" and "Thr t \<in> set xs"
    and "\<forall>(x, d) \<in> set (timer_abs s xs). d < 2 ^ 24"
  shows "\<exists>r s' ds. chx_timer_dequeue t s = Some (r, s') \<and> (Thr t, unat r) \<in> set (timer_abs s xs) \<and>
    ds = [(y, d) \<leftarrow> timer_abs s xs. y \<noteq> Thr t] \<and>
    wfq s' (Q(Qtimer \<mapsto> map fst ds)) \<and> timer_abs s' (map fst ds) = ds \<and>
    selflinked s' (Thr t) \<and> pq_v s' (Thr t) = 0"
proof -
  have ok: "timer_ok s xs" using assms(4) by (simp add: timer_ok_def)
  obtain r a k n p where *: "chx_timer_dequeue t s = Some (r, timer_del t a k n p s)"
      "wfl n p (Q(Qtimer \<mapsto> remove1 (Thr t) xs))" "n (Thr t) = Thr t" "p (Thr t) = Thr t"
      "(Thr t, unat r) \<in> set (timer_abs s xs)"
      "timer_abs (timer_del t a k n p s) (remove1 (Thr t) xs) = [(y, d) \<leftarrow> timer_abs s xs. y \<noteq> Thr t]"
      (is "_ = ?ds")
    using chx_timer_dequeue_wfq [OF assms(1-3) ok] by blast
  moreover have "remove1 (Thr t) xs = map fst ?ds" using *(6) map_fst_timer_abs by metis
  moreover have "selflinked (timer_del t a k n p s) (Thr t)" "pq_v (timer_del t a k n p s) (Thr t) = 0"
    "wfq (timer_del t a k n p s) (Q(Qtimer \<mapsto> remove1 (Thr t) xs))"
    using *(2-4) by (simp_all add: timer_del_def selflinked_def)
  ultimately show ?thesis by metis
qed

lemma timer_dequeue_refines_witness:
  "\<exists>r s'. chx_timer_dequeue 1 three_timers = Some (r, s') \<and> unat r = 3 \<and>
    timer_abs s' [Thr 2, Thr 3] = [(Thr 2, 8), (Thr 3, 8)]"
  using timer_dequeue_refines [OF three_timers_wfq, of "[Thr 1, Thr 2, Thr 3]" 1]
  by (auto simp: three_timers_abs)

text \<open>
  Arming and cancelling is the identity on the other timers: for a thread in no queue and
  a time SysTick can hold, \<open>chx_timer_dequeue\<close> right after \<open>chx_timer_insert\<close> gives back the
  ticks that were asked for and leaves the deadlines as they were.
\<close>

lemma timer_arm_cancel:
  assumes "timer_rep s ds" and "selflinked s (Thr t)" and "unat (usec_to_ticks usec) < 2 ^ 24"
  shows "\<exists>s1 s2. chx_timer_insert t usec s = Some s1 \<and>
    chx_timer_dequeue t s1 = Some (usec_to_ticks usec, s2) \<and> timer_rep s2 ds \<and>
    selflinked s2 (Thr t)"
  using timer.arm_cancel [OF assms(1) _ assms(3), of t] assms(2)
  by (auto simp: thread_free_def word_unat_eq_iff)

lemma timer_arm_cancel_witness:
  "\<exists>s1 s2. chx_timer_insert 4 100 three_timers = Some s1 \<and>
    chx_timer_dequeue 4 s1 = Some (7200, s2) \<and>
    timer_rep s2 [(Thr 1, 3), (Thr 2, 8), (Thr 3, 8)]"
proof -
  have "timer_rep three_timers [(Thr 1, 3), (Thr 2, 8), (Thr 3, 8)]"
    unfolding timer_rep_def using three_timers_wfq three_timers_abs
    by (intro exI [of _ "[Qtimer \<mapsto> [Thr 1, Thr 2, Thr 3], Qready \<mapsto> []]"] exI [of _ "[Thr 1, Thr 2, Thr 3]"])
      (simp add: timer_ok_def)
  moreover have "usec_to_ticks 100 = 7200" by (simp add: usec_to_ticks_def MHZ_def)
  ultimately show ?thesis using timer_arm_cancel [of three_timers _ 4 100]
    by (simp add: selflinked_def three_timers_def blank_def) blast
qed

text \<open>
  C9: When SysTick reaches zero, exactly the threads whose deadline it is are woken:
  \<open>chx_timer_expired\<close> returns; the entries at zero ticks leave the timer queue and enter the
  ready queue by priority, marked ready; the others keep their deadlines, with SysTick
  reloaded for the first of them.
\<close>

theorem timer_expired_refines:
  assumes "wfq s Q" and "Q Qtimer = Some (map Thr ts)" and "ts \<noteq> []" and "Q Qready = Some rs"
    and "systick s = 0"
  shows "\<exists>s' due rest. chx_timer_expired s = Some s' \<and> ts = due @ rest \<and>
    map Thr due = map fst [(y, d) \<leftarrow> timer_abs s (map Thr ts). d = 0] \<and>
    wfq s' (Q(Qtimer \<mapsto> map Thr rest, Qready \<mapsto> enq_fold (pq_prio s) rs (map Thr due))) \<and>
    timer_abs s' (map Thr rest) = [(y, d) \<leftarrow> timer_abs s (map Thr ts). d \<noteq> 0] \<and>
    (\<forall>t. th_state s' t = (if t \<in> set due then THREAD_READY else th_state s t))"
proof -
  obtain t us where ts: "ts = t # us" using assms(3) by (cases ts) auto
  have z: "s\<lparr>systick := 0\<rparr> = s" using assms(5) by (cases s) simp
  obtain due rest n p T where *: "ts = due @ rest"
    "chx_timer_expired s = Some (chx_request_preemption (prio_fold s 0 due)
      ((expire_set due s)\<lparr>pq_next := n, pq_prev := p, systick := T\<rparr>))"
    "wfl n p (Q(Qtimer \<mapsto> map Thr rest, Qready \<mapsto> enq_fold (pq_prio s) rs (map Thr due)))"
    "[(y, d) \<leftarrow> timer_abs s (map Thr ts). d = 0] = map (\<lambda>u. (Thr u, 0)) due"
    "timer_abs ((expire_set due s)\<lparr>pq_next := n, pq_prev := p, systick := T\<rparr>) (map Thr rest) =
      [(y, d) \<leftarrow> timer_abs s (map Thr ts). d \<noteq> 0]"
    using chx_timer_expired_wfq [of s Q t us rs] assms unfolding ts z by blast
  have "pq_next (chx_request_preemption k s') = pq_next s'"
    "pq_prev (chx_request_preemption k s') = pq_prev s'"
    "th_state (chx_request_preemption k s') = th_state s'" for k and s' :: "'a kst_scheme"
    by (simp_all add: chx_request_preemption_def)
  moreover have "timer_abs (chx_request_preemption k s') = timer_abs s'"
    for k and s' :: "'a kst_scheme"
    by (rule timer_abs_cong) (simp_all add: chx_request_preemption_def)
  ultimately show ?thesis using *
    apply -
    apply (rule exI [of _ "chx_request_preemption (prio_fold s 0 due)
      ((expire_set due s)\<lparr>pq_next := n, pq_prev := p, systick := T\<rparr>)"],
      rule exI [of _ due], rule exI [of _ rest])
    by (simp add: expire_set_def o_def del: fun_upd_apply)
qed

lemma timer_expired_refines_witness:
  "\<exists>s'. chx_timer_expired (three_timers\<lparr>systick := 0\<rparr>) = Some s' \<and>
    timer_abs s' [Thr 2, Thr 3] = [(Thr 2, 5), (Thr 3, 5)] \<and> th_state s' 1 = THREAD_READY"
proof -
  have "timer_abs (three_timers\<lparr>systick := 0\<rparr>) [Thr 1, Thr 2, Thr 3] =
      [(Thr 1, 0), (Thr 2, 5), (Thr 3, 5)]"
    by (simp add: timer_abs_def tval_def three_timers_def)
  moreover have "wfq (three_timers\<lparr>systick := 0\<rparr>) [Qtimer \<mapsto> map Thr [1, 2, 3], Qready \<mapsto> []]"
    using three_timers_wfq by simp
  ultimately show ?thesis
    using timer_expired_refines [of "three_timers\<lparr>systick := 0\<rparr>"
        "[Qtimer \<mapsto> map Thr [1, 2, 3], Qready \<mapsto> []]" "[1, 2, 3]" "[]"]
    by auto
qed

text \<open>
  Cancelling the timer of a thread that is in no queue never returns, once there is
  no timer the loop would meet: the sum loop of \<open>chx_timer_dequeue\<close> follows the timer queue
  round and round. A caller must only dequeue a thread that is in the timer queue.
\<close>

lemma timer_dequeue_absent_diverges:
  assumes "wfq s Q" and "Q Qtimer = Some xs" and "selflinked s (Thr t)"
  shows "chx_timer_dequeue t s = None"
proof -
  have "loose Q (Thr t)" using assms(1,3) by (intro selflinked_loose) auto
  then have t: "Thr t \<notin> set xs" using looseD assms(2) by blast
  have "pq_next s Qtimer \<in> insert Qtimer (set xs)" using wfl_next [OF assms(1,2)]
    by (simp add: hd_append)
  from timer_sum_diverges [OF assms(1,2) t this] show ?thesis
    using assms(3) by (simp add: chx_timer_dequeue_def selflinked_def Let_def)
qed

lemma timer_dequeue_absent_diverges_witness: "chx_timer_dequeue 4 three_timers = None"
  by (rule timer_dequeue_absent_diverges [OF three_timers_wfq, of "[Thr 1, Thr 2, Thr 3]"])
    (simp_all add: selflinked_def three_timers_def blank_def)

end
