(* ===== verification/Sched.thy ===== *)
theory Sched
  imports Timer_Queue
begin

text \<open>
  Switching threads: \<open>chx_sched\<close> for the two architectures of \<open>chopstx-cortex-m.c\<close> (the
  system call \<open>svc\<close> of Cortex-M3, the function of Cortex-M0), \<open>preempt\<close> (the PendSV handler),
  \<open>chx_handle_intr\<close> (the handler of external interrupts), and \<open>chx_wakeup\<close> of \<open>chopstx.c\<close>. What
  the assembly does with registers is context saving: a thread goes on where it called
  \<open>chx_sched\<close>, with its own \<open>v\<close> as the result. The model keeps the effect on the kernel's
  memory, on \<open>running\<close> and on the interrupt mask.
\<close>

definition PREEMPTION_USEC :: u32 where "PREEMPTION_USEC = 1000"

section \<open>Switching\<close>

text \<open>\<open>if (tp->flag_sched_rr) chx_timer_dequeue (tp)\<close>: the thread leaves the round robin timer.\<close>

definition rr_stop :: "tid \<Rightarrow> 'z kst_scheme \<Rightarrow> 'z kst_scheme option" where
  "rr_stop tp s = (if flag_sched_rr s tp then map_option snd (chx_timer_dequeue tp s) else Some s)"

text \<open>\<open>tp = chx_ready_pop ()\<close> and, for a round robin thread, its time slice.\<close>

definition pop_next :: "'z kst_scheme \<Rightarrow> (tid option \<times> 'z kst_scheme) option" where
  "pop_next s =
     (case chx_ready_pop s of
        (None, s) \<Rightarrow> Some (None, s)
      | (Some tp, s) \<Rightarrow>
          if flag_sched_rr s tp then do {
            s \<leftarrow> chx_timer_insert tp PREEMPTION_USEC s;
            Some (Some tp, s) }
          else Some (Some tp, s))"

text \<open>
  The code at \<open>.L_CONTEXT_SWITCH\<close>: update \<open>running\<close>; the idle thread runs with interrupts
  unmasked; for a thread the mask is opened unless its priority is above 247.
\<close>

definition context_switch :: "tid option \<Rightarrow> 'z kst_scheme \<Rightarrow> 'z kst_scheme" where
  "context_switch tp s =
     (case tp of
        None \<Rightarrow> s\<lparr>running := None, masked := False\<rparr>
      | Some t \<Rightarrow> s\<lparr>running := Some t,
                    masked := (if 247 < pq_prio s (Thr t) then masked s else False)\<rparr>)"

definition svc :: "bool \<Rightarrow> 'z kst_scheme \<Rightarrow> 'z kst_scheme option" where
  "svc yield s = do {
     let tp = cur s;
     s \<leftarrow> (if yield then do {
             s \<leftarrow> rr_stop tp s;
             s \<leftarrow> chx_ready_enqueue tp s;
             Some (s\<lparr>running := None\<rparr>) }
           else Some s);
     (tp, s) \<leftarrow> pop_next s;
     Some (context_switch tp s) }"

text \<open>\<open>chx_sched\<close> of Cortex-M0 does the switch itself.\<close>

definition chx_sched_m0 :: "bool \<Rightarrow> 'z kst_scheme \<Rightarrow> 'z kst_scheme option" where
  "chx_sched_m0 yield s = do {
     let tp = cur s;
     s \<leftarrow> (if yield then do {
             s \<leftarrow> rr_stop tp s;
             chx_ready_enqueue tp s }
           else Some s);
     (tp, s) \<leftarrow> pop_next s;
     Some (context_switch tp s) }"

text \<open>On Cortex-M3 \<open>chx_sched\<close> is the system call.\<close>

abbreviation chx_sched :: "bool \<Rightarrow> 'z kst_scheme \<Rightarrow> 'z kst_scheme option" where
  "chx_sched \<equiv> svc"

abbreviation (input) CHX_SLEEP :: bool where "CHX_SLEEP \<equiv> False"
abbreviation (input) CHX_YIELD :: bool where "CHX_YIELD \<equiv> True"

text \<open>
  PendSV. A round robin thread whose slice expired is \<open>THREAD_READY\<close> and in the ready queue
  already; any other running thread goes in front of the threads of its priority.
\<close>

definition preempt_put :: "tid \<Rightarrow> 'z kst_scheme \<Rightarrow> 'z kst_scheme option" where
  "preempt_put tp s =
     (if flag_sched_rr s tp then
        (if th_state s tp = THREAD_RUNNING then do {
           (_, s) \<leftarrow> chx_timer_dequeue tp s;
           chx_ready_enqueue tp s }
         else Some s)
      else chx_ready_push tp s)"

definition preempt :: "'z kst_scheme \<Rightarrow> 'z kst_scheme option" where
  "preempt s = do {
     let s = s\<lparr>masked := True, pendsv := False\<rparr>;
     s \<leftarrow> (case running s of
             None \<Rightarrow> Some s
           | Some tp \<Rightarrow> do {
               s \<leftarrow> preempt_put tp s;
               Some (s\<lparr>running := None\<rparr>) });
     (tp, s) \<leftarrow> pop_next s;
     Some (context_switch tp s) }"

section \<open>Waking up\<close>

text \<open>
  \<open>chx_wakeup\<close> of a thread or, for a proxy, of the thread that polls. The result says
  whether the caller should yield.
\<close>

definition wakes :: "tid \<Rightarrow> 'z kst_scheme \<Rightarrow> bool" where
  "wakes tp s \<longleftrightarrow> (case running s of None \<Rightarrow> True | Some r \<Rightarrow> pq_prio s (Thr r) < pq_prio s (Thr tp))"

definition chx_wakeup :: "ptr \<Rightarrow> 'z kst_scheme \<Rightarrow> (bool \<times> 'z kst_scheme) option" where
  "chx_wakeup pq s =
     (if pq_is_proxy s pq then do {
        let px = node_addr pq;
        let c = px_counter_p s px;
        let s = s\<lparr>counter := (counter s)(c := counter s c + 1)\<rparr>;
        r \<leftarrow> px_ready_p s px;
        let s = s\<lparr>pd_ready := (pd_ready s)(r := 1)\<rparr>;
        let tp = px_master s px;
        if th_state s tp = THREAD_WAIT_POLL then do {
          (v, s) \<leftarrow> (if pq_parent s (Thr tp) = Some Qtimer then chx_timer_dequeue tp s
                     else Some (1, s));
          let s = s\<lparr>pq_v := (pq_v s)(Thr tp := v)\<rparr>;
          s \<leftarrow> chx_ready_enqueue tp s;
          Some (wakes tp s, s) }
        else Some (False, s) }
      else do {
        let tp = node_addr pq;
        let s = s\<lparr>pq_v := (pq_v s)(Thr tp := 1)\<rparr>;
        s \<leftarrow> chx_ready_enqueue tp s;
        Some (wakes tp s, s) })"

text \<open>
  The loops over \<open>q_intr\<close> and \<open>q_join\<close> that look for the entry with value \<open>v\<close>
  (\<open>Some None\<close>: there is none).
\<close>

partial_function (option) seek_v :: "u32 \<Rightarrow> ptr \<Rightarrow> ptr \<Rightarrow> 'z kst_scheme \<Rightarrow> ptr option option" where
  "seek_v v p q s =
     (if p = q then Some None
      else if pq_v s p = v then Some (Some p)
      else seek_v v (pq_next s p) q s)"

definition chx_handle_intr :: "u8 \<Rightarrow> 'z kst_scheme \<Rightarrow> 'z kst_scheme option" where
  "chx_handle_intr irq_num s = do {
     let s = chx_disable_intr irq_num s;
     p \<leftarrow> seek_v (ucast irq_num) (pq_next s Qintr) Qintr s;
     (case p of
        None \<Rightarrow> Some s
      | Some p \<Rightarrow> do {
          let s = ll_dequeue p s;
          (_, s) \<leftarrow> chx_wakeup p s;
          Some (chx_request_preemption (ucast (pq_prio s (Thr (px_master s (node_addr p))))) s) }) }"

section \<open>The two architectures agree\<close>

text \<open>Nothing on the way reads \<open>running\<close>, which \<open>svc\<close> clears before it picks a thread.\<close>

lemma ll_pop_running: "ll_pop q (s\<lparr>running := r\<rparr>) = (case ll_pop q s of (x, s') \<Rightarrow> (x, s'\<lparr>running := r\<rparr>))"
  by (simp add: ll_pop_def ll_dequeue_def Let_def)

lemma chx_ready_pop_running:
  "chx_ready_pop (s\<lparr>running := r\<rparr>) = (case chx_ready_pop s of (x, s') \<Rightarrow> (x, s'\<lparr>running := r\<rparr>))"
  by (simp add: chx_ready_pop_def ll_pop_running Let_def split: prod.splits option.splits)

lemma timer_insert_loop_running1:
  "timer_insert_loop t p k nt s = Some s' \<Longrightarrow>
   timer_insert_loop t p k nt (s\<lparr>running := r\<rparr>) = Some (s'\<lparr>running := r\<rparr>)"
proof (erule timer_insert_loop.raw_induct [rotated])
  fix f :: "tid \<Rightarrow> ptr \<Rightarrow> u32 \<Rightarrow> u32 \<Rightarrow> 'a kst_scheme \<Rightarrow> 'a kst_scheme option" and t p k nt s s'
  assume IH: "\<And>t p k nt s s'. f t p k nt s = Some s' \<Longrightarrow>
      timer_insert_loop t p k nt (s\<lparr>running := r\<rparr>) = Some (s'\<lparr>running := r\<rparr>)"
    and eq: "(if p = Qtimer then
        (let s = s\<lparr>pq_parent := (pq_parent s)(Thr t := Some Qtimer)\<rparr>; s = ll_insert (Thr t) p s;
             s = chx_set_timer (pq_prev s (Thr t)) k s
         in Some (chx_set_timer (Thr t) 1 s))
      else if k < nt then
        (let s = s\<lparr>pq_parent := (pq_parent s)(Thr t := Some Qtimer)\<rparr>; s = ll_insert (Thr t) p s;
             s = chx_set_timer (pq_prev s (Thr t)) k s
         in Some (chx_set_timer (Thr t) (nt - k) s))
      else f t (pq_next s p) (k - nt) (pq_v s p) s) = Some s'"
  show "timer_insert_loop t p k nt (s\<lparr>running := r\<rparr>) = Some (s'\<lparr>running := r\<rparr>)"
  proof (cases "p = Qtimer \<or> k < nt")
    case True
    with eq show ?thesis
      by (auto simp: timer_insert_loop.simps [of _ p] ll_insert_def chx_set_timer_def
          chx_systick_reload_def Let_def split: if_splits)
  next
    case False
    with eq IH [of t "pq_next s p" "k - nt" "pq_v s p" s s'] show ?thesis
      by (simp add: timer_insert_loop.simps [of _ p])
  qed
qed

lemma chx_timer_insert_running:
  "chx_timer_insert t k (s\<lparr>running := r\<rparr>) = map_option (\<lambda>s. s\<lparr>running := r\<rparr>) (chx_timer_insert t k s)"
proof (cases "chx_timer_insert t k s")
  case (Some s')
  then show ?thesis
    by (simp add: chx_timer_insert_def chx_systick_get_def timer_insert_loop_running1)
next
  case None
  have "chx_timer_insert t k (s\<lparr>running := r\<rparr>) \<noteq> Some s'" for s'
  proof
    assume "chx_timer_insert t k (s\<lparr>running := r\<rparr>) = Some s'"
    then have "timer_insert_loop t (pq_next s Qtimer) (usec_to_ticks k) (systick s)
        (s\<lparr>running := r, running := running s\<rparr>) = Some (s'\<lparr>running := running s\<rparr>)"
      by (intro timer_insert_loop_running1) (simp add: chx_timer_insert_def chx_systick_get_def)
    with None show False by (simp add: chx_timer_insert_def chx_systick_get_def)
  qed
  with None show ?thesis by (cases "chx_timer_insert t k (s\<lparr>running := r\<rparr>)") auto
qed

lemma pop_next_running:
  "pop_next (s\<lparr>running := r\<rparr>) = map_option (\<lambda>(tp, s). (tp, s\<lparr>running := r\<rparr>)) (pop_next s)"
  by (auto simp: pop_next_def chx_ready_pop_running chx_timer_insert_running
      split: prod.splits option.splits bind_splits)

lemma context_switch_running: "context_switch tp (s\<lparr>running := r\<rparr>) = context_switch tp s"
  by (simp add: context_switch_def split: option.splits)

lemma svc_m0: "svc yield s = chx_sched_m0 yield s"
proof -
  have "do { (tp, s) \<leftarrow> pop_next (s1\<lparr>running := None\<rparr>); Some (context_switch tp s) } =
      do { (tp, s) \<leftarrow> pop_next s1; Some (context_switch tp s) }" for s1 :: "'a kst_scheme"
    unfolding pop_next_running
    by (cases "pop_next s1") (auto simp: context_switch_running)
  then show ?thesis
    by (simp add: svc_def chx_sched_m0_def Let_def)
qed

text \<open>
  The two implementations of \<open>chx_sched\<close> agree: in every state, for a yield and for a
  sleep, the system call of Cortex-M3 (which clears \<open>running\<close> first) and the function of
  Cortex-M0 choose the same thread and leave the same memory, or both do not return.
\<close>

lemma sched_architectures_agree: "svc yield s = chx_sched_m0 yield s"
  by (rule svc_m0)

end
