(* ===== verification/Kernel_Inv.thy ===== *)
theory Kernel_Inv
  imports Sched
begin

text \<open>
  The invariant of the kernel and the moves that keep it. \<open>kinv X r s Q e\<close> says of the memory
  \<open>s\<close> that the queues represent the lists \<open>Q\<close>; that every thread outside \<open>X\<close> is in a queue
  its state allows, with \<open>parent\<close> pointing to it (the threads of \<open>X\<close> are in flight, in no
  queue); that the queues sorted by priority are; that timers fit in SysTick; that mutexes
  know their owners and threads the mutexes they hold. \<open>e\<close> names the objects: the threads,
  the poll proxies, and for each thread the mutexes it holds, last locked first.
\<close>

section \<open>Places\<close>

definition inq :: "(ptr \<rightharpoonup> ptr list) \<Rightarrow> ptr \<Rightarrow> ptr \<Rightarrow> bool" where
  "inq Q x q \<longleftrightarrow> (\<exists>xs. Q q = Some xs \<and> x \<in> set xs)"

lemma loose_inq: "loose Q x \<longleftrightarrow> is_node x \<and> (\<forall>q. \<not> inq Q x q)"
  by (auto simp: loose_def inq_def)

lemma inq_upd: "inq (Q(q \<mapsto> ys)) x q' \<longleftrightarrow> (if q' = q then x \<in> set ys else inq Q x q')"
  by (simp add: inq_def)

lemma inq_here: "Q q = Some xs \<Longrightarrow> inq Q x q \<longleftrightarrow> x \<in> set xs"
  by (simp add: inq_def)

lemma inq_unique: "wfq s Q \<Longrightarrow> inq Q x q \<Longrightarrow> inq Q x q' \<Longrightarrow> q = q'"
  by (auto simp: inq_def dest: wfl_disjoint)

text \<open>The queues a thread may be in, by its state, and the states of a thread in no queue.\<close>

fun allowed :: "tstate \<Rightarrow> bool \<Rightarrow> ptr \<Rightarrow> bool" where
  "allowed THREAD_RUNNING rr q \<longleftrightarrow> rr \<and> q = Qtimer"
| "allowed THREAD_READY rr q \<longleftrightarrow> q = Qready"
| "allowed THREAD_WAIT_MTX rr q \<longleftrightarrow> (\<exists>m. q = Mtxq m)"
| "allowed THREAD_WAIT_CND rr q \<longleftrightarrow> (\<exists>c. q = Condq c)"
| "allowed THREAD_WAIT_TIME rr q \<longleftrightarrow> q = Qtimer"
| "allowed THREAD_WAIT_EXIT rr q \<longleftrightarrow> q = Qjoin"
| "allowed THREAD_WAIT_POLL rr q \<longleftrightarrow> q = Qtimer"
| "allowed THREAD_EXITED rr q \<longleftrightarrow> False"
| "allowed THREAD_FINISHED rr q \<longleftrightarrow> False"

fun resting :: "tstate \<Rightarrow> bool \<Rightarrow> bool" where
  "resting THREAD_RUNNING rr \<longleftrightarrow> \<not> rr"
| "resting THREAD_WAIT_POLL rr \<longleftrightarrow> True"
| "resting THREAD_EXITED rr \<longleftrightarrow> True"
| "resting THREAD_FINISHED rr \<longleftrightarrow> True"
| "resting _ rr \<longleftrightarrow> False"

text \<open>Queues a proxy may be in, and queues that stay sorted by priority (\<open>q_join\<close> need not).\<close>

fun px_queue :: "ptr \<Rightarrow> bool" where
  "px_queue Qjoin \<longleftrightarrow> True"
| "px_queue Qintr \<longleftrightarrow> True"
| "px_queue (Condq c) \<longleftrightarrow> True"
| "px_queue _ \<longleftrightarrow> False"

definition prio_sorted :: "ptr \<Rightarrow> bool" where
  "prio_sorted q \<longleftrightarrow> q \<noteq> Qtimer \<and> q \<noteq> Qjoin"

section \<open>The invariant\<close>

record env =
  threads :: "tid set"
  proxies :: "addr set"
  held :: "tid \<Rightarrow> mid list"

definition thread_at ::
  "tid option \<Rightarrow> 'z kst_scheme \<Rightarrow> (ptr \<rightharpoonup> ptr list) \<Rightarrow> env \<Rightarrow> tid \<Rightarrow> bool" where
  "thread_at r s Q e t \<longleftrightarrow>
     (\<forall>q. inq Q (Thr t) q \<longrightarrow> allowed (th_state s t) (flag_sched_rr s t) q) \<and>
     (loose Q (Thr t) \<longrightarrow> resting (th_state s t) (flag_sched_rr s t) \<and>
        (th_state s t \<in> {THREAD_RUNNING, THREAD_WAIT_POLL} \<longrightarrow> pq_parent s (Thr t) \<noteq> Some Qtimer)) \<and>
     (th_state s t = THREAD_RUNNING \<longrightarrow> r = Some t) \<and>
     (th_state s t = THREAD_WAIT_EXIT \<longrightarrow> pq_v s (Thr t) \<in> threads e) \<and>
     (th_state s t \<in> {THREAD_EXITED, THREAD_FINISHED} \<longrightarrow> held e t = [])"

text \<open>A registered proxy's descriptor is not marked ready yet.\<close>

definition px_waits :: "addr option \<Rightarrow> (addr \<Rightarrow> u16) \<Rightarrow> bool" where
  "px_waits d ready \<longleftrightarrow> (\<exists>a. d = Some a \<and> ready a = 0)"

text \<open>No two proxies share a descriptor.\<close>

definition px_distinct :: "(addr \<Rightarrow> addr option) \<Rightarrow> addr set \<Rightarrow> bool" where
  "px_distinct f P \<longleftrightarrow> (\<forall>a \<in> P. \<forall>b \<in> P. f a \<noteq> None \<longrightarrow> f a = f b \<longrightarrow> a = b)"

definition queues_ok :: "'z kst_scheme \<Rightarrow> (ptr \<rightharpoonup> ptr list) \<Rightarrow> env \<Rightarrow> bool" where
  "queues_ok s Q e \<longleftrightarrow>
     wfq s Q \<and> {Qready, Qtimer, Qjoin, Qintr} \<subseteq> dom Q \<and>
     (\<forall>x q. inq Q x q \<longrightarrow> pq_parent s x = Some q) \<and>
     (\<forall>t q. inq Q (Thr t) q \<longrightarrow> t \<in> threads e) \<and>
     (\<forall>a q. inq Q (Px a) q \<longrightarrow> a \<in> proxies e \<and> px_queue q \<and> px_waits (px_ready_p s a) (pd_ready s))"

definition objects_ok :: "'z kst_scheme \<Rightarrow> (ptr \<rightharpoonup> ptr list) \<Rightarrow> env \<Rightarrow> bool" where
  "objects_ok s Q e \<longleftrightarrow>
     (\<forall>a \<in> proxies e. pq_is_proxy s (Px a) \<and> px_master s a \<in> threads e \<and>
        (loose Q (Px a) \<longrightarrow> selflinked s (Px a))) \<and>
     px_distinct (px_ready_p s) (proxies e) \<and>
     (\<forall>t \<in> threads e. \<not> pq_is_proxy s (Thr t)) \<and> finite (threads e) \<and> 0 \<notin> threads e"

definition order_ok :: "'z kst_scheme \<Rightarrow> (ptr \<rightharpoonup> ptr list) \<Rightarrow> bool" where
  "order_ok s Q \<longleftrightarrow>
     (\<forall>q xs. Q q = Some xs \<longrightarrow> prio_sorted q \<longrightarrow> desc (pq_prio s) xs) \<and>
     (\<forall>xs. Q Qtimer = Some xs \<longrightarrow> timer_ok s xs)"

fun mchain :: "(mid \<Rightarrow> mid option) \<Rightarrow> mid option \<Rightarrow> mid list \<Rightarrow> bool" where
  "mchain f p [] \<longleftrightarrow> p = None"
| "mchain f p (m # ms) \<longleftrightarrow> p = Some m \<and> mchain f (f m) ms"

definition locks_ok :: "'z kst_scheme \<Rightarrow> (ptr \<rightharpoonup> ptr list) \<Rightarrow> env \<Rightarrow> bool" where
  "locks_ok s Q e \<longleftrightarrow>
     (\<forall>t \<in> threads e. mchain (mtx_list s) (mutex_list s t) (held e t) \<and> distinct (held e t) \<and>
        (\<forall>m \<in> set (held e t). Mtxq m \<in> dom Q)) \<and>
     (\<forall>m t. Mtxq m \<in> dom Q \<longrightarrow>
        (mtx_owner s m = Some t \<longleftrightarrow> t \<in> threads e \<and> m \<in> set (held e t)))"

definition kinv ::
  "tid set \<Rightarrow> tid option \<Rightarrow> 'z kst_scheme \<Rightarrow> (ptr \<rightharpoonup> ptr list) \<Rightarrow> env \<Rightarrow> bool" where
  "kinv X r s Q e \<longleftrightarrow> queues_ok s Q e \<and> objects_ok s Q e \<and> order_ok s Q \<and> locks_ok s Q e \<and>
     (\<forall>t \<in> threads e. if t \<in> X then loose Q (Thr t) else thread_at r s Q e t)"

lemmas kinv_defs = kinv_def queues_ok_def objects_ok_def order_ok_def locks_ok_def thread_at_def

text \<open>Fields the invariant does not read.\<close>

lemma kinv_frame [simp]:
  "kinv X r (s\<lparr>counter := c\<rparr>) Q e = kinv X r s Q e"
  "kinv X r (s\<lparr>pd_type := pt\<rparr>) Q e = kinv X r s Q e"
  "kinv X r (s\<lparr>pd_irq := pirq\<rparr>) Q e = kinv X r s Q e"
  "kinv X r (s\<lparr>th_clp := cl\<rparr>) Q e = kinv X r s Q e"
  "kinv X r (s\<lparr>clp_next := cn\<rparr>) Q e = kinv X r s Q e"
  "kinv X r (s\<lparr>running := ru\<rparr>) Q e = kinv X r s Q e"
  "kinv X r (s\<lparr>chx_allow_sleep := al\<rparr>) Q e = kinv X r s Q e"
  "kinv X r (s\<lparr>masked := ma\<rparr>) Q e = kinv X r s Q e"
  "kinv X r (s\<lparr>pendsv := pe\<rparr>) Q e = kinv X r s Q e"
  "kinv X r (s\<lparr>nvic_enabled := ne\<rparr>) Q e = kinv X r s Q e"
  "kinv X r (s\<lparr>nvic_pending := np\<rparr>) Q e = kinv X r s Q e"
  "kinv X r (s\<lparr>flag_got_cancel := gc\<rparr>) Q e = kinv X r s Q e"
  "kinv X r (s\<lparr>flag_cancelable := ca\<rparr>) Q e = kinv X r s Q e"
  "kinv X r (s\<lparr>flag_detached := de\<rparr>) Q e = kinv X r s Q e"
  "kinv X r (s\<lparr>flag_join_req := jr\<rparr>) Q e = kinv X r s Q e"
  "kinv X r (s\<lparr>prio_orig := po\<rparr>) Q e = kinv X r s Q e"
  "kinv X r (s\<lparr>px_counter_p := cp\<rparr>) Q e = kinv X r s Q e"
  by (simp_all add: kinv_defs selflinked_def timer_ok_def timer_abs_def tval_def [abs_def] cong: if_cong)

section \<open>Consequences\<close>

lemma kinv_wfq: "kinv X r s Q e \<Longrightarrow> wfq s Q"
  by (simp add: kinv_defs)

lemma kinv_head:
  "kinv X r s Q e \<Longrightarrow> q \<in> {Qready, Qtimer, Qjoin, Qintr} \<Longrightarrow> \<exists>xs. Q q = Some xs"
  unfolding kinv_def queues_ok_def by blast

lemma kinv_parent: "kinv X r s Q e \<Longrightarrow> inq Q x q \<Longrightarrow> pq_parent s x = Some q"
  by (simp add: kinv_defs)

lemma kinv_thread: "kinv X r s Q e \<Longrightarrow> inq Q (Thr t) q \<Longrightarrow> t \<in> threads e"
  unfolding kinv_def queues_ok_def by blast

lemma kinv_at: "kinv X r s Q e \<Longrightarrow> t \<in> threads e \<Longrightarrow> t \<notin> X \<Longrightarrow> thread_at r s Q e t"
  by (simp add: kinv_def)

lemma kinv_loose: "kinv X r s Q e \<Longrightarrow> t \<in> threads e \<Longrightarrow> t \<in> X \<Longrightarrow> loose Q (Thr t)"
  by (auto simp: kinv_def)

lemma kinv_px: "kinv X r s Q e \<Longrightarrow> inq Q (Px a) q \<Longrightarrow>
    a \<in> proxies e \<and> px_queue q \<and> px_waits (px_ready_p s a) (pd_ready s) \<and> pq_is_proxy s (Px a) \<and> px_master s a \<in> threads e"
  unfolding kinv_def queues_ok_def objects_ok_def by blast

text \<open>A thread in flight is in no queue; a queued thread is in a queue its state allows.\<close>

lemma kinv_inq:
  "kinv X r s Q e \<Longrightarrow> inq Q (Thr t) q \<Longrightarrow>
   t \<in> threads e \<and> t \<notin> X \<and> allowed (th_state s t) (flag_sched_rr s t) q"
  using kinv_thread [of X r s Q e t q] kinv_loose [of X r s Q e t] kinv_at [of X r s Q e t]
  by (auto simp: thread_at_def loose_inq)

lemma kinv_queued:
  "kinv X r s Q e \<Longrightarrow> t \<in> threads e \<Longrightarrow> t \<notin> X \<Longrightarrow> \<not> resting (th_state s t) (flag_sched_rr s t) \<Longrightarrow>
   \<exists>q. inq Q (Thr t) q \<and> allowed (th_state s t) (flag_sched_rr s t) q \<and> pq_parent s (Thr t) = Some q"
  using kinv_at [of X r s Q e t] kinv_inq [of X r s Q e t] kinv_parent [of X r s Q e "Thr t"]
  by (auto simp: thread_at_def loose_inq)

lemma kinv_weaken_running:
  "kinv X r s Q e \<Longrightarrow> (\<And>t. t \<in> threads e \<Longrightarrow> t \<notin> X \<Longrightarrow> th_state s t = THREAD_RUNNING \<Longrightarrow> r' = Some t) \<Longrightarrow>
   kinv X r' s Q e"
  unfolding kinv_def thread_at_def by (auto split: if_splits)

lemma kinv_not_running:
  "kinv {} (Some t) s Q e \<Longrightarrow> th_state s t \<noteq> THREAD_RUNNING \<Longrightarrow> kinv {} None s Q e"
  by (rule kinv_weaken_running [of "{}" "Some t"]) (auto dest: kinv_at simp: thread_at_def)

lemma kinv_untimed:
  "kinv X r s Q e \<Longrightarrow> t \<in> threads e \<Longrightarrow> t \<notin> X \<Longrightarrow>
   th_state s t \<in> {THREAD_WAIT_MTX, THREAD_WAIT_CND, THREAD_WAIT_EXIT} \<Longrightarrow> \<not> inq Q (Thr t) Qtimer"
  using kinv_inq [of X r s Q e t Qtimer] by auto

lemma px_waits_ready: "px_waits (px_ready_p s a) (pd_ready s) \<Longrightarrow> px_ready_p s a \<noteq> None"
  by (auto simp: px_waits_def)

lemma kinv_set_ready:
  assumes k: "kinv X r s Q e"
    and pr: "\<And>a q d. inq Q (Px a) q \<Longrightarrow> px_ready_p s a = Some d \<Longrightarrow> pr d = pd_ready s d"
  shows "kinv X r (s\<lparr>pd_ready := pr\<rparr>) Q e"
proof -
  have "px_waits (px_ready_p s a) pr" if "inq Q (Px a) q" for a q
  proof -
    have "px_waits (px_ready_p s a) (pd_ready s)" using k that unfolding kinv_def queues_ok_def by blast
    then show ?thesis using pr [OF that] by (auto simp: px_waits_def)
  qed
  then have "queues_ok (s\<lparr>pd_ready := pr\<rparr>) Q e" using k by (simp add: kinv_def queues_ok_def)
  moreover have "timer_ok (s\<lparr>pd_ready := pr\<rparr>) xs = timer_ok s xs" for xs
    by (simp add: timer_ok_def timer_abs_def tval_def [abs_def] cong: if_cong)
  moreover have "thread_at r (s\<lparr>pd_ready := pr\<rparr>) Q e t = thread_at r s Q e t" for t
    by (simp add: thread_at_def)
  moreover have "objects_ok (s\<lparr>pd_ready := pr\<rparr>) Q e = objects_ok s Q e"
    "locks_ok (s\<lparr>pd_ready := pr\<rparr>) Q e = locks_ok s Q e"
    by (simp_all add: objects_ok_def locks_ok_def selflinked_def)
  ultimately show ?thesis using k by (simp add: kinv_def order_ok_def)
qed

text \<open>Scheduling does not create or destroy queues.\<close>

lemma kinv_dom_eq:
  assumes k: "kinv X r s Q e" and k': "kinv X' r' s' Q' e'"
    and eq: "\<forall>q. q \<noteq> Qready \<longrightarrow> q \<noteq> Qtimer \<longrightarrow> Q' q = Q q"
  shows "dom Q' = dom Q"
proof (rule set_eqI)
  fix q
  show "q \<in> dom Q' \<longleftrightarrow> q \<in> dom Q"
  proof (cases "q \<in> {Qready, Qtimer}")
    case True
    then show ?thesis using kinv_head [OF k, of q] kinv_head [OF k', of q] by auto
  next
    case False
    with eq have "Q' q = Q q" by simp
    then show ?thesis by (simp add: domIff)
  qed
qed

lemma kinv_dom_eq3:
  assumes k: "kinv X r s Q e" and k': "kinv X' r' s' Q' e'" and q: "q \<in> dom Q" "q \<in> dom Q'"
    and eq: "\<forall>q'. q' \<notin> {q, Qready, Qtimer} \<longrightarrow> Q' q' = Q q'"
  shows "dom Q' = dom Q"
proof (rule set_eqI)
  fix x
  show "x \<in> dom Q' \<longleftrightarrow> x \<in> dom Q"
  proof (cases "x \<in> {q, Qready, Qtimer}")
    case True
    then show ?thesis using kinv_head [OF k, of x] kinv_head [OF k', of x] q by auto
  next
    case False
    with eq have "Q' x = Q x" by simp
    then show ?thesis by (simp add: domIff)
  qed
qed

section \<open>The one way the invariant changes\<close>

text \<open>
  A step that moves one thread and changes nothing the invariant reads of the others keeps
  the invariant, if the thread's new place is allowed and the orders hold.
\<close>

lemma kinv_move:
  assumes k: "kinv X r s Q e" and t: "t \<in> threads e"
    and w: "wfq s' Q'" and dom: "dom Q' = dom Q"
    and same: "\<And>y q. y \<noteq> Thr t \<Longrightarrow> inq Q' y q = inq Q y q"
    and par: "\<And>y. y \<noteq> Thr t \<Longrightarrow> pq_parent s' y = pq_parent s y"
    and part: "\<And>q. inq Q' (Thr t) q \<Longrightarrow> pq_parent s' (Thr t) = Some q"
    and st: "\<And>u. u \<noteq> t \<Longrightarrow> th_state s' u = th_state s u"
    and v: "\<And>u. u \<noteq> t \<Longrightarrow> inq Q (Thr u) Qjoin \<Longrightarrow> pq_v s' (Thr u) = pq_v s (Thr u)"
    and fields: "flag_sched_rr s' = flag_sched_rr s" "pq_is_proxy s' = pq_is_proxy s"
      "px_ready_p s' = px_ready_p s" "pd_ready s' = pd_ready s" "px_master s' = px_master s" "mtx_owner s' = mtx_owner s"
      "mtx_list s' = mtx_list s" "mutex_list s' = mutex_list s"
    and px: "\<And>a. loose Q (Px a) \<Longrightarrow> pq_next s' (Px a) = pq_next s (Px a) \<and> pq_prev s' (Px a) = pq_prev s (Px a)"
    and ord: "order_ok s' Q'"
    and new: "if t \<in> X' then loose Q' (Thr t) else thread_at r' s' Q' e t"
    and X': "\<And>u. u \<noteq> t \<Longrightarrow> u \<in> X' \<longleftrightarrow> u \<in> X"
    and r': "\<And>u. u \<noteq> t \<Longrightarrow> r = Some u \<Longrightarrow> r' = Some u"
  shows "kinv X' r' s' Q' e"
proof -
  have lo: "loose Q' y \<longleftrightarrow> loose Q y" if "y \<noteq> Thr t" for y
    using same [OF that] by (simp add: loose_inq)
  have q: "queues_ok s' Q' e"
    unfolding queues_ok_def
  proof (intro conjI allI impI)
    show "wfq s' Q'" by (rule w)
    show "{Qready, Qtimer, Qjoin, Qintr} \<subseteq> dom Q'" using k dom by (simp add: kinv_defs)
    show "pq_parent s' x = Some q" if "inq Q' x q" for x q
      using that same part par kinv_parent [OF k] by (cases "x = Thr t") auto
    show "u \<in> threads e" if "inq Q' (Thr u) q" for u q
      using that same kinv_thread [OF k] t by (cases "u = t") auto
    show "a \<in> proxies e" "px_queue q" "px_waits (px_ready_p s' a) (pd_ready s')" if "inq Q' (Px a) q" for a q
      using that same kinv_px [OF k, of a q] fields by auto
  qed
  have o: "objects_ok s' Q' e"
    using k px lo fields unfolding kinv_def objects_ok_def selflinked_def by auto
  have l: "locks_ok s' Q' e" using k dom fields unfolding kinv_def locks_ok_def by simp
  have "if u \<in> X' then loose Q' (Thr u) else thread_at r' s' Q' e u" if u: "u \<in> threads e" for u
  proof (cases "u = t")
    case False
    show ?thesis
    proof (cases "u \<in> X")
      case True
      with False u k X' lo show ?thesis by (auto simp: kinv_def)
    next
      case nX: False
      have ta: "thread_at r s Q e u" using kinv_at [OF k u nX] .
      have "th_state s u = THREAD_WAIT_EXIT \<Longrightarrow> pq_v s' (Thr u) = pq_v s (Thr u)"
        using v [OF False] kinv_queued [OF k u nX] by auto
      with ta False nX X' lo same [of "Thr u"] st [OF False] par [of "Thr u"] fields r' [OF False]
      show ?thesis unfolding thread_at_def by auto
    qed
  qed (use new in simp)
  with q o l ord show ?thesis by (simp add: kinv_def)
qed

section \<open>The moves\<close>

lemma order_okD: "order_ok s Q \<Longrightarrow> Q q = Some xs \<Longrightarrow> prio_sorted q \<Longrightarrow> desc (pq_prio s) xs"
  by (simp add: order_ok_def)

lemma kinv_order: "kinv X r s Q e \<Longrightarrow> order_ok s Q"
  by (simp add: kinv_def)

lemma timer_ok_cong:
  "(\<And>x. x \<in> set xs \<Longrightarrow> pq_v s x = pq_v s' x) \<Longrightarrow> systick s = systick s' \<Longrightarrow> Qtimer \<notin> set xs \<Longrightarrow>
   timer_ok s xs \<longleftrightarrow> timer_ok s' xs"
proof -
  assume "\<And>x. x \<in> set xs \<Longrightarrow> pq_v s x = pq_v s' x" "systick s = systick s'" "Qtimer \<notin> set xs"
  then have "deadlines (\<lambda>x. unat (tval s x)) c xs = deadlines (\<lambda>x. unat (tval s' x)) c xs" for c
    by (intro deadlines_cong) (auto simp: tval_def)
  with \<open>systick s = systick s'\<close> show ?thesis
    by (simp add: timer_ok_def timer_abs_def tval_def [of _ Qtimer])
qed

lemma order_ok_upd:
  assumes o: "order_ok s Q"
    and pr: "pq_prio s' = pq_prio s" and v: "pq_v s' = pq_v s" and st: "systick s' = systick s"
    and q: "q \<noteq> Qtimer" and d: "prio_sorted q \<Longrightarrow> desc (pq_prio s) ys"
  shows "order_ok s' (Q(q \<mapsto> ys))"
  using o d q unfolding order_ok_def timer_ok_def timer_abs_cong [OF st v] pr
  by (auto split: if_splits)

lemma dom_upd_same: "Q q = Some xs \<Longrightarrow> dom (Q(q \<mapsto> ys)) = dom Q"
  by auto

lemma dom_change_one:
  "\<forall>q'. q' \<noteq> q \<longrightarrow> Q' q' = Q q' \<Longrightarrow> \<exists>xs. Q q = Some xs \<Longrightarrow> \<exists>ys. Q' q = Some ys \<Longrightarrow> dom Q' = dom Q"
proof (rule set_eqI)
  fix x
  assume "\<forall>q'. q' \<noteq> q \<longrightarrow> Q' q' = Q q'" "\<exists>xs. Q q = Some xs" "\<exists>ys. Q' q = Some ys"
  then show "x \<in> dom Q' \<longleftrightarrow> x \<in> dom Q" by (cases "x = q") auto
qed

text \<open>Out of a queue that is not the timer queue.\<close>

lemma kinv_dequeue:
  assumes k: "kinv X r s Q e" and q: "Q q = Some xs" and x: "Thr t \<in> set xs" and nt: "q \<noteq> Qtimer"
  shows "\<exists>n p. ll_dequeue (Thr t) s = s\<lparr>pq_next := n, pq_prev := p\<rparr> \<and>
    kinv (insert t X) r (s\<lparr>pq_next := n, pq_prev := p\<rparr>) (Q(q \<mapsto> remove1 (Thr t) xs)) e"
proof -
  have w: "wfq s Q" using kinv_wfq [OF k] .
  obtain n p where e: "ll_dequeue (Thr t) s = s\<lparr>pq_next := n, pq_prev := p\<rparr>"
    and w': "wfl n p (Q(q \<mapsto> remove1 (Thr t) xs))" and kp: "keeps s Q {} n p"
    using ll_dequeue_wfq [OF w q x] by blast
  have iq: "inq Q (Thr t) q" using q x by (simp add: inq_def)
  have "kinv (insert t X) r (s\<lparr>pq_next := n, pq_prev := p\<rparr>) (Q(q \<mapsto> remove1 (Thr t) xs)) e"
  proof (rule kinv_move [OF k kinv_thread [OF k iq]])
    show "inq (Q(q \<mapsto> remove1 (Thr t) xs)) y q' = inq Q y q'" if "y \<noteq> Thr t" for y q'
      using that q by (auto simp: inq_upd inq_here)
    show "pq_parent (s\<lparr>pq_next := n, pq_prev := p\<rparr>) (Thr t) = Some q'"
      if "inq (Q(q \<mapsto> remove1 (Thr t) xs)) (Thr t) q'" for q'
      using that loose_after_remove [OF w q x] by (simp add: loose_inq)
    show "order_ok (s\<lparr>pq_next := n, pq_prev := p\<rparr>) (Q(q \<mapsto> remove1 (Thr t) xs))"
      by (rule order_ok_upd [OF kinv_order [OF k] _ _ _ nt])
        (auto intro: desc_remove1 order_okD [OF kinv_order [OF k] q])
  qed (use w' kp q loose_after_remove [OF w q x] in \<open>auto simp: dom_upd_same keeps_def\<close>)
  with e show ?thesis by blast
qed

text \<open>Out of the timer queue.\<close>

lemma kinv_timer_dequeue:
  assumes k: "kinv X r s Q e" and x: "inq Q (Thr t) Qtimer"
  shows "\<exists>i n p v c Q'. chx_timer_dequeue t s =
      Some (i, s\<lparr>pq_v := v, systick := c, pq_next := n, pq_prev := p\<rparr>) \<and>
    kinv (insert t X) r (s\<lparr>pq_v := v, systick := c, pq_next := n, pq_prev := p\<rparr>) Q' e \<and>
    (\<forall>q. q \<noteq> Qtimer \<longrightarrow> Q' q = Q q) \<and> (\<forall>y. \<not> inq Q y Qtimer \<longrightarrow> v y = pq_v s y)"
proof -
  have w: "wfq s Q" using kinv_wfq [OF k] .
  obtain xs where q: "Q Qtimer = Some xs" and xt: "Thr t \<in> set xs" using x by (auto simp: inq_def)
  have ok: "timer_ok s xs" using kinv_order [OF k] q by (simp add: order_ok_def)
  obtain i a c n p where e: "chx_timer_dequeue t s = Some (i, timer_del t a c n p s)"
    and w': "wfl n p (Q(Qtimer \<mapsto> remove1 (Thr t) xs))" and kp: "keeps s Q {} n p"
    and a: "a \<in> insert Qtimer (set xs)" "a \<noteq> Thr t"
    and abs: "timer_abs (timer_del t a c n p s) (remove1 (Thr t) xs) =
      [(y, d) \<leftarrow> timer_abs s xs. y \<noteq> Thr t]"
    using chx_timer_dequeue_wfq [OF w q xt ok] by blast
  let ?Q = "Q(Qtimer \<mapsto> remove1 (Thr t) xs)" and ?s = "timer_del t a c n p s"
  have vfr: "pq_v ?s y = pq_v s y" if "\<not> inq Q y Qtimer" for y
    using that a xt q by (auto simp: timer_del_def inq_def)
  have lo: "loose ?Q (Thr t)" using loose_after_remove [OF w q xt] .
  have ks: "kinv (insert t X) r ?s ?Q e"
  proof (rule kinv_move [OF k kinv_thread [OF k x]])
    show "inq ?Q y q' = inq Q y q'" if "y \<noteq> Thr t" for y q'
      using that q by (auto simp: inq_upd inq_here)
    show "pq_v ?s (Thr u) = pq_v s (Thr u)" if "u \<noteq> t" "inq Q (Thr u) Qjoin" for u
      using that inq_unique [OF w] by (intro vfr) blast
    have "desc (pq_prio ?s) ys" if "?Q q' = Some ys" "prio_sorted q'" for q' ys
      using that order_okD [OF kinv_order [OF k]]
      by (auto simp: timer_del_def prio_sorted_def split: if_splits)
    moreover have "timer_ok ?s (remove1 (Thr t) xs)" using timer_del_ok [OF ok abs] .
    ultimately show "order_ok ?s ?Q" by (auto simp: order_ok_def split: if_splits)
  qed (use w' kp q lo in \<open>auto simp: dom_upd_same timer_del_def keeps_def loose_inq\<close>)
  define v c' where "v = pq_v ?s" and "c' = systick ?s"
  have s: "?s = s\<lparr>pq_v := v, systick := c', pq_next := n, pq_prev := p\<rparr>"
    by (simp add: timer_del_def v_def c'_def)
  have "chx_timer_dequeue t s = Some (i, s\<lparr>pq_v := v, systick := c', pq_next := n, pq_prev := p\<rparr>)"
    "kinv (insert t X) r (s\<lparr>pq_v := v, systick := c', pq_next := n, pq_prev := p\<rparr>) ?Q e"
    using e ks s by simp_all
  moreover have "\<forall>y. \<not> inq Q y Qtimer \<longrightarrow> v y = pq_v s y" using vfr by (simp add: v_def)
  moreover have "\<forall>q. q \<noteq> Qtimer \<longrightarrow> ?Q q = Q q" by simp
  ultimately show ?thesis by blast
qed

text \<open>Into the ready queue.\<close>

abbreviation to_ready ::
  "tid \<Rightarrow> (ptr \<Rightarrow> ptr) \<Rightarrow> (ptr \<Rightarrow> ptr) \<Rightarrow> 'z kst_scheme \<Rightarrow> 'z kst_scheme" where
  "to_ready t n p s \<equiv> s\<lparr>th_state := (th_state s)(t := THREAD_READY),
      pq_parent := (pq_parent s)(Thr t := Some Qready), pq_next := n, pq_prev := p\<rparr>"

lemma kinv_to_ready:
  assumes k: "kinv X r s Q e" and t: "t \<in> threads e" "t \<in> X" and q: "Q Qready = Some xs"
    and d: "desc (pq_prio s) ys" and ys: "set ys = insert (Thr t) (set xs)"
    and w': "wfl n p (Q(Qready \<mapsto> ys))" and kp: "keeps s Q {Thr t} n p"
  shows "kinv (X - {t}) r (to_ready t n p s)
      (Q(Qready \<mapsto> ys)) e" (is "kinv _ _ ?s ?Q e")
proof (rule kinv_move [OF k t(1)])
  have lo: "loose Q (Thr t)" using kinv_loose [OF k t] .
  show "inq ?Q y q' = inq Q y q'" if "y \<noteq> Thr t" for y q'
    using that q ys by (auto simp: inq_upd inq_here)
  show "pq_parent ?s (Thr t) = Some q'" if "inq ?Q (Thr t) q'" for q'
    using that lo by (auto simp: inq_upd loose_inq split: if_splits)
  show "order_ok ?s ?Q"
    by (rule order_ok_upd [OF kinv_order [OF k]]) (auto simp: d)
  have "\<not> loose ?Q (Thr t)" using ys by (auto simp: loose_inq inq_upd)
  then show "if t \<in> X - {t} then loose ?Q (Thr t) else thread_at r ?s ?Q e t"
    using lo ys by (auto simp: thread_at_def inq_upd loose_inq split: if_splits)
qed (use w' kp q in \<open>auto simp: dom_upd_same keeps_def\<close>)

lemma kinv_ready_enqueue:
  assumes k: "kinv X r s Q e" and t: "t \<in> threads e" "t \<in> X" and q: "Q Qready = Some xs"
  shows "\<exists>n p. chx_ready_enqueue t s = Some (to_ready t n p s) \<and>
    kinv (X - {t}) r (to_ready t n p s)
      (Q(Qready \<mapsto> enq_list (pq_prio s) (Thr t) xs)) e"
proof -
  have d: "desc (pq_prio s) (enq_list (pq_prio s) (Thr t) xs)"
    using order_okD [OF kinv_order [OF k] q] by (auto simp: prio_sorted_def intro: desc_enq_list)
  obtain n p where "chx_ready_enqueue t s = Some (to_ready t n p s)"
    "wfl n p (Q(Qready \<mapsto> enq_list (pq_prio s) (Thr t) xs))" "keeps s Q {Thr t} n p"
    using chx_ready_enqueue_wfq [OF kinv_wfq [OF k] q kinv_loose [OF k t]] by blast
  with kinv_to_ready [OF k t q d] show ?thesis by fastforce
qed

lemma kinv_ready_push:
  assumes k: "kinv X r s Q e" and t: "t \<in> threads e" "t \<in> X" and q: "Q Qready = Some xs"
  shows "\<exists>n p. chx_ready_push t s = Some (to_ready t n p s) \<and>
    kinv (X - {t}) r (to_ready t n p s)
      (Q(Qready \<mapsto> push_list (pq_prio s) (Thr t) xs)) e"
proof -
  have d: "desc (pq_prio s) (push_list (pq_prio s) (Thr t) xs)"
    using order_okD [OF kinv_order [OF k] q] by (auto simp: prio_sorted_def intro: desc_push_list)
  obtain n p where "chx_ready_push t s = Some (to_ready t n p s)"
    "wfl n p (Q(Qready \<mapsto> push_list (pq_prio s) (Thr t) xs))" "keeps s Q {Thr t} n p"
    using chx_ready_push_wfq [OF kinv_wfq [OF k] q kinv_loose [OF k t]] by blast
  with kinv_to_ready [OF k t q d] show ?thesis by fastforce
qed

text \<open>Fields of a thread in flight.\<close>

lemma kinv_set_state:
  assumes k: "kinv X r s Q e" and t: "t \<in> threads e" "t \<in> X"
  shows "kinv X r (s\<lparr>th_state := (th_state s)(t := st)\<rparr>) Q e"
proof (rule kinv_move [OF k t(1)])
  show "order_ok (s\<lparr>th_state := (th_state s)(t := st)\<rparr>) Q"
    using kinv_order [OF k] timer_abs_cong [of "s\<lparr>th_state := (th_state s)(t := st)\<rparr>" s]
    by (simp add: order_ok_def timer_ok_def)
qed (use kinv_wfq [OF k] kinv_loose [OF k t] t in \<open>auto simp: loose_inq\<close>)

lemma kinv_set_v:
  assumes k: "kinv X r s Q e" and nt: "\<not> inq Q y Qtimer"
    and w: "\<And>t. y = Thr t \<Longrightarrow> t \<notin> X \<Longrightarrow> th_state s t = THREAD_WAIT_EXIT \<Longrightarrow> x \<in> threads e"
  shows "kinv X r (s\<lparr>pq_v := (pq_v s)(y := x)\<rparr>) Q e"
proof -
  have "timer_ok (s\<lparr>pq_v := (pq_v s)(y := x)\<rparr>) xs" if "Q Qtimer = Some xs" for xs
  proof -
    have "y \<notin> set xs" "Qtimer \<notin> set xs" "timer_ok s xs"
      using that nt kinv_order [OF k] wfl_node [OF kinv_wfq [OF k] that, of Qtimer]
      by (auto simp: inq_def order_ok_def)
    moreover have "pq_v s z = pq_v (s\<lparr>pq_v := (pq_v s)(y := x)\<rparr>) z" if "z \<in> set xs" for z
      using that \<open>y \<notin> set xs\<close> by auto
    ultimately show ?thesis using timer_ok_cong [of xs s "s\<lparr>pq_v := (pq_v s)(y := x)\<rparr>"] by simp
  qed
  moreover have "thread_at r (s\<lparr>pq_v := (pq_v s)(y := x)\<rparr>) Q e t"
    if "t \<notin> X" "thread_at r s Q e t" for t
    using that w [of t] by (auto simp: thread_at_def)
  ultimately show ?thesis
    using k unfolding kinv_def queues_ok_def objects_ok_def order_ok_def locks_ok_def
    by (simp add: selflinked_def)
qed

lemma kinv_set_prio:
  assumes k: "kinv X r s Q e" and x: "\<And>q. inq Q x q \<Longrightarrow> \<not> prio_sorted q"
  shows "kinv X r (s\<lparr>pq_prio := (pq_prio s)(x := pr)\<rparr>) Q e"
proof -
  have "desc ((pq_prio s)(x := pr)) xs" if "Q q = Some xs" "prio_sorted q" for q xs
  proof -
    have "x \<notin> set xs" using x [of q] that by (auto simp: inq_def)
    then have "desc ((pq_prio s)(x := pr)) xs = desc (pq_prio s) xs" by (intro desc_cong) auto
    then show ?thesis using that order_okD [OF kinv_order [OF k]] by simp
  qed
  moreover have "timer_ok (s\<lparr>pq_prio := (pq_prio s)(x := pr)\<rparr>) xs = timer_ok s xs" for xs
    by (simp add: timer_ok_def timer_abs_def tval_def [abs_def] cong: if_cong)
  moreover have "thread_at r (s\<lparr>pq_prio := (pq_prio s)(x := pr)\<rparr>) Q e t = thread_at r s Q e t" for t
    by (simp add: thread_at_def)
  ultimately show ?thesis
    using k unfolding kinv_def queues_ok_def objects_ok_def order_ok_def locks_ok_def
    by (simp add: selflinked_def)
qed

lemma kinv_loose_flight:
  "kinv X r s Q e \<Longrightarrow> loose Q (Thr t) \<Longrightarrow> kinv (insert t X) r s Q e"
  unfolding kinv_def by auto

text \<open>The running thread leaves the round robin timer.\<close>

lemma kinv_rr_stop:
  assumes k: "kinv X r s Q e" and t: "t \<in> threads e" "t \<notin> X" and st: "th_state s t = THREAD_RUNNING"
  shows "\<exists>n p v c Q'. rr_stop t s =
      Some (s\<lparr>pq_v := v, systick := c, pq_next := n, pq_prev := p\<rparr>) \<and>
    kinv (insert t X) r (s\<lparr>pq_v := v, systick := c, pq_next := n, pq_prev := p\<rparr>) Q' e \<and>
    (\<forall>q. q \<noteq> Qtimer \<longrightarrow> Q' q = Q q) \<and> (\<forall>y. \<not> inq Q y Qtimer \<longrightarrow> v y = pq_v s y)"
proof (cases "flag_sched_rr s t")
  case True
  then have "inq Q (Thr t) Qtimer" using kinv_queued [OF k t] st by auto
  then obtain i n p v c Q' where "chx_timer_dequeue t s =
      Some (i, s\<lparr>pq_v := v, systick := c, pq_next := n, pq_prev := p\<rparr>)"
    "kinv (insert t X) r (s\<lparr>pq_v := v, systick := c, pq_next := n, pq_prev := p\<rparr>) Q' e"
    "\<forall>q. q \<noteq> Qtimer \<longrightarrow> Q' q = Q q" "\<forall>y. \<not> inq Q y Qtimer \<longrightarrow> v y = pq_v s y"
    using kinv_timer_dequeue [OF k] by blast
  moreover from this(1) have "rr_stop t s =
      Some (s\<lparr>pq_v := v, systick := c, pq_next := n, pq_prev := p\<rparr>)"
    using True by (simp add: rr_stop_def)
  ultimately show ?thesis by blast
next
  case False
  have "loose Q (Thr t)"
    using kinv_at [OF k t] st False by (auto simp: thread_at_def loose_inq)
  with k have "kinv (insert t X) r s Q e" by (rule kinv_loose_flight)
  then have "kinv (insert t X) r (s\<lparr>pq_v := pq_v s, systick := systick s, pq_next := pq_next s,
      pq_prev := pq_prev s\<rparr>) Q e" "rr_stop t s =
      Some (s\<lparr>pq_v := pq_v s, systick := systick s, pq_next := pq_next s, pq_prev := pq_prev s\<rparr>)"
    using False by (simp_all add: rr_stop_def)
  then show ?thesis by blast
qed

text \<open>\<open>x\<close> is in the timer queue and expires in \<open>d\<close> ticks.\<close>

definition due_in :: "'z kst_scheme \<Rightarrow> (ptr \<rightharpoonup> ptr list) \<Rightarrow> ptr \<Rightarrow> nat \<Rightarrow> bool" where
  "due_in s Q x d \<longleftrightarrow> (\<exists>xs. Q Qtimer = Some xs \<and> (x, d) \<in> set (timer_abs s xs))"

lemma due_in_cong:
  "systick s' = systick s \<Longrightarrow> pq_v s' = pq_v s \<Longrightarrow> Q' Qtimer = Q Qtimer \<Longrightarrow> due_in s' Q' x d = due_in s Q x d"
  using timer_abs_cong [of s' s] by (simp add: due_in_def)

text \<open>Into the timer queue.\<close>

lemma kinv_timer_insert:
  assumes k: "kinv X r s Q e" and t: "t \<in> threads e" "t \<in> X"
    and u: "unat (usec_to_ticks usec) < 2 ^ 24"
    and st: "allowed (th_state s t) (flag_sched_rr s t) Qtimer" "th_state s t = THREAD_RUNNING \<Longrightarrow> r = Some t"
  shows "\<exists>n p v c Q'. chx_timer_insert t usec s =
      Some (s\<lparr>pq_parent := (pq_parent s)(Thr t := Some Qtimer), pq_v := v, systick := c,
              pq_next := n, pq_prev := p\<rparr>) \<and>
    kinv (X - {t}) r (s\<lparr>pq_parent := (pq_parent s)(Thr t := Some Qtimer), pq_v := v, systick := c,
              pq_next := n, pq_prev := p\<rparr>) Q' e \<and>
    (\<forall>q. q \<noteq> Qtimer \<longrightarrow> Q' q = Q q) \<and> (\<forall>y. \<not> inq Q y Qtimer \<longrightarrow> y \<noteq> Thr t \<longrightarrow> v y = pq_v s y) \<and>
    (\<forall>y d. due_in (s\<lparr>pq_parent := (pq_parent s)(Thr t := Some Qtimer), pq_v := v, systick := c,
              pq_next := n, pq_prev := p\<rparr>) Q' y d \<longleftrightarrow>
       y = Thr t \<and> d = unat (usec_to_ticks usec) \<or> due_in s Q y d)"
proof -
  have w: "wfq s Q" using kinv_wfq [OF k] .
  obtain xs where q: "Q Qtimer = Some xs" using kinv_head [OF k] by blast
  have ok: "timer_ok s xs" using kinv_order [OF k] q by (simp add: order_ok_def)
  have lo: "loose Q (Thr t)" using kinv_loose [OF k t] .
  obtain a c0 v0 n p xs' where e: "chx_timer_insert t usec s = Some (timer_put t a c0 v0 n p s)"
    and w': "wfl n p (Q(Qtimer \<mapsto> xs'))" and kp: "keeps s Q {Thr t} n p"
    and a: "a \<in> insert Qtimer (set xs)"
    and abs: "timer_abs (timer_put t a c0 v0 n p s) xs' =
      timer_ins (Thr t) (unat (usec_to_ticks usec)) (timer_abs s xs)"
    using chx_timer_insert_wfq [OF w q lo] by blast
  let ?Q = "Q(Qtimer \<mapsto> xs')" and ?s = "timer_put t a c0 v0 n p s"
  have xs': "set xs' = insert (Thr t) (set xs)"
    using arg_cong [OF abs, of "\<lambda>ds. fst ` set ds"] by (simp add: image_set [symmetric] del: image_set)
      (metis list.set_map map_fst_timer_abs)
  have vfr: "pq_v ?s y = pq_v s y" if "\<not> inq Q y Qtimer" "y \<noteq> Thr t" for y
    using that a q by (auto simp: timer_put_def inq_def)
  have ks: "kinv (X - {t}) r ?s ?Q e"
  proof (rule kinv_move [OF k t(1)])
    show "inq ?Q y q' = inq Q y q'" if "y \<noteq> Thr t" for y q'
      using that q xs' by (auto simp: inq_upd inq_here)
    show "pq_v ?s (Thr u) = pq_v s (Thr u)" if "u \<noteq> t" "inq Q (Thr u) Qjoin" for u
      using that inq_unique [OF w] by (intro vfr) blast+
    show "pq_parent ?s (Thr t) = Some q'" if "inq ?Q (Thr t) q'" for q'
      using that lo by (auto simp: inq_upd loose_inq timer_put_def split: if_splits)
    have "desc (pq_prio ?s) ys" if "?Q q' = Some ys" "prio_sorted q'" for q' ys
      using that order_okD [OF kinv_order [OF k]]
      by (auto simp: timer_put_def prio_sorted_def split: if_splits)
    moreover have "timer_ok ?s xs'" using timer_ins_ok [OF ok u abs] .
    ultimately show "order_ok ?s ?Q" by (auto simp: order_ok_def split: if_splits)
    have "\<not> loose ?Q (Thr t)" using xs' by (auto simp: loose_inq inq_upd)
    then show "if t \<in> X - {t} then loose ?Q (Thr t) else thread_at r ?s ?Q e t"
      using lo st by (cases "th_state s t")
        (auto simp: thread_at_def inq_upd loose_inq timer_put_def split: if_splits)
  qed (use w' kp q in \<open>auto simp: dom_upd_same timer_put_def keeps_def\<close>)
  define v c' where "v = pq_v ?s" and "c' = systick ?s"
  have s: "?s = s\<lparr>pq_parent := (pq_parent s)(Thr t := Some Qtimer), pq_v := v, systick := c',
      pq_next := n, pq_prev := p\<rparr>"
    by (simp add: timer_put_def v_def c'_def)
  have "chx_timer_insert t usec s = Some (s\<lparr>pq_parent := (pq_parent s)(Thr t := Some Qtimer),
      pq_v := v, systick := c', pq_next := n, pq_prev := p\<rparr>)"
    "kinv (X - {t}) r (s\<lparr>pq_parent := (pq_parent s)(Thr t := Some Qtimer), pq_v := v, systick := c',
      pq_next := n, pq_prev := p\<rparr>) ?Q e"
    using e ks s by simp_all
  moreover have "\<forall>y. \<not> inq Q y Qtimer \<longrightarrow> y \<noteq> Thr t \<longrightarrow> v y = pq_v s y" using vfr by (simp add: v_def)
  moreover have "\<forall>y d. due_in (s\<lparr>pq_parent := (pq_parent s)(Thr t := Some Qtimer), pq_v := v, systick := c',
      pq_next := n, pq_prev := p\<rparr>) ?Q y d \<longleftrightarrow> y = Thr t \<and> d = unat (usec_to_ticks usec) \<or> due_in s Q y d"
    unfolding s [symmetric] using abs q by (simp add: due_in_def)
  moreover have "\<forall>q. q \<noteq> Qtimer \<longrightarrow> ?Q q = Q q" by simp
  ultimately show ?thesis by blast
qed

text \<open>A thread in flight stays in no queue.\<close>

lemma kinv_land:
  assumes k: "kinv X r s Q e" and t: "t \<in> threads e" "t \<in> X"
    and st: "resting (th_state s t) (flag_sched_rr s t)"
    and run: "th_state s t = THREAD_RUNNING \<Longrightarrow> r = Some t"
    and poll: "th_state s t \<in> {THREAD_RUNNING, THREAD_WAIT_POLL} \<Longrightarrow> pq_parent s (Thr t) \<noteq> Some Qtimer"
    and ex: "th_state s t \<in> {THREAD_EXITED, THREAD_FINISHED} \<Longrightarrow> held e t = []"
  shows "kinv (X - {t}) r s Q e"
proof -
  have "thread_at r s Q e t"
    using kinv_loose [OF k t] st run poll ex by (auto simp: thread_at_def loose_inq)
  then show ?thesis using k by (auto simp: kinv_def)
qed

text \<open>The fields that moving threads between queues may change.\<close>

definition qstep :: "'z kst_scheme \<Rightarrow> 'z kst_scheme \<Rightarrow> bool" where
  "qstep s s' \<longleftrightarrow> (\<exists>a b c d n p. s' = s\<lparr>pq_next := n, pq_prev := p, pq_parent := b, pq_v := c,
     th_state := a, systick := d\<rparr>)"

lemma qstepI:
  "s' = s\<lparr>pq_next := pq_next s', pq_prev := pq_prev s', pq_parent := pq_parent s', pq_v := pq_v s',
     th_state := th_state s', systick := systick s'\<rparr> \<Longrightarrow> qstep s s'"
  unfolding qstep_def by blast

lemma qstep_refl [simp]: "qstep s s"
  by (rule qstepI) simp

lemma qstep_trans: "qstep s s' \<Longrightarrow> qstep s' s'' \<Longrightarrow> qstep s s''"
  by (rule qstepI) (auto simp: qstep_def)

lemma qstepD:
  assumes "qstep s s'"
  shows "pq_is_proxy s' = pq_is_proxy s" "pq_prio s' = pq_prio s" "px_master s' = px_master s"
    "px_counter_p s' = px_counter_p s" "px_ready_p s' = px_ready_p s"
    "flag_detached s' = flag_detached s" "flag_got_cancel s' = flag_got_cancel s"
    "flag_join_req s' = flag_join_req s" "flag_sched_rr s' = flag_sched_rr s"
    "flag_cancelable s' = flag_cancelable s" "prio_orig s' = prio_orig s"
    "mutex_list s' = mutex_list s" "th_clp s' = th_clp s" "mtx_owner s' = mtx_owner s"
    "mtx_list s' = mtx_list s" "counter s' = counter s" "pd_ready s' = pd_ready s"
    "running s' = running s" "masked s' = masked s" "pendsv s' = pendsv s"
    "nvic_enabled s' = nvic_enabled s" "nvic_pending s' = nvic_pending s"
  using assms by (auto simp: qstep_def)

section \<open>Choosing the next thread\<close>

lemma kinv_ready_threads:
  assumes k: "kinv X r s Q e" and q: "Q Qready = Some (x # xs)"
  shows "\<exists>t. x = Thr t \<and> t \<in> threads e \<and> t \<notin> X \<and> th_state s t = THREAD_READY"
proof -
  have i: "inq Q x Qready" using q by (simp add: inq_def)
  have "is_node x" using wfl_node [OF kinv_wfq [OF k] q, of x] by simp
  then consider t where "x = Thr t" | a where "x = Px a" by (cases x) auto
  then show ?thesis
  proof cases
    case 1
    then show ?thesis using kinv_inq [OF k, of t Qready] i
      by (cases "th_state s t") auto
  next
    case 2
    then show ?thesis using kinv_px [OF k, of a Qready] i by simp
  qed
qed

lemma kinv_ready_max:
  assumes k: "kinv X r s Q e" and q: "Q Qready = Some (Thr t # xs)"
    and u: "u \<in> threads e" "u \<notin> X" "th_state s u = THREAD_READY"
  shows "pq_prio s (Thr u) \<le> pq_prio s (Thr t)"
proof -
  have "inq Q (Thr u) Qready" using kinv_queued [OF k u(1,2)] u(3) by auto
  then have "Thr u \<in> set (Thr t # xs)" using q by (simp add: inq_def)
  moreover have "desc (pq_prio s) (Thr t # xs)"
    using order_okD [OF kinv_order [OF k] q] by (simp add: prio_sorted_def)
  ultimately show ?thesis by auto
qed

lemma kinv_pop_next_thread:
  assumes k: "kinv X None s Q e" and q: "Q Qready = Some (Thr t # xs)"
  shows "\<exists>s' Q'. pop_next s = Some (Some t, s') \<and> kinv X (Some t) s' Q' e \<and> qstep s s' \<and>
    th_state s' = (th_state s)(t := THREAD_RUNNING) \<and>
    (\<forall>q. q \<noteq> Qready \<longrightarrow> q \<noteq> Qtimer \<longrightarrow> Q' q = Q q) \<and> Q' Qready = Some xs \<and>
    (\<forall>y. \<not> inq Q y Qtimer \<longrightarrow> y \<noteq> Thr t \<longrightarrow> pq_v s' y = pq_v s y) \<and>
    (\<forall>y. y \<noteq> Thr t \<longrightarrow> pq_parent s' y = pq_parent s y) \<and>
    (\<not> flag_sched_rr s t \<longrightarrow> pq_v s' = pq_v s) \<and> (\<forall>y d. due_in s Q y d \<longrightarrow> due_in s' Q' y d)"
proof -
  have t: "t \<in> threads e" "t \<notin> X" using kinv_ready_threads [OF k q] by auto
  obtain n p where d: "ll_dequeue (Thr t) s = s\<lparr>pq_next := n, pq_prev := p\<rparr>"
    and k1: "kinv (insert t X) None (s\<lparr>pq_next := n, pq_prev := p\<rparr>)
      (Q(Qready \<mapsto> remove1 (Thr t) (Thr t # xs))) e"
    using kinv_dequeue [OF k q, of t] by auto
  let ?s1 = "s\<lparr>pq_next := n, pq_prev := p, th_state := (th_state s)(t := THREAD_RUNNING)\<rparr>"
  let ?Q = "Q(Qready \<mapsto> xs)"
  have k2: "kinv (insert t X) None ?s1 ?Q e"
    using kinv_set_state [OF k1 t(1), of THREAD_RUNNING] by simp
  have k3: "kinv (insert t X) (Some t) ?s1 ?Q e"
    by (rule kinv_weaken_running [OF k2])
      (use kinv_at [OF k2] in \<open>auto simp: thread_at_def\<close>)
  have "pq_next s Qready = Thr t" using wfl_next [OF kinv_wfq [OF k] q] by simp
  then have pop: "chx_ready_pop s = (Some t, ?s1)"
    using d by (simp add: chx_ready_pop_def ll_pop_def Let_def)
  have X: "insert t X - {t} = X" using t by auto
  have due1: "due_in ?s1 ?Q y d = due_in s Q y d" for y d by (rule due_in_cong) simp_all
  show ?thesis
  proof (cases "flag_sched_rr s t")
    case True
    have "unat (usec_to_ticks PREEMPTION_USEC) < 2 ^ 24"
      by (simp add: usec_to_ticks_def PREEMPTION_USEC_def MHZ_def)
    from kinv_timer_insert [OF k3 t(1) _ this]
    obtain n' p' v c Q' where "chx_timer_insert t PREEMPTION_USEC ?s1 =
        Some (?s1\<lparr>pq_parent := (pq_parent s)(Thr t := Some Qtimer), pq_v := v, systick := c,
              pq_next := n', pq_prev := p'\<rparr>)"
      "kinv (insert t X - {t}) (Some t) (?s1\<lparr>pq_parent := (pq_parent s)(Thr t := Some Qtimer), pq_v := v,
              systick := c, pq_next := n', pq_prev := p'\<rparr>) Q' e"
      "\<forall>q. q \<noteq> Qtimer \<longrightarrow> Q' q = ?Q q"
      "\<forall>y. \<not> inq ?Q y Qtimer \<longrightarrow> y \<noteq> Thr t \<longrightarrow> v y = pq_v ?s1 y"
      "\<forall>y d. due_in (?s1\<lparr>pq_parent := (pq_parent s)(Thr t := Some Qtimer), pq_v := v, systick := c,
              pq_next := n', pq_prev := p'\<rparr>) Q' y d \<longleftrightarrow>
         y = Thr t \<and> d = unat (usec_to_ticks PREEMPTION_USEC) \<or> due_in s Q y d"
      using True by (auto simp: due1)
    then show ?thesis using pop True X
      apply -
      apply (rule exI [of _ "?s1\<lparr>pq_parent := (pq_parent s)(Thr t := Some Qtimer), pq_v := v,
              systick := c, pq_next := n', pq_prev := p'\<rparr>"], rule exI [of _ Q'])
      by (simp add: pop_next_def qstepI inq_def del: fun_upd_apply) (simp add: inq_def)
  next
    case False
    have "kinv (insert t X - {t}) (Some t) ?s1 ?Q e"
      by (rule kinv_land [OF k3 t(1)]) (use False kinv_parent [OF k, of "Thr t" Qready] q in \<open>auto simp: inq_def\<close>)
    then show ?thesis using pop False X
      apply -
      apply (rule exI [of _ ?s1], rule exI [of _ ?Q])
      by (simp add: pop_next_def qstepI due1 del: fun_upd_apply) simp
  qed
qed

lemma kinv_pop_next_idle:
  "kinv X None s Q e \<Longrightarrow> Q Qready = Some [] \<Longrightarrow> pop_next s = Some (None, s)"
  using kinv_wfq [of X None s Q e] by (simp add: pop_next_def chx_ready_pop_empty)

section \<open>Between the calls\<close>

text \<open>
  The state of the kernel outside its critical sections: the running thread is
  \<open>THREAD_RUNNING\<close>, or it was moved to the ready queue at the end of its time slice and
  PendSV is about to switch; interrupts are masked exactly for priorities above 247.
\<close>

definition kernel_ok :: "'z kst_scheme \<Rightarrow> (ptr \<rightharpoonup> ptr list) \<Rightarrow> env \<Rightarrow> bool" where
  "kernel_ok s Q e \<longleftrightarrow> kinv {} (running s) s Q e \<and>
     (\<forall>t. running s = Some t \<longrightarrow> t \<in> threads e \<and>
        (th_state s t = THREAD_RUNNING \<or>
         th_state s t = THREAD_READY \<and> flag_sched_rr s t \<and> pendsv s \<and> \<not> masked s)) \<and>
     (masked s \<longleftrightarrow> (\<exists>t. running s = Some t \<and> 247 < pq_prio s (Thr t)))"

text \<open>Thread \<open>t\<close> executes, outside and inside a critical section.\<close>

definition on_cpu :: "tid \<Rightarrow> 'z kst_scheme \<Rightarrow> (ptr \<rightharpoonup> ptr list) \<Rightarrow> env \<Rightarrow> bool" where
  "on_cpu t s Q e \<longleftrightarrow> kernel_ok s Q e \<and> running s = Some t \<and> th_state s t = THREAD_RUNNING"

definition locked :: "tid \<Rightarrow> 'z kst_scheme \<Rightarrow> (ptr \<rightharpoonup> ptr list) \<Rightarrow> env \<Rightarrow> bool" where
  "locked t s Q e \<longleftrightarrow> kinv {} (Some t) s Q e \<and> running s = Some t \<and> t \<in> threads e \<and>
     th_state s t = THREAD_RUNNING \<and> masked s"

lemma prio_248: "\<not> (p :: u8) < 248 \<longleftrightarrow> 247 < p"
proof -
  have "unat p < 248 \<longleftrightarrow> \<not> 247 < unat p" by arith
  then show ?thesis by (simp add: word_less_nat_alt)
qed

lemma on_cpu_lock:
  assumes "on_cpu t s Q e"
  shows "chx_cpu_sched_lock s = s\<lparr>masked := True\<rparr>" and "locked t (chx_cpu_sched_lock s) Q e"
proof -
  have k: "kinv {} (Some t) s Q e" and t: "t \<in> threads e" and r: "running s = Some t"
    and st: "th_state s t = THREAD_RUNNING" and m: "masked s \<longleftrightarrow> 247 < pq_prio s (Thr t)"
    using assms by (auto simp: on_cpu_def kernel_ok_def)
  have "masked s \<Longrightarrow> s = s\<lparr>masked := True\<rparr>" by simp
  then show l: "chx_cpu_sched_lock s = s\<lparr>masked := True\<rparr>"
    using r m prio_248 [of "pq_prio s (Thr t)"]
    by (auto simp: chx_cpu_sched_lock_def CHOPSTX_PRIO_INHIBIT_PREEMPTION_def)
  show "locked t (chx_cpu_sched_lock s) Q e" unfolding l using k t r st by (simp add: locked_def)
qed

lemma locked_unlock: "locked t s Q e \<Longrightarrow> on_cpu t (chx_cpu_sched_unlock s) Q e"
  using prio_248 [of "pq_prio s (Thr t)"]
  by (auto simp: on_cpu_def kernel_ok_def locked_def chx_cpu_sched_unlock_def
      CHOPSTX_PRIO_INHIBIT_PREEMPTION_def)

lemma locked_kinv: "locked t s Q e \<Longrightarrow> kinv {} (Some t) s Q e"
  by (simp add: locked_def)

lemma on_cpu_kinv: "on_cpu t s Q e \<Longrightarrow> kinv {} (Some t) s Q e"
  by (auto simp: on_cpu_def kernel_ok_def)

lemma on_cpu_thread: "on_cpu t s Q e \<Longrightarrow> t \<in> threads e"
  by (auto simp: on_cpu_def kernel_ok_def)

section \<open>Switching threads\<close>

text \<open>No ready thread has a higher priority than the running one.\<close>

definition prio_top :: "'z kst_scheme \<Rightarrow> env \<Rightarrow> bool" where
  "prio_top s e \<longleftrightarrow> (\<forall>u \<in> threads e. th_state s u = THREAD_READY \<longrightarrow>
     (\<exists>t. running s = Some t \<and> pq_prio s (Thr u) \<le> pq_prio s (Thr t)))"

definition dispatched :: "'z kst_scheme \<Rightarrow> 'z kst_scheme \<Rightarrow> env \<Rightarrow> bool" where
  "dispatched s s' e \<longleftrightarrow> prio_top s' e \<and>
     qstep s (s'\<lparr>running := running s, masked := masked s\<rparr>) \<and>
     (\<forall>u. if running s' = Some u then th_state s u = THREAD_READY \<and> th_state s' u = THREAD_RUNNING
          else th_state s' u = th_state s u) \<and>
     (\<forall>u \<in> threads e. th_state s u \<in> {THREAD_WAIT_MTX, THREAD_WAIT_CND, THREAD_WAIT_EXIT} \<longrightarrow>
        pq_v s' (Thr u) = pq_v s (Thr u) \<and> pq_parent s' (Thr u) = pq_parent s (Thr u))"

lemma kinv_dispatch:
  assumes k: "kinv {} None s Q e" and m: "masked s"
  shows "\<exists>tp s1 Q'. pop_next s = Some (tp, s1) \<and> kernel_ok (context_switch tp s1) Q' e \<and>
    dispatched s (context_switch tp s1) e \<and>
    (\<forall>q. q \<noteq> Qready \<longrightarrow> q \<noteq> Qtimer \<longrightarrow> Q' q = Q q) \<and>
    (\<forall>y d. due_in s Q y d \<longrightarrow> due_in (context_switch tp s1) Q' y d)"
proof -
  obtain xs where q: "Q Qready = Some xs" using kinv_head [OF k] by blast
  show ?thesis
  proof (cases xs)
    case Nil
    have "th_state s u \<noteq> THREAD_READY" if "u \<in> threads e" for u
      using kinv_queued [OF k that] q Nil by (auto simp: inq_def)
    moreover have "qstep s (s\<lparr>masked := True\<rparr>)" using m by (cases s) simp
    moreover have "due_in (context_switch None s) Q y d = due_in s Q y d" for y d
      by (rule due_in_cong) (simp_all add: context_switch_def)
    ultimately show ?thesis using kinv_pop_next_idle [OF k] q Nil k m
      by (intro exI [of _ None] exI [of _ s] exI [of _ Q])
        (simp add: context_switch_def kernel_ok_def dispatched_def prio_top_def)
  next
    case (Cons x ys)
    with kinv_ready_threads [OF k] q obtain t where t: "x = Thr t" "t \<in> threads e"
        "th_state s t = THREAD_READY" by blast
    have q': "Q Qready = Some (Thr t # ys)" using q Cons t by simp
    obtain s1 Q' where p: "pop_next s = Some (Some t, s1)" and k1: "kinv {} (Some t) s1 Q' e"
      and qs: "qstep s s1" and st: "th_state s1 = (th_state s)(t := THREAD_RUNNING)"
      and Q': "\<forall>q. q \<noteq> Qready \<longrightarrow> q \<noteq> Qtimer \<longrightarrow> Q' q = Q q"
      and v: "\<forall>y. \<not> inq Q y Qtimer \<longrightarrow> y \<noteq> Thr t \<longrightarrow> pq_v s1 y = pq_v s y"
      and par: "\<forall>y. y \<noteq> Thr t \<longrightarrow> pq_parent s1 y = pq_parent s y"
      and due: "\<forall>y d. due_in s Q y d \<longrightarrow> due_in s1 Q' y d"
      using kinv_pop_next_thread [OF k q'] by blast
    have wait: "pq_v s1 (Thr u) = pq_v s (Thr u) \<and> pq_parent s1 (Thr u) = pq_parent s (Thr u)"
      if u: "u \<in> threads e" "th_state s u \<in> {THREAD_WAIT_MTX, THREAD_WAIT_CND, THREAD_WAIT_EXIT}" for u
    proof -
      have "u \<noteq> t" using t(3) u(2) by auto
      then show ?thesis using v par kinv_untimed [OF k u(1) _ u(2)] by simp
    qed
    let ?s' = "context_switch (Some t) s1"
    have top: "prio_top ?s' e"
      using kinv_ready_max [OF k q'] st t qstepD(2) [OF qs]
      by (auto simp: prio_top_def context_switch_def split: if_splits)
    have ok: "kernel_ok ?s' Q' e"
      using k1 t st m qstepD(19) [OF qs] by (auto simp: kernel_ok_def context_switch_def)
    have "?s'\<lparr>running := running s, masked := masked s\<rparr> = s1"
      using qs by (auto simp: context_switch_def qstep_def)
    then have "dispatched s ?s' e" using top qs st t wait
      by (simp add: dispatched_def context_switch_def)
    moreover have "due_in ?s' Q' y d = due_in s1 Q' y d" for y d
      by (rule due_in_cong) (simp_all add: context_switch_def)
    ultimately show ?thesis using p ok Q' due by metis
  qed
qed

lemma chx_sched_sleep_ok:
  assumes k: "kinv {} None s Q e" and m: "masked s"
  shows "\<exists>s' Q'. chx_sched CHX_SLEEP s = Some s' \<and> kernel_ok s' Q' e \<and> dispatched s s' e \<and>
    (\<forall>q. q \<noteq> Qready \<longrightarrow> q \<noteq> Qtimer \<longrightarrow> Q' q = Q q) \<and> (\<forall>y d. due_in s Q y d \<longrightarrow> due_in s' Q' y d)"
  using kinv_dispatch [OF assms] by (auto simp: svc_def)

lemma qstep_running_masked: "qstep s (s'\<lparr>running := r, masked := m\<rparr>) \<Longrightarrow>
  pq_prio s' = pq_prio s \<and> flag_sched_rr s' = flag_sched_rr s \<and> pendsv s' = pendsv s \<and>
  mtx_owner s' = mtx_owner s \<and> mutex_list s' = mutex_list s \<and> mtx_list s' = mtx_list s"
  using qstepD [of s "s'\<lparr>running := r, masked := m\<rparr>"] by simp

lemma qstep_restore:
  assumes "qstep (s0\<lparr>running := r, masked := m\<rparr>) (s'\<lparr>running := r, masked := m\<rparr>)"
  shows "qstep s0 (s'\<lparr>running := running s0, masked := masked s0\<rparr>)"
proof -
  obtain a b c d n p where "s'\<lparr>running := r, masked := m\<rparr> = s0\<lparr>running := r, masked := m\<rparr>
      \<lparr>pq_next := n, pq_prev := p, pq_parent := b, pq_v := c, th_state := a, systick := d\<rparr>"
    using assms unfolding qstep_def by blast
  from arg_cong [OF this, of "\<lambda>x. x\<lparr>running := running s0, masked := masked s0\<rparr>"]
  have "s'\<lparr>running := running s0, masked := masked s0\<rparr> =
      s0\<lparr>pq_next := n, pq_prev := p, pq_parent := b, pq_v := c, th_state := a, systick := d\<rparr>"
    by simp
  then show ?thesis unfolding qstep_def by blast
qed

lemma dispatched_from:
  assumes d: "dispatched s s' e" and q: "qstep (s0\<lparr>running := running s, masked := masked s\<rparr>) s"
    and st: "th_state s0 = th_state s"
    and wait: "\<And>u. u \<in> threads e \<Longrightarrow>
      th_state s u \<in> {THREAD_WAIT_MTX, THREAD_WAIT_CND, THREAD_WAIT_EXIT} \<Longrightarrow>
      pq_v s (Thr u) = pq_v s0 (Thr u) \<and> pq_parent s (Thr u) = pq_parent s0 (Thr u)"
  shows "dispatched s0 s' e"
proof -
  have "qstep s (s'\<lparr>running := running s, masked := masked s\<rparr>)" using d by (simp add: dispatched_def)
  from qstep_restore [OF qstep_trans [OF q this]] show ?thesis
    using d st wait by (simp add: dispatched_def)
qed

text \<open>
  A yield: the thread goes to the end of the threads of its priority, then the best ready
  thread runs.
\<close>

lemma chx_sched_yield_ok:
  assumes l: "locked t s Q e"
  shows "\<exists>s' Q'. chx_sched CHX_YIELD s = Some s' \<and> kernel_ok s' Q' e \<and>
    dispatched (s\<lparr>th_state := (th_state s)(t := THREAD_READY)\<rparr>) s' e \<and>
    (\<forall>q. q \<noteq> Qready \<longrightarrow> q \<noteq> Qtimer \<longrightarrow> Q' q = Q q)"
proof -
  have k: "kinv {} (Some t) s Q e" and r: "running s = Some t" and t: "t \<in> threads e"
    and st: "th_state s t = THREAD_RUNNING" and m: "masked s"
    using l by (auto simp: locked_def)
  obtain n p v c Q1 where e1: "rr_stop t s =
      Some (s\<lparr>pq_v := v, systick := c, pq_next := n, pq_prev := p\<rparr>)" (is "_ = Some ?s1")
    and k1: "kinv {t} (Some t) (s\<lparr>pq_v := v, systick := c, pq_next := n, pq_prev := p\<rparr>) Q1 e"
    and Q1: "\<forall>q. q \<noteq> Qtimer \<longrightarrow> Q1 q = Q q" and v: "\<forall>y. \<not> inq Q y Qtimer \<longrightarrow> v y = pq_v s y"
    using kinv_rr_stop [OF k t _ st] by auto
  obtain xs where q: "Q1 Qready = Some xs" using kinv_head [OF k1] by blast
  let ?Q2 = "Q1(Qready \<mapsto> enq_list (pq_prio ?s1) (Thr t) xs)"
  obtain n' p' where e2: "chx_ready_enqueue t ?s1 = Some (to_ready t n' p' ?s1)"
    and k2: "kinv ({t} - {t}) (Some t) (to_ready t n' p' ?s1) ?Q2 e"
    using kinv_ready_enqueue [OF k1 t _ q] by blast
  let ?s2 = "to_ready t n' p' ?s1"
  have k3: "kinv {} None (?s2\<lparr>running := None\<rparr>) ?Q2 e"
  proof -
    have "kinv {} None ?s2 ?Q2 e" by (rule kinv_not_running [of t]) (use k2 in simp_all)
    then show ?thesis by simp
  qed
  obtain tp s3 Q' where p: "pop_next (?s2\<lparr>running := None\<rparr>) = Some (tp, s3)"
    and ok: "kernel_ok (context_switch tp s3) Q' e"
    and di: "dispatched (?s2\<lparr>running := None\<rparr>) (context_switch tp s3) e"
    and Q': "\<forall>q. q \<noteq> Qready \<longrightarrow> q \<noteq> Qtimer \<longrightarrow> Q' q = ?Q2 q"
    using kinv_dispatch [OF k3] m by auto
  have "svc True s = Some (context_switch tp s3)" using e1 e2 p r by (simp add: svc_def)
  moreover have "dispatched (s\<lparr>th_state := (th_state s)(t := THREAD_READY)\<rparr>) (context_switch tp s3) e"
  proof (rule dispatched_from [OF di])
    fix u assume u: "u \<in> threads e" "th_state (?s2\<lparr>running := None\<rparr>) u
      \<in> {THREAD_WAIT_MTX, THREAD_WAIT_CND, THREAD_WAIT_EXIT}"
    then have "u \<noteq> t" "\<not> inq Q (Thr u) Qtimer"
      using kinv_untimed [OF k u(1)] by (auto split: if_splits)
    with v show "pq_v (?s2\<lparr>running := None\<rparr>) (Thr u) =
        pq_v (s\<lparr>th_state := (th_state s)(t := THREAD_READY)\<rparr>) (Thr u) \<and>
      pq_parent (?s2\<lparr>running := None\<rparr>) (Thr u) =
        pq_parent (s\<lparr>th_state := (th_state s)(t := THREAD_READY)\<rparr>) (Thr u)" by simp
  qed (auto intro: qstepI)
  ultimately show ?thesis using ok Q' Q1 by auto
qed

text \<open>PendSV.\<close>

lemma preempt_put_ok:
  assumes k: "kinv {} (Some t) s Q e" and t: "t \<in> threads e"
    and st: "th_state s t = THREAD_RUNNING \<or> th_state s t = THREAD_READY \<and> flag_sched_rr s t"
  shows "\<exists>s1 Q1. preempt_put t s = Some s1 \<and> kinv {} None s1 Q1 e \<and> qstep s s1 \<and>
    th_state s1 = (th_state s)(t := THREAD_READY) \<and> (\<forall>q. q \<noteq> Qready \<longrightarrow> q \<noteq> Qtimer \<longrightarrow> Q1 q = Q q)"
proof -
  consider (ready) "flag_sched_rr s t" "th_state s t = THREAD_READY"
    | (rr) "flag_sched_rr s t" "th_state s t = THREAD_RUNNING"
    | (fifo) "\<not> flag_sched_rr s t" "th_state s t = THREAD_RUNNING" using st by blast
  then show ?thesis
  proof cases
    case ready
    then show ?thesis using kinv_not_running [OF k]
      by (intro exI [of _ s] exI [of _ Q]) (auto simp: preempt_put_def)
  next
    case rr
    then have "inq Q (Thr t) Qtimer" using kinv_queued [OF k t] by auto
    then obtain i n p v c Q1 where e1: "chx_timer_dequeue t s =
        Some (i, s\<lparr>pq_v := v, systick := c, pq_next := n, pq_prev := p\<rparr>)" (is "_ = Some (i, ?s1)")
      and k1: "kinv {t} (Some t) (s\<lparr>pq_v := v, systick := c, pq_next := n, pq_prev := p\<rparr>) Q1 e"
      and Q1: "\<forall>q. q \<noteq> Qtimer \<longrightarrow> Q1 q = Q q"
      using kinv_timer_dequeue [OF k] by blast
    obtain xs where q: "Q1 Qready = Some xs" using kinv_head [OF k1] by blast
    let ?Q2 = "Q1(Qready \<mapsto> enq_list (pq_prio ?s1) (Thr t) xs)"
    obtain n' p' where e2: "chx_ready_enqueue t ?s1 = Some (to_ready t n' p' ?s1)"
      and k2: "kinv ({t} - {t}) (Some t) (to_ready t n' p' ?s1) ?Q2 e"
      using kinv_ready_enqueue [OF k1 t _ q] by blast
    have "kinv {} None (to_ready t n' p' ?s1) ?Q2 e" by (rule kinv_not_running [of t]) (use k2 in simp_all)
    moreover have "preempt_put t s = Some (to_ready t n' p' ?s1)"
      using rr e1 e2 by (simp add: preempt_put_def)
    moreover have "qstep s (to_ready t n' p' ?s1)" by (rule qstepI) simp
    moreover have "\<forall>q. q \<noteq> Qready \<longrightarrow> q \<noteq> Qtimer \<longrightarrow> ?Q2 q = Q q" using Q1 by simp
    ultimately show ?thesis by (intro exI [of _ "to_ready t n' p' ?s1"] exI [of _ ?Q2]) simp
  next
    case fifo
    have "loose Q (Thr t)"
      using kinv_at [OF k t] fifo by (auto simp: thread_at_def loose_inq)
    then have k1: "kinv {t} (Some t) s Q e" using kinv_loose_flight [OF k] by simp
    obtain xs where q: "Q Qready = Some xs" using kinv_head [OF k1] by blast
    let ?Q2 = "Q(Qready \<mapsto> push_list (pq_prio s) (Thr t) xs)"
    obtain n' p' where e2: "chx_ready_push t s = Some (to_ready t n' p' s)"
      and k2: "kinv ({t} - {t}) (Some t) (to_ready t n' p' s) ?Q2 e"
      using kinv_ready_push [OF k1 t _ q] by blast
    have "kinv {} None (to_ready t n' p' s) ?Q2 e" by (rule kinv_not_running [of t]) (use k2 in simp_all)
    moreover have "preempt_put t s = Some (to_ready t n' p' s)"
      using fifo e2 by (simp add: preempt_put_def)
    moreover have "qstep s (to_ready t n' p' s)" by (rule qstepI) simp
    ultimately show ?thesis by (intro exI [of _ "to_ready t n' p' s"] exI [of _ ?Q2]) simp
  qed
qed

lemma preempt_ok:
  assumes ok: "kernel_ok s Q e"
  shows "\<exists>s' Q'. preempt s = Some s' \<and> kernel_ok s' Q' e \<and> prio_top s' e \<and> \<not> pendsv s' \<and>
    pq_prio s' = pq_prio s \<and> dom Q' = dom Q \<and>
    (\<forall>u. th_state s' u = (if running s' = Some u then THREAD_RUNNING
       else if running s = Some u then THREAD_READY else th_state s u))"
proof -
  let ?s0 = "s\<lparr>masked := True, pendsv := False\<rparr>"
  have k0: "kinv {} (running s) ?s0 Q e" using ok by (simp add: kernel_ok_def)
  obtain s1 Q1 where e1: "(case running ?s0 of None \<Rightarrow> Some ?s0
           | Some tp \<Rightarrow> do { s \<leftarrow> preempt_put tp ?s0; Some (s\<lparr>running := None\<rparr>) }) = Some s1"
    and k1: "kinv {} None s1 Q1 e" and Q1: "\<forall>q. q \<noteq> Qready \<longrightarrow> q \<noteq> Qtimer \<longrightarrow> Q1 q = Q q" and m: "masked s1" "\<not> pendsv s1" "pq_prio s1 = pq_prio s"
    and st: "th_state s1 = (\<lambda>u. if running s = Some u then THREAD_READY else th_state s u)"
  proof (cases "running s")
    case None
    show thesis by (rule that [of ?s0 Q]) (use None k0 in simp_all)
  next
    case (Some t)
    obtain s1 Q1 where s1: "preempt_put t ?s0 = Some s1" "kinv {} None s1 Q1 e" "qstep ?s0 s1"
        "th_state s1 = (th_state s)(t := THREAD_READY)" "\<forall>q. q \<noteq> Qready \<longrightarrow> q \<noteq> Qtimer \<longrightarrow> Q1 q = Q q"
      using preempt_put_ok [of t ?s0 Q e] k0 ok Some by (auto simp: kernel_ok_def)
    show thesis
      by (rule that [of "s1\<lparr>running := None\<rparr>" Q1]) (use Some s1 qstepD [OF s1(3)] in auto)
  qed
  obtain tp s2 Q2 where p: "pop_next s1 = Some (tp, s2)" and ok': "kernel_ok (context_switch tp s2) Q2 e"
    and d: "dispatched s1 (context_switch tp s2) e" and Q2: "\<forall>q. q \<noteq> Qready \<longrightarrow> q \<noteq> Qtimer \<longrightarrow> Q2 q = Q1 q"
    using kinv_dispatch [OF k1 m(1)] by blast
  have "preempt s = Some (context_switch tp s2)"
    unfolding preempt_def Let_def e1 using p by simp
  moreover have "qstep s1 (context_switch tp s2\<lparr>running := running s1, masked := masked s1\<rparr>)"
    using d by (simp add: dispatched_def)
  then have "pq_prio (context_switch tp s2) = pq_prio s1" "pendsv (context_switch tp s2) = pendsv s1"
    by (auto dest: qstep_running_masked)
  moreover have "dom Q2 = dom Q"
    by (rule kinv_dom_eq [OF k0, of "{}" "running (context_switch tp s2)" "context_switch tp s2" Q2 e])
      (use ok' Q1 Q2 in \<open>simp_all add: kernel_ok_def\<close>)
  ultimately show ?thesis using ok' d st m
    by (intro exI [of _ "context_switch tp s2"] exI [of _ Q2]) (auto simp: dispatched_def)
qed

end
