(* ===== verification/Kernel_Events.thy ===== *)
theory Kernel_Events
  imports Kernel_Inv
begin

text \<open>
  What wakes threads up keeps the kernel's invariant: \<open>chx_wakeup\<close> on an entry taken from
  a queue, the handler of external interrupts, and the SysTick handler. None of them can
  fail to return.
\<close>

section \<open>Taking a proxy out of a queue\<close>

lemma kinv_dequeue_px:
  assumes k: "kinv X r s Q e" and q: "Q q = Some xs" and x: "Px a \<in> set xs"
  shows "\<exists>n p. ll_dequeue (Px a) s = s\<lparr>pq_next := n, pq_prev := p\<rparr> \<and>
    kinv X r (s\<lparr>pq_next := n, pq_prev := p\<rparr>) (Q(q \<mapsto> remove1 (Px a) xs)) e"
proof -
  have w: "wfq s Q" using kinv_wfq [OF k] .
  obtain n p where d: "ll_dequeue (Px a) s = s\<lparr>pq_next := n, pq_prev := p\<rparr>"
    and w': "wfl n p (Q(q \<mapsto> remove1 (Px a) xs))" and self: "n (Px a) = Px a" "p (Px a) = Px a"
    and kp: "keeps s Q {} n p"
    using ll_dequeue_wfq [OF w q x] by blast
  let ?Q = "Q(q \<mapsto> remove1 (Px a) xs)" and ?s = "s\<lparr>pq_next := n, pq_prev := p\<rparr>"
  have pq: "px_queue q" using kinv_px [OF k, of a q] q x by (simp add: inq_def)
  have lo: "loose ?Q (Px a)" using loose_after_remove [OF w q x] .
  have same: "inq ?Q y q' \<longleftrightarrow> inq Q y q' \<and> y \<noteq> Px a" for y q'
  proof (cases "y = Px a")
    case True
    then show ?thesis using lo by (simp add: loose_inq)
  qed (use q in \<open>auto simp: inq_upd inq_here\<close>)
  have lt: "loose ?Q (Thr t) = loose Q (Thr t)" for t by (simp add: loose_inq same)
  have "order_ok ?s ?Q"
    by (rule order_ok_upd [OF kinv_order [OF k]])
      (use pq in \<open>auto intro: desc_remove1 order_okD [OF kinv_order [OF k] q]\<close>)
  moreover have "queues_ok ?s ?Q e" "locks_ok ?s ?Q e"
    using k q w' same unfolding kinv_def queues_ok_def locks_ok_def by (auto simp: dom_upd_same)
  moreover have "objects_ok ?s ?Q e"
    unfolding objects_ok_def
  proof (intro conjI ballI impI)
    fix b assume b: "b \<in> proxies e"
    show "pq_is_proxy ?s (Px b)" "px_master ?s b \<in> threads e"
      using k b by (simp_all add: kinv_def objects_ok_def)
    assume l: "loose ?Q (Px b)"
    show "selflinked ?s (Px b)"
    proof (cases "b = a")
      case False
      then have "loose Q (Px b)" using l by (auto simp: loose_inq same)
      then show ?thesis using keepsD [OF kp, of "Px b"] k b
        by (simp add: kinv_def objects_ok_def selflinked_def)
    qed (use self in \<open>simp add: selflinked_def\<close>)
  qed (use k in \<open>simp_all add: kinv_def objects_ok_def\<close>)
  moreover have "thread_at r ?s ?Q e t = thread_at r s Q e t" for t
    by (simp add: thread_at_def same lt)
  ultimately have "kinv X r ?s ?Q e" using k lt by (simp add: kinv_def)
  with d show ?thesis by blast
qed

section \<open>Waking up\<close>

text \<open>
  What a wakeup changes: the counter and the flag of a poll, the queues, and the states of
  threads that waited; the result tells whether one of them outranks the running thread.
\<close>

definition wake_target :: "'z kst_scheme \<Rightarrow> ptr \<Rightarrow> tid" where
  "wake_target s x = (if pq_is_proxy s x then px_master s (node_addr x) else node_addr x)"

lemma wakes_cong: "running s = running s' \<Longrightarrow> pq_prio s = pq_prio s' \<Longrightarrow> wakes t s = wakes t s'"
  by (simp add: wakes_def split: option.splits)

lemma wakes_links [simp]: "wakes t (s\<lparr>pq_next := n, pq_prev := p\<rparr>) = wakes t s"
  by (rule wakes_cong) simp_all

definition woken :: "bool \<Rightarrow> 'z kst_scheme \<Rightarrow> 'z kst_scheme \<Rightarrow> bool" where
  "woken y s s' \<longleftrightarrow>
     (\<exists>c d. qstep (s\<lparr>counter := c, pd_ready := d\<rparr>) s') \<and>
     (\<forall>u. th_state s' u \<noteq> th_state s u \<longrightarrow> th_state s' u = THREAD_READY \<and>
        th_state s u \<in> {THREAD_WAIT_CND, THREAD_WAIT_EXIT, THREAD_WAIT_POLL} \<and>
        (y \<or> (\<exists>t. running s = Some t \<and> pq_prio s (Thr u) \<le> pq_prio s (Thr t))))"

lemma wokenD:
  assumes "woken y s s'"
  shows "pq_prio s' = pq_prio s" "flag_sched_rr s' = flag_sched_rr s" "running s' = running s"
    "masked s' = masked s" "pendsv s' = pendsv s" "mtx_owner s' = mtx_owner s"
    "mutex_list s' = mutex_list s" "mtx_list s' = mtx_list s" "px_master s' = px_master s"
    "flag_detached s' = flag_detached s" "flag_got_cancel s' = flag_got_cancel s"
    "flag_join_req s' = flag_join_req s" "flag_cancelable s' = flag_cancelable s"
    "nvic_enabled s' = nvic_enabled s" "px_ready_p s' = px_ready_p s"
proof -
  obtain c d where q: "qstep (s\<lparr>counter := c, pd_ready := d\<rparr>) s'"
    using assms by (auto simp: woken_def)
  show "pq_prio s' = pq_prio s" "flag_sched_rr s' = flag_sched_rr s" "running s' = running s"
    "masked s' = masked s" "pendsv s' = pendsv s" "mtx_owner s' = mtx_owner s"
    "mutex_list s' = mutex_list s" "mtx_list s' = mtx_list s" "px_master s' = px_master s"
    "flag_detached s' = flag_detached s" "flag_got_cancel s' = flag_got_cancel s"
    "flag_join_req s' = flag_join_req s" "flag_cancelable s' = flag_cancelable s"
    "nvic_enabled s' = nvic_enabled s" "px_ready_p s' = px_ready_p s"
    using qstepD [OF q] by simp_all
qed

lemma woken_states:
  "woken y s s' \<Longrightarrow> th_state s u \<notin> {THREAD_WAIT_CND, THREAD_WAIT_EXIT, THREAD_WAIT_POLL} \<Longrightarrow>
   th_state s' u = th_state s u"
  by (auto simp: woken_def)

lemma woken_refl [simp]: "woken y s s"
  by (auto simp: woken_def intro!: exI [of _ "counter s"] exI [of _ "pd_ready s"])

lemma woken_trans:
  assumes a: "woken y s s'" and b: "woken z s' s''"
  shows "woken (y \<or> z) s s''"
proof -
  obtain c d where q1: "qstep (s\<lparr>counter := c, pd_ready := d\<rparr>) s'" using a by (auto simp: woken_def)
  obtain c' d' where q2: "qstep (s'\<lparr>counter := c', pd_ready := d'\<rparr>) s''" using b by (auto simp: woken_def)
  have "qstep (s\<lparr>counter := c', pd_ready := d'\<rparr>) (s'\<lparr>counter := c', pd_ready := d'\<rparr>)"
    using q1 by (intro qstepI) (auto simp: qstep_def)
  from qstep_trans [OF this q2] have "\<exists>c d. qstep (s\<lparr>counter := c, pd_ready := d\<rparr>) s''" by blast
  moreover have "th_state s'' u = THREAD_READY \<and>
      th_state s u \<in> {THREAD_WAIT_CND, THREAD_WAIT_EXIT, THREAD_WAIT_POLL} \<and>
      (y \<or> z \<or> (\<exists>t. running s = Some t \<and> pq_prio s (Thr u) \<le> pq_prio s (Thr t)))"
    if "th_state s'' u \<noteq> th_state s u" for u
  proof (cases "th_state s' u = th_state s u")
    case True
    then show ?thesis using that b wokenD [OF a] unfolding woken_def by metis
  next
    case False
    then show ?thesis using that a b unfolding woken_def by (metis insertE tstate.distinct empty_iff)
  qed
  ultimately show ?thesis unfolding woken_def by blast
qed

lemma chx_wakeup_thread:
  assumes k: "kinv {t} r s Q e" and t: "t \<in> threads e"
    and st: "th_state s t \<in> {THREAD_WAIT_CND, THREAD_WAIT_EXIT, THREAD_WAIT_POLL}"
  shows "\<exists>y s' Q'. chx_wakeup (Thr t) s = Some (y, s') \<and> kinv {} r s' Q' e \<and> woken y s s' \<and>
    th_state s' t = THREAD_READY \<and> (\<forall>q. q \<noteq> Qready \<longrightarrow> q \<noteq> Qtimer \<longrightarrow> Q' q = Q q) \<and>
    (y \<longrightarrow> wakes t s)"
proof -
  have np: "\<not> pq_is_proxy s (Thr t)" using k t by (simp add: kinv_def objects_ok_def)
  have lo: "loose Q (Thr t)" using kinv_loose [OF k t] by simp
  let ?s1 = "s\<lparr>pq_v := (pq_v s)(Thr t := 1)\<rparr>"
  have k1: "kinv {t} r ?s1 Q e"
    by (rule kinv_set_v [OF k]) (use lo in \<open>auto simp: loose_inq\<close>)
  obtain xs where q: "Q Qready = Some xs" using kinv_head [OF k] by blast
  obtain n p where e1: "chx_ready_enqueue t ?s1 = Some (to_ready t n p ?s1)"
    and k2: "kinv ({t} - {t}) r (to_ready t n p ?s1) (Q(Qready \<mapsto> enq_list (pq_prio ?s1) (Thr t) xs)) e"
    using kinv_ready_enqueue [OF k1 t _ q] by blast
  let ?s' = "to_ready t n p ?s1"
  have "chx_wakeup (Thr t) s = Some (wakes t ?s', ?s')" using np e1 by (simp add: chx_wakeup_def)
  moreover have "woken (wakes t ?s') s ?s'"
    using st unfolding woken_def
    by (auto simp: wakes_def not_less split: option.splits
        intro!: exI [of _ "counter s"] exI [of _ "pd_ready s"] qstepI)
  moreover have "wakes t ?s' = wakes t s" by (rule wakes_cong) simp_all
  ultimately show ?thesis using k2 by auto
qed

text \<open>A thread that polls is in the timer queue or in none: \<open>parent\<close> tells which.\<close>

lemma kinv_poll_place:
  "kinv X r s Q e \<Longrightarrow> t \<in> threads e \<Longrightarrow> t \<notin> X \<Longrightarrow> th_state s t = THREAD_WAIT_POLL \<Longrightarrow>
   if pq_parent s (Thr t) = Some Qtimer then inq Q (Thr t) Qtimer else loose Q (Thr t)"
  using kinv_at [of X r s Q e t] kinv_parent [of X r s Q e "Thr t"]
  by (auto simp: thread_at_def loose_inq)

lemma wake_poll_prep:
  assumes k: "kinv {} r s Q e" and t: "t \<in> threads e"
    and st: "th_state s t \<in> {THREAD_WAIT_TIME, THREAD_WAIT_POLL}"
  shows "\<exists>v s1 Q1. (if pq_parent s (Thr t) = Some Qtimer then chx_timer_dequeue t s else Some (1, s)) =
      Some (v, s1) \<and> kinv {t} r s1 Q1 e \<and> qstep s s1 \<and> th_state s1 = th_state s \<and>
    (\<forall>q. q \<noteq> Qtimer \<longrightarrow> Q1 q = Q q) \<and> dom Q1 = dom Q \<and> pq_parent s1 = pq_parent s \<and>
    (\<forall>y. \<not> inq Q y Qtimer \<longrightarrow> pq_v s1 y = pq_v s y)"
proof (cases "pq_parent s (Thr t) = Some Qtimer")
  case True
  have "inq Q (Thr t) Qtimer"
  proof (cases "th_state s t = THREAD_WAIT_POLL")
    case True
    then show ?thesis using kinv_poll_place [OF k t] \<open>pq_parent s (Thr t) = Some Qtimer\<close> by simp
  next
    case False
    then show ?thesis using kinv_queued [OF k t] st by auto
  qed
  then obtain i n p v c Q1 where e1: "chx_timer_dequeue t s =
      Some (i, s\<lparr>pq_v := v, systick := c, pq_next := n, pq_prev := p\<rparr>)"
    and k1: "kinv {t} r (s\<lparr>pq_v := v, systick := c, pq_next := n, pq_prev := p\<rparr>) Q1 e"
    and Q1: "\<forall>q. q \<noteq> Qtimer \<longrightarrow> Q1 q = Q q" and v: "\<forall>y. \<not> inq Q y Qtimer \<longrightarrow> v y = pq_v s y"
    using kinv_timer_dequeue [OF k] by blast
  have "qstep s (s\<lparr>pq_v := v, systick := c, pq_next := n, pq_prev := p\<rparr>)" by (rule qstepI) simp
  moreover have "dom Q1 = dom Q"
    by (rule dom_change_one [OF Q1]) (use kinv_head [OF k, of Qtimer] kinv_head [OF k1, of Qtimer] in simp_all)
  ultimately show ?thesis using True e1 k1 Q1 v
    by (intro exI [of _ i] exI [of _ "s\<lparr>pq_v := v, systick := c, pq_next := n, pq_prev := p\<rparr>"]
        exI [of _ Q1]) simp
next
  case False
  have "th_state s t = THREAD_WAIT_POLL" using kinv_queued [OF k t] st False by auto
  then have "kinv {t} r s Q e" using kinv_poll_place [OF k t] False kinv_loose_flight [OF k] by simp
  then show ?thesis using False by (intro exI [of _ 1] exI [of _ s] exI [of _ Q]) simp
qed

lemma wake_poll_ready:
  assumes k: "kinv {t} r s Q e" and t: "t \<in> threads e"
  shows "\<exists>s' Q'. chx_ready_enqueue t (s\<lparr>pq_v := (pq_v s)(Thr t := v)\<rparr>) = Some s' \<and>
    kinv {} r s' Q' e \<and> qstep s s' \<and> th_state s' = (th_state s)(t := THREAD_READY) \<and>
    (\<forall>q. q \<noteq> Qready \<longrightarrow> Q' q = Q q) \<and> dom Q' = dom Q \<and>
    pq_parent s' = (pq_parent s)(Thr t := Some Qready) \<and> pq_v s' = (pq_v s)(Thr t := v)"
proof -
  let ?s1 = "s\<lparr>pq_v := (pq_v s)(Thr t := v)\<rparr>"
  have "loose Q (Thr t)" using kinv_loose [OF k t] by simp
  then have k1: "kinv {t} r ?s1 Q e"
    by (intro kinv_set_v [OF k]) (auto simp: loose_inq)
  obtain xs where q: "Q Qready = Some xs" using kinv_head [OF k] by blast
  obtain n p where "chx_ready_enqueue t ?s1 = Some (to_ready t n p ?s1)"
    "kinv ({t} - {t}) r (to_ready t n p ?s1) (Q(Qready \<mapsto> enq_list (pq_prio ?s1) (Thr t) xs)) e"
    using kinv_ready_enqueue [OF k1 t _ q] by blast
  moreover have "qstep s (to_ready t n p ?s1)" by (rule qstepI) simp
  moreover have "dom (Q(Qready \<mapsto> ys)) = dom Q" for ys using q by auto
  ultimately show ?thesis
    by (intro exI [of _ "to_ready t n p ?s1"]
        exI [of _ "Q(Qready \<mapsto> enq_list (pq_prio ?s1) (Thr t) xs)"]) (simp del: dom_fun_upd)
qed

lemma chx_wakeup_px:
  assumes k: "kinv {} r s Q e" and a: "a \<in> proxies e" "loose Q (Px a)" and rp: "px_ready_p s a = Some d"
  shows "\<exists>y s' Q'. chx_wakeup (Px a) s = Some (y, s') \<and> kinv {} r s' Q' e \<and> woken y s s' \<and>
    (\<forall>q. q \<noteq> Qready \<longrightarrow> q \<noteq> Qtimer \<longrightarrow> Q' q = Q q) \<and> pd_ready s' d = 1 \<and>
    counter s' (px_counter_p s a) = counter s (px_counter_p s a) + 1 \<and>
    th_state s' (px_master s a) \<noteq> THREAD_WAIT_POLL \<and> (y \<longrightarrow> wakes (px_master s a) s)"
proof -
  have px: "pq_is_proxy s (Px a)" and t: "px_master s a \<in> threads e"
    using k a(1) by (auto simp: kinv_def objects_ok_def)
  let ?c = "px_counter_p s a" and ?t = "px_master s a"
  let ?s1 = "s\<lparr>counter := (counter s)(?c := counter s ?c + 1), pd_ready := (pd_ready s)(d := 1)\<rparr>"
  have "px_ready_p s b \<noteq> Some d" if "inq Q (Px b) q" for b q
  proof -
    have "b \<in> proxies e" "b \<noteq> a" using kinv_px [OF k that] a that by (auto simp: loose_inq)
    moreover have "px_distinct (px_ready_p s) (proxies e)" using k by (simp add: kinv_def objects_ok_def)
    ultimately show ?thesis using rp a(1) unfolding px_distinct_def by (metis option.distinct(1))
  qed
  then have "kinv {} r (s\<lparr>pd_ready := (pd_ready s)(d := 1)\<rparr>) Q e"
    by (intro kinv_set_ready [OF k]) auto
  then have "kinv {} r (s\<lparr>pd_ready := (pd_ready s)(d := 1)\<rparr>\<lparr>counter := (counter s)(?c := counter s ?c + 1)\<rparr>) Q e"
    by (simp only: kinv_frame)
  moreover have "?s1 = s\<lparr>pd_ready := (pd_ready s)(d := 1)\<rparr>\<lparr>counter := (counter s)(?c := counter s ?c + 1)\<rparr>" by simp
  ultimately have k1: "kinv {} r ?s1 Q e" by metis
  show ?thesis
  proof (cases "th_state s ?t = THREAD_WAIT_POLL")
    case False
    have "woken False s ?s1" unfolding woken_def by (auto intro!: exI qstepI)
    then show ?thesis using px rp False k1
      by (intro exI [of _ False] exI [of _ ?s1] exI [of _ Q]) (simp add: chx_wakeup_def Let_def)
  next
    case True
    have "th_state ?s1 ?t \<in> {THREAD_WAIT_TIME, THREAD_WAIT_POLL}" using True by simp
    from wake_poll_prep [OF k1 t this]
    obtain v s2 Q2 where e2: "(if pq_parent ?s1 (Thr ?t) = Some Qtimer then chx_timer_dequeue ?t ?s1
        else Some (1, ?s1)) = Some (v, s2)" and k2: "kinv {?t} r s2 Q2 e" and q2: "qstep ?s1 s2"
      and st2: "th_state s2 = th_state ?s1" and Q2: "\<forall>q. q \<noteq> Qtimer \<longrightarrow> Q2 q = Q q" by blast
    obtain s3 Q3 where e3: "chx_ready_enqueue ?t (s2\<lparr>pq_v := (pq_v s2)(Thr ?t := v)\<rparr>) = Some s3"
      and k3: "kinv {} r s3 Q3 e" and q3: "qstep s2 s3"
      and st3: "th_state s3 = (th_state s2)(?t := THREAD_READY)"
      and Q3: "\<forall>q. q \<noteq> Qready \<longrightarrow> Q3 q = Q2 q"
      using wake_poll_ready [OF k2 t, of v] by blast
    have q13: "qstep ?s1 s3" using qstep_trans [OF q2 q3] .
    have fr: "counter s3 = counter ?s1" "pd_ready s3 = pd_ready ?s1" "pq_prio s3 = pq_prio s"
      "running s3 = running s"
      using qstepD [OF q13] by simp_all
    have "chx_wakeup (Px a) s = Some (wakes ?t s3, s3)"
      using px rp True e2 e3 by (simp add: chx_wakeup_def Let_def cong: if_cong)
    moreover have "woken (wakes ?t s3) s s3"
      unfolding woken_def using q13 st2 st3 True fr
      by (auto simp: wakes_def not_less split: option.splits)
    moreover have "wakes ?t s3 = wakes ?t s" by (rule wakes_cong) (simp_all add: fr)
    ultimately show ?thesis using k3 Q2 Q3 fr st3
      by (intro exI [of _ "wakes ?t s3"] exI [of _ s3] exI [of _ Q3]) auto
  qed
qed

text \<open>An entry is taken out of a queue and woken up, be it a thread or a proxy.\<close>

lemma wake_from_queue:
  assumes k: "kinv {} r s Q e" and q: "Q q = Some xs" and x: "x \<in> set xs" and pq: "px_queue q"
  shows "\<exists>y s' Q'. chx_wakeup x (ll_dequeue x s) = Some (y, s') \<and> kinv {} r s' Q' e \<and> woken y s s' \<and>
    Q' q = Some (remove1 x xs) \<and> (\<forall>q'. q' \<notin> {q, Qready, Qtimer} \<longrightarrow> Q' q' = Q q') \<and>
    (y \<longrightarrow> wakes (wake_target s x) s) \<and> (\<forall>u. x = Thr u \<longrightarrow> th_state s' u = THREAD_READY) \<and>
    (\<forall>a d. x = Px a \<longrightarrow> px_ready_p s a = Some d \<longrightarrow> pd_ready s' d = 1 \<and>
       counter s' (px_counter_p s a) = counter s (px_counter_p s a) + 1 \<and>
       th_state s' (px_master s a) \<noteq> THREAD_WAIT_POLL)"
proof -
  have qq: "q \<noteq> Qready" "q \<noteq> Qtimer" using pq by auto
  have iq: "inq Q x q" using q x by (simp add: inq_def)
  have nx: "is_node x" using wfl_node [OF kinv_wfq [OF k] q x] .
  have wo: "woken y s s'" if "woken y (s\<lparr>pq_next := n, pq_prev := p\<rparr>) s'" for y s' n p
  proof -
    have "woken False s (s\<lparr>pq_next := n, pq_prev := p\<rparr>)"
      unfolding woken_def by (auto intro!: exI [of _ "counter s"] exI [of _ "pd_ready s"] qstepI)
    from woken_trans [OF this that] show ?thesis by simp
  qed
  consider t where "x = Thr t" | a where "x = Px a" using nx by (cases x) auto
  then show ?thesis
  proof cases
    case (1 t)
    obtain n p where d: "ll_dequeue (Thr t) s = s\<lparr>pq_next := n, pq_prev := p\<rparr>"
      and k1: "kinv {t} r (s\<lparr>pq_next := n, pq_prev := p\<rparr>) (Q(q \<mapsto> remove1 (Thr t) xs)) e"
      using kinv_dequeue [OF k q _ qq(2)] x 1 by blast
    have t: "t \<in> threads e" "allowed (th_state s t) (flag_sched_rr s t) q"
      using kinv_inq [OF k, of t q] iq 1 by auto
    then have "th_state s t \<in> {THREAD_WAIT_CND, THREAD_WAIT_EXIT, THREAD_WAIT_POLL}"
      using pq by (cases "th_state s t") auto
    then obtain y s' Q' where "chx_wakeup (Thr t) (s\<lparr>pq_next := n, pq_prev := p\<rparr>) = Some (y, s')"
      "kinv {} r s' Q' e" "woken y (s\<lparr>pq_next := n, pq_prev := p\<rparr>) s'"
      "\<forall>q'. q' \<noteq> Qready \<longrightarrow> q' \<noteq> Qtimer \<longrightarrow> Q' q' = (Q(q \<mapsto> remove1 (Thr t) xs)) q'"
      "y \<longrightarrow> wakes t (s\<lparr>pq_next := n, pq_prev := p\<rparr>)" "th_state s' t = THREAD_READY"
      using chx_wakeup_thread [OF k1 t(1)] by auto
    moreover have "wake_target s x = t" "wakes t (s\<lparr>pq_next := n, pq_prev := p\<rparr>) = wakes t s"
      using 1 k t by (auto simp: wake_target_def kinv_def objects_ok_def)
    ultimately show ?thesis using d 1 qq wo by (intro exI [of _ y] exI [of _ s'] exI [of _ Q']) auto
  next
    case (2 a)
    obtain n p where d: "ll_dequeue (Px a) s = s\<lparr>pq_next := n, pq_prev := p\<rparr>"
      and k1: "kinv {} r (s\<lparr>pq_next := n, pq_prev := p\<rparr>) (Q(q \<mapsto> remove1 (Px a) xs)) e"
      using kinv_dequeue_px [OF k q] x 2 by blast
    obtain d' where a: "a \<in> proxies e" "px_ready_p s a = Some d'"
      using kinv_px [OF k, of a q] iq 2 by (auto simp: px_waits_def)
    have lo: "loose (Q(q \<mapsto> remove1 (Px a) xs)) (Px a)"
      using loose_after_remove [OF kinv_wfq [OF k] q] x 2 by simp
    then obtain y s' Q' where "chx_wakeup (Px a) (s\<lparr>pq_next := n, pq_prev := p\<rparr>) = Some (y, s')"
      "kinv {} r s' Q' e" "woken y (s\<lparr>pq_next := n, pq_prev := p\<rparr>) s'"
      "\<forall>q'. q' \<noteq> Qready \<longrightarrow> q' \<noteq> Qtimer \<longrightarrow> Q' q' = (Q(q \<mapsto> remove1 (Px a) xs)) q'"
      "y \<longrightarrow> wakes (px_master s a) (s\<lparr>pq_next := n, pq_prev := p\<rparr>)"
      "pd_ready s' d' = 1" "counter s' (px_counter_p s a) = counter s (px_counter_p s a) + 1"
      "th_state s' (px_master s a) \<noteq> THREAD_WAIT_POLL"
      using chx_wakeup_px [OF k1 a(1) lo, of d'] a(2) by auto
    moreover have "wake_target s x = px_master s a"
      "wakes u (s\<lparr>pq_next := n, pq_prev := p\<rparr>) = wakes u s" for u
      using 2 k a by (auto simp: wake_target_def kinv_def objects_ok_def)
    ultimately show ?thesis using d 2 qq wo a by (intro exI [of _ y] exI [of _ s'] exI [of _ Q']) auto
  qed
qed

section \<open>The handler of external interrupts\<close>

lemma seek_v_links:
  "links (pq_next s) (pq_prev s) a xs q \<Longrightarrow> q \<notin> set xs \<Longrightarrow>
   seek_v v (hd (xs @ [q])) q s = Some (find (\<lambda>y. pq_v s y = v) xs)"
proof (induction xs arbitrary: a)
  case Nil
  then show ?case by (simp add: seek_v.simps)
next
  case (Cons x xs)
  then have "pq_next s x = hd (xs @ [q])" by (auto dest: links_next)
  with Cons show ?case by (auto simp: seek_v.simps [of _ x])
qed

lemma seek_v_wfq:
  assumes w: "wfq s Q" and q: "Q q = Some xs"
  shows "seek_v v (pq_next s q) q s = Some (find (\<lambda>y. pq_v s y = v) xs)"
  using seek_v_links [of s q xs q v] wfl_dll [OF w q] wfl_next [OF w q]
  by (simp add: dll_def)

lemma find_mem: "find P xs = Some x \<Longrightarrow> x \<in> set xs \<and> P x"
  by (auto simp: find_Some_iff)

text \<open>After an interrupt a preemption is pending if a ready thread outranks the running one.\<close>

definition prio_pend :: "'z kst_scheme \<Rightarrow> env \<Rightarrow> bool" where
  "prio_pend s e \<longleftrightarrow> pendsv s \<or> prio_top s e"

lemma chx_request_preemption_simps [simp]:
  "pq_prio (chx_request_preemption p s) = pq_prio s"
  "th_state (chx_request_preemption p s) = th_state s"
  "running (chx_request_preemption p s) = running s"
  "masked (chx_request_preemption p s) = masked s"
  "flag_sched_rr (chx_request_preemption p s) = flag_sched_rr s"
  "nvic_enabled (chx_request_preemption p s) = nvic_enabled s"
  "kinv X r (chx_request_preemption p s) Q e = kinv X r s Q e"
  "pendsv s \<Longrightarrow> pendsv (chx_request_preemption p s)"
  by (simp_all add: chx_request_preemption_def)

lemma request_preemption_prio:
  "running s = Some t \<Longrightarrow> pendsv (chx_request_preemption (ucast p) s) \<longleftrightarrow> pendsv s \<or> pq_prio s (Thr t) < p"
  by (auto simp: chx_request_preemption_def word_less_nat_alt ucast_u8_u16)

lemma kernel_ok_request: "kernel_ok s Q e \<Longrightarrow> kernel_ok (chx_request_preemption p s) Q e"
  by (auto simp: kernel_ok_def)

lemma kernel_ok_woken:
  assumes ok: "kernel_ok s Q e" and w: "woken y s s'" and k: "kinv {} (running s) s' Q' e"
  shows "kernel_ok s' Q' e"
proof -
  have "th_state s' t = th_state s t" if "running s = Some t" for t
    using that ok w by (intro woken_states) (auto simp: kernel_ok_def)
  with ok k show ?thesis unfolding kernel_ok_def by (auto simp: wokenD [OF w])
qed

lemma prio_top_woken:
  assumes p: "prio_top s e" and w: "woken False s s'"
  shows "prio_top s' e"
  unfolding prio_top_def
proof (intro ballI impI)
  fix u assume u: "u \<in> threads e" "th_state s' u = THREAD_READY"
  show "\<exists>t. running s' = Some t \<and> pq_prio s' (Thr u) \<le> pq_prio s' (Thr t)"
  proof (cases "th_state s u = THREAD_READY")
    case True
    with u p show ?thesis by (simp add: prio_top_def wokenD [OF w])
  next
    case False
    with u w show ?thesis by (auto simp: woken_def wokenD [OF w])
  qed
qed

lemma chx_handle_intr_ok:
  assumes ok: "kernel_ok s Q e"
  shows "\<exists>s' Q'. chx_handle_intr irq s = Some s' \<and> kernel_ok s' Q' e \<and> running s' = running s \<and>
    masked s' = masked s \<and> \<not> nvic_enabled s' irq \<and> dom Q' = dom Q \<and> (prio_pend s e \<longrightarrow> prio_pend s' e)"
proof -
  let ?s0 = "chx_disable_intr irq s"
  have ok0: "kernel_ok ?s0 Q e" using ok by (auto simp: kernel_ok_def chx_disable_intr_def)
  have k0: "kinv {} (running s) ?s0 Q e" using ok0 by (auto simp: kernel_ok_def chx_disable_intr_def)
  obtain xs where q: "Q Qintr = Some xs" using kinv_head [OF k0] by blast
  note seek = seek_v_wfq [OF kinv_wfq [OF k0] q, of "ucast irq"]
  show ?thesis
  proof (cases "find (\<lambda>y. pq_v ?s0 y = ucast irq) xs")
    case None
    then show ?thesis using seek ok0
      by (intro exI [of _ ?s0] exI [of _ Q])
        (simp add: chx_handle_intr_def, simp add: chx_disable_intr_def prio_pend_def prio_top_def)
  next
    case (Some x)
    have x: "x \<in> set xs" using find_mem [OF Some] by simp
    obtain y s' Q' where e1: "chx_wakeup x (ll_dequeue x ?s0) = Some (y, s')" and k1: "kinv {} (running s) s' Q' e"
      and w: "woken y ?s0 s'" and y: "y \<longrightarrow> wakes (wake_target ?s0 x) ?s0"
      and Q': "Q' Qintr = Some (remove1 x xs)" "\<forall>q'. q' \<notin> {Qintr, Qready, Qtimer} \<longrightarrow> Q' q' = Q q'"
      using wake_from_queue [OF k0 q x] by auto
    have dom: "dom Q' = dom Q" by (rule kinv_dom_eq3 [OF k0 k1 _ _ Q'(2)]) (use q Q'(1) in auto)
    have px: "pq_is_proxy ?s0 x"
    proof -
      have iq: "inq Q x Qintr" using x q by (simp add: inq_def)
      consider u where "x = Thr u" | a where "x = Px a"
        using wfl_node [OF kinv_wfq [OF k0] q x] by (cases x) auto
      then show ?thesis
      proof cases
        case (1 u)
        then show ?thesis using kinv_inq [OF k0, of u Qintr] iq by (cases "th_state ?s0 u") auto
      next
        case (2 a)
        then show ?thesis using kinv_px [OF k0, of a Qintr] iq by simp
      qed
    qed
    let ?s2 = "chx_request_preemption (ucast (pq_prio s' (Thr (px_master s' (node_addr x))))) s'"
    have pend: "prio_pend ?s2 e" if p: "prio_pend s e"
    proof (cases y)
      case True
      then have "pendsv ?s2" using y px
        by (auto simp: wakes_def wake_target_def wokenD [OF w] chx_request_preemption_def
            word_less_nat_alt ucast_u8_u16 split: option.splits)
      then show ?thesis by (simp add: prio_pend_def)
    next
      case False
      have "prio_pend ?s0 e" using p by (simp add: prio_pend_def prio_top_def chx_disable_intr_def)
      then have "prio_pend s' e" using prio_top_woken [of ?s0 e s'] w False
        by (auto simp: prio_pend_def wokenD [OF w])
      then show ?thesis by (auto simp: prio_pend_def prio_top_def chx_request_preemption_def)
    qed
    have "kernel_ok s' Q' e" by (rule kernel_ok_woken [OF ok0 w]) (use k1 in \<open>simp add: chx_disable_intr_def\<close>)
    from kernel_ok_request [OF this] show ?thesis using seek Some e1 dom
      by (intro exI [of _ "chx_request_preemption (ucast (pq_prio s' (Thr (px_master s' (node_addr x))))) s'"]
          exI [of _ Q'])
        (use pend in \<open>simp add: chx_handle_intr_def wokenD [OF w], simp add: chx_disable_intr_def\<close>)
  qed
qed

section \<open>The SysTick handler\<close>

lemma set_enq_fold [simp]: "set (enq_fold f rs xs) = set rs \<union> set xs"
  by (induction xs arbitrary: rs) auto

lemma desc_enq_fold: "desc f rs \<Longrightarrow> desc f (enq_fold f rs xs)"
  by (induction xs arbitrary: rs) (auto intro: desc_enq_list)

lemma prio_fold_MAX: "prio_fold s MAX_PRIO ts = MAX_PRIO"
proof (induction ts)
  case (Cons t ts)
  have "expired_prio t MAX_PRIO s = MAX_PRIO"
    using prio_below_MAX_PRIO [of "pq_prio s (Thr t)"] by (auto simp: expired_prio_def not_less)
  with Cons show ?case by simp
qed simp

lemma prio_fold_running: "running s = Some t \<Longrightarrow> t \<in> set ts \<Longrightarrow> prio_fold s pr ts = MAX_PRIO"
proof (induction ts arbitrary: pr)
  case (Cons u ts)
  have "expired_prio t pr s = MAX_PRIO" using Cons.prems by (simp add: expired_prio_def)
  with Cons show ?case by (cases "u = t") (simp_all add: prio_fold_MAX)
qed simp

lemma prio_fold_ge:
  "ucast (pq_prio s (Thr t)) \<le> prio_fold s pr ts" if "t \<in> set ts \<or> ucast (pq_prio s (Thr t)) \<le> pr"
  using that
proof (induction ts arbitrary: pr)
  case (Cons u ts)
  have "(ucast (pq_prio s (Thr x)) :: u16) \<le> MAX_PRIO" for x
    using prio_below_MAX_PRIO by (simp add: order_less_imp_le)
  then have "t \<in> set ts \<or> ucast (pq_prio s (Thr t)) \<le> expired_prio u pr s"
    using Cons.prems by (auto simp: expired_prio_def intro: order_trans order_less_imp_le)
  from Cons.IH [OF this] show ?case by simp
qed simp

lemma timer_ok_expired: "timer_ok s (map Thr ts) \<Longrightarrow> timer_ok (s\<lparr>systick := 0\<rparr>) (map Thr ts)"
proof -
  assume ok: "timer_ok s (map Thr ts)"
  let ?f = "\<lambda>x. unat (tval s x)"
  have f: "deadlines (\<lambda>x. unat (tval (s\<lparr>systick := 0\<rparr>) x)) c (map Thr ts) = deadlines ?f c (map Thr ts)" for c
    by (rule deadlines_cong) (auto simp: tval_def)
  have "\<exists>d'. (x, d') \<in> set (deadlines ?f (c + i) xs) \<and> d \<le> d'" if "(x, d) \<in> set (deadlines ?f c xs)" for x d c i xs
    using that
  proof (induction xs arbitrary: c)
    case (Cons y ys)
    then show ?case using Cons.IH [of "c + ?f y"] by (auto simp: algebra_simps)
  qed simp
  from this [of _ _ 0 "map Thr ts" "unat (systick s)"] ok show ?thesis
    unfolding timer_ok_def timer_abs_def f by (force simp: tval_def)
qed

lemma kinv_timer_threads:
  assumes k: "kinv X r s Q e" and q: "Q Qtimer = Some xs"
  shows "\<exists>ts. xs = map Thr ts"
proof -
  have "\<exists>t. x = Thr t" if "x \<in> set xs" for x
  proof (cases x)
    case (Px a)
    then have "inq Q (Px a) Qtimer" using that q by (auto simp: inq_def)
    from kinv_px [OF k this] show ?thesis by simp
  qed (use wfl_node [OF kinv_wfq [OF k] q that] in auto)
  then have "\<forall>x \<in> set xs. Thr (node_addr x) = x" by fastforce
  then have "map (Thr \<circ> node_addr) xs = xs" by (intro map_idI) simp
  then have "xs = map Thr (map node_addr xs)" by simp
  then show ?thesis by blast
qed

text \<open>The invariant after the threads \<open>due\<close> moved from the timer queue to the ready queue.\<close>

lemma kinv_expire:
  assumes k: "kinv {} r s Q e" and q: "Q Qtimer = Some (map Thr (due @ rest))" and rs: "Q Qready = Some rs"
    and w: "wfl n p (Q(Qtimer \<mapsto> map Thr rest, Qready \<mapsto> enq_fold (pq_prio s) rs (map Thr due)))"
    and kp: "\<forall>z. loose Q z \<longrightarrow> n z = pq_next s z \<and> p z = pq_prev s z"
    and ok: "timer_ok ((expire_set due s)\<lparr>pq_next := n, pq_prev := p, systick := T\<rparr>) (map Thr rest)"
  shows "kinv {} r ((expire_set due s)\<lparr>pq_next := n, pq_prev := p, systick := T\<rparr>)
      (Q(Qtimer \<mapsto> map Thr rest, Qready \<mapsto> enq_fold (pq_prio s) rs (map Thr due))) e"
    (is "kinv {} r ?s ?Q e")
proof -
  have dist: "distinct (due @ rest)" using wfl_distinct [OF kinv_wfq [OF k] q] by (simp add: distinct_map) blast
  have dueq: "inq Q (Thr t) Qtimer" if "t \<in> set due" for t using that q by (auto simp: inq_def)
  have due: "inq ?Q (Thr t) q' \<longleftrightarrow> q' = Qready" if "t \<in> set due" for t q'
    using that dist dueq [OF that] inq_unique [OF kinv_wfq [OF k]] by (auto simp: inq_upd)
  have same: "inq ?Q y q' = inq Q y q'" if "y \<notin> Thr ` set due" for y q'
    using that q rs by (auto simp: inq_upd inq_here)
  have lo: "loose ?Q y = loose Q y" for y
  proof (cases "y \<in> Thr ` set due")
    case True
    then obtain t where t: "y = Thr t" "t \<in> set due" by auto
    then have "inq ?Q y Qready" "inq Q y Qtimer" using due dueq by simp_all
    then show ?thesis unfolding loose_inq by blast
  qed (simp add: loose_inq same)
  have "queues_ok ?s ?Q e"
    unfolding queues_ok_def
  proof (intro conjI allI impI)
    show "wfq ?s ?Q" using w by simp
    show "{Qready, Qtimer, Qjoin, Qintr} \<subseteq> dom ?Q" using k by (auto simp: kinv_def queues_ok_def)
    show "pq_parent ?s x = Some q'" if "inq ?Q x q'" for x q'
    proof (cases "x \<in> Thr ` set due")
      case True
      then show ?thesis using that due by (auto simp: expire_set_def)
    next
      case False
      then show ?thesis using that kinv_parent [OF k, of x q'] same by (auto simp: expire_set_def)
    qed
    show "t \<in> threads e" if "inq ?Q (Thr t) q'" for t q'
    proof (cases "t \<in> set due")
      case True
      then show ?thesis using kinv_thread [OF k dueq] by simp
    next
      case False
      then have "inq Q (Thr t) q'" using that same [of "Thr t"] by auto
      then show ?thesis by (rule kinv_thread [OF k])
    qed
    show "a \<in> proxies e" "px_queue q'" "px_waits (px_ready_p ?s a) (pd_ready ?s)" if "inq ?Q (Px a) q'" for a q'
    proof -
      have "inq Q (Px a) q'" using that same [of "Px a" q'] by auto
      then show "a \<in> proxies e" "px_queue q'" "px_waits (px_ready_p ?s a) (pd_ready ?s)"
        using kinv_px [OF k, of a q'] by (simp_all add: expire_set_def)
    qed
  qed
  moreover have "objects_ok ?s ?Q e"
    using k kp unfolding kinv_def objects_ok_def by (auto simp: lo expire_set_def selflinked_def)
  moreover have "order_ok ?s ?Q"
    using kinv_order [OF k] ok rs unfolding order_ok_def
    by (auto simp: expire_set_def prio_sorted_def intro: desc_enq_fold split: if_splits)
  moreover have "locks_ok ?s ?Q e"
    using k unfolding kinv_def locks_ok_def by (auto simp: expire_set_def)
  moreover have "thread_at r ?s ?Q e t" if t: "t \<in> threads e" for t
  proof (cases "t \<in> set due")
    case True
    then show ?thesis using due lo dueq [OF True]
      by (auto simp: thread_at_def expire_set_def loose_inq)
  next
    case False
    then have "inq ?Q (Thr t) q' = inq Q (Thr t) q'" for q' using same [of "Thr t"] by auto
    with False kinv_at [OF k t] lo show ?thesis by (auto simp: thread_at_def expire_set_def)
  qed
  ultimately show ?thesis by (simp add: kinv_def)
qed

lemma chx_timer_expired_ok:
  assumes ok: "kernel_ok s Q e" and m: "\<not> masked s"
  shows "\<exists>s' Q'. chx_timer_expired s = Some s' \<and> kernel_ok s' Q' e \<and> running s' = running s \<and>
    dom Q' = dom Q \<and> (prio_pend s e \<longrightarrow> prio_pend s' e)"
proof -
  have k: "kinv {} (running s) s Q e" using ok by (simp add: kernel_ok_def)
  obtain xs where q: "Q Qtimer = Some xs" using kinv_head [OF k] by blast
  obtain rs where r: "Q Qready = Some rs" using kinv_head [OF k] by blast
  obtain ts0 where ts0: "xs = map Thr ts0" using kinv_timer_threads [OF k q] by blast
  show ?thesis
  proof (cases ts0)
    case Nil
    then have "chx_timer_expired s = Some (chx_request_preemption 0 s)"
      using ll_pop_empty [OF kinv_wfq [OF k]] q ts0 by (simp add: chx_timer_expired_def)
    then show ?thesis using kernel_ok_request [OF ok]
      by (auto simp: prio_pend_def prio_top_def)
  next
    case (Cons t ts)
    have q': "Q Qtimer = Some (map Thr (t # ts))" using q ts0 Cons by simp
    obtain due rest n p T where d: "t # ts = due @ rest"
      and e: "chx_timer_expired s = Some (chx_request_preemption (prio_fold s 0 due)
        ((expire_set due s)\<lparr>pq_next := n, pq_prev := p, systick := T\<rparr>))"
      and w: "wfl n p (Q(Qtimer \<mapsto> map Thr rest, Qready \<mapsto> enq_fold (pq_prio s) rs (map Thr due)))"
      and kp: "\<forall>z. loose Q z \<longrightarrow> n z = pq_next s z \<and> p z = pq_prev s z"
      and abs: "timer_abs ((expire_set due s)\<lparr>pq_next := n, pq_prev := p, systick := T\<rparr>) (map Thr rest) =
        [(y, d) \<leftarrow> timer_abs (s\<lparr>systick := 0\<rparr>) (map Thr (t # ts)). d \<noteq> 0]"
      using chx_timer_expired_wfq [OF kinv_wfq [OF k] q' r] by blast
    let ?s1 = "(expire_set due s)\<lparr>pq_next := n, pq_prev := p, systick := T\<rparr>"
    let ?s' = "chx_request_preemption (prio_fold s 0 due) ?s1"
    have "timer_ok s (map Thr (t # ts))" using kinv_order [OF k] q' by (simp add: order_ok_def)
    then have "timer_ok ?s1 (map Thr rest)"
      using timer_del_ok [OF _ abs] timer_ok_expired by blast
    then have k1: "kinv {} (running s) ?s1
        (Q(Qtimer \<mapsto> map Thr rest, Qready \<mapsto> enq_fold (pq_prio s) rs (map Thr due))) e"
      using kinv_expire [OF k _ r w kp] q' d by simp
    have run: "running ?s1 = running s" "masked ?s1 = masked s" "pq_prio ?s1 = pq_prio s"
      "flag_sched_rr ?s1 = flag_sched_rr s" "pendsv ?s1 = pendsv s"
      by (simp_all add: expire_set_def)
    have "kernel_ok ?s' (Q(Qtimer \<mapsto> map Thr rest, Qready \<mapsto> enq_fold (pq_prio s) rs (map Thr due))) e"
      unfolding kernel_ok_def
    proof (intro conjI allI impI)
      fix u assume "running ?s' = Some u"
      then have u: "running s = Some u" using run by simp
      show "u \<in> threads e" using ok u by (simp add: kernel_ok_def)
      show "th_state ?s' u = THREAD_RUNNING \<or>
          th_state ?s' u = THREAD_READY \<and> flag_sched_rr ?s' u \<and> pendsv ?s' \<and> \<not> masked ?s'"
      proof (cases "u \<in> set due")
        case True
        then have "inq Q (Thr u) Qtimer" using q' d by (simp add: inq_def)
        then have "allowed (th_state s u) (flag_sched_rr s u) Qtimer" using kinv_inq [OF k] by blast
        then have "flag_sched_rr s u" using ok u by (auto simp: kernel_ok_def)
        moreover have "?s' = ?s1\<lparr>pendsv := True\<rparr>"
          unfolding prio_fold_running [OF u True] by (rule request_MAX_PRIO)
        ultimately show ?thesis using True m run by (simp add: expire_set_def)
      next
        case False
        then show ?thesis using ok u m run
          by (auto simp: kernel_ok_def expire_set_def chx_request_preemption_def)
      qed
    qed (use k1 run ok in \<open>auto simp: kernel_ok_def\<close>)
    moreover have "prio_pend ?s' e" if "prio_pend s e"
    proof (cases "pendsv ?s'")
      case False
      then have np: "\<not> pendsv s" and "running s \<noteq> None"
        using run by (auto simp: chx_request_preemption_def split: if_splits)
      then obtain v where v: "running s = Some v" by auto
      have le: "prio_fold s 0 due \<le> ucast (pq_prio s (Thr v))"
        using False v run by (auto simp: chx_request_preemption_def not_less cur_def split: if_splits)
      have "pq_prio s (Thr u) \<le> pq_prio s (Thr v)" if "u \<in> threads e" "th_state ?s1 u = THREAD_READY" for u
      proof (cases "u \<in> set due")
        case True
        then have "(ucast (pq_prio s (Thr u)) :: u16) \<le> ucast (pq_prio s (Thr v))"
          using prio_fold_ge [of u due s 0] le by (auto intro: order_trans)
        then show ?thesis by (simp add: word_le_nat_alt ucast_u8_u16)
      next
        case False
        then show ?thesis using that np v \<open>prio_pend s e\<close>
          by (auto simp: prio_pend_def prio_top_def expire_set_def)
      qed
      then show ?thesis using v run by (auto simp: prio_pend_def prio_top_def)
    qed (simp add: prio_pend_def)
    moreover have "dom (Q(Qtimer \<mapsto> map Thr rest, Qready \<mapsto> enq_fold (pq_prio s) rs (map Thr due))) = dom Q"
      using q r by auto
    ultimately show ?thesis using e run
      by (intro exI [of _ ?s'] exI [of _ "Q(Qtimer \<mapsto> map Thr rest, Qready \<mapsto> enq_fold (pq_prio s) rs (map Thr due))"])
        simp
  qed
qed

section \<open>Blocking\<close>

text \<open>
  A thread in flight enters a queue other than the timer's, with the state and the value
  its caller gives it.
\<close>

lemma kinv_block:
  assumes k: "kinv X r s Q e" and t: "t \<in> threads e" "t \<in> X" and q: "Q q = Some xs" "q \<noteq> Qtimer"
    and al: "allowed st (flag_sched_rr s t) q" and v: "st = THREAD_WAIT_EXIT \<Longrightarrow> v \<in> threads e"
  shows "\<exists>n p. ll_prio_enqueue (Thr t) q s =
      Some (s\<lparr>pq_parent := (pq_parent s)(Thr t := Some q), pq_next := n, pq_prev := p\<rparr>) \<and>
    kinv (X - {t}) r (s\<lparr>pq_parent := (pq_parent s)(Thr t := Some q), pq_next := n, pq_prev := p,
        pq_v := (pq_v s)(Thr t := v), th_state := (th_state s)(t := st)\<rparr>)
      (Q(q \<mapsto> enq_list (pq_prio s) (Thr t) xs)) e"
proof -
  have w: "wfq s Q" using kinv_wfq [OF k] .
  have lo: "loose Q (Thr t)" using kinv_loose [OF k t] .
  obtain n p where e: "ll_prio_enqueue (Thr t) q s =
      Some (s\<lparr>pq_parent := (pq_parent s)(Thr t := Some q), pq_next := n, pq_prev := p\<rparr>)"
    and w': "wfl n p (Q(q \<mapsto> enq_list (pq_prio s) (Thr t) xs))" and kp: "keeps s Q {Thr t} n p"
    using ll_prio_enqueue_wfq [OF w q(1) lo] by blast
  let ?Q = "Q(q \<mapsto> enq_list (pq_prio s) (Thr t) xs)"
  let ?s = "s\<lparr>pq_parent := (pq_parent s)(Thr t := Some q), pq_next := n, pq_prev := p,
        pq_v := (pq_v s)(Thr t := v), th_state := (th_state s)(t := st)\<rparr>"
  have "kinv (X - {t}) r ?s ?Q e"
  proof (rule kinv_move [OF k t(1)])
    show "inq ?Q y q' = inq Q y q'" if "y \<noteq> Thr t" for y q'
      using that q by (auto simp: inq_upd inq_here)
    show "pq_parent ?s (Thr t) = Some q'" if "inq ?Q (Thr t) q'" for q'
      using that lo by (auto simp: inq_upd loose_inq split: if_splits)
    have "order_ok (s\<lparr>pq_v := (pq_v s)(Thr t := v)\<rparr>) Q"
      by (rule kinv_order [OF kinv_set_v [OF k]]) (use lo t in \<open>auto simp: loose_inq\<close>)
    then have "order_ok (s\<lparr>pq_v := (pq_v s)(Thr t := v)\<rparr>) ?Q"
      using order_ok_upd [of "s\<lparr>pq_v := (pq_v s)(Thr t := v)\<rparr>" Q "s\<lparr>pq_v := (pq_v s)(Thr t := v)\<rparr>" q]
        q(2) order_okD [OF kinv_order [OF k] q(1)] by (simp add: desc_enq_list)
    then show "order_ok ?s ?Q"
      using timer_abs_cong [of ?s "s\<lparr>pq_v := (pq_v s)(Thr t := v)\<rparr>"]
      by (simp add: order_ok_def timer_ok_def)
    have "\<not> loose ?Q (Thr t)" by (auto simp: loose_inq inq_upd)
    then show "if t \<in> X - {t} then loose ?Q (Thr t) else thread_at r ?s ?Q e t"
      using lo al v q(2) by (cases st) (auto simp: thread_at_def inq_upd loose_inq split: if_splits)
  qed (use w' kp q in \<open>auto simp: dom_upd_same keeps_def\<close>)
  with e show ?thesis by blast
qed

text \<open>The running thread blocks: it leaves its time slice, enters \<open>q\<close>, and another one runs.\<close>

lemma block_running:
  assumes k: "kinv {t} (Some t) s Q e" and t: "t \<in> threads e" and q: "Q q = Some xs" "q \<noteq> Qtimer"
    and al: "allowed st (flag_sched_rr s t) q" and v: "st = THREAD_WAIT_EXIT \<Longrightarrow> v \<in> threads e"
    and nr: "st \<noteq> THREAD_RUNNING"
  shows "\<exists>n p Q'. ll_prio_enqueue (Thr t) q s =
      Some (s\<lparr>pq_parent := (pq_parent s)(Thr t := Some q), pq_next := n, pq_prev := p\<rparr>) \<and>
    kinv {} None (s\<lparr>pq_parent := (pq_parent s)(Thr t := Some q), pq_next := n, pq_prev := p,
        pq_v := (pq_v s)(Thr t := v), th_state := (th_state s)(t := st)\<rparr>) Q' e \<and>
    Q' = Q(q \<mapsto> enq_list (pq_prio s) (Thr t) xs)"
proof -
  obtain n p where "ll_prio_enqueue (Thr t) q s =
      Some (s\<lparr>pq_parent := (pq_parent s)(Thr t := Some q), pq_next := n, pq_prev := p\<rparr>)"
    and k': "kinv ({t} - {t}) (Some t) (s\<lparr>pq_parent := (pq_parent s)(Thr t := Some q), pq_next := n, pq_prev := p,
        pq_v := (pq_v s)(Thr t := v), th_state := (th_state s)(t := st)\<rparr>)
      (Q(q \<mapsto> enq_list (pq_prio s) (Thr t) xs)) e"
    using kinv_block [OF k t _ q al v] by auto
  moreover have "kinv {} None (s\<lparr>pq_parent := (pq_parent s)(Thr t := Some q), pq_next := n, pq_prev := p,
        pq_v := (pq_v s)(Thr t := v), th_state := (th_state s)(t := st)\<rparr>)
      (Q(q \<mapsto> enq_list (pq_prio s) (Thr t) xs)) e"
    by (rule kinv_not_running [of t]) (use k' nr in simp_all)
  ultimately show ?thesis by blast
qed

section \<open>An interrupt wakes the thread that polls for it\<close>

lemma chx_handle_intr_wakes:
  assumes ok: "kernel_ok s Q e" and q: "Q Qintr = Some xs"
    and x: "find (\<lambda>y. pq_v s y = ucast irq) xs = Some (Px a)" and d: "px_ready_p s a = Some d"
  shows "\<exists>s'. chx_handle_intr irq s = Some s' \<and> pd_ready s' d = 1 \<and>
    counter s' (px_counter_p s a) = counter s (px_counter_p s a) + 1 \<and>
    th_state s' (px_master s a) \<noteq> THREAD_WAIT_POLL \<and> \<not> nvic_enabled s' irq"
proof -
  let ?s0 = "chx_disable_intr irq s"
  have k0: "kinv {} (running s) ?s0 Q e" using ok by (auto simp: kernel_ok_def chx_disable_intr_def)
  have x0: "find (\<lambda>y. pq_v ?s0 y = ucast irq) xs = Some (Px a)" and d0: "px_ready_p ?s0 a = Some d"
    using x d by (simp_all add: chx_disable_intr_def)
  have m: "Px a \<in> set xs" using find_mem [OF x0] by simp
  note seek = seek_v_wfq [OF kinv_wfq [OF k0] q, of "ucast irq"]
  obtain y s' Q' where e1: "chx_wakeup (Px a) (ll_dequeue (Px a) ?s0) = Some (y, s')"
    and w: "woken y ?s0 s'"
    and c: "\<forall>b d. Px a = Px b \<longrightarrow> px_ready_p ?s0 b = Some d \<longrightarrow> pd_ready s' d = 1 \<and>
       counter s' (px_counter_p ?s0 b) = counter ?s0 (px_counter_p ?s0 b) + 1 \<and>
       th_state s' (px_master ?s0 b) \<noteq> THREAD_WAIT_POLL"
    using wake_from_queue [OF k0 q m] by auto
  let ?s2 = "chx_request_preemption (ucast (pq_prio s' (Thr (px_master s' (node_addr (Px a)))))) s'"
  have "chx_handle_intr irq s = Some ?s2" using seek x0 e1 by (simp add: chx_handle_intr_def)
  moreover have "pd_ready s' d = 1" "counter s' (px_counter_p s a) = counter s (px_counter_p s a) + 1"
      "th_state s' (px_master s a) \<noteq> THREAD_WAIT_POLL"
    using c d0 by (simp_all add: chx_disable_intr_def)
  moreover have "nvic_enabled s' = nvic_enabled ?s0" by (simp add: wokenD [OF w])
  ultimately show ?thesis
    by (intro exI [of _ ?s2]) (simp add: chx_request_preemption_def, simp add: chx_disable_intr_def)
qed

end
