(* ===== verification/Boot.thy ===== *)
theory Boot
  imports Kernel_Events
begin

text \<open>
  Starting the kernel: \<open>chx_init\<close> and \<open>chx_systick_init\<close> of \<open>chopstx.c\<close>, called from the reset
  handler with the memory of the main thread. The configuration macros \<open>CHX_FLAGS_MAIN\<close> and
  \<open>CHX_PRIO_MAIN_INIT\<close> are parameters. \<open>chx_prio_init\<close> and \<open>chx_init_arch\<close> set interrupt
  priorities and clear the register save area; neither is in the model's state.
\<close>

definition CHOPSTX_DETACHED :: u32 where "CHOPSTX_DETACHED = 0x10000"
definition CHOPSTX_SCHED_RR :: u32 where "CHOPSTX_SCHED_RR = 0x20000"

definition init_head :: "ptr \<Rightarrow> 'z kst_scheme \<Rightarrow> 'z kst_scheme" where
  "init_head q s = s\<lparr>pq_next := (pq_next s)(q := q), pq_prev := (pq_prev s)(q := q)\<rparr>"

definition chx_init :: "u32 \<Rightarrow> u8 \<Rightarrow> tid \<Rightarrow> 'z kst_scheme \<Rightarrow> 'z kst_scheme" where
  "chx_init flags prio tp s =
     (let s = init_head Qready s; s = init_head Qtimer s;
          s = init_head Qjoin s; s = init_head Qintr s;
          s = init_head (Thr tp) s;
          s = s\<lparr>mutex_list := (mutex_list s)(tp := None),
                th_clp := (th_clp s)(tp := None),
                th_state := (th_state s)(tp := THREAD_RUNNING),
                flag_got_cancel := (flag_got_cancel s)(tp := False),
                flag_join_req := (flag_join_req s)(tp := False),
                flag_cancelable := (flag_cancelable s)(tp := True),
                flag_sched_rr := (flag_sched_rr s)(tp := (flags AND CHOPSTX_SCHED_RR \<noteq> 0)),
                flag_detached := (flag_detached s)(tp := (flags AND CHOPSTX_DETACHED \<noteq> 0)),
                pq_is_proxy := (pq_is_proxy s)(Thr tp := False),
                prio_orig := (prio_orig s)(tp := prio),
                pq_prio := (pq_prio s)(Thr tp := 0),
                pq_parent := (pq_parent s)(Thr tp := None),
                pq_v := (pq_v s)(Thr tp := 0),
                running := Some tp\<rparr>;
          s = (if CHOPSTX_PRIO_INHIBIT_PREEMPTION \<le> prio then chx_cpu_sched_lock s else s)
      in s\<lparr>pq_prio := (pq_prio s)(Thr tp := prio)\<rparr>)"

definition chx_systick_init :: "u32 \<Rightarrow> 'z kst_scheme \<Rightarrow> 'z kst_scheme option" where
  "chx_systick_init flags s =
     (let s = chx_systick_reset s in
      if flags AND CHOPSTX_SCHED_RR \<noteq> 0 then do {
        let s = chx_cpu_sched_lock s;
        s \<leftarrow> chx_timer_insert (cur s) PREEMPTION_USEC s;
        Some (chx_cpu_sched_unlock s) }
      else Some s)"

section \<open>The kernel after start-up\<close>

lemma init_head_simps [simp]:
  "pq_next (init_head q s) = (pq_next s)(q := q)" "pq_prev (init_head q s) = (pq_prev s)(q := q)"
  "masked (init_head q s) = masked s" "systick (init_head q s) = systick s"
  "pendsv (init_head q s) = pendsv s" "mtx_owner (init_head q s) = mtx_owner s"
  "running (init_head q s) = running s"
  by (simp_all add: init_head_def)

definition boot_queues :: "ptr \<rightharpoonup> ptr list" where
  "boot_queues = [Qready \<mapsto> [], Qtimer \<mapsto> [], Qjoin \<mapsto> [], Qintr \<mapsto> []]"

definition boot_env :: "tid \<Rightarrow> env" where
  "boot_env tp = \<lparr>threads = {tp}, proxies = {}, held = (\<lambda>t. [])\<rparr>"

lemma boot_queues_inq [simp]: "\<not> inq boot_queues x q"
  by (simp add: inq_def boot_queues_def)

lemma boot_queues_loose [simp]: "loose boot_queues x = is_node x"
  by (simp add: loose_inq)

lemma boot_queues_some: "boot_queues q = Some xs \<longleftrightarrow> xs = [] \<and> q \<in> {Qready, Qtimer, Qjoin, Qintr}"
  by (auto simp: boot_queues_def)

lemma chx_init_fields:
  fixes s :: "'z kst_scheme" and flags :: u32 and prio :: u8 and tp :: tid
  defines "s' \<equiv> chx_init flags prio tp s"
  shows "pq_next s' q = (if q \<in> {Qready, Qtimer, Qjoin, Qintr, Thr tp} then q else pq_next s q)"
    and "pq_prev s' q = (if q \<in> {Qready, Qtimer, Qjoin, Qintr, Thr tp} then q else pq_prev s q)"
    and "th_state s' tp = THREAD_RUNNING" and "running s' = Some tp"
    and "flag_sched_rr s' tp = (flags AND CHOPSTX_SCHED_RR \<noteq> 0)"
    and "\<not> pq_is_proxy s' (Thr tp)" and "mutex_list s' tp = None"
    and "pq_prio s' (Thr tp) = prio" and "systick s' = systick s"
    and "masked s' = (if 247 < prio then True else masked s)" and "pendsv s' = pendsv s"
    and "mtx_owner s' = mtx_owner s" and "pq_parent s' (Thr tp) = None"
proof -
  have c: "CHOPSTX_PRIO_INHIBIT_PREEMPTION \<le> prio \<longleftrightarrow> 247 < prio"
    using prio_248 [of prio] by (simp add: CHOPSTX_PRIO_INHIBIT_PREEMPTION_def not_less)
  have c0: "0 < CHOPSTX_PRIO_INHIBIT_PREEMPTION" by (simp add: CHOPSTX_PRIO_INHIBIT_PREEMPTION_def)
  note d = s'_def chx_init_def Let_def c c0 chx_cpu_sched_lock_def
  show "pq_next s' q = (if q \<in> {Qready, Qtimer, Qjoin, Qintr, Thr tp} then q else pq_next s q)"
    "pq_prev s' q = (if q \<in> {Qready, Qtimer, Qjoin, Qintr, Thr tp} then q else pq_prev s q)"
    by (simp_all add: d)
  show "th_state s' tp = THREAD_RUNNING" "running s' = Some tp"
    "flag_sched_rr s' tp = (flags AND CHOPSTX_SCHED_RR \<noteq> 0)"
    "\<not> pq_is_proxy s' (Thr tp)" "mutex_list s' tp = None"
    "pq_prio s' (Thr tp) = prio" "systick s' = systick s"
    "masked s' = (if 247 < prio then True else masked s)" "pendsv s' = pendsv s"
    "mtx_owner s' = mtx_owner s" "pq_parent s' (Thr tp) = None"
    by (simp_all add: d)
qed

text \<open>The invariant holds for the main thread, still to be put into the timer queue if it is RR.\<close>

lemma chx_init_kinv:
  assumes "tp \<noteq> 0"
  shows "kinv {tp} (Some tp) (chx_init flags prio tp s) boot_queues (boot_env tp)"
proof -
  let ?s = "chx_init flags prio tp s"
  have "wfl (pq_next ?s) (pq_prev ?s) boot_queues"
    by (auto simp: wfl_def boot_queues_some dll_def chx_init_fields)
  then show ?thesis using assms
    by (auto simp: kinv_defs boot_queues_some boot_env_def boot_queues_def [THEN arg_cong [where f = dom]]
        chx_init_fields timer_ok_def timer_abs_def px_distinct_def)
qed

lemma boot_ok:
  assumes tp: "tp \<noteq> 0" and m: "\<not> masked s"
  shows "\<exists>s' Q. chx_systick_init flags (chx_init flags prio tp s) = Some s' \<and>
    on_cpu tp s' Q (boot_env tp) \<and> dom Q = dom boot_queues \<and> prio_top s' (boot_env tp)"
proof -
  let ?i = "chx_init flags prio tp s"
  let ?s0 = "chx_systick_reset ?i"
  have f: "running ?s0 = Some tp" "th_state ?s0 tp = THREAD_RUNNING" "masked ?s0 = (247 < prio)"
    "pq_prio ?s0 (Thr tp) = prio" "flag_sched_rr ?s0 tp = (flags AND CHOPSTX_SCHED_RR \<noteq> 0)"
    "pq_parent ?s0 (Thr tp) = None"
    using m by (simp_all add: chx_init_fields chx_systick_reset_def)
  have "timer_ok ?s0 []" by (simp add: timer_ok_def timer_abs_def)
  then have k: "kinv {tp} (Some tp) ?s0 boot_queues (boot_env tp)"
    using chx_init_kinv [OF tp, of flags prio s]
    unfolding kinv_def queues_ok_def objects_ok_def order_ok_def locks_ok_def
    by (auto simp: boot_queues_some chx_systick_reset_def selflinked_def thread_at_def split: if_splits)
  have t: "tp \<in> threads (boot_env tp)" by (simp add: boot_env_def)
  show ?thesis
  proof (cases "flags AND CHOPSTX_SCHED_RR \<noteq> 0")
    case False
    have "kinv ({tp} - {tp}) (Some tp) ?s0 boot_queues (boot_env tp)"
      by (rule kinv_land [OF k t]) (use f False in auto)
    then have "on_cpu tp ?s0 boot_queues (boot_env tp)"
      using f t by (simp add: on_cpu_def kernel_ok_def)
    then show ?thesis using False f
      by (intro exI [of _ ?s0] exI [of _ boot_queues])
        (simp add: chx_systick_init_def prio_top_def boot_env_def)
  next
    case True
    let ?s1 = "?s0\<lparr>masked := True\<rparr>"
    have l: "chx_cpu_sched_lock ?s0 = ?s1"
    proof (cases "247 < prio")
      case True
      then have "?s1 = ?s0" using f(3) by (cases ?s0) simp
      then show ?thesis using True f prio_248 [of prio]
        by (simp add: chx_cpu_sched_lock_def CHOPSTX_PRIO_INHIBIT_PREEMPTION_def)
    next
      case False
      then show ?thesis using f prio_248 [of prio]
        by (simp add: chx_cpu_sched_lock_def CHOPSTX_PRIO_INHIBIT_PREEMPTION_def)
    qed
    have k1: "kinv {tp} (Some tp) ?s1 boot_queues (boot_env tp)" using k by simp
    have u: "unat (usec_to_ticks PREEMPTION_USEC) < 2 ^ 24"
      by (simp add: usec_to_ticks_def PREEMPTION_USEC_def MHZ_def)
    obtain n p v c Q' where e1: "chx_timer_insert tp PREEMPTION_USEC ?s1 =
        Some (?s1\<lparr>pq_parent := (pq_parent ?s1)(Thr tp := Some Qtimer), pq_v := v, systick := c,
              pq_next := n, pq_prev := p\<rparr>)" (is "_ = Some ?s2")
      and k2: "kinv ({tp} - {tp}) (Some tp) (?s1\<lparr>pq_parent := (pq_parent ?s1)(Thr tp := Some Qtimer), pq_v := v,
              systick := c, pq_next := n, pq_prev := p\<rparr>) Q' (boot_env tp)"
      and Q': "\<forall>q. q \<noteq> Qtimer \<longrightarrow> Q' q = boot_queues q"
      using kinv_timer_insert [OF k1 t _ u] f True by auto
    have "locked tp ?s2 Q' (boot_env tp)" using k2 f t by (simp add: locked_def)
    from locked_unlock [OF this] have on: "on_cpu tp (chx_cpu_sched_unlock ?s2) Q' (boot_env tp)" .
    have "dom Q' = dom boot_queues"
      by (rule dom_change_one [OF Q']) (use kinv_head [OF k2] in \<open>simp_all add: boot_queues_some\<close>)
    moreover have "prio_top (chx_cpu_sched_unlock ?s2) (boot_env tp)"
      using on by (simp add: prio_top_def boot_env_def on_cpu_def)
    moreover have "chx_systick_init flags ?i = Some (chx_cpu_sched_unlock ?s2)"
      using True l e1 f by (simp add: chx_systick_init_def Let_def)
    ultimately show ?thesis using on by blast
  qed
qed

section \<open>New queues\<close>

text \<open>Initialising a mutex or a condition variable adds an empty queue.\<close>

lemma kinv_new_queue:
  assumes k: "kinv X r s Q e" and q: "Q q = None" "\<not> is_node q"
    and m: "\<And>m. q = Mtxq m \<Longrightarrow> mtx_owner s m = None"
  shows "kinv X r (init_head q s) (Q(q \<mapsto> [])) e"
proof -
  let ?s = "init_head q s" and ?Q = "Q(q \<mapsto> [])"
  have inq: "inq ?Q x q' = inq Q x q'" for x q' using q by (simp add: inq_def)
  have lo: "loose ?Q x = loose Q x" for x by (simp add: loose_inq inq)
  have w: "wfl (pq_next ?s) (pq_prev ?s) ?Q"
  proof -
    have "dll (pq_next ?s) (pq_prev ?s) q' xs = dll (pq_next s) (pq_prev s) q' xs"
      if "Q q' = Some xs" "q' \<noteq> q" for q' xs
      using that wfl_node [OF kinv_wfq [OF k] that(1), of q] q
      by (intro dll_cong) (auto simp: init_head_def)
    with kinv_wfq [OF k] q show ?thesis
      unfolding wfl_def by (auto simp: dll_def init_head_def)
  qed
  have tm: "timer_ok ?s xs = timer_ok s xs" for xs
    by (simp add: timer_ok_def timer_abs_def tval_def [abs_def] init_head_def cong: if_cong)
  have th: "thread_at r ?s ?Q e t = thread_at r s Q e t" for t
    by (simp add: thread_at_def inq lo init_head_def)
  have nq: "q \<notin> {Qready, Qtimer, Qjoin, Qintr}" using k q(1) by (auto simp: kinv_def queues_ok_def)
  have free: "m \<notin> set (held e t)" if "q = Mtxq m" "t \<in> threads e" for m t
    using k q that unfolding kinv_def locks_ok_def by (metis domIff)
  have "queues_ok ?s ?Q e" using k w unfolding kinv_def queues_ok_def inq by (auto simp: init_head_def)
  moreover have "objects_ok ?s ?Q e"
    using k q(2) unfolding kinv_def objects_ok_def lo by (auto simp: selflinked_def init_head_def)
  moreover have "order_ok ?s ?Q"
    using kinv_order [OF k] nq unfolding order_ok_def tm by (auto simp: init_head_def)
  moreover have "locks_ok ?s ?Q e"
    using k m free unfolding kinv_def locks_ok_def by (auto simp: init_head_def)
  ultimately show ?thesis using k th lo by (simp add: kinv_def)
qed

lemma on_cpu_new_queue:
  assumes on: "on_cpu t s Q e" and q: "Q q = None" "\<not> is_node q"
    and m: "\<And>m. q = Mtxq m \<Longrightarrow> mtx_owner s m = None"
  shows "on_cpu t (init_head q s) (Q(q \<mapsto> [])) e"
proof -
  have "kinv {} (Some t) (init_head q s) (Q(q \<mapsto> [])) e"
    by (rule kinv_new_queue [OF on_cpu_kinv [OF on] q m])
  then show ?thesis using on by (auto simp: on_cpu_def kernel_ok_def init_head_def)
qed

end
