(* ===== verification/Mutex.thy ===== *)
theory Mutex
  imports Boot
begin

text \<open>
  Mutexes (\<open>chopstx_mutex_init\<close>, \<open>chopstx_mutex_lock\<close>, \<open>chx_mutex_unlock\<close>,
  \<open>chopstx_mutex_unlock\<close>) with priority inheritance (\<open>requeue\<close> and the loop of
  \<open>chopstx_mutex_lock\<close>). A call that sleeps is cut at \<open>chx_sched\<close>: the model's
  \<open>chopstx_mutex_lock\<close> is one round of the source's \<open>while (1)\<close>, and says whether the mutex was
  acquired or the thread slept and has to try again.
\<close>

section \<open>The operations\<close>

definition chopstx_mutex_init :: "mid \<Rightarrow> 'z kst_scheme \<Rightarrow> 'z kst_scheme" where
  "chopstx_mutex_init m s =
     s\<lparr>pq_next := (pq_next s)(Mtxq m := Mtxq m), pq_prev := (pq_prev s)(Mtxq m := Mtxq m),
       mtx_list := (mtx_list s)(m := None), mtx_owner := (mtx_owner s)(m := None)\<rparr>"

text \<open>\<open>ll_prio_enqueue (ll_dequeue (tp), tp->parent)\<close>\<close>

definition relink :: "tid \<Rightarrow> 'z kst_scheme \<Rightarrow> 'z kst_scheme option" where
  "relink tp s = do {
     q \<leftarrow> pq_parent s (Thr tp);
     ll_prio_enqueue (Thr tp) q (ll_dequeue (Thr tp) s) }"

text \<open>
  \<open>requeue\<close>: after a change of priority; the result is the thread that can wake up \<open>tp\<close>, if
  it is known. A null pointer dereference is \<open>None\<close>.
\<close>

definition requeue :: "tid \<Rightarrow> 'z kst_scheme \<Rightarrow> (tid option \<times> 'z kst_scheme) option" where
  "requeue tp s =
     (if th_state s tp = THREAD_READY then do {
        s \<leftarrow> relink tp s;
        Some (None, s) }
      else if th_state s tp = THREAD_WAIT_MTX then do {
        m \<leftarrow> mtx_of (pq_parent s (Thr tp));
        s \<leftarrow> relink tp s;
        Some (mtx_owner s m, s) }
      else if th_state s tp = THREAD_WAIT_CND then do {
        s \<leftarrow> relink tp s;
        Some (None, s) }
      else if th_state s tp = THREAD_WAIT_EXIT then
        Some (if pq_v s (Thr tp) = 0 then None else Some (pq_v s (Thr tp)), s)
      else Some (None, s))"

text \<open>The priority inheritance loop of \<open>chopstx_mutex_lock\<close>.\<close>

partial_function (option) mutex_pi :: "tid \<Rightarrow> tid option \<Rightarrow> 'z kst_scheme \<Rightarrow> 'z kst_scheme option" where
  "mutex_pi tp tp0 s =
     (case tp0 of
        None \<Rightarrow> Some s
      | Some t0 \<Rightarrow>
          if pq_prio s (Thr t0) < pq_prio s (Thr tp) then do {
            let s = s\<lparr>pq_prio := (pq_prio s)(Thr t0 := pq_prio s (Thr tp))\<rparr>;
            if th_state s t0 = THREAD_WAIT_TIME \<or> th_state s t0 = THREAD_WAIT_POLL then do {
              (v, s) \<leftarrow> (if pq_parent s (Thr t0) = Some Qtimer then chx_timer_dequeue t0 s
                         else Some (1, s));
              let s = s\<lparr>pq_v := (pq_v s)(Thr t0 := v)\<rparr>;
              s \<leftarrow> chx_ready_enqueue t0 s;
              mutex_pi tp None s }
            else do {
              (t1, s) \<leftarrow> requeue t0 s;
              mutex_pi tp t1 s } }
          else Some s)"

definition chopstx_mutex_lock :: "mid \<Rightarrow> 'z kst_scheme \<Rightarrow> (bool \<times> 'z kst_scheme) option" where
  "chopstx_mutex_lock m s = do {
     let tp = cur s;
     let s = chx_cpu_sched_lock s;
     if mtx_owner s m = None then
       (let s = s\<lparr>mtx_owner := (mtx_owner s)(m := Some tp),
                  mtx_list := (mtx_list s)(m := mutex_list s tp),
                  mutex_list := (mutex_list s)(tp := Some m)\<rparr>
        in Some (True, chx_cpu_sched_unlock s))
     else do {
       s \<leftarrow> mutex_pi tp (mtx_owner s m) s;
       s \<leftarrow> rr_stop tp s;
       s \<leftarrow> ll_prio_enqueue (Thr tp) (Mtxq m) s;
       let s = s\<lparr>th_state := (th_state s)(tp := THREAD_WAIT_MTX)\<rparr>;
       s \<leftarrow> chx_sched CHX_SLEEP s;
       Some (False, s) } }"

text \<open>The loop of \<open>chx_mutex_unlock\<close> over the mutexes still held.\<close>

partial_function (option) held_prio :: "mid option \<Rightarrow> u16 \<Rightarrow> 'z kst_scheme \<Rightarrow> u16 option" where
  "held_prio mo newprio s =
     (case mo of
        None \<Rightarrow> Some newprio
      | Some m \<Rightarrow>
          held_prio (mtx_list s m)
            (if \<not> ll_empty (Mtxq m) s \<and> newprio < ucast (pq_prio s (pq_next s (Mtxq m)))
             then ucast (pq_prio s (pq_next s (Mtxq m))) else newprio) s)"

definition chx_mutex_unlock :: "mid \<Rightarrow> 'z kst_scheme \<Rightarrow> (u8 \<times> 'z kst_scheme) option" where
  "chx_mutex_unlock m s = do {
     let s = s\<lparr>mtx_owner := (mtx_owner s)(m := None)\<rparr>;
     let s = s\<lparr>mutex_list := (mutex_list s)(cur s := mtx_list s m)\<rparr>;
     let s = s\<lparr>mtx_list := (mtx_list s)(m := None)\<rparr>;
     (case ll_pop (Mtxq m) s of
        (None, s) \<Rightarrow> Some (0, s)
      | (Some p, s) \<Rightarrow> do {
          let tp = node_addr p;
          let s = s\<lparr>pq_v := (pq_v s)(Thr tp := 0)\<rparr>;
          s \<leftarrow> chx_ready_enqueue tp s;
          newprio \<leftarrow> held_prio (mutex_list s (cur s)) (ucast (prio_orig s (cur s))) s;
          let s = s\<lparr>pq_prio := (pq_prio s)(Thr (cur s) := ucast newprio)\<rparr>;
          Some (pq_prio s (Thr tp), s) }) }"

definition chopstx_mutex_unlock :: "mid \<Rightarrow> 'z kst_scheme \<Rightarrow> 'z kst_scheme option" where
  "chopstx_mutex_unlock m s = do {
     let s = chx_cpu_sched_lock s;
     (prio, s) \<leftarrow> chx_mutex_unlock m s;
     if pq_prio s (Thr (cur s)) < prio then chx_sched CHX_YIELD s
     else Some (chx_cpu_sched_unlock s) }"

section \<open>Requeueing\<close>

text \<open>A thread in a queue sorted by priority takes its place again after its priority was set.\<close>

lemma kinv_relink:
  assumes k: "kinv {} r s Q e" and iq: "inq Q (Thr t) q" and q: "prio_sorted q"
  shows "\<exists>n p Q'. relink t (s\<lparr>pq_prio := (pq_prio s)(Thr t := pr)\<rparr>) =
      Some (s\<lparr>pq_prio := (pq_prio s)(Thr t := pr), pq_next := n, pq_prev := p\<rparr>) \<and>
    kinv {} r (s\<lparr>pq_prio := (pq_prio s)(Thr t := pr), pq_next := n, pq_prev := p\<rparr>) Q' e \<and>
    dom Q' = dom Q"
proof -
  obtain xs where xs: "Q q = Some xs" "Thr t \<in> set xs" using iq by (auto simp: inq_def)
  have nt: "q \<noteq> Qtimer" using q by (auto simp: prio_sorted_def)
  have t: "t \<in> threads e" and al: "allowed (th_state s t) (flag_sched_rr s t) q"
    using kinv_inq [OF k iq] by auto
  have par: "pq_parent s (Thr t) = Some q" using kinv_parent [OF k iq] .
  let ?s1 = "s\<lparr>pq_prio := (pq_prio s)(Thr t := pr)\<rparr>"
  obtain n p where d: "ll_dequeue (Thr t) s = s\<lparr>pq_next := n, pq_prev := p\<rparr>"
    and k1: "kinv {t} r (s\<lparr>pq_next := n, pq_prev := p\<rparr>) (Q(q \<mapsto> remove1 (Thr t) xs)) e"
    using kinv_dequeue [OF k xs nt] by auto
  let ?Q1 = "Q(q \<mapsto> remove1 (Thr t) xs)"
  let ?s2 = "s\<lparr>pq_next := n, pq_prev := p, pq_prio := (pq_prio s)(Thr t := pr)\<rparr>"
  have d1: "ll_dequeue (Thr t) ?s1 = ?s2" by (simp add: ll_dequeue_frame [OF d])
  have lo: "loose ?Q1 (Thr t)" using kinv_loose [OF k1 t] by simp
  have k2: "kinv {t} r ?s2 ?Q1 e"
    using kinv_set_prio [OF k1, of "Thr t" pr] lo by (simp add: loose_inq)
  have nx: "th_state s t \<noteq> THREAD_WAIT_EXIT" using al q by (auto simp: prio_sorted_def)
  obtain n' p' where e: "ll_prio_enqueue (Thr t) q ?s2 =
      Some (?s2\<lparr>pq_parent := (pq_parent ?s2)(Thr t := Some q), pq_next := n', pq_prev := p'\<rparr>)"
    and k3: "kinv ({t} - {t}) r (?s2\<lparr>pq_parent := (pq_parent ?s2)(Thr t := Some q), pq_next := n', pq_prev := p',
        pq_v := (pq_v ?s2)(Thr t := pq_v s (Thr t)), th_state := (th_state ?s2)(t := th_state s t)\<rparr>)
      (?Q1(q \<mapsto> enq_list (pq_prio ?s2) (Thr t) (remove1 (Thr t) xs))) e"
    using kinv_block [OF k2 t _ _ nt, of "remove1 (Thr t) xs" "th_state s t" "pq_v s (Thr t)"] al nx by auto
  have "(pq_parent s)(Thr t := Some q) = pq_parent s" using par by (simp add: fun_upd_idem)
  then show ?thesis using e k3 d1 par xs
    by (intro exI [of _ n'] exI [of _ p'] exI [of _ "?Q1(q \<mapsto> enq_list (pq_prio ?s2) (Thr t) (remove1 (Thr t) xs))"])
      (auto simp: relink_def)
qed

text \<open>The thread another one waits for, where the kernel knows it.\<close>

definition waits_for :: "'z kst_scheme \<Rightarrow> tid \<Rightarrow> tid option" where
  "waits_for s u =
     (case th_state s u of
        THREAD_WAIT_MTX \<Rightarrow> (case mtx_of (pq_parent s (Thr u)) of None \<Rightarrow> None | Some m \<Rightarrow> mtx_owner s m)
      | THREAD_WAIT_EXIT \<Rightarrow> Some (pq_v s (Thr u))
      | _ \<Rightarrow> None)"

lemma waits_for_thread:
  assumes k: "kinv X r s Q e" and u: "u \<in> threads e" "u \<notin> X" and w: "waits_for s u = Some w"
  shows "w \<in> threads e"
proof (cases "th_state s u = THREAD_WAIT_MTX")
  case True
  then obtain m where m: "inq Q (Thr u) (Mtxq m)" "pq_parent s (Thr u) = Some (Mtxq m)"
    using kinv_queued [OF k u] by auto
  then have "Mtxq m \<in> dom Q" "mtx_owner s m = Some w"
    using w True by (auto simp: inq_def waits_for_def)
  then show ?thesis using k unfolding kinv_def locks_ok_def by blast
next
  case False
  then show ?thesis using kinv_at [OF k u] w
    by (auto simp: waits_for_def thread_at_def split: tstate.splits)
qed

lemma kinv_requeue:
  assumes k: "kinv {} r s Q e" and t: "t \<in> threads e"
    and st: "th_state s t \<notin> {THREAD_RUNNING, THREAD_WAIT_TIME, THREAD_WAIT_POLL}"
  shows "\<exists>t1 s' Q'. requeue t (s\<lparr>pq_prio := (pq_prio s)(Thr t := pr)\<rparr>) = Some (t1, s') \<and>
    kinv {} r s' Q' e \<and> dom Q' = dom Q \<and> qstep (s\<lparr>pq_prio := (pq_prio s)(Thr t := pr)\<rparr>) s' \<and>
    th_state s' = th_state s \<and> pq_parent s' = pq_parent s \<and> pq_v s' = pq_v s \<and> t1 = waits_for s t"
proof -
  let ?s1 = "s\<lparr>pq_prio := (pq_prio s)(Thr t := pr)\<rparr>"
  show ?thesis
  proof (cases "th_state s t \<in> {THREAD_READY, THREAD_WAIT_MTX, THREAD_WAIT_CND}")
    case True
    then obtain q where q: "inq Q (Thr t) q" "allowed (th_state s t) (flag_sched_rr s t) q"
        "pq_parent s (Thr t) = Some q"
      using kinv_queued [OF k t] by fastforce
    then have so: "prio_sorted q" using True by (auto simp: prio_sorted_def)
    obtain n p Q' where e: "relink t ?s1 =
        Some (s\<lparr>pq_prio := (pq_prio s)(Thr t := pr), pq_next := n, pq_prev := p\<rparr>)" (is "_ = Some ?s'")
      and k': "kinv {} r (s\<lparr>pq_prio := (pq_prio s)(Thr t := pr), pq_next := n, pq_prev := p\<rparr>) Q' e"
      and d: "dom Q' = dom Q"
      using kinv_relink [OF k q(1) so] by blast
    have "requeue t ?s1 = Some (waits_for s t, ?s')"
      using True e q by (auto simp: requeue_def waits_for_def)
    then show ?thesis using k' d
      by (intro exI [of _ "waits_for s t"] exI [of _ ?s'] exI [of _ Q']) (auto intro: qstepI)
  next
    case False
    have nq: "\<not> prio_sorted q" if "inq Q (Thr t) q" for q
      using kinv_inq [OF k that] False st by (cases "th_state s t") (auto simp: prio_sorted_def)
    have k1: "kinv {} r ?s1 Q e" by (rule kinv_set_prio [OF k nq])
    have "pq_v s (Thr t) \<noteq> 0" if "th_state s t = THREAD_WAIT_EXIT"
      using kinv_at [OF k t] that k by (auto simp: thread_at_def kinv_def objects_ok_def)
    then have "requeue t ?s1 = Some (waits_for s t, ?s1)"
      using False st by (cases "th_state s t") (auto simp: requeue_def waits_for_def)
    then show ?thesis using k1
      by (intro exI [of _ "waits_for s t"] exI [of _ ?s1] exI [of _ Q]) auto
  qed
qed

section \<open>Priority inheritance\<close>

text \<open>
  What the loop changes: it raises priorities to the one of the locking thread, and wakes
  threads that slept on the timer.
\<close>

definition inherits :: "tid \<Rightarrow> 'z kst_scheme \<Rightarrow> 'z kst_scheme \<Rightarrow> bool" where
  "inherits tp s s' \<longleftrightarrow> (\<exists>pr. qstep (s\<lparr>pq_prio := pr\<rparr>) s') \<and>
     (\<forall>x. pq_prio s' x \<noteq> pq_prio s x \<longrightarrow>
        pq_prio s x < pq_prio s (Thr tp) \<and> pq_prio s' x = pq_prio s (Thr tp)) \<and>
     (\<forall>u. th_state s' u \<noteq> th_state s u \<longrightarrow>
        th_state s u \<in> {THREAD_WAIT_TIME, THREAD_WAIT_POLL} \<and> th_state s' u = THREAD_READY)"

lemma inherits_refl [simp]: "inherits tp s s"
  by (auto simp: inherits_def intro!: exI [of _ "pq_prio s"])

lemma inherits_fields:
  assumes "inherits tp s s'"
  shows "flag_sched_rr s' = flag_sched_rr s" "running s' = running s" "masked s' = masked s"
    "pendsv s' = pendsv s" "mtx_owner s' = mtx_owner s" "mutex_list s' = mutex_list s"
    "mtx_list s' = mtx_list s" "prio_orig s' = prio_orig s"
    "flag_detached s' = flag_detached s" "flag_got_cancel s' = flag_got_cancel s"
    "flag_join_req s' = flag_join_req s" "flag_cancelable s' = flag_cancelable s"
proof -
  obtain pr where q: "qstep (s\<lparr>pq_prio := pr\<rparr>) s'" using assms by (auto simp: inherits_def)
  show "flag_sched_rr s' = flag_sched_rr s" "running s' = running s" "masked s' = masked s"
    "pendsv s' = pendsv s" "mtx_owner s' = mtx_owner s" "mutex_list s' = mutex_list s"
    "mtx_list s' = mtx_list s" "prio_orig s' = prio_orig s"
    "flag_detached s' = flag_detached s" "flag_got_cancel s' = flag_got_cancel s"
    "flag_join_req s' = flag_join_req s" "flag_cancelable s' = flag_cancelable s"
    using qstepD [OF q] by simp_all
qed

lemma inherits_raise:
  "inherits tp s s' \<Longrightarrow> pq_prio s' x \<noteq> pq_prio s x \<Longrightarrow>
   pq_prio s x < pq_prio s (Thr tp) \<and> pq_prio s' x = pq_prio s (Thr tp)"
  unfolding inherits_def by blast

lemma inherits_state:
  "inherits tp s s' \<Longrightarrow> th_state s' u \<noteq> th_state s u \<Longrightarrow>
   th_state s u \<in> {THREAD_WAIT_TIME, THREAD_WAIT_POLL} \<and> th_state s' u = THREAD_READY"
  unfolding inherits_def by blast

lemma inherits_self: "inherits tp s s' \<Longrightarrow> pq_prio s' (Thr tp) = pq_prio s (Thr tp)"
  using inherits_raise [of tp s s' "Thr tp"] by blast

lemma inherits_prio: "inherits tp s s' \<Longrightarrow> pq_prio s x \<le> pq_prio s' x"
  using inherits_raise [of tp s s' x] by fastforce

lemma inherits_trans:
  assumes a: "inherits tp s s'" and b: "inherits tp s' s''"
  shows "inherits tp s s''"
proof -
  obtain pr where q1: "qstep (s\<lparr>pq_prio := pr\<rparr>) s'" using a by (auto simp: inherits_def)
  obtain pr' where q2: "qstep (s'\<lparr>pq_prio := pr'\<rparr>) s''" using b by (auto simp: inherits_def)
  have "qstep (s\<lparr>pq_prio := pr'\<rparr>) (s'\<lparr>pq_prio := pr'\<rparr>)"
    using q1 by (intro qstepI) (auto simp: qstep_def)
  from qstep_trans [OF this q2] have "\<exists>pr. qstep (s\<lparr>pq_prio := pr\<rparr>) s''" by blast
  moreover have tp: "pq_prio s' (Thr tp) = pq_prio s (Thr tp)" by (rule inherits_self [OF a])
  have "pq_prio s x < pq_prio s (Thr tp) \<and> pq_prio s'' x = pq_prio s (Thr tp)"
    if "pq_prio s'' x \<noteq> pq_prio s x" for x
    using that inherits_raise [OF a, of x] inherits_raise [OF b, of x] tp
    by (cases "pq_prio s' x = pq_prio s x") auto
  moreover have "th_state s u \<in> {THREAD_WAIT_TIME, THREAD_WAIT_POLL} \<and> th_state s'' u = THREAD_READY"
    if "th_state s'' u \<noteq> th_state s u" for u
    using that inherits_state [OF a, of u] inherits_state [OF b, of u]
    by (cases "th_state s' u = th_state s u"; cases "th_state s'' u = th_state s' u") auto
  ultimately show ?thesis unfolding inherits_def by blast
qed

text \<open>
  A waiting thread never outranks the one it waits for. During the loop the thread \<open>w\<close> the
  loop looks at next may be the exception, outranked by a thread just raised.
\<close>

definition pi_except :: "tid option \<Rightarrow> u8 \<Rightarrow> 'z kst_scheme \<Rightarrow> env \<Rightarrow> bool" where
  "pi_except tp0 P s e \<longleftrightarrow> (\<forall>u \<in> threads e. \<forall>w. waits_for s u = Some w \<longrightarrow>
     pq_prio s (Thr u) \<le> pq_prio s (Thr w) \<or> tp0 = Some w \<and> pq_prio s (Thr u) \<le> P)"

abbreviation pi_ok :: "'z kst_scheme \<Rightarrow> env \<Rightarrow> bool" where
  "pi_ok s e \<equiv> pi_except None 0 s e"

lemma pi_except_done: "pi_except (Some w) P s e \<Longrightarrow> P \<le> pq_prio s (Thr w) \<Longrightarrow> pi_ok s e"
  by (fastforce simp: pi_except_def)

lemma pi_except_None: "pi_except None P s e = pi_ok s e"
  by (simp add: pi_except_def)

lemma pi_ok_except: "pi_ok s e \<Longrightarrow> pi_except tp0 P s e"
  by (auto simp: pi_except_def)

text \<open>One round of the loop.\<close>

lemma mutex_pi_round:
  assumes k: "kinv {} (Some tp) s Q e" and t0: "t0 \<in> threads e"
    and lt: "pq_prio s (Thr t0) < pq_prio s (Thr tp)"
  shows "\<exists>t1 s1 Q1. mutex_pi tp (Some t0) s = mutex_pi tp t1 s1 \<and>
    kinv {} (Some tp) s1 Q1 e \<and> dom Q1 = dom Q \<and> inherits tp s s1 \<and>
    pq_prio s1 = (pq_prio s)(Thr t0 := pq_prio s (Thr tp)) \<and>
    (\<forall>u. t1 = Some u \<longrightarrow> u \<in> threads e) \<and>
    (\<forall>u \<in> threads e. waits_for s1 u = waits_for s u) \<and>
    (pi_except (Some t0) (pq_prio s (Thr tp)) s e \<longrightarrow> pi_except t1 (pq_prio s (Thr tp)) s1 e)"
proof (cases "th_state s t0 \<in> {THREAD_WAIT_TIME, THREAD_WAIT_POLL}")
  case True
  let ?P = "pq_prio s (Thr tp)"
  let ?s0 = "s\<lparr>pq_prio := (pq_prio s)(Thr t0 := ?P)\<rparr>"
  have nq: "\<not> prio_sorted q" if "inq Q (Thr t0) q" for q
    using kinv_inq [OF k that] True by (auto simp: prio_sorted_def)
  have k0: "kinv {} (Some tp) ?s0 Q e" by (rule kinv_set_prio [OF k nq])
  have "th_state ?s0 t0 \<in> {THREAD_WAIT_TIME, THREAD_WAIT_POLL}" using True by simp
  from wake_poll_prep [OF k0 t0 this]
  obtain v s1 Q1 where e1: "(if pq_parent ?s0 (Thr t0) = Some Qtimer then chx_timer_dequeue t0 ?s0
      else Some (1, ?s0)) = Some (v, s1)"
    and k1: "kinv {t0} (Some tp) s1 Q1 e" and q1: "qstep ?s0 s1" and st1: "th_state s1 = th_state ?s0"
    and d1: "dom Q1 = dom Q" and par1: "pq_parent s1 = pq_parent ?s0"
    and v1: "\<forall>y. \<not> inq Q y Qtimer \<longrightarrow> pq_v s1 y = pq_v ?s0 y" by blast
  obtain s2 Q2 where e2: "chx_ready_enqueue t0 (s1\<lparr>pq_v := (pq_v s1)(Thr t0 := v)\<rparr>) = Some s2"
    and k2: "kinv {} (Some tp) s2 Q2 e" and q2: "qstep s1 s2"
    and st2: "th_state s2 = (th_state s1)(t0 := THREAD_READY)" and d2: "dom Q2 = dom Q1"
    and par2: "pq_parent s2 = (pq_parent s1)(Thr t0 := Some Qready)"
    and v2: "pq_v s2 = (pq_v s1)(Thr t0 := v)"
    using wake_poll_ready [OF k1 t0, of v] by blast
  have run: "mutex_pi tp (Some t0) s = mutex_pi tp None s2"
    using lt True e1 e2 by (simp add: mutex_pi.simps [of tp "Some t0"] Let_def cong: if_cong)
  have q02: "qstep ?s0 s2" using qstep_trans [OF q1 q2] .
  have pr: "pq_prio s2 = (pq_prio s)(Thr t0 := ?P)" and ow: "mtx_owner s2 = mtx_owner s"
    using qstepD [OF q02] by simp_all
  have inh: "inherits tp s s2"
    unfolding inherits_def pr using q02 lt st1 st2 True by (auto split: if_splits)
  have wf: "waits_for s2 u = waits_for s u" if u: "u \<in> threads e" for u
  proof (cases "u = t0")
    case True
    then show ?thesis using st2 \<open>th_state s t0 \<in> _\<close> by (auto simp: waits_for_def)
  next
    case False
    have "pq_v s2 (Thr u) = pq_v s (Thr u)" if "th_state s u = THREAD_WAIT_EXIT"
    proof -
      have "inq Q (Thr u) Qjoin" using kinv_queued [OF k u] that by auto
      then have "\<not> inq Q (Thr u) Qtimer" using inq_unique [OF kinv_wfq [OF k]] by blast
      then show ?thesis using v1 v2 False by simp
    qed
    then show ?thesis using False st1 st2 par1 par2 ow
      by (simp add: waits_for_def split: tstate.splits option.splits)
  qed
  have "waits_for s t0 = None" using True by (auto simp: waits_for_def)
  moreover have "pq_prio s (Thr u) \<le> ?P" if "pi_except (Some t0) ?P s e" "u \<in> threads e"
      "waits_for s u = Some t0" for u
  proof -
    have "pq_prio s (Thr u) \<le> pq_prio s (Thr t0) \<or> pq_prio s (Thr u) \<le> ?P"
      using that unfolding pi_except_def by blast
    then show ?thesis using lt by auto
  qed
  ultimately have "pi_except None ?P s2 e" if "pi_except (Some t0) ?P s e"
    using that wf unfolding pi_except_def pr by (auto split: if_splits)
  then show ?thesis using run k2 d1 d2 inh pr wf
    by (intro exI [of _ None] exI [of _ s2] exI [of _ Q2]) simp
next
  case False
  let ?P = "pq_prio s (Thr tp)"
  have st: "th_state s t0 \<notin> {THREAD_RUNNING, THREAD_WAIT_TIME, THREAD_WAIT_POLL}"
    using False kinv_at [OF k t0] lt by (auto simp: thread_at_def)
  obtain t1 s1 Q1 where e1: "requeue t0 (s\<lparr>pq_prio := (pq_prio s)(Thr t0 := ?P)\<rparr>) = Some (t1, s1)"
    and k1: "kinv {} (Some tp) s1 Q1 e" and d1: "dom Q1 = dom Q"
    and q1: "qstep (s\<lparr>pq_prio := (pq_prio s)(Thr t0 := ?P)\<rparr>) s1" and st1: "th_state s1 = th_state s"
    and par1: "pq_parent s1 = pq_parent s" and v1: "pq_v s1 = pq_v s" and t1: "t1 = waits_for s t0"
    using kinv_requeue [OF k t0 st, of ?P] by blast
  have run: "mutex_pi tp (Some t0) s = mutex_pi tp t1 s1"
    using lt False e1 by (simp add: mutex_pi.simps [of tp "Some t0"])
  have pr: "pq_prio s1 = (pq_prio s)(Thr t0 := ?P)" and ow: "mtx_owner s1 = mtx_owner s"
    using qstepD [OF q1] by simp_all
  have inh: "inherits tp s s1"
    unfolding inherits_def pr using q1 lt st1 by (auto split: if_splits)
  have wf: "waits_for s1 u = waits_for s u" for u
    using st1 par1 v1 ow by (simp add: waits_for_def split: tstate.splits option.splits)
  have thr: "u \<in> threads e" if "t1 = Some u" for u
    using waits_for_thread [OF k t0, of u] that t1 by simp
  have "pi_except t1 ?P s1 e" if p: "pi_except (Some t0) ?P s e"
    unfolding pi_except_def
  proof (intro ballI allI impI)
    fix u w assume u: "u \<in> threads e" and w: "waits_for s1 u = Some w"
    show "pq_prio s1 (Thr u) \<le> pq_prio s1 (Thr w) \<or> t1 = Some w \<and> pq_prio s1 (Thr u) \<le> ?P"
    proof (cases "u = t0")
      case True
      then show ?thesis using w wf t1 pr by simp
    next
      case False
      have "pq_prio s (Thr u) \<le> pq_prio s (Thr w) \<or> t0 = w \<and> pq_prio s (Thr u) \<le> ?P"
        using p u w wf by (auto simp: pi_except_def)
      then show ?thesis using False lt pr by auto
    qed
  qed
  then show ?thesis using run k1 d1 inh pr wf thr
    by (intro exI [of _ t1] exI [of _ s1] exI [of _ Q1]) simp
qed

text \<open>The loop returns: each round raises one more thread to the priority of the caller.\<close>

lemma mutex_pi_ok:
  assumes "kinv {} (Some tp) s Q e" and "\<forall>u. tp0 = Some u \<longrightarrow> u \<in> threads e"
  shows "\<exists>s' Q'. mutex_pi tp tp0 s = Some s' \<and> kinv {} (Some tp) s' Q' e \<and> dom Q' = dom Q \<and>
    inherits tp s s' \<and> (\<forall>w. tp0 = Some w \<longrightarrow> pq_prio s (Thr tp) \<le> pq_prio s' (Thr w)) \<and>
    (\<forall>u \<in> threads e. waits_for s' u = waits_for s u) \<and>
    (pi_except tp0 (pq_prio s (Thr tp)) s e \<longrightarrow> pi_ok s' e)"
  using assms
proof (induction "card {u \<in> threads e. pq_prio s (Thr u) < pq_prio s (Thr tp)}"
    arbitrary: s Q tp0 rule: less_induct)
  case less
  note k = less.prems(1)
  show ?case
  proof (cases tp0)
    case None
    then show ?thesis using k
      by (intro exI [of _ s] exI [of _ Q]) (simp add: mutex_pi.simps pi_except_def)
  next
    case (Some t0)
    have t0: "t0 \<in> threads e" using less.prems(2) Some by simp
    show ?thesis
    proof (cases "pq_prio s (Thr t0) < pq_prio s (Thr tp)")
      case False
      then have "mutex_pi tp tp0 s = Some s" "pq_prio s (Thr tp) \<le> pq_prio s (Thr t0)"
        using Some by (simp_all add: mutex_pi.simps)
      then show ?thesis using k Some pi_except_done [of t0 "pq_prio s (Thr tp)" s e]
        by (intro exI [of _ s] exI [of _ Q]) simp
    next
      case True
      obtain t1 s1 Q1 where run: "mutex_pi tp (Some t0) s = mutex_pi tp t1 s1"
        and k1: "kinv {} (Some tp) s1 Q1 e" and d1: "dom Q1 = dom Q" and inh: "inherits tp s s1"
        and pr: "pq_prio s1 = (pq_prio s)(Thr t0 := pq_prio s (Thr tp))"
        and thr: "\<forall>u. t1 = Some u \<longrightarrow> u \<in> threads e"
        and wf: "\<forall>u \<in> threads e. waits_for s1 u = waits_for s u"
        and pi: "pi_except (Some t0) (pq_prio s (Thr tp)) s e \<longrightarrow>
          pi_except t1 (pq_prio s (Thr tp)) s1 e"
        using mutex_pi_round [OF k t0 True] by blast
      have P: "pq_prio s1 (Thr tp) = pq_prio s (Thr tp)" using inherits_self [OF inh] .
      have "{u \<in> threads e. pq_prio s1 (Thr u) < pq_prio s1 (Thr tp)} \<subset>
          {u \<in> threads e. pq_prio s (Thr u) < pq_prio s (Thr tp)}"
        unfolding P pr using t0 True by auto
      moreover have "finite {u \<in> threads e. pq_prio s (Thr u) < pq_prio s (Thr tp)}"
        using k by (simp add: kinv_def objects_ok_def)
      ultimately have "card {u \<in> threads e. pq_prio s1 (Thr u) < pq_prio s1 (Thr tp)} <
          card {u \<in> threads e. pq_prio s (Thr u) < pq_prio s (Thr tp)}"
        by (rule psubset_card_mono [rotated])
      from less.hyps [OF this k1 thr]
      obtain s' Q' where r: "mutex_pi tp t1 s1 = Some s'" "kinv {} (Some tp) s' Q' e" "dom Q' = dom Q1"
        and inh': "inherits tp s1 s'"
        and wf': "\<forall>u \<in> threads e. waits_for s' u = waits_for s1 u"
        and pi': "pi_except t1 (pq_prio s1 (Thr tp)) s1 e \<longrightarrow> pi_ok s' e" by blast
      have "pq_prio s (Thr tp) \<le> pq_prio s' (Thr t0)"
        using inherits_prio [OF inh', of "Thr t0"] pr by simp
      then show ?thesis using run r d1 inherits_trans [OF inh inh'] wf wf' pi pi' P Some by auto
    qed
  qed
qed

section \<open>Locking\<close>

lemma mchain_cong: "(\<And>m. m \<in> set ms \<Longrightarrow> f m = g m) \<Longrightarrow> mchain f p ms = mchain g p ms"
  by (induction ms arbitrary: p) auto

text \<open>Parts of the invariant that do not depend on the mutexes.\<close>

lemma kinv_change_locks:
  assumes k: "kinv X r s Q e"
    and l: "locks_ok (s\<lparr>mtx_owner := ow, mtx_list := ml, mutex_list := tm\<rparr>) Q (e\<lparr>held := h\<rparr>)"
    and h: "\<And>u. u \<in> threads e \<Longrightarrow> th_state s u \<in> {THREAD_EXITED, THREAD_FINISHED} \<Longrightarrow> h u = held e u"
  shows "kinv X r (s\<lparr>mtx_owner := ow, mtx_list := ml, mutex_list := tm\<rparr>) Q (e\<lparr>held := h\<rparr>)"
proof -
  let ?s = "s\<lparr>mtx_owner := ow, mtx_list := ml, mutex_list := tm\<rparr>"
  have "timer_ok ?s xs = timer_ok s xs" for xs
    by (simp add: timer_ok_def timer_abs_def tval_def [abs_def] cong: if_cong)
  then have "queues_ok ?s Q (e\<lparr>held := h\<rparr>)" "objects_ok ?s Q (e\<lparr>held := h\<rparr>)" "order_ok ?s Q"
    using k by (simp_all add: kinv_def queues_ok_def objects_ok_def order_ok_def selflinked_def)
  moreover have "thread_at r ?s Q (e\<lparr>held := h\<rparr>) u" if "u \<in> threads e" "thread_at r s Q e u" for u
    using that h [of u] by (auto simp: thread_at_def)
  ultimately show ?thesis using k l by (simp add: kinv_def)
qed

lemma kinv_acquire:
  assumes k: "kinv X r s Q e" and t: "t \<in> threads e" "th_state s t \<notin> {THREAD_EXITED, THREAD_FINISHED}"
    and m: "mtx_owner s m = None" "Mtxq m \<in> dom Q"
  shows "kinv X r (s\<lparr>mtx_owner := (mtx_owner s)(m := Some t),
      mtx_list := (mtx_list s)(m := mutex_list s t), mutex_list := (mutex_list s)(t := Some m)\<rparr>) Q
    (e\<lparr>held := (held e)(t := m # held e t)\<rparr>)"
proof (rule kinv_change_locks [OF k])
  have own: "mtx_owner s m' = Some u \<longleftrightarrow> u \<in> threads e \<and> m' \<in> set (held e u)"
    if "Mtxq m' \<in> dom Q" for m' u
    using k that unfolding kinv_def locks_ok_def by blast
  have free: "m \<notin> set (held e u)" if "u \<in> threads e" for u using own [OF m(2), of u] that m(1) by simp
  have "mchain ((mtx_list s)(m := mutex_list s t)) p (held e u) = mchain (mtx_list s) p (held e u)"
    if "u \<in> threads e" for p u
    using free [OF that] by (intro mchain_cong) auto
  then show "locks_ok (s\<lparr>mtx_owner := (mtx_owner s)(m := Some t),
      mtx_list := (mtx_list s)(m := mutex_list s t), mutex_list := (mutex_list s)(t := Some m)\<rparr>) Q
    (e\<lparr>held := (held e)(t := m # held e t)\<rparr>)"
    using k t m free by (auto simp: kinv_def locks_ok_def)
qed (use t in auto)

lemma kinv_release:
  assumes k: "kinv X r s Q e" and t: "t \<in> threads e" "th_state s t \<notin> {THREAD_EXITED, THREAD_FINISHED}"
    and h: "held e t = m # ms"
  shows "kinv X r (s\<lparr>mtx_owner := (mtx_owner s)(m := None),
      mtx_list := (mtx_list s)(m := None), mutex_list := (mutex_list s)(t := mtx_list s m)\<rparr>) Q
    (e\<lparr>held := (held e)(t := ms)\<rparr>)"
proof (rule kinv_change_locks [OF k])
  have own: "mtx_owner s m' = Some u \<longleftrightarrow> u \<in> threads e \<and> m' \<in> set (held e u)"
    if "Mtxq m' \<in> dom Q" for m' u
    using k that unfolding kinv_def locks_ok_def by blast
  have md: "Mtxq m \<in> dom Q" using k t h by (auto simp: kinv_def locks_ok_def)
  have hm: "mchain (mtx_list s) (mutex_list s t) (m # ms)" "distinct (m # ms)"
    using k t h by (auto simp: kinv_def locks_ok_def)
  have "mtx_owner s m = Some t" using own [OF md, of t] t h by simp
  then have free: "m \<notin> set (held e u)" if "u \<in> threads e" "u \<noteq> t" for u using own [OF md, of u] that by simp
  have c1: "mchain ((mtx_list s)(m := None)) p (held e u) = mchain (mtx_list s) p (held e u)"
    if "u \<in> threads e" "u \<noteq> t" for p u
    using free [OF that] by (intro mchain_cong) auto
  have c2: "mchain ((mtx_list s)(m := None)) p ms = mchain (mtx_list s) p ms" for p
    using hm(2) by (intro mchain_cong) auto
  show "locks_ok (s\<lparr>mtx_owner := (mtx_owner s)(m := None),
      mtx_list := (mtx_list s)(m := None), mutex_list := (mutex_list s)(t := mtx_list s m)\<rparr>) Q
    (e\<lparr>held := (held e)(t := ms)\<rparr>)"
    unfolding locks_ok_def
  proof (intro conjI ballI allI impI)
    fix u assume u: "u \<in> threads (e\<lparr>held := (held e)(t := ms)\<rparr>)"
    have d: "\<forall>m \<in> set (held e u). Mtxq m \<in> dom Q" "distinct (held e u)"
      "mchain (mtx_list s) (mutex_list s u) (held e u)"
      using k u by (auto simp: kinv_def locks_ok_def)
    show "mchain (mtx_list (s\<lparr>mtx_owner := (mtx_owner s)(m := None), mtx_list := (mtx_list s)(m := None),
        mutex_list := (mutex_list s)(t := mtx_list s m)\<rparr>))
      (mutex_list (s\<lparr>mtx_owner := (mtx_owner s)(m := None), mtx_list := (mtx_list s)(m := None),
        mutex_list := (mutex_list s)(t := mtx_list s m)\<rparr>) u) (held (e\<lparr>held := (held e)(t := ms)\<rparr>) u)"
      using hm d c1 c2 u by auto
    show "distinct (held (e\<lparr>held := (held e)(t := ms)\<rparr>) u)" using hm d by auto
    show "Mtxq m' \<in> dom Q" if "m' \<in> set (held (e\<lparr>held := (held e)(t := ms)\<rparr>) u)" for m'
      using that d h by (auto split: if_splits)
  next
    fix m' u assume md': "Mtxq m' \<in> dom Q"
    show "(mtx_owner (s\<lparr>mtx_owner := (mtx_owner s)(m := None), mtx_list := (mtx_list s)(m := None),
        mutex_list := (mutex_list s)(t := mtx_list s m)\<rparr>) m' = Some u) =
      (u \<in> threads (e\<lparr>held := (held e)(t := ms)\<rparr>) \<and> m' \<in> set (held (e\<lparr>held := (held e)(t := ms)\<rparr>) u))"
      using own [OF md', of u] h hm(2) free by auto
  qed
qed (use t in auto)

text \<open>A free mutex is acquired at once.\<close>

lemma mutex_lock_free:
  assumes on: "on_cpu t s Q e" and m: "mtx_owner s m = None" "Mtxq m \<in> dom Q"
  shows "\<exists>s'. chopstx_mutex_lock m s = Some (True, s') \<and>
    on_cpu t s' Q (e\<lparr>held := (held e)(t := m # held e t)\<rparr>) \<and> mtx_owner s' m = Some t"
proof -
  let ?s0 = "chx_cpu_sched_lock s"
  have l: "?s0 = s\<lparr>masked := True\<rparr>" "locked t ?s0 Q e" by (rule on_cpu_lock [OF on])+
  have r: "running s = Some t" using on by (simp add: on_cpu_def)
  let ?s1 = "?s0\<lparr>mtx_owner := (mtx_owner s)(m := Some t),
      mtx_list := (mtx_list s)(m := mutex_list s t), mutex_list := (mutex_list s)(t := Some m)\<rparr>"
  have "kinv {} (Some t) ?s1 Q (e\<lparr>held := (held e)(t := m # held e t)\<rparr>)"
    using kinv_acquire [of "{}" "Some t" ?s0 Q e t m] l m by (auto simp: locked_def)
  then have "locked t ?s1 Q (e\<lparr>held := (held e)(t := m # held e t)\<rparr>)"
    using l by (simp add: locked_def)
  from locked_unlock [OF this] show ?thesis using r m l
    by (intro exI [of _ "chx_cpu_sched_unlock ?s1"])
      (simp add: chopstx_mutex_lock_def chx_cpu_sched_unlock_def)
qed

lemma dispatched_waits_for:
  assumes d: "dispatched s s' e" and u: "u \<in> threads e"
  shows "waits_for s' u = waits_for s u"
proof -
  have ow: "mtx_owner s' = mtx_owner s"
    using d qstep_running_masked unfolding dispatched_def by blast
  have st: "if running s' = Some u then th_state s u = THREAD_READY \<and> th_state s' u = THREAD_RUNNING
      else th_state s' u = th_state s u"
    using d by (simp add: dispatched_def)
  have "pq_v s' (Thr u) = pq_v s (Thr u)" "pq_parent s' (Thr u) = pq_parent s (Thr u)"
    if "th_state s u \<in> {THREAD_WAIT_MTX, THREAD_WAIT_CND, THREAD_WAIT_EXIT}"
    using d u that unfolding dispatched_def by blast+
  then show ?thesis using st ow
    by (auto simp: waits_for_def split: tstate.splits option.splits if_splits)
qed

lemma dispatched_prio: "dispatched s s' e \<Longrightarrow> pq_prio s' = pq_prio s \<and> mtx_owner s' = mtx_owner s"
  unfolding dispatched_def by (blast dest: qstep_running_masked)

lemma dispatched_new:
  "dispatched s s' e \<Longrightarrow> running s' = Some u \<Longrightarrow> th_state s u = THREAD_READY \<and> th_state s' u = THREAD_RUNNING"
  unfolding dispatched_def by meson

lemma dispatched_other:
  "dispatched s s' e \<Longrightarrow> running s' \<noteq> Some u \<Longrightarrow> th_state s' u = th_state s u"
  unfolding dispatched_def by meson

lemma dispatched_blocked:
  "dispatched s s' e \<Longrightarrow> th_state s t \<noteq> THREAD_READY \<Longrightarrow> th_state s' t = th_state s t \<and> running s' \<noteq> Some t"
  unfolding dispatched_def by metis

text \<open>
  A mutex that is taken: the threads it is blocked behind inherit the priority, the caller
  enters the mutex's queue, and the best ready thread runs.
\<close>

lemma mutex_lock_busy:
  assumes on: "on_cpu t s Q e" and m: "mtx_owner s m = Some w" "Mtxq m \<in> dom Q"
  shows "\<exists>s' Q'. chopstx_mutex_lock m s = Some (False, s') \<and> kernel_ok s' Q' e \<and> prio_top s' e \<and>
    th_state s' t = THREAD_WAIT_MTX \<and> waits_for s' t = Some w \<and>
    pq_prio s (Thr t) \<le> pq_prio s' (Thr w) \<and> pq_prio s' (Thr t) = pq_prio s (Thr t) \<and>
    (\<forall>x. pq_prio s' x \<noteq> pq_prio s x \<longrightarrow> pq_prio s x < pq_prio s (Thr t) \<and> pq_prio s' x = pq_prio s (Thr t)) \<and>
    (pi_ok s e \<longrightarrow> pi_ok s' e) \<and> dom Q' = dom Q"
proof -
  let ?s0 = "chx_cpu_sched_lock s"
  have l0: "?s0 = s\<lparr>masked := True\<rparr>" "locked t ?s0 Q e" by (rule on_cpu_lock [OF on])+
  have r: "running s = Some t" and st: "th_state s t = THREAD_RUNNING" and t: "t \<in> threads e"
    using on on_cpu_thread [OF on] by (auto simp: on_cpu_def)
  have k0: "kinv {} (Some t) ?s0 Q e" using locked_kinv [OF l0(2)] .
  have w: "w \<in> threads e" using k0 m l0(1) by (auto simp: kinv_def locks_ok_def)
  obtain s1 Q1 where e1: "mutex_pi t (Some w) ?s0 = Some s1" and k1: "kinv {} (Some t) s1 Q1 e"
    and d1: "dom Q1 = dom Q" and inh: "inherits t ?s0 s1"
    and pw: "pq_prio ?s0 (Thr t) \<le> pq_prio s1 (Thr w)"
    and wf1: "\<forall>u \<in> threads e. waits_for s1 u = waits_for ?s0 u"
    and pi1: "pi_except (Some w) (pq_prio ?s0 (Thr t)) ?s0 e \<longrightarrow> pi_ok s1 e"
    using mutex_pi_ok [OF k0, of "Some w"] w by auto
  have st1: "th_state s1 t = THREAD_RUNNING" using inherits_state [OF inh, of t] l0(1) st by auto
  obtain n p v c Q2 where e2: "rr_stop t s1 =
      Some (s1\<lparr>pq_v := v, systick := c, pq_next := n, pq_prev := p\<rparr>)" (is "_ = Some ?s2")
    and k2: "kinv {t} (Some t) (s1\<lparr>pq_v := v, systick := c, pq_next := n, pq_prev := p\<rparr>) Q2 e"
    and Q2: "\<forall>q. q \<noteq> Qtimer \<longrightarrow> Q2 q = Q1 q" and v2: "\<forall>y. \<not> inq Q1 y Qtimer \<longrightarrow> v y = pq_v s1 y"
    using kinv_rr_stop [OF k1 t _ st1] by auto
  have d2: "dom Q2 = dom Q1"
    by (rule dom_change_one [OF Q2]) (use kinv_head [OF k1] kinv_head [OF k2] in simp_all)
  obtain xs where xs: "Q2 (Mtxq m) = Some xs" using m(2) d1 d2 by (metis domD)
  obtain n' p' Q3 where e3: "ll_prio_enqueue (Thr t) (Mtxq m) ?s2 =
      Some (?s2\<lparr>pq_parent := (pq_parent ?s2)(Thr t := Some (Mtxq m)), pq_next := n', pq_prev := p'\<rparr>)"
    and k3: "kinv {} None (?s2\<lparr>pq_parent := (pq_parent ?s2)(Thr t := Some (Mtxq m)), pq_next := n',
        pq_prev := p', pq_v := (pq_v ?s2)(Thr t := pq_v ?s2 (Thr t)),
        th_state := (th_state ?s2)(t := THREAD_WAIT_MTX)\<rparr>) Q3 e"
    and Q3: "Q3 = Q2(Mtxq m \<mapsto> enq_list (pq_prio ?s2) (Thr t) xs)"
    using block_running [OF k2 t xs, of THREAD_WAIT_MTX "pq_v ?s2 (Thr t)"] by auto
  let ?s3 = "?s2\<lparr>pq_parent := (pq_parent ?s2)(Thr t := Some (Mtxq m)), pq_next := n',
        pq_prev := p', th_state := (th_state ?s2)(t := THREAD_WAIT_MTX)\<rparr>"
  have "?s3 = ?s2\<lparr>pq_parent := (pq_parent ?s2)(Thr t := Some (Mtxq m)), pq_next := n',
        pq_prev := p', pq_v := (pq_v ?s2)(Thr t := pq_v ?s2 (Thr t)),
        th_state := (th_state ?s2)(t := THREAD_WAIT_MTX)\<rparr>" by simp
  then have k3': "kinv {} None ?s3 Q3 e" using k3 by metis
  have ma: "masked ?s3" using l0 inherits_fields(3) [OF inh] by simp
  obtain s4 Q4 where e4: "chx_sched CHX_SLEEP ?s3 = Some s4" and ok: "kernel_ok s4 Q4 e"
    and di: "dispatched ?s3 s4 e" and Q4: "\<forall>q. q \<noteq> Qready \<longrightarrow> q \<noteq> Qtimer \<longrightarrow> Q4 q = Q3 q"
    using chx_sched_sleep_ok [OF k3' ma] by blast
  have run: "chopstx_mutex_lock m s = Some (False, s4)"
    using r m(1) l0(1) e1 e2 e3 e4 by (simp add: chopstx_mutex_lock_def)
  have pr: "pq_prio s4 = pq_prio s1" using dispatched_prio [OF di] by simp
  have wft: "waits_for s4 t = Some w"
    using dispatched_waits_for [OF di t] m(1) inherits_fields(5) [OF inh] l0(1)
    by (simp add: waits_for_def)
  have wfu: "waits_for s4 u = waits_for s u" if u: "u \<in> threads e" "u \<noteq> t" for u
  proof -
    have "waits_for ?s3 u = waits_for s1 u"
    proof -
      have "v (Thr u) = pq_v s1 (Thr u)" if "th_state s1 u = THREAD_WAIT_EXIT"
        using kinv_untimed [OF k1 u(1)] that v2 by simp
      then show ?thesis using u(2) by (simp add: waits_for_def split: tstate.splits option.splits)
    qed
    moreover have "waits_for ?s0 u = waits_for s u"
      unfolding l0(1) by (simp add: waits_for_def split: tstate.splits option.splits)
    ultimately show ?thesis using dispatched_waits_for [OF di u(1)] wf1 u(1) by simp
  qed
  have "pi_ok s4 e" if p: "pi_ok s e"
  proof -
    have w0: "waits_for ?s0 u = waits_for s u" for u
      unfolding l0(1) by (simp add: waits_for_def split: tstate.splits option.splits)
    have "pq_prio ?s0 = pq_prio s" using l0(1) by simp
    then have "pi_ok ?s0 e" using p by (simp add: pi_except_def w0)
    then have p1: "pi_ok s1 e" using pi1 pi_ok_except by blast
    show ?thesis
      unfolding pi_except_def
    proof (intro ballI allI impI)
      fix u w' assume u: "u \<in> threads e" and w': "waits_for s4 u = Some w'"
      have "pq_prio s4 (Thr u) \<le> pq_prio s4 (Thr w')"
      proof (cases "u = t")
        case True
        then show ?thesis using w' wft pw pr inherits_self [OF inh] l0(1) by simp
      next
        case False
        then have "waits_for s1 u = Some w'" using wfu [OF u False] w' wf1 u w0 by simp
        then show ?thesis using p1 u pr by (auto simp: pi_except_def)
      qed
      then show "pq_prio s4 (Thr u) \<le> pq_prio s4 (Thr w') \<or> None = Some w' \<and> pq_prio s4 (Thr u) \<le> 0" ..
    qed
  qed
  moreover have "dom Q4 = dom Q"
  proof -
    have "dom Q3 = dom Q2" using Q3 xs by auto
    moreover have "dom Q4 = dom Q3"
      using kinv_dom_eq [OF k3' _ Q4, of "{}" "running s4" s4 e] ok by (simp add: kernel_ok_def)
    ultimately show ?thesis using d1 d2 by simp
  qed
  moreover have "th_state s4 t = THREAD_WAIT_MTX" using dispatched_blocked [OF di, of t] by simp
  moreover have "prio_top s4 e" using di by (simp add: dispatched_def)
  moreover have "pq_prio s (Thr t) \<le> pq_prio s4 (Thr w)" "pq_prio s4 (Thr t) = pq_prio s (Thr t)"
    using pw pr l0(1) inherits_self [OF inh] by simp_all
  moreover have "pq_prio s x < pq_prio s (Thr t) \<and> pq_prio s4 x = pq_prio s (Thr t)"
    if "pq_prio s4 x \<noteq> pq_prio s x" for x
    using that inherits_raise [OF inh, of x] pr l0(1) by simp
  ultimately show ?thesis using run ok wft by blast
qed

section \<open>Unlocking\<close>

text \<open>The threads in the queue of a mutex wait for it.\<close>

lemma kinv_mtx_waiters:
  assumes k: "kinv X r s Q e" and q: "Q (Mtxq m) = Some xs" and x: "x \<in> set xs"
  shows "\<exists>u. x = Thr u \<and> u \<in> threads e \<and> u \<notin> X \<and> th_state s u = THREAD_WAIT_MTX"
proof -
  have i: "inq Q x (Mtxq m)" using q x by (simp add: inq_def)
  have n: "is_node x" using wfl_node [OF kinv_wfq [OF k] q x] .
  consider u where "x = Thr u" | a where "x = Px a" using n by (cases x) auto
  then show ?thesis
  proof cases
    case (1 u)
    then show ?thesis using kinv_inq [OF k, of u "Mtxq m"] i by (cases "th_state s u") auto
  next
    case (2 a)
    then show ?thesis using kinv_px [OF k, of a "Mtxq m"] i by simp
  qed
qed

text \<open>The priority of the first waiter of a mutex.\<close>

definition head_prio :: "'z kst_scheme \<Rightarrow> (ptr \<rightharpoonup> ptr list) \<Rightarrow> mid \<Rightarrow> u16" where
  "head_prio s Q m = (case Q (Mtxq m) of Some (x # xs) \<Rightarrow> ucast (pq_prio s x) | _ \<Rightarrow> 0)"

lemma head_prio_cong:
  "pq_prio s = pq_prio s' \<Longrightarrow> Q (Mtxq m) = Q' (Mtxq m) \<Longrightarrow> head_prio s Q m = head_prio s' Q' m"
  by (simp add: head_prio_def split: option.splits list.splits)

lemma held_prio_chain:
  "wfq s Q \<Longrightarrow> mchain (mtx_list s) mo ms \<Longrightarrow> \<forall>m \<in> set ms. Mtxq m \<in> dom Q \<Longrightarrow>
   held_prio mo np s = Some (foldl (\<lambda>a m. max a (head_prio s Q m)) np ms)"
proof (induction ms arbitrary: mo np)
  case Nil
  then show ?case by (simp add: held_prio.simps)
next
  case (Cons m ms)
  obtain xs where q: "Q (Mtxq m) = Some xs" using Cons.prems(3) by auto
  have "(if \<not> ll_empty (Mtxq m) s \<and> np < ucast (pq_prio s (pq_next s (Mtxq m)))
      then ucast (pq_prio s (pq_next s (Mtxq m))) else np) = max np (head_prio s Q m)"
    using ll_empty_iff [OF Cons.prems(1) q] wfl_next [OF Cons.prems(1) q] q
    by (cases xs) (auto simp: head_prio_def max_def)
  then show ?case using Cons by (simp add: held_prio.simps [of "Some m"])
qed

lemma foldl_max_ge: "a \<le> foldl (\<lambda>a m. max a (f m)) a ms" for f :: "'a \<Rightarrow> 'b::linorder"
  by (induction ms arbitrary: a) (auto intro: order_trans [OF max.cobounded1])

lemma foldl_max_mem: "m \<in> set ms \<Longrightarrow> f m \<le> foldl (\<lambda>a m. max a (f m)) a ms" for f :: "'a \<Rightarrow> 'b::linorder"
proof (induction ms arbitrary: a)
  case (Cons m' ms)
  then show ?case using foldl_max_ge [of "max a (f m')" f ms] by (auto intro: order_trans [OF max.cobounded2])
qed simp

lemma foldl_max_in: "foldl (\<lambda>a m. max a (f m)) a ms \<in> insert a (f ` set ms)" for f :: "'a \<Rightarrow> 'b::linorder"
proof (induction ms arbitrary: a)
  case (Cons m ms)
  have "max a (f m) \<in> {a, f m}" by (auto simp: max_def)
  with Cons [of "max a (f m)"] show ?case by auto
qed simp

text \<open>The priority \<open>chx_mutex_unlock\<close> computes: the thread's own, or the best waiter's.\<close>

definition unlock_prio :: "'z kst_scheme \<Rightarrow> (ptr \<rightharpoonup> ptr list) \<Rightarrow> tid \<Rightarrow> mid list \<Rightarrow> u16" where
  "unlock_prio s Q t ms = foldl (\<lambda>a m. max a (head_prio s Q m)) (ucast (prio_orig s t)) ms"

lemma head_prio_256: "head_prio s Q m < 256"
proof -
  have "(ucast (pq_prio s x) :: u16) < 256" for x
    using prio_below_MAX_PRIO [of "pq_prio s x"] by (simp add: MAX_PRIO_def)
  then show ?thesis by (simp add: head_prio_def split: option.splits list.splits)
qed

lemma unlock_prio_u8: "ucast (ucast (unlock_prio s Q t ms) :: u8) = unlock_prio s Q t ms"
proof -
  have "unlock_prio s Q t ms < 256"
    using foldl_max_in [of "head_prio s Q" "ucast (prio_orig s t)" ms] head_prio_256 [of s Q]
      prio_below_MAX_PRIO [of "prio_orig s t"]
    unfolding unlock_prio_def MAX_PRIO_def by auto
  then have "unat (unlock_prio s Q t ms) < 256" by (simp add: word_less_nat_alt)
  then show ?thesis
    by (simp add: word_unat_eq_iff unsigned_ucast_eq unsigned_take_bit_eq take_bit_nat_eq_self)
qed

lemma chx_mutex_unlock_ok:
  assumes k: "kinv {} (Some t) s Q e" and r: "running s = Some t" and t: "t \<in> threads e"
    and st: "th_state s t = THREAD_RUNNING" and h: "held e t = m # ms"
  shows "\<exists>pr s' Q'. chx_mutex_unlock m s = Some (pr, s') \<and>
    kinv {} (Some t) s' Q' (e\<lparr>held := (held e)(t := ms)\<rparr>) \<and> dom Q' = dom Q \<and>
    running s' = Some t \<and> masked s' = masked s \<and> pendsv s' = pendsv s \<and>
    flag_sched_rr s' = flag_sched_rr s \<and> prio_orig s' = prio_orig s \<and>
    mtx_owner s' = (mtx_owner s)(m := None) \<and>
    (\<forall>q. q \<noteq> Mtxq m \<longrightarrow> q \<noteq> Qready \<longrightarrow> Q' q = Q q) \<and>
    (case the (Q (Mtxq m)) of
       [] \<Rightarrow> pr = 0 \<and> th_state s' = th_state s \<and> pq_prio s' = pq_prio s
     | x # xs \<Rightarrow> \<exists>u. x = Thr u \<and> u \<noteq> t \<and> u \<in> threads e \<and> pr = pq_prio s (Thr u) \<and>
         th_state s' = (th_state s)(u := THREAD_READY) \<and>
         pq_prio s' = (pq_prio s)(Thr t := ucast (unlock_prio s Q t ms)))"
proof -
  let ?e = "e\<lparr>held := (held e)(t := ms)\<rparr>"
  let ?s1 = "s\<lparr>mtx_owner := (mtx_owner s)(m := None), mutex_list := (mutex_list s)(t := mtx_list s m),
      mtx_list := (mtx_list s)(m := None)\<rparr>"
  have s1: "?s1 = s\<lparr>mtx_owner := (mtx_owner s)(m := None),
      mtx_list := (mtx_list s)(m := None), mutex_list := (mutex_list s)(t := mtx_list s m)\<rparr>" by simp
  have k1: "kinv {} (Some t) ?s1 Q ?e"
    unfolding s1 by (rule kinv_release [OF k t _ h]) (simp add: st)
  have hk: "mchain (mtx_list ?s1) (mutex_list ?s1 t) ms" "\<forall>m \<in> set ms. Mtxq m \<in> dom Q"
    using k1 t by (auto simp: kinv_def locks_ok_def)
  have "Mtxq m \<in> dom Q" "m \<notin> set ms" using k t h unfolding kinv_def locks_ok_def by auto
  then obtain xs where q: "Q (Mtxq m) = Some xs" by auto
  show ?thesis
  proof (cases xs)
    case Nil
    then have "chx_mutex_unlock m s = Some (0, ?s1)"
      using ll_pop_empty [OF kinv_wfq [OF k1]] q r by (simp add: chx_mutex_unlock_def Let_def)
    then show ?thesis using k1 q Nil r by (intro exI [of _ 0] exI [of _ ?s1] exI [of _ Q]) simp
  next
    case (Cons x ys)
    obtain u where u: "x = Thr u" "u \<in> threads e" "th_state s u = THREAD_WAIT_MTX"
      using kinv_mtx_waiters [OF k q, of x] Cons by auto
    then have ut: "u \<noteq> t" using st by auto
    obtain n p where d: "ll_dequeue (Thr u) ?s1 = ?s1\<lparr>pq_next := n, pq_prev := p\<rparr>"
      and k2: "kinv {u} (Some t) (?s1\<lparr>pq_next := n, pq_prev := p\<rparr>)
        (Q(Mtxq m \<mapsto> remove1 (Thr u) xs)) ?e"
      using kinv_dequeue [OF k1 q, of u] Cons u by auto
    let ?s2 = "?s1\<lparr>pq_next := n, pq_prev := p\<rparr>" and ?Q2 = "Q(Mtxq m \<mapsto> ys)"
    have k2': "kinv {u} (Some t) ?s2 ?Q2 ?e" using k2 Cons u by simp
    have "pq_next ?s1 (Mtxq m) = Thr u" using wfl_next [OF kinv_wfq [OF k1] q] Cons u by simp
    then have pop: "ll_pop (Mtxq m) ?s1 = (Some (Thr u), ?s2)" using d by (simp add: ll_pop_def)
    have u': "u \<in> threads ?e" using u by simp
    obtain s3 Q3 where e3: "chx_ready_enqueue u (?s2\<lparr>pq_v := (pq_v ?s2)(Thr u := 0)\<rparr>) = Some s3"
      and k3: "kinv {} (Some t) s3 Q3 ?e" and q3: "qstep ?s2 s3"
      and st3: "th_state s3 = (th_state ?s2)(u := THREAD_READY)"
      and Q3: "\<forall>q. q \<noteq> Qready \<longrightarrow> Q3 q = ?Q2 q" and d3: "dom Q3 = dom ?Q2"
      using wake_poll_ready [OF k2' u', of 0] by blast
    note f3 = qstepD [OF q3]
    have "mchain (mtx_list s3) (mutex_list s3 t) ms" using hk f3 by simp
    moreover have "\<forall>m' \<in> set ms. Mtxq m' \<in> dom Q3" using hk(2) d3 q by auto
    ultimately have hp: "held_prio (mutex_list s3 t) (ucast (prio_orig s t)) s3 =
        Some (foldl (\<lambda>a m. max a (head_prio s3 Q3 m)) (ucast (prio_orig s t)) ms)"
      by (rule held_prio_chain [OF kinv_wfq [OF k3]])
    have "head_prio s3 Q3 m' = head_prio s Q m'" if "m' \<in> set ms" for m'
    proof (rule head_prio_cong)
      have "m' \<noteq> m" using that \<open>m \<notin> set ms\<close> by auto
      then show "Q3 (Mtxq m') = Q (Mtxq m')" using Q3 by simp
    qed (use f3 in simp)
    then have "foldl (\<lambda>a m. max a (head_prio s3 Q3 m)) (ucast (prio_orig s t)) ms =
        unlock_prio s Q t ms"
      unfolding unlock_prio_def by (intro foldl_cong) auto
    with hp have hp': "held_prio (mutex_list s3 t) (ucast (prio_orig s t)) s3 = Some (unlock_prio s Q t ms)"
      by simp
    let ?s4 = "s3\<lparr>pq_prio := (pq_prio s3)(Thr t := ucast (unlock_prio s Q t ms))\<rparr>"
    have nq: "\<not> prio_sorted q" if "inq Q3 (Thr t) q" for q
      using kinv_inq [OF k3 that] st3 ut st by (auto simp: prio_sorted_def)
    have k4: "kinv {} (Some t) ?s4 Q3 ?e" by (rule kinv_set_prio [OF k3 nq])
    have r3: "running s3 = Some t" "prio_orig s3 = prio_orig s" using f3 r by simp_all
    have pr3: "pq_prio s3 = pq_prio s" using f3 by simp
    have "chx_mutex_unlock m s = Some (pq_prio s (Thr u), ?s4)"
      using r pop e3 r3 hp' ut pr3 by (simp add: chx_mutex_unlock_def Let_def)
    moreover have "dom Q3 = dom Q" using d3 q by auto
    ultimately show ?thesis using k4 q Cons u ut st3 f3 pr3 r3 Q3
      by (intro exI [of _ "pq_prio s (Thr u)"] exI [of _ ?s4] exI [of _ Q3]) simp
  qed
qed

lemma locked_change:
  assumes l: "locked t s Q e" and k: "kinv {} (Some t) s' Q' e'" and t: "t \<in> threads e'"
    and "running s' = Some t" "masked s'" "th_state s' t = THREAD_RUNNING"
  shows "locked t s' Q' e'"
  using assms by (simp add: locked_def)

text \<open>A yield leaves the thread ready or running.\<close>

lemma yield_states:
  assumes "dispatched (s\<lparr>th_state := (th_state s)(t := THREAD_READY)\<rparr>) s' e"
  shows "th_state s' t \<in> {THREAD_READY, THREAD_RUNNING}"
    and "th_state s u \<in> {THREAD_READY, THREAD_RUNNING} \<Longrightarrow> th_state s' u \<in> {THREAD_READY, THREAD_RUNNING}"
  using assms unfolding dispatched_def by (auto split: if_splits)

lemma chopstx_mutex_unlock_ok:
  assumes on: "on_cpu t s Q e" and h: "held e t = m # ms"
  defines "e' \<equiv> e\<lparr>held := (held e)(t := ms)\<rparr>"
  shows "\<exists>s' Q'. chopstx_mutex_unlock m s = Some s' \<and> kernel_ok s' Q' e' \<and> dom Q' = dom Q \<and>
    mtx_owner s' = (mtx_owner s)(m := None) \<and>
    (case the (Q (Mtxq m)) of
       [] \<Rightarrow> on_cpu t s' Q' e' \<and> pq_prio s' = pq_prio s
     | x # xs \<Rightarrow> \<exists>u. x = Thr u \<and> u \<noteq> t \<and>
         pq_prio s' = (pq_prio s)(Thr t := ucast (unlock_prio s Q t ms)) \<and>
         th_state s' u \<in> {THREAD_READY, THREAD_RUNNING} \<and>
         (if pq_prio s' (Thr t) < pq_prio s' (Thr u) then prio_top s' e' else on_cpu t s' Q' e')) \<and>
    (prio_top s e \<and> (\<forall>x xs. the (Q (Mtxq m)) = x # xs \<longrightarrow>
       pq_prio s (Thr t) \<le> max (pq_prio s x) (ucast (unlock_prio s Q t ms))) \<longrightarrow> prio_top s' e')"
proof -
  let ?s0 = "chx_cpu_sched_lock s"
  have l0: "?s0 = s\<lparr>masked := True\<rparr>" "locked t ?s0 Q e" by (rule on_cpu_lock [OF on])+
  have st: "th_state ?s0 t = THREAD_RUNNING" and r: "running ?s0 = Some t" and t: "t \<in> threads e"
    using l0(2) by (auto simp: locked_def)
  obtain pr s1 Q1 where e1: "chx_mutex_unlock m ?s0 = Some (pr, s1)"
    and k1: "kinv {} (Some t) s1 Q1 e'" and d1: "dom Q1 = dom Q"
    and f1: "running s1 = Some t" "masked s1 = masked ?s0" "mtx_owner s1 = (mtx_owner s)(m := None)"
    and c1: "case the (Q (Mtxq m)) of
       [] \<Rightarrow> pr = 0 \<and> th_state s1 = th_state s \<and> pq_prio s1 = pq_prio s
     | x # xs \<Rightarrow> \<exists>u. x = Thr u \<and> u \<noteq> t \<and> u \<in> threads e \<and> pr = pq_prio s (Thr u) \<and>
         th_state s1 = (th_state s)(u := THREAD_READY) \<and>
         pq_prio s1 = (pq_prio s)(Thr t := ucast (unlock_prio s Q t ms))"
    using chx_mutex_unlock_ok [OF locked_kinv [OF l0(2)] r t st h] l0(1)
    by (auto simp: e'_def unlock_prio_def head_prio_def cong: list.case_cong option.case_cong)
  have st1: "th_state s1 t = THREAD_RUNNING"
    using c1 st l0(1) by (auto split: list.splits)
  have l1: "locked t s1 Q1 e'"
    by (rule locked_change [OF l0(2) k1]) (use f1 t l0 st1 in \<open>auto simp: e'_def\<close>)
  show ?thesis
  proof (cases "pq_prio s1 (Thr t) < pr")
    case False
    have "chopstx_mutex_unlock m s = Some (chx_cpu_sched_unlock s1)"
      using e1 f1 False by (simp add: chopstx_mutex_unlock_def)
    moreover have fr: "pq_prio (chx_cpu_sched_unlock s1) = pq_prio s1"
      "th_state (chx_cpu_sched_unlock s1) = th_state s1"
      "mtx_owner (chx_cpu_sched_unlock s1) = mtx_owner s1"
      by (simp_all add: chx_cpu_sched_unlock_def)
    moreover have on': "on_cpu t (chx_cpu_sched_unlock s1) Q1 e'" by (rule locked_unlock [OF l1])
    moreover have "kernel_ok (chx_cpu_sched_unlock s1) Q1 e'" using on' by (simp add: on_cpu_def)
    moreover have "prio_top (chx_cpu_sched_unlock s1) e'" if p: "prio_top s e"
      and c: "\<forall>x xs. the (Q (Mtxq m)) = x # xs \<longrightarrow>
        pq_prio s (Thr t) \<le> max (pq_prio s x) (ucast (unlock_prio s Q t ms))"
    proof (cases "the (Q (Mtxq m))")
      case Nil
      have "running (chx_cpu_sched_unlock s1) = Some t" using f1 by (simp add: chx_cpu_sched_unlock_def)
      with Nil show ?thesis using p c1 fr r l0(1) by (simp add: prio_top_def e'_def)
    next
      case (Cons x xs)
      then obtain u where u: "x = Thr u" "u \<noteq> t" "pr = pq_prio s (Thr u)"
          "th_state s1 = (th_state s)(u := THREAD_READY)"
          "pq_prio s1 = (pq_prio s)(Thr t := ucast (unlock_prio s Q t ms))"
        using c1 by auto
      have "pq_prio s (Thr t) \<le> pq_prio s1 (Thr t)" "pq_prio s (Thr u) \<le> pq_prio s1 (Thr t)"
        using c Cons u False by (auto simp: max_def split: if_splits)
      moreover have "running s = Some t" "running (chx_cpu_sched_unlock s1) = Some t"
        using r l0(1) f1 by (simp_all add: chx_cpu_sched_unlock_def)
      ultimately show ?thesis using p st l0(1) u fr
        by (auto simp: prio_top_def e'_def split: if_splits)
    qed
    ultimately show ?thesis using c1 d1 f1 False
      by (intro exI [of _ "chx_cpu_sched_unlock s1"] exI [of _ Q1]) (auto split: list.splits)
  next
    case True
    then obtain x xs where ne: "the (Q (Mtxq m)) = x # xs"
      using c1 by (cases "the (Q (Mtxq m))") auto
    obtain s2 Q2 where e2: "chx_sched CHX_YIELD s1 = Some s2" and ok: "kernel_ok s2 Q2 e'"
      and di: "dispatched (s1\<lparr>th_state := (th_state s1)(t := THREAD_READY)\<rparr>) s2 e'"
      and Q2: "\<forall>q. q \<noteq> Qready \<longrightarrow> q \<noteq> Qtimer \<longrightarrow> Q2 q = Q1 q"
      using chx_sched_yield_ok [OF l1] by blast
    have "chopstx_mutex_unlock m s = Some s2" using e1 e2 f1 True by (simp add: chopstx_mutex_unlock_def)
    moreover have "pq_prio s2 = pq_prio s1" "mtx_owner s2 = mtx_owner s1"
      using dispatched_prio [OF di] by simp_all
    moreover have "dom Q2 = dom Q1"
      by (rule kinv_dom_eq [OF k1 _ Q2, of "{}" "running s2" s2 e']) (use ok in \<open>simp add: kernel_ok_def\<close>)
    moreover have "prio_top s2 e'" using di by (simp add: dispatched_def)
    moreover obtain u where u: "x = Thr u" "u \<noteq> t" "pr = pq_prio s (Thr u)"
        "th_state s1 = (th_state s)(u := THREAD_READY)"
        "pq_prio s1 = (pq_prio s)(Thr t := ucast (unlock_prio s Q t ms))"
      using c1 ne by auto
    moreover have "th_state s2 u \<in> {THREAD_READY, THREAD_RUNNING}"
      by (rule yield_states(2) [OF di]) (simp add: u)
    ultimately show ?thesis using ok ne d1 f1 True
      by (intro exI [of _ s2] exI [of _ Q2]) simp
  qed
qed

section \<open>Initialising\<close>

lemma on_cpu_mutex_init:
  assumes on: "on_cpu t s Q e" and q: "Q (Mtxq m) = None"
  shows "on_cpu t (chopstx_mutex_init m s) (Q(Mtxq m \<mapsto> [])) e"
    and "mtx_owner (chopstx_mutex_init m s) m = None"
proof -
  let ?s1 = "s\<lparr>mtx_owner := (mtx_owner s)(m := None), mtx_list := (mtx_list s)(m := None),
      mutex_list := mutex_list s\<rparr>"
  have k: "kinv {} (Some t) s Q e" using on_cpu_kinv [OF on] .
  have "mchain ((mtx_list s)(m := None)) p (held e u) = mchain (mtx_list s) p (held e u)"
    if "u \<in> threads e" for p u
  proof (rule mchain_cong)
    fix m' assume "m' \<in> set (held e u)"
    then have "Mtxq m' \<in> dom Q" using k that by (auto simp: kinv_def locks_ok_def)
    then show "((mtx_list s)(m := None)) m' = mtx_list s m'" using q by auto
  qed
  then have "locks_ok ?s1 Q (e\<lparr>held := held e\<rparr>)"
    using k q by (auto simp: kinv_def locks_ok_def)
  from kinv_change_locks [OF k this] have "kinv {} (Some t) ?s1 Q e" by simp
  then have "on_cpu t ?s1 Q e" using on by (simp add: on_cpu_def kernel_ok_def)
  from on_cpu_new_queue [OF this, of "Mtxq m"] q
  have "on_cpu t (init_head (Mtxq m) ?s1) (Q(Mtxq m \<mapsto> [])) e" by simp
  moreover have "init_head (Mtxq m) ?s1 = chopstx_mutex_init m s"
    by (simp add: init_head_def chopstx_mutex_init_def)
  ultimately show "on_cpu t (chopstx_mutex_init m s) (Q(Mtxq m \<mapsto> [])) e" by simp
  show "mtx_owner (chopstx_mutex_init m s) m = None" by (simp add: chopstx_mutex_init_def)
qed

section \<open>Unlocking and the running thread's priority\<close>

text \<open>
  The priority of a thread is its own, or that of a thread that waits for a mutex it holds. It
  may be higher when a thread that has joined it lent its priority.
\<close>

definition prio_explained :: "'z kst_scheme \<Rightarrow> env \<Rightarrow> tid \<Rightarrow> bool" where
  "prio_explained s e t \<longleftrightarrow> pq_prio s (Thr t) \<le> prio_orig s t \<or>
     (\<exists>u \<in> threads e. \<exists>m. th_state s u = THREAD_WAIT_MTX \<and> pq_parent s (Thr u) = Some (Mtxq m) \<and>
        mtx_owner s m = Some t \<and> pq_prio s (Thr t) \<le> pq_prio s (Thr u))"

lemma unlock_prio_le:
  assumes "(ucast p :: u16) \<le> unlock_prio s Q t ms"
  shows "p \<le> (ucast (unlock_prio s Q t ms) :: u8)"
proof -
  have "(ucast p :: u16) \<le> ucast (ucast (unlock_prio s Q t ms) :: u8)"
    using assms by (simp add: unlock_prio_u8)
  moreover have "unat (ucast x :: u16) = unat x" for x :: u8
    using unsigned_less [of x, where 'a = nat] by (simp add: unsigned_ucast_eq take_bit_nat_eq_self)
  ultimately show ?thesis by (simp add: word_le_nat_alt)
qed

lemma explained_unlock:
  assumes k: "kinv {} r s Q e" and h: "held e t = m # ms" and ex: "prio_explained s e t"
    and q: "the (Q (Mtxq m)) = x # xs" and t: "t \<in> threads e"
  shows "pq_prio s (Thr t) \<le> max (pq_prio s x) (ucast (unlock_prio s Q t ms))"
proof (cases "pq_prio s (Thr t) \<le> prio_orig s t")
  case True
  have "(ucast (prio_orig s t) :: u16) \<le> unlock_prio s Q t ms"
    unfolding unlock_prio_def by (rule foldl_max_ge)
  then show ?thesis using True unlock_prio_le by (meson max.coboundedI2 order_trans)
next
  case False
  then obtain u m' where u: "u \<in> threads e" "th_state s u = THREAD_WAIT_MTX"
      "pq_parent s (Thr u) = Some (Mtxq m')" "mtx_owner s m' = Some t" "pq_prio s (Thr t) \<le> pq_prio s (Thr u)"
    using ex by (auto simp: prio_explained_def)
  have "inq Q (Thr u) (Mtxq m')" using kinv_queued [OF k u(1)] u by auto
  then obtain ys where ys: "Q (Mtxq m') = Some ys" "Thr u \<in> set ys" by (auto simp: inq_def)
  then obtain y zs where yz: "ys = y # zs" by (cases ys) auto
  have "desc (pq_prio s) ys"
    using kinv_order [OF k] ys by (auto simp: order_ok_def prio_sorted_def)
  then have le: "pq_prio s (Thr t) \<le> pq_prio s y" using ys yz u(5) by (auto intro: order_trans)
  have m': "m' \<in> set (m # ms)" using k u(4) ys(1) h by (auto simp: kinv_def locks_ok_def)
  show ?thesis
  proof (cases "m' = m")
    case True
    then show ?thesis using ys yz q le by (simp add: le_max_iff_disj)
  next
    case False
    have "head_prio s Q m' \<le> unlock_prio s Q t ms"
      unfolding unlock_prio_def by (rule foldl_max_mem) (use m' False in simp)
    then have "(ucast (pq_prio s y) :: u16) \<le> unlock_prio s Q t ms" using ys yz by (simp add: head_prio_def)
    then show ?thesis using le unlock_prio_le by (meson max.coboundedI2 order_trans)
  qed
qed

text \<open>
  Then unlocking leaves no ready thread of higher priority waiting: either the calling thread
  still has the highest one or it yields.
\<close>

lemma mutex_unlock_prio_top:
  assumes on: "on_cpu t s Q e" and h: "held e t = m # ms" and ex: "prio_explained s e t"
    and top: "prio_top s e"
  defines "e' \<equiv> e\<lparr>held := (held e)(t := ms)\<rparr>"
  shows "\<exists>s' Q'. chopstx_mutex_unlock m s = Some s' \<and> kernel_ok s' Q' e' \<and> dom Q' = dom Q \<and> prio_top s' e'"
  using chopstx_mutex_unlock_ok [OF on h] top
    explained_unlock [OF on_cpu_kinv [OF on] h ex _ on_cpu_thread [OF on]]
  unfolding e'_def by blast

end
