(* ===== verification/Cond.thy ===== *)
theory Cond
  imports Mutex
begin

text \<open>
  Condition variables (\<open>chopstx_cond_init\<close>, \<open>chopstx_cond_wait\<close>, \<open>chopstx_cond_signal\<close>,
  \<open>chopstx_cond_broadcast\<close>) and the cancellation test every blocking call starts with.
  A call that sleeps is split at \<open>chx_sched\<close>: the second half starts when the thread is
  dispatched again, with \<open>sched_result\<close> as the value \<open>chx_sched\<close> returns.
\<close>

section \<open>The operations\<close>

text \<open>
  How a part of a call ends: the call returns, the thread sleeps inside it, or it goes on
  with \<open>chopstx_exit\<close> or \<open>chx_fatal\<close>.
\<close>

datatype call = Returns u32 | Sleeps | Exits u32 | Fatal u32

definition CHOPSTX_CANCELED :: u32 where "CHOPSTX_CANCELED = - 1"

text \<open>\<open>chopstx_testcancel\<close>: true if the call goes on with \<open>chopstx_exit (CHOPSTX_CANCELED)\<close>.\<close>

definition chopstx_testcancel :: "'z kst_scheme \<Rightarrow> bool" where
  "chopstx_testcancel s \<longleftrightarrow> flag_cancelable s (cur s) \<and> flag_got_cancel s (cur s)"

text \<open>A thread returns from \<open>chx_sched\<close> with its own \<open>v\<close>.\<close>

definition sched_result :: "'z kst_scheme \<Rightarrow> u32" where
  "sched_result s = pq_v s (Thr (cur s))"

definition chopstx_cond_init :: "cid \<Rightarrow> 'z kst_scheme \<Rightarrow> 'z kst_scheme" where
  "chopstx_cond_init c s =
     s\<lparr>pq_next := (pq_next s)(Condq c := Condq c), pq_prev := (pq_prev s)(Condq c := Condq c)\<rparr>"

text \<open>The running thread enters queue \<open>q\<close> in state \<open>st\<close> and sleeps.\<close>

definition sleep_on :: "ptr \<Rightarrow> tstate \<Rightarrow> 'z kst_scheme \<Rightarrow> 'z kst_scheme option" where
  "sleep_on q st s = do {
     let tp = cur s;
     s \<leftarrow> rr_stop tp s;
     s \<leftarrow> ll_prio_enqueue (Thr tp) q s;
     let s = s\<lparr>th_state := (th_state s)(tp := st)\<rparr>;
     chx_sched CHX_SLEEP s }"

definition chopstx_cond_wait :: "cid \<Rightarrow> mid option \<Rightarrow> 'z kst_scheme \<Rightarrow> (call \<times> 'z kst_scheme) option" where
  "chopstx_cond_wait c mutex s =
     (if chopstx_testcancel s then Some (Exits CHOPSTX_CANCELED, s)
      else do {
        let s = chx_cpu_sched_lock s;
        s \<leftarrow> (case mutex of
                None \<Rightarrow> Some s
              | Some m \<Rightarrow> map_option snd (chx_mutex_unlock m s));
        s \<leftarrow> sleep_on (Condq c) THREAD_WAIT_CND s;
        Some (Sleeps, s) })"

text \<open>
  After the sleep; \<open>r\<close> is what \<open>chx_sched\<close> returned. Locking the mutex may sleep again, then
  this half is tried again with the same \<open>r\<close>.
\<close>

definition chopstx_cond_wait_resume ::
  "u32 \<Rightarrow> mid option \<Rightarrow> 'z kst_scheme \<Rightarrow> (call \<times> 'z kst_scheme) option" where
  "chopstx_cond_wait_resume r mutex s = do {
     (locked, s) \<leftarrow> (case mutex of None \<Rightarrow> Some (True, s) | Some m \<Rightarrow> chopstx_mutex_lock m s);
     Some (if \<not> locked then Sleeps
           else if sint r < 0 then Exits CHOPSTX_CANCELED
           else Returns 0, s) }"

definition yield_or_unlock :: "bool \<Rightarrow> 'z kst_scheme \<Rightarrow> 'z kst_scheme option" where
  "yield_or_unlock yield s =
     (if yield then chx_sched CHX_YIELD s else Some (chx_cpu_sched_unlock s))"

definition chopstx_cond_signal :: "cid \<Rightarrow> 'z kst_scheme \<Rightarrow> 'z kst_scheme option" where
  "chopstx_cond_signal c s = do {
     let s = chx_cpu_sched_lock s;
     (yield, s) \<leftarrow> (case ll_pop (Condq c) s of
                     (None, s) \<Rightarrow> Some (False, s)
                   | (Some p, s) \<Rightarrow> chx_wakeup p s);
     yield_or_unlock yield s }"

text \<open>\<open>while ((p = ll_pop (&cond->q))) yield |= chx_wakeup (p)\<close>\<close>

partial_function (option) cond_wake_all ::
  "cid \<Rightarrow> bool \<Rightarrow> 'z kst_scheme \<Rightarrow> (bool \<times> 'z kst_scheme) option" where
  "cond_wake_all c yield s =
     (case ll_pop (Condq c) s of
        (None, s) \<Rightarrow> Some (yield, s)
      | (Some p, s) \<Rightarrow> do {
          (y, s) \<leftarrow> chx_wakeup p s;
          cond_wake_all c (yield \<or> y) s })"

definition chopstx_cond_broadcast :: "cid \<Rightarrow> 'z kst_scheme \<Rightarrow> 'z kst_scheme option" where
  "chopstx_cond_broadcast c s = do {
     let s = chx_cpu_sched_lock s;
     (yield, s) \<leftarrow> cond_wake_all c False s;
     yield_or_unlock yield s }"

section \<open>Sleeping\<close>

lemma sleep_on_ok:
  assumes k: "kinv {} (Some t) s Q e" and r: "running s = Some t" and t: "t \<in> threads e"
    and st: "th_state s t = THREAD_RUNNING" and m: "masked s"
    and q: "q \<in> dom Q" "q \<noteq> Qtimer" "q \<noteq> Qready"
    and al: "allowed st' (flag_sched_rr s t) q" "st' \<noteq> THREAD_RUNNING" "st' \<noteq> THREAD_WAIT_EXIT"
  shows "\<exists>s' Q'. sleep_on q st' s = Some s' \<and> kernel_ok s' Q' e \<and> prio_top s' e \<and> dom Q' = dom Q \<and>
    th_state s' t = st' \<and> (\<forall>u. u \<noteq> t \<longrightarrow> running s' \<noteq> Some u \<longrightarrow> th_state s' u = th_state s u) \<and>
    Q' q = Some (enq_list (pq_prio s) (Thr t) (the (Q q))) \<and> pq_prio s' = pq_prio s \<and>
    mtx_owner s' = mtx_owner s \<and> pendsv s' = pendsv s"
proof -
  obtain n p v c Q1 where e1: "rr_stop t s =
      Some (s\<lparr>pq_v := v, systick := c, pq_next := n, pq_prev := p\<rparr>)" (is "_ = Some ?s1")
    and k1: "kinv {t} (Some t) (s\<lparr>pq_v := v, systick := c, pq_next := n, pq_prev := p\<rparr>) Q1 e"
    and Q1: "\<forall>q. q \<noteq> Qtimer \<longrightarrow> Q1 q = Q q"
    using kinv_rr_stop [OF k t _ st] by auto
  have d1: "dom Q1 = dom Q"
    by (rule dom_change_one [OF Q1]) (use kinv_head [OF k] kinv_head [OF k1] in simp_all)
  obtain xs where xs: "Q1 q = Some xs" using q d1 by auto
  have xs': "the (Q q) = xs" using Q1 q(2) xs by (metis option.sel)
  obtain n' p' Q2 where e2: "ll_prio_enqueue (Thr t) q ?s1 =
      Some (?s1\<lparr>pq_parent := (pq_parent ?s1)(Thr t := Some q), pq_next := n', pq_prev := p'\<rparr>)"
    and k2: "kinv {} None (?s1\<lparr>pq_parent := (pq_parent ?s1)(Thr t := Some q), pq_next := n',
        pq_prev := p', pq_v := (pq_v ?s1)(Thr t := pq_v ?s1 (Thr t)),
        th_state := (th_state ?s1)(t := st')\<rparr>) Q2 e"
    and Q2: "Q2 = Q1(q \<mapsto> enq_list (pq_prio ?s1) (Thr t) xs)"
    using block_running [OF k1 t xs q(2), of st' "pq_v ?s1 (Thr t)"] al by auto
  let ?s2 = "?s1\<lparr>pq_parent := (pq_parent ?s1)(Thr t := Some q), pq_next := n',
        pq_prev := p', th_state := (th_state ?s1)(t := st')\<rparr>"
  have "?s2 = ?s1\<lparr>pq_parent := (pq_parent ?s1)(Thr t := Some q), pq_next := n',
        pq_prev := p', pq_v := (pq_v ?s1)(Thr t := pq_v ?s1 (Thr t)),
        th_state := (th_state ?s1)(t := st')\<rparr>" by simp
  then have k2': "kinv {} None ?s2 Q2 e" using k2 by metis
  have ma: "masked ?s2" using m by simp
  obtain s3 Q3 where e3: "chx_sched CHX_SLEEP ?s2 = Some s3" and ok: "kernel_ok s3 Q3 e"
    and di: "dispatched ?s2 s3 e" and Q3: "\<forall>q. q \<noteq> Qready \<longrightarrow> q \<noteq> Qtimer \<longrightarrow> Q3 q = Q2 q"
    using chx_sched_sleep_ok [OF k2' ma] by blast
  have nr: "st' \<noteq> THREAD_READY" using al q(3) by auto
  have "th_state s3 t = st' \<and> running s3 \<noteq> Some t"
    using dispatched_blocked [OF di, of t] nr by simp
  moreover have "th_state s3 u = th_state s u" if "u \<noteq> t" "running s3 \<noteq> Some u" for u
    using dispatched_other [OF di that(2)] that(1) by simp
  moreover have "sleep_on q st' s = Some s3"
    using r e1 e2 e3 by (simp add: sleep_on_def)
  moreover have "dom Q3 = dom Q"
  proof -
    have "dom Q2 = dom Q1" using Q2 xs by auto
    then show ?thesis using kinv_dom_eq [OF k2' _ Q3, of "{}" "running s3" s3 e] ok d1
      by (simp add: kernel_ok_def)
  qed
  moreover have "prio_top s3 e" using di by (simp add: dispatched_def)
  moreover have "Q3 q = Some (enq_list (pq_prio s) (Thr t) (the (Q q)))"
    using Q3 Q2 q xs' by simp
  moreover have "qstep ?s2 (s3\<lparr>running := running ?s2, masked := masked ?s2\<rparr>)"
    using di unfolding dispatched_def by blast
  then have "pendsv s3 = pendsv s" using qstep_running_masked by fastforce
  ultimately show ?thesis using ok dispatched_prio [OF di]
    by (intro exI [of _ s3] exI [of _ Q3]) simp
qed

text \<open>A yield, or the end of the critical section.\<close>

lemma yield_or_unlock_ok:
  assumes l: "locked t s Q e"
  shows "\<exists>s' Q'. yield_or_unlock y s = Some s' \<and> kernel_ok s' Q' e \<and> dom Q' = dom Q \<and>
    (\<forall>q. q \<noteq> Qready \<longrightarrow> q \<noteq> Qtimer \<longrightarrow> Q' q = Q q) \<and>
    pq_prio s' = pq_prio s \<and> mtx_owner s' = mtx_owner s \<and>
    (\<forall>u. th_state s u \<in> {THREAD_READY, THREAD_RUNNING} \<longleftrightarrow> th_state s' u \<in> {THREAD_READY, THREAD_RUNNING}) \<and>
    (if y then prio_top s' e else on_cpu t s' Q' e \<and> th_state s' = th_state s) \<and>
    qstep s (s'\<lparr>running := running s, masked := masked s\<rparr>)"
proof (cases y)
  case True
  obtain s1 Q1 where e1: "chx_sched CHX_YIELD s = Some s1" and ok: "kernel_ok s1 Q1 e"
    and di: "dispatched (s\<lparr>th_state := (th_state s)(t := THREAD_READY)\<rparr>) s1 e"
    and Q1: "\<forall>q. q \<noteq> Qready \<longrightarrow> q \<noteq> Qtimer \<longrightarrow> Q1 q = Q q"
    using chx_sched_yield_ok [OF l] by blast
  have "th_state s t = THREAD_RUNNING" using l by (simp add: locked_def)
  then have "th_state s u \<in> {THREAD_READY, THREAD_RUNNING} \<longleftrightarrow> th_state s1 u \<in> {THREAD_READY, THREAD_RUNNING}" for u
    using dispatched_new [OF di, of u] dispatched_other [OF di, of u]
    by (cases "running s1 = Some u"; cases "u = t") simp_all
  moreover have "dom Q1 = dom Q"
    using kinv_dom_eq [OF locked_kinv [OF l] _ Q1, of "{}" "running s1" s1 e] ok by (simp add: kernel_ok_def)
  moreover have "prio_top s1 e" using di by (simp add: dispatched_def)
  moreover have "yield_or_unlock y s = Some s1" using e1 True by (simp add: yield_or_unlock_def)
  moreover have "qstep s (s1\<lparr>running := running s, masked := masked s\<rparr>)"
  proof -
    have "qstep s (s\<lparr>th_state := (th_state s)(t := THREAD_READY)\<rparr>)" by (rule qstepI) simp
    moreover have "qstep (s\<lparr>th_state := (th_state s)(t := THREAD_READY)\<rparr>) (s1\<lparr>running := running s, masked := masked s\<rparr>)"
      using di by (simp add: dispatched_def)
    ultimately show ?thesis by (rule qstep_trans)
  qed
  ultimately show ?thesis using True ok Q1 dispatched_prio [OF di]
    by (intro exI [of _ s1] exI [of _ Q1]) simp
next
  case False
  have on: "on_cpu t (chx_cpu_sched_unlock s) Q e" by (rule locked_unlock [OF l])
  then have "kernel_ok (chx_cpu_sched_unlock s) Q e" by (simp add: on_cpu_def)
  moreover have "(chx_cpu_sched_unlock s)\<lparr>running := running s, masked := masked s\<rparr> = s"
    by (simp add: chx_cpu_sched_unlock_def)
  ultimately show ?thesis using on False
    by (intro exI [of _ "chx_cpu_sched_unlock s"] exI [of _ Q])
      (simp add: yield_or_unlock_def, simp add: chx_cpu_sched_unlock_def)
qed

section \<open>Waiting, signalling, broadcasting\<close>

lemma chopstx_cond_wait_ok:
  assumes on: "on_cpu t s Q e" and c: "Condq c \<in> dom Q" and nc: "\<not> chopstx_testcancel s"
    and h: "case mutex of None \<Rightarrow> h = held e t | Some m \<Rightarrow> held e t = m # h"
  shows "\<exists>s' Q'. chopstx_cond_wait c mutex s = Some (Sleeps, s') \<and>
    kernel_ok s' Q' (e\<lparr>held := (held e)(t := h)\<rparr>) \<and> prio_top s' (e\<lparr>held := (held e)(t := h)\<rparr>) \<and>
    dom Q' = dom Q \<and> th_state s' t = THREAD_WAIT_CND \<and> inq Q' (Thr t) (Condq c) \<and>
    (\<forall>m. mutex = Some m \<longrightarrow> mtx_owner s' m = None) \<and>
    Q' (Condq c) = Some (enq_list (pq_prio s') (Thr t) (the (Q (Condq c)))) \<and>
    (\<forall>x. x \<noteq> Thr t \<longrightarrow> pq_prio s' x = pq_prio s x)"
proof -
  let ?s0 = "chx_cpu_sched_lock s" and ?e = "e\<lparr>held := (held e)(t := h)\<rparr>"
  have l0: "?s0 = s\<lparr>masked := True\<rparr>" "locked t ?s0 Q e" by (rule on_cpu_lock [OF on])+
  have st: "th_state ?s0 t = THREAD_RUNNING" and r: "running ?s0 = Some t" and t: "t \<in> threads e"
    and ma: "masked ?s0"
    using l0(2) by (auto simp: locked_def)
  obtain s1 Q1 where e1: "(case mutex of None \<Rightarrow> Some ?s0 | Some m \<Rightarrow> map_option snd (chx_mutex_unlock m ?s0)) = Some s1"
    and k1: "kinv {} (Some t) s1 Q1 ?e" and d1: "dom Q1 = dom Q"
    and f1: "running s1 = Some t" "masked s1" "th_state s1 t = THREAD_RUNNING"
    and o1: "\<forall>m. mutex = Some m \<longrightarrow> mtx_owner s1 m = None"
    and c1: "Q1 (Condq c) = Q (Condq c)" and p1: "\<forall>x. x \<noteq> Thr t \<longrightarrow> pq_prio s1 x = pq_prio s x"
  proof (cases mutex)
    case None
    show thesis
      by (rule that [of ?s0 Q]) (use None l0 h r st ma in \<open>simp_all add: locked_def fun_upd_idem\<close>)
  next
    case (Some m)
    have h': "held e t = m # h" using h Some by simp
    obtain pr s1 Q1 where "chx_mutex_unlock m ?s0 = Some (pr, s1)"
      "kinv {} (Some t) s1 Q1 ?e" "dom Q1 = dom Q" "running s1 = Some t" "masked s1 = masked ?s0"
      "mtx_owner s1 = (mtx_owner ?s0)(m := None)" "\<forall>q. q \<noteq> Mtxq m \<longrightarrow> q \<noteq> Qready \<longrightarrow> Q1 q = Q q"
      and c1: "case the (Q (Mtxq m)) of
         [] \<Rightarrow> pr = 0 \<and> th_state s1 = th_state ?s0 \<and> pq_prio s1 = pq_prio ?s0
       | x # xs \<Rightarrow> \<exists>u. x = Thr u \<and> u \<noteq> t \<and> u \<in> threads e \<and> pr = pq_prio ?s0 (Thr u) \<and>
           th_state s1 = (th_state ?s0)(u := THREAD_READY) \<and>
           pq_prio s1 = (pq_prio ?s0)(Thr t := ucast (unlock_prio ?s0 Q t h))"
      using chx_mutex_unlock_ok [OF locked_kinv [OF l0(2)] r t st h'] by blast
    moreover have "th_state s1 t = THREAD_RUNNING" using c1 st by (auto split: list.splits)
    moreover have "\<forall>x. x \<noteq> Thr t \<longrightarrow> pq_prio s1 x = pq_prio s x" using c1 l0(1) by (auto split: list.splits)
    ultimately show thesis by (intro that [of s1 Q1]) (use Some ma in simp_all)
  qed
  have t': "t \<in> threads ?e" using t by simp
  have cd: "Condq c \<in> dom Q1" using c d1 by simp
  obtain s2 Q2 where e2: "sleep_on (Condq c) THREAD_WAIT_CND s1 = Some s2" and ok: "kernel_ok s2 Q2 ?e"
    and top: "prio_top s2 ?e" and d2: "dom Q2 = dom Q1" and st2: "th_state s2 t = THREAD_WAIT_CND"
    and q2: "Q2 (Condq c) = Some (enq_list (pq_prio s1) (Thr t) (the (Q1 (Condq c))))"
    and o2: "mtx_owner s2 = mtx_owner s1" and p2: "pq_prio s2 = pq_prio s1"
    using sleep_on_ok [OF k1 f1(1) t' f1(3,2) cd, of THREAD_WAIT_CND] by auto
  have "chopstx_cond_wait c mutex s = Some (Sleeps, s2)"
    using nc e1 e2 by (simp add: chopstx_cond_wait_def)
  moreover have "Q2 (Condq c) = Some (enq_list (pq_prio s2) (Thr t) (the (Q (Condq c))))"
    using q2 c1 p2 by simp
  ultimately show ?thesis using ok top d1 d2 st2 o1 o2 p1 p2
    by (intro exI [of _ s2] exI [of _ Q2]) (simp add: inq_def)
qed

text \<open>
  What waking up a proxy does: its event is marked and counted, and the thread that polls with it
  no longer waits.
\<close>

definition px_woken :: "addr \<Rightarrow> 'z kst_scheme \<Rightarrow> 'z kst_scheme \<Rightarrow> bool" where
  "px_woken a s s' \<longleftrightarrow> (\<exists>d. px_ready_p s a = Some d \<and> pd_ready s' d = 1 \<and>
     counter s' (px_counter_p s a) = counter s (px_counter_p s a) + 1 \<and>
     (th_state s (px_master s a) = THREAD_WAIT_POLL \<longrightarrow>
        th_state s' (px_master s a) \<in> {THREAD_READY, THREAD_RUNNING}))"

text \<open>One entry of a queue is woken up inside a critical section.\<close>

lemma locked_wake:
  assumes l: "locked t s Q e" and q: "Q q = Some (x # xs)" and pq: "px_queue q"
  shows "\<exists>y s' Q'. ll_pop q s = (Some x, ll_dequeue x s) \<and> chx_wakeup x (ll_dequeue x s) = Some (y, s') \<and>
    locked t s' Q' e \<and> woken y s s' \<and> Q' q = Some xs \<and> dom Q' = dom Q \<and>
    (\<forall>u. x = Thr u \<longrightarrow> th_state s' u = THREAD_READY) \<and> (\<forall>a. x = Px a \<longrightarrow> px_woken a s s')"
proof -
  have k: "kinv {} (Some t) s Q e" using locked_kinv [OF l] .
  obtain y s' Q' where w: "chx_wakeup x (ll_dequeue x s) = Some (y, s')" "kinv {} (Some t) s' Q' e"
      "woken y s s'" "Q' q = Some (remove1 x (x # xs))" "\<forall>q'. q' \<notin> {q, Qready, Qtimer} \<longrightarrow> Q' q' = Q q'"
      "\<forall>u. x = Thr u \<longrightarrow> th_state s' u = THREAD_READY"
      "\<forall>a d. x = Px a \<longrightarrow> px_ready_p s a = Some d \<longrightarrow> pd_ready s' d = 1 \<and>
         counter s' (px_counter_p s a) = counter s (px_counter_p s a) + 1 \<and>
         th_state s' (px_master s a) \<noteq> THREAD_WAIT_POLL"
    using wake_from_queue [OF k q _ pq, of x] by auto
  have px: "px_woken a s s'" if a: "x = Px a" for a
  proof -
    have "inq Q (Px a) q" using q a by (simp add: inq_def)
    from kinv_px [OF k this] obtain d where d: "px_ready_p s a = Some d" by (auto simp: px_waits_def)
    have "th_state s' (px_master s a) = THREAD_READY \<or> th_state s' (px_master s a) = th_state s (px_master s a)"
      using w(3) unfolding woken_def by blast
    then show ?thesis using w(7) a d by (auto simp: px_woken_def)
  qed
  have "pq_next s q = x" using wfl_next [OF kinv_wfq [OF k] q] by simp
  moreover have "q \<noteq> x" using wfl_dll [OF kinv_wfq [OF k] q] by (simp add: dll_def)
  ultimately have "ll_pop q s = (Some x, ll_dequeue x s)" by (simp add: ll_pop_def)
  moreover have "locked t s' Q' e"
    by (rule locked_change [OF l w(2)])
      (use l wokenD [OF w(3)] woken_states [OF w(3), of t] in \<open>auto simp: locked_def\<close>)
  moreover have "dom Q' = dom Q"
    by (rule kinv_dom_eq3 [OF k w(2) _ _ w(5)]) (use q w(4) in auto)
  ultimately show ?thesis using w px by auto
qed

lemma locked_running: "locked t s Q e \<Longrightarrow> running s = Some t"
  by (simp add: locked_def)

lemma on_cpu_running: "on_cpu t s Q e \<Longrightarrow> running s = Some t"
  by (simp add: on_cpu_def)

lemma prio_top_cong:
  "prio_top s e \<Longrightarrow> th_state s' = th_state s \<Longrightarrow> pq_prio s' = pq_prio s \<Longrightarrow> running s' = running s \<Longrightarrow> prio_top s' e"
  by (simp add: prio_top_def)

lemma chopstx_cond_signal_ok:
  assumes on: "on_cpu t s Q e" and c: "Q (Condq c) = Some xs"
  shows "\<exists>s' Q'. chopstx_cond_signal c s = Some s' \<and> kernel_ok s' Q' e \<and> dom Q' = dom Q \<and>
    Q' (Condq c) = Some (tl xs) \<and> (prio_top s e \<longrightarrow> prio_top s' e) \<and>
    (\<forall>u. xs \<noteq> [] \<longrightarrow> hd xs = Thr u \<longrightarrow> th_state s' u \<in> {THREAD_READY, THREAD_RUNNING}) \<and>
    (\<forall>a. xs \<noteq> [] \<longrightarrow> hd xs = Px a \<longrightarrow> px_woken a s s')"
proof -
  let ?s0 = "chx_cpu_sched_lock s"
  have l0: "?s0 = s\<lparr>masked := True\<rparr>" "locked t ?s0 Q e" by (rule on_cpu_lock [OF on])+
  have on': "prio_top s e \<Longrightarrow> prio_top ?s0 e" using l0(1) by (simp add: prio_top_def)
  obtain y s1 Q1 where e1: "(case ll_pop (Condq c) ?s0 of (None, s) \<Rightarrow> Some (False, s)
      | (Some p, s) \<Rightarrow> chx_wakeup p s) = Some (y, s1)"
    and l1: "locked t s1 Q1 e" and w1: "woken y ?s0 s1" and Q1: "Q1 (Condq c) = Some (tl xs)"
    and d1: "dom Q1 = dom Q" and r1: "\<forall>u. xs \<noteq> [] \<longrightarrow> hd xs = Thr u \<longrightarrow> th_state s1 u = THREAD_READY"
    and x1: "\<forall>a. xs \<noteq> [] \<longrightarrow> hd xs = Px a \<longrightarrow> px_woken a ?s0 s1"
  proof (cases xs)
    case Nil
    then show thesis using ll_pop_empty [OF kinv_wfq [OF locked_kinv [OF l0(2)]], of "Condq c"] c l0
      by (intro that [of False ?s0 Q]) simp_all
  next
    case (Cons x ys)
    then obtain y s1 Q1 where "ll_pop (Condq c) ?s0 = (Some x, ll_dequeue x ?s0)"
      "chx_wakeup x (ll_dequeue x ?s0) = Some (y, s1)"
      "locked t s1 Q1 e" "woken y ?s0 s1" "Q1 (Condq c) = Some ys" "dom Q1 = dom Q"
      "\<forall>u. x = Thr u \<longrightarrow> th_state s1 u = THREAD_READY" "\<forall>a. x = Px a \<longrightarrow> px_woken a ?s0 s1"
      using locked_wake [OF l0(2), of "Condq c" x ys] c by auto
    then show thesis using Cons by (intro that [of y s1 Q1]) simp_all
  qed
  obtain s2 Q2 where e2: "yield_or_unlock y s1 = Some s2" and ok: "kernel_ok s2 Q2 e" and d2: "dom Q2 = dom Q1"
    and Q2: "\<forall>q. q \<noteq> Qready \<longrightarrow> q \<noteq> Qtimer \<longrightarrow> Q2 q = Q1 q" and pr: "pq_prio s2 = pq_prio s1"
    and st: "\<forall>u. th_state s1 u \<in> {THREAD_READY, THREAD_RUNNING} \<longleftrightarrow> th_state s2 u \<in> {THREAD_READY, THREAD_RUNNING}"
    and y: "if y then prio_top s2 e else on_cpu t s2 Q2 e \<and> th_state s2 = th_state s1"
    and qs: "qstep s1 (s2\<lparr>running := running s1, masked := masked s1\<rparr>)"
    using yield_or_unlock_ok [OF l1, of y] by blast
  have x2: "px_woken a s s2" if "xs \<noteq> []" "hd xs = Px a" for a
  proof -
    have "px_woken a ?s0 s1" using x1 that by blast
    then show ?thesis using st qstepD(16,17) [OF qs] l0(1) by (auto simp: px_woken_def)
  qed
  have "prio_top s2 e" if p: "prio_top s e"
  proof (cases y)
    case False
    have "prio_top s1 e" using prio_top_woken [OF on' [OF p]] w1 False by simp
    moreover have "running s2 = Some t" "running s1 = Some t"
      using y False locked_running [OF l1] on_cpu_running [of t s2 Q2 e] by simp_all
    ultimately show ?thesis using y False pr by (auto intro: prio_top_cong [of s1 e s2])
  qed (use y in simp)
  moreover have "chopstx_cond_signal c s = Some s2" using e1 e2 by (simp add: chopstx_cond_signal_def)
  moreover have "th_state s2 u \<in> {THREAD_READY, THREAD_RUNNING}" if "xs \<noteq> []" "hd xs = Thr u" for u
    using that r1 st by blast
  moreover have "Q2 (Condq c) = Some (tl xs)" using Q1 Q2 by simp
  moreover have "dom Q2 = dom Q" using d1 d2 by simp
  ultimately show ?thesis using ok x2 by (intro exI [of _ s2] exI [of _ Q2]) blast
qed

lemma cond_wake_all_ok:
  "locked t s Q e \<Longrightarrow> Q (Condq c) = Some xs \<Longrightarrow>
   \<exists>y s' Q'. cond_wake_all c y0 s = Some (y0 \<or> y, s') \<and> locked t s' Q' e \<and> woken y s s' \<and>
     Q' (Condq c) = Some [] \<and> dom Q' = dom Q \<and> (\<forall>u. Thr u \<in> set xs \<longrightarrow> th_state s' u = THREAD_READY)"
proof (induction xs arbitrary: s Q y0)
  case Nil
  then show ?case using ll_pop_empty [OF kinv_wfq [OF locked_kinv [OF Nil(1)]], of "Condq c"]
    by (intro exI [of _ False] exI [of _ s] exI [of _ Q]) (simp add: cond_wake_all.simps)
next
  case (Cons x xs)
  obtain y s1 Q1 where e1: "ll_pop (Condq c) s = (Some x, ll_dequeue x s)"
    "chx_wakeup x (ll_dequeue x s) = Some (y, s1)"
    and l1: "locked t s1 Q1 e" and w1: "woken y s s1" and q1: "Q1 (Condq c) = Some xs" and d1: "dom Q1 = dom Q"
    and r1: "\<forall>u. x = Thr u \<longrightarrow> th_state s1 u = THREAD_READY"
    using locked_wake [OF Cons.prems] by auto
  obtain z s2 Q2 where e2: "cond_wake_all c (y0 \<or> y) s1 = Some ((y0 \<or> y) \<or> z, s2)"
    and l2: "locked t s2 Q2 e" and w2: "woken z s1 s2" and q2: "Q2 (Condq c) = Some []" "dom Q2 = dom Q1"
    and r2: "\<forall>u. Thr u \<in> set xs \<longrightarrow> th_state s2 u = THREAD_READY"
    using Cons.IH [OF l1 q1, of "y0 \<or> y"] by blast
  have "th_state s2 u = THREAD_READY" if "Thr u \<in> set (x # xs)" for u
  proof (cases "Thr u \<in> set xs")
    case False
    then have "th_state s1 u = THREAD_READY" using that r1 by auto
    then show ?thesis using woken_states [OF w2, of u] by simp
  qed (use r2 in blast)
  moreover have "cond_wake_all c y0 s = Some (y0 \<or> (y \<or> z), s2)"
    using e1 e2 by (simp add: cond_wake_all.simps [of c y0 s] disj_assoc)
  ultimately show ?case using l2 woken_trans [OF w1 w2] q2 d1
    by (intro exI [of _ "y \<or> z"] exI [of _ s2] exI [of _ Q2]) simp
qed

lemma chopstx_cond_broadcast_ok:
  assumes on: "on_cpu t s Q e" and c: "Q (Condq c) = Some xs"
  shows "\<exists>s' Q'. chopstx_cond_broadcast c s = Some s' \<and> kernel_ok s' Q' e \<and> dom Q' = dom Q \<and>
    Q' (Condq c) = Some [] \<and> (prio_top s e \<longrightarrow> prio_top s' e) \<and>
    (\<forall>u. Thr u \<in> set xs \<longrightarrow> th_state s' u \<in> {THREAD_READY, THREAD_RUNNING})"
proof -
  let ?s0 = "chx_cpu_sched_lock s"
  have l0: "?s0 = s\<lparr>masked := True\<rparr>" "locked t ?s0 Q e" by (rule on_cpu_lock [OF on])+
  obtain y s1 Q1 where e1: "cond_wake_all c False ?s0 = Some (y, s1)"
    and l1: "locked t s1 Q1 e" and w1: "woken y ?s0 s1" and Q1: "Q1 (Condq c) = Some []"
    and d1: "dom Q1 = dom Q" and r1: "\<forall>u. Thr u \<in> set xs \<longrightarrow> th_state s1 u = THREAD_READY"
    using cond_wake_all_ok [OF l0(2) c, of False] by auto
  obtain s2 Q2 where e2: "yield_or_unlock y s1 = Some s2" and ok: "kernel_ok s2 Q2 e" and d2: "dom Q2 = dom Q1"
    and Q2: "\<forall>q. q \<noteq> Qready \<longrightarrow> q \<noteq> Qtimer \<longrightarrow> Q2 q = Q1 q" and pr: "pq_prio s2 = pq_prio s1"
    and st: "\<forall>u. th_state s1 u \<in> {THREAD_READY, THREAD_RUNNING} \<longleftrightarrow> th_state s2 u \<in> {THREAD_READY, THREAD_RUNNING}"
    and y: "if y then prio_top s2 e else on_cpu t s2 Q2 e \<and> th_state s2 = th_state s1"
    using yield_or_unlock_ok [OF l1, of y] by blast
  have "prio_top s2 e" if p: "prio_top s e"
  proof (cases y)
    case False
    have "prio_top ?s0 e" using p l0(1) by (simp add: prio_top_def)
    then have "prio_top s1 e" using prio_top_woken [of ?s0 e s1] w1 False by simp
    moreover have "running s2 = Some t" "running s1 = Some t"
      using y False locked_running [OF l1] on_cpu_running [of t s2 Q2 e] by simp_all
    ultimately show ?thesis using y False pr by (auto intro: prio_top_cong [of s1 e s2])
  qed (use y in simp)
  moreover have "chopstx_cond_broadcast c s = Some s2" using e1 e2 by (simp add: chopstx_cond_broadcast_def)
  moreover have "th_state s2 u \<in> {THREAD_READY, THREAD_RUNNING}" if "Thr u \<in> set xs" for u
    using that r1 st by blast
  moreover have "Q2 (Condq c) = Some ([])" using Q1 Q2 by simp
  moreover have "dom Q2 = dom Q" using d1 d2 by simp
  ultimately show ?thesis using ok by (intro exI [of _ s2] exI [of _ Q2]) blast
qed

end
