(* ===== verification/Thread.thy ===== *)
theory Thread
  imports Cond
begin

text \<open>
  The life of threads: \<open>chopstx_create\<close> (with the initial stack frame of
  \<open>chopstx_create_arch\<close>), \<open>chopstx_exit\<close> and \<open>chx_exit\<close>, \<open>chopstx_join\<close>, \<open>chopstx_cancel\<close>,
  \<open>chopstx_setcancelstate\<close>, the cleanup list, \<open>chopstx_setpriority\<close>, and sleeping with a
  timeout (\<open>chx_snooze\<close>, \<open>chopstx_usec_wait\<close>). Cleanup routines are the application's code:
  \<open>run r a s\<close> is the effect of the routine at address \<open>r\<close> with argument \<open>a\<close>.
\<close>

section \<open>Creating\<close>

definition CHOPSTX_ERR_THREAD_CREATE :: u32 where "CHOPSTX_ERR_THREAD_CREATE = 1"
definition CHOPSTX_ERR_JOIN :: u32 where "CHOPSTX_ERR_JOIN = 2"

definition CHOPSTX_PRIO_MASK :: u32 where "CHOPSTX_PRIO_MASK = push_bit 8 1 - 1"

definition sizeof_chx_thread :: u32 where "sizeof_chx_thread = 64"
definition sizeof_chx_stack_regs :: u32 where "sizeof_chx_stack_regs = 8 * 4"
definition INITIAL_XPSR :: u32 where "INITIAL_XPSR = 0x01000000"

text \<open>
  The thread structure lies at the top of the stack area, the eight registers the
  processor restores when the thread is first dispatched lie below it (\<open>regs\<close>: r0, r1, r2, r3, r12, lr,
  pc, xpsr), and the saved stack pointer points to them. \<open>None\<close>: the area is too small.
\<close>

record saved_context =
  reg_sp :: u32
  regs :: "u32 list"

definition chopstx_create_arch ::
  "u32 \<Rightarrow> u32 \<Rightarrow> u32 \<Rightarrow> u32 \<Rightarrow> u32 \<Rightarrow> (tid \<times> saved_context) option" where
  "chopstx_create_arch stack_addr stack_size thread_entry arg exit_addr =
     (if stack_size < sizeof_chx_thread + 8 * 4 then None
      else (let stack = stack_addr + stack_size - sizeof_chx_thread - sizeof_chx_stack_regs;
                tp = stack + sizeof_chx_stack_regs;
                reg = replicate 8 0;
                reg = reg[0 := arg];
                reg = reg[5 := exit_addr];
                reg = reg[6 := thread_entry];
                reg = reg[7 := INITIAL_XPSR]
            in Some (tp, \<lparr>reg_sp = stack, regs = reg\<rparr>)))"

text \<open>The fields of the new thread, then it competes for the processor.\<close>

definition thread_init :: "u32 \<Rightarrow> tid \<Rightarrow> 'z kst_scheme \<Rightarrow> 'z kst_scheme" where
  "thread_init flags_and_prio tp s =
     (let prio = ucast (flags_and_prio AND CHOPSTX_PRIO_MASK);
          s = init_head (Thr tp) s
      in s\<lparr>mutex_list := (mutex_list s)(tp := None),
           th_clp := (th_clp s)(tp := None),
           th_state := (th_state s)(tp := THREAD_EXITED),
           flag_got_cancel := (flag_got_cancel s)(tp := False),
           flag_join_req := (flag_join_req s)(tp := False),
           flag_cancelable := (flag_cancelable s)(tp := True),
           flag_sched_rr := (flag_sched_rr s)(tp := (flags_and_prio AND CHOPSTX_SCHED_RR \<noteq> 0)),
           flag_detached := (flag_detached s)(tp := (flags_and_prio AND CHOPSTX_DETACHED \<noteq> 0)),
           pq_is_proxy := (pq_is_proxy s)(Thr tp := False),
           prio_orig := (prio_orig s)(tp := prio),
           pq_prio := (pq_prio s)(Thr tp := prio),
           pq_parent := (pq_parent s)(Thr tp := None),
           pq_v := (pq_v s)(Thr tp := 0)\<rparr>)"

definition chopstx_create ::
  "u32 \<Rightarrow> u32 \<Rightarrow> u32 \<Rightarrow> u32 \<Rightarrow> u32 \<Rightarrow> u32 \<Rightarrow> 'z kst_scheme \<Rightarrow> (call \<times> 'z kst_scheme) option" where
  "chopstx_create flags_and_prio stack_addr stack_size thread_entry arg exit_addr s =
     (case chopstx_create_arch stack_addr stack_size thread_entry arg exit_addr of
        None \<Rightarrow> Some (Fatal CHOPSTX_ERR_THREAD_CREATE, s)
      | Some (tp, _) \<Rightarrow> do {
          let s = thread_init flags_and_prio tp s;
          let s = chx_cpu_sched_lock s;
          s \<leftarrow> chx_ready_enqueue tp s;
          s \<leftarrow> yield_or_unlock (pq_prio s (Thr (cur s)) < pq_prio s (Thr tp)) s;
          Some (Returns tp, s) })"

section \<open>Exit\<close>

definition chx_exit :: "u32 \<Rightarrow> 'z kst_scheme \<Rightarrow> 'z kst_scheme option" where
  "chx_exit retval s = do {
     let tp = cur s;
     let s = chx_cpu_sched_lock s;
     s \<leftarrow> (if flag_join_req s tp then do {
             p \<leftarrow> seek_v tp (pq_next s Qjoin) Qjoin s;
             (case p of
                None \<Rightarrow> Some s
              | Some p \<Rightarrow> do {
                  (_, s) \<leftarrow> chx_wakeup p (ll_dequeue p s);
                  Some s }) }
           else Some s);
     s \<leftarrow> rr_stop tp s;
     let s = s\<lparr>th_state := (th_state s)(tp := (if flag_detached s tp then THREAD_FINISHED else THREAD_EXITED))\<rparr>;
     let s = s\<lparr>pq_v := (pq_v s)(Thr tp := retval)\<rparr>;
     chx_sched CHX_SLEEP s }"

text \<open>The cleanup routines, last pushed first; the list is read after each call.\<close>

partial_function (option) run_cleanups ::
  "(addr \<Rightarrow> addr \<Rightarrow> 'z kst_scheme \<Rightarrow> 'z kst_scheme option) \<Rightarrow> addr option \<Rightarrow>
   'z kst_scheme \<Rightarrow> 'z kst_scheme option" where
  "run_cleanups run clp s =
     (case clp of
        None \<Rightarrow> Some s
      | Some c \<Rightarrow> do {
          s \<leftarrow> run (clp_routine s c) (clp_arg s c) s;
          run_cleanups run (clp_next s c) s })"

text \<open>\<open>for (m = running->mutex_list; m; m = m_next)\<close>\<close>

partial_function (option) release_all :: "mid option \<Rightarrow> 'z kst_scheme \<Rightarrow> 'z kst_scheme option" where
  "release_all mo s =
     (case mo of
        None \<Rightarrow> Some s
      | Some m \<Rightarrow> do {
          let m_next = mtx_list s m;
          (_, s) \<leftarrow> chx_mutex_unlock m (chx_cpu_sched_lock s);
          release_all m_next (chx_cpu_sched_unlock s) })"

definition chopstx_exit ::
  "(addr \<Rightarrow> addr \<Rightarrow> 'z kst_scheme \<Rightarrow> 'z kst_scheme option) \<Rightarrow> u32 \<Rightarrow>
   'z kst_scheme \<Rightarrow> 'z kst_scheme option" where
  "chopstx_exit run retval s = do {
     let clp = th_clp s (cur s);
     let s = s\<lparr>th_clp := (th_clp s)(cur s := None)\<rparr>;
     s \<leftarrow> run_cleanups run clp s;
     s \<leftarrow> release_all (mutex_list s (cur s)) s;
     chx_exit retval s }"

definition chopstx_cleanup_push :: "addr \<Rightarrow> 'z kst_scheme \<Rightarrow> 'z kst_scheme" where
  "chopstx_cleanup_push clp s =
     (let s = s\<lparr>clp_next := (clp_next s)(clp := th_clp s (cur s))\<rparr>
      in s\<lparr>th_clp := (th_clp s)(cur s := Some clp)\<rparr>)"

definition chopstx_cleanup_pop ::
  "(addr \<Rightarrow> addr \<Rightarrow> 'z kst_scheme \<Rightarrow> 'z kst_scheme option) \<Rightarrow> bool \<Rightarrow>
   'z kst_scheme \<Rightarrow> 'z kst_scheme option" where
  "chopstx_cleanup_pop run execute s =
     (case th_clp s (cur s) of
        None \<Rightarrow> Some s
      | Some clp \<Rightarrow>
          (let s = s\<lparr>th_clp := (th_clp s)(cur s := clp_next s clp)\<rparr>
           in if execute then run (clp_routine s clp) (clp_arg s clp) s else Some s))"

section \<open>Sleeping with a timeout\<close>

definition MAX_USEC_FOR_TIMER :: u32 where "MAX_USEC_FOR_TIMER = 16777215 div MHZ"

definition snooze_usec :: "u32 \<Rightarrow> u32" where
  "snooze_usec usec = (if MAX_USEC_FOR_TIMER < usec then MAX_USEC_FOR_TIMER else usec)"

text \<open>
  \<open>chx_snooze\<close> up to \<open>chx_sched\<close> (called with interrupts masked), and its rest: from the remaining
  time \<open>usec\<close> and the result \<open>r\<close> of \<open>chx_sched\<close>, the value returned and the time still to wait.
\<close>

definition chx_snooze :: "tstate \<Rightarrow> u32 \<Rightarrow> 'z kst_scheme \<Rightarrow> (call \<times> 'z kst_scheme) option" where
  "chx_snooze st usec s =
     (if usec = 0 then Some (Returns 1, chx_cpu_sched_unlock s)
      else do {
        let tp = cur s;
        s \<leftarrow> rr_stop tp s;
        let s = s\<lparr>th_state := (th_state s)(tp := st)\<rparr>;
        s \<leftarrow> chx_timer_insert tp (snooze_usec usec) s;
        s \<leftarrow> chx_sched CHX_SLEEP s;
        Some (Sleeps, s) })"

definition chx_snooze_resume :: "u32 \<Rightarrow> u32 \<Rightarrow> u32 \<times> u32" where
  "chx_snooze_resume usec r =
     (if r = 0 then (0, usec - snooze_usec usec)
      else if 0 < sint r then (1, usec - (snooze_usec usec - r div MHZ))
      else (r, usec))"

text \<open>
  The loop of \<open>chopstx_usec_wait_var\<close>: one round up to \<open>chx_sched\<close>, and what follows (\<open>None\<close>:
  another round, with the time left).
\<close>

definition chopstx_usec_wait_var :: "u32 \<Rightarrow> 'z kst_scheme \<Rightarrow> (call \<times> 'z kst_scheme) option" where
  "chopstx_usec_wait_var usec s =
     (if chopstx_testcancel s then Some (Exits CHOPSTX_CANCELED, s)
      else chx_snooze THREAD_WAIT_TIME usec (chx_cpu_sched_lock s))"

definition chopstx_usec_wait_resume :: "u32 \<Rightarrow> u32 \<Rightarrow> call option \<times> u32" where
  "chopstx_usec_wait_resume usec r =
     (case chx_snooze_resume usec r of (r, left) \<Rightarrow> (if r = 0 then None else Some (Returns r), left))"

section \<open>Join\<close>

text \<open>The priority inheritance loop of \<open>chopstx_join\<close>; \<open>tp\<close> is the running thread.\<close>

partial_function (option) join_pi :: "tid \<Rightarrow> tid option \<Rightarrow> 'z kst_scheme \<Rightarrow> 'z kst_scheme option" where
  "join_pi tp tp0 s =
     (case tp0 of
        None \<Rightarrow> Some s
      | Some t0 \<Rightarrow>
          if pq_prio s (Thr t0) < pq_prio s (Thr tp) then do {
            (t1, s) \<leftarrow> requeue t0 (s\<lparr>pq_prio := (pq_prio s)(Thr t0 := pq_prio s (Thr tp))\<rparr>);
            join_pi tp t1 s }
          else Some s)"

text \<open>
  The end of \<open>chopstx_join\<close>, with \<open>r\<close> the result of \<open>chx_sched\<close>, or 0 if the thread had exited
  before: how the call ends, and what is stored through \<open>ret\<close>.
\<close>

definition chopstx_join_resume ::
  "tid \<Rightarrow> u32 \<Rightarrow> 'z kst_scheme \<Rightarrow> (call \<times> u32 option) \<times> 'z kst_scheme" where
  "chopstx_join_resume tp r s =
     (if sint r < 0 then ((Exits CHOPSTX_CANCELED, None), s)
      else if r = 0 then ((Returns r, Some (pq_v s (Thr tp))), s\<lparr>th_state := (th_state s)(tp := THREAD_FINISHED)\<rparr>)
      else ((Returns r, None), s))"

definition chopstx_join ::
  "tid \<Rightarrow> 'z kst_scheme \<Rightarrow> ((call \<times> u32 option) \<times> 'z kst_scheme) option" where
  "chopstx_join tp s =
     (if chopstx_testcancel s then Some ((Exits CHOPSTX_CANCELED, None), s)
      else do {
        let r = cur s;
        let s = chx_cpu_sched_lock s;
        if flag_detached s tp then Some ((Fatal CHOPSTX_ERR_JOIN, None), chx_cpu_sched_unlock s)
        else if th_state s tp \<noteq> THREAD_EXITED then do {
          s \<leftarrow> rr_stop r s;
          s \<leftarrow> ll_prio_enqueue (Thr r) Qjoin s;
          let s = s\<lparr>pq_v := (pq_v s)(Thr r := tp)\<rparr>;
          let s = s\<lparr>th_state := (th_state s)(r := THREAD_WAIT_EXIT)\<rparr>;
          let s = s\<lparr>flag_join_req := (flag_join_req s)(tp := True)\<rparr>;
          s \<leftarrow> join_pi r (Some tp) s;
          s \<leftarrow> chx_sched CHX_SLEEP s;
          Some ((Sleeps, None), s) }
        else Some (chopstx_join_resume tp 0 (chx_cpu_sched_unlock s)) })"

section \<open>Cancellation\<close>

definition chopstx_cancel :: "tid \<Rightarrow> 'z kst_scheme \<Rightarrow> 'z kst_scheme option" where
  "chopstx_cancel tp s = do {
     let s = chx_cpu_sched_lock s;
     let s = s\<lparr>flag_got_cancel := (flag_got_cancel s)(tp := True)\<rparr>;
     if \<not> flag_cancelable s tp then Some (chx_cpu_sched_unlock s)
     else do {
       (wake, s) \<leftarrow>
         (if th_state s tp = THREAD_WAIT_CND then Some (True, ll_dequeue (Thr tp) s)
          else if th_state s tp = THREAD_WAIT_TIME then do {
            (_, s) \<leftarrow> chx_timer_dequeue tp s;
            Some (True, s) }
          else if th_state s tp = THREAD_WAIT_EXIT then Some (True, ll_dequeue (Thr tp) s)
          else if th_state s tp = THREAD_WAIT_POLL then
            (if pq_parent s (Thr tp) = Some Qtimer then do {
               (_, s) \<leftarrow> chx_timer_dequeue tp s;
               Some (True, s) }
             else Some (True, s))
          else Some (False, s));
       if \<not> wake then Some (chx_cpu_sched_unlock s)
       else do {
         let s = s\<lparr>pq_v := (pq_v s)(Thr tp := - 1)\<rparr>;
         s \<leftarrow> chx_ready_enqueue tp s;
         yield_or_unlock (pq_prio s (Thr (cur s)) < pq_prio s (Thr tp)) s } } }"

text \<open>The old state, and whether the call goes on with \<open>chopstx_exit\<close>.\<close>

definition chopstx_setcancelstate :: "u32 \<Rightarrow> 'z kst_scheme \<Rightarrow> call \<times> 'z kst_scheme" where
  "chopstx_setcancelstate cancel_disable s =
     (let old_state = \<not> flag_cancelable s (cur s);
          s = s\<lparr>flag_cancelable := (flag_cancelable s)(cur s := (cancel_disable = 0))\<rparr>
      in (if chopstx_testcancel s then Exits CHOPSTX_CANCELED else Returns (of_bool old_state), s))"

section \<open>Priority and idle\<close>

definition chopstx_setpriority :: "u8 \<Rightarrow> 'z kst_scheme \<Rightarrow> (u8 \<times> 'z kst_scheme) option" where
  "chopstx_setpriority prio_new s = do {
     let tp = cur s;
     let s = chx_cpu_sched_lock s;
     let old = prio_orig s tp;
     let prio_cur = pq_prio s (Thr tp);
     let s = s\<lparr>prio_orig := (prio_orig s)(tp := prio_new)\<rparr>;
     let s = (if prio_cur = old then s\<lparr>pq_prio := (pq_prio s)(Thr tp := prio_new)\<rparr>
              else if prio_cur < prio_new then s\<lparr>pq_prio := (pq_prio s)(Thr tp := prio_new)\<rparr>
              else s);
     s \<leftarrow> (if pq_prio s (Thr tp) < prio_cur then chx_sched CHX_YIELD s
           else if pq_prio s (Thr tp) < CHOPSTX_PRIO_INHIBIT_PREEMPTION then Some (chx_cpu_sched_unlock s)
           else Some s);
     Some (old, s) }"

text \<open>\<open>chx_sleep_mode\<close> sets registers of the MCU that are not in the state.\<close>

definition chopstx_conf_idle :: "int \<Rightarrow> 'z kst_scheme \<Rightarrow> int \<times> 'z kst_scheme" where
  "chopstx_conf_idle enable_sleep s = (chx_allow_sleep s, s\<lparr>chx_allow_sleep := enable_sleep\<rparr>)"

section \<open>A thread becomes ready, and the caller may yield\<close>

lemma ready_yield_ok:
  assumes k: "kinv {u} (Some t) s Q e" and u: "u \<in> threads e" "u \<noteq> t" and t: "t \<in> threads e"
    and r: "running s = Some t" and st: "th_state s t = THREAD_RUNNING" and m: "masked s"
  shows "\<exists>s1 s' Q'. chx_ready_enqueue u s = Some s1 \<and> cur s1 = t \<and>
    yield_or_unlock (pq_prio s1 (Thr t) < pq_prio s1 (Thr u)) s1 = Some s' \<and>
    kernel_ok s' Q' e \<and> dom Q' = dom Q \<and> (\<forall>q. q \<noteq> Qready \<longrightarrow> q \<noteq> Qtimer \<longrightarrow> Q' q = Q q) \<and>
    pq_prio s' = pq_prio s \<and> mtx_owner s' = mtx_owner s \<and>
    th_state s' u \<in> {THREAD_READY, THREAD_RUNNING} \<and> th_state s' t \<in> {THREAD_READY, THREAD_RUNNING} \<and>
    (prio_top s e \<longrightarrow> prio_top s' e) \<and>
    (\<not> pq_prio s (Thr t) < pq_prio s (Thr u) \<longrightarrow> on_cpu t s' Q' e) \<and>
    qstep s (s'\<lparr>running := running s, masked := masked s\<rparr>)"
proof -
  obtain xs where q: "Q Qready = Some xs" using kinv_head [OF k] by blast
  let ?Q1 = "Q(Qready \<mapsto> enq_list (pq_prio s) (Thr u) xs)"
  obtain n p where e1: "chx_ready_enqueue u s = Some (to_ready u n p s)"
    and k1: "kinv ({u} - {u}) (Some t) (to_ready u n p s) ?Q1 e"
    using kinv_ready_enqueue [OF k u(1) _ q] by blast
  let ?i = "to_ready u n p s"
  have l1: "locked t ?i ?Q1 e" using k1 r st m u t by (simp add: locked_def)
  let ?y = "pq_prio ?i (Thr t) < pq_prio ?i (Thr u)"
  obtain s2 Q2 where e2: "yield_or_unlock ?y ?i = Some s2" and ok: "kernel_ok s2 Q2 e" and d2: "dom Q2 = dom ?Q1"
    and Q2: "\<forall>q. q \<noteq> Qready \<longrightarrow> q \<noteq> Qtimer \<longrightarrow> Q2 q = ?Q1 q" and pr: "pq_prio s2 = pq_prio ?i"
    and ow: "mtx_owner s2 = mtx_owner ?i"
    and st2: "\<forall>u'. th_state ?i u' \<in> {THREAD_READY, THREAD_RUNNING} \<longleftrightarrow> th_state s2 u' \<in> {THREAD_READY, THREAD_RUNNING}"
    and y: "if ?y then prio_top s2 e else on_cpu t s2 Q2 e \<and> th_state s2 = th_state ?i"
    and qs: "qstep ?i (s2\<lparr>running := running ?i, masked := masked ?i\<rparr>)"
    using yield_or_unlock_ok [OF l1, of ?y] by blast
  have top: "prio_top s2 e" if p: "prio_top s e"
  proof (cases ?y)
    case False
    have "prio_top ?i e" using p r False by (auto simp: prio_top_def)
    moreover have "running s2 = Some t" using y False on_cpu_running [of t s2 Q2 e] by simp
    ultimately show ?thesis using y False pr r prio_top_cong [of ?i e s2] by simp
  qed (use y in simp)
  have "th_state ?i u \<in> {THREAD_READY, THREAD_RUNNING}" by simp
  then have su: "th_state s2 u \<in> {THREAD_READY, THREAD_RUNNING}" using st2 by blast
  have "th_state ?i t \<in> {THREAD_READY, THREAD_RUNNING}" using st u(2) by simp
  then have stt: "th_state s2 t \<in> {THREAD_READY, THREAD_RUNNING}" using st2 by blast
  have dm: "dom Q2 = dom Q" using d2 q by auto
  have c: "cur ?i = t" using r by simp
  have on: "\<not> pq_prio s (Thr t) < pq_prio s (Thr u) \<longrightarrow> on_cpu t s2 Q2 e" using y by auto
  have pr': "pq_prio s2 = pq_prio s" "mtx_owner s2 = mtx_owner s" using pr ow by simp_all
  have Q2': "\<forall>q. q \<noteq> Qready \<longrightarrow> q \<noteq> Qtimer \<longrightarrow> Q2 q = Q q" using Q2 by simp
  have top': "prio_top s e \<longrightarrow> prio_top s2 e" using top by blast
  have qs': "qstep s (s2\<lparr>running := running s, masked := masked s\<rparr>)"
    using qstep_trans [OF _ qs] by (simp add: qstepI)
  show ?thesis
    by (rule exI [of _ ?i], rule exI [of _ s2], rule exI [of _ Q2], intro conjI)
      (fact e1 c e2 ok dm Q2' pr' su stt top' on qs')+
qed

section \<open>Creation\<close>

lemma kinv_new_thread:
  assumes k: "kinv X r s Q e" and tp: "tp \<notin> threads e" "tp \<noteq> 0"
  shows "kinv (insert tp X) r (thread_init fp tp s) Q
    (e\<lparr>threads := insert tp (threads e), held := (held e)(tp := [])\<rparr>)" (is "kinv ?X r ?s Q ?e")
proof -
  have nq: "\<not> inq Q (Thr tp) q" for q using kinv_thread [OF k] tp(1) by blast
  have f: "pq_next ?s x = (if x = Thr tp then x else pq_next s x)"
    "pq_prev ?s x = (if x = Thr tp then x else pq_prev s x)"
    "pq_prio ?s x = (if x = Thr tp then ucast (fp AND CHOPSTX_PRIO_MASK) else pq_prio s x)"
    "pq_v ?s x = (if x = Thr tp then 0 else pq_v s x)"
    "pq_parent ?s x = (if x = Thr tp then None else pq_parent s x)"
    "pq_is_proxy ?s x = (if x = Thr tp then False else pq_is_proxy s x)"
    "th_state ?s u = (if u = tp then THREAD_EXITED else th_state s u)"
    "mutex_list ?s u = (if u = tp then None else mutex_list s u)"
    "flag_sched_rr ?s u = (if u = tp then (fp AND CHOPSTX_SCHED_RR \<noteq> 0) else flag_sched_rr s u)"
    "systick ?s = systick s" "px_master ?s = px_master s" "px_ready_p ?s = px_ready_p s" "pd_ready ?s = pd_ready s"
    "mtx_owner ?s = mtx_owner s" "mtx_list ?s = mtx_list s" for x u
    by (simp_all add: thread_init_def init_head_def Let_def)
  have w: "wfl (pq_next ?s) (pq_prev ?s) Q"
  proof -
    have "dll (pq_next ?s) (pq_prev ?s) q xs = dll (pq_next s) (pq_prev s) q xs" if "Q q = Some xs" for q xs
    proof (rule dll_cong)
      fix x assume x: "x \<in> insert q (set xs)"
      then have "x \<noteq> Thr tp"
        using nq [of q] that wfl_head [OF kinv_wfq [OF k] that] by (auto simp: inq_def)
      then show "pq_next ?s x = pq_next s x \<and> pq_prev ?s x = pq_prev s x" by (simp add: f)
    qed
    then show ?thesis using kinv_wfq [OF k] by (simp add: wfl_def)
  qed
  have "queues_ok ?s Q ?e"
    unfolding queues_ok_def
  proof (intro conjI allI impI)
    show "wfq ?s Q" by (rule w)
    show "{Qready, Qtimer, Qjoin, Qintr} \<subseteq> dom Q" using k by (simp add: kinv_def queues_ok_def)
    show "pq_parent ?s x = Some q" if "inq Q x q" for x q
      using that kinv_parent [OF k that] nq by (auto simp: f)
    show "t \<in> threads ?e" if "inq Q (Thr t) q" for t q using kinv_thread [OF k that] by simp
    show "a \<in> proxies ?e" "px_queue q" "px_waits (px_ready_p ?s a) (pd_ready ?s)" if "inq Q (Px a) q" for a q
      using kinv_px [OF k that] by (simp_all add: f)
  qed
  moreover have "objects_ok ?s Q ?e"
    using k tp unfolding kinv_def objects_ok_def selflinked_def by (auto simp: f)
  moreover have "order_ok ?s Q"
    unfolding order_ok_def
  proof (intro conjI allI impI)
    fix q xs assume q: "Q q = Some xs" and so: "prio_sorted q"
    have "Thr tp \<notin> set xs" using nq [of q] q by (auto simp: inq_def)
    then have "desc (pq_prio ?s) xs = desc (pq_prio s) xs" by (intro desc_cong) (auto simp: f)
    then show "desc (pq_prio ?s) xs" using order_okD [OF kinv_order [OF k] q so] by simp
  next
    fix xs assume q: "Q Qtimer = Some xs"
    have "Thr tp \<notin> set xs" using nq [of Qtimer] q by (auto simp: inq_def)
    moreover have "Qtimer \<notin> set xs" using wfl_node [OF kinv_wfq [OF k] q, of Qtimer] by auto
    ultimately have "timer_ok s xs = timer_ok ?s xs" by (intro timer_ok_cong) (auto simp: f)
    then show "timer_ok ?s xs" using kinv_order [OF k] q by (simp add: order_ok_def)
  qed
  moreover have "locks_ok ?s Q ?e"
  proof -
    have own: "mtx_owner s m = Some u \<longleftrightarrow> u \<in> threads e \<and> m \<in> set (held e u)" if "Mtxq m \<in> dom Q" for m u
      using k that unfolding kinv_def locks_ok_def by blast
    show ?thesis
      unfolding locks_ok_def
    proof (intro conjI ballI allI impI)
      fix u assume u: "u \<in> threads ?e"
      show "mchain (mtx_list ?s) (mutex_list ?s u) (held ?e u)" "distinct (held ?e u)"
        using u k by (auto simp: f kinv_def locks_ok_def)
      show "Mtxq m \<in> dom Q" if "m \<in> set (held ?e u)" for m
        using that u k by (auto simp: kinv_def locks_ok_def split: if_splits)
    next
      fix m u assume m: "Mtxq m \<in> dom Q"
      show "mtx_owner ?s m = Some u \<longleftrightarrow> u \<in> threads ?e \<and> m \<in> set (held ?e u)"
        using own [OF m, of u] tp by (auto simp: f)
    qed
  qed
  moreover have "if u \<in> ?X then loose Q (Thr u) else thread_at r ?s Q ?e u" if u: "u \<in> threads ?e" for u
  proof (cases "u = tp")
    case True
    then show ?thesis using nq by (simp add: loose_inq)
  next
    case False
    then have ue: "u \<in> threads e" using u by simp
    show ?thesis
    proof (cases "u \<in> X")
      case True
      then show ?thesis using kinv_loose [OF k ue True] by simp
    next
      case nX: False
      have "thread_at r ?s Q ?e u" using kinv_at [OF k ue nX] False by (auto simp: thread_at_def f)
      then show ?thesis using nX False by simp
    qed
  qed
  ultimately show ?thesis unfolding kinv_def by blast
qed

lemma lock_masks:
  "running s = Some t \<Longrightarrow> (247 < pq_prio s (Thr t) \<Longrightarrow> masked s) \<Longrightarrow> chx_cpu_sched_lock s = s\<lparr>masked := True\<rparr>"
  using prio_248 [of "pq_prio s (Thr t)"]
  by (cases s) (auto simp: chx_cpu_sched_lock_def CHOPSTX_PRIO_INHIBIT_PREEMPTION_def)

lemma on_cpu_masked: "on_cpu t s Q e \<Longrightarrow> 247 < pq_prio s (Thr t) \<Longrightarrow> masked s"
  by (auto simp: on_cpu_def kernel_ok_def)

lemma thread_init_simps [simp]:
  "running (thread_init fp tp s) = running s" "masked (thread_init fp tp s) = masked s"
  "mtx_owner (thread_init fp tp s) = mtx_owner s" "pendsv (thread_init fp tp s) = pendsv s"
  "flag_got_cancel (thread_init fp tp s) = (flag_got_cancel s)(tp := False)"
  "flag_detached (thread_init fp tp s) = (flag_detached s)(tp := (fp AND CHOPSTX_DETACHED \<noteq> 0))"
  "th_state (thread_init fp tp s) = (th_state s)(tp := THREAD_EXITED)"
  "pq_prio (thread_init fp tp s) = (pq_prio s)(Thr tp := ucast (fp AND CHOPSTX_PRIO_MASK))"
  by (simp_all add: thread_init_def init_head_def Let_def)

abbreviation with_thread :: "tid \<Rightarrow> env \<Rightarrow> env" where
  "with_thread tp e \<equiv> e\<lparr>threads := insert tp (threads e), held := (held e)(tp := [])\<rparr>"

lemma qstep_flags: "qstep s s' \<Longrightarrow> flag_got_cancel s' = flag_got_cancel s \<and> pendsv s' = pendsv s \<and>
   flag_detached s' = flag_detached s"
  by (auto simp: qstep_def)

lemma chopstx_create_ok:
  assumes on: "on_cpu t s Q e" and a: "chopstx_create_arch stk sz entry arg ex = Some (tp, ctx)"
    and tp: "tp \<notin> threads e" "tp \<noteq> 0"
  shows "\<exists>s' Q'. chopstx_create fp stk sz entry arg ex s = Some (Returns tp, s') \<and>
    kernel_ok s' Q' (with_thread tp e) \<and> dom Q' = dom Q \<and>
    (\<forall>q. q \<noteq> Qready \<longrightarrow> q \<noteq> Qtimer \<longrightarrow> Q' q = Q q) \<and>
    pq_prio s' = (pq_prio s)(Thr tp := ucast (fp AND CHOPSTX_PRIO_MASK)) \<and> pendsv s' = pendsv s \<and>
    flag_got_cancel s' = (flag_got_cancel s)(tp := False) \<and>
    flag_detached s' = (flag_detached s)(tp := (fp AND CHOPSTX_DETACHED \<noteq> 0)) \<and> th_state s' tp \<in> {THREAD_READY, THREAD_RUNNING} \<and>
    th_state s' t \<in> {THREAD_READY, THREAD_RUNNING} \<and>
    (prio_top s e \<longrightarrow> prio_top s' (with_thread tp e)) \<and>
    (pq_prio s' (Thr tp) \<le> pq_prio s (Thr t) \<longrightarrow> on_cpu t s' Q' (with_thread tp e))"
proof -
  have k: "kinv {} (Some t) s Q e" and r: "running s = Some t" and st: "th_state s t = THREAD_RUNNING"
    and t: "t \<in> threads e"
    using on on_cpu_kinv [OF on] on_cpu_thread [OF on] by (auto simp: on_cpu_def)
  have ne: "t \<noteq> tp" using t tp by auto
  let ?i = "thread_init fp tp s" and ?e = "with_thread tp e"
  have l: "chx_cpu_sched_lock ?i = ?i\<lparr>masked := True\<rparr>"
    by (rule lock_masks [of _ t]) (use r ne on_cpu_masked [OF on] in auto)
  have k1: "kinv {tp} (Some t) (?i\<lparr>masked := True\<rparr>) Q ?e"
    using kinv_new_thread [OF k tp, of fp] by simp
  obtain s1 s' Q' where e1: "chx_ready_enqueue tp (?i\<lparr>masked := True\<rparr>) = Some s1" and c: "cur s1 = t"
    and e2: "yield_or_unlock (pq_prio s1 (Thr t) < pq_prio s1 (Thr tp)) s1 = Some s'"
    and ok: "kernel_ok s' Q' ?e" and d: "dom Q' = dom Q"
    and Q': "\<forall>q. q \<noteq> Qready \<longrightarrow> q \<noteq> Qtimer \<longrightarrow> Q' q = Q q"
    and pr: "pq_prio s' = pq_prio (?i\<lparr>masked := True\<rparr>)"
    and st': "th_state s' tp \<in> {THREAD_READY, THREAD_RUNNING}"
    and stt: "th_state s' t \<in> {THREAD_READY, THREAD_RUNNING}"
    and top: "prio_top (?i\<lparr>masked := True\<rparr>) ?e \<longrightarrow> prio_top s' ?e"
    and on': "\<not> pq_prio (?i\<lparr>masked := True\<rparr>) (Thr t) < pq_prio (?i\<lparr>masked := True\<rparr>) (Thr tp) \<longrightarrow> on_cpu t s' Q' ?e"
    and qs: "qstep (?i\<lparr>masked := True\<rparr>) (s'\<lparr>running := running (?i\<lparr>masked := True\<rparr>), masked := True\<rparr>)"
    using ready_yield_ok [OF k1 _ ne [symmetric]] t r st ne by auto
  have fl: "flag_got_cancel s' = (flag_got_cancel s)(tp := False)" "pendsv s' = pendsv s"
      "flag_detached s' = (flag_detached s)(tp := (fp AND CHOPSTX_DETACHED \<noteq> 0))"
    using qstep_flags [OF qs] by simp_all
  have run: "chopstx_create fp stk sz entry arg ex s = Some (Returns tp, s')"
    using a l e1 e2 c by (simp add: chopstx_create_def)
  have tp': "prio_top s e \<longrightarrow> prio_top s' ?e"
  proof
    assume p: "prio_top s e"
    have "prio_top (?i\<lparr>masked := True\<rparr>) ?e" using p r ne tp(1) by (auto simp: prio_top_def)
    then show "prio_top s' ?e" using top by blast
  qed
  have on'': "pq_prio s' (Thr tp) \<le> pq_prio s (Thr t) \<longrightarrow> on_cpu t s' Q' ?e"
    using on' pr ne by (simp add: not_less)
  have pr': "pq_prio s' = (pq_prio s)(Thr tp := ucast (fp AND CHOPSTX_PRIO_MASK))" using pr by simp
  show ?thesis
    by (rule exI [of _ s'], rule exI [of _ Q'], intro conjI) (fact run ok d Q' pr' fl st' stt tp' on'')+
qed

text \<open>The thread structure and the first frame lie inside the stack area.\<close>

lemma chopstx_create_arch_layout:
  assumes sz: "96 \<le> stk_size" and nw: "unat stk_addr + unat stk_size < 2 ^ 32"
  shows "\<exists>tp c. chopstx_create_arch stk_addr stk_size entry arg ex = Some (tp, c) \<and>
    unat (reg_sp c) = unat stk_addr + unat stk_size - 96 \<and> unat tp = unat (reg_sp c) + 32 \<and>
    unat tp + 64 = unat stk_addr + unat stk_size \<and>
    regs c = [arg, 0, 0, 0, 0, ex, entry, INITIAL_XPSR]"
proof -
  have s: "96 \<le> unat stk_size" using sz by (simp add: word_le_nat_alt)
  define S where "S = stk_addr + stk_size - 64 - 32"
  have a: "unat (stk_addr + stk_size) = unat stk_addr + unat stk_size" using nw by (simp add: unat_word_ariths)
  have b: "unat S = unat stk_addr + unat stk_size - 96"
    using a s by (simp add: S_def unat_sub_if' word_le_nat_alt)
  have c: "unat (S + 32) = unat S + 32"
    using b nw s by (simp add: unat_word_ariths)
  have "replicate 8 (0::u32) = [0, 0, 0, 0, 0, 0, 0, 0]" by (simp add: numeral_eq_Suc)
  then have d: "(replicate 8 0)[0 := arg, 5 := ex, 6 := entry, 7 := INITIAL_XPSR] =
      [arg, 0, 0, 0, 0, ex, entry, INITIAL_XPSR]" by simp
  have "chopstx_create_arch stk_addr stk_size entry arg ex =
      Some (S + 32, \<lparr>reg_sp = S, regs = [arg, 0, 0, 0, 0, ex, entry, INITIAL_XPSR]\<rparr>)"
    using sz by (simp add: chopstx_create_arch_def sizeof_chx_thread_def sizeof_chx_stack_regs_def S_def d
        not_less)
  then show ?thesis using b c s by simp
qed

section \<open>Exit\<close>

lemma kinv_exited:
  assumes k: "kinv {t} (Some t) s Q e" and t: "t \<in> threads e" and h: "held e t = []"
    and st: "st \<in> {THREAD_EXITED, THREAD_FINISHED}"
  shows "kinv {} None (s\<lparr>th_state := (th_state s)(t := st), pq_v := (pq_v s)(Thr t := v)\<rparr>) Q e"
proof -
  let ?i = "s\<lparr>th_state := (th_state s)(t := st)\<rparr>"
  have k1: "kinv {t} (Some t) ?i Q e" using kinv_set_state [OF k t] by simp
  have lo: "loose Q (Thr t)" using kinv_loose [OF k t] by simp
  have k2: "kinv {t} (Some t) (?i\<lparr>pq_v := (pq_v ?i)(Thr t := v)\<rparr>) Q e"
    by (rule kinv_set_v [OF k1]) (use lo in \<open>auto simp: loose_inq\<close>)
  have k3: "kinv ({t} - {t}) (Some t) (?i\<lparr>pq_v := (pq_v ?i)(Thr t := v)\<rparr>) Q e"
    by (rule kinv_land [OF k2 t]) (use st h in auto)
  show ?thesis by (rule kinv_not_running [of t]) (use k3 st in auto)
qed

text \<open>The joiner leaves \<open>q_join\<close>, the thread leaves the scheduler for good, another one runs.\<close>

lemma chx_exit_ok:
  assumes on: "on_cpu t s Q e" and h: "held e t = []"
  shows "\<exists>s' Q'. chx_exit retval s = Some s' \<and> kernel_ok s' Q' e \<and> prio_top s' e \<and> dom Q' = dom Q \<and>
    th_state s' t = (if flag_detached s t then THREAD_FINISHED else THREAD_EXITED) \<and> running s' \<noteq> Some t \<and>
    pq_prio s' = pq_prio s \<and>
    (\<forall>xs x. flag_join_req s t \<longrightarrow> Q Qjoin = Some xs \<longrightarrow> find (\<lambda>y. pq_v s y = t) xs = Some x \<longrightarrow>
       Q' Qjoin = Some (remove1 x xs) \<and>
       (\<forall>u. x = Thr u \<longrightarrow> th_state s' u \<in> {THREAD_READY, THREAD_RUNNING}))"
proof -
  let ?i = "chx_cpu_sched_lock s"
  have l: "?i = s\<lparr>masked := True\<rparr>" "locked t ?i Q e" by (rule on_cpu_lock [OF on])+
  have k: "kinv {} (Some t) ?i Q e" using locked_kinv [OF l(2)] .
  have r: "running s = Some t" and t: "t \<in> threads e" and st: "th_state ?i t = THREAD_RUNNING"
    using on on_cpu_thread [OF on] l by (auto simp: on_cpu_def locked_def)
  obtain xs where q: "Q Qjoin = Some xs" using kinv_head [OF k] by blast
  have seek: "seek_v t (pq_next ?i Qjoin) Qjoin ?i = Some (find (\<lambda>y. pq_v s y = t) xs)"
    using seek_v_wfq [OF kinv_wfq [OF k] q, of t] l(1) by simp
  obtain s1 Q1 where e1: "(if flag_join_req ?i t then do {
             p \<leftarrow> seek_v t (pq_next ?i Qjoin) Qjoin ?i;
             (case p of
                None \<Rightarrow> Some ?i
              | Some p \<Rightarrow> do {
                  (_, s) \<leftarrow> chx_wakeup p (ll_dequeue p ?i);
                  Some s }) }
           else Some ?i) = Some s1"
    and k1: "kinv {} (Some t) s1 Q1 e" and w1: "\<exists>y. woken y ?i s1"
    and d1: "dom Q1 = dom Q"
    and j1: "\<forall>x. flag_join_req s t \<longrightarrow> find (\<lambda>y. pq_v s y = t) xs = Some x \<longrightarrow>
       Q1 Qjoin = Some (remove1 x xs) \<and> (\<forall>u. x = Thr u \<longrightarrow> th_state s1 u = THREAD_READY)"
  proof (cases "flag_join_req s t \<and> find (\<lambda>y. pq_v s y = t) xs \<noteq> None")
    case False
    show thesis
      by (rule that [of ?i Q]) (use False seek k l in \<open>auto intro: exI [of _ False]\<close>)
  next
    case True
    then obtain x where x: "find (\<lambda>y. pq_v s y = t) xs = Some x" by auto
    have xm: "x \<in> set xs" using find_mem [OF x] by simp
    obtain y s1 Q1 where w: "chx_wakeup x (ll_dequeue x ?i) = Some (y, s1)" "kinv {} (Some t) s1 Q1 e"
      "woken y ?i s1" "Q1 Qjoin = Some (remove1 x xs)" "\<forall>q'. q' \<notin> {Qjoin, Qready, Qtimer} \<longrightarrow> Q1 q' = Q q'"
      "\<forall>u. x = Thr u \<longrightarrow> th_state s1 u = THREAD_READY"
      using wake_from_queue [OF k q xm] by auto
    have "dom Q1 = dom Q" by (rule kinv_dom_eq3 [OF k w(2) _ _ w(5)]) (use q w(4) in auto)
    moreover have "flag_join_req ?i t" using True l by simp
    ultimately show thesis using w x seek by (intro that [of s1 Q1]) auto
  qed
  obtain y1 where w1: "woken y1 ?i s1" using w1 by blast
  have st1: "th_state s1 t = THREAD_RUNNING" using woken_states [OF w1, of t] st by simp
  obtain n p v c Q2 where e2: "rr_stop t s1 =
      Some (s1\<lparr>pq_v := v, systick := c, pq_next := n, pq_prev := p\<rparr>)" (is "_ = Some ?j")
    and k2: "kinv {t} (Some t) (s1\<lparr>pq_v := v, systick := c, pq_next := n, pq_prev := p\<rparr>) Q2 e"
    and Q2: "\<forall>q. q \<noteq> Qtimer \<longrightarrow> Q2 q = Q1 q"
    using kinv_rr_stop [OF k1 t _ st1] by auto
  have d2: "dom Q2 = dom Q1"
    by (rule dom_change_one [OF Q2]) (use kinv_head [OF k1] kinv_head [OF k2] in simp_all)
  let ?st = "if flag_detached s t then THREAD_FINISHED else THREAD_EXITED"
  let ?k = "?j\<lparr>th_state := (th_state ?j)(t := ?st), pq_v := (pq_v ?j)(Thr t := retval)\<rparr>"
  have k3: "kinv {} None ?k Q2 e" by (rule kinv_exited [OF k2 t h]) simp
  have m3: "masked ?k" using wokenD [OF w1] l by simp
  obtain s4 Q4 where e4: "chx_sched CHX_SLEEP ?k = Some s4" and ok: "kernel_ok s4 Q4 e"
    and di: "dispatched ?k s4 e" and Q4: "\<forall>q. q \<noteq> Qready \<longrightarrow> q \<noteq> Qtimer \<longrightarrow> Q4 q = Q2 q"
    using chx_sched_sleep_ok [OF k3 m3] by blast
  have fd: "flag_detached ?j t = flag_detached s t" using wokenD [OF w1] l by simp
  have run: "chx_exit retval s = Some s4"
    unfolding chx_exit_def Let_def cur_eq [OF r] e1 using e2 e4 fd by simp
  have b: "th_state s4 t = th_state ?k t \<and> running s4 \<noteq> Some t"
    by (rule dispatched_blocked [OF di]) simp
  have bt: "th_state s4 t = ?st" "running s4 \<noteq> Some t" using b by auto
  have d4: "dom Q4 = dom Q"
    using kinv_dom_eq [OF k3 _ Q4, of "{}" "running s4" s4 e] ok d1 d2 by (simp add: kernel_ok_def)
  have pr: "pq_prio s4 = pq_prio s" using dispatched_prio [OF di] wokenD [OF w1] l by simp
  have top: "prio_top s4 e" using di by (simp add: dispatched_def)
  have jn: "Q4 Qjoin = Some (remove1 x xs) \<and> (\<forall>u. x = Thr u \<longrightarrow> th_state s4 u \<in> {THREAD_READY, THREAD_RUNNING})"
    if x: "flag_join_req s t" "find (\<lambda>y. pq_v s y = t) xs = Some x" for x
  proof -
    have q4: "Q4 Qjoin = Some (remove1 x xs)" using j1 x Q2 Q4 by simp
    have "th_state s4 u \<in> {THREAD_READY, THREAD_RUNNING}" if u: "x = Thr u" for u
    proof -
      have s1u: "th_state s1 u = THREAD_READY" using j1 x u by blast
      then have "u \<noteq> t" using st1 by auto
      then have "th_state ?k u = THREAD_READY" using s1u by simp
      then show ?thesis using dispatched_new [OF di, of u] dispatched_other [OF di, of u]
        by (cases "running s4 = Some u") simp_all
    qed
    with q4 show ?thesis by blast
  qed
  show ?thesis using run ok top d4 bt pr jn q
    by (intro exI [of _ s4] exI [of _ Q4]) auto
qed

text \<open>Every mutex the thread holds is released, last locked first.\<close>

lemma mchain_start: "mchain f p ms \<Longrightarrow> p = (case ms of [] \<Rightarrow> None | m # _ \<Rightarrow> Some m)"
  by (cases ms) auto

lemma kinv_mchain: "kinv X r s Q e \<Longrightarrow> t \<in> threads e \<Longrightarrow> mchain (mtx_list s) (mutex_list s t) (held e t)"
  by (simp add: kinv_def locks_ok_def)

lemma release_all_ok:
  "on_cpu t s Q e \<Longrightarrow> held e t = ms \<Longrightarrow> mo = (case ms of [] \<Rightarrow> None | m # _ \<Rightarrow> Some m) \<Longrightarrow>
   \<exists>s' Q'. release_all mo s = Some s' \<and> on_cpu t s' Q' (e\<lparr>held := (held e)(t := [])\<rparr>) \<and>
     dom Q' = dom Q \<and> (\<forall>m. mtx_owner s' m = (if m \<in> set ms then None else mtx_owner s m))"
proof (induction ms arbitrary: s Q e mo)
  case Nil
  then have "e\<lparr>held := (held e)(t := [])\<rparr> = e" by (simp add: fun_upd_idem)
  then show ?case using Nil
    by (intro exI [of _ s] exI [of _ Q]) (simp add: release_all.simps del: fun_upd_apply)
next
  case (Cons m ms)
  note on = Cons.prems(1) and h = Cons.prems(2)
  let ?i = "chx_cpu_sched_lock s" and ?e = "e\<lparr>held := (held e)(t := ms)\<rparr>"
  have l: "?i = s\<lparr>masked := True\<rparr>" "locked t ?i Q e" by (rule on_cpu_lock [OF on])+
  have k: "kinv {} (Some t) ?i Q e" using locked_kinv [OF l(2)] .
  have r: "running ?i = Some t" and t: "t \<in> threads e" and st: "th_state ?i t = THREAD_RUNNING"
    and ma: "masked ?i"
    using l(2) by (auto simp: locked_def)
  obtain pr s1 Q1 where e1: "chx_mutex_unlock m ?i = Some (pr, s1)"
    and k1: "kinv {} (Some t) s1 Q1 ?e" and d1: "dom Q1 = dom Q" and r1: "running s1 = Some t"
    and m1: "masked s1 = masked ?i" and o1: "mtx_owner s1 = (mtx_owner ?i)(m := None)"
    and c1: "case the (Q (Mtxq m)) of
         [] \<Rightarrow> pr = 0 \<and> th_state s1 = th_state ?i \<and> pq_prio s1 = pq_prio ?i
       | x # xs \<Rightarrow> \<exists>u. x = Thr u \<and> u \<noteq> t \<and> u \<in> threads e \<and> pr = pq_prio ?i (Thr u) \<and>
           th_state s1 = (th_state ?i)(u := THREAD_READY) \<and>
           pq_prio s1 = (pq_prio ?i)(Thr t := ucast (unlock_prio ?i Q t ms))"
    using chx_mutex_unlock_ok [OF k r t st h] by blast
  have st1: "th_state s1 t = THREAD_RUNNING" using c1 st by (auto split: list.splits)
  have l1: "locked t s1 Q1 ?e" using k1 r1 t st1 m1 ma by (simp add: locked_def)
  have on1: "on_cpu t (chx_cpu_sched_unlock s1) Q1 ?e" by (rule locked_unlock [OF l1])
  have "mchain (mtx_list ?i) (mutex_list ?i t) (m # ms)" using kinv_mchain [OF k t] h by simp
  then have nx: "mtx_list s m = (case ms of [] \<Rightarrow> None | m # _ \<Rightarrow> Some m)"
    using mchain_start l(1) by auto
  have h1: "held ?e t = ms" by simp
  obtain s2 Q2 where e2: "release_all (mtx_list s m) (chx_cpu_sched_unlock s1) = Some s2"
    and on2: "on_cpu t s2 Q2 (?e\<lparr>held := (held ?e)(t := [])\<rparr>)" and d2: "dom Q2 = dom Q1"
    and o2: "\<forall>m. mtx_owner s2 m = (if m \<in> set ms then None else mtx_owner (chx_cpu_sched_unlock s1) m)"
    using Cons.IH [OF on1 h1 nx] by blast
  have "release_all mo s = Some s2"
    using Cons.prems(3) e1 e2 by (simp add: release_all.simps [of "Some m"])
  moreover have "mtx_owner (chx_cpu_sched_unlock s1) = (mtx_owner s)(m := None)"
    using o1 l(1) by (simp add: chx_cpu_sched_unlock_def)
  then have "\<forall>m'. mtx_owner s2 m' = (if m' \<in> set (m # ms) then None else mtx_owner s m')"
    using o2 by simp
  ultimately show ?case using on2 d1 d2
    by (intro exI [of _ s2] exI [of _ Q2]) (simp del: fun_upd_apply)
qed

text \<open>The cleanup routines are called in the order of the list.\<close>

fun cchain :: "(addr \<Rightarrow> addr option) \<Rightarrow> addr option \<Rightarrow> addr list \<Rightarrow> bool" where
  "cchain f p [] \<longleftrightarrow> p = None"
| "cchain f p (c # cs) \<longleftrightarrow> p = Some c \<and> cchain f (f c) cs"

text \<open>From \<open>s\<close> the routines of \<open>cs\<close> lead one after the other to \<open>s'\<close>.\<close>

fun called_in_order :: "(addr \<Rightarrow> addr \<Rightarrow> 'z kst_scheme \<Rightarrow> 'z kst_scheme option) \<Rightarrow> addr list \<Rightarrow>
   'z kst_scheme \<Rightarrow> 'z kst_scheme \<Rightarrow> bool" where
  "called_in_order run [] s s' \<longleftrightarrow> s' = s"
| "called_in_order run (c # cs) s s' \<longleftrightarrow>
     (\<exists>s1. run (clp_routine s c) (clp_arg s c) s = Some s1 \<and> called_in_order run cs s1 s')"

definition cleanup_keeps ::
  "tid \<Rightarrow> (addr \<Rightarrow> addr \<Rightarrow> 'z kst_scheme \<Rightarrow> 'z kst_scheme option) \<Rightarrow> bool" where
  "cleanup_keeps t run \<longleftrightarrow> (\<forall>r a s Q e. on_cpu t s Q e \<longrightarrow>
     (\<exists>s' Q' e'. run r a s = Some s' \<and> on_cpu t s' Q' e' \<and> dom Q' = dom Q \<and> threads e' = threads e \<and>
        clp_next s' = clp_next s))"

lemma run_cleanups_ok:
  assumes c: "cleanup_keeps t run"
  shows "on_cpu t s Q e \<Longrightarrow> cchain (clp_next s) clp cs \<Longrightarrow>
    \<exists>s' Q' e'. run_cleanups run clp s = Some s' \<and> on_cpu t s' Q' e' \<and> dom Q' = dom Q \<and>
      threads e' = threads e \<and> called_in_order run cs s s'"
proof (induction cs arbitrary: s Q e clp)
  case Nil
  then show ?case
    by (intro exI [of _ s] exI [of _ Q] exI [of _ e]) (simp add: run_cleanups.simps)
next
  case (Cons a cs)
  obtain s1 Q1 e1 where s1: "run (clp_routine s a) (clp_arg s a) s = Some s1" "on_cpu t s1 Q1 e1"
    "dom Q1 = dom Q" "threads e1 = threads e" "clp_next s1 = clp_next s"
    using c Cons.prems(1) unfolding cleanup_keeps_def by metis
  have "cchain (clp_next s1) (clp_next s1 a) cs" using Cons.prems(2) s1(5) by simp
  then obtain s2 Q2 e2 where s2: "run_cleanups run (clp_next s1 a) s1 = Some s2" "on_cpu t s2 Q2 e2"
    "dom Q2 = dom Q1" "threads e2 = threads e1" "called_in_order run cs s1 s2"
    using Cons.IH [OF s1(2)] by blast
  have "run_cleanups run clp s = Some s2"
    using Cons.prems(2) s1(1,5) s2(1) by (simp add: run_cleanups.simps [of run "Some a"])
  then show ?case using s1 s2 by (intro exI [of _ s2] exI [of _ Q2] exI [of _ e2]) simp
qed

lemma on_cpu_clp [simp]: "on_cpu t (s\<lparr>th_clp := c\<rparr>) Q e = on_cpu t s Q e"
  by (simp add: on_cpu_def kernel_ok_def)

lemma chopstx_exit_ok:
  assumes on: "on_cpu t s Q e" and c: "cleanup_keeps t run"
    and ch: "cchain (clp_next s) (th_clp s t) cs"
  shows "\<exists>s' Q' e'. chopstx_exit run retval s = Some s' \<and> kernel_ok s' Q' e' \<and> prio_top s' e' \<and>
    dom Q' = dom Q \<and> threads e' = threads e \<and> held e' t = [] \<and>
    th_state s' t \<in> {THREAD_EXITED, THREAD_FINISHED} \<and> running s' \<noteq> Some t \<and>
    (\<exists>s1 s2. called_in_order run cs (s\<lparr>th_clp := (th_clp s)(t := None)\<rparr>) s1 \<and>
       release_all (mutex_list s1 t) s1 = Some s2 \<and> chx_exit retval s2 = Some s')"
proof -
  let ?i = "s\<lparr>th_clp := (th_clp s)(t := None)\<rparr>"
  have r: "running s = Some t" by (rule on_cpu_running [OF on])
  have on0: "on_cpu t ?i Q e" using on by simp
  have ch0: "cchain (clp_next ?i) (th_clp s t) cs" using ch by simp
  obtain s1 Q1 e1 where s1: "run_cleanups run (th_clp s t) ?i = Some s1" and on1: "on_cpu t s1 Q1 e1"
    and d1: "dom Q1 = dom Q" "threads e1 = threads e" and co: "called_in_order run cs ?i s1"
    using run_cleanups_ok [OF c on0 ch0] by blast
  have mc: "mutex_list s1 t = (case held e1 t of [] \<Rightarrow> None | m # _ \<Rightarrow> Some m)"
    using mchain_start [OF kinv_mchain [OF on_cpu_kinv [OF on1] on_cpu_thread [OF on1]]] .
  let ?e = "e1\<lparr>held := (held e1)(t := [])\<rparr>"
  obtain s2 Q2 where s2: "release_all (mutex_list s1 t) s1 = Some s2" and on2: "on_cpu t s2 Q2 ?e"
    and d2: "dom Q2 = dom Q1"
    using release_all_ok [OF on1 refl mc] by blast
  have h2: "held ?e t = []" by simp
  obtain s3 Q3 where s3: "chx_exit retval s2 = Some s3" and ok: "kernel_ok s3 Q3 ?e"
    and top: "prio_top s3 ?e" and d3: "dom Q3 = dom Q2"
    and st: "th_state s3 t = (if flag_detached s2 t then THREAD_FINISHED else THREAD_EXITED)"
    and nr: "running s3 \<noteq> Some t"
    using chx_exit_ok [OF on2 h2, of retval] by blast
  have "chopstx_exit run retval s = Some s3"
    using r s1 s2 s3 on_cpu_running [OF on1] by (simp add: chopstx_exit_def)
  moreover have "th_state s3 t \<in> {THREAD_EXITED, THREAD_FINISHED}" using st by simp
  moreover have "\<exists>s1 s2. called_in_order run cs ?i s1 \<and> release_all (mutex_list s1 t) s1 = Some s2 \<and>
      chx_exit retval s2 = Some s3"
    using co s2 s3 by blast
  ultimately show ?thesis using ok top d1 d2 d3 nr h2
    by (intro exI [of _ s3] exI [of _ Q3] exI [of _ ?e]) simp
qed

section \<open>Sleeping with a timeout\<close>

text \<open>The limit keeps the SysTick counter (24 bits) from overflowing.\<close>

lemma snooze_usec_le: "snooze_usec usec \<le> usec" "unat (snooze_usec usec) \<le> 233016"
  by (auto simp: snooze_usec_def MAX_USEC_FOR_TIMER_def MHZ_def word_le_nat_alt word_less_nat_alt)

lemma snooze_ticks: "unat (usec_to_ticks (snooze_usec usec)) = 72 * unat (snooze_usec usec)"
  using snooze_usec_le(2) [of usec] by (simp add: usec_to_ticks_def MHZ_def unat_word_ariths)

lemma snooze_ticks_24: "unat (usec_to_ticks (snooze_usec usec)) < 2 ^ 24"
  using snooze_ticks [of usec] snooze_usec_le(2) [of usec] by simp

lemma chx_snooze_ok:
  assumes l: "locked t s Q e" and u: "usec \<noteq> 0" and st': "st' \<in> {THREAD_WAIT_TIME, THREAD_WAIT_POLL}"
  shows "\<exists>s' Q'. chx_snooze st' usec s = Some (Sleeps, s') \<and> kernel_ok s' Q' e \<and> prio_top s' e \<and>
    dom Q' = dom Q \<and> (\<forall>q. q \<noteq> Qready \<longrightarrow> q \<noteq> Qtimer \<longrightarrow> Q' q = Q q) \<and>
    th_state s' t = st' \<and> running s' \<noteq> Some t \<and> pq_prio s' = pq_prio s \<and>
    due_in s' Q' (Thr t) (unat (usec_to_ticks (snooze_usec usec)))"
proof -
  have k: "kinv {} (Some t) s Q e" using locked_kinv [OF l] .
  have r: "running s = Some t" and t: "t \<in> threads e" and st: "th_state s t = THREAD_RUNNING" and m: "masked s"
    using l by (auto simp: locked_def)
  obtain n p v c Q1 where e1: "rr_stop t s =
      Some (s\<lparr>pq_v := v, systick := c, pq_next := n, pq_prev := p\<rparr>)" (is "_ = Some ?j")
    and k1: "kinv {t} (Some t) (s\<lparr>pq_v := v, systick := c, pq_next := n, pq_prev := p\<rparr>) Q1 e"
    and Q1: "\<forall>q. q \<noteq> Qtimer \<longrightarrow> Q1 q = Q q"
    using kinv_rr_stop [OF k t _ st] by auto
  let ?k = "?j\<lparr>th_state := (th_state ?j)(t := st')\<rparr>"
  have k2: "kinv {t} (Some t) ?k Q1 e" using kinv_set_state [OF k1 t] by simp
  have al: "allowed (th_state ?k t) (flag_sched_rr ?k t) Qtimer" using st' by auto
  obtain n' p' v' c' Q2 where e2: "chx_timer_insert t (snooze_usec usec) ?k =
      Some (?k\<lparr>pq_parent := (pq_parent ?k)(Thr t := Some Qtimer), pq_v := v', systick := c',
              pq_next := n', pq_prev := p'\<rparr>)" (is "_ = Some ?m")
    and k3: "kinv ({t} - {t}) (Some t) (?k\<lparr>pq_parent := (pq_parent ?k)(Thr t := Some Qtimer), pq_v := v',
        systick := c', pq_next := n', pq_prev := p'\<rparr>) Q2 e"
    and Q2: "\<forall>q. q \<noteq> Qtimer \<longrightarrow> Q2 q = Q1 q"
    and due: "\<forall>y d. due_in (?k\<lparr>pq_parent := (pq_parent ?k)(Thr t := Some Qtimer), pq_v := v', systick := c',
              pq_next := n', pq_prev := p'\<rparr>) Q2 y d \<longleftrightarrow>
       y = Thr t \<and> d = unat (usec_to_ticks (snooze_usec usec)) \<or> due_in ?k Q1 y d"
    using kinv_timer_insert [OF k2 t _ snooze_ticks_24 al] by blast
  have k4: "kinv {} None ?m Q2 e"
    by (rule kinv_not_running [of t]) (use k3 st' in auto)
  have m4: "masked ?m" using m by simp
  obtain s4 Q4 where e4: "chx_sched CHX_SLEEP ?m = Some s4" and ok: "kernel_ok s4 Q4 e"
    and di: "dispatched ?m s4 e" and Q4: "\<forall>q. q \<noteq> Qready \<longrightarrow> q \<noteq> Qtimer \<longrightarrow> Q4 q = Q2 q"
    and due4: "\<forall>y d. due_in ?m Q2 y d \<longrightarrow> due_in s4 Q4 y d"
    using chx_sched_sleep_ok [OF k4 m4] by blast
  have "due_in s4 Q4 (Thr t) (unat (usec_to_ticks (snooze_usec usec)))" using due due4 by blast
  moreover have run: "chx_snooze st' usec s = Some (Sleeps, s4)"
    using u r e1 e2 e4 by (simp add: chx_snooze_def)
  moreover have b: "th_state s4 t = th_state ?m t \<and> running s4 \<noteq> Some t"
    by (rule dispatched_blocked [OF di]) (use st' in auto)
  have d1: "dom Q1 = dom Q"
    by (rule dom_change_one [OF Q1]) (use kinv_head [OF k] kinv_head [OF k1] in simp_all)
  have d2: "dom Q2 = dom Q1"
    by (rule dom_change_one [OF Q2]) (use kinv_head [OF k1] kinv_head [OF k4] in simp_all)
  moreover have "dom Q4 = dom Q"
    using kinv_dom_eq [OF k4 _ Q4, of "{}" "running s4" s4 e] ok d1 d2 by (simp add: kernel_ok_def)
  moreover have "prio_top s4 e" using di by (simp add: dispatched_def)
  moreover have "pq_prio s4 = pq_prio s" using dispatched_prio [OF di] by simp
  moreover have "\<forall>q. q \<noteq> Qready \<longrightarrow> q \<noteq> Qtimer \<longrightarrow> Q4 q = Q q" using Q1 Q2 Q4 by simp
  ultimately show ?thesis using run ok b by (intro exI [of _ s4] exI [of _ Q4]) simp
qed

lemma chopstx_usec_wait_ok:
  assumes on: "on_cpu t s Q e" and nc: "\<not> chopstx_testcancel s"
  shows "\<exists>c s' Q'. chopstx_usec_wait_var usec s = Some (c, s') \<and> kernel_ok s' Q' e \<and> dom Q' = dom Q \<and>
    (prio_top s e \<longrightarrow> prio_top s' e) \<and>
    (if usec = 0 then c = Returns 1 \<and> on_cpu t s' Q' e
     else c = Sleeps \<and> th_state s' t = THREAD_WAIT_TIME \<and> running s' \<noteq> Some t \<and> prio_top s' e \<and>
       due_in s' Q' (Thr t) (unat (usec_to_ticks (snooze_usec usec))))"
proof (cases "usec = 0")
  case True
  let ?i = "chx_cpu_sched_unlock (chx_cpu_sched_lock s)"
  have on': "on_cpu t ?i Q e" by (rule locked_unlock [OF on_cpu_lock(2) [OF on]])
  have "prio_top ?i e" if "prio_top s e"
    using that by (simp add: prio_top_def chx_cpu_sched_lock_def chx_cpu_sched_unlock_def)
  moreover have "kernel_ok ?i Q e" using on' by (simp add: on_cpu_def)
  ultimately show ?thesis using True nc on'
    by (intro exI [of _ "Returns 1"] exI [of _ ?i] exI [of _ Q])
      (simp add: chopstx_usec_wait_var_def chx_snooze_def)
next
  case False
  obtain s' Q' where "chx_snooze THREAD_WAIT_TIME usec (chx_cpu_sched_lock s) = Some (Sleeps, s')"
    "kernel_ok s' Q' e" "prio_top s' e" "dom Q' = dom Q" "th_state s' t = THREAD_WAIT_TIME" "running s' \<noteq> Some t"
    "due_in s' Q' (Thr t) (unat (usec_to_ticks (snooze_usec usec)))"
    using chx_snooze_ok [OF on_cpu_lock(2) [OF on] False, of THREAD_WAIT_TIME] by auto
  then show ?thesis using False nc
    by (intro exI [of _ Sleeps] exI [of _ s'] exI [of _ Q']) (simp add: chopstx_usec_wait_var_def)
qed

lemma usec_resume_0: "chopstx_usec_wait_resume usec 0 = (None, usec - snooze_usec usec)"
  by (simp add: chopstx_usec_wait_resume_def chx_snooze_resume_def)

lemma snooze_progress: "usec \<noteq> 0 \<Longrightarrow> unat (usec - snooze_usec usec) < unat usec"
proof -
  assume "usec \<noteq> 0"
  then have "0 < unat usec" by (simp add: unat_gt_0)
  then have "0 < unat (snooze_usec usec)"
    by (auto simp: snooze_usec_def MAX_USEC_FOR_TIMER_def MHZ_def)
  then show ?thesis using unat_sub [OF snooze_usec_le(1), of usec] \<open>0 < unat usec\<close> by simp
qed

text \<open>A round of a wait that is not cut short, and how many of them there are.\<close>

lemma unat_snooze: "unat (snooze_usec usec) = min (unat usec) (unat MAX_USEC_FOR_TIMER)"
  by (auto simp: snooze_usec_def word_less_nat_alt)

lemma usec_rounds_end:
  assumes "unat usec \<le> n * unat MAX_USEC_FOR_TIMER"
  shows "((\<lambda>u. snd (chopstx_usec_wait_resume u 0)) ^^ n) usec = 0"
  using assms
proof (induction n arbitrary: usec)
  case 0
  then show ?case by (simp add: unsigned_eq_0_iff)
next
  case (Suc n)
  have "unat (usec - snooze_usec usec) = unat usec - min (unat usec) (unat MAX_USEC_FOR_TIMER)"
    using unat_sub [OF snooze_usec_le(1), of usec] by (simp add: unat_snooze)
  also have "\<dots> \<le> n * unat MAX_USEC_FOR_TIMER" using Suc.prems by simp
  finally have "((\<lambda>u. snd (chopstx_usec_wait_resume u 0)) ^^ n) (usec - snooze_usec usec) = 0" by (rule Suc.IH)
  then show ?case by (simp only: funpow_Suc_right comp_apply usec_resume_0 snd_conv)
qed

text \<open>An early wakeup with \<open>r\<close> ticks left gives the time not slept back.\<close>

lemma snooze_resume_early:
  assumes "0 < sint r" and "unat r \<le> unat (usec_to_ticks (snooze_usec usec))"
  shows "\<exists>left. chx_snooze_resume usec r = (1, left) \<and>
    unat left = unat usec - unat (snooze_usec usec) + unat r div 72"
proof -
  have "r \<noteq> 0" using assms(1) by auto
  have le: "unat r div 72 \<le> unat (snooze_usec usec)"
    using assms(2) by (simp add: snooze_ticks)
  have d: "unat (r div MHZ) = unat r div 72" by (simp add: MHZ_def unat_div)
  have a: "unat (snooze_usec usec - r div MHZ) = unat (snooze_usec usec) - unat r div 72"
    using le d by (simp add: unat_sub word_le_nat_alt)
  have b: "unat (snooze_usec usec) \<le> unat usec" using snooze_usec_le(1) by (simp add: word_le_nat_alt)
  then have "unat (usec - (snooze_usec usec - r div MHZ)) = unat usec - (unat (snooze_usec usec) - unat r div 72)"
    using a by (simp add: unat_sub word_le_nat_alt)
  then show ?thesis using assms(1) \<open>r \<noteq> 0\<close> b le by (simp add: chx_snooze_resume_def)
qed

section \<open>Join\<close>

lemma join_pi_round:
  assumes k: "kinv {} None s Q e" and t0: "t0 \<in> threads e"
    and lt: "pq_prio s (Thr t0) < pq_prio s (Thr tp)"
  shows "\<exists>t1 s1 Q1. join_pi tp (Some t0) s = join_pi tp t1 s1 \<and>
    kinv {} None s1 Q1 e \<and> dom Q1 = dom Q \<and> inherits tp s s1 \<and>
    pq_prio s1 = (pq_prio s)(Thr t0 := pq_prio s (Thr tp)) \<and> th_state s1 = th_state s \<and>
    (\<forall>u. t1 = Some u \<longrightarrow> u \<in> threads e) \<and> (\<forall>u. waits_for s1 u = waits_for s u) \<and>
    (pi_except (Some t0) (pq_prio s (Thr tp)) s e \<longrightarrow> pi_except t1 (pq_prio s (Thr tp)) s1 e)"
proof -
  let ?P = "pq_prio s (Thr tp)"
  let ?s0 = "s\<lparr>pq_prio := (pq_prio s)(Thr t0 := ?P)\<rparr>"
  have nr: "th_state s t0 \<noteq> THREAD_RUNNING" using kinv_at [OF k t0] by (auto simp: thread_at_def)
  obtain t1 s1 Q1 where e1: "requeue t0 ?s0 = Some (t1, s1)"
    and k1: "kinv {} None s1 Q1 e" and d1: "dom Q1 = dom Q" and q1: "qstep ?s0 s1"
    and st1: "th_state s1 = th_state s" and par1: "pq_parent s1 = pq_parent s" and v1: "pq_v s1 = pq_v s"
    and t1: "t1 = waits_for s t0"
  proof (cases "th_state s t0 \<in> {THREAD_WAIT_TIME, THREAD_WAIT_POLL}")
    case True
    have nq: "\<not> prio_sorted q" if "inq Q (Thr t0) q" for q
      using kinv_inq [OF k that] True by (auto simp: prio_sorted_def)
    have k0: "kinv {} None ?s0 Q e" by (rule kinv_set_prio [OF k nq])
    show thesis
      by (rule that [of None ?s0 Q]) (use True k0 in \<open>auto simp: requeue_def waits_for_def\<close>)
  next
    case False
    then have "th_state s t0 \<notin> {THREAD_RUNNING, THREAD_WAIT_TIME, THREAD_WAIT_POLL}" using nr by auto
    from kinv_requeue [OF k t0 this, of ?P] that show thesis by blast
  qed
  have run: "join_pi tp (Some t0) s = join_pi tp t1 s1"
    using lt e1 by (simp add: join_pi.simps [of tp "Some t0"])
  have pr: "pq_prio s1 = (pq_prio s)(Thr t0 := ?P)" and ow: "mtx_owner s1 = mtx_owner s"
    using qstepD [OF q1] by simp_all
  have inh: "inherits tp s s1"
    unfolding inherits_def pr using q1 lt st1 by (auto split: if_splits)
  have wf: "waits_for s1 u = waits_for s u" for u
    using st1 par1 v1 ow by (simp add: waits_for_def split: tstate.splits option.splits)
  have thr: "u \<in> threads e" if "t1 = Some u" for u
    using waits_for_thread [OF k t0, of u] that t1 by simp
  have "pi_except t1 ?P s1 e" if p: "pi_except (Some t0) ?P s e"
    unfolding pi_except_def
  proof (intro ballI allI impI)
    fix u w assume u: "u \<in> threads e" and w: "waits_for s1 u = Some w"
    show "pq_prio s1 (Thr u) \<le> pq_prio s1 (Thr w) \<or> t1 = Some w \<and> pq_prio s1 (Thr u) \<le> ?P"
    proof (cases "u = t0")
      case True
      then show ?thesis using w wf t1 pr by simp
    next
      case False
      have "pq_prio s (Thr u) \<le> pq_prio s (Thr w) \<or> t0 = w \<and> pq_prio s (Thr u) \<le> ?P"
        using p u w wf by (auto simp: pi_except_def)
      then show ?thesis using False lt pr by auto
    qed
  qed
  then show ?thesis using run k1 d1 inh pr wf thr st1
    by (intro exI [of _ t1] exI [of _ s1] exI [of _ Q1]) simp
qed

lemma join_pi_ok:
  assumes "kinv {} None s Q e" and "\<forall>u. tp0 = Some u \<longrightarrow> u \<in> threads e"
  shows "\<exists>s' Q'. join_pi tp tp0 s = Some s' \<and> kinv {} None s' Q' e \<and> dom Q' = dom Q \<and>
    inherits tp s s' \<and> (\<forall>w. tp0 = Some w \<longrightarrow> pq_prio s (Thr tp) \<le> pq_prio s' (Thr w)) \<and>
    (\<forall>u. waits_for s' u = waits_for s u) \<and> th_state s' = th_state s \<and>
    (pi_except tp0 (pq_prio s (Thr tp)) s e \<longrightarrow> pi_ok s' e)"
  using assms
proof (induction "card {u \<in> threads e. pq_prio s (Thr u) < pq_prio s (Thr tp)}"
    arbitrary: s Q tp0 rule: less_induct)
  case less
  note k = less.prems(1)
  show ?case
  proof (cases tp0)
    case None
    then show ?thesis using k
      by (intro exI [of _ s] exI [of _ Q]) (simp add: join_pi.simps pi_except_def)
  next
    case (Some t0)
    have t0: "t0 \<in> threads e" using less.prems(2) Some by simp
    show ?thesis
    proof (cases "pq_prio s (Thr t0) < pq_prio s (Thr tp)")
      case False
      then have "join_pi tp tp0 s = Some s" "pq_prio s (Thr tp) \<le> pq_prio s (Thr t0)"
        using Some by (simp_all add: join_pi.simps)
      then show ?thesis using k Some pi_except_done [of t0 "pq_prio s (Thr tp)" s e]
        by (intro exI [of _ s] exI [of _ Q]) simp
    next
      case True
      obtain t1 s1 Q1 where run: "join_pi tp (Some t0) s = join_pi tp t1 s1"
        and k1: "kinv {} None s1 Q1 e" and d1: "dom Q1 = dom Q" and inh: "inherits tp s s1"
        and pr: "pq_prio s1 = (pq_prio s)(Thr t0 := pq_prio s (Thr tp))"
        and st1: "th_state s1 = th_state s"
        and thr: "\<forall>u. t1 = Some u \<longrightarrow> u \<in> threads e" and wf: "\<forall>u. waits_for s1 u = waits_for s u"
        and pi: "pi_except (Some t0) (pq_prio s (Thr tp)) s e \<longrightarrow>
          pi_except t1 (pq_prio s (Thr tp)) s1 e"
        using join_pi_round [OF k t0 True] by blast
      have P: "pq_prio s1 (Thr tp) = pq_prio s (Thr tp)" using inherits_self [OF inh] .
      have "{u \<in> threads e. pq_prio s1 (Thr u) < pq_prio s1 (Thr tp)} \<subset>
          {u \<in> threads e. pq_prio s (Thr u) < pq_prio s (Thr tp)}"
        unfolding P pr using t0 True by auto
      moreover have "finite {u \<in> threads e. pq_prio s (Thr u) < pq_prio s (Thr tp)}"
        using k by (simp add: kinv_def objects_ok_def)
      ultimately have "card {u \<in> threads e. pq_prio s1 (Thr u) < pq_prio s1 (Thr tp)} <
          card {u \<in> threads e. pq_prio s (Thr u) < pq_prio s (Thr tp)}"
        by (rule psubset_card_mono [rotated])
      from less.hyps [OF this k1 thr]
      obtain s' Q' where r: "join_pi tp t1 s1 = Some s'" "kinv {} None s' Q' e" "dom Q' = dom Q1"
        and inh': "inherits tp s1 s'" and wf': "\<forall>u. waits_for s' u = waits_for s1 u"
        and st': "th_state s' = th_state s1"
        and pi': "pi_except t1 (pq_prio s1 (Thr tp)) s1 e \<longrightarrow> pi_ok s' e" by blast
      have "pq_prio s (Thr tp) \<le> pq_prio s' (Thr t0)"
        using inherits_prio [OF inh', of "Thr t0"] pr by simp
      then show ?thesis using run r d1 inherits_trans [OF inh inh'] wf wf' st1 st' pi pi' P Some
        by (intro exI [of _ s'] exI [of _ Q']) simp
    qed
  qed
qed

text \<open>Joining a thread that has exited returns its value at once.\<close>

lemma kinv_finish:
  assumes k: "kinv {} r s Q e" and t: "t \<in> threads e" and st: "th_state s t = THREAD_EXITED"
  shows "kinv {} r (s\<lparr>th_state := (th_state s)(t := THREAD_FINISHED)\<rparr>) Q e"
proof -
  have a: "thread_at r s Q e t" using kinv_at [OF k t] by simp
  have h: "held e t = []" using a st by (auto simp: thread_at_def)
  have "loose Q (Thr t)" using a st by (auto simp: thread_at_def loose_inq)
  then have "kinv {t} r s Q e" using kinv_loose_flight [OF k] by simp
  from kinv_set_state [OF this t] have k1: "kinv {t} r (s\<lparr>th_state := (th_state s)(t := THREAD_FINISHED)\<rparr>) Q e" by simp
  have "kinv ({t} - {t}) r (s\<lparr>th_state := (th_state s)(t := THREAD_FINISHED)\<rparr>) Q e"
    by (rule kinv_land [OF k1 t]) (simp_all add: h)
  then show ?thesis by simp
qed

lemma chopstx_join_exited:
  assumes on: "on_cpu t s Q e" and nc: "\<not> chopstx_testcancel s" and tp: "tp \<in> threads e"
    and nd: "\<not> flag_detached s tp" and st: "th_state s tp = THREAD_EXITED"
  shows "\<exists>s'. chopstx_join tp s = Some ((Returns 0, Some (pq_v s (Thr tp))), s') \<and> on_cpu t s' Q e \<and>
    th_state s' = (th_state s)(tp := THREAD_FINISHED)"
proof -
  have r: "running s = Some t" "th_state s t = THREAD_RUNNING" using on by (simp_all add: on_cpu_def)
  let ?i = "chx_cpu_sched_lock s" and ?u = "chx_cpu_sched_unlock (chx_cpu_sched_lock s)"
  have l: "?i = s\<lparr>masked := True\<rparr>" "locked t ?i Q e" by (rule on_cpu_lock [OF on])+
  have f: "th_state ?u = th_state s" "pq_v ?u = pq_v s" "flag_detached ?i = flag_detached s" "th_state ?i = th_state s"
    by (simp_all add: l(1) chx_cpu_sched_unlock_def)
  have on': "on_cpu t ?u Q e" by (rule locked_unlock [OF l(2)])
  have "chopstx_join tp s = Some ((Returns 0, Some (pq_v s (Thr tp))), ?u\<lparr>th_state := (th_state ?u)(tp := THREAD_FINISHED)\<rparr>)"
    using nc nd st f by (simp add: chopstx_join_def chopstx_join_resume_def)
  moreover have "kinv {} (Some t) (?u\<lparr>th_state := (th_state ?u)(tp := THREAD_FINISHED)\<rparr>) Q e"
    by (rule kinv_finish [OF on_cpu_kinv [OF on'] tp]) (simp add: f st)
  moreover have "t \<noteq> tp" using r st by auto
  ultimately show ?thesis using on' f
    by (intro exI [of _ "?u\<lparr>th_state := (th_state ?u)(tp := THREAD_FINISHED)\<rparr>"])
      (auto simp: on_cpu_def kernel_ok_def)
qed

text \<open>Otherwise the caller sleeps in \<open>q_join\<close>, and the thread it waits for inherits its priority.\<close>

lemma chopstx_join_sleeps:
  assumes on: "on_cpu t s Q e" and nc: "\<not> chopstx_testcancel s" and tp: "tp \<in> threads e"
    and nd: "\<not> flag_detached s tp" and st: "th_state s tp \<noteq> THREAD_EXITED"
  shows "\<exists>s' Q'. chopstx_join tp s = Some ((Sleeps, None), s') \<and> kernel_ok s' Q' e \<and> prio_top s' e \<and>
    dom Q' = dom Q \<and> th_state s' t = THREAD_WAIT_EXIT \<and> waits_for s' t = Some tp \<and>
    inq Q' (Thr t) Qjoin \<and> pq_prio s (Thr t) \<le> pq_prio s' (Thr tp) \<and>
    (\<forall>x. pq_prio s' x \<noteq> pq_prio s x \<longrightarrow> pq_prio s x < pq_prio s (Thr t) \<and> pq_prio s' x = pq_prio s (Thr t)) \<and>
    (pi_ok s e \<longrightarrow> pi_ok s' e)"
proof -
  let ?i = "chx_cpu_sched_lock s"
  have l: "?i = s\<lparr>masked := True\<rparr>" "locked t ?i Q e" by (rule on_cpu_lock [OF on])+
  have k: "kinv {} (Some t) ?i Q e" using locked_kinv [OF l(2)] .
  have r: "running s = Some t" and t: "t \<in> threads e" and sti: "th_state ?i t = THREAD_RUNNING"
    using on on_cpu_thread [OF on] l by (auto simp: on_cpu_def)
  obtain n p v c Q1 where e1: "rr_stop t ?i =
      Some (?i\<lparr>pq_v := v, systick := c, pq_next := n, pq_prev := p\<rparr>)" (is "_ = Some ?j")
    and k1: "kinv {t} (Some t) (?i\<lparr>pq_v := v, systick := c, pq_next := n, pq_prev := p\<rparr>) Q1 e"
    and Q1: "\<forall>q. q \<noteq> Qtimer \<longrightarrow> Q1 q = Q q" and v1: "\<forall>y. \<not> inq Q y Qtimer \<longrightarrow> v y = pq_v ?i y"
    using kinv_rr_stop [OF k t _ sti] by auto
  have d1: "dom Q1 = dom Q"
    by (rule dom_change_one [OF Q1]) (use kinv_head [OF k] kinv_head [OF k1] in simp_all)
  obtain xs where xs: "Q1 Qjoin = Some xs" using kinv_head [OF k1] by blast
  obtain n' p' Q2 where e2: "ll_prio_enqueue (Thr t) Qjoin ?j =
      Some (?j\<lparr>pq_parent := (pq_parent ?j)(Thr t := Some Qjoin), pq_next := n', pq_prev := p'\<rparr>)"
    and k2: "kinv {} None (?j\<lparr>pq_parent := (pq_parent ?j)(Thr t := Some Qjoin), pq_next := n',
        pq_prev := p', pq_v := (pq_v ?j)(Thr t := tp),
        th_state := (th_state ?j)(t := THREAD_WAIT_EXIT)\<rparr>) Q2 e"
    and Q2: "Q2 = Q1(Qjoin \<mapsto> enq_list (pq_prio ?j) (Thr t) xs)"
    using block_running [OF k1 t xs, of THREAD_WAIT_EXIT tp] tp by auto
  let ?k = "?j\<lparr>pq_parent := (pq_parent ?j)(Thr t := Some Qjoin), pq_next := n',
        pq_prev := p', pq_v := (pq_v ?j)(Thr t := tp),
        th_state := (th_state ?j)(t := THREAD_WAIT_EXIT)\<rparr>"
  let ?m = "?k\<lparr>flag_join_req := (flag_join_req ?k)(tp := True)\<rparr>"
  have k3: "kinv {} None ?m Q2 e" using k2 by (simp del: fun_upd_apply)
  have tt: "\<forall>u. Some tp = Some u \<longrightarrow> u \<in> threads e" using tp by simp
  obtain s4 Q4 where e4: "join_pi t (Some tp) ?m = Some s4" and k4: "kinv {} None s4 Q4 e" and d4: "dom Q4 = dom Q2"
    and inh: "inherits t ?m s4" and ptp: "pq_prio ?m (Thr t) \<le> pq_prio s4 (Thr tp)"
    and wf4: "\<forall>u. waits_for s4 u = waits_for ?m u" and st4: "th_state s4 = th_state ?m"
    and pi4: "pi_except (Some tp) (pq_prio ?m (Thr t)) ?m e \<longrightarrow> pi_ok s4 e"
    using join_pi_ok [OF k3 tt, of t] by blast
  have m4: "masked s4" using inherits_fields(3) [OF inh] l by simp
  obtain s5 Q5 where e5: "chx_sched CHX_SLEEP s4 = Some s5" and ok: "kernel_ok s5 Q5 e"
    and di: "dispatched s4 s5 e" and Q5: "\<forall>q. q \<noteq> Qready \<longrightarrow> q \<noteq> Qtimer \<longrightarrow> Q5 q = Q4 q"
    using chx_sched_sleep_ok [OF k4 m4] by blast
  have run: "chopstx_join tp s = Some ((Sleeps, None), s5)"
    using nc nd st r l e1 e2 e4 e5 by (simp add: chopstx_join_def)
  have d5: "dom Q5 = dom Q"
    using kinv_dom_eq [OF k4 _ Q5, of "{}" "running s5" s5 e] ok d1 d4 Q2 xs
    by (auto simp: kernel_ok_def)
  have st5: "th_state s5 t = THREAD_WAIT_EXIT"
    using dispatched_blocked [OF di, of t] st4 by simp
  have wm: "waits_for ?m t = Some tp" by (simp add: waits_for_def)
  have w5: "waits_for s5 t = Some tp" using dispatched_waits_for [OF di t] wf4 wm by simp
  have iq: "inq Q5 (Thr t) Qjoin"
    using kinv_queued [of "{}" "running s5" s5 Q5 e t] ok t st5 by (auto simp: kernel_ok_def)
  have pr: "pq_prio s5 = pq_prio s4" using dispatched_prio [OF di] by simp
  have raise: "pq_prio s x < pq_prio s (Thr t) \<and> pq_prio s5 x = pq_prio s (Thr t)"
    if "pq_prio s5 x \<noteq> pq_prio s x" for x
    using that inherits_raise [OF inh, of x] pr l(1) by simp
  have wu: "waits_for ?m u = waits_for s u" if u: "u \<in> threads e" "u \<noteq> t" for u
  proof -
    have "v (Thr u) = pq_v s (Thr u)" if "th_state s u = THREAD_WAIT_EXIT"
      using kinv_untimed [OF k u(1)] that v1 l(1) by simp
    then show ?thesis using u(2) l(1) by (simp add: waits_for_def split: tstate.splits option.splits)
  qed
  have pi: "pi_ok s5 e" if p: "pi_ok s e"
  proof -
    have "pi_except (Some tp) (pq_prio ?m (Thr t)) ?m e"
      unfolding pi_except_def
    proof (intro ballI allI impI)
      fix u w assume u: "u \<in> threads e" and w: "waits_for ?m u = Some w"
      show "pq_prio ?m (Thr u) \<le> pq_prio ?m (Thr w) \<or>
          Some tp = Some w \<and> pq_prio ?m (Thr u) \<le> pq_prio ?m (Thr t)"
      proof (cases "u = t")
        case True
        then show ?thesis using w wm by simp
      next
        case False
        then have "waits_for s u = Some w" using wu [OF u False] w by simp
        then show ?thesis using p u l(1) unfolding pi_except_def by auto
      qed
    qed
    then have p4: "pi_ok s4 e" using pi4 by blast
    show ?thesis
      unfolding pi_except_def
    proof (intro ballI allI impI)
      fix u w assume u: "u \<in> threads e" and w: "waits_for s5 u = Some w"
      then have "waits_for s4 u = Some w" using dispatched_waits_for [OF di u] by simp
      then show "pq_prio s5 (Thr u) \<le> pq_prio s5 (Thr w) \<or> None = Some w \<and> pq_prio s5 (Thr u) \<le> 0"
        using p4 u pr unfolding pi_except_def by auto
    qed
  qed
  have "pq_prio s (Thr t) \<le> pq_prio s5 (Thr tp)" using ptp pr l(1) by simp
  moreover have "prio_top s5 e" using di by (simp add: dispatched_def)
  ultimately show ?thesis using run ok d5 st5 w5 iq raise pi by blast
qed

section \<open>Cancellation\<close>

lemma chopstx_cancel_ok:
  assumes on: "on_cpu t s Q e" and tp: "tp \<in> threads e"
  shows "\<exists>s' Q'. chopstx_cancel tp s = Some s' \<and> kernel_ok s' Q' e \<and> dom Q' = dom Q \<and>
    flag_got_cancel s' tp \<and> (prio_top s e \<longrightarrow> prio_top s' e) \<and>
    (if flag_cancelable s tp \<and>
        th_state s tp \<in> {THREAD_WAIT_CND, THREAD_WAIT_TIME, THREAD_WAIT_EXIT, THREAD_WAIT_POLL}
     then th_state s' tp \<in> {THREAD_READY, THREAD_RUNNING}
     else th_state s' tp = th_state s tp \<and> on_cpu t s' Q' e)"
proof -
  let ?i = "chx_cpu_sched_lock s"
  let ?j = "?i\<lparr>flag_got_cancel := (flag_got_cancel ?i)(tp := True)\<rparr>"
  have l: "?i = s\<lparr>masked := True\<rparr>" "locked t ?i Q e" by (rule on_cpu_lock [OF on])+
  have r: "running s = Some t" and t: "t \<in> threads e" and st: "th_state s t = THREAD_RUNNING"
    using on on_cpu_thread [OF on] by (auto simp: on_cpu_def)
  have lj: "locked t ?j Q e" using l(2) by (simp add: locked_def)
  have kj: "kinv {} (Some t) ?j Q e" by (rule locked_kinv [OF lj])
  have topj: "prio_top ?j e" if "prio_top s e" using that l(1) by (simp add: prio_top_def)
  show ?thesis
  proof (cases "flag_cancelable s tp \<and>
      th_state s tp \<in> {THREAD_WAIT_CND, THREAD_WAIT_TIME, THREAD_WAIT_EXIT, THREAD_WAIT_POLL}")
    case False
    have "chopstx_cancel tp s = Some (chx_cpu_sched_unlock ?j)"
      using False l(1) by (auto simp: chopstx_cancel_def Let_def)
    moreover have on': "on_cpu t (chx_cpu_sched_unlock ?j) Q e" by (rule locked_unlock [OF lj])
    moreover have "kernel_ok (chx_cpu_sched_unlock ?j) Q e" using on' by (simp add: on_cpu_def)
    moreover have "prio_top (chx_cpu_sched_unlock ?j) e" if "prio_top s e"
      using topj [OF that] by (simp add: prio_top_def chx_cpu_sched_unlock_def)
    moreover have "flag_got_cancel (chx_cpu_sched_unlock ?j) tp" "th_state (chx_cpu_sched_unlock ?j) tp = th_state s tp"
      using l(1) by (simp_all add: chx_cpu_sched_unlock_def)
    ultimately show ?thesis unfolding if_not_P [OF False]
      by (intro exI [of _ "chx_cpu_sched_unlock ?j"] exI [of _ Q]) simp
  next
    case True
    then have can: "flag_cancelable s tp" and w: "th_state s tp \<in> {THREAD_WAIT_CND, THREAD_WAIT_TIME, THREAD_WAIT_EXIT, THREAD_WAIT_POLL}"
      by auto
    have ne: "tp \<noteq> t" using w st by auto
    obtain s1 Q1 where e1: "(if th_state ?j tp = THREAD_WAIT_CND then Some (True, ll_dequeue (Thr tp) ?j)
          else if th_state ?j tp = THREAD_WAIT_TIME then do {
            (_, s) \<leftarrow> chx_timer_dequeue tp ?j;
            Some (True, s) }
          else if th_state ?j tp = THREAD_WAIT_EXIT then Some (True, ll_dequeue (Thr tp) ?j)
          else if th_state ?j tp = THREAD_WAIT_POLL then
            (if pq_parent ?j (Thr tp) = Some Qtimer then do {
               (_, s) \<leftarrow> chx_timer_dequeue tp ?j;
               Some (True, s) }
             else Some (True, ?j))
          else Some (False, ?j)) = Some (True, s1)"
      and k1: "kinv {tp} (Some t) s1 Q1 e" and q1: "qstep ?j s1" and st1: "th_state s1 = th_state ?j"
      and d1: "dom Q1 = dom Q"
    proof (cases "th_state s tp \<in> {THREAD_WAIT_TIME, THREAD_WAIT_POLL}")
      case True
      have "th_state ?j tp \<in> {THREAD_WAIT_TIME, THREAD_WAIT_POLL}" using True l(1) by simp
      from wake_poll_prep [OF kj tp this] obtain v s1 Q1
        where a: "(if pq_parent ?j (Thr tp) = Some Qtimer then chx_timer_dequeue tp ?j else Some (1, ?j)) = Some (v, s1)"
          "kinv {tp} (Some t) s1 Q1 e" "qstep ?j s1" "th_state s1 = th_state ?j" "dom Q1 = dom Q" by blast
      have p: "pq_parent ?j (Thr tp) = Some Qtimer" if "th_state s tp = THREAD_WAIT_TIME"
        using kinv_queued [OF kj tp] that l(1) by auto
      show thesis
        by (rule that [OF _ a(2-5)]) (use a(1) True p l(1) in \<open>auto split: if_splits\<close>)
    next
      case False
      then obtain q where q: "inq Q (Thr tp) q" "q \<noteq> Qtimer"
        using kinv_queued [OF kj tp] w l(1) by auto
      then obtain xs where xs: "Q q = Some xs" "Thr tp \<in> set xs" by (auto simp: inq_def)
      obtain n p where d: "ll_dequeue (Thr tp) ?j = ?j\<lparr>pq_next := n, pq_prev := p\<rparr>"
        and k1: "kinv {tp} (Some t) (?j\<lparr>pq_next := n, pq_prev := p\<rparr>) (Q(q \<mapsto> remove1 (Thr tp) xs)) e"
        using kinv_dequeue [OF kj xs q(2)] by blast
      show thesis
        by (rule that [OF _ k1]) (use False w d l(1) xs in \<open>auto intro: qstepI\<close>)
    qed
    let ?k = "s1\<lparr>pq_v := (pq_v s1)(Thr tp := - 1)\<rparr>"
    have lo: "loose Q1 (Thr tp)" using kinv_loose [OF k1 tp] by simp
    have k2: "kinv {tp} (Some t) ?k Q1 e"
      by (rule kinv_set_v [OF k1]) (use lo in \<open>auto simp: loose_inq\<close>)
    note f1 = qstepD [OF q1]
    have r2: "running ?k = Some t" "th_state ?k t = THREAD_RUNNING" "masked ?k"
      using f1 st1 r st l(1) by simp_all
    obtain s2 s3 Q3 where e2: "chx_ready_enqueue tp ?k = Some s2" and c: "cur s2 = t"
      and e3: "yield_or_unlock (pq_prio s2 (Thr t) < pq_prio s2 (Thr tp)) s2 = Some s3"
      and ok: "kernel_ok s3 Q3 e" and d3: "dom Q3 = dom Q1"
      and st3: "th_state s3 tp \<in> {THREAD_READY, THREAD_RUNNING}"
      and top: "prio_top ?k e \<longrightarrow> prio_top s3 e"
      and q3: "qstep ?k (s3\<lparr>running := running ?k, masked := masked ?k\<rparr>)"
      using ready_yield_ok [OF k2 tp ne t r2] by blast
    have run: "chopstx_cancel tp s = Some s3"
      unfolding chopstx_cancel_def Let_def using e1 e2 e3 c can l(1) by simp
    have topk: "prio_top ?k e" if "prio_top s e"
      using topj [OF that] st1 f1 by (simp add: prio_top_def)
    have "flag_got_cancel s3 = flag_got_cancel ?k" using qstepD(7) [OF q3] by simp
    then have "flag_got_cancel s3 tp" using f1 by simp
    with run ok d1 d3 st3 top topk True show ?thesis
      by (intro exI [of _ s3] exI [of _ Q3]) simp
  qed
qed

section \<open>Changing the priority\<close>

definition set_prio :: "u8 \<Rightarrow> u8 \<Rightarrow> u8 \<Rightarrow> u8" where
  "set_prio old now new = (if now = old then new else max now new)"

lemma chopstx_setpriority_ok:
  assumes on: "on_cpu t s Q e"
  shows "\<exists>s' Q'. chopstx_setpriority pr s = Some (prio_orig s t, s') \<and> kernel_ok s' Q' e \<and> dom Q' = dom Q \<and>
    prio_orig s' = (prio_orig s)(t := pr) \<and>
    pq_prio s' = (pq_prio s)(Thr t := set_prio (prio_orig s t) (pq_prio s (Thr t)) pr) \<and>
    (prio_top s e \<longrightarrow> prio_top s' e) \<and>
    (if set_prio (prio_orig s t) (pq_prio s (Thr t)) pr < pq_prio s (Thr t)
     then th_state s' t \<in> {THREAD_READY, THREAD_RUNNING} else on_cpu t s' Q' e)"
proof -
  let ?i = "chx_cpu_sched_lock s" and ?new = "set_prio (prio_orig s t) (pq_prio s (Thr t)) pr"
  have l: "?i = s\<lparr>masked := True\<rparr>" "locked t ?i Q e" by (rule on_cpu_lock [OF on])+
  have r: "running s = Some t" and t: "t \<in> threads e" and st: "th_state s t = THREAD_RUNNING"
    using on on_cpu_thread [OF on] by (auto simp: on_cpu_def)
  let ?j = "?i\<lparr>prio_orig := (prio_orig s)(t := pr), pq_prio := (pq_prio s)(Thr t := ?new)\<rparr>"
  have k: "kinv {} (Some t) ?i Q e" by (rule locked_kinv [OF l(2)])
  have nq: "\<not> prio_sorted q" if "inq Q (Thr t) q" for q
    using kinv_inq [OF k that] st l(1) by (auto simp: prio_sorted_def)
  have "kinv {} (Some t) (?i\<lparr>pq_prio := (pq_prio ?i)(Thr t := ?new)\<rparr>) Q e"
    by (rule kinv_set_prio [OF k nq])
  then have kn: "kinv {} (Some t) (?i\<lparr>pq_prio := (pq_prio ?i)(Thr t := ?new)\<rparr>\<lparr>prio_orig := (prio_orig s)(t := pr)\<rparr>) Q e"
    by (simp only: kinv_frame)
  have "?j = ?i\<lparr>pq_prio := (pq_prio ?i)(Thr t := ?new)\<rparr>\<lparr>prio_orig := (prio_orig s)(t := pr)\<rparr>"
    using l(1) by simp
  then have kj: "kinv {} (Some t) ?j Q e" using kn by metis
  have lj: "locked t ?j Q e" using kj r st l(1) t by (simp add: locked_def)
  have eq: "(if pq_prio s (Thr t) = prio_orig s t then pr
      else if pq_prio s (Thr t) < pr then pr else pq_prio s (Thr t)) = ?new"
    by (auto simp: set_prio_def max_def)
  have run: "chopstx_setpriority pr s = do {
     s' \<leftarrow> (if ?new < pq_prio s (Thr t) then chx_sched CHX_YIELD ?j
           else if ?new < CHOPSTX_PRIO_INHIBIT_PREEMPTION then Some (chx_cpu_sched_unlock ?j)
           else Some ?j);
     Some (prio_orig s t, s') }"
    using r l(1) eq by (auto simp: chopstx_setpriority_def Let_def set_prio_def max_def fun_upd_idem)
  show ?thesis
  proof (cases "?new < pq_prio s (Thr t)")
    case True
    obtain s1 Q1 where e1: "chx_sched CHX_YIELD ?j = Some s1" and ok: "kernel_ok s1 Q1 e"
      and di: "dispatched (?j\<lparr>th_state := (th_state ?j)(t := THREAD_READY)\<rparr>) s1 e"
      and Q1: "\<forall>q. q \<noteq> Qready \<longrightarrow> q \<noteq> Qtimer \<longrightarrow> Q1 q = Q q"
      using chx_sched_yield_ok [OF lj] by blast
    have "dom Q1 = dom Q"
      using kinv_dom_eq [OF kj _ Q1, of "{}" "running s1" s1 e] ok by (simp add: kernel_ok_def)
    moreover have "prio_top s1 e" using di by (simp add: dispatched_def)
    moreover have "pq_prio s1 = (pq_prio s)(Thr t := ?new)" using dispatched_prio [OF di] by simp
    moreover have "prio_orig s1 = (prio_orig s)(t := pr)"
    proof -
      have "qstep (?j\<lparr>th_state := (th_state ?j)(t := THREAD_READY)\<rparr>) (s1\<lparr>running := running ?j, masked := masked ?j\<rparr>)"
        using di by (simp add: dispatched_def)
      from qstepD(11) [OF this] show ?thesis by simp
    qed
    moreover have "th_state s1 t \<in> {THREAD_READY, THREAD_RUNNING}" by (rule yield_states(1) [OF di])
    ultimately show ?thesis using run e1 ok True by (intro exI [of _ s1] exI [of _ Q1]) simp
  next
    case False
    let ?f = "if ?new < CHOPSTX_PRIO_INHIBIT_PREEMPTION then chx_cpu_sched_unlock ?j else ?j"
    have "?f = chx_cpu_sched_unlock ?j" using r l(1) by (simp add: chx_cpu_sched_unlock_def)
    then have on': "on_cpu t ?f Q e" using locked_unlock [OF lj] by simp
    have "chopstx_setpriority pr s = Some (prio_orig s t, ?f)"
      using run False by simp
    moreover have f: "prio_orig ?f = (prio_orig s)(t := pr)" "pq_prio ?f = (pq_prio s)(Thr t := ?new)"
      "th_state ?f = th_state s" "running ?f = running s"
      using l(1) by (simp_all add: chx_cpu_sched_unlock_def)
    moreover have "prio_top ?f e" if "prio_top s e"
      using that False r st unfolding prio_top_def f by (auto simp: not_less intro: order_trans)
    moreover have "kernel_ok ?f Q e" using on' by (simp add: on_cpu_def)
    ultimately show ?thesis using False on' by (intro exI [of _ ?f] exI [of _ Q]) simp
  qed
qed

lemma on_cpu_flags [simp]:
  "on_cpu t (s\<lparr>flag_cancelable := f\<rparr>) Q e = on_cpu t s Q e"
  "on_cpu t (s\<lparr>flag_got_cancel := f\<rparr>) Q e = on_cpu t s Q e"
  "on_cpu t (s\<lparr>chx_allow_sleep := i\<rparr>) Q e = on_cpu t s Q e"
  "on_cpu t (s\<lparr>clp_next := cn\<rparr>) Q e = on_cpu t s Q e"
  by (simp_all add: on_cpu_def kernel_ok_def)

end
