(* ===== verification/Poll.thy ===== *)
theory Poll
  imports Thread
begin

text \<open>
  \<open>chopstx_poll\<close> waits for any of several events: a condition, an interrupt, the exit of a
  thread. For each descriptor it links a proxy, a structure on its own stack, into the queue
  of the event; a wakeup of the proxy counts the event and makes the polling thread ready.
  Before it returns it takes the proxies out of the queues again. The addresses of the proxies
  and of the counter in the stack frame are arguments, and so is \<open>check\<close>, the application's
  test of a condition: \<open>check f a s\<close> is the result of the function at \<open>f\<close> with argument \<open>a\<close>.
\<close>

section \<open>Interrupts\<close>

definition chopstx_claim_irq :: "addr \<Rightarrow> u8 \<Rightarrow> 'z kst_scheme \<Rightarrow> 'z kst_scheme" where
  "chopstx_claim_irq intr irq_num s =
     (let s = s\<lparr>pd_type := (pd_type s)(intr := CHOPSTX_POLL_INTR)\<rparr>;
          s = s\<lparr>pd_ready := (pd_ready s)(intr := 0)\<rparr>;
          s = s\<lparr>pd_irq := (pd_irq s)(intr := irq_num)\<rparr>;
          s = chx_cpu_sched_lock s;
          s = chx_disable_intr irq_num s;
          s = chx_clr_intr irq_num s
      in chx_cpu_sched_unlock s)"

definition chopstx_intr_done :: "addr \<Rightarrow> 'z kst_scheme \<Rightarrow> 'z kst_scheme" where
  "chopstx_intr_done intr s =
     (if pd_ready s intr \<noteq> 0 then
        (let s = chx_clr_intr (pd_irq s intr) s in s\<lparr>pd_ready := (pd_ready s)(intr := 0)\<rparr>)
      else s)"

section \<open>Hooks\<close>

definition chx_proxy_init :: "addr \<Rightarrow> addr \<Rightarrow> 'z kst_scheme \<Rightarrow> 'z kst_scheme" where
  "chx_proxy_init px cp s =
     s\<lparr>pq_next := (pq_next s)(Px px := Px px), pq_prev := (pq_prev s)(Px px := Px px),
       pq_is_proxy := (pq_is_proxy s)(Px px := True),
       pq_prio := (pq_prio s)(Px px := pq_prio s (Thr (cur s))),
       pq_parent := (pq_parent s)(Px px := None),
       pq_v := (pq_v s)(Px px := 0),
       px_master := (px_master s)(px := cur s),
       px_counter_p := (px_counter_p s)(px := cp),
       px_ready_p := (px_ready_p s)(px := None)\<rparr>"

text \<open>\<open>(*px->counter_p)++\<close> and \<open>*px->ready_p = 1\<close>\<close>

definition px_count :: "addr \<Rightarrow> 'z kst_scheme \<Rightarrow> 'z kst_scheme" where
  "px_count px s = s\<lparr>counter := (counter s)(px_counter_p s px := counter s (px_counter_p s px) + 1)\<rparr>"

definition px_mark :: "addr \<Rightarrow> 'z kst_scheme \<Rightarrow> 'z kst_scheme option" where
  "px_mark px s = do {
     d \<leftarrow> px_ready_p s px;
     Some (s\<lparr>pd_ready := (pd_ready s)(d := 1)\<rparr>) }"

text \<open>
  \<open>chx_cond_hook\<close> between the locking and the unlocking of the mutex: the test of the condition,
  then, in a critical section of its own, the registration. When the descriptor has no mutex, other code
  may run between the two.
\<close>

definition cond_check :: "(addr \<Rightarrow> addr \<Rightarrow> 'z kst_scheme \<Rightarrow> bool) \<Rightarrow> addr \<Rightarrow> addr \<Rightarrow>
   'z kst_scheme \<Rightarrow> (bool \<times> 'z kst_scheme) option" where
  "cond_check check px pd s =
     (if check (pd_check s pd) (pd_arg s pd) s then do {
        s \<leftarrow> px_mark px (px_count px s);
        Some (True, s) }
      else Some (False, s\<lparr>pd_ready := (pd_ready s)(pd := 0)\<rparr>))"

definition cond_enqueue :: "addr \<Rightarrow> addr \<Rightarrow> 'z kst_scheme \<Rightarrow> 'z kst_scheme option" where
  "cond_enqueue px pd s = do {
     let s = chx_cpu_sched_lock s;
     s \<leftarrow> ll_prio_enqueue (Px px) (Condq (pd_cond s pd)) s;
     Some (chx_cpu_sched_unlock s) }"

definition cond_register :: "(addr \<Rightarrow> addr \<Rightarrow> 'z kst_scheme \<Rightarrow> bool) \<Rightarrow> addr \<Rightarrow> addr \<Rightarrow>
   'z kst_scheme \<Rightarrow> 'z kst_scheme option" where
  "cond_register check px pd s = do {
     (met, s) \<leftarrow> cond_check check px pd s;
     if met then Some s else cond_enqueue px pd s }"

text \<open>
  The whole hook, for when nothing comes in between. \<open>Sleeps\<close>: the thread waits for the mutex and
  runs this part again when it wakes up.
\<close>

definition cond_hook_locked :: "(addr \<Rightarrow> addr \<Rightarrow> 'z kst_scheme \<Rightarrow> bool) \<Rightarrow> addr \<Rightarrow> addr \<Rightarrow>
   'z kst_scheme \<Rightarrow> (call \<times> 'z kst_scheme) option" where
  "cond_hook_locked check px pd s = do {
     (locked, s) \<leftarrow> (case pd_mutex s pd of None \<Rightarrow> Some (True, s) | Some m \<Rightarrow> chopstx_mutex_lock m s);
     if \<not> locked then Some (Sleeps, s)
     else do {
       s \<leftarrow> cond_register check px pd s;
       s \<leftarrow> (case pd_mutex s pd of None \<Rightarrow> Some s | Some m \<Rightarrow> chopstx_mutex_unlock m s);
       Some (Returns 0, s) } }"

definition chx_cond_hook :: "(addr \<Rightarrow> addr \<Rightarrow> 'z kst_scheme \<Rightarrow> bool) \<Rightarrow> addr \<Rightarrow> addr \<Rightarrow>
   'z kst_scheme \<Rightarrow> (call \<times> 'z kst_scheme) option" where
  "chx_cond_hook check px pd s =
     (if chopstx_testcancel s then Some (Exits CHOPSTX_CANCELED, s)
      else cond_hook_locked check px pd s)"

definition chx_intr_hook :: "addr \<Rightarrow> addr \<Rightarrow> 'z kst_scheme \<Rightarrow> (call \<times> 'z kst_scheme) option" where
  "chx_intr_hook px pd s =
     (if chopstx_testcancel s then Some (Exits CHOPSTX_CANCELED, s)
      else do {
        let s = chx_cpu_sched_lock s;
        let s = s\<lparr>pq_v := (pq_v s)(Px px := ucast (pd_irq s pd))\<rparr>;
        s \<leftarrow> (if pd_ready s pd \<noteq> 0 then Some (px_count px s)
              else do {
                s \<leftarrow> ll_prio_enqueue (Px px) Qintr s;
                Some (chx_enable_intr (pd_irq s pd) s) });
        Some (Returns 0, chx_cpu_sched_unlock s) })"

definition chx_join_hook :: "addr \<Rightarrow> addr \<Rightarrow> 'z kst_scheme \<Rightarrow> (call \<times> 'z kst_scheme) option" where
  "chx_join_hook px pd s =
     (if chopstx_testcancel s then Some (Exits CHOPSTX_CANCELED, s)
      else do {
        let tp = pd_thd s pd;
        let s = chx_cpu_sched_lock s;
        if flag_detached s tp then Some (Fatal CHOPSTX_ERR_JOIN, chx_cpu_sched_unlock s)
        else do {
          s \<leftarrow> (if th_state s tp = THREAD_EXITED then px_mark px (px_count px s)
                else do {
                  let s = s\<lparr>pd_ready := (pd_ready s)(pd := 0)\<rparr>;
                  let s = s\<lparr>pq_v := (pq_v s)(Px px := tp)\<rparr>;
                  s \<leftarrow> ll_prio_enqueue (Px px) Qjoin s;
                  Some (s\<lparr>flag_join_req := (flag_join_req s)(tp := True)\<rparr>) });
          Some (Returns 0, chx_cpu_sched_unlock s) } })"

section \<open>The poll call\<close>

text \<open>
  The parts of \<open>chopstx_poll\<close> in their order: the initialisation, one round of the hooking
  loop, the wait, one round of the loop with a timeout, one round of the loop that takes
  the proxies out, and the end.
\<close>

definition poll_start :: "addr list \<Rightarrow> addr \<Rightarrow> 'z kst_scheme \<Rightarrow> call \<times> 'z kst_scheme" where
  "poll_start pxs cp s =
     (let s = s\<lparr>counter := (counter s)(cp := 0)\<rparr>
      in if chopstx_testcancel s then (Exits CHOPSTX_CANCELED, s)
         else (Returns 0, fold (\<lambda>px. chx_proxy_init px cp) pxs s))"

definition poll_hook :: "(addr \<Rightarrow> addr \<Rightarrow> 'z kst_scheme \<Rightarrow> bool) \<Rightarrow> addr \<Rightarrow> addr \<Rightarrow>
   'z kst_scheme \<Rightarrow> (call \<times> 'z kst_scheme) option" where
  "poll_hook check px pd s =
     (let s = s\<lparr>px_ready_p := (px_ready_p s)(px := Some pd)\<rparr>
      in case pd_type s pd of
           CHOPSTX_POLL_COND \<Rightarrow> chx_cond_hook check px pd s
         | CHOPSTX_POLL_INTR \<Rightarrow> chx_intr_hook px pd s
         | CHOPSTX_POLL_JOIN \<Rightarrow> chx_join_hook px pd s)"

definition poll_round :: "addr \<Rightarrow> u32 \<Rightarrow> 'z kst_scheme \<Rightarrow> (call \<times> 'z kst_scheme) option" where
  "poll_round cp usec s =
     (if chopstx_testcancel s then Some (Exits CHOPSTX_CANCELED, s)
      else (let s = chx_cpu_sched_lock s
            in if counter s cp \<noteq> 0 then Some (Returns 0, chx_cpu_sched_unlock s)
               else chx_snooze THREAD_WAIT_POLL usec s))"

definition poll_wait :: "addr \<Rightarrow> u32 option \<Rightarrow> 'z kst_scheme \<Rightarrow> (call \<times> 'z kst_scheme) option" where
  "poll_wait cp usec_p s =
     (let s = chx_cpu_sched_lock s
      in if counter s cp \<noteq> 0 then Some (Returns 0, chx_cpu_sched_unlock s)
         else (case usec_p of
                 None \<Rightarrow> do {
                   let tp = cur s;
                   s \<leftarrow> rr_stop tp s;
                   let s = s\<lparr>th_state := (th_state s)(tp := THREAD_WAIT_POLL)\<rparr>;
                   s \<leftarrow> chx_sched CHX_SLEEP s;
                   Some (Sleeps, s) }
               | Some usec \<Rightarrow> poll_round cp usec (chx_cpu_sched_unlock s)))"

definition poll_unhook :: "addr \<Rightarrow> addr \<Rightarrow> 'z kst_scheme \<Rightarrow> 'z kst_scheme" where
  "poll_unhook px pd s =
     (let s = chx_cpu_sched_lock s;
          s = (case pd_type s pd of
                 CHOPSTX_POLL_COND \<Rightarrow> if pd_ready s pd = 0 then ll_dequeue (Px px) s else s
               | CHOPSTX_POLL_INTR \<Rightarrow>
                   if pd_ready s pd = 0 then chx_disable_intr (pd_irq s pd) (ll_dequeue (Px px) s) else s
               | CHOPSTX_POLL_JOIN \<Rightarrow> if pd_ready s pd = 0 then ll_dequeue (Px px) s else s)
      in chx_cpu_sched_unlock s)"

definition poll_collect :: "(addr \<times> addr) list \<Rightarrow> 'z kst_scheme \<Rightarrow> 'z kst_scheme" where
  "poll_collect = fold (\<lambda>(px, pd). poll_unhook px pd)"

definition poll_finish :: "addr \<Rightarrow> u32 \<Rightarrow> 'z kst_scheme \<Rightarrow> call" where
  "poll_finish cp r s = (if sint r < 0 then Exits CHOPSTX_CANCELED else Returns (counter s cp))"

text \<open>\<open>chopstx_intr_wait\<close> polls one interrupt, without a timeout.\<close>

definition chopstx_intr_wait_hook :: "addr \<Rightarrow> addr \<Rightarrow> 'z kst_scheme \<Rightarrow> (call \<times> 'z kst_scheme) option" where
  "chopstx_intr_wait_hook px intr s = poll_hook (\<lambda>_ _ _. False) px intr s"

section \<open>Proxies come and go\<close>

abbreviation with_proxy :: "addr \<Rightarrow> env \<Rightarrow> env" where
  "with_proxy a e \<equiv> e\<lparr>proxies := insert a (proxies e)\<rparr>"

lemma thread_at_cong:
  "th_state s' t = th_state s t \<Longrightarrow> flag_sched_rr s' t = flag_sched_rr s t \<Longrightarrow>
   pq_parent s' (Thr t) = pq_parent s (Thr t) \<Longrightarrow> pq_v s' (Thr t) = pq_v s (Thr t) \<Longrightarrow>
   threads e' = threads e \<Longrightarrow> held e' t = held e t \<Longrightarrow>
   thread_at r s' Q e' t = thread_at r s Q e t"
  by (simp add: thread_at_def)

text \<open>A thread's structures are untouched by what happens to a proxy.\<close>

lemma chx_proxy_init_fields:
  "pq_next (chx_proxy_init a cp s) = (pq_next s)(Px a := Px a)"
  "pq_prev (chx_proxy_init a cp s) = (pq_prev s)(Px a := Px a)"
  "pq_is_proxy (chx_proxy_init a cp s) = (pq_is_proxy s)(Px a := True)"
  "pq_prio (chx_proxy_init a cp s) = (pq_prio s)(Px a := pq_prio s (Thr (cur s)))"
  "pq_parent (chx_proxy_init a cp s) = (pq_parent s)(Px a := None)"
  "pq_v (chx_proxy_init a cp s) = (pq_v s)(Px a := 0)"
  "px_master (chx_proxy_init a cp s) = (px_master s)(a := cur s)"
  "px_counter_p (chx_proxy_init a cp s) = (px_counter_p s)(a := cp)"
  "px_ready_p (chx_proxy_init a cp s) = (px_ready_p s)(a := None)"
  "th_state (chx_proxy_init a cp s) = th_state s" "flag_sched_rr (chx_proxy_init a cp s) = flag_sched_rr s"
  "running (chx_proxy_init a cp s) = running s" "masked (chx_proxy_init a cp s) = masked s"
  "pendsv (chx_proxy_init a cp s) = pendsv s" "systick (chx_proxy_init a cp s) = systick s"
  "pd_ready (chx_proxy_init a cp s) = pd_ready s" "mtx_owner (chx_proxy_init a cp s) = mtx_owner s"
  "mtx_list (chx_proxy_init a cp s) = mtx_list s" "mutex_list (chx_proxy_init a cp s) = mutex_list s"
  "counter (chx_proxy_init a cp s) = counter s" "flag_cancelable (chx_proxy_init a cp s) = flag_cancelable s"
  "flag_got_cancel (chx_proxy_init a cp s) = flag_got_cancel s"
  by (simp_all add: chx_proxy_init_def)

lemma order_ok_px:
  assumes o: "order_ok s Q" and w: "wfq s Q"
    and pr: "\<And>x q. inq Q x q \<Longrightarrow> pq_prio s' x = pq_prio s x"
    and v: "\<And>x. inq Q x Qtimer \<Longrightarrow> pq_v s' x = pq_v s x" and st: "systick s' = systick s"
  shows "order_ok s' Q"
  unfolding order_ok_def
proof (intro conjI allI impI)
  fix q xs assume q: "Q q = Some xs" and so: "prio_sorted q"
  have "desc (pq_prio s') xs = desc (pq_prio s) xs"
    by (intro desc_cong) (use pr q in \<open>auto simp: inq_def\<close>)
  then show "desc (pq_prio s') xs" using order_okD [OF o q so] by simp
next
  fix xs assume q: "Q Qtimer = Some xs"
  have "Qtimer \<notin> set xs" using wfl_node [OF w q, of Qtimer] by auto
  then have "timer_ok s xs = timer_ok s' xs"
    by (intro timer_ok_cong) (use v q st in \<open>auto simp: inq_def\<close>)
  then show "timer_ok s' xs" using o q by (simp add: order_ok_def)
qed

lemma kinv_proxy_init:
  assumes k: "kinv X r s Q e" and a: "a \<notin> proxies e" and c: "cur s \<in> threads e"
  shows "kinv X r (chx_proxy_init a cp s) Q (with_proxy a e)" (is "kinv X r ?s Q ?e")
proof -
  note f = chx_proxy_init_fields
  have nq: "\<not> inq Q (Px a) q" for q using kinv_px [OF k] a by blast
  have ne: "x \<noteq> Px a" if "inq Q x q" for x q using that nq by auto
  have w: "wfl (pq_next ?s) (pq_prev ?s) Q"
  proof -
    have "dll (pq_next ?s) (pq_prev ?s) q xs = dll (pq_next s) (pq_prev s) q xs" if q: "Q q = Some xs" for q xs
    proof (rule dll_cong)
      fix x assume "x \<in> insert q (set xs)"
      then have "x \<noteq> Px a" using ne wfl_head [OF kinv_wfq [OF k] q] q by (auto simp: inq_def)
      then show "pq_next ?s x = pq_next s x \<and> pq_prev ?s x = pq_prev s x" by (simp add: f)
    qed
    then show ?thesis using kinv_wfq [OF k] by (simp add: wfl_def)
  qed
  have "queues_ok ?s Q ?e"
    unfolding queues_ok_def
  proof (intro conjI allI impI)
    show "wfq ?s Q" by (rule w)
    show "{Qready, Qtimer, Qjoin, Qintr} \<subseteq> dom Q" using k by (simp add: kinv_def queues_ok_def)
    show "pq_parent ?s x = Some q" if "inq Q x q" for x q
      using kinv_parent [OF k that] ne [OF that] by (simp add: f)
    show "t \<in> threads ?e" if "inq Q (Thr t) q" for t q using kinv_thread [OF k that] by simp
    show "b \<in> proxies ?e" "px_queue q" "px_waits (px_ready_p ?s b) (pd_ready ?s)" if "inq Q (Px b) q" for b q
      using kinv_px [OF k that] ne [OF that] by (simp_all add: f)
  qed
  moreover have "px_distinct (px_ready_p ?s) (proxies ?e)"
    using k by (auto simp: kinv_def objects_ok_def px_distinct_def f)
  then have "objects_ok ?s Q ?e"
    using k c unfolding kinv_def objects_ok_def by (auto simp: f selflinked_def)
  moreover have "order_ok ?s Q"
    by (rule order_ok_px [OF kinv_order [OF k] kinv_wfq [OF k]]) (use ne in \<open>auto simp: f\<close>)
  moreover have "locks_ok ?s Q ?e" using k by (simp add: kinv_def locks_ok_def f)
  moreover have "thread_at r ?s Q ?e t = thread_at r s Q e t" for t
    by (rule thread_at_cong) (simp_all add: f)
  ultimately show ?thesis using k by (simp add: kinv_def)
qed

text \<open>A proxy in no queue may be forgotten: nothing points to it.\<close>

lemma kinv_drop_proxies:
  assumes k: "kinv X r s Q e" and lo: "\<And>a. a \<in> A \<Longrightarrow> loose Q (Px a)"
  shows "kinv X r s Q (e\<lparr>proxies := proxies e - A\<rparr>)"
proof -
  have "thread_at r s Q (e\<lparr>proxies := proxies e - A\<rparr>) t = thread_at r s Q e t" for t
    by (rule thread_at_cong) simp_all
  moreover have "queues_ok s Q (e\<lparr>proxies := proxies e - A\<rparr>)"
  proof -
    have "a \<in> proxies e - A" if "inq Q (Px a) q" for a q
      using kinv_px [OF k that] lo [of a] that by (auto simp: loose_inq)
    then show ?thesis using k by (simp add: kinv_def queues_ok_def)
  qed
  moreover have "objects_ok s Q (e\<lparr>proxies := proxies e - A\<rparr>)"
    using k unfolding kinv_def objects_ok_def px_distinct_def by auto
  moreover have "locks_ok s Q (e\<lparr>proxies := proxies e - A\<rparr>)" using k by (simp add: kinv_def locks_ok_def)
  ultimately show ?thesis using k by (simp add: kinv_def)
qed

text \<open>The descriptor of a proxy is set before it is registered.\<close>

lemma kinv_set_ready_p:
  assumes k: "kinv X r s Q e" and a: "a \<in> proxies e" "loose Q (Px a)"
    and d: "\<And>b. b \<in> proxies e \<Longrightarrow> b \<noteq> a \<Longrightarrow> px_ready_p s b \<noteq> Some d"
  shows "kinv X r (s\<lparr>px_ready_p := (px_ready_p s)(a := Some d)\<rparr>) Q e"
proof -
  let ?s = "s\<lparr>px_ready_p := (px_ready_p s)(a := Some d)\<rparr>"
  have "px_waits (px_ready_p ?s b) (pd_ready ?s)" if "inq Q (Px b) q" for b q
  proof -
    have "b \<noteq> a" using that a(2) by (auto simp: loose_inq)
    then show ?thesis using kinv_px [OF k that] by simp
  qed
  then have "queues_ok ?s Q e" using k by (auto simp: kinv_def queues_ok_def)
  moreover have "px_distinct (px_ready_p ?s) (proxies e)"
    unfolding px_distinct_def
  proof (intro ballI impI)
    fix b c assume b: "b \<in> proxies e" and c: "c \<in> proxies e" and n: "px_ready_p ?s b \<noteq> None"
      and eq: "px_ready_p ?s b = px_ready_p ?s c"
    have di: "px_distinct (px_ready_p s) (proxies e)" using k by (simp add: kinv_def objects_ok_def)
    show "b = c"
    proof (cases "b = a \<or> c = a")
      case True
      then show ?thesis using d [OF b] d [OF c] eq by (auto split: if_splits)
    next
      case False
      then show ?thesis using di b c n eq unfolding px_distinct_def by simp
    qed
  qed
  then have "objects_ok ?s Q e" using k by (simp add: kinv_def objects_ok_def selflinked_def)
  moreover have "order_ok ?s Q"
    by (rule order_ok_px [OF kinv_order [OF k] kinv_wfq [OF k]]) simp_all
  moreover have "thread_at r ?s Q e t = thread_at r s Q e t" for t
    by (rule thread_at_cong) simp_all
  ultimately show ?thesis using k by (simp add: kinv_def locks_ok_def)
qed

text \<open>A proxy enters a queue.\<close>

lemma kinv_enqueue_px:
  assumes k: "kinv X r s Q e" and a: "a \<in> proxies e" "loose Q (Px a)" and q: "Q q = Some xs" and pq: "px_queue q"
    and w: "px_waits (px_ready_p s a) (pd_ready s)"
  shows "\<exists>n p. ll_prio_enqueue (Px a) q s =
      Some (s\<lparr>pq_parent := (pq_parent s)(Px a := Some q), pq_next := n, pq_prev := p\<rparr>) \<and>
    kinv X r (s\<lparr>pq_parent := (pq_parent s)(Px a := Some q), pq_next := n, pq_prev := p\<rparr>)
      (Q(q \<mapsto> enq_list (pq_prio s) (Px a) xs)) e"
proof -
  obtain n p where eq: "ll_prio_enqueue (Px a) q s =
      Some (s\<lparr>pq_parent := (pq_parent s)(Px a := Some q), pq_next := n, pq_prev := p\<rparr>)"
    and w': "wfl n p (Q(q \<mapsto> enq_list (pq_prio s) (Px a) xs))" and kp: "keeps s Q {Px a} n p"
    using ll_prio_enqueue_wfq [OF kinv_wfq [OF k] q a(2)] by blast
  let ?Q = "Q(q \<mapsto> enq_list (pq_prio s) (Px a) xs)"
  let ?s = "s\<lparr>pq_parent := (pq_parent s)(Px a := Some q), pq_next := n, pq_prev := p\<rparr>"
  have same: "inq ?Q y q' \<longleftrightarrow> inq Q y q' \<or> (y = Px a \<and> q' = q)" for y q'
    using q by (auto simp: inq_upd inq_here)
  have na: "\<not> inq Q (Px a) q'" for q' using a(2) by (simp add: loose_inq)
  have lt: "loose ?Q (Thr t) = loose Q (Thr t)" for t by (simp add: loose_inq same)
  have "queues_ok ?s ?Q e"
    unfolding queues_ok_def
  proof (intro conjI allI impI)
    show "wfq ?s ?Q" using w' by simp
    show "{Qready, Qtimer, Qjoin, Qintr} \<subseteq> dom ?Q" using k by (auto simp: kinv_def queues_ok_def)
    show "pq_parent ?s x = Some q'" if "inq ?Q x q'" for x q'
      using that kinv_parent [OF k, of x q'] na by (auto simp: same)
    show "t \<in> threads e" if "inq ?Q (Thr t) q'" for t q'
      using that kinv_thread [OF k, of t q'] by (simp add: same)
    show "b \<in> proxies e" "px_queue q'" "px_waits (px_ready_p ?s b) (pd_ready ?s)" if "inq ?Q (Px b) q'" for b q'
      using that kinv_px [OF k, of b q'] a pq w by (auto simp: same)
  qed
  moreover have "objects_ok ?s ?Q e"
    unfolding objects_ok_def
  proof (intro conjI ballI impI)
    fix b assume b: "b \<in> proxies e"
    show "pq_is_proxy ?s (Px b)" "px_master ?s b \<in> threads e"
      using k b by (simp_all add: kinv_def objects_ok_def)
    assume l: "loose ?Q (Px b)"
    then have "b \<noteq> a" "loose Q (Px b)" by (auto simp: loose_inq same)
    then show "selflinked ?s (Px b)" using keepsD [OF kp, of "Px b"] k b
      by (simp add: kinv_def objects_ok_def selflinked_def)
  qed (use k in \<open>simp_all add: kinv_def objects_ok_def\<close>)
  moreover have "order_ok ?s ?Q"
    by (rule order_ok_upd [OF kinv_order [OF k]])
      (use pq in \<open>auto intro: desc_enq_list order_okD [OF kinv_order [OF k] q]\<close>)
  moreover have "locks_ok ?s ?Q e" using k q unfolding kinv_def locks_ok_def by (auto simp: dom_upd_same)
  moreover have "thread_at r ?s ?Q e t = thread_at r s Q e t" for t
    by (simp add: thread_at_def same lt)
  ultimately have "kinv X r ?s ?Q e" using k lt by (simp add: kinv_def)
  with eq show ?thesis by blast
qed

section \<open>Taking the proxies out\<close>

lemma ll_dequeue_self: "selflinked s x \<Longrightarrow> ll_dequeue x s = s"
  by (simp add: ll_dequeue_def selflinked_def Let_def fun_upd_idem)

lemma kinv_unhook:
  assumes k: "kinv X r s Q e" and a: "a \<in> proxies e" and d: "px_ready_p s a = Some d"
  shows "\<exists>n p Q'. (if pd_ready s d = 0 then ll_dequeue (Px a) s else s) = s\<lparr>pq_next := n, pq_prev := p\<rparr> \<and>
    kinv X r (s\<lparr>pq_next := n, pq_prev := p\<rparr>) Q' e \<and> dom Q' = dom Q \<and> loose Q' (Px a) \<and>
    (\<forall>y. loose Q y \<longrightarrow> loose Q' y) \<and> (\<forall>t q. inq Q' (Thr t) q = inq Q (Thr t) q)"
proof (cases "loose Q (Px a)")
  case True
  then have "selflinked s (Px a)" using k a by (simp add: kinv_def objects_ok_def)
  then have "(if pd_ready s d = 0 then ll_dequeue (Px a) s else s) = s\<lparr>pq_next := pq_next s, pq_prev := pq_prev s\<rparr>"
    by (simp add: ll_dequeue_self)
  then show ?thesis using k True
    by (intro exI [of _ "pq_next s"] exI [of _ "pq_prev s"] exI [of _ Q]) simp
next
  case False
  then obtain q where q: "inq Q (Px a) q" by (auto simp: loose_inq)
  then obtain xs where xs: "Q q = Some xs" "Px a \<in> set xs" by (auto simp: inq_def)
  have r: "pd_ready s d = 0" using kinv_px [OF k q] d by (simp add: px_waits_def)
  obtain n p where e: "ll_dequeue (Px a) s = s\<lparr>pq_next := n, pq_prev := p\<rparr>"
    and k': "kinv X r (s\<lparr>pq_next := n, pq_prev := p\<rparr>) (Q(q \<mapsto> remove1 (Px a) xs)) e"
    using kinv_dequeue_px [OF k xs] by blast
  have lo: "loose (Q(q \<mapsto> remove1 (Px a) xs)) (Px a)"
    by (rule loose_after_remove [OF kinv_wfq [OF k] xs])
  have "loose (Q(q \<mapsto> remove1 (Px a) xs)) y" if "loose Q y" for y
    using that xs set_remove1_subset [of "Px a" xs] by (auto simp: loose_inq inq_upd inq_def)
  moreover have "inq (Q(q \<mapsto> remove1 (Px a) xs)) (Thr t) q' = inq Q (Thr t) q'" for t q'
    using xs by (auto simp: inq_upd inq_here)
  moreover have "dom (Q(q \<mapsto> remove1 (Px a) xs)) = dom Q" using xs by auto
  ultimately show ?thesis using e k' lo r
    by (intro exI [of _ n] exI [of _ p] exI [of _ "Q(q \<mapsto> remove1 (Px a) xs)"]) simp
qed

lemma poll_unhook_eq:
  "poll_unhook a d s = chx_cpu_sched_unlock
     (let s0 = chx_cpu_sched_lock s; s1 = (if pd_ready s0 d = 0 then ll_dequeue (Px a) s0 else s0)
      in if pd_type s0 d = CHOPSTX_POLL_INTR \<and> pd_ready s0 d = 0 then chx_disable_intr (pd_irq s0 d) s1 else s1)"
  by (simp add: poll_unhook_def Let_def split: poll_type.split)

lemma poll_unhook_ok:
  assumes on: "on_cpu t s Q e" and a: "a \<in> proxies e" and d: "px_ready_p s a = Some d"
  shows "\<exists>Q'. on_cpu t (poll_unhook a d s) Q' e \<and> dom Q' = dom Q \<and> loose Q' (Px a) \<and>
    (\<forall>y. loose Q y \<longrightarrow> loose Q' y) \<and> px_ready_p (poll_unhook a d s) = px_ready_p s \<and>
    counter (poll_unhook a d s) = counter s"
proof -
  let ?i = "chx_cpu_sched_lock s"
  have l: "?i = s\<lparr>masked := True\<rparr>" "locked t ?i Q e" by (rule on_cpu_lock [OF on])+
  have d': "px_ready_p ?i a = Some d" using d l(1) by simp
  obtain n p Q' where u: "(if pd_ready ?i d = 0 then ll_dequeue (Px a) ?i else ?i) = ?i\<lparr>pq_next := n, pq_prev := p\<rparr>"
    and k: "kinv {} (Some t) (?i\<lparr>pq_next := n, pq_prev := p\<rparr>) Q' e" and Q': "dom Q' = dom Q" "loose Q' (Px a)"
      "\<forall>y. loose Q y \<longrightarrow> loose Q' y"
    using kinv_unhook [OF locked_kinv [OF l(2)] a d'] by blast
  let ?j = "?i\<lparr>pq_next := n, pq_prev := p\<rparr>"
  define z where "z = (if pd_type ?i d = CHOPSTX_POLL_INTR \<and> pd_ready ?i d = 0 then chx_disable_intr (pd_irq ?i d) ?j else ?j)"
  have z: "locked t z Q' e" "px_ready_p z = px_ready_p s" "counter z = counter s"
    using k l by (simp_all add: z_def locked_def chx_disable_intr_def)
  have eq: "poll_unhook a d s = chx_cpu_sched_unlock z"
    unfolding poll_unhook_eq Let_def u z_def ..
  have "on_cpu t (poll_unhook a d s) Q' e" unfolding eq by (rule locked_unlock [OF z(1)])
  then show ?thesis using Q' z by (intro exI [of _ Q']) (simp add: eq chx_cpu_sched_unlock_def)
qed

lemma poll_collect_ok:
  "on_cpu t s Q e \<Longrightarrow> (\<And>a d. (a, d) \<in> set ps \<Longrightarrow> a \<in> proxies e \<and> px_ready_p s a = Some d) \<Longrightarrow>
   \<exists>Q'. on_cpu t (poll_collect ps s) Q' e \<and> dom Q' = dom Q \<and> (\<forall>a \<in> fst ` set ps. loose Q' (Px a)) \<and>
     (\<forall>y. loose Q y \<longrightarrow> loose Q' y) \<and> counter (poll_collect ps s) = counter s"
proof (induction ps arbitrary: s Q)
  case Nil
  then show ?case by (intro exI [of _ Q]) (simp add: poll_collect_def)
next
  case (Cons p ps)
  obtain a d where p: "p = (a, d)" by (cases p)
  have ad: "a \<in> proxies e" "px_ready_p s a = Some d" using Cons.prems(2) p by auto
  obtain Q1 where 1: "on_cpu t (poll_unhook a d s) Q1 e" "dom Q1 = dom Q" "loose Q1 (Px a)"
    "\<forall>y. loose Q y \<longrightarrow> loose Q1 y" "px_ready_p (poll_unhook a d s) = px_ready_p s"
    "counter (poll_unhook a d s) = counter s"
    using poll_unhook_ok [OF Cons.prems(1) ad] by blast
  have "b \<in> proxies e \<and> px_ready_p (poll_unhook a d s) b = Some c" if "(b, c) \<in> set ps" for b c
    using Cons.prems(2) [of b c] that 1(5) by simp
  from Cons.IH [OF 1(1) this] obtain Q2 where 2: "on_cpu t (poll_collect ps (poll_unhook a d s)) Q2 e"
    "dom Q2 = dom Q1" "\<forall>a \<in> fst ` set ps. loose Q2 (Px a)" "\<forall>y. loose Q1 y \<longrightarrow> loose Q2 y"
    "counter (poll_collect ps (poll_unhook a d s)) = counter (poll_unhook a d s)" by blast
  then show ?case using 1 p by (intro exI [of _ Q2]) (simp add: poll_collect_def)
qed

section \<open>Registering\<close>

lemma px_other:
  assumes k: "kinv X r s Q e" and a: "a \<in> proxies e" "loose Q (Px a)" "px_ready_p s a = Some d"
    and b: "inq Q (Px b) q"
  shows "px_ready_p s b \<noteq> Some d"
proof -
  have "b \<in> proxies e" "b \<noteq> a" using kinv_px [OF k b] a b by (auto simp: loose_inq)
  moreover have "px_distinct (px_ready_p s) (proxies e)" using k by (simp add: kinv_def objects_ok_def)
  ultimately show ?thesis using a unfolding px_distinct_def by (metis option.distinct(1))
qed

text \<open>An own, unregistered descriptor may be written.\<close>

lemma kinv_own_ready:
  assumes k: "kinv X r s Q e" and a: "a \<in> proxies e" "loose Q (Px a)" "px_ready_p s a = Some d"
  shows "kinv X r (s\<lparr>pd_ready := (pd_ready s)(d := x)\<rparr>) Q e"
  by (rule kinv_set_ready [OF k]) (use px_other [OF k a] in auto)

definition registered :: "addr \<Rightarrow> addr \<Rightarrow> ptr \<Rightarrow> (ptr \<rightharpoonup> ptr list) \<Rightarrow> 'z kst_scheme \<Rightarrow> bool" where
  "registered a d q Q s \<longleftrightarrow> inq Q (Px a) q \<and> pd_ready s d = 0 \<and> px_ready_p s a = Some d"

lemma chx_intr_hook_ok:
  assumes on: "on_cpu t s Q e" and nc: "\<not> chopstx_testcancel s"
    and a: "a \<in> proxies e" "loose Q (Px a)" "px_ready_p s a = Some d"
  shows "\<exists>s' Q'. chx_intr_hook a d s = Some (Returns 0, s') \<and> on_cpu t s' Q' e \<and> dom Q' = dom Q \<and>
    pq_v s' (Px a) = ucast (pd_irq s d) \<and> px_ready_p s' = px_ready_p s \<and>
    (if pd_ready s d = 0 then registered a d Qintr Q' s' \<and> nvic_enabled s' (pd_irq s d)
     else Q' = Q \<and> counter s' (px_counter_p s a) = counter s (px_counter_p s a) + 1)"
proof -
  let ?i = "chx_cpu_sched_lock s"
  let ?j = "?i\<lparr>pq_v := (pq_v ?i)(Px a := ucast (pd_irq s d))\<rparr>"
  have l: "?i = s\<lparr>masked := True\<rparr>" "locked t ?i Q e" by (rule on_cpu_lock [OF on])+
  have kj: "kinv {} (Some t) ?j Q e"
    by (rule kinv_set_v [OF locked_kinv [OF l(2)]]) (use a(2) in \<open>auto simp: loose_inq\<close>)
  have lj: "locked t ?j Q e" using l(2) kj by (simp add: locked_def)
  show ?thesis
  proof (cases "pd_ready s d = 0")
    case False
    let ?k = "px_count a ?j"
    have "locked t ?k Q e" using lj by (simp add: locked_def px_count_def)
    then have "on_cpu t (chx_cpu_sched_unlock ?k) Q e" by (rule locked_unlock)
    moreover have "chx_intr_hook a d s = Some (Returns 0, chx_cpu_sched_unlock ?k)"
      using nc False l(1) by (simp add: chx_intr_hook_def)
    ultimately show ?thesis using False l(1)
      by (intro exI [of _ "chx_cpu_sched_unlock ?k"] exI [of _ Q])
        (simp, simp add: chx_cpu_sched_unlock_def px_count_def)
  next
    case True
    have w: "px_waits (px_ready_p ?j a) (pd_ready ?j)" using a True l(1) by (simp add: px_waits_def)
    obtain xs where q: "Q Qintr = Some xs" using kinv_head [OF kj] by blast
    let ?Q = "Q(Qintr \<mapsto> enq_list (pq_prio ?j) (Px a) xs)"
    obtain n p where e1: "ll_prio_enqueue (Px a) Qintr ?j =
        Some (?j\<lparr>pq_parent := (pq_parent ?j)(Px a := Some Qintr), pq_next := n, pq_prev := p\<rparr>)" (is "_ = Some ?k")
      and k1: "kinv {} (Some t) (?j\<lparr>pq_parent := (pq_parent ?j)(Px a := Some Qintr), pq_next := n, pq_prev := p\<rparr>) ?Q e"
      using kinv_enqueue_px [OF kj a(1,2) q _ w] by auto
    let ?m = "chx_enable_intr (pd_irq s d) ?k"
    have "locked t ?m ?Q e" using k1 lj by (simp add: locked_def chx_enable_intr_def)
    then have on': "on_cpu t (chx_cpu_sched_unlock ?m) ?Q e" by (rule locked_unlock)
    have run: "chx_intr_hook a d s = Some (Returns 0, chx_cpu_sched_unlock ?m)"
      using nc True l(1) e1 by (simp add: chx_intr_hook_def)
    have f: "pq_v (chx_cpu_sched_unlock ?m) (Px a) = ucast (pd_irq s d)"
      "px_ready_p (chx_cpu_sched_unlock ?m) = px_ready_p s" "pd_ready (chx_cpu_sched_unlock ?m) = pd_ready s"
      "nvic_enabled (chx_cpu_sched_unlock ?m) (pd_irq s d)"
      using l(1) by (simp_all add: chx_cpu_sched_unlock_def chx_enable_intr_def)
    have "inq ?Q (Px a) Qintr" by (simp add: inq_def)
    moreover have "dom ?Q = dom Q" using q by auto
    ultimately show ?thesis using run on' f True a
      by (intro exI [of _ "chx_cpu_sched_unlock ?m"] exI [of _ ?Q]) (simp add: registered_def)
  qed
qed

text \<open>Counting an event that has already happened.\<close>

lemma count_mark:
  assumes k: "kinv X r s Q e" and a: "a \<in> proxies e" "loose Q (Px a)" "px_ready_p s a = Some d"
  shows "\<exists>s'. px_mark a (px_count a s) = Some s' \<and> kinv X r s' Q e \<and>
    s' = s\<lparr>counter := (counter s)(px_counter_p s a := counter s (px_counter_p s a) + 1),
           pd_ready := (pd_ready s)(d := 1)\<rparr>"
proof -
  have "kinv X r (s\<lparr>pd_ready := (pd_ready s)(d := 1)\<rparr>) Q e" by (rule kinv_own_ready [OF k a])
  then have "kinv X r (s\<lparr>pd_ready := (pd_ready s)(d := 1)\<rparr>
      \<lparr>counter := (counter s)(px_counter_p s a := counter s (px_counter_p s a) + 1)\<rparr>) Q e"
    by (simp only: kinv_frame)
  moreover have "s\<lparr>pd_ready := (pd_ready s)(d := 1)\<rparr>
      \<lparr>counter := (counter s)(px_counter_p s a := counter s (px_counter_p s a) + 1)\<rparr> =
    s\<lparr>counter := (counter s)(px_counter_p s a := counter s (px_counter_p s a) + 1),
      pd_ready := (pd_ready s)(d := 1)\<rparr>" by simp
  ultimately show ?thesis using a by (simp add: px_mark_def px_count_def)
qed

lemma chx_join_hook_ok:
  assumes on: "on_cpu t s Q e" and nc: "\<not> chopstx_testcancel s"
    and a: "a \<in> proxies e" "loose Q (Px a)" "px_ready_p s a = Some d"
    and nd: "\<not> flag_detached s (pd_thd s d)"
  shows "\<exists>s' Q'. chx_join_hook a d s = Some (Returns 0, s') \<and> on_cpu t s' Q' e \<and> dom Q' = dom Q \<and>
    px_ready_p s' = px_ready_p s \<and>
    (if th_state s (pd_thd s d) = THREAD_EXITED
     then Q' = Q \<and> counter s' (px_counter_p s a) = counter s (px_counter_p s a) + 1 \<and> pd_ready s' d = 1
     else registered a d Qjoin Q' s' \<and> pq_v s' (Px a) = pd_thd s d \<and> flag_join_req s' (pd_thd s d))"
proof -
  let ?i = "chx_cpu_sched_lock s" and ?tp = "pd_thd s d"
  have l: "?i = s\<lparr>masked := True\<rparr>" "locked t ?i Q e" by (rule on_cpu_lock [OF on])+
  have ki: "kinv {} (Some t) ?i Q e" by (rule locked_kinv [OF l(2)])
  have ai: "px_ready_p ?i a = Some d" using a l(1) by simp
  show ?thesis
  proof (cases "th_state s ?tp = THREAD_EXITED")
    case True
    obtain s1 where m: "px_mark a (px_count a ?i) = Some s1" "kinv {} (Some t) s1 Q e"
      and s1: "s1 = ?i\<lparr>counter := (counter ?i)(px_counter_p ?i a := counter ?i (px_counter_p ?i a) + 1),
        pd_ready := (pd_ready ?i)(d := 1)\<rparr>"
      using count_mark [OF ki a(1,2) ai] by blast
    have "locked t s1 Q e" using m(2) l(2) s1 by (simp add: locked_def)
    then have on': "on_cpu t (chx_cpu_sched_unlock s1) Q e" by (rule locked_unlock)
    have run: "chx_join_hook a d s = Some (Returns 0, chx_cpu_sched_unlock s1)"
      using nc True l(1) m(1) nd by (simp add: chx_join_hook_def)
    have "px_ready_p (chx_cpu_sched_unlock s1) = px_ready_p s" "pd_ready (chx_cpu_sched_unlock s1) d = 1"
      "counter (chx_cpu_sched_unlock s1) (px_counter_p s a) = counter s (px_counter_p s a) + 1"
      using s1 l(1) by (simp_all add: chx_cpu_sched_unlock_def)
    then show ?thesis using run on' True by (intro exI [of _ "chx_cpu_sched_unlock s1"] exI [of _ Q]) simp
  next
    case False
    let ?j = "?i\<lparr>pd_ready := (pd_ready ?i)(d := 0)\<rparr>"
    let ?k = "?j\<lparr>pq_v := (pq_v ?j)(Px a := ?tp)\<rparr>"
    have kj: "kinv {} (Some t) ?j Q e" by (rule kinv_own_ready [OF ki a(1,2) ai])
    have kk: "kinv {} (Some t) ?k Q e"
      by (rule kinv_set_v [OF kj]) (use a(2) in \<open>auto simp: loose_inq\<close>)
    have w: "px_waits (px_ready_p ?k a) (pd_ready ?k)" using ai by (simp add: px_waits_def)
    obtain xs where q: "Q Qjoin = Some xs" using kinv_head [OF ki] by blast
    let ?Q = "Q(Qjoin \<mapsto> enq_list (pq_prio ?k) (Px a) xs)"
    obtain n p where e1: "ll_prio_enqueue (Px a) Qjoin ?k =
        Some (?k\<lparr>pq_parent := (pq_parent ?k)(Px a := Some Qjoin), pq_next := n, pq_prev := p\<rparr>)" (is "_ = Some ?m")
      and k1: "kinv {} (Some t) (?k\<lparr>pq_parent := (pq_parent ?k)(Px a := Some Qjoin), pq_next := n, pq_prev := p\<rparr>) ?Q e"
      using kinv_enqueue_px [OF kk a(1,2) q _ w] by auto
    let ?z = "?m\<lparr>flag_join_req := (flag_join_req ?m)(?tp := True)\<rparr>"
    have kz: "kinv {} (Some t) ?z ?Q e" using k1 by (simp only: kinv_frame)
    have "locked t ?z ?Q e" using kz l(2) by (simp add: locked_def)
    then have on': "on_cpu t (chx_cpu_sched_unlock ?z) ?Q e" by (rule locked_unlock)
    have run: "chx_join_hook a d s = Some (Returns 0, chx_cpu_sched_unlock ?z)"
      using nc False l(1) e1 nd by (simp add: chx_join_hook_def Let_def)
    have f: "pq_v (chx_cpu_sched_unlock ?z) (Px a) = ?tp"
      "px_ready_p (chx_cpu_sched_unlock ?z) = px_ready_p s" "pd_ready (chx_cpu_sched_unlock ?z) d = 0"
      "flag_join_req (chx_cpu_sched_unlock ?z) ?tp"
      using l(1) by (simp_all add: chx_cpu_sched_unlock_def)
    have "inq ?Q (Px a) Qjoin" by (simp add: inq_def)
    moreover have "dom ?Q = dom Q" using q by auto
    ultimately show ?thesis using run on' f False a
      by (intro exI [of _ "chx_cpu_sched_unlock ?z"] exI [of _ ?Q]) (simp add: registered_def)
  qed
qed

lemma on_cpu_change:
  "on_cpu t s Q e \<Longrightarrow> kinv {} (Some t) s' Q' e' \<Longrightarrow> t \<in> threads e' \<Longrightarrow> running s' = running s \<Longrightarrow>
   th_state s' t = th_state s t \<Longrightarrow> masked s' = masked s \<Longrightarrow> pq_prio s' (Thr t) = pq_prio s (Thr t) \<Longrightarrow>
   on_cpu t s' Q' e'"
  by (simp add: on_cpu_def kernel_ok_def)

lemma cond_check_ok:
  assumes on: "on_cpu t s Q e" and a: "a \<in> proxies e" "loose Q (Px a)" "px_ready_p s a = Some d"
  shows "\<exists>s'. cond_check check a d s = Some (check (pd_check s d) (pd_arg s d) s, s') \<and> on_cpu t s' Q e \<and>
    px_ready_p s' = px_ready_p s \<and> pd_mutex s' = pd_mutex s \<and> pd_cond s' = pd_cond s \<and>
    (if check (pd_check s d) (pd_arg s d) s
     then counter s' (px_counter_p s a) = counter s (px_counter_p s a) + 1 \<and> pd_ready s' d = 1
     else pd_ready s' d = 0)"
proof (cases "check (pd_check s d) (pd_arg s d) s")
  case True
  obtain s1 where m: "px_mark a (px_count a s) = Some s1" "kinv {} (Some t) s1 Q e"
    and s1: "s1 = s\<lparr>counter := (counter s)(px_counter_p s a := counter s (px_counter_p s a) + 1),
      pd_ready := (pd_ready s)(d := 1)\<rparr>"
    using count_mark [OF on_cpu_kinv [OF on] a] by blast
  have "on_cpu t s1 Q e"
    by (rule on_cpu_change [OF on m(2) on_cpu_thread [OF on]]) (simp_all add: s1)
  then show ?thesis using True m s1 by (intro exI [of _ s1]) (simp add: cond_check_def)
next
  case False
  let ?j = "s\<lparr>pd_ready := (pd_ready s)(d := 0)\<rparr>"
  have kj: "kinv {} (Some t) ?j Q e" by (rule kinv_own_ready [OF on_cpu_kinv [OF on] a])
  have "on_cpu t ?j Q e"
    by (rule on_cpu_change [OF on kj on_cpu_thread [OF on]]) simp_all
  then show ?thesis using False by (intro exI [of _ ?j]) (simp add: cond_check_def)
qed

lemma cond_enqueue_ok:
  assumes on: "on_cpu t s Q e" and a: "a \<in> proxies e" "loose Q (Px a)" "px_ready_p s a = Some d"
    and c: "Condq (pd_cond s d) \<in> dom Q" and r: "pd_ready s d = 0"
  shows "\<exists>s' Q'. cond_enqueue a d s = Some s' \<and> on_cpu t s' Q' e \<and> dom Q' = dom Q \<and>
    px_ready_p s' = px_ready_p s \<and> pd_mutex s' = pd_mutex s \<and> registered a d (Condq (pd_cond s d)) Q' s'"
proof -
  let ?i = "chx_cpu_sched_lock s"
  have l: "?i = s\<lparr>masked := True\<rparr>" "locked t ?i Q e" by (rule on_cpu_lock [OF on])+
  have w: "px_waits (px_ready_p ?i a) (pd_ready ?i)" using a r l(1) by (simp add: px_waits_def)
  obtain xs where q: "Q (Condq (pd_cond s d)) = Some xs" using c by auto
  let ?Q = "Q(Condq (pd_cond s d) \<mapsto> enq_list (pq_prio ?i) (Px a) xs)"
  obtain n p where e1: "ll_prio_enqueue (Px a) (Condq (pd_cond s d)) ?i =
      Some (?i\<lparr>pq_parent := (pq_parent ?i)(Px a := Some (Condq (pd_cond s d))), pq_next := n, pq_prev := p\<rparr>)"
      (is "_ = Some ?m")
    and k1: "kinv {} (Some t) (?i\<lparr>pq_parent := (pq_parent ?i)(Px a := Some (Condq (pd_cond s d))), pq_next := n,
        pq_prev := p\<rparr>) ?Q e"
    using kinv_enqueue_px [OF locked_kinv [OF l(2)] a(1,2) q _ w] by auto
  have "locked t ?m ?Q e" using k1 l(2) by (simp add: locked_def)
  then have on': "on_cpu t (chx_cpu_sched_unlock ?m) ?Q e" by (rule locked_unlock)
  have run: "cond_enqueue a d s = Some (chx_cpu_sched_unlock ?m)"
    using l(1) e1 by (simp add: cond_enqueue_def)
  have f: "px_ready_p (chx_cpu_sched_unlock ?m) = px_ready_p s" "pd_ready (chx_cpu_sched_unlock ?m) d = 0"
    "pd_mutex (chx_cpu_sched_unlock ?m) = pd_mutex s"
    using l(1) r by (simp_all add: chx_cpu_sched_unlock_def)
  have "inq ?Q (Px a) (Condq (pd_cond s d))" by (simp add: inq_def)
  moreover have "dom ?Q = dom Q" using q by auto
  ultimately show ?thesis using run on' f a
    by (intro exI [of _ "chx_cpu_sched_unlock ?m"] exI [of _ ?Q]) (simp add: registered_def)
qed

lemma cond_register_ok:
  assumes on: "on_cpu t s Q e" and a: "a \<in> proxies e" "loose Q (Px a)" "px_ready_p s a = Some d"
    and c: "Condq (pd_cond s d) \<in> dom Q"
  shows "\<exists>s' Q'. cond_register check a d s = Some s' \<and> on_cpu t s' Q' e \<and> dom Q' = dom Q \<and>
    px_ready_p s' = px_ready_p s \<and> pd_mutex s' = pd_mutex s \<and>
    (if check (pd_check s d) (pd_arg s d) s
     then Q' = Q \<and> counter s' (px_counter_p s a) = counter s (px_counter_p s a) + 1 \<and> pd_ready s' d = 1
     else registered a d (Condq (pd_cond s d)) Q' s')"
proof -
  let ?c = "check (pd_check s d) (pd_arg s d) s"
  obtain s1 where s1: "cond_check check a d s = Some (?c, s1)" "on_cpu t s1 Q e" "px_ready_p s1 = px_ready_p s"
      "pd_mutex s1 = pd_mutex s" "pd_cond s1 = pd_cond s"
      "if ?c then counter s1 (px_counter_p s a) = counter s (px_counter_p s a) + 1 \<and> pd_ready s1 d = 1
       else pd_ready s1 d = 0"
    using cond_check_ok [OF on a] by blast
  show ?thesis
  proof (cases ?c)
    case True
    then show ?thesis using s1 by (intro exI [of _ s1] exI [of _ Q]) (simp add: cond_register_def)
  next
    case False
    have "px_ready_p s1 a = Some d" "Condq (pd_cond s1 d) \<in> dom Q" "pd_ready s1 d = 0"
      using s1 a(3) c False by simp_all
    from cond_enqueue_ok [OF s1(2) a(1,2) this] obtain s2 Q2 where "cond_enqueue a d s1 = Some s2" "on_cpu t s2 Q2 e"
        "dom Q2 = dom Q" "px_ready_p s2 = px_ready_p s1" "pd_mutex s2 = pd_mutex s1"
        "registered a d (Condq (pd_cond s1 d)) Q2 s2" by blast
    then show ?thesis using s1 False by (intro exI [of _ s2] exI [of _ Q2]) (simp add: cond_register_def)
  qed
qed

text \<open>The mutex of a condition descriptor is free: it is locked, and unlocked again at the end.\<close>

lemma mutex_lock_free_fields:
  assumes on: "on_cpu t s Q e" and m: "mtx_owner s m = None" "Mtxq m \<in> dom Q"
  shows "\<exists>s1. chopstx_mutex_lock m s = Some (True, s1) \<and>
    on_cpu t s1 Q (e\<lparr>held := (held e)(t := m # held e t)\<rparr>) \<and>
    px_ready_p s1 = px_ready_p s \<and> pd_mutex s1 = pd_mutex s \<and> pd_cond s1 = pd_cond s \<and>
    pd_check s1 = pd_check s \<and> pd_arg s1 = pd_arg s"
proof -
  obtain s1 where s1: "chopstx_mutex_lock m s = Some (True, s1)"
    "on_cpu t s1 Q (e\<lparr>held := (held e)(t := m # held e t)\<rparr>)"
    using mutex_lock_free [OF on m] by blast
  have "mtx_owner (chx_cpu_sched_lock s) m = None" using m by (simp add: chx_cpu_sched_lock_def)
  then have "s1 = chx_cpu_sched_unlock (chx_cpu_sched_lock s\<lparr>mtx_owner := (mtx_owner s)(m := Some (cur s)),
      mtx_list := (mtx_list s)(m := mutex_list s (cur s)), mutex_list := (mutex_list s)(cur s := Some m)\<rparr>)"
    using s1(1) by (simp add: chopstx_mutex_lock_def Let_def chx_cpu_sched_lock_def split: if_splits)
  then show ?thesis using s1
    by (intro exI [of _ s1]) (simp, simp add: chx_cpu_sched_unlock_def chx_cpu_sched_lock_def)
qed

lemma chx_cond_hook_ok:
  assumes on: "on_cpu t s Q e" and nc: "\<not> chopstx_testcancel s"
    and a: "a \<in> proxies e" "loose Q (Px a)" "px_ready_p s a = Some d"
    and c: "Condq (pd_cond s d) \<in> dom Q"
    and m: "\<And>m. pd_mutex s d = Some m \<Longrightarrow> mtx_owner s m = None \<and> Mtxq m \<in> dom Q"
  shows "\<exists>s' Q'. chx_cond_hook check a d s = Some (Returns 0, s') \<and> kernel_ok s' Q' e \<and> dom Q' = dom Q"
proof (cases "pd_mutex s d")
  case None
  obtain s1 Q1 where "cond_register check a d s = Some s1" "on_cpu t s1 Q1 e" "dom Q1 = dom Q"
    "pd_mutex s1 = pd_mutex s"
    using cond_register_ok [OF on a c] by blast
  then show ?thesis using None nc
    by (intro exI [of _ s1] exI [of _ Q1]) (simp add: chx_cond_hook_def cond_hook_locked_def on_cpu_def)
next
  case (Some m)
  have mm: "mtx_owner s m = None" "Mtxq m \<in> dom Q" using assms(7) [OF Some] by simp_all
  let ?e = "e\<lparr>held := (held e)(t := m # held e t)\<rparr>"
  obtain s1 where s1: "chopstx_mutex_lock m s = Some (True, s1)" "on_cpu t s1 Q ?e"
    and f1: "px_ready_p s1 = px_ready_p s" "pd_mutex s1 = pd_mutex s" "pd_cond s1 = pd_cond s"
    using mutex_lock_free_fields [OF on mm] by blast
  have a1: "a \<in> proxies ?e" "px_ready_p s1 a = Some d" "Condq (pd_cond s1 d) \<in> dom Q" using a c f1 by simp_all
  obtain s2 Q2 where s2: "cond_register check a d s1 = Some s2" "on_cpu t s2 Q2 ?e" "dom Q2 = dom Q"
    "pd_mutex s2 = pd_mutex s1"
    using cond_register_ok [OF s1(2) a1(1) a(2) a1(2,3)] by blast
  have h: "held ?e t = m # held e t" by simp
  obtain s3 Q3 where s3: "chopstx_mutex_unlock m s2 = Some s3" "kernel_ok s3 Q3 (?e\<lparr>held := (held ?e)(t := held e t)\<rparr>)"
    "dom Q3 = dom Q2"
    using chopstx_mutex_unlock_ok [OF s2(2) h] by blast
  have "?e\<lparr>held := (held ?e)(t := held e t)\<rparr> = e" by (simp add: fun_upd_idem)
  then show ?thesis using Some nc s1 s2 s3 f1
    by (intro exI [of _ s3] exI [of _ Q3]) (simp add: chx_cond_hook_def cond_hook_locked_def)
qed

section \<open>The wait\<close>

text \<open>
  A thread that is not scheduled round robin may wait without a limit; with a timeout any
  thread may.
\<close>

lemma poll_sleep_ok:
  assumes l: "locked t s Q e" and rr: "\<not> flag_sched_rr s t"
  shows "\<exists>s' Q'. chx_sched CHX_SLEEP (s\<lparr>th_state := (th_state s)(t := THREAD_WAIT_POLL)\<rparr>) = Some s' \<and>
    kernel_ok s' Q' e \<and> prio_top s' e \<and> dom Q' = dom Q \<and>
    (\<forall>q. q \<noteq> Qready \<longrightarrow> q \<noteq> Qtimer \<longrightarrow> Q' q = Q q) \<and>
    th_state s' t = THREAD_WAIT_POLL \<and> running s' \<noteq> Some t"
proof -
  have k: "kinv {} (Some t) s Q e" using locked_kinv [OF l] .
  have t: "t \<in> threads e" and st: "th_state s t = THREAD_RUNNING" and m: "masked s"
    using l by (auto simp: locked_def)
  have at: "thread_at (Some t) s Q e t" using kinv_at [OF k t] by simp
  then have lo: "loose Q (Thr t)" using st rr by (auto simp: thread_at_def loose_inq)
  then have par: "pq_parent s (Thr t) \<noteq> Some Qtimer" using at st by (auto simp: thread_at_def)
  have k1: "kinv {t} (Some t) s Q e" using kinv_loose_flight [OF k lo] by simp
  let ?i = "s\<lparr>th_state := (th_state s)(t := THREAD_WAIT_POLL)\<rparr>"
  have k2: "kinv {t} (Some t) ?i Q e" using kinv_set_state [OF k1 t] by simp
  have "kinv ({t} - {t}) (Some t) ?i Q e"
    by (rule kinv_land [OF k2 t]) (use par in auto)
  then have k3: "kinv {} None ?i Q e" by (intro kinv_not_running [of t]) simp_all
  have mi: "masked ?i" using m by simp
  obtain s' Q' where e1: "chx_sched CHX_SLEEP ?i = Some s'" and ok: "kernel_ok s' Q' e"
    and di: "dispatched ?i s' e" and Q': "\<forall>q. q \<noteq> Qready \<longrightarrow> q \<noteq> Qtimer \<longrightarrow> Q' q = Q q"
    using chx_sched_sleep_ok [OF k3 mi] by blast
  have "th_state s' t = th_state ?i t \<and> running s' \<noteq> Some t"
    by (rule dispatched_blocked [OF di]) simp
  moreover have "dom Q' = dom Q"
    using kinv_dom_eq [OF k3 _ Q', of "{}" "running s'" s' e] ok by (simp add: kernel_ok_def)
  moreover have "prio_top s' e" using di by (simp add: dispatched_def)
  ultimately show ?thesis using e1 ok Q' by (intro exI [of _ s'] exI [of _ Q']) simp
qed

lemma poll_round_ok:
  assumes on: "on_cpu t s Q e" and nc: "\<not> chopstx_testcancel s"
  shows "\<exists>c s' Q'. poll_round cp usec s = Some (c, s') \<and> kernel_ok s' Q' e \<and> dom Q' = dom Q \<and>
    (\<forall>q. q \<noteq> Qready \<longrightarrow> q \<noteq> Qtimer \<longrightarrow> Q' q = Q q) \<and> (prio_top s e \<longrightarrow> prio_top s' e) \<and>
    (if counter s cp \<noteq> 0 then c = Returns 0 \<and> on_cpu t s' Q' e
     else if usec = 0 then c = Returns 1 \<and> on_cpu t s' Q' e
     else c = Sleeps \<and> th_state s' t = THREAD_WAIT_POLL)"
proof -
  let ?i = "chx_cpu_sched_lock s" and ?u = "chx_cpu_sched_unlock (chx_cpu_sched_lock s)"
  have l: "?i = s\<lparr>masked := True\<rparr>" "locked t ?i Q e" by (rule on_cpu_lock [OF on])+
  have onu: "on_cpu t ?u Q e" by (rule locked_unlock [OF l(2)])
  have top: "prio_top s e \<longrightarrow> prio_top ?u e" using l(1) by (simp add: prio_top_def chx_cpu_sched_unlock_def)
  show ?thesis
  proof (cases "counter s cp = 0 \<and> usec \<noteq> 0")
    case False
    then have "poll_round cp usec s = Some (if counter s cp \<noteq> 0 then Returns 0 else Returns 1, ?u)"
      using nc l(1) by (auto simp: poll_round_def Let_def chx_snooze_def)
    moreover have "kernel_ok ?u Q e" using onu by (simp add: on_cpu_def)
    ultimately show ?thesis using False onu top
      by (intro exI [of _ "if counter s cp \<noteq> 0 then Returns 0 else Returns 1"] exI [of _ ?u] exI [of _ Q]) simp
  next
    case True
    then obtain s' Q' where "chx_snooze THREAD_WAIT_POLL usec ?i = Some (Sleeps, s')" "kernel_ok s' Q' e"
      "prio_top s' e" "dom Q' = dom Q" "\<forall>q. q \<noteq> Qready \<longrightarrow> q \<noteq> Qtimer \<longrightarrow> Q' q = Q q"
      "th_state s' t = THREAD_WAIT_POLL"
      using chx_snooze_ok [OF l(2), of usec THREAD_WAIT_POLL] by auto
    then show ?thesis using True nc l(1)
      by (intro exI [of _ Sleeps] exI [of _ s'] exI [of _ Q']) (simp add: poll_round_def)
  qed
qed

lemma poll_wait_ok:
  assumes on: "on_cpu t s Q e" and nc: "\<not> chopstx_testcancel s"
    and rr: "usec_p = None \<Longrightarrow> \<not> flag_sched_rr s t"
  shows "\<exists>c s' Q'. poll_wait cp usec_p s = Some (c, s') \<and> kernel_ok s' Q' e \<and> dom Q' = dom Q \<and>
    (\<forall>q. q \<noteq> Qready \<longrightarrow> q \<noteq> Qtimer \<longrightarrow> Q' q = Q q) \<and> (prio_top s e \<longrightarrow> prio_top s' e) \<and>
    (if counter s cp \<noteq> 0 then c = Returns 0 \<and> on_cpu t s' Q' e
     else if usec_p = Some 0 then c = Returns 1 \<and> on_cpu t s' Q' e
     else c = Sleeps \<and> th_state s' t = THREAD_WAIT_POLL)"
proof -
  let ?i = "chx_cpu_sched_lock s" and ?u = "chx_cpu_sched_unlock (chx_cpu_sched_lock s)"
  have l: "?i = s\<lparr>masked := True\<rparr>" "locked t ?i Q e" by (rule on_cpu_lock [OF on])+
  have onu: "on_cpu t ?u Q e" by (rule locked_unlock [OF l(2)])
  have fu: "counter ?u = counter s" "chopstx_testcancel ?u = chopstx_testcancel s"
    using l(1) by (simp_all add: chx_cpu_sched_unlock_def chopstx_testcancel_def cur_def)
  have top: "prio_top s e \<longrightarrow> prio_top ?u e" using l(1) by (simp add: prio_top_def chx_cpu_sched_unlock_def)
  show ?thesis
  proof (cases "counter s cp = 0")
    case False
    then have "poll_wait cp usec_p s = Some (Returns 0, ?u)"
      using l(1) by (simp add: poll_wait_def Let_def)
    moreover have "kernel_ok ?u Q e" using onu by (simp add: on_cpu_def)
    ultimately show ?thesis using False onu top
      by (intro exI [of _ "Returns 0"] exI [of _ ?u] exI [of _ Q]) simp
  next
    case True
    show ?thesis
    proof (cases usec_p)
      case None
      have r: "running s = Some t" using on by (simp add: on_cpu_def)
      have rr': "\<not> flag_sched_rr ?i t" using rr None l(1) by simp
      obtain s' Q' where s': "chx_sched CHX_SLEEP (?i\<lparr>th_state := (th_state ?i)(t := THREAD_WAIT_POLL)\<rparr>) = Some s'"
        "kernel_ok s' Q' e" "prio_top s' e" "dom Q' = dom Q" "\<forall>q. q \<noteq> Qready \<longrightarrow> q \<noteq> Qtimer \<longrightarrow> Q' q = Q q"
        "th_state s' t = THREAD_WAIT_POLL"
        using poll_sleep_ok [OF l(2) rr'] by blast
      have "poll_wait cp usec_p s = Some (Sleeps, s')"
        using True None r l(1) s'(1) rr' by (simp add: poll_wait_def Let_def rr_stop_def)
      then show ?thesis using s' True None by (intro exI [of _ Sleeps] exI [of _ s'] exI [of _ Q']) simp
    next
      case (Some usec)
      have ncu: "\<not> chopstx_testcancel ?u" using nc fu by simp
      have "poll_wait cp usec_p s = poll_round cp usec ?u"
        using True Some l(1) by (simp add: poll_wait_def Let_def)
      moreover obtain c s' Q' where "poll_round cp usec ?u = Some (c, s')" "kernel_ok s' Q' e" "dom Q' = dom Q"
        "\<forall>q. q \<noteq> Qready \<longrightarrow> q \<noteq> Qtimer \<longrightarrow> Q' q = Q q" "prio_top ?u e \<longrightarrow> prio_top s' e"
        "if counter ?u cp \<noteq> 0 then c = Returns 0 \<and> on_cpu t s' Q' e
         else if usec = 0 then c = Returns 1 \<and> on_cpu t s' Q' e
         else c = Sleeps \<and> th_state s' t = THREAD_WAIT_POLL"
        using poll_round_ok [OF onu ncu, of cp usec] by blast
      ultimately show ?thesis using fu Some top
        by (intro exI [of _ c] exI [of _ s'] exI [of _ Q']) simp
    qed
  qed
qed

end
