(* ===== verification/System.thy ===== *)
theory System
  imports Poll
begin

text \<open>
  The kernel as a whole: any program that keeps to the rules of \<open>legal\<close>, interrupted at any moment
  by SysTick, by external interrupts and by PendSV. A step is one atomic segment of a call (a
  critical section, with what the thread does around it) or one handler. \<open>exec\<close> runs a step on
  the kernel's memory; \<open>legal\<close> says when the program or the processor may take it; the ghost state
  names the threads, the proxies and the mutexes held (\<open>env\<close>), and the initialised queue heads.
\<close>

section \<open>Steps\<close>

datatype op =
    \<comment> \<open>segments of calls, on the running thread\<close>
    MutexInit mid | MutexLock mid | MutexUnlock mid | ReleaseOne
  | CondInit cid | CondWait cid "mid option" | CondResume u32 "mid option"
  | CondSignal cid | CondBroadcast cid
  | Create u32 u32 u32 u32 u32 u32 | Exit u32 | UsecWait u32 | Join tid | Cancel tid
  | SetCancelState u32 | SetPriority u8 | ConfIdle int
  | ClaimIrq addr u8 | IntrDone addr
  | PollStart "addr list" addr | PollHook addr addr | PollCheck addr addr | PollEnqueue addr addr
  | PollWait addr "u32 option"
  | PollRound addr u32 | PollUnhook addr addr
    \<comment> \<open>what the processor does\<close>
  | Tick | SysTick | Interrupt u8 | PendSV

definition exit_release :: "'z kst_scheme \<Rightarrow> 'z kst_scheme option" where
  "exit_release s = do {
     m \<leftarrow> mutex_list s (cur s);
     (_, s) \<leftarrow> chx_mutex_unlock m (chx_cpu_sched_lock s);
     Some (chx_cpu_sched_unlock s) }"

fun exec :: "(addr \<Rightarrow> addr \<Rightarrow> kst \<Rightarrow> bool) \<Rightarrow> op \<Rightarrow> kst \<Rightarrow> kst option" where
  "exec chk (MutexInit m) s = Some (chopstx_mutex_init m s)"
| "exec chk (MutexLock m) s = map_option snd (chopstx_mutex_lock m s)"
| "exec chk (MutexUnlock m) s = chopstx_mutex_unlock m s"
| "exec chk ReleaseOne s = exit_release s"
| "exec chk (CondInit c) s = Some (chopstx_cond_init c s)"
| "exec chk (CondWait c mo) s = map_option snd (chopstx_cond_wait c mo s)"
| "exec chk (CondResume r mo) s = map_option snd (chopstx_cond_wait_resume r mo s)"
| "exec chk (CondSignal c) s = chopstx_cond_signal c s"
| "exec chk (CondBroadcast c) s = chopstx_cond_broadcast c s"
| "exec chk (Create fp stk sz entry arg ex) s = map_option snd (chopstx_create fp stk sz entry arg ex s)"
| "exec chk (Exit v) s = chx_exit v s"
| "exec chk (UsecWait u) s = map_option snd (chopstx_usec_wait_var u s)"
| "exec chk (Join tp) s = map_option snd (chopstx_join tp s)"
| "exec chk (Cancel tp) s = chopstx_cancel tp s"
| "exec chk (SetCancelState c) s = Some (snd (chopstx_setcancelstate c s))"
| "exec chk (SetPriority p) s = map_option snd (chopstx_setpriority p s)"
| "exec chk (ConfIdle i) s = Some (snd (chopstx_conf_idle i s))"
| "exec chk (ClaimIrq i n) s = Some (chopstx_claim_irq i n s)"
| "exec chk (IntrDone i) s = Some (chopstx_intr_done i s)"
| "exec chk (PollStart pxs cp) s = Some (snd (poll_start pxs cp s))"
| "exec chk (PollHook px pd) s = map_option snd (poll_hook chk px pd s)"
| "exec chk (PollCheck px pd) s =
     map_option snd (cond_check chk px pd (s\<lparr>px_ready_p := (px_ready_p s)(px := Some pd)\<rparr>))"
| "exec chk (PollEnqueue px pd) s = cond_enqueue px pd s"
| "exec chk (PollWait cp u) s = map_option snd (poll_wait cp u s)"
| "exec chk (PollRound cp u) s = map_option snd (poll_round cp u s)"
| "exec chk (PollUnhook px pd) s = Some (poll_unhook px pd s)"
| "exec chk Tick s = Some (s\<lparr>systick := systick s - 1\<rparr>)"
| "exec chk SysTick s = chx_timer_expired s"
| "exec chk (Interrupt n) s = chx_handle_intr n s"
| "exec chk PendSV s = preempt s"

section \<open>When a step may be taken\<close>

text \<open>
  Thread code runs when no exception is pending (PendSV is taken before the thread's next
  instruction); the handlers run when interrupts are not masked.

  Most of what \<open>legal\<close> asks of the program is that it names objects that exist: initialised mutexes
  and conditions, threads it has created, a mutex it holds when it unlocks or waits, proxies and
  descriptors that no other call of \<open>chopstx_poll\<close> uses, no join of a detached thread. A thread with a
  pending cancellation goes on with \<open>chopstx_exit\<close>, that is, with \<open>ReleaseOne\<close> for each mutex and \<open>Exit\<close>.
  Four restrictions are written in no document. Without the first three the code goes wrong; the last one is
  the model's, which knows a thread by its address:
  \<^item> mutexes are unlocked in the reverse order in which they were locked: \<open>chx_mutex_unlock\<close> makes the next
    mutex of the list the first, and forgets those locked later;
  \<^item> a round-robin thread does not poll without a timeout: it is woken as if it were in the timer
    queue, where the search for it never ends;
  \<^item> a thread is not cancelled out of \<open>chopstx_poll\<close> while it hooks its descriptors: it would leave
    proxies on a dead stack in the queues, so \<open>Exit\<close> asks that it owns none;
  \<^item> a mutex or a condition is initialised once, and no thread is created on the stack of an earlier one.
\<close>

definition runs :: "kst \<Rightarrow> bool" where
  "runs s \<longleftrightarrow> (\<exists>t. running s = Some t \<and> th_state s t = THREAD_RUNNING) \<and> \<not> pendsv s"

text \<open>A descriptor no other proxy uses, and a proxy that is in no queue.\<close>

definition px_fresh :: "kst \<Rightarrow> env \<Rightarrow> addr \<Rightarrow> bool" where
  "px_fresh s e d \<longleftrightarrow> (\<forall>b \<in> proxies e. px_ready_p s b \<noteq> Some d)"

definition px_owned :: "kst \<Rightarrow> env \<Rightarrow> addr \<Rightarrow> bool" where
  "px_owned s e a \<longleftrightarrow> a \<in> proxies e \<and> px_master s a = cur s"

text \<open>
  The hook of an interrupt or a thread is one critical section. That of a condition locks the mutex
  of the descriptor, if there is one (\<open>MutexLock\<close>, which may sleep), tests the condition (\<open>PollCheck\<close>),
  registers the proxy if it does not hold (\<open>PollEnqueue\<close>), and unlocks the mutex (\<open>MutexUnlock\<close>).
\<close>

fun hook_legal :: "poll_type \<Rightarrow> addr \<Rightarrow> kst \<Rightarrow> bool" where
  "hook_legal CHOPSTX_POLL_COND d s \<longleftrightarrow> False"
| "hook_legal CHOPSTX_POLL_INTR d s \<longleftrightarrow> True"
| "hook_legal CHOPSTX_POLL_JOIN d s \<longleftrightarrow> \<not> flag_detached s (pd_thd s d)"

definition cond_hook_legal :: "addr \<Rightarrow> kst \<Rightarrow> env \<Rightarrow> bool" where
  "cond_hook_legal d s e \<longleftrightarrow> pd_type s d = CHOPSTX_POLL_COND \<and>
     (case pd_mutex s d of None \<Rightarrow> True | Some m \<Rightarrow> m \<in> set (held e (cur s)))"

fun legal :: "op \<Rightarrow> kst \<Rightarrow> env \<Rightarrow> ptr set \<Rightarrow> bool" where
  "legal (MutexInit m) s e D \<longleftrightarrow> runs s \<and> Mtxq m \<notin> D"
| "legal (MutexLock m) s e D \<longleftrightarrow> runs s \<and> Mtxq m \<in> D"
| "legal (MutexUnlock m) s e D \<longleftrightarrow> runs s \<and> (\<exists>h. held e (cur s) = m # h)"
| "legal ReleaseOne s e D \<longleftrightarrow> runs s \<and> held e (cur s) \<noteq> []"
| "legal (CondInit c) s e D \<longleftrightarrow> runs s \<and> Condq c \<notin> D"
| "legal (CondWait c mo) s e D \<longleftrightarrow> runs s \<and> \<not> chopstx_testcancel s \<and> Condq c \<in> D \<and>
     (case mo of None \<Rightarrow> True | Some m \<Rightarrow> \<exists>h. held e (cur s) = m # h)"
| "legal (CondResume r mo) s e D \<longleftrightarrow> runs s \<and> (case mo of None \<Rightarrow> True | Some m \<Rightarrow> Mtxq m \<in> D)"
| "legal (CondSignal c) s e D \<longleftrightarrow> runs s \<and> Condq c \<in> D"
| "legal (CondBroadcast c) s e D \<longleftrightarrow> runs s \<and> Condq c \<in> D"
| "legal (Create fp stk sz entry arg ex) s e D \<longleftrightarrow> runs s \<and>
     (\<exists>tp c. chopstx_create_arch stk sz entry arg ex = Some (tp, c) \<and> tp \<notin> threads e \<and> tp \<noteq> 0)"
| "legal (Exit v) s e D \<longleftrightarrow> runs s \<and> held e (cur s) = [] \<and> (\<forall>a. \<not> px_owned s e a)"
| "legal (UsecWait u) s e D \<longleftrightarrow> runs s \<and> \<not> chopstx_testcancel s"
| "legal (Join tp) s e D \<longleftrightarrow> runs s \<and> \<not> chopstx_testcancel s \<and> tp \<in> threads e \<and> \<not> flag_detached s tp"
| "legal (Cancel tp) s e D \<longleftrightarrow> runs s \<and> tp \<in> threads e"
| "legal (SetCancelState c) s e D \<longleftrightarrow> runs s"
| "legal (SetPriority p) s e D \<longleftrightarrow> runs s"
| "legal (ConfIdle i) s e D \<longleftrightarrow> runs s"
| "legal (ClaimIrq i n) s e D \<longleftrightarrow> runs s \<and> px_fresh s e i"
| "legal (IntrDone i) s e D \<longleftrightarrow> runs s"
| "legal (PollStart pxs cp) s e D \<longleftrightarrow> runs s \<and> \<not> chopstx_testcancel s \<and> distinct pxs \<and> set pxs \<inter> proxies e = {}"
| "legal (PollHook px pd) s e D \<longleftrightarrow> runs s \<and> \<not> chopstx_testcancel s \<and> px_owned s e px \<and>
     px_ready_p s px = None \<and> px_fresh s e pd \<and> hook_legal (pd_type s pd) pd s"
| "legal (PollCheck px pd) s e D \<longleftrightarrow> runs s \<and> px_owned s e px \<and> px_ready_p s px = None \<and> px_fresh s e pd \<and>
     cond_hook_legal pd s e"
| "legal (PollEnqueue px pd) s e D \<longleftrightarrow> runs s \<and> px_owned s e px \<and> px_ready_p s px = Some pd \<and>
     cond_hook_legal pd s e \<and> Condq (pd_cond s pd) \<in> D \<and> pd_ready s pd = 0 \<and> selflinked s (Px px)"
| "legal (PollWait cp u) s e D \<longleftrightarrow> runs s \<and> \<not> chopstx_testcancel s \<and> (u = None \<longrightarrow> \<not> flag_sched_rr s (cur s))"
| "legal (PollRound cp u) s e D \<longleftrightarrow> runs s \<and> \<not> chopstx_testcancel s"
| "legal (PollUnhook px pd) s e D \<longleftrightarrow> runs s \<and> px_owned s e px \<and> px_ready_p s px = Some pd"
| "legal Tick s e D \<longleftrightarrow> systick s \<noteq> 0"
| "legal SysTick s e D \<longleftrightarrow> \<not> masked s \<and> systick s = 0"
| "legal (Interrupt n) s e D \<longleftrightarrow> \<not> masked s \<and> nvic_enabled s n"
| "legal PendSV s e D \<longleftrightarrow> \<not> masked s \<and> pendsv s"

section \<open>The ghost state\<close>

definition acquire :: "mid \<Rightarrow> kst \<Rightarrow> env \<Rightarrow> env" where
  "acquire m s e = (if mtx_owner s m = None then e\<lparr>held := (held e)(cur s := m # held e (cur s))\<rparr> else e)"

definition release :: "kst \<Rightarrow> env \<Rightarrow> env" where
  "release s e = e\<lparr>held := (held e)(cur s := tl (held e (cur s)))\<rparr>"

fun ghost :: "op \<Rightarrow> kst \<Rightarrow> env \<Rightarrow> env" where
  "ghost (MutexLock m) s e = acquire m s e"
| "ghost (MutexUnlock m) s e = release s e"
| "ghost ReleaseOne s e = release s e"
| "ghost (CondWait c (Some m)) s e = release s e"
| "ghost (CondResume r (Some m)) s e = acquire m s e"
| "ghost (Create fp stk sz entry arg ex) s e =
     (case chopstx_create_arch stk sz entry arg ex of None \<Rightarrow> e | Some (tp, _) \<Rightarrow> with_thread tp e)"
| "ghost (PollStart pxs cp) s e = e\<lparr>proxies := set pxs \<union> proxies e\<rparr>"
| "ghost (PollUnhook px pd) s e = e\<lparr>proxies := proxies e - {px}\<rparr>"
| "ghost _ s e = e"

fun new_heads :: "op \<Rightarrow> ptr set \<Rightarrow> ptr set" where
  "new_heads (MutexInit m) D = insert (Mtxq m) D"
| "new_heads (CondInit c) D = insert (Condq c) D"
| "new_heads _ D = D"

type_synonym sys = "kst \<times> env \<times> ptr set"

inductive step :: "(addr \<Rightarrow> addr \<Rightarrow> kst \<Rightarrow> bool) \<Rightarrow> sys \<Rightarrow> op \<Rightarrow> sys \<Rightarrow> bool" for chk where
  step: "legal x s e D \<Longrightarrow> exec chk x s = Some s' \<Longrightarrow>
     step chk (s, e, D) x (s', ghost x s e, new_heads x D)"

inductive_cases stepE [elim!]: "step chk (s, e, D) x c"
inductive_simps step_iff: "step chk (s, e, D) x (s', e', D')"

text \<open>
  The states a program can reach from start-up: \<open>flags\<close> and \<open>prio\<close> are the configuration of
  the main thread at \<open>tp\<close>, \<open>s\<close> is what the memory held before.
\<close>

inductive reachable :: "(addr \<Rightarrow> addr \<Rightarrow> kst \<Rightarrow> bool) \<Rightarrow> sys \<Rightarrow> bool" for chk where
  boot: "tp \<noteq> 0 \<Longrightarrow> \<not> masked s \<Longrightarrow> chx_systick_init flags (chx_init flags prio tp s) = Some s' \<Longrightarrow>
     reachable chk (s', boot_env tp, dom boot_queues)"
| after: "reachable chk c \<Longrightarrow> step chk c x c' \<Longrightarrow> reachable chk c'"

section \<open>Every step a program may take is taken, and keeps the kernel in order\<close>

text \<open>
  Steps that cannot leave a ready thread of higher priority waiting: all but the release of
  mutexes by a thread that exits (it switches only when it is done) and unlocking at a priority
  that a joining thread lent.
\<close>

fun calm :: "op \<Rightarrow> kst \<Rightarrow> env \<Rightarrow> bool" where
  "calm (MutexUnlock m) s e \<longleftrightarrow> prio_explained s e (cur s)"
| "calm ReleaseOne s e \<longleftrightarrow> False"
| "calm _ s e \<longleftrightarrow> True"

definition advances ::
  "(addr \<Rightarrow> addr \<Rightarrow> kst \<Rightarrow> bool) \<Rightarrow> op \<Rightarrow> kst \<Rightarrow> (ptr \<rightharpoonup> ptr list) \<Rightarrow> env \<Rightarrow> bool" where
  "advances chk x s Q e \<longleftrightarrow> (\<exists>s' Q'. exec chk x s = Some s' \<and> kernel_ok s' Q' (ghost x s e) \<and>
     dom Q' = new_heads x (dom Q) \<and> (calm x s e \<longrightarrow> prio_pend s e \<longrightarrow> prio_pend s' (ghost x s e)))"

lemma advancesI:
  assumes "exec chk x s = Some s'" "kernel_ok s' Q' (ghost x s e)" "dom Q' = new_heads x (dom Q)"
    "calm x s e \<Longrightarrow> prio_pend s e \<Longrightarrow> prio_pend s' (ghost x s e)"
  shows "advances chk x s Q e"
  using assms unfolding advances_def by blast

lemma runs_on_cpu: "runs s \<Longrightarrow> kernel_ok s Q e \<Longrightarrow> on_cpu (cur s) s Q e \<and> \<not> pendsv s"
  by (auto simp: runs_def on_cpu_def)

lemma prio_pendI: "(prio_top s e \<longrightarrow> prio_top s' e') \<Longrightarrow> \<not> pendsv s \<Longrightarrow> prio_pend s e \<Longrightarrow> prio_pend s' e'"
  by (simp add: prio_pend_def)

lemma prio_pend_top: "prio_top s e \<Longrightarrow> prio_pend s e"
  by (simp add: prio_pend_def)

text \<open>A step that changes neither the queues nor who may run.\<close>

lemma prio_pend_same:
  "prio_pend s e \<Longrightarrow> th_state s' = th_state s \<Longrightarrow> pq_prio s' = pq_prio s \<Longrightarrow> running s' = running s \<Longrightarrow>
   pendsv s' = pendsv s \<Longrightarrow> threads e' = threads e \<Longrightarrow> prio_pend s' e'"
  by (simp add: prio_pend_def prio_top_def)

lemma on_cpu_kernel_ok: "on_cpu t s Q e \<Longrightarrow> kernel_ok s Q e"
  by (simp add: on_cpu_def)

lemma mutex_lock_advances:
  assumes on: "on_cpu t s Q e" and m: "Mtxq m \<in> dom Q"
  shows "\<exists>b s' Q'. chopstx_mutex_lock m s = Some (b, s') \<and> kernel_ok s' Q' (acquire m s e) \<and>
    dom Q' = dom Q \<and> (prio_top s e \<longrightarrow> prio_top s' (acquire m s e))"
proof (cases "mtx_owner s m")
  case None
  obtain s1 where s1: "chopstx_mutex_lock m s = Some (True, s1)"
    "on_cpu t s1 Q (e\<lparr>held := (held e)(t := m # held e t)\<rparr>)"
    using mutex_lock_free [OF on None m] by blast
  have l: "chx_cpu_sched_lock s = s\<lparr>masked := True\<rparr>" by (rule on_cpu_lock [OF on])
  have r: "running s = Some t" using on by (simp add: on_cpu_def)
  have f: "th_state s1 = th_state s" "pq_prio s1 = pq_prio s" "running s1 = running s"
    using s1(1) None r l by (auto simp: chopstx_mutex_lock_def chx_cpu_sched_unlock_def Let_def)
  have "acquire m s e = e\<lparr>held := (held e)(t := m # held e t)\<rparr>" using None r by (simp add: acquire_def)
  then show ?thesis using s1 f
    by (intro exI [of _ True] exI [of _ s1] exI [of _ Q]) (simp add: on_cpu_def prio_top_def)
next
  case (Some w)
  then have "acquire m s e = e" by (simp add: acquire_def)
  then show ?thesis using mutex_lock_busy [OF on Some m] by auto
qed

lemma MutexInit_advances:
  assumes on: "on_cpu t s Q e" and m: "Mtxq m \<notin> dom Q"
  shows "advances chk (MutexInit m) s Q e"
proof (rule advancesI [of _ _ _ "chopstx_mutex_init m s" "Q(Mtxq m \<mapsto> [])"])
  have "Q (Mtxq m) = None" using m by auto
  from on_cpu_mutex_init(1) [OF on this] show "kernel_ok (chopstx_mutex_init m s) (Q(Mtxq m \<mapsto> [])) (ghost (MutexInit m) s e)"
    by (simp add: on_cpu_def)
qed (simp_all add: chopstx_mutex_init_def prio_pend_same)

lemma MutexLock_advances:
  assumes on: "on_cpu t s Q e" and pe: "\<not> pendsv s" and m: "Mtxq m \<in> dom Q"
  shows "advances chk (MutexLock m) s Q e"
proof -
  obtain b s' Q' where s': "chopstx_mutex_lock m s = Some (b, s')" "kernel_ok s' Q' (acquire m s e)"
      "dom Q' = dom Q" "prio_top s e \<longrightarrow> prio_top s' (acquire m s e)"
    using mutex_lock_advances [OF on m] by blast
  show ?thesis by (rule advancesI [of _ _ _ s' Q']) (use s' prio_pendI [OF s'(4) pe] in simp_all)
qed

lemma MutexUnlock_advances:
  assumes on: "on_cpu t s Q e" and pe: "\<not> pendsv s" and h: "held e t = m # ms"
  shows "advances chk (MutexUnlock m) s Q e"
proof -
  have g: "ghost (MutexUnlock m) s e = e\<lparr>held := (held e)(t := ms)\<rparr>" and r: "cur s = t"
    using on h by (simp_all add: on_cpu_def release_def)
  obtain s' Q' where s': "chopstx_mutex_unlock m s = Some s'" "kernel_ok s' Q' (e\<lparr>held := (held e)(t := ms)\<rparr>)"
      "dom Q' = dom Q"
    using chopstx_mutex_unlock_ok [OF on h] by blast
  have "prio_top s' (e\<lparr>held := (held e)(t := ms)\<rparr>)" if "prio_explained s e t" "prio_top s e"
    using mutex_unlock_prio_top [OF on h that] s' by auto
  with s' show ?thesis unfolding advances_def g
    by (intro exI [of _ s'] exI [of _ Q']) (use pe r in \<open>simp add: prio_pend_def\<close>)
qed

lemma ReleaseOne_advances:
  assumes on: "on_cpu t s Q e" and h: "held e t \<noteq> []"
  shows "advances chk ReleaseOne s Q e"
proof -
  obtain m ms where h: "held e t = m # ms" using h by (cases "held e t") auto
  let ?i = "chx_cpu_sched_lock s" and ?e = "e\<lparr>held := (held e)(t := ms)\<rparr>"
  have l: "?i = s\<lparr>masked := True\<rparr>" "locked t ?i Q e" by (rule on_cpu_lock [OF on])+
  have k: "kinv {} (Some t) ?i Q e" using locked_kinv [OF l(2)] .
  have r: "running ?i = Some t" and t: "t \<in> threads e" and st: "th_state ?i t = THREAD_RUNNING"
    and ma: "masked ?i"
    using l(2) by (auto simp: locked_def)
  have ml: "mutex_list s (cur s) = Some m" using kinv_mchain [OF k t] h r l(1) by simp
  obtain pr s1 Q1 where e1: "chx_mutex_unlock m ?i = Some (pr, s1)"
    and k1: "kinv {} (Some t) s1 Q1 ?e" and d1: "dom Q1 = dom Q" and r1: "running s1 = Some t"
    and m1: "masked s1 = masked ?i"
    and c1: "case the (Q (Mtxq m)) of
         [] \<Rightarrow> pr = 0 \<and> th_state s1 = th_state ?i \<and> pq_prio s1 = pq_prio ?i
       | x # xs \<Rightarrow> \<exists>u. x = Thr u \<and> u \<noteq> t \<and> u \<in> threads e \<and> pr = pq_prio ?i (Thr u) \<and>
           th_state s1 = (th_state ?i)(u := THREAD_READY) \<and>
           pq_prio s1 = (pq_prio ?i)(Thr t := ucast (unlock_prio ?i Q t ms))"
    using chx_mutex_unlock_ok [OF k r t st h] by blast
  have st1: "th_state s1 t = THREAD_RUNNING" using c1 st by (auto split: list.splits)
  have l1: "locked t s1 Q1 ?e" using k1 r1 t st1 m1 ma by (simp add: locked_def)
  have "kernel_ok (chx_cpu_sched_unlock s1) Q1 ?e" using locked_unlock [OF l1] by (rule on_cpu_kernel_ok)
  then show ?thesis
    by (intro advancesI [of _ _ _ "chx_cpu_sched_unlock s1" Q1])
      (use e1 ml d1 h r l(1) in \<open>simp_all add: exit_release_def release_def\<close>)
qed

lemma CondInit_advances:
  assumes on: "on_cpu t s Q e" and c: "Condq c \<notin> dom Q"
  shows "advances chk (CondInit c) s Q e"
proof (rule advancesI [of _ _ _ "chopstx_cond_init c s" "Q(Condq c \<mapsto> [])"])
  have "Q (Condq c) = None" using c by auto
  from on_cpu_new_queue [OF on this]
  have "on_cpu t (init_head (Condq c) s) (Q(Condq c \<mapsto> [])) e" by simp
  moreover have "init_head (Condq c) s = chopstx_cond_init c s"
    by (simp add: init_head_def chopstx_cond_init_def)
  ultimately show "kernel_ok (chopstx_cond_init c s) (Q(Condq c \<mapsto> [])) (ghost (CondInit c) s e)"
    by (simp add: on_cpu_def)
qed (simp_all add: chopstx_cond_init_def prio_pend_same)

lemma CondWait_advances:
  assumes on: "on_cpu t s Q e" and nc: "\<not> chopstx_testcancel s" and c: "Condq c \<in> dom Q"
    and h: "case mo of None \<Rightarrow> True | Some m \<Rightarrow> \<exists>h. held e t = m # h"
  shows "advances chk (CondWait c mo) s Q e"
proof -
  obtain h where h': "case mo of None \<Rightarrow> h = held e t | Some m \<Rightarrow> held e t = m # h"
    using h by (cases mo) auto
  have r: "cur s = t" using on by (simp add: on_cpu_def)
  have g: "ghost (CondWait c mo) s e = e\<lparr>held := (held e)(t := h)\<rparr>"
    using h' r by (cases mo) (simp_all add: release_def fun_upd_idem)
  obtain s' Q' where s': "chopstx_cond_wait c mo s = Some (Sleeps, s')"
    "kernel_ok s' Q' (e\<lparr>held := (held e)(t := h)\<rparr>)" "prio_top s' (e\<lparr>held := (held e)(t := h)\<rparr>)"
    "dom Q' = dom Q"
    using chopstx_cond_wait_ok [OF on c nc h'] by blast
  show ?thesis by (rule advancesI [of _ _ _ s' Q']) (use s' in \<open>simp_all only: g\<close>, simp_all add: prio_pend_def)
qed

lemma CondResume_advances:
  assumes on: "on_cpu t s Q e" and pe: "\<not> pendsv s" and m: "case mo of None \<Rightarrow> True | Some m \<Rightarrow> Mtxq m \<in> dom Q"
  shows "advances chk (CondResume r mo) s Q e"
proof (cases mo)
  case None
  then show ?thesis
    by (intro advancesI [of _ _ _ s Q]) (use on in \<open>simp_all add: chopstx_cond_wait_resume_def on_cpu_def\<close>)
next
  case (Some m)
  have "Mtxq m \<in> dom Q" using assms(3) Some by simp
  then obtain b s' Q' where s': "chopstx_mutex_lock m s = Some (b, s')" "kernel_ok s' Q' (acquire m s e)"
      "dom Q' = dom Q" "prio_top s e \<longrightarrow> prio_top s' (acquire m s e)"
    using mutex_lock_advances [OF on] by blast
  show ?thesis
    by (rule advancesI [of _ _ _ s' Q'])
      (use s' Some prio_pendI [OF s'(4) pe] in \<open>simp_all add: chopstx_cond_wait_resume_def\<close>)
qed

lemma CondSignal_advances:
  assumes on: "on_cpu t s Q e" and pe: "\<not> pendsv s" and c: "Condq c \<in> dom Q"
  shows "advances chk (CondSignal c) s Q e"
proof -
  obtain xs where q: "Q (Condq c) = Some xs" using c by auto
  obtain s' Q' where s': "chopstx_cond_signal c s = Some s'" "kernel_ok s' Q' e" "dom Q' = dom Q"
      "prio_top s e \<longrightarrow> prio_top s' e"
    using chopstx_cond_signal_ok [OF on q] by blast
  show ?thesis by (rule advancesI [of _ _ _ s' Q']) (use s' prio_pendI [OF s'(4) pe] in simp_all)
qed

lemma CondBroadcast_advances:
  assumes on: "on_cpu t s Q e" and pe: "\<not> pendsv s" and c: "Condq c \<in> dom Q"
  shows "advances chk (CondBroadcast c) s Q e"
proof -
  obtain xs where q: "Q (Condq c) = Some xs" using c by auto
  obtain s' Q' where s': "chopstx_cond_broadcast c s = Some s'" "kernel_ok s' Q' e" "dom Q' = dom Q"
      "prio_top s e \<longrightarrow> prio_top s' e"
    using chopstx_cond_broadcast_ok [OF on q] by blast
  show ?thesis by (rule advancesI [of _ _ _ s' Q']) (use s' prio_pendI [OF s'(4) pe] in simp_all)
qed

lemma Create_advances:
  assumes on: "on_cpu t s Q e" and pe: "\<not> pendsv s"
    and a: "chopstx_create_arch stk sz entry arg ex = Some (tp, ctx)" and tp: "tp \<notin> threads e" "tp \<noteq> 0"
  shows "advances chk (Create fp stk sz entry arg ex) s Q e"
proof -
  obtain s' Q' where s': "chopstx_create fp stk sz entry arg ex s = Some (Returns tp, s')"
      "kernel_ok s' Q' (with_thread tp e)" "dom Q' = dom Q" "prio_top s e \<longrightarrow> prio_top s' (with_thread tp e)"
    using chopstx_create_ok [OF on a tp] by blast
  show ?thesis by (rule advancesI [of _ _ _ s' Q']) (use a s' prio_pendI [OF s'(4) pe] in simp_all)
qed

text \<open>The shape most calls share: a result, and the running thread as good as before.\<close>

lemma advances_top:
  assumes "\<exists>c s' Q'. f s = Some (c, s') \<and> kernel_ok s' Q' e \<and> dom Q' = dom Q \<and> (prio_top s e \<longrightarrow> prio_top s' e)"
    and "exec chk x s = map_option snd (f s)" and "ghost x s e = e" and "new_heads x (dom Q) = dom Q"
    and pe: "\<not> pendsv s"
  shows "advances chk x s Q e"
proof -
  obtain c s' Q' where s': "f s = Some (c, s')" "kernel_ok s' Q' e" "dom Q' = dom Q"
      "prio_top s e \<longrightarrow> prio_top s' e"
    using assms(1) by blast
  show ?thesis by (rule advancesI [of _ _ _ s' Q']) (use s' assms(2-4) prio_pendI [OF s'(4) pe] in simp_all)
qed

lemma Exit_advances:
  assumes on: "on_cpu t s Q e" and h: "held e t = []"
  shows "advances chk (Exit v) s Q e"
proof -
  obtain s' Q' where s': "chx_exit v s = Some s'" "kernel_ok s' Q' e" "prio_top s' e" "dom Q' = dom Q"
    using chx_exit_ok [OF on h] by blast
  show ?thesis by (rule advancesI [of _ _ _ s' Q']) (use s' in \<open>simp_all add: prio_pend_def\<close>)
qed

lemma UsecWait_advances:
  assumes on: "on_cpu t s Q e" and pe: "\<not> pendsv s" and nc: "\<not> chopstx_testcancel s"
  shows "advances chk (UsecWait u) s Q e"
proof (rule advances_top [of "chopstx_usec_wait_var u", OF _ _ _ _ pe])
  show "\<exists>c s' Q'. chopstx_usec_wait_var u s = Some (c, s') \<and> kernel_ok s' Q' e \<and> dom Q' = dom Q \<and>
      (prio_top s e \<longrightarrow> prio_top s' e)"
    using chopstx_usec_wait_ok [OF on nc, of u] by blast
qed simp_all

lemma Join_advances:
  assumes on: "on_cpu t s Q e" and pe: "\<not> pendsv s" and nc: "\<not> chopstx_testcancel s"
    and tp: "tp \<in> threads e" and nd: "\<not> flag_detached s tp"
  shows "advances chk (Join tp) s Q e"
proof (cases "th_state s tp = THREAD_EXITED")
  case True
  obtain s' where s': "chopstx_join tp s = Some ((Returns 0, Some (pq_v s (Thr tp))), s')" "on_cpu t s' Q e"
      "th_state s' = (th_state s)(tp := THREAD_FINISHED)"
    using chopstx_join_exited [OF on nc tp nd True] by blast
  have l: "chx_cpu_sched_lock s = s\<lparr>masked := True\<rparr>" by (rule on_cpu_lock [OF on])
  have f: "pq_prio s' = pq_prio s" "running s' = running s"
    using s'(1) True nc nd l by (auto simp: chopstx_join_def chopstx_join_resume_def chx_cpu_sched_unlock_def Let_def)
  have "prio_top s' e" if "prio_top s e" using that s'(3) f by (simp add: prio_top_def)
  then show ?thesis
    by (intro advancesI [of _ _ _ s' Q]) (use s' pe in \<open>simp_all add: on_cpu_def prio_pend_def\<close>)
next
  case False
  obtain s' Q' where s': "chopstx_join tp s = Some ((Sleeps, None), s')" "kernel_ok s' Q' e" "prio_top s' e"
      "dom Q' = dom Q"
    using chopstx_join_sleeps [OF on nc tp nd False] by blast
  then show ?thesis
    by (intro advancesI [of _ _ _ s' Q']) (use s' pe in \<open>simp_all add: prio_pend_def\<close>)
qed

lemma Cancel_advances:
  assumes on: "on_cpu t s Q e" and pe: "\<not> pendsv s" and tp: "tp \<in> threads e"
  shows "advances chk (Cancel tp) s Q e"
proof -
  obtain s' Q' where s': "chopstx_cancel tp s = Some s'" "kernel_ok s' Q' e" "dom Q' = dom Q"
      "prio_top s e \<longrightarrow> prio_top s' e"
    using chopstx_cancel_ok [OF on tp] by blast
  show ?thesis by (rule advancesI [of _ _ _ s' Q']) (use s' prio_pendI [OF s'(4) pe] in simp_all)
qed

lemma SetPriority_advances:
  assumes on: "on_cpu t s Q e" and pe: "\<not> pendsv s"
  shows "advances chk (SetPriority p) s Q e"
proof (rule advances_top [of "chopstx_setpriority p", OF _ _ _ _ pe])
  show "\<exists>c s' Q'. chopstx_setpriority p s = Some (c, s') \<and> kernel_ok s' Q' e \<and> dom Q' = dom Q \<and>
      (prio_top s e \<longrightarrow> prio_top s' e)"
    using chopstx_setpriority_ok [OF on, of p] by blast
qed simp_all

lemma SetCancelState_advances:
  assumes on: "on_cpu t s Q e"
  shows "advances chk (SetCancelState c) s Q e"
proof -
  let ?s = "snd (chopstx_setcancelstate c s)"
  have "on_cpu t ?s Q e" using on by (simp add: chopstx_setcancelstate_def Let_def)
  then have "kernel_ok ?s Q e" by (rule on_cpu_kernel_ok)
  then show ?thesis
    by (intro advancesI [of _ _ _ ?s Q]) (simp, simp, simp, simp add: chopstx_setcancelstate_def Let_def prio_pend_same)
qed

lemma ConfIdle_advances:
  assumes on: "on_cpu t s Q e"
  shows "advances chk (ConfIdle i) s Q e"
proof -
  let ?s = "snd (chopstx_conf_idle i s)"
  have "on_cpu t ?s Q e" using on by (simp add: chopstx_conf_idle_def)
  then have "kernel_ok ?s Q e" by (rule on_cpu_kernel_ok)
  then show ?thesis
    by (intro advancesI [of _ _ _ ?s Q]) (simp, simp, simp, simp add: chopstx_conf_idle_def prio_pend_same)
qed

text \<open>Interrupt descriptors and polling.\<close>

lemma ClaimIrq_advances:
  assumes on: "on_cpu t s Q e" and fr: "px_fresh s e i"
  shows "advances chk (ClaimIrq i n) s Q e"
proof -
  let ?j = "s\<lparr>pd_type := (pd_type s)(i := CHOPSTX_POLL_INTR), pd_ready := (pd_ready s)(i := 0),
      pd_irq := (pd_irq s)(i := n)\<rparr>"
  have k: "kinv {} (Some t) s Q e" using on_cpu_kinv [OF on] .
  have "px_ready_p s a \<noteq> Some i" if "inq Q (Px a) q" for a q
    using kinv_px [OF k that] fr by (auto simp: px_fresh_def)
  moreover have "kinv {} (Some t) (s\<lparr>pd_type := (pd_type s)(i := CHOPSTX_POLL_INTR)\<rparr>) Q e" using k by simp
  ultimately have "kinv {} (Some t) (s\<lparr>pd_type := (pd_type s)(i := CHOPSTX_POLL_INTR),
      pd_ready := (pd_ready s)(i := 0)\<rparr>) Q e"
    by (intro kinv_set_ready) auto
  then have kj: "kinv {} (Some t) ?j Q e" by simp
  have onj: "on_cpu t ?j Q e" by (rule on_cpu_change [OF on kj on_cpu_thread [OF on]]) simp_all
  let ?i = "chx_cpu_sched_lock ?j"
  have l: "?i = ?j\<lparr>masked := True\<rparr>" "locked t ?i Q e" by (rule on_cpu_lock [OF onj])+
  let ?k = "chx_clr_intr n (chx_disable_intr n ?i)"
  have "locked t ?k Q e" using l(2) by (simp add: locked_def chx_clr_intr_def chx_disable_intr_def)
  from locked_unlock [OF this] have "on_cpu t (chopstx_claim_irq i n s) Q e"
    by (simp add: chopstx_claim_irq_def)
  then show ?thesis
    by (intro advancesI [of _ _ _ "chopstx_claim_irq i n s" Q])
      (simp_all add: on_cpu_def chopstx_claim_irq_def Let_def chx_clr_intr_def chx_disable_intr_def
        chx_cpu_sched_lock_def chx_cpu_sched_unlock_def prio_pend_same)
qed

lemma on_cpu_clear_ready:
  assumes on: "on_cpu t s Q e"
  shows "on_cpu t (s\<lparr>pd_ready := (pd_ready s)(i := 0)\<rparr>) Q e"
proof -
  have k: "kinv {} (Some t) s Q e" using on_cpu_kinv [OF on] .
  have "pd_ready s d = 0" if "inq Q (Px a) q" "px_ready_p s a = Some d" for a q d
    using kinv_px [OF k that(1)] that(2) by (auto simp: px_waits_def)
  then have kj: "kinv {} (Some t) (s\<lparr>pd_ready := (pd_ready s)(i := 0)\<rparr>) Q e"
    by (intro kinv_set_ready [OF k]) auto
  show ?thesis by (rule on_cpu_change [OF on kj on_cpu_thread [OF on]]) simp_all
qed

lemma IntrDone_advances:
  assumes on: "on_cpu t s Q e"
  shows "advances chk (IntrDone i) s Q e"
proof -
  have "on_cpu t (chx_clr_intr n s) Q e" for n
    by (rule on_cpu_change [OF on _ on_cpu_thread [OF on]])
      (use on_cpu_kinv [OF on] in \<open>simp_all add: chx_clr_intr_def\<close>)
  from on_cpu_clear_ready [OF this [of "pd_irq s i"], of i] on
  have "on_cpu t (chopstx_intr_done i s) Q e" by (simp add: chopstx_intr_done_def Let_def)
  then show ?thesis
    by (intro advancesI [of _ _ _ "chopstx_intr_done i s" Q])
      (simp_all add: on_cpu_def chopstx_intr_done_def Let_def chx_clr_intr_def prio_pend_same)
qed

lemma on_cpu_env_threads: "on_cpu t s Q e \<Longrightarrow> kinv {} (Some t) s' Q e' \<Longrightarrow> threads e' = threads e \<Longrightarrow>
   running s' = running s \<Longrightarrow> th_state s' = th_state s \<Longrightarrow> masked s' = masked s \<Longrightarrow>
   pq_prio s' (Thr t) = pq_prio s (Thr t) \<Longrightarrow> on_cpu t s' Q e'"
  by (rule on_cpu_change) (auto dest: on_cpu_thread)

lemma proxies_init:
  "on_cpu t s Q e \<Longrightarrow> distinct pxs \<Longrightarrow> set pxs \<inter> proxies e = {} \<Longrightarrow>
   on_cpu t (fold (\<lambda>px. chx_proxy_init px cp) pxs s) Q (e\<lparr>proxies := set pxs \<union> proxies e\<rparr>) \<and>
   th_state (fold (\<lambda>px. chx_proxy_init px cp) pxs s) = th_state s \<and>
   (\<forall>u. pq_prio (fold (\<lambda>px. chx_proxy_init px cp) pxs s) (Thr u) = pq_prio s (Thr u)) \<and>
   running (fold (\<lambda>px. chx_proxy_init px cp) pxs s) = running s \<and>
   pendsv (fold (\<lambda>px. chx_proxy_init px cp) pxs s) = pendsv s"
proof (induction pxs arbitrary: s e)
  case (Cons a pxs)
  let ?s = "chx_proxy_init a cp s"
  have c: "cur s \<in> threads e" using on_cpu_thread [OF Cons.prems(1)] Cons.prems(1) by (simp add: on_cpu_def)
  have "kinv {} (Some t) ?s Q (with_proxy a e)"
    by (rule kinv_proxy_init [OF on_cpu_kinv [OF Cons.prems(1)] _ c]) (use Cons.prems(3) in simp)
  then have "on_cpu t ?s Q (with_proxy a e)"
    by (rule on_cpu_env_threads [OF Cons.prems(1)]) (simp_all add: chx_proxy_init_def)
  from Cons.IH [OF this] show ?case using Cons.prems(2,3)
    by (auto simp: chx_proxy_init_def Un_left_commute insert_absorb)
qed simp

lemma PollStart_advances:
  assumes on: "on_cpu t s Q e" and nc: "\<not> chopstx_testcancel s" and d: "distinct pxs" "set pxs \<inter> proxies e = {}"
  shows "advances chk (PollStart pxs cp) s Q e"
proof -
  let ?s = "s\<lparr>counter := (counter s)(cp := 0)\<rparr>"
  have on': "on_cpu t ?s Q e" by (rule on_cpu_env_threads [OF on]) (use on_cpu_kinv [OF on] in simp_all)
  note i = proxies_init [OF on' d, of cp]
  have e: "snd (poll_start pxs cp s) = fold (\<lambda>px. chx_proxy_init px cp) pxs ?s"
    using nc by (auto simp: poll_start_def chopstx_testcancel_def cur_def Let_def)
  show ?thesis
    by (rule advancesI [of _ _ _ "snd (poll_start pxs cp s)" Q], unfold e)
      (use i e in \<open>auto simp: on_cpu_def prio_pend_def prio_top_def\<close>)
qed

text \<open>Registering a proxy moves no thread.\<close>

definition unmoved :: "kst \<Rightarrow> kst \<Rightarrow> bool" where
  "unmoved s s' \<longleftrightarrow> th_state s' = th_state s \<and> running s' = running s \<and> pq_prio s' = pq_prio s \<and>
     pd_mutex s' = pd_mutex s \<and> pendsv s' = pendsv s"

lemma unmoved_trans: "unmoved s s1 \<Longrightarrow> unmoved s1 s2 \<Longrightarrow> unmoved s s2"
  by (simp add: unmoved_def)

lemma unmoved_prio_top: "unmoved s s' \<Longrightarrow> prio_top s e \<Longrightarrow> prio_top s' e"
  by (simp add: unmoved_def prio_top_def)

lemma unmoved_enqueue: "ll_prio_enqueue x q s = Some s' \<Longrightarrow> unmoved s s'"
  by (auto simp: ll_prio_enqueue_def ll_insert_def unmoved_def Let_def split: bind_splits)

lemma unmoved_mark: "px_mark a s = Some s' \<Longrightarrow> unmoved s s'"
  by (auto simp: px_mark_def unmoved_def split: bind_splits)

lemma unmoved_step [simp]:
  "unmoved s (px_count a s') = unmoved s s'"
  "unmoved s (chx_cpu_sched_lock s') = unmoved s s'"
  "unmoved s (chx_cpu_sched_unlock s') = unmoved s s'"
  "unmoved s (chx_enable_intr n s') = unmoved s s'"
  "unmoved s (s'\<lparr>pd_ready := r\<rparr>) = unmoved s s'"
  "unmoved s (s'\<lparr>pq_v := v\<rparr>) = unmoved s s'"
  "unmoved s (s'\<lparr>px_ready_p := rp\<rparr>) = unmoved s s'"
  "unmoved s (s'\<lparr>flag_join_req := jr\<rparr>) = unmoved s s'"
  "unmoved s s"
  by (simp_all add: unmoved_def px_count_def chx_cpu_sched_lock_def chx_cpu_sched_unlock_def chx_enable_intr_def)

lemma unmoved_hooks:
  "cond_check chk a d s = Some (b, s') \<Longrightarrow> unmoved s s'"
  "cond_enqueue a d s = Some s' \<Longrightarrow> unmoved s s'"
  "chx_intr_hook a d s = Some (c, s') \<Longrightarrow> unmoved s s'"
  "chx_join_hook a d s = Some (c, s') \<Longrightarrow> unmoved s s'"
  by (auto simp: cond_check_def cond_enqueue_def chx_intr_hook_def chx_join_hook_def Let_def split: bind_splits if_splits
      dest!: unmoved_enqueue unmoved_mark intro: unmoved_trans [rotated])

lemma owned_loose:
  assumes k: "kinv X r s Q e" and p: "px_ready_p s a = None"
  shows "loose Q (Px a)"
  using kinv_px [OF k, of a] p by (auto simp: loose_inq px_waits_def)

lemma PollHook_advances:
  assumes on: "on_cpu t s Q e" and pe: "\<not> pendsv s" and nc: "\<not> chopstx_testcancel s"
    and a: "a \<in> proxies e" "px_ready_p s a = None" and fr: "px_fresh s e d"
    and lg: "hook_legal (pd_type s d) d s"
  shows "advances chk (PollHook a d) s Q e"
proof -
  let ?s = "s\<lparr>px_ready_p := (px_ready_p s)(a := Some d)\<rparr>"
  have lo: "loose Q (Px a)" by (rule owned_loose [OF on_cpu_kinv [OF on] a(2)])
  have "kinv {} (Some t) ?s Q e"
    by (rule kinv_set_ready_p [OF on_cpu_kinv [OF on] a(1) lo]) (use fr in \<open>auto simp: px_fresh_def\<close>)
  then have on': "on_cpu t ?s Q e" by (rule on_cpu_env_threads [OF on]) simp_all
  have nc': "\<not> chopstx_testcancel ?s" using nc by (simp add: chopstx_testcancel_def cur_def)
  have p: "px_ready_p ?s a = Some d" by simp
  have keep: "prio_top s e \<Longrightarrow> prio_top s' e" if "unmoved ?s s'" for s'
    using unmoved_prio_top [OF that, of e] by (simp add: prio_top_def)
  show ?thesis
  proof (cases "pd_type s d")
    case CHOPSTX_POLL_COND
    then show ?thesis using lg by simp
  next
    case CHOPSTX_POLL_INTR
    obtain s' Q' where s': "chx_intr_hook a d ?s = Some (Returns 0, s')" "on_cpu t s' Q' e" "dom Q' = dom Q"
      using chx_intr_hook_ok [OF on' nc' a(1) lo p] by blast
    show ?thesis by (rule advancesI [of _ _ _ s' Q'])
        (use s' CHOPSTX_POLL_INTR pe keep [OF unmoved_hooks(3) [OF s'(1)]] in
          \<open>simp_all add: poll_hook_def prio_pend_def on_cpu_def\<close>)
  next
    case CHOPSTX_POLL_JOIN
    have nd: "\<not> flag_detached ?s (pd_thd ?s d)" using lg CHOPSTX_POLL_JOIN by simp
    obtain s' Q' where s': "chx_join_hook a d ?s = Some (Returns 0, s')" "on_cpu t s' Q' e" "dom Q' = dom Q"
      using chx_join_hook_ok [OF on' nc' a(1) lo p nd] by blast
    show ?thesis by (rule advancesI [of _ _ _ s' Q'])
        (use s' CHOPSTX_POLL_JOIN pe keep [OF unmoved_hooks(4) [OF s'(1)]] in
          \<open>simp_all add: poll_hook_def prio_pend_def on_cpu_def\<close>)
  qed
qed

lemma PollCheck_advances:
  assumes on: "on_cpu t s Q e" and pe: "\<not> pendsv s"
    and a: "a \<in> proxies e" "px_ready_p s a = None" and fr: "px_fresh s e d"
  shows "advances chk (PollCheck a d) s Q e"
proof -
  let ?s = "s\<lparr>px_ready_p := (px_ready_p s)(a := Some d)\<rparr>"
  have lo: "loose Q (Px a)" by (rule owned_loose [OF on_cpu_kinv [OF on] a(2)])
  have "kinv {} (Some t) ?s Q e"
    by (rule kinv_set_ready_p [OF on_cpu_kinv [OF on] a(1) lo]) (use fr in \<open>auto simp: px_fresh_def\<close>)
  then have on': "on_cpu t ?s Q e" by (rule on_cpu_env_threads [OF on]) simp_all
  have p: "px_ready_p ?s a = Some d" by simp
  obtain b s' where s': "cond_check chk a d ?s = Some (b, s')" "on_cpu t s' Q e"
    using cond_check_ok [OF on' a(1) lo p] by blast
  have "prio_top s e \<Longrightarrow> prio_top s' e"
    using unmoved_prio_top [OF unmoved_hooks(1) [OF s'(1)], of e] by (simp add: prio_top_def)
  then show ?thesis using s' pe
    by (intro advancesI [of _ _ _ s' Q]) (simp_all add: prio_pend_def on_cpu_def)
qed

lemma PollEnqueue_advances:
  assumes on: "on_cpu t s Q e" and pe: "\<not> pendsv s" and a: "a \<in> proxies e" "px_ready_p s a = Some d"
    and c: "Condq (pd_cond s d) \<in> dom Q" "pd_ready s d = 0" and sl: "selflinked s (Px a)"
  shows "advances chk (PollEnqueue a d) s Q e"
proof -
  have lo: "loose Q (Px a)" by (rule selflinked_loose [OF kinv_wfq [OF on_cpu_kinv [OF on]] _ sl]) simp
  obtain s' Q' where s': "cond_enqueue a d s = Some s'" "on_cpu t s' Q' e" "dom Q' = dom Q"
    using cond_enqueue_ok [OF on a(1) lo a(2) c] by blast
  then show ?thesis using pe unmoved_prio_top [OF unmoved_hooks(2) [OF s'(1)], of e]
    by (intro advancesI [of _ _ _ s' Q']) (simp_all add: prio_pend_def on_cpu_def)
qed

lemma PollWait_advances:
  assumes on: "on_cpu t s Q e" and pe: "\<not> pendsv s" and nc: "\<not> chopstx_testcancel s"
    and rr: "u = None \<Longrightarrow> \<not> flag_sched_rr s t"
  shows "advances chk (PollWait cp u) s Q e"
proof (rule advances_top [of "poll_wait cp u", OF _ _ _ _ pe])
  show "\<exists>c s' Q'. poll_wait cp u s = Some (c, s') \<and> kernel_ok s' Q' e \<and> dom Q' = dom Q \<and>
      (prio_top s e \<longrightarrow> prio_top s' e)"
    using poll_wait_ok [OF on nc, of u cp] rr by blast
qed simp_all

lemma PollRound_advances:
  assumes on: "on_cpu t s Q e" and pe: "\<not> pendsv s" and nc: "\<not> chopstx_testcancel s"
  shows "advances chk (PollRound cp u) s Q e"
proof (rule advances_top [of "poll_round cp u", OF _ _ _ _ pe])
  show "\<exists>c s' Q'. poll_round cp u s = Some (c, s') \<and> kernel_ok s' Q' e \<and> dom Q' = dom Q \<and>
      (prio_top s e \<longrightarrow> prio_top s' e)"
    using poll_round_ok [OF on nc, of cp u] by blast
qed simp_all

lemma PollUnhook_advances:
  assumes on: "on_cpu t s Q e" and a: "a \<in> proxies e" "px_ready_p s a = Some d"
  shows "advances chk (PollUnhook a d) s Q e"
proof -
  let ?s = "poll_unhook a d s"
  obtain Q' where Q': "on_cpu t ?s Q' e" "dom Q' = dom Q" "loose Q' (Px a)"
    using poll_unhook_ok [OF on a] by blast
  have "kinv {} (Some t) ?s Q' (e\<lparr>proxies := proxies e - {a}\<rparr>)"
    by (rule kinv_drop_proxies [OF on_cpu_kinv [OF Q'(1)]]) (use Q'(3) in simp)
  then have "on_cpu t ?s Q' (e\<lparr>proxies := proxies e - {a}\<rparr>)"
    by (rule on_cpu_env_threads [OF Q'(1)]) simp_all
  moreover have "th_state ?s = th_state s" "pq_prio ?s = pq_prio s" "running ?s = running s" "pendsv ?s = pendsv s"
    by (simp_all add: poll_unhook_def Let_def ll_dequeue_def chx_disable_intr_def
        chx_cpu_sched_lock_def chx_cpu_sched_unlock_def split: poll_type.split)
  ultimately show ?thesis using Q'
    by (intro advancesI [of _ _ _ ?s Q']) (simp_all add: on_cpu_def prio_pend_same)
qed

text \<open>The processor: time, interrupts, PendSV.\<close>

lemma deadlines_earlier:
  "(y, d') \<in> set (deadlines f c' xs) \<Longrightarrow> c' \<le> c \<Longrightarrow> \<exists>d. (y, d) \<in> set (deadlines f c xs) \<and> d' \<le> d"
proof (induction xs arbitrary: c c')
  case (Cons x xs)
  then consider "y = x" "d' = c'" | "(y, d') \<in> set (deadlines f (c' + f x) xs)" by auto
  then show ?case
  proof cases
    case 2
    then show ?thesis using Cons.IH [OF 2, of "c + f x"] Cons.prems by auto
  qed (use Cons.prems in auto)
qed simp

lemma timer_ok_tick:
  assumes "timer_ok s xs" and "systick s \<noteq> 0" and "distinct (Qtimer # xs)"
  shows "timer_ok (s\<lparr>systick := systick s - 1\<rparr>) xs"
proof -
  have "unat (systick s - 1) \<le> unat (systick s)"
    using assms(2) by (simp add: unat_minus_one)
  moreover have "deadlines (\<lambda>x. unat (tval (s\<lparr>systick := systick s - 1\<rparr>) x)) c xs =
      deadlines (\<lambda>x. unat (tval s x)) c xs" for c
    using assms(3) by (intro deadlines_cong) (auto simp: tval_def)
  ultimately have "\<exists>d. (y, d) \<in> set (timer_abs s xs) \<and> d' \<le> d"
    if "(y, d') \<in> set (timer_abs (s\<lparr>systick := systick s - 1\<rparr>) xs)" for y d'
    using that deadlines_earlier [of y d' "\<lambda>x. unat (tval s x)" "unat (systick s - 1)" xs "unat (systick s)"]
    by (simp add: timer_abs_def tval_def [of _ Qtimer])
  then show ?thesis using assms(1) unfolding timer_ok_def by fastforce
qed

lemma Tick_advances:
  assumes ok: "kernel_ok s Q e" and sy: "systick s \<noteq> 0"
  shows "advances chk Tick s Q e"
proof -
  let ?s = "s\<lparr>systick := systick s - 1\<rparr>"
  have k: "kinv {} (running s) s Q e" using ok by (simp add: kernel_ok_def)
  have o: "order_ok ?s Q" unfolding order_ok_def
  proof (intro conjI allI impI)
    fix xs assume q: "Q Qtimer = Some xs"
    have "distinct (Qtimer # xs)"
      using wfl_distinct [OF kinv_wfq [OF k] q] wfl_node [OF kinv_wfq [OF k] q, of Qtimer] by auto
    moreover have "timer_ok s xs" using kinv_order [OF k] q by (simp add: order_ok_def)
    ultimately show "timer_ok ?s xs" using timer_ok_tick sy by blast
  qed (use kinv_order [OF k] in \<open>simp add: order_ok_def\<close>)
  have "kinv {} (running s) ?s Q e"
    using k o by (simp add: kinv_def queues_ok_def objects_ok_def locks_ok_def thread_at_def selflinked_def)
  then have "kernel_ok ?s Q e" using ok by (auto simp: kernel_ok_def)
  then show ?thesis by (intro advancesI [of _ _ _ ?s Q]) (simp_all add: prio_pend_same)
qed

lemma SysTick_advances:
  assumes ok: "kernel_ok s Q e" and m: "\<not> masked s"
  shows "advances chk SysTick s Q e"
proof -
  obtain s' Q' where "chx_timer_expired s = Some s'" "kernel_ok s' Q' e" "prio_pend s e \<longrightarrow> prio_pend s' e"
      "dom Q' = dom Q"
    using chx_timer_expired_ok [OF ok m] by blast
  then show ?thesis by (intro advancesI [of _ _ _ s' Q']) simp_all
qed

lemma Interrupt_advances:
  assumes ok: "kernel_ok s Q e"
  shows "advances chk (Interrupt n) s Q e"
proof -
  obtain s' Q' where "chx_handle_intr n s = Some s'" "kernel_ok s' Q' e" "prio_pend s e \<longrightarrow> prio_pend s' e"
      "dom Q' = dom Q"
    using chx_handle_intr_ok [OF ok] by blast
  then show ?thesis by (intro advancesI [of _ _ _ s' Q']) simp_all
qed

lemma PendSV_advances:
  assumes ok: "kernel_ok s Q e"
  shows "advances chk PendSV s Q e"
proof -
  obtain s' Q' where "preempt s = Some s'" "kernel_ok s' Q' e" "prio_top s' e" "dom Q' = dom Q"
    using preempt_ok [OF ok] by blast
  then show ?thesis by (intro advancesI [of _ _ _ s' Q']) (simp_all add: prio_pend_top)
qed

section \<open>The invariant of the system\<close>

theorem legal_advances:
  assumes ok: "kernel_ok s Q e" and l: "legal x s e (dom Q)"
  shows "advances chk x s Q e"
proof -
  have on: "on_cpu (cur s) s Q e" and pe: "\<not> pendsv s" if "runs s"
    using runs_on_cpu [OF that ok] by simp_all
  show ?thesis
  proof (cases x)
    case (MutexInit m)
    then show ?thesis using l on MutexInit_advances by auto
  next
    case (MutexLock m)
    then show ?thesis using l on pe MutexLock_advances by auto
  next
    case (MutexUnlock m)
    then show ?thesis using l on pe MutexUnlock_advances by auto
  next
    case ReleaseOne
    then show ?thesis using l on ReleaseOne_advances by auto
  next
    case (CondInit c)
    then show ?thesis using l on CondInit_advances by auto
  next
    case (CondWait c mo)
    then have "runs s" "\<not> chopstx_testcancel s" "Condq c \<in> dom Q"
      "case mo of None \<Rightarrow> True | Some m \<Rightarrow> \<exists>h. held e (cur s) = m # h" using l by simp_all
    then show ?thesis unfolding CondWait by (intro CondWait_advances [OF on])
  next
    case (CondResume r mo)
    then have "runs s" "case mo of None \<Rightarrow> True | Some m \<Rightarrow> Mtxq m \<in> dom Q" using l by simp_all
    then show ?thesis unfolding CondResume by (intro CondResume_advances [OF on pe])
  next
    case (CondSignal c)
    then show ?thesis using l on pe CondSignal_advances by auto
  next
    case (CondBroadcast c)
    then show ?thesis using l on pe CondBroadcast_advances by auto
  next
    case (Create fp stk sz entry arg ex)
    then show ?thesis using l on pe Create_advances by auto
  next
    case (Exit v)
    then show ?thesis using l on Exit_advances by auto
  next
    case (UsecWait u)
    then show ?thesis using l on pe UsecWait_advances by auto
  next
    case (Join tp)
    then show ?thesis using l on pe Join_advances by auto
  next
    case (Cancel tp)
    then show ?thesis using l on pe Cancel_advances by auto
  next
    case (SetCancelState c)
    then show ?thesis using l on SetCancelState_advances by auto
  next
    case (SetPriority p)
    then show ?thesis using l on pe SetPriority_advances by auto
  next
    case (ConfIdle i)
    then show ?thesis using l on ConfIdle_advances by auto
  next
    case (ClaimIrq i n)
    then show ?thesis using l on ClaimIrq_advances by auto
  next
    case (IntrDone i)
    then show ?thesis using l on IntrDone_advances by auto
  next
    case (PollStart pxs cp)
    then show ?thesis using l on PollStart_advances by auto
  next
    case (PollHook px pd)
    then show ?thesis using l on pe PollHook_advances by (auto simp: px_owned_def)
  next
    case (PollCheck px pd)
    then show ?thesis using l on pe PollCheck_advances by (auto simp: px_owned_def)
  next
    case (PollEnqueue px pd)
    then show ?thesis using l on pe PollEnqueue_advances by (auto simp: px_owned_def)
  next
    case (PollWait cp u)
    then show ?thesis using l on pe PollWait_advances by auto
  next
    case (PollRound cp u)
    then show ?thesis using l on pe PollRound_advances by auto
  next
    case (PollUnhook px pd)
    then show ?thesis using l on PollUnhook_advances by (auto simp: px_owned_def)
  next
    case Tick
    then show ?thesis using l ok Tick_advances by auto
  next
    case SysTick
    then show ?thesis using l ok SysTick_advances by auto
  next
    case (Interrupt n)
    then show ?thesis using l ok Interrupt_advances by auto
  next
    case PendSV
    then show ?thesis using l ok PendSV_advances by auto
  qed
qed

definition sys_ok :: "sys \<Rightarrow> bool" where
  "sys_ok c \<longleftrightarrow> (case c of (s, e, D) \<Rightarrow> \<exists>Q. kernel_ok s Q e \<and> dom Q = D)"

lemma sys_ok_reachable: "reachable chk c \<Longrightarrow> sys_ok c"
proof (induction rule: reachable.induct)
  case (boot tp s flags prio s')
  then show ?case using boot_ok [OF boot(1,2), of flags prio] by (auto simp: sys_ok_def on_cpu_def)
next
  case (after c x c')
  obtain s e D where c: "c = (s, e, D)" by (cases c) auto
  then obtain Q where Q: "kernel_ok s Q e" "dom Q = D" using after.IH by (auto simp: sys_ok_def)
  from after.hyps(2) obtain s' where s': "legal x s e D" "exec chk x s = Some s'"
      "c' = (s', ghost x s e, new_heads x D)"
    unfolding c by (cases rule: step.cases) auto
  with legal_advances [OF Q(1), of x chk] Q(2) show ?case by (auto simp: advances_def sys_ok_def)
qed

text \<open>Runs of calm steps keep the scheduler's promise.\<close>

inductive calmly :: "(addr \<Rightarrow> addr \<Rightarrow> kst \<Rightarrow> bool) \<Rightarrow> sys \<Rightarrow> bool" for chk where
  boot: "tp \<noteq> 0 \<Longrightarrow> \<not> masked s \<Longrightarrow> chx_systick_init flags (chx_init flags prio tp s) = Some s' \<Longrightarrow>
     calmly chk (s', boot_env tp, dom boot_queues)"
| after: "calmly chk (s, e, D) \<Longrightarrow> step chk (s, e, D) x c' \<Longrightarrow> calm x s e \<Longrightarrow> calmly chk c'"

lemma calmly_reachable: "calmly chk c \<Longrightarrow> reachable chk c"
proof (induction rule: calmly.induct)
  case boot
  then show ?case by (rule reachable.boot)
next
  case after
  show ?case by (rule reachable.after [OF after.IH after.hyps(2)])
qed

lemma calmly_prio_pend: "calmly chk c \<Longrightarrow> prio_pend (fst c) (fst (snd c))"
proof (induction rule: calmly.induct)
  case (boot tp s flags prio s')
  then show ?case using boot_ok [OF boot(1,2), of flags prio] by (auto simp: prio_pend_def)
next
  case (after s e D x c')
  obtain Q where Q: "kernel_ok s Q e" "dom Q = D"
    using sys_ok_reachable [OF calmly_reachable [OF after.hyps(1)]] by (auto simp: sys_ok_def)
  from after.hyps(2) obtain s' where s': "legal x s e D" "exec chk x s = Some s'"
      "c' = (s', ghost x s e, new_heads x D)"
    by (cases rule: step.cases) auto
  with legal_advances [OF Q(1), of x chk] Q(2) after.IH after.hyps(3) show ?case by (auto simp: advances_def)
qed

end
