(* ===== verification/Scenarios.thy ===== *)
theory Scenarios
  imports System
begin

text \<open>
  Small runs of the system, at which the properties are instantiated: the main thread \<open>1\<close> at
  priority 1 with the mutex \<open>5\<close> and the condition variable \<open>7\<close>; then with a second thread of
  priority 2, which runs in its place.
\<close>

definition no_check :: "addr \<Rightarrow> addr \<Rightarrow> kst \<Rightarrow> bool" where
  "no_check f a s \<longleftrightarrow> False"

definition start :: kst where
  "start = chx_systick_reset (chx_init 0 1 1 blank)"

lemma not_248: "\<not> (248 :: u8) \<le> 1"
  by (simp add: word_le_nat_alt)

lemma start_fields:
  "running start = Some 1" "th_state start 1 = THREAD_RUNNING" "pq_prio start (Thr 1) = 1"
  "flag_got_cancel start 1 = False" "flag_detached start 1 = False" "th_clp start 1 = None" "pendsv start = False" "mtx_owner start m = None"
  using not_248 by (simp_all add: start_def chx_init_def init_head_def blank_def chx_systick_reset_def
      CHOPSTX_PRIO_INHIBIT_PREEMPTION_def Let_def)

lemma start_calmly: "calmly chk (start, boot_env 1, dom boot_queues)"
  by (rule calmly.boot [where s = blank and flags = 0 and prio = 1])
    (simp_all add: start_def blank_def chx_systick_init_def)

lemma calmly_step:
  "calmly chk (s, e, D) \<Longrightarrow> legal x s e D \<Longrightarrow> calm x s e \<Longrightarrow> exec chk x s = Some s' \<Longrightarrow>
   calmly chk (s', ghost x s e, new_heads x D)"
  by (rule calmly.after) (auto intro: step.intros)

lemma lock_fields:
  "running (chx_cpu_sched_lock s) = running s" "th_state (chx_cpu_sched_lock s) = th_state s"
  "pendsv (chx_cpu_sched_lock s) = pendsv s" "pq_prio (chx_cpu_sched_lock s) = pq_prio s"
  "flag_got_cancel (chx_cpu_sched_lock s) = flag_got_cancel s" "flag_detached (chx_cpu_sched_lock s) = flag_detached s"
  "th_clp (chx_cpu_sched_lock s) = th_clp s" "mtx_owner (chx_cpu_sched_lock s) = mtx_owner s"
  "running (chx_cpu_sched_unlock s) = running s" "th_state (chx_cpu_sched_unlock s) = th_state s"
  "pendsv (chx_cpu_sched_unlock s) = pendsv s" "pq_prio (chx_cpu_sched_unlock s) = pq_prio s"
  "flag_got_cancel (chx_cpu_sched_unlock s) = flag_got_cancel s" "flag_detached (chx_cpu_sched_unlock s) = flag_detached s"
  "th_clp (chx_cpu_sched_unlock s) = th_clp s"
  "mtx_owner (chx_cpu_sched_unlock s) = mtx_owner s"
  by (simp_all add: chx_cpu_sched_lock_def chx_cpu_sched_unlock_def)

lemma lock_free_fields:
  "mtx_owner s m = None \<Longrightarrow> running s = Some t \<Longrightarrow>
   \<exists>s'. chopstx_mutex_lock m s = Some (True, s') \<and> running s' = running s \<and> th_state s' = th_state s \<and>
     pendsv s' = pendsv s \<and> pq_prio s' = pq_prio s \<and> flag_got_cancel s' = flag_got_cancel s \<and>
     flag_detached s' = flag_detached s \<and> th_clp s' = th_clp s \<and> mtx_owner s' m = Some t"
  by (rule exI [of _ "chx_cpu_sched_unlock (chx_cpu_sched_lock s
      \<lparr>mtx_owner := (mtx_owner (chx_cpu_sched_lock s))(m := Some t),
        mtx_list := (mtx_list (chx_cpu_sched_lock s))(m := mutex_list (chx_cpu_sched_lock s) t),
        mutex_list := (mutex_list (chx_cpu_sched_lock s))(t := Some m)\<rparr>)"])
    (simp add: chopstx_mutex_lock_def lock_fields Let_def)

lemma kernel_running: "kernel_ok s Q e \<Longrightarrow> t \<in> threads e \<Longrightarrow> th_state s t = THREAD_RUNNING \<Longrightarrow> running s = Some t"
  using kinv_at [of "{}" "running s" s Q e t] by (simp add: kernel_ok_def thread_at_def)

definition heads :: "ptr set" where
  "heads = {Qready, Qtimer, Qjoin, Qintr, Mtxq 5, Condq 7}"

definition main_env :: env where
  "main_env = (boot_env 1)\<lparr>held := (\<lambda>t. [])(1 := [5])\<rparr>"

text \<open>The main thread owns the mutex.\<close>

definition main_runs :: "kst \<Rightarrow> bool" where
  "main_runs s \<longleftrightarrow> running s = Some 1 \<and> th_state s 1 = THREAD_RUNNING \<and> \<not> pendsv s \<and>
     pq_prio s (Thr 1) = 1 \<and> \<not> flag_got_cancel s 1 \<and> \<not> flag_detached s 1 \<and> th_clp s 1 = None"

lemma main_runsD: "main_runs s \<Longrightarrow> runs s \<and> cur s = 1 \<and> \<not> chopstx_testcancel s"
  by (simp add: main_runs_def runs_def chopstx_testcancel_def)

lemma scenario_main: "\<exists>s. calmly chk (s, main_env, heads) \<and> main_runs s \<and> mtx_owner s 5 = Some 1"
proof -
  let ?a = "chopstx_mutex_init 5 start"
  let ?b = "chopstx_cond_init 7 ?a"
  let ?D = "insert (Condq 7) (insert (Mtxq 5) (dom boot_queues))"
  have "runs start" by (simp add: runs_def start_fields)
  from calmly_step [OF start_calmly, where x = "MutexInit 5" and s' = ?a] this
  have a: "calmly chk (?a, boot_env 1, insert (Mtxq 5) (dom boot_queues))" by (simp add: boot_queues_def)
  have "runs ?a" by (simp add: runs_def start_fields chopstx_mutex_init_def)
  from calmly_step [OF a, where x = "CondInit 7" and s' = ?b] this
  have b: "calmly chk (?b, boot_env 1, ?D)" by (simp add: boot_queues_def)
  have mb: "main_runs ?b" and ob: "mtx_owner ?b 5 = None"
    by (simp_all add: main_runs_def start_fields chopstx_mutex_init_def chopstx_cond_init_def)
  have l: "legal (MutexLock 5) ?b (boot_env 1) ?D" using main_runsD [OF mb] by simp
  obtain s where s: "exec chk (MutexLock 5) ?b = Some s"
    and fs: "running s = running ?b" "th_state s = th_state ?b" "pendsv s = pendsv ?b" "pq_prio s = pq_prio ?b"
      "flag_got_cancel s = flag_got_cancel ?b" "flag_detached s = flag_detached ?b" "th_clp s = th_clp ?b" "mtx_owner s 5 = Some 1"
    using lock_free_fields [OF ob, of 1] mb unfolding main_runs_def by auto
  have "calmly chk (s, ghost (MutexLock 5) ?b (boot_env 1), ?D)"
    using calmly_step [OF b l _ s] by simp
  moreover have "ghost (MutexLock 5) ?b (boot_env 1) = main_env"
    using ob main_runsD [OF mb] by (simp add: acquire_def main_env_def boot_env_def)
  moreover have "?D = heads" by (auto simp: heads_def boot_queues_def)
  moreover have "main_runs s" using fs mb by (simp add: main_runs_def)
  ultimately show ?thesis using fs by auto
qed

text \<open>It creates a thread of higher priority, which runs at once.\<close>

abbreviation other :: tid where "other \<equiv> 8128"

definition two_env :: env where
  "two_env = main_env\<lparr>threads := {1, other}\<rparr>"

definition other_runs :: "kst \<Rightarrow> bool" where
  "other_runs s \<longleftrightarrow> running s = Some other \<and> th_state s other = THREAD_RUNNING \<and> \<not> pendsv s \<and>
     pq_prio s (Thr 1) = 1 \<and> pq_prio s (Thr other) = 2 \<and> \<not> flag_got_cancel s other \<and>
     th_state s 1 = THREAD_READY \<and> \<not> flag_detached s 1"

lemma other_runsD: "other_runs s \<Longrightarrow> runs s \<and> cur s = other \<and> \<not> chopstx_testcancel s"
  by (simp add: other_runs_def runs_def chopstx_testcancel_def)

lemma scenario_two: "\<exists>s. calmly chk (s, two_env, heads) \<and> other_runs s \<and> mtx_owner s 5 = Some 1"
proof -
  obtain s where s: "calmly chk (s, main_env, heads)" "main_runs s" using scenario_main by blast
  have l: "\<not> chopstx_testcancel s" "runs s" "cur s = 1" using main_runsD [OF s(2)] by simp_all
  obtain ctx where a: "chopstx_create_arch 4096 4096 77 0 88 = Some (other, ctx)"
    by (simp add: chopstx_create_arch_def Let_def sizeof_chx_thread_def sizeof_chx_stack_regs_def)
  have e: "threads main_env = {1}" by (simp add: main_env_def boot_env_def)
  obtain Q where ok: "kernel_ok s Q main_env" "dom Q = heads"
    using sys_ok_reachable [OF calmly_reachable [OF s(1)]] by (auto simp: sys_ok_def)
  have on: "on_cpu 1 s Q main_env" using runs_on_cpu [OF l(2) ok(1)] l(3) by simp
  have top: "prio_top s main_env"
    using calmly_prio_pend [OF s(1)] s(2) by (simp add: prio_pend_def main_runs_def)
  obtain s' Q' where s': "chopstx_create 2 4096 4096 77 0 88 s = Some (Returns other, s')"
    and ok': "kernel_ok s' Q' (with_thread other main_env)"
    and pr: "pq_prio s' = (pq_prio s)(Thr other := ucast ((2::u32) AND CHOPSTX_PRIO_MASK))"
    and pe: "pendsv s' = pendsv s" and fl: "flag_got_cancel s' = (flag_got_cancel s)(other := False)"
      "flag_detached s' = (flag_detached s)(other := ((2::u32) AND CHOPSTX_DETACHED \<noteq> 0))"
    and st: "th_state s' other \<in> {THREAD_READY, THREAD_RUNNING}"
    and st1: "th_state s' 1 \<in> {THREAD_READY, THREAD_RUNNING}"
    and top': "prio_top s main_env \<longrightarrow> prio_top s' (with_thread other main_env)"
    using chopstx_create_ok [OF on a, of 2] e by auto
  have g: "with_thread other main_env = two_env"
    by (auto simp: two_env_def main_env_def boot_env_def)
  have p2: "pq_prio s' (Thr other) = 2" "pq_prio s' (Thr 1) = 1"
    using pr s(2) by (simp_all add: CHOPSTX_PRIO_MASK_def main_runs_def)
  have r: "running s' = Some other \<and> th_state s' other = THREAD_RUNNING"
  proof -
    have "th_state s' other = THREAD_RUNNING"
    proof (rule ccontr)
      assume "th_state s' other \<noteq> THREAD_RUNNING"
      then have rd: "th_state s' other = THREAD_READY" using st by simp
      then obtain t where t: "running s' = Some t" "pq_prio s' (Thr other) \<le> pq_prio s' (Thr t)"
        using top top' by (auto simp: prio_top_def)
      have "t \<in> {1, other}" using ok' t(1) e by (auto simp: kernel_ok_def)
      moreover have "t \<noteq> 1" using t(2) p2 by (auto simp: word_le_nat_alt)
      ultimately show False using ok' t(1) rd pe s(2) by (auto simp: kernel_ok_def main_runs_def)
    qed
    then show ?thesis using kernel_running [OF ok'] by simp
  qed
  have c: "calmly chk (s', two_env, heads)"
    using calmly_step [OF s(1), where x = "Create 2 4096 4096 77 0 88" and s' = s'] l a e s'(1) g by simp
  moreover have "th_state s' 1 = THREAD_READY" using st1 r kernel_running [OF ok', of 1] e by auto
  then have "other_runs s'" using r p2 pe fl s(2) by (simp add: other_runs_def main_runs_def)
  moreover have "mtx_owner s' 5 = Some 1"
  proof -
    obtain Q2 where "kernel_ok s' Q2 two_env" "dom Q2 = heads"
      using sys_ok_reachable [OF calmly_reachable [OF c]] by (auto simp: sys_ok_def)
    then show ?thesis
      by (auto simp: kernel_ok_def kinv_def locks_ok_def heads_def two_env_def main_env_def)
  qed
  ultimately show ?thesis by blast
qed

text \<open>The second thread waits on the condition variable; the main thread runs again.\<close>

definition waits_and_runs :: "kst \<Rightarrow> bool" where
  "waits_and_runs s \<longleftrightarrow> running s = Some 1 \<and> th_state s 1 = THREAD_RUNNING \<and> \<not> pendsv s \<and>
     th_state s other = THREAD_WAIT_CND \<and> pq_parent s (Thr other) = Some (Condq 7)"

lemma waits_and_runsD: "waits_and_runs s \<Longrightarrow> runs s \<and> cur s = 1"
  by (simp add: waits_and_runs_def runs_def)

lemma scenario_waiting: "\<exists>s. calmly chk (s, two_env, heads) \<and> waits_and_runs s"
proof -
  obtain s where s: "calmly chk (s, two_env, heads)" "other_runs s" using scenario_two by blast
  have l: "\<not> chopstx_testcancel s" "runs s" "cur s = other" using other_runsD [OF s(2)] by simp_all
  obtain Q where ok: "kernel_ok s Q two_env" "dom Q = heads"
    using sys_ok_reachable [OF calmly_reachable [OF s(1)]] by (auto simp: sys_ok_def)
  have on: "on_cpu other s Q two_env" using runs_on_cpu [OF l(2) ok(1)] l(3) by simp
  have c: "Condq 7 \<in> dom Q" using ok(2) by (simp add: heads_def)
  note lk = on_cpu_lock [OF on]
  have f: "running (chx_cpu_sched_lock s) = Some other" "other \<in> threads two_env"
      "th_state (chx_cpu_sched_lock s) other = THREAD_RUNNING" "masked (chx_cpu_sched_lock s)"
    using lk(2) by (simp_all add: locked_def)
  obtain s' Q' where s': "sleep_on (Condq 7) THREAD_WAIT_CND (chx_cpu_sched_lock s) = Some s'"
      "kernel_ok s' Q' two_env" "prio_top s' two_env" "th_state s' other = THREAD_WAIT_CND"
      "Q' (Condq 7) = Some (enq_list (pq_prio (chx_cpu_sched_lock s)) (Thr other) (the (Q (Condq 7))))"
      "pendsv s' = pendsv (chx_cpu_sched_lock s)"
    and keep: "\<forall>u. u \<noteq> other \<longrightarrow> running s' \<noteq> Some u \<longrightarrow> th_state s' u = th_state (chx_cpu_sched_lock s) u"
    using sleep_on_ok [OF locked_kinv [OF lk(2)] f c, of THREAD_WAIT_CND] by auto
  have t: "threads two_env = {1, other}" by (simp add: two_env_def)
  have r: "running s' = Some 1"
  proof (rule ccontr)
    assume n: "running s' \<noteq> Some 1"
    then have "th_state s' 1 = THREAD_READY" using keep s(2) by (simp add: lock_fields other_runs_def)
    then obtain u where u: "running s' = Some u" using s'(3) t by (auto simp: prio_top_def)
    then have "u \<in> {1, other}" "th_state s' u \<in> {THREAD_RUNNING, THREAD_READY}"
      using s'(2) t by (auto simp: kernel_ok_def)
    then show False using n u s'(4) by auto
  qed
  have "pendsv s' = False" using s'(6) s(2) by (simp add: lock_fields other_runs_def)
  then have st: "th_state s' 1 = THREAD_RUNNING" using s'(2) r by (auto simp: kernel_ok_def)
  have "inq Q' (Thr other) (Condq 7)" using s'(5) by (simp add: inq_def)
  then have "pq_parent s' (Thr other) = Some (Condq 7)"
    using s'(2) kinv_parent by (auto simp: kernel_ok_def)
  then have w: "waits_and_runs s'" using r st s'(4) \<open>pendsv s' = False\<close> by (simp add: waits_and_runs_def)
  have "exec chk (CondWait 7 None) s = Some s'"
    using l(1) s'(1) by (simp add: chopstx_cond_wait_def)
  from calmly_step [OF s(1) _ _ this] l have "calmly chk (s', two_env, heads)" by (simp add: heads_def)
  then show ?thesis using w by blast
qed

text \<open>
  The main thread claims interrupt 9 with the descriptor \<open>200\<close> and polls for it with the proxy
  \<open>100\<close> and the counter \<open>300\<close>.
\<close>

definition claimed :: kst where
  "claimed = chopstx_claim_irq 200 9 start"

definition polling :: kst where
  "polling = snd (poll_start [100] 300 claimed)"

definition poll_env :: env where
  "poll_env = (boot_env 1)\<lparr>proxies := {100}\<rparr>"

lemma claimed_fields:
  "running claimed = Some 1" "th_state claimed 1 = THREAD_RUNNING" "pendsv claimed = False"
  "flag_got_cancel claimed 1 = False" "pd_type claimed 200 = CHOPSTX_POLL_INTR" "pd_ready claimed 200 = 0"
  "pd_irq claimed 200 = 9"
  by (simp_all add: claimed_def chopstx_claim_irq_def chx_disable_intr_def chx_clr_intr_def
      chx_cpu_sched_lock_def chx_cpu_sched_unlock_def start_fields Let_def)

lemma polling_fields:
  "running polling = Some 1" "th_state polling 1 = THREAD_RUNNING" "pendsv polling = False"
  "flag_got_cancel polling 1 = False" "pd_type polling 200 = CHOPSTX_POLL_INTR" "pd_ready polling 200 = 0"
  "pd_irq polling 200 = 9" "px_ready_p polling 100 = None" "px_master polling 100 = 1"
  by (simp_all add: polling_def poll_start_def chx_proxy_init_def chopstx_testcancel_def claimed_fields Let_def)

lemma polling_calmly: "calmly chk (polling, poll_env, dom boot_queues)"
proof -
  have "legal (ClaimIrq 200 9) start (boot_env 1) (dom boot_queues)"
    by (simp add: px_fresh_def boot_env_def runs_def start_fields)
  from calmly_step [OF start_calmly this, where s' = claimed]
  have c: "calmly chk (claimed, boot_env 1, dom boot_queues)" by (simp add: claimed_def)
  have "legal (PollStart [100] 300) claimed (boot_env 1) (dom boot_queues)"
    by (simp add: boot_env_def runs_def chopstx_testcancel_def claimed_fields)
  from calmly_step [OF c this, where s' = polling]
  show ?thesis by (simp add: polling_def poll_env_def boot_env_def)
qed

lemma scenario_poll:
  "\<exists>s Q. calmly chk (s, poll_env, dom boot_queues) \<and> kernel_ok s Q poll_env \<and> runs s \<and>
     px_ready_p s 100 = Some 200 \<and> registered 100 200 Qintr Q s \<and> pq_v s (Px 100) = 9"
proof -
  let ?s = "polling\<lparr>px_ready_p := (px_ready_p polling)(100 := Some 200)\<rparr>"
  have r: "runs polling" by (simp add: runs_def polling_fields)
  obtain Q where ok: "kernel_ok polling Q poll_env" "dom Q = dom boot_queues"
    using sys_ok_reachable [OF calmly_reachable [OF polling_calmly]] by (auto simp: sys_ok_def)
  have on: "on_cpu 1 polling Q poll_env" using runs_on_cpu [OF r ok(1)] by (simp add: polling_fields)
  have a: "100 \<in> proxies poll_env" by (simp add: poll_env_def)
  have lo: "loose Q (Px 100)" by (rule owned_loose [OF on_cpu_kinv [OF on] polling_fields(8)])
  have "kinv {} (Some 1) ?s Q poll_env"
    by (rule kinv_set_ready_p [OF on_cpu_kinv [OF on] a lo]) (simp add: poll_env_def)
  then have on': "on_cpu 1 ?s Q poll_env" by (rule on_cpu_env_threads [OF on]) simp_all
  have nc: "\<not> chopstx_testcancel ?s" by (simp add: chopstx_testcancel_def polling_fields)
  obtain s' Q' where s': "chx_intr_hook 100 200 ?s = Some (Returns 0, s')" "on_cpu 1 s' Q' poll_env"
      "pq_v s' (Px 100) = ucast (pd_irq ?s 200)" "px_ready_p s' = px_ready_p ?s"
      "registered 100 200 Qintr Q' s'"
    using chx_intr_hook_ok [OF on' nc a lo, of 200] by (auto simp: polling_fields)
  have l: "legal (PollHook 100 200) polling poll_env (dom boot_queues)"
    using r nc by (simp add: px_owned_def px_fresh_def poll_env_def polling_fields chopstx_testcancel_def)
  have e: "exec chk (PollHook 100 200) polling = Some s'"
    using s'(1) by (simp add: poll_hook_def polling_fields)
  have c: "calmly chk (s', poll_env, dom boot_queues)"
    using calmly_step [OF polling_calmly l _ e] by (simp add: polling_fields)
  have "unmoved ?s s'" by (rule unmoved_hooks(3) [OF s'(1)])
  then have "runs s'" using r by (simp add: unmoved_def runs_def)
  then show ?thesis using c s' by (intro exI [of _ s'] exI [of _ Q']) (simp add: polling_fields on_cpu_def)
qed

end
