(* ===== verification/Kernel_Properties.thy ===== *)
theory Kernel_Properties
  imports Scenarios
begin

text \<open>
  What the kernel promises to the programs that run on it, for every state they can reach: the
  invariants of the whole system, then the behaviour of each call. The proofs rest on the
  component theories; each property with a hypothesis is instantiated at one of the runs of
  \<open>Scenarios\<close>.
\<close>

lemma reachable_ok: "reachable chk (s, e, D) \<Longrightarrow> \<exists>Q. kernel_ok s Q e \<and> dom Q = D"
  using sys_ok_reachable by (fastforce simp: sys_ok_def)

lemma reachable_cpu: "reachable chk (s, e, D) \<Longrightarrow> runs s \<Longrightarrow> \<exists>Q. on_cpu (cur s) s Q e \<and> dom Q = D"
  using reachable_ok runs_on_cpu by blast

lemma mchain_unique: "mchain f p xs \<Longrightarrow> mchain f p ys \<Longrightarrow> xs = ys"
proof (induction xs arbitrary: p ys)
  case Nil
  then show ?case by (cases ys) auto
next
  case (Cons x xs)
  then show ?case by (cases ys) auto
qed

lemma desc_dropWhile: "desc f xs \<Longrightarrow> \<forall>x \<in> set (dropWhile (\<lambda>y. k \<le> f y) xs). f x < k"
  by (induction xs) auto

lemma start_reachable: "reachable no_check (start, boot_env 1, dom boot_queues)" "runs start" "cur start = 1"
  by (rule calmly_reachable [OF start_calmly]) (simp_all add: runs_def start_fields)

lemma start_legal: "legal (MutexInit 5) start (boot_env 1) (dom boot_queues)"
  using start_reachable by (simp add: boot_queues_def)

section \<open>The system\<close>

text \<open>
  C1: Every call returns. In any reachable state, a step that \<open>legal\<close> allows the program or the
  processor terminates (no list walk runs on for ever, no pointer is dereferenced that is not there)
  and leads to a reachable state. What \<open>legal\<close> excludes is listed in \<open>System\<close>; among it are the unlocking
  of a mutex other than the last one locked, and \<open>chopstx_poll\<close> without a timeout by a round-robin thread,
  which in the code may indeed never return.
\<close>

theorem every_call_returns:
  assumes "reachable chk (s, e, D)" and "legal x s e D"
  shows "\<exists>s'. exec chk x s = Some s' \<and> reachable chk (s', ghost x s e, new_heads x D)"
proof -
  obtain Q where Q: "kernel_ok s Q e" "dom Q = D" using reachable_ok [OF assms(1)] by blast
  then obtain s' where s': "exec chk x s = Some s'"
    using legal_advances [OF Q(1), of x chk] assms(2) by (auto simp: advances_def)
  from reachable.after [OF assms(1) step.intros [OF assms(2) s']] s' show ?thesis by blast
qed

theorem every_call_returns_witness:
  "\<exists>s'. exec no_check (MutexInit 5) start = Some s' \<and>
     reachable no_check (s', ghost (MutexInit 5) start (boot_env 1), new_heads (MutexInit 5) (dom boot_queues))"
  by (rule every_call_returns [OF start_reachable(1) start_legal])

text \<open>
  At most one thread is in the state RUNNING, and it is the one \<open>running\<close> points to;
  \<open>running\<close> points to a thread that runs, or to a round-robin thread whose slice has just expired
  and which PendSV is about to take off the processor.
\<close>

lemma one_running_thread:
  assumes "reachable chk (s, e, D)"
  shows "{t \<in> threads e. th_state s t = THREAD_RUNNING} \<subseteq> {t. running s = Some t} \<and>
    (case running s of None \<Rightarrow> True | Some t \<Rightarrow> t \<in> threads e \<and>
       (th_state s t = THREAD_RUNNING \<or> th_state s t = THREAD_READY \<and> flag_sched_rr s t \<and> pendsv s))"
proof -
  obtain Q where Q: "kernel_ok s Q e" using reachable_ok [OF assms] by blast
  have "{t \<in> threads e. th_state s t = THREAD_RUNNING} \<subseteq> {t. running s = Some t}"
    using kernel_running [OF Q] by blast
  then show ?thesis using Q by (auto simp: kernel_ok_def split: option.split)
qed

lemma one_running_thread_witness:
  "{t \<in> threads (boot_env 1). th_state start t = THREAD_RUNNING} \<subseteq> {t. running start = Some t} \<and>
    (case running start of None \<Rightarrow> True | Some t \<Rightarrow> t \<in> threads (boot_env 1) \<and>
       (th_state start t = THREAD_RUNNING \<or> th_state start t = THREAD_READY \<and> flag_sched_rr start t \<and> pendsv start))"
  by (rule one_running_thread [OF start_reachable(1)])

text \<open>
  C2: The scheduler keeps its promise. In a run of calm steps, whenever no preemption is pending,
  the running thread has the highest priority of all threads that are ready; if no thread runs,
  none is ready. All steps are calm but two: the release of mutexes by a thread that is exiting, which
  switches only when it is done, and unlocking a mutex at a priority that a joining thread lent.
\<close>

theorem highest_priority_runs:
  assumes "calmly chk (s, e, D)" and "\<not> pendsv s" and "u \<in> threads e" and "th_state s u = THREAD_READY"
  shows "\<exists>t \<in> threads e. running s = Some t \<and> th_state s t = THREAD_RUNNING \<and>
    pq_prio s (Thr u) \<le> pq_prio s (Thr t)"
proof -
  obtain Q where Q: "kernel_ok s Q e" using reachable_ok [OF calmly_reachable [OF assms(1)]] by blast
  have "prio_top s e" using calmly_prio_pend [OF assms(1)] assms(2) by (simp add: prio_pend_def)
  then obtain t where t: "running s = Some t" "pq_prio s (Thr u) \<le> pq_prio s (Thr t)"
    using assms(3,4) by (auto simp: prio_top_def)
  then show ?thesis using Q assms(2) by (auto simp: kernel_ok_def)
qed

theorem highest_priority_runs_witness:
  "\<exists>(s :: kst) (e :: env). th_state s 1 = THREAD_READY \<and> (\<exists>t \<in> threads e. running s = Some t \<and>
     th_state s t = THREAD_RUNNING \<and> pq_prio s (Thr 1) \<le> pq_prio s (Thr t))"
proof -
  obtain s where s: "calmly no_check (s, two_env, heads)" "other_runs s" using scenario_two by blast
  have h: "\<not> pendsv s" "1 \<in> threads two_env" "th_state s 1 = THREAD_READY"
    using s(2) by (simp_all add: other_runs_def two_env_def)
  show ?thesis using highest_priority_runs [OF s(1) h] h by blast
qed

text \<open>
  C3: No thread gets lost. The state of a thread says which queue it is in: a ready thread is in
  the ready queue, a thread that waits for a mutex, a condition or another thread's end is in the queue
  of that object; in the timer queue are the threads that wait for a time, those that poll with a
  timeout and the running thread if it is scheduled round robin; no thread is in the queue of the interrupts, and
  all others are in no queue. Every queue is a well-formed doubly linked list, and those of the scheduler,
  of mutexes, conditions and interrupts are sorted by priority (the timer queue is sorted by deadline,
  the queue of the joining threads need not be sorted).
\<close>

theorem threads_in_their_queues:
  assumes "reachable chk (s, e, D)"
  shows "\<exists>Q. wfq s Q \<and> dom Q = D \<and>
    (\<forall>t \<in> threads e.
       (inq Q (Thr t) Qready \<longleftrightarrow> th_state s t = THREAD_READY) \<and>
       ((\<exists>m. inq Q (Thr t) (Mtxq m)) \<longleftrightarrow> th_state s t = THREAD_WAIT_MTX) \<and>
       ((\<exists>c. inq Q (Thr t) (Condq c)) \<longleftrightarrow> th_state s t = THREAD_WAIT_CND) \<and>
       (inq Q (Thr t) Qjoin \<longleftrightarrow> th_state s t = THREAD_WAIT_EXIT) \<and>
       (inq Q (Thr t) Qtimer \<longleftrightarrow> th_state s t = THREAD_WAIT_TIME \<or>
          th_state s t = THREAD_WAIT_POLL \<and> pq_parent s (Thr t) = Some Qtimer \<or>
          th_state s t = THREAD_RUNNING \<and> flag_sched_rr s t) \<and>
       \<not> inq Q (Thr t) Qintr) \<and>
    (\<forall>q xs. Q q = Some xs \<longrightarrow> q \<notin> {Qtimer, Qjoin} \<longrightarrow> desc (pq_prio s) xs)"
proof -
  obtain Q where Q: "kernel_ok s Q e" "dom Q = D" using reachable_ok [OF assms] by blast
  then have k: "kinv {} (running s) s Q e" by (simp add: kernel_ok_def)
  have al: "allowed (th_state s t) (flag_sched_rr s t) q" "pq_parent s (Thr t) = Some q" if "inq Q (Thr t) q" for t q
    using kinv_inq [OF k that] kinv_parent [OF k that] by simp_all
  have re: "\<exists>q. inq Q (Thr t) q"
    if "t \<in> threads e" "\<not> resting (th_state s t) (flag_sched_rr s t)" for t
    using kinv_queued [OF k that(1) _ that(2)] by auto
  have po: "\<exists>q. inq Q (Thr t) q"
    if "t \<in> threads e" "th_state s t = THREAD_WAIT_POLL" "pq_parent s (Thr t) = Some Qtimer" for t
    using kinv_at [OF k that(1)] that(2,3) by (auto simp: thread_at_def loose_inq)
  have th: "(inq Q (Thr t) Qready \<longleftrightarrow> th_state s t = THREAD_READY) \<and>
       ((\<exists>m. inq Q (Thr t) (Mtxq m)) \<longleftrightarrow> th_state s t = THREAD_WAIT_MTX) \<and>
       ((\<exists>c. inq Q (Thr t) (Condq c)) \<longleftrightarrow> th_state s t = THREAD_WAIT_CND) \<and>
       (inq Q (Thr t) Qjoin \<longleftrightarrow> th_state s t = THREAD_WAIT_EXIT) \<and>
       (inq Q (Thr t) Qtimer \<longleftrightarrow> th_state s t = THREAD_WAIT_TIME \<or>
          th_state s t = THREAD_WAIT_POLL \<and> pq_parent s (Thr t) = Some Qtimer \<or>
          th_state s t = THREAD_RUNNING \<and> flag_sched_rr s t) \<and>
       \<not> inq Q (Thr t) Qintr" if t: "t \<in> threads e" for t
  proof (cases "\<exists>q. inq Q (Thr t) q")
    case True
    then obtain q where q: "inq Q (Thr t) q" by blast
    then have eq: "inq Q (Thr t) q' \<longleftrightarrow> q' = q" for q' using inq_unique [OF kinv_wfq [OF k]] by blast
    show ?thesis by (cases "th_state s t") (use al [OF q] in \<open>auto simp: eq\<close>)
  next
    case False
    then show ?thesis by (cases "th_state s t") (use re [OF t] po [OF t] in auto)
  qed
  have "desc (pq_prio s) xs" if "Q q = Some xs" "q \<notin> {Qtimer, Qjoin}" for q xs
    using kinv_order [OF k] that by (auto simp: order_ok_def prio_sorted_def)
  with th kinv_wfq [OF k] Q(2) show ?thesis by blast
qed

theorem threads_in_their_queues_witness:
  "\<exists>(s :: kst) Q. wfq s Q \<and> th_state s other = THREAD_WAIT_CND \<and> (\<exists>c. inq Q (Thr other) (Condq c)) \<and>
     \<not> inq Q (Thr other) Qready"
proof -
  obtain s where s: "calmly no_check (s, two_env, heads)" "waits_and_runs s" using scenario_waiting by blast
  have t: "other \<in> threads two_env" and w: "th_state s other = THREAD_WAIT_CND"
    using s(2) by (simp_all add: two_env_def waits_and_runs_def)
  obtain Q where Q: "wfq s Q" "\<forall>t \<in> threads two_env. (inq Q (Thr t) Qready \<longleftrightarrow> th_state s t = THREAD_READY) \<and>
      ((\<exists>c. inq Q (Thr t) (Condq c)) \<longleftrightarrow> th_state s t = THREAD_WAIT_CND)"
    using threads_in_their_queues [OF calmly_reachable [OF s(1)]] by blast
  then show ?thesis using t w by (intro exI [of _ s] exI [of _ Q]) simp
qed

text \<open>
  C4: A mutex has one owner, and the owner knows it. The owner of an initialised mutex is a thread
  that has not ended, and the list that \<open>chopstx_exit\<close> releases contains the mutex once; the
  lists of two threads have no mutex in common.
\<close>

theorem mutex_ownership:
  assumes "reachable chk (s, e, D)" and "Mtxq m \<in> D" and "mtx_owner s m = Some t"
  shows "t \<in> threads e \<and> th_state s t \<notin> {THREAD_EXITED, THREAD_FINISHED} \<and>
    (\<exists>ms. mchain (mtx_list s) (mutex_list s t) ms \<and> m \<in> set ms \<and> distinct ms \<and>
       (\<forall>u \<in> threads e. \<forall>us. u \<noteq> t \<longrightarrow> mchain (mtx_list s) (mutex_list s u) us \<longrightarrow> set us \<inter> set ms = {}))"
proof -
  obtain Q where Q: "kernel_ok s Q e" "dom Q = D" using reachable_ok [OF assms(1)] by blast
  then have k: "kinv {} (running s) s Q e" by (simp add: kernel_ok_def)
  then have l: "locks_ok s Q e" by (simp add: kinv_def)
  have own: "mtx_owner s m' = Some u \<longleftrightarrow> u \<in> threads e \<and> m' \<in> set (held e u)" if "Mtxq m' \<in> dom Q" for m' u
    using l that unfolding locks_ok_def by blast
  have ch: "mchain (mtx_list s) (mutex_list s u) (held e u)" "distinct (held e u)"
      "\<forall>m \<in> set (held e u). Mtxq m \<in> dom Q" if "u \<in> threads e" for u
    using l that unfolding locks_ok_def by blast+
  have t: "t \<in> threads e" "m \<in> set (held e t)" using own assms(2,3) Q(2) by auto
  have "th_state s t \<notin> {THREAD_EXITED, THREAD_FINISHED}"
    using kinv_at [OF k t(1)] t(2) by (auto simp: thread_at_def)
  moreover have "set us \<inter> set (held e t) = {}"
    if u: "u \<in> threads e" "u \<noteq> t" and c: "mchain (mtx_list s) (mutex_list s u) us" for u us
  proof -
    have "us = held e u" using mchain_unique [OF c ch(1) [OF u(1)]] .
    moreover have "m' \<notin> set (held e t)" if m': "m' \<in> set (held e u)" for m'
    proof
      assume "m' \<in> set (held e t)"
      then have "mtx_owner s m' = Some t" "mtx_owner s m' = Some u"
        using own ch(3) [OF u(1)] m' t(1) u(1) by blast+
      then show False using u(2) by simp
    qed
    ultimately show ?thesis by blast
  qed
  ultimately show ?thesis using t ch [OF t(1)] by blast
qed

theorem mutex_ownership_witness:
  "\<exists>(s :: kst) t ms. mtx_owner s 5 = Some t \<and> th_state s t \<notin> {THREAD_EXITED, THREAD_FINISHED} \<and>
     mchain (mtx_list s) (mutex_list s t) ms \<and> 5 \<in> set ms \<and> distinct ms"
proof -
  obtain s where s: "calmly no_check (s, main_env, heads)" "mtx_owner s 5 = Some 1"
    using scenario_main by blast
  have d: "Mtxq 5 \<in> heads" by (simp add: heads_def)
  show ?thesis using mutex_ownership [OF calmly_reachable [OF s(1)] d s(2)] s(2) by blast
qed

text \<open>
  C10: Timers fit in SysTick. The timer queue is a list whose entries' distances add up to less than
  \<open>2 ^ 24\<close> ticks, so the value ever loaded into the 24-bit counter is the distance itself.
\<close>

theorem timers_fit_systick:
  assumes "reachable chk (s, e, D)"
  shows "\<exists>xs. dll (pq_next s) (pq_prev s) Qtimer xs \<and> (\<forall>(x, d) \<in> set (timer_abs s xs). d < 2 ^ 24) \<and>
    sorted (map snd (timer_abs s xs))"
proof -
  obtain Q where Q: "kernel_ok s Q e" using reachable_ok [OF assms(1)] by blast
  then have k: "kinv {} (running s) s Q e" by (simp add: kernel_ok_def)
  obtain xs where q: "Q Qtimer = Some xs" using kinv_head [OF k] by blast
  have "timer_ok s xs" using kinv_order [OF k] q by (simp add: order_ok_def)
  then show ?thesis using wfl_dll [OF kinv_wfq [OF k] q]
    by (intro exI [of _ xs]) (simp add: timer_ok_def timer_abs_def deadlines_sorted)
qed

theorem timers_fit_systick_witness:
  "\<exists>xs. dll (pq_next start) (pq_prev start) Qtimer xs \<and> (\<forall>(x, d) \<in> set (timer_abs start xs). d < 2 ^ 24) \<and>
    sorted (map snd (timer_abs start xs))"
  by (rule timers_fit_systick [OF start_reachable(1)])

section \<open>Mutexes\<close>



text \<open>
  C6: Unlocking frees the mutex and readies the thread that waits for it with the highest
  priority; the caller falls back to the highest of its own priority and those of the threads
  that wait for mutexes it still holds, and yields when the woken thread is above that.
\<close>

theorem unlock_hands_over:
  assumes "reachable chk (s, e, D)" and "runs s" and "held e (cur s) = m # ms"
  shows "\<exists>Q s'. wfq s Q \<and> dom Q = D \<and> chopstx_mutex_unlock m s = Some s' \<and>
    mtx_owner s' = (mtx_owner s)(m := None) \<and>
    (case the (Q (Mtxq m)) of
       [] \<Rightarrow> running s' = running s \<and> pq_prio s' = pq_prio s
     | x # xs \<Rightarrow> \<exists>u. x = Thr u \<and> u \<noteq> cur s \<and> (\<forall>y \<in> set xs. pq_prio s y \<le> pq_prio s (Thr u)) \<and>
         th_state s' u \<in> {THREAD_READY, THREAD_RUNNING} \<and>
         pq_prio s' = (pq_prio s)(Thr (cur s) := ucast (unlock_prio s Q (cur s) ms)) \<and>
         (pq_prio s' (Thr (cur s)) < pq_prio s' (Thr u) \<longrightarrow> prio_top s' e))"
proof -
  obtain Q where Q: "on_cpu (cur s) s Q e" "dom Q = D" using reachable_cpu [OF assms(1,2)] by blast
  let ?e = "e\<lparr>held := (held e)(cur s := ms)\<rparr>"
  have k: "kinv {} (Some (cur s)) s Q e" by (rule on_cpu_kinv [OF Q(1)])
  have r: "running s = Some (cur s)" using Q(1) unfolding on_cpu_def by blast
  have top: "prio_top s' ?e = prio_top s' e" for s' :: kst by (simp add: prio_top_def)
  have m: "Mtxq m \<in> dom Q"
    using k assms(3) on_cpu_thread [OF Q(1)] unfolding kinv_def locks_ok_def by fastforce
  then obtain zs where zs: "Q (Mtxq m) = Some zs" by auto
  then have de: "desc (pq_prio s) zs" using kinv_order [OF k] by (auto simp: order_ok_def prio_sorted_def)
  obtain s' Q' where s': "chopstx_mutex_unlock m s = Some s'" "mtx_owner s' = (mtx_owner s)(m := None)"
    and c: "case the (Q (Mtxq m)) of
       [] \<Rightarrow> on_cpu (cur s) s' Q' ?e \<and> pq_prio s' = pq_prio s
     | x # xs \<Rightarrow> \<exists>u. x = Thr u \<and> u \<noteq> cur s \<and>
         pq_prio s' = (pq_prio s)(Thr (cur s) := ucast (unlock_prio s Q (cur s) ms)) \<and>
         th_state s' u \<in> {THREAD_READY, THREAD_RUNNING} \<and>
         (if pq_prio s' (Thr (cur s)) < pq_prio s' (Thr u) then prio_top s' ?e else on_cpu (cur s) s' Q' ?e)"
    using chopstx_mutex_unlock_ok [OF Q(1) assms(3)] by (elim exE conjE) (rule that)
  have "case the (Q (Mtxq m)) of
       [] \<Rightarrow> running s' = running s \<and> pq_prio s' = pq_prio s
     | x # xs \<Rightarrow> \<exists>u. x = Thr u \<and> u \<noteq> cur s \<and> (\<forall>y \<in> set xs. pq_prio s y \<le> pq_prio s (Thr u)) \<and>
         th_state s' u \<in> {THREAD_READY, THREAD_RUNNING} \<and>
         pq_prio s' = (pq_prio s)(Thr (cur s) := ucast (unlock_prio s Q (cur s) ms)) \<and>
         (pq_prio s' (Thr (cur s)) < pq_prio s' (Thr u) \<longrightarrow> prio_top s' e)"
  proof (cases zs)
    case Nil
    with c zs have "on_cpu (cur s) s' Q' ?e" and p: "pq_prio s' = pq_prio s" by simp_all
    then have "running s' = running s" unfolding on_cpu_def r by blast
    with p Nil zs show ?thesis by simp
  next
    case (Cons x xs)
    then show ?thesis using c zs de top by auto
  qed
  then show ?thesis using s' kinv_wfq [OF k] Q(2) by blast
qed

theorem unlock_hands_over_witness:
  "\<exists>(s :: kst) s'. mtx_owner s 5 = Some 1 \<and> chopstx_mutex_unlock 5 s = Some s' \<and> mtx_owner s' 5 = None"
proof -
  obtain s where s: "calmly no_check (s, main_env, heads)" "main_runs s" "mtx_owner s 5 = Some 1"
    using scenario_main by blast
  have r: "runs s" "held main_env (cur s) = [5]" using main_runsD [OF s(2)] by (simp_all add: main_env_def)
  obtain s' where "chopstx_mutex_unlock 5 s = Some s'" "mtx_owner s' = (mtx_owner s)(5 := None)"
    using unlock_hands_over [OF calmly_reachable [OF s(1)] r] by blast
  then show ?thesis using s(3) by (intro exI [of _ s] exI [of _ s']) simp
qed

section \<open>Condition variables\<close>

text \<open>
  C35: Waiting for a condition releases the mutex and queues the caller in one step: when another
  thread runs, the mutex is free, the caller is in the condition's queue, behind all entries of at least
  its priority and before all others, and the best ready thread has the processor.
\<close>

theorem cond_wait_atomic:
  assumes "reachable chk (s, e, D)" and "runs s" and "\<not> chopstx_testcancel s" and "Condq c \<in> D"
    and "held e (cur s) = m # ms"
  shows "\<exists>Q s' Q' before after. wfq s Q \<and> Q (Condq c) = Some (before @ after) \<and>
    chopstx_cond_wait c (Some m) s = Some (Sleeps, s') \<and> wfq s' Q' \<and>
    Q' (Condq c) = Some (before @ Thr (cur s) # after) \<and>
    (\<forall>x \<in> set before. pq_prio s' (Thr (cur s)) \<le> pq_prio s' x) \<and>
    (\<forall>x \<in> set after. pq_prio s' x < pq_prio s' (Thr (cur s))) \<and>
    th_state s' (cur s) = THREAD_WAIT_CND \<and> mtx_owner s' m = None \<and> prio_top s' e"
proof -
  obtain Q where Q: "on_cpu (cur s) s Q e" "dom Q = D" using reachable_cpu [OF assms(1,2)] by blast
  have k: "kinv {} (Some (cur s)) s Q e" by (rule on_cpu_kinv [OF Q(1)])
  let ?e = "e\<lparr>held := (held e)(cur s := ms)\<rparr>" and ?t = "Thr (cur s)"
  have c: "Condq c \<in> dom Q" using assms(4) Q(2) by simp
  then obtain xs where xs: "Q (Condq c) = Some xs" by auto
  have h: "case Some m of None \<Rightarrow> ms = held e (cur s) | Some m \<Rightarrow> held e (cur s) = m # ms" using assms(5) by simp
  obtain s' Q' where s': "chopstx_cond_wait c (Some m) s = Some (Sleeps, s')" "kernel_ok s' Q' ?e"
      "prio_top s' ?e" "th_state s' (cur s) = THREAD_WAIT_CND" "inq Q' ?t (Condq c)"
      "\<forall>m'. Some m = Some m' \<longrightarrow> mtx_owner s' m' = None"
      "Q' (Condq c) = Some (enq_list (pq_prio s') ?t (the (Q (Condq c))))"
      "\<forall>x. x \<noteq> ?t \<longrightarrow> pq_prio s' x = pq_prio s x"
    using chopstx_cond_wait_ok [OF Q(1) c assms(3) h] by blast
  let ?P = "\<lambda>x. pq_prio s' ?t \<le> pq_prio s' x"
  have w: "wfq s' Q'" using s'(2) kinv_wfq by (auto simp: kernel_ok_def)
  have "?t \<notin> set xs"
  proof
    assume "?t \<in> set xs"
    then have "inq Q ?t (Condq c)" using xs by (simp add: inq_def)
    moreover have "th_state s (cur s) = THREAD_RUNNING" using Q(1) unfolding on_cpu_def by blast
    ultimately show False using kinv_inq [OF k, of "cur s" "Condq c"] by simp
  qed
  moreover have "desc (pq_prio s) xs" using kinv_order [OF k] xs by (simp add: order_ok_def prio_sorted_def)
  ultimately have "desc (pq_prio s') xs" using s'(8) desc_cong [of xs "pq_prio s'" "pq_prio s"] by metis
  then have after: "\<forall>x \<in> set (dropWhile ?P xs). pq_prio s' x < pq_prio s' ?t" by (rule desc_dropWhile)
  have before: "\<forall>x \<in> set (takeWhile ?P xs). ?P x" by (auto dest: set_takeWhileD)
  have q: "Q (Condq c) = Some (takeWhile ?P xs @ dropWhile ?P xs)" using xs by (simp only: takeWhile_dropWhile_id)
  have q': "Q' (Condq c) = Some (takeWhile ?P xs @ ?t # dropWhile ?P xs)"
    using s'(7) by (simp only: xs option.sel enq_list_def)
  have "prio_top s' e" "mtx_owner s' m = None" using s'(3,6) by (simp_all add: prio_top_def)
  with s'(1,4) w kinv_wfq [OF k] after before q q' show ?thesis by (intro exI conjI)
qed

theorem cond_wait_atomic_witness:
  "\<exists>(s :: kst) s'. mtx_owner s 5 = Some 1 \<and> chopstx_cond_wait 7 (Some 5) s = Some (Sleeps, s') \<and>
     th_state s' 1 = THREAD_WAIT_CND \<and> mtx_owner s' 5 = None"
proof -
  obtain s where s: "calmly no_check (s, main_env, heads)" "main_runs s" "mtx_owner s 5 = Some 1"
    using scenario_main by blast
  have r: "runs s" "\<not> chopstx_testcancel s" "held main_env (cur s) = [5]" "cur s = 1"
    using main_runsD [OF s(2)] by (simp_all add: main_env_def)
  have c: "Condq 7 \<in> heads" by (simp add: heads_def)
  show ?thesis using cond_wait_atomic [OF calmly_reachable [OF s(1)] r(1,2) c r(3)] s(3) r(4) by auto
qed

text \<open>
  C11: A signal takes the first entry off the condition's queue, which no other entry exceeds in
  priority; the others stay queued in their order. If it is a thread, it is ready or already running
  when the call is over; if it is the proxy of a thread that polls, its event is marked and counted, and
  that thread, if it was waiting, is ready or running.
\<close>

theorem signal_wakes_best:
  assumes "reachable chk (s, e, D)" and "runs s" and "Condq c \<in> D"
  shows "\<exists>Q zs s' Q'. wfq s Q \<and> dom Q = D \<and> Q (Condq c) = Some zs \<and> chopstx_cond_signal c s = Some s' \<and>
    wfq s' Q' \<and> Q' (Condq c) = Some (tl zs) \<and> (prio_top s e \<longrightarrow> prio_top s' e) \<and>
    (\<forall>x xs. zs = x # xs \<longrightarrow> (\<forall>y \<in> set xs. pq_prio s y \<le> pq_prio s x) \<and>
       (case x of
          Thr u \<Rightarrow> th_state s' u \<in> {THREAD_READY, THREAD_RUNNING}
        | Px a \<Rightarrow> px_woken a s s'
        | _ \<Rightarrow> False))"
proof -
  obtain Q where Q: "on_cpu (cur s) s Q e" "dom Q = D" using reachable_cpu [OF assms(1,2)] by blast
  have k: "kinv {} (Some (cur s)) s Q e" by (rule on_cpu_kinv [OF Q(1)])
  obtain zs where zs: "Q (Condq c) = Some zs" using assms(3) Q(2) by auto
  then have de: "desc (pq_prio s) zs" using kinv_order [OF k] by (auto simp: order_ok_def prio_sorted_def)
  obtain s' Q' where s': "chopstx_cond_signal c s = Some s'" "kernel_ok s' Q' e" "Q' (Condq c) = Some (tl zs)"
      "prio_top s e \<longrightarrow> prio_top s' e"
      "\<forall>u. zs \<noteq> [] \<longrightarrow> hd zs = Thr u \<longrightarrow> th_state s' u \<in> {THREAD_READY, THREAD_RUNNING}"
      "\<forall>a. zs \<noteq> [] \<longrightarrow> hd zs = Px a \<longrightarrow> px_woken a s s'"
    using chopstx_cond_signal_ok [OF Q(1) zs] by blast
  have "is_node x" if "zs = x # xs" for x xs
    using wfl_node [OF kinv_wfq [OF k] zs, of x] that by simp
  moreover have "wfq s' Q'" using s'(2) kinv_wfq by (auto simp: kernel_ok_def)
  ultimately show ?thesis using s' zs de kinv_wfq [OF k] Q(2)
    by (intro exI [of _ Q] exI [of _ zs] exI [of _ s'] exI [of _ Q']) (auto split: ptr.split)
qed

theorem signal_wakes_best_witness:
  "\<exists>(s :: kst) s'. th_state s other = THREAD_WAIT_CND \<and> chopstx_cond_signal 7 s = Some s'"
proof -
  obtain s where s: "calmly no_check (s, two_env, heads)" "waits_and_runs s" using scenario_waiting by blast
  have d: "Condq 7 \<in> heads" and r: "runs s" using waits_and_runsD [OF s(2)] by (simp_all add: heads_def)
  show ?thesis using signal_wakes_best [OF calmly_reachable [OF s(1)] r d] s(2) by (auto simp: waits_and_runs_def)
qed

text \<open>
  A broadcast leaves no thread waiting: every thread that waited for the condition is ready
  or runs.
\<close>

lemma broadcast_wakes_all:
  assumes "reachable chk (s, e, D)" and "runs s" and "Condq c \<in> D"
  shows "\<exists>s' Q'. chopstx_cond_broadcast c s = Some s' \<and> wfq s' Q' \<and> Q' (Condq c) = Some [] \<and>
    (\<forall>u \<in> threads e. th_state s u = THREAD_WAIT_CND \<longrightarrow> pq_parent s (Thr u) = Some (Condq c) \<longrightarrow>
       th_state s' u \<in> {THREAD_READY, THREAD_RUNNING}) \<and>
    (prio_top s e \<longrightarrow> prio_top s' e)"
proof -
  obtain Q where Q: "on_cpu (cur s) s Q e" "dom Q = D" using reachable_cpu [OF assms(1,2)] by blast
  have k: "kinv {} (Some (cur s)) s Q e" by (rule on_cpu_kinv [OF Q(1)])
  obtain zs where zs: "Q (Condq c) = Some zs" using assms(3) Q(2) by auto
  obtain s' Q' where s': "chopstx_cond_broadcast c s = Some s'" "kernel_ok s' Q' e" "Q' (Condq c) = Some []"
      "prio_top s e \<longrightarrow> prio_top s' e" "\<forall>u. Thr u \<in> set zs \<longrightarrow> th_state s' u \<in> {THREAD_READY, THREAD_RUNNING}"
    using chopstx_cond_broadcast_ok [OF Q(1) zs] by blast
  have "Thr u \<in> set zs"
    if "u \<in> threads e" "th_state s u = THREAD_WAIT_CND" "pq_parent s (Thr u) = Some (Condq c)" for u
    using kinv_queued [OF k that(1)] that(2,3) zs by (auto simp: inq_def)
  moreover have "wfq s' Q'" using s'(2) kinv_wfq by (auto simp: kernel_ok_def)
  ultimately show ?thesis using s' by (intro exI [of _ s'] exI [of _ Q']) auto
qed

lemma broadcast_wakes_all_witness:
  "\<exists>(s :: kst) s'. th_state s other = THREAD_WAIT_CND \<and> chopstx_cond_broadcast 7 s = Some s' \<and>
     th_state s' other \<in> {THREAD_READY, THREAD_RUNNING}"
proof -
  obtain s where s: "calmly no_check (s, two_env, heads)" "waits_and_runs s" using scenario_waiting by blast
  have d: "Condq 7 \<in> heads" and r: "runs s" using waits_and_runsD [OF s(2)] by (simp_all add: heads_def)
  have w: "other \<in> threads two_env" "th_state s other = THREAD_WAIT_CND" "pq_parent s (Thr other) = Some (Condq 7)"
    using s(2) by (simp_all add: waits_and_runs_def two_env_def)
  show ?thesis using broadcast_wakes_all [OF calmly_reachable [OF s(1)] r d] w by blast
qed

section \<open>Threads\<close>

text \<open>
  C7: Exit gives everything back. \<open>chopstx_exit\<close> takes the list of the cleanup routines from the thread and
  calls them, the last one pushed first; from the state they leave, it releases the mutexes and ends
  the thread. When it is over, the thread has ended for good and no initialised mutex is owned by it,
  whatever it held; a thread of the highest priority among the ready ones runs.
\<close>

theorem exit_releases_mutexes:
  assumes "reachable chk (s, e, D)" and "runs s" and "cleanup_keeps (cur s) run"
    and "cchain (clp_next s) (th_clp s (cur s)) cs"
  shows "\<exists>s' e'. chopstx_exit run retval s = Some s' \<and>
    (\<exists>s1 s2. called_in_order run cs (s\<lparr>th_clp := (th_clp s)(cur s := None)\<rparr>) s1 \<and>
       release_all (mutex_list s1 (cur s)) s1 = Some s2 \<and> chx_exit retval s2 = Some s') \<and>
    threads e' = threads e \<and> th_state s' (cur s) \<in> {THREAD_EXITED, THREAD_FINISHED} \<and>
    running s' \<noteq> Some (cur s) \<and> (\<forall>m. Mtxq m \<in> D \<longrightarrow> mtx_owner s' m \<noteq> Some (cur s)) \<and> prio_top s' e'"
proof -
  obtain Q where Q: "on_cpu (cur s) s Q e" "dom Q = D" using reachable_cpu [OF assms(1,2)] by blast
  obtain s' Q' e' where s': "chopstx_exit run retval s = Some s'" "kernel_ok s' Q' e'" "prio_top s' e'"
      "dom Q' = dom Q" "threads e' = threads e" "held e' (cur s) = []"
      "th_state s' (cur s) \<in> {THREAD_EXITED, THREAD_FINISHED}" "running s' \<noteq> Some (cur s)"
      "\<exists>s1 s2. called_in_order run cs (s\<lparr>th_clp := (th_clp s)(cur s := None)\<rparr>) s1 \<and>
         release_all (mutex_list s1 (cur s)) s1 = Some s2 \<and> chx_exit retval s2 = Some s'"
    using chopstx_exit_ok [OF Q(1) assms(3,4), of retval] by (elim exE conjE) (rule that; blast)
  have l: "locks_ok s' Q' e'" using s'(2) by (simp add: kernel_ok_def kinv_def)
  have "mtx_owner s' m \<noteq> Some (cur s)" if m: "Mtxq m \<in> D" for m
  proof
    assume "mtx_owner s' m = Some (cur s)"
    moreover have "Mtxq m \<in> dom Q'" using m s'(4) Q(2) by simp
    ultimately have "m \<in> set (held e' (cur s))" using l unfolding locks_ok_def by blast
    then show False using s'(6) by simp
  qed
  with s' show ?thesis by (intro exI [of _ s'] exI [of _ e']) blast
qed

theorem exit_releases_mutexes_witness:
  "\<exists>(s :: kst) s'. mtx_owner s 5 = Some 1 \<and> chopstx_exit (\<lambda>r a s. Some s) 0 s = Some s' \<and>
     mtx_owner s' 5 \<noteq> Some 1 \<and> th_state s' 1 \<in> {THREAD_EXITED, THREAD_FINISHED}"
proof -
  obtain s where s: "calmly no_check (s, main_env, heads)" "main_runs s" "mtx_owner s 5 = Some 1"
    using scenario_main by blast
  have r: "runs s" "cur s = 1" using main_runsD [OF s(2)] by simp_all
  have "cleanup_keeps (cur s) (\<lambda>r a s. Some s)" unfolding cleanup_keeps_def by blast
  moreover have "cchain (clp_next s) (th_clp s (cur s)) []" using s(2) r(2) by (simp add: main_runs_def)
  moreover have "Mtxq 5 \<in> heads" by (simp add: heads_def)
  ultimately show ?thesis
    using exit_releases_mutexes [OF calmly_reachable [OF s(1)] r(1), of "\<lambda>r a s. Some s" "[]" 0] s(3) r(2) by auto
qed

text \<open>
  Creating a thread writes inside its stack. The 64 bytes of the thread structure and the 32
  bytes of the first exception frame are the last 96 bytes of the stack area, and the frame
  starts the thread at its entry with its argument.
\<close>

lemma create_stays_in_stack:
  assumes "96 \<le> stk_size" and "unat stk_addr + unat stk_size < 2 ^ 32"
  shows "\<exists>tp c. chopstx_create_arch stk_addr stk_size entry arg ex = Some (tp, c) \<and>
    unat stk_addr \<le> unat (reg_sp c) \<and> unat tp = unat (reg_sp c) + 32 \<and>
    unat tp + 64 = unat stk_addr + unat stk_size \<and> regs c = [arg, 0, 0, 0, 0, ex, entry, INITIAL_XPSR]"
proof -
  obtain tp c where c: "chopstx_create_arch stk_addr stk_size entry arg ex = Some (tp, c)"
      "unat (reg_sp c) = unat stk_addr + unat stk_size - 96" "unat tp = unat (reg_sp c) + 32"
      "unat tp + 64 = unat stk_addr + unat stk_size" "regs c = [arg, 0, 0, 0, 0, ex, entry, INITIAL_XPSR]"
    using chopstx_create_arch_layout [OF assms] by blast
  then show ?thesis using assms by (intro exI [of _ tp] exI [of _ c]) (simp add: word_le_nat_alt)
qed

lemma create_stays_in_stack_witness:
  "\<exists>tp c. chopstx_create_arch 0x20000000 512 0x08000100 7 0x08000200 = Some (tp, c) \<and>
    0x20000000 \<le> unat (reg_sp c) \<and> unat tp + 64 = 0x20000000 + 512"
  using create_stays_in_stack [of 512 "0x20000000" "0x08000100" 7 "0x08000200"] by (auto simp: word_le_nat_alt)

text \<open>
  Joining. If the thread has exited, the caller gets its value and the thread is finished;
  otherwise the caller sleeps in the join queue, the thread and all threads it in turn waits for
  run at least at the caller's priority, and no other priority changes.
\<close>

lemma join_lends_priority:
  assumes "reachable chk (s, e, D)" and "runs s" and "\<not> chopstx_testcancel s" and "tp \<in> threads e"
    and "\<not> flag_detached s tp"
  shows "\<exists>s'. if th_state s tp = THREAD_EXITED
     then chopstx_join tp s = Some ((Returns 0, Some (pq_v s (Thr tp))), s') \<and>
       th_state s' = (th_state s)(tp := THREAD_FINISHED)
     else chopstx_join tp s = Some ((Sleeps, None), s') \<and> th_state s' (cur s) = THREAD_WAIT_EXIT \<and>
       waits_for s' (cur s) = Some tp \<and> pq_prio s (Thr (cur s)) \<le> pq_prio s' (Thr tp) \<and> prio_top s' e \<and>
       (\<forall>x. pq_prio s' x = pq_prio s x \<or> pq_prio s x < pq_prio s' x \<and> pq_prio s' x = pq_prio s (Thr (cur s))) \<and>
       (pi_ok s e \<longrightarrow> pi_ok s' e)"
proof -
  obtain Q where Q: "on_cpu (cur s) s Q e" using reachable_cpu [OF assms(1,2)] by blast
  show ?thesis
  proof (cases "th_state s tp = THREAD_EXITED")
    case True
    then show ?thesis using chopstx_join_exited [OF Q assms(3-5)] by auto
  next
    case False
    then show ?thesis using chopstx_join_sleeps [OF Q assms(3-5)] by metis
  qed
qed

lemma join_lends_priority_witness:
  "\<exists>(s :: kst) s'. pq_prio s (Thr 1) = 1 \<and> chopstx_join 1 s = Some ((Sleeps, None), s') \<and> 2 \<le> pq_prio s' (Thr 1)"
proof -
  obtain s where s: "calmly no_check (s, two_env, heads)" "other_runs s" using scenario_two by blast
  have r: "runs s" "\<not> chopstx_testcancel s" "cur s = other" using other_runsD [OF s(2)] by simp_all
  have t: "1 \<in> threads two_env" "\<not> flag_detached s 1" "th_state s 1 \<noteq> THREAD_EXITED" "pq_prio s (Thr other) = 2"
      "pq_prio s (Thr 1) = 1"
    using s(2) by (simp_all add: two_env_def other_runs_def)
  show ?thesis
    using join_lends_priority [OF calmly_reachable [OF s(1)] r(1,2) t(1,2)] t(3-5) r(3) by auto
qed

text \<open>
  Cancelling. The target is marked; if it may be cancelled and waits for a condition, a time,
  another thread's end or an event, it is taken out of its queue and made ready; otherwise its
  state does not change.
\<close>

lemma cancel_wakes_waiting:
  assumes "reachable chk (s, e, D)" and "runs s" and "tp \<in> threads e"
  shows "\<exists>s'. chopstx_cancel tp s = Some s' \<and> flag_got_cancel s' tp \<and> (prio_top s e \<longrightarrow> prio_top s' e) \<and>
    (if flag_cancelable s tp \<and>
        th_state s tp \<in> {THREAD_WAIT_CND, THREAD_WAIT_TIME, THREAD_WAIT_EXIT, THREAD_WAIT_POLL}
     then th_state s' tp \<in> {THREAD_READY, THREAD_RUNNING} else th_state s' tp = th_state s tp)"
proof -
  obtain Q where Q: "on_cpu (cur s) s Q e" using reachable_cpu [OF assms(1,2)] by blast
  show ?thesis using chopstx_cancel_ok [OF Q assms(3)] by (auto split: if_splits)
qed

lemma cancel_wakes_waiting_witness:
  "\<exists>(s :: kst) s'. th_state s other = THREAD_WAIT_CND \<and> chopstx_cancel other s = Some s' \<and> flag_got_cancel s' other"
proof -
  obtain s where s: "calmly no_check (s, two_env, heads)" "waits_and_runs s" using scenario_waiting by blast
  have r: "runs s" "other \<in> threads two_env" "th_state s other = THREAD_WAIT_CND"
    using waits_and_runsD [OF s(2)] s(2) by (simp_all add: waits_and_runs_def two_env_def)
  show ?thesis using cancel_wakes_waiting [OF calmly_reachable [OF s(1)] r(1,2)] r(3) by blast
qed

text \<open>
  C13: A long sleep. \<open>chopstx_usec_wait\<close> of a positive time puts the caller to sleep in the timer queue, due
  after 72 ticks for each microsecond, for 233016 microseconds at most (what SysTick can count). If the timer
  wakes it (result 0), another round follows with the time left; after \<open>n\<close> such rounds nothing is left of at
  most \<open>n * 233016\<close> microseconds, and the call returns. Woken with \<open>r\<close> ticks to go, it returns at once, and the time left is what
  was not slept; a negative result (cancellation) ends the call too.
\<close>

theorem usec_wait_sleeps:
  assumes "reachable chk (s, e, D)" and "runs s" and "\<not> chopstx_testcancel s"
  shows "(\<exists>s' Q'. wfq s' Q' \<and>
      (if usec = 0 then chopstx_usec_wait_var usec s = Some (Returns 1, s') \<and> running s' = running s
       else chopstx_usec_wait_var usec s = Some (Sleeps, s') \<and> th_state s' (cur s) = THREAD_WAIT_TIME \<and>
         due_in s' Q' (Thr (cur s)) (72 * min (unat usec) 233016) \<and> prio_top s' e)) \<and>
    (\<exists>left. chopstx_usec_wait_resume usec 0 = (None, left) \<and> unat left = unat usec - min (unat usec) 233016) \<and>
    (unat usec \<le> n * 233016 \<longrightarrow> ((\<lambda>u. snd (chopstx_usec_wait_resume u 0)) ^^ n) usec = 0) \<and>
    (0 < sint r \<and> unat r \<le> 72 * min (unat usec) 233016 \<longrightarrow> (\<exists>left. chopstx_usec_wait_resume usec r =
       (Some (Returns 1), left) \<and> unat left = unat usec - min (unat usec) 233016 + unat r div 72)) \<and>
    (sint r < 0 \<longrightarrow> chopstx_usec_wait_resume usec r = (Some (Returns r), usec))"
proof -
  obtain Q where Q: "on_cpu (cur s) s Q e" using reachable_cpu [OF assms(1,2)] by blast
  have m: "unat MAX_USEC_FOR_TIMER = 233016" by (simp add: MAX_USEC_FOR_TIMER_def MHZ_def)
  have u: "unat (snooze_usec usec) = min (unat usec) 233016" using unat_snooze [of usec] m by simp
  have t: "unat (usec_to_ticks (snooze_usec usec)) = 72 * min (unat usec) 233016"
    using snooze_ticks [of usec] u by simp
  obtain c s' Q' where s': "chopstx_usec_wait_var usec s = Some (c, s')" "kernel_ok s' Q' e"
      "if usec = 0 then c = Returns 1 \<and> on_cpu (cur s) s' Q' e
       else c = Sleeps \<and> th_state s' (cur s) = THREAD_WAIT_TIME \<and> running s' \<noteq> Some (cur s) \<and> prio_top s' e \<and>
         due_in s' Q' (Thr (cur s)) (unat (usec_to_ticks (snooze_usec usec)))"
    using chopstx_usec_wait_ok [OF Q assms(3), of usec] by blast
  have "wfq s' Q'" using s'(2) kinv_wfq by (auto simp: kernel_ok_def)
  moreover have "running s' = running s" if "usec = 0"
  proof -
    have "on_cpu (cur s) s' Q' e" using s'(3) that by simp
    from trans [OF on_cpu_running [OF this] on_cpu_running [OF Q, symmetric]] show ?thesis .
  qed
  ultimately have first: "\<exists>s' Q'. wfq s' Q' \<and>
      (if usec = 0 then chopstx_usec_wait_var usec s = Some (Returns 1, s') \<and> running s' = running s
       else chopstx_usec_wait_var usec s = Some (Sleeps, s') \<and> th_state s' (cur s) = THREAD_WAIT_TIME \<and>
         due_in s' Q' (Thr (cur s)) (72 * min (unat usec) 233016) \<and> prio_top s' e)"
    using s' t by (intro exI [of _ s'] exI [of _ Q']) (auto split: if_splits)
  have zero: "unat (usec - snooze_usec usec) = unat usec - min (unat usec) 233016"
    using unat_sub [OF snooze_usec_le(1), of usec] u by simp
  have early: "\<exists>left. chopstx_usec_wait_resume usec r = (Some (Returns 1), left) \<and>
      unat left = unat usec - min (unat usec) 233016 + unat r div 72"
    if "0 < sint r" "unat r \<le> 72 * min (unat usec) 233016"
    using snooze_resume_early [of r usec] that u t by (auto simp: chopstx_usec_wait_resume_def)
  have cancelled: "chopstx_usec_wait_resume usec r = (Some (Returns r), usec)" if "sint r < 0"
    using that by (auto simp: chopstx_usec_wait_resume_def chx_snooze_resume_def)
  have rounds: "((\<lambda>u. snd (chopstx_usec_wait_resume u 0)) ^^ n) usec = 0" if "unat usec \<le> n * 233016"
    by (rule usec_rounds_end) (use that m in simp)
  show ?thesis using first zero early cancelled rounds by (simp add: usec_resume_0)
qed

theorem usec_wait_sleeps_witness:
  "\<exists>s' :: kst. \<exists>Q'. chopstx_usec_wait_var 1000000 start = Some (Sleeps, s') \<and> th_state s' 1 = THREAD_WAIT_TIME \<and>
     due_in s' Q' (Thr 1) (72 * 233016) \<and> ((\<lambda>u. snd (chopstx_usec_wait_resume u 0)) ^^ 5) 1000000 = 0"
proof -
  have nc: "\<not> chopstx_testcancel start" by (simp add: chopstx_testcancel_def start_fields)
  have "\<exists>s' Q'. wfq s' Q' \<and> chopstx_usec_wait_var 1000000 start = Some (Sleeps, s') \<and>
      th_state s' (cur start) = THREAD_WAIT_TIME \<and>
      due_in s' Q' (Thr (cur start)) (72 * min (unat (1000000 :: u32)) 233016) \<and> prio_top s' (boot_env 1)"
    using usec_wait_sleeps [OF start_reachable(1,2) nc, of 1000000 5 0, THEN conjunct1] by simp
  moreover have "((\<lambda>u. snd (chopstx_usec_wait_resume u 0)) ^^ 5) 1000000 = 0"
    using usec_wait_sleeps [OF start_reachable(1,2) nc, of 1000000 5 0, THEN conjunct2, THEN conjunct2,
        THEN conjunct1] by simp
  ultimately show ?thesis by (auto simp: start_reachable(3))
qed

text \<open>
  Cancellation points. A thread with a pending cancellation that it allows does not start to
  wait: each of the calls that are cancellation points goes to \<open>chopstx_exit\<close> with
  \<open>CHOPSTX_CANCELED\<close> and has changed nothing but the counter of \<open>chopstx_poll\<close>.
\<close>

lemma cancellation_points_exit:
  assumes "chopstx_testcancel s"
  shows "chopstx_cond_wait c mo s = Some (Exits CHOPSTX_CANCELED, s) \<and>
    chopstx_usec_wait_var u s = Some (Exits CHOPSTX_CANCELED, s) \<and>
    chopstx_join tp s = Some ((Exits CHOPSTX_CANCELED, None), s) \<and>
    poll_start pxs cp s = (Exits CHOPSTX_CANCELED, s\<lparr>counter := (counter s)(cp := 0)\<rparr>) \<and>
    poll_round cp u s = Some (Exits CHOPSTX_CANCELED, s)"
  using assms by (simp add: chopstx_cond_wait_def chopstx_usec_wait_var_def chopstx_join_def
      poll_start_def poll_round_def chopstx_testcancel_def cur_def)

lemma cancellation_points_exit_witness:
  "\<exists>s :: kst. chopstx_testcancel s \<and> chopstx_join 3 s = Some ((Exits CHOPSTX_CANCELED, None), s)"
proof -
  have c: "chopstx_testcancel (start\<lparr>flag_got_cancel := \<lambda>t. True, flag_cancelable := \<lambda>t. True\<rparr>)"
    by (simp add: chopstx_testcancel_def)
  show ?thesis using cancellation_points_exit [OF c] c by blast
qed

section \<open>Interrupts and polling\<close>

text \<open>
  An interrupt is delivered. If a proxy waits for the interrupt, the handler disables the
  interrupt, marks the first such proxy's descriptor ready, counts the event, and the thread that
  polls with it no longer waits.
\<close>

lemma interrupt_delivered:
  assumes "reachable chk (s, e, D)" and "dll (pq_next s) (pq_prev s) Qintr xs"
    and "find (\<lambda>y. pq_v s y = ucast irq) xs = Some (Px a)" and "px_ready_p s a = Some d"
  shows "\<exists>s'. chx_handle_intr irq s = Some s' \<and> pd_ready s' d = 1 \<and>
    counter s' (px_counter_p s a) = counter s (px_counter_p s a) + 1 \<and>
    th_state s' (px_master s a) \<noteq> THREAD_WAIT_POLL \<and> \<not> nvic_enabled s' irq"
proof -
  obtain Q where Q: "kernel_ok s Q e" using reachable_ok [OF assms(1)] by blast
  then have k: "kinv {} (running s) s Q e" by (simp add: kernel_ok_def)
  obtain ys where ys: "Q Qintr = Some ys" using kinv_head [OF k] by blast
  have "ys = xs" by (rule dll_unique [OF wfl_dll [OF kinv_wfq [OF k] ys] assms(2)])
  then show ?thesis using chx_handle_intr_wakes [OF Q, of xs irq a d] ys assms(3,4) by blast
qed

lemma interrupt_delivered_witness:
  "\<exists>(s :: kst) s'. pq_v s (Px 100) = 9 \<and> chx_handle_intr 9 s = Some s' \<and> pd_ready s' 200 = 1"
proof -
  obtain s Q where s: "calmly no_check (s, poll_env, dom boot_queues)" "kernel_ok s Q poll_env"
      "px_ready_p s 100 = Some 200" "registered 100 200 Qintr Q s" "pq_v s (Px 100) = 9"
    using scenario_poll by blast
  have k: "kinv {} (running s) s Q poll_env" using s(2) by (simp add: kernel_ok_def)
  obtain xs where xs: "Q Qintr = Some xs" "Px 100 \<in> set xs" using s(4) by (auto simp: registered_def inq_def)
  have only: "x = Px 100" if "x \<in> set xs" for x
  proof -
    have iq: "inq Q x Qintr" using that xs(1) by (simp add: inq_def)
    have "is_node x" by (rule wfl_node [OF kinv_wfq [OF k] xs(1) that])
    then consider u where "x = Thr u" | b where "x = Px b" by (cases x) auto
    then show ?thesis
    proof cases
      case (1 u)
      then show ?thesis using kinv_inq [OF k, of u Qintr] iq by (cases "th_state s u") auto
    next
      case (2 b)
      then show ?thesis using kinv_px [OF k, of b Qintr] iq by (simp add: poll_env_def)
    qed
  qed
  obtain x ys where x: "xs = x # ys" using xs(2) by (cases xs) auto
  then have "x = Px 100" using only [of x] by simp
  then have "find (\<lambda>y. pq_v s y = ucast (9 :: u8)) xs = Some (Px 100)" using x s(5) by simp
  from interrupt_delivered [OF calmly_reachable [OF s(1)] wfl_dll [OF kinv_wfq [OF k] xs(1)] this s(3)]
  show ?thesis using s(5) by blast
qed

text \<open>
  C12: Polling leaves nothing behind. The proxies live on the stack of \<open>chopstx_poll\<close>; after its
  last loop none of them is in a queue of the kernel, whether its event has happened or not, and
  the count of events the call returns is what it was.
\<close>

theorem poll_leaves_no_proxy:
  assumes "reachable chk (s, e, D)" and "runs s"
    and "list_all (\<lambda>(a, d). a \<in> proxies e \<and> px_ready_p s a = Some d) ps"
  shows "\<exists>Q. wfq (poll_collect ps s) Q \<and> dom Q = D \<and> counter (poll_collect ps s) = counter s \<and>
    list_all (\<lambda>(a, d). \<forall>q xs. Q q = Some xs \<longrightarrow> Px a \<notin> set xs) ps"
proof -
  obtain Q where Q: "on_cpu (cur s) s Q e" "dom Q = D" using reachable_cpu [OF assms(1,2)] by blast
  have ps: "a \<in> proxies e \<and> px_ready_p s a = Some d" if "(a, d) \<in> set ps" for a d
    using assms(3) that by (auto simp: list_all_iff)
  obtain Q' where Q': "on_cpu (cur s) (poll_collect ps s) Q' e" "dom Q' = dom Q"
      "\<forall>a \<in> fst ` set ps. loose Q' (Px a)" "counter (poll_collect ps s) = counter s"
    using poll_collect_ok [OF Q(1), of ps] ps by blast
  have "list_all (\<lambda>(a, d). \<forall>q xs. Q' q = Some xs \<longrightarrow> Px a \<notin> set xs) ps"
    using Q'(3) by (fastforce simp: list_all_iff loose_def)
  then show ?thesis using Q' Q(2) kinv_wfq [OF on_cpu_kinv [OF Q'(1)]] by blast
qed

theorem poll_leaves_no_proxy_witness:
  "\<exists>(s :: kst) Q0 Q. inq Q0 (Px 100) Qintr \<and> wfq s Q0 \<and> wfq (poll_collect [(100, 200)] s) Q \<and>
     (\<forall>q xs. Q q = Some xs \<longrightarrow> Px 100 \<notin> set xs)"
proof -
  obtain s Q where s: "calmly no_check (s, poll_env, dom boot_queues)" "kernel_ok s Q poll_env" "runs s"
      "px_ready_p s 100 = Some 200" "registered 100 200 Qintr Q s"
    using scenario_poll by blast
  have "list_all (\<lambda>(a, d). a \<in> proxies poll_env \<and> px_ready_p s a = Some d) [(100, 200)]"
    using s(4) by (simp add: poll_env_def)
  from poll_leaves_no_proxy [OF calmly_reachable [OF s(1)] s(3) this]
  obtain Q' where "wfq (poll_collect [(100, 200)] s) Q'" "\<forall>q xs. Q' q = Some xs \<longrightarrow> Px 100 \<notin> set xs"
    by auto
  moreover have "wfq s Q" "inq Q (Px 100) Qintr"
    using s(2,5) kinv_wfq by (auto simp: kernel_ok_def registered_def)
  ultimately show ?thesis by blast
qed

end
