(* ===== verification/Gnu_Linux.thy ===== *)
theory Gnu_Linux
  imports Thread
begin

text \<open>
  The port to GNU/Linux (\<open>chopstx-gnu-linux.c\<close>), which runs the same kernel inside one process:
  the interval timer takes the place of SysTick, the signal mask that of the NVIC and of the interrupt
  mask, and user contexts that of the saved registers. There is no PendSV: a handler that wants
  another thread to run switches to it at once. The port is compared with the one to Cortex-M: both
  choose the same thread and leave the same memory.

  In the state \<open>kst\<close>, \<open>masked\<close> says that all signals are blocked and \<open>nvic_enabled\<close> is the complement
  of the signal set \<open>ss_cur\<close>. What \<open>swapcontext\<close> saves and restores is abstracted, as for Cortex-M.
\<close>

section \<open>Timer\<close>

text \<open>\<open>struct itimerval\<close> without its interval, which is always zero.\<close>

record itimer =
  tv_sec :: u32
  tv_usec :: u32

definition chx_systick_reset_gnu :: "itimer \<Rightarrow> itimer" where
  "chx_systick_reset_gnu it = \<lparr>tv_sec = 0, tv_usec = 0\<rparr>"

text \<open>\<open>setitimer\<close> refuses a value of \<open>tv_usec\<close> of a second or more and leaves the timer as it is.\<close>

definition setitimer :: "itimer \<Rightarrow> itimer \<Rightarrow> itimer" where
  "setitimer new old = (if tv_usec new < 1000000 then new else old)"

definition chx_systick_reload_gnu :: "u32 \<Rightarrow> itimer \<Rightarrow> itimer" where
  "chx_systick_reload_gnu ticks it = setitimer \<lparr>tv_sec = 0, tv_usec = ticks div MHZ\<rparr> it"

definition chx_systick_get_gnu :: "itimer \<Rightarrow> u32" where
  "chx_systick_get_gnu it = tv_usec it * 72"

definition usec_to_ticks_gnu :: "u32 \<Rightarrow> u32" where
  "usec_to_ticks_gnu usec = usec * MHZ"

text \<open>
  A time that \<open>usec_to_ticks\<close> made comes back as it was, as long as it is below a second; the longest
  sleep the kernel asks for is 200 ms (\<open>snooze_usec\<close>). Other times are rounded down to microseconds.
\<close>

lemma reload_get:
  assumes "unat ticks < 72 * 1000000"
  shows "chx_systick_get_gnu (chx_systick_reload_gnu ticks it) = ticks - ticks mod MHZ"
proof -
  have "ticks div MHZ < 1000000"
    using assms by (simp add: MHZ_def word_less_nat_alt unat_div)
  moreover have "ticks div MHZ * MHZ + ticks mod MHZ = ticks" by (rule div_mult_mod_eq)
  ultimately show ?thesis
    by (simp add: chx_systick_get_gnu_def chx_systick_reload_gnu_def setitimer_def MHZ_def eq_diff_eq)
qed

section \<open>Signals\<close>

definition chx_enable_intr_gnu :: "u8 \<Rightarrow> 'z kst_scheme \<Rightarrow> 'z kst_scheme" where
  "chx_enable_intr_gnu irq_num s = s\<lparr>nvic_enabled := (nvic_enabled s)(irq_num := True)\<rparr>"

definition chx_disable_intr_gnu :: "u8 \<Rightarrow> 'z kst_scheme \<Rightarrow> 'z kst_scheme" where
  "chx_disable_intr_gnu irq_num s = s\<lparr>nvic_enabled := (nvic_enabled s)(irq_num := False)\<rparr>"

definition chx_clr_intr_gnu :: "u8 \<Rightarrow> 'z kst_scheme \<Rightarrow> 'z kst_scheme" where
  "chx_clr_intr_gnu irq_num s = s"

text \<open>
  The mask that was set before goes to \<open>ss_cur\<close>: outside a critical section it is \<open>ss_cur\<close> itself, inside of
  one all signals are blocked already.
\<close>

definition chx_cpu_sched_lock_gnu :: "'z kst_scheme \<Rightarrow> 'z kst_scheme" where
  "chx_cpu_sched_lock_gnu s =
     (let s = (if masked s then s\<lparr>nvic_enabled := \<lambda>_. False\<rparr> else s)
      in s\<lparr>masked := True\<rparr>)"

definition chx_cpu_sched_unlock_gnu :: "'z kst_scheme \<Rightarrow> 'z kst_scheme" where
  "chx_cpu_sched_unlock_gnu s = s\<lparr>masked := False\<rparr>"

section \<open>Switching\<close>

text \<open>
  The result of \<open>chx_sched\<close> is read from the thread switched to, before its time slice starts; the
  thread that called gets it when it goes on.
\<close>

definition chx_sched_gnu :: "bool \<Rightarrow> 'z kst_scheme \<Rightarrow> (u32 \<times> 'z kst_scheme) option" where
  "chx_sched_gnu yield s = do {
     let tp = cur s;
     s \<leftarrow> (if yield then do {
             s \<leftarrow> (if flag_sched_rr s tp then map_option snd (chx_timer_dequeue tp s) else Some s);
             chx_ready_enqueue tp s }
           else Some s);
     let (tp, s) = chx_ready_pop s;
     let s = s\<lparr>running := tp\<rparr>;
     (v, s) \<leftarrow> (case tp of
         None \<Rightarrow> Some (0, s)
       | Some t \<Rightarrow> do {
           let v = pq_v s (Thr t);
           s \<leftarrow> (if flag_sched_rr s t then chx_timer_insert t PREEMPTION_USEC s else Some s);
           Some (v, s) });
     Some (v, chx_cpu_sched_unlock_gnu s) }"

definition chx_request_preemption_gnu :: "u16 \<Rightarrow> 'z kst_scheme \<Rightarrow> 'z kst_scheme option" where
  "chx_request_preemption_gnu prio s =
     (if running s \<noteq> None \<and> prio \<le> ucast (pq_prio s (Thr (cur s))) then Some s
      else do {
        s \<leftarrow> (case running s of
               None \<Rightarrow> Some s
             | Some tp \<Rightarrow> do {
                 s \<leftarrow> (if flag_sched_rr s tp then
                         (if th_state s tp = THREAD_RUNNING then do {
                            (_, s) \<leftarrow> chx_timer_dequeue tp s;
                            chx_ready_enqueue tp s }
                          else Some s)
                       else chx_ready_push tp s);
                 Some (s\<lparr>running := None\<rparr>) });
        let (tp, s) = chx_ready_pop s;
        let s = s\<lparr>running := tp\<rparr>;
        (case tp of
           None \<Rightarrow> Some s
         | Some t \<Rightarrow>
             if flag_sched_rr s t then chx_timer_insert t PREEMPTION_USEC s else Some s) })"

definition chx_handle_intr_gnu :: "u8 \<Rightarrow> 'z kst_scheme \<Rightarrow> 'z kst_scheme option" where
  "chx_handle_intr_gnu irq_num s = do {
     let s = chx_disable_intr_gnu irq_num s;
     p \<leftarrow> seek_v (ucast irq_num) (pq_next s Qintr) Qintr s;
     (case p of
        None \<Rightarrow> Some s
      | Some p \<Rightarrow> do {
          let s = ll_dequeue p s;
          (_, s) \<leftarrow> chx_wakeup p s;
          chx_request_preemption_gnu (ucast (pq_prio s (Thr (px_master s (node_addr p))))) s }) }"

text \<open>
  A new thread: the structure comes from \<open>malloc\<close> (its result is the argument \<open>new\<close>), and the context
  makes the thread start in \<open>chx_thread_start\<close> on the given stack.
\<close>

record ucontext =
  ss_sp :: u32
  ss_size :: u32
  uc_entry :: u32
  uc_arg :: u32

definition chopstx_create_arch_gnu ::
  "tid option \<Rightarrow> u32 \<Rightarrow> u32 \<Rightarrow> u32 \<Rightarrow> u32 \<Rightarrow> (tid \<times> ucontext) option" where
  "chopstx_create_arch_gnu new stack_addr stack_size thread_entry arg =
     (case new of
        None \<Rightarrow> None
      | Some tp \<Rightarrow> Some (tp, \<lparr>ss_sp = stack_addr, ss_size = stack_size, uc_entry = thread_entry, uc_arg = arg\<rparr>))"

section \<open>The ports agree\<close>

definition open_mask :: "'z kst_scheme \<Rightarrow> 'z kst_scheme" where
  "open_mask s = s\<lparr>masked := False, pendsv := False\<rparr>"

text \<open>What Cortex-M does when an interrupt handler returns with PendSV requested.\<close>

definition pendsv_taken :: "'z kst_scheme \<Rightarrow> 'z kst_scheme option" where
  "pendsv_taken s = (if pendsv s then preempt s else Some s)"

lemma pop_switch:
  "map_option (\<lambda>(tp, s). open_mask (context_switch tp s)) (pop_next s) =
   map_option open_mask (let (tp, s) = chx_ready_pop s; s = s\<lparr>running := tp\<rparr> in
     case tp of None \<Rightarrow> Some s
     | Some t \<Rightarrow> if flag_sched_rr s t then chx_timer_insert t PREEMPTION_USEC s else Some s)"
  by (auto simp: pop_next_def Let_def context_switch_def open_mask_def chx_timer_insert_running
      option.map_comp comp_def split: prod.splits option.splits bind_splits intro!: option.map_cong)

lemma sched_gnu:
  "map_option (\<lambda>(v, s). open_mask s) (chx_sched_gnu yield s) = map_option open_mask (svc yield s)"
proof -
  define put where "put = (if yield then rr_stop (cur s) s \<bind> chx_ready_enqueue (cur s) else Some s)"
  define go :: "'a kst_scheme \<Rightarrow> (u32 \<times> 'a kst_scheme) option" where
    "go = (\<lambda>t. case chx_ready_pop t of (tp, s) \<Rightarrow>
      (case tp of
          None \<Rightarrow> Some (0, s\<lparr>running := tp\<rparr>)
        | Some t \<Rightarrow>
            (if flag_sched_rr s t then chx_timer_insert t PREEMPTION_USEC (s\<lparr>running := tp\<rparr>)
             else Some (s\<lparr>running := tp\<rparr>)) \<bind> (\<lambda>s'. Some (pq_v s (Thr t), s'))) \<bind>
      (\<lambda>(v, s). Some (v, chx_cpu_sched_unlock_gnu s)))"
  have "map_option (\<lambda>(v, s). open_mask s) (go t) =
      map_option (\<lambda>(tp, s). open_mask (context_switch tp s)) (pop_next t)" for t
    unfolding pop_switch
    by (auto simp: go_def Let_def open_mask_def chx_cpu_sched_unlock_gnu_def split: prod.splits option.splits bind_splits)
  moreover have "chx_sched_gnu yield s = put \<bind> go"
    by (simp add: chx_sched_gnu_def put_def go_def rr_stop_def Let_def cong: if_cong option.case_cong)
  moreover have "svc yield s = put \<bind> (\<lambda>s. map_option (\<lambda>(tp, s). context_switch tp s) (pop_next s))"
    unfolding svc_m0
    by (simp add: chx_sched_m0_def put_def Let_def map_conv_bind_option comp_def split_def cong: if_cong)
  ultimately show ?thesis
    by (simp add: map_option_bind option.map_comp comp_def split_def)
qed

lemma preempt_gnu:
  assumes "masked s" "\<not> pendsv s"
  shows "map_option open_mask (chx_request_preemption_gnu prio s) =
    map_option open_mask (pendsv_taken (chx_request_preemption prio s))"
proof (cases "running s \<noteq> None \<and> prio \<le> ucast (pq_prio s (Thr (cur s)))")
  case True
  then show ?thesis
    using assms by (auto simp: chx_request_preemption_gnu_def chx_request_preemption_def pendsv_taken_def)
next
  case False
  define put where "put = (case running s of None \<Rightarrow> Some s
    | Some tp \<Rightarrow> preempt_put tp s \<bind> (\<lambda>s. Some (s\<lparr>running := None\<rparr>)))"
  have s: "s\<lparr>masked := True, pendsv := False\<rparr> = s" using assms by simp
  from False have "chx_request_preemption prio s = s\<lparr>pendsv := True\<rparr>"
    by (auto simp: chx_request_preemption_def not_le)
  then have "pendsv_taken (chx_request_preemption prio s) = preempt s"
    by (simp add: pendsv_taken_def preempt_def)
  then have "pendsv_taken (chx_request_preemption prio s) =
      put \<bind> (\<lambda>s. map_option (\<lambda>(tp, s). context_switch tp s) (pop_next s))"
    by (simp add: preempt_def s put_def map_conv_bind_option comp_def split_def)
  moreover have "chx_request_preemption_gnu prio s =
      put \<bind> (\<lambda>s. let (tp, s) = chx_ready_pop s; s = s\<lparr>running := tp\<rparr> in
        case tp of None \<Rightarrow> Some s
        | Some t \<Rightarrow> if flag_sched_rr s t then chx_timer_insert t PREEMPTION_USEC s else Some s)"
    unfolding chx_request_preemption_gnu_def if_not_P [OF False]
    by (simp add: put_def preempt_put_def cong: option.case_cong)
  ultimately show ?thesis
    by (simp add: map_option_bind option.map_comp comp_def split_def pop_switch [symmetric, unfolded split_def])
qed

text \<open>Waking a thread up touches neither the mask nor PendSV.\<close>

lemma dequeue_mask: "chx_timer_dequeue t s = Some (v, s') \<Longrightarrow> masked s' = masked s \<and> pendsv s' = pendsv s"
  by (auto simp: chx_timer_dequeue_def chx_set_timer_def chx_systick_reload_def ll_dequeue_def Let_def
      split: if_splits bind_splits)

lemma enqueue_mask: "chx_ready_enqueue t s = Some s' \<Longrightarrow> masked s' = masked s \<and> pendsv s' = pendsv s"
  by (auto simp: chx_ready_enqueue_def ll_prio_enqueue_def ll_insert_def Let_def split: bind_splits)

lemma wakeup_mask: "chx_wakeup p s = Some (b, s') \<Longrightarrow> masked s' = masked s \<and> pendsv s' = pendsv s"
  by (auto simp: chx_wakeup_def Let_def split: if_splits bind_splits dest!: enqueue_mask dequeue_mask)

lemma intr_gnu:
  assumes "masked s" "\<not> pendsv s"
  shows "map_option open_mask (chx_handle_intr_gnu irq s) =
    map_option open_mask (chx_handle_intr irq s \<bind> pendsv_taken)"
proof -
  have p: "map_option open_mask (chx_request_preemption_gnu prio t) =
      map_option open_mask (pendsv_taken (chx_request_preemption prio t))"
    if "chx_wakeup p (ll_dequeue p (chx_disable_intr_gnu irq s)) = Some (b, t)" for p b t prio
    using wakeup_mask [OF that] assms
    by (intro preempt_gnu) (simp_all add: ll_dequeue_def chx_disable_intr_gnu_def Let_def)
  have "chx_disable_intr irq = (chx_disable_intr_gnu irq :: 'a kst_scheme \<Rightarrow> _)"
    by (simp add: fun_eq_iff chx_disable_intr_def chx_disable_intr_gnu_def)
  moreover have "pendsv_taken (chx_disable_intr_gnu irq s) = Some (chx_disable_intr_gnu irq s)"
    using assms by (simp add: pendsv_taken_def chx_disable_intr_gnu_def)
  ultimately show ?thesis
    by (auto simp: chx_handle_intr_gnu_def chx_handle_intr_def Let_def p split: bind_splits option.splits)
qed

text \<open>
  The value a sleeping thread finds when it goes on was fixed when it went to sleep: it is the \<open>v\<close> of
  the thread that ran next (0 if none did), and not its own, which tells whether it was
  woken or cancelled.
\<close>

lemma sleep_returns_value_of_next:
  assumes "chx_sched_gnu CHX_SLEEP s = Some (v, s')"
  shows "v = (case running s' of None \<Rightarrow> 0 | Some t \<Rightarrow> pq_v s (Thr t))"
proof -
  obtain tp s1 where pop: "chx_ready_pop s = (tp, s1)" by fastforce
  then have v: "pq_v s1 = pq_v s"
    by (auto simp: chx_ready_pop_def ll_pop_def ll_dequeue_def Let_def split: prod.splits option.splits if_splits)
  from assms pop v show ?thesis
    by (auto simp: chx_sched_gnu_def chx_cpu_sched_unlock_gnu_def chx_timer_insert_running Let_def
        split: option.splits bind_splits if_splits)
qed

text \<open>
  C25: The two ports of the kernel agree. For a yield and for a sleep, \<open>chx_sched\<close> of the port to GNU/Linux
  chooses the same thread as the system call of Cortex-M and leaves the same memory. In a
  signal handler (all signals blocked), \<open>chx_request_preemption\<close>, which switches at once, does what requesting
  PendSV and its handler do together, and so does \<open>chx_handle_intr\<close>; or neither returns.
\<close>

theorem ports_agree:
  "map_option (\<lambda>(v, s). open_mask s) (chx_sched_gnu yield s) = map_option open_mask (chx_sched yield s) \<and>
   (masked s \<and> \<not> pendsv s \<longrightarrow>
      map_option open_mask (chx_request_preemption_gnu prio s) =
      map_option open_mask (pendsv_taken (chx_request_preemption prio s)) \<and>
      map_option open_mask (chx_handle_intr_gnu irq s) =
      map_option open_mask (chx_handle_intr irq s \<bind> pendsv_taken))"
  using sched_gnu preempt_gnu intr_gnu by blast

theorem ports_agree_witness:
  "map_option open_mask (chx_request_preemption_gnu 3 (blank\<lparr>masked := True\<rparr>)) =
   map_option open_mask (preempt (blank\<lparr>masked := True, pendsv := True\<rparr>))"
  using ports_agree [of True "blank\<lparr>masked := True\<rparr>" 3 0]
  by (simp add: pendsv_taken_def chx_request_preemption_def blank_def)

end
