(* ===== verification/Usb_Lld.thy ===== *)
theory Usb_Lld
  imports Chopstx_Prelude
begin

text \<open>
  The USB device driver of the STM32F103 (\<open>mcu/usb-stm32f103.c\<close>, \<open>usb_lld.h\<close>,
  \<open>usb_lld_driver.h\<close>): the endpoint registers, the packet memory, the state machine of
  control transfers on endpoint 0, the standard device requests and the event handler.

  Two registers of the controller do not keep what is written to them: some bits of an endpoint
  register toggle when a one is written, others are cleared by a zero, and the flags of the
  interrupt status register are cleared by a zero. What a write does to them is a parameter of
  the model, \<open>hw\<close>: its fields give the new value from the old one and the one written. The
  properties that depend on it assume what the reference manual says (\<open>ep_write_law\<close>).
\<close>

unbundle bit_operations_syntax

section \<open>State\<close>

datatype control_state =
  WAIT_SETUP | IN_DATA | OUT_DATA | LAST_IN_DATA | WAIT_STATUS_IN | WAIT_STATUS_OUT | STALLED

record device_req =
  req_type :: u8
  req_request :: u8
  req_value :: u16
  req_index :: u16
  req_len :: u16

record ctrl_data =
  cd_addr :: addr  \<comment> \<open>0 is \<open>NULL\<close>\<close>
  cd_len :: u16
  cd_require_zlp :: u8

record usb_dev =
  configuration :: u8
  feature :: u8
  dev_state :: control_state
  dev_req :: device_req
  ctrl_data :: ctrl_data

text \<open>
  The controller's registers, its packet memory (halfwords, by the address at which the processor
  sees them), the processor's memory, and the device. \<open>status_info_p\<close> is where the
  compiler puts the local variable \<open>status_info\<close> of \<open>std_get_status\<close>, \<open>configuration_p\<close> the
  address of \<open>dev->configuration\<close>: both are passed to \<open>usb_lld_ctrl_send\<close> as buffers.
\<close>

record usb =
  CNTR :: u16
  ISTR :: u16
  DADDR :: u16
  BTABLE :: u16
  EPREG :: "u8 \<Rightarrow> u16"
  pma :: "u32 \<Rightarrow> u16"
  mem :: "addr \<Rightarrow> u8"
  dev :: usb_dev
  status_info_p :: addr
  configuration_p :: addr

record usb_hw =
  ep_write :: "u16 \<Rightarrow> u16 \<Rightarrow> u16"
  istr_write :: "u16 \<Rightarrow> u16 \<Rightarrow> u16"

section \<open>Constants\<close>

definition PMA_ADDR :: u32 where "PMA_ADDR = 0x40006000"

definition ISTR_CTR :: u16 where "ISTR_CTR = 0x8000"
definition ISTR_OVR :: u16 where "ISTR_OVR = 0x4000"
definition ISTR_ERR :: u16 where "ISTR_ERR = 0x2000"
definition ISTR_WKUP :: u16 where "ISTR_WKUP = 0x1000"
definition ISTR_SUSP :: u16 where "ISTR_SUSP = 0x0800"
definition ISTR_RESET :: u16 where "ISTR_RESET = 0x0400"
definition ISTR_EP_ID :: u16 where "ISTR_EP_ID = 0x000F"

definition CNTR_INIT :: u16 where
  "CNTR_INIT = 0x8000 OR 0x4000 OR 0x2000 OR 0x1000 OR 0x0800 OR 0x0400"

definition CNTR_FSUSP :: u16 where "CNTR_FSUSP = 0x0008"
definition CNTR_LPMODE :: u16 where "CNTR_LPMODE = 0x0004"
definition CNTR_PDWN :: u16 where "CNTR_PDWN = 0x0002"
definition CNTR_FRES :: u16 where "CNTR_FRES = 0x0001"
definition DADDR_EF :: u16 where "DADDR_EF = 0x80"

definition EP_CTR_RX :: u16 where "EP_CTR_RX = 0x8000"
definition EP_DTOG_RX :: u16 where "EP_DTOG_RX = 0x4000"
definition EPRX_STAT :: u16 where "EPRX_STAT = 0x3000"
definition EP_SETUP :: u16 where "EP_SETUP = 0x0800"
definition EP_T_FIELD :: u16 where "EP_T_FIELD = 0x0600"
definition EP_KIND :: u16 where "EP_KIND = 0x0100"
definition EP_CTR_TX :: u16 where "EP_CTR_TX = 0x0080"
definition EP_DTOG_TX :: u16 where "EP_DTOG_TX = 0x0040"
definition EPTX_STAT :: u16 where "EPTX_STAT = 0x0030"
definition EPADDR_FIELD :: u16 where "EPADDR_FIELD = 0x000F"

definition EPREG_MASK :: u16 where
  "EPREG_MASK = EP_CTR_RX OR EP_SETUP OR EP_T_FIELD OR EP_KIND OR EP_CTR_TX OR EPADDR_FIELD"

definition EP_TX_STALL :: u16 where "EP_TX_STALL = 0x0010"
definition EP_TX_NAK :: u16 where "EP_TX_NAK = 0x0020"
definition EP_TX_VALID :: u16 where "EP_TX_VALID = 0x0030"
definition EPTX_DTOG1 :: u16 where "EPTX_DTOG1 = 0x0010"
definition EPTX_DTOG2 :: u16 where "EPTX_DTOG2 = 0x0020"
definition EP_RX_STALL :: u16 where "EP_RX_STALL = 0x1000"
definition EP_RX_NAK :: u16 where "EP_RX_NAK = 0x2000"
definition EP_RX_VALID :: u16 where "EP_RX_VALID = 0x3000"
definition EPRX_DTOG1 :: u16 where "EPRX_DTOG1 = 0x1000"
definition EPRX_DTOG2 :: u16 where "EPRX_DTOG2 = 0x2000"

lemmas ep_bits = EP_CTR_RX_def EP_DTOG_RX_def EPRX_STAT_def EP_SETUP_def EP_T_FIELD_def EP_KIND_def
  EP_CTR_TX_def EP_DTOG_TX_def EPTX_STAT_def EPADDR_FIELD_def EPREG_MASK_def EP_TX_STALL_def
  EP_TX_NAK_def EP_TX_VALID_def EPTX_DTOG1_def EPTX_DTOG2_def EP_RX_STALL_def EP_RX_NAK_def
  EP_RX_VALID_def EPRX_DTOG1_def EPRX_DTOG2_def

definition ENDP0 :: u8 where "ENDP0 = 0"
definition USB_MAX_PACKET_SIZE :: u32 where "USB_MAX_PACKET_SIZE = 64"

text \<open>The events of \<open>usb_lld.h\<close>, numbered in their order.\<close>

datatype usb_event =
    USB_EVENT_OK | USB_EVENT_DEVICE_RESET | USB_EVENT_DEVICE_SUSPEND | USB_EVENT_DEVICE_WAKEUP
  | USB_EVENT_SET_CONFIGURATION | USB_EVENT_SET_INTERFACE
  | USB_EVENT_SET_FEATURE_DEVICE | USB_EVENT_SET_FEATURE_ENDPOINT
  | USB_EVENT_CLEAR_FEATURE_DEVICE | USB_EVENT_CLEAR_FEATURE_ENDPOINT
  | USB_EVENT_GET_STATUS_INTERFACE | USB_EVENT_GET_DESCRIPTOR | USB_EVENT_GET_INTERFACE
  | USB_EVENT_CTRL_REQUEST | USB_EVENT_CTRL_WRITE_FINISH | USB_EVENT_DEVICE_ADDRESSED

fun event_no :: "usb_event \<Rightarrow> u32" where
  "event_no USB_EVENT_OK = 0"
| "event_no USB_EVENT_DEVICE_RESET = 1"
| "event_no USB_EVENT_DEVICE_SUSPEND = 2"
| "event_no USB_EVENT_DEVICE_WAKEUP = 3"
| "event_no USB_EVENT_SET_CONFIGURATION = 4"
| "event_no USB_EVENT_SET_INTERFACE = 5"
| "event_no USB_EVENT_SET_FEATURE_DEVICE = 6"
| "event_no USB_EVENT_SET_FEATURE_ENDPOINT = 7"
| "event_no USB_EVENT_CLEAR_FEATURE_DEVICE = 8"
| "event_no USB_EVENT_CLEAR_FEATURE_ENDPOINT = 9"
| "event_no USB_EVENT_GET_STATUS_INTERFACE = 10"
| "event_no USB_EVENT_GET_DESCRIPTOR = 11"
| "event_no USB_EVENT_GET_INTERFACE = 12"
| "event_no USB_EVENT_CTRL_REQUEST = 13"
| "event_no USB_EVENT_CTRL_WRITE_FINISH = 14"
| "event_no USB_EVENT_DEVICE_ADDRESSED = 15"

definition USB_MAKE_EV :: "usb_event \<Rightarrow> u32" where
  "USB_MAKE_EV ev = push_bit 24 (event_no ev)"

definition USB_MAKE_TXRX :: "u8 \<Rightarrow> bool \<Rightarrow> u16 \<Rightarrow> u32" where
  "USB_MAKE_TXRX ep_num txrx len =
     (if txrx then push_bit 23 1 else 0) OR push_bit 16 (ucast ep_num) OR ucast len"

text \<open>The macros of \<open>usb_lld.h\<close> that take an event apart.\<close>

definition USB_EVENT_TXRX :: "u32 \<Rightarrow> u32" where "USB_EVENT_TXRX e = drop_bit 23 e AND 1"
definition USB_EVENT_LEN :: "u32 \<Rightarrow> u32" where "USB_EVENT_LEN e = e AND 0xffff"
definition USB_EVENT_ENDP :: "u32 \<Rightarrow> u32" where "USB_EVENT_ENDP e = drop_bit 16 e AND 0x7f"
definition USB_EVENT_ID :: "u32 \<Rightarrow> u32" where "USB_EVENT_ID e = drop_bit 24 e"

section \<open>Registers\<close>

definition st103_set_btable :: "usb \<Rightarrow> usb" where
  "st103_set_btable s = s\<lparr>BTABLE := 0\<rparr>"

definition st103_set_istr :: "usb_hw \<Rightarrow> u16 \<Rightarrow> usb \<Rightarrow> usb" where
  "st103_set_istr hw istr s = s\<lparr>ISTR := istr_write hw (ISTR s) istr\<rparr>"

definition st103_set_cntr :: "u16 \<Rightarrow> usb \<Rightarrow> usb" where
  "st103_set_cntr cntr s = s\<lparr>CNTR := cntr\<rparr>"

definition st103_set_daddr :: "u16 \<Rightarrow> usb \<Rightarrow> usb" where
  "st103_set_daddr daddr s = s\<lparr>DADDR := daddr OR DADDR_EF\<rparr>"

definition st103_set_epreg :: "usb_hw \<Rightarrow> u8 \<Rightarrow> u16 \<Rightarrow> usb \<Rightarrow> usb" where
  "st103_set_epreg hw ep_num value s =
     s\<lparr>EPREG := (EPREG s)(ep_num := ep_write hw (EPREG s ep_num) value)\<rparr>"

definition st103_get_epreg :: "u8 \<Rightarrow> usb \<Rightarrow> u16" where
  "st103_get_epreg ep_num s = EPREG s ep_num"

text \<open>The buffer descriptor table, at the start of the packet memory.\<close>

definition btable_p :: "u8 \<Rightarrow> u32 \<Rightarrow> u32" where
  "btable_p ep_num k = PMA_ADDR + (ucast ep_num * 8 + k) * 2"

definition set_pma :: "u32 \<Rightarrow> u16 \<Rightarrow> usb \<Rightarrow> usb" where
  "set_pma p w s = s\<lparr>pma := (pma s)(p := w)\<rparr>"

definition st103_set_tx_addr :: "u8 \<Rightarrow> u16 \<Rightarrow> usb \<Rightarrow> usb" where
  "st103_set_tx_addr ep_num a s = set_pma (btable_p ep_num 0) a s"

definition st103_get_tx_addr :: "u8 \<Rightarrow> usb \<Rightarrow> u16" where
  "st103_get_tx_addr ep_num s = pma s (btable_p ep_num 0)"

definition st103_set_tx_count :: "u8 \<Rightarrow> u16 \<Rightarrow> usb \<Rightarrow> usb" where
  "st103_set_tx_count ep_num n s = set_pma (btable_p ep_num 2) n s"

definition st103_get_tx_count :: "u8 \<Rightarrow> usb \<Rightarrow> u16" where
  "st103_get_tx_count ep_num s = pma s (btable_p ep_num 2) AND 0x03ff"

definition st103_set_rx_addr :: "u8 \<Rightarrow> u16 \<Rightarrow> usb \<Rightarrow> usb" where
  "st103_set_rx_addr ep_num a s = set_pma (btable_p ep_num 4) a s"

definition st103_get_rx_addr :: "u8 \<Rightarrow> usb \<Rightarrow> u16" where
  "st103_get_rx_addr ep_num s = pma s (btable_p ep_num 4)"

definition rx_buf_size :: "u16 \<Rightarrow> u16" where
  "rx_buf_size n =
     (if n \<le> 62 then push_bit 9 (n AND 0x3e)
      else 0x8000 OR push_bit 10 (drop_bit 5 n - 1))"

definition st103_set_rx_buf_size :: "u8 \<Rightarrow> u16 \<Rightarrow> usb \<Rightarrow> usb" where
  "st103_set_rx_buf_size ep_num n s = set_pma (btable_p ep_num 6) (rx_buf_size n) s"

definition st103_get_rx_count :: "u8 \<Rightarrow> usb \<Rightarrow> u16" where
  "st103_get_rx_count ep_num s = pma s (btable_p ep_num 6) AND 0x03ff"

section \<open>Endpoint status\<close>

definition st103_ep_clear_ctr_rx :: "usb_hw \<Rightarrow> u8 \<Rightarrow> usb \<Rightarrow> usb" where
  "st103_ep_clear_ctr_rx hw ep_num s =
     st103_set_epreg hw ep_num (st103_get_epreg ep_num s AND NOT EP_CTR_RX AND EPREG_MASK) s"

definition st103_ep_clear_ctr_tx :: "usb_hw \<Rightarrow> u8 \<Rightarrow> usb \<Rightarrow> usb" where
  "st103_ep_clear_ctr_tx hw ep_num s =
     st103_set_epreg hw ep_num (st103_get_epreg ep_num s AND NOT EP_CTR_TX AND EPREG_MASK) s"

definition st103_ep_set_rxtx_status :: "usb_hw \<Rightarrow> u8 \<Rightarrow> u16 \<Rightarrow> u16 \<Rightarrow> usb \<Rightarrow> usb" where
  "st103_ep_set_rxtx_status hw ep_num st_rx st_tx s =
     (let value = st103_get_epreg ep_num s;
          value = value AND (EPREG_MASK OR EPRX_STAT OR EPTX_STAT);
          value = value XOR (EPRX_DTOG1 AND st_rx);
          value = value XOR (EPRX_DTOG2 AND st_rx);
          value = value XOR (EPTX_DTOG1 AND st_tx);
          value = value XOR (EPTX_DTOG2 AND st_tx);
          value = value OR (EP_CTR_RX OR EP_CTR_TX)
      in st103_set_epreg hw ep_num value s)"

definition st103_ep_set_rx_status :: "usb_hw \<Rightarrow> u8 \<Rightarrow> u16 \<Rightarrow> usb \<Rightarrow> usb" where
  "st103_ep_set_rx_status hw ep_num st_rx s =
     (let value = st103_get_epreg ep_num s;
          value = value AND (EPREG_MASK OR EPRX_STAT);
          value = value XOR (EPRX_DTOG1 AND st_rx);
          value = value XOR (EPRX_DTOG2 AND st_rx);
          value = value OR (EP_CTR_RX OR EP_CTR_TX)
      in st103_set_epreg hw ep_num value s)"

definition st103_ep_get_rx_status :: "u8 \<Rightarrow> usb \<Rightarrow> u16" where
  "st103_ep_get_rx_status ep_num s = st103_get_epreg ep_num s AND EPRX_STAT"

definition st103_ep_set_tx_status :: "usb_hw \<Rightarrow> u8 \<Rightarrow> u16 \<Rightarrow> usb \<Rightarrow> usb" where
  "st103_ep_set_tx_status hw ep_num st_tx s =
     (let value = st103_get_epreg ep_num s;
          value = value AND (EPREG_MASK OR EPTX_STAT);
          value = value XOR (EPTX_DTOG1 AND st_tx);
          value = value XOR (EPTX_DTOG2 AND st_tx);
          value = value OR (EP_CTR_RX OR EP_CTR_TX)
      in st103_set_epreg hw ep_num value s)"

definition st103_ep_get_tx_status :: "u8 \<Rightarrow> usb \<Rightarrow> u16" where
  "st103_ep_get_tx_status ep_num s = st103_get_epreg ep_num s AND EPTX_STAT"

definition st103_ep_clear_dtog_rx :: "usb_hw \<Rightarrow> u8 \<Rightarrow> usb \<Rightarrow> usb" where
  "st103_ep_clear_dtog_rx hw ep_num s =
     (let value = st103_get_epreg ep_num s
      in if value AND EP_DTOG_RX \<noteq> 0
         then st103_set_epreg hw ep_num
           (value AND EPREG_MASK OR (EP_CTR_RX OR EP_CTR_TX OR EP_DTOG_RX)) s
         else s)"

definition st103_ep_clear_dtog_tx :: "usb_hw \<Rightarrow> u8 \<Rightarrow> usb \<Rightarrow> usb" where
  "st103_ep_clear_dtog_tx hw ep_num s =
     (let value = st103_get_epreg ep_num s
      in if value AND EP_DTOG_TX \<noteq> 0
         then st103_set_epreg hw ep_num
           (value AND EPREG_MASK OR (EP_CTR_RX OR EP_CTR_TX OR EP_DTOG_TX)) s
         else s)"

section \<open>Packet memory\<close>

lemma less_sub_2: "2 \<le> (n :: u32) \<Longrightarrow> unat (n - 2) = unat n - 2"
  by (simp add: unat_sub_le)

text \<open>The loops of the two copy routines: whole halfwords, then a last byte.\<close>

function to_pma_loop :: "addr \<Rightarrow> u32 \<Rightarrow> u32 \<Rightarrow> usb \<Rightarrow> usb" where
  "to_pma_loop src p n s =
     (if 2 \<le> n then
        (let w = ucast (mem s src) :: u16;
             w = w OR push_bit 8 (ucast (mem s (src + 1)))
         in to_pma_loop (src + 2) (p + 4) (n - 2) (set_pma p w s))
      else if 0 < n then set_pma p (ucast (mem s src)) s
      else s)"
  by auto

termination
  by (relation "measure (\<lambda>(src, p, n, s). unat n)") (auto simp: less_sub_2 word_le_nat_alt)

definition usb_lld_to_pmabuf :: "addr \<Rightarrow> u16 \<Rightarrow> u32 \<Rightarrow> usb \<Rightarrow> usb" where
  "usb_lld_to_pmabuf src a n s =
     (if n = 0 then s
      else if a AND 1 \<noteq> 0 then
        (let p = PMA_ADDR + (ucast a - 1) * 2;
             w = pma s p;
             w = (w AND 0xff) OR push_bit 8 (ucast (mem s src))
         in to_pma_loop (src + 1) (p + 4) (n - 1) (set_pma p w s))
      else to_pma_loop src (PMA_ADDR + ucast a * 2) n s)"

definition set_mem :: "addr \<Rightarrow> u8 \<Rightarrow> usb \<Rightarrow> usb" where
  "set_mem d v s = s\<lparr>mem := (mem s)(d := v)\<rparr>"

function from_pma_loop :: "addr \<Rightarrow> u32 \<Rightarrow> u32 \<Rightarrow> usb \<Rightarrow> usb" where
  "from_pma_loop d p n s =
     (if 2 \<le> n then
        (let w = pma s p;
             s = set_mem d (ucast (w AND 0xff)) s;
             s = set_mem (d + 1) (ucast (drop_bit 8 w)) s
         in from_pma_loop (d + 2) (p + 4) (n - 2) s)
      else if 0 < n then set_mem d (ucast (pma s p AND 0xff)) s
      else s)"
  by auto

termination
  by (relation "measure (\<lambda>(d, p, n, s). unat n)") (auto simp: less_sub_2 word_le_nat_alt)

declare to_pma_loop.simps [simp del] from_pma_loop.simps [simp del]

definition usb_lld_from_pmabuf :: "addr \<Rightarrow> u16 \<Rightarrow> u32 \<Rightarrow> usb \<Rightarrow> usb" where
  "usb_lld_from_pmabuf d a n s =
     (if n = 0 then s
      else if a AND 1 \<noteq> 0 then
        (let p = PMA_ADDR + (ucast a - 1) * 2;
             w = pma s p;
             s = set_mem d (ucast (drop_bit 8 w)) s
         in from_pma_loop (d + 1) (p + 4) (n - 1) s)
      else from_pma_loop d (PMA_ADDR + ucast a * 2) n s)"

section \<open>Control transfers\<close>

definition set_dev_state :: "control_state \<Rightarrow> usb \<Rightarrow> usb" where
  "set_dev_state st s = s\<lparr>dev := (dev s)\<lparr>dev_state := st\<rparr>\<rparr>"

definition set_ctrl_data :: "ctrl_data \<Rightarrow> usb \<Rightarrow> usb" where
  "set_ctrl_data c s = s\<lparr>dev := (dev s)\<lparr>ctrl_data := c\<rparr>\<rparr>"

definition usb_lld_ctrl_error :: "usb_hw \<Rightarrow> usb \<Rightarrow> usb" where
  "usb_lld_ctrl_error hw s =
     st103_ep_set_rxtx_status hw ENDP0 EP_RX_STALL EP_TX_STALL (set_dev_state STALLED s)"

definition usb_lld_ctrl_ack :: "usb_hw \<Rightarrow> usb \<Rightarrow> usb_event \<times> usb" where
  "usb_lld_ctrl_ack hw s =
     (let s = set_dev_state WAIT_STATUS_IN s;
          s = st103_set_tx_count ENDP0 0 s;
          s = st103_ep_set_rxtx_status hw ENDP0 EP_RX_NAK EP_TX_VALID s
      in (USB_EVENT_OK, s))"

text \<open>A part of the data goes to the packet memory and the pointer moves on.\<close>

definition send_part :: "u32 \<Rightarrow> usb \<Rightarrow> usb" where
  "send_part len s =
     (let c = ctrl_data (dev s);
          s = usb_lld_to_pmabuf (cd_addr c) (st103_get_tx_addr ENDP0 s) len s
      in set_ctrl_data (c\<lparr>cd_len := cd_len c - ucast len, cd_addr := cd_addr c + len\<rparr>) s)"

definition usb_lld_ctrl_send :: "usb_hw \<Rightarrow> addr \<Rightarrow> u32 \<Rightarrow> usb \<Rightarrow> usb_event \<times> usb" where
  "usb_lld_ctrl_send hw buf buflen s =
     (let len_asked = req_len (dev_req (dev s));
          c = (ctrl_data (dev s))\<lparr>cd_addr := buf, cd_len := ucast buflen\<rparr>;
          c = (if len_asked \<le> cd_len c then c\<lparr>cd_len := len_asked\<rparr>
               else if cd_len c \<noteq> 0 \<and> (ucast (cd_len c) :: u32) mod USB_MAX_PACKET_SIZE = 0
               then c\<lparr>cd_require_zlp := 1\<rparr> else c);
          s = set_ctrl_data c s;
          (len, s) = (if ucast (cd_len c) < USB_MAX_PACKET_SIZE
                      then (ucast (cd_len c), set_dev_state LAST_IN_DATA s)
                      else (USB_MAX_PACKET_SIZE, set_dev_state IN_DATA s));
          s = (if len \<noteq> 0 then send_part len s else s);
          s = st103_set_tx_count ENDP0 (ucast len) s;
          s = st103_ep_set_rxtx_status hw ENDP0 EP_RX_NAK EP_TX_VALID s
      in (USB_EVENT_OK, s))"

definition usb_lld_ctrl_recv :: "usb_hw \<Rightarrow> addr \<Rightarrow> u32 \<Rightarrow> usb \<Rightarrow> usb_event \<times> usb" where
  "usb_lld_ctrl_recv hw p len s =
     (let s = set_ctrl_data ((ctrl_data (dev s))\<lparr>cd_addr := p, cd_len := ucast len\<rparr>) s;
          s = set_dev_state OUT_DATA s;
          s = st103_ep_set_rx_status hw ENDP0 EP_RX_VALID s
      in (USB_EVENT_OK, s))"

definition handle_datastage_out :: "usb_hw \<Rightarrow> usb \<Rightarrow> usb" where
  "handle_datastage_out hw s =
     (let c = ctrl_data (dev s);
          s = (if cd_addr c \<noteq> 0 \<and> cd_len c \<noteq> 0 then
                 (let len = ucast (st103_get_rx_count ENDP0 s) :: u32;
                      len = (if ucast (cd_len c) < len then ucast (cd_len c) else len);
                      s = usb_lld_from_pmabuf (cd_addr c) (st103_get_rx_addr ENDP0 s) len s
                  in set_ctrl_data (c\<lparr>cd_len := cd_len c - ucast len, cd_addr := cd_addr c + len\<rparr>) s)
               else s)
      in if cd_len (ctrl_data (dev s)) = 0 then
           (let s = set_dev_state WAIT_STATUS_IN s;
                s = st103_set_tx_count ENDP0 0 s
            in st103_ep_set_tx_status hw ENDP0 EP_TX_VALID s)
         else
           (let s = set_dev_state OUT_DATA s
            in st103_ep_set_rx_status hw ENDP0 EP_RX_VALID s))"

definition handle_datastage_in :: "usb_hw \<Rightarrow> usb \<Rightarrow> usb" where
  "handle_datastage_in hw s =
     (let len = USB_MAX_PACKET_SIZE; c = ctrl_data (dev s)
      in if cd_len c = 0 \<and> dev_state (dev s) = LAST_IN_DATA then
           (if cd_require_zlp c \<noteq> 0 then
              (let s = set_ctrl_data (c\<lparr>cd_require_zlp := 0\<rparr>) s;
                   s = st103_set_tx_count ENDP0 0 s
               in st103_ep_set_tx_status hw ENDP0 EP_TX_VALID s)
            else
              (let s = set_dev_state WAIT_STATUS_OUT s
               in st103_ep_set_rx_status hw ENDP0 EP_RX_VALID s))
         else
           (let s = set_dev_state (if ucast (cd_len c) \<le> len then LAST_IN_DATA else IN_DATA) s;
                len = (if ucast (cd_len c) < len then ucast (cd_len c) else len);
                s = send_part len s;
                s = st103_set_tx_count ENDP0 (ucast len) s
            in st103_ep_set_tx_status hw ENDP0 EP_TX_VALID s))"

section \<open>Standard device requests\<close>

text \<open>A handler's \<open>-1\<close> is \<open>None\<close>.\<close>

datatype recipient = DEVICE_RECIPIENT | INTERFACE_RECIPIENT | ENDPOINT_RECIPIENT | OTHER_RECIPIENT

definition REQUEST_DIR :: u8 where "REQUEST_DIR = 0x80"
definition REQUEST_TYPE :: u8 where "REQUEST_TYPE = 0x60"
definition STANDARD_REQUEST :: u8 where "STANDARD_REQUEST = 0x00"
definition RECIPIENT :: u8 where "RECIPIENT = 0x1F"
definition SET_ADDRESS :: u8 where "SET_ADDRESS = 5"
definition FEATURE_ENDPOINT_HALT :: u16 where "FEATURE_ENDPOINT_HALT = 0"
definition FEATURE_DEVICE_REMOTE_WAKEUP :: u16 where "FEATURE_DEVICE_REMOTE_WAKEUP = 1"

definition USB_SETUP_SET :: "u8 \<Rightarrow> bool" where "USB_SETUP_SET req \<longleftrightarrow> req AND REQUEST_DIR = 0"
definition USB_SETUP_GET :: "u8 \<Rightarrow> bool" where "USB_SETUP_GET req \<longleftrightarrow> req AND REQUEST_DIR \<noteq> 0"

definition recipient :: "u8 \<Rightarrow> recipient" where
  "recipient t =
     (let rcp = t AND RECIPIENT
      in if rcp = 0 then DEVICE_RECIPIENT else if rcp = 1 then INTERFACE_RECIPIENT
         else if rcp = 2 then ENDPOINT_RECIPIENT else OTHER_RECIPIENT)"

definition set_mem16 :: "addr \<Rightarrow> u16 \<Rightarrow> usb \<Rightarrow> usb" where
  "set_mem16 p w s = set_mem (p + 1) (ucast (drop_bit 8 w)) (set_mem p (ucast w) s)"

definition std_none :: "usb \<Rightarrow> (usb_event \<times> usb) option" where
  "std_none s = None"

definition send_status :: "usb_hw \<Rightarrow> u16 \<Rightarrow> usb \<Rightarrow> (usb_event \<times> usb) option" where
  "send_status hw status_info s =
     Some (usb_lld_ctrl_send hw (status_info_p s) 2 (set_mem16 (status_info_p s) status_info s))"

definition std_get_status :: "usb_hw \<Rightarrow> usb \<Rightarrow> (usb_event \<times> usb) option" where
  "std_get_status hw s =
     (let arg = dev_req (dev s); status_info = 0 :: u16
      in if req_value arg \<noteq> 0 \<or> req_len arg \<noteq> 2 \<or> drop_bit 8 (req_index arg) \<noteq> 0 \<or>
           USB_SETUP_SET (req_type arg) then None
         else (case recipient (req_type arg) of
           DEVICE_RECIPIENT \<Rightarrow>
             (if req_index arg = 0 then
                (let feature = feature (dev s);
                     status_info = (if feature AND push_bit 5 1 \<noteq> 0 then status_info OR 2
                                    else status_info AND NOT 2);
                     status_info = (if feature AND push_bit 6 1 \<noteq> 0 then status_info OR 1
                                    else status_info AND NOT 1)
                 in send_status hw status_info s)
              else None)
         | INTERFACE_RECIPIENT \<Rightarrow>
             (if configuration (dev s) = 0 then None else Some (USB_EVENT_GET_STATUS_INTERFACE, s))
         | ENDPOINT_RECIPIENT \<Rightarrow>
             (let endpoint = ucast (req_index arg AND 0x0f) :: u8
              in if req_index arg AND 0x70 \<noteq> 0 \<or> endpoint = ENDP0 then None
                 else if req_index arg AND 0x80 \<noteq> 0 then
                   (let status = st103_ep_get_tx_status endpoint s
                    in if status = 0 then None
                       else send_status hw (if status = EP_TX_STALL then status_info OR 1 else status_info) s)
                 else
                   (let status = st103_ep_get_rx_status endpoint s
                    in if status = 0 then None
                       else send_status hw (if status = EP_RX_STALL then status_info OR 1 else status_info) s))
         | OTHER_RECIPIENT \<Rightarrow> None))"

definition set_feature_bits :: "u8 \<Rightarrow> usb \<Rightarrow> usb" where
  "set_feature_bits f s = s\<lparr>dev := (dev s)\<lparr>feature := f\<rparr>\<rparr>"

definition std_clear_feature :: "usb_hw \<Rightarrow> usb \<Rightarrow> (usb_event \<times> usb) option" where
  "std_clear_feature hw s =
     (let arg = dev_req (dev s)
      in if USB_SETUP_GET (req_type arg) then None
         else (case recipient (req_type arg) of
           DEVICE_RECIPIENT \<Rightarrow>
             (if req_len arg \<noteq> 0 \<or> req_index arg \<noteq> 0 then None
              else if req_value arg = FEATURE_DEVICE_REMOTE_WAKEUP then
                Some (USB_EVENT_CLEAR_FEATURE_DEVICE,
                  set_feature_bits (feature (dev s) AND NOT (push_bit 5 1)) s)
              else None)
         | ENDPOINT_RECIPIENT \<Rightarrow>
             (let endpoint = ucast (req_index arg AND 0x0f) :: u8
              in if configuration (dev s) = 0 then None
                 else if req_len arg \<noteq> 0 \<or> drop_bit 8 (req_index arg) \<noteq> 0 \<or>
                   req_value arg \<noteq> FEATURE_ENDPOINT_HALT \<or> endpoint = ENDP0 then None
                 else
                   (let status = (if req_index arg AND 0x80 \<noteq> 0 then st103_ep_get_tx_status endpoint s
                                  else st103_ep_get_rx_status endpoint s)
                    in if status = 0 then None
                       else Some (USB_EVENT_CLEAR_FEATURE_ENDPOINT,
                         if req_index arg AND 0x80 \<noteq> 0 then st103_ep_clear_dtog_tx hw endpoint s
                         else st103_ep_clear_dtog_rx hw endpoint s)))
         | _ \<Rightarrow> None))"

definition std_set_feature :: "usb_hw \<Rightarrow> usb \<Rightarrow> (usb_event \<times> usb) option" where
  "std_set_feature hw s =
     (let arg = dev_req (dev s)
      in if USB_SETUP_GET (req_type arg) then None
         else (case recipient (req_type arg) of
           DEVICE_RECIPIENT \<Rightarrow>
             (if req_len arg \<noteq> 0 \<or> req_index arg \<noteq> 0 then None
              else if req_value arg = FEATURE_DEVICE_REMOTE_WAKEUP then
                Some (USB_EVENT_SET_FEATURE_DEVICE,
                  set_feature_bits (feature (dev s) OR push_bit 5 1) s)
              else None)
         | ENDPOINT_RECIPIENT \<Rightarrow>
             (let endpoint = ucast (req_index arg AND 0x0f) :: u8
              in if configuration (dev s) = 0 then None
                 else if req_len arg \<noteq> 0 \<or> drop_bit 8 (req_index arg) \<noteq> 0 \<or>
                   req_value arg \<noteq> FEATURE_ENDPOINT_HALT \<or> endpoint = ENDP0 then None
                 else
                   (let status = (if req_index arg AND 0x80 \<noteq> 0 then st103_ep_get_tx_status endpoint s
                                  else st103_ep_get_rx_status endpoint s)
                    in if status = 0 then None
                       else Some (USB_EVENT_SET_FEATURE_ENDPOINT,
                         if req_index arg AND 0x80 \<noteq> 0 then st103_ep_set_tx_status hw endpoint EP_TX_STALL s
                         else st103_ep_set_rx_status hw endpoint EP_RX_STALL s)))
         | _ \<Rightarrow> None))"

definition std_set_address :: "usb_hw \<Rightarrow> usb \<Rightarrow> (usb_event \<times> usb) option" where
  "std_set_address hw s =
     (let arg = dev_req (dev s)
      in if USB_SETUP_GET (req_type arg) then None
         else if recipient (req_type arg) = DEVICE_RECIPIENT \<and> req_len arg = 0 \<and> req_value arg \<le> 127 \<and>
           req_index arg = 0 \<and> configuration (dev s) = 0 then Some (usb_lld_ctrl_ack hw s)
         else None)"

definition std_get_descriptor :: "usb \<Rightarrow> (usb_event \<times> usb) option" where
  "std_get_descriptor s =
     (if USB_SETUP_SET (req_type (dev_req (dev s))) then None else Some (USB_EVENT_GET_DESCRIPTOR, s))"

definition std_get_configuration :: "usb_hw \<Rightarrow> usb \<Rightarrow> (usb_event \<times> usb) option" where
  "std_get_configuration hw s =
     (let arg = dev_req (dev s)
      in if USB_SETUP_SET (req_type arg) then None
         else if req_value arg \<noteq> 0 \<or> req_index arg \<noteq> 0 \<or> req_len arg \<noteq> 1 then None
         else if recipient (req_type arg) = DEVICE_RECIPIENT then
           Some (usb_lld_ctrl_send hw (configuration_p s) 1
             (set_mem (configuration_p s) (configuration (dev s)) s))
         else None)"

definition std_set_configuration :: "usb \<Rightarrow> (usb_event \<times> usb) option" where
  "std_set_configuration s =
     (let arg = dev_req (dev s)
      in if USB_SETUP_GET (req_type arg) then None
         else if req_index arg \<noteq> 0 \<or> req_len arg \<noteq> 0 then None
         else if recipient (req_type arg) = DEVICE_RECIPIENT then Some (USB_EVENT_SET_CONFIGURATION, s)
         else None)"

definition std_get_interface :: "usb \<Rightarrow> (usb_event \<times> usb) option" where
  "std_get_interface s =
     (let arg = dev_req (dev s)
      in if USB_SETUP_SET (req_type arg) then None
         else if req_value arg \<noteq> 0 \<or> drop_bit 8 (req_index arg) \<noteq> 0 \<or> req_len arg \<noteq> 1 then None
         else if configuration (dev s) = 0 then None
         else if recipient (req_type arg) = INTERFACE_RECIPIENT then Some (USB_EVENT_GET_INTERFACE, s)
         else None)"

definition std_set_interface :: "usb \<Rightarrow> (usb_event \<times> usb) option" where
  "std_set_interface s =
     (let arg = dev_req (dev s)
      in if USB_SETUP_GET (req_type arg) \<or> recipient (req_type arg) \<noteq> INTERFACE_RECIPIENT \<or>
           req_len arg \<noteq> 0 \<or> drop_bit 8 (req_index arg) \<noteq> 0 \<or> drop_bit 8 (req_value arg) \<noteq> 0 \<or>
           configuration (dev s) = 0 then None
         else Some (USB_EVENT_SET_INTERFACE, s))"

definition std_request :: "usb_hw \<Rightarrow> u8 \<Rightarrow> usb \<Rightarrow> (usb_event \<times> usb) option" where
  "std_request hw req_no =
     (if req_no = 0 then std_get_status hw
      else if req_no = 1 then std_clear_feature hw
      else if req_no = 3 then std_set_feature hw
      else if req_no = 5 then std_set_address hw
      else if req_no = 6 then std_get_descriptor
      else if req_no = 8 then std_get_configuration hw
      else if req_no = 9 then std_set_configuration
      else if req_no = 10 then std_get_interface
      else if req_no = 11 then std_set_interface
      else std_none)"

section \<open>Endpoint 0\<close>

text \<open>The eight bytes of a SETUP packet, four halfwords of the packet memory.\<close>

definition read_setup :: "usb \<Rightarrow> device_req" where
  "read_setup s =
     (let pw = PMA_ADDR + ucast (st103_get_rx_addr ENDP0 s) * 2; w = pma s pw
      in \<lparr>req_type = ucast (w AND 0xff), req_request = ucast (drop_bit 8 w),
          req_value = pma s (pw + 4), req_index = pma s (pw + 8), req_len = pma s (pw + 12)\<rparr>)"

definition handle_setup0 :: "usb_hw \<Rightarrow> usb \<Rightarrow> usb_event \<times> usb" where
  "handle_setup0 hw s =
     (let s = s\<lparr>dev := (dev s)\<lparr>dev_req := read_setup s\<rparr>\<rparr>;
          s = set_ctrl_data \<lparr>cd_addr = 0, cd_len = 0, cd_require_zlp = 0\<rparr> s;
          req = dev_req (dev s)
      in if req_type req AND REQUEST_TYPE = STANDARD_REQUEST then
           (case std_request hw (req_request req) s of
              None \<Rightarrow> (USB_EVENT_OK, usb_lld_ctrl_error hw s)
            | Some r \<Rightarrow> r)
         else (USB_EVENT_CTRL_REQUEST, s))"

definition handle_in0 :: "usb_hw \<Rightarrow> usb \<Rightarrow> usb_event \<times> usb" where
  "handle_in0 hw s =
     (let st = dev_state (dev s); req = dev_req (dev s)
      in if st = IN_DATA \<or> st = LAST_IN_DATA then (USB_EVENT_OK, handle_datastage_in hw s)
         else if st = WAIT_STATUS_IN then
           (let s = set_dev_state WAIT_SETUP s
            in if req_request req = SET_ADDRESS \<and>
                 req_type req AND (REQUEST_TYPE OR RECIPIENT) = STANDARD_REQUEST OR 0
               then (USB_EVENT_DEVICE_ADDRESSED, st103_set_daddr (req_value req) s)
               else (USB_EVENT_CTRL_WRITE_FINISH, s))
         else (USB_EVENT_OK,
           st103_ep_set_rxtx_status hw ENDP0 EP_RX_STALL EP_TX_STALL (set_dev_state STALLED s)))"

definition handle_out0 :: "usb_hw \<Rightarrow> usb \<Rightarrow> usb" where
  "handle_out0 hw s =
     (let st = dev_state (dev s)
      in if st = OUT_DATA then handle_datastage_out hw s
         else if st = WAIT_STATUS_OUT then set_dev_state WAIT_SETUP s
         else st103_ep_set_rxtx_status hw ENDP0 EP_RX_STALL EP_TX_STALL (set_dev_state STALLED s))"

section \<open>Events\<close>

definition usb_handle_transfer :: "usb_hw \<Rightarrow> u16 \<Rightarrow> usb \<Rightarrow> u32 \<times> usb" where
  "usb_handle_transfer hw istr_value s =
     (let ep_num = ucast (istr_value AND ISTR_EP_ID) :: u8;
          ep_value = st103_get_epreg ep_num s
      in if ep_num = 0 then
           (if ep_value AND EP_CTR_TX \<noteq> 0 then
              (let (ev, s) = handle_in0 hw (st103_ep_clear_ctr_tx hw ep_num s) in (USB_MAKE_EV ev, s))
            else if ep_value AND EP_CTR_RX \<noteq> 0 then
              (let s = st103_ep_clear_ctr_rx hw ep_num s
               in if ep_value AND EP_SETUP \<noteq> 0 then
                    (let (ev, s) = handle_setup0 hw s in (USB_MAKE_EV ev, s))
                  else (event_no USB_EVENT_OK, handle_out0 hw s))
            else (event_no USB_EVENT_OK, s))
         else
           (if ep_value AND EP_CTR_RX \<noteq> 0 then
              (USB_MAKE_TXRX ep_num False (st103_get_rx_count ep_num s), st103_ep_clear_ctr_rx hw ep_num s)
            else if ep_value AND EP_CTR_TX \<noteq> 0 then
              (USB_MAKE_TXRX ep_num True (st103_get_tx_count ep_num s), st103_ep_clear_ctr_tx hw ep_num s)
            else (event_no USB_EVENT_OK, s)))"

definition usb_lld_event_handler :: "usb_hw \<Rightarrow> usb \<Rightarrow> u32 \<times> usb" where
  "usb_lld_event_handler hw s =
     (let istr_value = ISTR s
      in if istr_value AND ISTR_RESET \<noteq> 0 then
           (USB_MAKE_EV USB_EVENT_DEVICE_RESET, st103_set_istr hw (NOT ISTR_RESET) s)
         else if istr_value AND ISTR_WKUP \<noteq> 0 then
           (USB_MAKE_EV USB_EVENT_DEVICE_WAKEUP,
            st103_set_istr hw (NOT ISTR_WKUP) (s\<lparr>CNTR := CNTR s AND NOT CNTR_FSUSP\<rparr>))
         else if istr_value AND ISTR_SUSP \<noteq> 0 then
           (let s = s\<lparr>CNTR := CNTR s OR CNTR_FSUSP\<rparr>;
                s = st103_set_istr hw (NOT ISTR_SUSP) s
            in (USB_MAKE_EV USB_EVENT_DEVICE_SUSPEND, s\<lparr>CNTR := CNTR s OR CNTR_LPMODE\<rparr>))
         else
           (let s = (if istr_value AND ISTR_OVR \<noteq> 0 then st103_set_istr hw (NOT ISTR_OVR) s else s);
                s = (if istr_value AND ISTR_ERR \<noteq> 0 then st103_set_istr hw (NOT ISTR_ERR) s else s)
            in if istr_value AND ISTR_CTR \<noteq> 0 then usb_handle_transfer hw istr_value s
               else (event_no USB_EVENT_OK, s)))"

section \<open>The driver's interface\<close>

text \<open>\<open>usb_lld_sys_init\<close> and \<open>usb_lld_sys_shutdown\<close> switch clocks and pins, which are not in the state.\<close>

definition usb_lld_init :: "usb_hw \<Rightarrow> u8 \<Rightarrow> usb \<Rightarrow> usb" where
  "usb_lld_init hw f s =
     (let s = s\<lparr>dev := (dev s)\<lparr>configuration := 0, feature := f, dev_state := WAIT_SETUP\<rparr>\<rparr>;
          s = st103_set_cntr CNTR_FRES s;
          s = st103_set_cntr 0 s;
          s = st103_set_istr hw 0 s;
          s = st103_set_btable s
      in st103_set_cntr CNTR_INIT s)"

definition usb_lld_prepare_shutdown :: "usb_hw \<Rightarrow> usb \<Rightarrow> usb" where
  "usb_lld_prepare_shutdown hw s = st103_set_cntr 0 (st103_set_istr hw 0 s)"

definition usb_lld_shutdown :: "usb \<Rightarrow> usb" where
  "usb_lld_shutdown s = st103_set_cntr CNTR_PDWN s"

definition usb_lld_set_configuration :: "u8 \<Rightarrow> usb \<Rightarrow> usb" where
  "usb_lld_set_configuration config s = s\<lparr>dev := (dev s)\<lparr>configuration := config\<rparr>\<rparr>"

definition usb_lld_current_configuration :: "usb \<Rightarrow> u8" where
  "usb_lld_current_configuration s = configuration (dev s)"

definition usb_lld_reset :: "u8 \<Rightarrow> usb \<Rightarrow> usb" where
  "usb_lld_reset f s =
     (let s = usb_lld_set_configuration 0 s;
          s = set_feature_bits f s
      in st103_set_daddr 0 s)"

definition usb_lld_txcpy :: "addr \<Rightarrow> u8 \<Rightarrow> u16 \<Rightarrow> u32 \<Rightarrow> usb \<Rightarrow> usb" where
  "usb_lld_txcpy src ep_num offset len s =
     usb_lld_to_pmabuf src (st103_get_tx_addr ep_num s + offset) len s"

definition usb_lld_write :: "usb_hw \<Rightarrow> u8 \<Rightarrow> addr \<Rightarrow> u32 \<Rightarrow> usb \<Rightarrow> usb" where
  "usb_lld_write hw ep_num buf len s =
     (let s = usb_lld_to_pmabuf buf (st103_get_tx_addr ep_num s) len s;
          s = st103_set_tx_count ep_num (ucast len) s
      in st103_ep_set_tx_status hw ep_num EP_TX_VALID s)"

definition usb_lld_rxcpy :: "addr \<Rightarrow> u8 \<Rightarrow> u16 \<Rightarrow> u32 \<Rightarrow> usb \<Rightarrow> usb" where
  "usb_lld_rxcpy dst ep_num offset len s =
     usb_lld_from_pmabuf dst (st103_get_rx_addr ep_num s + offset) len s"

definition usb_lld_tx_enable :: "usb_hw \<Rightarrow> u8 \<Rightarrow> u32 \<Rightarrow> usb \<Rightarrow> usb" where
  "usb_lld_tx_enable hw ep_num len s =
     st103_ep_set_tx_status hw ep_num EP_TX_VALID (st103_set_tx_count ep_num (ucast len) s)"

definition usb_lld_stall_tx :: "usb_hw \<Rightarrow> u8 \<Rightarrow> usb \<Rightarrow> usb" where
  "usb_lld_stall_tx hw ep_num s = st103_ep_set_tx_status hw ep_num EP_TX_STALL s"

definition usb_lld_stall_rx :: "usb_hw \<Rightarrow> u8 \<Rightarrow> usb \<Rightarrow> usb" where
  "usb_lld_stall_rx hw ep_num s = st103_ep_set_rx_status hw ep_num EP_RX_STALL s"

definition usb_lld_rx_enable :: "usb_hw \<Rightarrow> u8 \<Rightarrow> usb \<Rightarrow> usb" where
  "usb_lld_rx_enable hw ep_num s = st103_ep_set_rx_status hw ep_num EP_RX_VALID s"

text \<open>\<open>keep_ctr\<close> is the build option \<open>USB_KEEP_CORRECT_TRANSFER_FLAGS\<close>.\<close>

definition usb_lld_setup_endpoint ::
  "usb_hw \<Rightarrow> bool \<Rightarrow> u8 \<Rightarrow> u16 \<Rightarrow> u16 \<Rightarrow> u16 \<Rightarrow> u16 \<Rightarrow> u16 \<Rightarrow> usb \<Rightarrow> usb" where
  "usb_lld_setup_endpoint hw keep_ctr ep_num ep_type ep_kind ep_rx_addr ep_tx_addr ep_rx_buf_size s =
     (let epreg_value = st103_get_epreg ep_num s;
          ep_rxtx_status = 0;
          epreg_value = epreg_value AND (EPRX_STAT OR EP_SETUP OR EPTX_STAT OR EP_DTOG_RX OR EP_DTOG_TX);
          epreg_value = (if keep_ctr then epreg_value OR (EP_CTR_RX OR EP_CTR_TX) else epreg_value);
          epreg_value = epreg_value OR ep_type;
          epreg_value = epreg_value OR ep_kind;
          epreg_value = epreg_value OR ucast ep_num;
          (ep_rxtx_status, s) =
            (if ep_rx_addr \<noteq> 0
             then (ep_rxtx_status OR EP_RX_NAK,
               st103_set_rx_buf_size ep_num ep_rx_buf_size (st103_set_rx_addr ep_num ep_rx_addr s))
             else (ep_rxtx_status, s));
          (ep_rxtx_status, s) =
            (if ep_tx_addr \<noteq> 0 then (ep_rxtx_status OR EP_TX_NAK, st103_set_tx_addr ep_num ep_tx_addr s)
             else (ep_rxtx_status, s));
          epreg_value = epreg_value XOR (EPRX_DTOG1 AND ep_rxtx_status);
          epreg_value = epreg_value XOR (EPRX_DTOG2 AND ep_rxtx_status);
          epreg_value = epreg_value XOR (EPTX_DTOG1 AND ep_rxtx_status);
          epreg_value = epreg_value XOR (EPTX_DTOG2 AND ep_rxtx_status)
      in st103_set_epreg hw ep_num epreg_value s)"

section \<open>Endpoint registers\<close>

text \<open>
  What the reference manual says of a write: the two CTR flags are cleared by a zero, SETUP is
  read-only, type, kind and address are stored, and a one toggles a bit of DTOG and STAT.
\<close>

definition ep_write_law :: "usb_hw \<Rightarrow> bool" where
  "ep_write_law hw \<longleftrightarrow> (\<forall>old v. ep_write hw old v =
     (old AND v AND (EP_CTR_RX OR EP_CTR_TX)) OR (old AND EP_SETUP) OR
     (v AND (EP_T_FIELD OR EP_KIND OR EPADDR_FIELD)) OR
     ((old XOR v) AND (EP_DTOG_RX OR EPRX_STAT OR EP_DTOG_TX OR EPTX_STAT)))"

lemma less_16: "n < (16 :: nat) \<longleftrightarrow> n \<in> {0, 1, 2, 3, 4, 5, 6, 7, 8, 9, 10, 11, 12, 13, 14, 15}"
  by (simp, presburger)

lemma ep_field_bits:
  "n < 16 \<Longrightarrow> bit EP_CTR_RX n \<longleftrightarrow> n = 15"
  "n < 16 \<Longrightarrow> bit EP_DTOG_RX n \<longleftrightarrow> n = 14"
  "n < 16 \<Longrightarrow> bit EPRX_STAT n \<longleftrightarrow> n = 12 \<or> n = 13"
  "n < 16 \<Longrightarrow> bit EP_SETUP n \<longleftrightarrow> n = 11"
  "n < 16 \<Longrightarrow> bit EP_T_FIELD n \<longleftrightarrow> n = 9 \<or> n = 10"
  "n < 16 \<Longrightarrow> bit EP_KIND n \<longleftrightarrow> n = 8"
  "n < 16 \<Longrightarrow> bit EP_CTR_TX n \<longleftrightarrow> n = 7"
  "n < 16 \<Longrightarrow> bit EP_DTOG_TX n \<longleftrightarrow> n = 6"
  "n < 16 \<Longrightarrow> bit EPTX_STAT n \<longleftrightarrow> n = 4 \<or> n = 5"
  "n < 16 \<Longrightarrow> bit EPADDR_FIELD n \<longleftrightarrow> n < 4"
  "n < 16 \<Longrightarrow> bit EPRX_DTOG1 n \<longleftrightarrow> n = 12"
  "n < 16 \<Longrightarrow> bit EPRX_DTOG2 n \<longleftrightarrow> n = 13"
  "n < 16 \<Longrightarrow> bit EPTX_DTOG1 n \<longleftrightarrow> n = 4"
  "n < 16 \<Longrightarrow> bit EPTX_DTOG2 n \<longleftrightarrow> n = 5"
  unfolding ep_bits less_16 by (elim insertE emptyE; simp)+

lemma word16_eqI: "(\<And>n. n < 16 \<Longrightarrow> bit x n = bit y n) \<Longrightarrow> x = (y :: u16)"
  by (rule bit_word_eqI) simp

lemmas word16_bits = bit_and_iff bit_or_iff bit_xor_iff bit_not_iff ep_field_bits EPREG_MASK_def

lemma ep_set_rxtx_status:
  assumes "ep_write_law hw"
  shows "st103_ep_set_rxtx_status hw ep rx tx s = s\<lparr>EPREG := (EPREG s)(ep :=
    (EPREG s ep AND NOT (EPRX_STAT OR EPTX_STAT)) OR (rx AND EPRX_STAT) OR (tx AND EPTX_STAT))\<rparr>"
proof -
  let ?o = "EPREG s ep"
  let ?v = "(((((?o AND (EPREG_MASK OR EPRX_STAT OR EPTX_STAT)) XOR (EPRX_DTOG1 AND rx)) XOR (EPRX_DTOG2 AND rx))
    XOR (EPTX_DTOG1 AND tx)) XOR (EPTX_DTOG2 AND tx)) OR (EP_CTR_RX OR EP_CTR_TX)"
  have "ep_write hw ?o ?v =
      (?o AND NOT (EPRX_STAT OR EPTX_STAT)) OR (rx AND EPRX_STAT) OR (tx AND EPTX_STAT)"
    unfolding assms [unfolded ep_write_law_def, rule_format]
    by (rule word16_eqI, simp only: word16_bits, unfold less_16) (elim insertE emptyE; auto)
  then show ?thesis
    by (simp add: st103_ep_set_rxtx_status_def st103_set_epreg_def st103_get_epreg_def Let_def)
qed

lemma ep_set_rx_status:
  assumes "ep_write_law hw"
  shows "st103_ep_set_rx_status hw ep rx s = s\<lparr>EPREG := (EPREG s)(ep :=
    (EPREG s ep AND NOT EPRX_STAT) OR (rx AND EPRX_STAT))\<rparr>"
proof -
  let ?o = "EPREG s ep"
  let ?v = "(((?o AND (EPREG_MASK OR EPRX_STAT)) XOR (EPRX_DTOG1 AND rx)) XOR (EPRX_DTOG2 AND rx))
    OR (EP_CTR_RX OR EP_CTR_TX)"
  have "ep_write hw ?o ?v = (?o AND NOT EPRX_STAT) OR (rx AND EPRX_STAT)"
    unfolding assms [unfolded ep_write_law_def, rule_format]
    by (rule word16_eqI, simp only: word16_bits, unfold less_16) (elim insertE emptyE; auto)
  then show ?thesis
    by (simp add: st103_ep_set_rx_status_def st103_set_epreg_def st103_get_epreg_def Let_def)
qed

lemma ep_set_tx_status:
  assumes "ep_write_law hw"
  shows "st103_ep_set_tx_status hw ep tx s = s\<lparr>EPREG := (EPREG s)(ep :=
    (EPREG s ep AND NOT EPTX_STAT) OR (tx AND EPTX_STAT))\<rparr>"
proof -
  let ?o = "EPREG s ep"
  let ?v = "(((?o AND (EPREG_MASK OR EPTX_STAT)) XOR (EPTX_DTOG1 AND tx)) XOR (EPTX_DTOG2 AND tx))
    OR (EP_CTR_RX OR EP_CTR_TX)"
  have "ep_write hw ?o ?v = (?o AND NOT EPTX_STAT) OR (tx AND EPTX_STAT)"
    unfolding assms [unfolded ep_write_law_def, rule_format]
    by (rule word16_eqI, simp only: word16_bits, unfold less_16) (elim insertE emptyE; auto)
  then show ?thesis
    by (simp add: st103_ep_set_tx_status_def st103_set_epreg_def st103_get_epreg_def Let_def)
qed

lemma ep_clear_ctr:
  assumes "ep_write_law hw"
  shows "st103_ep_clear_ctr_rx hw ep s = s\<lparr>EPREG := (EPREG s)(ep := EPREG s ep AND NOT EP_CTR_RX)\<rparr>"
    and "st103_ep_clear_ctr_tx hw ep s = s\<lparr>EPREG := (EPREG s)(ep := EPREG s ep AND NOT EP_CTR_TX)\<rparr>"
proof -
  have "ep_write hw o' (o' AND NOT EP_CTR_RX AND EPREG_MASK) = o' AND NOT EP_CTR_RX"
    "ep_write hw o' (o' AND NOT EP_CTR_TX AND EPREG_MASK) = o' AND NOT EP_CTR_TX" for o'
    unfolding assms [unfolded ep_write_law_def, rule_format]
    by (rule word16_eqI, simp only: word16_bits, unfold less_16, elim insertE emptyE; auto)+
  then show "st103_ep_clear_ctr_rx hw ep s = s\<lparr>EPREG := (EPREG s)(ep := EPREG s ep AND NOT EP_CTR_RX)\<rparr>"
    "st103_ep_clear_ctr_tx hw ep s = s\<lparr>EPREG := (EPREG s)(ep := EPREG s ep AND NOT EP_CTR_TX)\<rparr>"
    by (simp_all add: st103_ep_clear_ctr_rx_def st103_ep_clear_ctr_tx_def st103_set_epreg_def
        st103_get_epreg_def)
qed

end
