(* ===== verification/Usb_Memory.thy ===== *)
theory Usb_Memory
  imports Usb_Lld
begin

text \<open>
  The copies between the processor's memory and the packet memory of the USB controller
  (\<open>usb_lld_to_pmabuf\<close> and \<open>usb_lld_from_pmabuf\<close> of \<open>mcu/usb-stm32f103.c\<close>), stated byte by byte,
  for every alignment and length.
\<close>

unbundle bit_operations_syntax

section \<open>Packet memory, byte by byte\<close>

text \<open>
  The packet memory holds two bytes in each halfword, and the processor sees the halfwords four
  bytes apart. \<open>pma_byte\<close> is the byte the controller sees at an address.
\<close>

definition pma_p :: "nat \<Rightarrow> u32" where
  "pma_p a = PMA_ADDR + of_nat (4 * (a div 2))"

definition pma_byte :: "(u32 \<Rightarrow> u16) \<Rightarrow> nat \<Rightarrow> u8" where
  "pma_byte f a = (if even a then ucast (f (pma_p a)) else ucast (drop_bit 8 (f (pma_p a))))"

lemma pma_p_eq: "a < 2 ^ 17 \<Longrightarrow> b < 2 ^ 17 \<Longrightarrow> pma_p a = pma_p b \<longleftrightarrow> a div 2 = b div 2"
proof -
  assume "a < 2 ^ 17" "b < 2 ^ 17"
  then have "(of_nat (4 * (a div 2)) :: u32) = of_nat (4 * (b div 2)) \<longleftrightarrow> 4 * (a div 2) = 4 * (b div 2)"
    unfolding word_of_nat_eq_iff by (simp add: take_bit_nat_eq_self)
  then show ?thesis unfolding pma_p_def by simp
qed

lemma pma_p_next: "even a \<Longrightarrow> pma_p (a + 2) = pma_p a + 4"
  by (simp add: pma_p_def algebra_simps)

lemma pma_p_half: "even a \<Longrightarrow> pma_p (a + 1) = pma_p a"
  by (simp add: pma_p_def)

lemma pma_byte_set:
  assumes "even a" "a < 2 ^ 17" "b < 2 ^ 17"
  shows "pma_byte (f(pma_p a := w)) b =
    (if b = a then ucast w else if b = a + 1 then ucast (drop_bit 8 w) else pma_byte f b)"
proof -
  have "pma_p b = pma_p a \<longleftrightarrow> b = a \<or> b = a + 1"
    using assms pma_p_eq [of b a] by presburger
  moreover have "b = a \<Longrightarrow> even b" "b = a + 1 \<Longrightarrow> odd b" using assms by auto
  ultimately show ?thesis by (auto simp: pma_byte_def)
qed

lemma to_pma_loop_frame: "\<exists>f. to_pma_loop src p n s = s\<lparr>pma := f\<rparr>"
proof (induction src p n s rule: to_pma_loop.induct)
  case (1 src p n s)
  have id: "s = s\<lparr>pma := pma s\<rparr>" by simp
  show ?case
  proof (cases "2 \<le> n")
    case True
    from 1 [OF this refl refl] show ?thesis
      by (subst to_pma_loop.simps) (auto simp: True Let_def set_pma_def)
  next
    case False
    show ?thesis
      using False by (subst to_pma_loop.simps) (auto simp: set_pma_def intro: exI [of _ "pma s"])
  qed
qed

lemma to_pma_loop_bytes:
  "even a \<Longrightarrow> a + unat n \<le> 2 ^ 16 \<Longrightarrow> b < 2 ^ 16 \<Longrightarrow>
   pma_byte (pma (to_pma_loop src (pma_p a) n s)) b =
     (if a \<le> b \<and> b < a + unat n then mem s (src + of_nat (b - a))
      else if odd (unat n) \<and> b = a + unat n then 0 else pma_byte (pma s) b)"
proof (induction "unat n" arbitrary: src n s a rule: less_induct)
  case less
  consider "2 \<le> n" | "unat n = 1" | "n = 0"
    using less_2_cases [of "unat n"] by (auto simp: word_le_nat_alt unat_eq_zero) linarith
  then show ?case
  proof cases
    case 1
    define w :: u16 where "w = ucast (mem s src) OR push_bit 8 (ucast (mem s (src + 1)))"
    have w: "ucast w = mem s src" "ucast (drop_bit 8 w) = mem s (src + 1)"
      unfolding w_def by (rule low_high)+
    have n2: "unat (n - 2) = unat n - 2" "2 \<le> unat n"
      using less_sub_2 [OF 1] 1 by (auto simp: word_le_nat_alt)
    have step: "to_pma_loop src (pma_p a) n s =
        to_pma_loop (src + 2) (pma_p (a + 2)) (n - 2) (set_pma (pma_p a) w s)"
      using pma_p_next [OF less.prems(1)] by (subst to_pma_loop.simps) (simp add: 1 Let_def w_def)
    have "b \<ge> a + 2 \<Longrightarrow> src + 2 + of_nat (b - (a + 2)) = src + of_nat (b - a)"
      using of_nat_diff [of 2 "b - a", where 'a = "32 word"] by simp
    moreover have "b = a \<or> b = a + 1 \<or> b < a \<or> b \<ge> a + 2" by auto
    ultimately show ?thesis
      unfolding step using less.prems n2
      by (subst less.hyps) (auto simp: set_pma_def pma_byte_set w)
  next
    case 2
    then have "\<not> 2 \<le> n" "0 < n" by (auto simp: word_le_nat_alt word_less_nat_alt)
    then have step: "to_pma_loop src (pma_p a) n s = set_pma (pma_p a) (ucast (mem s src)) s"
      by (subst to_pma_loop.simps) simp
    show ?thesis
      unfolding step using less.prems 2 by (auto simp: set_pma_def pma_byte_set low_high)
  next
    case 3
    then show ?thesis by (subst to_pma_loop.simps) auto
  qed
qed

lemma from_pma_loop_frame: "\<exists>f. from_pma_loop d p n s = s\<lparr>mem := f\<rparr>"
proof (induction d p n s rule: from_pma_loop.induct)
  case (1 d p n s)
  show ?case
  proof (cases "2 \<le> n")
    case True
    from 1 [OF this refl refl refl] show ?thesis
      by (subst from_pma_loop.simps) (auto simp: True Let_def set_mem_def)
  next
    case False
    then show ?thesis
      by (subst from_pma_loop.simps) (auto simp: set_mem_def intro: exI [of _ "mem s"])
  qed
qed

lemma from_pma_loop_bytes:
  "even a \<Longrightarrow> mem (from_pma_loop d (pma_p a) n s) x =
     (if unat (x - d) < unat n then pma_byte (pma s) (a + unat (x - d)) else mem s x)"
proof (induction "unat n" arbitrary: d n s a rule: less_induct)
  case less
  consider "2 \<le> n" | "unat n = 1" | "n = 0"
    using less_2_cases [of "unat n"] by (auto simp: word_le_nat_alt unat_eq_zero) linarith
  then show ?case
  proof cases
    case 1
    define t where
      "t = set_mem (d + 1) (ucast (drop_bit 8 (pma s (pma_p a)))) (set_mem d (ucast (pma s (pma_p a))) s)"
    have n2: "unat (n - 2) = unat n - 2" "2 \<le> unat n" "unat n < 2 ^ 32"
      using less_sub_2 [OF 1] 1 unsigned_less [of n, where 'a = nat] by (auto simp: word_le_nat_alt)
    have step: "from_pma_loop d (pma_p a) n s = from_pma_loop (d + 2) (pma_p (a + 2)) (n - 2) t"
      using pma_p_next [OF less.prems(1)]
      by (subst from_pma_loop.simps) (simp add: 1 Let_def t_def low_high)
    have "x - (d + 2) = x - d - 2" by simp
    then have far: "unat (x - (d + 2)) = (if 2 \<le> unat (x - d) then unat (x - d) - 2 else unat (x - d) + 4294967294)"
      by (simp only: unat_minus_2)
    have tp: "pma t = pma s" by (simp add: t_def set_mem_def)
    show ?thesis
    proof (cases "2 \<le> unat (x - d)")
      case True
      then have "x \<noteq> d" "x \<noteq> d + 1" by auto
      then have "mem t x = mem s x" by (simp add: t_def set_mem_def)
      moreover have "Suc (Suc (a + unat (x - d) - 2)) = a + unat (x - d)" using True by simp
      ultimately show ?thesis
        unfolding step using less.prems n2 True
        by (subst less.hyps) (auto simp: far tp)
    next
      case False
      then have "x - d = 0 \<or> x - d = 1"
        using less_2_cases [of "unat (x - d)"] word_unat_eq_iff [of "x - d" 1] by (auto simp: unat_eq_zero)
      then have "x = d \<and> unat (x - d) = 0 \<or> x = d + 1 \<and> unat (x - d) = 1"
        by (auto simp: diff_eq_eq add.commute)
      then have "mem t x = pma_byte (pma s) (a + unat (x - d))"
        using less.prems pma_p_half [OF less.prems(1)] by (auto simp: t_def set_mem_def pma_byte_def)
      then show ?thesis
        unfolding step using less.prems n2 False
        by (subst less.hyps) (auto simp: far tp)
    qed
  next
    case 2
    then have "\<not> 2 \<le> n" "0 < n" by (auto simp: word_le_nat_alt word_less_nat_alt)
    then have step: "from_pma_loop d (pma_p a) n s = set_mem d (ucast (pma s (pma_p a))) s"
      by (subst from_pma_loop.simps) (simp add: low_high)
    show ?thesis
      unfolding step using less.prems 2 by (auto simp: set_mem_def pma_byte_def unat_eq_zero)
  next
    case 3
    then show ?thesis by (subst from_pma_loop.simps) simp
  qed
qed

lemma odd_and_1: "a AND 1 \<noteq> 0 \<longleftrightarrow> odd (unat (a :: u16))"
proof -
  have "bit (unat a) 0 = bit a 0" by (simp add: bit_unsigned_iff del: bit_0)
  then show ?thesis by (simp add: and_one_eq mod_2_eq_odd bit_0)
qed

lemma pma_p_addr:
  "even (unat (a :: u16)) \<Longrightarrow> PMA_ADDR + ucast a * 2 = pma_p (unat a)"
  "odd (unat a) \<Longrightarrow> PMA_ADDR + (ucast a - 1) * 2 = pma_p (unat a - 1)"
proof -
  have u: "(ucast a :: u32) = of_nat (unat a)" by (simp add: unsigned_ucast_eq)
  show "PMA_ADDR + ucast a * 2 = pma_p (unat a)" if "even (unat a)"
  proof -
    from that obtain k where k: "unat a = 2 * k" by (elim evenE)
    show ?thesis unfolding u k pma_p_def by simp
  qed
  show "PMA_ADDR + (ucast a - 1) * 2 = pma_p (unat a - 1)" if "odd (unat a)"
  proof -
    from that obtain k where k: "unat a = 2 * k + 1" by (elim oddE)
    show ?thesis unfolding u k pma_p_def by simp
  qed
qed

lemma usb_lld_to_pmabuf_frame: "\<exists>f. usb_lld_to_pmabuf src a n s = s\<lparr>pma := f\<rparr>"
  using to_pma_loop_frame to_pma_loop_frame [of _ _ _ "set_pma _ _ s"]
  unfolding usb_lld_to_pmabuf_def
  by (auto simp: Let_def set_pma_def intro: exI [of _ "pma s"])

lemma usb_lld_to_pmabuf_bytes:
  assumes n: "unat a + unat n \<le> 2 ^ 16" and b: "b < 2 ^ 16"
  shows "pma_byte (pma (usb_lld_to_pmabuf src a n s)) b =
    (if unat a \<le> b \<and> b < unat a + unat n then mem s (src + of_nat (b - unat a))
     else if n \<noteq> 0 \<and> odd (unat a + unat n) \<and> b = unat a + unat n then 0 else pma_byte (pma s) b)"
proof (cases "n \<noteq> 0 \<and> odd (unat a)")
  case True
  define e where "e = unat a - 1"
  have e: "unat a = Suc e" "even e" using True by (auto simp: e_def)
  have n1: "unat (n - 1) = unat n - 1" "0 < unat n"
    using True by (auto simp: unat_minus_one unat_gt_0)
  define t where "t = set_pma (pma_p e) ((pma s (pma_p e) AND 0xff) OR push_bit 8 (ucast (mem s src))) s"
  have "PMA_ADDR + (ucast a - 1) * 2 + 4 = pma_p (e + 2)"
    using pma_p_addr(2) [of a] pma_p_next [of e] e True by simp
  then have step: "usb_lld_to_pmabuf src a n s = to_pma_loop (src + 1) (pma_p (e + 2)) (n - 1) t"
    using True pma_p_addr(2) [of a] e pma_p_next [OF e(2)]
    by (simp add: usb_lld_to_pmabuf_def odd_and_1 Let_def t_def)
  have t: "mem t = mem s" "pma_byte (pma t) (Suc e) = mem s src"
    "b \<noteq> Suc e \<Longrightarrow> pma_byte (pma t) b = pma_byte (pma s) b"
    using e b n unsigned_less [of a, where 'a = nat]
    by (auto simp: t_def set_pma_def pma_byte_set low_high) (auto simp: pma_byte_def)
  have "e + 2 \<le> b \<Longrightarrow> src + 1 + of_nat (b - (e + 2)) = src + of_nat (b - Suc e)"
    using of_nat_diff [of 1 "b - Suc e", where 'a = "32 word"] by simp
  moreover have "b = e + 1 \<or> b < e + 1 \<or> e + 2 \<le> b" by auto
  ultimately show ?thesis
    unfolding step using e n n1 b True
    by (subst to_pma_loop_bytes) (auto simp: t algebra_simps)
next
  case False
  then show ?thesis
    using n b to_pma_loop_bytes [of "unat a" n b src s] pma_p_addr(1) [of a]
    by (auto simp: usb_lld_to_pmabuf_def odd_and_1)
qed

lemma usb_lld_from_pmabuf_frame: "\<exists>f. usb_lld_from_pmabuf d a n s = s\<lparr>mem := f\<rparr>"
  using from_pma_loop_frame from_pma_loop_frame [of _ _ _ "set_mem _ _ s"]
  unfolding usb_lld_from_pmabuf_def
  by (auto simp: Let_def set_mem_def intro: exI [of _ "mem s"])

lemma usb_lld_from_pmabuf_bytes:
  "mem (usb_lld_from_pmabuf d a n s) x =
     (if unat (x - d) < unat n then pma_byte (pma s) (unat a + unat (x - d)) else mem s x)"
proof (cases "n \<noteq> 0 \<and> odd (unat a)")
  case True
  define e where "e = unat a - 1"
  have e: "unat a = Suc e" "even e" using True by (auto simp: e_def)
  have n1: "unat (n - 1) = unat n - 1" "0 < unat n" "unat n < 2 ^ 32"
    using True unsigned_less [of n, where 'a = nat] by (auto simp: unat_minus_one unat_gt_0)
  define t where "t = set_mem d (ucast (drop_bit 8 (pma s (pma_p e)))) s"
  have "PMA_ADDR + (ucast a - 1) * 2 + 4 = pma_p (e + 2)"
    using pma_p_addr(2) [of a] pma_p_next [of e] e True by simp
  then have step: "usb_lld_from_pmabuf d a n s = from_pma_loop (d + 1) (pma_p (e + 2)) (n - 1) t"
    using True pma_p_addr(2) [of a] e pma_p_next [OF e(2)]
    by (simp add: usb_lld_from_pmabuf_def odd_and_1 Let_def t_def)
  have tp: "pma t = pma s" by (simp add: t_def set_mem_def)
  show ?thesis
  proof (cases "x = d")
    case True
    have "unat (- (1 :: u32)) = 4294967295" by (simp add: unsigned_minus_1_eq_mask mask_eq_exp_minus_1)
    then show ?thesis
      unfolding step using e n1 True
      by (subst from_pma_loop_bytes) (auto simp: t_def set_mem_def pma_byte_def pma_p_half [of e, simplified])
  next
    case False
    have far: "unat (x - (d + 1)) = unat (x - d) - 1" "0 < unat (x - d)"
      using unat_minus_one [of "x - d"] False
      by (simp_all add: unat_gt_0 diff_diff_eq [symmetric] del: diff_diff_eq)
    moreover from this(2) obtain k where "unat (x - d) = Suc k" by (auto simp: gr0_conv_Suc)
    ultimately show ?thesis
      unfolding step using e n1 False
      by (subst from_pma_loop_bytes) (auto simp: far tp t_def set_mem_def)
  qed
next
  case False
  then show ?thesis
    using from_pma_loop_bytes [of "unat a" d n s x] pma_p_addr(1) [of a]
    by (auto simp: usb_lld_from_pmabuf_def odd_and_1)
qed

text \<open>
  C16: What usb_lld_txcpy and usb_lld_write put into the packet memory at an address is what
  usb_lld_from_pmabuf, as used by usb_lld_rxcpy, reads back, byte by byte, for every length
  and alignment; no other byte of the memory changes. The packet memory is written in halfwords: it
  holds the bytes, the byte after an odd end is cleared, and nothing else changes.
\<close>

theorem pmabuf_roundtrip:
  assumes "unat a + unat n \<le> 2 ^ 16"
  shows "mem (usb_lld_from_pmabuf d a n (usb_lld_to_pmabuf src a n s)) x =
      (if unat (x - d) < unat n then mem s (src + (x - d)) else mem s x) \<and>
    (b < 2 ^ 16 \<longrightarrow> pma_byte (pma (usb_lld_to_pmabuf src a n s)) b =
      (if unat a \<le> b \<and> b < unat a + unat n then mem s (src + of_nat (b - unat a))
       else if n \<noteq> 0 \<and> odd (unat a + unat n) \<and> b = unat a + unat n then 0 else pma_byte (pma s) b))"
proof -
  have mem: "mem (usb_lld_to_pmabuf src a n s) = mem s"
    using usb_lld_to_pmabuf_frame [of src a n s] by auto
  have "unat (x - d) < unat n \<Longrightarrow>
      pma_byte (pma (usb_lld_to_pmabuf src a n s)) (unat a + unat (x - d)) = mem s (src + (x - d))"
    using assms by (subst usb_lld_to_pmabuf_bytes) auto
  then show ?thesis
    using usb_lld_to_pmabuf_bytes [OF assms, of b src s]
    by (simp add: usb_lld_from_pmabuf_bytes mem)
qed

theorem pmabuf_roundtrip_witness:
  "\<exists>s :: usb. mem (usb_lld_from_pmabuf 200 65 3 (usb_lld_to_pmabuf 100 65 3 s)) 202 = 7"
proof -
  define s :: usb where "s = \<lparr>CNTR = 0, ISTR = 0, DADDR = 0, BTABLE = 0, EPREG = (\<lambda>_. 0), pma = (\<lambda>_. 0),
    mem = (\<lambda>_. 0)(102 := 7), dev = \<lparr>configuration = 0, feature = 0, dev_state = WAIT_SETUP,
      dev_req = \<lparr>req_type = 0, req_request = 0, req_value = 0, req_index = 0, req_len = 0\<rparr>,
      ctrl_data = \<lparr>cd_addr = 0, cd_len = 0, cd_require_zlp = 0\<rparr>\<rparr>, status_info_p = 0, configuration_p = 0\<rparr>"
  have "mem (usb_lld_from_pmabuf 200 65 3 (usb_lld_to_pmabuf 100 65 3 s)) 202 = mem s 102"
    by (subst pmabuf_roundtrip [of 65 3 200 100 s 202 0, THEN conjunct1]) simp_all
  then show ?thesis by (intro exI [of _ s]) (simp add: s_def)
qed

end
