(* ===== verification/Usb_Control.thy ===== *)
theory Usb_Control
  imports Usb_Memory
begin

text \<open>
  Properties of the USB driver of \<open>mcu/usb-stm32f103.c\<close>: its endpoint registers and event words,
  where the address of the device changes, the requests that are refused, and the two data stages
  of control transfers, packet by packet.
\<close>

unbundle bit_operations_syntax


lemma small_bit: "unat (w :: 'a :: len word) < 2 ^ k \<Longrightarrow> bit w n \<Longrightarrow> n < k"
proof (rule ccontr)
  assume w: "unat w < 2 ^ k" "bit w n" "\<not> n < k"
  then have "unat w < 2 ^ n" by (meson less_le_trans not_less one_le_numeral power_increasing)
  moreover have "bit (unat w) n" using w(2) by (simp add: bit_unsigned_iff bit_imp_possible_bit)
  ultimately show False by (simp add: bit_iff_odd)
qed

section \<open>Events\<close>

text \<open>
  The word that reports a transfer on an endpoint can be taken apart again: the macros of
  usb_lld.h read back the endpoint, the direction and the length, and a word that reports any
  other event has the number of that event in its upper byte.
\<close>

lemma events_roundtrip:
  "(ep < 128 \<longrightarrow>
      USB_EVENT_ENDP (USB_MAKE_TXRX ep txrx len) = ucast ep \<and>
      USB_EVENT_LEN (USB_MAKE_TXRX ep txrx len) = ucast len \<and>
      USB_EVENT_TXRX (USB_MAKE_TXRX ep txrx len) = (if txrx then 1 else 0) \<and>
      USB_EVENT_ID (USB_MAKE_TXRX ep txrx len) = 0) \<and>
    USB_EVENT_ID (USB_MAKE_EV ev) = event_no ev"
proof -
  have ep: "bit ep n \<longrightarrow> n < 7" if "ep < 128" for n
    using that small_bit [of ep 7 n] by (auto simp: word_less_nat_alt)
  have len: "bit len n \<Longrightarrow> n < 16" for n
    by (drule bit_imp_le_length) simp
  have masks: "(0xffff :: u32) = mask 16" "(0x7f :: u32) = mask 7" "e AND 1 = e AND mask 1" for e :: u32
    by (simp_all add: mask_eq_exp_minus_1)
  define x :: u32 where "x = push_bit 23 1"
  have x: "bit x n \<longleftrightarrow> n = 23" for n
    unfolding x_def bit_push_bit_iff bit_1_iff by auto
  show ?thesis
  proof (intro conjI impI)
    assume e: "ep < 128"
    note e = ep [OF e, rule_format]
    show "USB_EVENT_ENDP (USB_MAKE_TXRX ep txrx len) = ucast ep"
      unfolding USB_EVENT_ENDP_def USB_MAKE_TXRX_def masks x_def [symmetric]
      by (rule bit_word_eqI) (auto simp: bit_simps x dest: e len)
    show "USB_EVENT_LEN (USB_MAKE_TXRX ep txrx len) = ucast len"
      unfolding USB_EVENT_LEN_def USB_MAKE_TXRX_def masks x_def [symmetric]
      by (rule bit_word_eqI) (auto simp: bit_simps x dest: e len)
    show "USB_EVENT_TXRX (USB_MAKE_TXRX ep txrx len) = (if txrx then 1 else 0)"
      unfolding USB_EVENT_TXRX_def USB_MAKE_TXRX_def masks x_def [symmetric]
      by (rule bit_word_eqI) (auto simp: bit_simps x dest: e len)
    show "USB_EVENT_ID (USB_MAKE_TXRX ep txrx len) = 0"
      unfolding USB_EVENT_ID_def USB_MAKE_TXRX_def masks x_def [symmetric]
      by (rule bit_word_eqI) (auto simp: bit_simps x dest: e len)
  next
    show "USB_EVENT_ID (USB_MAKE_EV ev) = event_no ev"
      by (cases ev) (simp_all add: USB_EVENT_ID_def USB_MAKE_EV_def push_bit_eq_mult drop_bit_eq_div)
  qed
qed

section \<open>Endpoints\<close>

definition only_bits :: "u16 \<Rightarrow> u16 \<Rightarrow> bool" where
  "only_bits w m \<longleftrightarrow> w AND NOT m = 0"

lemma only_bitsD: "only_bits w m \<Longrightarrow> bit w n \<Longrightarrow> bit m n"
proof -
  assume "only_bits w m" "bit w n"
  then have "\<not> bit (w AND NOT m) n" "n < 16" unfolding only_bits_def
    by (simp_all) (drule bit_imp_le_length, simp)
  with \<open>bit w n\<close> show "bit m n" by (simp add: bit_simps)
qed

lemma nak_bits:
  "n < 16 \<Longrightarrow> bit EP_RX_NAK n \<longleftrightarrow> n = 13" "n < 16 \<Longrightarrow> bit EP_TX_NAK n \<longleftrightarrow> n = 5"
  unfolding ep_bits less_16 by (elim insertE emptyE; simp)+

lemma btable_p_eq: "btable_p ep k = btable_p ep l \<longleftrightarrow> k * 2 = l * 2"
  unfolding btable_p_def by (simp only: distrib_right add_left_cancel)

text \<open>
  Setting up an endpoint leaves its register with exactly the type, the kind and the address
  asked for, both data toggles at zero, and each direction NAK when it has a buffer and disabled
  when it has none, whatever the register held before; the buffer addresses are in the table.
\<close>

lemma setup_endpoint_register:
  assumes law: "ep_write_law hw"
    and ty: "only_bits t EP_T_FIELD" and kind: "only_bits k EP_KIND" and ep: "ep < 16"
  shows "let s' = usb_lld_setup_endpoint hw keep ep t k ra ta sz s in
    EPREG s' ep =
      (t OR k OR ucast ep OR (EPREG s ep AND EP_SETUP) OR
       (if keep then EPREG s ep AND (EP_CTR_RX OR EP_CTR_TX) else 0) OR
       (if ra \<noteq> 0 then EP_RX_NAK else 0) OR (if ta \<noteq> 0 then EP_TX_NAK else 0)) \<and>
    (ra \<noteq> 0 \<longrightarrow> st103_get_rx_addr ep s' = ra) \<and> (ta \<noteq> 0 \<longrightarrow> st103_get_tx_addr ep s' = ta)"
proof -
  let ?o = "EPREG s ep"
  let ?v0 = "?o AND (EPRX_STAT OR EP_SETUP OR EPTX_STAT OR EP_DTOG_RX OR EP_DTOG_TX)"
  let ?v1 = "if keep then ?v0 OR (EP_CTR_RX OR EP_CTR_TX) else ?v0"
  let ?st = "(if ra \<noteq> 0 then EP_RX_NAK else 0) OR (if ta \<noteq> 0 then EP_TX_NAK else 0) :: u16"
  let ?v = "(((((?v1 OR t) OR k) OR ucast ep) XOR (EPRX_DTOG1 AND ?st)) XOR (EPRX_DTOG2 AND ?st))
    XOR (EPTX_DTOG1 AND ?st) XOR (EPTX_DTOG2 AND ?st)"
  have st: "n < 16 \<Longrightarrow> bit ?st n \<longleftrightarrow> (n = 13 \<and> ra \<noteq> 0) \<or> (n = 5 \<and> ta \<noteq> 0)" for n
    unfolding ep_bits less_16 by (elim insertE emptyE) simp_all
  have t: "n < 16 \<Longrightarrow> bit t n \<longrightarrow> n = 9 \<or> n = 10" and k: "n < 16 \<Longrightarrow> bit k n \<longrightarrow> n = 8" for n
    using only_bitsD [OF ty, of n] only_bitsD [OF kind, of n] by (simp_all add: ep_field_bits)
  have e: "bit (ucast ep :: u16) n \<longrightarrow> n < 4" for n
    using ep small_bit [of ep 4 n] by (auto simp: word_less_nat_alt bit_ucast_iff)
  have "ep_write hw ?o ?v = (t OR k OR ucast ep OR (?o AND EP_SETUP) OR
      (if keep then ?o AND (EP_CTR_RX OR EP_CTR_TX) else 0) OR ?st)"
    unfolding law [unfolded ep_write_law_def, rule_format]
  proof (rule word16_eqI)
    fix n :: nat assume n: "n < 16"
    show "bit (?o AND ?v AND (EP_CTR_RX OR EP_CTR_TX) OR ?o AND EP_SETUP OR
        ?v AND (EP_T_FIELD OR EP_KIND OR EPADDR_FIELD) OR
        (?o XOR ?v) AND (EP_DTOG_RX OR EPRX_STAT OR EP_DTOG_TX OR EPTX_STAT)) n =
      bit (t OR k OR ucast ep OR (?o AND EP_SETUP) OR
        (if keep then ?o AND (EP_CTR_RX OR EP_CTR_TX) else 0) OR ?st) n"
      unfolding bit_or_iff bit_and_iff bit_xor_iff st [OF n] if_distrib [of "\<lambda>w. bit w n"]
      using t [OF n] k [OF n] e [of n] n
      by (simp only: ep_field_bits [OF n] bit_or_iff bit_and_iff bit_xor_iff if_distrib [of "\<lambda>w. bit w n"]
          bit_0_eq nak_bits [OF n]) (unfold less_16, elim insertE emptyE; cases keep; auto)
  qed
  note wr = this
  have d: "btable_p ep 4 \<noteq> btable_p ep 6" "btable_p ep 0 \<noteq> btable_p ep 4" "btable_p ep 0 \<noteq> btable_p ep 6"
    by (simp_all add: btable_p_eq)
  show ?thesis
    using wr
    by (cases "ra = 0"; cases "ta = 0"; cases keep)
      (simp_all add: usb_lld_setup_endpoint_def st103_get_epreg_def st103_set_epreg_def Let_def
        st103_set_rx_addr_def st103_set_tx_addr_def st103_set_rx_buf_size_def st103_get_rx_addr_def
        st103_get_tx_addr_def set_pma_def d d [symmetric] or.assoc xor.assoc)
qed

text \<open>A controller that behaves as the manual says, and its state after a reset.\<close>

definition stm32_hw :: usb_hw where
  "stm32_hw = \<lparr>ep_write = (\<lambda>old v. (old AND v AND (EP_CTR_RX OR EP_CTR_TX)) OR (old AND EP_SETUP) OR
      (v AND (EP_T_FIELD OR EP_KIND OR EPADDR_FIELD)) OR
      ((old XOR v) AND (EP_DTOG_RX OR EPRX_STAT OR EP_DTOG_TX OR EPTX_STAT))),
    istr_write = (\<lambda>old v. old AND v)\<rparr>"

lemma stm32_hw_law: "ep_write_law stm32_hw"
  by (simp add: ep_write_law_def stm32_hw_def)

definition reset_usb :: usb where
  "reset_usb = \<lparr>CNTR = CNTR_FRES, ISTR = 0, DADDR = 0, BTABLE = 0, EPREG = (\<lambda>_. 0), pma = (\<lambda>_. 0),
    mem = (\<lambda>_. 0), dev = \<lparr>configuration = 0, feature = 0, dev_state = WAIT_SETUP,
      dev_req = \<lparr>req_type = 0, req_request = 0, req_value = 0, req_index = 0, req_len = 0\<rparr>,
      ctrl_data = \<lparr>cd_addr = 0, cd_len = 0, cd_require_zlp = 0\<rparr>\<rparr>, status_info_p = 64, configuration_p = 80\<rparr>"

lemma events_roundtrip_witness:
  "USB_EVENT_LEN (USB_MAKE_TXRX 2 True 64) = 64 \<and> USB_EVENT_ENDP (USB_MAKE_TXRX 2 True 64) = 2"
  using events_roundtrip [of 2 True 64 USB_EVENT_OK] by simp

lemma setup_endpoint_register_witness:
  "EPREG (usb_lld_setup_endpoint stm32_hw False 1 EP_T_FIELD 0 64 0 64 (reset_usb\<lparr>EPREG := (\<lambda>_. 0x7070)\<rparr>)) 1 =
     EP_T_FIELD OR 1 OR EP_RX_NAK"
proof -
  have "only_bits EP_T_FIELD EP_T_FIELD" "only_bits 0 EP_KIND"
    by (simp_all add: only_bits_def ep_bits)
  from setup_endpoint_register [OF stm32_hw_law this, of 1 False 64 0 64 "reset_usb\<lparr>EPREG := (\<lambda>_. 0x7070)\<rparr>"]
  show ?thesis by (simp add: Let_def ep_bits)
qed

section \<open>What the operations leave alone\<close>

named_theorems usb_frame

lemma registers_frame [usb_frame]:
  "DADDR (st103_set_epreg hw ep v s) = DADDR s" "dev (st103_set_epreg hw ep v s) = dev s"
  "pma (st103_set_epreg hw ep v s) = pma s" "mem (st103_set_epreg hw ep v s) = mem s"
  "DADDR (set_pma p w s) = DADDR s" "dev (set_pma p w s) = dev s" "mem (set_pma p w s) = mem s"
  "EPREG (set_pma p w s) = EPREG s"
  "DADDR (set_mem d x s) = DADDR s" "dev (set_mem d x s) = dev s" "EPREG (set_mem d x s) = EPREG s"
  "pma (set_mem d x s) = pma s"
  "DADDR (set_dev_state st s) = DADDR s" "EPREG (set_dev_state st s) = EPREG s"
  "pma (set_dev_state st s) = pma s" "mem (set_dev_state st s) = mem s"
  "dev (set_dev_state st s) = (dev s)\<lparr>dev_state := st\<rparr>"
  "DADDR (set_ctrl_data c s) = DADDR s" "EPREG (set_ctrl_data c s) = EPREG s"
  "pma (set_ctrl_data c s) = pma s" "mem (set_ctrl_data c s) = mem s"
  "dev (set_ctrl_data c s) = (dev s)\<lparr>ctrl_data := c\<rparr>"
  "DADDR (set_feature_bits f s) = DADDR s" "DADDR (st103_set_istr hw v s) = DADDR s"
  "dev (st103_set_istr hw v s) = dev s" "EPREG (st103_set_istr hw v s) = EPREG s"
  "pma (st103_set_istr hw v s) = pma s" "mem (st103_set_istr hw v s) = mem s"
  by (simp_all add: st103_set_epreg_def set_pma_def set_mem_def set_dev_state_def set_ctrl_data_def
      set_feature_bits_def st103_set_istr_def)

lemmas ep_ops = st103_ep_clear_ctr_rx_def st103_ep_clear_ctr_tx_def st103_ep_set_rxtx_status_def
  st103_ep_set_rx_status_def st103_ep_set_tx_status_def st103_ep_clear_dtog_rx_def
  st103_ep_clear_dtog_tx_def

lemma ep_ops_frame [usb_frame]:
  "DADDR (st103_ep_clear_ctr_rx hw ep s) = DADDR s" "dev (st103_ep_clear_ctr_rx hw ep s) = dev s"
  "pma (st103_ep_clear_ctr_rx hw ep s) = pma s" "mem (st103_ep_clear_ctr_rx hw ep s) = mem s"
  "DADDR (st103_ep_clear_ctr_tx hw ep s) = DADDR s" "dev (st103_ep_clear_ctr_tx hw ep s) = dev s"
  "pma (st103_ep_clear_ctr_tx hw ep s) = pma s" "mem (st103_ep_clear_ctr_tx hw ep s) = mem s"
  "DADDR (st103_ep_set_rxtx_status hw ep rx tx s) = DADDR s" "dev (st103_ep_set_rxtx_status hw ep rx tx s) = dev s"
  "pma (st103_ep_set_rxtx_status hw ep rx tx s) = pma s" "mem (st103_ep_set_rxtx_status hw ep rx tx s) = mem s"
  "DADDR (st103_ep_set_rx_status hw ep rx s) = DADDR s" "dev (st103_ep_set_rx_status hw ep rx s) = dev s"
  "pma (st103_ep_set_rx_status hw ep rx s) = pma s" "mem (st103_ep_set_rx_status hw ep rx s) = mem s"
  "DADDR (st103_ep_set_tx_status hw ep tx s) = DADDR s" "dev (st103_ep_set_tx_status hw ep tx s) = dev s"
  "pma (st103_ep_set_tx_status hw ep tx s) = pma s" "mem (st103_ep_set_tx_status hw ep tx s) = mem s"
  "DADDR (st103_ep_clear_dtog_rx hw ep s) = DADDR s" "DADDR (st103_ep_clear_dtog_tx hw ep s) = DADDR s"
  by (simp_all add: ep_ops Let_def usb_frame)

lemma copy_frame [usb_frame]:
  "DADDR (usb_lld_to_pmabuf src a n s) = DADDR s" "dev (usb_lld_to_pmabuf src a n s) = dev s"
  "mem (usb_lld_to_pmabuf src a n s) = mem s" "EPREG (usb_lld_to_pmabuf src a n s) = EPREG s"
  "DADDR (usb_lld_from_pmabuf d a n s) = DADDR s" "dev (usb_lld_from_pmabuf d a n s) = dev s"
  "pma (usb_lld_from_pmabuf d a n s) = pma s" "EPREG (usb_lld_from_pmabuf d a n s) = EPREG s"
  using usb_lld_to_pmabuf_frame [of src a n s] usb_lld_from_pmabuf_frame [of d a n s] by auto

lemma tx_count_frame [usb_frame]:
  "DADDR (st103_set_tx_count ep n s) = DADDR s" "dev (st103_set_tx_count ep n s) = dev s"
  "mem (st103_set_tx_count ep n s) = mem s" "EPREG (st103_set_tx_count ep n s) = EPREG s"
  by (simp_all add: st103_set_tx_count_def usb_frame)

lemma DADDR_ctrl [usb_frame]:
  "DADDR (usb_lld_ctrl_error hw s) = DADDR s" "DADDR (snd (usb_lld_ctrl_ack hw s)) = DADDR s"
  "DADDR (send_part len s) = DADDR s" "DADDR (snd (usb_lld_ctrl_send hw b l s)) = DADDR s"
  "DADDR (handle_datastage_out hw s) = DADDR s" "DADDR (handle_datastage_in hw s) = DADDR s"
  by (simp_all add: usb_lld_ctrl_error_def usb_lld_ctrl_ack_def send_part_def usb_lld_ctrl_send_def
      handle_datastage_out_def handle_datastage_in_def Let_def usb_frame split: prod.split if_split)

lemma DADDR_send_status [usb_frame]:
  "send_status hw w s = Some (e, s') \<Longrightarrow> DADDR s' = DADDR s"
  by (auto simp: send_status_def set_mem16_def usb_frame dest!: arg_cong [of _ _ snd])

lemma DADDR_ctrl_pair:
  "usb_lld_ctrl_ack hw s = (e, s') \<Longrightarrow> DADDR s' = DADDR s"
  "usb_lld_ctrl_send hw b l s = (e, s') \<Longrightarrow> DADDR s' = DADDR s"
  using DADDR_ctrl by (metis snd_conv)+

lemma DADDR_get_status: "std_get_status hw s = Some (e, s') \<Longrightarrow> DADDR s' = DADDR s"
  by (auto simp: std_get_status_def Let_def dest: DADDR_send_status split: recipient.splits if_splits)

lemma DADDR_features:
  "std_clear_feature hw s = Some (e, s') \<Longrightarrow> DADDR s' = DADDR s"
  "std_set_feature hw s = Some (e, s') \<Longrightarrow> DADDR s' = DADDR s"
  by (auto simp: std_clear_feature_def std_set_feature_def Let_def usb_frame
      split: recipient.splits if_splits)

lemma DADDR_others:
  "std_set_address hw s = Some (e, s') \<Longrightarrow> DADDR s' = DADDR s"
  "std_get_descriptor s = Some (e, s') \<Longrightarrow> DADDR s' = DADDR s"
  "std_get_configuration hw s = Some (e, s') \<Longrightarrow> DADDR s' = DADDR s"
  "std_set_configuration s = Some (e, s') \<Longrightarrow> DADDR s' = DADDR s"
  "std_get_interface s = Some (e, s') \<Longrightarrow> DADDR s' = DADDR s"
  "std_set_interface s = Some (e, s') \<Longrightarrow> DADDR s' = DADDR s"
  by (auto simp: std_set_address_def std_get_descriptor_def std_get_configuration_def
      std_set_configuration_def std_get_interface_def std_set_interface_def Let_def usb_frame
      split: if_splits dest: DADDR_ctrl_pair)

lemma DADDR_std_request:
  "std_request hw r s = Some (e, s') \<Longrightarrow> DADDR s' = DADDR s"
  by (auto simp: std_request_def std_none_def split: if_splits
      dest: DADDR_get_status DADDR_features DADDR_others)

lemma DADDR_setup [usb_frame]: "DADDR (snd (handle_setup0 hw s)) = DADDR s"
proof (cases "std_request hw (req_request (read_setup s))
    (set_ctrl_data \<lparr>cd_addr = 0, cd_len = 0, cd_require_zlp = 0\<rparr> (s\<lparr>dev := (dev s)\<lparr>dev_req := read_setup s\<rparr>\<rparr>))")
  case None
  then show ?thesis by (simp add: handle_setup0_def Let_def usb_frame)
next
  case (Some r)
  then show ?thesis
    using DADDR_std_request [of hw _ _ "fst r" "snd r"]
    by (auto simp: handle_setup0_def Let_def usb_frame)
qed

text \<open>
  C17: The event handler changes the address of the device in one case only: when the status stage of a
  SET_ADDRESS request has completed. Whatever event the handler is called for, if the address register
  differs afterwards, then the device was waiting for the status stage, the last request was the
  standard request SET_ADDRESS to the device, the new address is the one requested, and the event reported is
  DEVICE_ADDRESSED. A reset of the bus, which the application answers with usb_lld_reset, sets the address to 0.
\<close>

theorem address_changes_after_status:
  assumes "usb_lld_event_handler hw s = (ev, s')" "DADDR s' \<noteq> DADDR s"
  shows "ev = USB_MAKE_EV USB_EVENT_DEVICE_ADDRESSED \<and> dev_state (dev s) = WAIT_STATUS_IN \<and>
    req_request (dev_req (dev s)) = SET_ADDRESS \<and>
    req_type (dev_req (dev s)) AND (REQUEST_TYPE OR RECIPIENT) = STANDARD_REQUEST \<and>
    DADDR s' = req_value (dev_req (dev s)) OR DADDR_EF \<and> dev_state (dev s') = WAIT_SETUP \<and>
    DADDR (usb_lld_reset f s) = DADDR_EF"
proof -
  have in0: "e = USB_EVENT_DEVICE_ADDRESSED \<and> dev_state (dev t) = WAIT_STATUS_IN \<and>
      req_request (dev_req (dev t)) = SET_ADDRESS \<and>
      req_type (dev_req (dev t)) AND (REQUEST_TYPE OR RECIPIENT) = STANDARD_REQUEST \<and>
      DADDR t' = req_value (dev_req (dev t)) OR DADDR_EF \<and> dev_state (dev t') = WAIT_SETUP"
    if "handle_in0 hw t = (e, t')" "DADDR t' \<noteq> DADDR t" for t e t'
    using that by (auto simp: handle_in0_def Let_def usb_frame st103_set_daddr_def split: if_splits)
  have setup0: "DADDR t' = DADDR t" if "handle_setup0 hw t = (e, t')" for t e t'
    using DADDR_setup [of hw t] that by simp
  have out0: "DADDR (handle_out0 hw t) = DADDR t" for t
    by (simp add: handle_out0_def Let_def usb_frame)
  have tr: "e = USB_MAKE_EV USB_EVENT_DEVICE_ADDRESSED \<and> dev_state (dev t) = WAIT_STATUS_IN \<and>
      req_request (dev_req (dev t)) = SET_ADDRESS \<and>
      req_type (dev_req (dev t)) AND (REQUEST_TYPE OR RECIPIENT) = STANDARD_REQUEST \<and>
      DADDR t' = req_value (dev_req (dev t)) OR DADDR_EF \<and> dev_state (dev t') = WAIT_SETUP"
    if "usb_handle_transfer hw i t = (e, t')" "DADDR t' \<noteq> DADDR t" for i t e t'
    using that
    by (auto simp: usb_handle_transfer_def Let_def usb_frame out0 split: if_splits prod.splits
        dest: in0 setup0)
  have "DADDR (usb_lld_reset f s) = DADDR_EF" by (simp add: usb_lld_reset_def Let_def st103_set_daddr_def)
  then show ?thesis
    using assms
    by (auto simp: usb_lld_event_handler_def Let_def usb_frame split: if_splits dest!: tr)
qed

text \<open>A SET_ADDRESS request whose status stage has just completed.\<close>

definition addressing :: usb where
  "addressing = reset_usb\<lparr>ISTR := ISTR_CTR, EPREG := (\<lambda>_. EP_CTR_TX),
    dev := \<lparr>configuration = 0, feature = 0, dev_state = WAIT_STATUS_IN,
      dev_req = \<lparr>req_type = 0, req_request = SET_ADDRESS, req_value = 5, req_index = 0, req_len = 0\<rparr>,
      ctrl_data = \<lparr>cd_addr = 0, cd_len = 0, cd_require_zlp = 0\<rparr>\<rparr>\<rparr>"

theorem address_changes_after_status_witness:
  "\<exists>ev s'. usb_lld_event_handler stm32_hw addressing = (ev, s') \<and> DADDR s' = 5 OR DADDR_EF"
proof -
  obtain ev s' where e: "usb_lld_event_handler stm32_hw addressing = (ev, s')" by fastforce
  then have "DADDR s' = 5 OR DADDR_EF"
    by (auto simp: usb_lld_event_handler_def addressing_def reset_usb_def Let_def ISTR_CTR_def ISTR_RESET_def
        ISTR_WKUP_def ISTR_SUSP_def ISTR_OVR_def ISTR_ERR_def ISTR_EP_ID_def usb_handle_transfer_def
        st103_get_epreg_def EP_CTR_TX_def handle_in0_def usb_frame SET_ADDRESS_def STANDARD_REQUEST_def
        st103_set_daddr_def REQUEST_TYPE_def RECIPIENT_def)
  moreover from this have "DADDR s' \<noteq> DADDR addressing"
    by (simp add: addressing_def reset_usb_def DADDR_EF_def)
  ultimately show ?thesis using address_changes_after_status [OF e] e
    by (auto simp: addressing_def)
qed

section \<open>Requests that are refused\<close>

text \<open>The direction the USB specification gives to a standard request; none for an unknown one.\<close>

definition request_dir :: "u8 \<Rightarrow> bool option" where
  "request_dir r =
     (if r = 0 \<or> r = 6 \<or> r = 8 \<or> r = 10 then Some True
      else if r = 1 \<or> r = 3 \<or> r = 5 \<or> r = 9 \<or> r = 11 then Some False else None)"

lemma std_direction:
  "USB_SETUP_SET (req_type (dev_req (dev s))) \<Longrightarrow> std_get_status hw s = None"
  "USB_SETUP_SET (req_type (dev_req (dev s))) \<Longrightarrow> std_get_descriptor s = None"
  "USB_SETUP_SET (req_type (dev_req (dev s))) \<Longrightarrow> std_get_configuration hw s = None"
  "USB_SETUP_SET (req_type (dev_req (dev s))) \<Longrightarrow> std_get_interface s = None"
  "USB_SETUP_GET (req_type (dev_req (dev s))) \<Longrightarrow> std_clear_feature hw s = None"
  "USB_SETUP_GET (req_type (dev_req (dev s))) \<Longrightarrow> std_set_feature hw s = None"
  "USB_SETUP_GET (req_type (dev_req (dev s))) \<Longrightarrow> std_set_address hw s = None"
  "USB_SETUP_GET (req_type (dev_req (dev s))) \<Longrightarrow> std_set_configuration s = None"
  "USB_SETUP_GET (req_type (dev_req (dev s))) \<Longrightarrow> std_set_interface s = None"
  by (simp_all add: std_get_status_def std_clear_feature_def std_set_feature_def std_set_address_def
      std_get_descriptor_def std_get_configuration_def std_set_configuration_def
      std_get_interface_def std_set_interface_def Let_def)

lemma std_request_dir:
  assumes "request_dir r \<noteq> Some (USB_SETUP_GET (req_type (dev_req (dev s))))"
  shows "std_request hw r s = None"
proof -
  let ?t = "req_type (dev_req (dev s))"
  have set: "USB_SETUP_SET ?t \<longleftrightarrow> \<not> USB_SETUP_GET ?t"
    by (simp add: USB_SETUP_SET_def USB_SETUP_GET_def)
  show ?thesis
  proof (cases "USB_SETUP_GET ?t")
    case True
    then show ?thesis
      using assms by (auto simp: request_dir_def std_request_def std_direction std_none_def split: if_splits)
  next
    case False
    with set show ?thesis
      using assms by (auto simp: request_dir_def std_request_def std_direction std_none_def split: if_splits)
  qed
qed

text \<open>
  A SETUP packet that holds an unknown standard request, or a known one with the wrong
  direction, is refused: the handler reports nothing to the application, both directions of
  endpoint 0 answer STALL (the other bits of its register keep their values, its receive flag is
  acknowledged), the control state is STALLED, and configuration, features and address stay.
\<close>

lemma bad_request_stalls:
  assumes law: "ep_write_law hw"
    and pkt: "istr AND ISTR_EP_ID = 0" "EPREG s 0 AND EP_CTR_TX = 0"
      "EPREG s 0 AND EP_CTR_RX \<noteq> 0" "EPREG s 0 AND EP_SETUP \<noteq> 0"
    and std: "req_type (read_setup s) AND REQUEST_TYPE = STANDARD_REQUEST"
    and bad: "request_dir (req_request (read_setup s)) \<noteq> Some (USB_SETUP_GET (req_type (read_setup s)))"
  shows "\<exists>s'. usb_handle_transfer hw istr s = (event_no USB_EVENT_OK, s') \<and>
    dev_state (dev s') = STALLED \<and>
    EPREG s' = (EPREG s)(0 := EPREG s 0 AND NOT EP_CTR_RX AND NOT (EPRX_STAT OR EPTX_STAT)
      OR EP_RX_STALL OR EP_TX_STALL) \<and>
    DADDR s' = DADDR s \<and> mem s' = mem s \<and> pma s' = pma s \<and>
    configuration (dev s') = configuration (dev s) \<and> feature (dev s') = feature (dev s)"
proof -
  define t where "t = st103_ep_clear_ctr_rx hw 0 s"
  have t: "t = s\<lparr>EPREG := (EPREG s)(0 := EPREG s 0 AND NOT EP_CTR_RX)\<rparr>"
    unfolding t_def by (rule ep_clear_ctr [OF law])
  have rs: "read_setup t = read_setup s"
    by (simp add: t read_setup_def st103_get_rx_addr_def)
  define u where "u = set_ctrl_data \<lparr>cd_addr = 0, cd_len = 0, cd_require_zlp = 0\<rparr>
    (t\<lparr>dev := (dev t)\<lparr>dev_req := read_setup t\<rparr>\<rparr>)"
  have u: "dev_req (dev u) = read_setup s" by (simp add: u_def usb_frame rs)
  have none: "std_request hw (req_request (read_setup s)) u = None"
    by (rule std_request_dir) (use bad u in simp)
  have hs: "handle_setup0 hw t = (USB_EVENT_OK, usb_lld_ctrl_error hw u)"
    using std none u unfolding handle_setup0_def Let_def u_def [symmetric] by simp
  have "usb_handle_transfer hw istr s = (event_no USB_EVENT_OK, usb_lld_ctrl_error hw u)"
    using pkt hs
    by (simp add: usb_handle_transfer_def Let_def st103_get_epreg_def t_def [symmetric] USB_MAKE_EV_def)
  moreover have "EP_RX_STALL AND EPRX_STAT = EP_RX_STALL" "EP_TX_STALL AND EPTX_STAT = EP_TX_STALL"
    by (simp_all add: ep_bits)
  ultimately show ?thesis
    by (simp add: usb_lld_ctrl_error_def ep_set_rxtx_status [OF law] ENDP0_def u_def t usb_frame
        set_dev_state_def set_ctrl_data_def or.assoc and.assoc)
qed

text \<open>GET_DESCRIPTOR sent as a request from the host to the device.\<close>

definition refused_setup :: usb where
  "refused_setup = reset_usb\<lparr>EPREG := (\<lambda>_. EP_CTR_RX OR EP_SETUP), pma := (\<lambda>_. 0)(PMA_ADDR := 0x0600)\<rparr>"

lemma refused_setup:
  "EPREG refused_setup 0 = EP_CTR_RX OR EP_SETUP" "req_type (read_setup refused_setup) = 0"
  "req_request (read_setup refused_setup) = 6"
  by (simp_all add: refused_setup_def read_setup_def st103_get_rx_addr_def btable_p_def ENDP0_def
      PMA_ADDR_def drop_bit_eq_div)

lemma bad_request_stalls_witness:
  "\<exists>s'. usb_handle_transfer stm32_hw 0 refused_setup = (0, s') \<and> dev_state (dev s') = STALLED"
proof -
  have "(0 :: u16) AND ISTR_EP_ID = 0" "EPREG refused_setup 0 AND EP_CTR_TX = 0"
    "EPREG refused_setup 0 AND EP_CTR_RX \<noteq> 0" "EPREG refused_setup 0 AND EP_SETUP \<noteq> 0"
    "req_type (read_setup refused_setup) AND REQUEST_TYPE = STANDARD_REQUEST"
    "request_dir (req_request (read_setup refused_setup)) \<noteq>
      Some (USB_SETUP_GET (req_type (read_setup refused_setup)))"
    by (simp_all add: refused_setup request_dir_def USB_SETUP_GET_def STANDARD_REQUEST_def ep_bits)
  from bad_request_stalls [OF stm32_hw_law this] show ?thesis by auto
qed

section \<open>Control transfers to the host\<close>

text \<open>
  The packet that endpoint 0 holds for the host. Between two calls of the driver the controller
  sends it, and touches only its own endpoint and status registers; \<open>taken\<close> stands for that.
\<close>

definition tx_packet :: "usb \<Rightarrow> u8 list" where
  "tx_packet s = List.map (\<lambda>i. pma_byte (pma s) (unat (st103_get_tx_addr ENDP0 s) + i))
     [0..<unat (st103_get_tx_count ENDP0 s)]"

definition registers_only :: "(usb \<Rightarrow> usb) \<Rightarrow> bool" where
  "registers_only f \<longleftrightarrow> (\<forall>s. \<exists>r i. f s = s\<lparr>EPREG := r, ISTR := i\<rparr>)"

text \<open>The packets that the host gets while the device is in the data stage.\<close>

fun in_stage :: "usb_hw \<Rightarrow> (usb \<Rightarrow> usb) \<Rightarrow> nat \<Rightarrow> usb \<Rightarrow> u8 list list \<times> usb" where
  "in_stage hw taken 0 s = ([], s)"
| "in_stage hw taken (Suc n) s =
     (if dev_state (dev s) = IN_DATA \<or> dev_state (dev s) = LAST_IN_DATA then
        (let (ps, s') = in_stage hw taken n (snd (handle_in0 hw (taken s))) in (tx_packet s # ps, s'))
      else ([], s))"

definition tx_room :: "usb \<Rightarrow> bool" where
  "tx_room s \<longleftrightarrow> 8 \<le> unat (st103_get_tx_addr ENDP0 s) \<and> unat (st103_get_tx_addr ENDP0 s) + 64 \<le> 2 ^ 15"

definition rest :: "usb \<Rightarrow> u8 list" where
  "rest s = bytes (mem s) (cd_addr (ctrl_data (dev s))) (unat (cd_len (ctrl_data (dev s))))"

lemma btable_pma: "btable_p ENDP0 0 = pma_p 0" "btable_p ENDP0 2 = pma_p 2"
  by (simp_all add: btable_p_def pma_p_def ENDP0_def)

lemma pma_word:
  assumes "even a" "pma_byte f a = pma_byte g a" "pma_byte f (a + 1) = pma_byte g (a + 1)"
  shows "f (pma_p a) = g (pma_p a)"
proof (rule word16_eqI)
  fix n :: nat assume n: "n < 16"
  have p: "pma_p (a + 1) = pma_p a" using assms(1) by (rule pma_p_half)
  have lo: "ucast (f (pma_p a)) = (ucast (g (pma_p a)) :: u8)"
    and hi: "ucast (drop_bit 8 (f (pma_p a))) = (ucast (drop_bit 8 (g (pma_p a))) :: u8)"
    using assms p by (simp_all add: pma_byte_def)
  show "bit (f (pma_p a)) n = bit (g (pma_p a)) n"
  proof (cases "n < 8")
    case True
    then show ?thesis using arg_cong [OF lo, of "\<lambda>w. bit w n"] by (simp add: bit_simps)
  next
    case False
    then have "n - 8 < 8" using n by simp
    then show ?thesis using False n arg_cong [OF hi, of "\<lambda>w. bit w (n - 8)"] by (simp add: bit_simps)
  qed
qed

lemma send_part_0: "send_part 0 s = s"
  by (simp add: send_part_def usb_lld_to_pmabuf_def set_ctrl_data_def Let_def)

lemma send_packet:
  assumes room: "tx_room s" and len: "unat len \<le> 64" "unat len \<le> unat (cd_len (ctrl_data (dev s)))"
    and s': "s' = st103_set_tx_count ENDP0 (ucast len) (send_part len s)"
  shows "tx_packet s' = bytes (mem s) (cd_addr (ctrl_data (dev s))) (unat len)"
    and "rest s' = drop (unat len) (rest s)"
    and "tx_room s'" "mem s' = mem s"
    and "unat (cd_len (ctrl_data (dev s'))) = unat (cd_len (ctrl_data (dev s))) - unat len"
    and "cd_require_zlp (ctrl_data (dev s')) = cd_require_zlp (ctrl_data (dev s))"
    and "dev_state (dev s') = dev_state (dev s)" "dev_req (dev s') = dev_req (dev s)"
    and "EPREG s' = EPREG s"
proof -
  let ?c = "ctrl_data (dev s)"
  define a where "a = st103_get_tx_addr ENDP0 s"
  define t where "t = usb_lld_to_pmabuf (cd_addr ?c) a len s"
  have a: "8 \<le> unat a" "unat a + 64 \<le> 2 ^ 15" using room by (auto simp: tx_room_def a_def)
  have u: "unat (ucast len :: u16) = unat len"
    using len(1) unsigned_less [of len, where 'a = nat] by (simp add: unsigned_ucast_eq take_bit_nat_eq_self)
  have byte: "pma_byte (pma t) b = (if unat a \<le> b \<and> b < unat a + unat len then mem s (cd_addr ?c + of_nat (b - unat a))
      else if len \<noteq> 0 \<and> odd (unat a + unat len) \<and> b = unat a + unat len then 0 else pma_byte (pma s) b)"
    if "b < 2 ^ 16" for b
    unfolding t_def by (rule usb_lld_to_pmabuf_bytes) (use a len that in auto)
  have pma': "pma s' = (pma t)(pma_p 2 := ucast len)"
    by (simp add: s' st103_set_tx_count_def send_part_def Let_def set_pma_def btable_pma usb_frame
        t_def a_def)
  have byte': "pma_byte (pma s') b = pma_byte (pma t) b" if "b < 2 ^ 16" "b \<noteq> 2" "b \<noteq> 3" for b
    unfolding pma' using that by (subst pma_byte_set) auto
  have "pma s' (pma_p 0) = pma s (pma_p 0)"
    by (rule pma_word) (use a in \<open>simp_all add: byte' byte\<close>)
  then have addr: "st103_get_tx_addr ENDP0 s' = a"
    by (simp add: a_def st103_get_tx_addr_def btable_pma)
  have "pma s' (pma_p 2) = ucast len" by (simp add: pma')
  moreover have "ucast len AND 0x03ff = (ucast len :: u16)"
  proof -
    have small: "bit (ucast len :: u16) n \<Longrightarrow> n < 7" for n
      by (rule small_bit) (use len(1) u in simp_all)
    have "(0x03ff :: u16) = mask 10" by (simp add: mask_eq_exp_minus_1)
    moreover have "ucast len AND mask 10 = (ucast len :: u16)"
      by (rule word16_eqI) (auto simp: bit_and_iff bit_mask_iff dest: small)
    ultimately show ?thesis by simp
  qed
  ultimately have cnt: "unat (st103_get_tx_count ENDP0 s') = unat len"
    by (simp add: st103_get_tx_count_def btable_pma u)
  show "tx_packet s' = bytes (mem s) (cd_addr ?c) (unat len)"
    unfolding tx_packet_def addr cnt bytes_def
    by (rule map_cong [OF refl]) (use a len in \<open>simp add: byte' byte\<close>)
  have cd: "ctrl_data (dev s') = ?c\<lparr>cd_len := cd_len ?c - ucast len, cd_addr := cd_addr ?c + len\<rparr>"
    "dev_state (dev s') = dev_state (dev s)" "dev_req (dev s') = dev_req (dev s)"
    "EPREG s' = EPREG s" "mem s' = mem s"
    by (simp_all add: s' send_part_def Let_def usb_frame)
  then show "dev_state (dev s') = dev_state (dev s)" "dev_req (dev s') = dev_req (dev s)"
    "EPREG s' = EPREG s" "mem s' = mem s" "cd_require_zlp (ctrl_data (dev s')) = cd_require_zlp ?c"
    by simp_all
  show l: "unat (cd_len (ctrl_data (dev s'))) = unat (cd_len ?c) - unat len"
    using len u by (simp add: cd unat_sub word_le_nat_alt)
  show "tx_room s'" using a by (simp add: tx_room_def addr)
  show "rest s' = drop (unat len) (rest s)"
    using bytes_append [of "mem s" "cd_addr ?c" "unat len" "unat (cd_len ?c) - unat len"] len
    by (simp add: rest_def l) (simp add: cd)
qed

lemma in_stage_stop: "dev_state (dev s) \<noteq> IN_DATA \<Longrightarrow> dev_state (dev s) \<noteq> LAST_IN_DATA \<Longrightarrow>
  in_stage hw f n s = ([], s)"
  by (cases n) simp_all

lemma tx_packet_cong: "pma s' = pma s \<Longrightarrow> tx_packet s' = tx_packet s"
  "pma s' = pma s \<Longrightarrow> tx_room s' = tx_room s"
  "mem s' = mem s \<Longrightarrow> ctrl_data (dev s') = ctrl_data (dev s) \<Longrightarrow> rest s' = rest s"
  by (simp_all add: tx_packet_def tx_room_def rest_def st103_get_tx_addr_def st103_get_tx_count_def)

lemma rest_empty: "rest s = [] \<longleftrightarrow> cd_len (ctrl_data (dev s)) = 0"
  by (simp add: rest_def unat_eq_zero flip: length_0_conv)

lemma length_rest: "length (rest s) = unat (cd_len (ctrl_data (dev s)))"
  by (simp add: rest_def)

text \<open>
  The device is in the data stage, the next packet is armed: it has sent the last byte exactly
  when it is in the state \<open>LAST_IN_DATA\<close>.
\<close>

definition sending :: "usb \<Rightarrow> bool" where
  "sending s \<longleftrightarrow> tx_room s \<and>
    (if rest s = [] then dev_state (dev s) = LAST_IN_DATA else dev_state (dev s) = IN_DATA)"

lemma handle_in0_sending:
  assumes "registers_only f" "sending s"
  obtains r i where "f s = s\<lparr>EPREG := r, ISTR := i\<rparr>"
    "snd (handle_in0 hw (f s)) = handle_datastage_in hw (s\<lparr>EPREG := r, ISTR := i\<rparr>)"
proof -
  from assms(1) obtain r i where f: "f s = s\<lparr>EPREG := r, ISTR := i\<rparr>"
    unfolding registers_only_def by blast
  have "snd (handle_in0 hw (f s)) = handle_datastage_in hw (s\<lparr>EPREG := r, ISTR := i\<rparr>)"
    using assms(2) unfolding f handle_in0_def sending_def by (simp add: Let_def split: if_splits)
  with f show ?thesis by (rule that)
qed

text \<open>What \<open>handle_in0\<close> does after a packet has been taken, in the three cases.\<close>

lemma in_step_done:
  assumes "registers_only f" "sending s" "rest s = []" "cd_require_zlp (ctrl_data (dev s)) = 0"
  shows "dev_state (dev (snd (handle_in0 hw (f s)))) = WAIT_STATUS_OUT"
    and "ep_write_law hw \<Longrightarrow> EPREG (snd (handle_in0 hw (f s))) 0 AND EPRX_STAT = EP_RX_VALID"
proof -
  obtain r i where h: "snd (handle_in0 hw (f s)) = handle_datastage_in hw (s\<lparr>EPREG := r, ISTR := i\<rparr>)"
    by (rule handle_in0_sending [OF assms(1,2)])
  show "dev_state (dev (snd (handle_in0 hw (f s)))) = WAIT_STATUS_OUT"
    using assms unfolding h by (simp add: handle_datastage_in_def Let_def usb_frame sending_def rest_empty)
  show "EPREG (snd (handle_in0 hw (f s))) 0 AND EPRX_STAT = EP_RX_VALID" if "ep_write_law hw"
  proof -
    have "((r 0 AND NOT EPRX_STAT) OR (EP_RX_VALID AND EPRX_STAT)) AND EPRX_STAT = EP_RX_VALID"
      by (rule word16_eqI, simp only: word16_bits, unfold less_16) (elim insertE emptyE; simp add: ep_bits)
    then show ?thesis
      using assms unfolding h
      by (simp add: handle_datastage_in_def Let_def usb_frame sending_def rest_empty
          ep_set_rx_status [OF that] ENDP0_def)
  qed
qed

lemma in_step_zlp:
  fixes hw :: usb_hw
  assumes "registers_only f" "sending s" "rest s = []" "cd_require_zlp (ctrl_data (dev s)) \<noteq> 0"
  defines "s' \<equiv> snd (handle_in0 hw (f s))"
  shows "tx_packet s' = [] \<and> sending s' \<and> rest s' = [] \<and> cd_require_zlp (ctrl_data (dev s')) = 0"
proof -
  obtain r i where h: "s' = handle_datastage_in hw (s\<lparr>EPREG := r, ISTR := i\<rparr>)"
    unfolding s'_def by (rule handle_in0_sending [OF assms(1,2)])
  define t where
    "t = set_ctrl_data ((ctrl_data (dev s))\<lparr>cd_require_zlp := 0\<rparr>) (s\<lparr>EPREG := r, ISTR := i\<rparr>)"
  define u where "u = st103_set_tx_count ENDP0 0 t"
  have s': "s' = st103_ep_set_tx_status hw ENDP0 EP_TX_VALID u"
    using assms unfolding h u_def t_def
    by (simp add: handle_datastage_in_def Let_def sending_def rest_empty)
  have t: "tx_room t" "dev_state (dev t) = LAST_IN_DATA" "rest t = []" "cd_require_zlp (ctrl_data (dev t)) = 0"
    using assms tx_packet_cong(2) [of t s] by (simp_all add: t_def usb_frame sending_def rest_empty)
  have u: "u = st103_set_tx_count ENDP0 (ucast (0 :: u32)) (send_part 0 t)"
    by (simp add: u_def send_part_0)
  note p = send_packet [OF t(1) _ _ u]
  have "pma s' = pma u" "mem s' = mem u" "dev s' = dev u" by (simp_all add: s' usb_frame)
  then show ?thesis
    using p t by (simp add: tx_packet_cong [of s' u] sending_def bytes_def)
qed

lemma in_step_more:
  fixes hw :: usb_hw
  assumes "registers_only f" "sending s" "rest s \<noteq> []"
  defines "s' \<equiv> snd (handle_in0 hw (f s))"
  shows "tx_packet s' = take 64 (rest s) \<and> sending s' \<and> rest s' = drop 64 (rest s) \<and>
    cd_require_zlp (ctrl_data (dev s')) = cd_require_zlp (ctrl_data (dev s))"
proof -
  obtain r i where h: "s' = handle_datastage_in hw (s\<lparr>EPREG := r, ISTR := i\<rparr>)"
    unfolding s'_def by (rule handle_in0_sending [OF assms(1,2)])
  let ?l = "cd_len (ctrl_data (dev s))"
  define len :: u32 where "len = (if ucast ?l < (64 :: u32) then ucast ?l else 64)"
  define t where
    "t = set_dev_state (if ucast ?l \<le> (64 :: u32) then LAST_IN_DATA else IN_DATA) (s\<lparr>EPREG := r, ISTR := i\<rparr>)"
  define u where u: "u = st103_set_tx_count ENDP0 (ucast len) (send_part len t)"
  have s': "s' = st103_ep_set_tx_status hw ENDP0 EP_TX_VALID u"
    using assms unfolding h u t_def len_def
    by (simp add: handle_datastage_in_def Let_def sending_def rest_empty USB_MAX_PACKET_SIZE_def)
  have uc: "unat (ucast ?l :: u32) = unat ?l"
    using unsigned_less [of ?l, where 'a = nat] by (simp add: unsigned_ucast_eq take_bit_nat_eq_self)
  have l: "unat len = min 64 (unat ?l)"
    by (simp add: len_def word_less_nat_alt uc min_def)
  have t: "tx_room t" "rest t = rest s" "ctrl_data (dev t) = ctrl_data (dev s)" "mem t = mem s"
    using assms tx_packet_cong(2,3) [of t s] by (simp_all add: t_def usb_frame sending_def)
  have st: "dev_state (dev t) = (if unat ?l \<le> 64 then LAST_IN_DATA else IN_DATA)"
    by (simp add: t_def usb_frame word_le_nat_alt uc)
  have "unat len \<le> 64" "unat len \<le> unat (cd_len (ctrl_data (dev t)))" by (simp_all add: l t)
  note p = send_packet [OF t(1) this u]
  have "bytes (mem s) (cd_addr (ctrl_data (dev s))) (unat len) = take 64 (rest s)"
    using bytes_append [of "mem s" "cd_addr (ctrl_data (dev s))" "unat len" "unat ?l - unat len"]
    by (auto simp: rest_def l min_def)
  moreover have "drop (unat len) (rest s) = drop 64 (rest s)"
    by (simp add: l length_rest min_def)
  moreover have "pma s' = pma u" "mem s' = mem u" "dev s' = dev u" by (simp_all add: s' usb_frame)
  ultimately show ?thesis
    using p st by (simp add: tx_packet_cong [of s' u] sending_def t length_rest)
qed

lemma ceil_step: "0 < (k :: nat) \<Longrightarrow> (k - 64 + 63) div 64 + 1 = (k + 63) div 64"
  by (cases "k < 64") (simp_all add: div_add_self2 [symmetric])

lemma in_stage_sends:
  assumes f: "registers_only f"
  shows "sending s \<Longrightarrow> length (tx_packet s) \<le> 64 \<Longrightarrow>
    (rest s \<noteq> [] \<or> cd_require_zlp (ctrl_data (dev s)) \<noteq> 0 \<Longrightarrow> length (tx_packet s) = 64) \<Longrightarrow>
    (cd_require_zlp (ctrl_data (dev s)) \<noteq> 0 \<Longrightarrow> length (rest s) mod 64 = 0) \<Longrightarrow>
    (length (rest s) + 63) div 64 + (if cd_require_zlp (ctrl_data (dev s)) \<noteq> 0 then 2 else 1) \<le> n \<Longrightarrow> in_stage hw f n s = (ps, s') \<Longrightarrow>
    concat ps = tx_packet s @ rest s \<and> ps \<noteq> [] \<and> (\<forall>p\<in>set (butlast ps). length p = 64) \<and>
    length (last ps) \<le> 64 \<and> (cd_require_zlp (ctrl_data (dev s)) \<noteq> 0 \<longrightarrow> last ps = []) \<and>
    dev_state (dev s') = WAIT_STATUS_OUT \<and> (ep_write_law hw \<longrightarrow> EPREG s' 0 AND EPRX_STAT = EP_RX_VALID)"
proof (induction n arbitrary: s ps)
  case 0
  then show ?case by (auto split: if_splits)
next
  case (Suc n)
  define t where "t = snd (handle_in0 hw (f s))"
  have run: "dev_state (dev s) = IN_DATA \<or> dev_state (dev s) = LAST_IN_DATA"
    using Suc.prems(1) by (auto simp: sending_def split: if_splits)
  obtain qs where qs: "in_stage hw f n t = (qs, s')" "ps = tx_packet s # qs"
    using Suc.prems(6) run by (auto simp: t_def split: prod.splits)
  consider (more) "rest s \<noteq> []" | (zlp) "rest s = []" "cd_require_zlp (ctrl_data (dev s)) \<noteq> 0"
    | (last) "rest s = []" "cd_require_zlp (ctrl_data (dev s)) = 0" by blast
  then show ?case
  proof cases
    case more
    note step = in_step_more [OF f Suc.prems(1) more, of hw, folded t_def]
    have "0 < length (rest s)" using more by simp
    then have "(length (rest t) + 63) div 64 + 1 = (length (rest s) + 63) div 64"
      using step ceil_step [of "length (rest s)"] by simp
    then have len: "(length (rest t) + 63) div 64 +
        (if cd_require_zlp (ctrl_data (dev t)) \<noteq> 0 then 2 else 1) \<le> n"
      using Suc.prems(5) step by (auto split: if_splits)
    from step have t: "sending t" "tx_packet t = take 64 (rest s)" "rest t = drop 64 (rest s)"
      "cd_require_zlp (ctrl_data (dev t)) = cd_require_zlp (ctrl_data (dev s))" by blast+
    have full: "length (tx_packet t) = 64" if "rest t \<noteq> [] \<or> cd_require_zlp (ctrl_data (dev t)) \<noteq> 0"
    proof (cases "rest t = []")
      case True
      then have "cd_require_zlp (ctrl_data (dev s)) \<noteq> 0" using that t by simp
      from Suc.prems(4) [OF this] have "\<not> length (rest s) < 64" using more by auto
      then show ?thesis using t by simp
    qed (simp add: t)
    have "length (tx_packet t) \<le> 64" by (simp add: t)
    have m: "length (rest t) mod 64 = 0" if "cd_require_zlp (ctrl_data (dev t)) \<noteq> 0"
      using Suc.prems(4) that t(3,4) by (simp add: mod_eq_0_iff_dvd dvd_diff_nat)
    note Suc.IH [OF t(1) \<open>length (tx_packet t) \<le> 64\<close> full m len qs(1), unfolded t(4)]
    moreover have "tx_packet t @ rest t = rest s" by (simp add: t)
    ultimately show ?thesis using Suc.prems(3) more by (simp add: qs(2))
  next
    case zlp
    note step = in_step_zlp [OF f Suc.prems(1) zlp, of hw, folded t_def]
    have len: "(length (rest t) + 63) div 64 +
        (if cd_require_zlp (ctrl_data (dev t)) \<noteq> 0 then 2 else 1) \<le> n"
      using Suc.prems(5) zlp step by simp
    have "in_stage hw f n t = ([[]], s') \<and> dev_state (dev s') = WAIT_STATUS_OUT \<and>
        (ep_write_law hw \<longrightarrow> EPREG s' 0 AND EPRX_STAT = EP_RX_VALID)"
    proof -
      from step have "sending t" "rest t = []" "cd_require_zlp (ctrl_data (dev t)) = 0" by auto
      note final = in_step_done [OF f this, of hw]
      obtain m where "n = Suc m" using len by (cases n) (auto split: if_splits)
      then show ?thesis
        using qs(1) step final in_stage_stop [of "snd (handle_in0 hw (f t))" hw f m]
        by (auto simp: sending_def split: prod.splits)
    qed
    then show ?thesis using qs zlp Suc.prems(3) by simp
  next
    case last
    note step = in_step_done [OF f Suc.prems(1) last, of hw, folded t_def]
    have "qs = []" "s' = t" using in_stage_stop [of t hw f n] step qs(1) by auto
    then show ?thesis using step last Suc.prems(2) by (simp add: qs(2))
  qed
qed

lemma ctrl_send_starts:
  fixes hw :: usb_hw and buf :: addr
  assumes room: "tx_room s" and len: "unat len < 2 ^ 16" and zlp: "cd_require_zlp (ctrl_data (dev s)) = 0"
    and L: "L = min (unat (req_len (dev_req (dev s)))) (unat len)"
  defines "s0 \<equiv> snd (usb_lld_ctrl_send hw buf len s)"
  shows "tx_packet s0 = take 64 (bytes (mem s) buf L)" "rest s0 = drop 64 (bytes (mem s) buf L)"
    and "tx_room s0" "dev_state (dev s0) = (if L < 64 then LAST_IN_DATA else IN_DATA)"
    and "cd_require_zlp (ctrl_data (dev s0)) \<noteq> 0 \<longleftrightarrow>
      unat len < unat (req_len (dev_req (dev s))) \<and> L \<noteq> 0 \<and> L mod 64 = 0"
    and "\<exists>r. s0 = st103_ep_set_rxtx_status hw ENDP0 EP_RX_NAK EP_TX_VALID r"
proof -
  let ?asked = "req_len (dev_req (dev s))"
  define c where "c = (let c = (ctrl_data (dev s))\<lparr>cd_addr := buf, cd_len := ucast len\<rparr>
    in if ?asked \<le> cd_len c then c\<lparr>cd_len := ?asked\<rparr>
       else if cd_len c \<noteq> 0 \<and> (ucast (cd_len c) :: u32) mod USB_MAX_PACKET_SIZE = 0
       then c\<lparr>cd_require_zlp := 1\<rparr> else c)"
  have ul: "unat (ucast len :: u16) = unat len"
    using len by (simp add: unsigned_ucast_eq take_bit_nat_eq_self)
  have cL: "unat (cd_len c) = L" "cd_addr c = buf"
    by (auto simp: c_def Let_def L ul word_le_nat_alt min_def)
  have uc: "unat (ucast w :: u32) = unat w" for w :: u16
    using unsigned_less [of w, where 'a = nat] by (simp add: unsigned_ucast_eq take_bit_nat_eq_self)
  have "(ucast (ucast len :: u16) :: u32) mod USB_MAX_PACKET_SIZE = 0 \<longleftrightarrow> unat len mod 64 = 0"
    unfolding unat_eq_zero [symmetric] unat_mod uc ul by (simp add: USB_MAX_PACKET_SIZE_def)
  moreover have "ucast len = (0 :: u16) \<longleftrightarrow> unat len = 0"
    unfolding ul [symmetric] by (simp only: unat_eq_zero)
  ultimately have cz: "cd_require_zlp c \<noteq> 0 \<longleftrightarrow> unat len < unat ?asked \<and> L \<noteq> 0 \<and> L mod 64 = 0"
    using zlp by (auto simp: c_def Let_def L ul word_le_nat_alt min_def)
  define pl :: u32 where "pl = (if ucast (cd_len c) < (64 :: u32) then ucast (cd_len c) else 64)"
  have pl: "unat pl = min 64 L" by (simp add: pl_def word_less_nat_alt uc cL min_def)
  define t where "t = set_dev_state (if L < 64 then LAST_IN_DATA else IN_DATA) (set_ctrl_data c s)"
  define u where u: "u = st103_set_tx_count ENDP0 (ucast pl) (send_part pl t)"
  have lt: "ucast (cd_len c) < (64 :: u32) \<longleftrightarrow> L < 64" by (simp add: word_less_nat_alt uc cL)
  have raw: "s0 = snd (let s = set_ctrl_data c s;
      (len, s) = (if ucast (cd_len c) < USB_MAX_PACKET_SIZE
                  then (ucast (cd_len c), set_dev_state LAST_IN_DATA s)
                  else (USB_MAX_PACKET_SIZE, set_dev_state IN_DATA s));
      s = (if len \<noteq> 0 then send_part len s else s);
      s = st103_set_tx_count ENDP0 (ucast len) s;
      s = st103_ep_set_rxtx_status hw ENDP0 EP_RX_NAK EP_TX_VALID s
    in (USB_EVENT_OK, s))"
    by (simp only: s0_def usb_lld_ctrl_send_def c_def Let_def split_def)
  have s0: "s0 = st103_ep_set_rxtx_status hw ENDP0 EP_RX_NAK EP_TX_VALID u"
    unfolding raw USB_MAX_PACKET_SIZE_def lt u t_def pl_def
    by (cases "L < 64"; cases "ucast (cd_len c) = (0 :: u32)") (simp_all add: Let_def send_part_0)
  then show "\<exists>r. s0 = st103_ep_set_rxtx_status hw ENDP0 EP_RX_NAK EP_TX_VALID r" by blast
  have t: "tx_room t" "rest t = bytes (mem s) buf L" "ctrl_data (dev t) = c" "mem t = mem s"
    "dev_state (dev t) = (if L < 64 then LAST_IN_DATA else IN_DATA)"
    using room tx_packet_cong(2) [of t s] by (simp_all add: t_def usb_frame rest_def cL)
  have "unat pl \<le> 64" "unat pl \<le> unat (cd_len (ctrl_data (dev t)))" by (simp_all add: pl t cL)
  note p = send_packet [OF t(1) this u]
  have eq: "pma s0 = pma u" "mem s0 = mem u" "dev s0 = dev u" by (simp_all add: s0 usb_frame)
  have "bytes (mem s) buf (min 64 L) = take 64 (bytes (mem s) buf L)"
    using bytes_append [of "mem s" buf "min 64 L" "L - min 64 L"] by (auto simp: min_def)
  moreover have "drop (min 64 L) (bytes (mem s) buf L) = drop 64 (bytes (mem s) buf L)"
    by (simp add: min_def)
  ultimately show "tx_packet s0 = take 64 (bytes (mem s) buf L)"
    "rest s0 = drop 64 (bytes (mem s) buf L)" "tx_room s0"
    "dev_state (dev s0) = (if L < 64 then LAST_IN_DATA else IN_DATA)"
    "cd_require_zlp (ctrl_data (dev s0)) \<noteq> 0 \<longleftrightarrow> unat len < unat ?asked \<and> L \<noteq> 0 \<and> L mod 64 = 0"
    using p t cz cL tx_packet_cong [of s0 u] by (simp_all add: eq pl)
qed

lemma short_last:
  assumes "ps \<noteq> []" "\<forall>p\<in>set (butlast ps). length p = k" "length (last ps) \<le> k"
    "length (concat ps) mod k \<noteq> 0 \<or> length (concat ps) = 0" "0 < k"
  shows "length (last ps) < k"
proof (rule ccontr)
  assume "\<not> ?thesis"
  then have "length (last ps) = k" using assms(3) by simp
  moreover have "ps = butlast ps @ [last ps]" using assms(1) by simp
  ultimately have "\<forall>p\<in>set ps. length p = k"
    using assms(2) by (metis Un_iff empty_iff empty_set set_ConsD set_append)
  then have "length (concat ps) = length ps * k" by (induction ps) auto
  then show False using assms by auto
qed

lemma control_in_packets:
  assumes f: "registers_only taken" and room: "tx_room s" and len: "unat len < 2 ^ 16"
    and zlp: "cd_require_zlp (ctrl_data (dev s)) = 0"
    and L: "L = min (unat (req_len (dev_req (dev s)))) (unat len)" "L \<noteq> 64"
    and run: "in_stage hw taken (L div 64 + 3) (snd (usb_lld_ctrl_send hw buf len s)) = (ps, s')"
  shows "concat ps = bytes (mem s) buf L \<and> ps \<noteq> [] \<and>
    (\<forall>p\<in>set (butlast ps). length p = 64) \<and> length (last ps) \<le> 64 \<and>
    (L < unat (req_len (dev_req (dev s))) \<longrightarrow> length (last ps) < 64) \<and>
    dev_state (dev s') = WAIT_STATUS_OUT \<and>
    (ep_write_law hw \<longrightarrow> EPREG s' 0 AND EPRX_STAT = EP_RX_VALID)"
proof -
  define s0 where "s0 = snd (usb_lld_ctrl_send hw buf len s)"
  note st = ctrl_send_starts [OF room len zlp L(1), of hw buf, folded s0_def]
  have snd: "sending s0" using st L(2) by (auto simp: sending_def)
  have z: "cd_require_zlp (ctrl_data (dev s0)) \<noteq> 0 \<Longrightarrow> length (rest s0) mod 64 = 0"
    using st by (auto simp: mod_eq_0_iff_dvd dvd_diff_nat)
  have full: "rest s0 \<noteq> [] \<or> cd_require_zlp (ctrl_data (dev s0)) \<noteq> 0 \<Longrightarrow> length (tx_packet s0) = 64"
    using st by (auto simp: min_def)
  have n: "(length (rest s0) + 63) div 64 + (if cd_require_zlp (ctrl_data (dev s0)) \<noteq> 0 then 2 else 1) \<le> L div 64 + 3"
    using st(2) by (auto intro: div_le_mono order_trans [of _ "(L + 63) div 64"])
  have "length (tx_packet s0) \<le> 64" using st(1) by simp
  from in_stage_sends [OF f snd this full z n run [folded s0_def]] st
  have *: "concat ps = bytes (mem s) buf L \<and> ps \<noteq> [] \<and> (\<forall>p\<in>set (butlast ps). length p = 64) \<and>
    length (last ps) \<le> 64 \<and> (cd_require_zlp (ctrl_data (dev s0)) \<noteq> 0 \<longrightarrow> last ps = []) \<and>
    dev_state (dev s') = WAIT_STATUS_OUT \<and> (ep_write_law hw \<longrightarrow> EPREG s' 0 AND EPRX_STAT = EP_RX_VALID)"
    by simp
  moreover have "length (last ps) < 64" if "L < unat (req_len (dev_req (dev s)))"
  proof (cases "cd_require_zlp (ctrl_data (dev s0)) \<noteq> 0")
    case False
    with st(5) that L(1) have "L mod 64 \<noteq> 0 \<or> L = 0" by auto
    then show ?thesis using * by (intro short_last) auto
  qed (use * in simp)
  ultimately show ?thesis by blast
qed

text \<open>
  The exception: when exactly 64 bytes are sent, the first packet
  holds them all, and the driver then arms an empty packet instead of turning to the status
  stage: after the host has taken its 64 bytes, the device is still in the data stage, with an
  empty packet that a host that asked for 64 bytes never takes, and its receiver still answers NAK to
  the host's status packet.
\<close>

lemma control_in_64_withheld:
  assumes law: "ep_write_law hw" and f: "registers_only taken"
    and rx: "\<forall>t. EPREG (taken t) 0 AND EPRX_STAT = EPREG t 0 AND EPRX_STAT"
    and room: "tx_room s" and zlp: "cd_require_zlp (ctrl_data (dev s)) = 0"
    and len: "unat len < 2 ^ 16" and L: "64 = min (unat (req_len (dev_req (dev s)))) (unat len)"
    and s0: "s0 = snd (usb_lld_ctrl_send hw buf len s)" and s1: "s1 = snd (handle_in0 hw (taken s0))"
  shows "tx_packet s0 = bytes (mem s) buf 64 \<and> dev_state (dev s1) = LAST_IN_DATA \<and>
    tx_packet s1 = [] \<and> EPREG s1 0 AND EPRX_STAT = EP_RX_NAK"
proof -
  note st = ctrl_send_starts [OF room len zlp L, of hw buf, folded s0, simplified]
  have nak: "((r AND NOT (EPRX_STAT OR EPTX_STAT)) OR (EP_RX_NAK AND EPRX_STAT) OR (EP_TX_VALID AND EPTX_STAT))
      AND EPRX_STAT = EP_RX_NAK"
    and keep: "((r AND NOT EPTX_STAT) OR (EP_TX_VALID AND EPTX_STAT)) AND EPRX_STAT = r AND EPRX_STAT" for r
    by (rule word16_eqI, simp only: word16_bits nak_bits, unfold less_16, elim insertE emptyE; auto simp: ep_bits)+
  from st(6) obtain r where r: "s0 = st103_ep_set_rxtx_status hw ENDP0 EP_RX_NAK EP_TX_VALID r" by blast
  obtain r' i where t: "taken s0 = s0\<lparr>EPREG := r', ISTR := i\<rparr>"
    using f unfolding registers_only_def by blast
  have "EPREG s0 0 AND EPRX_STAT = EP_RX_NAK"
    using nak [of "EPREG r 0"] unfolding r by (simp add: ep_set_rxtx_status [OF law] ENDP0_def)
  then have r0: "r' 0 AND EPRX_STAT = EP_RX_NAK" using rx [rule_format, of s0] t by simp
  define u where "u = set_dev_state LAST_IN_DATA (s0\<lparr>EPREG := r', ISTR := i\<rparr>)"
  define v where "v = st103_set_tx_count ENDP0 0 u"
  have c0: "cd_len (ctrl_data (dev s0)) = 0" using st(2) rest_empty [of s0] by simp
  have s1': "s1 = st103_ep_set_tx_status hw ENDP0 EP_TX_VALID v"
    using st(4) c0 unfolding s1 t handle_in0_def v_def u_def
    by (simp add: handle_datastage_in_def Let_def send_part_0 USB_MAX_PACKET_SIZE_def)
  have v: "v = st103_set_tx_count ENDP0 (ucast (0 :: u32)) (send_part 0 u)"
    by (simp add: v_def send_part_0)
  have "tx_room u" using st(3) tx_packet_cong(2) [of u s0] by (simp add: u_def usb_frame)
  note p = send_packet [OF this _ _ v]
  have "pma s1 = pma v" "dev s1 = dev v" by (simp_all add: s1' usb_frame)
  moreover have "EPREG s1 0 AND EPRX_STAT = EP_RX_NAK"
    using r0 unfolding s1' by (simp add: ep_set_tx_status [OF law] ENDP0_def v_def u_def usb_frame keep)
  ultimately show ?thesis
    using p st(1) tx_packet_cong(1) [of s1 v] by (simp add: u_def usb_frame bytes_def)
qed

text \<open>
  C14: A control transfer to the host. After usb_lld_ctrl_send with a buffer of len bytes, for a
  request that asked for any number of bytes, the host receives exactly the first
  min (asked, len) bytes of the buffer, in packets of 64 bytes but for the last one; when that is
  less than it asked for, the last packet is short or empty, so that the host can tell; then the
  device waits for the status stage with its receiver enabled. When that number is exactly 64, the host
  gets the 64 bytes, but the driver does not turn to the status stage: an empty packet is armed, and
  the receiver still answers NAK. The buffer must lie in the packet memory outside the descriptor of endpoint 0.
\<close>

theorem control_in_delivers:
  assumes f: "registers_only taken" and room: "tx_room s" and len: "unat len < 2 ^ 16"
    and zlp: "cd_require_zlp (ctrl_data (dev s)) = 0"
    and L: "L = min (unat (req_len (dev_req (dev s)))) (unat len)"
    and s0: "s0 = snd (usb_lld_ctrl_send hw buf len s)"
    and run: "in_stage hw taken (L div 64 + 3) s0 = (ps, s')"
    and law: "ep_write_law hw" and rx: "\<forall>t. EPREG (taken t) 0 AND EPRX_STAT = EPREG t 0 AND EPRX_STAT"
  shows "if L = 64 then
      tx_packet s0 = bytes (mem s) buf 64 \<and>
      (let s1 = snd (handle_in0 hw (taken s0))
       in dev_state (dev s1) = LAST_IN_DATA \<and> tx_packet s1 = [] \<and> EPREG s1 0 AND EPRX_STAT = EP_RX_NAK)
    else
      concat ps = bytes (mem s) buf L \<and> ps \<noteq> [] \<and>
      (\<forall>p\<in>set (butlast ps). length p = 64) \<and> length (last ps) \<le> 64 \<and>
      (L < unat (req_len (dev_req (dev s))) \<longrightarrow> length (last ps) < 64) \<and>
      dev_state (dev s') = WAIT_STATUS_OUT \<and> EPREG s' 0 AND EPRX_STAT = EP_RX_VALID"
proof (cases "L = 64")
  case True
  then show ?thesis
    using control_in_64_withheld [OF law f rx room zlp len _ s0 refl] L by (simp add: Let_def)
next
  case False
  then show ?thesis
    using control_in_packets [OF f room len zlp L False run [unfolded s0]] law by simp
qed

text \<open>A device that is asked for 100 bytes; its packet for endpoint 0 is at 64.\<close>

definition asked_for :: "u16 \<Rightarrow> usb" where
  "asked_for n = reset_usb\<lparr>pma := (\<lambda>_. 0)(PMA_ADDR := 64), mem := (\<lambda>p. ucast p),
    dev := \<lparr>configuration = 0, feature = 0, dev_state = WAIT_SETUP,
      dev_req = \<lparr>req_type = 0x80, req_request = 6, req_value = 0, req_index = 0, req_len = n\<rparr>,
      ctrl_data = \<lparr>cd_addr = 0, cd_len = 0, cd_require_zlp = 0\<rparr>\<rparr>\<rparr>"

lemma asked_for:
  "tx_room (asked_for n)" "cd_require_zlp (ctrl_data (dev (asked_for n))) = 0"
  "req_len (dev_req (dev (asked_for n))) = n" "registers_only (\<lambda>s. s)"
proof -
  show "registers_only (\<lambda>s. s)"
    unfolding registers_only_def
  proof
    fix s :: usb
    show "\<exists>r i. s = s\<lparr>EPREG := r, ISTR := i\<rparr>" by (intro exI [of _ "EPREG s"] exI [of _ "ISTR s"]) simp
  qed
qed (simp_all add: asked_for_def tx_room_def st103_get_tx_addr_def btable_p_def ENDP0_def)

theorem control_in_delivers_witness:
  "\<exists>ps s'. in_stage stm32_hw (\<lambda>s. s) 4 (snd (usb_lld_ctrl_send stm32_hw 256 70 (asked_for 100))) = (ps, s') \<and>
    concat ps = bytes (mem (asked_for 100)) 256 70 \<and> dev_state (dev s') = WAIT_STATUS_OUT"
proof -
  have n: "(70 :: nat) div 64 + 3 = 4" by simp
  obtain ps s' where run: "in_stage stm32_hw (\<lambda>s. s) (70 div 64 + 3)
      (snd (usb_lld_ctrl_send stm32_hw 256 70 (asked_for 100))) = (ps, s')"
    by (cases "in_stage stm32_hw (\<lambda>s. s) (70 div 64 + 3)
      (snd (usb_lld_ctrl_send stm32_hw 256 70 (asked_for 100)))") blast
  have h: "unat (70 :: u32) < 2 ^ 16" "70 = min (unat (req_len (dev_req (dev (asked_for 100))))) (unat (70 :: u32))"
    by (simp_all add: asked_for(3))
  have "concat ps = bytes (mem (asked_for 100)) 256 70 \<and> dev_state (dev s') = WAIT_STATUS_OUT"
    using control_in_delivers [OF asked_for(4,1) h(1) asked_for(2) h(2) refl run stm32_hw_law] by simp
  then show ?thesis using run unfolding n by blast
qed

section \<open>Control transfers from the host\<close>

definition rx_packet :: "usb \<Rightarrow> u8 list" where
  "rx_packet s = List.map (\<lambda>i. pma_byte (pma s) (unat (st103_get_rx_addr ENDP0 s) + i))
     [0..<unat (st103_get_rx_count ENDP0 s)]"

text \<open>The controller puts a packet into its memory and touches nothing of the driver's.\<close>

definition delivers :: "usb \<Rightarrow> u8 list \<Rightarrow> usb \<Rightarrow> bool" where
  "delivers s p t \<longleftrightarrow> dev t = dev s \<and> mem t = mem s \<and> rx_packet t = p"

inductive out_stage :: "usb_hw \<Rightarrow> usb \<Rightarrow> u8 list list \<Rightarrow> usb \<Rightarrow> bool" for hw s where
  out_start: "out_stage hw s [] s"
| out_packet: "out_stage hw s ps t \<Longrightarrow> delivers t p u \<Longrightarrow> out_stage hw s (ps @ [p]) (handle_out0 hw u)"

lemma out_step:
  fixes hw :: usb_hw
  assumes st: "dev_state (dev s) = OUT_DATA" "cd_addr (ctrl_data (dev s)) \<noteq> 0" "cd_len (ctrl_data (dev s)) \<noteq> 0"
    and d: "delivers s p t"
    and k: "k = min (length p) (unat (cd_len (ctrl_data (dev s))))"
  defines "s' \<equiv> handle_out0 hw t"
  shows "mem s' x = (if unat (x - cd_addr (ctrl_data (dev s))) < k
      then p ! unat (x - cd_addr (ctrl_data (dev s))) else mem s x)"
    and "cd_addr (ctrl_data (dev s')) = cd_addr (ctrl_data (dev s)) + of_nat k"
    and "unat (cd_len (ctrl_data (dev s'))) = unat (cd_len (ctrl_data (dev s))) - k"
    and "dev_state (dev s') = (if k = unat (cd_len (ctrl_data (dev s))) then WAIT_STATUS_IN else OUT_DATA)"
proof -
  let ?c = "ctrl_data (dev s)"
  have dt: "dev t = dev s" "mem t = mem s" and p: "rx_packet t = p" using d by (auto simp: delivers_def)
  define cnt where "cnt = st103_get_rx_count ENDP0 t"
  have lp: "length p = unat cnt" unfolding p [symmetric] by (simp add: rx_packet_def cnt_def)
  have uc: "unat (ucast w :: u32) = unat w" for w :: u16
    using unsigned_less [of w, where 'a = nat] by (simp add: unsigned_ucast_eq take_bit_nat_eq_self)
  define len :: u32 where "len = (if (ucast (cd_len ?c) :: u32) < ucast cnt then ucast (cd_len ?c) else ucast cnt)"
  have len: "unat len = k" by (auto simp: len_def k lp word_less_nat_alt uc)
  define u where "u = usb_lld_from_pmabuf (cd_addr ?c) (st103_get_rx_addr ENDP0 t) len t"
  define v where "v = set_ctrl_data (?c\<lparr>cd_len := cd_len ?c - ucast len, cd_addr := cd_addr ?c + len\<rparr>) u"
  have s': "s' = (if cd_len (ctrl_data (dev v)) = 0
      then st103_ep_set_tx_status hw ENDP0 EP_TX_VALID (st103_set_tx_count ENDP0 0 (set_dev_state WAIT_STATUS_IN v))
      else st103_ep_set_rx_status hw ENDP0 EP_RX_VALID (set_dev_state OUT_DATA v))"
    unfolding s'_def handle_out0_def handle_datastage_out_def
    using st by (simp add: Let_def dt len_def [unfolded cnt_def, symmetric] v_def u_def)
  have kle: "k \<le> unat (cd_len ?c)" by (simp add: k)
  have "unat (ucast len :: u16) = k"
    using kle unsigned_less [of "cd_len ?c", where 'a = nat]
    by (simp add: unsigned_ucast_eq take_bit_nat_eq_self len)
  then have cl: "unat (cd_len ?c - ucast len) = unat (cd_len ?c) - k"
    using kle by (simp add: unat_sub word_le_nat_alt)
  have cd: "ctrl_data (dev s') = ?c\<lparr>cd_len := cd_len ?c - ucast len, cd_addr := cd_addr ?c + len\<rparr>"
    by (simp add: s' usb_frame v_def)
  show "unat (cd_len (ctrl_data (dev s'))) = unat (cd_len ?c) - k" by (simp add: cd cl)
  have "len = of_nat k" unfolding len [symmetric] by simp
  then show "cd_addr (ctrl_data (dev s')) = cd_addr ?c + of_nat k" by (simp add: cd)
  have "cd_len (ctrl_data (dev v)) = 0 \<longleftrightarrow> k = unat (cd_len ?c)"
    using kle cl by (auto simp: v_def usb_frame unat_eq_zero [symmetric])
  then show "dev_state (dev s') = (if k = unat (cd_len ?c) then WAIT_STATUS_IN else OUT_DATA)"
    by (simp add: s' usb_frame)
  have "mem s' x = mem u x" by (simp add: s' usb_frame v_def)
  also have "\<dots> = (if unat (x - cd_addr ?c) < k
      then pma_byte (pma t) (unat (st103_get_rx_addr ENDP0 t) + unat (x - cd_addr ?c)) else mem s x)"
    by (simp add: u_def usb_lld_from_pmabuf_bytes len dt)
  also have "\<dots> = (if unat (x - cd_addr ?c) < k then p ! unat (x - cd_addr ?c) else mem s x)"
    unfolding p [symmetric] using k lp by (simp add: rx_packet_def cnt_def)
  finally show "mem s' x = (if unat (x - cd_addr ?c) < k then p ! unat (x - cd_addr ?c) else mem s x)" .
qed

lemma window_step:
  assumes "m + k < 2 ^ 31" "d = a + of_nat m"
  shows "unat (x - d :: u32) < k \<and> \<not> unat (x - a) < m \<and> unat (x - a) < m + k \<and> unat (x - d) = unat (x - a) - m \<or>
    \<not> unat (x - d) < k \<and> (unat (x - a) < m \<or> \<not> unat (x - a) < m + k)"
proof -
  have m: "unat (of_nat m :: u32) = m" using assms(1) by (simp add: unat_of_nat)
  have "x - d = (x - a) - of_nat m" by (simp add: assms(2))
  then have "unat (x - d) = (if m \<le> unat (x - a) then unat (x - a) - m else unat (x - a) + 2 ^ 32 - m)"
    by (simp only: unat_sub_if' m) simp
  then show ?thesis using assms(1) by auto
qed

lemma out_stage_fills:
  assumes "out_stage hw s ps s'" "dev_state (dev s) = OUT_DATA" "ctrl_data (dev s) = c"
    "cd_addr c \<noteq> 0" "unat (cd_addr c) + unat (cd_len c) < 2 ^ 32" "0 < unat (cd_len c)"
  shows "length (concat (butlast ps)) < unat (cd_len c) \<Longrightarrow>
    (let n = min (length (concat ps)) (unat (cd_len c)) in
      (\<forall>x. mem s' x = (if unat (x - cd_addr c) < n then concat ps ! unat (x - cd_addr c) else mem s x)) \<and>
      cd_addr (ctrl_data (dev s')) = cd_addr c + of_nat n \<and> unat (cd_len (ctrl_data (dev s'))) = unat (cd_len c) - n \<and>
      dev_state (dev s') = (if n = unat (cd_len c) then WAIT_STATUS_IN else OUT_DATA))"
  using assms(1)
proof (induction rule: out_stage.induct)
  case out_start
  then show ?case using assms by (auto simp: Let_def)
next
  case (out_packet ps t p u)
  let ?d = "ctrl_data (dev t)" and ?m = "length (concat ps)"
  have m: "?m < unat (cd_len c)" using out_packet.prems by simp
  moreover have "length (concat (butlast ps)) \<le> ?m"
    by (cases ps rule: rev_cases) simp_all
  ultimately have *: "\<forall>x. mem t x = (if unat (x - cd_addr c) < ?m then concat ps ! unat (x - cd_addr c) else mem s x)"
    "cd_addr ?d = cd_addr c + of_nat ?m" "unat (cd_len ?d) = unat (cd_len c) - ?m" "dev_state (dev t) = OUT_DATA"
    using out_packet.IH by (auto simp: Let_def min_def)
  have na: "unat (cd_addr ?d) = unat (cd_addr c) + ?m"
    using m assms(5) by (simp add: *(2) unat_word_ariths unat_of_nat)
  have "unat (cd_addr c) \<noteq> 0" using assms(4) by (simp add: unat_eq_zero)
  with na have a0: "cd_addr ?d \<noteq> 0" by (auto simp flip: unat_eq_zero)
  have l0: "cd_len ?d \<noteq> 0" using m *(3) by (auto simp flip: unat_eq_zero)
  define k where "k = min (length p) (unat (cd_len ?d))"
  note step = out_step [OF *(4) a0 l0 out_packet.hyps(2) k_def, of hw]
  have n: "min (length (concat (ps @ [p]))) (unat (cd_len c)) = ?m + k"
    using m by (auto simp: k_def *(3) min_def)
  have "?m + k < 2 ^ 31"
    using m unsigned_less [of "cd_len c", where 'a = nat] by (simp add: k_def *(3))
  note addr = window_step [OF this *(2)]
  show ?case
    unfolding n Let_def
  proof (intro conjI allI)
    fix x
    show "mem (handle_out0 hw u) x =
      (if unat (x - cd_addr c) < ?m + k then concat (ps @ [p]) ! unat (x - cd_addr c) else mem s x)"
      using addr [of x] unfolding step(1) by (auto simp: *(1) nth_append k_def)
  qed (use step *(2,3) m in \<open>auto simp: k_def\<close>)
qed

text \<open>
  C15: A control transfer from the host. After usb_lld_ctrl_recv with a buffer of len bytes, the
  packets the host sends fill the buffer in order: as long as they were not complete before the
  last of them, the buffer holds the bytes received, no byte outside it changes however long the
  last packet is, and the device waits for more data when bytes are missing and for the status
  stage when the buffer is full.
\<close>

theorem control_out_fills:
  assumes "out_stage hw (snd (usb_lld_ctrl_recv hw buf len s)) ps s'"
    and "buf \<noteq> 0" "0 < unat len" "unat len < 2 ^ 16" "unat buf + unat len < 2 ^ 32"
    and "length (concat (butlast ps)) < unat len"
  shows "(\<forall>x. mem s' x = (if unat (x - buf) < min (length (concat ps)) (unat len)
      then concat ps ! unat (x - buf) else mem s x)) \<and>
    dev_state (dev s') = (if unat len \<le> length (concat ps) then WAIT_STATUS_IN else OUT_DATA)"
proof -
  let ?s = "snd (usb_lld_ctrl_recv hw buf len s)"
  have l: "unat (ucast len :: u16) = unat len"
    using assms(4) by (simp add: unsigned_ucast_eq take_bit_nat_eq_self)
  have st: "dev_state (dev ?s) = OUT_DATA" "cd_addr (ctrl_data (dev ?s)) = buf"
    "unat (cd_len (ctrl_data (dev ?s))) = unat len" "mem ?s = mem s"
    by (simp_all add: usb_lld_ctrl_recv_def Let_def usb_frame l)
  show ?thesis
    using out_stage_fills [OF assms(1) st(1) refl] assms by (auto simp: st Let_def min_def)
qed

theorem control_out_fills_witness:
  "\<exists>t s'. delivers (snd (usb_lld_ctrl_recv stm32_hw 256 2 (asked_for 0))) [7, 8] t \<and> s' = handle_out0 stm32_hw t \<and>
    mem s' 257 = 8 \<and> dev_state (dev s') = WAIT_STATUS_IN"
proof -
  let ?s = "snd (usb_lld_ctrl_recv stm32_hw 256 2 (asked_for 0))"
  define t where "t = ?s\<lparr>pma := (\<lambda>_. 0)(pma_p 4 := 64, pma_p 6 := 2, pma_p 64 := 0x0807)\<rparr>"
  have p: "pma_p 6 \<noteq> pma_p 4" "pma_p 64 \<noteq> pma_p 4" "pma_p 64 \<noteq> pma_p 6" "pma_p 65 = pma_p 64"
    by (simp_all add: pma_p_eq pma_p_def)
  have b: "btable_p ENDP0 4 = pma_p 4" "btable_p ENDP0 6 = pma_p 6"
    by (simp_all add: btable_p_def pma_p_def ENDP0_def)
  have "pma_byte (pma t) 64 = 7" "pma_byte (pma t) 65 = 8"
    by (simp_all add: t_def pma_byte_def p drop_bit_eq_div)
  moreover have "st103_get_rx_addr ENDP0 t = 64" "st103_get_rx_count ENDP0 t = 2"
    using p by (simp_all add: st103_get_rx_addr_def st103_get_rx_count_def b t_def)
  ultimately have "rx_packet t = [7, 8]" by (simp add: rx_packet_def upt_rec)
  then have d: "delivers ?s [7, 8] t" by (simp add: delivers_def t_def)
  from out_packet [OF out_start d]
  have o: "out_stage stm32_hw ?s [[7, 8]] (handle_out0 stm32_hw t)" by simp
  have "mem (handle_out0 stm32_hw t) 257 = 8 \<and> dev_state (dev (handle_out0 stm32_hw t)) = WAIT_STATUS_IN"
    using control_out_fills [OF o] by simp
  with d show ?thesis by blast
qed

end
