(* ===== verification/Ring_Buffer.thy ===== *)
theory Ring_Buffer
  imports Chopstx_Prelude
begin

text \<open>
  The ring buffer of the serial driver (\<open>contrib/usart-stm32f103.c\<close>, \<open>struct rb\<close> and the \<open>rb_\<close>
  routines). Its head, tail and size are bit fields of ten bits, so that they are words of that
  width here. The buffer's memory is a list of bytes.

  Every routine locks the mutex of the buffer, so that what it does between locking and
  unlocking, or waiting, is one step here. A signal to one of the two conditions of the buffer is an
  element of the list that the step returns; a step that has to wait for one says for which.
\<close>

section \<open>State and operations\<close>

record rb =
  rb_buf :: "u8 list"
  rb_head :: "10 word"
  rb_tail :: "10 word"
  rb_size :: "10 word"
  rb_full :: bool
  rb_empty :: bool

datatype rb_cond = Data_available | Space_available

definition rb_init :: "u8 list \<Rightarrow> u16 \<Rightarrow> rb" where
  "rb_init p sz = \<lparr>rb_buf = p, rb_head = 0, rb_tail = 0, rb_size = ucast sz, rb_full = False, rb_empty = True\<rparr>"

definition rb_add :: "u8 \<Rightarrow> rb \<Rightarrow> rb" where
  "rb_add v rb =
     (let rb = rb\<lparr>rb_buf := (rb_buf rb)[unat (rb_tail rb) := v], rb_tail := rb_tail rb + 1\<rparr>;
          rb = (if rb_tail rb = rb_size rb then rb\<lparr>rb_tail := 0\<rparr> else rb);
          rb = (if rb_tail rb = rb_head rb then rb\<lparr>rb_full := True\<rparr> else rb)
      in rb\<lparr>rb_empty := False\<rparr>)"

definition rb_del :: "rb \<Rightarrow> u8 \<times> rb" where
  "rb_del rb =
     (let v = rb_buf rb ! unat (rb_head rb);
          rb = rb\<lparr>rb_head := rb_head rb + 1\<rparr>;
          rb = (if rb_head rb = rb_size rb then rb\<lparr>rb_head := 0\<rparr> else rb);
          rb = (if rb_head rb = rb_tail rb then rb\<lparr>rb_empty := True\<rparr> else rb)
      in (v, rb\<lparr>rb_full := False\<rparr>))"

definition rb_ll_put :: "rb \<Rightarrow> u8 \<Rightarrow> int \<times> rb_cond list \<times> rb" where
  "rb_ll_put rb v =
     (if rb_full rb then (- 1, [], rb) else (0, [Data_available], rb_add v rb))"

definition rb_ll_get :: "rb \<Rightarrow> int \<times> rb_cond list \<times> rb" where
  "rb_ll_get rb =
     (if rb_empty rb then (- 1, [], rb)
      else (let (v, rb) = rb_del rb in (uint v, [Space_available], rb)))"

text \<open>On a damaged buffer the loop of \<open>rb_ll_flush\<close> may never end: that is \<open>None\<close>.\<close>

partial_function (option) rb_flush_loop :: "rb \<Rightarrow> rb option" where
  "rb_flush_loop rb = (if \<not> rb_empty rb then rb_flush_loop (snd (rb_del rb)) else Some rb)"

definition rb_ll_flush :: "rb \<Rightarrow> (rb_cond list \<times> rb) option" where
  "rb_ll_flush rb = map_option (\<lambda>rb. ([Space_available], rb)) (rb_flush_loop rb)"

text \<open>The loop of \<open>rb_read\<close>, by the room left in the caller's buffer.\<close>

fun rb_read_loop :: "nat \<Rightarrow> rb \<Rightarrow> u8 list \<times> rb" where
  "rb_read_loop 0 rb = ([], rb)"
| "rb_read_loop (Suc k) rb =
     (let (v, rb) = rb_del rb
      in if rb_empty rb then ([v], rb)
         else (let (vs, rb) = rb_read_loop k rb in (v # vs, rb)))"

text \<open>A call of \<open>rb_read\<close> or \<open>rb_write\<close> runs until it returns or waits for a condition.\<close>

datatype 'a rb_call = Rb_done 'a | Rb_waits rb_cond

definition rb_read :: "rb \<Rightarrow> u16 \<Rightarrow> u8 list rb_call \<times> rb_cond list \<times> rb" where
  "rb_read rb buflen =
     (if rb_empty rb then (Rb_waits Data_available, [], rb)
      else (let (vs, rb) = rb_read_loop (unat buflen) rb in (Rb_done vs, [Space_available], rb)))"

fun rb_write_fill :: "u8 list \<Rightarrow> rb \<Rightarrow> u8 list \<times> rb_cond list \<times> rb" where
  "rb_write_fill [] rb = ([], [], rb)"
| "rb_write_fill (v # vs) rb =
     (let rb = rb_add v rb
      in if rb_full rb then (vs, [Data_available], rb) else rb_write_fill vs rb)"

text \<open>
  \<open>rb_write\<close> from its start, or from where it waited, with the bytes that are still to be
  written; when bytes are left, the buffer is full and it waits again.
\<close>

definition rb_write :: "u16 \<Rightarrow> u8 list \<Rightarrow> rb \<Rightarrow> unit rb_call \<times> u8 list \<times> rb_cond list \<times> rb" where
  "rb_write buflen vs rb =
     (if rb_full rb then (Rb_waits Space_available, vs, [], rb)
      else (let (rest, sigs, rb) = rb_write_fill vs rb
            in if rest \<noteq> [] then (Rb_waits Space_available, rest, sigs, rb)
               else (Rb_done (), [], sigs @ (if buflen \<noteq> 0 then [Data_available] else []), rb)))"

text \<open>What the driver's thread asks before it waits for the application's bytes.\<close>

definition rb_empty_check :: "rb \<Rightarrow> bool" where
  "rb_empty_check rb \<longleftrightarrow> \<not> rb_empty rb"

section \<open>The queue it stands for\<close>

definition rb_ok :: "rb \<Rightarrow> bool" where
  "rb_ok rb \<longleftrightarrow> (let n = length (rb_buf rb) in
     0 < n \<and> n \<le> 1024 \<and> rb_size rb = of_nat n \<and> unat (rb_head rb) < n \<and> unat (rb_tail rb) < n \<and>
     \<not> (rb_full rb \<and> rb_empty rb) \<and> (rb_head rb = rb_tail rb \<longleftrightarrow> rb_full rb \<or> rb_empty rb))"

definition rb_count :: "rb \<Rightarrow> nat" where
  "rb_count rb =
     (if rb_full rb then length (rb_buf rb)
      else if unat (rb_head rb) \<le> unat (rb_tail rb) then unat (rb_tail rb) - unat (rb_head rb)
      else unat (rb_tail rb) + length (rb_buf rb) - unat (rb_head rb))"

definition rb_contents :: "rb \<Rightarrow> u8 list" where
  "rb_contents rb =
     List.map (\<lambda>i. rb_buf rb ! ((unat (rb_head rb) + i) mod length (rb_buf rb))) [0..<rb_count rb]"

text \<open>What a bounded queue promises.\<close>

locale bounded_queue =
  fixes inv :: "'q \<Rightarrow> bool" and contents :: "'q \<Rightarrow> 'a list" and capacity :: "'q \<Rightarrow> nat"
    and add :: "'a \<Rightarrow> 'q \<Rightarrow> 'q" and del :: "'q \<Rightarrow> 'a \<times> 'q"
    and is_full :: "'q \<Rightarrow> bool" and is_empty :: "'q \<Rightarrow> bool"
  assumes full_iff: "inv q \<Longrightarrow> is_full q \<longleftrightarrow> length (contents q) = capacity q"
    and empty_iff: "inv q \<Longrightarrow> is_empty q \<longleftrightarrow> contents q = []"
    and fits: "inv q \<Longrightarrow> length (contents q) \<le> capacity q"
    and add: "inv q \<Longrightarrow> \<not> is_full q \<Longrightarrow>
      inv (add x q) \<and> contents (add x q) = contents q @ [x] \<and> capacity (add x q) = capacity q"
    and del: "inv q \<Longrightarrow> \<not> is_empty q \<Longrightarrow>
      inv (snd (del q)) \<and> contents q = fst (del q) # contents (snd (del q)) \<and> capacity (snd (del q)) = capacity q"
begin

lemma add_all:
  "inv q \<Longrightarrow> length (contents q) + length xs \<le> capacity q \<Longrightarrow>
   inv (fold add xs q) \<and> contents (fold add xs q) = contents q @ xs \<and> capacity (fold add xs q) = capacity q"
proof (induction xs arbitrary: q)
  case (Cons x xs)
  then have "\<not> is_full q" by (simp add: full_iff)
  with Cons show ?case using add [of q x] by simp
qed simp

lemma del_all:
  "inv q \<Longrightarrow> k \<le> length (contents q) \<Longrightarrow>
   inv (((snd \<circ> del) ^^ k) q) \<and> contents (((snd \<circ> del) ^^ k) q) = drop k (contents q) \<and>
   capacity (((snd \<circ> del) ^^ k) q) = capacity q"
proof (induction k arbitrary: q)
  case (Suc k)
  then have "\<not> is_empty q" by (auto simp: empty_iff)
  from del [OF Suc.prems(1) this] Suc.prems
    Suc.IH [of "snd (del q)"] show ?case
    by (auto simp: funpow_swap1 drop_Suc simp del: funpow.simps(2) dest: arg_cong [of _ _ tl] arg_cong [of _ _ length]
        simp: funpow_Suc_right)
qed simp

end

section \<open>The ring buffer is a bounded queue\<close>

lemma next_index:
  assumes "unat (p :: 10 word) < n" "n \<le> 1024" "sz = of_nat n"
  shows "unat (if p + 1 = sz then 0 else p + 1) = (unat p + 1) mod n"
proof -
  have u: "unat (p + 1) = (unat p + 1) mod 1024" by (simp add: unat_word_ariths)
  have s: "unat sz = n mod 1024" by (simp add: assms(3) unat_of_nat)
  have eq: "p + 1 = sz \<longleftrightarrow> unat p + 1 = n"
  proof -
    have "p + 1 = sz \<longleftrightarrow> (unat p + 1) mod 1024 = n mod 1024" by (simp add: word_unat_eq_iff u s)
    also have "\<dots> \<longleftrightarrow> unat p + 1 = n"
      using assms(1,2) by (cases "unat p + 1 = 1024"; cases "n = 1024") auto
    finally show ?thesis .
  qed
  show ?thesis
  proof (cases "unat p + 1 = n")
    case True
    then show ?thesis by (simp add: eq)
  next
    case False
    then have "unat p + 1 < n" using assms(1) by simp
    then show ?thesis using assms(2) False by (simp add: eq u)
  qed
qed

text \<open>Both indices as numbers, and the count between them.\<close>

lemma rb_okD:
  assumes "rb_ok rb"
  shows "0 < length (rb_buf rb)" "length (rb_buf rb) \<le> 1024" "rb_size rb = of_nat (length (rb_buf rb))"
    "unat (rb_head rb) < length (rb_buf rb)" "unat (rb_tail rb) < length (rb_buf rb)"
    "\<not> (rb_full rb \<and> rb_empty rb)" "unat (rb_head rb) = unat (rb_tail rb) \<longleftrightarrow> rb_full rb \<or> rb_empty rb"
  using assms by (auto simp: rb_ok_def Let_def word_unat_eq_iff)

lemma rb_okI:
  assumes "0 < length (rb_buf rb)" "length (rb_buf rb) \<le> 1024" "rb_size rb = of_nat (length (rb_buf rb))"
    "unat (rb_head rb) < length (rb_buf rb)" "unat (rb_tail rb) < length (rb_buf rb)"
    "\<not> (rb_full rb \<and> rb_empty rb)" "unat (rb_head rb) = unat (rb_tail rb) \<longleftrightarrow> rb_full rb \<or> rb_empty rb"
  shows "rb_ok rb"
  using assms by (auto simp: rb_ok_def Let_def word_unat_eq_iff)

lemma length_rb_contents [simp]: "length (rb_contents rb) = rb_count rb"
  by (simp add: rb_contents_def)

lemma rb_tail_eq:
  assumes "rb_ok rb"
  shows "unat (rb_tail rb) = (unat (rb_head rb) + rb_count rb) mod length (rb_buf rb)"
  using rb_okD [OF assms] by (auto simp: rb_count_def)

lemma rb_count_bounds:
  assumes "rb_ok rb"
  shows "rb_count rb \<le> length (rb_buf rb)" "rb_full rb \<longleftrightarrow> rb_count rb = length (rb_buf rb)"
    "rb_empty rb \<longleftrightarrow> rb_count rb = 0"
  using rb_okD [OF assms] by (auto simp: rb_count_def)

lemma rb_add_fields:
  assumes ok: "rb_ok rb"
  shows "rb_buf (rb_add v rb) = (rb_buf rb)[unat (rb_tail rb) := v]" "rb_head (rb_add v rb) = rb_head rb"
    "rb_size (rb_add v rb) = rb_size rb"
    "unat (rb_tail (rb_add v rb)) = (unat (rb_tail rb) + 1) mod length (rb_buf rb)"
    "rb_full (rb_add v rb) \<longleftrightarrow> rb_full rb \<or> unat (rb_tail (rb_add v rb)) = unat (rb_head rb)"
    "\<not> rb_empty (rb_add v rb)"
proof -
  show "unat (rb_tail (rb_add v rb)) = (unat (rb_tail rb) + 1) mod length (rb_buf rb)"
    using next_index [OF rb_okD(5) [OF ok] rb_okD(2) [OF ok] rb_okD(3) [OF ok]]
    by (auto simp: rb_add_def Let_def split: if_splits)
qed (auto simp: rb_add_def Let_def word_unat_eq_iff)

lemma rb_del_fields:
  assumes ok: "rb_ok rb"
  shows "fst (rb_del rb) = rb_buf rb ! unat (rb_head rb)"
    "rb_buf (snd (rb_del rb)) = rb_buf rb" "rb_tail (snd (rb_del rb)) = rb_tail rb"
    "rb_size (snd (rb_del rb)) = rb_size rb"
    "unat (rb_head (snd (rb_del rb))) = (unat (rb_head rb) + 1) mod length (rb_buf rb)"
    "rb_empty (snd (rb_del rb)) \<longleftrightarrow> rb_empty rb \<or> unat (rb_head (snd (rb_del rb))) = unat (rb_tail rb)"
    "\<not> rb_full (snd (rb_del rb))"
proof -
  show "unat (rb_head (snd (rb_del rb))) = (unat (rb_head rb) + 1) mod length (rb_buf rb)"
    using next_index [OF rb_okD(4) [OF ok] rb_okD(2) [OF ok] rb_okD(3) [OF ok]]
    by (auto simp: rb_del_def Let_def split: if_splits)
qed (auto simp: rb_del_def Let_def word_unat_eq_iff)

lemma mod_step: "0 < n \<Longrightarrow> i < n \<Longrightarrow> k < n \<Longrightarrow> (i + k + 1) mod n = i \<longleftrightarrow> k + 1 = (n :: nat)"
  by (cases "i + k + 1 < n"; cases "i + k + 1 < 2 * n") (auto simp: mod_if)

lemma mod_less_twice: "(a :: nat) < 2 * n \<Longrightarrow> a mod n = (if a < n then a else a - n)"
  by (auto simp: mod_if)

lemma mod_add_inj: "h < n \<Longrightarrow> i < n \<Longrightarrow> j < n \<Longrightarrow> (h + i) mod n = (h + j) mod n \<longleftrightarrow> i = (j :: nat)"
  by (auto simp: mod_less_twice split: if_splits)

lemma rb_add_queue:
  assumes ok: "rb_ok rb" and nf: "\<not> rb_full rb"
  shows "rb_ok (rb_add v rb) \<and> rb_contents (rb_add v rb) = rb_contents rb @ [v] \<and>
    length (rb_buf (rb_add v rb)) = length (rb_buf rb)"
proof -
  let ?n = "length (rb_buf rb)" and ?h = "unat (rb_head rb)" and ?k = "rb_count rb" and ?r = "rb_add v rb"
  note d = rb_okD [OF ok] and f = rb_add_fields [OF ok, of v] and t = rb_tail_eq [OF ok]
  have k: "?k < ?n" using rb_count_bounds [OF ok] nf by auto
  have t': "unat (rb_tail ?r) = (?h + ?k + 1) mod ?n" by (simp add: f t mod_simps)
  have full: "rb_full ?r \<longleftrightarrow> ?k + 1 = ?n"
    using mod_step [OF d(1,4) k] nf by (simp add: f(5) t')
  have ok': "rb_ok ?r"
    by (rule rb_okI) (use d f full mod_step [OF d(1,4) k] t' in \<open>auto simp: eq_commute [of ?h]\<close>)
  moreover have cnt: "rb_count ?r = ?k + 1"
  proof (cases "?k + 1 = ?n")
    case True
    then show ?thesis using full rb_count_bounds(2) [OF ok'] by (simp add: f(1))
  next
    case False
    then have "rb_count ?r < ?n" "?k + 1 < ?n"
      using rb_count_bounds [OF ok'] full k by (auto simp: f(1))
    moreover have "(?h + rb_count ?r) mod ?n = (?h + (?k + 1)) mod ?n"
      using rb_tail_eq [OF ok'] t' f by (simp add: add.assoc)
    ultimately show ?thesis using mod_add_inj [OF d(4)] by blast
  qed
  moreover have "rb_contents ?r = rb_contents rb @ [v]"
  proof -
    have "(?h + ?k) mod ?n \<noteq> (?h + i) mod ?n" if "i < ?k" for i
      using that k mod_add_inj [OF d(4), of ?k i] by simp
    moreover have "(?h + ?k) mod ?n < ?n" using d(1) by (rule mod_less_divisor)
    ultimately show ?thesis
      unfolding rb_contents_def cnt by (simp add: f(1,2) t)
  qed
  ultimately show ?thesis by (simp add: f)
qed

lemma rb_del_queue:
  assumes ok: "rb_ok rb" and ne: "\<not> rb_empty rb"
  shows "rb_ok (snd (rb_del rb)) \<and> rb_contents rb = fst (rb_del rb) # rb_contents (snd (rb_del rb)) \<and>
    length (rb_buf (snd (rb_del rb))) = length (rb_buf rb)"
proof -
  let ?n = "length (rb_buf rb)" and ?h = "unat (rb_head rb)" and ?k = "rb_count rb" and ?r = "snd (rb_del rb)"
  note d = rb_okD [OF ok] and f = rb_del_fields [OF ok] and t = rb_tail_eq [OF ok]
  have k: "0 < ?k" "?k \<le> ?n" using rb_count_bounds [OF ok] ne by auto
  obtain m where m: "?k = Suc m" using k by (auto simp: gr0_conv_Suc)
  have t': "unat (rb_tail ?r) = ((?h + 1) mod ?n + m) mod ?n" by (simp add: f t m mod_simps)
  have h: "(?h + 1) mod ?n < ?n" using d(1) by (rule mod_less_divisor)
  have "(?h + 1) mod ?n = ((?h + 1) mod ?n + m) mod ?n \<longleftrightarrow> m = 0"
    using mod_add_inj [OF h, of 0 m] k m h d(1) by auto
  then have em: "rb_empty ?r \<longleftrightarrow> m = 0" using ne t' f by auto
  have ok': "rb_ok ?r"
    by (rule rb_okI) (use d f em t' h ne in auto)
  moreover have cnt: "rb_count ?r = m"
  proof -
    have "rb_count ?r < ?n" using rb_count_bounds [OF ok'] f by auto
    moreover have "((?h + 1) mod ?n + rb_count ?r) mod ?n = ((?h + 1) mod ?n + m) mod ?n"
      using rb_tail_eq [OF ok'] t' by (simp add: f)
    ultimately show ?thesis using mod_add_inj [OF h] k m by auto
  qed
  moreover have "rb_contents rb = fst (rb_del rb) # rb_contents ?r"
    unfolding rb_contents_def cnt m
    by (subst upt_conv_Cons) (simp_all add: f d map_Suc_upt [symmetric] mod_simps del: upt_Suc)
  ultimately show ?thesis by (simp add: f)
qed

interpretation rq: bounded_queue rb_ok rb_contents "\<lambda>rb. length (rb_buf rb)" rb_add rb_del rb_full rb_empty
  by unfold_locales (simp_all add: rb_count_bounds rb_add_queue rb_del_queue flip: length_0_conv)

lemma rb_flush_loop_ok:
  "rb_ok rb \<Longrightarrow> \<exists>rb'. rb_flush_loop rb = Some rb' \<and> rb_ok rb' \<and> rb_contents rb' = [] \<and>
    length (rb_buf rb') = length (rb_buf rb)"
proof (induction "length (rb_contents rb)" arbitrary: rb)
  case 0
  then have "rb_contents rb = []" by (simp flip: length_0_conv)
  moreover from this have "rb_empty rb" using rq.empty_iff 0 by simp
  ultimately show ?case using 0 by (simp add: rb_flush_loop.simps)
next
  case (Suc n)
  then have ne: "\<not> rb_empty rb" using rb_count_bounds(3) [OF Suc.prems] Suc.hyps(2) by auto
  note del = rq.del [OF Suc.prems ne]
  then have "n = length (rb_contents (snd (rb_del rb)))" using Suc.hyps(2) by (metis length_Cons nat.inject)
  from Suc.hyps(1) [OF this] del ne show ?case by (simp add: rb_flush_loop.simps [of rb])
qed

lemma rb_read_loop_ok:
  "rb_ok rb \<Longrightarrow> \<not> rb_empty rb \<Longrightarrow> rb_read_loop k rb = (vs, rb') \<Longrightarrow>
   rb_ok rb' \<and> rb_contents rb = vs @ rb_contents rb' \<and> length vs = min k (rb_count rb) \<and>
   length (rb_buf rb') = length (rb_buf rb)"
proof (induction k arbitrary: rb vs rb')
  case (Suc k)
  note del = rq.del [OF Suc.prems(1,2)]
  obtain v r where r: "rb_del rb = (v, r)" by force
  have cnt: "rb_count rb = Suc (rb_count r)"
    using del by (metis fst_conv length_Cons length_rb_contents r snd_conv)
  show ?case
  proof (cases "rb_empty r")
    case True
    then show ?thesis
      using Suc.prems(3) del r cnt rb_count_bounds(3) [of r] by auto
  next
    case False
    then obtain ws where "rb_read_loop k r = (ws, rb')" "vs = v # ws"
      using Suc.prems(3) r by (auto split: prod.splits)
    then show ?thesis
      using Suc.IH [of r ws rb'] False del r cnt by simp
  qed
qed simp

text \<open>The inner loop of \<open>rb_write\<close> adds as many bytes as fit.\<close>

lemma rb_write_fill_ok:
  "rb_ok rb \<Longrightarrow> \<not> rb_full rb \<Longrightarrow> rb_write_fill vs rb = (rest, sigs, rb') \<Longrightarrow>
   (let k = min (length vs) (length (rb_buf rb) - rb_count rb) in
     rest = drop k vs \<and> rb_ok rb' \<and> rb_contents rb' = rb_contents rb @ take k vs \<and>
     length (rb_buf rb') = length (rb_buf rb) \<and>
     sigs = (if k = length (rb_buf rb) - rb_count rb then [Data_available] else []))"
proof (induction vs arbitrary: rb)
  case Nil
  then show ?case using rq.full_iff [OF Nil(1)] rq.fits [OF Nil(1)] by auto
next
  case (Cons v vs)
  let ?n = "length (rb_buf rb)" and ?r = "rb_add v rb"
  note add = rq.add [OF Cons.prems(1,2), of v]
  have cnt: "rb_count ?r = Suc (rb_count rb)"
    using add by (metis length_append_singleton length_rb_contents)
  have lt: "rb_count rb < ?n" using Cons.prems rq.full_iff [of rb] rq.fits [of rb] by auto
  show ?case
  proof (cases "rb_full ?r")
    case True
    then have "?n - rb_count rb = 1" using add rb_count_bounds(2) [of ?r] cnt by simp
    then show ?thesis using Cons.prems(3) add True by (auto simp: Let_def min_def)
  next
    case False
    then have fill: "rb_write_fill vs ?r = (rest, sigs, rb')" using Cons.prems(3) by simp
    have "?n - rb_count rb = Suc (?n - rb_count ?r)" using cnt lt by simp
    then show ?thesis using Cons.IH [OF _ False fill] add by (simp add: Let_def)
  qed
qed

lemma rb_write_ok:
  assumes "rb_ok rb"
  defines "q \<equiv> rb_contents rb" and "n \<equiv> length (rb_buf rb)"
  shows "let (r, rest, sigs, rb') = rb_write wlen vs rb; k = min (length vs) (n - length q) in
      rb_ok rb' \<and> rb_contents rb' = q @ take k vs \<and> rest = drop k vs \<and>
      (r = Rb_done () \<longleftrightarrow> length q < n \<and> length vs \<le> n - length q) \<and>
      (r \<noteq> Rb_done () \<longrightarrow> r = Rb_waits Space_available) \<and>
      (k \<noteq> 0 \<and> wlen \<noteq> 0 \<longrightarrow> Data_available \<in> set sigs)"
proof (cases "rb_full rb")
  case False
  obtain rest sigs rb' where f: "rb_write_fill vs rb = (rest, sigs, rb')" by (metis prod_cases3)
  show ?thesis
    using rb_write_fill_ok [OF assms(1) False f] False f rq.full_iff [OF assms(1)] rq.fits [OF assms(1)]
    by (auto simp: q_def n_def rb_write_def Let_def min_def split: if_splits)
qed (use rq.full_iff [OF assms(1)] assms(1) in \<open>simp add: q_def n_def rb_write_def\<close>)

section \<open>Properties\<close>

text \<open>
  C19: Each operation on the ring buffer behaves like one on a bounded queue. Putting a byte
  appends it, or reports -1 when the buffer is full; getting one removes the oldest, or reports -1
  when it is empty; reading waits on an empty buffer and otherwise returns the oldest bytes, as
  many as there are and fit; writing waits on a full buffer, otherwise appends as many bytes as
  fit, and returns exactly when all did; flushing ends and leaves it empty. The new buffer is
  signalled when bytes went in or out. This holds for all sizes up to 1024, although the size
  field has ten bits only.
\<close>

theorem ring_buffer_refines:
  assumes "rb_ok rb"
  shows "let q = rb_contents rb; n = length (rb_buf rb) in
    (let (r, sigs, rb') = rb_ll_put rb v in
      if length q < n then r = 0 \<and> sigs = [Data_available] \<and> rb_ok rb' \<and> rb_contents rb' = q @ [v]
      else r = - 1 \<and> sigs = [] \<and> rb' = rb) \<and>
    (let (r, sigs, rb') = rb_ll_get rb in
      if q = [] then r = - 1 \<and> sigs = [] \<and> rb' = rb
      else r = uint (hd q) \<and> sigs = [Space_available] \<and> rb_ok rb' \<and> rb_contents rb' = tl q) \<and>
    (let (r, sigs, rb') = rb_read rb len in
      if q = [] then r = Rb_waits Data_available \<and> sigs = [] \<and> rb' = rb
      else r = Rb_done (take (unat len) q) \<and> sigs = [Space_available] \<and> rb_ok rb' \<and>
        rb_contents rb' = drop (unat len) q) \<and>
    (let (r, rest, sigs, rb') = rb_write wlen vs rb; k = min (length vs) (n - length q) in
      rb_ok rb' \<and> rb_contents rb' = q @ take k vs \<and> rest = drop k vs \<and>
      (r = Rb_done () \<longleftrightarrow> length q < n \<and> length vs \<le> n - length q) \<and>
      (r \<noteq> Rb_done () \<longrightarrow> r = Rb_waits Space_available) \<and>
      (k \<noteq> 0 \<and> wlen \<noteq> 0 \<longrightarrow> Data_available \<in> set sigs)) \<and>
    (\<exists>rb'. rb_ll_flush rb = Some ([Space_available], rb') \<and> rb_ok rb' \<and> rb_contents rb' = [])"
proof -
  let ?q = "rb_contents rb" and ?n = "length (rb_buf rb)"
  note full = rq.full_iff [OF assms] and empty = rq.empty_iff [OF assms] and fits = rq.fits [OF assms]
  have put: "let (r, sigs, rb') = rb_ll_put rb v in
      if length ?q < ?n then r = 0 \<and> sigs = [Data_available] \<and> rb_ok rb' \<and> rb_contents rb' = ?q @ [v]
      else r = - 1 \<and> sigs = [] \<and> rb' = rb"
    using rq.add [OF assms, of v] full fits by (auto simp: rb_ll_put_def)
  have get: "let (r, sigs, rb') = rb_ll_get rb in
      if ?q = [] then r = - 1 \<and> sigs = [] \<and> rb' = rb
      else r = uint (hd ?q) \<and> sigs = [Space_available] \<and> rb_ok rb' \<and> rb_contents rb' = tl ?q"
  proof (cases "rb_empty rb")
    case False
    obtain v' r where "rb_del rb = (v', r)" by force
    then show ?thesis using rq.del [OF assms False] empty False by (simp add: rb_ll_get_def)
  qed (use empty in \<open>simp add: rb_ll_get_def\<close>)
  have read: "let (r, sigs, rb') = rb_read rb len in
      if ?q = [] then r = Rb_waits Data_available \<and> sigs = [] \<and> rb' = rb
      else r = Rb_done (take (unat len) ?q) \<and> sigs = [Space_available] \<and> rb_ok rb' \<and>
        rb_contents rb' = drop (unat len) ?q"
  proof (cases "rb_empty rb")
    case False
    obtain vs rb' where r: "rb_read_loop (unat len) rb = (vs, rb')" by fastforce
    note l = rb_read_loop_ok [OF assms False r]
    from l have lv: "length vs = min (unat len) (length ?q)" and q: "?q = vs @ rb_contents rb'"
      unfolding length_rb_contents by blast+
    have "take (unat len) ?q = take (length vs) ?q" "drop (unat len) ?q = drop (length vs) ?q"
      by (simp_all add: lv min_def)
    moreover have "take (length vs) ?q = vs" "drop (length vs) ?q = rb_contents rb'"
      unfolding q by simp_all
    ultimately have "take (unat len) ?q = vs \<and> drop (unat len) ?q = rb_contents rb'" by simp
    then show ?thesis using l False empty r by (simp add: rb_read_def)
  qed (use empty in \<open>simp add: rb_read_def\<close>)
  show ?thesis
    using put get read rb_write_ok [OF assms, of wlen vs] rb_flush_loop_ok [OF assms]
    by (simp add: Let_def) (auto simp: rb_ll_flush_def)
qed

lemma rb_init_ok:
  assumes "length p = unat sz" "0 < sz" "sz \<le> 1024"
  shows "rb_ok (rb_init p sz)" "rb_contents (rb_init p sz) = []"
proof -
  have "unat sz \<le> 1024" "0 < unat sz" using assms by (simp_all add: word_le_nat_alt unat_gt_0 word_gt_0)
  moreover have "ucast sz = (of_nat (unat sz) :: 10 word)" by (simp add: unsigned_ucast_eq)
  ultimately show "rb_ok (rb_init p sz)" using assms by (simp add: rb_ok_def rb_init_def Let_def)
  show "rb_contents (rb_init p sz) = []" by (simp add: rb_contents_def rb_count_def rb_init_def)
qed

theorem ring_buffer_refines_witness:
  "rb_contents (snd (snd (rb_ll_put (rb_init (replicate 1024 0) 1024) 7))) = [7]"
proof -
  define rb where "rb = rb_init (replicate 1024 0) 1024"
  have rb: "rb_ok rb" "rb_contents rb = []" "length (rb_buf rb) = 1024"
    unfolding rb_def by (rule rb_init_ok; simp)+ (simp add: rb_init_def)
  show ?thesis
    using ring_buffer_refines [OF rb(1), of 7, unfolded Let_def, THEN conjunct1] rb(2,3)
    unfolding rb_def [symmetric] by (simp split: prod.splits)
qed

section \<open>The stream of bytes\<close>

text \<open>
  A history of one buffer: what was accepted from the producers and what was delivered to the
  consumers, in the order in which the calls held the mutex.
\<close>

inductive rb_history :: "rb \<Rightarrow> u8 list \<Rightarrow> u8 list \<Rightarrow> rb \<Rightarrow> bool" for rb0 where
  Start: "rb_history rb0 [] [] rb0"
| Put: "rb_history rb0 acc del rb \<Longrightarrow> rb_ll_put rb v = (r, sigs, rb') \<Longrightarrow>
    rb_history rb0 (if r = 0 then acc @ [v] else acc) del rb'"
| Get: "rb_history rb0 acc del rb \<Longrightarrow> rb_ll_get rb = (r, sigs, rb') \<Longrightarrow>
    rb_history rb0 acc (if 0 \<le> r then del @ [word_of_int r] else del) rb'"
| Read: "rb_history rb0 acc del rb \<Longrightarrow> rb_read rb len = (Rb_done vs, sigs, rb') \<Longrightarrow>
    rb_history rb0 acc (del @ vs) rb'"
| Read_waits: "rb_history rb0 acc del rb \<Longrightarrow> rb_read rb len = (Rb_waits c, sigs, rb') \<Longrightarrow>
    rb_history rb0 acc del rb'"
| Write: "rb_history rb0 acc del rb \<Longrightarrow> rb_write wlen vs rb = (r, rest, sigs, rb') \<Longrightarrow>
    rb_history rb0 (acc @ take (length vs - length rest) vs) del rb'"

text \<open>
  C18: Through a ring buffer nothing is lost, duplicated or reordered: after any interleaving of
  puts, gets, reads and writes, whether they succeed, fail, wait or are resumed, the bytes
  delivered so far followed by those still in the buffer are exactly the bytes accepted so far.
\<close>

theorem serial_in_order:
  assumes "rb_history (rb_init p sz) acc del rb" "length p = unat sz" "0 < sz" "sz \<le> 1024"
  shows "acc = del @ rb_contents rb \<and> rb_ok rb \<and> length (rb_contents rb) \<le> unat sz"
proof -
  have "acc = del @ rb_contents rb \<and> rb_ok rb \<and> length (rb_buf rb) = length p"
    using assms(1)
  proof (induction rule: rb_history.induct)
    case Start
    then show ?case using rb_init_ok [OF assms(2-4)] by (simp add: rb_init_def)
  next
    case (Put acc del rb v r sigs rb')
    then show ?case
      using rq.add [of rb v] by (auto simp: rb_ll_put_def split: if_splits)
  next
    case (Get acc del rb r sigs rb')
    obtain v t where "rb_del rb = (v, t)" by force
    with Get show ?case
      using rq.del [of rb] by (auto simp: rb_ll_get_def split: if_splits)
  next
    case (Read acc del rb len vs sigs rb')
    then have "\<not> rb_empty rb" "rb_read_loop (unat len) rb = (vs, rb')"
      by (auto simp: rb_read_def split: if_splits prod.splits)
    with Read.IH show ?case using rb_read_loop_ok by fastforce
  next
    case (Read_waits acc del rb len c sigs rb')
    then show ?case by (auto simp: rb_read_def split: if_splits prod.splits)
  next
    case (Write acc del rb wlen vs r rest sigs rb')
    show ?case
    proof (cases "rb_full rb")
      case False
      obtain rest2 sigs2 rb2 where f: "rb_write_fill vs rb = (rest2, sigs2, rb2)" by (metis prod_cases3)
      then have "rest = rest2" "rb' = rb2" using Write.hyps(2) False by (auto simp: rb_write_def split: if_splits)
      then show ?thesis
        using rb_write_fill_ok [OF _ False f] Write.IH by (auto simp: Let_def min_def)
    qed (use Write in \<open>auto simp: rb_write_def\<close>)
  qed
  then show ?thesis using rq.fits [of rb] assms(2) by simp
qed

text \<open>A byte put, then two read: the second is not there yet.\<close>

theorem serial_in_order_witness:
  "\<exists>rb. rb_history (rb_init (replicate 4 0) 4) [65] [65] rb \<and> rb_contents rb = []"
proof -
  let ?b = "rb_init (replicate 4 0) 4"
  obtain r1 s1 b1 where put: "rb_ll_put ?b 65 = (r1, s1, b1)" by (metis prod_cases3)
  then have r1: "r1 = 0" by (auto simp: rb_ll_put_def rb_init_def)
  obtain r2 s2 b2 where get: "rb_ll_get b1 = (r2, s2, b2)" by (metis prod_cases3)
  have "r2 = 65"
    using put get by (auto simp: rb_ll_put_def rb_ll_get_def rb_init_def rb_add_def rb_del_def Let_def
        split: if_splits)
  with Get [OF Put [OF Start put] get] r1 have h: "rb_history ?b [65] [65] b2" by simp
  from serial_in_order [OF this] have "rb_contents b2 = []" by simp
  with h show ?thesis by blast
qed

end
