(* ===== verification/Usart.thy ===== *)
theory Usart
  imports Ring_Buffer
begin

text \<open>
  The serial driver of the STM32F103 (\<open>contrib/usart-stm32f103.c\<close>, \<open>contrib/usart.h\<close>): the
  configuration of a port, the interrupt and transmit handlers, a round of the driver's thread,
  and the calls of the application.

  A port is the registers of one USART with the variables the driver keeps for it. What reading
  and writing the data register does besides (it clears flags, the transmitter takes the byte) is
  a parameter of the model, \<open>hw\<close>, and so is the application's callback \<open>cb\<close>. The flags of
  \<open>chopstx_poll\<close> are the input of a round.
\<close>

unbundle bit_operations_syntax

section \<open>State\<close>

record usart =
  SR :: u32
  DR :: u32
  BRR :: u32
  CR1 :: u32
  CR2 :: u32
  CR3 :: u32
  GTPR :: u32

record usart_stat =
  st_dev_no :: u8
  st_tx :: u32
  st_rx :: u32
  st_rx_break :: u32
  err_notify_overflow :: u32
  err_rx_overflow :: u32
  err_rx_overrun :: u32
  err_rx_noise :: u32
  err_rx_parity :: u32

record port =
  regs :: usart
  rb_a2h :: rb
  rb_h2a :: rb
  stat :: usart_stat
  tx_ready :: bool
  intr_ready :: bool
  app_write_ready :: bool

datatype usart_id = USART2 | USART3

type_synonym serial = "usart_id \<Rightarrow> port"

record usart_hw =
  read_DR :: "usart \<Rightarrow> usart"
  write_DR :: "u32 \<Rightarrow> usart \<Rightarrow> usart"

section \<open>Constants\<close>

definition USART_SR_TXE :: u32 where "USART_SR_TXE = 0x80"
definition USART_SR_RXNE :: u32 where "USART_SR_RXNE = 0x20"
definition USART_SR_ORE :: u32 where "USART_SR_ORE = 0x08"
definition USART_SR_NE :: u32 where "USART_SR_NE = 0x04"
definition USART_SR_FE :: u32 where "USART_SR_FE = 0x02"
definition USART_SR_PE :: u32 where "USART_SR_PE = 0x01"

definition USART_CR1_UE :: u32 where "USART_CR1_UE = 0x2000"
definition USART_CR1_M :: u32 where "USART_CR1_M = 0x1000"
definition USART_CR1_PCE :: u32 where "USART_CR1_PCE = 0x400"
definition USART_CR1_PS :: u32 where "USART_CR1_PS = 0x200"
definition USART_CR1_PEIE :: u32 where "USART_CR1_PEIE = 0x100"
definition USART_CR1_TXEIE :: u32 where "USART_CR1_TXEIE = 0x80"
definition USART_CR1_RXNEIE :: u32 where "USART_CR1_RXNEIE = 0x20"
definition USART_CR1_TE :: u32 where "USART_CR1_TE = 0x08"
definition USART_CR1_RE :: u32 where "USART_CR1_RE = 0x04"

definition MASK_BAUD :: u32 where "MASK_BAUD = 0x3f"
definition CS7 :: u32 where "CS7 = 0x80"
definition CS8 :: u32 where "CS8 = 0xc0"
definition MASK_CS :: u32 where "MASK_CS = 0x1c0"
definition STOP0B5 :: u32 where "STOP0B5 = 0"
definition STOP1B :: u32 where "STOP1B = 0x200"
definition STOP1B5 :: u32 where "STOP1B5 = 0x400"
definition MASK_STOP :: u32 where "MASK_STOP = 0x600"
definition PARENB :: u32 where "PARENB = 0x800"
definition PARODD :: u32 where "PARODD = 0x1000"
definition MASK_FLOW :: u32 where "MASK_FLOW = 0x4000"
definition MODE_SMARTCARD :: u32 where "MODE_SMARTCARD = 0x40000000"
definition MODE_IRDA :: u32 where "MODE_IRDA = 0x80000000"
definition MODE_IRDA_LP :: u32 where "MODE_IRDA_LP = 0xc0000000"
definition MASK_MODE :: u32 where "MASK_MODE = 0xc0000000"

definition UART_STATE_BITMAP_BREAK :: u16 where "UART_STATE_BITMAP_BREAK = 4"
definition UART_STATE_BITMAP_PARITY :: u16 where "UART_STATE_BITMAP_PARITY = 32"
definition UART_STATE_BITMAP_OVERRUN :: u16 where "UART_STATE_BITMAP_OVERRUN = 64"

text \<open>The baud rate codes \<open>B600\<close> to \<open>BSCARD\<close> with the divisors for a clock of 36 MHz.\<close>

definition brr_table :: "(u8 \<times> u16) list" where
  "brr_table =
     [(16, push_bit 4 3750), (17, push_bit 4 1875), (19, push_bit 4 937 OR 8),
      (21, push_bit 4 234 OR 6), (22, push_bit 4 117 OR 3), (24, push_bit 4 39 OR 1),
      (25, push_bit 4 19 OR 8), (26, push_bit 4 9 OR 12), (27, push_bit 4 4 OR 14),
      (28, push_bit 4 2 OR 7), (63, push_bit 4 232 OR 8)]"

section \<open>Configuration\<close>

definition get_usart_dev :: "u8 \<Rightarrow> usart_id option" where
  "get_usart_dev dev_no = (if dev_no = 2 then Some USART2 else if dev_no = 3 then Some USART3 else None)"

definition set_regs :: "usart_id \<Rightarrow> usart \<Rightarrow> serial \<Rightarrow> serial" where
  "set_regs d u s = s(d := (s d)\<lparr>regs := u\<rparr>)"

text \<open>For another device the code writes through \<open>NULL\<close>: that is \<open>None\<close>.\<close>

definition usart_config_clken :: "u8 \<Rightarrow> bool \<Rightarrow> serial \<Rightarrow> serial option" where
  "usart_config_clken dev_no on s =
     (case get_usart_dev dev_no of
        None \<Rightarrow> None
      | Some d \<Rightarrow>
          (let u = regs (s d)
           in Some (set_regs d (if on then u\<lparr>CR2 := CR2 u OR push_bit 11 1\<rparr>
                                else u\<lparr>CR2 := CR2 u AND NOT (push_bit 11 1)\<rparr>) s)))"

text \<open>The character size bit, or none when the combination is not supported.\<close>

definition config_size :: "u32 \<Rightarrow> u32 \<Rightarrow> u32 option" where
  "config_size config_bits cr1_config =
     (if (config_bits AND MASK_CS = CS7 \<and> config_bits AND PARENB \<noteq> 0) \<or>
         (config_bits AND MASK_CS = CS8 \<and> config_bits AND PARENB = 0)
      then Some (cr1_config AND NOT USART_CR1_M)
      else if config_bits AND MASK_CS = CS8 then Some (cr1_config OR USART_CR1_M)
      else None)"

definition config_parity :: "u32 \<Rightarrow> u32 \<Rightarrow> u32" where
  "config_parity config_bits cr1_config =
     (let cr1_config = (if config_bits AND PARENB = 0
                        then cr1_config AND NOT (USART_CR1_PCE OR USART_CR1_PEIE)
                        else cr1_config OR (USART_CR1_PCE OR USART_CR1_PEIE))
      in if config_bits AND PARODD = 0 then cr1_config AND NOT USART_CR1_PS
         else cr1_config OR USART_CR1_PS)"

definition config_stop :: "u32 \<Rightarrow> u32" where
  "config_stop config_bits =
     (if config_bits AND MASK_STOP = STOP0B5 then push_bit 12 1
      else if config_bits AND MASK_STOP = STOP1B then push_bit 12 0
      else if config_bits AND MASK_STOP = STOP1B5 then push_bit 12 3
      else push_bit 12 2)"

definition config_mode :: "u32 \<Rightarrow> usart \<Rightarrow> usart" where
  "config_mode config_bits u =
     (if config_bits AND MASK_MODE \<noteq> 0 then
        (if config_bits AND MASK_MODE = MODE_SMARTCARD
         then u\<lparr>GTPR := push_bit 8 16 OR 5, CR3 := CR3 u OR (push_bit 5 1 OR push_bit 4 1)\<rparr>
         else if config_bits AND MASK_MODE = MODE_IRDA then u\<lparr>CR3 := CR3 u OR push_bit 1 1\<rparr>
         else if config_bits AND MASK_MODE = MODE_IRDA_LP
         then u\<lparr>CR3 := CR3 u OR push_bit 2 1 OR push_bit 1 1\<rparr>
         else u)
      else u)"

definition config_regs :: "u32 \<Rightarrow> usart \<Rightarrow> int \<times> usart" where
  "config_regs config_bits u =
     (let baud_spec = ucast (config_bits AND MASK_BAUD) :: u8;
          cr1_config = USART_CR1_UE OR USART_CR1_RXNEIE OR USART_CR1_TE OR USART_CR1_RE;
          u = u\<lparr>CR1 := CR1 u AND NOT USART_CR1_UE\<rparr>
      in case config_size config_bits cr1_config of
           None \<Rightarrow> (- 1, u)
         | Some cr1_config \<Rightarrow>
             (let cr1_config = config_parity config_bits cr1_config;
                  u = u\<lparr>CR2 := config_stop config_bits\<rparr>
              in case map_of brr_table baud_spec of
                   None \<Rightarrow> (- 1, u)
                 | Some brr_value \<Rightarrow>
                     (let u = u\<lparr>BRR := ucast brr_value\<rparr>;
                          u = u\<lparr>CR3 := (if config_bits AND MASK_FLOW \<noteq> 0
                                         then push_bit 9 1 OR push_bit 8 1 else 0)\<rparr>;
                          u = u\<lparr>CR1 := cr1_config\<rparr>
                      in (0, config_mode config_bits u))))"

definition usart_config :: "u8 \<Rightarrow> u32 \<Rightarrow> serial \<Rightarrow> int \<times> serial" where
  "usart_config dev_no config_bits s =
     (case get_usart_dev dev_no of
        None \<Rightarrow> (- 1, s)
      | Some d \<Rightarrow> (let (r, u) = config_regs config_bits (regs (s d)) in (r, set_regs d u s)))"

text \<open>\<open>usart_init\<close> also starts the clocks and the thread of the driver.\<close>

definition usart_init :: "serial \<Rightarrow> serial" where
  "usart_init s =
     s(USART2 := (s USART2)\<lparr>stat := (stat (s USART2))\<lparr>st_dev_no := 2\<rparr>\<rparr>,
       USART3 := (s USART3)\<lparr>stat := (stat (s USART3))\<lparr>st_dev_no := 3\<rparr>\<rparr>)"

section \<open>Handlers\<close>

text \<open>The error counters and the bits to notify, for a character that was received.\<close>

definition receive :: "u32 \<Rightarrow> u32 \<Rightarrow> port \<Rightarrow> u16 \<times> rb_cond list \<times> port" where
  "receive r data p =
     (let st = stat p
      in if r AND USART_SR_NE \<noteq> 0 then (0, [], p\<lparr>stat := st\<lparr>err_rx_noise := err_rx_noise st + 1\<rparr>\<rparr>)
         else if r AND USART_SR_FE \<noteq> 0 then
           (UART_STATE_BITMAP_BREAK, [], p\<lparr>stat := st\<lparr>st_rx_break := st_rx_break st + 1\<rparr>\<rparr>)
         else if r AND USART_SR_PE \<noteq> 0 then
           (UART_STATE_BITMAP_PARITY, [], p\<lparr>stat := st\<lparr>err_rx_parity := err_rx_parity st + 1\<rparr>\<rparr>)
         else
           (let (notify_bits, st) =
                  (if r AND USART_SR_ORE \<noteq> 0
                   then (UART_STATE_BITMAP_OVERRUN, st\<lparr>err_rx_overrun := err_rx_overrun st + 1\<rparr>)
                   else (0, st));
                (res, sigs, rb) = rb_ll_put (rb_h2a p) (ucast (data AND 0xff));
                st = (if res < 0 then st\<lparr>err_rx_overflow := err_rx_overflow st + 1\<rparr>
                      else st\<lparr>st_rx := st_rx st + 1\<rparr>)
            in (notify_bits, sigs, p\<lparr>rb_h2a := rb, stat := st\<rparr>)))"

definition handle_intr :: "usart_hw \<Rightarrow> (u8 \<Rightarrow> u16 \<Rightarrow> int) \<Rightarrow> port \<Rightarrow> bool \<times> rb_cond list \<times> port" where
  "handle_intr hw cb p =
     (let r = SR (regs p);
          (tx, p) = (if r AND USART_SR_TXE \<noteq> 0
                     then (True, p\<lparr>regs := (regs p)\<lparr>CR1 := CR1 (regs p) AND NOT USART_CR1_TXEIE\<rparr>\<rparr>)
                     else (False, p));
          (notify_bits, sigs, p) =
            (if r AND USART_SR_RXNE \<noteq> 0 then
               (let data = DR (regs p) in receive r data (p\<lparr>regs := read_DR hw (regs p)\<rparr>))
             else if r AND USART_SR_ORE \<noteq> 0 then
               (UART_STATE_BITMAP_OVERRUN, [],
                p\<lparr>regs := read_DR hw (regs p),
                  stat := (stat p)\<lparr>err_rx_overrun := err_rx_overrun (stat p) + 1\<rparr>\<rparr>)
             else (0, [], p));
          p = (if notify_bits \<noteq> 0 \<and> cb (st_dev_no (stat p)) notify_bits \<noteq> 0
               then p\<lparr>stat := (stat p)\<lparr>err_notify_overflow := err_notify_overflow (stat p) + 1\<rparr>\<rparr> else p)
      in (tx, sigs, p))"

definition handle_tx_ready :: "usart_hw \<Rightarrow> port \<Rightarrow> bool \<times> rb_cond list \<times> port" where
  "handle_tx_ready hw p =
     (let (c, sigs, rb) = rb_ll_get (rb_a2h p); p = p\<lparr>rb_a2h := rb\<rparr>
      in if 0 \<le> c then
           (let p = p\<lparr>regs := write_DR hw (word_of_int c AND 0xff) (regs p),
                      stat := (stat p)\<lparr>st_tx := st_tx (stat p) + 1\<rparr>\<rparr>
            in if SR (regs p) AND USART_SR_TXE = 0
               then (False, sigs, p\<lparr>regs := (regs p)\<lparr>CR1 := CR1 (regs p) OR USART_CR1_TXEIE\<rparr>\<rparr>)
               else (True, sigs, p))
         else (True, sigs, p))"

section \<open>The thread of the driver\<close>

text \<open>The buffers and flags as \<open>usart_main\<close> sets them up before its loop.\<close>

definition usart_main_init :: "port \<Rightarrow> port" where
  "usart_main_init p =
     p\<lparr>tx_ready := True, intr_ready := False, rb_a2h := rb_init (replicate 256 0) 256,
       rb_h2a := rb_init (replicate 512 0) 512, app_write_ready := False\<rparr>"

text \<open>
  A round of the loop: the write event is polled only while the transmitter is ready, and
  \<open>chopstx_poll\<close> sets the flags of what it polls; then each port's interrupt, then each
  port's transmitter.
\<close>

definition poll_port :: "bool \<Rightarrow> bool \<Rightarrow> port \<Rightarrow> port" where
  "poll_port intr app p = p\<lparr>intr_ready := intr, app_write_ready := (tx_ready p \<and> app)\<rparr>"

definition round_intr :: "usart_hw \<Rightarrow> (u8 \<Rightarrow> u16 \<Rightarrow> int) \<Rightarrow> port \<Rightarrow> rb_cond list \<times> port" where
  "round_intr hw cb p =
     (if intr_ready p then
        (let (tx, sigs, p) = handle_intr hw cb p in (sigs, p\<lparr>tx_ready := tx, intr_ready := False\<rparr>))
      else ([], p))"

definition round_tx :: "usart_hw \<Rightarrow> port \<Rightarrow> rb_cond list \<times> port" where
  "round_tx hw p =
     (if tx_ready p \<and> app_write_ready p then
        (let (tx, sigs, p) = handle_tx_ready hw p in (sigs, p\<lparr>tx_ready := tx\<rparr>))
      else ([], p))"

definition usart_round ::
  "usart_hw \<Rightarrow> (u8 \<Rightarrow> u16 \<Rightarrow> int) \<Rightarrow> (usart_id \<Rightarrow> bool) \<Rightarrow> (usart_id \<Rightarrow> bool) \<Rightarrow> serial \<Rightarrow> serial" where
  "usart_round hw cb intr app s =
     (let s = (\<lambda>d. poll_port (intr d) (app d) (s d));
          s = s(USART2 := snd (round_intr hw cb (s USART2)));
          s = s(USART3 := snd (round_intr hw cb (s USART3)));
          s = s(USART2 := snd (round_tx hw (s USART2)))
      in s(USART3 := snd (round_tx hw (s USART3))))"

section \<open>The calls of the application\<close>

text \<open>
  The result of a call that returned, with the bytes that \<open>usart_read\<close> stored; \<open>null\<close> says
  that the buffer is \<open>NULL\<close>. \<open>None\<close> is a flush that does not end.
\<close>

definition usart_read :: "u8 \<Rightarrow> bool \<Rightarrow> u16 \<Rightarrow> serial \<Rightarrow> ((int \<times> u8 list) rb_call \<times> rb_cond list \<times> serial) option" where
  "usart_read dev_no null buflen s =
     (case get_usart_dev dev_no of
        None \<Rightarrow> Some (Rb_done (- 1, []), [], s)
      | Some d \<Rightarrow>
          if null \<and> buflen = 0 then
            map_option (\<lambda>(sigs, rb). (Rb_done (0, []), sigs, s(d := (s d)\<lparr>rb_h2a := rb\<rparr>)))
              (rb_ll_flush (rb_h2a (s d)))
          else
            (let (r, sigs, rb) = rb_read (rb_h2a (s d)) buflen; s = s(d := (s d)\<lparr>rb_h2a := rb\<rparr>)
             in Some (case r of Rb_waits c \<Rightarrow> (Rb_waits c, sigs, s)
                      | Rb_done vs \<Rightarrow> (Rb_done (int (length vs), vs), sigs, s))))"

text \<open>\<open>vs\<close> are the bytes of the caller's buffer, or those still to be written when it waited.\<close>

definition usart_write :: "u8 \<Rightarrow> bool \<Rightarrow> u16 \<Rightarrow> u8 list \<Rightarrow> serial \<Rightarrow>
    (int rb_call \<times> u8 list \<times> rb_cond list \<times> serial) option" where
  "usart_write dev_no null buflen vs s =
     (case get_usart_dev dev_no of
        None \<Rightarrow> Some (Rb_done (- 1), vs, [], s)
      | Some d \<Rightarrow>
          if null \<and> buflen = 0 then
            map_option (\<lambda>(sigs, rb). (Rb_done 0, vs, sigs, s(d := (s d)\<lparr>rb_a2h := rb\<rparr>)))
              (rb_ll_flush (rb_a2h (s d)))
          else
            (let (r, rest, sigs, rb) = rb_write buflen vs (rb_a2h (s d)); s = s(d := (s d)\<lparr>rb_a2h := rb\<rparr>)
             in Some (case r of Rb_waits c \<Rightarrow> (Rb_waits c, rest, sigs, s)
                      | Rb_done _ \<Rightarrow> (Rb_done 0, rest, sigs, s))))"

definition usart_stat_of :: "u8 \<Rightarrow> serial \<Rightarrow> usart_stat option" where
  "usart_stat_of dev_no s = map_option (\<lambda>d. stat (s d)) (get_usart_dev dev_no)"

definition usart_send_break :: "u8 \<Rightarrow> serial \<Rightarrow> int \<times> serial" where
  "usart_send_break dev_no s =
     (case get_usart_dev dev_no of
        None \<Rightarrow> (- 1, s)
      | Some d \<Rightarrow>
          (let u = regs (s d)
           in if CR1 u AND 0x01 \<noteq> 0 then (1, s)
              else (0, set_regs d (u\<lparr>CR1 := CR1 u OR 0x01\<rparr>) s)))"

section \<open>Configuration of a port\<close>

text \<open>The rate that a code of \<open>usart.h\<close> stands for.\<close>

definition baud_rate :: "u8 \<Rightarrow> int option" where
  "baud_rate c = map_of [(16, 600), (17, 1200), (19, 2400), (21, 9600), (22, 19200), (24, 57600),
     (25, 115200), (26, 230400), (27, 460800), (28, 921600)] c"

definition baud_code :: "u32 \<Rightarrow> u8" where
  "baud_code bits = ucast (bits AND MASK_BAUD)"

definition size_supported :: "u32 \<Rightarrow> bool" where
  "size_supported bits \<longleftrightarrow> bits AND MASK_CS = CS8 \<or> bits AND MASK_CS = CS7 \<and> bits AND PARENB \<noteq> 0"

lemma brr_known: "(map_of brr_table c = None) \<longleftrightarrow> baud_rate c = None \<and> c \<noteq> 63"
  by (auto simp: brr_table_def baud_rate_def split: if_splits)

lemma brr_error:
  "map_of brr_table c = Some v \<Longrightarrow> baud_rate c = Some b \<Longrightarrow> \<bar>uint v * b - 36000000\<bar> \<le> 57600"
  by (auto simp: brr_table_def baud_rate_def push_bit_eq_mult split: if_splits)

lemma CS_distinct: "CS7 \<noteq> CS8" by (simp add: CS7_def CS8_def)

lemma config_mode_regs [simp]: "CR1 (config_mode bits u) = CR1 u" "BRR (config_mode bits u) = BRR u"
  by (simp_all add: config_mode_def)

definition cr1_of :: "u32 \<Rightarrow> u32" where
  "cr1_of bits = USART_CR1_UE OR USART_CR1_RXNEIE OR USART_CR1_TE OR USART_CR1_RE OR
     (if bits AND MASK_CS = CS8 \<and> bits AND PARENB \<noteq> 0 then USART_CR1_M else 0) OR
     (if bits AND PARENB \<noteq> 0 then USART_CR1_PCE OR USART_CR1_PEIE else 0) OR
     (if bits AND PARODD \<noteq> 0 then USART_CR1_PS else 0)"

lemmas cr1_bits = USART_CR1_UE_def USART_CR1_M_def USART_CR1_PCE_def USART_CR1_PS_def
  USART_CR1_PEIE_def USART_CR1_TXEIE_def USART_CR1_RXNEIE_def USART_CR1_TE_def USART_CR1_RE_def

lemma config_cr1:
  "config_size bits (USART_CR1_UE OR USART_CR1_RXNEIE OR USART_CR1_TE OR USART_CR1_RE) =
     (if size_supported bits then
        Some (USART_CR1_UE OR USART_CR1_RXNEIE OR USART_CR1_TE OR USART_CR1_RE OR
          (if bits AND MASK_CS = CS8 \<and> bits AND PARENB \<noteq> 0 then USART_CR1_M else 0))
      else None)"
  "config_parity bits (USART_CR1_UE OR USART_CR1_RXNEIE OR USART_CR1_TE OR USART_CR1_RE OR
     (if bits AND MASK_CS = CS8 \<and> bits AND PARENB \<noteq> 0 then USART_CR1_M else 0)) = cr1_of bits"
  using CS_distinct
  by (auto simp: config_size_def size_supported_def config_parity_def cr1_of_def cr1_bits Let_def)

text \<open>
  usart_config accepts exactly ports 2 and 3, eight data bits, or seven with parity, and the
  baud rates of its table. When it does, the divisor is within 0.16 percent of the rate asked for
  and the control register has exactly the bits for it: the port is enabled in both
  directions, and the transmit interrupt is off. Otherwise it returns -1, and the port, if there
  is one, is left disabled.
\<close>

lemma config_result:
  "let (r, s') = usart_config dev_no bits s; code = baud_code bits in
    (r = 0 \<longleftrightarrow> (dev_no = 2 \<or> dev_no = 3) \<and> size_supported bits \<and> (baud_rate code \<noteq> None \<or> code = 63)) \<and>
    (r \<noteq> 0 \<longrightarrow> r = - 1) \<and>
    (case get_usart_dev dev_no of None \<Rightarrow> s' = s
     | Some d \<Rightarrow> (\<forall>d'. d' \<noteq> d \<longrightarrow> s' d' = s d') \<and>
        (if r = 0 then CR1 (regs (s' d)) = cr1_of bits \<and>
           (\<forall>b. baud_rate code = Some b \<longrightarrow> \<bar>uint (BRR (regs (s' d))) * b - 36000000\<bar> \<le> 57600)
         else CR1 (regs (s' d)) AND USART_CR1_UE = 0))"
proof (cases "get_usart_dev dev_no")
  case None
  then show ?thesis by (auto simp: usart_config_def get_usart_dev_def split: if_splits)
next
  case (Some d)
  then have dev: "dev_no = 2 \<or> dev_no = 3" by (auto simp: get_usart_dev_def split: if_splits)
  obtain r u where c: "config_regs bits (regs (s d)) = (r, u)" by force
  have off: "(x AND NOT USART_CR1_UE) AND USART_CR1_UE = 0" for x
    by (simp add: and.assoc)
  have "(r = 0 \<longleftrightarrow> size_supported bits \<and> (baud_rate (baud_code bits) \<noteq> None \<or> baud_code bits = 63)) \<and>
    (r \<noteq> 0 \<longrightarrow> r = - 1) \<and>
    (if r = 0 then CR1 u = cr1_of bits \<and>
       (\<forall>b. baud_rate (baud_code bits) = Some b \<longrightarrow> \<bar>uint (BRR u) * b - 36000000\<bar> \<le> 57600)
     else CR1 u AND USART_CR1_UE = 0)"
  proof (cases "map_of brr_table (baud_code bits)")
    case None
    then show ?thesis
      using c brr_known [of "baud_code bits"] off
      by (auto simp: config_regs_def Let_def config_cr1 baud_code_def split: if_splits)
  next
    case (Some v)
    have "uint (ucast v :: u32) = uint v"
      using unsigned_less [of v, where 'a = int] by (simp add: unsigned_ucast_eq take_bit_int_eq_self)
    then show ?thesis
      using c Some brr_known [of "baud_code bits"] brr_error [OF Some] off
      by (auto simp: config_regs_def Let_def config_cr1 baud_code_def split: if_splits)
  qed
  then show ?thesis using Some dev c by (simp add: usart_config_def set_regs_def)
qed

text \<open>A port as the driver's thread sets it up, the transmit register empty.\<close>

definition port_start :: port where
  "port_start = usart_main_init \<lparr>regs = \<lparr>SR = 0xc0, DR = 0, BRR = 0, CR1 = 0, CR2 = 0, CR3 = 0, GTPR = 0\<rparr>,
     rb_a2h = rb_init [] 0, rb_h2a = rb_init [] 0, stat = \<lparr>st_dev_no = 2, st_tx = 0, st_rx = 0, st_rx_break = 0,
       err_notify_overflow = 0, err_rx_overflow = 0, err_rx_overrun = 0, err_rx_noise = 0, err_rx_parity = 0\<rparr>,
     tx_ready = False, intr_ready = False, app_write_ready = False\<rparr>"

lemma config_result_witness:
  "fst (usart_config 2 (25 OR CS8 OR STOP1B) (\<lambda>_. port_start)) = 0"
proof -
  have "baud_code (25 OR CS8 OR STOP1B) = 25" "size_supported (25 OR CS8 OR STOP1B)"
    by (simp_all add: baud_code_def size_supported_def MASK_BAUD_def CS8_def STOP1B_def MASK_CS_def)
  then show ?thesis
    using config_result [of 2 "25 OR CS8 OR STOP1B" "\<lambda>_. port_start"]
    by (auto simp: baud_rate_def split: prod.splits)
qed

section \<open>The transmitter never stalls\<close>

text \<open>
  What the properties assume of the hardware: reading the data register does not mark the
  transmit register as full, and neither access touches the control register.
\<close>

definition usart_law :: "usart_hw \<Rightarrow> bool" where
  "usart_law hw \<longleftrightarrow> (\<forall>u v. CR1 (read_DR hw u) = CR1 u \<and> CR1 (write_DR hw v u) = CR1 u \<and>
     (SR u AND USART_SR_TXE \<noteq> 0 \<longrightarrow> SR (read_DR hw u) AND USART_SR_TXE \<noteq> 0))"

text \<open>By itself the hardware may change all but this: the transmit register does not fill, and the
transmit interrupt stays enabled or disabled.\<close>

definition hw_moves :: "usart \<Rightarrow> usart \<Rightarrow> bool" where
  "hw_moves u u' \<longleftrightarrow> CR1 u' AND USART_CR1_TXEIE = CR1 u AND USART_CR1_TXEIE \<and>
     (SR u AND USART_SR_TXE \<noteq> 0 \<longrightarrow> SR u' AND USART_SR_TXE \<noteq> 0)"

text \<open>The states of the driver, while no port is configured that is sending a byte.\<close>

inductive serial_run :: "usart_hw \<Rightarrow> (u8 \<Rightarrow> u16 \<Rightarrow> int) \<Rightarrow> serial \<Rightarrow> bool" for hw cb where
  Boot: "(\<And>d. SR (regs (s d)) AND USART_SR_TXE \<noteq> 0) \<Longrightarrow> serial_run hw cb (\<lambda>d. usart_main_init (s d))"
| Round: "serial_run hw cb s \<Longrightarrow> serial_run hw cb (usart_round hw cb intr app s)"
| Hardware: "serial_run hw cb s \<Longrightarrow> hw_moves (regs (s d)) u \<Longrightarrow> serial_run hw cb (set_regs d u s)"
| Read: "serial_run hw cb s \<Longrightarrow> usart_read n null l s = Some (r, sigs, s') \<Longrightarrow> serial_run hw cb s'"
| Write: "serial_run hw cb s \<Longrightarrow> usart_write n null l vs s = Some (r', rest, sigs, s') \<Longrightarrow> serial_run hw cb s'"
| Send_break: "serial_run hw cb s \<Longrightarrow> usart_send_break n s = (r'', s') \<Longrightarrow> serial_run hw cb s'"
| Config: "serial_run hw cb s \<Longrightarrow> (\<And>d. get_usart_dev n = Some d \<Longrightarrow> tx_ready (s d)) \<Longrightarrow>
    usart_config n bits s = (r'', s') \<Longrightarrow> serial_run hw cb s'"

definition port_ok :: "port \<Rightarrow> bool" where
  "port_ok p \<longleftrightarrow> rb_ok (rb_a2h p) \<and> rb_ok (rb_h2a p) \<and>
     (if tx_ready p then SR (regs p) AND USART_SR_TXE \<noteq> 0 else CR1 (regs p) AND USART_CR1_TXEIE \<noteq> 0)"

lemma rb_ops_ok:
  assumes "rb_ok rb"
  shows "rb_ll_put rb v = (r, sigs, rb') \<Longrightarrow> rb_ok rb'" "rb_ll_get rb = (r, sigs, rb') \<Longrightarrow> rb_ok rb'"
    "rb_read rb len = (r', sigs, rb') \<Longrightarrow> rb_ok rb'" "rb_write n vs rb = (r'', rest, sigs, rb') \<Longrightarrow> rb_ok rb'"
    "rb_ll_flush rb = Some (sigs, rb') \<Longrightarrow> rb_ok rb'"
proof -
  show "rb_ll_put rb v = (r, sigs, rb') \<Longrightarrow> rb_ok rb'"
    using assms rq.add [of rb v] by (auto simp: rb_ll_put_def split: if_splits)
  show "rb_ll_get rb = (r, sigs, rb') \<Longrightarrow> rb_ok rb'"
    using assms rq.del [of rb] by (auto simp: rb_ll_get_def split: if_splits prod.splits)
  show "rb_read rb len = (r', sigs, rb') \<Longrightarrow> rb_ok rb'"
    using assms rb_read_loop_ok [of rb "unat len"] by (fastforce simp: rb_read_def split: if_splits prod.splits)
  show "rb_write n vs rb = (r'', rest, sigs, rb') \<Longrightarrow> rb_ok rb'"
    using assms rb_write_fill_ok [of rb vs]
    by (auto simp: rb_write_def Let_def split: if_splits prod.splits)
  show "rb_ll_flush rb = Some (sigs, rb') \<Longrightarrow> rb_ok rb'"
    using rb_flush_loop_ok [OF assms] by (auto simp: rb_ll_flush_def)
qed

lemma txeie_on: "(x OR USART_CR1_TXEIE) AND USART_CR1_TXEIE \<noteq> 0"
proof
  assume "(x OR USART_CR1_TXEIE) AND USART_CR1_TXEIE = 0"
  then have "bit ((x OR USART_CR1_TXEIE) AND USART_CR1_TXEIE) 7 = bit (0 :: u32) 7" by (rule arg_cong)
  then show False by (simp add: bit_and_iff bit_or_iff USART_CR1_TXEIE_def)
qed

lemma receive_port:
  assumes "receive r data p = (bits, sigs, p')" "rb_ok (rb_h2a p)"
  shows "rb_ok (rb_h2a p') \<and> rb_a2h p' = rb_a2h p \<and> regs p' = regs p \<and> tx_ready p' = tx_ready p"
  using assms
  by (auto simp: receive_def Let_def split: if_splits prod.splits dest: rb_ops_ok(1))

lemma handle_intr_port:
  assumes law: "usart_law hw" and ok: "port_ok p" and h: "handle_intr hw cb p = (tx, sigs, p')"
  shows "port_ok (p'\<lparr>tx_ready := tx, intr_ready := x\<rparr>)"
proof -
  let ?r = "SR (regs p)"
  define q where "q = (if ?r AND USART_SR_TXE \<noteq> 0
    then p\<lparr>regs := (regs p)\<lparr>CR1 := CR1 (regs p) AND NOT USART_CR1_TXEIE\<rparr>\<rparr> else p)"
  define m where "m = (if ?r AND USART_SR_RXNE \<noteq> 0 then
               (let data = DR (regs q) in receive ?r data (q\<lparr>regs := read_DR hw (regs q)\<rparr>))
             else if ?r AND USART_SR_ORE \<noteq> 0 then
               (UART_STATE_BITMAP_OVERRUN, [],
                q\<lparr>regs := read_DR hw (regs q),
                  stat := (stat q)\<lparr>err_rx_overrun := err_rx_overrun (stat q) + 1\<rparr>\<rparr>)
             else (0, [], q))"
  obtain bits sg t where r: "m = (bits, sg, t)" by (metis prod_cases3)
  have fst: "(if ?r AND USART_SR_TXE \<noteq> 0
      then (True, p\<lparr>regs := (regs p)\<lparr>CR1 := CR1 (regs p) AND NOT USART_CR1_TXEIE\<rparr>\<rparr>)
      else (False, p)) = (?r AND USART_SR_TXE \<noteq> 0, q)"
    by (simp add: q_def)
  have "handle_intr hw cb p = (?r AND USART_SR_TXE \<noteq> 0, sg,
      if bits \<noteq> 0 \<and> cb (st_dev_no (stat t)) bits \<noteq> 0
      then t\<lparr>stat := (stat t)\<lparr>err_notify_overflow := err_notify_overflow (stat t) + 1\<rparr>\<rparr> else t)"
    by (simp only: handle_intr_def Let_def fst prod.case m_def [unfolded Let_def, symmetric] r)
  with h have tx: "tx \<longleftrightarrow> ?r AND USART_SR_TXE \<noteq> 0"
    and p': "p' = (if bits \<noteq> 0 \<and> cb (st_dev_no (stat t)) bits \<noteq> 0
      then t\<lparr>stat := (stat t)\<lparr>err_notify_overflow := err_notify_overflow (stat t) + 1\<rparr>\<rparr> else t)"
    by simp_all
  have q: "rb_ok (rb_h2a q)" "rb_ok (rb_a2h q)" "SR (regs q) = ?r" "\<not> tx \<Longrightarrow> q = p"
    using ok tx by (auto simp: q_def port_ok_def)
  have t: "rb_ok (rb_h2a t) \<and> rb_a2h t = rb_a2h q \<and> (regs t = regs q \<or> regs t = read_DR hw (regs q))"
  proof (cases "?r AND USART_SR_RXNE \<noteq> 0")
    case True
    then have "receive ?r (DR (regs q)) (q\<lparr>regs := read_DR hw (regs q)\<rparr>) = (bits, sg, t)"
      using r by (simp add: m_def Let_def)
    from receive_port [OF this] q(1) show ?thesis by simp
  next
    case False
    then show ?thesis
      using r q(1) by (cases "?r AND USART_SR_ORE \<noteq> 0") (auto simp: m_def)
  qed
  have "if tx then SR (regs t) AND USART_SR_TXE \<noteq> 0 else CR1 (regs t) AND USART_CR1_TXEIE \<noteq> 0"
  proof (cases tx)
    case True
    then show ?thesis using tx q t law unfolding usart_law_def by metis
  next
    case False
    then have "CR1 (regs p) AND USART_CR1_TXEIE \<noteq> 0" using ok tx by (auto simp: port_ok_def split: if_splits)
    then show ?thesis using False q(4) t law unfolding usart_law_def by metis
  qed
  then show ?thesis using p' q t by (auto simp: port_ok_def)
qed

lemma handle_tx_port:
  assumes law: "usart_law hw" and ok: "port_ok p" "tx_ready p" and h: "handle_tx_ready hw p = (tx, sigs, p')"
  shows "port_ok (p'\<lparr>tx_ready := tx\<rparr>)"
proof -
  obtain c sg rb where g: "rb_ll_get (rb_a2h p) = (c, sg, rb)" by (metis prod_cases3)
  have "rb_ok rb" using ok g rb_ops_ok(2) by (auto simp: port_ok_def)
  then show ?thesis
    using h g ok txeie_on by (auto simp: handle_tx_ready_def Let_def port_ok_def split: if_splits)
qed

lemma round_port:
  assumes "usart_law hw" "port_ok p"
  shows "port_ok (snd (round_intr hw cb p))" "port_ok (snd (round_tx hw p))"
    "port_ok (poll_port i a p)"
  using assms handle_intr_port [OF assms(1), of p cb] handle_tx_port [OF assms(1), of p]
  by (auto simp: round_intr_def round_tx_def poll_port_def port_ok_def split: prod.splits)

text \<open>A call of the application changes one buffer and nothing else of the port.\<close>

lemma usart_read_port:
  "usart_read n null l s = Some (r, sigs, s') \<Longrightarrow> s' = s \<or>
     (\<exists>d rb. s' = s(d := (s d)\<lparr>rb_h2a := rb\<rparr>) \<and> (rb_ok (rb_h2a (s d)) \<longrightarrow> rb_ok rb))"
  by (auto simp: usart_read_def Let_def dest: rb_ops_ok
      split: option.splits if_splits prod.splits rb_call.splits)

lemma usart_write_port:
  "usart_write n null l vs s = Some (r, rest, sigs, s') \<Longrightarrow> s' = s \<or>
     (\<exists>d rb. s' = s(d := (s d)\<lparr>rb_a2h := rb\<rparr>) \<and> (rb_ok (rb_a2h (s d)) \<longrightarrow> rb_ok rb))"
  by (auto simp: usart_write_def Let_def dest: rb_ops_ok
      split: option.splits if_splits prod.splits rb_call.splits)

lemma txeie_or_1: "(x OR 1) AND USART_CR1_TXEIE = x AND USART_CR1_TXEIE"
  by (simp add: bit.conj_disj_distrib2 USART_CR1_TXEIE_def)

lemma config_keeps_SR: "SR (snd (config_regs bits u)) = SR u"
  by (simp add: config_regs_def config_mode_def Let_def split: option.split)

lemma serial_run_ok:
  assumes law: "usart_law hw" and "serial_run hw cb s"
  shows "port_ok (s d)"
  using assms(2)
proof (induction arbitrary: d rule: serial_run.induct)
  case (Boot s)
  then show ?case
    using rb_init_ok(1) [of "replicate 256 0" 256] rb_init_ok(1) [of "replicate 512 0" 512]
    by (simp add: usart_main_init_def port_ok_def)
next
  case (Round s intr app)
  then show ?case
    using round_port [OF law] by (simp add: usart_round_def Let_def)
next
  case (Hardware s d' u)
  then show ?case
    by (auto simp: set_regs_def port_ok_def hw_moves_def split: if_splits)
next
  case (Read s n null l r sigs s')
  then show ?case using usart_read_port [OF Read(2)] by (auto simp: port_ok_def split: if_split_asm)
next
  case (Write s n null l vs r' rest sigs s')
  then show ?case using usart_write_port [OF Write(2)] by (auto simp: port_ok_def split: if_split_asm)
next
  case (Send_break s n r'' s')
  then show ?case
    by (auto simp: usart_send_break_def set_regs_def port_ok_def Let_def txeie_or_1 split: option.splits if_splits)
next
  case (Config s n bits r'' s')
  show ?case
  proof (cases "get_usart_dev n")
    case None
    then show ?thesis using Config by (simp add: usart_config_def)
  next
    case (Some e)
    then have "tx_ready (s e)" "s' = set_regs e (snd (config_regs bits (regs (s e)))) s"
      using Config(2,3) by (auto simp: usart_config_def split: prod.splits)
    then show ?thesis using Config.IH [of d] by (auto simp: set_regs_def port_ok_def config_keeps_SR)
  qed
qed

lemma round_tx_sends:
  assumes "usart_law hw" "port_ok p" "tx_ready p" "app_write_ready p" "rb_contents (rb_a2h p) = v # vs"
  shows "let p' = snd (round_tx hw p) in rb_contents (rb_a2h p') = vs \<and> st_tx (stat p') = st_tx (stat p) + 1 \<and>
    (\<exists>u. u = write_DR hw (ucast v) (regs p) \<and> SR (regs p') = SR u \<and> DR (regs p') = DR u)"
proof -
  let ?q = "rb_a2h p"
  have ok: "rb_ok ?q" using assms(2) by (simp add: port_ok_def)
  then have ne: "\<not> rb_empty ?q" using rq.empty_iff assms(5) by simp
  obtain w r where d: "rb_del ?q = (w, r)" by force
  then have "w = v" "rb_contents r = vs" using rq.del [OF ok ne] assms(5) by auto
  then have g: "rb_ll_get ?q = (uint v, [Space_available], r)" using ne d by (simp add: rb_ll_get_def)
  have "(word_of_int (uint v) :: u32) AND 0xff = ucast v"
  proof -
    have "(0xff :: u32) = mask 8" by (simp add: mask_eq_exp_minus_1)
    moreover have "(word_of_int (uint v) :: u32) = ucast v" by (simp add: unsigned_ucast_eq word_of_int_uint)
    moreover have "(ucast v :: u32) AND mask 8 = ucast v"
      by (rule bit_word_eqI) (auto simp: bit_simps dest: bit_imp_le_length)
    ultimately show ?thesis by simp
  qed
  then show ?thesis
    using g assms(3,4) \<open>rb_contents r = vs\<close> by (simp add: round_tx_def handle_tx_ready_def Let_def)
qed

text \<open>
  C20: The transmitter does not stall. In every state the driver reaches from its start by rounds of its
  thread, moves of the hardware and calls to read, to write, to send a break and to configure a port, where no port is
  configured while it is sending a byte (usart_config would switch the transmit interrupt off), for each port: either the transmit register is empty and the driver's thread waits for
  the application's bytes, or the transmit interrupt that wakes it is enabled; and when it waits
  and bytes are there, its next round hands the oldest of them to the hardware.
\<close>

theorem transmitter_never_stalls:
  assumes law: "usart_law hw" and run: "serial_run hw cb s"
  shows "(if tx_ready (s d) then SR (regs (s d)) AND USART_SR_TXE \<noteq> 0
      else CR1 (regs (s d)) AND USART_CR1_TXEIE \<noteq> 0) \<and>
    (tx_ready (s d) \<and> rb_contents (rb_a2h (s d)) = v # vs \<longrightarrow>
      (let p' = usart_round hw cb (\<lambda>_. False) (\<lambda>_. True) s d in
        rb_contents (rb_a2h p') = vs \<and> st_tx (stat p') = st_tx (stat (s d)) + 1 \<and>
        DR (regs p') = DR (write_DR hw (ucast v) (regs (s d)))))"
proof -
  note ok = serial_run_ok [OF law run, of d]
  have "let p' = usart_round hw cb (\<lambda>_. False) (\<lambda>_. True) s d in
      rb_contents (rb_a2h p') = vs \<and> st_tx (stat p') = st_tx (stat (s d)) + 1 \<and>
      DR (regs p') = DR (write_DR hw (ucast v) (regs (s d)))"
    if "tx_ready (s d)" "rb_contents (rb_a2h (s d)) = v # vs"
  proof -
    let ?p = "poll_port False True (s d)"
    have "port_ok ?p" using round_port(3) [OF law ok] .
    moreover have "usart_round hw cb (\<lambda>_. False) (\<lambda>_. True) s d = snd (round_tx hw ?p)"
      by (cases d) (simp_all add: usart_round_def Let_def round_intr_def poll_port_def)
    ultimately show ?thesis
      using round_tx_sends [OF law, of ?p v vs] that by (auto simp: poll_port_def Let_def)
  qed
  with ok show ?thesis by (simp add: port_ok_def)
qed

text \<open>A transmitter that takes a byte and is busy with it.\<close>

definition busy_hw :: usart_hw where
  "busy_hw = \<lparr>read_DR = (\<lambda>u. u), write_DR = (\<lambda>v u. u\<lparr>DR := v, SR := SR u AND NOT USART_SR_TXE\<rparr>)\<rparr>"

lemma busy_hw_law: "usart_law busy_hw"
  by (simp add: usart_law_def busy_hw_def)

theorem transmitter_never_stalls_witness:
  "\<exists>s. serial_run busy_hw (\<lambda>_ _. 0) s \<and> tx_ready (s USART2) \<and> rb_contents (rb_a2h (s USART2)) = [65] \<and>
    DR (regs (usart_round busy_hw (\<lambda>_ _. 0) (\<lambda>_. False) (\<lambda>_. True) s USART2)) = 65"
proof -
  define s0 :: serial where "s0 = (\<lambda>_. usart_main_init port_start)"
  have "serial_run busy_hw (\<lambda>_ _. 0) (\<lambda>_. usart_main_init port_start)"
    by (rule Boot) (simp add: port_start_def usart_main_init_def USART_SR_TXE_def)
  then have run0: "serial_run busy_hw (\<lambda>_ _. 0) s0" by (simp add: s0_def)
  define rb0 where "rb0 = rb_a2h (s0 USART2)"
  have rb0: "rb_ok rb0" "rb_contents rb0 = []" "length (rb_buf rb0) = 256"
    unfolding rb0_def s0_def usart_main_init_def
    using rb_init_ok [of "replicate 256 0" 256] by (simp_all add: rb_init_def)
  obtain r rest sigs rb where w: "rb_write 1 [65] rb0 = (r, rest, sigs, rb)" by (metis prod_cases4)
  then have rb: "rb_contents rb = [65]" "r = Rb_done ()"
    using rb_write_ok [OF rb0(1), of 1 "[65]"] rb0(2,3) by (simp_all add: Let_def)
  define s where "s = s0(USART2 := (s0 USART2)\<lparr>rb_a2h := rb\<rparr>)"
  have "usart_write 2 False 1 [65] s0 = Some (Rb_done 0, rest, sigs, s)"
    using w rb by (simp add: usart_write_def get_usart_dev_def rb0_def s_def)
  then have run: "serial_run busy_hw (\<lambda>_ _. 0) s" by (rule Write [OF run0])
  have s: "tx_ready (s USART2)" "rb_contents (rb_a2h (s USART2)) = [65]"
    by (simp_all add: s_def s0_def usart_main_init_def rb)
  from transmitter_never_stalls [OF busy_hw_law run, of USART2 65 "[]"] s
  have "DR (regs (usart_round busy_hw (\<lambda>_ _. 0) (\<lambda>_. False) (\<lambda>_. True) s USART2)) = 65"
    by (simp add: Let_def busy_hw_def)
  with run s show ?thesis by blast
qed

end
