(* ===== verification/Eventflag.thy ===== *)
theory Eventflag
  imports Chopstx_Prelude
begin

text \<open>
  The event flags of \<open>eventflag.c\<close>: a word of pending events and a mask of those that count.
  Every routine locks the mutex of the flags, so that what it does between locking and unlocking, or
  waiting, is one step here. A step says whether it signals the condition; \<open>eventflag_wait\<close> is the
  step from the call, or from where it is woken, to its return or to the next wait.
\<close>

unbundle bit_operations_syntax

section \<open>Operations\<close>

record eventflag =
  ev_flags :: u32
  ev_mask :: u32

definition eventflag_init :: eventflag where
  "eventflag_init = \<lparr>ev_flags = 0, ev_mask = NOT 0\<rparr>"

definition eventflag_set_mask :: "u32 \<Rightarrow> eventflag \<Rightarrow> bool \<times> eventflag" where
  "eventflag_set_mask m ev =
     (let ev = ev\<lparr>ev_mask := m\<rparr> in (ev_flags ev AND ev_mask ev \<noteq> 0, ev))"

definition eventflag_check :: "eventflag \<Rightarrow> bool" where
  "eventflag_check ev \<longleftrightarrow> ev_flags ev AND ev_mask ev \<noteq> 0"

text \<open>\<open>__builtin_ffs\<close>: one more than the position of the lowest bit, or 0.\<close>

definition ffs :: "u32 \<Rightarrow> nat" where
  "ffs w = (case List.find (\<lambda>n. bit w n) [0..<32] of None \<Rightarrow> 0 | Some n \<Rightarrow> n + 1)"

definition take_event :: "eventflag \<Rightarrow> u32 \<times> eventflag" where
  "take_event ev =
     (let n = ffs (ev_flags ev AND ev_mask ev)
      in if n \<noteq> 0 then
           (let m = push_bit (n - 1) 1 in (m, ev\<lparr>ev_flags := ev_flags ev AND NOT m\<rparr>))
         else (0, ev))"

definition eventflag_get :: "eventflag \<Rightarrow> u32 \<times> eventflag" where
  "eventflag_get ev = take_event ev"

text \<open>No result: it waits.\<close>

definition eventflag_wait :: "eventflag \<Rightarrow> u32 option \<times> eventflag" where
  "eventflag_wait ev =
     (if ev_flags ev AND ev_mask ev = 0 then (None, ev)
      else (let (m, ev) = take_event ev in (Some m, ev)))"

text \<open>After \<open>chopstx_poll\<close>, whether the event came or the time ran out.\<close>

definition eventflag_wait_timeout :: "eventflag \<Rightarrow> u32 \<times> eventflag" where
  "eventflag_wait_timeout ev = eventflag_get ev"

definition eventflag_signal :: "u32 \<Rightarrow> eventflag \<Rightarrow> bool \<times> eventflag" where
  "eventflag_signal m ev =
     (let ev = ev\<lparr>ev_flags := ev_flags ev OR m\<rparr> in (ev_flags ev AND ev_mask ev \<noteq> 0, ev))"

section \<open>What is taken\<close>

lemma ffs_0: "ffs w = 0 \<longleftrightarrow> w = 0"
proof -
  have "ffs w = 0 \<longleftrightarrow> List.find (\<lambda>n. bit w n) [0..<32] = None"
    by (simp add: ffs_def split: option.splits)
  also have "\<dots> \<longleftrightarrow> (\<forall>n < 32. \<not> bit w n)" by (auto simp: find_None_iff)
  also have "\<dots> \<longleftrightarrow> w = 0" by (auto intro!: bit_word_eqI)
  finally show ?thesis .
qed

lemma ffs_Suc: "ffs w = Suc n \<Longrightarrow> bit w n \<and> (\<forall>k < n. \<not> bit w k) \<and> n < 32"
  by (auto simp: ffs_def find_Some_iff split: option.splits)

text \<open>The events that count and are pending.\<close>

definition pending :: "eventflag \<Rightarrow> nat set" where
  "pending ev = {n. bit (ev_flags ev AND ev_mask ev) n}"

lemma pending_empty: "pending ev = {} \<longleftrightarrow> ev_flags ev AND ev_mask ev = 0"
proof
  assume "pending ev = {}"
  then show "ev_flags ev AND ev_mask ev = 0" by (intro bit_word_eqI) (auto simp: pending_def)
qed (simp add: pending_def)

lemma bit_not_exp: "bit (NOT (2 ^ n) :: u32) k \<longleftrightarrow> k < 32 \<and> k \<noteq> n"
  by (auto simp: bit_simps)

lemma take_event_lowest:
  assumes "pending ev \<noteq> {}"
  obtains n ev' where "take_event ev = (push_bit n 1, ev')" "n \<in> pending ev" "\<forall>k\<in>pending ev. n \<le> k"
    "pending ev' = pending ev - {n}" "ev_mask ev' = ev_mask ev"
    "\<forall>k. bit (ev_flags ev') k \<longleftrightarrow> bit (ev_flags ev) k \<and> k \<noteq> n"
proof -
  from assms have "ffs (ev_flags ev AND ev_mask ev) \<noteq> 0" by (simp add: ffs_0 pending_empty)
  then obtain n where n: "ffs (ev_flags ev AND ev_mask ev) = Suc n" by (cases "ffs (ev_flags ev AND ev_mask ev)") auto
  note f = ffs_Suc [OF n]
  let ?ev = "ev\<lparr>ev_flags := ev_flags ev AND NOT (push_bit n 1)\<rparr>"
  have "take_event ev = (push_bit n 1, ?ev)" by (simp add: take_event_def n Let_def)
  moreover have "n \<in> pending ev" "\<forall>k\<in>pending ev. n \<le> k"
    using f by (auto simp: pending_def not_less [symmetric])
  moreover have "pending ?ev = pending ev - {n}"
    by (auto simp: pending_def bit_and_iff bit_not_exp dest: bit_imp_le_length)
  ultimately show ?thesis by (intro that [of n ?ev]) (auto simp: bit_and_iff bit_not_exp dest: bit_imp_le_length)
qed

section \<open>A thread that waits\<close>

text \<open>
  One thread waits for the events; any thread may signal, change the mask or take events. The
  consumer is running, asleep on the condition, or woken and about to test again.
\<close>

datatype consumer = Runs | Sleeps_on | Woken_up

definition wake :: "bool \<Rightarrow> consumer \<Rightarrow> consumer" where
  "wake sig c = (if sig \<and> c = Sleeps_on then Woken_up else c)"

inductive ev_run :: "eventflag \<Rightarrow> consumer \<Rightarrow> bool" where
  Init: "ev_run eventflag_init Runs"
| Signal: "ev_run ev c \<Longrightarrow> eventflag_signal m ev = (sig, ev') \<Longrightarrow> ev_run ev' (wake sig c)"
| Set_mask: "ev_run ev c \<Longrightarrow> eventflag_set_mask m ev = (sig, ev') \<Longrightarrow> ev_run ev' (wake sig c)"
| Get: "ev_run ev c \<Longrightarrow> eventflag_get ev = (m, ev') \<Longrightarrow> ev_run ev' c"
| Wait: "ev_run ev c \<Longrightarrow> c \<noteq> Sleeps_on \<Longrightarrow> eventflag_wait ev = (r, ev') \<Longrightarrow>
    ev_run ev' (if r = None then Sleeps_on else Runs)"

text \<open>
  C24: No event is missed. While one thread waits for events and any number signal them, change the
  mask or poll, the waiting thread is never asleep with an event pending that its mask lets
  through; and when it tests, it sleeps only if none is, and otherwise it takes the pending event
  with the lowest number, clears that one and no other.
\<close>

theorem no_event_missed:
  assumes "ev_run ev c"
  shows "(c = Sleeps_on \<longrightarrow> pending ev = {}) \<and>
    (case eventflag_wait ev of
       (None, ev') \<Rightarrow> pending ev = {} \<and> ev' = ev
     | (Some m, ev') \<Rightarrow> \<exists>n. m = push_bit n 1 \<and> n \<in> pending ev \<and> (\<forall>k\<in>pending ev. n \<le> k) \<and>
         ev_mask ev' = ev_mask ev \<and> (\<forall>k. bit (ev_flags ev') k \<longleftrightarrow> bit (ev_flags ev) k \<and> k \<noteq> n))"
proof -
  have sleeps: "c = Sleeps_on \<longrightarrow> pending ev = {}"
    using assms
  proof (induction rule: ev_run.induct)
    case (Get ev c m ev')
    show ?case
    proof (cases "pending ev = {}")
      case True
      then show ?thesis
        using Get.hyps(2) ffs_0 [of 0] by (simp add: eventflag_get_def take_event_def pending_empty)
    next
      case False
      with Get show ?thesis by simp
    qed
  next
    case (Wait ev c r ev')
    then show ?case
      by (auto simp: eventflag_wait_def pending_empty split: if_splits prod.splits)
  qed (auto simp: eventflag_init_def eventflag_signal_def eventflag_set_mask_def wake_def pending_empty Let_def
      split: if_splits)
  show ?thesis
  proof (cases "pending ev = {}")
    case True
    then show ?thesis using sleeps by (simp add: eventflag_wait_def pending_empty)
  next
    case False
    from take_event_lowest [OF False] obtain n ev' where
      "take_event ev = (push_bit n 1, ev')" "n \<in> pending ev" "\<forall>k\<in>pending ev. n \<le> k"
      "ev_mask ev' = ev_mask ev" "\<forall>k. bit (ev_flags ev') k \<longleftrightarrow> bit (ev_flags ev) k \<and> k \<noteq> n" .
    then show ?thesis using sleeps False by (auto simp: eventflag_wait_def pending_empty)
  qed
qed

text \<open>The consumer sleeps, events 1 and 3 are signalled at once, and it takes event 1.\<close>

theorem no_event_missed_witness:
  "\<exists>ev. ev_run ev Woken_up \<and> fst (eventflag_wait ev) = Some 2"
proof -
  have "ev_run eventflag_init Sleeps_on"
    using Wait [OF Init, of None eventflag_init] by (simp add: eventflag_wait_def eventflag_init_def)
  from Signal [OF this, of 10 True "\<lparr>ev_flags = 10, ev_mask = NOT 0\<rparr>"]
  have run: "ev_run \<lparr>ev_flags = 10, ev_mask = NOT 0\<rparr> Woken_up" (is "ev_run ?ev _")
    by (simp add: eventflag_signal_def eventflag_init_def wake_def)
  have p: "pending ?ev = {1, 3}"
  proof -
    have "(10 :: u32) = push_bit 1 1 OR push_bit 3 1" by simp
    then have "bit (10 :: u32) n \<longleftrightarrow> n = 1 \<or> n = 3" for n
      unfolding \<open>10 = _\<close> bit_or_iff bit_push_bit_iff bit_1_iff by auto
    then show ?thesis by (auto simp: pending_def)
  qed
  obtain r ev' where w: "eventflag_wait ?ev = (r, ev')" by force
  show ?thesis
    using no_event_missed [OF run] p run w by (cases r) (auto split: option.splits)
qed

text \<open>
  With a second thread asleep this fails: one signal may bring several events, but it wakes one
  thread only, which takes one of them and does not pass the signal on.
\<close>

lemma second_waiter_sleeps:
  "\<exists>ev ev' ev''. eventflag_signal 3 eventflag_init = (True, ev) \<and>
     eventflag_wait ev = (Some 1, ev'') \<and> 1 \<in> pending ev''"
  by (simp add: eventflag_signal_def eventflag_init_def eventflag_wait_def take_event_def ffs_def
      pending_def upt_rec [of 0] Let_def bit_numeral_rec)

end
