(* ===== verification/Flash.thy ===== *)
theory Flash
  imports Chopstx_Prelude
begin

text \<open>
  Programming and erasing the flash memory (\<open>mcu/sys-stm32f103.c\<close>, the routines behind the
  system vector table; \<open>mcu/sys-stm32f0.c\<close> has the same ones).

  The controller is a parameter of the model, \<open>hw\<close>: what a read of its status or control
  register returns and how far the controller has come by then, and what a store to the flash
  memory, the start of an erasure and a write of a key do. \<open>inner\<close> is the state it has of its own.
\<close>

unbundle bit_operations_syntax

section \<open>State and constants\<close>

record 'h flash =
  FLASH_CR :: u32
  FLASH_AR :: u32
  cells :: "addr \<Rightarrow> u8"
  intr_masked :: bool
  inner :: 'h

record 'h flash_hw =
  read_SR :: "'h flash \<Rightarrow> u32 \<times> 'h flash"
  read_CR :: "'h flash \<Rightarrow> u32 \<times> 'h flash"
  store16 :: "addr \<Rightarrow> u16 \<Rightarrow> 'h flash \<Rightarrow> 'h flash"
  strt :: "'h flash \<Rightarrow> 'h flash"
  write_KEYR :: "u32 \<Rightarrow> 'h flash \<Rightarrow> 'h flash"
  write_OPTKEYR :: "u32 \<Rightarrow> 'h flash \<Rightarrow> 'h flash"

definition FLASH_KEY1 :: u32 where "FLASH_KEY1 = 0x45670123"
definition FLASH_KEY2 :: u32 where "FLASH_KEY2 = 0xCDEF89AB"
definition FLASH_SR_BSY :: u32 where "FLASH_SR_BSY = 0x01"
definition FLASH_SR_PGERR :: u32 where "FLASH_SR_PGERR = 0x04"
definition FLASH_SR_WRPRTERR :: u32 where "FLASH_SR_WRPRTERR = 0x10"
definition FLASH_CR_PG :: u32 where "FLASH_CR_PG = 0x0001"
definition FLASH_CR_PER :: u32 where "FLASH_CR_PER = 0x0002"
definition FLASH_CR_OPTER :: u32 where "FLASH_CR_OPTER = 0x0020"
definition FLASH_CR_STRT :: u32 where "FLASH_CR_STRT = 0x0040"
definition FLASH_CR_OPTWRE :: u32 where "FLASH_CR_OPTWRE = 0x0200"
definition FLASH_PROGRAM_TIMEOUT :: u32 where "FLASH_PROGRAM_TIMEOUT = 0x00010000"
definition FLASH_ERASE_TIMEOUT :: u32 where "FLASH_ERASE_TIMEOUT = 0x01000000"
definition FLASH_START_ADDR :: u32 where "FLASH_START_ADDR = 0x08000000"
definition FLASH_OFFSET :: u32 where "FLASH_OFFSET = 0x1000"
definition FLASH_START :: u32 where "FLASH_START = FLASH_START_ADDR + FLASH_OFFSET"
definition OPTION_BYTES_ADDR :: u32 where "OPTION_BYTES_ADDR = 0x1ffff800"

section \<open>Operations\<close>

definition flash_unlock :: "'h flash_hw \<Rightarrow> 'h flash \<Rightarrow> 'h flash" where
  "flash_unlock hw f = write_KEYR hw FLASH_KEY2 (write_KEYR hw FLASH_KEY1 f)"

text \<open>The loop reads the status at most as often as the time-out says.\<close>

lemma timeout_measure: "t \<noteq> 1 \<Longrightarrow> unat (t - 2) < unat (t - 1 :: u32)"
proof -
  assume "t \<noteq> 1"
  then have n: "t - 1 \<noteq> 0" by simp
  have "t - 2 = t - 1 - 1" by simp
  then have "unat (t - 2) = unat (t - 1) - 1" using unat_minus_one [OF n] by (simp only:)
  moreover have "0 < unat (t - 1)" using n by (simp only: unat_gt_0) simp
  ultimately show ?thesis by simp
qed

function wait_loop :: "'h flash_hw \<Rightarrow> u32 \<Rightarrow> 'h flash \<Rightarrow> u32 \<times> 'h flash" where
  "wait_loop hw timeout f =
     (let (status, f) = read_SR hw f; timeout = timeout - 1
      in if timeout = 0 then (status, f)
         else if status AND FLASH_SR_BSY \<noteq> 0 then wait_loop hw timeout f
         else (status, f))"
  by auto
termination
  by (relation "measure (\<lambda>(hw, timeout, f). unat (timeout - 1))") (auto simp: timeout_measure)

declare wait_loop.simps [simp del]

definition flash_wait_for_last_operation :: "'h flash_hw \<Rightarrow> u32 \<Rightarrow> 'h flash \<Rightarrow> u32 \<times> 'h flash" where
  "flash_wait_for_last_operation hw timeout f =
     (let (status, f) = wait_loop hw timeout f
      in (status AND (FLASH_SR_BSY OR FLASH_SR_PGERR OR FLASH_SR_WRPRTERR), f))"

definition set_CR :: "u32 \<Rightarrow> 'h flash \<Rightarrow> 'h flash" where
  "set_CR b f = f\<lparr>FLASH_CR := FLASH_CR f OR b\<rparr>"

definition clear_CR :: "u32 \<Rightarrow> 'h flash \<Rightarrow> 'h flash" where
  "clear_CR b f = f\<lparr>FLASH_CR := FLASH_CR f AND NOT b\<rparr>"

definition flash_program_halfword :: "'h flash_hw \<Rightarrow> addr \<Rightarrow> u16 \<Rightarrow> 'h flash \<Rightarrow> u32 \<times> 'h flash" where
  "flash_program_halfword hw addr data f =
     (let (status, f) = flash_wait_for_last_operation hw FLASH_PROGRAM_TIMEOUT f;
          f = f\<lparr>intr_masked := True\<rparr>;
          (status, f) =
            (if status = 0 then
               (let f = set_CR FLASH_CR_PG f;
                    f = store16 hw addr data f;
                    (status, f) = flash_wait_for_last_operation hw FLASH_PROGRAM_TIMEOUT f
                in (status, clear_CR FLASH_CR_PG f))
             else (status, f))
      in (status, f\<lparr>intr_masked := False\<rparr>))"

definition flash_erase_page :: "'h flash_hw \<Rightarrow> addr \<Rightarrow> 'h flash \<Rightarrow> u32 \<times> 'h flash" where
  "flash_erase_page hw addr f =
     (let (status, f) = flash_wait_for_last_operation hw FLASH_ERASE_TIMEOUT f;
          f = f\<lparr>intr_masked := True\<rparr>;
          (status, f) =
            (if status = 0 then
               (let f = set_CR FLASH_CR_PER f;
                    f = f\<lparr>FLASH_AR := addr\<rparr>;
                    f = strt hw (set_CR FLASH_CR_STRT f);
                    (status, f) = flash_wait_for_last_operation hw FLASH_ERASE_TIMEOUT f
                in (status, clear_CR FLASH_CR_PER f))
             else (status, f))
      in (status, f\<lparr>intr_masked := False\<rparr>))"

lemma blank_measure: "p < e \<Longrightarrow> unat (e - (p + 1)) < unat (e - p :: u32)"
proof -
  assume "p < e"
  then have n: "e - p \<noteq> 0" by auto
  have "e - (p + 1) = e - p - 1" by simp
  then have "unat (e - (p + 1)) = unat (e - p) - 1" using unat_minus_one [OF n] by (simp only:)
  moreover have "0 < unat (e - p)" using n by (simp only: unat_gt_0) simp
  ultimately show ?thesis by simp
qed

function blank_loop :: "(addr \<Rightarrow> u8) \<Rightarrow> addr \<Rightarrow> addr \<Rightarrow> bool" where
  "blank_loop m p e = (if p < e then (if m p \<noteq> 0xff then False else blank_loop m (p + 1) e) else True)"
  by auto
termination
  by (relation "measure (\<lambda>(m, p, e). unat (e - p))") (auto simp: blank_measure)

declare blank_loop.simps [simp del]

definition flash_check_blank :: "addr \<Rightarrow> u32 \<Rightarrow> 'h flash \<Rightarrow> bool" where
  "flash_check_blank p_start sz f = blank_loop (cells f) p_start (p_start + sz)"

text \<open>The end of the flash memory, from the size in the size register, in kilobytes.\<close>

definition flash_end :: "u16 \<Rightarrow> u32" where
  "flash_end size_kb = FLASH_START_ADDR + ucast size_kb * 1024"

text \<open>
  The bytes come from \<open>src\<close>, read through the pointer \<open>p\<close>. With an odd length the loop passes
  zero and goes on; a loop that never ends is \<open>None\<close>.
\<close>

partial_function (option) write_loop ::
  "'h flash_hw \<Rightarrow> addr \<Rightarrow> (addr \<Rightarrow> u8) \<Rightarrow> addr \<Rightarrow> u32 \<Rightarrow> 'h flash \<Rightarrow> (bool \<times> 'h flash) option" where
  "write_loop hw dst_addr src p len f =
     (if len \<noteq> 0 then
        (let halfword = ucast (src p) OR push_bit 8 (ucast (src (p + 1))) :: u16;
             (status, f) = flash_program_halfword hw dst_addr halfword f
         in if status \<noteq> 0 then Some (False, f)
            else write_loop hw (dst_addr + 2) src (p + 2) (len - 2) f)
      else Some (True, f))"

definition flash_write ::
  "'h flash_hw \<Rightarrow> u16 \<Rightarrow> addr \<Rightarrow> (addr \<Rightarrow> u8) \<Rightarrow> addr \<Rightarrow> u32 \<Rightarrow> 'h flash \<Rightarrow> (bool \<times> 'h flash) option" where
  "flash_write hw size_kb dst_addr src p len f =
     (if dst_addr < FLASH_START \<or> flash_end size_kb < dst_addr + len then Some (False, f)
      else write_loop hw dst_addr src p len f)"

text \<open>Waiting until the option bytes may be written; \<open>None\<close> if they never may.\<close>

partial_function (option) optwre_loop :: "'h flash_hw \<Rightarrow> 'h flash \<Rightarrow> 'h flash option" where
  "optwre_loop hw f =
     (let (cr, f) = read_CR hw f
      in if cr AND FLASH_CR_OPTWRE = 0 then optwre_loop hw f else Some f)"

definition flash_protect :: "'h flash_hw \<Rightarrow> 'h flash \<Rightarrow> (bool \<times> 'h flash) option" where
  "flash_protect hw f =
     (let (status, f) = flash_wait_for_last_operation hw FLASH_ERASE_TIMEOUT f;
          f = f\<lparr>intr_masked := True\<rparr>
      in do {
        (status, f) \<leftarrow>
          (if status = 0 then do {
             f \<leftarrow> optwre_loop hw (write_OPTKEYR hw FLASH_KEY2 (write_OPTKEYR hw FLASH_KEY1 f));
             let f = set_CR FLASH_CR_OPTER f;
             let f = strt hw (set_CR FLASH_CR_STRT f);
             let (status, f) = flash_wait_for_last_operation hw FLASH_ERASE_TIMEOUT f;
             Some (status, clear_CR FLASH_CR_OPTER f) }
           else Some (status, f));
        let f = f\<lparr>intr_masked := False\<rparr>;
        Some (if status \<noteq> 0 then False else cells f OPTION_BYTES_ADDR = 0xff, f) })"

text \<open>On the STM32F0 the code does not wait for the permission.\<close>

definition flash_protect_f0 :: "'h flash_hw \<Rightarrow> 'h flash \<Rightarrow> bool \<times> 'h flash" where
  "flash_protect_f0 hw f =
     (let (status, f) = flash_wait_for_last_operation hw FLASH_ERASE_TIMEOUT f;
          f = f\<lparr>intr_masked := True\<rparr>;
          (status, f) =
            (if status = 0 then
               (let f = write_OPTKEYR hw FLASH_KEY2 (write_OPTKEYR hw FLASH_KEY1 f);
                    f = set_CR FLASH_CR_OPTER f;
                    f = strt hw (set_CR FLASH_CR_STRT f);
                    (status, f) = flash_wait_for_last_operation hw FLASH_ERASE_TIMEOUT f
                in (status, clear_CR FLASH_CR_OPTER f))
             else (status, f));
          f = f\<lparr>intr_masked := False\<rparr>
      in (if status \<noteq> 0 then False else cells f OPTION_BYTES_ADDR = 0xff, f))"

text \<open>
  The pages from \<open>FLASH_START\<close> on are erased, and the entry is called when all were: that is
  \<open>True\<close>; otherwise the code stops in an endless loop, \<open>False\<close>.
\<close>

partial_function (option) erase_loop ::
  "'h flash_hw \<Rightarrow> u32 \<Rightarrow> addr \<Rightarrow> addr \<Rightarrow> 'h flash \<Rightarrow> (bool \<times> 'h flash) option" where
  "erase_loop hw page_size e addr f =
     (if addr < e then
        (let (r, f) = flash_erase_page hw addr f
         in if r \<noteq> 0 then Some (False, f) else erase_loop hw page_size e (addr + page_size) f)
      else Some (True, f))"

definition flash_erase_all_and_exec :: "'h flash_hw \<Rightarrow> u32 \<Rightarrow> u16 \<Rightarrow> 'h flash \<Rightarrow> (bool \<times> 'h flash) option" where
  "flash_erase_all_and_exec hw chip_id size_kb f =
     (let page_size = (if chip_id AND 0xfff = 0x0414 then 2048 else 1024)
      in erase_loop hw page_size (flash_end size_kb) FLASH_START f)"

section \<open>Protection\<close>

text \<open>The two variants agree on a controller that gives the permission at once.\<close>

lemma flash_protect_agree:
  assumes "\<And>f. fst (read_CR hw (write_OPTKEYR hw FLASH_KEY2 f)) AND FLASH_CR_OPTWRE \<noteq> 0"
    and "\<And>f. snd (read_CR hw f) = f"
  shows "flash_protect hw f = Some (flash_protect_f0 hw f)"
proof -
  have "optwre_loop hw (write_OPTKEYR hw FLASH_KEY2 f) = Some (write_OPTKEYR hw FLASH_KEY2 f)" for f
    using assms(1) [of f] assms(2) [of "write_OPTKEYR hw FLASH_KEY2 f"]
    by (subst optwre_loop.simps) (simp add: split_beta)
  then show ?thesis
    by (simp add: flash_protect_def flash_protect_f0_def Let_def split_beta)
qed

section \<open>Programming\<close>

text \<open>
  What the properties assume of the controller: reading the status changes no cell, and a store
  programs the two bytes, or changes nothing and the status tells.
\<close>

definition flash_law :: "'h flash_hw \<Rightarrow> bool" where
  "flash_law hw \<longleftrightarrow> (\<forall>f. cells (snd (read_SR hw f)) = cells f) \<and>
     (\<forall>a d f. let f' = store16 hw a d f in
       cells f' = (cells f)(a := ucast d, a + 1 := ucast (drop_bit 8 d)) \<or>
       cells f' = cells f \<and> fst (flash_wait_for_last_operation hw FLASH_PROGRAM_TIMEOUT f') \<noteq> 0)"

lemma wait_loop_cells:
  assumes "flash_law hw"
  shows "cells (snd (wait_loop hw t f)) = cells f"
  using assms
proof (induction hw t f rule: wait_loop.induct)
  case (1 hw timeout f)
  obtain status g where r: "read_SR hw f = (status, g)" by force
  have "cells g = cells f" using 1(2) r unfolding flash_law_def by (metis snd_conv)
  then show ?case
    using 1(1) [OF r [symmetric] refl refl] 1(2) by (subst wait_loop.simps) (auto simp: r Let_def)
qed

lemma program_halfword_cells:
  assumes law: "flash_law hw" and p: "flash_program_halfword hw a d f = (status, f')"
  shows "x \<noteq> a \<Longrightarrow> x \<noteq> a + 1 \<Longrightarrow> cells f' x = cells f x"
    and "status = 0 \<Longrightarrow> cells f' = (cells f)(a := ucast d, a + 1 := ucast (drop_bit 8 d))"
proof -
  let ?wait = "flash_wait_for_last_operation hw FLASH_PROGRAM_TIMEOUT"
  have wait: "cells (snd (?wait g)) = cells g" for g
    using wait_loop_cells [OF law, of FLASH_PROGRAM_TIMEOUT g]
    by (auto simp: flash_wait_for_last_operation_def split: prod.split)
  obtain s1 g where w1: "?wait f = (s1, g)" by force
  define h where "h = store16 hw a d (set_CR FLASH_CR_PG (g\<lparr>intr_masked := True\<rparr>))"
  obtain s2 k where w2: "?wait h = (s2, k)" by force
  have g: "cells g = cells f" using wait [of f] w1 by simp
  have k: "cells k = cells h" using wait [of h] w2 by simp
  define pre where "pre = set_CR FLASH_CR_PG (g\<lparr>intr_masked := True\<rparr>)"
  have "cells pre = cells f" by (simp add: pre_def set_CR_def g)
  moreover have "cells h = (cells pre)(a := ucast d, a + 1 := ucast (drop_bit 8 d)) \<or> cells h = cells pre \<and> fst (?wait h) \<noteq> 0"
    using law unfolding flash_law_def Let_def h_def pre_def [symmetric] by blast
  ultimately have h: "cells h = (cells f)(a := ucast d, a + 1 := ucast (drop_bit 8 d)) \<or> cells h = cells f \<and> s2 \<noteq> 0"
    using w2 by simp
  show "x \<noteq> a \<Longrightarrow> x \<noteq> a + 1 \<Longrightarrow> cells f' x = cells f x"
    using p w1 w2 g h k by (auto simp: flash_program_halfword_def Let_def h_def clear_CR_def split: if_splits)
  show "status = 0 \<Longrightarrow> cells f' = (cells f)(a := ucast d, a + 1 := ucast (drop_bit 8 d))"
    using p w1 w2 h k by (auto simp: flash_program_halfword_def Let_def h_def clear_CR_def split: if_splits)
qed

text \<open>The bytes of the window, whichever way the addresses wrap.\<close>

lemma write_loop_cells:
  assumes law: "flash_law hw"
  shows "even (unat len) \<Longrightarrow> \<exists>r f'. write_loop hw dst src p len f = Some (r, f') \<and>
    (\<forall>x. unat len \<le> unat (x - dst) \<longrightarrow> cells f' x = cells f x) \<and>
    (r \<longrightarrow> (\<forall>x. unat (x - dst) < unat len \<longrightarrow> cells f' x = src (p + (x - dst))))"
proof (induction "unat len" arbitrary: dst p len f rule: less_induct)
  case less
  show ?case
  proof (cases "len = 0")
    case True
    then show ?thesis by (intro exI [of _ True] exI [of _ f]) (simp add: write_loop.simps)
  next
    case False
    let ?h = "ucast (src p) OR push_bit 8 (ucast (src (p + 1))) :: u16"
    have l: "2 \<le> unat len" "unat len < 2 ^ 32"
      using False less.prems unsigned_less [of len, where 'a = nat]
      by (auto simp: unat_eq_zero [symmetric] elim: evenE)
    obtain status g where ph: "flash_program_halfword hw dst ?h f = (status, g)" by force
    note c = program_halfword_cells [OF law ph]
    have near: "unat (dst - dst) < unat len" "unat (dst + 1 - dst) < unat len" using l by simp_all
    show ?thesis
    proof (cases "status = 0")
      case False
      then have "write_loop hw dst src p len f = Some (False, g)"
        using \<open>len \<noteq> 0\<close> ph by (subst write_loop.simps) (simp add: Let_def)
      moreover have "cells g x = cells f x" if "unat len \<le> unat (x - dst)" for x
        using c(1) [of x] that near by (metis not_le)
      ultimately show ?thesis by blast
    next
      case True
      have step: "write_loop hw dst src p len f = write_loop hw (dst + 2) src (p + 2) (len - 2) g"
        using \<open>len \<noteq> 0\<close> ph True by (subst write_loop.simps) (simp add: Let_def)
      have l2: "unat (len - 2) = unat len - 2" using l by (simp add: unat_sub_le word_le_nat_alt)
      have "even (unat (len - 2))" "unat (len - 2) < unat len" using less.prems l l2 by simp_all
      from less.hyps [OF this(2,1), of "dst + 2" "p + 2" g] obtain r f' where
        r: "write_loop hw (dst + 2) src (p + 2) (len - 2) g = Some (r, f')"
        and out: "\<And>x. unat (len - 2) \<le> unat (x - (dst + 2)) \<Longrightarrow> cells f' x = cells g x"
        and inn: "\<And>x. r \<Longrightarrow> unat (x - (dst + 2)) < unat (len - 2) \<Longrightarrow> cells f' x = src (p + 2 + (x - (dst + 2)))"
        by blast
      have g: "cells g = (cells f)(dst := src p, dst + 1 := src (p + 1))"
        using c(2) [OF True] by (simp only: low_high)
      have far: "unat (x - (dst + 2)) = (if 2 \<le> unat (x - dst) then unat (x - dst) - 2 else unat (x - dst) + 4294967294)" for x
        using unat_minus_2 [of "x - dst"] by (simp add: diff_diff_eq)
      have "cells f' x = cells f x" if "unat len \<le> unat (x - dst)" for x
        using out [of x] that l l2 far [of x] near by (auto simp: g)
      moreover have "cells f' x = src (p + (x - dst))" if "r" "unat (x - dst) < unat len" for x
      proof (cases "2 \<le> unat (x - dst)")
        case True
        then show ?thesis using inn [of x] that l2 far [of x] by (simp add: algebra_simps)
      next
        case False
        then have "x - dst = 0 \<or> x - dst = 1"
          using less_2_cases [of "unat (x - dst)"] word_unat_eq_iff [of "x - dst" 1] by (auto simp: unat_eq_zero)
        then have "x = dst \<or> x = dst + 1" by (auto simp: diff_eq_eq add.commute)
        moreover have "cells f' x = cells g x" using out [of x] far [of x] False l l2 by simp
        ultimately show ?thesis by (auto simp: g)
      qed
      ultimately show ?thesis using r step by auto
    qed
  qed
qed

text \<open>
  C21: flash_write programs what it is given and nothing else. For an even number of bytes whose end
  does not pass the end of the address space, it returns; no cell changes below FLASH_START, from
  the end of the flash memory on, or outside the destination, whatever errors the controller reports; and when it
  reports success, the destination lies in the flash memory and holds the bytes. Both conditions on the length
  are needed: the range check adds in 32 bits and does not look at the lowest bit (\<open>flash_write_range_check_wraps\<close>).
\<close>

theorem flash_write_exact:
  assumes law: "flash_law hw" and len: "even (unat len)" "unat dst + unat len < 2 ^ 32"
  shows "\<exists>r f'. flash_write hw kb dst src p len f = Some (r, f') \<and>
    (\<forall>x. cells f' x \<noteq> cells f x \<longrightarrow>
      FLASH_START \<le> x \<and> x < flash_end kb \<and> unat (x - dst) < unat len) \<and>
    (r \<longrightarrow> FLASH_START \<le> dst \<and> dst + len \<le> flash_end kb \<and>
      (\<forall>x. unat (x - dst) < unat len \<longrightarrow> cells f' x = src (p + (x - dst))))"
proof (cases "dst < FLASH_START \<or> flash_end kb < dst + len")
  case True
  then show ?thesis by (intro exI [of _ False] exI [of _ f]) (simp add: flash_write_def)
next
  case False
  then have w: "flash_write hw kb dst src p len f = write_loop hw dst src p len f"
    by (simp add: flash_write_def)
  from write_loop_cells [OF law len(1), of dst src p f] obtain r f' where
    r: "write_loop hw dst src p len f = Some (r, f')"
    and out: "\<And>x. unat len \<le> unat (x - dst) \<Longrightarrow> cells f' x = cells f x"
    and inn: "\<And>x. r \<Longrightarrow> unat (x - dst) < unat len \<Longrightarrow> cells f' x = src (p + (x - dst))"
    by blast
  have e: "unat (dst + len) = unat dst + unat len" using len(2) by (simp add: unat_add_lt)
  have "FLASH_START \<le> x \<and> x < flash_end kb \<and> unat (x - dst) < unat len" if "cells f' x \<noteq> cells f x" for x
  proof -
    have in_range: "unat (x - dst) < unat len" using out [of x] that by (metis not_less)
    have "unat x = unat dst + unat (x - dst)"
    proof -
      have "unat dst + unat (x - dst) < 2 ^ 32" using in_range len(2) by simp
      then show ?thesis using unat_add_lt [of dst "x - dst"] by simp
    qed
    then have "FLASH_START \<le> x \<and> x < flash_end kb"
      using False in_range e by (auto simp: word_le_nat_alt word_less_nat_alt not_less)
    with in_range show ?thesis by simp
  qed
  then show ?thesis using r w inn False by (auto simp: not_less)
qed

text \<open>A controller without errors, and an erased memory.\<close>

definition good_flash :: "unit flash_hw" where
  "good_flash = \<lparr>read_SR = (\<lambda>f. (0, f)), read_CR = (\<lambda>f. (FLASH_CR_OPTWRE, f)),
     store16 = (\<lambda>a d f. f\<lparr>cells := (cells f)(a := ucast d, a + 1 := ucast (drop_bit 8 d))\<rparr>),
     strt = (\<lambda>f. f), write_KEYR = (\<lambda>_ f. f), write_OPTKEYR = (\<lambda>_ f. f)\<rparr>"

theorem flash_write_exact_witness:
  "\<exists>f f' :: unit flash. flash_write good_flash 64 0x08002000 ucast 0x20000080 4 f = Some (True, f') \<and>
     cells f' 0x08002001 = 0x81"
proof -
  have law: "flash_law good_flash" by (simp add: flash_law_def good_flash_def Let_def)
  define f :: "unit flash" where
    "f = \<lparr>FLASH_CR = 0, FLASH_AR = 0, cells = (\<lambda>_. 0xff), intr_masked = False, inner = ()\<rparr>"
  have "fst (flash_program_halfword good_flash a d g) = 0" for a d and g :: "unit flash"
    by (simp add: flash_program_halfword_def flash_wait_for_last_operation_def good_flash_def
        wait_loop.simps Let_def split: prod.split)
  then have ok: "\<exists>h. flash_program_halfword good_flash a d g = (0, h)" for a d and g :: "unit flash"
    by (metis prod.collapse)
  obtain g where g: "flash_program_halfword good_flash 0x08002000
      (ucast (ucast (0x20000080 :: u32) :: u8) OR push_bit 8 (ucast (ucast (0x20000081 :: u32) :: u8))) f = (0, g)"
    using ok by blast
  obtain h where h: "flash_program_halfword good_flash 0x08002002
      (ucast (ucast (0x20000082 :: u32) :: u8) OR push_bit 8 (ucast (ucast (0x20000083 :: u32) :: u8))) g = (0, h)"
    using ok by blast
  have "write_loop good_flash 0x08002000 ucast 0x20000080 4 f = Some (True, h)"
    using g h by (simp add: write_loop.simps Let_def)
  then have w: "flash_write good_flash 64 0x08002000 ucast 0x20000080 4 f = Some (True, h)"
    by (simp add: flash_write_def FLASH_START_def FLASH_START_ADDR_def FLASH_OFFSET_def flash_end_def)
  with flash_write_exact [OF law, where len = 4 and dst = "0x08002000" and kb = 64 and src = ucast
      and p = "0x20000080" and f = f]
  have "cells h 0x08002001 = 0x81" by (auto dest!: spec [of _ "0x08002001"])
  with w show ?thesis by blast
qed

text \<open>
  Without the bound on the end the range check is no protection: the sum wraps, and any
  destination passes with a length that takes it to the end of the address space.
\<close>

lemma flash_write_range_check_wraps:
  "even (unat (- FLASH_START))" "unat (flash_end kb) < unat FLASH_START + unat (- FLASH_START)"
  "flash_write hw kb FLASH_START src p (- FLASH_START) f = write_loop hw FLASH_START src p (- FLASH_START) f"
proof -
  have f: "- FLASH_START = 0xF7FFF000" "FLASH_START = 0x08001000"
    by (simp_all add: FLASH_START_def FLASH_START_ADDR_def FLASH_OFFSET_def)
  show "even (unat (- FLASH_START))" unfolding f(1) by simp
  show "unat (flash_end kb) < unat FLASH_START + unat (- FLASH_START)"
    unfolding f using unsigned_less [of "flash_end kb", where 'a = nat] by simp
  show "flash_write hw kb FLASH_START src p (- FLASH_START) f = write_loop hw FLASH_START src p (- FLASH_START) f"
    unfolding flash_write_def by simp
qed

end
