(* ===== verification/Usbip_Device.thy ===== *)
theory Usbip_Device
  imports Usb_Lld
begin

text \<open>
  The device side of the USB emulation on GNU/Linux (\<open>mcu/usb-usbip.c\<close>): the same interface to
  applications as the drivers of the microcontrollers, on a controller that is emulated by another thread of
  the process. The controller's thread and the device's share, for each endpoint, a buffer with a
  state (\<open>struct usb_control\<close>), and one word that names the event the device has to handle
  (\<open>struct usb_controller\<close>); the device answers through an \<open>eventfd\<close>.

  The types of requests, events and states are those of \<open>usb_lld.h\<close> and \<open>usb_lld_driver.h\<close>, in
  \<open>Usb_Lld\<close>. Routines that have the name of one there have the suffix \<open>_ip\<close>. Each critical section of
  the mutex of an endpoint is a part of one definition.
\<close>

unbundle bit_operations_syntax

section \<open>State\<close>

datatype ep_state = USB_STATE_DISABLED | USB_STATE_STALL | USB_STATE_NAK | USB_STATE_READY

datatype usb_intr =
  USB_INTR_NONE | USB_INTR_SETUP | USB_INTR_DATA_TRANSFER | USB_INTR_RESET | USB_INTR_SUSPEND | USB_INTR_SHUTDOWN

text \<open>
  \<open>uc_urb\<close> is the request of the host that the endpoint works on, by the address of its structure;
  \<open>uc_eventfd\<close> is the counter of the \<open>eventfd\<close>: a write adds to it, a read waits until it is not
  zero and clears it.
\<close>

record usb_control =
  uc_eventfd :: nat
  uc_state :: ep_state
  uc_buf :: addr
  uc_len :: u16
  uc_urb :: "addr option"

text \<open>
  The memory has the global array \<open>usb_setup\<close>, the variable \<open>status_info\<close> and
  \<open>dev->configuration\<close>, at the addresses the compiler gave them; the other members of \<open>struct usb_dev\<close> are
  fields.
\<close>

record usbip =
  usbc_intr :: usb_intr
  usbc_dir :: bool
  usbc_ep_num :: u8
  ep_in :: "u32 \<Rightarrow> usb_control"
  ep_out :: "u32 \<Rightarrow> usb_control"
  ip_mem :: "addr \<Rightarrow> u8"
  usb_setup :: addr
  status_info :: addr
  configuration_at :: addr
  ip_feature :: u8
  ip_state :: control_state
  ip_req :: device_req
  ip_data :: ctrl_data

abbreviation usbc_ep0 :: "'z usbip_scheme \<Rightarrow> usb_control" where
  "usbc_ep0 s \<equiv> ep_out s 0"

definition set_ep0 :: "usb_control \<Rightarrow> 'z usbip_scheme \<Rightarrow> 'z usbip_scheme" where
  "set_ep0 c s = s\<lparr>ep_out := (ep_out s)(0 := c)\<rparr>"

definition configuration_ip :: "'z usbip_scheme \<Rightarrow> u8" where
  "configuration_ip s = ip_mem s (configuration_at s)"

definition notify_hostcontroller :: "usb_control \<Rightarrow> usb_control" where
  "notify_hostcontroller c = c\<lparr>uc_eventfd := uc_eventfd c + 1\<rparr>"

text \<open>What the device does with endpoint 0: set its state, and its buffer too, and tell the host.\<close>

definition ep0_offer :: "addr \<Rightarrow> u16 \<Rightarrow> 'z usbip_scheme \<Rightarrow> 'z usbip_scheme" where
  "ep0_offer buf len s =
     set_ep0 (notify_hostcontroller ((usbc_ep0 s)\<lparr>uc_buf := buf, uc_len := len, uc_state := USB_STATE_READY\<rparr>)) s"

definition ep0_stall :: "'z usbip_scheme \<Rightarrow> 'z usbip_scheme" where
  "ep0_stall s = set_ep0 (notify_hostcontroller ((usbc_ep0 s)\<lparr>uc_state := USB_STATE_STALL\<rparr>)) s"

section \<open>Control transfers\<close>

definition handle_datastage_out_ip :: "'z usbip_scheme \<Rightarrow> 'z usbip_scheme" where
  "handle_datastage_out_ip s =
     (let len = uc_len (usbc_ep0 s);
          c = ip_data s;
          c = c\<lparr>cd_len := cd_len c - len, cd_addr := cd_addr c + ucast len\<rparr>;
          s = s\<lparr>ip_data := c\<rparr>;
          len = (if USB_MAX_PACKET_SIZE < ucast (cd_len c) then USB_MAX_PACKET_SIZE else ucast (cd_len c))
      in if cd_len c = 0 then ep0_offer (usb_setup s) 0 (s\<lparr>ip_state := WAIT_STATUS_IN\<rparr>)
         else ep0_offer (cd_addr c) (ucast len) (s\<lparr>ip_state := OUT_DATA\<rparr>))"

definition handle_datastage_in_ip :: "'z usbip_scheme \<Rightarrow> 'z usbip_scheme" where
  "handle_datastage_in_ip s =
     (let c = ip_data s; len = USB_MAX_PACKET_SIZE
      in if cd_len c = 0 \<and> ip_state s = LAST_IN_DATA then
           (if cd_require_zlp c \<noteq> 0
            then ep0_offer (usb_setup s) 0 (s\<lparr>ip_data := c\<lparr>cd_require_zlp := 0\<rparr>\<rparr>)
            else ep0_offer (usb_setup s) 0 (s\<lparr>ip_state := WAIT_STATUS_OUT\<rparr>))
         else
           (let s = s\<lparr>ip_state := (if ucast (cd_len c) \<le> len then LAST_IN_DATA else IN_DATA)\<rparr>;
                len = (if ucast (cd_len c) < len then ucast (cd_len c) else len);
                s = ep0_offer (cd_addr c) (ucast len) s
            in s\<lparr>ip_data := c\<lparr>cd_len := cd_len c - ucast len, cd_addr := cd_addr c + len\<rparr>\<rparr>))"

definition usb_lld_ctrl_ack_ip :: "'z usbip_scheme \<Rightarrow> usb_event \<times> 'z usbip_scheme" where
  "usb_lld_ctrl_ack_ip s = (USB_EVENT_OK, ep0_offer (usb_setup s) 0 (s\<lparr>ip_state := WAIT_STATUS_IN\<rparr>))"

definition usb_lld_ctrl_recv_ip :: "addr \<Rightarrow> u32 \<Rightarrow> 'z usbip_scheme \<Rightarrow> usb_event \<times> 'z usbip_scheme" where
  "usb_lld_ctrl_recv_ip p len s =
     (let s = s\<lparr>ip_data := (ip_data s)\<lparr>cd_addr := p, cd_len := ucast len\<rparr>\<rparr>;
          s = s\<lparr>ip_state := OUT_DATA\<rparr>;
          len = (if USB_MAX_PACKET_SIZE < len then USB_MAX_PACKET_SIZE else len)
      in (USB_EVENT_OK, ep0_offer p (ucast len) s))"

definition usb_lld_ctrl_send_ip :: "addr \<Rightarrow> u32 \<Rightarrow> 'z usbip_scheme \<Rightarrow> usb_event \<times> 'z usbip_scheme" where
  "usb_lld_ctrl_send_ip buf buflen s =
     (let len_asked = req_len (ip_req s);
          c = (ip_data s)\<lparr>cd_addr := buf, cd_len := ucast buflen\<rparr>;
          c = (if len_asked \<le> cd_len c then c\<lparr>cd_len := len_asked\<rparr>
               else if cd_len c \<noteq> 0 \<and> (ucast (cd_len c) :: u32) mod USB_MAX_PACKET_SIZE = 0
               then c\<lparr>cd_require_zlp := 1\<rparr> else c);
          (len, s) = (if ucast (cd_len c) < USB_MAX_PACKET_SIZE
                      then (ucast (cd_len c), s\<lparr>ip_state := LAST_IN_DATA\<rparr>)
                      else (USB_MAX_PACKET_SIZE, s\<lparr>ip_state := IN_DATA\<rparr>));
          s = ep0_offer (cd_addr c) (ucast len) s;
          s = s\<lparr>ip_data := c\<lparr>cd_len := cd_len c - ucast len, cd_addr := cd_addr c + len\<rparr>\<rparr>
      in (USB_EVENT_OK, s))"

definition usb_lld_ctrl_error_ip :: "'z usbip_scheme \<Rightarrow> 'z usbip_scheme" where
  "usb_lld_ctrl_error_ip s = ep0_stall (s\<lparr>ip_state := STALLED\<rparr>)"

section \<open>Standard device requests\<close>

text \<open>\<open>status_info\<close> is a static variable: its bits stay from one request to the next.\<close>

definition set_mem16_ip :: "addr \<Rightarrow> u16 \<Rightarrow> 'z usbip_scheme \<Rightarrow> 'z usbip_scheme" where
  "set_mem16_ip p w s = s\<lparr>ip_mem := put16 p w (ip_mem s)\<rparr>"

definition send_status_ip :: "u16 \<Rightarrow> 'z usbip_scheme \<Rightarrow> (usb_event \<times> 'z usbip_scheme) option" where
  "send_status_ip w s =
     Some (usb_lld_ctrl_send_ip (status_info s) 2 (set_mem16_ip (status_info s) w s))"

definition std_get_status_ip :: "'z usbip_scheme \<Rightarrow> (usb_event \<times> 'z usbip_scheme) option" where
  "std_get_status_ip s =
     (let arg = ip_req s; status = mem16 (ip_mem s) (status_info s)
      in if req_value arg \<noteq> 0 \<or> req_len arg \<noteq> 2 \<or> drop_bit 8 (req_index arg) \<noteq> 0 \<or>
           USB_SETUP_SET (req_type arg) then None
         else (case recipient (req_type arg) of
           DEVICE_RECIPIENT \<Rightarrow>
             (if req_index arg = 0 then
                (let feature = ip_feature s;
                     status = (if feature AND push_bit 5 1 \<noteq> 0 then status OR 2 else status AND NOT 2);
                     status = (if feature AND push_bit 6 1 \<noteq> 0 then status OR 1 else status AND NOT 1)
                 in send_status_ip status s)
              else None)
         | INTERFACE_RECIPIENT \<Rightarrow>
             (if configuration_ip s = 0 then None else Some (USB_EVENT_GET_STATUS_INTERFACE, s))
         | ENDPOINT_RECIPIENT \<Rightarrow>
             (let ep_num = ucast (req_index arg AND 0x0f) :: u32;
                  c = (if req_index arg AND 0x80 \<noteq> 0 then ep_in s ep_num else ep_out s ep_num)
              in if req_index arg AND 0x70 \<noteq> 0 \<or> ep_num = 0 then None
                 else if uc_state c = USB_STATE_DISABLED then None
                 else send_status_ip (if uc_state c = USB_STATE_STALL then status OR 1 else status) s)
         | OTHER_RECIPIENT \<Rightarrow> None))"

definition set_ep_state :: "bool \<Rightarrow> u32 \<Rightarrow> ep_state \<Rightarrow> 'z usbip_scheme \<Rightarrow> 'z usbip_scheme" where
  "set_ep_state dir ep_num st s =
     (if dir then s\<lparr>ep_in := (ep_in s)(ep_num := (ep_in s ep_num)\<lparr>uc_state := st\<rparr>)\<rparr>
      else s\<lparr>ep_out := (ep_out s)(ep_num := (ep_out s ep_num)\<lparr>uc_state := st\<rparr>)\<rparr>)"

text \<open>The two requests for a feature differ in what they do when it is one they know.\<close>

definition feature_request ::
  "u8 \<Rightarrow> ep_state \<Rightarrow> usb_event \<Rightarrow> usb_event \<Rightarrow> 'z usbip_scheme \<Rightarrow> (usb_event \<times> 'z usbip_scheme) option" where
  "feature_request f st ev_device ev_endpoint s =
     (let arg = ip_req s
      in if USB_SETUP_GET (req_type arg) then None
         else (case recipient (req_type arg) of
           DEVICE_RECIPIENT \<Rightarrow>
             (if req_len arg \<noteq> 0 \<or> req_index arg \<noteq> 0 then None
              else if req_value arg = FEATURE_DEVICE_REMOTE_WAKEUP
              then Some (ev_device, s\<lparr>ip_feature := f\<rparr>)
              else None)
         | ENDPOINT_RECIPIENT \<Rightarrow>
             (let ep_num = ucast (req_index arg AND 0x0f) :: u32; dir = (req_index arg AND 0x80 \<noteq> 0)
              in if configuration_ip s = 0 then None
                 else if req_len arg \<noteq> 0 \<or> drop_bit 8 (req_index arg) \<noteq> 0 \<or>
                   req_value arg \<noteq> FEATURE_ENDPOINT_HALT \<or> ep_num = 0 then None
                 else if uc_state (if dir then ep_in s ep_num else ep_out s ep_num) = USB_STATE_DISABLED then None
                 else Some (ev_endpoint, set_ep_state dir ep_num st s))
         | _ \<Rightarrow> None))"

definition std_clear_feature_ip :: "'z usbip_scheme \<Rightarrow> (usb_event \<times> 'z usbip_scheme) option" where
  "std_clear_feature_ip s =
     feature_request (ip_feature s AND NOT (push_bit 5 1)) USB_STATE_NAK
       USB_EVENT_CLEAR_FEATURE_DEVICE USB_EVENT_CLEAR_FEATURE_ENDPOINT s"

definition std_set_feature_ip :: "'z usbip_scheme \<Rightarrow> (usb_event \<times> 'z usbip_scheme) option" where
  "std_set_feature_ip s =
     feature_request (ip_feature s OR push_bit 5 1) USB_STATE_STALL
       USB_EVENT_SET_FEATURE_DEVICE USB_EVENT_SET_FEATURE_ENDPOINT s"

definition std_set_address_ip :: "'z usbip_scheme \<Rightarrow> (usb_event \<times> 'z usbip_scheme) option" where
  "std_set_address_ip s =
     (let arg = ip_req s
      in if USB_SETUP_GET (req_type arg) then None
         else if recipient (req_type arg) = DEVICE_RECIPIENT \<and> req_len arg = 0 \<and> req_value arg \<le> 127 \<and>
           req_index arg = 0 \<and> configuration_ip s = 0 then Some (usb_lld_ctrl_ack_ip s)
         else None)"

definition std_get_descriptor_ip :: "'z usbip_scheme \<Rightarrow> (usb_event \<times> 'z usbip_scheme) option" where
  "std_get_descriptor_ip s =
     (if USB_SETUP_SET (req_type (ip_req s)) then None else Some (USB_EVENT_GET_DESCRIPTOR, s))"

definition std_get_configuration_ip :: "'z usbip_scheme \<Rightarrow> (usb_event \<times> 'z usbip_scheme) option" where
  "std_get_configuration_ip s =
     (let arg = ip_req s
      in if USB_SETUP_SET (req_type arg) then None
         else if req_value arg \<noteq> 0 \<or> req_index arg \<noteq> 0 \<or> req_len arg \<noteq> 1 then None
         else if recipient (req_type arg) = DEVICE_RECIPIENT
         then Some (usb_lld_ctrl_send_ip (configuration_at s) 1 s)
         else None)"

definition std_set_configuration_ip :: "'z usbip_scheme \<Rightarrow> (usb_event \<times> 'z usbip_scheme) option" where
  "std_set_configuration_ip s =
     (let arg = ip_req s
      in if USB_SETUP_GET (req_type arg) then None
         else if req_index arg \<noteq> 0 \<or> req_len arg \<noteq> 0 then None
         else if recipient (req_type arg) = DEVICE_RECIPIENT then Some (USB_EVENT_SET_CONFIGURATION, s)
         else None)"

definition std_get_interface_ip :: "'z usbip_scheme \<Rightarrow> (usb_event \<times> 'z usbip_scheme) option" where
  "std_get_interface_ip s =
     (let arg = ip_req s
      in if USB_SETUP_SET (req_type arg) then None
         else if req_value arg \<noteq> 0 \<or> drop_bit 8 (req_index arg) \<noteq> 0 \<or> req_len arg \<noteq> 1 then None
         else if configuration_ip s = 0 then None
         else if recipient (req_type arg) = INTERFACE_RECIPIENT then Some (USB_EVENT_GET_INTERFACE, s)
         else None)"

definition std_set_interface_ip :: "'z usbip_scheme \<Rightarrow> (usb_event \<times> 'z usbip_scheme) option" where
  "std_set_interface_ip s =
     (let arg = ip_req s
      in if USB_SETUP_GET (req_type arg) \<or> recipient (req_type arg) \<noteq> INTERFACE_RECIPIENT \<or>
           req_len arg \<noteq> 0 \<or> drop_bit 8 (req_index arg) \<noteq> 0 \<or> drop_bit 8 (req_value arg) \<noteq> 0 \<or>
           configuration_ip s = 0 then None
         else Some (USB_EVENT_SET_INTERFACE, s))"

definition std_request_ip :: "u8 \<Rightarrow> 'z usbip_scheme \<Rightarrow> (usb_event \<times> 'z usbip_scheme) option" where
  "std_request_ip req_no =
     (if req_no = 0 then std_get_status_ip
      else if req_no = 1 then std_clear_feature_ip
      else if req_no = 3 then std_set_feature_ip
      else if req_no = 5 then std_set_address_ip
      else if req_no = 6 then std_get_descriptor_ip
      else if req_no = 8 then std_get_configuration_ip
      else if req_no = 9 then std_set_configuration_ip
      else if req_no = 10 then std_get_interface_ip
      else if req_no = 11 then std_set_interface_ip
      else (\<lambda>s. None))"

section \<open>Events\<close>

definition read_setup_ip :: "'z usbip_scheme \<Rightarrow> device_req" where
  "read_setup_ip s =
     (let b = (\<lambda>i. ip_mem s (usb_setup s + i)); w = (\<lambda>i. push_bit 8 (ucast (b (i + 1))) + ucast (b i))
      in \<lparr>req_type = b 0, req_request = b 1, req_value = w 2, req_index = w 4, req_len = w 6\<rparr>)"

definition handle_setup0_ip :: "'z usbip_scheme \<Rightarrow> usb_event \<times> 'z usbip_scheme" where
  "handle_setup0_ip s =
     (let s = s\<lparr>ip_req := read_setup_ip s\<rparr>;
          s = s\<lparr>ip_data := \<lparr>cd_addr = 0, cd_len = 0, cd_require_zlp = 0\<rparr>\<rparr>;
          req = ip_req s
      in if req_type req AND REQUEST_TYPE = STANDARD_REQUEST then
           (case std_request_ip (req_request req) s of
              None \<Rightarrow> (USB_EVENT_OK, usb_lld_ctrl_error_ip s)
            | Some r \<Rightarrow> r)
         else (USB_EVENT_CTRL_REQUEST, s))"

definition handle_in0_ip :: "'z usbip_scheme \<Rightarrow> usb_event \<times> 'z usbip_scheme" where
  "handle_in0_ip s =
     (let st = ip_state s; req = ip_req s
      in if st = IN_DATA \<or> st = LAST_IN_DATA then (USB_EVENT_OK, handle_datastage_in_ip s)
         else if st = WAIT_STATUS_IN then
           (if req_request req = SET_ADDRESS \<and>
              req_type req AND (REQUEST_TYPE OR RECIPIENT) = STANDARD_REQUEST OR 0
            then USB_EVENT_DEVICE_ADDRESSED else USB_EVENT_CTRL_WRITE_FINISH,
            ep0_offer (usb_setup s) 8 (s\<lparr>ip_state := WAIT_SETUP\<rparr>))
         else (USB_EVENT_OK, ep0_stall (s\<lparr>ip_state := STALLED\<rparr>)))"

definition handle_out0_ip :: "'z usbip_scheme \<Rightarrow> 'z usbip_scheme" where
  "handle_out0_ip s =
     (if ip_state s = OUT_DATA then handle_datastage_out_ip s
      else if ip_state s = WAIT_STATUS_OUT then ep0_offer (usb_setup s) 8 (s\<lparr>ip_state := WAIT_SETUP\<rparr>)
      else ep0_stall (s\<lparr>ip_state := STALLED\<rparr>))"

definition usb_handle_transfer_ip :: "bool \<Rightarrow> u8 \<Rightarrow> 'z usbip_scheme \<Rightarrow> u32 \<times> 'z usbip_scheme" where
  "usb_handle_transfer_ip dir ep_num s =
     (if ep_num = 0 then
        (if dir then (let (ev, s) = handle_in0_ip s in (USB_MAKE_EV ev, s))
         else (event_no USB_EVENT_OK, handle_out0_ip s))
      else if dir then (USB_MAKE_TXRX ep_num True (uc_len (ep_in s (ucast ep_num))), s)
      else (USB_MAKE_TXRX ep_num False (uc_len (ep_out s (ucast ep_num))), s))"

definition usb_lld_event_handler_ip :: "'z usbip_scheme \<Rightarrow> u32 \<times> 'z usbip_scheme" where
  "usb_lld_event_handler_ip s =
     (let intr = usbc_intr s; dir = usbc_dir s; ep_num = usbc_ep_num s;
          s = s\<lparr>usbc_intr := USB_INTR_NONE\<rparr>
      in case intr of
           USB_INTR_RESET \<Rightarrow> (USB_MAKE_EV USB_EVENT_DEVICE_RESET, s)
         | USB_INTR_SETUP \<Rightarrow> (let (ev, s) = handle_setup0_ip s in (USB_MAKE_EV ev, s))
         | USB_INTR_DATA_TRANSFER \<Rightarrow> usb_handle_transfer_ip dir ep_num s
         | _ \<Rightarrow> (event_no USB_EVENT_OK, s))"

section \<open>The driver's interface\<close>

definition usb_lld_current_configuration_ip :: "'z usbip_scheme \<Rightarrow> u8" where
  "usb_lld_current_configuration_ip s = configuration_ip s"

definition usb_lld_set_configuration_ip :: "u8 \<Rightarrow> 'z usbip_scheme \<Rightarrow> 'z usbip_scheme" where
  "usb_lld_set_configuration_ip config s = s\<lparr>ip_mem := (ip_mem s)(configuration_at s := config)\<rparr>"

definition usb_lld_reset_ip :: "u8 \<Rightarrow> 'z usbip_scheme \<Rightarrow> 'z usbip_scheme" where
  "usb_lld_reset_ip f s =
     (let s = usb_lld_set_configuration_ip 0 s; s = s\<lparr>ip_feature := f\<rparr>
      in set_ep0 ((usbc_ep0 s)\<lparr>uc_state := USB_STATE_READY\<rparr>) s)"

text \<open>The \<open>eventfd\<close>s are new, and the thread of the controller starts.\<close>

definition usb_lld_init_ip :: "u8 \<Rightarrow> 'z usbip_scheme \<Rightarrow> 'z usbip_scheme" where
  "usb_lld_init_ip f s =
     (let fresh = (\<lambda>c. c\<lparr>uc_urb := None, uc_eventfd := 0\<rparr>);
          s = set_ep0 (fresh (usbc_ep0 s)) s;
          s = s\<lparr>ep_in := (\<lambda>i. if i \<in> {1..<8} then fresh (ep_in s i) else ep_in s i),
                ep_out := (\<lambda>i. if i \<in> {1..<8} then fresh (ep_out s i) else ep_out s i)\<rparr>;
          s = usb_lld_set_configuration_ip 0 s;
          s = s\<lparr>ip_feature := f, ip_state := WAIT_SETUP\<rparr>
      in set_ep0 ((usbc_ep0 s)\<lparr>uc_state := USB_STATE_READY\<rparr>) s)"

definition usb_lld_setup_endp_ip :: "u32 \<Rightarrow> bool \<Rightarrow> bool \<Rightarrow> 'z usbip_scheme \<Rightarrow> 'z usbip_scheme" where
  "usb_lld_setup_endp_ip ep_num rx_en tx_en s =
     (if ep_num = 0 then s
      else
        (let quiet = (\<lambda>c. c\<lparr>uc_buf := 0, uc_len := 0, uc_state := USB_STATE_NAK\<rparr>);
             s = (if rx_en then s\<lparr>ep_out := (ep_out s)(ep_num := quiet (ep_out s ep_num))\<rparr> else s)
         in if tx_en then s\<lparr>ep_in := (ep_in s)(ep_num := quiet (ep_in s ep_num))\<rparr> else s))"

definition usb_lld_stall_tx_ip :: "u32 \<Rightarrow> 'z usbip_scheme \<Rightarrow> 'z usbip_scheme" where
  "usb_lld_stall_tx_ip ep_num s =
     s\<lparr>ep_in := (ep_in s)(ep_num := notify_hostcontroller ((ep_in s ep_num)\<lparr>uc_state := USB_STATE_STALL\<rparr>))\<rparr>"

definition usb_lld_stall_rx_ip :: "u32 \<Rightarrow> 'z usbip_scheme \<Rightarrow> 'z usbip_scheme" where
  "usb_lld_stall_rx_ip ep_num s =
     s\<lparr>ep_out := (ep_out s)(ep_num := notify_hostcontroller ((ep_out s ep_num)\<lparr>uc_state := USB_STATE_STALL\<rparr>))\<rparr>"

definition usb_lld_rx_enable_buf_ip :: "u32 \<Rightarrow> addr \<Rightarrow> u32 \<Rightarrow> 'z usbip_scheme \<Rightarrow> 'z usbip_scheme" where
  "usb_lld_rx_enable_buf_ip ep_num buf len s =
     s\<lparr>ep_out := (ep_out s)(ep_num := notify_hostcontroller
       ((ep_out s ep_num)\<lparr>uc_state := USB_STATE_READY, uc_buf := buf, uc_len := ucast len\<rparr>))\<rparr>"

definition usb_lld_tx_enable_buf_ip :: "u32 \<Rightarrow> addr \<Rightarrow> u32 \<Rightarrow> 'z usbip_scheme \<Rightarrow> 'z usbip_scheme" where
  "usb_lld_tx_enable_buf_ip ep_num buf len s =
     s\<lparr>ep_in := (ep_in s)(ep_num := notify_hostcontroller
       ((ep_in s ep_num)\<lparr>uc_state := USB_STATE_READY, uc_buf := buf, uc_len := ucast len\<rparr>))\<rparr>"

end
