(* ===== verification/Usbip_Host.thy ===== *)
theory Usbip_Host
  imports Usbip_Device
begin

text \<open>
  The host controller that \<open>mcu/usb-usbip.c\<close> emulates: transactions with the device, the requests
  (URBs) of a client, the sequence of transactions of a control request, and the transactions of the
  data endpoints.

  Two threads take turns. The controller's thread leaves an event for the device (\<open>notify_device\<close>, with a
  signal) and, in a control request, then waits for the \<open>eventfd\<close> of endpoint 0. The device's thread
  is woken by the signal, calls the event handler, and the application acts on what it returns; \<open>app ev s\<close> is
  the effect of the application's code on the event word \<open>ev\<close>. As the first thread waits, \<open>wait_ep0\<close> is
  a turn of the second one. \<open>None\<close> means that a thread waits for ever, or reads or writes
  outside the data of a request.
\<close>

unbundle bit_operations_syntax

section \<open>Requests\<close>

text \<open>
  \<open>struct urb\<close>; \<open>u_data_p\<close> is the position of \<open>data_p\<close> in the data. The memory of the requests, with the
  circular list they are linked in, extends the device's. \<open>sent\<close> are the bytes sent to the client so far,
  \<open>inp\<close> those that it sends from now on.
\<close>

record urb =
  u_remain :: u16
  u_data_p :: nat
  u_seq :: u32
  u_devid :: u32
  u_dir :: u32
  u_ep :: u32
  u_len :: u32
  u_setup :: "u8 list"
  u_data :: "u8 list"

record server = usbip +
  urb_at :: "addr \<Rightarrow> urb"
  urb_next :: "addr \<Rightarrow> addr"
  urb_prev :: "addr \<Rightarrow> addr"
  urb_list :: "addr option"
  attached :: bool
  sent :: "u8 list"
  inp :: "u8 list"

definition USBIP_DIR_OUT :: u32 where "USBIP_DIR_OUT = 0"
definition USBIP_DIR_IN :: u32 where "USBIP_DIR_IN = 1"

definition EAGAIN :: int where "EAGAIN = 11"
definition EINVAL :: int where "EINVAL = 22"
definition EPIPE :: int where "EPIPE = 32"
definition ECONNRESET :: int where "ECONNRESET = 104"

definition upd_urb :: "addr \<Rightarrow> (urb \<Rightarrow> urb) \<Rightarrow> server \<Rightarrow> server" where
  "upd_urb p f s = s\<lparr>urb_at := (urb_at s)(p := f (urb_at s p))\<rparr>"

text \<open>\<open>memcpy\<close> from and to \<open>urb->data_p\<close>, inside the data.\<close>

definition urb_load :: "addr \<Rightarrow> u16 \<Rightarrow> server \<Rightarrow> u8 list option" where
  "urb_load p count s =
     (let u = urb_at s p
      in if u_data_p u + unat count \<le> length (u_data u)
         then Some (take (unat count) (drop (u_data_p u) (u_data u))) else None)"

definition urb_store :: "addr \<Rightarrow> u8 list \<Rightarrow> server \<Rightarrow> server option" where
  "urb_store p bs s =
     (let u = urb_at s p; e = u_data_p u + length bs
      in if e \<le> length (u_data u)
         then Some (upd_urb p (\<lambda>u. u\<lparr>u_data := take (u_data_p u) (u_data u) @ bs @ drop e (u_data u)\<rparr>) s)
         else None)"

section \<open>Turns of the device\<close>

text \<open>
  The thread of the controller waits in \<open>notify_device\<close> until the device has taken the event before;
  a step of it is taken when there is none.
\<close>

definition notify_device :: "usb_intr \<Rightarrow> u8 \<Rightarrow> u32 \<Rightarrow> server \<Rightarrow> server option" where
  "notify_device intr ep_num dir s =
     (if usbc_intr s \<noteq> USB_INTR_NONE then None
      else Some (s\<lparr>usbc_intr := intr, usbc_dir := (dir = USBIP_DIR_IN), usbc_ep_num := ep_num\<rparr>))"

definition device_turn :: "(u32 \<Rightarrow> server \<Rightarrow> server) \<Rightarrow> server \<Rightarrow> server" where
  "device_turn app s = (let (ev, s) = usb_lld_event_handler_ip s in app ev s)"

text \<open>\<open>read (usbc_ep0.eventfd, &l, sizeof (l))\<close>\<close>

definition wait_ep0 :: "(u32 \<Rightarrow> server \<Rightarrow> server) \<Rightarrow> server \<Rightarrow> server option" where
  "wait_ep0 app s =
     (let s = (if uc_eventfd (usbc_ep0 s) = 0 then device_turn app s else s)
      in if uc_eventfd (usbc_ep0 s) = 0 then None
         else Some (set_ep0 ((usbc_ep0 s)\<lparr>uc_eventfd := 0\<rparr>) s))"

section \<open>Transactions of endpoint 0\<close>

definition control_setup_transaction :: "addr \<Rightarrow> server \<Rightarrow> (int \<times> server) option" where
  "control_setup_transaction p s =
     (let c = usbc_ep0 s; u = urb_at s p
      in if uc_state c = USB_STATE_READY then do {
           let r = (if u_dir u = USBIP_DIR_OUT \<and> u_setup u ! 6 = 0 \<and> u_setup u ! 7 = 0 then 1 else 0);
           let s = set_ep0 (c\<lparr>uc_state := USB_STATE_NAK\<rparr>) s;
           let s = s\<lparr>ip_mem := put_bytes (usb_setup s) (u_setup u) (ip_mem s)\<rparr>;
           s \<leftarrow> notify_device USB_INTR_SETUP 0 (u_dir u) s;
           Some (r, s) }
         else if uc_state c = USB_STATE_NAK then Some (- EAGAIN, s)
         else Some (- EPIPE, s))"

definition control_write_data_transaction :: "addr \<Rightarrow> u16 \<Rightarrow> server \<Rightarrow> (int \<times> server) option" where
  "control_write_data_transaction p count s =
     (let c = usbc_ep0 s
      in if uc_state c = USB_STATE_READY then
           (if uc_len c < count then Some (- EPIPE, set_ep0 (c\<lparr>uc_state := USB_STATE_STALL\<rparr>) s)
            else do {
              bs \<leftarrow> urb_load p count s;
              let s = s\<lparr>ip_mem := put_bytes (uc_buf c) bs (ip_mem s)\<rparr>;
              let s = set_ep0 (c\<lparr>uc_state := USB_STATE_NAK, uc_len := count\<rparr>) s;
              s \<leftarrow> notify_device USB_INTR_DATA_TRANSFER 0 USBIP_DIR_OUT s;
              Some (0, s) })
         else if uc_state c = USB_STATE_NAK then Some (- EAGAIN, s)
         else Some (- EPIPE, s))"

definition control_write_status_transaction :: "server \<Rightarrow> (int \<times> server) option" where
  "control_write_status_transaction s =
     (let c = usbc_ep0 s
      in if uc_state c = USB_STATE_READY then do {
           s \<leftarrow> notify_device USB_INTR_DATA_TRANSFER 0 USBIP_DIR_IN (set_ep0 (c\<lparr>uc_state := USB_STATE_NAK\<rparr>) s);
           Some (0, s) }
         else if uc_state c = USB_STATE_NAK then Some (- EAGAIN, s)
         else Some (- EPIPE, s))"

definition control_read_data_transaction :: "addr \<Rightarrow> u16 \<Rightarrow> server \<Rightarrow> (int \<times> server) option" where
  "control_read_data_transaction p count s =
     (let c = usbc_ep0 s
      in if uc_state c = USB_STATE_READY then do {
           let count = (if count < uc_len c then count else uc_len c);
           s \<leftarrow> urb_store p (bytes (ip_mem s) (uc_buf c) (unat count)) s;
           let s = set_ep0 (c\<lparr>uc_state := USB_STATE_NAK\<rparr>) s;
           s \<leftarrow> notify_device USB_INTR_DATA_TRANSFER 0 USBIP_DIR_IN s;
           Some (uint count, s) }
         else if uc_state c = USB_STATE_NAK then Some (- EAGAIN, s)
         else Some (- EPIPE, s))"

definition control_read_status_transaction :: "server \<Rightarrow> (int \<times> server) option" where
  "control_read_status_transaction s =
     (let c = usbc_ep0 s
      in if uc_state c = USB_STATE_READY then do {
           s \<leftarrow> notify_device USB_INTR_DATA_TRANSFER 0 USBIP_DIR_OUT
             (set_ep0 (c\<lparr>uc_len := 0, uc_state := USB_STATE_NAK\<rparr>) s);
           Some (0, s) }
         else if uc_state c = USB_STATE_NAK then Some (- EAGAIN, s)
         else Some (- EPIPE, s))"

section \<open>Control requests\<close>

partial_function (option) hc_write_loop ::
  "(u32 \<Rightarrow> server \<Rightarrow> server) \<Rightarrow> addr \<Rightarrow> int \<Rightarrow> u16 \<Rightarrow> server \<Rightarrow> (int \<times> server) option" where
  "hc_write_loop app p r remain s =
     (if r \<noteq> 0 then Some (r, s)
      else do {
        let count = (if 64 < remain then 64 else remain);
        s \<leftarrow> wait_ep0 app s;
        (r, s) \<leftarrow> control_write_data_transaction p count s;
        (if r < 0 then Some (r, s)
         else
           (let s = upd_urb p (\<lambda>u. u\<lparr>u_data_p := u_data_p u + unat count\<rparr>) s; remain = remain - count
            in if count < 64 then Some (r, s) else hc_write_loop app p r remain s)) })"

partial_function (option) hc_read_loop ::
  "(u32 \<Rightarrow> server \<Rightarrow> server) \<Rightarrow> addr \<Rightarrow> u16 \<Rightarrow> server \<Rightarrow> (int \<times> u16 \<times> server) option" where
  "hc_read_loop app p remain s = do {
     let count = (if 64 < remain then 64 else remain);
     s \<leftarrow> wait_ep0 app s;
     (r, s) \<leftarrow> control_read_data_transaction p count s;
     (if r < 0 then Some (r, remain, s)
      else
        (let remain = remain - word_of_int r; s = upd_urb p (\<lambda>u. u\<lparr>u_data_p := u_data_p u + nat r\<rparr>) s
         in if r < 64 then Some (r, remain, s) else hc_read_loop app p remain s)) }"

definition hc_write :: "(u32 \<Rightarrow> server \<Rightarrow> server) \<Rightarrow> addr \<Rightarrow> int \<Rightarrow> u16 \<Rightarrow> server \<Rightarrow> (int \<times> server) option" where
  "hc_write app p r remain s = do {
     (r, s) \<leftarrow> hc_write_loop app p r remain s;
     (if 0 \<le> r then do { s \<leftarrow> wait_ep0 app s; control_write_status_transaction s }
      else Some (r, s)) }"

definition hc_read :: "(u32 \<Rightarrow> server \<Rightarrow> server) \<Rightarrow> addr \<Rightarrow> u16 \<Rightarrow> server \<Rightarrow> (int \<times> server) option" where
  "hc_read app p remain s = do {
     (r, remain, s) \<leftarrow> hc_read_loop app p remain s;
     (if 0 \<le> r then do {
        s \<leftarrow> wait_ep0 app s;
        (r, s) \<leftarrow> control_read_status_transaction s;
        Some (if 0 \<le> r then uint remain else r, s) }
      else Some (r, s)) }"

definition hc_handle_control_urb :: "(u32 \<Rightarrow> server \<Rightarrow> server) \<Rightarrow> addr \<Rightarrow> server \<Rightarrow> (int \<times> server) option" where
  "hc_handle_control_urb app p s = do {
     let dir = u_dir (urb_at s p);
     let remain = ucast (u_len (urb_at s p));
     let s = set_ep0 ((usbc_ep0 s)\<lparr>uc_urb := Some p\<rparr>) s;
     (r, s) \<leftarrow> control_setup_transaction p s;
     (r, s) \<leftarrow> (if r < 0 then Some (r, s)
                else if dir = USBIP_DIR_OUT then hc_write app p r remain s
                else hc_read app p remain s);
     s \<leftarrow> (if r < 0 then Some (set_ep0 ((usbc_ep0 s)\<lparr>uc_state := USB_STATE_READY\<rparr>) s)
           else wait_ep0 app s);
     let (r, s) = (if dir = USBIP_DIR_IN then
          (0, upd_urb p (\<lambda>u. u\<lparr>u_len := (if 0 \<le> r then u_len u - word_of_int r else 0)\<rparr>) s)
        else (r, upd_urb p (\<lambda>u. u\<lparr>u_len := 0\<rparr>) s));
     Some (r, set_ep0 ((usbc_ep0 s)\<lparr>uc_urb := None\<rparr>) s) }"

section \<open>Data endpoints\<close>

text \<open>An endpoint, by its direction (in to the host) and number, which indexes an array of eight.\<close>

definition usbc_at :: "bool \<Rightarrow> u32 \<Rightarrow> server \<Rightarrow> usb_control" where
  "usbc_at dir ep s = (if dir then ep_in s ep else ep_out s ep)"

definition set_usbc :: "bool \<Rightarrow> u32 \<Rightarrow> usb_control \<Rightarrow> server \<Rightarrow> server" where
  "set_usbc dir ep c s =
     (if dir then s\<lparr>ep_in := (ep_in s)(ep := c)\<rparr> else s\<lparr>ep_out := (ep_out s)(ep := c)\<rparr>)"

definition write_data_transaction :: "bool \<Rightarrow> u32 \<Rightarrow> addr \<Rightarrow> u16 \<Rightarrow> server \<Rightarrow> (int \<times> server) option" where
  "write_data_transaction dir ep p count s =
     (let c = usbc_at dir ep s
      in if uc_len c < count then Some (- EPIPE, set_usbc dir ep (c\<lparr>uc_state := USB_STATE_STALL\<rparr>) s)
         else do {
           bs \<leftarrow> urb_load p count s;
           let s = s\<lparr>ip_mem := put_bytes (uc_buf c) bs (ip_mem s)\<rparr>;
           let s = set_usbc dir ep (c\<lparr>uc_state := USB_STATE_NAK, uc_len := count\<rparr>) s;
           s \<leftarrow> notify_device USB_INTR_DATA_TRANSFER (ucast (u_ep (urb_at s p))) USBIP_DIR_OUT s;
           Some (uint count, s) })"

definition read_data_transaction :: "bool \<Rightarrow> u32 \<Rightarrow> addr \<Rightarrow> u16 \<Rightarrow> server \<Rightarrow> (int \<times> server) option" where
  "read_data_transaction dir ep p count s =
     (let c = usbc_at dir ep s; count = (if count < uc_len c then count else uc_len c)
      in do {
           let s = set_usbc dir ep (c\<lparr>uc_state := USB_STATE_NAK\<rparr>) s;
           s \<leftarrow> urb_store p (bytes (ip_mem s) (uc_buf c) (unat count)) s;
           s \<leftarrow> notify_device USB_INTR_DATA_TRANSFER (ucast (u_ep (urb_at s p))) USBIP_DIR_IN s;
           Some (uint count, s) })"

text \<open>
  A transaction for the request the endpoint works on. The result is 0 when the request is
  complete, 1 when it is not, negative on an error.
\<close>

definition hc_handle_data_urb :: "bool \<Rightarrow> u32 \<Rightarrow> server \<Rightarrow> (int \<times> server) option" where
  "hc_handle_data_urb dir ep s = do {
     p \<leftarrow> uc_urb (usbc_at dir ep s);
     let remain = u_remain (urb_at s p);
     let count = (if 64 < remain then 64 else remain);
     (if u_dir (urb_at s p) = USBIP_DIR_OUT then do {
        (r, s) \<leftarrow> write_data_transaction dir ep p count s;
        (if r < 0 then Some (r, s)
         else
           (let s = upd_urb p (\<lambda>u. u\<lparr>u_data_p := u_data_p u + unat count, u_remain := u_remain u - count\<rparr>) s
            in Some (if u_remain (urb_at s p) = 0 \<or> count < 64 then 0 else 1, s))) }
      else do {
        (r, s) \<leftarrow> read_data_transaction dir ep p count s;
        (if r < 0 then Some (r, s)
         else
           (let s = upd_urb p (\<lambda>u. u\<lparr>u_data_p := u_data_p u + nat r, u_remain := u_remain u - word_of_int r\<rparr>) s
            in if u_remain (urb_at s p) = 0 \<or> r < 64
               then Some (0, upd_urb p (\<lambda>u. u\<lparr>u_len := u_len u - ucast (u_remain u)\<rparr>) s)
               else Some (1, s))) }) }"

text \<open>A new request for a data endpoint: it is refused, or starts when the endpoint has none.\<close>

definition usbip_handle_data_urb :: "addr \<Rightarrow> server \<Rightarrow> (int \<times> server) option" where
  "usbip_handle_data_urb p s =
     (let u = urb_at s p; dir = (u_dir u \<noteq> USBIP_DIR_OUT); c = usbc_at dir (u_ep u) s
      in if 8 \<le> u_ep u then None
         else if uc_state c = USB_STATE_DISABLED \<or> uc_state c = USB_STATE_STALL then Some (- EPIPE, s)
         else Some (0, if uc_urb c = None then set_usbc dir (u_ep u) (c\<lparr>uc_urb := Some p\<rparr>) s else s))"

end
