(* ===== verification/Usbip_Control.thy ===== *)
theory Usbip_Control
  imports Usbip_Host
begin

text \<open>
  Control requests from end to end: what a client of the emulated controller gets when it reads from or
  writes to endpoint 0, for every length. The two threads take turns, so that the state between two
  turns is described by what one offers and the other asks for.
\<close>

unbundle bit_operations_syntax

section \<open>Between turns\<close>

text \<open>The device has answered, and the host has read the counter of the \<open>eventfd\<close>.\<close>

definition offers :: "server \<Rightarrow> control_state \<Rightarrow> ctrl_data \<Rightarrow> addr \<Rightarrow> u16 \<Rightarrow> bool" where
  "offers s st c b l \<longleftrightarrow> usbc_intr s = USB_INTR_NONE \<and> ip_state s = st \<and> ip_data s = c \<and>
     uc_eventfd (usbc_ep0 s) = 0 \<and> uc_state (usbc_ep0 s) = USB_STATE_READY \<and>
     uc_buf (usbc_ep0 s) = b \<and> uc_len (usbc_ep0 s) = l"

definition refuses :: "server \<Rightarrow> bool" where
  "refuses s \<longleftrightarrow> usbc_intr s = USB_INTR_NONE \<and> uc_eventfd (usbc_ep0 s) = 0 \<and>
     uc_state (usbc_ep0 s) = USB_STATE_STALL"

text \<open>The host has made a transaction, in to it or out.\<close>

definition asks :: "server \<Rightarrow> control_state \<Rightarrow> ctrl_data \<Rightarrow> bool \<Rightarrow> u16 \<Rightarrow> bool" where
  "asks s st c dir l \<longleftrightarrow> usbc_intr s = USB_INTR_DATA_TRANSFER \<and> usbc_dir s = dir \<and> usbc_ep_num s = 0 \<and>
     ip_state s = st \<and> ip_data s = c \<and> uc_eventfd (usbc_ep0 s) = 0 \<and> uc_len (usbc_ep0 s) = l"

text \<open>What a turn leaves alone: of endpoint 0, only the request it works on.\<close>

definition no_control :: usb_control where
  "no_control = \<lparr>uc_eventfd = 0, uc_state = USB_STATE_DISABLED, uc_buf = 0, uc_len = 0, uc_urb = None\<rparr>"

definition rest_of :: "server \<Rightarrow> _" where
  "rest_of s = (ep_in s, (ep_out s)(0 := no_control), uc_urb (usbc_ep0 s), urb_next s, urb_prev s,
     urb_list s, attached s, sent s, inp s, usb_setup s, status_info s, configuration_at s, ip_feature s)"

definition same :: "server \<Rightarrow> server \<Rightarrow> bool" where
  "same s s' \<longleftrightarrow> ip_mem s' = ip_mem s \<and> urb_at s' = urb_at s \<and> rest_of s' = rest_of s"

lemma same_trans: "same s t \<Longrightarrow> same t u \<Longrightarrow> same s u"
  by (simp add: same_def)

text \<open>The application does nothing on an event that needs no answer.\<close>

definition lets_pass :: "(u32 \<Rightarrow> server \<Rightarrow> server) \<Rightarrow> usb_event \<Rightarrow> bool" where
  "lets_pass app ev \<longleftrightarrow> (\<forall>s. app (USB_MAKE_EV ev) s = s)"

lemma ok_event: "USB_MAKE_EV USB_EVENT_OK = 0" "event_no USB_EVENT_OK = 0"
  by (simp_all add: USB_MAKE_EV_def)

lemmas turn_defs = wait_ep0_def device_turn_def usb_lld_event_handler_ip_def usb_handle_transfer_ip_def
  handle_in0_ip_def handle_out0_ip_def ep0_offer_def ep0_stall_def set_ep0_def notify_hostcontroller_def
  ok_event Let_def

section \<open>Turns of the device\<close>

lemma unat_u16_u32 [simp]: "unat (ucast (w :: u16) :: u32) = unat w"
proof -
  have "unat w < 2 ^ LENGTH(16)" by (rule unsigned_less)
  then have "unat w < 2 ^ 32" by simp
  then show ?thesis by (simp add: unsigned_ucast_eq take_bit_nat_eq_self)
qed

lemma u16_u32_u16 [simp]: "ucast (ucast (w :: u16) :: u32) = w"
  by (rule bit_word_eqI) (auto simp: bit_ucast_iff dest: bit_imp_le_length)

lemma u16_le_64 [simp]:
  "(ucast (w :: u16) :: u32) \<le> 64 \<longleftrightarrow> w \<le> 64" "(ucast (w :: u16) :: u32) < 64 \<longleftrightarrow> w < 64"
  "64 < (ucast (w :: u16) :: u32) \<longleftrightarrow> 64 < w"
  by (simp_all add: word_le_nat_alt word_less_nat_alt)

lemma turn_in_data:
  assumes "asks s st c True l" "lets_pass app USB_EVENT_OK" "st \<in> {IN_DATA, LAST_IN_DATA}"
    and more: "\<not> (cd_len c = 0 \<and> st = LAST_IN_DATA)"
    and k: "k = (if cd_len c < 64 then cd_len c else 64)"
  shows "\<exists>s'. wait_ep0 app s = Some s' \<and> same s s' \<and>
    offers s' (if cd_len c \<le> 64 then LAST_IN_DATA else IN_DATA)
      (c\<lparr>cd_len := cd_len c - k, cd_addr := cd_addr c + ucast k\<rparr>) (cd_addr c) k"
  using assms
  by (auto simp: asks_def lets_pass_def turn_defs handle_datastage_in_ip_def same_def offers_def rest_of_def
        USB_MAX_PACKET_SIZE_def)

lemma turn_in_end:
  assumes "asks s LAST_IN_DATA c True l" "lets_pass app USB_EVENT_OK" "cd_len c = 0"
  shows "\<exists>s'. wait_ep0 app s = Some s' \<and> same s s' \<and>
    (if cd_require_zlp c \<noteq> 0 then offers s' LAST_IN_DATA (c\<lparr>cd_require_zlp := 0\<rparr>) (usb_setup s) 0
     else offers s' WAIT_STATUS_OUT c (usb_setup s) 0)"
  using assms
  by (auto simp: asks_def lets_pass_def turn_defs handle_datastage_in_ip_def same_def offers_def rest_of_def)

lemma turn_in_refused:
  assumes "asks s st c True l" "lets_pass app USB_EVENT_OK" "st \<notin> {IN_DATA, LAST_IN_DATA, WAIT_STATUS_IN}"
  shows "\<exists>s'. wait_ep0 app s = Some s' \<and> same s s' \<and> refuses s'"
  using assms by (auto simp: asks_def lets_pass_def turn_defs same_def refuses_def rest_of_def)

lemma turn_status_in:
  assumes "asks s WAIT_STATUS_IN c True l" "lets_pass app USB_EVENT_CTRL_WRITE_FINISH" "lets_pass app USB_EVENT_DEVICE_ADDRESSED"
  shows "\<exists>s'. wait_ep0 app s = Some s' \<and> same s s' \<and> offers s' WAIT_SETUP c (usb_setup s) 8"
  using assms by (auto simp: asks_def lets_pass_def turn_defs same_def offers_def rest_of_def)

lemma turn_out_data:
  assumes "asks s OUT_DATA c False l" "lets_pass app USB_EVENT_OK"
    and c': "c' = c\<lparr>cd_len := cd_len c - l, cd_addr := cd_addr c + ucast l\<rparr>"
  shows "\<exists>s'. wait_ep0 app s = Some s' \<and> same s s' \<and>
    (if cd_len c' = 0 then offers s' WAIT_STATUS_IN c' (usb_setup s) 0
     else offers s' OUT_DATA c' (cd_addr c') (if 64 < cd_len c' then 64 else cd_len c'))"
  using assms
  by (auto simp: asks_def lets_pass_def turn_defs handle_datastage_out_ip_def same_def offers_def rest_of_def
      USB_MAX_PACKET_SIZE_def)

lemma turn_status_out:
  assumes "asks s WAIT_STATUS_OUT c False l" "lets_pass app USB_EVENT_OK"
  shows "\<exists>s'. wait_ep0 app s = Some s' \<and> same s s' \<and> offers s' WAIT_SETUP c (usb_setup s) 8"
  using assms by (auto simp: asks_def lets_pass_def turn_defs same_def offers_def rest_of_def)

lemma turn_out_refused:
  assumes "asks s st c False l" "lets_pass app USB_EVENT_OK" "st \<notin> {OUT_DATA, WAIT_STATUS_OUT}"
  shows "\<exists>s'. wait_ep0 app s = Some s' \<and> same s s' \<and> refuses s'"
  using assms by (auto simp: asks_def lets_pass_def turn_defs same_def refuses_def rest_of_def)

section \<open>Transactions of the host\<close>

lemmas host_defs = offers_def asks_def refuses_def same_def rest_of_def set_ep0_def notify_device_def Let_def
  USBIP_DIR_IN_def USBIP_DIR_OUT_def

lemma read_data:
  assumes "offers s st c b l" "k = (if count < l then count else l)"
    and "u_data_p (urb_at s p) + unat k \<le> length (u_data (urb_at s p))"
  shows "\<exists>s'. control_read_data_transaction p count s = Some (uint k, s') \<and> asks s' st c True l \<and>
    ip_mem s' = ip_mem s \<and> rest_of s' = rest_of s \<and>
    urb_at s' = (urb_at s)(p := (urb_at s p)\<lparr>u_data :=
      take (u_data_p (urb_at s p)) (u_data (urb_at s p)) @ bytes (ip_mem s) b (unat k) @
      drop (u_data_p (urb_at s p) + unat k) (u_data (urb_at s p))\<rparr>)"
  using assms
  by (auto simp: control_read_data_transaction_def urb_store_def upd_urb_def host_defs)

lemma read_status:
  assumes "offers s st c b l"
  shows "\<exists>s'. control_read_status_transaction s = Some (0, s') \<and> asks s' st c False 0 \<and> same s s'"
  using assms by (auto simp: control_read_status_transaction_def host_defs)

lemma write_data:
  assumes "offers s st c b l" "count \<le> l"
    and "u_data_p (urb_at s p) + unat count \<le> length (u_data (urb_at s p))"
  shows "\<exists>s'. control_write_data_transaction p count s = Some (0, s') \<and> asks s' st c False count \<and>
    urb_at s' = urb_at s \<and> rest_of s' = rest_of s \<and>
    ip_mem s' = put_bytes b (take (unat count) (drop (u_data_p (urb_at s p)) (u_data (urb_at s p)))) (ip_mem s)"
  using assms
  by (auto simp: control_write_data_transaction_def urb_load_def host_defs not_less [symmetric])

lemma write_status:
  assumes "offers s st c b l"
  shows "\<exists>s'. control_write_status_transaction s = Some (0, s') \<and> asks s' st c True l \<and> same s s'"
  using assms by (auto simp: control_write_status_transaction_def host_defs)

lemma refused:
  assumes "refuses s"
  shows "control_read_status_transaction s = Some (- EPIPE, s)"
    "control_write_status_transaction s = Some (- EPIPE, s)"
    "control_setup_transaction p s = Some (- EPIPE, s)"
  using assms
  by (simp_all add: refuses_def control_read_status_transaction_def control_write_status_transaction_def
      control_setup_transaction_def Let_def)

section \<open>Reading: packets\<close>

text \<open>The request after bytes were stored at its position.\<close>

definition grown :: "u8 list \<Rightarrow> urb \<Rightarrow> urb" where
  "grown bs u = u\<lparr>u_data := take (u_data_p u) (u_data u) @ bs @ drop (u_data_p u + length bs) (u_data u),
     u_data_p := u_data_p u + length bs\<rparr>"

definition fits :: "nat \<Rightarrow> urb \<Rightarrow> bool" where
  "fits n u \<longleftrightarrow> u_data_p u + n \<le> length (u_data u)"

lemma grown_Nil: "fits n u \<Longrightarrow> grown [] u = u"
  by (simp add: grown_def)

lemma grown_append: "fits (length (as @ bs)) u \<Longrightarrow> grown bs (grown as u) = grown (as @ bs) u"
  by (simp add: grown_def fits_def algebra_simps)

lemma fits_grown: "fits (length bs + n) u \<Longrightarrow> fits n (grown bs u)"
  by (simp add: fits_def grown_def)

text \<open>The bytes of a number of turns.\<close>

definition moved :: "addr \<Rightarrow> server \<Rightarrow> u8 list \<Rightarrow> server \<Rightarrow> bool" where
  "moved p s bs s' \<longleftrightarrow> ip_mem s' = ip_mem s \<and> rest_of s' = rest_of s \<and>
     urb_at s' = (urb_at s)(p := grown bs (urb_at s p))"

lemma moved_same: "same s s' \<Longrightarrow> moved p s' bs s'' \<Longrightarrow> moved p s bs s''"
  "same s' s'' \<Longrightarrow> moved p s bs s' \<Longrightarrow> moved p s bs s''"
  by (simp_all add: same_def moved_def)

lemma moved_Nil: "fits n (urb_at s p) \<Longrightarrow> moved p s [] s"
  by (simp add: moved_def grown_Nil)

lemma moved_append:
  "moved p s as s' \<Longrightarrow> moved p s' bs s'' \<Longrightarrow> fits (length (as @ bs)) (urb_at s p) \<Longrightarrow> moved p s (as @ bs) s''"
  by (simp add: moved_def grown_append)

lemma moved_fits: "moved p s as s' \<Longrightarrow> fits (length as + n) (urb_at s p) \<Longrightarrow> fits n (urb_at s' p)"
  by (simp add: moved_def fits_grown)

text \<open>One round of the loop, with a packet that is not larger than what the host still wants.\<close>

lemma read_round:
  assumes w: "wait_ep0 app s0 = Some s" "same s0 s" and o: "offers s st c b l"
    and l: "l \<le> 64" "l \<le> remain" and f: "fits (unat l) (urb_at s0 p)"
  shows "\<exists>s'. asks s' st c True l \<and> moved p s0 (bytes (ip_mem s0) b (unat l)) s' \<and>
    hc_read_loop app p remain s0 =
      (if l < 64 then Some (uint l, remain - l, s') else hc_read_loop app p (remain - l) s')"
proof -
  let ?u = "urb_at s0 p" and ?c = "if 64 < remain then 64 else remain"
  have u: "urb_at s = urb_at s0" "ip_mem s = ip_mem s0" "rest_of s = rest_of s0" using w(2) by (simp_all add: same_def)
  have k: "l = (if ?c < l then ?c else l)" using l by auto
  obtain s1 where r: "control_read_data_transaction p ?c s = Some (uint l, s1)" and a: "asks s1 st c True l"
    and m: "ip_mem s1 = ip_mem s0" "rest_of s1 = rest_of s0"
    and d: "urb_at s1 = (urb_at s0)(p := ?u\<lparr>u_data := take (u_data_p ?u) (u_data ?u) @ bytes (ip_mem s0) b (unat l) @
      drop (u_data_p ?u + unat l) (u_data ?u)\<rparr>)"
    using read_data [OF o k, of p] f u by (auto simp: fits_def)
  define s' where "s' = upd_urb p (\<lambda>u. u\<lparr>u_data_p := u_data_p u + nat (uint l)\<rparr>) s1"
  have "asks s' st c True l" using a by (simp add: s'_def asks_def upd_urb_def)
  moreover have "moved p s0 (bytes (ip_mem s0) b (unat l)) s'"
    using m d by (simp add: moved_def s'_def upd_urb_def grown_def rest_of_def)
  moreover have "uint l < 64 \<longleftrightarrow> l < 64" by (simp add: word_less_def)
  ultimately show ?thesis
    by (intro exI [of _ s']) (simp add: hc_read_loop.simps [of app p remain s0] w(1) r s'_def Let_def)
qed

text \<open>
  All packets but the last: the loop gets to the point where the device offers the last packet, which is
  of 64 bytes at most, and has by then stored the ones before.
\<close>

definition sends :: "server \<Rightarrow> ctrl_data \<Rightarrow> addr \<Rightarrow> u16 \<Rightarrow> bool" where
  "sends s c b l \<longleftrightarrow>
     (offers s IN_DATA c b l \<and> l = 64 \<and> cd_addr c = b + 64 \<or> offers s LAST_IN_DATA c b l \<and> l \<le> 64 \<and> cd_len c = 0)"

lemma add_64_less: "(64 :: u16) + d \<le> remain \<Longrightarrow> unat d + 64 < 65536 \<Longrightarrow> d \<le> remain - 64"
  by (simp add: word_le_nat_alt unat_sub_if' unat_word_ariths)

lemma read_stream:
  assumes "lets_pass app USB_EVENT_OK" "wait_ep0 app s0 = Some s" "same s0 s" "sends s c b l" "offers s st c b l"
    and "st = IN_DATA \<Longrightarrow> cd_len c \<noteq> 0"
    and "unat l + unat (cd_len c) \<le> unat remain" "fits (unat l + unat (cd_len c)) (urb_at s0 p)"
  shows "\<exists>j s1 s' c' b' l'. hc_read_loop app p remain s0 = hc_read_loop app p (remain - of_nat (64 * j)) s1 \<and>
    wait_ep0 app s1 = Some s' \<and> same s1 s' \<and> offers s' LAST_IN_DATA c' b' l' \<and> l' \<le> 64 \<and> cd_len c' = 0 \<and>
    cd_require_zlp c' = cd_require_zlp c \<and> unat l + unat (cd_len c) = 64 * j + unat l' \<and>
    b' = b + of_nat (64 * j) \<and> (l' = 0 \<longrightarrow> j = 0) \<and> moved p s0 (bytes (ip_mem s0) b (64 * j)) s1"
  using assms(2-)
proof (induction "unat (cd_len c)" arbitrary: s0 s c b l st remain rule: less_induct)
  case less
  show ?case
  proof (cases "st = LAST_IN_DATA")
    case True
    with less.prems have "offers s LAST_IN_DATA c b l" "l \<le> 64" "cd_len c = 0"
      by (auto simp: sends_def offers_def)
    note last = this
    show ?thesis
      apply (rule exI [of _ 0], rule exI [of _ s0], rule exI [of _ s])
      using last less.prems(1,2,7) by (auto simp: bytes_def moved_Nil)
  next
    case False
    then have st: "st = IN_DATA" "l = 64" "cd_addr c = b + 64" "offers s IN_DATA c b 64"
      using less.prems by (auto simp: sends_def offers_def)
    define d where "d = cd_len c"
    have d: "d \<noteq> 0" "64 + unat d \<le> unat remain" "fits (64 + unat d) (urb_at s0 p)"
      using less.prems(5-7) st by (simp_all add: d_def)
    obtain s1 where a: "asks s1 IN_DATA c True 64" and m: "moved p s0 (bytes (ip_mem s0) b 64) s1"
      and eq: "hc_read_loop app p remain s0 = hc_read_loop app p (remain - 64) s1"
      using read_round [OF less.prems(1,2) st(4), of remain p] d by (auto simp: word_le_nat_alt fits_def)
    define k where "k = (if d < 64 then d else 64)"
    have k1: "k = (if cd_len c < 64 then cd_len c else 64)" by (simp add: k_def d_def)
    define c' where "c' = c\<lparr>cd_len := d - k, cd_addr := cd_addr c + ucast k\<rparr>"
    obtain s2 where w: "wait_ep0 app s1 = Some s2" "same s1 s2"
      and o: "offers s2 (if d \<le> 64 then LAST_IN_DATA else IN_DATA) c' (b + 64) k"
      using turn_in_data [OF a assms(1) _ _ k1] st(3) unfolding c'_def d_def by auto
    have k: "k \<le> d" "k \<le> 64" "k \<noteq> 0" using d(1) by (auto simp: k_def)
    then have cd': "unat (cd_len c') = unat d - unat k" by (simp add: c'_def unat_sub_le)
    have "\<exists>j s1' s' c'' b' l'. hc_read_loop app p (remain - 64) s1 = hc_read_loop app p (remain - 64 - of_nat (64 * j)) s1' \<and>
      wait_ep0 app s1' = Some s' \<and> same s1' s' \<and> offers s' LAST_IN_DATA c'' b' l' \<and> l' \<le> 64 \<and> cd_len c'' = 0 \<and>
      cd_require_zlp c'' = cd_require_zlp c' \<and> unat k + unat (cd_len c') = 64 * j + unat l' \<and>
      b' = (b + 64) + of_nat (64 * j) \<and> (l' = 0 \<longrightarrow> j = 0) \<and> moved p s1 (bytes (ip_mem s1) (b + 64) (64 * j)) s1'"
    proof (rule less.hyps [OF _ w _ o])
      show "unat (cd_len c') < unat (cd_len c)"
        using cd' k d(1) by (simp add: d_def word_le_nat_alt unat_eq_0 [symmetric])
      show "sends s2 c' (b + 64) k"
        using o k by (auto simp: sends_def c'_def k_def st(3) split: if_splits)
      show "(if d \<le> 64 then LAST_IN_DATA else IN_DATA) = IN_DATA \<Longrightarrow> cd_len c' \<noteq> 0"
        by (auto simp: c'_def k_def split: if_splits)
      have "unat k + unat (cd_len c') = unat d" using cd' k by (simp add: word_le_nat_alt)
      moreover have "unat (remain - 64) = unat remain - 64"
        using d(2) by (simp add: unat_sub_le word_le_nat_alt)
      ultimately show "unat k + unat (cd_len c') \<le> unat (remain - 64)" "fits (unat k + unat (cd_len c')) (urb_at s1 p)"
        using d(2,3) moved_fits [OF m, of "unat d"] by simp_all
    qed
    then obtain j s1' s' c'' b' l' where
        ih: "hc_read_loop app p (remain - 64) s1 = hc_read_loop app p (remain - 64 - of_nat (64 * j)) s1'"
        "wait_ep0 app s1' = Some s'" "same s1' s'" "offers s' LAST_IN_DATA c'' b' l'" "l' \<le> 64" "cd_len c'' = 0"
        "cd_require_zlp c'' = cd_require_zlp c'" "unat k + unat (cd_len c') = 64 * j + unat l'"
        "b' = (b + 64) + of_nat (64 * j)" "l' = 0 \<longrightarrow> j = 0"
        "moved p s1 (bytes (ip_mem s1) (b + 64) (64 * j)) s1'" by blast
    have sum: "unat d = 64 * j + unat l'" using ih(8) cd' k by (simp add: word_le_nat_alt)
    have "l' \<noteq> 0"
    proof
      assume "l' = 0"
      with ih(10) sum have "unat d = 0" by simp
      with d(1) show False by (simp add: unat_eq_0)
    qed
    have "ip_mem s1 = ip_mem s0" using m by (simp add: moved_def)
    then have "moved p s0 (bytes (ip_mem s0) b (64 + 64 * j)) s1'"
      unfolding bytes_append using moved_append [OF m ih(11)] d(3) sum by (simp add: fits_def)
    note all = this
    have l64: "unat l = 64" using st(2) by simp
    show ?thesis
      apply (rule exI [of _ "Suc j"], rule exI [of _ s1'], rule exI [of _ s'])
      using all ih(2-7,9) eq ih(1) l64 sum \<open>l' \<noteq> 0\<close>
      by (auto simp: d_def [symmetric] c'_def algebra_simps)
  qed
qed

text \<open>After the last packet: the status stage, which fails when the device is in the wrong state for it.\<close>

lemma same_setup: "same s s' \<Longrightarrow> usb_setup s' = usb_setup s"
  by (simp add: same_def rest_of_def)

lemma moved_setup: "moved p s bs s' \<Longrightarrow> usb_setup s' = usb_setup s"
  by (simp add: moved_def rest_of_def)

lemma read_finish:
  assumes "lets_pass app USB_EVENT_OK" "hc_read_loop app p remain s0 = Some (r, R, s2)" "0 \<le> r"
    and "asks s2 LAST_IN_DATA c True l" "cd_len c = 0"
  shows "\<exists>s3 s4 c'. hc_read app p remain s0 = Some (uint R, s3) \<and> same s2 s3 \<and> wait_ep0 app s3 = Some s4 \<and> same s3 s4 \<and>
    (if cd_require_zlp c = 0 then offers s4 WAIT_SETUP c' (usb_setup s2) 8 else refuses s4)"
proof (cases "cd_require_zlp c = 0")
  case True
  obtain s' where 1: "wait_ep0 app s2 = Some s'" "same s2 s'" "offers s' WAIT_STATUS_OUT c (usb_setup s2) 0"
    using turn_in_end [OF assms(4,1,5)] True by auto
  obtain s3 where 2: "control_read_status_transaction s' = Some (0, s3)" "asks s3 WAIT_STATUS_OUT c False 0" "same s' s3"
    using read_status [OF 1(3)] by blast
  obtain s4 where "wait_ep0 app s3 = Some s4" "same s3 s4" "offers s4 WAIT_SETUP c (usb_setup s3) 8"
    using turn_status_out [OF 2(2) assms(1)] by blast
  with 1 2 True assms(2,3) show ?thesis
    by (auto simp: hc_read_def same_setup dest: same_trans)
next
  case False
  obtain s' c' where 1: "wait_ep0 app s2 = Some s'" "same s2 s'" "offers s' LAST_IN_DATA c' (usb_setup s2) 0"
    using turn_in_end [OF assms(4,1,5)] False by auto
  obtain s3 where 2: "control_read_status_transaction s' = Some (0, s3)" "asks s3 LAST_IN_DATA c' False 0" "same s' s3"
    using read_status [OF 1(3)] by blast
  obtain s4 where "wait_ep0 app s3 = Some s4" "same s3 s4" "refuses s4"
    using turn_out_refused [OF 2(2) assms(1)] by auto
  with 1 2 False assms(2,3) show ?thesis
    by (auto simp: hc_read_def dest: same_trans)
qed

lemma read_abort:
  assumes "lets_pass app USB_EVENT_OK" "hc_read_loop app p remain s0 = Some (r, R, s2)" "0 \<le> r"
    and "asks s2 WAIT_STATUS_OUT c True l"
  shows "\<exists>s3. hc_read app p remain s0 = Some (- EPIPE, s3) \<and> same s2 s3 \<and> refuses s3"
proof -
  obtain s3 where "wait_ep0 app s2 = Some s3" "same s2 s3" "refuses s3"
    using turn_in_refused [OF assms(4,1)] by auto
  with assms(2,3) refused(1) [of s3] show ?thesis
    by (simp add: hc_read_def EPIPE_def)
qed

text \<open>The empty packet after a last packet of 64 bytes.\<close>

lemma read_zlp:
  assumes "wait_ep0 app s1 = Some s" "same s1 s" "offers s st c b 0" "fits n (urb_at s1 p)"
  shows "\<exists>s2. asks s2 st c True 0 \<and> same s1 s2 \<and> hc_read_loop app p remain s1 = Some (0, remain, s2)"
proof -
  obtain s2 where "asks s2 st c True 0" "moved p s1 [] s2" "hc_read_loop app p remain s1 = Some (0, remain, s2)"
    using read_round [OF assms(1-3), of remain p] assms(4) by (auto simp: bytes_def fits_def)
  moreover from this(2) have "same s1 s2" using assms(4) by (simp add: moved_def same_def grown_Nil)
  ultimately show ?thesis by blast
qed

lemma loop_hc_read: "hc_read_loop app p remain s = hc_read_loop app p remain' s' \<Longrightarrow>
    hc_read app p remain s = hc_read app p remain' s'"
  by (simp add: hc_read_def)

lemma unat_sub_nat: "n \<le> unat w \<Longrightarrow> unat (w - of_nat n :: u16) = unat w - n"
  using unat_u16_less [of w] by (simp add: unat_sub_if' unat_of_nat take_bit_nat_eq_self)

lemma read_stage:
  assumes ok: "lets_pass app USB_EVENT_OK" and start: "wait_ep0 app s0 = Some s" "same s0 s"
    and o: "sends s c b l" "offers s st c b l" "st = IN_DATA \<Longrightarrow> cd_len c \<noteq> 0"
    and T: "T = unat l + unat (cd_len c)" "T \<le> unat remain" and f: "fits T (urb_at s0 p)"
    and z: "cd_require_zlp c \<noteq> 0 \<longleftrightarrow> 64 dvd T \<and> T \<noteq> 0 \<and> T < unat remain"
  shows "if 64 dvd T \<and> T \<noteq> 0 \<and> T = unat remain
    then \<exists>s3. hc_read app p remain s0 = Some (- EPIPE, s3) \<and> moved p s0 (bytes (ip_mem s0) b T) s3 \<and> refuses s3
    else \<exists>s3 s4 c'. hc_read app p remain s0 = Some (int (unat remain - T), s3) \<and>
      moved p s0 (bytes (ip_mem s0) b T) s3 \<and> wait_ep0 app s3 = Some s4 \<and> same s3 s4 \<and>
      offers s4 WAIT_SETUP c' (usb_setup s0) 8"
proof -
  have T': "unat l + unat (cd_len c) \<le> unat remain" "fits (unat l + unat (cd_len c)) (urb_at s0 p)"
    using T f by simp_all
  obtain j s1 s' c' b' l' where
      loop: "hc_read_loop app p remain s0 = hc_read_loop app p (remain - of_nat (64 * j)) s1"
    and w: "wait_ep0 app s1 = Some s'" "same s1 s'" and o': "offers s' LAST_IN_DATA c' b' l'" and l': "l' \<le> 64"
    and c': "cd_len c' = 0" "cd_require_zlp c' = cd_require_zlp c" and sum: "T = 64 * j + unat l'"
    and b': "b' = b + of_nat (64 * j)" and j: "l' = 0 \<longrightarrow> j = 0"
    and m: "moved p s0 (bytes (ip_mem s0) b (64 * j)) s1"
    using read_stream [OF ok start o T'] unfolding T(1) [symmetric] by blast
  define rem where "rem = remain - of_nat (64 * j)"
  have rem: "unat rem = unat remain - 64 * j"
    unfolding rem_def by (rule unat_sub_nat) (use sum T in simp)
  have f1: "fits (unat l') (urb_at s1 p)" using moved_fits [OF m] f sum by simp
  have le: "l' \<le> rem" using rem sum T by (simp add: word_le_nat_alt)
  obtain s2 where a: "asks s2 LAST_IN_DATA c' True l'" and m2: "moved p s1 (bytes (ip_mem s1) b' (unat l')) s2"
    and next_: "hc_read_loop app p rem s1 =
      (if l' < 64 then Some (uint l', rem - l', s2) else hc_read_loop app p (rem - l') s2)"
    using read_round [OF w o' l' le f1] by blast
  have mem: "ip_mem s1 = ip_mem s0" using m by (simp add: moved_def)
  have m3: "moved p s0 (bytes (ip_mem s0) b T) s2"
    unfolding sum bytes_append using moved_append [OF m m2] f sum by (simp add: b' mem fits_def)
  have f2: "fits 0 (urb_at s2 p)" using moved_fits [OF m3, of 0] f by simp
  have R: "unat (rem - l') = unat remain - T" using le rem sum by (simp add: unat_sub_le)
  have "int (unat (rem - l')) = int (unat remain - T)" by (simp only: R)
  then have Ri: "uint (rem - l') = int (unat remain - T)" by simp
  have l64: "l' < 64 \<longleftrightarrow> \<not> (64 dvd T \<and> T \<noteq> 0)"
  proof
    assume "l' < 64"
    then have "unat l' < 64" by (simp add: word_less_nat_alt)
    then have "\<not> 64 dvd unat l' \<or> unat l' = 0" using nat_dvd_not_less [of "unat l'" 64] by blast
    moreover have "64 dvd T \<longleftrightarrow> 64 dvd unat l'" unfolding sum by (rule dvd_add_right_iff) simp
    ultimately have "64 dvd T \<Longrightarrow> unat l' = 0" by blast
    moreover have "T = 0" if "unat l' = 0"
    proof -
      have "l' = 0" using that by (simp only: unat_eq_0)
      with j sum that show "T = 0" by simp
    qed
    ultimately show "\<not> (64 dvd T \<and> T \<noteq> 0)" by blast
  next
    assume "\<not> (64 dvd T \<and> T \<noteq> 0)"
    with sum l' have "unat l' \<noteq> 64" by auto
    with l' show "l' < 64" by (simp add: word_le_nat_alt word_less_nat_alt)
  qed
  show ?thesis
  proof (cases "l' < 64")
    case True
    then have "hc_read_loop app p rem s1 = Some (uint l', rem - l', s2)" by (simp add: next_)
    moreover have nd: "\<not> (64 dvd T \<and> T \<noteq> 0)" using True l64 by blast
    moreover have "cd_require_zlp c' = 0" using z c'(2) nd by metis
    moreover have "usb_setup s2 = usb_setup s0" using m3 by (rule moved_setup)
    ultimately obtain s3 s4 c'' where "hc_read app p rem s1 = Some (uint (rem - l'), s3)" "same s2 s3"
      "wait_ep0 app s3 = Some s4" "same s3 s4" "offers s4 WAIT_SETUP c'' (usb_setup s0) 8"
      using read_finish [OF ok _ _ a c'(1), of p rem s1] by auto
    moreover from nd have "\<not> (64 dvd T \<and> T \<noteq> 0 \<and> T = unat remain)" by blast
    ultimately show ?thesis
      using moved_same(2) [OF _ m3] unfolding loop_hc_read [OF loop [folded rem_def]] Ri by (simp only: if_False) blast
  next
    case False
    then have dvd: "64 dvd T" "T \<noteq> 0" using l64 by blast+
    have n: "hc_read_loop app p rem s1 = hc_read_loop app p (rem - l') s2" using False by (simp add: next_)
    note eq = loop_hc_read [OF loop [folded rem_def, unfolded n]]
    show ?thesis
    proof (cases "T = unat remain")
      case True
      with z c' have "cd_require_zlp c' = 0" by auto
      then obtain s3 where 3: "wait_ep0 app s2 = Some s3" "same s2 s3" "offers s3 WAIT_STATUS_OUT c' (usb_setup s2) 0"
        using turn_in_end [OF a ok c'(1)] by auto
      from read_zlp [OF 3 f2] obtain s4 where 4: "asks s4 WAIT_STATUS_OUT c' True 0" "same s2 s4"
        "hc_read_loop app p (rem - l') s2 = Some (0, rem - l', s4)" by blast
      from read_abort [OF ok 4(3) _ 4(1)] 4(2) True dvd m3 show ?thesis
        unfolding eq by (auto intro: moved_same(2))
    next
      case False
      with z c' dvd T have "cd_require_zlp c' \<noteq> 0" by auto
      then obtain s3 where 3: "wait_ep0 app s2 = Some s3" "same s2 s3"
        "offers s3 LAST_IN_DATA (c'\<lparr>cd_require_zlp := 0\<rparr>) (usb_setup s2) 0"
        using turn_in_end [OF a ok c'(1)] by auto
      from read_zlp [OF 3 f2] obtain s4 where 4: "asks s4 LAST_IN_DATA (c'\<lparr>cd_require_zlp := 0\<rparr>) True 0" "same s2 s4"
        "hc_read_loop app p (rem - l') s2 = Some (0, rem - l', s4)" by blast
      have "usb_setup s4 = usb_setup s0" using 4(2) m3 by (simp add: same_setup moved_setup)
      then obtain s5 s6 c'' where "hc_read app p (rem - l') s2 = Some (uint (rem - l'), s5)" "same s4 s5"
        "wait_ep0 app s5 = Some s6" "same s5 s6" "offers s6 WAIT_SETUP c'' (usb_setup s0) 8"
        using read_finish [OF ok 4(3) _ 4(1)] c'(1) by auto
      moreover from False have "\<not> (64 dvd T \<and> T \<noteq> 0 \<and> T = unat remain)" by blast
      ultimately show ?thesis
        using moved_same(2) [OF same_trans [OF 4(2)] m3] unfolding eq Ri by (simp only: if_False) blast
    qed
  qed
qed

text \<open>
  One packet of 64 bytes that is the whole answer: the device does not know that it is the last one
  and sends an empty one after it, and another one if it had to send an empty packet.
\<close>

lemma read_stage_64:
  assumes ok: "lets_pass app USB_EVENT_OK" and start: "wait_ep0 app s0 = Some s" "same s0 s"
    and o: "offers s IN_DATA c b 64" "cd_len c = 0" and r: "64 \<le> unat remain" and f: "fits 64 (urb_at s0 p)"
  shows "\<exists>s3 s4 c'. hc_read app p remain s0 = Some (int (unat remain - 64), s3) \<and>
    moved p s0 (bytes (ip_mem s0) b 64) s3 \<and> wait_ep0 app s3 = Some s4 \<and> same s3 s4 \<and>
    (if cd_require_zlp c = 0 then offers s4 WAIT_SETUP c' (usb_setup s0) 8 else refuses s4)"
proof -
  obtain s1 where a: "asks s1 IN_DATA c True 64" and m: "moved p s0 (bytes (ip_mem s0) b 64) s1"
    and next_: "hc_read_loop app p remain s0 = hc_read_loop app p (remain - 64) s1"
    using read_round [OF start o(1), of remain p] r f by (auto simp: word_le_nat_alt)
  have c: "c\<lparr>cd_len := 0\<rparr> = c" using o(2) by (cases c) simp
  obtain s2 where 2: "wait_ep0 app s1 = Some s2" "same s1 s2" "offers s2 LAST_IN_DATA (c\<lparr>cd_len := 0\<rparr>) (cd_addr c) 0"
    using turn_in_data [OF a ok _ _ refl] o(2) by auto
  note 2 = 2(1,2) 2(3) [unfolded c]
  have f1: "fits 0 (urb_at s1 p)" using moved_fits [OF m, of 0] f by simp
  obtain s3 where 3: "asks s3 LAST_IN_DATA c True 0" "same s1 s3"
    "hc_read_loop app p (remain - 64) s1 = Some (0, remain - 64, s3)"
    using read_zlp [OF 2 f1] by blast
  have "unat (remain - 64) = unat remain - 64" using r by (simp add: unat_sub_le word_le_nat_alt)
  then have "int (unat (remain - 64)) = int (unat remain - 64)" by (simp only:)
  then have R: "uint (remain - 64) = int (unat remain - 64)" by simp
  have ss: "usb_setup s3 = usb_setup s0" using 3(2) m by (simp add: same_setup moved_setup)
  obtain s4 s5 c' where "hc_read app p (remain - 64) s1 = Some (int (unat remain - 64), s4)" "same s3 s4"
    "wait_ep0 app s4 = Some s5" "same s4 s5"
    "if cd_require_zlp c = 0 then offers s5 WAIT_SETUP c' (usb_setup s0) 8 else refuses s5"
    using read_finish [OF ok 3(3) order_refl 3(1) o(2), unfolded R ss] by blast
  then show ?thesis
    using moved_same(2) [OF same_trans [OF 3(2)] m] unfolding loop_hc_read [OF next_] by blast
qed

section \<open>Reading: the whole request\<close>

definition idle :: "server \<Rightarrow> bool" where
  "idle s \<longleftrightarrow> usbc_intr s = USB_INTR_NONE \<and> uc_eventfd (usbc_ep0 s) = 0 \<and>
     uc_state (usbc_ep0 s) = USB_STATE_READY \<and> uc_urb (usbc_ep0 s) = None"

definition request_of :: "u8 list \<Rightarrow> device_req" where
  "request_of b = \<lparr>req_type = b ! 0, req_request = b ! 1,
     req_value = push_bit 8 (ucast (b ! 3)) + ucast (b ! 2),
     req_index = push_bit 8 (ucast (b ! 5)) + ucast (b ! 4),
     req_len = push_bit 8 (ucast (b ! 7)) + ucast (b ! 6)\<rparr>"

text \<open>Requests that are passed on to the application: those that are not standard, and for a descriptor.\<close>

definition application_event :: "device_req \<Rightarrow> usb_event option" where
  "application_event req =
     (if req_type req AND REQUEST_TYPE \<noteq> STANDARD_REQUEST then Some USB_EVENT_CTRL_REQUEST
      else if req_request req = 6 \<and> USB_SETUP_GET (req_type req) then Some USB_EVENT_GET_DESCRIPTOR
      else None)"

definition sends_back :: "(u32 \<Rightarrow> server \<Rightarrow> server) \<Rightarrow> usb_event \<Rightarrow> addr \<Rightarrow> u32 \<Rightarrow> bool" where
  "sends_back app ev buf n \<longleftrightarrow> (\<forall>s. app (USB_MAKE_EV ev) s = snd (usb_lld_ctrl_send_ip buf n s))"

definition receives :: "(u32 \<Rightarrow> server \<Rightarrow> server) \<Rightarrow> usb_event \<Rightarrow> addr \<Rightarrow> u32 \<Rightarrow> bool" where
  "receives app ev buf n \<longleftrightarrow> (\<forall>s. app (USB_MAKE_EV ev) s = snd (usb_lld_ctrl_recv_ip buf n s))"

definition with_setup :: "addr \<Rightarrow> server \<Rightarrow> addr \<Rightarrow> u8" where
  "with_setup p s = put_bytes (usb_setup s) (u_setup (urb_at s p)) (ip_mem s)"

lemma put_bytes_at: "i < length bs \<Longrightarrow> length bs < 2 ^ 32 \<Longrightarrow> put_bytes a bs m (a + of_nat i) = bs ! i"
  by (simp add: put_bytes_def unat_of_nat take_bit_nat_eq_self)

lemma read_setup_put:
  assumes "length bs = 8" "ip_mem s = put_bytes (usb_setup s) bs m"
  shows "read_setup_ip s = request_of bs"
proof -
  have "ip_mem s (usb_setup s + of_nat i) = bs ! i" if "i < 8" for i
    using assms put_bytes_at [of i bs] that by simp
  from this [of 0] this [of 1] this [of 2] this [of 3] this [of 4] this [of 5] this [of 6] this [of 7]
  show ?thesis by (simp add: read_setup_ip_def request_of_def Let_def add.assoc)
qed

lemma setup_event:
  assumes "application_event (read_setup_ip s) = Some ev"
  shows "handle_setup0_ip s =
    (ev, s\<lparr>ip_req := read_setup_ip s, ip_data := \<lparr>cd_addr = 0, cd_len = 0, cd_require_zlp = 0\<rparr>\<rparr>)"
  using assms
  by (auto simp: application_event_def handle_setup0_ip_def std_request_ip_def std_get_descriptor_ip_def
      USB_SETUP_SET_def USB_SETUP_GET_def Let_def split: if_splits)

text \<open>The setup transaction and the first turn of the device, up to the call of the application.\<close>

lemma setup_stage:
  assumes i: "idle s" and b: "length (u_setup (urb_at s p)) = 8"
    and ev: "application_event (request_of (u_setup (urb_at s p))) = Some ev"
    and s0: "s0 = set_ep0 ((usbc_ep0 s)\<lparr>uc_urb := Some p\<rparr>) s"
  shows "\<exists>s1 s2. control_setup_transaction p s0 =
      Some (if u_dir (urb_at s p) = USBIP_DIR_OUT \<and> u_setup (urb_at s p) ! 6 = 0 \<and> u_setup (urb_at s p) ! 7 = 0
        then 1 else 0, s1) \<and>
    device_turn app s1 = app (USB_MAKE_EV ev) s2 \<and> uc_eventfd (usbc_ep0 s1) = 0 \<and>
    ip_mem s1 = with_setup p s \<and> ip_mem s2 = with_setup p s \<and> urb_at s1 = urb_at s \<and> urb_at s2 = urb_at s \<and>
    rest_of s1 = rest_of s0 \<and> rest_of s2 = rest_of s0 \<and> usbc_intr s2 = USB_INTR_NONE \<and>
    uc_eventfd (usbc_ep0 s2) = 0 \<and>
    ip_req s2 = request_of (u_setup (urb_at s p)) \<and> ip_data s2 = \<lparr>cd_addr = 0, cd_len = 0, cd_require_zlp = 0\<rparr>"
proof -
  define s1 where "s1 = s\<lparr>ep_out := (ep_out s)(0 := (usbc_ep0 s)\<lparr>uc_urb := Some p, uc_state := USB_STATE_NAK\<rparr>),
    ip_mem := with_setup p s, usbc_intr := USB_INTR_SETUP, usbc_dir := (u_dir (urb_at s p) = USBIP_DIR_IN),
    usbc_ep_num := 0\<rparr>"
  have "read_setup_ip (s1\<lparr>usbc_intr := USB_INTR_NONE\<rparr>) = request_of (u_setup (urb_at s p))"
    by (rule read_setup_put [OF b, where m = "ip_mem s"]) (simp add: s1_def with_setup_def)
  then have "handle_setup0_ip (s1\<lparr>usbc_intr := USB_INTR_NONE\<rparr>) = (ev, s1\<lparr>usbc_intr := USB_INTR_NONE,
      ip_req := request_of (u_setup (urb_at s p)), ip_data := \<lparr>cd_addr = 0, cd_len = 0, cd_require_zlp = 0\<rparr>\<rparr>)"
    using setup_event [of "s1\<lparr>usbc_intr := USB_INTR_NONE\<rparr>" ev] ev by simp
  then have "device_turn app s1 = app (USB_MAKE_EV ev) (s1\<lparr>usbc_intr := USB_INTR_NONE,
      ip_req := request_of (u_setup (urb_at s p)), ip_data := \<lparr>cd_addr = 0, cd_len = 0, cd_require_zlp = 0\<rparr>\<rparr>)"
    by (simp add: device_turn_def usb_lld_event_handler_ip_def s1_def Let_def)
  moreover have "control_setup_transaction p s0 =
      Some (if u_dir (urb_at s p) = USBIP_DIR_OUT \<and> u_setup (urb_at s p) ! 6 = 0 \<and> u_setup (urb_at s p) ! 7 = 0
        then 1 else 0, s1)"
    using i by (simp add: s0 idle_def control_setup_transaction_def notify_device_def set_ep0_def s1_def
        with_setup_def Let_def)
  ultimately show ?thesis
    using i by (intro exI [of _ s1] exI conjI) (assumption, assumption, auto simp: s1_def s0 idle_def rest_of_def set_ep0_def)
qed

lemma send_turn:
  assumes d: "device_turn app s1 = snd (usb_lld_ctrl_send_ip buf n s2)" "uc_eventfd (usbc_ep0 s1) = 0"
    and s2: "usbc_intr s2 = USB_INTR_NONE" "uc_eventfd (usbc_ep0 s2) = 0" "ip_mem s2 = ip_mem s1" "urb_at s2 = urb_at s1"
      "rest_of s2 = rest_of s1" "ip_data s2 = \<lparr>cd_addr = 0, cd_len = 0, cd_require_zlp = 0\<rparr>"
    and L: "L = (if req_len (ip_req s2) \<le> ucast n then req_len (ip_req s2) else ucast n)"
    and k: "k = (if L < 64 then L else 64)"
  shows "\<exists>s c. wait_ep0 app s1 = Some s \<and> same s1 s \<and>
    offers s (if L < 64 then LAST_IN_DATA else IN_DATA) c buf k \<and>
    cd_len c = L - k \<and> cd_addr c = buf + ucast k \<and>
    (cd_require_zlp c \<noteq> 0 \<longleftrightarrow> L < req_len (ip_req s2) \<and> L \<noteq> 0 \<and> (ucast L :: u32) mod 64 = 0)"
  using assms
  by (auto simp: usb_lld_ctrl_send_ip_def wait_ep0_def ep0_offer_def set_ep0_def notify_hostcontroller_def
      same_def rest_of_def offers_def USB_MAX_PACKET_SIZE_def Let_def)

text \<open>How a request ends: its length is set and the endpoint has none any more.\<close>

definition ended :: "addr \<Rightarrow> u32 \<Rightarrow> server \<Rightarrow> server" where
  "ended p len s =
     (let s = upd_urb p (\<lambda>u. u\<lparr>u_len := len\<rparr>) s in set_ep0 ((usbc_ep0 s)\<lparr>uc_urb := None\<rparr>) s)"

lemma hc_control_in:
  assumes "u_dir (urb_at s p) = USBIP_DIR_IN"
    and "control_setup_transaction p (set_ep0 ((usbc_ep0 s)\<lparr>uc_urb := Some p\<rparr>) s) = Some (0, s1)"
  shows "hc_read app p (ucast (u_len (urb_at s p))) s1 = Some (int m, s3) \<Longrightarrow> wait_ep0 app s3 = Some s4 \<Longrightarrow>
      hc_handle_control_urb app p s = Some (0, ended p (u_len (urb_at s4 p) - of_nat m) s4)"
    and "hc_read app p (ucast (u_len (urb_at s p))) s1 = Some (- EPIPE, s3) \<Longrightarrow>
      hc_handle_control_urb app p s =
        Some (0, ended p 0 (set_ep0 ((usbc_ep0 s3)\<lparr>uc_state := USB_STATE_READY\<rparr>) s3))"
  using assms
  by (simp_all add: hc_handle_control_urb_def ended_def USBIP_DIR_IN_def USBIP_DIR_OUT_def EPIPE_def upd_urb_def Let_def)

lemma ended_rest:
  "rest_of s4 = rest_of (set_ep0 ((usbc_ep0 s)\<lparr>uc_urb := Some p\<rparr>) s) \<Longrightarrow> idle s \<Longrightarrow> rest_of (ended p len s4) = rest_of s"
  by (simp add: rest_of_def ended_def idle_def set_ep0_def upd_urb_def Let_def)

lemma ended_fields [simp]:
  "ip_mem (ended p len s) = ip_mem s" "usbc_intr (ended p len s) = usbc_intr s"
  "urb_at (ended p len s) = (urb_at s)(p := (urb_at s p)\<lparr>u_len := len\<rparr>)"
  "idle (ended p len s) \<longleftrightarrow> usbc_intr s = USB_INTR_NONE \<and> uc_eventfd (usbc_ep0 s) = 0 \<and> uc_state (usbc_ep0 s) = USB_STATE_READY"
  "refuses (ended p len s) = refuses s"
  by (auto simp: ended_def idle_def refuses_def set_ep0_def upd_urb_def Let_def)

lemma ucast_diff: "k \<le> unat (w :: u16) \<Longrightarrow> (ucast w :: u32) - of_nat (unat w - k) = of_nat k"
proof -
  assume k: "k \<le> unat w"
  have "(ucast w :: u32) = of_nat (unat w)" by (simp add: word_unat_eq_iff)
  also have "of_nat (unat w) = (of_nat (unat w - k) + of_nat k :: u32)"
    using k by (simp flip: of_nat_add)
  finally show ?thesis by simp
qed

text \<open>A request to read up to the first packet: the SETUP packet, and the answer of the application.\<close>

lemma control_read_begin:
  assumes i: "idle s" and u: "u = urb_at s p" "length (u_setup u) = 8" "u_dir u = USBIP_DIR_IN"
    "asked = req_len (request_of (u_setup u))"
    and app: "application_event (request_of (u_setup u)) = Some ev" "sends_back app ev buf (of_nat n)" "n < 65536"
    and L: "L = min n (unat asked)" and l: "l = (if asked \<le> of_nat n then asked else of_nat n)"
  obtains s1 t c where
    "control_setup_transaction p (set_ep0 ((usbc_ep0 s)\<lparr>uc_urb := Some p\<rparr>) s) = Some (0, s1)"
    "ip_mem s1 = with_setup p s" "urb_at s1 = urb_at s"
    "rest_of s1 = rest_of (set_ep0 ((usbc_ep0 s)\<lparr>uc_urb := Some p\<rparr>) s)"
    "wait_ep0 app s1 = Some t" "same s1 t" "unat l = L"
    "offers t (if l < 64 then LAST_IN_DATA else IN_DATA) c buf (if l < 64 then l else 64)"
    "cd_len c = l - (if l < 64 then l else 64)" "cd_addr c = buf + ucast (if l < 64 then l else 64 :: u16)"
    "cd_require_zlp c \<noteq> 0 \<longleftrightarrow> 64 dvd L \<and> L \<noteq> 0 \<and> L < unat asked"
proof -
  define s0 where "s0 = set_ep0 ((usbc_ep0 s)\<lparr>uc_urb := Some p\<rparr>) s"
  have dir: "\<not> (u_dir (urb_at s p) = USBIP_DIR_OUT \<and> x)" for x
    using u(1,3) by (simp add: USBIP_DIR_IN_def USBIP_DIR_OUT_def)
  obtain s1 s2 where tr: "control_setup_transaction p s0 = Some (0, s1)"
    and turn: "device_turn app s1 = app (USB_MAKE_EV ev) s2" "uc_eventfd (usbc_ep0 s1) = 0"
    and m1: "ip_mem s1 = with_setup p s" "ip_mem s2 = with_setup p s" "urb_at s1 = urb_at s" "urb_at s2 = urb_at s"
      "rest_of s1 = rest_of s0" "rest_of s2 = rest_of s0"
    and dev: "usbc_intr s2 = USB_INTR_NONE" "uc_eventfd (usbc_ep0 s2) = 0" "ip_req s2 = request_of (u_setup u)"
      "ip_data s2 = \<lparr>cd_addr = 0, cd_len = 0, cd_require_zlp = 0\<rparr>"
    using setup_stage [OF i, of p ev s0 app] u(2) app(1) dir by (auto simp: s0_def u(1))
  have n: "unat (of_nat n :: u16) = n" "unat (of_nat n :: u32) = n"
    using app(3) by (simp_all add: unat_of_nat take_bit_nat_eq_self)
  then have ul: "unat l = L" by (simp add: l L min_def word_le_nat_alt)
  have "(ucast (of_nat n :: u32) :: u16) = of_nat n"
    using n app(3) by (simp add: word_unat_eq_iff unsigned_ucast_eq take_bit_nat_eq_self)
  then have l': "l = (if req_len (ip_req s2) \<le> ucast (of_nat n :: u32) then req_len (ip_req s2) else ucast (of_nat n :: u32))"
    by (simp add: l dev(3) u(4))
  have sd: "device_turn app s1 = snd (usb_lld_ctrl_send_ip buf (of_nat n) s2)"
    using turn(1) app(2) by (simp add: sends_back_def)
  have m2: "ip_mem s2 = ip_mem s1" "urb_at s2 = urb_at s1" "rest_of s2 = rest_of s1" by (simp_all add: m1)
  have rq: "req_len (ip_req s2) = asked" by (simp add: dev(3) u(4) [symmetric])
  obtain t c where w: "wait_ep0 app s1 = Some t" "same s1 t"
    and o: "offers t (if l < 64 then LAST_IN_DATA else IN_DATA) c buf (if l < 64 then l else 64)"
      "cd_len c = l - (if l < 64 then l else 64)" "cd_addr c = buf + ucast (if l < 64 then l else 64 :: u16)"
    and z: "cd_require_zlp c \<noteq> 0 \<longleftrightarrow> l < asked \<and> l \<noteq> 0 \<and> (ucast l :: u32) mod 64 = 0"
    using send_turn [OF sd turn(2) dev(1,2) m2 dev(4) l' refl] unfolding rq by (elim exE conjE) (rule that)
  have "cd_require_zlp c \<noteq> 0 \<longleftrightarrow> 64 dvd L \<and> L \<noteq> 0 \<and> L < unat asked"
    using z ul by (auto simp: word_less_nat_alt word_unat_eq_iff unat_mod dvd_eq_mod_eq_0)
  with tr m1 w ul o show thesis by (intro that [of s1 t c]) (simp_all only: s0_def)
qed

text \<open>The data stage of a request to read: what is moved, and how it ends.\<close>

definition read_stalls :: "nat \<Rightarrow> u16 \<Rightarrow> bool" where
  "read_stalls L asked \<longleftrightarrow> 64 < L \<and> 64 dvd L \<and> L = unat asked"

lemma control_read_data:
  assumes w: "wait_ep0 app s1 = Some t" "same s1 t" and ul: "unat l = L"
    and o: "offers t (if l < 64 then LAST_IN_DATA else IN_DATA) c buf (if l < 64 then l else 64)"
      "cd_len c = l - (if l < 64 then l else 64)" "cd_addr c = buf + ucast (if l < 64 then l else 64 :: u16)"
    and zlp: "cd_require_zlp c \<noteq> 0 \<longleftrightarrow> 64 dvd L \<and> L \<noteq> 0 \<and> L < unat asked"
    and app: "lets_pass app USB_EVENT_OK" and las: "L \<le> unat asked" and fit: "fits L (urb_at s1 p)"
  shows "\<exists>s3. moved p s1 (bytes (ip_mem s1) buf L) s3 \<and>
    (if read_stalls L asked then hc_read app p asked s1 = Some (- EPIPE, s3) \<and> refuses s3
     else \<exists>s4 c'. hc_read app p asked s1 = Some (int (unat asked - L), s3) \<and> wait_ep0 app s3 = Some s4 \<and> same s3 s4 \<and>
       (if L = 64 \<and> L < unat asked then refuses s4 else offers s4 WAIT_SETUP c' (usb_setup s1) 8))"
proof (cases "L = 64")
  case True
  then have "l = 64" using ul by (simp add: word_unat_eq_iff)
  then have "offers t IN_DATA c buf 64" "cd_len c = 0" using o by simp_all
  then obtain s3 s4 c' where rd: "hc_read app p asked s1 = Some (int (unat asked - 64), s3)"
    and m: "moved p s1 (bytes (ip_mem s1) buf 64) s3" and w4: "wait_ep0 app s3 = Some s4" "same s3 s4"
    and fin: "if cd_require_zlp c = 0 then offers s4 WAIT_SETUP c' (usb_setup s1) 8 else refuses s4"
    using read_stage_64 [OF app w, of c buf asked p] las fit unfolding True by blast
  have "cd_require_zlp c = 0 \<longleftrightarrow> \<not> L < unat asked" using zlp True by auto
  with rd m w4 fin show ?thesis unfolding True read_stalls_def by (intro exI [of _ s3]) auto
next
  case False
  define k where "k = (if l < 64 then l else 64)"
  note o' = o [folded k_def]
  have kl: "L = unat k + unat (cd_len c)"
    unfolding o'(2) k_def using ul by (auto simp: unat_sub_le word_le_nat_alt word_less_nat_alt)
  have ready: "sends t c buf k" "offers t (if l < 64 then LAST_IN_DATA else IN_DATA) c buf k"
    "(if l < 64 then LAST_IN_DATA else IN_DATA) = IN_DATA \<Longrightarrow> cd_len c \<noteq> 0"
    using o' False ul by (auto simp: sends_def k_def split: if_splits)
  note st = read_stage [OF app w ready kl las fit zlp]
  show ?thesis
  proof (cases "read_stalls L asked")
    case True
    then show ?thesis using st by (auto simp: read_stalls_def)
  next
    case F: False
    then have nl: "\<not> (64 dvd L \<and> L \<noteq> 0 \<and> L = unat asked)" using False by (auto simp: read_stalls_def dest: dvd_imp_le)
    obtain s3 s4 c' where "hc_read app p asked s1 = Some (int (unat asked - L), s3)"
      "moved p s1 (bytes (ip_mem s1) buf L) s3" "wait_ep0 app s3 = Some s4" "same s3 s4"
      "offers s4 WAIT_SETUP c' (usb_setup s1) 8"
      using st unfolding if_not_P [OF nl] by blast
    then show ?thesis unfolding if_not_P [OF F] using False by (intro exI [of _ s3]) auto
  qed
qed

text \<open>
  C27: What a client that reads from the control endpoint gets, for every length it asks for and
  every length the device has to send. It is the data, as much of it as there is and as was asked
  for, except that nothing arrives when the client gets all it asked for and this is a multiple of 64
  bytes from 128 on: the device is asked for an empty packet it does not expect. After an answer of
  64 bytes to a request for more, the control endpoint stays stalled, and refuses the next request.
  In all other cases it is ready for the next request. Nothing else changes.
\<close>

theorem control_read_result:
  assumes i: "idle s" and u: "u = urb_at s p" "length (u_setup u) = 8" "u_dir u = USBIP_DIR_IN" "u_data_p u = 0"
    "u_len u = ucast asked" "length (u_data u) = unat asked" "asked = req_len (request_of (u_setup u))"
    and app: "application_event (request_of (u_setup u)) = Some ev" "sends_back app ev buf (of_nat n)" "n < 65536"
      "lets_pass app USB_EVENT_OK"
    and L: "L = min n (unat asked)"
  shows "\<exists>s'. hc_handle_control_urb app p s = Some (0, s') \<and>
    ip_mem s' = with_setup p s \<and> rest_of s' = rest_of s \<and> (\<forall>q. q \<noteq> p \<longrightarrow> urb_at s' q = urb_at s q) \<and>
    (if 64 < L \<and> 64 dvd L \<and> L = unat asked then u_len (urb_at s' p) = 0 \<and> idle s'
     else u_len (urb_at s' p) = of_nat L \<and> take L (u_data (urb_at s' p)) = bytes (with_setup p s) buf L \<and>
       (if L = 64 \<and> L < unat asked then refuses s' else idle s'))"
proof -
  define l where "l = (if asked \<le> of_nat n then asked else of_nat n)"
  let ?s0 = "set_ep0 ((usbc_ep0 s)\<lparr>uc_urb := Some p\<rparr>) s"
  obtain s1 t c where tr: "control_setup_transaction p ?s0 = Some (0, s1)"
    and m1: "ip_mem s1 = with_setup p s" "urb_at s1 = urb_at s" "rest_of s1 = rest_of ?s0"
    and st: "wait_ep0 app s1 = Some t" "same s1 t" "unat l = L"
      "offers t (if l < 64 then LAST_IN_DATA else IN_DATA) c buf (if l < 64 then l else 64)"
      "cd_len c = l - (if l < 64 then l else 64)" "cd_addr c = buf + ucast (if l < 64 then l else 64 :: u16)"
      "cd_require_zlp c \<noteq> 0 \<longleftrightarrow> 64 dvd L \<and> L \<noteq> 0 \<and> L < unat asked"
    by (rule control_read_begin [OF i u(1-3,7) app(1-3) L l_def])
  have las: "L \<le> unat asked" by (simp add: L)
  have "fits L (urb_at s1 p)" using u(1,4,6) L by (simp add: fits_def m1)
  from control_read_data [OF st app(4) las this] obtain s3 where
    m: "moved p s1 (bytes (ip_mem s1) buf L) s3"
    and fin: "if read_stalls L asked then hc_read app p asked s1 = Some (- EPIPE, s3) \<and> refuses s3
     else \<exists>s4 c'. hc_read app p asked s1 = Some (int (unat asked - L), s3) \<and> wait_ep0 app s3 = Some s4 \<and> same s3 s4 \<and>
       (if L = 64 \<and> L < unat asked then refuses s4 else offers s4 WAIT_SETUP c' (usb_setup s1) 8)" by blast
  have d: "take L (u_data (urb_at s3 p)) = bytes (with_setup p s) buf L" "u_len (urb_at s3 p) = ucast asked"
    "\<forall>q. q \<noteq> p \<longrightarrow> urb_at s3 q = urb_at s q" "ip_mem s3 = with_setup p s" "rest_of s3 = rest_of ?s0"
    using m u(1,4,5) m1 by (simp_all add: moved_def grown_def)
  have "u_dir (urb_at s p) = USBIP_DIR_IN" "ucast (u_len (urb_at s p)) = asked" using u(1,3,5) by simp_all
  note hc = hc_control_in [OF this(1) tr, unfolded this(2)]
  show ?thesis
  proof (cases "read_stalls L asked")
    case True
    let ?s4 = "set_ep0 ((usbc_ep0 s3)\<lparr>uc_state := USB_STATE_READY\<rparr>) s3"
    have s4: "urb_at ?s4 = urb_at s3" "ip_mem ?s4 = with_setup p s" "rest_of ?s4 = rest_of ?s0"
      using d by (simp_all add: set_ep0_def rest_of_def)
    have rd: "hc_read app p asked s1 = Some (- EPIPE, s3)" "refuses s3" using fin True by simp_all
    show ?thesis
      unfolding hc(2) [OF rd(1)] using rd(2) True d s4 ended_rest [OF s4(3) i]
      by (auto simp: refuses_def set_ep0_def read_stalls_def)
  next
    case False
    then obtain s4 c' where rd: "hc_read app p asked s1 = Some (int (unat asked - L), s3)"
      and w4: "wait_ep0 app s3 = Some s4" "same s3 s4"
      and end4: "if L = 64 \<and> L < unat asked then refuses s4 else offers s4 WAIT_SETUP c' (usb_setup s1) 8"
      using fin by auto
    have s4: "urb_at s4 = urb_at s3" "ip_mem s4 = with_setup p s" "rest_of s4 = rest_of ?s0"
      using w4(2) d by (simp_all add: same_def)
    have e: "hc_handle_control_urb app p s = Some (0, ended p (of_nat L) s4)"
      using hc(1) [OF rd w4(1)] d(2) ucast_diff [OF las] by (simp add: s4)
    have "if L = 64 \<and> L < unat asked then refuses (ended p (of_nat L) s4) else idle (ended p (of_nat L) s4)"
      using end4 by (simp add: offers_def split: if_splits)
    then show ?thesis
      unfolding e using False d s4 ended_rest [OF s4(3) i]
      by (auto simp: read_stalls_def simp del: ended_fields(4,5) split: if_splits)
  qed
qed

section \<open>Writing\<close>

text \<open>The host has sent \<open>n\<close> bytes of the request, which are now at \<open>b\<close>.\<close>

definition passed :: "addr \<Rightarrow> server \<Rightarrow> nat \<Rightarrow> addr \<Rightarrow> server \<Rightarrow> bool" where
  "passed p s n b s' \<longleftrightarrow> rest_of s' = rest_of s \<and>
     ip_mem s' = put_bytes b (take n (drop (u_data_p (urb_at s p)) (u_data (urb_at s p)))) (ip_mem s) \<and>
     urb_at s' = (urb_at s)(p := (urb_at s p)\<lparr>u_data_p := u_data_p (urb_at s p) + n\<rparr>)"

lemma passed_same: "same s s' \<Longrightarrow> passed p s' n b s'' \<Longrightarrow> passed p s n b s''"
  "same s' s'' \<Longrightarrow> passed p s n b s' \<Longrightarrow> passed p s n b s''"
  by (simp_all add: same_def passed_def)

lemma passed_0: "passed p s 0 b s' \<longleftrightarrow> same s s'"
  by (auto simp: passed_def same_def)

lemma passed_append:
  assumes "passed p s n b s'" "passed p s' k (b + of_nat n) s''" "fits (n + k) (urb_at s p)" "n + k < 65536"
  shows "passed p s (n + k) b s''"
proof -
  let ?d = "drop (u_data_p (urb_at s p)) (u_data (urb_at s p))"
  have len: "length (take n ?d) = n" using assms(3) by (simp add: fits_def)
  have "take n ?d @ take k (drop n ?d) = take (n + k) ?d" by (simp add: take_add)
  moreover have "put_bytes (b + of_nat (length (take n ?d))) (take k (drop n ?d)) (put_bytes b (take n ?d) (ip_mem s)) =
      put_bytes b (take n ?d @ take k (drop n ?d)) (ip_mem s)"
    by (rule put_bytes_append) (use assms(4) in simp)
  ultimately show ?thesis
    using assms(1,2) len by (simp add: passed_def add.assoc) (simp add: add.commute)
qed

lemma passed_fits: "passed p s n b s' \<Longrightarrow> fits (n + k) (urb_at s p) \<Longrightarrow> fits k (urb_at s' p)"
  by (simp add: passed_def fits_def add.assoc)

lemma write_round:
  assumes w: "wait_ep0 app s0 = Some s" "same s0 s" and o: "offers s st c b l"
    and k: "k = (if 64 < remain then 64 else remain)" "k \<le> l" and f: "fits (unat k) (urb_at s0 p)"
  shows "\<exists>s'. asks s' st c False k \<and> passed p s0 (unat k) b s' \<and>
    hc_write_loop app p 0 remain s0 =
      (if k < 64 then Some (0, s') else hc_write_loop app p 0 (remain - k) s')"
proof -
  have u: "urb_at s = urb_at s0" "ip_mem s = ip_mem s0" "rest_of s = rest_of s0" using w(2) by (simp_all add: same_def)
  obtain s1 where r: "control_write_data_transaction p k s = Some (0, s1)" and a: "asks s1 st c False k"
    and m: "urb_at s1 = urb_at s0" "rest_of s1 = rest_of s0"
    and d: "ip_mem s1 = put_bytes b (take (unat k) (drop (u_data_p (urb_at s0 p)) (u_data (urb_at s0 p)))) (ip_mem s0)"
    using write_data [OF o k(2), of p] f u by (auto simp: fits_def)
  define s' where "s' = upd_urb p (\<lambda>u. u\<lparr>u_data_p := u_data_p u + unat k\<rparr>) s1"
  have "asks s' st c False k" using a by (simp add: s'_def asks_def upd_urb_def)
  moreover have "passed p s0 (unat k) b s'"
    using m d by (simp add: passed_def s'_def upd_urb_def rest_of_def)
  ultimately show ?thesis
    by (intro exI [of _ s']) (simp add: hc_write_loop.simps [of app p 0 remain s0] w(1) r s'_def k(1) [symmetric] Let_def)
qed

lemma loop_hc_write: "hc_write_loop app p r remain s = hc_write_loop app p r remain' s' \<Longrightarrow>
    hc_write app p r remain s = hc_write app p r remain' s'"
  by (simp add: hc_write_def)

text \<open>The device's state while it receives: it expects as many bytes as the host has to send.\<close>

lemma write_stage:
  assumes ok: "lets_pass app USB_EVENT_OK" "lets_pass app USB_EVENT_CTRL_WRITE_FINISH" "lets_pass app USB_EVENT_DEVICE_ADDRESSED"
    and "wait_ep0 app s0 = Some s" "same s0 s" "offers s OUT_DATA c b (if 64 < remain then 64 else remain)"
    and "cd_len c = remain" "cd_addr c = b" "remain \<noteq> 0" "fits (unat remain) (urb_at s0 p)"
  shows "if 64 dvd unat remain
    then \<exists>s3. hc_write app p 0 remain s0 = Some (- EPIPE, s3) \<and> passed p s0 (unat remain) b s3 \<and> refuses s3
    else \<exists>s3 s4 c'. hc_write app p 0 remain s0 = Some (0, s3) \<and> passed p s0 (unat remain) b s3 \<and>
      wait_ep0 app s3 = Some s4 \<and> same s3 s4 \<and> offers s4 WAIT_SETUP c' (usb_setup s0) 8"
  using assms(4-)
proof (induction "unat remain" arbitrary: s0 s c b remain rule: less_induct)
  case less
  define k where "k = (if 64 < remain then 64 else remain)"
  have fk: "fits (unat k) (urb_at s0 p)" and kle: "unat k \<le> unat remain"
    using less.prems(7) by (auto simp: k_def fits_def word_less_nat_alt)
  obtain s1 where a: "asks s1 OUT_DATA c False k" and m: "passed p s0 (unat k) b s1"
    and next_: "hc_write_loop app p 0 remain s0 =
      (if k < 64 then Some (0, s1) else hc_write_loop app p 0 (remain - k) s1)"
    using write_round [OF less.prems(1-3) refl _ fk [unfolded k_def]] unfolding k_def by blast
  define c1 where "c1 = c\<lparr>cd_len := cd_len c - k, cd_addr := cd_addr c + ucast k\<rparr>"
  obtain s2 where w2: "wait_ep0 app s1 = Some s2" "same s1 s2"
    and o2: "if cd_len c1 = 0 then offers s2 WAIT_STATUS_IN c1 (usb_setup s1) 0
      else offers s2 OUT_DATA c1 (cd_addr c1) (if 64 < cd_len c1 then 64 else cd_len c1)"
    using turn_out_data [OF a ok(1) c1_def] by blast
  have su: "usb_setup s1 = usb_setup s0" using m by (simp add: passed_def rest_of_def)
  consider "remain < 64" | "remain = 64" | "64 < remain" by (rule linorder_cases)
  then show ?case
  proof cases
    case 1
    then have k: "k = remain" "k < 64" and nd: "\<not> 64 dvd unat remain"
      using less.prems(6) by (auto simp: k_def word_less_nat_alt unat_eq_0 dest: dvd_imp_le)
    then have o: "offers s2 WAIT_STATUS_IN c1 (usb_setup s0) 0"
      using o2 less.prems(4) by (simp add: c1_def su)
    obtain s3 where 3: "control_write_status_transaction s2 = Some (0, s3)" "asks s3 WAIT_STATUS_IN c1 True 0" "same s2 s3"
      using write_status [OF o] by blast
    obtain s4 where 4: "wait_ep0 app s3 = Some s4" "same s3 s4" "offers s4 WAIT_SETUP c1 (usb_setup s3) 8"
      using turn_status_in [OF 3(2) ok(2,3)] by blast
    have "same s1 s3" using w2(2) 3(3) by (rule same_trans)
    then have "passed p s0 (unat remain) b s3" "usb_setup s3 = usb_setup s0"
      using m k(1) su by (auto simp: same_setup intro: passed_same(2))
    moreover have "hc_write app p 0 remain s0 = Some (0, s3)" using next_ k w2(1) 3(1) by (simp add: hc_write_def)
    ultimately show ?thesis unfolding if_not_P [OF nd] using 4 by metis
  next
    case 2
    then have k: "k = 64" "remain - k = 0" "cd_len c1 = 0" using less.prems(4) by (simp_all add: k_def c1_def)
    then have o: "offers s2 WAIT_STATUS_IN c1 (usb_setup s0) 0" using o2 by (simp add: su)
    have "fits 0 (urb_at s1 p)" using passed_fits [OF m, of 0] fk by simp
    then obtain s3 where 3: "asks s3 WAIT_STATUS_IN c1 False 0" "passed p s1 0 (usb_setup s0) s3"
      "hc_write_loop app p 0 0 s1 = Some (0, s3)"
      using write_round [OF w2 o, of 0 0 p] by auto
    obtain s4 where 4: "wait_ep0 app s3 = Some s4" "same s3 s4" "refuses s4"
      using turn_out_refused [OF 3(1) ok(1)] by auto
    have "passed p s0 (unat remain) b s4"
      using m 3(2) 4(2) 2 k(1) by (auto simp: passed_0 intro: passed_same(2))
    moreover have "hc_write app p 0 remain s0 = Some (- EPIPE, s4)"
      using next_ k(1,2) 3(3) 4(1) refused(2) [OF 4(3)] by (simp add: hc_write_def)
    ultimately show ?thesis using 4(3) 2 by auto
  next
    case 3
    then have k: "k = 64" "\<not> k < 64" by (simp_all add: k_def)
    have r: "unat (remain - 64) = unat remain - 64" "64 < unat remain" "remain - 64 \<noteq> 0"
      using 3 unat_sub_le [OF less_imp_le [OF 3]] by (auto simp: word_less_nat_alt)
    have c1: "cd_len c1 = remain - 64" "cd_addr c1 = b + 64" using less.prems(4,5) k by (simp_all add: c1_def)
    have o: "offers s2 OUT_DATA c1 (b + 64) (if 64 < remain - 64 then 64 else remain - 64)"
      using o2 unfolding c1 if_not_P [OF r(3)] .
    have f: "fits (unat (remain - 64)) (urb_at s1 p)"
      using passed_fits [OF m, of "unat remain - 64"] less.prems(7) r k by simp
    have eq: "hc_write app p 0 remain s0 = hc_write app p 0 (remain - 64) s1"
      by (rule loop_hc_write) (use next_ k in simp)
    have dvd: "64 dvd unat (remain - 64) \<longleftrightarrow> 64 dvd unat remain"
      using r by (simp add: dvd_diff_nat dvd_minus_self)
    have go: "passed p s0 (unat remain) b s3" if "passed p s1 (unat (remain - 64)) (b + 64) s3" for s3
    proof -
      have "passed p s0 (64 + (unat remain - 64)) b s3"
        using passed_append [of p s0 64 b s1 "unat remain - 64" s3] m that k r less.prems(7) unat_u16_less [of remain]
        by simp
      with r show ?thesis by simp
    qed
    have "unat (remain - 64) < unat remain" using r by simp
    from less.hyps [OF this w2 o c1 r(3) f] show ?thesis
      unfolding eq dvd su by (auto split: if_splits dest: go)
  qed
qed

lemma recv_turn:
  assumes d: "device_turn app s1 = snd (usb_lld_ctrl_recv_ip buf n s2)" "uc_eventfd (usbc_ep0 s1) = 0"
    and s2: "usbc_intr s2 = USB_INTR_NONE" "uc_eventfd (usbc_ep0 s2) = 0" "ip_mem s2 = ip_mem s1" "urb_at s2 = urb_at s1"
      "rest_of s2 = rest_of s1"
    and n: "n = ucast l"
  shows "\<exists>s c. wait_ep0 app s1 = Some s \<and> same s1 s \<and>
    offers s OUT_DATA c buf (if 64 < l then 64 else l) \<and> cd_len c = l \<and> cd_addr c = buf"
  using assms
  by (auto simp: usb_lld_ctrl_recv_ip_def wait_ep0_def ep0_offer_def set_ep0_def notify_hostcontroller_def
      same_def rest_of_def offers_def USB_MAX_PACKET_SIZE_def Let_def)

lemma hc_control_out:
  assumes "u_dir (urb_at s p) = USBIP_DIR_OUT"
    and "control_setup_transaction p (set_ep0 ((usbc_ep0 s)\<lparr>uc_urb := Some p\<rparr>) s) = Some (0, s1)"
  shows "hc_write app p 0 (ucast (u_len (urb_at s p))) s1 = Some (0, s3) \<Longrightarrow> wait_ep0 app s3 = Some s4 \<Longrightarrow>
      hc_handle_control_urb app p s = Some (0, ended p 0 s4)"
    and "hc_write app p 0 (ucast (u_len (urb_at s p))) s1 = Some (- EPIPE, s3) \<Longrightarrow>
      hc_handle_control_urb app p s =
        Some (- EPIPE, ended p 0 (set_ep0 ((usbc_ep0 s3)\<lparr>uc_state := USB_STATE_READY\<rparr>) s3))"
  using assms
  by (simp_all add: hc_handle_control_urb_def ended_def USBIP_DIR_IN_def USBIP_DIR_OUT_def EPIPE_def Let_def)

text \<open>A request to write up to the data stage.\<close>

lemma control_write_begin:
  assumes i: "idle s" and u: "u = urb_at s p" "length (u_setup u) = 8" "u_dir u = USBIP_DIR_OUT"
    "asked = req_len (request_of (u_setup u))" "asked \<noteq> 0"
    and app: "application_event (request_of (u_setup u)) = Some ev" "receives app ev buf (ucast asked)"
  obtains s1 t c where
    "control_setup_transaction p (set_ep0 ((usbc_ep0 s)\<lparr>uc_urb := Some p\<rparr>) s) = Some (0, s1)"
    "ip_mem s1 = with_setup p s" "urb_at s1 = urb_at s"
    "rest_of s1 = rest_of (set_ep0 ((usbc_ep0 s)\<lparr>uc_urb := Some p\<rparr>) s)"
    "wait_ep0 app s1 = Some t" "same s1 t"
    "offers t OUT_DATA c buf (if 64 < asked then 64 else asked)" "cd_len c = asked" "cd_addr c = buf"
proof -
  define s0 where "s0 = set_ep0 ((usbc_ep0 s)\<lparr>uc_urb := Some p\<rparr>) s"
  have nz: "\<not> (u_dir (urb_at s p) = USBIP_DIR_OUT \<and> u_setup (urb_at s p) ! 6 = 0 \<and> u_setup (urb_at s p) ! 7 = 0)"
    using u(1,4,5) by (auto simp: request_of_def)
  obtain s1 s2 where tr: "control_setup_transaction p s0 = Some (0, s1)"
    and turn: "device_turn app s1 = app (USB_MAKE_EV ev) s2" "uc_eventfd (usbc_ep0 s1) = 0"
    and m1: "ip_mem s1 = with_setup p s" "ip_mem s2 = with_setup p s" "urb_at s1 = urb_at s" "urb_at s2 = urb_at s"
      "rest_of s1 = rest_of s0" "rest_of s2 = rest_of s0"
    and dev: "usbc_intr s2 = USB_INTR_NONE" "uc_eventfd (usbc_ep0 s2) = 0"
    using setup_stage [OF i, of p ev s0 app] u(2) app(1) unfolding if_not_P [OF nz] by (auto simp: s0_def u(1))
  have rv: "device_turn app s1 = snd (usb_lld_ctrl_recv_ip buf (ucast asked) s2)"
    using turn(1) app(2) by (simp add: receives_def)
  have m2: "ip_mem s2 = ip_mem s1" "urb_at s2 = urb_at s1" "rest_of s2 = rest_of s1" by (simp_all add: m1)
  obtain t c where "wait_ep0 app s1 = Some t" "same s1 t"
    "offers t OUT_DATA c buf (if 64 < asked then 64 else asked)" "cd_len c = asked" "cd_addr c = buf"
    using recv_turn [OF rv turn(2) dev m2 refl] by blast
  with tr m1 show thesis by (intro that [of s1 t c]) (simp_all only: s0_def)
qed

text \<open>
  C28: A client that writes to the control endpoint has all its data delivered to the buffer of the
  application, in order, for every length but zero. The request succeeds unless this is a multiple of 64
  bytes: then the host sends one empty packet too many, which the device refuses, and the client is
  told that the transfer failed. Either way the endpoint is ready for the next request and nothing else changes.
\<close>

theorem control_write_result:
  assumes i: "idle s" and u: "u = urb_at s p" "length (u_setup u) = 8" "u_dir u = USBIP_DIR_OUT" "u_data_p u = 0"
    "u_len u = ucast asked" "length (u_data u) = unat asked" "asked = req_len (request_of (u_setup u))" "asked \<noteq> 0"
    and app: "application_event (request_of (u_setup u)) = Some ev" "receives app ev buf (ucast asked)"
      "lets_pass app USB_EVENT_OK" "lets_pass app USB_EVENT_CTRL_WRITE_FINISH" "lets_pass app USB_EVENT_DEVICE_ADDRESSED"
  shows "\<exists>s'. hc_handle_control_urb app p s = Some (if 64 dvd unat asked then - EPIPE else 0, s') \<and>
    ip_mem s' = put_bytes buf (u_data u) (with_setup p s) \<and> u_len (urb_at s' p) = 0 \<and>
    idle s' \<and> rest_of s' = rest_of s \<and> (\<forall>q. q \<noteq> p \<longrightarrow> urb_at s' q = urb_at s q)"
proof -
  let ?s0 = "set_ep0 ((usbc_ep0 s)\<lparr>uc_urb := Some p\<rparr>) s"
  obtain s1 t c where tr: "control_setup_transaction p ?s0 = Some (0, s1)"
    and m1: "ip_mem s1 = with_setup p s" "urb_at s1 = urb_at s" "rest_of s1 = rest_of ?s0"
    and w: "wait_ep0 app s1 = Some t" "same s1 t"
    and o: "offers t OUT_DATA c buf (if 64 < asked then 64 else asked)" "cd_len c = asked" "cd_addr c = buf"
    by (rule control_write_begin [OF i u(1-3,7,8) app(1,2)])
  have dir: "u_dir (urb_at s p) = USBIP_DIR_OUT" using u(1,3) by simp
  have fit: "fits (unat asked) (urb_at s1 p)" using u(1,4,6) by (simp add: fits_def m1(2))
  have remain: "ucast (u_len (urb_at s p)) = asked" using u(1,5) by simp
  note st = write_stage [OF app(3-5) w o u(8) fit]
  note hc = hc_control_out [OF dir tr, unfolded remain]
  have data: "ip_mem s3 = put_bytes buf (u_data u) (with_setup p s)" "rest_of s3 = rest_of ?s0"
    "\<forall>q. q \<noteq> p \<longrightarrow> urb_at s3 q = urb_at s q" if "passed p s1 (unat asked) buf s3" for s3
    using that u(1,4,6) m1 by (simp_all add: passed_def)
  show ?thesis
  proof (cases "64 dvd unat asked")
    case True
    then obtain s3 where wr: "hc_write app p 0 asked s1 = Some (- EPIPE, s3)"
      and m: "passed p s1 (unat asked) buf s3" and rf: "refuses s3"
      using st by auto
    note d3 = data [OF m]
    let ?s4 = "set_ep0 ((usbc_ep0 s3)\<lparr>uc_state := USB_STATE_READY\<rparr>) s3"
    have s4: "urb_at ?s4 = urb_at s3" "ip_mem ?s4 = ip_mem s3" "rest_of ?s4 = rest_of ?s0"
      using d3 by (simp_all add: set_ep0_def rest_of_def)
    show ?thesis
      unfolding hc(2) [OF wr] using rf True d3 s4 ended_rest [OF s4(3) i]
      by (auto simp: refuses_def set_ep0_def)
  next
    case False
    then obtain s3 s4 c' where wr: "hc_write app p 0 asked s1 = Some (0, s3)"
      and m: "passed p s1 (unat asked) buf s3" and w4: "wait_ep0 app s3 = Some s4" "same s3 s4"
      and fin: "offers s4 WAIT_SETUP c' (usb_setup s1) 8"
      using st by auto
    note d3 = data [OF m]
    have s4: "urb_at s4 = urb_at s3" "ip_mem s4 = ip_mem s3" "rest_of s4 = rest_of ?s0"
      using w4(2) d3 by (simp_all add: same_def)
    show ?thesis
      unfolding hc(1) [OF wr w4(1)] using fin False d3 s4 ended_rest [OF s4(3) i]
      by (auto simp: offers_def)
  qed
qed

section \<open>Two requests\<close>

text \<open>
  A device with 18 bytes to send for a descriptor, and room for 100 bytes at the same place for any
  other request; the requests of the instances are at address 0.
\<close>

definition descriptor_app :: "u32 \<Rightarrow> server \<Rightarrow> server" where
  "descriptor_app ev s =
     (if ev = USB_MAKE_EV USB_EVENT_GET_DESCRIPTOR then snd (usb_lld_ctrl_send_ip 0x1000 (of_nat 18) s)
      else if ev = USB_MAKE_EV USB_EVENT_CTRL_REQUEST then snd (usb_lld_ctrl_recv_ip 0x1000 (ucast (100 :: u16)) s)
      else s)"

definition quiet_server :: "urb \<Rightarrow> server" where
  "quiet_server u = \<lparr>usbc_intr = USB_INTR_NONE, usbc_dir = False, usbc_ep_num = 0, ep_in = (\<lambda>_. no_control),
     ep_out = (\<lambda>_. no_control)(0 := no_control\<lparr>uc_state := USB_STATE_READY\<rparr>), ip_mem = (\<lambda>a. ucast a),
     usb_setup = 0x100, status_info = 0x110, configuration_at = 0x112, ip_feature = 0, ip_state = WAIT_SETUP,
     ip_req = \<lparr>req_type = 0, req_request = 0, req_value = 0, req_index = 0, req_len = 0\<rparr>,
     ip_data = \<lparr>cd_addr = 0, cd_len = 0, cd_require_zlp = 0\<rparr>,
     urb_at = (\<lambda>_. u), urb_next = id, urb_prev = id, urb_list = None, attached = True, sent = [], inp = []\<rparr>"

definition control_urb :: "u32 \<Rightarrow> u16 \<Rightarrow> u8 list \<Rightarrow> urb" where
  "control_urb dir asked b = \<lparr>u_remain = asked, u_data_p = 0, u_seq = 1, u_devid = 0, u_dir = dir, u_ep = 0,
     u_len = ucast asked, u_setup = b, u_data = replicate (unat asked) 0\<rparr>"

lemma quiet_idle: "idle (quiet_server u)"
  by (simp add: idle_def quiet_server_def no_control_def)

lemma descriptor_app_events:
  "sends_back descriptor_app USB_EVENT_GET_DESCRIPTOR 0x1000 (of_nat 18)"
  "receives descriptor_app USB_EVENT_CTRL_REQUEST 0x1000 (ucast (100 :: u16))"
  "lets_pass descriptor_app USB_EVENT_OK" "lets_pass descriptor_app USB_EVENT_CTRL_WRITE_FINISH"
  "lets_pass descriptor_app USB_EVENT_DEVICE_ADDRESSED"
  by (simp_all add: descriptor_app_def sends_back_def receives_def lets_pass_def USB_MAKE_EV_def)

theorem control_read_result_witness:
  "\<exists>s'. hc_handle_control_urb descriptor_app 0 (quiet_server (control_urb USBIP_DIR_IN 64 [0x80, 6, 0, 1, 0, 0, 64, 0])) =
      Some (0, s') \<and> u_len (urb_at s' 0) = 18 \<and> idle s'"
proof -
  let ?b = "[0x80, 6, 0, 1, 0, 0, 64, 0] :: u8 list"
  let ?u = "control_urb USBIP_DIR_IN 64 ?b"
  have "64 = req_len (request_of (u_setup ?u))" "application_event (request_of (u_setup ?u)) = Some USB_EVENT_GET_DESCRIPTOR"
    by (simp_all add: control_urb_def request_of_def application_event_def REQUEST_TYPE_def STANDARD_REQUEST_def
        USB_SETUP_GET_def REQUEST_DIR_def)
  from control_read_result [OF quiet_idle refl, of ?u 0 64 USB_EVENT_GET_DESCRIPTOR descriptor_app "0x1000" 18 18]
    this descriptor_app_events
  show ?thesis by (auto simp: control_urb_def quiet_server_def)
qed

theorem control_write_result_witness:
  "\<exists>s'. hc_handle_control_urb descriptor_app 0 (quiet_server (control_urb USBIP_DIR_OUT 100 [0x40, 1, 0, 0, 0, 0, 100, 0])) =
      Some (0, s') \<and> idle s'"
proof -
  let ?u = "control_urb USBIP_DIR_OUT 100 [0x40, 1, 0, 0, 0, 0, 100, 0]"
  have "100 = req_len (request_of (u_setup ?u))" "application_event (request_of (u_setup ?u)) = Some USB_EVENT_CTRL_REQUEST"
    by (simp_all add: control_urb_def request_of_def application_event_def REQUEST_TYPE_def STANDARD_REQUEST_def)
  from control_write_result [OF quiet_idle refl, of ?u 0 100 USB_EVENT_CTRL_REQUEST descriptor_app "0x1000"]
    this descriptor_app_events
  show ?thesis by (auto simp: control_urb_def quiet_server_def)
qed

end
