(* ===== verification/Usbip_Server.thy ===== *)
theory Usbip_Server
  imports Usbip_Control
begin

text \<open>
  The server of the USBIP protocol (\<open>mcu/usb-usbip.c\<close>): the circular list of the requests that are not
  complete, the commands a client sends over its connection and the replies, and a round of the
  server's loop. The connection is a stream of bytes in each direction: \<open>recv\<close> gets all the bytes asked
  for unless the connection ends, and \<open>send\<close> succeeds. A new structure comes from \<open>malloc\<close>: its address is an
  argument, and what its data holds before it is written (\<open>junk\<close>).
\<close>

unbundle bit_operations_syntax

section \<open>The list of requests\<close>

definition unlink_urb :: "addr \<Rightarrow> server \<Rightarrow> server" where
  "unlink_urb p s =
     (let s = (if urb_list s = Some p
               then s\<lparr>urb_list := (if urb_next s p = p then None else Some (urb_next s p))\<rparr> else s);
          s = s\<lparr>urb_prev := (urb_prev s)(urb_next s p := urb_prev s p)\<rparr>
      in s\<lparr>urb_next := (urb_next s)(urb_prev s p := urb_next s p)\<rparr>)"

text \<open>A new request goes to the front of the list.\<close>

definition link_urb :: "addr \<Rightarrow> server \<Rightarrow> server" where
  "link_urb p s =
     (case urb_list s of
        None \<Rightarrow> s\<lparr>urb_list := Some p, urb_next := (urb_next s)(p := p), urb_prev := (urb_prev s)(p := p)\<rparr>
      | Some l \<Rightarrow>
          (let s = s\<lparr>urb_next := (urb_next s)(p := l)\<rparr>;
               s = s\<lparr>urb_prev := (urb_prev s)(p := urb_prev s l)\<rparr>;
               s = s\<lparr>urb_next := (urb_next s)(urb_prev s l := p)\<rparr>;
               s = s\<lparr>urb_prev := (urb_prev s)(l := p)\<rparr>
           in s\<lparr>urb_list := Some p\<rparr>))"

definition unlink_urb_ep :: "addr \<Rightarrow> server \<Rightarrow> server" where
  "unlink_urb_ep p s =
     (let dir = (u_dir (urb_at s p) \<noteq> USBIP_DIR_OUT); ep = u_ep (urb_at s p); c = usbc_at dir ep s
      in if uc_urb c = Some p then set_usbc dir ep (c\<lparr>uc_urb := None\<rparr>) s else s)"

section \<open>Messages\<close>

definition net16 :: "u16 \<Rightarrow> u8 list" where
  "net16 w = [ucast (drop_bit 8 w), ucast w]"

definition net32 :: "u32 \<Rightarrow> u8 list" where
  "net32 w = [ucast (drop_bit 24 w), ucast (drop_bit 16 w), ucast (drop_bit 8 w), ucast w]"

text \<open>The word number \<open>i\<close> of a message, in network order.\<close>

definition word_at :: "u8 list \<Rightarrow> nat \<Rightarrow> u32" where
  "word_at b i = push_bit 24 (ucast (b ! (4 * i))) OR push_bit 16 (ucast (b ! (4 * i + 1))) OR
     push_bit 8 (ucast (b ! (4 * i + 2))) OR ucast (b ! (4 * i + 3))"

definition CMD_REQ_LIST :: u32 where "CMD_REQ_LIST = 0x01118005"
definition CMD_REQ_ATTACH :: u32 where "CMD_REQ_ATTACH = 0x01118003"
definition CMD_URB_SUBMIT :: u32 where "CMD_URB_SUBMIT = 0x00000001"
definition CMD_URB_UNLINK :: u32 where "CMD_URB_UNLINK = 0x00000002"
definition REP_URB_SUBMIT :: u32 where "REP_URB_SUBMIT = 0x00000003"
definition REP_URB_UNLINK :: u32 where "REP_URB_UNLINK = 0x00000004"
definition URB_DATA_SIZE :: u32 where "URB_DATA_SIZE = 65535"

text \<open>\<open>struct usbip_msg_head\<close> and \<open>struct usbip_msg_rep\<close>: only the status and the length are not zero.\<close>

definition msg_head :: "u32 \<Rightarrow> u32 \<Rightarrow> u8 list" where
  "msg_head cmd seq = net32 cmd @ net32 seq"

definition msg_rep :: "u32 \<Rightarrow> u32 \<Rightarrow> u8 list" where
  "msg_rep status len = net32 0 @ net32 0 @ net32 0 @ net32 status @ net32 len @ replicate 20 0"

definition send_bytes :: "u8 list \<Rightarrow> server \<Rightarrow> server" where
  "send_bytes b s = s\<lparr>sent := sent s @ b\<rparr>"

definition recv_bytes :: "nat \<Rightarrow> server \<Rightarrow> u8 list \<times> server" where
  "recv_bytes n s = (take n (inp s), s\<lparr>inp := drop n (inp s)\<rparr>)"

section \<open>Submitting a request\<close>

definition usbip_finish_urb :: "addr \<Rightarrow> int \<Rightarrow> server \<Rightarrow> server option" where
  "usbip_finish_urb p r s = do {
     let u = urb_at s p;
     let s = send_bytes (msg_head REP_URB_SUBMIT (u_seq u)) s;
     let s = send_bytes (msg_rep (if r < 0 then word_of_int r else 0) (u_len u)) s;
     s \<leftarrow> (if u_dir u = USBIP_DIR_IN \<and> u_len u \<noteq> 0 then
             (if unat (u_len u) \<le> length (u_data u)
              then Some (send_bytes (take (unat (u_len u)) (u_data u)) s) else None)
           else Some s);
     Some (unlink_urb p s) }"

definition usbip_handle_control_urb :: "(u32 \<Rightarrow> server \<Rightarrow> server) \<Rightarrow> addr \<Rightarrow> server \<Rightarrow> server option" where
  "usbip_handle_control_urb app p s = do {
     (r, s) \<leftarrow> hc_handle_control_urb app p s;
     usbip_finish_urb p r s }"

text \<open>The reply to a request that is refused.\<close>

definition refuse_urb :: "addr \<Rightarrow> int \<Rightarrow> server \<Rightarrow> server" where
  "refuse_urb p r s =
     unlink_urb p (send_bytes (msg_head REP_URB_SUBMIT (u_seq (urb_at s p)) @ msg_rep (word_of_int r) 0) s)"

definition new_urb :: "(nat \<Rightarrow> u8) \<Rightarrow> u32 \<Rightarrow> u8 list \<Rightarrow> urb" where
  "new_urb junk seq b =
     \<lparr>u_remain = ucast (word_at b 4), u_data_p = 0, u_seq = seq, u_devid = word_at b 0, u_dir = word_at b 1,
      u_ep = word_at b 2, u_len = word_at b 4, u_setup = List.map junk [0..<8],
      u_data = List.map junk [0..<unat (word_at b 4)]\<rparr>"

text \<open>
  When the command does not arrive or its length is too large there is no structure yet, and the reply
  reads its sequence number through a null pointer: \<open>None\<close>.
\<close>

definition usbip_handle_urb ::
  "(u32 \<Rightarrow> server \<Rightarrow> server) \<Rightarrow> addr \<Rightarrow> (nat \<Rightarrow> u8) \<Rightarrow> u32 \<Rightarrow> server \<Rightarrow> server option" where
  "usbip_handle_urb app p junk seq s = do {
     let (b, s) = recv_bytes 32 s;
     (if length b \<noteq> 32 \<or> URB_DATA_SIZE < word_at b 4 then None
      else do {
        let s = link_urb p s;
        let s = upd_urb p (\<lambda>_. new_urb junk seq b) s;
        let (b, s) = recv_bytes 8 s;
        (if length b \<noteq> 8 then Some (refuse_urb p (- EINVAL) s)
         else do {
           let s = upd_urb p (\<lambda>u. u\<lparr>u_setup := b\<rparr>) s;
           let u = urb_at s p;
           let (b, s) = (if u_dir u = USBIP_DIR_OUT \<and> u_len u \<noteq> 0 then recv_bytes (unat (u_len u)) s
                         else (u_data u, s));
           (if length b \<noteq> unat (u_len u) then Some (refuse_urb p (- EINVAL) s)
            else do {
              let s = upd_urb p (\<lambda>u. u\<lparr>u_data := b\<rparr>) s;
              (if u_ep u = 0 then usbip_handle_control_urb app p s
               else do {
                 (r, s) \<leftarrow> usbip_handle_data_urb p s;
                 Some (if r = 0 then s else refuse_urb p r s) }) }) }) }) }"

section \<open>The device's data\<close>

definition MY_BUS_ID :: "u8 list" where
  "MY_BUS_ID = [0x31, 0x2d, 0x31] @ replicate 29 0"

text \<open>The string \<open>/sys/devices/pci0000:00/0000:00:01.1/usb1/1-1\<close>.\<close>

definition device_path :: "u8 list" where
  "device_path = List.map (of_nat \<circ> of_char) ''/sys/devices/pci0000:00/0000:00:01.1/usb1/1-1''"

text \<open>
  \<open>issue_get_desc\<close> makes a request of its own, at \<open>p\<close>, for the device descriptor.
\<close>

definition issue_get_desc :: "(u32 \<Rightarrow> server \<Rightarrow> server) \<Rightarrow> addr \<Rightarrow> (nat \<Rightarrow> u8) \<Rightarrow> server \<Rightarrow> server option" where
  "issue_get_desc app p junk s = do {
     let s = s\<lparr>urb_next := (urb_next s)(p := p), urb_prev := (urb_prev s)(p := p)\<rparr>;
     let s = upd_urb p (\<lambda>_. \<lparr>u_remain = 64, u_data_p = 0, u_seq = 0, u_devid = 0, u_dir = USBIP_DIR_IN, u_ep = 0,
        u_len = 64, u_setup = [0x80, 6, 0, 1, 0, 0, 64, 0], u_data = List.map junk [0..<64]\<rparr>) s;
     (_, s) \<leftarrow> hc_handle_control_urb app p s;
     Some s }"

text \<open>
  The conversion of a \<open>char\<close> to an \<open>int\<close>. Whether \<open>char\<close> is signed depends on the platform (it is on x86).
\<close>

definition char_int :: "bool \<Rightarrow> u8 \<Rightarrow> u32" where
  "char_int char_signed c = (if char_signed then scast c else ucast c)"

definition desc16 :: "bool \<Rightarrow> u8 list \<Rightarrow> nat \<Rightarrow> u16" where
  "desc16 char_signed d i =
     ucast (push_bit 8 (char_int char_signed (d ! (i + 1))) OR char_int char_signed (d ! i))"

text \<open>\<open>struct usbip_usb_device\<close>, from the descriptor.\<close>

definition usb_device_bytes :: "bool \<Rightarrow> u8 list \<Rightarrow> u8 list" where
  "usb_device_bytes char_signed d =
     device_path @ replicate (256 - length device_path) 0 @ MY_BUS_ID @
     net32 0 @ net32 0 @ net32 2 @
     net16 (desc16 char_signed d 8) @ net16 (desc16 char_signed d 10) @ net16 (desc16 char_signed d 12) @
     [d ! 4, d ! 5, d ! 6, 0, d ! 17, 0]"

definition refresh_usb_device ::
  "bool \<Rightarrow> (u32 \<Rightarrow> server \<Rightarrow> server) \<Rightarrow> addr \<Rightarrow> (nat \<Rightarrow> u8) \<Rightarrow> server \<Rightarrow> (u8 list \<times> server) option" where
  "refresh_usb_device char_signed app p junk s = do {
     s \<leftarrow> issue_get_desc app p junk s;
     Some (usb_device_bytes char_signed (u_data (urb_at s p)), s) }"

definition attach_device ::
  "bool \<Rightarrow> (u32 \<Rightarrow> server \<Rightarrow> server) \<Rightarrow> addr \<Rightarrow> (nat \<Rightarrow> u8) \<Rightarrow> u8 list \<Rightarrow> server \<Rightarrow>
   (u8 list option \<times> server) option" where
  "attach_device char_signed app p junk busid s =
     (if busid \<noteq> MY_BUS_ID then Some (None, s)
      else do {
        (d, s) \<leftarrow> refresh_usb_device char_signed app p junk s;
        Some (Some d, s) })"

definition usbip_send_reply :: "u8 list \<Rightarrow> bool \<Rightarrow> server \<Rightarrow> server" where
  "usbip_send_reply reply ok s = send_bytes (reply @ net32 (if ok then 0 else 1)) s"

section \<open>Commands\<close>

text \<open>The loops over the list: the request with a given number, and the next one for an endpoint.\<close>

partial_function (option) find_seq :: "u32 \<Rightarrow> addr \<Rightarrow> server \<Rightarrow> addr option option" where
  "find_seq seq q s =
     (if u_seq (urb_at s q) = seq then Some (Some q)
      else if urb_list s = Some (urb_next s q) then Some None
      else find_seq seq (urb_next s q) s)"

partial_function (option) find_next :: "addr \<Rightarrow> addr \<Rightarrow> server \<Rightarrow> addr option option" where
  "find_next p q s =
     (if u_ep (urb_at s q) = u_ep (urb_at s p) \<and> u_dir (urb_at s q) = u_dir (urb_at s p)
      then Some (if q \<noteq> p then Some q else None)
      else if urb_list s = Some q then Some None
      else find_next p (urb_prev s q) s)"

definition usbip_unlink :: "u32 \<Rightarrow> server \<Rightarrow> (bool \<times> server) option" where
  "usbip_unlink seq s =
     (case urb_list s of
        None \<Rightarrow> Some (False, s)
      | Some l \<Rightarrow> do {
          q \<leftarrow> find_seq seq l s;
          (case q of
             None \<Rightarrow> Some (False, s)
           | Some q \<Rightarrow> Some (True, unlink_urb_ep q (unlink_urb q s))) })"

definition usbip_process_cmd ::
  "bool \<Rightarrow> (u32 \<Rightarrow> server \<Rightarrow> server) \<Rightarrow> addr \<Rightarrow> (nat \<Rightarrow> u8) \<Rightarrow> server \<Rightarrow> (int \<times> server) option" where
  "usbip_process_cmd char_signed app p junk s = do {
     let (b, s) = recv_bytes 8 s;
     let cmd = word_at b 0;
     let seq = word_at b 1;
     (if length b \<noteq> 8 then Some (- 1, s)
      else if cmd = CMD_REQ_LIST then
        (if attached s then Some (- 1, s)
         else do {
           (d, s) \<leftarrow> refresh_usb_device char_signed app p junk s;
           let s = usbip_send_reply [0x01, 0x11, 0x00, 0x05] True s;
           Some (1, send_bytes (net32 1 @ d) s) })
      else if cmd = CMD_REQ_ATTACH then
        (if attached s then Some (- 1, s)
         else do {
           let (busid, s) = recv_bytes 32 s;
           (if length busid \<noteq> 32 then Some (- 1, s)
            else do {
              (d, s) \<leftarrow> attach_device char_signed app p junk busid s;
              let s = usbip_send_reply [0x01, 0x11, 0x00, 0x03] (d \<noteq> None) s;
              (case d of
                 None \<Rightarrow> Some (- 1, s)
               | Some d \<Rightarrow> Some (0, (send_bytes d s)\<lparr>attached := True\<rparr>)) }) })
      else if cmd = CMD_URB_SUBMIT then
        (if \<not> attached s then Some (- 1, s)
         else do {
           s \<leftarrow> usbip_handle_urb app p junk seq s;
           Some (0, s) })
      else if cmd = CMD_URB_UNLINK then
        (if \<not> attached s then Some (- 1, s)
         else do {
           let (b, s) = recv_bytes 32 s;
           let (b', s) = recv_bytes 8 s;
           (if length b \<noteq> 32 \<or> length b' \<noteq> 8 then Some (- 1, s)
            else do {
              (found, s) \<leftarrow> usbip_unlink (word_at b 3) s;
              Some (0, send_bytes (msg_head REP_URB_UNLINK seq @
                msg_rep (if found then word_of_int (- ECONNRESET) else 0) 0) s) }) })
      else Some (- 1, s)) }"

section \<open>The server's loop\<close>

text \<open>A data endpoint whose \<open>eventfd\<close> is readable.\<close>

definition usbip_ep_ready :: "bool \<Rightarrow> u32 \<Rightarrow> server \<Rightarrow> server option" where
  "usbip_ep_ready dir ep s =
     (case uc_urb (usbc_at dir ep s) of
        None \<Rightarrow> Some s
      | Some p \<Rightarrow>
          if uc_eventfd (usbc_at dir ep s) = 0 then None
          else do {
            let s = set_usbc dir ep ((usbc_at dir ep s)\<lparr>uc_eventfd := 0\<rparr>) s;
            (r, s) \<leftarrow> hc_handle_data_urb dir ep s;
            (if r \<le> 0 then do {
               found \<leftarrow> find_next p (urb_prev s p) s;
               s \<leftarrow> usbip_finish_urb p r s;
               Some (set_usbc dir ep ((usbc_at dir ep s)\<lparr>uc_urb := found\<rparr>) s) }
             else Some s) })"

text \<open>
  What a round does with the result of \<open>poll\<close>: the command (\<open>cmd\<close>) first, then a request to shut
  down, then the endpoints that are ready. It goes on, waits for another client, or ends.
\<close>

datatype round = Go_on | Again | Break int

fun ready_endpoints :: "(bool \<Rightarrow> u32 \<Rightarrow> bool) \<Rightarrow> u32 list \<Rightarrow> server \<Rightarrow> server option" where
  "ready_endpoints ready [] s = Some s"
| "ready_endpoints ready (i # is) s = do {
     s \<leftarrow> (if ready True i then usbip_ep_ready True i s else Some s);
     s \<leftarrow> (if ready False i then usbip_ep_ready False i s else Some s);
     ready_endpoints ready is s }"

definition usbip_round ::
  "bool \<Rightarrow> (u32 \<Rightarrow> server \<Rightarrow> server) \<Rightarrow> addr \<Rightarrow> (nat \<Rightarrow> u8) \<Rightarrow> bool \<Rightarrow> bool \<Rightarrow> (bool \<Rightarrow> u32 \<Rightarrow> bool) \<Rightarrow>
   server \<Rightarrow> (round \<times> server) option" where
  "usbip_round char_signed app p junk cmd shutdown ready s = do {
     (r, s) \<leftarrow> (if cmd then usbip_process_cmd char_signed app p junk s else Some (0, s));
     (if r < 0 then Some (Break r, s)
      else if r \<noteq> 0 then Some (Again, s)
      else if shutdown then Some (Break 0, s)
      else do {
        s \<leftarrow> ready_endpoints ready [1, 2, 3, 4, 5, 6, 7] s;
        Some (Go_on, s) }) }"

text \<open>When the loop ends, all requests are dropped.\<close>

partial_function (option) drop_urbs :: "server \<Rightarrow> server option" where
  "drop_urbs s =
     (case urb_list s of
        None \<Rightarrow> Some (s\<lparr>attached := False\<rparr>)
      | Some p \<Rightarrow> drop_urbs (unlink_urb_ep p (unlink_urb p s)))"

end
