(* ===== verification/Usbip_Queue.thy ===== *)
theory Usbip_Queue
  imports Usbip_Server
begin

text \<open>
  The requests of the data endpoints are served in the order in which they were submitted. The circular
  list of \<open>mcu/usb-usbip.c\<close> holds the requests of all endpoints, newest first; for each endpoint, \<open>uc_urb\<close> is
  the oldest of its own.
\<close>

section \<open>The circular list\<close>

definition ring :: "server \<Rightarrow> addr list \<Rightarrow> bool" where
  "ring s xs \<longleftrightarrow> (case xs of [] \<Rightarrow> urb_list s = None
     | x # ys \<Rightarrow> urb_list s = Some x \<and> dll (urb_next s) (urb_prev s) x ys)"

lemma ring_Nil: "ring s [] \<longleftrightarrow> urb_list s = None"
  by (simp add: ring_def)

lemma ring_Cons: "ring s (x # ys) \<longleftrightarrow> urb_list s = Some x \<and> dll (urb_next s) (urb_prev s) x ys"
  by (simp add: ring_def)

lemma ring_distinct: "ring s xs \<Longrightarrow> distinct xs"
  by (cases xs) (auto simp: ring_def dll_def)

lemma dll_rotate: "dll n p q (x # xs) \<longleftrightarrow> dll n p x (xs @ [q])"
  by (auto simp: dll_def links_append)

lemma link_urb_ring:
  assumes "ring s xs" "p \<notin> set xs"
  shows "ring (link_urb p s) (p # xs)"
proof (cases xs)
  case Nil
  with assms show ?thesis by (simp add: ring_def link_urb_def dll_def)
next
  case (Cons x ys)
  with assms have d: "dll (urb_next s) (urb_prev s) x ys" and l: "urb_list s = Some x" and p: "p \<notin> insert x (set ys)"
    by (simp_all add: ring_Cons)
  have last: "urb_prev s x = last (x # ys)" using d by (rule dll_prev)
  have "dll ((urb_next s)(p := x, last (x # ys) := p)) ((urb_prev s)(p := last (x # ys), x := p)) x (ys @ p # [])"
    by (rule dll_insert [of "urb_next s" "urb_prev s"]) (use d p in auto)
  then have "dll ((urb_next s)(p := x, last (x # ys) := p)) ((urb_prev s)(p := last (x # ys), x := p)) p (x # ys)"
    by (simp add: dll_rotate)
  moreover have "last (x # ys) \<noteq> p" using p last_in_set [of "x # ys"] by auto
  ultimately show ?thesis
    using l p last Cons by (auto simp: ring_Cons link_urb_def Let_def)
qed

text \<open>The structure that is taken out keeps its own links, which do not matter any more.\<close>

lemma dll_unlink:
  assumes d: "dll n p q (as @ x # bs)"
  shows "dll (n(p x := n x)) (p(n x := p x)) q (as @ bs)"
proof -
  have x: "n x = hd (bs @ [q])" "p x = last (q # as)" using dll_mid [OF d] by simp_all
  have "dll (n(last (q # as) := hd (bs @ [q]), x := x)) (p(hd (bs @ [q]) := last (q # as), x := x)) q (as @ bs)"
    by (rule dll_delete(1) [OF d refl refl])
  moreover have "x \<notin> insert q (set (as @ bs))" using d by (auto simp: dll_def)
  ultimately show ?thesis
    unfolding x by (subst dll_cong [of q "as @ bs" _ "n(last (q # as) := hd (bs @ [q]), x := x)"
        _ "p(hd (bs @ [q]) := last (q # as), x := x)"]) auto
qed

lemma unlink_urb_ring:
  assumes r: "ring s xs" and p: "p \<in> set xs"
  shows "ring (unlink_urb p s) (remove1 p xs)"
proof (cases xs)
  case (Cons x ys)
  then have d: "dll (urb_next s) (urb_prev s) x ys" and l: "urb_list s = Some x" using r by (simp_all add: ring_Cons)
  show ?thesis
  proof (cases "p = x")
    case False
    then obtain as bs where ys: "ys = as @ p # bs" "p \<notin> set as" using p Cons split_list_first [of p ys] by auto
    with dll_unlink [of "urb_next s" "urb_prev s" x as p bs] d l False show ?thesis
      by (auto simp: Cons ring_Cons unlink_urb_def remove1_append Let_def)
  next
    case True
    show ?thesis
    proof (cases ys)
      case Nil
      with d True l Cons show ?thesis by (simp add: ring_def unlink_urb_def dll_def Let_def)
    next
      case (Cons y zs)
      then have "dll (urb_next s) (urb_prev s) y (zs @ x # [])" using d by (simp add: dll_rotate)
      from dll_unlink [OF this] dll_next [OF d] d l True Cons \<open>xs = x # ys\<close> show ?thesis
        by (auto simp: ring_Cons unlink_urb_def dll_def Let_def)
    qed
  qed
qed (use p in simp)

text \<open>The walk from a request towards the newer ones.\<close>

lemma ring_prev: "ring s (as @ x # y # bs) \<Longrightarrow> urb_prev s y = x"
proof (cases as)
  case (Cons z zs)
  assume "ring s (as @ x # y # bs)"
  then have "dll (urb_next s) (urb_prev s) z ((zs @ [x]) @ y # bs)" by (simp add: Cons ring_Cons)
  from dll_mid [OF this] show ?thesis by simp
qed (auto simp: ring_Cons dll_def)

lemma ring_prev_last:
  assumes "ring s (as @ y # bs)" "as \<noteq> []"
  shows "urb_prev s y = last as"
proof (rule ring_prev)
  show "ring s (butlast as @ last as # y # bs)"
    using assms append_butlast_last_id [OF assms(2)] by (metis append.assoc append_Cons append_Nil)
qed

lemma ring_prev_first: "ring s (x # ys) \<Longrightarrow> urb_prev s x = last (x # ys)"
  unfolding ring_Cons by (blast dest: dll_prev)

lemma ring_list: "ring s (as @ x # bs) \<Longrightarrow> urb_list s = Some x \<longleftrightarrow> as = []"
  using ring_distinct [of s "as @ x # bs"] by (cases as) (auto simp: ring_Cons)

definition same_ep :: "server \<Rightarrow> addr \<Rightarrow> addr \<Rightarrow> bool" where
  "same_ep s p q \<longleftrightarrow> u_ep (urb_at s q) = u_ep (urb_at s p) \<and> u_dir (urb_at s q) = u_dir (urb_at s p)"

lemma find_next_step:
  "find_next p q s = (if same_ep s p q then Some (if q \<noteq> p then Some q else None)
     else if urb_list s = Some q then Some None else find_next p (urb_prev s q) s)"
  by (subst find_next.simps) (simp add: same_ep_def)

lemma find_next_walk:
  assumes "ring s (as @ bs)" "as \<noteq> []" "p \<notin> set as"
  shows "find_next p (last as) s = Some (List.find (same_ep s p) (rev as))"
  using assms
proof (induction as arbitrary: bs rule: rev_induct)
  case (snoc q as)
  show ?case
  proof (cases "same_ep s p q")
    case True
    with snoc.prems(3) show ?thesis by (auto simp: find_next_step [of p q])
  next
    case False
    show ?thesis
    proof (cases as)
      case Nil
      with False snoc.prems(1,3) show ?thesis by (auto simp: find_next_step [of p q] ring_Cons)
    next
      case Cons
      then have ne: "as \<noteq> []" by simp
      then have "urb_prev s q = last as" using ring_prev_last [of s as q bs] snoc.prems(1) by simp
      moreover have "urb_list s \<noteq> Some q" using ring_list [of s as q bs] snoc.prems(1) ne by simp
      moreover have "find_next p (last as) s = Some (List.find (same_ep s p) (rev as))"
        using snoc.IH [of "q # bs"] snoc.prems(1,3) ne by simp
      ultimately show ?thesis using False by (simp add: find_next_step [of p q])
    qed
  qed
qed simp

lemma find_next_round:
  assumes "ring s (p # cs @ ds)" "\<forall>q \<in> set cs. \<not> same_ep s p q"
  shows "find_next p (last (p # cs)) s = Some None"
  using assms
proof (induction cs arbitrary: ds rule: rev_induct)
  case Nil
  then show ?case by (simp add: find_next_step [of p p] same_ep_def)
next
  case (snoc q cs)
  have "urb_prev s q = last (p # cs)" by (rule ring_prev_last [of s "p # cs" q ds]) (use snoc.prems(1) in simp_all)
  moreover have "urb_list s \<noteq> Some q" using ring_list [of s "p # cs" q ds] snoc.prems(1) by simp
  moreover have "find_next p (last (p # cs)) s = Some None"
    using snoc.IH [of "q # ds"] snoc.prems by simp
  ultimately show ?case using snoc.prems(2) by (simp add: find_next_step [of p q])
qed

lemma find_next_oldest:
  assumes r: "ring s (as @ p # bs)" and old: "\<forall>q \<in> set bs. \<not> same_ep s p q"
  shows "find_next p (urb_prev s p) s = Some (List.find (same_ep s p) (rev as))"
proof (cases as)
  case Nil
  with r have "urb_prev s p = last (p # bs)" using ring_prev_first [of s p bs] by simp
  with find_next_round [of s p bs "[]"] r old Nil show ?thesis by simp
next
  case Cons
  then have ne: "as \<noteq> []" by simp
  then have "urb_prev s p = last as" by (rule ring_prev_last [OF r])
  with find_next_walk [OF r ne, of p] ring_distinct [OF r] show ?thesis by auto
qed

section \<open>One queue for each endpoint\<close>

definition for_ep :: "server \<Rightarrow> bool \<Rightarrow> u32 \<Rightarrow> addr \<Rightarrow> bool" where
  "for_ep s dir ep p \<longleftrightarrow> (u_dir (urb_at s p) \<noteq> USBIP_DIR_OUT) = dir \<and> u_ep (urb_at s p) = ep"

text \<open>The requests of an endpoint, oldest first; \<open>xs\<close> is the whole list, newest first.\<close>

definition fifo :: "server \<Rightarrow> addr list \<Rightarrow> bool \<Rightarrow> u32 \<Rightarrow> addr list" where
  "fifo s xs dir ep = rev (filter (for_ep s dir ep) xs)"

definition first_of :: "'a list \<Rightarrow> 'a option" where
  "first_of xs = (case xs of [] \<Rightarrow> None | x # _ \<Rightarrow> Some x)"

lemma first_of_simps [simp]: "first_of [] = None" "first_of (x # xs) = Some x"
  by (simp_all add: first_of_def)

lemma first_of_append: "first_of (xs @ ys) = (case first_of xs of None \<Rightarrow> first_of ys | Some x \<Rightarrow> Some x)"
  by (cases xs) auto

lemma find_first_of: "List.find P xs = first_of (filter P xs)"
  by (induction xs) auto

definition queues_ok :: "server \<Rightarrow> addr list \<Rightarrow> bool" where
  "queues_ok s xs \<longleftrightarrow> ring s xs \<and> (\<forall>p \<in> set xs. u_dir (urb_at s p) \<in> {USBIP_DIR_OUT, USBIP_DIR_IN}) \<and>
     (\<forall>dir ep. uc_urb (usbc_at dir ep s) = first_of (fifo s xs dir ep))"

text \<open>What the transactions of a data endpoint leave alone.\<close>

definition kept :: "server \<Rightarrow> server \<Rightarrow> bool" where
  "kept s s' \<longleftrightarrow> urb_next s' = urb_next s \<and> urb_prev s' = urb_prev s \<and> urb_list s' = urb_list s \<and> sent s' = sent s \<and>
     (\<forall>q. u_dir (urb_at s' q) = u_dir (urb_at s q) \<and> u_ep (urb_at s' q) = u_ep (urb_at s q) \<and>
        u_seq (urb_at s' q) = u_seq (urb_at s q)) \<and>
     (\<forall>ep. uc_urb (ep_in s' ep) = uc_urb (ep_in s ep) \<and> uc_urb (ep_out s' ep) = uc_urb (ep_out s ep))"

lemma kept_refl: "kept s s"
  by (simp add: kept_def)

lemma kept_step:
  "kept s (upd_urb p f s') \<longleftrightarrow> kept s s'" if "\<And>u. u_dir (f u) = u_dir u \<and> u_ep (f u) = u_ep u \<and> u_seq (f u) = u_seq u"
  using that by (auto simp: kept_def upd_urb_def usbc_at_def)

lemma kept_set_usbc:
  "uc_urb c = uc_urb (usbc_at dir ep s') \<Longrightarrow> kept s (set_usbc dir ep c s') \<longleftrightarrow> kept s s'"
  by (auto simp: kept_def set_usbc_def usbc_at_def)

lemma kept_mem: "kept s (s'\<lparr>ip_mem := m\<rparr>) \<longleftrightarrow> kept s s'"
  by (simp add: kept_def usbc_at_def)

lemma kept_notify: "notify_device i e d s' = Some s'' \<Longrightarrow> kept s s' \<Longrightarrow> kept s s''"
  by (auto simp: notify_device_def kept_def usbc_at_def split: if_splits)

lemma kept_store: "urb_store p bs s' = Some s'' \<Longrightarrow> kept s s' \<Longrightarrow> kept s s''"
  by (auto simp: urb_store_def Let_def kept_step split: if_splits)

lemma kept_write: "write_data_transaction dir ep p k s = Some (r, s') \<Longrightarrow> kept s s'"
  by (auto simp: write_data_transaction_def Let_def kept_set_usbc kept_mem kept_refl usbc_at_def
      split: if_splits bind_splits elim!: kept_notify)

lemma kept_read: "read_data_transaction dir ep p k s = Some (r, s') \<Longrightarrow> kept s s'"
  by (auto simp: read_data_transaction_def Let_def kept_set_usbc kept_refl
      split: bind_splits elim!: kept_notify kept_store)

lemma kept_data_urb: "hc_handle_data_urb dir ep s = Some (r, s') \<Longrightarrow> kept s s'"
  by (auto simp: hc_handle_data_urb_def Let_def kept_step split: if_splits bind_splits dest!: kept_write kept_read)

lemma kept_fifo: "kept s s' \<Longrightarrow> fifo s' xs = fifo s xs"
proof -
  assume "kept s s'"
  then have "for_ep s' = for_ep s"
    by (auto simp: kept_def for_ep_def fun_eq_iff)
  then show ?thesis by (intro ext) (simp add: fifo_def)
qed

lemma kept_ring: "kept s s' \<Longrightarrow> ring s' xs = ring s xs"
  by (simp add: kept_def ring_def split: list.split)

lemma kept_ok: "kept s s' \<Longrightarrow> queues_ok s xs \<Longrightarrow> queues_ok s' xs"
  by (auto simp: queues_ok_def kept_ring kept_fifo) (auto simp: kept_def usbc_at_def split: if_splits)

section \<open>Submitting and completing\<close>

lemma fifo_Cons: "fifo s (p # xs) dir ep = fifo s xs dir ep @ (if for_ep s dir ep p then [p] else [])"
  by (simp add: fifo_def)

lemma fifo_split:
  "fifo s (as @ p # bs) dir ep =
   fifo s bs dir ep @ (if for_ep s dir ep p then [p] else []) @ fifo s as dir ep"
  by (simp add: fifo_def)

lemma fifo_cong:
  assumes "\<And>q. q \<in> set xs \<Longrightarrow> urb_at s' q = urb_at s q"
  shows "fifo s' xs dir ep = fifo s xs dir ep"
proof -
  have "filter (for_ep s' dir ep) xs = filter (for_ep s dir ep) xs"
    by (rule filter_cong [OF refl]) (simp add: for_ep_def assms)
  then show ?thesis by (simp add: fifo_def)
qed

lemma usbc_set: "usbc_at d e (set_usbc d' e' c s) = (if d = d' \<and> e = e' then c else usbc_at d e s)"
  by (auto simp: usbc_at_def set_usbc_def)

text \<open>A new request, at the front of the list with its fields set.\<close>

lemma new_request:
  assumes ok: "queues_ok s xs" and p: "p \<notin> set xs"
    and s1: "s1 = upd_urb p (\<lambda>_. u) (link_urb p s)"
  shows "ring s1 (p # xs)" "fifo s1 xs dir ep = fifo s xs dir ep" "usbc_at dir ep s1 = usbc_at dir ep s"
    "urb_at s1 p = u" "q \<in> set xs \<Longrightarrow> urb_at s1 q = urb_at s q" "sent s1 = sent s"
proof -
  have l: "urb_at (link_urb p s) = urb_at s" "ep_in (link_urb p s) = ep_in s" "ep_out (link_urb p s) = ep_out s"
    "sent (link_urb p s) = sent s"
    by (simp_all add: link_urb_def Let_def split: option.split)
  have "ring (link_urb p s) (p # xs)" using ok p by (auto simp: queues_ok_def intro: link_urb_ring)
  then show "ring s1 (p # xs)" by (simp add: s1 upd_urb_def ring_Cons)
  show at: "q \<in> set xs \<Longrightarrow> urb_at s1 q = urb_at s q" for q using p l by (auto simp: s1 upd_urb_def)
  then show "fifo s1 xs dir ep = fifo s xs dir ep" by (rule fifo_cong)
  show "usbc_at dir ep s1 = usbc_at dir ep s" "urb_at s1 p = u" "sent s1 = sent s"
    using l by (simp_all add: s1 upd_urb_def usbc_at_def)
qed

lemma submitted:
  assumes ok: "queues_ok s xs" and p: "p \<notin> set xs" and u: "u_dir u \<in> {USBIP_DIR_OUT, USBIP_DIR_IN}"
    and s1: "s1 = upd_urb p (\<lambda>_. u) (link_urb p s)" and h: "usbip_handle_data_urb p s1 = Some (0, s')"
  shows "queues_ok s' (p # xs)"
    and "fifo s' (p # xs) dir ep =
      fifo s xs dir ep @ (if dir = (u_dir u \<noteq> USBIP_DIR_OUT) \<and> ep = u_ep u then [p] else [])"
    and "urb_at s' p = u" and "q \<in> set xs \<Longrightarrow> urb_at s' q = urb_at s q"
proof -
  note n = new_request [OF ok p s1]
  let ?d = "u_dir u \<noteq> USBIP_DIR_OUT" and ?c = "usbc_at (u_dir u \<noteq> USBIP_DIR_OUT) (u_ep u) s1"
  have f: "for_ep s1 d e p \<longleftrightarrow> d = ?d \<and> e = u_ep u" for d e by (auto simp: for_ep_def n(4))
  have s': "s' = (if uc_urb ?c = None then set_usbc ?d (u_ep u) (?c\<lparr>uc_urb := Some p\<rparr>) s1 else s1)"
    using h by (auto simp: usbip_handle_data_urb_def n(4) EPIPE_def Let_def split: if_splits)
  have at: "urb_at s' = urb_at s1" "urb_next s' = urb_next s1" "urb_prev s' = urb_prev s1" "urb_list s' = urb_list s1"
    by (simp_all add: s' set_usbc_def)
  then show "urb_at s' p = u" "q \<in> set xs \<Longrightarrow> urb_at s' q = urb_at s q" using n(4,5) by simp_all
  have fi: "fifo s' (p # xs) d e = fifo s xs d e @ (if d = ?d \<and> e = u_ep u then [p] else [])" for d e
  proof -
    have "fifo s' (p # xs) d e = fifo s1 (p # xs) d e" by (rule fifo_cong) (simp add: at)
    then show ?thesis by (simp add: fifo_Cons n(2) f)
  qed
  then show "fifo s' (p # xs) dir ep =
      fifo s xs dir ep @ (if dir = ?d \<and> ep = u_ep u then [p] else [])" .
  have uc: "uc_urb (usbc_at d e s') = first_of (fifo s xs d e @ (if d = ?d \<and> e = u_ep u then [p] else []))" for d e
  proof -
    have base: "uc_urb (usbc_at d e s1) = first_of (fifo s xs d e)"
      using ok n(3) [of d e] by (simp add: queues_ok_def)
    show ?thesis
    proof (cases "d = ?d \<and> e = u_ep u")
      case True
      with base show ?thesis by (simp add: s' first_of_append usbc_set split: option.split)
    next
      case False
      have "usbc_at d e s' = usbc_at d e s1" unfolding s' using False by (simp only: usbc_set if_False split: if_split) simp
      moreover have "fifo s xs d e @ (if d = ?d \<and> e = u_ep u then [p] else []) = fifo s xs d e"
        by (simp only: if_not_P [OF False] append_Nil2)
      ultimately show ?thesis using base by (simp only:)
    qed
  qed
  have "ring s' (p # xs)" using n(1) at by (simp add: ring_Cons)
  moreover have "\<forall>q \<in> set (p # xs). u_dir (urb_at s' q) \<in> {USBIP_DIR_OUT, USBIP_DIR_IN}"
    using ok u n(4,5) by (auto simp: at queues_ok_def)
  ultimately show "queues_ok s' (p # xs)" using uc fi by (simp add: queues_ok_def)
qed

text \<open>The oldest request of an endpoint, in the list.\<close>

lemma fifo_hd_split:
  assumes "fifo s xs dir ep = p # rest"
  obtains as bs where "xs = as @ p # bs" "for_ep s dir ep p" "\<forall>q \<in> set bs. \<not> for_ep s dir ep q"
    "fifo s as dir ep = rest"
proof -
  from assms have "filter (for_ep s dir ep) (rev xs) = p # rest" by (simp add: fifo_def rev_filter)
  then obtain us vs where x: "rev xs = us @ p # vs" and u: "\<forall>q \<in> set us. \<not> for_ep s dir ep q" and p: "for_ep s dir ep p"
    and v: "rest = filter (for_ep s dir ep) vs"
    by (auto simp: filter_eq_Cons_iff)
  from x have "xs = rev vs @ p # rev us" by (simp add: rev_swap)
  moreover have "fifo s (rev vs) dir ep = rest" by (simp add: fifo_def v rev_filter)
  ultimately show thesis using that [of "rev vs" "rev us"] u p by simp
qed

text \<open>The reply to a request.\<close>

definition reply_to :: "u32 \<Rightarrow> u8 list \<Rightarrow> bool" where
  "reply_to seq bs \<longleftrightarrow> (\<exists>status len d. bs = msg_head REP_URB_SUBMIT seq @ msg_rep status len @ d \<and>
     (d = [] \<or> length d = unat len))"

lemma reply_toI:
  "d = [] \<or> length d = unat len \<Longrightarrow> reply_to seq (msg_head REP_URB_SUBMIT seq @ msg_rep status len @ d)"
  by (auto simp: reply_to_def)

lemma finish_urb:
  assumes "usbip_finish_urb p r s = Some s'"
  shows "\<exists>bs. reply_to (u_seq (urb_at s p)) bs \<and> s' = unlink_urb p (s\<lparr>sent := sent s @ bs\<rparr>)"
proof -
  let ?u = "urb_at s p"
  let ?d = "if u_dir ?u = USBIP_DIR_IN \<and> u_len ?u \<noteq> 0 then take (unat (u_len ?u)) (u_data ?u) else []"
  let ?r = "msg_head REP_URB_SUBMIT (u_seq ?u) @ msg_rep (if r < 0 then word_of_int r else 0) (u_len ?u) @ ?d"
  have "s' = unlink_urb p (s\<lparr>sent := sent s @ ?r\<rparr>)" "?d = [] \<or> length ?d = unat (u_len ?u)"
    using assms by (auto simp: usbip_finish_urb_def Let_def send_bytes_def split: if_splits)
  then show ?thesis using reply_toI [of ?d "u_len ?u"] by blast
qed

lemma unlink_urb_keeps:
  "urb_at (unlink_urb p s) = urb_at s" "ep_in (unlink_urb p s) = ep_in s" "ep_out (unlink_urb p s) = ep_out s"
  "sent (unlink_urb p s) = sent s"
  by (simp_all add: unlink_urb_def Let_def)

lemma ring_cong:
  "urb_next s' = urb_next s \<Longrightarrow> urb_prev s' = urb_prev s \<Longrightarrow> urb_list s' = urb_list s \<Longrightarrow> ring s' xs = ring s xs"
  by (simp only: ring_def)

lemma ring_set_usbc: "ring (set_usbc dir ep c s) xs = ring s xs"
  by (rule ring_cong) (simp_all add: set_usbc_def)

lemma ring_sent: "ring (s\<lparr>sent := b\<rparr>) xs = ring s xs"
  by (rule ring_cong) simp_all

text \<open>Taking the oldest request of an endpoint out of the list.\<close>

lemma remove_oldest:
  assumes ok: "queues_ok s xs" and f: "fifo s xs dir ep = p # rest"
    and s': "s' = set_usbc dir ep (c\<lparr>uc_urb := first_of rest\<rparr>) (unlink_urb p (s\<lparr>sent := b\<rparr>))"
  shows "queues_ok s' (remove1 p xs)"
    and "fifo s' (remove1 p xs) d e = (if d = dir \<and> e = ep then rest else fifo s xs d e)"
proof -
  from f obtain as bs where x: "xs = as @ p # bs" and p: "for_ep s dir ep p"
    and old: "\<forall>q \<in> set bs. \<not> for_ep s dir ep q" and rest: "fifo s as dir ep = rest"
    by (rule fifo_hd_split)
  have r: "ring s xs" using ok by (simp add: queues_ok_def)
  have np: "p \<notin> set as" using ring_distinct [OF r] x by simp
  then have rm: "remove1 p xs = as @ bs" by (simp add: x remove1_append)
  have at: "urb_at s' = urb_at s" by (simp add: s' set_usbc_def unlink_urb_keeps)
  have none: "fifo s bs dir ep = []" using old by (simp add: fifo_def)
  have fi: "fifo s' (remove1 p xs) d e = (if d = dir \<and> e = ep then rest else fifo s xs d e)" for d e
  proof -
    have "fifo s' (remove1 p xs) d e = fifo s (as @ bs) d e" unfolding rm by (rule fifo_cong) (simp add: at)
    also have "\<dots> = fifo s bs d e @ fifo s as d e" by (simp add: fifo_def)
    finally have "fifo s' (remove1 p xs) d e = fifo s bs d e @ fifo s as d e" .
    moreover have "\<not> (d = dir \<and> e = ep) \<Longrightarrow> \<not> for_ep s d e p" using p by (auto simp: for_ep_def)
    ultimately show ?thesis by (auto simp: none rest x fifo_split)
  qed
  then show "fifo s' (remove1 p xs) d e = (if d = dir \<and> e = ep then rest else fifo s xs d e)" .
  have "ring (unlink_urb p (s\<lparr>sent := b\<rparr>)) (remove1 p xs)"
    by (rule unlink_urb_ring) (use r x in \<open>simp_all add: ring_sent\<close>)
  then have "ring s' (remove1 p xs)" by (simp add: s' ring_set_usbc)
  moreover have "\<forall>q \<in> set (remove1 p xs). u_dir (urb_at s' q) \<in> {USBIP_DIR_OUT, USBIP_DIR_IN}"
    using ok set_remove1_subset [of p xs] by (auto simp: at queues_ok_def)
  moreover have "uc_urb (usbc_at d e s') = first_of (if d = dir \<and> e = ep then rest else fifo s xs d e)" for d e
  proof -
    have "usbc_at d e (unlink_urb p (s\<lparr>sent := b\<rparr>)) = usbc_at d e s" by (simp add: usbc_at_def unlink_urb_keeps)
    moreover have "uc_urb (usbc_at d e s) = first_of (fifo s xs d e)" using ok by (simp add: queues_ok_def)
    ultimately show ?thesis by (auto simp: s' usbc_set)
  qed
  ultimately show "queues_ok s' (remove1 p xs)" using fi by (simp add: queues_ok_def)
qed

text \<open>An endpoint that is ready does nothing, goes on with its oldest request, or completes it.\<close>

lemma same_ep_for_ep:
  assumes ok: "queues_ok s xs" and p: "p \<in> set xs" "for_ep s dir ep p" and q: "q \<in> set xs"
  shows "same_ep s p q \<longleftrightarrow> for_ep s dir ep q"
proof -
  have "u_dir (urb_at s p) \<in> {USBIP_DIR_OUT, USBIP_DIR_IN}" "u_dir (urb_at s q) \<in> {USBIP_DIR_OUT, USBIP_DIR_IN}"
    using ok p(1) q by (simp_all add: queues_ok_def)
  with p(2) show ?thesis by (auto simp: same_ep_def for_ep_def)
qed

lemma next_request:
  assumes ok: "queues_ok s xs" and f: "fifo s xs dir ep = p # rest"
  shows "find_next p (urb_prev s p) s = Some (first_of rest)"
proof -
  from f obtain as bs where x: "xs = as @ p # bs" and p: "for_ep s dir ep p"
    and old: "\<forall>q \<in> set bs. \<not> for_ep s dir ep q" and rest: "fifo s as dir ep = rest"
    by (rule fifo_hd_split)
  have same: "q \<in> set xs \<Longrightarrow> same_ep s p q = for_ep s dir ep q" for q
    by (rule same_ep_for_ep [OF ok _ p]) (simp add: x)
  have "ring s (as @ p # bs)" using ok x by (simp add: queues_ok_def)
  moreover have "\<forall>q \<in> set bs. \<not> same_ep s p q" using old same x by simp
  ultimately have "find_next p (urb_prev s p) s = Some (first_of (filter (same_ep s p) (rev as)))"
    by (simp add: find_next_oldest find_first_of)
  also have "filter (same_ep s p) (rev as) = filter (for_ep s dir ep) (rev as)"
    by (rule filter_cong [OF refl]) (simp add: same x)
  also have "\<dots> = rest" using rest by (simp add: fifo_def rev_filter)
  finally show ?thesis .
qed

lemma completed:
  assumes ok: "queues_ok s xs" and h: "usbip_ep_ready dir ep s = Some s'"
  shows "(\<forall>q. u_seq (urb_at s' q) = u_seq (urb_at s q)) \<and>
    (queues_ok s' xs \<and> sent s' = sent s \<and> fifo s' xs = fifo s xs \<or>
    (\<exists>p rest bs. uc_urb (usbc_at dir ep s) = Some p \<and> fifo s xs dir ep = p # rest \<and> queues_ok s' (remove1 p xs) \<and>
       sent s' = sent s @ bs \<and> reply_to (u_seq (urb_at s p)) bs \<and>
       (\<forall>d e. fifo s' (remove1 p xs) d e = (if d = dir \<and> e = ep then rest else fifo s xs d e))))"
proof (cases "uc_urb (usbc_at dir ep s)")
  case None
  with h ok show ?thesis by (simp add: usbip_ep_ready_def)
next
  case (Some p)
  then obtain rest where f: "fifo s xs dir ep = p # rest"
    using ok by (auto simp: queues_ok_def first_of_def split: list.splits)
  let ?s0 = "set_usbc dir ep ((usbc_at dir ep s)\<lparr>uc_eventfd := 0\<rparr>) s"
  from h Some obtain r s1 where d: "hc_handle_data_urb dir ep ?s0 = Some (r, s1)"
    and more: "(if r \<le> 0 then do {
               found \<leftarrow> find_next p (urb_prev s1 p) s1;
               s \<leftarrow> usbip_finish_urb p r s1;
               Some (set_usbc dir ep ((usbc_at dir ep s)\<lparr>uc_urb := found\<rparr>) s) }
             else Some s1) = Some s'"
    by (auto simp: usbip_ep_ready_def Let_def split: if_splits bind_splits)
  have "kept ?s0 s1" by (rule kept_data_urb [OF d])
  moreover have "kept s ?s0" by (simp add: kept_set_usbc kept_refl)
  ultimately have k: "kept s s1" by (auto simp: kept_def)
  then have ok1: "queues_ok s1 xs" and f1: "fifo s1 xs = fifo s xs" and t1: "sent s1 = sent s"
    and q1: "u_seq (urb_at s1 q) = u_seq (urb_at s q)" for q
    using kept_ok [OF k ok] kept_fifo [OF k] k by (simp_all add: kept_def)
  show ?thesis
  proof (cases "r \<le> 0")
    case False
    with more ok1 f1 t1 q1 show ?thesis by simp
  next
    case True
    have f': "fifo s1 xs dir ep = p # rest" using f f1 by simp
    from True more next_request [OF ok1 f'] obtain s2 where fin: "usbip_finish_urb p r s1 = Some s2"
      and s': "s' = set_usbc dir ep ((usbc_at dir ep s2)\<lparr>uc_urb := first_of rest\<rparr>) s2"
      by (auto split: bind_splits)
    from finish_urb [OF fin] obtain bs where bs: "reply_to (u_seq (urb_at s1 p)) bs"
      and s2: "s2 = unlink_urb p (s1\<lparr>sent := sent s1 @ bs\<rparr>)" by blast
    note rem = remove_oldest [OF ok1 f' s' [unfolded s2]]
    have "sent s' = sent s @ bs" using s' s2 t1 by (simp add: set_usbc_def unlink_urb_keeps)
    moreover have "reply_to (u_seq (urb_at s p)) bs" using bs q1 by simp
    moreover have "urb_at s' = urb_at s1" using s' s2 by (simp add: set_usbc_def unlink_urb_keeps)
    ultimately show ?thesis using rem f f1 q1 Some by auto
  qed
qed

section \<open>What a control request leaves alone\<close>

lemma kept_trans: "kept s s' \<Longrightarrow> kept s' s'' \<Longrightarrow> kept s s''"
  by (simp add: kept_def)

lemma kept_fields [simp]:
  "kept s (s'\<lparr>usbc_intr := a\<rparr>) \<longleftrightarrow> kept s s'" "kept s (s'\<lparr>ip_req := b\<rparr>) \<longleftrightarrow> kept s s'"
  "kept s (s'\<lparr>ip_data := c\<rparr>) \<longleftrightarrow> kept s s'" "kept s (s'\<lparr>ip_state := d\<rparr>) \<longleftrightarrow> kept s s'"
  "kept s (s'\<lparr>ip_feature := e\<rparr>) \<longleftrightarrow> kept s s'" "kept s (s'\<lparr>ip_mem := m\<rparr>) \<longleftrightarrow> kept s s'"
  "kept s (s'\<lparr>inp := i\<rparr>) \<longleftrightarrow> kept s s'"
  by (simp_all add: kept_def)

lemma kept_set_ep0: "uc_urb c = uc_urb (usbc_ep0 s') \<Longrightarrow> kept s (set_ep0 c s') \<longleftrightarrow> kept s s'"
  by (auto simp: kept_def set_ep0_def)

lemma kept_offer [simp]: "kept s (ep0_offer b n s') \<longleftrightarrow> kept s s'" "kept s (ep0_stall s') \<longleftrightarrow> kept s s'"
  by (simp_all add: ep0_offer_def ep0_stall_def kept_set_ep0 notify_hostcontroller_def)

lemma kept_send [simp]:
  "kept s (snd (usb_lld_ctrl_send_ip b n s')) \<longleftrightarrow> kept s s'" "kept s (snd (usb_lld_ctrl_recv_ip b n s')) \<longleftrightarrow> kept s s'"
  "kept s (snd (usb_lld_ctrl_ack_ip s')) \<longleftrightarrow> kept s s'" "kept s (usb_lld_ctrl_error_ip s') \<longleftrightarrow> kept s s'"
  by (simp_all add: usb_lld_ctrl_send_ip_def usb_lld_ctrl_recv_ip_def usb_lld_ctrl_ack_ip_def usb_lld_ctrl_error_ip_def
      Let_def split: prod.split)

lemma kept_set_ep_state: "kept s (set_ep_state dir ep st s') \<longleftrightarrow> kept s s'"
  by (auto simp: kept_def set_ep_state_def)

lemma kept_send_status: "send_status_ip w s' = Some r \<Longrightarrow> kept s s' \<Longrightarrow> kept s (snd r)"
  by (auto simp: send_status_ip_def set_mem16_ip_def simp del: split_paired_All)

lemma kept_get_status: "std_get_status_ip s' = Some r \<Longrightarrow> kept s s' \<Longrightarrow> kept s (snd r)"
  by (auto simp: std_get_status_ip_def Let_def split: if_splits recipient.splits elim: kept_send_status)

lemma kept_feature: "feature_request f st e1 e2 s' = Some r \<Longrightarrow> kept s s' \<Longrightarrow> kept s (snd r)"
  by (auto simp: feature_request_def kept_set_ep_state Let_def split: if_splits recipient.splits)

lemma kept_std_others:
  "std_set_address_ip s' = Some r \<Longrightarrow> kept s s' \<Longrightarrow> kept s (snd r)"
  "std_get_descriptor_ip s' = Some r \<Longrightarrow> kept s s' \<Longrightarrow> kept s (snd r)"
  "std_get_configuration_ip s' = Some r \<Longrightarrow> kept s s' \<Longrightarrow> kept s (snd r)"
  "std_set_configuration_ip s' = Some r \<Longrightarrow> kept s s' \<Longrightarrow> kept s (snd r)"
  "std_get_interface_ip s' = Some r \<Longrightarrow> kept s s' \<Longrightarrow> kept s (snd r)"
  "std_set_interface_ip s' = Some r \<Longrightarrow> kept s s' \<Longrightarrow> kept s (snd r)"
  by (auto simp: std_set_address_ip_def std_get_descriptor_ip_def std_get_configuration_ip_def std_set_configuration_ip_def 
    std_get_interface_ip_def std_set_interface_ip_def Let_def split: if_splits)

lemma kept_std_request: "std_request_ip n s' = Some r \<Longrightarrow> kept s s' \<Longrightarrow> kept s (snd r)"
  unfolding std_request_ip_def std_clear_feature_ip_def std_set_feature_ip_def
  by (auto split: if_splits elim: kept_get_status kept_feature kept_std_others)

lemma kept_setup0: "kept s s' \<Longrightarrow> kept s (snd (handle_setup0_ip s'))"
  by (auto simp: handle_setup0_ip_def Let_def split: option.split dest: kept_std_request [where s = s])

lemma kept_in0: "kept s s' \<Longrightarrow> kept s (snd (handle_in0_ip s'))"
  by (simp add: handle_in0_ip_def handle_datastage_in_ip_def Let_def)

lemma kept_out0: "kept s s' \<Longrightarrow> kept s (handle_out0_ip s')"
  by (simp add: handle_out0_ip_def handle_datastage_out_ip_def Let_def)

lemma kept_transfer: "kept s s' \<Longrightarrow> kept s (snd (usb_handle_transfer_ip dir n s'))"
  by (simp add: usb_handle_transfer_ip_def split_def Let_def kept_in0 kept_out0)

lemma kept_handler: "kept s s' \<Longrightarrow> kept s (snd (usb_lld_event_handler_ip s'))"
  by (simp add: usb_lld_event_handler_ip_def split_def Let_def kept_setup0 kept_transfer split: usb_intr.split)

text \<open>The application does not touch the lists of requests, nor the connection.\<close>

definition stays_off :: "(u32 \<Rightarrow> server \<Rightarrow> server) \<Rightarrow> bool" where
  "stays_off app \<longleftrightarrow> (\<forall>ev s. kept s (app ev s))"

lemma kept_turn: "stays_off app \<Longrightarrow> kept s s' \<Longrightarrow> kept s (device_turn app s')"
  using kept_handler [of s s'] kept_trans by (auto simp: device_turn_def stays_off_def split_def Let_def)

lemma kept_wait: "wait_ep0 app s' = Some s'' \<Longrightarrow> stays_off app \<Longrightarrow> kept s s' \<Longrightarrow> kept s s''"
  by (auto simp: wait_ep0_def kept_set_ep0 kept_turn Let_def split: if_splits)

lemma kept_setup_tr: "control_setup_transaction p s' = Some (r, s'') \<Longrightarrow> kept s s' \<Longrightarrow> kept s s''"
  by (auto simp: control_setup_transaction_def kept_set_ep0 Let_def split: if_splits bind_splits elim!: kept_notify)

lemma kept_write_tr: "control_write_data_transaction p n s' = Some (r, s'') \<Longrightarrow> kept s s' \<Longrightarrow> kept s s''"
  by (auto simp: control_write_data_transaction_def kept_set_ep0 Let_def split: if_splits bind_splits elim!: kept_notify)

lemma urb_store_ep: "urb_store p b s = Some s' \<Longrightarrow> ep_out s' = ep_out s"
  by (auto simp: urb_store_def upd_urb_def Let_def split: if_splits)

lemma kept_read_tr: "control_read_data_transaction p n s' = Some (r, s'') \<Longrightarrow> kept s s' \<Longrightarrow> kept s s''"
  by (auto simp: control_read_data_transaction_def kept_set_ep0 urb_store_ep Let_def split: if_splits bind_splits
      elim!: kept_notify kept_store)

lemma kept_status_tr:
  "control_write_status_transaction s' = Some (r, s'') \<Longrightarrow> kept s s' \<Longrightarrow> kept s s''"
  "control_read_status_transaction s' = Some (r, s'') \<Longrightarrow> kept s s' \<Longrightarrow> kept s s''"
  by (auto simp: control_write_status_transaction_def control_read_status_transaction_def kept_set_ep0 Let_def
      split: if_splits bind_splits elim!: kept_notify)

lemma kept_write_loop:
  assumes "hc_write_loop app p r remain s' = Some (r', s'')" "stays_off app" "kept s s'"
  shows "kept s s''"
proof -
  have "\<forall>s. stays_off app \<longrightarrow> kept s s' \<longrightarrow> kept s (snd (r', s''))"
  proof (induction rule: hc_write_loop.raw_induct [OF _ assms(1)])
    case (1 f app p r remain s' rs)
    then show ?case
      by (cases rs) (auto simp: kept_step Let_def split: if_splits bind_splits dest!: kept_wait kept_write_tr)
  qed
  with assms show ?thesis by simp
qed

lemma kept_read_loop:
  assumes "hc_read_loop app p remain s' = Some (r', remain', s'')" "stays_off app" "kept s s'"
  shows "kept s s''"
proof -
  have "\<forall>s. stays_off app \<longrightarrow> kept s s' \<longrightarrow> kept s (snd (snd (r', remain', s'')))"
  proof (induction rule: hc_read_loop.raw_induct [OF _ assms(1)])
    case (1 f app p remain s' rs)
    then show ?case
      by (cases rs) (auto simp: kept_step Let_def split: if_splits bind_splits dest!: kept_wait kept_read_tr)
  qed
  with assms show ?thesis by simp
qed

lemma kept_hc_write: "hc_write app p r remain s' = Some (r', s'') \<Longrightarrow> stays_off app \<Longrightarrow> kept s s' \<Longrightarrow> kept s s''"
  by (auto simp: hc_write_def split: if_splits bind_splits dest!: kept_write_loop kept_wait kept_status_tr)

lemma kept_hc_read: "hc_read app p remain s' = Some (r', s'') \<Longrightarrow> stays_off app \<Longrightarrow> kept s s' \<Longrightarrow> kept s s''"
  by (auto simp: hc_read_def split: if_splits bind_splits dest!: kept_read_loop kept_wait kept_status_tr)

text \<open>Endpoint 0 has a request only while it is served.\<close>

lemma kept_control_urb:
  assumes h: "hc_handle_control_urb app p s = Some (r, s')" and a: "stays_off app" and u: "uc_urb (usbc_ep0 s) = None"
  shows "kept s s'"
proof -
  define s0 where "s0 = set_ep0 ((usbc_ep0 s)\<lparr>uc_urb := Some p\<rparr>) s"
  let ?dir = "u_dir (urb_at s p)" and ?n = "ucast (u_len (urb_at s p)) :: u16"
  from h obtain r1 t1 r2 t2 t3 where t: "control_setup_transaction p s0 = Some (r1, t1)"
    "(if r1 < 0 then Some (r1, t1)
      else if ?dir = USBIP_DIR_OUT then hc_write app p r1 ?n t1 else hc_read app p ?n t1) = Some (r2, t2)"
    "(if r2 < 0 then Some (set_ep0 ((usbc_ep0 t2)\<lparr>uc_state := USB_STATE_READY\<rparr>) t2) else wait_ep0 app t2) = Some t3"
    and more: "s' = (if ?dir = USBIP_DIR_IN
      then set_ep0 ((usbc_ep0 t3)\<lparr>uc_urb := None\<rparr>)
        (upd_urb p (\<lambda>u. u\<lparr>u_len := (if 0 \<le> r2 then u_len u - word_of_int r2 else 0)\<rparr>) t3)
      else set_ep0 ((usbc_ep0 t3)\<lparr>uc_urb := None\<rparr>) (upd_urb p (\<lambda>u. u\<lparr>u_len := 0\<rparr>) t3))"
    by (auto simp: hc_handle_control_urb_def s0_def upd_urb_def Let_def split: bind_splits if_splits)
  have "kept s0 t1" by (rule kept_setup_tr [OF t(1) kept_refl])
  then have "kept s0 t2" using t(2) a by (auto split: if_splits elim: kept_hc_write kept_hc_read)
  then have "kept s0 t3" using t(3) a by (auto simp: kept_set_ep0 split: if_splits elim: kept_wait)
  then have "kept s0 (upd_urb p (\<lambda>u. u\<lparr>u_len := (if 0 \<le> r2 then u_len u - word_of_int r2 else 0)\<rparr>) t3)"
    "kept s0 (upd_urb p (\<lambda>u. u\<lparr>u_len := 0\<rparr>) t3)" by (simp_all add: kept_step)
  moreover have "usbc_ep0 (upd_urb p f t3) = usbc_ep0 t3" for f by (simp add: upd_urb_def)
  ultimately obtain s1 where "kept s0 s1" "s' = set_ep0 ((usbc_ep0 s1)\<lparr>uc_urb := None\<rparr>) s1"
    using more by (cases "?dir = USBIP_DIR_IN") (metis (no_types, lifting))+
  then show ?thesis using u by (auto simp: kept_def set_ep0_def s0_def)
qed

section \<open>A command to submit a request\<close>

text \<open>A request that was linked and is taken out again leaves the queues as they were.\<close>

lemma linked_unlinked:
  assumes ok: "queues_ok s xs" and p: "p \<notin> set xs" and t0: "t0 = upd_urb p (\<lambda>_. u) (link_urb p s)"
    and k: "kept t0 t" and s': "s' = unlink_urb p (t\<lparr>sent := b\<rparr>)"
  shows "queues_ok s' xs" "fifo s' xs = fifo s xs" "q \<in> set xs \<Longrightarrow> u_seq (urb_at s' q) = u_seq (urb_at s q)"
    "urb_list s' \<noteq> Some p"
proof -
  note n = new_request [OF ok p t0]
  have "ring t (p # xs)" using n(1) kept_ring [OF k] by simp
  then have "ring (t\<lparr>sent := b\<rparr>) (p # xs)" by (simp only: ring_sent)
  then have r: "ring s' xs" using unlink_urb_ring [of _ "p # xs" p] by (simp add: s')
  then show "urb_list s' \<noteq> Some p" using p by (cases xs) (auto simp: ring_Cons ring_Nil)
  have at: "urb_at s' = urb_at t" by (simp add: s' unlink_urb_keeps)
  have d: "u_dir (urb_at s' q) = u_dir (urb_at s q)" "u_ep (urb_at s' q) = u_ep (urb_at s q)"
    "u_seq (urb_at s' q) = u_seq (urb_at s q)" if "q \<in> set xs" for q
    using that n(5) [OF that] k by (simp_all add: at kept_def)
  show "q \<in> set xs \<Longrightarrow> u_seq (urb_at s' q) = u_seq (urb_at s q)" by (rule d(3))
  show f: "fifo s' xs = fifo s xs"
  proof (intro ext)
    fix dir ep
    have "filter (for_ep s' dir ep) xs = filter (for_ep s dir ep) xs"
      by (rule filter_cong [OF refl]) (simp add: for_ep_def d)
    then show "fifo s' xs dir ep = fifo s xs dir ep" by (simp add: fifo_def)
  qed
  have uc: "uc_urb (usbc_at dir ep s') = uc_urb (usbc_at dir ep s)" for dir ep
  proof -
    have "uc_urb (usbc_at dir ep s') = uc_urb (usbc_at dir ep t)" by (simp add: s' usbc_at_def unlink_urb_keeps)
    also have "\<dots> = uc_urb (usbc_at dir ep t0)" using k by (simp add: kept_def usbc_at_def)
    finally show ?thesis using n(3) by simp
  qed
  show "queues_ok s' xs" using ok r f d uc by (simp add: queues_ok_def)
qed

lemma link_urb_inp: "link_urb p (s\<lparr>inp := i\<rparr>) = (link_urb p s)\<lparr>inp := i\<rparr>"
  by (simp add: link_urb_def Let_def split: option.split)

lemma upd_urb_inp: "upd_urb p f (s\<lparr>inp := i\<rparr>) = (upd_urb p f s)\<lparr>inp := i\<rparr>"
  by (simp add: upd_urb_def)

lemma upd_urb_twice: "upd_urb p f (upd_urb p g s) = upd_urb p (f \<circ> g) s"
  by (simp add: upd_urb_def)

lemma data_urb_result: "usbip_handle_data_urb p s = Some (r, s') \<Longrightarrow> r \<noteq> 0 \<Longrightarrow> s' = s"
  by (auto simp: usbip_handle_data_urb_def Let_def split: if_splits)

text \<open>
  A command that is read ends in one of two ways: the request waits for its data endpoint, or it is answered
  at once.
\<close>

lemma finish_unlinks:
  "usbip_finish_urb p r t = Some s' \<Longrightarrow> \<exists>c. s' = unlink_urb p (t\<lparr>sent := c\<rparr>)"
  using finish_urb by blast

lemma refuse_unlinks: "\<exists>c. refuse_urb p r t = unlink_urb p (t\<lparr>sent := c\<rparr>)"
  by (auto simp: refuse_urb_def send_bytes_def)

lemma handle_urb_cases:
  assumes h: "usbip_handle_urb app p junk seq s = Some s'" and a: "stays_off app" and u0: "uc_urb (usbc_ep0 s) = None"
    and b: "b = take 32 (inp s)"
  obtains (accepted) u i where "u_seq u = seq" "u_dir u = word_at b 1" "u_ep u = word_at b 2" "u_ep u \<noteq> 0"
      "usbip_handle_data_urb p (upd_urb p (\<lambda>_. u) (link_urb p (s\<lparr>inp := i\<rparr>))) = Some (0, s')"
  | (answered) u t c where "kept (upd_urb p (\<lambda>_. u) (link_urb p s)) t" "s' = unlink_urb p (t\<lparr>sent := c\<rparr>)"
proof -
  let ?u = "new_urb junk seq b" and ?s1 = "s\<lparr>inp := drop 32 (inp s)\<rparr>"
  define t0 where "t0 = upd_urb p (\<lambda>_. ?u) (link_urb p s)"
  define b' where "b' = take 8 (drop 32 (inp s))"
  define out where "out \<longleftrightarrow> u_dir ?u = USBIP_DIR_OUT \<and> u_len ?u \<noteq> 0"
  define i where "i = (if out then drop (unat (u_len ?u)) (drop 40 (inp s)) else drop 40 (inp s))"
  define b'' where "b'' = (if out then take (unat (u_len ?u)) (drop 40 (inp s)) else u_data ?u)"
  define t1 where "t1 = upd_urb p (\<lambda>u. u\<lparr>u_setup := b'\<rparr>) (t0\<lparr>inp := drop 40 (inp s)\<rparr>)"
  define t2 where "t2 = upd_urb p (\<lambda>u. u\<lparr>u_data := b''\<rparr>) (t1\<lparr>inp := i\<rparr>)"
  have k: "kept t0 (t0\<lparr>inp := j\<rparr>)" "kept t0 (t1\<lparr>inp := j\<rparr>)" "kept t0 t2" for j
    by (simp_all add: t1_def t2_def kept_step kept_refl)
  have at: "urb_at t0 p = ?u" "urb_at t1 p = ?u\<lparr>u_setup := b'\<rparr>" "urb_at t2 p = ?u\<lparr>u_setup := b', u_data := b''\<rparr>"
    by (simp_all add: t0_def t1_def t2_def upd_urb_def)
  have t2: "t2 = upd_urb p (\<lambda>_. ?u\<lparr>u_setup := b', u_data := b''\<rparr>) (link_urb p (s\<lparr>inp := i\<rparr>))"
    by (simp add: t2_def t1_def t0_def link_urb_inp upd_urb_inp upd_urb_twice comp_def)
  have "uc_urb (usbc_ep0 t2) = uc_urb (usbc_ep0 t0)" using k(3) by (simp add: kept_def)
  also have "\<dots> = None" using u0 by (simp add: t0_def upd_urb_def link_urb_def Let_def split: option.split)
  finally have u2: "uc_urb (usbc_ep0 t2) = None" .
  have r1: "recv_bytes 32 s = (b, ?s1)" by (simp add: recv_bytes_def b)
  have e1: "upd_urb p (\<lambda>_. ?u) (link_urb p ?s1) = t0\<lparr>inp := drop 32 (inp s)\<rparr>"
    by (simp add: t0_def link_urb_inp upd_urb_inp)
  have r2: "recv_bytes 8 (t0\<lparr>inp := drop 32 (inp s)\<rparr>) = (b', t0\<lparr>inp := drop 40 (inp s)\<rparr>)"
    by (simp add: recv_bytes_def b'_def)
  have r3: "(if u_dir (urb_at t1 p) = USBIP_DIR_OUT \<and> u_len ?u \<noteq> 0
      then recv_bytes (unat (u_len ?u)) t1 else (u_data (urb_at t1 p), t1)) = (b'', t1\<lparr>inp := i\<rparr>)"
  proof -
    have "inp t1 = drop 40 (inp s)" by (simp add: t1_def upd_urb_inp)
    then show ?thesis by (auto simp: at(2) recv_bytes_def b''_def i_def out_def)
  qed
  have ok: "\<not> (length b \<noteq> 32 \<or> URB_DATA_SIZE < word_at b 4)"
  proof
    assume "length b \<noteq> 32 \<or> URB_DATA_SIZE < word_at b 4"
    with h show False by (simp add: usbip_handle_urb_def r1 del: disj_not1 disj_not2)
  qed
  have e: "u_len (urb_at t1 p) = u_len ?u" "u_ep (urb_at t1 p) = u_ep ?u" by (simp_all add: at)
  have body: "(if length b' \<noteq> 8 then Some (refuse_urb p (- EINVAL) (t0\<lparr>inp := drop 40 (inp s)\<rparr>))
     else if length b'' \<noteq> unat (u_len ?u) then Some (refuse_urb p (- EINVAL) (t1\<lparr>inp := i\<rparr>))
     else if u_ep ?u = 0 then usbip_handle_control_urb app p t2
     else do { (r, s) \<leftarrow> usbip_handle_data_urb p t2; Some (if r = 0 then s else refuse_urb p r s) }) = Some s'"
    using h [unfolded usbip_handle_urb_def r1 prod.case Let_def if_not_P [OF ok] e1 r2 t1_def [symmetric] e r3 t2_def [symmetric]] .
  show thesis
  proof (cases "length b' \<noteq> 8 \<or> length b'' \<noteq> unat (u_len ?u)")
    case True
    then obtain j r t where "t = t0\<lparr>inp := j\<rparr> \<or> t = t1\<lparr>inp := j\<rparr>" "s' = refuse_urb p r t"
      using body by (auto split: if_splits)
    moreover from this have "kept t0 t" using k by auto
    ultimately show thesis using answered [of ?u t] refuse_unlinks [of p r t] by (auto simp: t0_def)
  next
    case False
    note body = body [unfolded if_not_P]
    show thesis
    proof (cases "u_ep ?u = 0")
      case True
      then obtain r t where "hc_handle_control_urb app p t2 = Some (r, t)" and fin: "usbip_finish_urb p r t = Some s'"
        using body False by (auto simp: usbip_handle_control_urb_def split: bind_splits if_splits)
      then have "kept t0 t" using kept_control_urb [OF _ a u2] k(3) by (blast intro: kept_trans)
      then show thesis using answered [of ?u t] finish_unlinks [OF fin] by (auto simp: t0_def)
    next
      case ep: False
      then obtain r t where d: "usbip_handle_data_urb p t2 = Some (r, t)" and s': "s' = (if r = 0 then t else refuse_urb p r t)"
        using body False by (auto split: bind_splits if_splits)
      show thesis
      proof (cases "r = 0")
        case True
        with d s' ep show thesis
          by (intro accepted [of "?u\<lparr>u_setup := b', u_data := b''\<rparr>" i]) (simp_all add: t2 new_urb_def)
      next
        case False
        then have "t = t2" by (rule data_urb_result [OF d])
        with s' False k(3) show thesis using answered [of ?u t2] refuse_unlinks [of p r t2] by (auto simp: t0_def)
      qed
    qed
  qed
qed

section \<open>Histories\<close>

text \<open>
  A history of the server: what clients submitted to each endpoint, by sequence numbers, and the replies that were
  sent; \<open>live\<close> are the structures that \<open>malloc\<close> gave and that were not freed. The server takes commands
  to submit a request and serves endpoints, the device takes its turns, and bytes arrive, in any
  order. Commands to unlink a request are not part of it.
\<close>

definition logged :: "bool \<Rightarrow> u32 \<Rightarrow> 'a \<Rightarrow> (bool \<Rightarrow> u32 \<Rightarrow> 'a list) \<Rightarrow> bool \<Rightarrow> u32 \<Rightarrow> 'a list" where
  "logged dir ep x l = (\<lambda>d e. if d = dir \<and> e = ep then l d e @ [x] else l d e)"

inductive served ::
  "(u32 \<Rightarrow> server \<Rightarrow> server) \<Rightarrow> addr set \<Rightarrow> (bool \<Rightarrow> u32 \<Rightarrow> u32 list) \<Rightarrow>
   (bool \<Rightarrow> u32 \<Rightarrow> (u32 \<times> u8 list) list) \<Rightarrow> server \<Rightarrow> bool" for app where
  start: "urb_list s = None \<Longrightarrow> (\<forall>dir ep. uc_urb (usbc_at dir ep s) = None) \<Longrightarrow>
    served app {} (\<lambda>_ _. []) (\<lambda>_ _. []) s"
| waits: "served app live S R s \<Longrightarrow> p \<notin> live \<Longrightarrow> word_at (take 32 (inp s)) 1 \<in> {USBIP_DIR_OUT, USBIP_DIR_IN} \<Longrightarrow>
    usbip_handle_urb app p junk seq s = Some s' \<Longrightarrow> urb_list s' = Some p \<Longrightarrow>
    served app (insert p live)
      (logged (word_at (take 32 (inp s)) 1 \<noteq> USBIP_DIR_OUT) (word_at (take 32 (inp s)) 2) seq S) R s'"
| answered: "served app live S R s \<Longrightarrow> p \<notin> live \<Longrightarrow> word_at (take 32 (inp s)) 1 \<in> {USBIP_DIR_OUT, USBIP_DIR_IN} \<Longrightarrow>
    usbip_handle_urb app p junk seq s = Some s' \<Longrightarrow> urb_list s' \<noteq> Some p \<Longrightarrow> served app live S R s'"
| goes_on: "served app live S R s \<Longrightarrow> usbip_ep_ready dir ep s = Some s' \<Longrightarrow> sent s' = sent s \<Longrightarrow>
    served app live S R s'"
| completes: "served app live S R s \<Longrightarrow> usbip_ep_ready dir ep s = Some s' \<Longrightarrow> sent s' = sent s @ bs \<Longrightarrow> bs \<noteq> [] \<Longrightarrow>
    uc_urb (usbc_at dir ep s) = Some p \<Longrightarrow>
    served app (live - {p}) S (logged dir ep (u_seq (urb_at s p), bs) R) s'"
| device: "served app live S R s \<Longrightarrow> served app live S R (device_turn app s)"
| arrives: "served app live S R s \<Longrightarrow> served app live S R (s\<lparr>inp := inp s @ bs\<rparr>)"

text \<open>The sequence numbers of the requests that wait for an endpoint, oldest first.\<close>

definition waiting :: "server \<Rightarrow> addr list \<Rightarrow> bool \<Rightarrow> u32 \<Rightarrow> u32 list" where
  "waiting s xs dir ep = List.map (\<lambda>p. u_seq (urb_at s p)) (fifo s xs dir ep)"

definition in_order ::
  "addr set \<Rightarrow> (bool \<Rightarrow> u32 \<Rightarrow> u32 list) \<Rightarrow> (bool \<Rightarrow> u32 \<Rightarrow> (u32 \<times> u8 list) list) \<Rightarrow> server \<Rightarrow> addr list \<Rightarrow> bool" where
  "in_order live S R s xs \<longleftrightarrow> set xs = live \<and> queues_ok s xs \<and> (\<forall>dir. fifo s xs dir 0 = []) \<and>
     (\<forall>dir ep. List.map fst (R dir ep) @ waiting s xs dir ep = S dir ep \<and>
        (\<forall>r \<in> set (R dir ep). reply_to (fst r) (snd r)))"

lemma set_fifo: "set (fifo s xs dir ep) \<subseteq> set xs"
  by (auto simp: fifo_def)

lemma in_order_kept:
  assumes "kept s s'" "in_order live S R s xs"
  shows "in_order live S R s' xs"
proof -
  have "waiting s' xs = waiting s xs"
    using kept_fifo [OF assms(1)] assms(1) by (intro ext) (simp add: waiting_def kept_def)
  then show ?thesis using assms kept_ok [OF assms(1)] kept_fifo [OF assms(1)] by (simp add: in_order_def)
qed

lemma in_order_ep0: "in_order live S R s xs \<Longrightarrow> uc_urb (usbc_ep0 s) = None"
  by (auto simp: in_order_def queues_ok_def usbc_at_def) (metis (full_types) first_of_simps(1))

lemma in_order_submit:
  assumes io: "in_order live S R s xs" and p: "p \<notin> live" and dir: "word_at (take 32 (inp s)) 1 \<in> {USBIP_DIR_OUT, USBIP_DIR_IN}"
    and h: "usbip_handle_urb app p junk seq s = Some s'" and a: "stays_off app"
  shows "if urb_list s' = Some p
    then in_order (insert p live)
      (logged (word_at (take 32 (inp s)) 1 \<noteq> USBIP_DIR_OUT) (word_at (take 32 (inp s)) 2) seq S) R s' (p # xs)
    else in_order live S R s' xs"
  using h a in_order_ep0 [OF io] refl
proof (cases rule: handle_urb_cases)
  case (accepted u i)
  let ?s = "s\<lparr>inp := i\<rparr>"
  have io': "in_order live S R ?s xs" using io by (rule in_order_kept [rotated]) (simp add: kept_refl)
  then have q: "queues_ok ?s xs" "p \<notin> set xs" using p by (simp_all add: in_order_def)
  have d: "u_dir u \<in> {USBIP_DIR_OUT, USBIP_DIR_IN}" using accepted(2) dir by simp
  note s = submitted [OF q d refl accepted(5)]
  have "urb_list s' = Some p" using s(1) by (simp add: queues_ok_def ring_Cons)
  moreover have "waiting s' (p # xs) d e = logged (u_dir u \<noteq> USBIP_DIR_OUT) (u_ep u) (u_seq u) (waiting ?s xs) d e" for d e
  proof -
    have "List.map (\<lambda>p. u_seq (urb_at s' p)) (fifo ?s xs d e) = waiting ?s xs d e"
      unfolding waiting_def by (rule map_cong [OF refl]) (use s(4) set_fifo in \<open>auto simp: subset_iff\<close>)
    then show ?thesis by (simp add: waiting_def s(2) s(3) logged_def)
  qed
  ultimately show ?thesis
    using io' s(1,2) accepted(1-4) by (auto simp: in_order_def logged_def)
next
  case (answered u t c)
  have q: "queues_ok s xs" "p \<notin> set xs" using io p by (simp_all add: in_order_def)
  note s = linked_unlinked [OF q refl answered]
  have "waiting s' xs d e = waiting s xs d e" for d e
    unfolding waiting_def s(2) by (rule map_cong [OF refl]) (use s(3) set_fifo in \<open>auto simp: subset_iff\<close>)
  with s io show ?thesis by (simp add: in_order_def)
qed

lemma reply_to_not_Nil: "reply_to seq bs \<Longrightarrow> bs \<noteq> []"
  by (auto simp: reply_to_def msg_head_def net32_def)

lemma in_order_ready:
  assumes io: "in_order live S R s xs" and h: "usbip_ep_ready dir ep s = Some s'"
  shows "if sent s' = sent s then in_order live S R s' xs
    else \<exists>bs p. sent s' = sent s @ bs \<and> uc_urb (usbc_at dir ep s) = Some p \<and>
      in_order (live - {p}) S (logged dir ep (u_seq (urb_at s p), bs) R) s' (remove1 p xs)"
proof -
  have ok: "queues_ok s xs" using io by (simp add: in_order_def)
  note c = completed [OF ok h]
  then have seq: "u_seq (urb_at s' q) = u_seq (urb_at s q)" for q by blast
  from c consider (same) "queues_ok s' xs" "sent s' = sent s" "fifo s' xs = fifo s xs"
    | (out) p rest bs where "uc_urb (usbc_at dir ep s) = Some p" "fifo s xs dir ep = p # rest"
      "queues_ok s' (remove1 p xs)" "sent s' = sent s @ bs" "reply_to (u_seq (urb_at s p)) bs"
      "\<forall>d e. fifo s' (remove1 p xs) d e = (if d = dir \<and> e = ep then rest else fifo s xs d e)"
    by blast
  then show ?thesis
  proof cases
    case same
    then have "waiting s' xs = waiting s xs" by (intro ext) (simp add: seq waiting_def)
    with same io show ?thesis by (simp add: in_order_def)
  next
    case out
    have "distinct xs" using ok ring_distinct [of s xs] by (simp add: queues_ok_def)
    then have live: "set (remove1 p xs) = live - {p}" using io by (simp add: in_order_def set_remove1_eq)
    have "\<forall>d. fifo s' (remove1 p xs) d 0 = []" using io out(2,6) by (auto simp: in_order_def)
    moreover have "List.map fst (logged dir ep (u_seq (urb_at s p), bs) R d e) @ waiting s' (remove1 p xs) d e = S d e"
      and "\<forall>r \<in> set (logged dir ep (u_seq (urb_at s p), bs) R d e). reply_to (fst r) (snd r)" for d e
    proof -
      have o: "List.map fst (R d e) @ waiting s xs d e = S d e" "\<forall>r \<in> set (R d e). reply_to (fst r) (snd r)"
        using io by (simp_all add: in_order_def)
      show "List.map fst (logged dir ep (u_seq (urb_at s p), bs) R d e) @ waiting s' (remove1 p xs) d e = S d e"
        using o(1) out(2,6) by (auto simp: seq logged_def waiting_def)
      show "\<forall>r \<in> set (logged dir ep (u_seq (urb_at s p), bs) R d e). reply_to (fst r) (snd r)"
        using o(2) out(5) by (auto simp: logged_def)
    qed
    ultimately have "in_order (live - {p}) S (logged dir ep (u_seq (urb_at s p), bs) R) s' (remove1 p xs)"
      using live out(3) by (simp add: in_order_def)
    then show ?thesis using out(1,4) reply_to_not_Nil [OF out(5)] by auto
  qed
qed

lemma served_in_order:
  assumes "served app live S R s" "stays_off app"
  shows "\<exists>xs. in_order live S R s xs"
  using assms(1)
proof (induction rule: served.induct)
  case (start s)
  then have "in_order {} (\<lambda>_ _. []) (\<lambda>_ _. []) s []"
    by (simp add: in_order_def queues_ok_def ring_Nil fifo_def waiting_def)
  then show ?case ..
next
  case (waits live S R s p junk seq s')
  then obtain xs where io: "in_order live S R s xs" by blast
  from in_order_submit [OF io waits.hyps(2-4) assms(2)] waits.hyps(5) show ?case by auto
next
  case (answered live S R s p junk seq s')
  then obtain xs where io: "in_order live S R s xs" by blast
  from in_order_submit [OF io answered.hyps(2-4) assms(2)] answered.hyps(5) show ?case by auto
next
  case (goes_on live S R s dir ep s')
  then obtain xs where io: "in_order live S R s xs" by blast
  from in_order_ready [OF io goes_on.hyps(2)] goes_on.hyps(3) show ?case by auto
next
  case (completes live S R s dir ep s' bs p)
  then obtain xs where io: "in_order live S R s xs" by blast
  from in_order_ready [OF io completes.hyps(2)] completes.hyps(3-5) show ?case by auto
next
  case (device live S R s)
  then obtain xs where io: "in_order live S R s xs" by blast
  then show ?case using in_order_kept [OF kept_turn [OF assms(2) kept_refl]] by blast
next
  case (arrives live S R s bs)
  then obtain xs where io: "in_order live S R s xs" by blast
  have "kept s (s\<lparr>inp := inp s @ bs\<rparr>)" by (simp add: kept_refl)
  from in_order_kept [OF this io] show ?case ..
qed

text \<open>
  C26: In histories without commands to unlink a request, for each endpoint, the replies that the server has sent to submitted requests, with the sequence numbers of those
  that wait, are the sequence numbers of the requests accepted, in order: no request is lost, none is
  answered twice, and none overtakes another of its endpoint, however the commands, the endpoints' events
  and the turns of the device interleave. Each reply carries the number of its request. A request that the
  server answers while it handles the command, with EPIPE or with the result of a control transfer, does not
  wait and is not counted.
\<close>

theorem urbs_in_order:
  assumes "served app live S R s" "stays_off app"
  shows "\<exists>xs. set xs = live \<and> ring s xs \<and>
    (\<forall>dir ep. List.map fst (R dir ep) @ waiting s xs dir ep = S dir ep \<and>
       uc_urb (usbc_at dir ep s) = first_of (fifo s xs dir ep) \<and>
       (\<forall>r \<in> set (R dir ep). reply_to (fst r) (snd r)))"
proof -
  from served_in_order [OF assms] obtain xs where "in_order live S R s xs" ..
  then show ?thesis by (intro exI [of _ xs]) (simp add: in_order_def queues_ok_def)
qed

text \<open>A client submits a request for 8 bytes from endpoint 1, which has them; the reply is sent.\<close>

definition ready_input :: usb_control where
  "ready_input = no_control\<lparr>uc_eventfd := 1, uc_state := USB_STATE_READY, uc_buf := 0x1000, uc_len := 8\<rparr>"

definition input_ready :: server where
  "input_ready = (quiet_server (control_urb USBIP_DIR_IN 0 []))\<lparr>
     ep_in := (\<lambda>_. ready_input),
     inp := net32 0 @ net32 1 @ net32 1 @ net32 0 @ net32 8 @ net32 0 @ net32 0 @ net32 0 @
       [0, 0, 0, 0, 0, 0, 0, 0]\<rparr>"

lemma quiet_app_stays_off: "stays_off (\<lambda>ev s. s)"
  by (simp add: stays_off_def kept_refl)

lemma input_ready_inp: "take 32 (inp input_ready) = [0, 0, 0, 0, 0, 0, 0, 1, 0, 0, 0, 1, 0, 0, 0, 0, 0, 0, 0, 8, 0, 0, 0, 0, 0, 0, 0, 0, 0, 0, 0, 0]"
  "drop 32 (inp input_ready) = [0, 0, 0, 0, 0, 0, 0, 0]"
  by (simp_all add: input_ready_def net32_def)

lemma input_ready_command: "new_urb (\<lambda>_. 0) 7 (take 32 (inp input_ready)) = \<lparr>u_remain = 8, u_data_p = 0, u_seq = 7,
    u_devid = 0, u_dir = 1, u_ep = 1, u_len = 8, u_setup = [0, 0, 0, 0, 0, 0, 0, 0],
      u_data = [0, 0, 0, 0, 0, 0, 0, 0]\<rparr>"
  unfolding input_ready_inp by (simp add: new_urb_def word_at_def upt_rec)

definition input_submitted :: server where
  "input_submitted = (let u = \<lparr>u_remain = 8, u_data_p = 0, u_seq = 7, u_devid = 0, u_dir = 1, u_ep = 1, u_len = 8,
      u_setup = [0, 0, 0, 0, 0, 0, 0, 0],
      u_data = [0, 0, 0, 0, 0, 0, 0, 0]\<rparr>
    in input_ready\<lparr>ep_in := (ep_in input_ready)(1 := (ep_in input_ready 1)\<lparr>uc_urb := Some 0x2000\<rparr>),
      urb_at := (urb_at input_ready)(0x2000 := u), urb_next := (urb_next input_ready)(0x2000 := 0x2000),
      urb_prev := (urb_prev input_ready)(0x2000 := 0x2000),
      urb_list := Some 0x2000, inp := []\<rparr>)"

lemma input_ready_submitted: "usbip_handle_urb (\<lambda>ev s. s) 0x2000 (\<lambda>_. 0) 7 input_ready = Some input_submitted"
proof -
  have "word_at (take 32 (inp input_ready)) 4 = 8" "length (inp input_ready) = 40"
    by (simp_all add: input_ready_inp word_at_def) (simp add: input_ready_def net32_def)
  moreover have "drop 40 (inp input_ready) = []" by (simp add: \<open>length (inp input_ready) = 40\<close>)
  moreover have "urb_list input_ready = None" "ep_in input_ready = (\<lambda>_. ready_input)"
    by (simp_all add: input_ready_def quiet_server_def)
  moreover have "\<not> (8 :: u32) \<le> 1" by (simp add: word_le_nat_alt)
  ultimately show ?thesis
    by (simp add: usbip_handle_urb_def recv_bytes_def input_ready_command URB_DATA_SIZE_def input_ready_inp(2) Let_def
      link_urb_def upd_urb_def usbip_handle_data_urb_def USBIP_DIR_OUT_def usbc_at_def set_usbc_def input_submitted_def
      ready_input_def no_control_def)
qed

lemma input_submitted_ready:
  "\<exists>s. usbip_ep_ready True 1 input_submitted = Some s \<and> sent s \<noteq> sent input_submitted"
proof -
  have at: "usbc_at True 1 input_submitted = ready_input\<lparr>uc_urb := Some 0x2000\<rparr>"
    by (simp add: usbc_at_def input_submitted_def Let_def input_ready_def)
  let ?s = "set_usbc True 1 (ready_input\<lparr>uc_urb := Some 0x2000, uc_eventfd := 0\<rparr>) input_submitted"
  have "\<exists>s. hc_handle_data_urb True 1 ?s = Some (0, s) \<and> urb_prev s 0x2000 = 0x2000 \<and> sent s = sent input_submitted \<and>
      unat (u_len (urb_at s 0x2000)) \<le> length (u_data (urb_at s 0x2000))"
    by (simp add: hc_handle_data_urb_def read_data_transaction_def usbc_at_def set_usbc_def input_submitted_def Let_def
        ready_input_def no_control_def input_ready_def quiet_server_def USBIP_DIR_OUT_def urb_store_def upd_urb_def
        notify_device_def)
  then obtain s where s: "hc_handle_data_urb True 1 ?s = Some (0, s)" "urb_prev s 0x2000 = 0x2000" "sent s = sent input_submitted"
      "unat (u_len (urb_at s 0x2000)) \<le> length (u_data (urb_at s 0x2000))" by blast
  obtain s' where f: "usbip_finish_urb 0x2000 0 s = Some s'" using s(4)
    by (cases "u_dir (urb_at s 0x2000) = USBIP_DIR_IN \<and> u_len (urb_at s 0x2000) \<noteq> 0") (auto simp: usbip_finish_urb_def Let_def)
  have n: "find_next 0x2000 0x2000 s = Some None" by (simp add: find_next_step same_ep_def)
  have ready: "ready_input\<lparr>uc_urb := Some 0x2000, uc_eventfd := 0\<rparr> = ready_input\<lparr>uc_eventfd := 0, uc_urb := Some 0x2000\<rparr>"
    by simp
  have "usbip_ep_ready True 1 input_submitted = Some (set_usbc True 1 ((usbc_at True 1 s')\<lparr>uc_urb := None\<rparr>) s')"
    using s f n by (simp add: usbip_ep_ready_def at ready Let_def) (simp add: ready_input_def)
  moreover obtain bs where "s' = unlink_urb 0x2000 (s\<lparr>sent := sent s @ bs\<rparr>)" "bs \<noteq> []"
    using finish_urb [OF f] reply_to_not_Nil by blast
  ultimately show ?thesis using s(3) by (simp add: set_usbc_def unlink_urb_keeps)
qed

lemma input_ready_served:
  "\<exists>bs s. served (\<lambda>ev s. s) {} (logged True 1 7 (\<lambda>_ _. [])) (logged True 1 (7, bs) (\<lambda>_ _. [])) s"
proof -
  let ?app = "\<lambda>(ev :: u32) (s :: server). s"
  have "served ?app {} (\<lambda>_ _. []) (\<lambda>_ _. []) input_ready"
    by (rule served.start) (simp_all add: input_ready_def quiet_server_def usbc_at_def ready_input_def no_control_def)
  from served.waits [OF this _ _ input_ready_submitted]
  have s: "served ?app {0x2000} (logged True 1 7 (\<lambda>_ _. [])) (\<lambda>_ _. []) input_submitted"
    by (simp add: input_ready_inp word_at_def USBIP_DIR_OUT_def USBIP_DIR_IN_def input_submitted_def Let_def)
  obtain s' where r: "usbip_ep_ready True 1 input_submitted = Some s'" "sent s' \<noteq> sent input_submitted"
    using input_submitted_ready by blast
  obtain xs where "in_order {0x2000} (logged True 1 7 (\<lambda>_ _. [])) (\<lambda>_ _. []) input_submitted xs"
    using served_in_order [OF s quiet_app_stays_off] ..
  from in_order_ready [OF this r(1)] r(2) obtain bs where "sent s' = sent input_submitted @ bs" by auto
  moreover from this r(2) have "bs \<noteq> []" by auto
  moreover have "uc_urb (usbc_at True 1 input_submitted) = Some 0x2000" "u_seq (urb_at input_submitted 0x2000) = 7"
    by (simp_all add: usbc_at_def input_submitted_def Let_def)
  ultimately show ?thesis using served.completes [OF s r(1), of bs "0x2000"] by auto
qed

theorem urbs_in_order_witness:
  "\<exists>bs s. served (\<lambda>ev s. s) {} (logged True 1 7 (\<lambda>_ _. [])) (logged True 1 (7, bs) (\<lambda>_ _. [])) s \<and>
     urb_list s = None \<and> reply_to 7 bs"
proof -
  from input_ready_served obtain bs s
    where s: "served (\<lambda>ev s. s) {} (logged True 1 7 (\<lambda>_ _. [])) (logged True 1 (7, bs) (\<lambda>_ _. [])) s" by blast
  from urbs_in_order [OF s quiet_app_stays_off] have "ring s [] \<and> reply_to 7 bs"
    by (auto simp: logged_def)
  with s show ?thesis by (auto simp: ring_Nil)
qed

end
