(* ===== verification/Usb_Kl27z.thy ===== *)
theory Usb_Kl27z
  imports Usb_Lld
begin

text \<open>
  The USB device driver of the MKL27Z (\<open>mcu/usb-mkl27z.c\<close>). Its controller reads and writes the packets in
  the memory of the processor, through a table of buffer descriptors: for each endpoint and direction
  there are two, which are used in turn, and each says which of the two kinds of data packet comes
  next. The types of requests, events and states are those of \<open>usb_lld.h\<close> and \<open>usb_lld_driver.h\<close>, in
  \<open>Usb_Lld\<close>; routines that have the name of one there have the suffix \<open>_kl\<close>.

  The flags of the registers \<open>ISTAT\<close> and \<open>ERRSTAT\<close> are cleared when a one is written to them; what a write does to
  them is the parameter \<open>w1c\<close>, from the old value and the one written. The controller itself
  changes the descriptors when a packet is done; the properties take what it leaves there as a parameter.
\<close>

unbundle bit_operations_syntax

section \<open>State\<close>

record bd =
  bd_ctrl :: u32
  bd_buf :: addr

text \<open>
  The request, \<open>dev->configuration\<close> and \<open>status_info\<close> are in the processor's memory, at the addresses
  the compiler gave them: the controller stores the setup packet into the first, and all of them are passed as
  buffers. The other members of \<open>struct usb_dev\<close> are fields.
\<close>

record kl =
  rx_odd :: "nat \<Rightarrow> bool"
  tx_odd :: "nat \<Rightarrow> bool"
  BD_table :: "nat \<Rightarrow> bd"
  ENDPT :: "nat \<Rightarrow> u8"
  OTGCTL :: u8
  ISTAT :: u8
  INTEN :: u8
  ERRSTAT :: u8
  ERREN :: u8
  STAT :: u8
  CTL :: u8
  ADDR :: u8
  BDTPAGE1 :: u8
  BDTPAGE2 :: u8
  BDTPAGE3 :: u8
  USBCTRL :: u8
  CONTROL :: u8
  USBTRC0 :: u8
  kl_mem :: "addr \<Rightarrow> u8"
  bdt_p :: addr
  dev_req_p :: addr
  conf_p :: addr
  status_p :: addr
  kl_feature :: u8
  kl_state :: control_state
  kl_data :: ctrl_data

definition USB_IS_STALL :: u8 where "USB_IS_STALL = 0x80"
definition USB_IS_TOKDNE :: u8 where "USB_IS_TOKDNE = 0x08"
definition USB_IS_ERROR :: u8 where "USB_IS_ERROR = 0x02"
definition USB_IS_USBRST :: u8 where "USB_IS_USBRST = 0x01"

definition TOK_PID :: "u32 \<Rightarrow> u32" where
  "TOK_PID ctrl = drop_bit 2 ctrl AND 0x0f"

definition USB_TOKEN_SETUP :: u32 where "USB_TOKEN_SETUP = 0x0d"

text \<open>The number of a descriptor: of endpoint \<open>n\<close>, for sending or not, the odd or the even one.\<close>

definition bd_no :: "nat \<Rightarrow> bool \<Rightarrow> bool \<Rightarrow> nat" where
  "bd_no n tx od = 4 * n + (if tx then 2 else 0) + (if od then 1 else 0)"

definition set_bd :: "nat \<Rightarrow> u32 \<Rightarrow> addr \<Rightarrow> kl \<Rightarrow> kl" where
  "set_bd i c b s = s\<lparr>BD_table := (BD_table s)(i := \<lparr>bd_ctrl = c, bd_buf = b\<rparr>)\<rparr>"

definition set_bd_ctrl :: "nat \<Rightarrow> u32 \<Rightarrow> kl \<Rightarrow> kl" where
  "set_bd_ctrl i c s = s\<lparr>BD_table := (BD_table s)(i := (BD_table s i)\<lparr>bd_ctrl := c\<rparr>)\<rparr>"

text \<open>The control word of a packet: its length, \<open>OWN\<close> and \<open>DTS\<close>, and which data packet it is.\<close>

definition bd_word :: "u32 \<Rightarrow> bool \<Rightarrow> u32" where
  "bd_word len data01 = push_bit 16 len OR 0x0088 OR push_bit 6 (if data01 then 1 else 0)"

definition dev_req_of :: "kl \<Rightarrow> device_req" where
  "dev_req_of s =
     (let m = kl_mem s; p = dev_req_p s
      in \<lparr>req_type = m p, req_request = m (p + 1), req_value = mem16 m (p + 2), req_index = mem16 m (p + 4),
          req_len = mem16 m (p + 6)\<rparr>)"

definition configuration_kl :: "kl \<Rightarrow> u8" where
  "configuration_kl s = kl_mem s (conf_p s)"

section \<open>The controller\<close>

definition kl27z_usb_init :: "kl \<Rightarrow> kl" where
  "kl27z_usb_init s =
     (let s = s\<lparr>rx_odd := (\<lambda>i. if i < 16 then False else rx_odd s i),
                tx_odd := (\<lambda>i. if i < 16 then False else tx_odd s i)\<rparr>;
          s = s\<lparr>BD_table := (\<lambda>i. if i < 64 then \<lparr>bd_ctrl = 0, bd_buf = 0\<rparr> else BD_table s i)\<rparr>;
          s = s\<lparr>OTGCTL := 0x80, ERREN := 0xff\<rparr>;
          s = s\<lparr>BDTPAGE1 := ucast (drop_bit 8 (bdt_p s)), BDTPAGE2 := ucast (drop_bit 16 (bdt_p s)),
                BDTPAGE3 := ucast (drop_bit 24 (bdt_p s))\<rparr>;
          s = s\<lparr>USBCTRL := 0, CONTROL := 0x10\<rparr>;
          s = s\<lparr>ENDPT := (\<lambda>i. if i < 16 then 0 else ENDPT s i)\<rparr>
      in s\<lparr>CTL := 3\<rparr>)"

definition kl27z_set_daddr :: "u8 \<Rightarrow> kl \<Rightarrow> kl" where
  "kl27z_set_daddr daddr s = s\<lparr>ADDR := daddr\<rparr>"

definition kl27z_prepare_ep0_setup :: "kl \<Rightarrow> kl" where
  "kl27z_prepare_ep0_setup s =
     set_bd (bd_no 0 False (\<not> rx_odd s 0)) 0 0 (set_bd (bd_no 0 False (rx_odd s 0)) 0x00080088 (dev_req_p s) s)"

definition kl27z_prepare_ep0_in :: "addr \<Rightarrow> u8 \<Rightarrow> bool \<Rightarrow> kl \<Rightarrow> kl" where
  "kl27z_prepare_ep0_in buf len data01 s = set_bd (bd_no 0 True (tx_odd s 0)) (bd_word (ucast len) data01) buf s"

definition kl27z_prepare_ep0_out :: "addr \<Rightarrow> u8 \<Rightarrow> bool \<Rightarrow> kl \<Rightarrow> kl" where
  "kl27z_prepare_ep0_out buf len data01 s = set_bd (bd_no 0 False (rx_odd s 0)) (bd_word (ucast len) data01) buf s"

definition kl27z_ep_is_disabled :: "nat \<Rightarrow> kl \<Rightarrow> bool" where
  "kl27z_ep_is_disabled n s \<longleftrightarrow> ENDPT s n = 0"

definition kl27z_ep_is_stall :: "nat \<Rightarrow> kl \<Rightarrow> u8" where
  "kl27z_ep_is_stall n s = drop_bit 1 (ENDPT s n AND 0x02)"

definition kl27z_ep_stall :: "nat \<Rightarrow> kl \<Rightarrow> kl" where
  "kl27z_ep_stall n s = s\<lparr>ENDPT := (ENDPT s)(n := ENDPT s n OR 0x02)\<rparr>"

definition kl27z_ep_clear_stall :: "nat \<Rightarrow> kl \<Rightarrow> kl" where
  "kl27z_ep_clear_stall n s = s\<lparr>ENDPT := (ENDPT s)(n := ENDPT s n AND NOT 0x02)\<rparr>"

definition kl27z_ep_clear_dtog :: "bool \<Rightarrow> nat \<Rightarrow> kl \<Rightarrow> kl" where
  "kl27z_ep_clear_dtog rx n s =
     (let s = (if kl27z_ep_is_stall n s = 0 then kl27z_ep_stall n s else s);
          od = (if rx then rx_odd s n else tx_odd s n);
          this = bd_no n (\<not> rx) od;
          other = bd_no n (\<not> rx) (\<not> od);
          config = bd_ctrl (BD_table s this);
          s = set_bd_ctrl other (bd_ctrl (BD_table s other) AND NOT (push_bit 6 1)) s;
          s = (if config AND 0x0080 \<noteq> 0
               then set_bd_ctrl this (config AND NOT (push_bit 6 1)) (set_bd_ctrl this 0 s) else s)
      in kl27z_ep_clear_stall n s)"

definition usb_lld_stall_kl :: "nat \<Rightarrow> kl \<Rightarrow> kl" where
  "usb_lld_stall_kl n s = kl27z_ep_stall n s"

section \<open>Control transfers\<close>

definition usb_lld_ctrl_error_kl :: "kl \<Rightarrow> kl" where
  "usb_lld_ctrl_error_kl s = kl27z_ep_stall 0 (s\<lparr>kl_state := STALLED\<rparr>)"

definition usb_lld_ctrl_ack_kl :: "kl \<Rightarrow> usb_event \<times> kl" where
  "usb_lld_ctrl_ack_kl s =
     (USB_EVENT_OK, kl27z_prepare_ep0_in (dev_req_p s) 0 True (s\<lparr>kl_state := WAIT_STATUS_IN\<rparr>))"

definition usb_lld_ctrl_recv_kl :: "addr \<Rightarrow> u32 \<Rightarrow> kl \<Rightarrow> usb_event \<times> kl" where
  "usb_lld_ctrl_recv_kl p len s =
     (let s = s\<lparr>kl_data := (kl_data s)\<lparr>cd_addr := p, cd_len := ucast len\<rparr>\<rparr>;
          len = (if USB_MAX_PACKET_SIZE < len then USB_MAX_PACKET_SIZE else len);
          s = kl27z_prepare_ep0_out p (ucast len) True s
      in (USB_EVENT_OK, s\<lparr>kl_state := OUT_DATA\<rparr>))"

definition usb_lld_ctrl_send_kl :: "addr \<Rightarrow> u32 \<Rightarrow> kl \<Rightarrow> usb_event \<times> kl" where
  "usb_lld_ctrl_send_kl buf buflen s =
     (let len_asked = req_len (dev_req_of s);
          c = (kl_data s)\<lparr>cd_addr := buf, cd_len := ucast buflen\<rparr>;
          c = (if len_asked \<le> cd_len c then c\<lparr>cd_len := len_asked\<rparr>
               else if cd_len c \<noteq> 0 \<and> (ucast (cd_len c) :: u32) mod USB_MAX_PACKET_SIZE = 0
               then c\<lparr>cd_require_zlp := 1\<rparr> else c);
          (len, s) = (if ucast (cd_len c) < USB_MAX_PACKET_SIZE
                      then (ucast (cd_len c) :: u32, s\<lparr>kl_state := LAST_IN_DATA\<rparr>)
                      else (USB_MAX_PACKET_SIZE, s\<lparr>kl_state := IN_DATA\<rparr>));
          s = kl27z_prepare_ep0_in (cd_addr c) (ucast len) True s;
          s = s\<lparr>kl_data := c\<lparr>cd_len := cd_len c - ucast len, cd_addr := cd_addr c + len\<rparr>\<rparr>
      in (USB_EVENT_OK, s))"

text \<open>\<open>stat\<close> is the status register; its bit 2 says which of the two descriptors was used.\<close>

definition handle_datastage_out_kl :: "u8 \<Rightarrow> kl \<Rightarrow> kl" where
  "handle_datastage_out_kl stat s =
     (let w = bd_ctrl (BD_table s (bd_no 0 False (bit stat 2)));
          data01 = (\<not> bit w 6);
          len = drop_bit 16 w AND 0x3ff;
          c = kl_data s;
          c = c\<lparr>cd_len := cd_len c - ucast len, cd_addr := cd_addr c + len\<rparr>;
          s = s\<lparr>kl_data := c\<rparr>;
          len = (if USB_MAX_PACKET_SIZE < ucast (cd_len c) then USB_MAX_PACKET_SIZE else ucast (cd_len c))
      in if cd_len c = 0 then kl27z_prepare_ep0_in (dev_req_p s) 0 True (s\<lparr>kl_state := WAIT_STATUS_IN\<rparr>)
         else kl27z_prepare_ep0_out (cd_addr c) (ucast len) data01 (s\<lparr>kl_state := OUT_DATA\<rparr>))"

definition handle_datastage_in_kl :: "u8 \<Rightarrow> kl \<Rightarrow> kl" where
  "handle_datastage_in_kl stat s =
     (let data01 = (\<not> bit (bd_ctrl (BD_table s (bd_no 0 True (bit stat 2)))) 6);
          c = kl_data s; len = USB_MAX_PACKET_SIZE
      in if cd_len c = 0 \<and> kl_state s = LAST_IN_DATA then
           (if cd_require_zlp c \<noteq> 0
            then kl27z_prepare_ep0_in (dev_req_p s) 0 data01 (s\<lparr>kl_data := c\<lparr>cd_require_zlp := 0\<rparr>\<rparr>)
            else kl27z_prepare_ep0_out (dev_req_p s) 0 True (s\<lparr>kl_state := WAIT_STATUS_OUT\<rparr>))
         else
           (let s = s\<lparr>kl_state := (if ucast (cd_len c) \<le> len then LAST_IN_DATA else IN_DATA)\<rparr>;
                len = (if ucast (cd_len c) < len then ucast (cd_len c) else len);
                s = kl27z_prepare_ep0_in (cd_addr c) (ucast len) data01 s
            in s\<lparr>kl_data := c\<lparr>cd_len := cd_len c - ucast len, cd_addr := cd_addr c + len\<rparr>\<rparr>))"

section \<open>Standard device requests\<close>

definition send_status_kl :: "u16 \<Rightarrow> kl \<Rightarrow> (usb_event \<times> kl) option" where
  "send_status_kl w s = Some (usb_lld_ctrl_send_kl (status_p s) 2 (s\<lparr>kl_mem := put16 (status_p s) w (kl_mem s)\<rparr>))"

definition std_get_status_kl :: "kl \<Rightarrow> (usb_event \<times> kl) option" where
  "std_get_status_kl s =
     (let arg = dev_req_of s; status = mem16 (kl_mem s) (status_p s)
      in if req_value arg \<noteq> 0 \<or> req_len arg \<noteq> 2 \<or> drop_bit 8 (req_index arg) \<noteq> 0 \<or>
           USB_SETUP_SET (req_type arg) then None
         else (case recipient (req_type arg) of
           DEVICE_RECIPIENT \<Rightarrow>
             (if req_index arg = 0 then
                (let f = kl_feature s;
                     status = (if f AND push_bit 5 1 \<noteq> 0 then status OR 2 else status AND NOT 2);
                     status = (if f AND push_bit 6 1 \<noteq> 0 then status OR 1 else status AND NOT 1)
                 in send_status_kl status s)
              else None)
         | INTERFACE_RECIPIENT \<Rightarrow>
             (if configuration_kl s = 0 then None else Some (USB_EVENT_GET_STATUS_INTERFACE, s))
         | ENDPOINT_RECIPIENT \<Rightarrow>
             (let n = unat (req_index arg AND 0x0f)
              in if req_index arg AND 0x70 \<noteq> 0 \<or> n = 0 then None
                 else if kl27z_ep_is_disabled n s then None
                 else send_status_kl (ucast (kl27z_ep_is_stall n s)) s)
         | OTHER_RECIPIENT \<Rightarrow> None))"

definition std_clear_feature_kl :: "kl \<Rightarrow> (usb_event \<times> kl) option" where
  "std_clear_feature_kl s =
     (let arg = dev_req_of s
      in if USB_SETUP_GET (req_type arg) then None
         else (case recipient (req_type arg) of
           DEVICE_RECIPIENT \<Rightarrow>
             (if req_len arg \<noteq> 0 \<or> req_index arg \<noteq> 0 then None
              else if req_value arg = FEATURE_DEVICE_REMOTE_WAKEUP
              then Some (USB_EVENT_CLEAR_FEATURE_DEVICE, s\<lparr>kl_feature := kl_feature s AND NOT (push_bit 5 1)\<rparr>)
              else None)
         | ENDPOINT_RECIPIENT \<Rightarrow>
             (let n = unat (req_index arg AND 0x0f)
              in if configuration_kl s = 0 then None
                 else if req_len arg \<noteq> 0 \<or> drop_bit 8 (req_index arg) \<noteq> 0 \<or>
                   req_value arg \<noteq> FEATURE_ENDPOINT_HALT \<or> n = 0 then None
                 else if kl27z_ep_is_disabled n s then None
                 else Some (USB_EVENT_CLEAR_FEATURE_ENDPOINT, kl27z_ep_clear_dtog (req_index arg AND 0x80 = 0) n s))
         | _ \<Rightarrow> None))"

definition std_set_feature_kl :: "kl \<Rightarrow> (usb_event \<times> kl) option" where
  "std_set_feature_kl s =
     (let arg = dev_req_of s
      in if USB_SETUP_GET (req_type arg) then None
         else (case recipient (req_type arg) of
           DEVICE_RECIPIENT \<Rightarrow>
             (if req_len arg \<noteq> 0 \<or> req_index arg \<noteq> 0 then None
              else if req_value arg = FEATURE_DEVICE_REMOTE_WAKEUP
              then Some (USB_EVENT_SET_FEATURE_DEVICE, s\<lparr>kl_feature := kl_feature s OR push_bit 5 1\<rparr>)
              else None)
         | ENDPOINT_RECIPIENT \<Rightarrow>
             (let n = unat (req_index arg AND 0x0f)
              in if configuration_kl s = 0 then None
                 else if req_len arg \<noteq> 0 \<or> drop_bit 8 (req_index arg) \<noteq> 0 \<or>
                   req_value arg \<noteq> FEATURE_ENDPOINT_HALT \<or> n = 0 then None
                 else if kl27z_ep_is_disabled n s then None
                 else Some (USB_EVENT_SET_FEATURE_ENDPOINT, kl27z_ep_stall n s))
         | _ \<Rightarrow> None))"

definition std_set_address_kl :: "kl \<Rightarrow> (usb_event \<times> kl) option" where
  "std_set_address_kl s =
     (let arg = dev_req_of s
      in if USB_SETUP_GET (req_type arg) then None
         else if recipient (req_type arg) = DEVICE_RECIPIENT \<and> req_len arg = 0 \<and> req_value arg \<le> 127 \<and>
           req_index arg = 0 \<and> configuration_kl s = 0 then Some (usb_lld_ctrl_ack_kl s)
         else None)"

definition std_get_descriptor_kl :: "kl \<Rightarrow> (usb_event \<times> kl) option" where
  "std_get_descriptor_kl s =
     (if USB_SETUP_SET (req_type (dev_req_of s)) then None else Some (USB_EVENT_GET_DESCRIPTOR, s))"

definition std_get_configuration_kl :: "kl \<Rightarrow> (usb_event \<times> kl) option" where
  "std_get_configuration_kl s =
     (let arg = dev_req_of s
      in if USB_SETUP_SET (req_type arg) then None
         else if req_value arg \<noteq> 0 \<or> req_index arg \<noteq> 0 \<or> req_len arg \<noteq> 1 then None
         else if recipient (req_type arg) = DEVICE_RECIPIENT then Some (usb_lld_ctrl_send_kl (conf_p s) 1 s)
         else None)"

definition std_set_configuration_kl :: "kl \<Rightarrow> (usb_event \<times> kl) option" where
  "std_set_configuration_kl s =
     (let arg = dev_req_of s
      in if USB_SETUP_GET (req_type arg) then None
         else if recipient (req_type arg) = DEVICE_RECIPIENT \<and> req_index arg = 0 \<and> req_len arg = 0
         then Some (USB_EVENT_SET_CONFIGURATION, s)
         else None)"

definition std_get_interface_kl :: "kl \<Rightarrow> (usb_event \<times> kl) option" where
  "std_get_interface_kl s =
     (let arg = dev_req_of s
      in if USB_SETUP_SET (req_type arg) then None
         else if req_value arg \<noteq> 0 \<or> drop_bit 8 (req_index arg) \<noteq> 0 \<or> req_len arg \<noteq> 1 then None
         else if configuration_kl s = 0 then None
         else if recipient (req_type arg) = INTERFACE_RECIPIENT then Some (USB_EVENT_GET_INTERFACE, s)
         else None)"

definition std_set_interface_kl :: "kl \<Rightarrow> (usb_event \<times> kl) option" where
  "std_set_interface_kl s =
     (let arg = dev_req_of s
      in if USB_SETUP_GET (req_type arg) \<or> recipient (req_type arg) \<noteq> INTERFACE_RECIPIENT \<or>
           req_len arg \<noteq> 0 \<or> drop_bit 8 (req_index arg) \<noteq> 0 \<or> drop_bit 8 (req_value arg) \<noteq> 0 \<or>
           configuration_kl s = 0 then None
         else Some (USB_EVENT_SET_INTERFACE, s))"

definition std_request_kl :: "u8 \<Rightarrow> kl \<Rightarrow> (usb_event \<times> kl) option" where
  "std_request_kl req_no =
     (if req_no = 0 then std_get_status_kl
      else if req_no = 1 then std_clear_feature_kl
      else if req_no = 3 then std_set_feature_kl
      else if req_no = 5 then std_set_address_kl
      else if req_no = 6 then std_get_descriptor_kl
      else if req_no = 8 then std_get_configuration_kl
      else if req_no = 9 then std_set_configuration_kl
      else if req_no = 10 then std_get_interface_kl
      else if req_no = 11 then std_set_interface_kl
      else (\<lambda>s. None))"

section \<open>Events\<close>

definition handle_setup0_kl :: "kl \<Rightarrow> usb_event \<times> kl" where
  "handle_setup0_kl s =
     (let s = s\<lparr>kl_data := \<lparr>cd_addr = 0, cd_len = 0, cd_require_zlp = 0\<rparr>\<rparr>; req = dev_req_of s
      in if req_type req AND REQUEST_TYPE = STANDARD_REQUEST then
           (case std_request_kl (req_request req) s of
              None \<Rightarrow> (USB_EVENT_OK, usb_lld_ctrl_error_kl s)
            | Some r \<Rightarrow> r)
         else (USB_EVENT_CTRL_REQUEST, s))"

definition handle_in0_kl :: "u8 \<Rightarrow> kl \<Rightarrow> usb_event \<times> kl" where
  "handle_in0_kl stat s =
     (let st = kl_state s
      in if st = IN_DATA \<or> st = LAST_IN_DATA then (USB_EVENT_OK, handle_datastage_in_kl stat s)
         else if st = WAIT_STATUS_IN then
           (let req = dev_req_of s; value' = req_value req;
                (r, s) = (if req_request req = SET_ADDRESS \<and>
                    req_type req AND (REQUEST_TYPE OR RECIPIENT) = STANDARD_REQUEST OR 0
                  then (let s = kl27z_set_daddr (ucast value') s
                        in (USB_EVENT_DEVICE_ADDRESSED, s\<lparr>rx_odd := (rx_odd s)(0 := False)\<rparr>))
                  else (USB_EVENT_CTRL_WRITE_FINISH, s))
            in (r, kl27z_prepare_ep0_setup (s\<lparr>kl_state := WAIT_SETUP\<rparr>)))
         else (USB_EVENT_OK, kl27z_ep_stall 0 (s\<lparr>kl_state := STALLED\<rparr>)))"

definition handle_out0_kl :: "u8 \<Rightarrow> kl \<Rightarrow> kl" where
  "handle_out0_kl stat s =
     (if kl_state s = OUT_DATA then handle_datastage_out_kl stat s
      else if kl_state s = WAIT_STATUS_OUT then kl27z_prepare_ep0_setup (s\<lparr>kl_state := WAIT_SETUP\<rparr>)
      else kl27z_ep_stall 0 (s\<lparr>kl_state := STALLED\<rparr>))"

definition flip_rx :: "nat \<Rightarrow> kl \<Rightarrow> kl" where
  "flip_rx n s = s\<lparr>rx_odd := (rx_odd s)(n := \<not> rx_odd s n)\<rparr>"

definition flip_tx :: "nat \<Rightarrow> kl \<Rightarrow> kl" where
  "flip_tx n s = s\<lparr>tx_odd := (tx_odd s)(n := \<not> tx_odd s n)\<rparr>"

definition set_istat :: "(u8 \<Rightarrow> u8 \<Rightarrow> u8) \<Rightarrow> u8 \<Rightarrow> kl \<Rightarrow> kl" where
  "set_istat w1c v s = s\<lparr>ISTAT := w1c (ISTAT s) v\<rparr>"

definition handle_transaction :: "(u8 \<Rightarrow> u8 \<Rightarrow> u8) \<Rightarrow> u8 \<Rightarrow> kl \<Rightarrow> u32 \<times> kl" where
  "handle_transaction w1c stat s =
     (let od = bit stat 2; n = unat (drop_bit 4 stat); rx = (stat AND 0x08 = 0)
      in if n = 0 then
           (if rx then
              (let s = flip_rx 0 s
               in if TOK_PID (bd_ctrl (BD_table s (bd_no 0 False od))) = USB_TOKEN_SETUP then
                    (let (r, s) = handle_setup0_kl s; s = set_istat w1c USB_IS_TOKDNE s
                     in (USB_MAKE_EV r, s\<lparr>CTL := 1\<rparr>))
                  else (event_no USB_EVENT_OK, set_istat w1c USB_IS_TOKDNE (handle_out0_kl stat s)))
            else
              (let s = flip_tx 0 s; (r, s) = handle_in0_kl stat s
               in (USB_MAKE_EV r, set_istat w1c USB_IS_TOKDNE s)))
         else if rx then
           (let len = ucast (drop_bit 16 (bd_ctrl (BD_table s (bd_no n False od))) AND 0x3ff)
            in (USB_MAKE_TXRX (drop_bit 4 stat) False len, set_istat w1c USB_IS_TOKDNE (flip_rx n s)))
         else
           (let dmaerr = ERRSTAT s AND push_bit 5 1;
                len = ucast (drop_bit 16 (bd_ctrl (BD_table s (bd_no n True od))) AND 0x3ff);
                s = (if dmaerr \<noteq> 0 then s\<lparr>ERRSTAT := w1c (ERRSTAT s) dmaerr\<rparr> else s)
            in (USB_MAKE_TXRX (drop_bit 4 stat) True len, set_istat w1c USB_IS_TOKDNE (flip_tx n s))))"

definition usb_lld_event_handler_kl :: "(u8 \<Rightarrow> u8 \<Rightarrow> u8) \<Rightarrow> kl \<Rightarrow> u32 \<times> kl" where
  "usb_lld_event_handler_kl w1c s =
     (let istat = ISTAT s; stat = STAT s
      in if istat AND USB_IS_USBRST \<noteq> 0 then (USB_MAKE_EV USB_EVENT_DEVICE_RESET, set_istat w1c USB_IS_USBRST s)
         else if istat AND USB_IS_TOKDNE \<noteq> 0 then handle_transaction w1c stat s
         else if istat AND USB_IS_ERROR \<noteq> 0 then
           (event_no USB_EVENT_OK, set_istat w1c USB_IS_ERROR (s\<lparr>ERRSTAT := w1c (ERRSTAT s) (ERRSTAT s)\<rparr>))
         else if istat AND USB_IS_STALL \<noteq> 0 then
           (let s = (if kl27z_ep_is_stall 0 s \<noteq> 0
                     then kl27z_prepare_ep0_setup (kl27z_ep_clear_stall 0 (s\<lparr>kl_state := WAIT_SETUP\<rparr>)) else s)
            in (event_no USB_EVENT_OK, set_istat w1c USB_IS_STALL s))
         else (event_no USB_EVENT_OK, s))"

section \<open>The driver's interface\<close>

definition usb_lld_set_configuration_kl :: "u8 \<Rightarrow> kl \<Rightarrow> kl" where
  "usb_lld_set_configuration_kl config s = s\<lparr>kl_mem := (kl_mem s)(conf_p s := config)\<rparr>"

definition usb_lld_current_configuration_kl :: "kl \<Rightarrow> u8" where
  "usb_lld_current_configuration_kl s = configuration_kl s"

definition INTEN_INIT :: u8 where
  "INTEN_INIT = USB_IS_STALL OR USB_IS_TOKDNE OR USB_IS_ERROR OR USB_IS_USBRST"

definition usb_lld_init_kl :: "(u8 \<Rightarrow> u8 \<Rightarrow> u8) \<Rightarrow> u8 \<Rightarrow> kl \<Rightarrow> kl" where
  "usb_lld_init_kl w1c f s =
     (let s = usb_lld_set_configuration_kl 0 s;
          s = s\<lparr>kl_feature := f, kl_state := WAIT_SETUP\<rparr>;
          s = kl27z_usb_init (kl27z_set_daddr 0 s);
          s = s\<lparr>ENDPT := (ENDPT s)(0 := 0x0d)\<rparr>
      in (set_istat w1c 0xff s)\<lparr>INTEN := INTEN_INIT\<rparr>)"

definition usb_lld_reset_kl :: "(u8 \<Rightarrow> u8 \<Rightarrow> u8) \<Rightarrow> u8 \<Rightarrow> kl \<Rightarrow> kl" where
  "usb_lld_reset_kl w1c f s =
     (let s = usb_lld_set_configuration_kl 0 s;
          s = s\<lparr>kl_feature := f, kl_state := WAIT_SETUP\<rparr>;
          s = s\<lparr>USBTRC0 := 0xc0, CTL := 0\<rparr>;
          s = kl27z_usb_init (kl27z_set_daddr 0 s)
      in (set_istat w1c 0xff s)\<lparr>INTEN := INTEN_INIT\<rparr>)"

definition usb_lld_setup_endp_kl :: "nat \<Rightarrow> bool \<Rightarrow> bool \<Rightarrow> kl \<Rightarrow> kl" where
  "usb_lld_setup_endp_kl n rx_en tx_en s =
     (if n = 0 then kl27z_prepare_ep0_setup (s\<lparr>ENDPT := (ENDPT s)(0 := 0x0d)\<rparr>)
      else
        (let s = s\<lparr>ENDPT := (ENDPT s)(n := (if rx_en then 8 else 0) OR (if tx_en then 4 else 0) OR 0x11)\<rparr>;
             s = set_bd (bd_no n False (rx_odd s n)) 0 0 s;
             s = set_bd (bd_no n False (\<not> rx_odd s n)) 0x0040 0 s;
             s = set_bd (bd_no n True (tx_odd s n)) 0 0 s
         in set_bd (bd_no n True (\<not> tx_odd s n)) 0x0040 0 s))"

definition usb_lld_rx_enable_buf_kl :: "nat \<Rightarrow> addr \<Rightarrow> u32 \<Rightarrow> kl \<Rightarrow> kl" where
  "usb_lld_rx_enable_buf_kl n buf len s =
     (let data01 = (\<not> bit (bd_ctrl (BD_table s (bd_no n False (\<not> rx_odd s n)))) 6)
      in set_bd (bd_no n False (rx_odd s n)) (bd_word len data01) buf s)"

definition usb_lld_tx_enable_buf_kl :: "nat \<Rightarrow> addr \<Rightarrow> u32 \<Rightarrow> kl \<Rightarrow> kl" where
  "usb_lld_tx_enable_buf_kl n buf len s =
     (let data01 = (\<not> bit (bd_ctrl (BD_table s (bd_no n True (\<not> tx_odd s n)))) 6)
      in set_bd (bd_no n True (tx_odd s n)) (bd_word len data01) buf s)"

end
