(* ===== verification/Usb_Kl27z_Packets.thy ===== *)
theory Usb_Kl27z_Packets
  imports Usb_Kl27z Usb_Control
begin

text \<open>
  What the driver of the MKL27Z (\<open>mcu/usb-mkl27z.c\<close>) guarantees: the packets of a control transfer and of a data
  endpoint are put into the descriptor that the controller uses next, and are of the kind (\<open>DATA0\<close> or \<open>DATA1\<close>)
  that the host expects next.

  The controller has a bit of its own for each endpoint and direction, which says which descriptor is next; here it is
  an argument. It takes the packet of that descriptor when the driver has given the descriptor to it (\<open>OWN\<close>), changes the
  control word (\<open>wb\<close>), and reports the descriptor in \<open>STAT\<close>. The properties assume that it leaves the bit for the
  kind of packet as it was.
\<close>

unbundle bit_operations_syntax

section \<open>Descriptors\<close>

lemma bd_word_bits: "bit (bd_word l d) 7" "bit (bd_word l d) 6 \<longleftrightarrow> d"
  by (auto simp: bd_word_def bit_simps)

lemma bd_word_len:
  assumes "l < 1024"
  shows "drop_bit 16 (bd_word l d) AND 0x3ff = l"
proof (rule bit_word_eqI)
  fix i :: nat
  assume i: "i < LENGTH(32)"
  have "take_bit 10 l = l"
    using assms by (simp add: word_unat_eq_iff unsigned_take_bit_eq take_bit_nat_eq_self word_less_nat_alt)
  then have l: "bit l i \<longleftrightarrow> i < 10 \<and> bit l i" by (metis bit_take_bit_iff)
  have m: "bit (0x3ff :: u32) i \<longleftrightarrow> i < 10"
  proof -
    have "(0x3ff :: u32) = mask 10" by (simp add: mask_eq_exp_minus_1)
    with i show ?thesis by (simp only: bit_mask_iff) auto
  qed
  have "(0x88 :: u32) = push_bit 3 1 OR push_bit 7 1" by simp
  then show "bit (drop_bit 16 (bd_word l d) AND 0x3ff) i = bit l i"
    using l i m by (auto simp: bd_word_def bit_simps)
qed

lemma bd_no_eq [simp]: "bd_no n tx od = bd_no n tx od' \<longleftrightarrow> od = od'"
  "bd_no n True od \<noteq> bd_no n False od'" "bd_no n False od \<noteq> bd_no n True od'"
  by (auto simp: bd_no_def)

definition stat_of :: "nat \<Rightarrow> bool \<Rightarrow> bool \<Rightarrow> u8" where
  "stat_of n tx od = push_bit 4 (of_nat n) OR (if tx then 8 else 0) OR (if od then 4 else 0)"

lemma stat_of:
  assumes "n < 16"
  shows "bit (stat_of n tx od) 2 \<longleftrightarrow> od" "drop_bit 4 (stat_of n tx od) = of_nat n"
    "stat_of n tx od AND 8 = 0 \<longleftrightarrow> \<not> tx"
proof -
  have n: "n \<in> {0, 1, 2, 3, 4, 5, 6, 7, 8, 9, 10, 11, 12, 13, 14, 15}" using assms by simp presburger
  show "bit (stat_of n tx od) 2 \<longleftrightarrow> od" by (auto simp: stat_of_def bit_simps)
  show "drop_bit 4 (stat_of n tx od) = of_nat n" using n by (cases tx; cases od) (auto simp: stat_of_def)
  show "stat_of n tx od AND 8 = 0 \<longleftrightarrow> \<not> tx" using n by (cases tx; cases od) (auto simp: stat_of_def)
qed

definition keeps_kind :: "(u32 \<Rightarrow> u32) \<Rightarrow> bool" where
  "keeps_kind wb \<longleftrightarrow> (\<forall>w. bit (wb w) 6 = bit w 6)"

text \<open>The host asks endpoint \<open>n\<close> for a packet: its kind and its bytes, when there is one.\<close>

definition in_token :: "(u32 \<Rightarrow> u32) \<Rightarrow> nat \<Rightarrow> bool \<Rightarrow> kl \<Rightarrow> (bool \<times> u8 list) option \<times> kl" where
  "in_token wb n od s =
     (let i = bd_no n True od; d = BD_table s i; w = bd_ctrl d
      in if bit w 7 then (Some (bit w 6, bytes (kl_mem s) (bd_buf d) (unat (drop_bit 16 w AND 0x3ff))),
           set_bd_ctrl i (wb w) s)
         else (None, s))"

section \<open>Control transfers to the host\<close>

text \<open>
  The data stage: the host takes packets, and the driver handles each, as long as the driver has not turned to the
  status stage; at most \<open>k\<close> packets.
\<close>

fun in_stage_kl ::
  "(u8 \<Rightarrow> u8 \<Rightarrow> u8) \<Rightarrow> (u32 \<Rightarrow> u32) \<Rightarrow> nat \<Rightarrow> bool \<Rightarrow> kl \<Rightarrow> (bool \<times> u8 list) list \<times> kl" where
  "in_stage_kl w1c wb 0 od s = ([], s)"
| "in_stage_kl w1c wb (Suc k) od s =
     (if kl_state s = IN_DATA \<or> kl_state s = LAST_IN_DATA then
        (case in_token wb 0 od s of
           (None, s) \<Rightarrow> ([], s)
         | (Some p, s) \<Rightarrow>
             (let (ps, s) = in_stage_kl w1c wb k (\<not> od) (snd (handle_transaction w1c (stat_of 0 True od) s))
              in (p # ps, s)))
      else ([], s))"

text \<open>The driver has given a packet of kind \<open>d\<close> with \<open>k\<close> bytes from \<open>b\<close> to the controller.\<close>

definition offers_kl :: "kl \<Rightarrow> bool \<Rightarrow> bool \<Rightarrow> addr \<Rightarrow> nat \<Rightarrow> bool" where
  "offers_kl s od d b k \<longleftrightarrow> tx_odd s 0 = od \<and> k \<le> 64 \<and>
     BD_table s (bd_no 0 True od) = \<lparr>bd_ctrl = bd_word (of_nat k) d, bd_buf = b\<rparr> \<and>
     kl_state s = (if cd_len (kl_data s) = 0 then LAST_IN_DATA else IN_DATA)"

text \<open>What the controller leaves when the host has taken that packet, and what the handler does.\<close>

definition after_in :: "(u8 \<Rightarrow> u8 \<Rightarrow> u8) \<Rightarrow> (u32 \<Rightarrow> u32) \<Rightarrow> bool \<Rightarrow> kl \<Rightarrow> kl" where
  "after_in w1c wb od s = snd (handle_transaction w1c (stat_of 0 True od) (snd (in_token wb 0 od s)))"

lemma in_token_offers:
  assumes "offers_kl s od d b k"
  shows "in_token wb 0 od s = (Some (d, bytes (kl_mem s) b k), set_bd_ctrl (bd_no 0 True od) (wb (bd_word (of_nat k) d)) s)"
proof -
  have k: "k \<le> 64" using assms by (simp add: offers_kl_def)
  then have "(of_nat k :: u32) < 1024" "unat (of_nat k :: u32) = k"
    by (simp_all add: word_less_nat_alt unat_of_nat take_bit_nat_eq_self)
  then show ?thesis
    using assms by (simp add: offers_kl_def in_token_def bd_word_bits bd_word_len Let_def)
qed

lemma in_stage_kl_step:
  assumes "offers_kl s od d b k"
  shows "in_stage_kl w1c wb (Suc n) od s =
    (let (ps, s') = in_stage_kl w1c wb n (\<not> od) (after_in w1c wb od s) in ((d, bytes (kl_mem s) b k) # ps, s'))"
  using assms by (simp add: in_token_offers [OF assms] after_in_def offers_kl_def)

lemma after_in_eq:
  assumes o: "offers_kl s od d b k" and wb: "keeps_kind wb"
  obtains s1 where "after_in w1c wb od s = set_istat w1c USB_IS_TOKDNE (handle_datastage_in_kl (stat_of 0 True od) s1)"
    "bit (bd_ctrl (BD_table s1 (bd_no 0 True od))) 6 = d" "kl_data s1 = kl_data s" "kl_state s1 = kl_state s"
    "kl_mem s1 = kl_mem s" "tx_odd s1 0 = (\<not> od)" "rx_odd s1 = rx_odd s" "dev_req_p s1 = dev_req_p s"
proof
  let ?s = "flip_tx 0 (set_bd_ctrl (bd_no 0 True od) (wb (bd_word (of_nat k) d)) s)"
  have st: "kl_state ?s = IN_DATA \<or> kl_state ?s = LAST_IN_DATA"
    using o by (auto simp: flip_tx_def set_bd_ctrl_def offers_kl_def)
  show "after_in w1c wb od s = set_istat w1c USB_IS_TOKDNE (handle_datastage_in_kl (stat_of 0 True od) ?s)"
    using st stat_of [of 0 True od]
    by (auto simp: after_in_def in_token_offers [OF o] handle_transaction_def handle_in0_kl_def Let_def)
  show "bit (bd_ctrl (BD_table ?s (bd_no 0 True od))) 6 = d"
    using wb by (simp add: flip_tx_def set_bd_ctrl_def keeps_kind_def bd_word_bits)
  show "kl_data ?s = kl_data s" "kl_state ?s = kl_state s" "kl_mem ?s = kl_mem s" "tx_odd ?s 0 = (\<not> od)"
    "rx_odd ?s = rx_odd s" "dev_req_p ?s = dev_req_p s"
    using o by (simp_all add: flip_tx_def set_bd_ctrl_def offers_kl_def)
qed

text \<open>The three cases of the data stage: another packet with data, an empty one, and the status stage.\<close>

lemma after_in_more:
  assumes o: "offers_kl s od d b k" and wb: "keeps_kind wb" and more: "cd_len (kl_data s) \<noteq> 0"
    and n: "n = min 64 (unat (cd_len (kl_data s)))"
  shows "offers_kl (after_in w1c wb od s) (\<not> od) (\<not> d) (cd_addr (kl_data s)) n"
    and "kl_data (after_in w1c wb od s) = (kl_data s)\<lparr>cd_len := cd_len (kl_data s) - of_nat n,
      cd_addr := cd_addr (kl_data s) + of_nat n\<rparr>"
    and "kl_mem (after_in w1c wb od s) = kl_mem s"
proof -
  obtain s1 where s1: "after_in w1c wb od s = set_istat w1c USB_IS_TOKDNE (handle_datastage_in_kl (stat_of 0 True od) s1)"
    "bit (bd_ctrl (BD_table s1 (bd_no 0 True od))) 6 = d" "kl_data s1 = kl_data s" "kl_state s1 = kl_state s"
    "kl_mem s1 = kl_mem s" "tx_odd s1 0 = (\<not> od)" "dev_req_p s1 = dev_req_p s"
    using after_in_eq [OF o wb] by blast
  let ?c = "kl_data s" and ?l = "if ucast (cd_len (kl_data s)) < USB_MAX_PACKET_SIZE then ucast (cd_len (kl_data s)) else USB_MAX_PACKET_SIZE"
  have u: "unat (ucast (cd_len ?c) :: u32) = unat (cd_len ?c)" using unat_u16_less [of "cd_len ?c"]
    by (simp add: unsigned_ucast_eq take_bit_nat_eq_self)
  have l: "?l = of_nat n"
    using u by (cases "unat (cd_len ?c) < 64")
      (simp_all add: n USB_MAX_PACKET_SIZE_def word_less_nat_alt word_unat_eq_iff unat_of_nat take_bit_nat_eq_self)
  have "n \<le> 64" by (simp add: n)
  then have c: "ucast (of_nat n :: u32) = (of_nat n :: u16)" "ucast (ucast (of_nat n :: u32) :: u8) = (of_nat n :: u32)"
    by (simp_all add: word_unat_eq_iff unsigned_ucast_eq unsigned_take_bit_eq unat_of_nat take_bit_nat_eq_self)
  have "cd_len ?c = of_nat n \<longleftrightarrow> unat (cd_len ?c) = n"
    using \<open>n \<le> 64\<close> by (simp add: word_unat_eq_iff unat_of_nat take_bit_nat_eq_self)
  then have last: "cd_len ?c = of_nat n \<longleftrightarrow> (ucast (cd_len ?c) :: u32) \<le> USB_MAX_PACKET_SIZE"
    using u by (auto simp: USB_MAX_PACKET_SIZE_def word_le_nat_alt n)
  have after: "after_in w1c wb od s = set_istat w1c USB_IS_TOKDNE ((kl27z_prepare_ep0_in (cd_addr ?c) (ucast ?l) (\<not> d)
      (s1\<lparr>kl_state := (if ucast (cd_len ?c) \<le> USB_MAX_PACKET_SIZE then LAST_IN_DATA else IN_DATA)\<rparr>))
      \<lparr>kl_data := ?c\<lparr>cd_len := cd_len ?c - ucast ?l, cd_addr := cd_addr ?c + ?l\<rparr>\<rparr>)"
    unfolding s1(1) handle_datastage_in_kl_def Let_def using s1(2,3) more by (simp add: stat_of)
  show "kl_data (after_in w1c wb od s) = ?c\<lparr>cd_len := cd_len ?c - of_nat n, cd_addr := cd_addr ?c + of_nat n\<rparr>"
    unfolding after l by (simp add: set_istat_def c)
  show "kl_mem (after_in w1c wb od s) = kl_mem s"
    unfolding after by (simp add: set_istat_def kl27z_prepare_ep0_in_def set_bd_def s1(5))
  show "offers_kl (after_in w1c wb od s) (\<not> od) (\<not> d) (cd_addr ?c) n"
    unfolding after l offers_kl_def using s1(6) last \<open>n \<le> 64\<close>
    by (simp add: set_istat_def kl27z_prepare_ep0_in_def set_bd_def c)
qed

text \<open>The driver waits for the empty packet that ends the transfer, which is a \<open>DATA1\<close> packet.\<close>

definition awaits_status :: "kl \<Rightarrow> bool" where
  "awaits_status s \<longleftrightarrow> kl_state s = WAIT_STATUS_OUT \<and>
     BD_table s (bd_no 0 False (rx_odd s 0)) = \<lparr>bd_ctrl = bd_word 0 True, bd_buf = dev_req_p s\<rparr>"

lemma after_in_empty:
  assumes o: "offers_kl s od d b k" and wb: "keeps_kind wb" and "cd_len (kl_data s) = 0" "cd_require_zlp (kl_data s) \<noteq> 0"
  shows "offers_kl (after_in w1c wb od s) (\<not> od) (\<not> d) (dev_req_p s) 0"
    and "kl_data (after_in w1c wb od s) = (kl_data s)\<lparr>cd_require_zlp := 0\<rparr>"
    and "kl_mem (after_in w1c wb od s) = kl_mem s"
proof -
  obtain s1 where s1: "after_in w1c wb od s = set_istat w1c USB_IS_TOKDNE (handle_datastage_in_kl (stat_of 0 True od) s1)"
    "bit (bd_ctrl (BD_table s1 (bd_no 0 True od))) 6 = d" "kl_data s1 = kl_data s" "kl_state s1 = kl_state s"
    "kl_mem s1 = kl_mem s" "tx_odd s1 0 = (\<not> od)" "dev_req_p s1 = dev_req_p s"
    using after_in_eq [OF o wb] by blast
  show "offers_kl (after_in w1c wb od s) (\<not> od) (\<not> d) (dev_req_p s) 0"
    "kl_data (after_in w1c wb od s) = (kl_data s)\<lparr>cd_require_zlp := 0\<rparr>" "kl_mem (after_in w1c wb od s) = kl_mem s"
    using assms(1,3,4) s1(2-7)
    by (simp_all add: s1(1) offers_kl_def awaits_status_def handle_datastage_in_kl_def stat_of kl27z_prepare_ep0_in_def kl27z_prepare_ep0_out_def
      set_bd_def set_istat_def Let_def)
qed

lemma after_in_done:
  assumes o: "offers_kl s od d b k" and wb: "keeps_kind wb" and "cd_len (kl_data s) = 0" "cd_require_zlp (kl_data s) = 0"
  shows "awaits_status (after_in w1c wb od s)" "tx_odd (after_in w1c wb od s) 0 = (\<not> od)" "kl_mem (after_in w1c wb od s) = kl_mem s"
proof -
  obtain s1 where s1: "after_in w1c wb od s = set_istat w1c USB_IS_TOKDNE (handle_datastage_in_kl (stat_of 0 True od) s1)"
    "bit (bd_ctrl (BD_table s1 (bd_no 0 True od))) 6 = d" "kl_data s1 = kl_data s" "kl_state s1 = kl_state s"
    "kl_mem s1 = kl_mem s" "tx_odd s1 0 = (\<not> od)" "dev_req_p s1 = dev_req_p s"
    using after_in_eq [OF o wb] by blast
  show "awaits_status (after_in w1c wb od s)" "tx_odd (after_in w1c wb od s) 0 = (\<not> od)"
    "kl_mem (after_in w1c wb od s) = kl_mem s"
    using assms(1,3,4) s1(2-7)
    by (simp_all add: s1(1) offers_kl_def awaits_status_def handle_datastage_in_kl_def stat_of kl27z_prepare_ep0_in_def kl27z_prepare_ep0_out_def
      set_bd_def set_istat_def Let_def)
qed

text \<open>The packets are of alternating kinds.\<close>

fun alternate :: "bool \<Rightarrow> bool list \<Rightarrow> bool" where
  "alternate d [] \<longleftrightarrow> True"
| "alternate d (x # xs) \<longleftrightarrow> x = d \<and> alternate (\<not> d) xs"

definition left :: "kl \<Rightarrow> nat" where
  "left s = unat (cd_len (kl_data s))"

definition tail_bytes :: "kl \<Rightarrow> u8 list" where
  "tail_bytes s = bytes (kl_mem s) (cd_addr (kl_data s)) (left s)"

lemma after_in_left:
  fixes w1c :: "u8 \<Rightarrow> u8 \<Rightarrow> u8"
  assumes o: "offers_kl s od d b k" and wb: "keeps_kind wb" and more: "left s \<noteq> 0"
  defines "s1 \<equiv> after_in w1c wb od s" and "n \<equiv> min 64 (left s)"
  shows "left s1 = left s - n" "tail_bytes s = bytes (kl_mem s) (cd_addr (kl_data s)) n @ tail_bytes s1"
    "cd_require_zlp (kl_data s1) = cd_require_zlp (kl_data s)"
proof -
  have nz: "cd_len (kl_data s) \<noteq> 0" using more by (auto simp: left_def)
  note a = after_in_more [OF o wb nz, of n w1c]
  have n: "n = min 64 (unat (cd_len (kl_data s)))" by (simp add: n_def left_def)
  have nl: "n \<le> left s" "n \<le> 64" by (simp_all add: n_def)
  have "of_nat n \<le> cd_len (kl_data s)" "unat (of_nat n :: u16) = n"
    using nl by (simp_all add: word_le_nat_alt unat_of_nat take_bit_nat_eq_self left_def)
  then show l: "left s1 = left s - n" using a(2) [OF n] by (simp add: left_def s1_def unat_sub)
  show "cd_require_zlp (kl_data s1) = cd_require_zlp (kl_data s)" using a(2) [OF n] by (simp add: s1_def)
  have "tail_bytes s = bytes (kl_mem s) (cd_addr (kl_data s)) (n + (left s - n))" using nl by (simp add: tail_bytes_def)
  then show "tail_bytes s = bytes (kl_mem s) (cd_addr (kl_data s)) n @ tail_bytes s1"
    unfolding bytes_append using a(2,3) [OF n] l by (simp add: tail_bytes_def s1_def)
qed

lemma in_stage_kl_sends:
  assumes "offers_kl s od d b k" "keeps_kind wb" "left s \<noteq> 0 \<or> cd_require_zlp (kl_data s) \<noteq> 0 \<Longrightarrow> k = 64"
    "cd_require_zlp (kl_data s) \<noteq> 0 \<Longrightarrow> left s mod 64 = 0"
    "(left s + 63) div 64 + (if cd_require_zlp (kl_data s) \<noteq> 0 then 2 else 1) \<le> n"
    "in_stage_kl w1c wb n od s = (ps, s')"
  shows "concat (List.map snd ps) = bytes (kl_mem s) b k @ tail_bytes s \<and> ps \<noteq> [] \<and>
    (\<forall>p \<in> set (butlast (List.map snd ps)). length p = 64) \<and> length (last (List.map snd ps)) \<le> 64 \<and>
    (cd_require_zlp (kl_data s) \<noteq> 0 \<longrightarrow> last (List.map snd ps) = []) \<and>
    alternate d (List.map fst ps) \<and> awaits_status s'"
  using assms
proof (induction n arbitrary: s od d b k ps)
  case 0
  then show ?case by (auto split: if_splits)
next
  case (Suc n)
  let ?s = "after_in w1c wb od s" and ?c = "kl_data s"
  from Suc.prems(6) obtain qs where qs: "in_stage_kl w1c wb n (\<not> od) ?s = (qs, s')" and ps: "ps = (d, bytes (kl_mem s) b k) # qs"
    by (auto simp: in_stage_kl_step [OF Suc.prems(1)] simp del: in_stage_kl.simps split: prod.splits)
  have k: "k \<le> 64" using Suc.prems(1) by (simp add: offers_kl_def)
  consider (more) "left s \<noteq> 0" | (zlp) "left s = 0" "cd_require_zlp ?c \<noteq> 0" | (fin) "left s = 0" "cd_require_zlp ?c = 0"
    by blast
  then show ?case
  proof cases
    case more
    let ?n = "min 64 (left s)"
    have nz: "cd_len ?c \<noteq> 0" using more by (auto simp: left_def)
    note m = after_in_more [OF Suc.prems(1,2) nz, folded left_def, OF refl, of w1c]
    note l = after_in_left [OF Suc.prems(1,2) more, of w1c]
    have z: "cd_require_zlp ?c \<noteq> 0 \<Longrightarrow> 64 \<le> left s" using Suc.prems(4) more by (auto intro: ccontr)
    have k64: "k = 64" using Suc.prems(3) more by simp
    have ih: "concat (List.map snd qs) = bytes (kl_mem ?s) (cd_addr ?c) ?n @ tail_bytes ?s \<and> qs \<noteq> [] \<and>
      (\<forall>p \<in> set (butlast (List.map snd qs)). length p = 64) \<and> length (last (List.map snd qs)) \<le> 64 \<and>
      (cd_require_zlp (kl_data ?s) \<noteq> 0 \<longrightarrow> last (List.map snd qs) = []) \<and>
      alternate (\<not> d) (List.map fst qs) \<and> awaits_status s'"
    proof (rule Suc.IH [OF m(1) Suc.prems(2) _ _ _ qs])
      show "left ?s \<noteq> 0 \<or> cd_require_zlp (kl_data ?s) \<noteq> 0 \<Longrightarrow> ?n = 64" using l(1,3) z by auto
      show "cd_require_zlp (kl_data ?s) \<noteq> 0 \<Longrightarrow> left ?s mod 64 = 0"
        using l(1,3) z Suc.prems(4) by (auto simp: le_mod_geq)
      show "(left ?s + 63) div 64 + (if cd_require_zlp (kl_data ?s) \<noteq> 0 then 2 else 1) \<le> n"
        using l(1,3) Suc.prems(5) more by (cases "left s \<le> 64") (auto simp: le_div_geq)
    qed
    then show ?thesis using l(2,3) m(3) k64 by (auto simp: ps)
  next
    case zlp
    have "cd_len ?c = 0" using zlp(1) by (simp add: left_def unat_eq_0)
    note e = after_in_empty [OF Suc.prems(1,2) this zlp(2), of w1c]
    have l: "left ?s = 0" "tail_bytes ?s = []" "tail_bytes s = []" "cd_require_zlp (kl_data ?s) = 0"
      using e(2) zlp(1) by (simp_all add: left_def tail_bytes_def bytes_def)
    have ih: "concat (List.map snd qs) = bytes (kl_mem ?s) (dev_req_p s) 0 @ tail_bytes ?s \<and> qs \<noteq> [] \<and>
      (\<forall>p \<in> set (butlast (List.map snd qs)). length p = 64) \<and> length (last (List.map snd qs)) \<le> 64 \<and>
      (cd_require_zlp (kl_data ?s) \<noteq> 0 \<longrightarrow> last (List.map snd qs) = []) \<and>
      alternate (\<not> d) (List.map fst qs) \<and> awaits_status s'"
      by (rule Suc.IH [OF e(1) Suc.prems(2) _ _ _ qs]) (use l Suc.prems(5) zlp in \<open>auto\<close>)
    then have c: "concat (List.map snd qs) = []" "qs \<noteq> []" using l by (simp_all add: bytes_def)
    then have "last (List.map snd qs) \<in> set (List.map snd qs)" by (intro last_in_set) simp
    with c(1) have "last (List.map snd qs) = []" by auto
    then show ?thesis using ih c l Suc.prems(3) zlp k by (auto simp: ps)
  next
    case fin
    have "cd_len ?c = 0" using fin(1) by (simp add: left_def unat_eq_0)
    note e = after_in_done [OF Suc.prems(1,2) this fin(2), of w1c]
    then have "in_stage_kl w1c wb n (\<not> od) ?s = ([], ?s)" by (cases n) (simp_all add: awaits_status_def)
    then show ?thesis using qs e fin k by (simp add: ps tail_bytes_def bytes_def)
  qed
qed

lemma ctrl_send_kl_starts:
  fixes buf :: addr
  assumes len: "unat len < 65536" and zlp: "cd_require_zlp (kl_data s) = 0"
    and L: "L = min (unat (req_len (dev_req_of s))) (unat len)" "L \<noteq> 64"
  defines "s0 \<equiv> snd (usb_lld_ctrl_send_kl buf len s)"
  shows "offers_kl s0 (tx_odd s 0) True buf (min 64 L)" "left s0 = L - min 64 L"
    "bytes (kl_mem s0) buf (min 64 L) @ tail_bytes s0 = bytes (kl_mem s) buf L"
    "cd_require_zlp (kl_data s0) \<noteq> 0 \<longleftrightarrow> L < unat (req_len (dev_req_of s)) \<and> L \<noteq> 0 \<and> L mod 64 = 0"
proof -
  define asked where "asked = req_len (dev_req_of s)"
  define l where "l = (if asked \<le> ucast len then asked else ucast len)"
  have ul: "unat (ucast len :: u16) = unat len" using len by (simp add: unsigned_ucast_eq take_bit_nat_eq_self)
  then have l: "unat l = L" by (simp add: l_def L(1) asked_def min_def word_le_nat_alt)
  have u: "unat (ucast l :: u32) = L" using unat_u16_less [of l] l by (simp add: unsigned_ucast_eq take_bit_nat_eq_self)
  define n :: u32 where "n = (if ucast l < USB_MAX_PACKET_SIZE then ucast l else USB_MAX_PACKET_SIZE)"
  have n: "unat n = min 64 L" using u by (auto simp: n_def USB_MAX_PACKET_SIZE_def word_less_nat_alt)
  then have n': "n = of_nat (min 64 L)" by (simp add: word_unat_eq_iff unat_of_nat take_bit_nat_eq_self)
  have c8: "(ucast (ucast n :: u8) :: u32) = of_nat (min 64 L)"
    unfolding n' by (simp add: word_unat_eq_iff unsigned_ucast_eq unsigned_take_bit_eq unat_of_nat take_bit_nat_eq_self)
  have c16: "unat (ucast n :: u16) = min 64 L" using n by (simp add: unsigned_ucast_eq take_bit_nat_eq_self)
  define z where "z = (if asked \<le> ucast len then kl_data s else if l \<noteq> 0 \<and> (ucast l :: u32) mod USB_MAX_PACKET_SIZE = 0
    then (kl_data s)\<lparr>cd_require_zlp := 1\<rparr> else kl_data s)"
  have s0: "s0 = (kl27z_prepare_ep0_in buf (ucast n) True
      (s\<lparr>kl_state := (if ucast l < USB_MAX_PACKET_SIZE then LAST_IN_DATA else IN_DATA)\<rparr>))
      \<lparr>kl_data := z\<lparr>cd_addr := buf + n, cd_len := l - ucast n\<rparr>\<rparr>"
    by (cases "asked \<le> ucast len"; cases "ucast l < USB_MAX_PACKET_SIZE")
      (simp_all add: s0_def usb_lld_ctrl_send_kl_def z_def n_def l_def asked_def kl27z_prepare_ep0_in_def set_bd_def Let_def)
  have left: "left s0 = L - min 64 L"
    using l c16 by (simp add: left_def s0 unat_sub word_le_nat_alt)
  show "left s0 = L - min 64 L" by (rule left)
  have "cd_len (kl_data s0) = 0 \<longleftrightarrow> (ucast l :: u32) < USB_MAX_PACKET_SIZE"
    using left L(2) u by (auto simp: left_def unat_eq_0 USB_MAX_PACKET_SIZE_def word_less_nat_alt min_def split: if_splits)
  then show "offers_kl s0 (tx_odd s 0) True buf (min 64 L)"
    by (simp add: offers_kl_def s0 kl27z_prepare_ep0_in_def set_bd_def c8)
  have "kl_mem s0 = kl_mem s" "cd_addr (kl_data s0) = buf + of_nat (min 64 L)"
    by (simp_all add: s0 kl27z_prepare_ep0_in_def set_bd_def n')
  then show "bytes (kl_mem s0) buf (min 64 L) @ tail_bytes s0 = bytes (kl_mem s) buf L"
    using bytes_append [of "kl_mem s" buf "min 64 L" "L - min 64 L"] by (simp add: tail_bytes_def left)
  have "cd_require_zlp (kl_data s0) \<noteq> 0 \<longleftrightarrow> \<not> asked \<le> ucast len \<and> l \<noteq> 0 \<and> (ucast l :: u32) mod USB_MAX_PACKET_SIZE = 0"
    using zlp by (simp add: s0 z_def)
  also have "\<dots> \<longleftrightarrow> L < unat asked \<and> L \<noteq> 0 \<and> L mod 64 = 0"
  proof -
    have "(ucast l :: u32) mod USB_MAX_PACKET_SIZE = 0 \<longleftrightarrow> L mod 64 = 0"
      using u by (simp add: USB_MAX_PACKET_SIZE_def word_unat_eq_iff unat_mod)
    moreover have "l \<noteq> 0 \<longleftrightarrow> L \<noteq> 0" using l unat_eq_0 [of l] by metis
    moreover have "asked \<le> ucast len \<longleftrightarrow> unat asked \<le> unat len" by (simp add: word_le_nat_alt ul)
    ultimately show ?thesis by (auto simp: L(1) asked_def)
  qed
  finally show "cd_require_zlp (kl_data s0) \<noteq> 0 \<longleftrightarrow> L < unat (req_len (dev_req_of s)) \<and> L \<noteq> 0 \<and> L mod 64 = 0"
    by (simp add: asked_def)
qed

lemma kl_control_in_packets:
  assumes wb: "keeps_kind wb" and len: "unat len < 65536" and zlp: "cd_require_zlp (kl_data s) = 0"
    and L: "L = min (unat (req_len (dev_req_of s))) (unat len)" "L \<noteq> 64"
    and run: "in_stage_kl w1c wb (L div 64 + 3) (tx_odd s 0) (snd (usb_lld_ctrl_send_kl buf len s)) = (ps, s')"
  shows "concat (List.map snd ps) = bytes (kl_mem s) buf L \<and> ps \<noteq> [] \<and>
    (\<forall>p \<in> set (butlast (List.map snd ps)). length p = 64) \<and> length (last (List.map snd ps)) \<le> 64 \<and>
    (L < unat (req_len (dev_req_of s)) \<longrightarrow> length (last (List.map snd ps)) < 64) \<and>
    alternate True (List.map fst ps) \<and> awaits_status s'"
proof -
  define s0 where "s0 = snd (usb_lld_ctrl_send_kl buf len s)"
  note st = ctrl_send_kl_starts [OF len zlp L, of buf, folded s0_def]
  have "concat (List.map snd ps) = bytes (kl_mem s0) buf (min 64 L) @ tail_bytes s0 \<and> ps \<noteq> [] \<and>
    (\<forall>p \<in> set (butlast (List.map snd ps)). length p = 64) \<and> length (last (List.map snd ps)) \<le> 64 \<and>
    (cd_require_zlp (kl_data s0) \<noteq> 0 \<longrightarrow> last (List.map snd ps) = []) \<and>
    alternate True (List.map fst ps) \<and> awaits_status s'"
  proof (rule in_stage_kl_sends [OF st(1) wb _ _ _ run [folded s0_def]])
    show "left s0 \<noteq> 0 \<or> cd_require_zlp (kl_data s0) \<noteq> 0 \<Longrightarrow> min 64 L = 64" using st(2,4) by auto
    show "cd_require_zlp (kl_data s0) \<noteq> 0 \<Longrightarrow> left s0 mod 64 = 0" using st(2,4) by (auto simp: min_def le_mod_geq)
    show "(left s0 + 63) div 64 + (if cd_require_zlp (kl_data s0) \<noteq> 0 then 2 else 1) \<le> L div 64 + 3"
      using st(2) by (auto intro: div_le_mono order_trans [of _ "(L + 63) div 64"])
  qed
  note * = this [unfolded st(3)]
  moreover have "length (last (List.map snd ps)) < 64" if "L < unat (req_len (dev_req_of s))"
  proof (cases "cd_require_zlp (kl_data s0) \<noteq> 0")
    case False
    with st(4) that have "L mod 64 \<noteq> 0 \<or> L = 0" by auto
    then show ?thesis using * by (intro short_last [of "List.map snd ps"]) auto
  qed (use * in simp)
  ultimately show ?thesis by blast
qed

text \<open>
  The driver takes an answer of exactly one full packet for one that goes on: when the host has taken the
  packet, an empty one is armed, and the driver is not ready for the status stage.
\<close>

lemma kl_control_in_64:
  fixes buf :: addr
  assumes wb: "keeps_kind wb" and len: "unat len < 65536"
    and L: "64 = min (unat (req_len (dev_req_of s))) (unat len)"
  defines "s0 \<equiv> snd (usb_lld_ctrl_send_kl buf len s)"
  shows "\<exists>s1 s2. in_token wb 0 (tx_odd s 0) s0 = (Some (True, bytes (kl_mem s) buf 64), s1) \<and>
    s2 = snd (handle_transaction w1c (stat_of 0 True (tx_odd s 0)) s1) \<and> kl_state s2 = LAST_IN_DATA \<and>
    fst (in_token wb 0 (\<not> tx_odd s 0) s2) = Some (False, [])"
proof -
  define asked where "asked = req_len (dev_req_of s)"
  define l where "l = (if asked \<le> ucast len then asked else ucast len)"
  have ul: "unat (ucast len :: u16) = unat len" using len by (simp add: unsigned_ucast_eq take_bit_nat_eq_self)
  then have "unat l = 64" using L by (auto simp: l_def asked_def min_def word_le_nat_alt split: if_splits)
  then have l: "l = 64" by (simp add: word_unat_eq_iff)
  define z where "z = (if asked \<le> ucast len then kl_data s else (kl_data s)\<lparr>cd_require_zlp := 1\<rparr>)"
  have s0: "s0 = (kl27z_prepare_ep0_in buf 64 True (s\<lparr>kl_state := IN_DATA\<rparr>))
      \<lparr>kl_data := z\<lparr>cd_addr := buf + 64, cd_len := 0\<rparr>\<rparr>"
    using l by (cases "asked \<le> ucast len")
      (simp_all add: s0_def usb_lld_ctrl_send_kl_def z_def l_def asked_def kl27z_prepare_ep0_in_def set_bd_def Let_def
        USB_MAX_PACKET_SIZE_def)
  let ?od = "tx_odd s 0"
  have bd: "BD_table s0 (bd_no 0 True ?od) = \<lparr>bd_ctrl = bd_word 64 True, bd_buf = buf\<rparr>" "tx_odd s0 0 = ?od"
    "kl_mem s0 = kl_mem s" "kl_state s0 = IN_DATA" "cd_len (kl_data s0) = 0"
    by (simp_all add: s0 kl27z_prepare_ep0_in_def set_bd_def)
  define s1 where "s1 = set_bd_ctrl (bd_no 0 True ?od) (wb (bd_word 64 True)) s0"
  have tok: "in_token wb 0 ?od s0 = (Some (True, bytes (kl_mem s) buf 64), s1)"
    by (simp add: in_token_def bd bd_word_bits bd_word_len s1_def)
  define u where "u = flip_tx 0 s1"
  have u: "bit (bd_ctrl (BD_table u (bd_no 0 True ?od))) 6" "kl_state u = IN_DATA" "cd_len (kl_data u) = 0"
    "tx_odd u 0 = (\<not> ?od)"
    using wb bd by (simp_all add: u_def s1_def flip_tx_def set_bd_ctrl_def keeps_kind_def bd_word_bits)
  define s2 where "s2 = snd (handle_transaction w1c (stat_of 0 True ?od) s1)"
  have s2: "s2 = set_istat w1c USB_IS_TOKDNE (handle_datastage_in_kl (stat_of 0 True ?od) u)"
    using u(2) stat_of [of 0 True ?od]
    by (auto simp: s2_def u_def handle_transaction_def handle_in0_kl_def Let_def)
  have "kl_state s2 = LAST_IN_DATA" "fst (in_token wb 0 (\<not> ?od) s2) = Some (False, [])"
    using u by (simp_all add: s2 handle_datastage_in_kl_def stat_of kl27z_prepare_ep0_in_def set_bd_def set_istat_def
        Let_def in_token_def bd_word_bits bd_word_len USB_MAX_PACKET_SIZE_def bytes_def)
  with tok show ?thesis unfolding s2_def by blast
qed

text \<open>
  C29: A control transfer to the host, on the MKL27Z. The host receives exactly the first min (asked, len) bytes of the buffer,
  in packets of 64 bytes but for the last one, which is shorter when the host gets less than it asked for. The packets are
  of alternating kinds, beginning with \<open>DATA1\<close>, each in the descriptor the controller uses next; then the driver is ready for
  the \<open>DATA1\<close> packet of the status stage. When the bytes are exactly 64 the host receives them in the first packet, but
  the driver arms an empty second one, of kind \<open>DATA0\<close>, and does not go on to the status stage. The controller's
  bit for the next descriptor must be the driver's at the beginning.
\<close>

theorem kl_control_in_delivers:
  assumes wb: "keeps_kind wb" and len: "unat len < 65536" and zlp: "cd_require_zlp (kl_data s) = 0"
    and L: "L = min (unat (req_len (dev_req_of s))) (unat len)"
    and s0: "s0 = snd (usb_lld_ctrl_send_kl buf len s)"
    and run: "in_stage_kl w1c wb (L div 64 + 3) (tx_odd s 0) s0 = (ps, s')"
  shows "if L = 64 then
      \<exists>s1 s2. in_token wb 0 (tx_odd s 0) s0 = (Some (True, bytes (kl_mem s) buf 64), s1) \<and>
        s2 = snd (handle_transaction w1c (stat_of 0 True (tx_odd s 0)) s1) \<and> kl_state s2 = LAST_IN_DATA \<and>
        fst (in_token wb 0 (\<not> tx_odd s 0) s2) = Some (False, [])
    else
      concat (List.map snd ps) = bytes (kl_mem s) buf L \<and> ps \<noteq> [] \<and>
      (\<forall>p \<in> set (butlast (List.map snd ps)). length p = 64) \<and> length (last (List.map snd ps)) \<le> 64 \<and>
      (L < unat (req_len (dev_req_of s)) \<longrightarrow> length (last (List.map snd ps)) < 64) \<and>
      alternate True (List.map fst ps) \<and> awaits_status s'"
proof (cases "L = 64")
  case True
  then show ?thesis using kl_control_in_64 [OF wb len, of s] L s0 by simp
next
  case False
  then show ?thesis using kl_control_in_packets [OF wb len zlp L False] run s0 by simp
qed

section \<open>Data endpoints to the host\<close>

text \<open>The application gives buffers to an endpoint one after the other, and the host takes each.\<close>

fun tx_run ::
  "(u8 \<Rightarrow> u8 \<Rightarrow> u8) \<Rightarrow> (u32 \<Rightarrow> u32) \<Rightarrow> nat \<Rightarrow> bool \<Rightarrow> (addr \<times> nat) list \<Rightarrow> kl \<Rightarrow> (bool \<times> u8 list) option list \<times> kl" where
  "tx_run w1c wb n od [] s = ([], s)"
| "tx_run w1c wb n od ((b, k) # xs) s =
     (let (p, s) = in_token wb n od (usb_lld_tx_enable_buf_kl n b (of_nat k) s);
          (ps, s) = tx_run w1c wb n (\<not> od) xs (snd (handle_transaction w1c (stat_of n True od) s))
      in (p # ps, s))"

text \<open>The next packet of an endpoint is of kind \<open>d\<close>: the other descriptor has the opposite one.\<close>

definition next_kind :: "nat \<Rightarrow> bool \<Rightarrow> bool \<Rightarrow> kl \<Rightarrow> bool" where
  "next_kind n od d s \<longleftrightarrow> tx_odd s n = od \<and> bit (bd_ctrl (BD_table s (bd_no n True (\<not> od)))) 6 = (\<not> d)"

lemma enabled_packet:
  fixes b :: addr
  assumes n: "0 < n" "n < 16" and wb: "keeps_kind wb" and i: "next_kind n od d s" and k: "k < 1024"
  defines "t \<equiv> usb_lld_tx_enable_buf_kl n b (of_nat k) s"
  shows "fst (in_token wb n od t) = Some (d, bytes (kl_mem s) b k)"
    and "next_kind n (\<not> od) (\<not> d) (snd (handle_transaction w1c (stat_of n True od) (snd (in_token wb n od t))))"
    and "kl_mem (snd (handle_transaction w1c (stat_of n True od) (snd (in_token wb n od t)))) = kl_mem s"
proof -
  have len: "(of_nat k :: u32) < 1024" "unat (of_nat k :: u32) = k"
    using k by (simp_all add: word_less_nat_alt unat_of_nat take_bit_nat_eq_self)
  have t: "BD_table t (bd_no n True od) = \<lparr>bd_ctrl = bd_word (of_nat k) d, bd_buf = b\<rparr>" "kl_mem t = kl_mem s" "tx_odd t = tx_odd s"
    using i by (simp_all add: t_def usb_lld_tx_enable_buf_kl_def set_bd_def next_kind_def Let_def)
  have tok: "in_token wb n od t = (Some (d, bytes (kl_mem s) b k), set_bd_ctrl (bd_no n True od) (wb (bd_word (of_nat k) d)) t)"
    using len t by (simp add: in_token_def bd_word_bits bd_word_len Let_def)
  then show "fst (in_token wb n od t) = Some (d, bytes (kl_mem s) b k)" by simp
  have un: "unat (of_nat n :: u8) = n" using n by (simp add: unat_of_nat take_bit_nat_eq_self)
  obtain f where h: "snd (handle_transaction w1c (stat_of n True od) (snd (in_token wb n od t))) = f"
    and f: "BD_table f = BD_table (snd (in_token wb n od t))" "kl_mem f = kl_mem t" "tx_odd f n = (\<not> tx_odd t n)"
    using n stat_of [OF n(2), of True od] un
    by (auto simp: tok handle_transaction_def set_istat_def flip_tx_def set_bd_ctrl_def Let_def)
  have "bit (wb (bd_word (of_nat k) d)) 6 = d" using wb by (simp add: keeps_kind_def bd_word_bits)
  then show "next_kind n (\<not> od) (\<not> d) (snd (handle_transaction w1c (stat_of n True od) (snd (in_token wb n od t))))"
    unfolding h using f t(3) i by (simp add: next_kind_def tok set_bd_ctrl_def)
  show "kl_mem (snd (handle_transaction w1c (stat_of n True od) (snd (in_token wb n od t)))) = kl_mem s"
    unfolding h using f t by simp
qed

lemma tx_run_packets:
  assumes "0 < n" "n < 16" "keeps_kind wb" "next_kind n od d s" "\<forall>(b, k) \<in> set xs. k < 1024"
  shows "fst (tx_run w1c wb n od xs s) =
    List.map (\<lambda>i. Some (even i = d, bytes (kl_mem s) (fst (xs ! i)) (snd (xs ! i)))) [0..<length xs]"
  using assms(4,5)
proof (induction xs arbitrary: od d s)
  case (Cons x xs)
  obtain b k where x: "x = (b, k)" by (cases x)
  note e = enabled_packet [OF assms(1-3) Cons.prems(1), where b = b and k = k]
  have k: "k < 1024" "\<forall>(b, k) \<in> set xs. k < 1024" using Cons.prems(2) by (simp_all add: x)
  have idx: "[0..<length (x # xs)] = 0 # List.map Suc [0..<length xs]" by (simp only: length_Cons upt_conv_Cons [OF zero_less_Suc] map_Suc_upt)
  have "fst (tx_run w1c wb n od (x # xs) s) = Some (d, bytes (kl_mem s) b k) #
    List.map (\<lambda>i. Some (even i = (\<not> d), bytes (kl_mem s) (fst (xs ! i)) (snd (xs ! i)))) [0..<length xs]"
    using Cons.IH [OF e(2) [OF k(1)] k(2)] e(1,3) [OF k(1)] by (simp add: x split_def Let_def)
  also have "\<dots> = List.map (\<lambda>i. Some (even i = d, bytes (kl_mem s) (fst ((x # xs) ! i)) (snd ((x # xs) ! i))))
    [0..<length (x # xs)]"
    unfolding idx by (auto simp: x)
  finally show ?case .
qed simp

text \<open>
  An endpoint that was set up sends the packets it is given, each in the descriptor the controller uses next, as
  \<open>DATA0\<close>, \<open>DATA1\<close>, \<open>DATA0\<close> and so on, whatever its descriptors held before.
\<close>

lemma kl_packets_in_turn:
  assumes n: "0 < n" "n < 16" and wb: "keeps_kind wb" and xs: "\<forall>(b, k) \<in> set xs. k < 1024"
  shows "fst (tx_run w1c wb n (tx_odd s n) xs (usb_lld_setup_endp_kl n rx True s)) =
    List.map (\<lambda>i. Some (odd i, bytes (kl_mem s) (fst (xs ! i)) (snd (xs ! i)))) [0..<length xs]"
proof -
  have "next_kind n (tx_odd s n) False (usb_lld_setup_endp_kl n rx True s)"
    using n by (simp add: next_kind_def usb_lld_setup_endp_kl_def set_bd_def Let_def)
  from tx_run_packets [OF n wb this xs] show ?thesis
    using n by (simp add: usb_lld_setup_endp_kl_def set_bd_def Let_def)
qed

lemma and_not_bit6: "bit (w AND - 65 :: u32) i \<longleftrightarrow> bit w i \<and> i \<noteq> 6"
proof -
  have "(- 65 :: u32) = NOT (push_bit 6 1)" by simp
  then have "w AND - 65 = unset_bit 6 w" by (simp only: unset_bit_eq_and_not)
  then show ?thesis by (auto simp: bit_unset_bit_iff)
qed

lemma own_bit: "(w :: u32) AND 0x80 \<noteq> 0 \<longleftrightarrow> bit w 7"
proof -
  have "(0x80 :: u32) = push_bit 7 1" by simp
  then show ?thesis by (simp add: bit_iff_and_push_bit_not_eq_0)
qed

lemma clear_dtog_tx:
  fixes s :: kl and n :: nat
  defines "od \<equiv> tx_odd s n" and "s' \<equiv> kl27z_ep_clear_dtog False n s"
  shows "bit (bd_ctrl (BD_table s (bd_no n True od))) 7 \<Longrightarrow> \<exists>p. fst (in_token wb n od s') = Some (False, p)"
    and "next_kind n od True s'" "kl_mem s' = kl_mem s"
proof -
  let ?w = "bd_ctrl (BD_table s (bd_no n True od))"
  show "next_kind n od True s'" "kl_mem s' = kl_mem s"
    by (auto simp: s'_def od_def next_kind_def kl27z_ep_clear_dtog_def kl27z_ep_clear_stall_def kl27z_ep_stall_def
        set_bd_ctrl_def and_not_bit6 own_bit Let_def)
  assume own: "bit ?w 7"
  then have "BD_table s' (bd_no n True od) = \<lparr>bd_ctrl = ?w AND NOT (push_bit 6 1), bd_buf = bd_buf (BD_table s (bd_no n True od))\<rparr>"
    by (auto simp: s'_def od_def kl27z_ep_clear_dtog_def kl27z_ep_clear_stall_def kl27z_ep_stall_def set_bd_ctrl_def own_bit Let_def)
  then show "\<exists>p. fst (in_token wb n od s') = Some (False, p)"
    using own by (simp add: in_token_def Let_def and_not_bit6)
qed

lemma clear_feature_dtog:
  assumes "std_clear_feature_kl s = Some (USB_EVENT_CLEAR_FEATURE_ENDPOINT, s')"
  shows "s' = kl27z_ep_clear_dtog (req_index (dev_req_of s) AND 0x80 = 0) (unat (req_index (dev_req_of s) AND 0x0f)) s"
    "0 < unat (req_index (dev_req_of s) AND 0x0f)"
  using assms by (auto simp: std_clear_feature_kl_def Let_def unat_gt_0 split: if_splits recipient.splits)

text \<open>
  C30: A request to clear the halt of an endpoint is meant to make it start again with \<open>DATA0\<close>. This is so when a packet is
  already given to the controller. When there is none, the next packet that the application gives is a
  \<open>DATA1\<close> packet, which a host that has cleared the halt takes for a repetition and drops.
\<close>

theorem kl_clear_halt:
  assumes n: "n = unat (req_index (dev_req_of s) AND 0x0f)" "n < 16" and wb: "keeps_kind wb" and k: "k < 1024"
    and tx: "req_index (dev_req_of s) AND 0x80 \<noteq> 0"
    and ok: "std_clear_feature_kl s = Some (USB_EVENT_CLEAR_FEATURE_ENDPOINT, s')"
  shows "if bit (bd_ctrl (BD_table s (bd_no n True (tx_odd s n)))) 7
    then \<exists>p. fst (in_token wb n (tx_odd s n) s') = Some (False, p)
    else fst (in_token wb n (tx_odd s n) (usb_lld_tx_enable_buf_kl n b (of_nat k) s')) = Some (True, bytes (kl_mem s) b k)"
proof -
  have s': "s' = kl27z_ep_clear_dtog False n s" and "0 < n" using clear_feature_dtog [OF ok] tx by (simp_all add: n(1))
  note c = clear_dtog_tx [where n = n and s = s, folded s']
  then show ?thesis using enabled_packet(1) [OF \<open>0 < n\<close> n(2) wb c(2) k] by simp
qed

section \<open>A device\<close>

text \<open>
  A device with a request at address 0, and at 256 and after, bytes that count up. The controller clears
  \<open>OWN\<close> of a descriptor whose packet was sent.
\<close>

definition kl_device :: "u8 list \<Rightarrow> kl" where
  "kl_device req = \<lparr>rx_odd = (\<lambda>_. False), tx_odd = (\<lambda>_. False), BD_table = (\<lambda>_. \<lparr>bd_ctrl = 0, bd_buf = 0\<rparr>),
     ENDPT = (\<lambda>_. 0x1d), OTGCTL = 0, ISTAT = 0, INTEN = 0, ERRSTAT = 0, ERREN = 0, STAT = 0, CTL = 0, ADDR = 0,
     BDTPAGE1 = 0, BDTPAGE2 = 0, BDTPAGE3 = 0, USBCTRL = 0, CONTROL = 0, USBTRC0 = 0,
     kl_mem = put_bytes 0 req (\<lambda>a. if a = 16 then 1 else ucast a), bdt_p = 0x200, dev_req_p = 0, conf_p = 16, status_p = 18,
     kl_feature = 0, kl_state = WAIT_SETUP, kl_data = \<lparr>cd_addr = 0, cd_len = 0, cd_require_zlp = 0\<rparr>\<rparr>"

definition sent_wb :: "u32 \<Rightarrow> u32" where
  "sent_wb w = unset_bit 7 w"

lemma sent_wb: "keeps_kind sent_wb"
  by (simp add: keeps_kind_def sent_wb_def bit_unset_bit_iff)

definition clear_ones :: "u8 \<Rightarrow> u8 \<Rightarrow> u8" where
  "clear_ones old v = old AND NOT v"

lemma kl_device_request:
  "dev_req_of (kl_device [a, b, c, d, e, f, g, h]) =
   \<lparr>req_type = a, req_request = b, req_value = ucast c OR push_bit 8 (ucast d), req_index = ucast e OR push_bit 8 (ucast f),
    req_len = ucast g OR push_bit 8 (ucast h)\<rparr>"
  by (simp add: dev_req_of_def kl_device_def put_bytes_def mem16_def Let_def)

theorem kl_control_in_delivers_witness:
  "\<exists>ps s'. in_stage_kl clear_ones sent_wb 4 False
      (snd (usb_lld_ctrl_send_kl 256 70 (kl_device [0x80, 6, 0, 1, 0, 0, 100, 0]))) = (ps, s') \<and>
    alternate True (List.map fst ps) \<and>
    concat (List.map snd ps) = bytes (kl_mem (kl_device [0x80, 6, 0, 1, 0, 0, 100, 0])) 256 70 \<and> awaits_status s'"
proof -
  let ?s = "kl_device [0x80, 6, 0, 1, 0, 0, 100, 0]"
  obtain ps s' where run: "in_stage_kl clear_ones sent_wb 4 False (snd (usb_lld_ctrl_send_kl 256 70 ?s)) = (ps, s')"
    by (cases "in_stage_kl clear_ones sent_wb 4 False (snd (usb_lld_ctrl_send_kl 256 70 ?s))")
  have L: "(70 :: nat) = min (unat (req_len (dev_req_of ?s))) (unat (70 :: u32))"
    and z: "cd_require_zlp (kl_data ?s) = 0" "unat (70 :: u32) < 65536"
    and e: "tx_odd ?s 0 = False" "(70 :: nat) div 64 + 3 = 4"
    by (simp_all add: kl_device_request) (simp_all add: kl_device_def)
  have "in_stage_kl clear_ones sent_wb (70 div 64 + 3) (tx_odd ?s 0) (snd (usb_lld_ctrl_send_kl 256 70 ?s)) = (ps, s')"
    unfolding e by (rule run)
  from kl_control_in_delivers [OF sent_wb z(2,1) L refl this] run show ?thesis by auto
qed

lemma kl_packets_in_turn_witness:
  "fst (tx_run clear_ones sent_wb 1 False [(256, 2), (300, 1)] (usb_lld_setup_endp_kl 1 True True (kl_device []))) =
   [Some (False, [0, 1]), Some (True, [44])]"
proof -
  have "tx_odd (kl_device []) 1 = False" by (simp add: kl_device_def)
  moreover have two: "[0..<2] = [0, 1]" by code_simp
  moreover have "bytes (kl_mem (kl_device [])) 256 2 = [0, 1]" "bytes (kl_mem (kl_device [])) 300 1 = [44]"
    by (simp_all add: kl_device_def bytes_def two)
  ultimately show ?thesis
    using kl_packets_in_turn [of 1 sent_wb "[(256, 2), (300, 1)]" clear_ones "kl_device []" True] sent_wb
    by (simp del: tx_run.simps)
qed

theorem kl_clear_halt_witness:
  "\<exists>s'. std_clear_feature_kl (kl_device [2, 1, 0, 0, 0x81, 0, 0, 0]) = Some (USB_EVENT_CLEAR_FEATURE_ENDPOINT, s') \<and>
     fst (in_token sent_wb 1 False (usb_lld_tx_enable_buf_kl 1 300 1 s')) = Some (True, [44])"
proof -
  let ?s = "kl_device [2, 1, 0, 0, 0x81, 0, 0, 0]"
  have c: "std_clear_feature_kl ?s = Some (USB_EVENT_CLEAR_FEATURE_ENDPOINT, kl27z_ep_clear_dtog False 1 ?s)"
    unfolding std_clear_feature_kl_def kl_device_request Let_def
    by (simp add: USB_SETUP_GET_def REQUEST_DIR_def recipient_def RECIPIENT_def FEATURE_ENDPOINT_HALT_def
        configuration_kl_def kl27z_ep_is_disabled_def kl_device_def put_bytes_def)
  have "fst (in_token sent_wb 1 False (usb_lld_tx_enable_buf_kl 1 300 (of_nat 1) (kl27z_ep_clear_dtog False 1 ?s))) =
      Some (True, bytes (kl_mem ?s) 300 1)"
    using kl_clear_halt [of 1 ?s sent_wb 1 "kl27z_ep_clear_dtog False 1 ?s" 300] sent_wb c
    unfolding kl_device_request by (simp add: kl_device_def)
  moreover have "bytes (kl_mem ?s) 300 1 = [44]" by (simp add: kl_device_def bytes_def put_bytes_def)
  ultimately show ?thesis using c by simp
qed

end
