(* ===== verification/Usb_Cdc.thy ===== *)
theory Usb_Cdc
  imports Usb_Control
begin

text \<open>
  The virtual serial port of \<open>example-cdc/usb-cdc.c\<close>, an application of the USB driver of the
  STM32F103: its descriptors, the requests it serves, the line editor with its echo, and the calls
  \<open>tty_open\<close>, \<open>tty_wait_configured\<close>, \<open>tty_wait_connection\<close>, \<open>tty_send\<close> and \<open>tty_recv\<close>.

  \<open>tty_main\<close> is a thread that handles one event of the driver per round; the other calls belong to
  the thread of the application. A part of the code that runs under the mutex \<open>t->mtx\<close> is
  one step. What other threads do while a call waits on the condition variable is an argument of
  that call. There is one TTY, which is what \<open>tty_get\<close> returns for every argument. A
  function that writes or reads outside an array has the result \<open>None\<close>; a
  handler of a request has the result \<open>None\<close> where the code returns -1.
\<close>

unbundle bit_operations_syntax

section \<open>State\<close>

datatype DEVICE_STATE =
    USB_DEVICE_STATE_UNCONNECTED | USB_DEVICE_STATE_ATTACHED | USB_DEVICE_STATE_POWERED
  | USB_DEVICE_STATE_DEFAULT | USB_DEVICE_STATE_ADDRESSED | USB_DEVICE_STATE_CONFIGURED

text \<open>
  The condition variable is represented by the number of times it was signalled. The member
  \<open>line_coding\<close> is in the memory of the processor, since the driver reads and writes it there.
\<close>

record tty =
  cnd_signals :: nat
  inputline :: "u8 list"
  send_buf :: "u8 list"
  inputline_len :: u8
  send_head :: u8
  send_tail :: u8
  flag_connected :: bool
  flag_send_ready :: bool
  flag_input_avail :: bool
  device_state :: DEVICE_STATE

text \<open>
  The driver with its device, the TTY, and where the linker and the compiler put the constants,
  \<open>tty0.line_coding\<close> and the local arrays that are passed to the driver.
\<close>

record cdc =
  drv :: usb
  tty0 :: tty
  line_coding_p :: addr
  vcom_device_desc_p :: addr
  vcom_config_desc_p :: addr
  vcom_string_p :: "u8 \<Rightarrow> addr"
  zero_p :: addr
  if_status_p :: addr
  recv_buf_p :: addr
  line_p :: addr

definition upd_drv :: "(usb \<Rightarrow> usb) \<Rightarrow> cdc \<Rightarrow> cdc" where
  "upd_drv f c = c\<lparr>drv := f (drv c)\<rparr>"

definition upd_tty :: "(tty \<Rightarrow> tty) \<Rightarrow> cdc \<Rightarrow> cdc" where
  "upd_tty f c = c\<lparr>tty0 := f (tty0 c)\<rparr>"

definition store_bytes :: "addr \<Rightarrow> u8 list \<Rightarrow> usb \<Rightarrow> usb" where
  "store_bytes p bs s = s\<lparr>mem := put_bytes p bs (mem s)\<rparr>"

definition cond_signal :: "tty \<Rightarrow> tty" where
  "cond_signal t = t\<lparr>cnd_signals := Suc (cnd_signals t)\<rparr>"

section \<open>Constants\<close>

definition LINEBUFSIZE :: u32 where "LINEBUFSIZE = 128"

definition ENDP1 :: u8 where "ENDP1 = 1"
definition ENDP2 :: u8 where "ENDP2 = 2"
definition ENDP3 :: u8 where "ENDP3 = 3"

definition ENDP0_RXADDR :: u16 where "ENDP0_RXADDR = 0x40"
definition ENDP0_TXADDR :: u16 where "ENDP0_TXADDR = 0x80"
definition ENDP1_TXADDR :: u16 where "ENDP1_TXADDR = 0xc0"
definition ENDP2_TXADDR :: u16 where "ENDP2_TXADDR = 0x100"
definition ENDP3_RXADDR :: u16 where "ENDP3_RXADDR = 0x140"

definition EP_BULK :: u16 where "EP_BULK = 0x0000"
definition EP_CONTROL :: u16 where "EP_CONTROL = 0x0200"
definition EP_INTERRUPT :: u16 where "EP_INTERRUPT = 0x0600"

definition CLASS_REQUEST :: u8 where "CLASS_REQUEST = 0x20"

definition USB_CDC_REQ_SET_LINE_CODING :: u8 where "USB_CDC_REQ_SET_LINE_CODING = 0x20"
definition USB_CDC_REQ_GET_LINE_CODING :: u8 where "USB_CDC_REQ_GET_LINE_CODING = 0x21"
definition USB_CDC_REQ_SET_CONTROL_LINE_STATE :: u8 where "USB_CDC_REQ_SET_CONTROL_LINE_STATE = 0x22"
definition CDC_CTRL_DTR :: u16 where "CDC_CTRL_DTR = 0x0001"

definition DEVICE_DESCRIPTOR :: u8 where "DEVICE_DESCRIPTOR = 1"
definition CONFIG_DESCRIPTOR :: u8 where "CONFIG_DESCRIPTOR = 2"
definition STRING_DESCRIPTOR :: u8 where "STRING_DESCRIPTOR = 3"
definition INTERFACE_DESCRIPTOR :: u8 where "INTERFACE_DESCRIPTOR = 4"
definition ENDPOINT_DESCRIPTOR :: u8 where "ENDPOINT_DESCRIPTOR = 5"

definition VCOM_FEATURE_BUS_POWERED :: u8 where "VCOM_FEATURE_BUS_POWERED = 0x80"
definition NUM_INTERFACES :: u16 where "NUM_INTERFACES = 2"

section \<open>Descriptors\<close>

text \<open>The seven bytes of \<open>struct line_coding\<close>: 115200 baud, one stop bit, no parity, 8 bits.\<close>

definition line_coding0 :: "u8 list" where
  "line_coding0 = [0x00, 0xC2, 0x01, 0x00, 0x00, 0x00, 0x08]"

definition vcom_device_desc :: "u8 list" where
  "vcom_device_desc =
    [18, DEVICE_DESCRIPTOR,
     0x10, 0x01,
     0x02,
     0x00,
     0x00,
     0x40,
     0xFF, 0xFF,
     0x01, 0x00,
     0x00, 0x01,
     1, 2, 3,
     1]"

definition vcom_config_desc :: "u8 list" where
  "vcom_config_desc =
    [9, CONFIG_DESCRIPTOR,
     67, 0x00,
     0x02,
     0x01,
     0,
     VCOM_FEATURE_BUS_POWERED,
     50,
     9, INTERFACE_DESCRIPTOR,
     0x00, 0x00, 0x01, 0x02, 0x02, 0x01, 0,
     5, 0x24, 0x00, 0x10, 0x01,
     5, 0x24, 0x01, 0x03, 0x01,
     4, 0x24, 0x02, 0x02,
     5, 0x24, 0x06, 0x00, 0x01,
     7, ENDPOINT_DESCRIPTOR,
     ENDP2 OR 0x80, 0x03, 0x08, 0x00, 0xFF,
     9, INTERFACE_DESCRIPTOR,
     0x01, 0x00, 0x02, 0x0A, 0x00, 0x00, 0x00,
     7, ENDPOINT_DESCRIPTOR,
     ENDP3, 0x02, 0x40, 0x00, 0x00,
     7, ENDPOINT_DESCRIPTOR,
     ENDP1 OR 0x80, 0x02, 0x40, 0x00, 0x00]"

text \<open>The characters of a string constant, as the compiler stores them.\<close>

definition chr :: "char \<Rightarrow> u8" where "chr x = of_nat (of_char x)"

definition wide :: "string \<Rightarrow> u8 list" where
  "wide str = concat (List.map (\<lambda>x. [chr x, 0]) str)"

definition vcom_string0 :: "u8 list" where
  "vcom_string0 = [4, STRING_DESCRIPTOR, 0x09, 0x04]"

definition vcom_string1 :: "u8 list" where
  "vcom_string1 = [23*2+2, STRING_DESCRIPTOR] @ wide ''Flying Stone Technology''"

definition vcom_string2 :: "u8 list" where
  "vcom_string2 = [14*2+2, STRING_DESCRIPTOR] @ wide ''Chopstx Sample''"

text \<open>The array has 28 bytes, of which the initializer gives ten; the others are zero.\<close>

definition vcom_string3 :: "u8 list" where
  "vcom_string3 = [28, STRING_DESCRIPTOR] @ wide ''0.00'' @ replicate 18 0"

section \<open>Requests\<close>

definition reset_tty :: "DEVICE_STATE \<Rightarrow> tty \<Rightarrow> tty" where
  "reset_tty st t = t\<lparr>inputline_len := 0, send_head := 0, send_tail := 0, flag_connected := False,
     flag_send_ready := True, flag_input_avail := False, device_state := st\<rparr>"

definition usb_device_reset :: "usb_hw \<Rightarrow> bool \<Rightarrow> cdc \<Rightarrow> cdc" where
  "usb_device_reset hw keep c =
     (let c = upd_drv (usb_lld_reset VCOM_FEATURE_BUS_POWERED) c;
          c = upd_drv (usb_lld_setup_endpoint hw keep ENDP0 EP_CONTROL 0 ENDP0_RXADDR ENDP0_TXADDR 64) c;
          c = upd_tty (reset_tty USB_DEVICE_STATE_ATTACHED) c
      in upd_drv (store_bytes (line_coding_p c) line_coding0) c)"

text \<open>A request to the class interface 0.\<close>

definition vcom_request :: "device_req \<Rightarrow> bool" where
  "vcom_request arg \<longleftrightarrow>
     req_type arg AND (REQUEST_TYPE OR RECIPIENT) = CLASS_REQUEST OR 1 \<and> req_index arg = 0"

definition usb_ctrl_write_finish :: "cdc \<Rightarrow> cdc" where
  "usb_ctrl_write_finish c =
     (let arg = dev_req (dev (drv c))
      in if vcom_request arg \<and> USB_SETUP_SET (req_type arg) \<and>
           req_request arg = USB_CDC_REQ_SET_CONTROL_LINE_STATE
         then upd_tty (\<lambda>t. cond_signal (t\<lparr>flag_connected := req_value arg AND CDC_CTRL_DTR \<noteq> 0\<rparr>)) c
         else c)"

text \<open>A call of the driver that cannot fail.\<close>

definition lld :: "(usb \<Rightarrow> usb_event \<times> usb) \<Rightarrow> cdc \<Rightarrow> cdc option" where
  "lld f c = Some (upd_drv (\<lambda>s. snd (f s)) c)"

definition vcom_port_data_setup :: "usb_hw \<Rightarrow> cdc \<Rightarrow> cdc option" where
  "vcom_port_data_setup hw c =
     (let arg = dev_req (dev (drv c))
      in if USB_SETUP_GET (req_type arg) then
           (if req_request arg = USB_CDC_REQ_GET_LINE_CODING
            then lld (usb_lld_ctrl_send hw (line_coding_p c) 7) c else None)
         else
           (if req_request arg = USB_CDC_REQ_SET_LINE_CODING \<and> req_len arg = 7
            then lld (usb_lld_ctrl_recv hw (line_coding_p c) 7) c
            else if req_request arg = USB_CDC_REQ_SET_CONTROL_LINE_STATE
            then lld (usb_lld_ctrl_ack hw) c
            else None))"

definition usb_setup :: "usb_hw \<Rightarrow> cdc \<Rightarrow> cdc option" where
  "usb_setup hw c = (if vcom_request (dev_req (dev (drv c))) then vcom_port_data_setup hw c else None)"

definition vcom_string :: "u8 \<Rightarrow> u8 list option" where
  "vcom_string desc_index =
     (if desc_index = 0 then Some vcom_string0
      else if desc_index = 1 then Some vcom_string1
      else if desc_index = 2 then Some vcom_string2
      else if desc_index = 3 then Some vcom_string3
      else None)"

definition usb_get_descriptor :: "usb_hw \<Rightarrow> cdc \<Rightarrow> cdc option" where
  "usb_get_descriptor hw c =
     (let arg = dev_req (dev (drv c));
          desc_type = ucast (drop_bit 8 (req_value arg)) :: u8;
          desc_index = ucast (req_value arg AND 0xff) :: u8
      in if recipient (req_type arg) \<noteq> DEVICE_RECIPIENT then None
         else if desc_type = DEVICE_DESCRIPTOR then
           lld (usb_lld_ctrl_send hw (vcom_device_desc_p c) (of_nat (length vcom_device_desc))) c
         else if desc_type = CONFIG_DESCRIPTOR then
           lld (usb_lld_ctrl_send hw (vcom_config_desc_p c) (of_nat (length vcom_config_desc))) c
         else if desc_type = STRING_DESCRIPTOR then
           (case vcom_string desc_index of
              None \<Rightarrow> None
            | Some str \<Rightarrow>
                lld (usb_lld_ctrl_send hw (vcom_string_p c desc_index) (of_nat (length str))) c)
         else None)"

definition vcom_setup_endpoints_for_interface ::
  "usb_hw \<Rightarrow> bool \<Rightarrow> u16 \<Rightarrow> bool \<Rightarrow> usb \<Rightarrow> usb" where
  "vcom_setup_endpoints_for_interface hw keep interface stop s =
     (if interface = 0 then
        (if \<not> stop then usb_lld_setup_endpoint hw keep ENDP2 EP_INTERRUPT 0 0 ENDP2_TXADDR 0 s
         else usb_lld_stall_tx hw ENDP2 s)
      else if interface = 1 then
        (if \<not> stop then
           (let s = usb_lld_setup_endpoint hw keep ENDP1 EP_BULK 0 0 ENDP1_TXADDR 0 s
            in usb_lld_setup_endpoint hw keep ENDP3 EP_BULK 0 ENDP3_RXADDR 0 64 s)
         else
           (let s = usb_lld_stall_tx hw ENDP1 s
            in usb_lld_stall_rx hw ENDP3 s))
      else s)"

text \<open>The loop over the two interfaces, and the new state of the device.\<close>

definition configure :: "usb_hw \<Rightarrow> bool \<Rightarrow> u8 \<Rightarrow> bool \<Rightarrow> DEVICE_STATE \<Rightarrow> cdc \<Rightarrow> cdc" where
  "configure hw keep config stop st c =
     (let c = upd_drv (usb_lld_set_configuration config) c;
          c = upd_drv (vcom_setup_endpoints_for_interface hw keep 0 stop) c;
          c = upd_drv (vcom_setup_endpoints_for_interface hw keep 1 stop) c
      in upd_tty (\<lambda>t. cond_signal (t\<lparr>device_state := st\<rparr>)) c)"

definition usb_set_configuration :: "usb_hw \<Rightarrow> bool \<Rightarrow> cdc \<Rightarrow> cdc option" where
  "usb_set_configuration hw keep c =
     (let current_conf = usb_lld_current_configuration (drv c);
          v = req_value (dev_req (dev (drv c)))
      in if current_conf = 0 then
           (if v \<noteq> 1 then None
            else lld (usb_lld_ctrl_ack hw) (configure hw keep 1 False USB_DEVICE_STATE_CONFIGURED c))
         else if ucast current_conf \<noteq> v then
           (if v \<noteq> 0 then None
            else lld (usb_lld_ctrl_ack hw) (configure hw keep 0 True USB_DEVICE_STATE_ADDRESSED c))
         else lld (usb_lld_ctrl_ack hw) c)"

definition usb_set_interface :: "usb_hw \<Rightarrow> bool \<Rightarrow> cdc \<Rightarrow> cdc option" where
  "usb_set_interface hw keep c =
     (let interface = req_index (dev_req (dev (drv c))); alt = req_value (dev_req (dev (drv c)))
      in if NUM_INTERFACES \<le> interface then None
         else if alt \<noteq> 0 then None
         else lld (usb_lld_ctrl_ack hw)
           (upd_drv (vcom_setup_endpoints_for_interface hw keep interface False) c))"

definition usb_get_interface :: "usb_hw \<Rightarrow> cdc \<Rightarrow> cdc option" where
  "usb_get_interface hw c =
     (if NUM_INTERFACES \<le> req_index (dev_req (dev (drv c))) then None
      else lld (usb_lld_ctrl_send hw (zero_p c) 1) (upd_drv (set_mem (zero_p c) 0) c))"

definition usb_get_status_interface :: "usb_hw \<Rightarrow> cdc \<Rightarrow> cdc option" where
  "usb_get_status_interface hw c =
     (if NUM_INTERFACES \<le> req_index (dev_req (dev (drv c))) then None
      else lld (usb_lld_ctrl_send hw (if_status_p c) 2) (upd_drv (set_mem16 (if_status_p c) 0) c))"

section \<open>The echo ring\<close>

definition store_at :: "u8 list \<Rightarrow> u8 \<Rightarrow> u8 \<Rightarrow> u8 list option" where
  "store_at xs i v = (if unat i < length xs then Some (xs[unat i := v]) else None)"

definition load_at :: "u8 list \<Rightarrow> u8 \<Rightarrow> u8 option" where
  "load_at xs i = (if unat i < length xs then Some (xs ! unat i) else None)"

definition ring_next :: "u8 \<Rightarrow> u32" where
  "ring_next i = (ucast i + 1) mod LINEBUFSIZE"

definition put_char_to_ringbuffer :: "u8 \<Rightarrow> tty \<Rightarrow> tty option" where
  "put_char_to_ringbuffer c t =
     (let next = ring_next (send_tail t)
      in if ucast (send_head t) = next then Some t
         else do {
           b \<leftarrow> store_at (send_buf t) (send_tail t) c;
           Some (t\<lparr>send_buf := b, send_tail := ucast next\<rparr>)
         })"

text \<open>The loop takes at least one character, and at most as many as the caller has room for.\<close>

function get_chars_loop :: "nat \<Rightarrow> tty \<Rightarrow> (u8 list \<times> tty) option" where
  "get_chars_loop len t =
     (case load_at (send_buf t) (send_head t) of
        None \<Rightarrow> None
      | Some c \<Rightarrow>
         (let t = t\<lparr>send_head := ucast (ring_next (send_head t))\<rparr>
          in if send_head t \<noteq> send_tail t \<and> 1 < len then
               (case get_chars_loop (len - 1) t of
                  None \<Rightarrow> None
                | Some (cs, t) \<Rightarrow> Some (c # cs, t))
             else Some ([c], t)))"
  by auto

termination
  by (relation "measure fst") auto

declare get_chars_loop.simps [simp del]

definition get_chars_from_ringbuffer :: "nat \<Rightarrow> tty \<Rightarrow> (u8 list \<times> tty) option" where
  "get_chars_from_ringbuffer len t =
     (if send_head t = send_tail t then Some ([], t) else get_chars_loop len t)"

definition tty_echo_char :: "u8 \<Rightarrow> tty \<Rightarrow> tty option" where
  "tty_echo_char c t = put_char_to_ringbuffer c t"

primrec echo_chars :: "u8 list \<Rightarrow> tty \<Rightarrow> tty option" where
  "echo_chars [] t = Some t"
| "echo_chars (c # cs) t = do { t \<leftarrow> tty_echo_char c t; echo_chars cs t }"

section \<open>Transfers\<close>

definition usb_tx_done :: "u8 \<Rightarrow> cdc \<Rightarrow> cdc" where
  "usb_tx_done ep_num c =
     (if ep_num = ENDP1 then
        upd_tty (\<lambda>t. if \<not> flag_send_ready t then cond_signal (t\<lparr>flag_send_ready := True\<rparr>) else t) c
      else c)"

definition tty_input_char :: "u8 \<Rightarrow> tty \<Rightarrow> (bool \<times> tty) option" where
  "tty_input_char c t =
     (if c = 0x0d then do {
        l \<leftarrow> store_at (inputline t) (inputline_len t) 0x0a;
        t \<leftarrow> Some (t\<lparr>inputline := l, inputline_len := inputline_len t + 1\<rparr>);
        t \<leftarrow> echo_chars [0x0d, 0x0a] t;
        Some (True, cond_signal (t\<lparr>flag_input_avail := True\<rparr>))
      }
      else if c = 0x12 then do {
        t \<leftarrow> echo_chars [0x5e, 0x52, 0x0d, 0x0a] t;
        if unat (inputline_len t) \<le> length (inputline t) then do {
          t \<leftarrow> echo_chars (take (unat (inputline_len t)) (inputline t)) t;
          Some (False, t)
        } else None
      }
      else if c = 0x15 then do {
        t \<leftarrow> echo_chars (concat (replicate (unat (inputline_len t)) [0x08, 0x20, 0x08])) t;
        Some (False, t\<lparr>inputline_len := 0\<rparr>)
      }
      else if c = 0x7f then
        (if 0 < inputline_len t then do {
           t \<leftarrow> echo_chars [0x08, 0x20, 0x08] t;
           Some (False, t\<lparr>inputline_len := inputline_len t - 1\<rparr>)
         } else Some (False, t))
      else
        (if ucast (inputline_len t) < LINEBUFSIZE - 1 then do {
           t \<leftarrow> tty_echo_char c t;
           l \<leftarrow> store_at (inputline t) (inputline_len t) c;
           Some (False, t\<lparr>inputline := l, inputline_len := inputline_len t + 1\<rparr>)
         } else do {
           t \<leftarrow> tty_echo_char 0x0a t;
           Some (False, t)
         }))"

primrec rx_chars :: "u8 list \<Rightarrow> tty \<Rightarrow> tty option" where
  "rx_chars [] t = Some t"
| "rx_chars (c # cs) t = do {
     (r, t) \<leftarrow> tty_input_char c t;
     if r then Some t else rx_chars cs t
   }"

definition usb_rx_ready :: "usb_hw \<Rightarrow> u8 \<Rightarrow> u16 \<Rightarrow> cdc \<Rightarrow> cdc option" where
  "usb_rx_ready hw ep_num len c =
     (if ep_num = ENDP3 then
        (if 64 < len then None
         else do {
           c \<leftarrow> Some (upd_drv (usb_lld_rxcpy (recv_buf_p c) ep_num 0 (ucast len)) c);
           t \<leftarrow> rx_chars (bytes (mem (drv c)) (recv_buf_p c) (unat len)) (tty0 c);
           c \<leftarrow> Some (c\<lparr>tty0 := t\<rparr>);
           Some (if \<not> flag_input_avail (tty0 c) then upd_drv (usb_lld_rx_enable hw ENDP3) c else c)
         })
      else Some c)"

section \<open>The thread of the TTY\<close>

definition tty_open :: "cdc \<Rightarrow> cdc" where
  "tty_open c =
     (let c = upd_tty (\<lambda>t. reset_tty USB_DEVICE_STATE_UNCONNECTED (t\<lparr>cnd_signals := 0\<rparr>)) c
      in upd_drv (store_bytes (line_coding_p c) line_coding0) c)"

text \<open>A handler of a request, and the answer when it returns -1.\<close>

definition or_error :: "usb_hw \<Rightarrow> (cdc \<Rightarrow> cdc option) \<Rightarrow> cdc \<Rightarrow> cdc" where
  "or_error hw f c = (case f c of None \<Rightarrow> upd_drv (usb_lld_ctrl_error hw) c | Some c' \<Rightarrow> c')"

definition tty_dispatch :: "usb_hw \<Rightarrow> bool \<Rightarrow> u32 \<Rightarrow> cdc \<Rightarrow> cdc" where
  "tty_dispatch hw keep ev c =
     (if ev = event_no USB_EVENT_DEVICE_RESET then usb_device_reset hw keep c
      else if ev = event_no USB_EVENT_DEVICE_ADDRESSED then
        upd_tty (\<lambda>t. cond_signal (t\<lparr>device_state := USB_DEVICE_STATE_ADDRESSED\<rparr>)) c
      else if ev = event_no USB_EVENT_GET_DESCRIPTOR then or_error hw (usb_get_descriptor hw) c
      else if ev = event_no USB_EVENT_SET_CONFIGURATION then
        or_error hw (usb_set_configuration hw keep) c
      else if ev = event_no USB_EVENT_SET_INTERFACE then or_error hw (usb_set_interface hw keep) c
      else if ev = event_no USB_EVENT_CTRL_REQUEST then or_error hw (usb_setup hw) c
      else if ev = event_no USB_EVENT_GET_STATUS_INTERFACE then
        or_error hw (usb_get_status_interface hw) c
      else if ev = event_no USB_EVENT_GET_INTERFACE then or_error hw (usb_get_interface hw) c
      else if ev = event_no USB_EVENT_SET_FEATURE_DEVICE \<or>
        ev = event_no USB_EVENT_SET_FEATURE_ENDPOINT \<or>
        ev = event_no USB_EVENT_CLEAR_FEATURE_DEVICE \<or>
        ev = event_no USB_EVENT_CLEAR_FEATURE_ENDPOINT then
        upd_drv (\<lambda>s. snd (usb_lld_ctrl_ack hw s)) c
      else if ev = event_no USB_EVENT_CTRL_WRITE_FINISH then usb_ctrl_write_finish c
      else c)"

text \<open>
  The end of a round: characters of the echo ring go to the host when it can take them. The room
  that is passed for them is \<open>sizeof (len)\<close>, four bytes.
\<close>

definition tty_echo :: "usb_hw \<Rightarrow> cdc \<Rightarrow> cdc option" where
  "tty_echo hw c =
     (let t = tty0 c
      in if device_state t = USB_DEVICE_STATE_CONFIGURED \<and> flag_connected t \<and> flag_send_ready t then do {
           (line, t) \<leftarrow> get_chars_from_ringbuffer 4 t;
           c \<leftarrow> Some (upd_drv (store_bytes (line_p c) line) (c\<lparr>tty0 := t\<rparr>));
           Some (if line \<noteq> [] then
               (let len = of_nat (length line);
                    c = upd_drv (usb_lld_txcpy (line_p c) ENDP1 0 len) c;
                    c = upd_drv (usb_lld_tx_enable hw ENDP1 len) c
                in upd_tty (\<lambda>t. t\<lparr>flag_send_ready := False\<rparr>) c)
             else c)
         }
         else Some c)"

text \<open>
  One round of \<open>tty_main\<close> after \<open>chopstx_intr_wait\<close>, which returns with the interrupt ready
  (\<open>ready\<close>) or without it. A round for an event of endpoint 0 ends with \<open>continue\<close>.
\<close>

definition tty_main_round :: "usb_hw \<Rightarrow> bool \<Rightarrow> bool \<Rightarrow> cdc \<Rightarrow> cdc option" where
  "tty_main_round hw keep ready c =
     (if ready then
        (let (e, s) = usb_lld_event_handler hw (drv c);
             c = c\<lparr>drv := s\<rparr>;
             ep_num = ucast (USB_EVENT_ENDP e) :: u8
         in if ep_num \<noteq> 0 then
              (if USB_EVENT_TXRX e \<noteq> 0 then tty_echo hw (usb_tx_done ep_num c)
               else do {
                 c \<leftarrow> usb_rx_ready hw ep_num (ucast (USB_EVENT_LEN e)) c;
                 tty_echo hw c
               })
            else Some (tty_dispatch hw keep (USB_EVENT_ID e) c))
      else tty_echo hw c)"

text \<open>What \<open>tty_main\<close> does before its first round.\<close>

definition tty_main_start :: "usb_hw \<Rightarrow> cdc \<Rightarrow> cdc" where
  "tty_main_start hw c = upd_drv (usb_lld_init hw VCOM_FEATURE_BUS_POWERED) c"

section \<open>The calls of the application\<close>

text \<open>
  A loop that waits on the condition variable: \<open>others\<close> is what other threads do from the release
  of the mutex until the thread has it again. \<open>None\<close> means that it still waits after \<open>n\<close> wakeups.
\<close>

fun wait_until :: "(tty \<Rightarrow> bool) \<Rightarrow> (cdc \<Rightarrow> cdc) \<Rightarrow> nat \<Rightarrow> cdc \<Rightarrow> cdc option" where
  "wait_until ok others n c =
     (if ok (tty0 c) then Some c
      else case n of 0 \<Rightarrow> None | Suc m \<Rightarrow> wait_until ok others m (others c))"

declare wait_until.simps [simp del]

definition tty_wait_configured :: "(cdc \<Rightarrow> cdc) \<Rightarrow> nat \<Rightarrow> cdc \<Rightarrow> cdc option" where
  "tty_wait_configured others n c =
     wait_until (\<lambda>t. device_state t = USB_DEVICE_STATE_CONFIGURED) others n c"

definition tty_connect :: "usb_hw \<Rightarrow> cdc \<Rightarrow> cdc" where
  "tty_connect hw c =
     (let c = upd_tty (\<lambda>t. t\<lparr>flag_send_ready := True, flag_input_avail := False, send_head := 0,
                send_tail := 0, inputline_len := 0\<rparr>) c
      in upd_drv (usb_lld_rx_enable hw ENDP3) c)"

definition tty_wait_connection :: "usb_hw \<Rightarrow> (cdc \<Rightarrow> cdc) \<Rightarrow> nat \<Rightarrow> cdc \<Rightarrow> cdc option" where
  "tty_wait_connection hw others n c =
     do { c \<leftarrow> wait_until flag_connected others n c; Some (tty_connect hw c) }"

definition check_tx :: "tty \<Rightarrow> int" where
  "check_tx t = (if flag_send_ready t then 1 else if \<not> flag_connected t then -1 else 0)"

text \<open>
  One packet of \<open>tty_send\<close>, under the mutex, when \<open>check_tx\<close> no longer is 0.
\<close>

definition send_one :: "usb_hw \<Rightarrow> addr \<Rightarrow> nat \<Rightarrow> cdc \<Rightarrow> cdc" where
  "send_one hw p count c =
     (if 0 < check_tx (tty0 c) then
        (let c = upd_drv (usb_lld_txcpy p ENDP1 0 (of_nat count)) c;
             c = upd_drv (usb_lld_tx_enable hw ENDP1 (of_nat count)) c
         in upd_tty (\<lambda>t. t\<lparr>flag_send_ready := False\<rparr>) c)
      else c)"

text \<open>
  \<open>len\<close> is not negative. The result has, beside the value returned and the state, the states
  in which the packets were handed to the controller.
\<close>

function tty_send ::
  "usb_hw \<Rightarrow> (cdc \<Rightarrow> cdc) \<Rightarrow> nat \<Rightarrow> addr \<Rightarrow> nat \<Rightarrow> cdc \<Rightarrow> (int \<times> usb list \<times> cdc) option" where
  "tty_send hw others n p len c =
     (let count = (if 64 \<le> len then 64 else len)
      in case wait_until (\<lambda>t. check_tx t \<noteq> 0) others n c of
           None \<Rightarrow> None
         | Some c \<Rightarrow>
             (let r = check_tx (tty0 c);
                  c = send_one hw p count c
              in if len - count = 0 \<and> count \<noteq> 64 then Some (r, [drv c], c)
                 else case tty_send hw others n (p + of_nat count) (len - count) c of
                        None \<Rightarrow> None
                      | Some (r, ps, c') \<Rightarrow> Some (r, drv c # ps, c')))"
  by auto

termination
  by (relation "measure (\<lambda>(hw, others, n, p, len, c). len)") (auto split: if_splits)

declare tty_send.simps [simp del]

definition check_rx :: "tty \<Rightarrow> bool" where
  "check_rx t \<longleftrightarrow> flag_input_avail t \<or> \<not> flag_connected t"

text \<open>
  The loop of \<open>tty_recv\<close>. \<open>poll\<close> is \<open>chopstx_poll\<close> on the condition variable with \<open>check_rx\<close>: what it
  leaves of the timeout (\<open>None\<close>: a null pointer, to wait without limit), and the state after it.
\<close>

fun recv_wait ::
  "(u32 option \<Rightarrow> cdc \<Rightarrow> u32 option \<times> cdc) \<Rightarrow> nat \<Rightarrow> u32 option \<Rightarrow> cdc \<Rightarrow> (u32 option \<times> cdc) option" where
  "recv_wait poll 0 timeout c = None"
| "recv_wait poll (Suc n) timeout c =
     (let (timeout, c) = poll timeout c
      in if check_rx (tty0 c) \<or> timeout = Some 0 then Some (timeout, c)
         else recv_wait poll n timeout c)"

definition recv_line :: "usb_hw \<Rightarrow> addr \<Rightarrow> cdc \<Rightarrow> (int \<times> cdc) option" where
  "recv_line hw buf c =
     (let t = tty0 c
      in if \<not> flag_connected t then Some (- 1, c)
         else if flag_input_avail t then
           (let r = unat (inputline_len t)
            in if r \<le> length (inputline t) then
                 (let c = upd_drv (store_bytes buf (take r (inputline t))) c;
                      c = upd_tty (\<lambda>t. t\<lparr>flag_input_avail := False\<rparr>) c;
                      c = upd_drv (usb_lld_rx_enable hw ENDP3) c
                  in Some (int r, upd_tty (\<lambda>t. t\<lparr>inputline_len := 0\<rparr>) c))
               else None)
         else Some (0, c))"

definition tty_recv ::
  "usb_hw \<Rightarrow> (u32 option \<Rightarrow> cdc \<Rightarrow> u32 option \<times> cdc) \<Rightarrow> nat \<Rightarrow> addr \<Rightarrow> u32 option \<Rightarrow> cdc \<Rightarrow>
     (int \<times> u32 option \<times> cdc) option" where
  "tty_recv hw poll n buf timeout c = do {
     (timeout, c) \<leftarrow> recv_wait poll n timeout c;
     (r, c) \<leftarrow> recv_line hw buf c;
     Some (r, timeout, c)
   }"

end
