(* ===== verification/Usb_Cdc_Line.thy ===== *)
theory Usb_Cdc_Line
  imports Usb_Cdc Ring_Buffer
begin

text \<open>
  The line editor of the virtual serial port: the ring of characters to echo is a bounded queue,
  and a packet from the host edits the input line as a sequence of keys does.
\<close>

unbundle bit_operations_syntax

section \<open>The echo ring is a bounded queue\<close>

definition ring_ok :: "tty \<Rightarrow> bool" where
  "ring_ok t \<longleftrightarrow> length (send_buf t) = 128 \<and> unat (send_head t) < 128 \<and> unat (send_tail t) < 128"

definition echo_count :: "tty \<Rightarrow> nat" where
  "echo_count t = (unat (send_tail t) + 128 - unat (send_head t)) mod 128"

definition echoes :: "tty \<Rightarrow> u8 list" where
  "echoes t = List.map (\<lambda>i. send_buf t ! ((unat (send_head t) + i) mod 128)) [0..<echo_count t]"

definition echo_add :: "u8 \<Rightarrow> tty \<Rightarrow> tty" where
  "echo_add c t = t\<lparr>send_buf := (send_buf t)[unat (send_tail t) := c],
     send_tail := ucast (ring_next (send_tail t))\<rparr>"

definition echo_del :: "tty \<Rightarrow> u8 \<times> tty" where
  "echo_del t = (send_buf t ! unat (send_head t), t\<lparr>send_head := ucast (ring_next (send_head t))\<rparr>)"

definition echo_full :: "tty \<Rightarrow> bool" where
  "echo_full t \<longleftrightarrow> ucast (send_head t) = ring_next (send_tail t)"

definition echo_empty :: "tty \<Rightarrow> bool" where
  "echo_empty t \<longleftrightarrow> send_head t = send_tail t"

lemma unat_u8_u32: "unat (ucast (i :: u8) :: u32) = unat i"
  using unsigned_less [of i, where 'a = nat] by (simp add: unsigned_ucast_eq take_bit_nat_eq_self)

lemma unat_ring_next:
  "unat (ring_next i) = (unat i + 1) mod 128"
  "unat (ucast (ring_next i) :: u8) = (unat i + 1) mod 128"
proof -
  have "unat (ucast i + 1 :: u32) = unat i + 1"
    using unsigned_less [of i, where 'a = nat]
    by (subst unat_add_lem [THEN iffD1]) (simp_all add: unat_u8_u32)
  then show n: "unat (ring_next i) = (unat i + 1) mod 128"
    by (simp add: ring_next_def LINEBUFSIZE_def unat_mod)
  have "(unat i + 1) mod 128 < 256" using mod_less_divisor [of 128 "unat i + 1"] by linarith
  then show "unat (ucast (ring_next i) :: u8) = (unat i + 1) mod 128"
    by (simp add: unsigned_ucast_eq n take_bit_nat_eq_self)
qed

lemma length_echoes [simp]: "length (echoes t) = echo_count t"
  by (simp add: echoes_def)

lemma echo_count_bounds:
  assumes "ring_ok t"
  shows "echo_count t \<le> 127" "echo_full t \<longleftrightarrow> echo_count t = 127" "echo_empty t \<longleftrightarrow> echo_count t = 0"
    "unat (send_tail t) = (unat (send_head t) + echo_count t) mod 128"
proof -
  have b: "unat (send_head t) < 128" "unat (send_tail t) < 128" using assms by (simp_all add: ring_ok_def)
  have c: "echo_count t = (if unat (send_head t) \<le> unat (send_tail t)
      then unat (send_tail t) - unat (send_head t) else unat (send_tail t) + 128 - unat (send_head t))"
    using b by (auto simp: echo_count_def mod_if)
  show "echo_count t \<le> 127" using b by (auto simp: c)
  have "echo_full t \<longleftrightarrow> unat (send_head t) = (unat (send_tail t) + 1) mod 128"
    by (simp add: echo_full_def word_unat_eq_iff unat_u8_u32 unat_ring_next)
  then show "echo_full t \<longleftrightarrow> echo_count t = 127" using b by (auto simp: c mod_if)
  show "echo_empty t \<longleftrightarrow> echo_count t = 0" using b by (auto simp: echo_empty_def word_unat_eq_iff c)
  show "unat (send_tail t) = (unat (send_head t) + echo_count t) mod 128" using b by (auto simp: c mod_if)
qed

lemma echo_add_queue:
  assumes ok: "ring_ok t" and nf: "\<not> echo_full t"
  shows "ring_ok (echo_add c t) \<and> echoes (echo_add c t) = echoes t @ [c]"
proof -
  let ?h = "unat (send_head t)" and ?k = "echo_count t" and ?t = "echo_add c t"
  note d = ok [unfolded ring_ok_def] and b = echo_count_bounds [OF ok]
  have k: "?k < 127" using b nf by auto
  have f: "send_buf ?t = (send_buf t)[unat (send_tail t) := c]" "send_head ?t = send_head t"
    "unat (send_tail ?t) = (unat (send_tail t) + 1) mod 128"
    by (simp_all add: echo_add_def unat_ring_next)
  then have ok': "ring_ok ?t" using d by (simp add: ring_ok_def)
  have "(?h + echo_count ?t) mod 128 = (?h + (?k + 1)) mod 128"
    using echo_count_bounds(4) [OF ok'] b(4) by (simp add: f mod_simps add.assoc)
  then have cnt: "echo_count ?t = ?k + 1"
    using mod_add_inj [of ?h 128 "echo_count ?t" "?k + 1"] echo_count_bounds(1) [OF ok'] k d by auto
  have "(?h + ?k) mod 128 \<noteq> (?h + i) mod 128" if "i < ?k" for i
    using that k mod_add_inj [of ?h 128 ?k i] d by simp
  then show ?thesis using ok' d unfolding echoes_def cnt by (simp add: f b(4))
qed

lemma echo_del_queue:
  assumes ok: "ring_ok t" and ne: "\<not> echo_empty t"
  shows "ring_ok (snd (echo_del t)) \<and> echoes t = fst (echo_del t) # echoes (snd (echo_del t))"
proof -
  let ?h = "unat (send_head t)" and ?t = "snd (echo_del t)"
  note d = ok [unfolded ring_ok_def] and b = echo_count_bounds [OF ok]
  from b ne obtain m where m: "echo_count t = Suc m" by (cases "echo_count t") auto
  have f: "send_buf ?t = send_buf t" "send_tail ?t = send_tail t" "unat (send_head ?t) = (?h + 1) mod 128"
    by (simp_all add: echo_del_def unat_ring_next)
  then have ok': "ring_ok ?t" using d by (simp add: ring_ok_def)
  have "((?h + 1) mod 128 + echo_count ?t) mod 128 = ((?h + 1) mod 128 + m) mod 128"
    using echo_count_bounds(4) [OF ok'] b(4) by (simp add: f m mod_simps)
  then have cnt: "echo_count ?t = m"
    using mod_add_inj [of "(?h + 1) mod 128" 128 "echo_count ?t" m] echo_count_bounds(1) [OF ok'] b(1) m
    by auto
  have "echoes t = fst (echo_del t) # echoes ?t"
    unfolding echoes_def cnt m
    by (subst upt_conv_Cons)
      (use d in \<open>simp_all add: f echo_del_def unat_ring_next map_Suc_upt [symmetric] mod_simps del: upt_Suc\<close>)
  with ok' show ?thesis by blast
qed

interpretation eq: bounded_queue ring_ok echoes "\<lambda>_. 127" echo_add echo_del echo_full echo_empty
  by unfold_locales (simp_all add: echo_count_bounds echo_add_queue echo_del_queue flip: length_0_conv)

text \<open>What is put into a full ring is lost.\<close>

lemma tty_echo_char_eq:
  assumes "ring_ok t"
  shows "tty_echo_char c t = Some (if echo_full t then t else echo_add c t)"
  using assms by (simp add: tty_echo_char_def put_char_to_ringbuffer_def echo_full_def echo_add_def
      store_at_def ring_ok_def Let_def)

definition same_but_echo :: "tty \<Rightarrow> tty \<Rightarrow> bool" where
  "same_but_echo t t' \<longleftrightarrow> (\<exists>b i. t' = t\<lparr>send_buf := b, send_tail := i\<rparr>)"

lemma same_but_echoI [intro, simp]: "same_but_echo t t" "same_but_echo t (echo_add c t)"
  unfolding same_but_echo_def by (rule exI [of _ "send_buf t"], rule exI [of _ "send_tail t"], simp)
    (unfold echo_add_def, blast)

lemma same_but_echo_trans: "same_but_echo t u \<Longrightarrow> same_but_echo u v \<Longrightarrow> same_but_echo t v"
  unfolding same_but_echo_def by (elim exE) (simp, blast)

lemma same_but_echo_fields:
  assumes "same_but_echo t t'"
  shows "inputline t' = inputline t" "inputline_len t' = inputline_len t"
    "flag_input_avail t' = flag_input_avail t" "flag_connected t' = flag_connected t"
    "flag_send_ready t' = flag_send_ready t" "device_state t' = device_state t"
    "cnd_signals t' = cnd_signals t" "send_head t' = send_head t"
  using assms by (auto simp: same_but_echo_def)

lemma echo_chars_ok:
  "ring_ok t \<Longrightarrow> \<exists>t'. echo_chars cs t = Some t' \<and> ring_ok t' \<and> same_but_echo t t' \<and>
    echoes t' = take 127 (echoes t @ cs)"
proof (induction cs arbitrary: t)
  case Nil
  then show ?case using echo_count_bounds(1) by auto
next
  case (Cons c cs)
  define u where "u = (if echo_full t then t else echo_add c t)"
  have u: "tty_echo_char c t = Some u" using tty_echo_char_eq [OF Cons.prems] by (simp add: u_def)
  have ok: "ring_ok u" using Cons.prems echo_add_queue by (auto simp: u_def)
  have same: "same_but_echo t u" by (auto simp: u_def)
  have q: "take 127 (echoes u @ cs) = take 127 (echoes t @ c # cs)"
  proof (cases "echo_full t")
    case True
    then show ?thesis using echo_count_bounds [OF Cons.prems] by (simp add: u_def)
  next
    case False
    then show ?thesis using echo_add_queue [OF Cons.prems] by (simp add: u_def)
  qed
  from Cons.IH [OF ok] obtain t' where t': "echo_chars cs u = Some t'" "ring_ok t'" "same_but_echo u t'"
    "echoes t' = take 127 (echoes u @ cs)" by blast
  show ?case
    by (intro exI [of _ t'] conjI)
      (use t' same same_but_echo_trans in \<open>auto simp: u q simp del: take_append\<close>)
qed

lemma get_chars_loop_ok:
  "ring_ok t \<Longrightarrow> \<not> echo_empty t \<Longrightarrow> 0 < len \<Longrightarrow>
   \<exists>h. get_chars_loop len t = Some (take len (echoes t), t\<lparr>send_head := h\<rparr>) \<and>
     ring_ok (t\<lparr>send_head := h\<rparr>) \<and> echoes (t\<lparr>send_head := h\<rparr>) = drop len (echoes t)"
proof (induction len arbitrary: t)
  case (Suc len)
  define u where "u = snd (echo_del t)"
  have u: "u = t\<lparr>send_head := ucast (ring_next (send_head t))\<rparr>" by (simp add: u_def echo_del_def)
  note q = echo_del_queue [OF Suc.prems(1,2), folded u_def]
  have c: "load_at (send_buf t) (send_head t) = Some (fst (echo_del t))"
    using Suc.prems(1) by (simp add: load_at_def echo_del_def ring_ok_def)
  show ?case
  proof (cases "\<not> echo_empty u \<and> 0 < len")
    case True
    with Suc.IH [of u] q obtain h where h: "get_chars_loop len u = Some (take len (echoes u), u\<lparr>send_head := h\<rparr>)"
      "ring_ok (u\<lparr>send_head := h\<rparr>)" "echoes (u\<lparr>send_head := h\<rparr>) = drop len (echoes u)" by blast
    have uh: "u\<lparr>send_head := h\<rparr> = t\<lparr>send_head := h\<rparr>" by (simp add: u)
    have "get_chars_loop (Suc len) t = Some (take (Suc len) (echoes t), t\<lparr>send_head := h\<rparr>)"
      using True h(1) q unfolding uh
      by (simp add: get_chars_loop.simps [of "Suc len" t] c Let_def u [symmetric] echo_empty_def)
    then show ?thesis using h q unfolding uh by auto
  next
    case False
    then have "get_chars_loop (Suc len) t = Some ([fst (echo_del t)], u)"
      by (auto simp add: get_chars_loop.simps [of "Suc len" t] c Let_def u [symmetric] echo_empty_def)
    moreover have "echoes u = [] \<or> len = 0" using False q eq.empty_iff by auto
    ultimately show ?thesis using q u by (intro exI [of _ "send_head u"]) auto
  qed
qed simp

lemma get_chars_ok:
  assumes "ring_ok t" "0 < len"
  shows "\<exists>h. get_chars_from_ringbuffer len t = Some (take len (echoes t), t\<lparr>send_head := h\<rparr>) \<and>
     ring_ok (t\<lparr>send_head := h\<rparr>) \<and> echoes (t\<lparr>send_head := h\<rparr>) = drop len (echoes t)"
proof (cases "echo_empty t")
  case True
  then show ?thesis using assms eq.empty_iff [OF assms(1)]
    by (intro exI [of _ "send_head t"]) (simp add: get_chars_from_ringbuffer_def echo_empty_def [symmetric])
next
  case False
  then show ?thesis using get_chars_loop_ok [OF assms(1) False assms(2)]
    by (simp add: get_chars_from_ringbuffer_def echo_empty_def)
qed

section \<open>The editor\<close>

text \<open>
  What a key does to the line, and what it shows: RETURN ends the line, CTRL-R shows it again,
  CTRL-U takes it away, DEL takes the last character away, and anything else is a character of the line
  while there are fewer than 127 of them.
\<close>

definition edit :: "u8 \<Rightarrow> u8 list \<Rightarrow> u8 list" where
  "edit c l = (if c = 0x0d then l @ [0x0a] else if c = 0x12 then l else if c = 0x15 then []
     else if c = 0x7f then butlast l else if length l < 127 then l @ [c] else l)"

definition rubout :: "u8 list" where "rubout = [0x08, 0x20, 0x08]"

definition shown :: "u8 \<Rightarrow> u8 list \<Rightarrow> u8 list" where
  "shown c l = (if c = 0x0d then [0x0d, 0x0a]
     else if c = 0x12 then [0x5e, 0x52, 0x0d, 0x0a] @ l
     else if c = 0x15 then concat (replicate (length l) rubout)
     else if c = 0x7f then (if l = [] then [] else rubout)
     else if length l < 127 then [c] else [0x0a])"

text \<open>A whole packet: the line, what is shown, and whether the line was ended.\<close>

fun edit_packet :: "u8 list \<Rightarrow> u8 list \<Rightarrow> u8 list \<times> u8 list \<times> bool" where
  "edit_packet [] l = (l, [], False)"
| "edit_packet (c # cs) l =
     (if c = 0x0d then (edit c l, shown c l, True)
      else (let (l', e, d) = edit_packet cs (edit c l) in (l', shown c l @ e, d)))"

definition typed :: "tty \<Rightarrow> u8 list" where
  "typed t = take (unat (inputline_len t)) (inputline t)"

definition line_ok :: "tty \<Rightarrow> bool" where
  "line_ok t \<longleftrightarrow> ring_ok t \<and> length (inputline t) = 128 \<and>
     unat (inputline_len t) \<le> (if flag_input_avail t then 128 else 127)"

lemma length_typed: "line_ok t \<Longrightarrow> length (typed t) = unat (inputline_len t)"
  by (auto simp: line_ok_def typed_def split: if_splits)

text \<open>What a step leaves alone, beside the line and the ring.\<close>

definition same_flags :: "tty \<Rightarrow> tty \<Rightarrow> bool" where
  "same_flags t t' \<longleftrightarrow> flag_connected t' = flag_connected t \<and> flag_send_ready t' = flag_send_ready t \<and>
     device_state t' = device_state t"

lemma u8_succ: "unat (n :: u8) \<le> 127 \<Longrightarrow> unat (n + 1) = unat n + 1"
  by (subst unat_add_lem [THEN iffD1]) simp_all

lemma take_snoc_update: "n < length xs \<Longrightarrow> take (Suc n) (xs[n := v]) = take n xs @ [v]"
  by (simp add: take_Suc_conv_app_nth)

lemma ring_fields:
  "ring_ok (t\<lparr>inputline := l\<rparr>) = ring_ok t" "ring_ok (t\<lparr>inputline_len := n\<rparr>) = ring_ok t"
  "ring_ok (t\<lparr>flag_input_avail := b\<rparr>) = ring_ok t" "ring_ok (t\<lparr>cnd_signals := k\<rparr>) = ring_ok t"
  "echoes (t\<lparr>inputline := l\<rparr>) = echoes t" "echoes (t\<lparr>inputline_len := n\<rparr>) = echoes t"
  "echoes (t\<lparr>flag_input_avail := b\<rparr>) = echoes t" "echoes (t\<lparr>cnd_signals := k\<rparr>) = echoes t"
  by (simp_all add: ring_ok_def echoes_def echo_count_def)

lemma take_append_twice: "take n (take n (xs @ ys) @ zs) = take n (xs @ ys @ zs)"
  by (cases "length xs \<le> n") (auto simp: min_def)

lemma echo_chars_single: "tty_echo_char c t = echo_chars [c] t"
  by (cases "tty_echo_char c t") simp_all

text \<open>A key is handled: the rest of this section goes through the keys one by one.\<close>

definition editable :: "tty \<Rightarrow> bool" where
  "editable t \<longleftrightarrow> line_ok t \<and> \<not> flag_input_avail t"

definition key_done :: "u8 \<Rightarrow> tty \<Rightarrow> tty \<Rightarrow> bool" where
  "key_done c t t' \<longleftrightarrow> line_ok t' \<and> same_flags t t' \<and>
    typed t' = edit c (typed t) \<and> echoes t' = take 127 (echoes t @ shown c (typed t)) \<and>
    (flag_input_avail t' \<longleftrightarrow> c = 0x0d) \<and>
    cnd_signals t' = cnd_signals t + (if c = 0x0d then 1 else 0)"

lemma editableD:
  assumes "editable t"
  shows "ring_ok t" "length (inputline t) = 128" "unat (inputline_len t) \<le> 127"
    "length (typed t) = unat (inputline_len t)" "\<not> flag_input_avail t" "line_ok t"
    "unat (inputline_len t + 1) = unat (inputline_len t) + 1"
  using assms length_typed [of t] u8_succ [of "inputline_len t"] by (auto simp: editable_def line_ok_def)

lemma echo_obtain:
  assumes "ring_ok t"
  obtains u where "echo_chars cs t = Some u" "ring_ok u" "same_but_echo t u" "echoes u = take 127 (echoes t @ cs)"
  using echo_chars_ok [OF assms, of cs] by blast

lemmas key_defs = key_done_def line_ok_def same_flags_def edit_def shown_def

lemma key_return:
  assumes "editable t"
  shows "\<exists>t'. tty_input_char 0x0d t = Some (True, t') \<and> key_done 0x0d t t'"
proof -
  note d = editableD [OF assms]
  define s where "s = t\<lparr>inputline := (inputline t)[unat (inputline_len t) := 0x0a], inputline_len := inputline_len t + 1\<rparr>"
  have "ring_ok s" "echoes s = echoes t" using d(1) by (simp_all add: s_def ring_fields)
  with echo_obtain [of s "[0x0d, 0x0a]"] obtain u where
    u: "echo_chars [0x0d, 0x0a] s = Some u" "ring_ok u" "same_but_echo s u"
      "echoes u = take 127 (echoes t @ [0x0d, 0x0a])" by metis
  let ?t = "cond_signal (u\<lparr>flag_input_avail := True\<rparr>)"
  have "tty_input_char 0x0d t = Some (True, ?t)"
    using d u(1) by (simp add: tty_input_char_def store_at_def s_def [symmetric] del: echo_chars.simps)
  moreover have "typed ?t = typed t @ [0x0a]"
    using d by (simp add: typed_def cond_signal_def same_but_echo_fields [OF u(3)] s_def take_snoc_update)
  ultimately show ?thesis
    using d u by (auto simp: key_defs cond_signal_def ring_fields same_but_echo_fields [OF u(3)] s_def)
qed

lemma key_reprint:
  assumes "editable t"
  shows "\<exists>t'. tty_input_char 0x12 t = Some (False, t') \<and> key_done 0x12 t t'"
proof -
  note d = editableD [OF assms]
  obtain u where u: "echo_chars [0x5e, 0x52, 0x0d, 0x0a] t = Some u" "ring_ok u" "same_but_echo t u"
    "echoes u = take 127 (echoes t @ [0x5e, 0x52, 0x0d, 0x0a])" by (rule echo_obtain [OF d(1)])
  obtain v where v: "echo_chars (typed t) u = Some v" "ring_ok v" "same_but_echo u v"
    "echoes v = take 127 (echoes u @ typed t)" by (rule echo_obtain [OF u(2)])
  note f = same_but_echo_fields [OF same_but_echo_trans [OF u(3) v(3)]]
  have "tty_input_char 0x12 t = Some (False, v)"
    using d u(1) v(1)
    by (simp add: tty_input_char_def same_but_echo_fields [OF u(3)] typed_def del: echo_chars.simps)
  moreover have "echoes v = take 127 (echoes t @ [0x5e, 0x52, 0x0d, 0x0a] @ typed t)"
    unfolding v(4) u(4) by (rule take_append_twice)
  ultimately show ?thesis using d v(2) by (auto simp: key_defs f typed_def)
qed

lemma key_kill:
  assumes "editable t"
  shows "\<exists>t'. tty_input_char 0x15 t = Some (False, t') \<and> key_done 0x15 t t'"
proof -
  note d = editableD [OF assms]
  obtain u where u: "echo_chars (concat (replicate (unat (inputline_len t)) rubout)) t = Some u" "ring_ok u"
    "same_but_echo t u" "echoes u = take 127 (echoes t @ concat (replicate (unat (inputline_len t)) rubout))"
    by (rule echo_obtain [OF d(1)])
  have "tty_input_char 0x15 t = Some (False, u\<lparr>inputline_len := 0\<rparr>)"
    using u(1) by (simp add: tty_input_char_def rubout_def del: echo_chars.simps)
  then show ?thesis
    using d(2-7) u by (auto simp: key_defs same_but_echo_fields [OF u(3)] d(4) typed_def ring_fields min_absorb2)
qed

lemma key_delete:
  assumes "editable t"
  shows "\<exists>t'. tty_input_char 0x7f t = Some (False, t') \<and> key_done 0x7f t t'"
proof (cases "inputline_len t = 0")
  case True
  note d = editableD [OF assms]
  have "tty_input_char 0x7f t = Some (False, t)" "typed t = []" "take 127 (echoes t) = echoes t"
    using True echo_count_bounds(1) [OF d(1)] by (simp_all add: tty_input_char_def typed_def)
  then show ?thesis using d by (auto simp: key_done_def same_flags_def edit_def shown_def)
next
  case False
  note d = editableD [OF assms]
  have pos: "0 < inputline_len t" using False by (simp add: word_gt_0)
  obtain u where u: "echo_chars rubout t = Some u" "ring_ok u" "same_but_echo t u"
    "echoes u = take 127 (echoes t @ rubout)" by (rule echo_obtain [OF d(1)])
  note f = same_but_echo_fields [OF u(3)]
  have "tty_input_char 0x7f t = Some (False, u\<lparr>inputline_len := inputline_len u - 1\<rparr>)"
    using u(1) pos by (simp add: tty_input_char_def rubout_def del: echo_chars.simps)
  moreover have "unat (inputline_len t - 1) = unat (inputline_len t) - 1"
    using pos by (simp add: unat_minus_one)
  moreover have "take (unat (inputline_len t) - 1) (inputline t) = butlast (typed t)"
    using d by (simp add: typed_def butlast_take)
  moreover have "typed t \<noteq> []" using d(4) False by (auto simp: unat_eq_zero)
  ultimately show ?thesis
    using d(2-7) u by (auto simp: key_defs f typed_def ring_fields)
qed

lemma key_char:
  assumes "editable t" and c: "c \<notin> {0x0d, 0x12, 0x15, 0x7f}"
  shows "\<exists>t'. tty_input_char c t = Some (False, t') \<and> key_done c t t'"
proof (cases "unat (inputline_len t) < 127")
  case True
  note d = editableD [OF assms(1)]
  obtain u where u: "echo_chars [c] t = Some u" "ring_ok u" "same_but_echo t u"
    "echoes u = take 127 (echoes t @ [c])" by (rule echo_obtain [OF d(1)])
  note f = same_but_echo_fields [OF u(3)]
  have "ucast (inputline_len t) < LINEBUFSIZE - 1"
    using True by (simp add: word_less_nat_alt unat_u8_u32 LINEBUFSIZE_def)
  then have "tty_input_char c t = Some (False,
      u\<lparr>inputline := (inputline t)[unat (inputline_len t) := c], inputline_len := inputline_len t + 1\<rparr>)"
    using c d u(1)
    by (simp add: tty_input_char_def echo_chars_single store_at_def f del: echo_chars.simps)
  moreover have "take (Suc (unat (inputline_len t))) ((inputline t)[unat (inputline_len t) := c]) = typed t @ [c]"
    using d by (simp add: typed_def take_snoc_update)
  ultimately show ?thesis
    using True c d(2-7) u by (auto simp: key_defs f d(4) typed_def ring_fields)
next
  case False
  note d = editableD [OF assms(1)]
  obtain u where u: "echo_chars [0x0a] t = Some u" "ring_ok u" "same_but_echo t u"
    "echoes u = take 127 (echoes t @ [0x0a])" by (rule echo_obtain [OF d(1)])
  note f = same_but_echo_fields [OF u(3)]
  have "\<not> ucast (inputline_len t) < LINEBUFSIZE - 1"
    using False by (simp add: word_less_nat_alt unat_u8_u32 LINEBUFSIZE_def)
  then have "tty_input_char c t = Some (False, u)"
    using c u(1) by (simp add: tty_input_char_def echo_chars_single del: echo_chars.simps)
  then show ?thesis
    using False c d(2-7) u by (auto simp: key_defs f d(4) typed_def)
qed

lemma tty_input_char_ok:
  assumes "editable t"
  shows "\<exists>t'. tty_input_char c t = Some (c = 0x0d, t') \<and> key_done c t t'"
  using key_return [OF assms] key_reprint [OF assms] key_kill [OF assms] key_delete [OF assms]
    key_char [OF assms, of c]
  by (cases "c \<in> {0x0d, 0x12, 0x15, 0x7f}") auto

lemma same_flags_trans: "same_flags t u \<Longrightarrow> same_flags u v \<Longrightarrow> same_flags t v"
  by (simp add: same_flags_def)

lemma rx_chars_ok:
  "line_ok t \<Longrightarrow> \<not> flag_input_avail t \<Longrightarrow> edit_packet cs (typed t) = (l, e, d) \<Longrightarrow>
   \<exists>t'. rx_chars cs t = Some t' \<and> line_ok t' \<and> same_flags t t' \<and> typed t' = l \<and>
     echoes t' = take 127 (echoes t @ e) \<and> flag_input_avail t' = d \<and>
     cnd_signals t' = cnd_signals t + (if d then 1 else 0)"
proof (induction cs arbitrary: t l e d)
  case Nil
  then have "take 127 (echoes t) = echoes t" using echo_count_bounds(1) by (auto simp: line_ok_def)
  with Nil show ?case by (auto simp: same_flags_def)
next
  case (Cons c cs)
  from tty_input_char_ok [of t c] Cons.prems(1,2) obtain u where
    u: "tty_input_char c t = Some (c = 0x0d, u)" "line_ok u" "same_flags t u" "typed u = edit c (typed t)"
      "echoes u = take 127 (echoes t @ shown c (typed t))" "flag_input_avail u \<longleftrightarrow> c = 0x0d"
      "cnd_signals u = cnd_signals t + (if c = 0x0d then 1 else 0)" by (auto simp: editable_def key_done_def)
  show ?case
  proof (cases "c = 0x0d")
    case True
    then show ?thesis using u Cons.prems(3) by (intro exI [of _ u]) auto
  next
    case False
    then obtain e' where r: "edit_packet cs (typed u) = (l, e', d)" "e = shown c (typed t) @ e'"
      using Cons.prems(3) by (auto simp: u(4) split: prod.splits)
    from Cons.IH [OF u(2) _ r(1)] False u(6) obtain t' where
      t': "rx_chars cs u = Some t'" "line_ok t'" "same_flags u t'" "typed t' = l"
        "echoes t' = take 127 (echoes u @ e')" "flag_input_avail t' = d"
        "cnd_signals t' = cnd_signals u + (if d then 1 else 0)" by blast
    have "echoes t' = take 127 (echoes t @ e)"
      unfolding t'(5) u(5) r(2) by (rule take_append_twice)
    then show ?thesis
      using t' u False same_flags_trans [OF u(3) t'(3)] by (intro exI [of _ t']) auto
  qed
qed

text \<open>The bytes that the controller received for endpoint 3.\<close>

definition ep3_packet :: "usb \<Rightarrow> nat \<Rightarrow> u8 list" where
  "ep3_packet s n = List.map (\<lambda>i. pma_byte (pma s) (unat (st103_get_rx_addr ENDP3 s) + i)) [0..<n]"

lemma rxcpy_bytes:
  "bytes (mem (usb_lld_rxcpy p ENDP3 0 (ucast (len :: u16)) s)) p (unat len) = ep3_packet s (unat len)"
proof -
  have l: "unat (ucast (len :: u16) :: u32) = unat len" "unat len < 2 ^ 32"
    using unsigned_less [of len, where 'a = nat] by (simp_all add: unsigned_ucast_eq take_bit_nat_eq_self)
  show ?thesis
    unfolding bytes_def ep3_packet_def usb_lld_rxcpy_def usb_lld_from_pmabuf_bytes l(1)
    by (rule map_cong [OF refl], subst unat_diff_add)
      (use l(2) in \<open>auto simp: unat_of_nat take_bit_nat_eq_self\<close>)
qed

lemma usb_rx_ready_ok:
  assumes ok: "line_ok (tty0 c)" "\<not> flag_input_avail (tty0 c)" and len: "len \<le> 64"
    and e: "edit_packet (ep3_packet (drv c) (unat len)) (typed (tty0 c)) = (l, e, ended)"
  shows "\<exists>c' t'. usb_rx_ready hw ENDP3 len c = Some c' \<and> c' = c\<lparr>drv := drv c', tty0 := t'\<rparr> \<and>
    line_ok t' \<and> same_flags (tty0 c) t' \<and>
    typed t' = l \<and> echoes t' = take 127 (echoes (tty0 c) @ e) \<and>
    flag_input_avail t' = ended \<and>
    cnd_signals t' = cnd_signals (tty0 c) + (if ended then 1 else 0) \<and>
    (let s = usb_lld_rxcpy (recv_buf_p c) ENDP3 0 (ucast len) (drv c)
     in drv c' = (if ended then s else usb_lld_rx_enable hw ENDP3 s))"
proof -
  let ?s = "usb_lld_rxcpy (recv_buf_p c) ENDP3 0 (ucast len) (drv c)"
  from rx_chars_ok [OF ok e] obtain t' where
    t': "rx_chars (ep3_packet (drv c) (unat len)) (tty0 c) = Some t'" "line_ok t'" "same_flags (tty0 c) t'"
      "typed t' = l" "echoes t' = take 127 (echoes (tty0 c) @ e)" "flag_input_avail t' = ended"
      "cnd_signals t' = cnd_signals (tty0 c) + (if ended then 1 else 0)" by blast
  define c' where "c' = c\<lparr>drv := if ended then ?s else usb_lld_rx_enable hw ENDP3 ?s, tty0 := t'\<rparr>"
  have "usb_rx_ready hw ENDP3 len c = Some c'"
    using len t' by (simp add: usb_rx_ready_def upd_drv_def rxcpy_bytes c'_def)
  then show ?thesis using t' by (intro exI [of _ c'] exI [of _ t']) (simp add: c'_def Let_def)
qed

lemma rx_enable_valid:
  "ep_write_law hw \<Longrightarrow> EPREG (usb_lld_rx_enable hw ep s) ep AND EPRX_STAT = EP_RX_VALID"
proof -
  assume "ep_write_law hw"
  moreover have "EP_RX_VALID = EPRX_STAT" by (simp add: ep_bits)
  ultimately show ?thesis by (simp add: usb_lld_rx_enable_def ep_set_rx_status)
qed

lemma edit_packet_last: "edit_packet cs l = (l', e, True) \<Longrightarrow> last l' = 0x0a"
  by (induction cs l arbitrary: l' e rule: edit_packet.induct)
    (auto simp: edit_def split: if_splits prod.splits)

text \<open>\<open>tty_recv\<close> takes the line that waits.\<close>

lemma recv_line_ok:
  assumes ok: "line_ok (tty0 c)" "flag_input_avail (tty0 c)" "flag_connected (tty0 c)"
  shows "\<exists>c'. recv_line hw buf c = Some (int (length (typed (tty0 c))), c') \<and>
    bytes (mem (drv c')) buf (length (typed (tty0 c))) = typed (tty0 c) \<and>
    line_ok (tty0 c') \<and> typed (tty0 c') = [] \<and> \<not> flag_input_avail (tty0 c') \<and>
    same_flags (tty0 c) (tty0 c') \<and>
    (ep_write_law hw \<longrightarrow> EPREG (drv c') ENDP3 AND EPRX_STAT = EP_RX_VALID)"
proof -
  let ?t = "tty0 c" and ?l = "typed (tty0 c)"
  have n: "unat (inputline_len ?t) \<le> length (inputline ?t)" "length ?l \<le> 128"
    using ok length_typed [OF ok(1)] by (auto simp: line_ok_def)
  define c' where "c' = c\<lparr>drv := usb_lld_rx_enable hw ENDP3 (store_bytes buf ?l (drv c)),
    tty0 := ?t\<lparr>flag_input_avail := False, inputline_len := 0\<rparr>\<rparr>"
  have r: "recv_line hw buf c = Some (int (length ?l), c')"
    using ok n length_typed [OF ok(1)]
    by (simp add: recv_line_def Let_def upd_drv_def upd_tty_def c'_def typed_def [symmetric])
  have "mem (drv c') = put_bytes buf ?l (mem (drv c))"
    by (simp add: c'_def usb_lld_rx_enable_def usb_frame store_bytes_def)
  then have m: "bytes (mem (drv c')) buf (length ?l) = ?l" using n(2) by (simp add: bytes_put)
  have "line_ok (tty0 c')" "typed (tty0 c') = []" "same_flags ?t (tty0 c')"
    using ok by (simp_all add: c'_def line_ok_def typed_def same_flags_def ring_ok_def)
  then show ?thesis using r m rx_enable_valid [of hw ENDP3 "store_bytes buf ?l (drv c)"]
    by (intro exI [of _ c']) (simp add: c'_def)
qed


text \<open>
  C32: A line that the host types is what the application reads. When a packet ends the line,
  tty_recv returns its length and has it, edited, with a line feed at its end, in the caller's buffer; the
  input line is empty again and the receiver is enabled. Of chopstx_poll it is used that it returns at
  once when the condition that it is to wait for holds.
\<close>

theorem typed_line_is_received:
  assumes poll: "\<And>t c. check_rx (tty0 c) \<Longrightarrow> poll t c = (t, c)"
    and ok: "line_ok (tty0 c)" "\<not> flag_input_avail (tty0 c)" "len \<le> 64" "flag_connected (tty0 c)"
    and e: "edit_packet (ep3_packet (drv c) (unat len)) (typed (tty0 c)) = (l, e, True)"
  shows "\<exists>c' c''. usb_rx_ready hw ENDP3 len c = Some c' \<and>
    tty_recv hw poll (Suc n) buf timeout c' = Some (int (length l), timeout, c'') \<and>
    bytes (mem (drv c'')) buf (length l) = l \<and> last l = 0x0a \<and>
    line_ok (tty0 c'') \<and> typed (tty0 c'') = [] \<and> \<not> flag_input_avail (tty0 c'') \<and>
    (ep_write_law hw \<longrightarrow> EPREG (drv c'') ENDP3 AND EPRX_STAT = EP_RX_VALID)"
proof -
  from usb_rx_ready_ok [OF ok(1-3) e, of hw] obtain c' t' where
    r: "usb_rx_ready hw ENDP3 len c = Some c'" "c' = c\<lparr>drv := drv c', tty0 := t'\<rparr>" "line_ok t'"
      "same_flags (tty0 c) t'" "typed t' = l" "flag_input_avail t'" by (auto simp: Let_def)
  have t: "tty0 c' = t'" by (subst r(2)) simp
  have con: "flag_connected t'" using r(4) ok(4) by (simp add: same_flags_def)
  have w: "recv_wait poll (Suc n) timeout c' = Some (timeout, c')"
    using poll [of c' timeout] r(6) by (simp add: t check_rx_def)
  from recv_line_ok [of c' hw buf] obtain c'' where
    "recv_line hw buf c' = Some (int (length l), c'')" "bytes (mem (drv c'')) buf (length l) = l"
    "line_ok (tty0 c'')" "typed (tty0 c'') = []" "\<not> flag_input_avail (tty0 c'')"
    "ep_write_law hw \<longrightarrow> EPREG (drv c'') ENDP3 AND EPRX_STAT = EP_RX_VALID"
    using r(3,5,6) con t by auto
  moreover have "last l = 0x0a" using edit_packet_last [OF e] .
  ultimately show ?thesis using r(1) w by (auto simp: tty_recv_def simp del: recv_wait.simps)
qed

section \<open>A packet that ends a line\<close>

text \<open>A terminal that has received \<open>a\<close>, \<open>b\<close>, DEL and RETURN.\<close>

definition terminal :: cdc where
  "terminal = \<lparr>drv = reset_usb\<lparr>pma := (\<lambda>_. 0)(btable_p ENDP3 4 := 0x140, PMA_ADDR + 0x280 := 0x6261,
       PMA_ADDR + 0x284 := 0x0d7f)\<rparr>,
     tty0 = \<lparr>cnd_signals = 0, inputline = replicate 128 0, send_buf = replicate 128 0,
       inputline_len = 0, send_head = 0, send_tail = 0, flag_connected = True,
       flag_send_ready = True, flag_input_avail = False, device_state = USB_DEVICE_STATE_CONFIGURED\<rparr>,
     line_coding_p = 0x100, vcom_device_desc_p = 0x200, vcom_config_desc_p = 0x300,
     vcom_string_p = (\<lambda>i. 0x400 + ucast i * 0x100), zero_p = 0x800, if_status_p = 0x810,
     recv_buf_p = 0x820, line_p = 0x860\<rparr>"

lemma terminal:
  "line_ok (tty0 terminal)" "\<not> flag_input_avail (tty0 terminal)" "flag_connected (tty0 terminal)"
  "edit_packet (ep3_packet (drv terminal) (unat (4 :: u16))) (typed (tty0 terminal)) =
    ([0x61, 0x0a], [0x61, 0x62, 0x08, 0x20, 0x08, 0x0d, 0x0a], True)"
  "echoes (tty0 terminal) = []"
proof -
  show "line_ok (tty0 terminal)" "\<not> flag_input_avail (tty0 terminal)" "flag_connected (tty0 terminal)"
    "echoes (tty0 terminal) = []"
    by (simp_all add: terminal_def line_ok_def ring_ok_def echoes_def echo_count_def)
  have "ep3_packet (drv terminal) 4 = [0x61, 0x62, 0x7f, 0x0d]"
    by (simp add: terminal_def ep3_packet_def st103_get_rx_addr_def btable_p_def ENDP3_def PMA_ADDR_def
        pma_byte_def pma_p_def upt_rec drop_bit_eq_div)
  then show "edit_packet (ep3_packet (drv terminal) (unat (4 :: u16))) (typed (tty0 terminal)) =
    ([0x61, 0x0a], [0x61, 0x62, 0x08, 0x20, 0x08, 0x0d, 0x0a], True)"
    by (simp add: typed_def terminal_def edit_def shown_def rubout_def)
qed


theorem typed_line_is_received_witness:
  "\<exists>c' c''. usb_rx_ready stm32_hw ENDP3 4 terminal = Some c' \<and>
    tty_recv stm32_hw (\<lambda>t c. (t, c)) 1 0x1000 None c' = Some (2, None, c'') \<and>
    bytes (mem (drv c'')) 0x1000 2 = [0x61, 0x0a] \<and>
    EPREG (drv c'') ENDP3 AND EPRX_STAT = EP_RX_VALID"
proof -
  have len: "(4 :: u16) \<le> 64" by simp
  have poll: "check_rx (tty0 c) \<Longrightarrow> Pair t c = (t, c)" for t :: "u32 option" and c by simp
  have n: "length [0x61, 0x0a :: u8] = 2" by simp
  from typed_line_is_received [OF poll terminal(1,2) len terminal(3,4),
    where hw = stm32_hw and n = 0 and buf = "0x1000" and timeout = None]
  show ?thesis using stm32_hw_law unfolding n of_nat_numeral One_nat_def by blast
qed

end
