(* ===== verification/Usb_Cdc_Device.thy ===== *)
theory Usb_Cdc_Device
  imports Usb_Cdc_Line
begin

text \<open>
  The virtual serial port as a USB device: its descriptors are well formed and reach the host, the
  endpoints they announce are the ones that are set up, and the state of the device and the input
  line stay consistent in every sequence of events and calls.
\<close>

unbundle bit_operations_syntax

section \<open>Descriptors\<close>

text \<open>
  How a host reads a configuration: descriptors one after the other, each with its length in the first
  byte, and the endpoints of an interface behind it.
\<close>

function descriptors :: "u8 list \<Rightarrow> u8 list list option" where
  "descriptors [] = Some []"
| "descriptors (n # bs) =
     (if 2 \<le> unat n \<and> unat n \<le> length (n # bs)
      then map_option ((#) (take (unat n) (n # bs))) (descriptors (drop (unat n) (n # bs)))
      else None)"
  by pat_completeness auto

termination
  by (relation "measure length") auto

fun interfaces :: "u8 list list \<Rightarrow> (u8 list \<times> u8 list list) list" where
  "interfaces [] = []"
| "interfaces (d # ds) =
     (if d ! 1 = INTERFACE_DESCRIPTOR
      then (d, filter (\<lambda>e. e ! 1 = ENDPOINT_DESCRIPTOR) (takeWhile (\<lambda>e. e ! 1 \<noteq> INTERFACE_DESCRIPTOR) ds))
        # interfaces ds
      else interfaces ds)"

definition le16 :: "u8 \<Rightarrow> u8 \<Rightarrow> nat" where
  "le16 l h = unat l + 256 * unat h"

text \<open>
  Lengths and counts are right, the interfaces are numbered from zero, an endpoint has one
  descriptor, and the packets fit the buffers.
\<close>

definition config_ok :: "u8 list \<Rightarrow> bool" where
  "config_ok bs \<longleftrightarrow> (case descriptors bs of
     Some (c # ds) \<Rightarrow>
       (let ifs = interfaces ds; eps = concat (List.map snd ifs)
        in length c = 9 \<and> c ! 1 = CONFIG_DESCRIPTOR \<and> le16 (c ! 2) (c ! 3) = length bs \<and>
           length ifs = unat (c ! 4) \<and> c ! 5 \<noteq> 0 \<and>
           List.map (\<lambda>(i, es). unat (i ! 2)) ifs = [0..<length ifs] \<and>
           (\<forall>(i, es)\<in>set ifs. length i = 9 \<and> length es = unat (i ! 4)) \<and>
           distinct (List.map (\<lambda>e. e ! 2) eps) \<and>
           (\<forall>e\<in>set eps. length e = 7 \<and> e ! 2 AND 0x0f \<noteq> 0 \<and> le16 (e ! 4) (e ! 5) \<le> 64))
   | _ \<Rightarrow> False)"

definition string_ok :: "u8 list \<Rightarrow> bool" where
  "string_ok bs \<longleftrightarrow> 2 \<le> length bs \<and> unat (bs ! 0) = length bs \<and> even (length bs) \<and> bs ! 1 = STRING_DESCRIPTOR"

definition device_ok :: "u8 list \<Rightarrow> bool" where
  "device_ok bs \<longleftrightarrow> length bs = 18 \<and> unat (bs ! 0) = 18 \<and> bs ! 1 = DEVICE_DESCRIPTOR \<and>
     bs ! 7 = 64 \<and> bs ! 17 = 1 \<and> (\<forall>k\<in>{14, 15, 16}. vcom_string (bs ! k) \<noteq> None)"

lemmas desc_consts = DEVICE_DESCRIPTOR_def CONFIG_DESCRIPTOR_def STRING_DESCRIPTOR_def
  INTERFACE_DESCRIPTOR_def ENDPOINT_DESCRIPTOR_def VCOM_FEATURE_BUS_POWERED_def ENDP1_def ENDP2_def ENDP3_def

definition interface0 :: "u8 list" where
  "interface0 = [9, 4, 0, 0, 1, 2, 2, 1, 0]"

definition interface1 :: "u8 list" where
  "interface1 = [9, 4, 1, 0, 2, 0x0A, 0, 0, 0]"

lemma config_descriptors:
  "descriptors vcom_config_desc = Some
    [[9, 2, 67, 0, 2, 1, 0, 0x80, 50], interface0, [5, 0x24, 0, 0x10, 1], [5, 0x24, 1, 3, 1], [4, 0x24, 2, 2],
     [5, 0x24, 6, 0, 1], [7, 5, 0x82, 3, 8, 0, 0xff], interface1, [7, 5, 3, 2, 0x40, 0, 0], [7, 5, 0x81, 2, 0x40, 0, 0]]"
  by (simp add: vcom_config_desc_def desc_consts interface0_def interface1_def)

definition vcom_interfaces :: "(u8 list \<times> u8 list list) list" where
  "vcom_interfaces = [(interface0, [[7, 5, 0x82, 3, 8, 0, 0xff]]),
     (interface1, [[7, 5, 3, 2, 0x40, 0, 0], [7, 5, 0x81, 2, 0x40, 0, 0]])]"

lemma config_interfaces: "map_option (interfaces \<circ> tl) (descriptors vcom_config_desc) = Some vcom_interfaces"
  by (simp add: config_descriptors desc_consts interface0_def interface1_def vcom_interfaces_def)

lemma length_wide: "length (wide str) = 2 * length str"
  by (induction str) (simp_all add: wide_def)

text \<open>
  The descriptors of the serial port are well formed. The configuration descriptor splits
  into descriptors that fill its total length exactly; it has the number of interfaces that it
  announces, numbered from zero, each followed by the number of endpoints that it announces; no
  endpoint address occurs twice, none is endpoint 0 and no packet exceeds 64 bytes. The device
  descriptor names strings that exist, and every string descriptor has its own length in its first byte.
\<close>

lemma descriptors_well_formed:
  "config_ok vcom_config_desc \<and> device_ok vcom_device_desc \<and>
   (\<forall>i str. vcom_string i = Some str \<longrightarrow> string_ok str)"
proof (intro conjI allI impI)
  show "config_ok vcom_config_desc"
    using config_interfaces
    by (simp add: config_ok_def config_descriptors) (simp add: vcom_config_desc_def vcom_interfaces_def
        interface0_def interface1_def desc_consts le16_def)
  show "device_ok vcom_device_desc"
    by (simp add: device_ok_def vcom_device_desc_def desc_consts vcom_string_def)
  show "string_ok str" if "vcom_string i = Some str" for i str
    using that by (auto simp: vcom_string_def string_ok_def vcom_string0_def vcom_string1_def vcom_string2_def
        vcom_string3_def length_wide desc_consts split: if_splits)
qed

lemma descriptors_well_formed_witness:
  "vcom_string 1 = Some vcom_string1 \<and> string_ok vcom_string1"
proof -
  have "vcom_string 1 = Some vcom_string1" by (simp add: vcom_string_def)
  with descriptors_well_formed show ?thesis by blast
qed

section \<open>The endpoints\<close>

text \<open>The endpoints that the configuration announces, and the register that each should have.\<close>

definition announced :: "u8 list list" where
  "announced = concat (List.map snd (interfaces (tl (the (descriptors vcom_config_desc)))))"

lemma announced: "announced = [[7, 5, 0x82, 3, 8, 0, 0xff], [7, 5, 3, 2, 0x40, 0, 0], [7, 5, 0x81, 2, 0x40, 0, 0]]"
  using config_interfaces by (simp add: announced_def config_descriptors vcom_interfaces_def)

definition ep_of :: "u8 list \<Rightarrow> u8" where "ep_of d = d ! 2 AND 0x0f"

text \<open>Transfer type 3 is interrupt, 2 is bulk; the upper bit of the address is set for IN.\<close>

definition ep_register :: "u8 list \<Rightarrow> u16" where
  "ep_register d = (if d ! 3 = 3 then EP_INTERRUPT else EP_BULK) OR ucast (ep_of d) OR
     (if d ! 2 AND 0x80 \<noteq> 0 then EP_TX_NAK else EP_RX_NAK)"

text \<open>What the flags of the last transfers do not decide.\<close>

definition ep_settings :: "u16 \<Rightarrow> u16" where
  "ep_settings w = w AND NOT (EP_SETUP OR EP_CTR_RX OR EP_CTR_TX)"

lemma setup_EPREG_other:
  "e \<noteq> ep \<Longrightarrow> EPREG (usb_lld_setup_endpoint hw keep ep t k ra ta sz s) e = EPREG s e"
  by (simp add: usb_lld_setup_endpoint_def st103_get_epreg_def st103_set_epreg_def Let_def
      st103_set_rx_addr_def st103_set_tx_addr_def st103_set_rx_buf_size_def set_pma_def)

lemma setup_settings:
  assumes "ep_write_law hw" "only_bits t EP_T_FIELD" "ep < 16"
  shows "ep_settings (EPREG (usb_lld_setup_endpoint hw keep ep t 0 ra ta sz s) ep) =
    t OR ucast ep OR (if ra \<noteq> 0 then EP_RX_NAK else 0) OR (if ta \<noteq> 0 then EP_TX_NAK else 0)"
proof -
  have k: "only_bits 0 EP_KIND" by (simp add: only_bits_def)
  let ?u = "ucast ep :: u16" and ?r = "if ra \<noteq> 0 then EP_RX_NAK else 0 :: u16"
    and ?x = "if ta \<noteq> 0 then EP_TX_NAK else 0 :: u16"
    and ?c = "if keep then EPREG s ep AND (EP_CTR_RX OR EP_CTR_TX) else 0"
    and ?M = "EP_SETUP OR EP_CTR_RX OR EP_CTR_TX"
  have kept: "w AND NOT ?M = w" if "\<And>n. n < 16 \<Longrightarrow> bit w n \<Longrightarrow> n \<noteq> 7 \<and> n \<noteq> 11 \<and> n \<noteq> 15" for w :: u16
    by (rule word16_eqI) (use that in \<open>auto simp: bit_and_iff bit_or_iff bit_not_iff ep_field_bits\<close>)
  have "t AND NOT ?M = t"
    by (rule kept) (drule only_bitsD [OF assms(2)], auto simp: ep_field_bits)
  moreover have "?u AND NOT ?M = ?u"
  proof (rule kept)
    fix n assume "bit ?u n"
    then have "n < 4" using assms(3) by (intro small_bit [of ep 4]) (simp_all add: word_less_nat_alt bit_ucast_iff)
    then show "n \<noteq> 7 \<and> n \<noteq> 11 \<and> n \<noteq> 15" by simp
  qed
  moreover have "?r AND NOT ?M = ?r" "?x AND NOT ?M = ?x"
    by (simp_all add: ep_bits)
  moreover have "(EPREG s ep AND EP_SETUP) AND NOT ?M = 0" "?c AND NOT ?M = 0"
    by (rule word16_eqI, auto simp: bit_and_iff bit_or_iff bit_not_iff)+
  moreover have "EPREG (usb_lld_setup_endpoint hw keep ep t 0 ra ta sz s) ep =
      t OR 0 OR ?u OR (EPREG s ep AND EP_SETUP) OR ?c OR ?r OR ?x"
    using setup_endpoint_register [OF assms(1,2) k assms(3), of keep ra ta sz s] unfolding Let_def by blast
  ultimately show ?thesis
    unfolding ep_settings_def by (simp only: bit.conj_disj_distrib2) simp
qed

lemma only_bits_types: "only_bits EP_INTERRUPT EP_T_FIELD" "only_bits EP_BULK EP_T_FIELD"
  "only_bits EP_CONTROL EP_T_FIELD"
  by (simp_all add: only_bits_def EP_INTERRUPT_def EP_BULK_def EP_CONTROL_def ep_bits)

lemma setup_dev [simp]:
  "dev (usb_lld_setup_endpoint hw keep ep t k ra ta sz s) = dev s"
  "mem (usb_lld_setup_endpoint hw keep ep t k ra ta sz s) = mem s"
  by (simp_all add: usb_lld_setup_endpoint_def Let_def st103_set_rx_addr_def st103_set_tx_addr_def
      st103_set_rx_buf_size_def usb_frame)

lemma ack_EPREG_other:
  "e \<noteq> ENDP0 \<Longrightarrow> EPREG (snd (usb_lld_ctrl_ack hw s)) e = EPREG s e"
  by (simp add: usb_lld_ctrl_ack_def Let_def ep_ops st103_set_epreg_def st103_get_epreg_def usb_frame)

text \<open>
  The configuration that the host selects is the one that was announced. SET_CONFIGURATION
  with value 1 in the unconfigured device sets up every endpoint of the configuration descriptor with
  the transfer type and the direction that its descriptor announces, ready to answer NAK, with both
  data toggles at zero, whatever the registers held before; no endpoint that is not announced
  changes, but for endpoint 0; a thread that waits in tty_wait_configured is signalled.
\<close>

lemma configuration_sets_up_announced:
  assumes law: "ep_write_law hw"
    and c: "configuration (dev (drv c)) = 0" "req_value (dev_req (dev (drv c))) = 1"
  shows "\<exists>c'. usb_set_configuration hw keep c = Some c' \<and> configuration (dev (drv c')) = 1 \<and>
    device_state (tty0 c') = USB_DEVICE_STATE_CONFIGURED \<and> cnd_signals (tty0 c') = cnd_signals (tty0 c) + 1 \<and>
    dev_state (dev (drv c')) = WAIT_STATUS_IN \<and>
    (\<forall>e\<in>set announced. ep_settings (EPREG (drv c') (ep_of e)) = ep_register e) \<and>
    (\<forall>n. n \<noteq> ENDP0 \<and> n \<notin> ep_of ` set announced \<longrightarrow> EPREG (drv c') n = EPREG (drv c) n)"
proof -
  define s0 where "s0 = usb_lld_set_configuration 1 (drv c)"
  define s1 where "s1 = usb_lld_setup_endpoint hw keep ENDP2 EP_INTERRUPT 0 0 ENDP2_TXADDR 0 s0"
  define s2 where "s2 = usb_lld_setup_endpoint hw keep ENDP1 EP_BULK 0 0 ENDP1_TXADDR 0 s1"
  define s3 where "s3 = usb_lld_setup_endpoint hw keep ENDP3 EP_BULK 0 ENDP3_RXADDR 0 64 s2"
  define s4 where "s4 = snd (usb_lld_ctrl_ack hw s3)"
  note n = ENDP0_def ENDP1_def ENDP2_def ENDP3_def
  note a = ENDP1_TXADDR_def ENDP2_TXADDR_def ENDP3_RXADDR_def
  define c' where "c' = c\<lparr>drv := s4, tty0 := cond_signal ((tty0 c)\<lparr>device_state := USB_DEVICE_STATE_CONFIGURED\<rparr>)\<rparr>"
  have r: "usb_set_configuration hw keep c = Some c'"
    using c by (simp add: usb_set_configuration_def usb_lld_current_configuration_def configure_def lld_def
        upd_drv_def upd_tty_def vcom_setup_endpoints_for_interface_def Let_def c'_def s4_def s3_def s2_def s1_def s0_def)
  have dev: "dev s3 = dev s0"
    by (simp add: s3_def s2_def s1_def setup_dev)
  have "configuration (dev s4) = 1" "dev_state (dev s4) = WAIT_STATUS_IN"
    by (simp_all add: s4_def usb_lld_ctrl_ack_def Let_def usb_frame dev s0_def usb_lld_set_configuration_def)
  moreover have "ep_settings (EPREG s4 1) = EP_BULK OR 1 OR EP_TX_NAK"
    "ep_settings (EPREG s4 2) = EP_INTERRUPT OR 2 OR EP_TX_NAK"
    "ep_settings (EPREG s4 3) = EP_BULK OR 3 OR EP_RX_NAK"
  proof -
    have e: "EPREG s4 1 = EPREG s2 1" "EPREG s4 2 = EPREG s1 2" "EPREG s4 3 = EPREG s3 3"
      by (simp_all add: s4_def s3_def s2_def ack_EPREG_other setup_EPREG_other n)
    show "ep_settings (EPREG s4 1) = EP_BULK OR 1 OR EP_TX_NAK"
      using setup_settings [OF law only_bits_types(2), of ENDP1 keep 0 ENDP1_TXADDR 0 s1]
      by (simp add: e s2_def n a)
    show "ep_settings (EPREG s4 2) = EP_INTERRUPT OR 2 OR EP_TX_NAK"
      using setup_settings [OF law only_bits_types(1), of ENDP2 keep 0 ENDP2_TXADDR 0 s0]
      by (simp add: e s1_def n a)
    show "ep_settings (EPREG s4 3) = EP_BULK OR 3 OR EP_RX_NAK"
      using setup_settings [OF law only_bits_types(2), of ENDP3 keep ENDP3_RXADDR 0 64 s2]
      by (simp add: e s3_def n a)
  qed
  moreover have "EPREG s4 m = EPREG (drv c) m" if "m \<notin> {0, 1, 2, 3}" for m
    using that by (simp add: s4_def s3_def s2_def s1_def s0_def ack_EPREG_other setup_EPREG_other n
        usb_lld_set_configuration_def)
  ultimately show ?thesis
    by (intro exI [of _ c']) (auto simp: r c'_def cond_signal_def announced ep_of_def ep_register_def n)
qed

text \<open>A terminal that has just been given its address, with old settings in its registers.\<close>

definition addressed :: cdc where
  "addressed = terminal\<lparr>drv := (drv terminal)\<lparr>EPREG := (\<lambda>_. 0x7670), dev := (dev (drv terminal))
     \<lparr>dev_req := \<lparr>req_type = 0, req_request = 9, req_value = 1, req_index = 0, req_len = 0\<rparr>\<rparr>\<rparr>\<rparr>"

lemma configuration_sets_up_announced_witness:
  "\<exists>c'. usb_set_configuration stm32_hw False addressed = Some c' \<and>
    device_state (tty0 c') = USB_DEVICE_STATE_CONFIGURED \<and>
    ep_settings (EPREG (drv c') 1) = 1 OR EP_TX_NAK"
proof -
  have "configuration (dev (drv addressed)) = 0" "req_value (dev_req (dev (drv addressed))) = 1"
    by (simp_all add: addressed_def terminal_def reset_usb_def)
  from configuration_sets_up_announced [OF stm32_hw_law this, of False] obtain c' where
    c': "usb_set_configuration stm32_hw False addressed = Some c'"
      "device_state (tty0 c') = USB_DEVICE_STATE_CONFIGURED"
      "\<forall>e\<in>set announced. ep_settings (EPREG (drv c') (ep_of e)) = ep_register e" by blast
  have "[7, 5, 0x81, 2, 0x40, 0, 0] \<in> set announced" by (simp add: announced)
  from c'(3) [rule_format, OF this] have "ep_settings (EPREG (drv c') 1) = 1 OR EP_TX_NAK"
    by (simp add: ep_of_def ep_register_def EP_BULK_def)
  with c'(1,2) show ?thesis by blast
qed

section \<open>Descriptors on the wire\<close>

text \<open>Which descriptor the value of a request names, and where it is.\<close>

definition descriptor_at :: "cdc \<Rightarrow> u16 \<Rightarrow> (addr \<times> u8 list) option" where
  "descriptor_at c v =
     (let t = ucast (drop_bit 8 v) :: u8; i = ucast (v AND 0xff) :: u8
      in if t = DEVICE_DESCRIPTOR then Some (vcom_device_desc_p c, vcom_device_desc)
         else if t = CONFIG_DESCRIPTOR then Some (vcom_config_desc_p c, vcom_config_desc)
         else if t = STRING_DESCRIPTOR then map_option (\<lambda>d. (vcom_string_p c i, d)) (vcom_string i)
         else None)"

lemma usb_get_descriptor_eq:
  "usb_get_descriptor hw c =
    (if recipient (req_type (dev_req (dev (drv c)))) = DEVICE_RECIPIENT then
       (case descriptor_at c (req_value (dev_req (dev (drv c)))) of
          None \<Rightarrow> None
        | Some (p, d) \<Rightarrow> lld (usb_lld_ctrl_send hw p (of_nat (length d))) c)
     else None)"
  by (simp add: usb_get_descriptor_def descriptor_at_def Let_def split: option.split)

lemma descriptor_short: "descriptor_at c v = Some (p, d) \<Longrightarrow> length d \<le> 67"
  by (auto simp: descriptor_at_def Let_def vcom_string_def vcom_device_desc_def vcom_config_desc_def
      vcom_string0_def vcom_string1_def vcom_string2_def vcom_string3_def length_wide split: if_splits)

lemma bytes_take: "k \<le> n \<Longrightarrow> bytes m p k = take k (bytes m p n)"
  using bytes_append [of m p k "n - k"] by simp

text \<open>
  C36: A descriptor reaches the host. For a request to the device that names one of the descriptors,
  with any number of bytes asked for, the host receives exactly that many bytes of the
  descriptor, or all of it, over the packets of the data stage, the last of which is short when
  there is less than it asked for; then the device waits for the status stage. When it is sent exactly 64 bytes, it
  receives them in the first packet, but the device arms an empty second one and answers NAK in the status
  stage until that has been taken. Of the memory it is
  used that the linker put the descriptor where the program says. A request for a descriptor that
  does not exist, or to another recipient, is refused.
\<close>

theorem descriptor_reaches_host:
  assumes f: "registers_only taken" and room: "tx_room (drv c)"
    and zlp: "cd_require_zlp (ctrl_data (dev (drv c))) = 0"
    and arg: "arg = dev_req (dev (drv c))" "recipient (req_type arg) = DEVICE_RECIPIENT"
    and d: "descriptor_at c (req_value arg) = Some (p, d)" "bytes (mem (drv c)) p (length d) = d"
    and L: "L = min (unat (req_len arg)) (length d)"
    and law: "ep_write_law hw" and rx: "\<forall>t. EPREG (taken t) 0 AND EPRX_STAT = EPREG t 0 AND EPRX_STAT"
  shows "(\<exists>c'. usb_get_descriptor hw c = Some c' \<and> c' = c\<lparr>drv := drv c'\<rparr> \<and>
      (if L = 64 then
         tx_packet (drv c') = take 64 d \<and>
         (let s1 = snd (handle_in0 hw (taken (drv c')))
          in dev_state (dev s1) = LAST_IN_DATA \<and> tx_packet s1 = [] \<and> EPREG s1 0 AND EPRX_STAT = EP_RX_NAK)
       else
         (\<exists>ps s'. in_stage hw taken (L div 64 + 3) (drv c') = (ps, s') \<and> concat ps = take L d \<and>
           (\<forall>p\<in>set ps. length p \<le> 64) \<and> (L < unat (req_len arg) \<longrightarrow> length (last ps) < 64) \<and>
           dev_state (dev s') = WAIT_STATUS_OUT))) \<and>
    (\<forall>e. recipient (req_type (dev_req (dev (drv e)))) \<noteq> DEVICE_RECIPIENT \<or>
      descriptor_at e (req_value (dev_req (dev (drv e)))) = None \<longrightarrow> usb_get_descriptor hw e = None)"
proof (intro conjI allI impI)
  define s0 where "s0 = snd (usb_lld_ctrl_send hw p (of_nat (length d)) (drv c))"
  have l: "unat (of_nat (length d) :: u32) = length d" "length d < 2 ^ 16"
    using descriptor_short [OF d(1)] by (simp_all add: unat_of_nat take_bit_nat_eq_self)
  have L': "L = min (unat (req_len (dev_req (dev (drv c))))) (unat (of_nat (length d) :: u32))"
    using L by (simp add: l arg(1))
  have take: "bytes (mem (drv c)) p L = take L d"
    using bytes_take [of L "length d" "mem (drv c)" p] d(2) L by simp
  have get: "usb_get_descriptor hw c = Some (c\<lparr>drv := s0\<rparr>)"
    using arg d(1) by (simp add: usb_get_descriptor_eq lld_def upd_drv_def s0_def)
  show "\<exists>c'. usb_get_descriptor hw c = Some c' \<and> c' = c\<lparr>drv := drv c'\<rparr> \<and>
      (if L = 64 then
         tx_packet (drv c') = take 64 d \<and>
         (let s1 = snd (handle_in0 hw (taken (drv c')))
          in dev_state (dev s1) = LAST_IN_DATA \<and> tx_packet s1 = [] \<and> EPREG s1 0 AND EPRX_STAT = EP_RX_NAK)
       else
         (\<exists>ps s'. in_stage hw taken (L div 64 + 3) (drv c') = (ps, s') \<and> concat ps = take L d \<and>
           (\<forall>p\<in>set ps. length p \<le> 64) \<and> (L < unat (req_len arg) \<longrightarrow> length (last ps) < 64) \<and>
           dev_state (dev s') = WAIT_STATUS_OUT))"
  proof (cases "L = 64")
    case True
    from control_in_64_withheld [OF law f rx room zlp _ L' [unfolded True] s0_def refl] l take True
    show ?thesis by (intro exI [of _ "c\<lparr>drv := s0\<rparr>"]) (simp add: get Let_def)
  next
    case False
    obtain ps s' where run: "in_stage hw taken (L div 64 + 3) s0 = (ps, s')" by force
    from control_in_packets [OF f room _ zlp L' False run [unfolded s0_def]] l
    have ps: "concat ps = take L d" "ps \<noteq> []" "\<forall>p\<in>set (butlast ps). length p = 64"
      "length (last ps) \<le> 64" "L < unat (req_len arg) \<longrightarrow> length (last ps) < 64"
      "dev_state (dev s') = WAIT_STATUS_OUT" by (simp_all add: arg(1) take)
    have "\<forall>p\<in>set ps. length p \<le> 64"
      using ps(2-4) by (metis Un_iff append_butlast_last_id order_refl set_ConsD set_append empty_iff empty_set)
    then show ?thesis using ps run False by (intro exI [of _ "c\<lparr>drv := s0\<rparr>"]) (simp add: get)
  qed
next
  fix e
  assume "recipient (req_type (dev_req (dev (drv e)))) \<noteq> DEVICE_RECIPIENT \<or>
    descriptor_at e (req_value (dev_req (dev (drv e)))) = None"
  then show "usb_get_descriptor hw e = None" by (auto simp: usb_get_descriptor_eq)
qed

text \<open>The host asks for 255 bytes of the configuration; the packet for endpoint 0 is at 64.\<close>

definition asked :: cdc where
  "asked = terminal\<lparr>drv := (asked_for 255)\<lparr>mem := put_bytes 0x300 vcom_config_desc (\<lambda>_. 0),
     dev := (dev (asked_for 255))\<lparr>dev_req := (dev_req (dev (asked_for 255)))\<lparr>req_value := 0x200\<rparr>\<rparr>\<rparr>\<rparr>"

lemma asked:
  "tx_room (drv asked)" "cd_require_zlp (ctrl_data (dev (drv asked))) = 0"
  "recipient (req_type (dev_req (dev (drv asked)))) = DEVICE_RECIPIENT"
  "descriptor_at asked (req_value (dev_req (dev (drv asked)))) = Some (0x300, vcom_config_desc)"
  "bytes (mem (drv asked)) 0x300 (length vcom_config_desc) = vcom_config_desc"
  "unat (req_len (dev_req (dev (drv asked)))) = 255" "length vcom_config_desc = 67"
proof -
  show l: "length vcom_config_desc = 67" by (simp add: vcom_config_desc_def)
  show "bytes (mem (drv asked)) 0x300 (length vcom_config_desc) = vcom_config_desc"
    unfolding asked_def by (simp add: bytes_put l)
  show "tx_room (drv asked)" using asked_for(1) [of 255] by (simp add: asked_def tx_room_def st103_get_tx_addr_def)
qed (simp_all add: asked_def asked_for_def terminal_def recipient_def RECIPIENT_def descriptor_at_def desc_consts
    drop_bit_eq_div)

theorem descriptor_reaches_host_witness:
  "\<exists>c' ps s'. usb_get_descriptor stm32_hw asked = Some c' \<and>
    in_stage stm32_hw (\<lambda>s. s) 4 (drv c') = (ps, s') \<and> concat ps = vcom_config_desc"
proof -
  have L: "67 = min (unat (req_len (dev_req (dev (drv asked))))) (length vcom_config_desc)"
    by (simp add: asked)
  have rx: "\<forall>t. EPREG t 0 AND EPRX_STAT = EPREG t 0 AND EPRX_STAT" by simp
  have n: "(67 :: nat) div 64 + 3 = 4" "take 67 vcom_config_desc = vcom_config_desc" by (simp_all add: asked)
  from descriptor_reaches_host [OF asked_for(4) asked(1,2) refl asked(3,4,5) L stm32_hw_law rx]
  show ?thesis unfolding n by auto
qed

end
