(* ===== verification/Usb_Cdc_Rx.thy ===== *)
theory Usb_Cdc_Rx
  imports Usb_Cdc_Device
begin

text \<open>
  When endpoint 3 may receive. The driver and the serial port enable the receiver with
  \<open>usb_lld_rx_enable\<close> alone: everything else that they do leaves it as it is or closes it, and
  leaves a packet that has been received pending or takes it.
\<close>

unbundle bit_operations_syntax

section \<open>The receiver\<close>

definition rx_open :: "usb \<Rightarrow> bool" where
  "rx_open s \<longleftrightarrow> EPREG s ENDP3 AND EPRX_STAT = EP_RX_VALID"

definition rx_pending :: "usb \<Rightarrow> bool" where
  "rx_pending s \<longleftrightarrow> EPREG s ENDP3 AND EP_CTR_RX \<noteq> 0"

text \<open>No step towards another packet.\<close>

definition rx_calm :: "usb \<Rightarrow> usb \<Rightarrow> bool" where
  "rx_calm s s' \<longleftrightarrow> (rx_open s' \<longrightarrow> rx_open s) \<and> (rx_pending s' \<longrightarrow> rx_pending s)"

lemma rx_open_bits: "rx_open s \<longleftrightarrow> bit (EPREG s ENDP3) 12 \<and> bit (EPREG s ENDP3) 13"
proof -
  have v: "EP_RX_VALID = EPRX_STAT" by (simp add: ep_bits)
  show ?thesis
  proof
    assume "rx_open s"
    then have "EPREG s ENDP3 AND EPRX_STAT = EPRX_STAT" by (simp add: rx_open_def v)
    from arg_cong [OF this, of "\<lambda>w. bit w 12"] arg_cong [OF this, of "\<lambda>w. bit w 13"]
    show "bit (EPREG s ENDP3) 12 \<and> bit (EPREG s ENDP3) 13" by (simp add: word16_bits)
  next
    assume "bit (EPREG s ENDP3) 12 \<and> bit (EPREG s ENDP3) 13"
    then show "rx_open s" unfolding rx_open_def v by (intro word16_eqI) (auto simp: word16_bits)
  qed
qed

lemma rx_pending_bits: "rx_pending s \<longleftrightarrow> bit (EPREG s ENDP3) 15"
proof
  assume "bit (EPREG s ENDP3) 15"
  then have "bit (EPREG s ENDP3 AND EP_CTR_RX) 15" by (simp add: word16_bits)
  then show "rx_pending s" unfolding rx_pending_def by (metis bit_0_eq bot_apply bot_bool_def)
next
  assume "rx_pending s"
  then obtain n where "n < 16" "bit (EPREG s ENDP3 AND EP_CTR_RX) n"
    unfolding rx_pending_def using word16_eqI [of "EPREG s ENDP3 AND EP_CTR_RX" 0] by auto
  then show "bit (EPREG s ENDP3) 15" by (auto simp: word16_bits)
qed

lemma rx_calm_same: "EPREG s' ENDP3 = EPREG s ENDP3 \<Longrightarrow> rx_calm s s'"
  by (simp add: rx_calm_def rx_open_def rx_pending_def)

lemma rx_calm_refl [simp]: "rx_calm s s"
  by (rule rx_calm_same) simp

lemma rx_calm_trans: "rx_calm s t \<Longrightarrow> rx_calm t u \<Longrightarrow> rx_calm s u"
  by (simp add: rx_calm_def)

lemma ENDP3_other [simp]: "ENDP3 \<noteq> ENDP0" "ENDP3 \<noteq> ENDP1" "ENDP3 \<noteq> ENDP2"
  "ENDP0 \<noteq> ENDP3" "ENDP1 \<noteq> ENDP3" "ENDP2 \<noteq> ENDP3"
  by (simp_all add: ENDP0_def ENDP1_def ENDP2_def ENDP3_def)

section \<open>Writes to the endpoint registers\<close>

lemma ep_write_rx:
  assumes "ep_write_law hw"
  shows "bit (ep_write hw v w) 12 = (bit v 12 \<noteq> bit w 12)" "bit (ep_write hw v w) 13 = (bit v 13 \<noteq> bit w 13)"
    "bit (ep_write hw v w) 15 = (bit v 15 \<and> bit w 15)"
  unfolding assms [unfolded ep_write_law_def, rule_format] by (auto simp: word16_bits)


lemma rx_calm_ops:
  assumes law: "ep_write_law hw"
  shows "rx_calm s (st103_ep_clear_ctr_rx hw ep s)" "rx_calm s (st103_ep_clear_ctr_tx hw ep s)"
    "rx_calm s (st103_ep_set_tx_status hw ep st s)" "rx_calm s (st103_ep_set_rx_status hw ep EP_RX_STALL s)"
    "rx_calm s (st103_ep_clear_dtog_rx hw ep s)" "rx_calm s (st103_ep_clear_dtog_tx hw ep s)"
proof -
  have stall: "\<not> bit EP_RX_STALL 13" "bit EP_RX_STALL 12" by (simp_all add: EP_RX_STALL_def)
  note d = rx_calm_def rx_open_bits rx_pending_bits st103_set_epreg_def st103_get_epreg_def
    ep_write_rx [OF law] word16_bits Let_def
  show "rx_calm s (st103_ep_clear_ctr_rx hw ep s)" "rx_calm s (st103_ep_clear_ctr_tx hw ep s)"
    by (auto simp: d st103_ep_clear_ctr_rx_def st103_ep_clear_ctr_tx_def)
  show "rx_calm s (st103_ep_set_tx_status hw ep st s)" by (auto simp: d st103_ep_set_tx_status_def)
  show "rx_calm s (st103_ep_set_rx_status hw ep EP_RX_STALL s)"
    using stall by (auto simp: d st103_ep_set_rx_status_def)
  show "rx_calm s (st103_ep_clear_dtog_rx hw ep s)" "rx_calm s (st103_ep_clear_dtog_tx hw ep s)"
    by (auto simp: d st103_ep_clear_dtog_rx_def st103_ep_clear_dtog_tx_def)
qed

lemma clear_ctr_rx_taken:
  "ep_write_law hw \<Longrightarrow> \<not> rx_pending (st103_ep_clear_ctr_rx hw ENDP3 s)"
  by (simp add: rx_pending_bits ep_clear_ctr word16_bits)

lemma rx_calm_setup:
  assumes law: "ep_write_law hw" and t: "only_bits t EP_T_FIELD"
  shows "rx_calm s (usb_lld_setup_endpoint hw keep ENDP3 t 0 ra ta sz s)"
proof -
  have k: "only_bits 0 EP_KIND" by (simp add: only_bits_def)
  have e: "ENDP3 < 16" by (simp add: ENDP3_def)
  have b: "\<not> bit t 12" "\<not> bit t 15" using only_bitsD [OF t, of 12] only_bitsD [OF t, of 15] by (auto simp: ep_field_bits)
  have c: "\<not> bit (ucast ENDP3 :: u16) 12" "\<not> bit (ucast ENDP3 :: u16) 15" "\<not> bit EP_RX_NAK 12" "\<not> bit EP_TX_NAK 12"
    "\<not> bit EP_RX_NAK 15" "\<not> bit EP_TX_NAK 15" by (simp_all add: ENDP3_def EP_RX_NAK_def EP_TX_NAK_def)
  show ?thesis
    using setup_endpoint_register [OF law t k e, of keep ra ta sz s] b c
    by (auto simp: rx_calm_def rx_open_bits rx_pending_bits Let_def word16_bits)
qed

section \<open>The driver\<close>

lemma epreg_ENDP0 [simp]: "EPREG (st103_ep_set_rxtx_status hw ENDP0 r t s) ENDP3 = EPREG s ENDP3"
  "EPREG (st103_ep_set_rx_status hw ENDP0 r s) ENDP3 = EPREG s ENDP3"
  "ep \<noteq> ENDP3 \<Longrightarrow> EPREG (st103_ep_set_tx_status hw ep t s) ENDP3 = EPREG s ENDP3"
  by (simp_all add: ep_ops st103_set_epreg_def st103_get_epreg_def Let_def)

lemma epreg_ctrl [simp]:
  "EPREG (usb_lld_ctrl_error hw s) ENDP3 = EPREG s ENDP3" "EPREG (snd (usb_lld_ctrl_ack hw s)) ENDP3 = EPREG s ENDP3"
  "EPREG (send_part len s) = EPREG s" "EPREG (snd (usb_lld_ctrl_send hw b l s)) ENDP3 = EPREG s ENDP3"
  "EPREG (snd (usb_lld_ctrl_recv hw b l s)) ENDP3 = EPREG s ENDP3"
  "EPREG (handle_datastage_out hw s) ENDP3 = EPREG s ENDP3" "EPREG (handle_datastage_in hw s) ENDP3 = EPREG s ENDP3"
  by (simp_all add: usb_lld_ctrl_error_def usb_lld_ctrl_ack_def send_part_def usb_lld_ctrl_send_def
      usb_lld_ctrl_recv_def handle_datastage_out_def handle_datastage_in_def Let_def usb_frame
      split: prod.split if_split)

lemma epreg_simple [simp]:
  "EPREG (set_mem16 p w s) = EPREG s" "EPREG (set_feature_bits f s) = EPREG s"
  "EPREG (store_bytes p bs s) = EPREG s" "EPREG (usb_lld_set_configuration k s) = EPREG s"
  "EPREG (st103_set_daddr a s) = EPREG s" "EPREG (st103_set_cntr w s) = EPREG s"
  by (simp_all add: set_mem16_def usb_frame set_feature_bits_def store_bytes_def usb_lld_set_configuration_def
      st103_set_daddr_def st103_set_cntr_def)

lemma epreg_pair:
  "usb_lld_ctrl_send hw b l s = (e, s') \<Longrightarrow> EPREG s' ENDP3 = EPREG s ENDP3"
  "usb_lld_ctrl_ack hw s = (e, s') \<Longrightarrow> EPREG s' ENDP3 = EPREG s ENDP3"
  using epreg_ctrl by (metis snd_conv)+

lemma rx_calm_std:
  assumes law: "ep_write_law hw" and r: "std_request hw r s = Some (e, s')"
  shows "rx_calm s s'"
proof -
  have status: "send_status hw w s = Some (e, s') \<Longrightarrow> EPREG s' ENDP3 = EPREG s ENDP3" for w
    by (auto simp: send_status_def dest!: epreg_pair(1))
  have feature: "rx_calm s (set_feature_bits f s)" for f by (simp add: rx_calm_same)
  have "std_clear_feature hw s = Some (e, s') \<Longrightarrow> rx_calm s s'" "std_set_feature hw s = Some (e, s') \<Longrightarrow> rx_calm s s'"
    by (auto simp: std_clear_feature_def std_set_feature_def Let_def rx_calm_ops [OF law] feature
        split: if_splits recipient.splits)
  moreover have "std_get_status hw s = Some (e, s') \<Longrightarrow> EPREG s' ENDP3 = EPREG s ENDP3"
    by (auto simp: std_get_status_def Let_def split: if_splits recipient.splits dest!: status)
  moreover have "std_set_address hw s = Some (e, s') \<Longrightarrow> EPREG s' ENDP3 = EPREG s ENDP3"
    "std_get_configuration hw s = Some (e, s') \<Longrightarrow> EPREG s' ENDP3 = EPREG s ENDP3"
    by (auto simp: std_set_address_def std_get_configuration_def Let_def usb_frame split: if_splits dest!: epreg_pair)
  moreover have "std_get_descriptor s = Some (e, s') \<Longrightarrow> s' = s" "std_set_configuration s = Some (e, s') \<Longrightarrow> s' = s"
    "std_get_interface s = Some (e, s') \<Longrightarrow> s' = s" "std_set_interface s = Some (e, s') \<Longrightarrow> s' = s"
    by (auto simp: std_get_descriptor_def std_set_configuration_def std_get_interface_def std_set_interface_def
        Let_def split: if_splits)
  ultimately show ?thesis
    using r unfolding std_request_def
    by (auto simp: std_none_def rx_calm_same split: if_splits)
qed

lemma rx_calm_handlers:
  assumes law: "ep_write_law hw"
  shows "rx_calm s (snd (handle_setup0 hw s))" "EPREG (snd (handle_in0 hw s)) ENDP3 = EPREG s ENDP3"
    "EPREG (handle_out0 hw s) ENDP3 = EPREG s ENDP3"
proof -
  define t where "t = set_ctrl_data \<lparr>cd_addr = 0, cd_len = 0, cd_require_zlp = 0\<rparr>
    (s\<lparr>dev := (dev s)\<lparr>dev_req := read_setup s\<rparr>\<rparr>)"
  have t: "EPREG t = EPREG s" by (simp add: t_def usb_frame)
  have "rx_calm t (snd (handle_setup0 hw s))"
    unfolding handle_setup0_def Let_def t_def [symmetric]
    by (auto intro: rx_calm_same rx_calm_std [OF law] split: option.split)
  moreover have "rx_calm s t" by (rule rx_calm_same) (simp add: t)
  ultimately show "rx_calm s (snd (handle_setup0 hw s))" by (rule rx_calm_trans [rotated])
  show "EPREG (snd (handle_in0 hw s)) ENDP3 = EPREG s ENDP3" "EPREG (handle_out0 hw s) ENDP3 = EPREG s ENDP3"
    by (simp_all add: handle_in0_def handle_out0_def Let_def usb_frame)
qed

lemma make_ev_ENDP: "USB_EVENT_ENDP (USB_MAKE_EV ev) = 0"
  by (cases ev) (simp_all add: USB_EVENT_ENDP_def USB_MAKE_EV_def push_bit_eq_mult drop_bit_eq_div)

text \<open>
  The event handler opens nothing; when it reports that endpoint 3 has received a packet, one was
  pending, which no longer is.
\<close>

definition rx_event :: "u32 \<Rightarrow> bool" where
  "rx_event e \<longleftrightarrow> ucast (USB_EVENT_ENDP e) = ENDP3 \<and> USB_EVENT_TXRX e = 0"

lemma rx_event_no: "\<not> rx_event 0" "\<not> rx_event (USB_MAKE_EV ev)"
  by (simp_all add: rx_event_def make_ev_ENDP) (simp_all add: USB_EVENT_ENDP_def ENDP3_def)

lemma transfer_rx:
  assumes law: "ep_write_law hw" and h: "usb_handle_transfer hw w s = (e, s')"
  shows "rx_calm s s' \<and> (rx_event e \<longrightarrow> rx_pending s \<and> \<not> rx_pending s')"
proof -
  define ep where "ep = (ucast (w AND ISTR_EP_ID) :: u8)"
  have ep: "ep < 128"
  proof -
    have "unat (w AND ISTR_EP_ID) \<le> 15"
      using word_and_le1 [of w ISTR_EP_ID] by (simp add: ISTR_EP_ID_def word_le_nat_alt)
    then show ?thesis by (simp add: ep_def word_less_nat_alt unsigned_ucast_eq take_bit_nat_eq_self)
  qed
  have cast: "(ucast (ucast ep :: u32) :: u8) = ep"
    by (simp add: word_unat_eq_iff [of "ucast (ucast ep :: u32)"] unsigned_ucast_eq [of "ucast ep :: u32"]
        unat_u8_u32 take_bit_nat_eq_self unsigned_less [of ep, where 'a = nat, simplified])
  then have txrx: "rx_event (USB_MAKE_TXRX ep b l) \<longleftrightarrow> ep = ENDP3 \<and> \<not> b" for b l
    using events_roundtrip [of ep b l USB_EVENT_OK] ep by (simp add: rx_event_def)
  note c = rx_calm_ops(1,2) [OF law] and n = rx_event_no
  have in0: "rx_calm s (snd (handle_in0 hw (st103_ep_clear_ctr_tx hw ep s)))"
    by (rule rx_calm_trans [OF c(2) rx_calm_same]) (simp add: rx_calm_handlers(2) [OF law])
  have setup0: "rx_calm s (snd (handle_setup0 hw (st103_ep_clear_ctr_rx hw ep s)))"
    by (rule rx_calm_trans [OF c(1) rx_calm_handlers(1) [OF law]])
  have out0: "rx_calm s (handle_out0 hw (st103_ep_clear_ctr_rx hw ep s))"
    by (rule rx_calm_trans [OF c(1) rx_calm_same]) (simp add: rx_calm_handlers(3) [OF law])
  show ?thesis
    using h in0 setup0 out0 c n txrx clear_ctr_rx_taken [OF law, of s] unfolding usb_handle_transfer_def Let_def ep_def [symmetric]
    by (auto simp: rx_pending_def st103_get_epreg_def split: if_splits prod.splits)
qed

lemma event_rx:
  assumes law: "ep_write_law hw" and h: "usb_lld_event_handler hw s = (e, s')"
  shows "rx_calm s s' \<and> (rx_event e \<longrightarrow> rx_pending s \<and> \<not> rx_pending s')"
proof -
  have tr: "rx_calm s s' \<and> (rx_event e \<longrightarrow> rx_pending s \<and> \<not> rx_pending s')"
    if "usb_handle_transfer hw w t = (e, s')" "EPREG t = EPREG s" for w t
    using transfer_rx [OF law that(1)] that(2) by (simp add: rx_calm_def rx_open_def rx_pending_def)
  define u where "u = (if ISTR s AND ISTR_OVR \<noteq> 0 then st103_set_istr hw (NOT ISTR_OVR) s else s)"
  define t where "t = (if ISTR s AND ISTR_ERR \<noteq> 0 then st103_set_istr hw (NOT ISTR_ERR) u else u)"
  have t: "EPREG t = EPREG s" by (simp add: t_def u_def usb_frame)
  have "EPREG s' = EPREG s \<and> \<not> rx_event e \<or> usb_handle_transfer hw (ISTR s) t = (e, s')"
    using h rx_event_no t unfolding usb_lld_event_handler_def Let_def u_def [symmetric] t_def [symmetric]
    by (auto simp: usb_frame split: if_splits)
  then show ?thesis using tr t rx_calm_same [of s' s] by auto
qed

section \<open>A packet after a line\<close>

text \<open>
  \<open>tty_wait_connection\<close> may enable the receiver while a packet is pending. One more packet may then
  come after the line that the pending one ends; the line has at most 64 characters then,
  so that both fit.
\<close>

lemma input_char_short:
  assumes r: "ring_ok t" and l: "length (inputline t) = 128" and n: "unat (inputline_len t) \<le> 127"
  shows "\<exists>t'. tty_input_char c t = Some (c = 0x0d, t') \<and> ring_ok t' \<and> length (inputline t') = 128 \<and>
    unat (inputline_len t') \<le> unat (inputline_len t) + 1 \<and> same_flags t t' \<and>
    flag_input_avail t' = (flag_input_avail t \<or> c = 0x0d)"
proof -
  let ?n = "inputline_len t"
  have succ: "unat (?n + 1) = unat ?n + 1" using n by (rule u8_succ)
  note f = same_but_echo_fields
  have unchanged: "ring_ok u \<and> length (inputline u) = 128 \<and> inputline_len u = ?n \<and> inputline u = inputline t \<and>
      same_flags t u \<and> flag_input_avail u = flag_input_avail t" if "same_but_echo t u" "ring_ok u" for u
    using that l f [OF that(1)] by (simp add: same_flags_def)
  consider "c = 0x0d" | "c = 0x12" | "c = 0x15" | "c = 0x7f" | "c \<notin> {0x0d, 0x12, 0x15, 0x7f}" by auto
  then show ?thesis
  proof cases
    case 1
    define t1 where "t1 = t\<lparr>inputline := (inputline t)[unat ?n := 0x0a], inputline_len := ?n + 1\<rparr>"
    have "ring_ok t1" using r by (simp add: t1_def ring_fields)
    then obtain u where u: "echo_chars [0x0d, 0x0a] t1 = Some u" "ring_ok u" "same_but_echo t1 u" by (rule echo_obtain)
    from u(2) f [OF u(3)] show ?thesis
      using 1 l n u(1) succ by (simp add: tty_input_char_def store_at_def t1_def [symmetric] del: echo_chars.simps)
        (simp add: t1_def ring_fields cond_signal_def same_flags_def)
  next
    case 2
    from r obtain u where u: "echo_chars [0x5e, 0x52, 0x0d, 0x0a] t = Some u" "ring_ok u" "same_but_echo t u"
      by (rule echo_obtain)
    note q = unchanged [OF u(3,2)]
    from u(2) obtain v where v: "echo_chars (take (unat ?n) (inputline t)) u = Some v" "ring_ok v" "same_but_echo u v"
      by (rule echo_obtain)
    note w = unchanged [OF same_but_echo_trans [OF u(3) v(3)] v(2)]
    show ?thesis using 2 n l u(1) v q w by (simp add: tty_input_char_def del: echo_chars.simps)
  next
    case 3
    from r obtain u where u: "echo_chars (concat (replicate (unat ?n) [0x08, 0x20, 0x08])) t = Some u" "ring_ok u"
      "same_but_echo t u" by (rule echo_obtain)
    from u show ?thesis using 3 l unchanged [OF u(3,2)]
      by (simp add: tty_input_char_def ring_fields same_flags_def del: echo_chars.simps)
  next
    case 4
    from r obtain u where u: "echo_chars [0x08, 0x20, 0x08] t = Some u" "ring_ok u" "same_but_echo t u"
      by (rule echo_obtain)
    have "0 < ?n \<Longrightarrow> unat (?n - 1) \<le> unat ?n + 1"
      using unat_sub_le [of 1 ?n] by (simp add: word_le_nat_alt word_less_nat_alt)
    then show ?thesis using 4 u unchanged [OF u(3,2)] unchanged [OF same_but_echoI(1) r]
      by (simp add: tty_input_char_def ring_fields same_flags_def del: echo_chars.simps)
  next
    case 5
    from r obtain u where u: "echo_chars [c] t = Some u" "ring_ok u" "same_but_echo t u" by (rule echo_obtain)
    from r obtain v where v: "echo_chars [0x0a] t = Some v" "ring_ok v" "same_but_echo t v" by (rule echo_obtain)
    show ?thesis
      using 5 u v l n succ unchanged [OF u(3,2)] unchanged [OF v(3,2)]
      by (auto simp: tty_input_char_def echo_chars_single store_at_def ring_fields same_flags_def simp del: echo_chars.simps)
  qed
qed

lemma rx_chars_short:
  "ring_ok t \<Longrightarrow> length (inputline t) = 128 \<Longrightarrow> unat (inputline_len t) + length cs \<le> 128 \<Longrightarrow>
   \<exists>t'. rx_chars cs t = Some t' \<and> ring_ok t' \<and> length (inputline t') = 128 \<and>
     unat (inputline_len t') \<le> unat (inputline_len t) + length cs \<and> same_flags t t' \<and>
     (flag_input_avail t \<longrightarrow> flag_input_avail t')"
proof (induction cs arbitrary: t)
  case Nil
  then show ?case by (simp add: same_flags_def)
next
  case (Cons c cs)
  from input_char_short [OF Cons.prems(1,2), of c] Cons.prems(3) obtain u where
    u: "tty_input_char c t = Some (c = 0x0d, u)" "ring_ok u" "length (inputline u) = 128"
      "unat (inputline_len u) \<le> unat (inputline_len t) + 1" "same_flags t u"
      "flag_input_avail u = (flag_input_avail t \<or> c = 0x0d)" by auto
  show ?case
  proof (cases "c = 0x0d")
    case True
    then show ?thesis using u by (intro exI [of _ u]) simp
  next
    case False
    have "unat (inputline_len u) + length cs \<le> 128" using u(4) Cons.prems(3) by simp
    from Cons.IH [OF u(2,3) this] obtain t' where
      t': "rx_chars cs u = Some t'" "ring_ok t'" "length (inputline t') = 128"
        "unat (inputline_len t') \<le> unat (inputline_len u) + length cs" "same_flags u t'"
        "flag_input_avail u \<longrightarrow> flag_input_avail t'" by blast
    then show ?thesis using u False same_flags_trans [OF u(5) t'(5)] by (intro exI [of _ t']) auto
  qed
qed

section \<open>The receiver and the line\<close>

text \<open>
  What the flag \<open>flag_input_avail\<close> is for. While a line waits, and a packet may yet come or is pending,
  the line is short; a packet is pending with the receiver enabled only while the line is empty.
\<close>

definition rx_inv :: "cdc \<Rightarrow> bool" where
  "rx_inv c \<longleftrightarrow>
     (rx_open (drv c) \<and> rx_pending (drv c) \<longrightarrow> \<not> flag_input_avail (tty0 c) \<and> inputline_len (tty0 c) = 0) \<and>
     (flag_input_avail (tty0 c) \<and> (rx_open (drv c) \<or> rx_pending (drv c)) \<longrightarrow> unat (inputline_len (tty0 c)) \<le> 64)"

lemma rx_inv_calm:
  "rx_inv c \<Longrightarrow> rx_calm (drv c) (drv c') \<Longrightarrow> inputline_len (tty0 c') = inputline_len (tty0 c) \<Longrightarrow>
   flag_input_avail (tty0 c') = flag_input_avail (tty0 c) \<Longrightarrow> rx_inv c'"
  by (auto simp: rx_inv_def rx_calm_def)

lemma rx_inv_empty: "\<not> flag_input_avail (tty0 c) \<Longrightarrow> inputline_len (tty0 c) = 0 \<Longrightarrow> rx_inv c"
  by (simp add: rx_inv_def)

lemma rx_ready_rx:
  assumes law: "ep_write_law hw" and ok: "line_ok (tty0 c)" and len: "len \<le> 64"
    and inv: "rx_inv (c\<lparr>drv := s\<rparr>)" and ev: "rx_pending s" "rx_calm s (drv c)" "\<not> rx_pending (drv c)"
  shows "\<exists>c'. usb_rx_ready hw ENDP3 len c = Some c' \<and> line_ok (tty0 c') \<and> same_flags (tty0 c) (tty0 c') \<and>
    dev (drv c') = dev (drv c) \<and> rx_inv c'"
proof -
  let ?t = "tty0 c" and ?s = "usb_lld_rxcpy (recv_buf_p c) ENDP3 0 (ucast len) (drv c)"
  define cs where "cs = ep3_packet (drv c) (unat len)"
  have cs: "length cs \<le> 64" using len by (simp add: cs_def ep3_packet_def word_le_nat_alt)
  have r: "ring_ok ?t" "length (inputline ?t) = 128" using ok by (simp_all add: line_ok_def)
  have s: "EPREG ?s = EPREG (drv c)" "dev ?s = dev (drv c)" by (simp_all add: usb_lld_rxcpy_def usb_frame)
  have closed: "\<not> rx_pending ?s" using ev(3) by (simp add: rx_pending_def s)
  have opn: "rx_open ?s \<Longrightarrow> \<not> flag_input_avail ?t \<and> inputline_len ?t = 0"
    using inv ev by (auto simp: rx_inv_def rx_calm_def rx_open_def s)
  have en: "\<not> rx_pending (usb_lld_rx_enable hw ENDP3 ?s)"
    using closed by (simp add: rx_pending_bits usb_lld_rx_enable_def ep_set_rx_status [OF law] word16_bits EP_RX_VALID_def)
  have len': "\<not> 64 < len" using len by simp
  have eq: "usb_rx_ready hw ENDP3 len c = (case rx_chars cs ?t of None \<Rightarrow> None | Some t' \<Rightarrow>
      Some (if flag_input_avail t' then c\<lparr>drv := ?s, tty0 := t'\<rparr> else c\<lparr>drv := usb_lld_rx_enable hw ENDP3 ?s, tty0 := t'\<rparr>))"
    using len' by (simp add: usb_rx_ready_def upd_drv_def rxcpy_bytes cs_def split: option.split)
  have dev: "dev (usb_lld_rx_enable hw ENDP3 ?s) = dev (drv c)" by (simp add: usb_lld_rx_enable_def usb_frame s)
  show ?thesis
  proof (cases "flag_input_avail ?t")
    case True
    then have "unat (inputline_len ?t) \<le> 64" using inv ev(1) by (simp add: rx_inv_def)
    with rx_chars_short [OF r, of cs] cs True obtain t' where
      t': "rx_chars cs ?t = Some t'" "ring_ok t'" "length (inputline t') = 128" "flag_input_avail t'"
        "unat (inputline_len t') \<le> 128" "same_flags ?t t'" by fastforce
    then show ?thesis using True opn closed by (simp add: eq line_ok_def rx_inv_def s(2)) blast
  next
    case False
    obtain l e d where e: "edit_packet cs (typed ?t) = (l, e, d)" by (cases "edit_packet cs (typed ?t)") blast
    from rx_chars_ok [OF ok False e] obtain t' where
      t': "rx_chars cs ?t = Some t'" "line_ok t'" "same_flags ?t t'" by blast
    have short: "unat (inputline_len t') \<le> 64" if "rx_open ?s"
      using rx_chars_short [OF r, of cs] cs opn [OF that] t'(1) by auto
    show ?thesis using t' short closed en by (auto simp: eq rx_inv_def s(2) dev)
  qed
qed

end
