(* ===== verification/Usb_Cdc_Send.thy ===== *)
theory Usb_Cdc_Send
  imports Usb_Cdc_Line
begin

text \<open>
  What the virtual serial port sends to the host on endpoint 1: the characters of the echo ring
  and the data of \<open>tty_send\<close>, packet by packet.
\<close>

unbundle bit_operations_syntax

section \<open>A packet for the host\<close>

text \<open>The packet that an endpoint holds, and where its buffer must lie: behind the table.\<close>

definition ep_packet :: "u8 \<Rightarrow> usb \<Rightarrow> u8 list" where
  "ep_packet ep s = List.map (\<lambda>i. pma_byte (pma s) (unat (st103_get_tx_addr ep s) + i))
     [0..<unat (st103_get_tx_count ep s)]"

definition ep_room :: "u8 \<Rightarrow> usb \<Rightarrow> bool" where
  "ep_room ep s \<longleftrightarrow> 64 \<le> unat (st103_get_tx_addr ep s) \<and> unat (st103_get_tx_addr ep s) + 64 \<le> 2 ^ 15"

lemma btable_pma_p: "btable_p ep 0 = pma_p (8 * unat ep)" "btable_p ep 2 = pma_p (8 * unat ep + 2)"
proof -
  have u: "(ucast ep :: u32) = of_nat (unat ep)" by (simp add: unsigned_ucast_eq)
  have d: "4 * (8 * n div 2) = 16 * n" "4 * ((8 * n + 2) div 2) = 16 * n + 4" for n :: nat by simp_all
  show "btable_p ep 0 = pma_p (8 * unat ep)" "btable_p ep 2 = pma_p (8 * unat ep + 2)"
    unfolding btable_p_def pma_p_def u d by simp_all
qed

lemma and_3ff:
  assumes "unat (w :: u16) \<le> 64"
  shows "w AND 0x03ff = w"
proof -
  have small: "bit w n \<Longrightarrow> n < 7" for n by (rule small_bit [of w 7]) (use assms in simp_all)
  have "(0x03ff :: u16) = mask 10" by (simp add: mask_eq_exp_minus_1)
  moreover have "w AND mask 10 = w" by (rule word16_eqI) (auto simp: bit_and_iff bit_mask_iff dest: small)
  ultimately show ?thesis by simp
qed

lemma copy_packet:
  fixes hw :: usb_hw and p :: addr
  assumes room: "ep_room ep s" and ep: "ep < 8" and n: "n \<le> 64"
  defines "s' \<equiv> usb_lld_tx_enable hw ep (of_nat n) (usb_lld_txcpy p ep 0 (of_nat n) s)"
  shows "ep_packet ep s' = bytes (mem s) p n" "ep' < 8 \<Longrightarrow> st103_get_tx_addr ep' s' = st103_get_tx_addr ep' s"
    "mem s' = mem s" "dev s' = dev s"
    "ep_write_law hw \<Longrightarrow> EPREG s' ep AND EPTX_STAT = EP_TX_VALID"
proof -
  define a where "a = st103_get_tx_addr ep s"
  define t where "t = usb_lld_to_pmabuf p a (of_nat n) s"
  define q where "q = 8 * unat ep + 2"
  have ep8: "unat e < 8" if "e < 8" for e :: u8 using that by (simp add: word_less_nat_alt)
  have a: "64 \<le> unat a" "unat a + 64 \<le> 2 ^ 15" using room by (auto simp: ep_room_def a_def)
  have u: "unat (of_nat n :: u32) = n" "unat (of_nat n :: u16) = n" "(ucast (of_nat n :: u32) :: u16) = of_nat n"
    using n by (simp_all add: unat_of_nat take_bit_nat_eq_self word_unat_eq_iff unsigned_ucast_eq)
  have byte: "pma_byte (pma t) b = (if unat a \<le> b \<and> b < unat a + n then mem s (p + of_nat (b - unat a))
      else if n \<noteq> 0 \<and> odd (unat a + n) \<and> b = unat a + n then 0 else pma_byte (pma s) b)"
    if "b < 2 ^ 16" for b
    unfolding t_def by (subst usb_lld_to_pmabuf_bytes) (use a n that u in \<open>auto simp: word_unat_eq_iff\<close>)
  have eq: "s' = st103_ep_set_tx_status hw ep EP_TX_VALID (set_pma (pma_p q) (of_nat n) t)"
    by (simp add: s'_def usb_lld_tx_enable_def usb_lld_txcpy_def t_def a_def st103_set_tx_count_def
        btable_pma_p q_def u)
  then have pma': "pma s' = (pma t)(pma_p q := of_nat n)" by (simp add: usb_frame) (simp add: set_pma_def)
  have q: "even q" "q < 2 ^ 17" "q + 1 < 64" "2 \<le> q" using ep8 [OF ep] by (auto simp: q_def)
  have byte': "pma_byte (pma s') b = pma_byte (pma t) b" if "b < 2 ^ 16" "b \<noteq> q" "b \<noteq> q + 1" for b
    unfolding pma' using that q by (subst pma_byte_set) auto
  have addr: "st103_get_tx_addr e s' = st103_get_tx_addr e s" if "e < 8" for e
  proof -
    have d: "8 * unat e \<noteq> q" "8 * unat e + 1 \<noteq> q" "8 * unat e \<noteq> q + 1" by (simp_all add: q_def, presburger+)
    have "pma s' (pma_p (8 * unat e)) = pma s (pma_p (8 * unat e))"
      by (rule pma_word) (use a d ep8 [OF that] n in \<open>simp_all add: byte' byte\<close>)
    then show ?thesis by (simp add: st103_get_tx_addr_def btable_pma_p)
  qed
  then show "ep' < 8 \<Longrightarrow> st103_get_tx_addr ep' s' = st103_get_tx_addr ep' s" .
  have "pma s' (pma_p q) = of_nat n" by (simp add: pma')
  then have cnt: "unat (st103_get_tx_count ep s') = n"
    using and_3ff [of "of_nat n"] n u
    unfolding st103_get_tx_count_def btable_pma_p(2) q_def [symmetric] by simp
  show "ep_packet ep s' = bytes (mem s) p n"
    unfolding ep_packet_def addr [OF ep] cnt bytes_def a_def [symmetric]
    by (rule map_cong [OF refl]) (use a n q in \<open>simp add: byte' byte\<close>)
  show "mem s' = mem s" "dev s' = dev s" by (simp_all add: eq usb_frame t_def)
  assume "ep_write_law hw"
  moreover have "EP_TX_VALID = EPTX_STAT" by (simp add: ep_bits)
  ultimately show "EPREG s' ep AND EPTX_STAT = EP_TX_VALID"
    unfolding eq by (simp add: ep_set_tx_status)
qed

section \<open>The echo\<close>

text \<open>The line is open in a configured device, and the buffer of endpoint 1 is behind the table.\<close>

definition echo_on :: "cdc \<Rightarrow> bool" where
  "echo_on c \<longleftrightarrow> device_state (tty0 c) = USB_DEVICE_STATE_CONFIGURED \<and> flag_connected (tty0 c) \<and>
     ring_ok (tty0 c) \<and> ep_room ENDP1 (drv c)"

lemma ENDP1_8: "ENDP1 < 8" by (simp add: ENDP1_def)











section \<open>The data of the application\<close>

text \<open>The packets of a transfer: full ones, and a last one that is shorter.\<close>

function packets :: "u8 list \<Rightarrow> u8 list list" where
  "packets xs = (if length xs < 64 then [xs] else take 64 xs # packets (drop 64 xs))"
  by auto

termination
  by (relation "measure length") auto

declare packets.simps [simp del]

text \<open>
  What the caller of \<open>tty_send\<close> relies on: while it waits, other threads do not touch its buffer
  nor the place of the packet, the line stays open, and after at most \<open>n\<close> wakeups the last packet
  has been taken.
\<close>

definition can_send :: "addr \<Rightarrow> u8 list \<Rightarrow> cdc \<Rightarrow> bool" where
  "can_send p data c \<longleftrightarrow> ep_room ENDP1 (drv c) \<and> flag_connected (tty0 c) \<and>
     bytes (mem (drv c)) p (length data) = data"

definition takes_packets :: "(cdc \<Rightarrow> bool) \<Rightarrow> (cdc \<Rightarrow> cdc) \<Rightarrow> nat \<Rightarrow> bool" where
  "takes_packets P others n \<longleftrightarrow>
     (\<forall>c. P c \<longrightarrow> P (others c) \<and> (\<exists>k\<le>n. flag_send_ready (tty0 ((others ^^ k) c))))"

lemma wait_until_ok:
  "\<forall>c. P c \<longrightarrow> P (others c) \<Longrightarrow> P c \<Longrightarrow> \<exists>k\<le>n. ok (tty0 ((others ^^ k) c)) \<Longrightarrow>
   \<exists>c'. wait_until ok others n c = Some c' \<and> P c' \<and> ok (tty0 c')"
proof (induction n arbitrary: c)
  case 0
  then show ?case by (simp add: wait_until.simps)
next
  case (Suc n)
  show ?case
  proof (cases "ok (tty0 c)")
    case True
    then show ?thesis using Suc.prems by (simp add: wait_until.simps)
  next
    case False
    from Suc.prems(3) obtain k where k: "k \<le> Suc n" "ok (tty0 ((others ^^ k) c))" by blast
    with False obtain m where m: "k = Suc m" by (cases k) auto
    then have "\<exists>k\<le>n. ok (tty0 ((others ^^ k) (others c)))"
      using k by (auto simp: funpow_swap1 intro!: exI [of _ m])
    from Suc.IH [OF Suc.prems(1) _ this] Suc.prems(1,2) show ?thesis
      using False by (simp add: wait_until.simps [of _ _ "Suc n"])
  qed
qed

lemma bytes_drop:
  "bytes m p (length xs) = xs \<Longrightarrow> k \<le> length xs \<Longrightarrow>
   bytes m p k = take k xs \<and> bytes m (p + of_nat k) (length xs - k) = drop k xs"
  using bytes_append [of m p k "length xs - k"] append_eq_conv_conj [of "bytes m p k"] by (metis length_bytes le_add_diff_inverse)

lemma send_one_ready:
  assumes "flag_send_ready (tty0 d)"
  shows "send_one hw p n d = d\<lparr>drv := usb_lld_tx_enable hw ENDP1 (of_nat n) (usb_lld_txcpy p ENDP1 0 (of_nat n) (drv d)),
    tty0 := (tty0 d)\<lparr>flag_send_ready := False\<rparr>\<rparr>"
  using assms by (simp add: send_one_def check_tx_def upd_drv_def upd_tty_def Let_def)

lemma send_one_ok:
  assumes c: "can_send p data c" "flag_send_ready (tty0 c)" and n: "n \<le> 64" "n \<le> length data"
  shows "ep_packet ENDP1 (drv (send_one hw p n c)) = take n data"
    "can_send p data (send_one hw p n c)"
    "ep_write_law hw \<Longrightarrow> EPREG (drv (send_one hw p n c)) ENDP1 AND EPTX_STAT = EP_TX_VALID"
proof -
  have room: "ep_room ENDP1 (drv c)" and b: "bytes (mem (drv c)) p (length data) = data"
    using c(1) by (auto simp: can_send_def)
  define u where "u = usb_lld_tx_enable hw ENDP1 (of_nat n) (usb_lld_txcpy p ENDP1 0 (of_nat n) (drv c))"
  note q = copy_packet [OF room ENDP1_8 n(1), where hw = hw and p = p, folded u_def]
  have eq: "send_one hw p n c = c\<lparr>drv := u, tty0 := (tty0 c)\<lparr>flag_send_ready := False\<rparr>\<rparr>"
    using send_one_ready [OF c(2)] by (simp add: u_def)
  show "ep_packet ENDP1 (drv (send_one hw p n c)) = take n data"
    using q(1) bytes_drop [OF b n(2)] by (simp add: eq)
  show "can_send p data (send_one hw p n c)"
    using c(1) q(3) q(2) [OF ENDP1_8] by (simp add: eq can_send_def ep_room_def)
  show "ep_write_law hw \<Longrightarrow> EPREG (drv (send_one hw p n c)) ENDP1 AND EPTX_STAT = EP_TX_VALID"
    using q(5) by (simp add: eq)
qed

lemma can_send_drop:
  "can_send p data c \<Longrightarrow> k \<le> length data \<Longrightarrow> can_send (p + of_nat k) (drop k data) c"
  using bytes_drop [of "mem (drv c)" p data k] by (simp add: can_send_def)

lemma send_one_mem: "mem (drv (send_one hw p n c)) = mem (drv c)"
  by (simp add: send_one_def upd_drv_def upd_tty_def Let_def usb_lld_tx_enable_def usb_lld_txcpy_def usb_frame)

lemma tty_send_ok:
  assumes others: "takes_packets (can_send p data) others n"
  shows "can_send p data c \<Longrightarrow> k \<le> length data \<Longrightarrow>
    \<exists>qs c'. tty_send hw others n (p + of_nat k) (length data - k) c = Some (1, qs, c') \<and>
      List.map (ep_packet ENDP1) qs = packets (drop k data) \<and>
      (ep_write_law hw \<longrightarrow> (\<forall>q\<in>set qs. EPREG q ENDP1 AND EPTX_STAT = EP_TX_VALID))"
proof (induction "length data - k" arbitrary: k c rule: less_induct)
  case less
  have "\<forall>c. can_send p data c \<longrightarrow> can_send p data (others c)"
    "\<exists>k\<le>n. check_tx (tty0 ((others ^^ k) c)) \<noteq> 0"
    using others less.prems(1) unfolding takes_packets_def by (auto simp: check_tx_def)
  from wait_until_ok [where ok = "\<lambda>t. check_tx t \<noteq> 0", OF this(1) less.prems(1) this(2)] obtain d where
    d: "wait_until (\<lambda>t. check_tx t \<noteq> 0) others n c = Some d" "can_send p data d" "check_tx (tty0 d) \<noteq> 0"
    by blast
  then have rdy: "flag_send_ready (tty0 d)" by (auto simp: check_tx_def can_send_def split: if_splits)
  then have r: "check_tx (tty0 d) = 1" by (simp add: check_tx_def)
  define l where "l = length data - k"
  define m where "m = (if 64 \<le> l then 64 else l)"
  have m: "m \<le> 64" "m \<le> length (drop k data)" by (simp_all add: m_def l_def)
  define e where "e = send_one hw (p + of_nat k) m d"
  note s = send_one_ok [OF can_send_drop [OF d(2) less.prems(2)] rdy m, of hw, folded e_def]
  have e: "can_send p data e"
    using d(2) s(2) send_one_mem [of hw "p + of_nat k" m d] by (simp add: can_send_def e_def)
  show ?case
  proof (cases "l < 64")
    case True
    then have "tty_send hw others n (p + of_nat k) l c = Some (1, [drv e], e)"
      using d(1) r by (simp add: Let_def tty_send.simps [of hw others n "p + of_nat k" l] e_def m_def)
    then show ?thesis using True s by (simp add: packets.simps [of "drop k data"] m_def l_def)
  next
    case False
    then have m64: "m = 64" by (simp add: m_def)
    from False have "length data - (k + 64) < length data - k" "k + 64 \<le> length data" by (auto simp: l_def)
    from less.hyps [OF this(1) e this(2)] obtain qs c' where
      qs: "tty_send hw others n (p + of_nat (k + 64)) (length data - (k + 64)) e = Some (1, qs, c')"
        "List.map (ep_packet ENDP1) qs = packets (drop (k + 64) data)"
        "ep_write_law hw \<longrightarrow> (\<forall>q\<in>set qs. EPREG q ENDP1 AND EPTX_STAT = EP_TX_VALID)" by blast
    have "p + of_nat (k + 64) = p + of_nat k + 64" "length data - (k + 64) = l - 64" by (simp_all add: l_def)
    note qs(1) [unfolded this]
    then have "tty_send hw others n (p + of_nat k) l c = Some (1, drv e # qs, c')"
      using False d(1) r by (simp add: Let_def tty_send.simps [of hw others n "p + of_nat k" l] e_def m64)
    then show ?thesis using False s qs by (simp add: packets.simps [of "drop k data"] m64 l_def add.commute)
  qed
qed

text \<open>On a closed line nothing is sent.\<close>

lemma tty_send_closed:
  "\<not> flag_connected (tty0 c) \<Longrightarrow> \<not> flag_send_ready (tty0 c) \<Longrightarrow>
   tty_send hw others n p len c = Some (- 1, replicate (len div 64 + 1) (drv c), c)"
proof (induction len arbitrary: p rule: less_induct)
  case (less len)
  have w: "wait_until (\<lambda>t. check_tx t \<noteq> 0) others n c = Some c" "check_tx (tty0 c) = - 1"
    "send_one hw p k c = c" for k
    using less.prems by (simp_all add: wait_until.simps check_tx_def send_one_def)
  show ?case
  proof (cases "len < 64")
    case True
    then show ?thesis using w by (simp add: Let_def tty_send.simps [of hw others n p len])
  next
    case False
    then have "len div 64 = Suc ((len - 64) div 64)" using le_div_geq [of 64 len] by simp
    then show ?thesis
      using False w less.IH [of "len - 64" "p + of_nat 64"] less.prems
      by (simp add: Let_def tty_send.simps [of hw others n p len])
  qed
qed

lemma packets_ok:
  "concat (packets xs) = xs \<and> packets xs \<noteq> [] \<and> (\<forall>q\<in>set (butlast (packets xs)). length q = 64) \<and>
   length (last (packets xs)) < 64"
proof (induction xs rule: packets.induct)
  case (1 xs)
  show ?case
  proof (cases "length xs < 64")
    case True
    then have "packets xs = [xs]" by (simp add: packets.simps)
    then show ?thesis using True by simp
  next
    case False
    define qs where "qs = packets (drop 64 xs)"
    have p: "packets xs = take 64 xs # qs" using False by (simp add: packets.simps [of xs] qs_def)
    have q: "concat qs = drop 64 xs" "qs \<noteq> []" "\<forall>q\<in>set (butlast qs). length q = 64" "length (last qs) < 64"
      using 1 [OF False, folded qs_def] by blast+
    have "concat (take 64 xs # qs) = xs" unfolding concat.simps q(1) by (rule append_take_drop_id)
    moreover have "length (take 64 xs) = 64" using False by simp
    ultimately show ?thesis unfolding p using q(2-4) by auto
  qed
qed

lemma tty_send_closed_ready:
  assumes "\<not> flag_connected (tty0 d)" "flag_send_ready (tty0 d)" "ep_room ENDP1 (drv d)"
  shows "\<exists>e. tty_send hw others n p len d =
      Some (if len < 64 then 1 else - 1, replicate (len div 64 + 1) (drv e), e) \<and>
    ep_packet ENDP1 (drv e) = bytes (mem (drv d)) p (min 64 len) \<and> \<not> flag_send_ready (tty0 e)"
proof -
  define e where "e = send_one hw p (min 64 len) d"
  have w: "wait_until (\<lambda>t. check_tx t \<noteq> 0) others n d = Some d" "check_tx (tty0 d) = 1"
    using assms by (simp_all add: wait_until.simps check_tx_def)
  have c: "\<not> flag_connected (tty0 e)" "\<not> flag_send_ready (tty0 e)"
    using assms by (simp_all add: e_def send_one_ready)
  have pk: "ep_packet ENDP1 (drv e) = bytes (mem (drv d)) p (min 64 len)"
    using copy_packet(1) [OF assms(3) ENDP1_8, of "min 64 len" hw p] assms(2) by (simp add: e_def send_one_ready)
  have "tty_send hw others n p len d = Some (if len < 64 then 1 else - 1, replicate (len div 64 + 1) (drv e), e)"
  proof (cases "len < 64")
    case True
    then have "min 64 len = len" by simp
    then show ?thesis using True w by (simp add: Let_def tty_send.simps [of hw others n p len d] e_def)
  next
    case False
    then have "min 64 len = 64" "len div 64 = Suc ((len - 64) div 64)" using le_div_geq [of 64 len] by simp_all
    then show ?thesis
      using False w tty_send_closed [OF c, of hw others n "p + 64" "len - 64"]
      by (simp add: Let_def tty_send.simps [of hw others n p len d] e_def)
  qed
  with pk c(2) show ?thesis by blast
qed

section \<open>What the host receives\<close>


text \<open>
  C33: tty_send delivers its buffer. When other threads leave the buffer alone and the line stays open,
  and every packet is taken after at most n wakeups, tty_send returns 1 after handing the
  controller exactly the bytes of the buffer, in packets of 64 bytes and a last one that is shorter, which is
  empty when the length is a multiple of 64; each is enabled for the host. On a closed line it depends on
  flag_send_ready, which a reset sets: with the flag clear it returns -1 at once and hands over nothing; with the
  flag set the first packet is handed over all the same and nothing after it, and the result is 1 when
  that packet is the only one and -1 otherwise.
\<close>

theorem tty_send_delivers:
  assumes "takes_packets (can_send p data) others n" and "can_send p data c"
  shows "(\<exists>qs c'. tty_send hw others n p (length data) c = Some (1, qs, c') \<and>
      List.map (ep_packet ENDP1) qs = packets data \<and> concat (packets data) = data \<and>
      (\<forall>q\<in>set (butlast (packets data)). length q = 64) \<and> length (last (packets data)) < 64 \<and>
      (ep_write_law hw \<longrightarrow> (\<forall>q\<in>set qs. EPREG q ENDP1 AND EPTX_STAT = EP_TX_VALID))) \<and>
    (\<forall>d. \<not> flag_connected (tty0 d) \<and> \<not> flag_send_ready (tty0 d) \<longrightarrow>
      tty_send hw others n p (length data) d = Some (- 1, replicate (length data div 64 + 1) (drv d), d)) \<and>
    (\<forall>d. \<not> flag_connected (tty0 d) \<and> flag_send_ready (tty0 d) \<and> ep_room ENDP1 (drv d) \<longrightarrow>
      (\<exists>e. tty_send hw others n p (length data) d =
          Some (if length data < 64 then 1 else - 1, replicate (length data div 64 + 1) (drv e), e) \<and>
        ep_packet ENDP1 (drv e) = bytes (mem (drv d)) p (min 64 (length data)) \<and> \<not> flag_send_ready (tty0 e)))"
proof (intro conjI allI impI)
  from tty_send_ok [OF assms, of 0 hw] packets_ok [of data]
  show "\<exists>qs c'. tty_send hw others n p (length data) c = Some (1, qs, c') \<and>
      List.map (ep_packet ENDP1) qs = packets data \<and> concat (packets data) = data \<and>
      (\<forall>q\<in>set (butlast (packets data)). length q = 64) \<and> length (last (packets data)) < 64 \<and>
      (ep_write_law hw \<longrightarrow> (\<forall>q\<in>set qs. EPREG q ENDP1 AND EPTX_STAT = EP_TX_VALID))"
    by auto
next
  fix d :: cdc
  assume "\<not> flag_connected (tty0 d) \<and> flag_send_ready (tty0 d) \<and> ep_room ENDP1 (drv d)"
  then show "\<exists>e. tty_send hw others n p (length data) d =
          Some (if length data < 64 then 1 else - 1, replicate (length data div 64 + 1) (drv e), e) \<and>
        ep_packet ENDP1 (drv e) = bytes (mem (drv d)) p (min 64 (length data)) \<and> \<not> flag_send_ready (tty0 e)"
    using tty_send_closed_ready by blast
qed (simp add: tty_send_closed)

text \<open>A terminal that has \<open>hello\<close> to echo; its packets for endpoint 1 are at 0xc0.\<close>

definition echoing :: cdc where
  "echoing = terminal\<lparr>drv := (drv terminal)\<lparr>pma := (\<lambda>_. 0)(btable_p ENDP1 0 := 0xc0)\<rparr>,
     tty0 := (tty0 terminal)\<lparr>send_buf := [0x68, 0x65, 0x6c, 0x6c, 0x6f] @ replicate 123 0, send_tail := 5,
       flag_send_ready := False\<rparr>\<rparr>"

lemma echoing: "echo_on echoing" "echoes (tty0 echoing) = [0x68, 0x65, 0x6c, 0x6c, 0x6f]"
  by (simp_all add: echo_on_def echoing_def terminal_def ring_ok_def ep_room_def st103_get_tx_addr_def
      btable_p_def ENDP1_def echoes_def echo_count_def upt_rec)


lemma tx_done_takes_packets: "takes_packets (can_send p data) (usb_tx_done ENDP1) 1"
proof -
  have "can_send p data (usb_tx_done ENDP1 c) \<and> flag_send_ready (tty0 (usb_tx_done ENDP1 c))"
    if "can_send p data c" for c
    using that by (auto simp: can_send_def usb_tx_done_def upd_tty_def cond_signal_def)
  then show ?thesis unfolding takes_packets_def by (intro allI impI conjI exI [of _ 1]) simp_all
qed

theorem tty_send_delivers_witness:
  "\<exists>qs c'. tty_send stm32_hw (usb_tx_done ENDP1) 1 0x2000 64 echoing = Some (1, qs, c') \<and>
    List.map (ep_packet ENDP1) qs = [bytes (mem (drv echoing)) 0x2000 64, []]"
proof -
  define data where "data = bytes (mem (drv echoing)) 0x2000 64"
  have l: "length data = 64" by (simp add: data_def)
  have "can_send 0x2000 data echoing"
    unfolding can_send_def l using echoing(1) by (simp add: echo_on_def data_def)
  from tty_send_delivers [OF tx_done_takes_packets this, of stm32_hw] obtain qs c' where
    r: "tty_send stm32_hw (usb_tx_done ENDP1) 1 0x2000 64 echoing = Some (1, qs, c')"
    "List.map (ep_packet ENDP1) qs = packets data" unfolding l by blast
  have "packets data = [data, []]"
    using l by (simp add: packets.simps [of data] packets.simps [of "[]"])
  with r(2) have "List.map (ep_packet ENDP1) qs = [data, []]" by simp
  with r(1) show ?thesis unfolding data_def by (intro exI conjI)
qed

end
