(* ===== verification/Usb_Cdc_Run.thy ===== *)
theory Usb_Cdc_Run
  imports Usb_Cdc_Rx Usb_Cdc_Send
begin

text \<open>
  The virtual serial port as a whole: which changes of its state wake the threads that wait for
  them, and an invariant of every sequence of events and calls.
\<close>

unbundle bit_operations_syntax

section \<open>Changes and signals\<close>

text \<open>What the calls of the application wait for.\<close>

definition awaited :: "(tty \<Rightarrow> bool) set" where
  "awaited = {\<lambda>t. device_state t = USB_DEVICE_STATE_CONFIGURED, flag_connected, \<lambda>t. check_tx t \<noteq> 0, check_rx}"

definition told :: "tty \<Rightarrow> tty \<Rightarrow> bool" where
  "told t t' \<longleftrightarrow> cnd_signals t < cnd_signals t' \<or>
     cnd_signals t = cnd_signals t' \<and> device_state t' = device_state t \<and> flag_connected t' = flag_connected t \<and>
     (flag_send_ready t' \<longrightarrow> flag_send_ready t) \<and> flag_input_avail t' = flag_input_avail t"

lemma told_refl [simp]: "told t t"
  by (simp add: told_def)

lemma told_trans: "told t u \<Longrightarrow> told u v \<Longrightarrow> told t v"
  by (auto simp: told_def)

lemma told_awaited: "told t t' \<Longrightarrow> P \<in> awaited \<Longrightarrow> \<not> P t \<Longrightarrow> P t' \<Longrightarrow> cnd_signals t < cnd_signals t'"
  by (auto simp: told_def awaited_def check_tx_def check_rx_def split: if_splits)

lemma echo_char_same: "tty_echo_char c t = Some u \<Longrightarrow> same_but_echo t u"
  by (cases "ucast (send_head t) = ring_next (send_tail t)")
    (auto simp: tty_echo_char_def put_char_to_ringbuffer_def Let_def bind_eq_Some_conv same_but_echo_def)

lemma echo_chars_same: "echo_chars cs t = Some t' \<Longrightarrow> same_but_echo t t'"
proof (induction cs arbitrary: t)
  case (Cons c cs)
  then obtain u where u: "tty_echo_char c t = Some u" "echo_chars cs u = Some t'"
    by (auto simp: bind_eq_Some_conv)
  then have "same_but_echo t u" by (auto dest: echo_char_same)
  then show ?case using Cons.IH [OF u(2)] by (rule same_but_echo_trans)
qed simp

lemma input_char_told:
  assumes "tty_input_char c t = Some (r, t')"
  shows "told t t'"
  using assms
  by (auto simp: tty_input_char_def bind_eq_Some_conv told_def cond_signal_def same_but_echo_def
      simp del: echo_chars.simps split: if_splits dest!: echo_chars_same echo_char_same)

lemma rx_chars_told: "rx_chars cs t = Some t' \<Longrightarrow> told t t'"
  by (induction cs arbitrary: t)
    (auto simp: bind_eq_Some_conv split: if_splits dest!: input_char_told intro: told_trans)

lemma get_chars_head: "get_chars_from_ringbuffer n t = Some (l, t') \<Longrightarrow> \<exists>h. t' = t\<lparr>send_head := h\<rparr>"
proof -
  have loop: "get_chars_loop n t = Some (l, t') \<Longrightarrow> \<exists>h. t' = t\<lparr>send_head := h\<rparr>" for n t l t'
  proof (induction n t arbitrary: l t' rule: get_chars_loop.induct)
    case (1 len t)
    from 1(2) obtain c where c: "load_at (send_buf t) (send_head t) = Some c"
      by (subst (asm) get_chars_loop.simps) (auto split: option.splits)
    define u where "u = t\<lparr>send_head := ucast (ring_next (send_head t))\<rparr>"
    show ?case
    proof (cases "send_head u \<noteq> send_tail u \<and> 1 < len")
      case True
      then obtain cs where "get_chars_loop (len - 1) u = Some (cs, t')"
        using 1(2) by (subst (asm) get_chars_loop.simps)
          (auto simp: c Let_def u_def [symmetric] split: option.splits)
      from 1(1) [OF c u_def True this] show ?thesis by (auto simp: u_def)
    next
      case False
      then have "t' = u" using 1(2) by (subst (asm) get_chars_loop.simps)
          (simp add: c Let_def u_def [symmetric] split: if_splits)
      then show ?thesis by (auto simp: u_def)
    qed
  qed
  assume "get_chars_from_ringbuffer n t = Some (l, t')"
  then show ?thesis
    by (auto simp: get_chars_from_ringbuffer_def split: if_splits intro: loop exI [of _ "send_head t"])
qed

lemma echo_told: "tty_echo hw c = Some c' \<Longrightarrow> told (tty0 c) (tty0 c')"
  by (auto simp: tty_echo_def Let_def bind_eq_Some_conv upd_drv_def upd_tty_def told_def
      split: if_splits dest!: get_chars_head)

lemma tx_done_told: "told (tty0 c) (tty0 (usb_tx_done ep c))"
  by (simp add: usb_tx_done_def upd_tty_def told_def cond_signal_def)

lemma rx_ready_told: "usb_rx_ready hw ep len c = Some c' \<Longrightarrow> told (tty0 c) (tty0 c')"
  by (auto simp: usb_rx_ready_def upd_drv_def bind_eq_Some_conv split: if_splits dest!: rx_chars_told)

lemma lld_tty [simp]: "lld f c = Some c' \<Longrightarrow> tty0 c' = tty0 c"
  by (auto simp: lld_def upd_drv_def)

lemma told_if: "told t (tty0 x) \<Longrightarrow> told t (tty0 y) \<Longrightarrow> told t (tty0 (if b then x else y))"
  by simp

lemma dispatch_told:
  assumes "ev \<noteq> event_no USB_EVENT_DEVICE_RESET"
  shows "told (tty0 c) (tty0 (tty_dispatch hw keep ev c))"
proof -
  have conf: "told (tty0 c) (tty0 (configure hw keep k stop st c))" for k stop st
    by (simp add: configure_def Let_def upd_drv_def upd_tty_def told_def cond_signal_def)
  have err: "told (tty0 c) (tty0 (or_error hw f c))"
    if "\<And>c'. f c = Some c' \<Longrightarrow> told (tty0 c) (tty0 c')" for f
    using that by (auto simp: or_error_def upd_drv_def split: option.split)
  have "told (tty0 c) (tty0 c')" if "usb_set_configuration hw keep c = Some c'" for c'
    using that conf by (auto simp: usb_set_configuration_def Let_def split: if_splits dest!: lld_tty)
  moreover have "told (tty0 c) (tty0 c')" if "usb_set_interface hw keep c = Some c'" for c'
    using that by (auto simp: usb_set_interface_def Let_def upd_drv_def split: if_splits dest!: lld_tty)
  moreover have "told (tty0 c) (tty0 c')" if "usb_get_interface hw c = Some c'" for c'
    using that by (auto simp: usb_get_interface_def upd_drv_def split: if_splits dest!: lld_tty)
  moreover have "told (tty0 c) (tty0 c')" if "usb_get_status_interface hw c = Some c'" for c'
    using that by (auto simp: usb_get_status_interface_def upd_drv_def split: if_splits dest!: lld_tty)
  moreover have "told (tty0 c) (tty0 c')" if "usb_get_descriptor hw c = Some c'" for c'
    using that by (auto simp: usb_get_descriptor_eq split: if_splits option.splits dest!: lld_tty)
  moreover have "told (tty0 c) (tty0 c')" if "usb_setup hw c = Some c'" for c'
    using that by (auto simp: usb_setup_def vcom_port_data_setup_def Let_def split: if_splits dest!: lld_tty)
  moreover have "told (tty0 c) (tty0 (usb_ctrl_write_finish c))"
    by (simp add: usb_ctrl_write_finish_def Let_def upd_tty_def told_def cond_signal_def)
  ultimately show ?thesis
    unfolding tty_dispatch_def if_not_P [OF assms]
    by (intro told_if err) (simp_all add: upd_tty_def upd_drv_def told_def cond_signal_def)
qed

lemma round_told:
  assumes "tty_main_round hw keep ready c = Some c'"
    and "ready \<Longrightarrow> USB_EVENT_ID (fst (usb_lld_event_handler hw (drv c))) \<noteq> event_no USB_EVENT_DEVICE_RESET"
  shows "told (tty0 c) (tty0 c')"
proof (cases ready)
  case False
  then show ?thesis using assms(1) by (simp add: tty_main_round_def echo_told)
next
  case True
  obtain e s where e: "usb_lld_event_handler hw (drv c) = (e, s)" by force
  define d where "d = c\<lparr>drv := s\<rparr>"
  have d: "tty0 d = tty0 c" by (simp add: d_def)
  have tx: "told (tty0 c) (tty0 c')" if "tty_echo hw (usb_tx_done ep d) = Some c'" for ep
    using told_trans [OF tx_done_told echo_told [OF that]] by (simp add: d)
  have rx: "told (tty0 c) (tty0 c')" if "usb_rx_ready hw ep l d = Some u" "tty_echo hw u = Some c'" for ep l u
    using told_trans [OF rx_ready_told [OF that(1)] echo_told [OF that(2)]] by (simp add: d)
  show ?thesis
    using assms True dispatch_told [of "USB_EVENT_ID e" d hw keep]
    by (auto simp: tty_main_round_def e Let_def d_def [symmetric] d bind_eq_Some_conv split: if_splits intro: tx rx)
qed

text \<open>
  C38: No change that a thread waits for goes unsignalled, but for a reset. In a round of tty_main that
  does not handle a USB reset, whenever the device becomes configured, the line is opened, the
  sender may go on or the receiver has something to learn, the condition variable is signalled. A
  reset closes the line, which ends the wait of tty_recv and of tty_send, and does not signal it.
\<close>

theorem changes_are_signalled:
  assumes "tty_main_round hw keep ready c = Some c'"
    and "ready \<Longrightarrow> USB_EVENT_ID (fst (usb_lld_event_handler hw (drv c))) \<noteq> event_no USB_EVENT_DEVICE_RESET"
    and "P \<in> awaited" "\<not> P (tty0 c)" "P (tty0 c')"
  shows "cnd_signals (tty0 c) < cnd_signals (tty0 c') \<and>
    (let r = tty0 (usb_device_reset hw keep d)
     in check_rx r \<and> check_tx r \<noteq> 0 \<and> cnd_signals r = cnd_signals (tty0 d))"
  using told_awaited [OF round_told [OF assms(1,2)] assms(3-5)]
  by (simp add: usb_device_reset_def Let_def upd_drv_def upd_tty_def reset_tty_def check_rx_def check_tx_def)

text \<open>The host sets DTR in a device whose line is closed; the status stage has just ended.\<close>

definition dtr_set :: cdc where
  "dtr_set = terminal\<lparr>tty0 := (tty0 terminal)\<lparr>flag_connected := False\<rparr>,
     drv := (drv terminal)\<lparr>ISTR := ISTR_CTR, EPREG := (\<lambda>_. 0)(0 := EP_CTR_TX),
       dev := (dev (drv terminal))\<lparr>dev_state := WAIT_STATUS_IN,
         dev_req := \<lparr>req_type = 0x21, req_request = 0x22, req_value = 1, req_index = 0, req_len = 0\<rparr>\<rparr>\<rparr>\<rparr>"

lemma dtr_set_event: "fst (usb_lld_event_handler stm32_hw (drv dtr_set)) = 0x0e000000"
  "dev (snd (usb_lld_event_handler stm32_hw (drv dtr_set))) = (dev (drv dtr_set))\<lparr>dev_state := WAIT_SETUP\<rparr>"
  by (simp_all add: usb_lld_event_handler_def dtr_set_def terminal_def reset_usb_def ISTR_CTR_def ISTR_RESET_def
      ISTR_WKUP_def ISTR_SUSP_def ISTR_OVR_def ISTR_ERR_def ISTR_EP_ID_def usb_handle_transfer_def Let_def
      st103_get_epreg_def EP_CTR_TX_def handle_in0_def usb_frame SET_ADDRESS_def USB_MAKE_EV_def push_bit_eq_mult)

lemma dtr_set_round: "\<exists>c'. tty_main_round stm32_hw False True dtr_set = Some c' \<and> flag_connected (tty0 c')"
proof -
  obtain s where e: "usb_lld_event_handler stm32_hw (drv dtr_set) = (0x0e000000, s)"
    "dev s = (dev (drv dtr_set))\<lparr>dev_state := WAIT_SETUP\<rparr>"
    using dtr_set_event by (cases "usb_lld_event_handler stm32_hw (drv dtr_set)") auto
  have "USB_EVENT_ENDP 0x0e000000 = 0" "USB_EVENT_ID 0x0e000000 = 14"
    by (simp_all add: USB_EVENT_ENDP_def USB_EVENT_ID_def drop_bit_eq_div)
  moreover have "dev_req (dev s) = \<lparr>req_type = 0x21, req_request = 0x22, req_value = 1, req_index = 0, req_len = 0\<rparr>"
    by (simp add: e dtr_set_def terminal_def reset_usb_def)
  ultimately show ?thesis
    by (simp add: tty_main_round_def e(1) tty_dispatch_def usb_ctrl_write_finish_def Let_def vcom_request_def
        REQUEST_TYPE_def RECIPIENT_def CLASS_REQUEST_def USB_SETUP_SET_def REQUEST_DIR_def
        USB_CDC_REQ_SET_CONTROL_LINE_STATE_def upd_tty_def cond_signal_def CDC_CTRL_DTR_def)
qed

theorem changes_are_signalled_witness:
  "\<exists>c'. tty_main_round stm32_hw False True dtr_set = Some c' \<and> 0 < cnd_signals (tty0 c')"
proof -
  from dtr_set_round obtain c' where c': "tty_main_round stm32_hw False True dtr_set = Some c'"
    "flag_connected (tty0 c')" by blast
  have "USB_EVENT_ID (fst (usb_lld_event_handler stm32_hw (drv dtr_set))) \<noteq> event_no USB_EVENT_DEVICE_RESET"
    by (simp add: dtr_set_event USB_EVENT_ID_def drop_bit_eq_div)
  moreover have "flag_connected \<in> awaited" "\<not> flag_connected (tty0 dtr_set)"
    by (simp_all add: awaited_def dtr_set_def)
  ultimately have "cnd_signals (tty0 dtr_set) < cnd_signals (tty0 c')"
    using changes_are_signalled [where P = flag_connected, OF c'(1) _ _ _ c'(2)] by blast
  with c'(1) show ?thesis by (auto simp: dtr_set_def terminal_def)
qed

section \<open>What the driver reports\<close>

text \<open>
  A request to set the address is only carried out in the unconfigured device, so that the event that
  the device has an address comes only then.
\<close>

definition address_request :: "usb_dev \<Rightarrow> bool" where
  "address_request d \<longleftrightarrow> req_request (dev_req d) = SET_ADDRESS \<and>
     req_type (dev_req d) AND (REQUEST_TYPE OR RECIPIENT) = STANDARD_REQUEST OR 0"

definition addr_ok :: "usb_dev \<Rightarrow> bool" where
  "addr_ok d \<longleftrightarrow> (address_request d \<and> dev_state d \<in> {WAIT_STATUS_IN, OUT_DATA} \<longrightarrow> configuration d = 0)"

definition same_conf :: "usb \<Rightarrow> usb \<Rightarrow> bool" where
  "same_conf s s' \<longleftrightarrow> configuration (dev s') = configuration (dev s) \<and> dev_req (dev s') = dev_req (dev s)"

lemma same_conf_refl [simp]: "same_conf s s"
  by (simp add: same_conf_def)

lemma same_conf_ctrl [simp]:
  "same_conf s (usb_lld_ctrl_error hw s)" "same_conf s (snd (usb_lld_ctrl_ack hw s))"
  "same_conf s (send_part len s)" "same_conf s (snd (usb_lld_ctrl_send hw b l s))"
  "same_conf s (snd (usb_lld_ctrl_recv hw b l s))"
  "same_conf s (handle_datastage_out hw s)" "same_conf s (handle_datastage_in hw s)"
  by (simp_all add: same_conf_def usb_lld_ctrl_error_def usb_lld_ctrl_ack_def send_part_def usb_lld_ctrl_send_def
      usb_lld_ctrl_recv_def handle_datastage_out_def handle_datastage_in_def Let_def usb_frame
      split: prod.split if_split)

lemma same_conf_pair:
  "usb_lld_ctrl_send hw b l s = (e, s') \<Longrightarrow> same_conf s s'" "usb_lld_ctrl_ack hw s = (e, s') \<Longrightarrow> same_conf s s'"
  by (metis same_conf_ctrl(4) snd_conv) (metis same_conf_ctrl(2) snd_conv)

lemma same_conf_simple:
  "same_conf s (set_mem p v s)" "same_conf s (set_mem16 p w s)" "same_conf s (set_feature_bits f s)"
  "same_conf s (st103_set_istr hw w s)" "same_conf s (st103_ep_clear_ctr_rx hw ep s)"
  "same_conf s (st103_ep_clear_ctr_tx hw ep s)" "same_conf s (st103_ep_set_tx_status hw ep st s)"
  "same_conf s (st103_ep_set_rx_status hw ep st s)" "same_conf s (st103_ep_set_rxtx_status hw ep st st' s)"
  "same_conf s (st103_ep_clear_dtog_rx hw ep s)" "same_conf s (st103_ep_clear_dtog_tx hw ep s)"
  by (simp_all add: same_conf_def set_mem16_def usb_frame set_feature_bits_def ep_ops Let_def)

lemma same_conf_trans: "same_conf s t \<Longrightarrow> same_conf t u \<Longrightarrow> same_conf s u"
  by (simp add: same_conf_def)

lemma same_conf_std:
  assumes "std_request hw r s = Some (e, s')"
  shows "same_conf s s'"
proof -
  have status: "send_status hw w s = Some (e, s') \<Longrightarrow> same_conf s s'" for w
    by (auto simp: send_status_def dest!: same_conf_pair(1) intro: same_conf_trans [OF same_conf_simple(2)])
  show ?thesis
    using assms unfolding std_request_def
    by (auto simp: std_get_status_def std_clear_feature_def std_set_feature_def std_set_address_def
        std_get_descriptor_def std_get_configuration_def std_set_configuration_def std_get_interface_def
        std_set_interface_def std_none_def Let_def same_conf_simple
        split: if_splits recipient.splits
        intro: status same_conf_pair(2) same_conf_trans [OF same_conf_simple(1) same_conf_pair(1)])
qed

lemma handle_in0_conf:
  assumes "handle_in0 hw s = (ev, s')" "addr_ok (dev s)"
  shows "same_conf s s'" "addr_ok (dev s')" "ev \<in> {USB_EVENT_OK, USB_EVENT_DEVICE_ADDRESSED, USB_EVENT_CTRL_WRITE_FINISH}"
    "ev = USB_EVENT_DEVICE_ADDRESSED \<Longrightarrow> configuration (dev s') = 0"
proof -
  have st: "dev_state (dev (handle_datastage_in hw s)) \<notin> {WAIT_STATUS_IN, OUT_DATA}"
    by (auto simp: handle_datastage_in_def Let_def usb_frame send_part_def)
  have d: "addr_ok (dev (handle_datastage_in hw s))" using st by (simp add: addr_ok_def)
  show "same_conf s s'"
    using assms(1) by (auto simp: handle_in0_def Let_def same_conf_def [of s "set_dev_state _ _"] usb_frame
        st103_set_daddr_def same_conf_def split: if_splits)
      (use same_conf_ctrl(7) [of s hw] in \<open>auto simp: same_conf_def\<close>)
  show "addr_ok (dev s')"
    using assms d by (auto simp: handle_in0_def Let_def addr_ok_def usb_frame st103_set_daddr_def split: if_splits)
  show "ev \<in> {USB_EVENT_OK, USB_EVENT_DEVICE_ADDRESSED, USB_EVENT_CTRL_WRITE_FINISH}"
    using assms(1) by (auto simp: handle_in0_def Let_def split: if_splits)
  show "ev = USB_EVENT_DEVICE_ADDRESSED \<Longrightarrow> configuration (dev s') = 0"
    using assms by (auto simp: handle_in0_def Let_def addr_ok_def address_request_def usb_frame st103_set_daddr_def
        split: if_splits)
qed

lemma handle_out0_conf:
  assumes "addr_ok (dev s)"
  shows "same_conf s (handle_out0 hw s)" "addr_ok (dev (handle_out0 hw s))"
proof -
  show c: "same_conf s (handle_out0 hw s)"
    using same_conf_ctrl(6) [of s hw] by (simp add: handle_out0_def Let_def same_conf_def usb_frame)
  show "addr_ok (dev (handle_out0 hw s))"
    using c assms by (auto simp: addr_ok_def address_request_def same_conf_def) (auto simp: handle_out0_def Let_def usb_frame
        split: if_splits)
qed

lemma address_request_standard: "address_request d \<Longrightarrow> req_type (dev_req d) AND REQUEST_TYPE = STANDARD_REQUEST"
proof -
  assume "address_request d"
  then have z: "req_type (dev_req d) AND (REQUEST_TYPE OR RECIPIENT) = 0"
    by (simp add: address_request_def STANDARD_REQUEST_def)
  have "bit (req_type (dev_req d) AND REQUEST_TYPE) n = bit (0 :: u8) n" for n
    using arg_cong [OF z, of "\<lambda>w. bit w n"] by (auto simp: bit_and_iff bit_or_iff)
  then show ?thesis unfolding STANDARD_REQUEST_def by (rule bit_eqI)
qed

lemma ctrl_event: "usb_lld_ctrl_send hw b l s = (e, s') \<Longrightarrow> e = USB_EVENT_OK"
  "usb_lld_ctrl_ack hw s = (e, s') \<Longrightarrow> e = USB_EVENT_OK"
  by (auto simp: usb_lld_ctrl_send_def usb_lld_ctrl_ack_def Let_def split: prod.splits)

lemma std_event:
  assumes "std_request hw r s = Some (ev, s')"
  shows "ev \<notin> {USB_EVENT_DEVICE_ADDRESSED, USB_EVENT_DEVICE_RESET, USB_EVENT_CTRL_WRITE_FINISH}"
  using assms unfolding std_request_def
  by (auto simp: std_get_status_def std_clear_feature_def std_set_feature_def std_set_address_def send_status_def
      std_get_descriptor_def std_get_configuration_def std_set_configuration_def std_get_interface_def
      std_set_interface_def std_none_def Let_def split: if_splits recipient.splits dest: ctrl_event)

lemma handle_setup0_conf:
  assumes "handle_setup0 hw s = (ev, s')"
  shows "configuration (dev s') = configuration (dev s)" "addr_ok (dev s')"
    "address_request (dev s') \<Longrightarrow> ev = USB_EVENT_OK"
    "ev \<notin> {USB_EVENT_DEVICE_ADDRESSED, USB_EVENT_DEVICE_RESET, USB_EVENT_CTRL_WRITE_FINISH}"
proof -
  define t where "t = set_ctrl_data \<lparr>cd_addr = 0, cd_len = 0, cd_require_zlp = 0\<rparr>
    (s\<lparr>dev := (dev s)\<lparr>dev_req := read_setup s\<rparr>\<rparr>)"
  have t: "configuration (dev t) = configuration (dev s)" by (simp add: t_def usb_frame)
  consider (other) "req_type (dev_req (dev t)) AND REQUEST_TYPE \<noteq> STANDARD_REQUEST" "ev = USB_EVENT_CTRL_REQUEST" "s' = t"
    | (bad) "std_request hw (req_request (dev_req (dev t))) t = None" "ev = USB_EVENT_OK" "s' = usb_lld_ctrl_error hw t"
    | (std) "std_request hw (req_request (dev_req (dev t))) t = Some (ev, s')"
  proof -
    have "handle_setup0 hw s = (if req_type (dev_req (dev t)) AND REQUEST_TYPE = STANDARD_REQUEST then
        (case std_request hw (req_request (dev_req (dev t))) t of
           None \<Rightarrow> (USB_EVENT_OK, usb_lld_ctrl_error hw t) | Some r \<Rightarrow> r) else (USB_EVENT_CTRL_REQUEST, t))"
      by (simp only: handle_setup0_def Let_def t_def)
    then show thesis using assms that by (auto split: if_splits option.splits)
  qed
  then have "configuration (dev s') = configuration (dev t) \<and> addr_ok (dev s') \<and>
      (address_request (dev s') \<longrightarrow> ev = USB_EVENT_OK) \<and>
      ev \<notin> {USB_EVENT_DEVICE_ADDRESSED, USB_EVENT_DEVICE_RESET, USB_EVENT_CTRL_WRITE_FINISH}"
  proof cases
    case other
    then show ?thesis using address_request_standard [of "dev t"] by (auto simp: addr_ok_def)
  next
    case bad
    have "dev_state (dev s') = STALLED" by (simp add: bad usb_lld_ctrl_error_def usb_frame)
    then show ?thesis using bad same_conf_ctrl(1) [of t hw] by (simp add: addr_ok_def same_conf_def)
  next
    case std
    note c = same_conf_std [OF std]
    have five: "ev = USB_EVENT_OK \<and> configuration (dev t) = 0" if "req_request (dev_req (dev t)) = 5"
      using std that by (auto simp: std_request_def std_set_address_def usb_lld_ctrl_ack_def Let_def split: if_splits)
    have "ev \<notin> {USB_EVENT_DEVICE_ADDRESSED, USB_EVENT_DEVICE_RESET, USB_EVENT_CTRL_WRITE_FINISH}"
      using std_event [OF std] .
    then show ?thesis
      using five c by (auto simp: addr_ok_def address_request_def SET_ADDRESS_def same_conf_def)
  qed
  then show "configuration (dev s') = configuration (dev s)" "addr_ok (dev s')"
    "address_request (dev s') \<Longrightarrow> ev = USB_EVENT_OK"
    "ev \<notin> {USB_EVENT_DEVICE_ADDRESSED, USB_EVENT_DEVICE_RESET, USB_EVENT_CTRL_WRITE_FINISH}"
    by (simp_all add: t)
qed

text \<open>The handler as a whole: which event it reports, and what it leaves alone.\<close>

definition reports :: "usb \<Rightarrow> usb_event \<Rightarrow> usb \<Rightarrow> bool" where
  "reports s ev s' \<longleftrightarrow> configuration (dev s') = configuration (dev s) \<and> addr_ok (dev s') \<and>
    (ev = USB_EVENT_DEVICE_ADDRESSED \<longrightarrow> configuration (dev s') = 0) \<and>
    (address_request (dev s') \<longrightarrow> ev \<in> {USB_EVENT_OK, USB_EVENT_DEVICE_RESET, USB_EVENT_DEVICE_SUSPEND,
       USB_EVENT_DEVICE_WAKEUP, USB_EVENT_CTRL_WRITE_FINISH, USB_EVENT_DEVICE_ADDRESSED})"

lemma reports_idle: "addr_ok (dev s) \<Longrightarrow> dev t = dev s \<Longrightarrow> \<exists>ev. USB_EVENT_ID 0 = event_no ev \<and> reports s ev t"
  by (intro exI [of _ USB_EVENT_OK]) (simp add: reports_def USB_EVENT_ID_def)

lemma event_conf:
  assumes h: "usb_lld_event_handler hw s = (e, s')" and ok: "addr_ok (dev s)"
  shows "\<exists>ev. USB_EVENT_ID e = event_no ev \<and> reports s ev s'"
proof -
  have id: "USB_EVENT_ID (USB_MAKE_EV ev) = event_no ev" for ev
    using events_roundtrip [of 0 False 0 ev] by blast
  have zero: "USB_EVENT_ID 0 = 0" by (simp add: USB_EVENT_ID_def)
  have same: "\<exists>ev. USB_EVENT_ID e = event_no ev \<and> reports s ev s'" if "dev s' = dev s" "USB_EVENT_ID e = event_no ev"
    "ev \<in> {USB_EVENT_OK, USB_EVENT_DEVICE_RESET, USB_EVENT_DEVICE_SUSPEND, USB_EVENT_DEVICE_WAKEUP}" for ev e s'
    using that ok by (intro exI [of _ ev]) (auto simp: reports_def)
  have transfer: "\<exists>ev. USB_EVENT_ID e = event_no ev \<and> reports s ev s'" if tr: "usb_handle_transfer hw w t = (e, s')" and t: "dev t = dev s" for w t
  proof -
    define ep where "ep = (ucast (w AND ISTR_EP_ID) :: u8)"
    have ep: "ep < 128"
    proof -
      have "unat (w AND ISTR_EP_ID) \<le> 15"
        using word_and_le1 [of w ISTR_EP_ID] by (simp add: ISTR_EP_ID_def word_le_nat_alt)
      then show ?thesis by (simp add: ep_def word_less_nat_alt unsigned_ucast_eq take_bit_nat_eq_self)
    qed
    consider (in0) ev where "e = USB_MAKE_EV ev" "handle_in0 hw (st103_ep_clear_ctr_tx hw 0 t) = (ev, s')"
      | (setup0) ev where "e = USB_MAKE_EV ev" "handle_setup0 hw (st103_ep_clear_ctr_rx hw 0 t) = (ev, s')"
      | (out0) "e = 0" "s' = handle_out0 hw (st103_ep_clear_ctr_rx hw 0 t)"
      | (none) "USB_EVENT_ID e = 0" "dev s' = dev t"
      using tr events_roundtrip [of ep _ _ USB_EVENT_OK, THEN conjunct1, rule_format, OF ep] zero
      by (auto simp: usb_handle_transfer_def Let_def ep_def [symmetric] usb_frame
          split: if_splits prod.splits)
    then show ?thesis
    proof cases
      case in0
      note c = handle_in0_conf [OF in0(2), unfolded usb_frame t, OF ok]
      then show ?thesis by (intro exI [of _ ev]) (auto simp: reports_def in0(1) id same_conf_def usb_frame t)
    next
      case setup0
      note c = handle_setup0_conf [OF setup0(2), unfolded usb_frame t]
      then show ?thesis by (intro exI [of _ ev]) (auto simp: reports_def setup0(1) id)
    next
      case out0
      have "addr_ok (dev (st103_ep_clear_ctr_rx hw 0 t))" using ok by (simp add: usb_frame t)
      from handle_out0_conf [OF this, of hw] show ?thesis
        by (intro exI [of _ USB_EVENT_OK]) (auto simp: reports_def out0 zero same_conf_def usb_frame t)
    next
      case none
      then show ?thesis by (intro same [of _ _ USB_EVENT_OK]) (simp_all add: t)
    qed
  qed
  show ?thesis
    using h ok unfolding usb_lld_event_handler_def Let_def
    by (auto simp: usb_frame id split: if_splits intro!: transfer reports_idle
        intro: same [of _ _ USB_EVENT_DEVICE_RESET]
          same [of _ _ USB_EVENT_DEVICE_SUSPEND] same [of _ _ USB_EVENT_DEVICE_WAKEUP])
qed

section \<open>An invariant\<close>

definition conf_ok :: "cdc \<Rightarrow> bool" where
  "conf_ok c \<longleftrightarrow> (device_state (tty0 c) = USB_DEVICE_STATE_CONFIGURED \<longleftrightarrow> configuration (dev (drv c)) \<noteq> 0)"

definition cdc_inv :: "cdc \<Rightarrow> bool" where
  "cdc_inv c \<longleftrightarrow> line_ok (tty0 c) \<and> conf_ok c \<and> addr_ok (dev (drv c)) \<and> rx_inv c"

text \<open>Steps that keep the line and the configuration, and those that keep all but the echo ring and the flags.\<close>

lemma line_ok_flags [simp]:
  "line_ok (t\<lparr>device_state := st\<rparr>) = line_ok t" "line_ok (t\<lparr>flag_connected := b\<rparr>) = line_ok t"
  "line_ok (t\<lparr>flag_send_ready := b\<rparr>) = line_ok t" "line_ok (t\<lparr>cnd_signals := k\<rparr>) = line_ok t"
  by (simp_all add: line_ok_def ring_ok_def)

lemma line_ok_signal [simp]: "line_ok (cond_signal t) = line_ok t"
  by (simp add: cond_signal_def)

definition quiet :: "cdc \<Rightarrow> cdc \<Rightarrow> bool" where
  "quiet c c' \<longleftrightarrow> tty0 c' = tty0 c \<and> same_conf (drv c) (drv c') \<and> rx_calm (drv c) (drv c')"

lemma rx_calm_ctrl [simp]:
  "rx_calm s (usb_lld_ctrl_error hw s)" "rx_calm s (snd (usb_lld_ctrl_ack hw s))"
  "rx_calm s (snd (usb_lld_ctrl_send hw b l s))" "rx_calm s (snd (usb_lld_ctrl_recv hw b l s))"
  "rx_calm s (set_mem p v s)" "rx_calm s (set_mem16 p w s)"
  by (rule rx_calm_same, simp add: usb_frame)+

lemma quiet_lld:
  "lld f c = Some c' \<Longrightarrow> same_conf (drv c) (snd (f (drv c))) \<Longrightarrow> rx_calm (drv c) (snd (f (drv c))) \<Longrightarrow> quiet c c'"
  by (auto simp: lld_def upd_drv_def quiet_def)

lemma quiet_trans: "quiet c d \<Longrightarrow> quiet d e \<Longrightarrow> quiet c e"
  by (auto simp: quiet_def same_conf_def intro: rx_calm_trans)

lemma quiet_drv: "same_conf (drv c) (f (drv c)) \<Longrightarrow> rx_calm (drv c) (f (drv c)) \<Longrightarrow> quiet c (upd_drv f c)"
  by (simp add: quiet_def upd_drv_def)

lemma quiet_inv: "quiet c c' \<Longrightarrow> cdc_inv c \<Longrightarrow> \<not> address_request (dev (drv c)) \<Longrightarrow> cdc_inv c'"
  by (auto simp: quiet_def cdc_inv_def conf_ok_def addr_ok_def address_request_def same_conf_def
      intro: rx_inv_calm)

lemma same_conf_setup_if:
  "same_conf s (vcom_setup_endpoints_for_interface hw keep i stop s)"
  by (simp add: vcom_setup_endpoints_for_interface_def same_conf_def Let_def usb_lld_stall_tx_def
      usb_lld_stall_rx_def usb_frame)

lemma rx_calm_setup_if:
  assumes "ep_write_law hw"
  shows "rx_calm s (vcom_setup_endpoints_for_interface hw keep i stop s)"
proof -
  have o: "rx_calm t (usb_lld_setup_endpoint hw keep e ty k ra ta sz t)" if "e \<noteq> ENDP3" for e ty k ra ta sz t
    by (rule rx_calm_same) (use that in \<open>simp add: setup_EPREG_other\<close>)
  note c = rx_calm_trans [OF o rx_calm_setup [OF assms only_bits_types(2)]]
    rx_calm_trans [OF rx_calm_ops(3) rx_calm_ops(4), OF assms assms] rx_calm_ops(3) [OF assms] o
  show ?thesis
    by (auto simp: vcom_setup_endpoints_for_interface_def usb_lld_stall_tx_def usb_lld_stall_rx_def
        Let_def intro!: c)
qed

lemma handlers_quiet:
  assumes "ep_write_law hw"
  shows "usb_get_descriptor hw c = Some c' \<Longrightarrow> quiet c c'"
  "usb_set_interface hw keep c = Some c' \<Longrightarrow> quiet c c'"
  "usb_get_interface hw c = Some c' \<Longrightarrow> quiet c c'"
  "usb_get_status_interface hw c = Some c' \<Longrightarrow> quiet c c'"
  "usb_setup hw c = Some c' \<Longrightarrow> quiet c c'"
  by (auto simp: usb_get_descriptor_eq usb_set_interface_def usb_get_interface_def usb_get_status_interface_def
      usb_setup_def vcom_port_data_setup_def Let_def split: if_splits option.splits
      intro: quiet_lld quiet_trans [OF quiet_drv quiet_lld] same_conf_setup_if same_conf_simple
      rx_calm_setup_if [OF assms])

lemma set_configuration_inv:
  assumes "usb_set_configuration hw keep c = Some c'" "cdc_inv c" "\<not> address_request (dev (drv c))"
    and law: "ep_write_law hw"
  shows "cdc_inv c'"
proof -
  have conf: "cdc_inv (configure hw keep k stop st c) \<and> \<not> address_request (dev (drv (configure hw keep k stop st c)))"
    if "st = USB_DEVICE_STATE_CONFIGURED \<longleftrightarrow> k \<noteq> 0" for k stop st
  proof -
    let ?d = "configure hw keep k stop st c"
    have d: "configuration (dev (drv ?d)) = k" "dev_req (dev (drv ?d)) = dev_req (dev (drv c))"
      "tty0 ?d = cond_signal ((tty0 c)\<lparr>device_state := st\<rparr>)"
      using same_conf_setup_if [of _ hw keep _ stop]
      by (simp_all add: configure_def Let_def upd_drv_def upd_tty_def same_conf_def usb_lld_set_configuration_def)
    then have "\<not> address_request (dev (drv ?d))" using assms(3) by (simp add: address_request_def)
    moreover have "rx_calm (drv c) (drv ?d)"
    proof -
      have "rx_calm (drv c) (usb_lld_set_configuration k (drv c))" by (rule rx_calm_same) simp
      from rx_calm_trans [OF rx_calm_trans [OF this rx_calm_setup_if [OF law]] rx_calm_setup_if [OF law]]
      show ?thesis by (simp add: configure_def Let_def upd_drv_def upd_tty_def)
    qed
    then have "rx_inv ?d"
      using assms(2) by (auto simp: cdc_inv_def d(3) cond_signal_def intro: rx_inv_calm)
    ultimately show ?thesis
      using that assms(2) by (simp add: cdc_inv_def conf_ok_def addr_ok_def d) (simp add: cond_signal_def)
  qed
  have ack: "cdc_inv c'" if "lld (usb_lld_ctrl_ack hw) d = Some c'" "cdc_inv d" "\<not> address_request (dev (drv d))" for d
    using quiet_inv [OF quiet_lld [OF that(1)]] that(2,3) by simp
  show ?thesis
    using assms by (auto simp: usb_set_configuration_def Let_def split: if_splits
        intro!: ack conf [THEN conjunct1] dest: conf [THEN conjunct2, THEN notE, rotated])
qed

lemma or_error_inv:
  assumes "\<And>c'. f c = Some c' \<Longrightarrow> cdc_inv c'" "cdc_inv c" "\<not> address_request (dev (drv c))"
  shows "cdc_inv (or_error hw f c)"
  using assms quiet_inv [OF quiet_drv [of c "usb_lld_ctrl_error hw"]]
  by (auto simp: or_error_def split: option.split)

lemma dispatch_inv:
  assumes law: "ep_write_law hw" and r: "reports s ev (drv c)" and c: "cdc_inv c"
  shows "cdc_inv (tty_dispatch hw keep (event_no ev) c)"
proof (cases "ev \<in> {USB_EVENT_OK, USB_EVENT_DEVICE_RESET, USB_EVENT_DEVICE_SUSPEND,
       USB_EVENT_DEVICE_WAKEUP, USB_EVENT_CTRL_WRITE_FINISH, USB_EVENT_DEVICE_ADDRESSED}")
  case False
  then have na: "\<not> address_request (dev (drv c))" using r by (auto simp: reports_def)
  note q = handlers_quiet [OF law, THEN quiet_inv, OF _ c na] set_configuration_inv [OF _ c na law]
  have "cdc_inv (upd_drv (\<lambda>s. snd (usb_lld_ctrl_ack hw s)) c)"
    by (rule quiet_inv [OF quiet_drv c na]) simp_all
  with False show ?thesis
    by (cases ev) (auto simp: tty_dispatch_def intro!: or_error_inv [OF _ c na] intro: q)
next
  case True
  have reset: "cdc_inv (usb_device_reset hw keep c)"
    using c by (intro cdc_inv_def [THEN iffD2] conjI rx_inv_empty; simp add: usb_device_reset_def Let_def upd_drv_def upd_tty_def cdc_inv_def conf_ok_def addr_ok_def
        store_bytes_def reset_tty_def usb_lld_reset_def usb_lld_set_configuration_def set_feature_bits_def
        st103_set_daddr_def line_ok_def ring_ok_def)
  have rx: "rx_inv (c\<lparr>tty0 := t\<rparr>)" if "inputline_len t = inputline_len (tty0 c)"
    "flag_input_avail t = flag_input_avail (tty0 c)" for t
    using c that by (auto simp: cdc_inv_def intro: rx_inv_calm [of c])
  have finish: "cdc_inv (usb_ctrl_write_finish c)"
    using c by (simp add: usb_ctrl_write_finish_def Let_def upd_tty_def cdc_inv_def conf_ok_def)
      (simp add: cond_signal_def rx)
  have addressed: "cdc_inv (upd_tty (\<lambda>t. cond_signal (t\<lparr>device_state := USB_DEVICE_STATE_ADDRESSED\<rparr>)) c)"
    if "configuration (dev (drv c)) = 0"
    using c that by (simp add: upd_tty_def cdc_inv_def conf_ok_def) (simp add: cond_signal_def rx)
  have "ev = USB_EVENT_DEVICE_ADDRESSED \<Longrightarrow> configuration (dev (drv c)) = 0"
    using r unfolding reports_def by blast
  with True show ?thesis
    by (elim insertE emptyE) (simp_all add: tty_dispatch_def c reset finish addressed)
qed

lemma tty_echo_inv:
  assumes "cdc_inv c"
  shows "\<exists>c'. tty_echo hw c = Some c' \<and> cdc_inv c'"
proof (cases "device_state (tty0 c) = USB_DEVICE_STATE_CONFIGURED \<and> flag_connected (tty0 c) \<and> flag_send_ready (tty0 c)")
  case False
  then show ?thesis using assms by (auto simp: tty_echo_def Let_def)
next
  case True
  have "ring_ok (tty0 c)" using assms by (simp add: cdc_inv_def line_ok_def)
  from get_chars_ok [OF this, of 4] obtain h l where
    h: "get_chars_from_ringbuffer 4 (tty0 c) = Some (l, (tty0 c)\<lparr>send_head := h\<rparr>)" "ring_ok ((tty0 c)\<lparr>send_head := h\<rparr>)"
    by auto
  have l: "line_ok ((tty0 c)\<lparr>send_head := h\<rparr>)" using h(2) assms by (simp add: cdc_inv_def line_ok_def)
  have rx: "rx_inv d" if "EPREG (drv d) ENDP3 = EPREG (drv c) ENDP3" "inputline_len (tty0 d) = inputline_len (tty0 c)"
    "flag_input_avail (tty0 d) = flag_input_avail (tty0 c)" for d
    using assms that by (auto simp: cdc_inv_def intro: rx_inv_calm [of c] rx_calm_same)
  show ?thesis
    using assms l True by (simp add: tty_echo_def Let_def h(1) cdc_inv_def conf_ok_def upd_drv_def upd_tty_def
        store_bytes_def usb_lld_txcpy_def usb_lld_tx_enable_def usb_frame rx)
qed

lemma tx_done_inv: "cdc_inv c \<Longrightarrow> cdc_inv (usb_tx_done ep c)"
  by (simp add: usb_tx_done_def upd_tty_def cdc_inv_def conf_ok_def)
    (auto simp: cond_signal_def intro: rx_inv_calm [of c])

text \<open>The length of a packet is at most the size that the descriptor of endpoint 3 announces.\<close>

definition packet_fits :: "u32 \<Rightarrow> bool" where
  "packet_fits e \<longleftrightarrow> (rx_event e \<longrightarrow> ucast (USB_EVENT_LEN e) \<le> (64 :: u16))"

lemma round_inv:
  assumes law: "ep_write_law hw" and c: "cdc_inv c"
    and fits: "ready \<Longrightarrow> packet_fits (fst (usb_lld_event_handler hw (drv c)))"
  shows "\<exists>c'. tty_main_round hw keep ready c = Some c' \<and> cdc_inv c'"
proof (cases ready)
  case False
  then show ?thesis using tty_echo_inv [OF c] by (simp add: tty_main_round_def)
next
  case True
  obtain e s where e: "usb_lld_event_handler hw (drv c) = (e, s)" by force
  define d where "d = c\<lparr>drv := s\<rparr>"
  have "addr_ok (dev (drv c))" using c by (simp add: cdc_inv_def)
  from event_conf [OF e this] obtain ev where ev: "USB_EVENT_ID e = event_no ev" "reports (drv c) ev s" by blast
  note rx = event_rx [OF law e]
  have d: "tty0 d = tty0 c" "drv d = s" "d\<lparr>drv := drv c\<rparr> = c" by (simp_all add: d_def)
  have "rx_inv d" using c rx by (auto simp: cdc_inv_def d intro: rx_inv_calm [of c])
  then have dinv: "cdc_inv d" using c ev(2) by (auto simp: d cdc_inv_def conf_ok_def reports_def)
  define ep where "ep = (ucast (USB_EVENT_ENDP e) :: u8)"
  have ready: "\<exists>c'. usb_rx_ready hw ep (ucast (USB_EVENT_LEN e)) d = Some c' \<and> cdc_inv c'" if "USB_EVENT_TXRX e = 0"
  proof (cases "ep = ENDP3")
    case False
    then show ?thesis using dinv by (simp add: usb_rx_ready_def)
  next
    case ep3: True
    then have r: "rx_event e" using that by (simp add: rx_event_def ep_def)
    have "line_ok (tty0 d)" "rx_inv (d\<lparr>drv := drv c\<rparr>)" using c dinv d(3) by (simp_all add: cdc_inv_def)
    from rx_ready_rx [OF law this(1) _ this(2), of "ucast (USB_EVENT_LEN e)"] rx r fits [OF True]
    obtain c' where "usb_rx_ready hw ENDP3 (ucast (USB_EVENT_LEN e)) d = Some c'" "line_ok (tty0 c')"
      "same_flags (tty0 d) (tty0 c')" "dev (drv c') = dev (drv d)" "rx_inv c'"
      by (auto simp: d packet_fits_def e)
    then show ?thesis using dinv ep3 by (intro exI [of _ c']) (simp add: cdc_inv_def conf_ok_def same_flags_def)
  qed
  have disp: "cdc_inv (tty_dispatch hw keep (event_no ev) d)"
    by (rule dispatch_inv [OF law]) (use ev d dinv in simp_all)
  have round: "tty_main_round hw keep ready c = (if ep \<noteq> 0 then
      (if USB_EVENT_TXRX e \<noteq> 0 then tty_echo hw (usb_tx_done ep d)
       else usb_rx_ready hw ep (ucast (USB_EVENT_LEN e)) d \<bind> tty_echo hw)
      else Some (tty_dispatch hw keep (event_no ev) d))"
    using True by (simp add: tty_main_round_def e Let_def d_def ep_def ev)
  consider "ep = 0" | "ep \<noteq> 0" "USB_EVENT_TXRX e \<noteq> 0" | "ep \<noteq> 0" "USB_EVENT_TXRX e = 0" by blast
  then show ?thesis
  proof cases
    case 1
    then show ?thesis using disp by (simp add: round)
  next
    case 2
    then show ?thesis using tty_echo_inv [OF tx_done_inv [OF dinv]] by (simp add: round)
  next
    case 3
    from ready [OF 3(2)] obtain u where "usb_rx_ready hw ep (ucast (USB_EVENT_LEN e)) d = Some u" "cdc_inv u" by blast
    with 3 show ?thesis using tty_echo_inv [of u hw] by (simp add: round)
  qed
qed

section \<open>Every run\<close>

text \<open>
  What happens to the serial port, in any order: the controller changes its registers and its
  packet memory, tty_main goes round, and the application opens the line, sends a packet or takes a line.
  The controller is bound by two rules of its manual for endpoint 3. It accepts a packet only while the
  receiver is enabled, and then disables it, and a packet is at most as long as
  announced; otherwise it leaves STAT_RX and CTR_RX as they are, or clears them when the bus is reset.
\<close>

datatype cdc_op =
    Controller "u8 \<Rightarrow> u16" u16 "u32 \<Rightarrow> u16"
  | Round bool
  | Connect
  | Send addr nat
  | Receive addr

fun cdc_step :: "usb_hw \<Rightarrow> bool \<Rightarrow> cdc_op \<Rightarrow> cdc \<Rightarrow> cdc option" where
  "cdc_step hw keep (Controller r i p) c = Some (upd_drv (\<lambda>s. s\<lparr>EPREG := r, ISTR := i, pma := p\<rparr>) c)"
| "cdc_step hw keep (Round ready) c = tty_main_round hw keep ready c"
| "cdc_step hw keep Connect c = Some (if flag_connected (tty0 c) then tty_connect hw c else c)"
| "cdc_step hw keep (Send p n) c = Some (send_one hw p n c)"
| "cdc_step hw keep (Receive buf) c = map_option snd (recv_line hw buf c)"

definition controller_rule :: "u16 \<Rightarrow> u16 \<Rightarrow> bool" where
  "controller_rule v w \<longleftrightarrow>
     (let rx = EPRX_STAT OR EP_CTR_RX
      in w AND rx = v AND rx \<or> v AND EPRX_STAT = EP_RX_VALID \<and> w AND rx = EP_RX_NAK OR EP_CTR_RX \<or> w AND rx = 0)"

fun op_ok :: "usb_hw \<Rightarrow> cdc_op \<Rightarrow> cdc \<Rightarrow> bool" where
  "op_ok hw (Controller r i p) c = controller_rule (EPREG (drv c) ENDP3) (r ENDP3)"
| "op_ok hw (Round ready) c = (ready \<longrightarrow> packet_fits (fst (usb_lld_event_handler hw (drv c))))"
| "op_ok hw _ c = True"

inductive cdc_run :: "usb_hw \<Rightarrow> bool \<Rightarrow> cdc \<Rightarrow> cdc option \<Rightarrow> bool" for hw keep c0 where
  run_start: "cdc_run hw keep c0 (Some c0)"
| run_step: "cdc_run hw keep c0 (Some c) \<Longrightarrow> op_ok hw op c \<Longrightarrow> cdc_run hw keep c0 (cdc_step hw keep op c)"

lemma controller_inv:
  assumes "cdc_inv c" "controller_rule (EPREG (drv c) ENDP3) (r ENDP3)"
  shows "cdc_inv (upd_drv (\<lambda>s. s\<lparr>EPREG := r, ISTR := i, pma := p\<rparr>) c)"
proof -
  let ?c = "upd_drv (\<lambda>s. s\<lparr>EPREG := r, ISTR := i, pma := p\<rparr>) c"
  let ?v = "EPREG (drv c) ENDP3" and ?w = "r ENDP3" and ?rx = "EPRX_STAT OR EP_CTR_RX"
  have reg: "EPREG (drv ?c) ENDP3 = ?w" "tty0 ?c = tty0 c" by (simp_all add: upd_drv_def)
  have nak: "\<not> bit EP_RX_NAK 12" by (simp add: EP_RX_NAK_def)
  have bits: "bit u 12 = bit (u AND ?rx) 12" "bit u 13 = bit (u AND ?rx) 13" "bit u 15 = bit (u AND ?rx) 15" for u :: u16
    by (simp_all add: word16_bits)
  consider "?w AND ?rx = ?v AND ?rx" | "?v AND EPRX_STAT = EP_RX_VALID" "?w AND ?rx = EP_RX_NAK OR EP_CTR_RX" | "?w AND ?rx = 0"
    using assms(2) by (auto simp: controller_rule_def Let_def)
  then have "rx_calm (drv c) (drv ?c) \<or> rx_open (drv c) \<and> \<not> rx_open (drv ?c)"
  proof cases
    case 1
    then have "rx_calm (drv c) (drv ?c)"
      using bits [of ?w] bits [of ?v] by (simp add: rx_calm_def rx_open_bits rx_pending_bits reg)
    then show ?thesis ..
  next
    case 2
    then have "\<not> rx_open (drv ?c)" using bits(1) [of ?w] nak by (simp add: rx_open_bits reg word16_bits)
    then show ?thesis using 2(1) by (simp add: rx_open_def)
  next
    case 3
    then have "rx_calm (drv c) (drv ?c)"
      using bits [of ?w] by (simp add: rx_calm_def rx_open_bits rx_pending_bits reg)
    then show ?thesis ..
  qed
  then have "rx_inv ?c"
  proof
    assume "rx_calm (drv c) (drv ?c)"
    then show ?thesis using assms(1) by (auto simp: cdc_inv_def reg(2) intro: rx_inv_calm [of c])
  next
    assume "rx_open (drv c) \<and> \<not> rx_open (drv ?c)"
    then show ?thesis using assms(1) by (auto simp: cdc_inv_def rx_inv_def reg(2))
  qed
  then show ?thesis using assms(1) by (simp add: cdc_inv_def conf_ok_def upd_drv_def)
qed

lemma send_one_inv: "cdc_inv c \<Longrightarrow> cdc_inv (send_one hw p n c)"
proof -
  assume c: "cdc_inv c"
  have "EPREG (drv (send_one hw p n c)) ENDP3 = EPREG (drv c) ENDP3"
    "inputline_len (tty0 (send_one hw p n c)) = inputline_len (tty0 c)"
    "flag_input_avail (tty0 (send_one hw p n c)) = flag_input_avail (tty0 c)"
    by (simp_all add: send_one_def Let_def upd_drv_def upd_tty_def usb_lld_txcpy_def usb_lld_tx_enable_def usb_frame)
  then have "rx_inv (send_one hw p n c)"
    using c by (auto simp: cdc_inv_def intro: rx_inv_calm [of c] rx_calm_same)
  then show ?thesis
    using c by (simp add: cdc_inv_def conf_ok_def)
      (simp add: send_one_def Let_def upd_drv_def upd_tty_def usb_lld_txcpy_def usb_lld_tx_enable_def usb_frame)
qed

lemma tty_connect_inv:
  assumes "cdc_inv c"
  shows "cdc_inv (tty_connect hw c)"
proof -
  have "rx_inv (tty_connect hw c)" by (rule rx_inv_empty) (simp_all add: tty_connect_def Let_def upd_drv_def upd_tty_def)
  then show ?thesis
    using assms by (simp add: cdc_inv_def conf_ok_def)
      (simp add: tty_connect_def Let_def upd_drv_def upd_tty_def usb_lld_rx_enable_def usb_frame line_ok_def ring_ok_def)
qed

lemma recv_line_inv:
  assumes "cdc_inv c"
  shows "\<exists>c'. map_option snd (recv_line hw buf c) = Some c' \<and> cdc_inv c'"
proof -
  have "unat (inputline_len (tty0 c)) \<le> length (inputline (tty0 c))"
    using assms by (auto simp: cdc_inv_def line_ok_def split: if_splits)
  then show ?thesis
    using assms by (cases "flag_connected (tty0 c) \<and> flag_input_avail (tty0 c)")
      (auto simp: recv_line_def Let_def upd_drv_def upd_tty_def cdc_inv_def conf_ok_def
        usb_lld_rx_enable_def usb_frame store_bytes_def line_ok_def ring_ok_def intro!: rx_inv_empty)
qed

lemma step_inv:
  assumes "ep_write_law hw" "cdc_inv c" "op_ok hw op c"
  shows "\<exists>c'. cdc_step hw keep op c = Some c' \<and> cdc_inv c'"
proof (cases op)
  case (Controller r i p)
  then show ?thesis using controller_inv assms(2,3) by simp
next
  case (Round ready)
  then show ?thesis using round_inv [OF assms(1,2), of ready keep] assms(3) by simp
qed (use assms tty_connect_inv send_one_inv recv_line_inv in auto)

lemma start_inv:
  assumes "length (inputline (tty0 c0)) = 128" "length (send_buf (tty0 c0)) = 128"
  shows "cdc_inv (tty_main_start hw (tty_open c0))"
proof -
  have "rx_inv (tty_main_start hw (tty_open c0))"
    by (rule rx_inv_empty) (simp_all add: tty_main_start_def tty_open_def Let_def upd_drv_def upd_tty_def reset_tty_def)
  then show ?thesis
    using assms by (simp add: cdc_inv_def)
      (simp add: tty_main_start_def tty_open_def Let_def upd_drv_def upd_tty_def conf_ok_def
      addr_ok_def store_bytes_def reset_tty_def usb_lld_init_def st103_set_cntr_def st103_set_istr_def
      st103_set_btable_def line_ok_def ring_ok_def)
qed

text \<open>
  C37: From its start, in every sequence of events of the controller, rounds of tty_main and calls of the
  application, the serial port neither reads nor writes outside an array, its input line has at most 127
  characters (128 once it is ended), the indices of its echo ring are within it, the TTY says that the device
  is configured exactly when the driver has a configuration, a SET_ADDRESS request is only on its way in
  the unconfigured device, and while a line waits to be read and a packet is pending or may yet come,
  the line has at most 64 characters. The controller is only assumed to accept packets on endpoint 3 while the
  receiver is enabled, to disable it then, and to report at most 64 bytes per packet; that no
  more of them come than the input line has room for is the doing of the code.
\<close>

theorem serial_port_invariant:
  assumes "ep_write_law hw" and "length (inputline (tty0 c0)) = 128" "length (send_buf (tty0 c0)) = 128"
    and "cdc_run hw keep (tty_main_start hw (tty_open c0)) r"
  shows "\<exists>c. r = Some c \<and> line_ok (tty0 c) \<and> rx_inv c \<and>
    (device_state (tty0 c) = USB_DEVICE_STATE_CONFIGURED \<longleftrightarrow> configuration (dev (drv c)) \<noteq> 0) \<and>
    addr_ok (dev (drv c))"
proof -
  from assms(4) have "\<exists>c. r = Some c \<and> cdc_inv c"
  proof (induction rule: cdc_run.induct)
    case run_start
    then show ?case using start_inv [OF assms(2,3)] by simp
  next
    case (run_step c op)
    then show ?case using step_inv [OF assms(1)] by simp
  qed
  then show ?thesis by (auto simp: cdc_inv_def conf_ok_def)
qed

text \<open>A run of one step: two bytes are handed to the controller.\<close>

theorem serial_port_invariant_witness:
  "cdc_run stm32_hw False (tty_main_start stm32_hw (tty_open terminal))
     (cdc_step stm32_hw False (Send 0x2000 2) (tty_main_start stm32_hw (tty_open terminal))) \<and>
   (\<exists>c. cdc_step stm32_hw False (Send 0x2000 2) (tty_main_start stm32_hw (tty_open terminal)) = Some c \<and>
     line_ok (tty0 c))"
proof -
  have run: "cdc_run stm32_hw False (tty_main_start stm32_hw (tty_open terminal))
     (cdc_step stm32_hw False (Send 0x2000 2) (tty_main_start stm32_hw (tty_open terminal)))"
    by (rule run_step [OF run_start]) simp
  have "length (inputline (tty0 terminal)) = 128" "length (send_buf (tty0 terminal)) = 128"
    by (simp_all add: terminal_def)
  from serial_port_invariant [OF stm32_hw_law this run] run show ?thesis by blast
qed

end
