(* ===== verification/Flash_Kl27z.thy ===== *)
theory Flash_Kl27z
  imports Chopstx_Prelude
begin

text \<open>
  Erasing and programming the flash memory of the MKL27Z (\<open>mcu/sys-mkl27z.c\<close>): the command is put
  in the registers of the controller, byte by byte, and launched by code that runs from the
  stack, since the flash memory cannot be read meanwhile.

  The controller is a parameter, \<open>hw\<close>: what a read of its status register returns and how
  far it has come by then, and what a write of that register does. \<open>ftfa_inner\<close> is the state it
  has of its own. Each routine is there in C (\<open>ORIGINAL_IN_C\<close>) and as the assembly that is
  built; a command that never completes is \<open>None\<close>.
\<close>

unbundle bit_operations_syntax

section \<open>State and constants\<close>

text \<open>\<open>FCCO\<close> holds the twelve bytes from offset 4 of the controller on; \<open>ram\<close> is the stack, in words.\<close>

record 'h ftfa =
  FCCO :: "u8 list"
  ram :: "addr \<Rightarrow> u32"
  sp :: addr
  irq_masked :: bool
  ftfa_inner :: 'h

record 'h ftfa_hw =
  read_FSTAT :: "'h ftfa \<Rightarrow> u8 \<times> 'h ftfa"
  write_FSTAT :: "u8 \<Rightarrow> 'h ftfa \<Rightarrow> 'h ftfa"

definition FSTAT_CCIF :: u8 where "FSTAT_CCIF = 0x80"
definition B3 :: nat where "B3 = 0"
definition B2 :: nat where "B2 = 1"
definition B1 :: nat where "B1 = 2"
definition B0 :: nat where "B0 = 3"
definition B7 :: nat where "B7 = 4"
definition B6 :: nat where "B6 = 5"
definition B5 :: nat where "B5 = 6"
definition B4 :: nat where "B4 = 7"
definition FLASH_COMMAND_PROGRAM_LONGWORD :: u8 where "FLASH_COMMAND_PROGRAM_LONGWORD = 0x06"
definition FLASH_COMMAND_ERASE_FLASH_SECTOR :: u8 where "FLASH_COMMAND_ERASE_FLASH_SECTOR = 0x09"

lemmas FCCO_index = B0_def B1_def B2_def B3_def B4_def B5_def B6_def B7_def

section \<open>Launching a command\<close>

partial_function (option) ccif_loop :: "'h ftfa_hw \<Rightarrow> 'h ftfa \<Rightarrow> (u8 \<times> 'h ftfa) option" where
  "ccif_loop hw f =
     (let (r, f) = read_FSTAT hw f
      in if r AND FSTAT_CCIF = 0 then ccif_loop hw f else Some (r, f))"

definition flash_do_internal :: "'h ftfa_hw \<Rightarrow> 'h ftfa \<Rightarrow> (u32 \<times> 'h ftfa) option" where
  "flash_do_internal hw f =
     do {
       let f = f\<lparr>irq_masked := True\<rparr>;
       let (r, f) = read_FSTAT hw f;
       let f = write_FSTAT hw (r OR FSTAT_CCIF) f;
       (r, f) \<leftarrow> ccif_loop hw f;
       let f = f\<lparr>irq_masked := False\<rparr>;
       Some (ucast (r AND NOT FSTAT_CCIF), f) }"

text \<open>
  \<open>flash_do\<close> copies the 32 bytes of that routine, at \<open>r3\<close>, to the stack and calls the copy.
\<close>

partial_function (option) copy_loop :: "addr \<Rightarrow> addr \<Rightarrow> u32 \<Rightarrow> (addr \<Rightarrow> u32) \<Rightarrow> (addr \<Rightarrow> u32) option" where
  "copy_loop r1 r3 r2 m =
     (if r2 = 32 then Some m
      else (let r0 = m (r3 + r2);
                m = m(r1 + r2 := r0)
            in copy_loop r1 r3 (r2 + 4) m))"

definition flash_do :: "addr \<Rightarrow> 'h ftfa_hw \<Rightarrow> 'h ftfa \<Rightarrow> (u32 \<times> 'h ftfa) option" where
  "flash_do r3 hw f =
     do {
       let f = f\<lparr>sp := sp f - 32\<rparr>;
       m \<leftarrow> copy_loop (sp f) r3 0 (ram f);
       (r0, f) \<leftarrow> flash_do_internal hw (f\<lparr>ram := m\<rparr>);
       Some (r0, f\<lparr>sp := sp f + 32\<rparr>) }"

section \<open>The commands\<close>

definition set_FCCO :: "nat \<Rightarrow> u8 \<Rightarrow> 'h ftfa \<Rightarrow> 'h ftfa" where
  "set_FCCO i b f = f\<lparr>FCCO := (FCCO f)[i := b]\<rparr>"

definition erase_command :: "addr \<Rightarrow> 'h ftfa \<Rightarrow> 'h ftfa" where
  "erase_command addr f =
     (let f = set_FCCO B0 FLASH_COMMAND_ERASE_FLASH_SECTOR f;
          f = set_FCCO B3 (ucast (drop_bit 0 addr AND 0xff)) f;
          f = set_FCCO B2 (ucast (drop_bit 8 addr AND 0xff)) f
      in set_FCCO B1 (ucast (drop_bit 16 addr AND 0xff)) f)"

definition kl_flash_erase_page :: "addr \<Rightarrow> 'h ftfa_hw \<Rightarrow> addr \<Rightarrow> 'h ftfa \<Rightarrow> (u32 \<times> 'h ftfa) option" where
  "kl_flash_erase_page code hw addr f = flash_do code hw (erase_command addr f)"

definition program_command :: "addr \<Rightarrow> u32 \<Rightarrow> 'h ftfa \<Rightarrow> 'h ftfa" where
  "program_command addr word f =
     (let f = set_FCCO B0 FLASH_COMMAND_PROGRAM_LONGWORD f;
          f = set_FCCO B3 (ucast (drop_bit 0 addr AND 0xff)) f;
          f = set_FCCO B2 (ucast (drop_bit 8 addr AND 0xff)) f;
          f = set_FCCO B1 (ucast (drop_bit 16 addr AND 0xff)) f;
          f = set_FCCO B4 (ucast (drop_bit 0 word AND 0xff)) f;
          f = set_FCCO B5 (ucast (drop_bit 8 word AND 0xff)) f;
          f = set_FCCO B6 (ucast (drop_bit 16 word AND 0xff)) f
      in set_FCCO B7 (ucast (drop_bit 24 word AND 0xff)) f)"

definition kl_flash_program_word ::
  "addr \<Rightarrow> 'h ftfa_hw \<Rightarrow> addr \<Rightarrow> u32 \<Rightarrow> 'h ftfa \<Rightarrow> (u32 \<times> 'h ftfa) option" where
  "kl_flash_program_word code hw addr word f = flash_do code hw (program_command addr word f)"

text \<open>The assembly stores the low byte of a register at an offset of the controller.\<close>

definition strb :: "u32 \<Rightarrow> nat \<Rightarrow> 'h ftfa \<Rightarrow> 'h ftfa" where
  "strb r off f = f\<lparr>FCCO := (FCCO f)[off - 4 := ucast r]\<rparr>"

definition erase_command_asm :: "addr \<Rightarrow> 'h ftfa \<Rightarrow> 'h ftfa" where
  "erase_command_asm r0 f =
     (let r2 = ucast FLASH_COMMAND_ERASE_FLASH_SECTOR;
          f = strb r2 7 f;
          f = strb r0 4 f;
          r0 = drop_bit 8 r0;
          f = strb r0 5 f;
          r0 = drop_bit 8 r0
      in strb r0 6 f)"

definition program_command_asm :: "addr \<Rightarrow> u32 \<Rightarrow> 'h ftfa \<Rightarrow> 'h ftfa" where
  "program_command_asm r0 r1 f =
     (let r2 = ucast FLASH_COMMAND_PROGRAM_LONGWORD;
          f = strb r2 7 f;
          f = strb r0 4 f;
          r0 = drop_bit 8 r0;
          f = strb r0 5 f;
          r0 = drop_bit 8 r0;
          f = strb r0 6 f;
          f = strb r1 11 f;
          r1 = drop_bit 8 r1;
          f = strb r1 10 f;
          r1 = drop_bit 8 r1;
          f = strb r1 9 f;
          r1 = drop_bit 8 r1
      in strb r1 8 f)"

section \<open>What they do\<close>

lemma low_byte: "ucast (r AND 0xff) = (ucast (r :: u32) :: u8)"
  unfolding mask_ff32 by (auto intro!: bit_word_eqI simp: bit_simps)

lemma byte_of_ucast: "ucast (ucast (b :: u8) :: u32) = b"
  by (auto intro!: bit_word_eqI simp: bit_simps dest: u8_bit)

text \<open>The assembly fills the registers as the C code does.\<close>

lemma command_asm:
  "erase_command_asm addr f = erase_command addr f"
  "program_command_asm addr word f = program_command addr word f"
  by (simp_all add: erase_command_asm_def erase_command_def program_command_asm_def program_command_def
      Let_def strb_def set_FCCO_def FCCO_index low_byte byte_of_ucast)

text \<open>
  The command in the twelve registers: the low bytes of the address, the opcode, and for a word to
  program its bytes, the low one in the last register.
\<close>

lemma command_bytes:
  assumes "length (FCCO f) = 12"
  shows "FCCO (erase_command addr f) =
      [ucast addr, ucast (drop_bit 8 addr), ucast (drop_bit 16 addr), 0x09] @ drop 4 (FCCO f)"
    and "FCCO (program_command addr word f) =
      [ucast addr, ucast (drop_bit 8 addr), ucast (drop_bit 16 addr), 0x06,
       ucast (drop_bit 24 word), ucast (drop_bit 16 word), ucast (drop_bit 8 word), ucast word] @ drop 8 (FCCO f)"
  using assms
  by (auto simp: erase_command_def program_command_def set_FCCO_def FCCO_index Let_def low_byte
      length_Suc_conv eval_nat_numeral FLASH_COMMAND_ERASE_FLASH_SECTOR_def FLASH_COMMAND_PROGRAM_LONGWORD_def)

text \<open>The copy on the stack is the code, unless the two overlap; nothing else changes.\<close>

lemma copy_loop:
  assumes "\<And>i j. i < 8 \<Longrightarrow> j < 8 \<Longrightarrow> r1 + 4 * word_of_nat i \<noteq> r3 + 4 * word_of_nat j"
  obtains m' where "copy_loop r1 r3 0 m = Some m'"
    and "\<And>i. i < 8 \<Longrightarrow> m' (r1 + 4 * word_of_nat i) = m (r3 + 4 * word_of_nat i)"
    and "\<And>a. (\<And>i. i < 8 \<Longrightarrow> a \<noteq> r1 + 4 * word_of_nat i) \<Longrightarrow> m' a = m a"
proof -
  have ex: "\<exists>m'. copy_loop r1 r3 (4 * word_of_nat n) m = Some m' \<and>
      (\<forall>i. n \<le> i \<and> i < 8 \<longrightarrow> m' (r1 + 4 * word_of_nat i) = m (r3 + 4 * word_of_nat i)) \<and>
      (\<forall>a. (\<forall>i. n \<le> i \<and> i < 8 \<longrightarrow> a \<noteq> r1 + 4 * word_of_nat i) \<longrightarrow> m' a = m a)" if "n \<le> 8" for n m
    using that
  proof (induction arbitrary: m rule: inc_induct)
    case base
    show ?case by (subst copy_loop.simps) auto
  next
    case (step n)
    have off: "4 * word_of_nat n \<noteq> (32 :: u32)"
    proof
      assume "4 * word_of_nat n = (32 :: u32)"
      then have "unat (4 * word_of_nat n :: u32) = 32" by simp
      then show False using step.hyps by (simp add: unat_word_ariths unat_of_nat)
    qed
    have inj: "r1 + 4 * word_of_nat i \<noteq> r1 + 4 * word_of_nat n" if "n < i" "i < 8" for i
    proof
      assume "r1 + 4 * word_of_nat i = r1 + 4 * word_of_nat n"
      then have "unat (4 * word_of_nat i :: u32) = unat (4 * word_of_nat n :: u32)" by simp
      then show False using that by (simp add: unat_word_ariths unat_of_nat)
    qed
    let ?m = "m(r1 + 4 * word_of_nat n := m (r3 + 4 * word_of_nat n))"
    have "copy_loop r1 r3 (4 * word_of_nat n) m = copy_loop r1 r3 (4 * word_of_nat (Suc n)) ?m"
      using off by (subst copy_loop.simps) (simp add: Let_def algebra_simps)
    moreover from step.IH [of ?m] obtain m' where
      m': "copy_loop r1 r3 (4 * word_of_nat (Suc n)) ?m = Some m'"
      and copied: "\<And>i. Suc n \<le> i \<Longrightarrow> i < 8 \<Longrightarrow> m' (r1 + 4 * word_of_nat i) = ?m (r3 + 4 * word_of_nat i)"
      and other: "\<And>a. (\<And>i. Suc n \<le> i \<Longrightarrow> i < 8 \<Longrightarrow> a \<noteq> r1 + 4 * word_of_nat i) \<Longrightarrow> m' a = ?m a"
      by blast
    moreover have "m' (r1 + 4 * word_of_nat i) = m (r3 + 4 * word_of_nat i)" if "n \<le> i" "i < 8" for i
    proof (cases "i = n")
      case True
      then show ?thesis using other [of "r1 + 4 * word_of_nat n"] inj by (metis Suc_le_eq fun_upd_same)
    next
      case False
      then show ?thesis using copied [of i] that assms [of n i] step.hyps by simp
    qed
    moreover have "m' a = m a" if "\<forall>i. n \<le> i \<and> i < 8 \<longrightarrow> a \<noteq> r1 + 4 * word_of_nat i" for a
      using other [of a] that step.hyps by simp
    ultimately show ?case by auto
  qed
  from ex [of 0 m] obtain m' where "copy_loop r1 r3 0 m = Some m'"
    "\<forall>i < 8. m' (r1 + 4 * word_of_nat i) = m (r3 + 4 * word_of_nat i)"
    "\<forall>a. (\<forall>i < 8. a \<noteq> r1 + 4 * word_of_nat i) \<longrightarrow> m' a = m a" by auto
  then show thesis by (intro that) blast+
qed

text \<open>
  The code reads the status until the controller has completed: \<open>n\<close> reads without CCIF and one with
  it end the wait, with the status of that read.
\<close>

lemma ccif_loop_ends:
  "\<forall>i < n. fst (read_FSTAT hw (((snd \<circ> read_FSTAT hw) ^^ i) f)) AND FSTAT_CCIF = 0 \<Longrightarrow>
   read_FSTAT hw (((snd \<circ> read_FSTAT hw) ^^ n) f) = (r, f') \<Longrightarrow> r AND FSTAT_CCIF \<noteq> 0 \<Longrightarrow>
   ccif_loop hw f = Some (r, f')"
proof (induction n arbitrary: f)
  case 0
  then show ?case by (subst ccif_loop.simps) simp
next
  case (Suc n)
  obtain s g where g: "read_FSTAT hw f = (s, g)" by force
  have shift: "((snd \<circ> read_FSTAT hw) ^^ Suc i) f = ((snd \<circ> read_FSTAT hw) ^^ i) g" for i
    using g by (simp add: funpow_Suc_right del: funpow.simps)
  have "s AND FSTAT_CCIF = 0" using Suc.prems(1) g by (auto dest: spec [of _ 0])
  moreover have "ccif_loop hw g = Some (r, f')"
  proof (rule Suc.IH)
    show "\<forall>i < n. fst (read_FSTAT hw (((snd \<circ> read_FSTAT hw) ^^ i) g)) AND FSTAT_CCIF = 0"
      using Suc.prems(1) shift by (metis Suc_less_eq)
    show "read_FSTAT hw (((snd \<circ> read_FSTAT hw) ^^ n) g) = (r, f')" using Suc.prems(2) shift by metis
  qed (rule Suc.prems(3))
  ultimately show ?case using g by (subst ccif_loop.simps) simp
qed

lemma flash_do_internal_ends:
  assumes "ccif_loop hw (write_FSTAT hw (fst (read_FSTAT hw (f\<lparr>irq_masked := True\<rparr>)) OR FSTAT_CCIF)
      (snd (read_FSTAT hw (f\<lparr>irq_masked := True\<rparr>)))) = Some (r, g)"
  shows "flash_do_internal hw f = Some (ucast (r AND NOT FSTAT_CCIF), g\<lparr>irq_masked := False\<rparr>)"
  using assms by (simp add: flash_do_internal_def split_beta Let_def)

end
