(* ===== verification/Flash_File.thy ===== *)
theory Flash_File
  imports Chopstx_Prelude
begin

text \<open>
  The flash memory of the port to GNU/Linux (\<open>mcu/sys-gnu-linux.c\<close>): a file, mapped for reading at
  \<open>flash_addr\<close> and written with system calls. These are a parameter, \<open>os\<close>: whether a seek
  succeeds, and what a write at an offset returns and leaves in the file. The mapping is
  shared: what is read through it is the file.
\<close>

unbundle bit_operations_syntax

type_synonym u64 = "64 word"

section \<open>The routines\<close>

record flash_file =
  flash_addr :: u64
  flash_size :: u64
  contents :: "u8 list"

record os =
  seek_ok :: "nat \<Rightarrow> bool"
  os_write :: "nat \<Rightarrow> u8 list \<Rightarrow> u8 list \<Rightarrow> int \<times> u8 list"

text \<open>The offset is signed, \<open>off_t\<close>.\<close>

definition outside :: "u64 \<Rightarrow> flash_file \<Rightarrow> bool" where
  "outside addr f = (let offset = addr - flash_addr f in offset <s 0 \<or> flash_size f \<le>s offset)"

definition file_flash_write :: "os \<Rightarrow> u64 \<Rightarrow> u8 list \<Rightarrow> flash_file \<Rightarrow> int \<times> flash_file" where
  "file_flash_write os dst_addr src f =
     (if outside dst_addr f then (1, f)
      else (let offset = unat (dst_addr - flash_addr f)
            in if \<not> seek_ok os offset then (1, f)
               else (let (n, c) = os_write os offset src (contents f);
                         f = f\<lparr>contents := c\<rparr>
                     in if n \<noteq> int (length src) then (2, f) else (0, f))))"

definition file_flash_program_halfword :: "os \<Rightarrow> u64 \<Rightarrow> u16 \<Rightarrow> flash_file \<Rightarrow> int \<times> flash_file" where
  "file_flash_program_halfword os addr data f =
     (if outside addr f then (1, f)
      else (let offset = unat (addr - flash_addr f)
            in if \<not> seek_ok os offset then (1, f)
               else (let buf = [ucast (data AND 0xff), ucast (drop_bit 8 data)];
                         (n, c) = os_write os offset buf (contents f);
                         f = f\<lparr>contents := c\<rparr>
                     in if n \<noteq> 2 then (2, f) else (0, f))))"

definition erased :: "u8 list" where
  "erased = replicate 1024 0xff"

definition file_flash_erase_page :: "os \<Rightarrow> u64 \<Rightarrow> flash_file \<Rightarrow> int \<times> flash_file" where
  "file_flash_erase_page os addr f =
     (if outside addr f then (1, f)
      else (let offset = unat (addr - flash_addr f)
            in if \<not> seek_ok os offset then (1, f)
               else (let (n, c) = os_write os offset erased (contents f);
                         f = f\<lparr>contents := c\<rparr>
                     in if n \<noteq> int (length erased) then (2, f) else (0, f))))"

text \<open>
  The loop over the pointer is one over the bytes from there on.
\<close>

definition file_flash_check_blank :: "u64 \<Rightarrow> u64 \<Rightarrow> flash_file \<Rightarrow> bool" where
  "file_flash_check_blank p_start sz f =
     (if p_start < flash_addr f \<or> flash_addr f + flash_size f < p_start + sz then False
      else list_all (\<lambda>b. b = 0xff) (take (unat sz) (drop (unat (p_start - flash_addr f)) (contents f))))"

section \<open>What is written\<close>

text \<open>
  POSIX: \<open>write\<close> puts a first part of the data, as long as it returns, at the offset, and fills a gap
  with zeros; when it fails it returns -1 and writes nothing.
\<close>

definition overwrite :: "nat \<Rightarrow> u8 list \<Rightarrow> u8 list \<Rightarrow> u8 list" where
  "overwrite off d c = take off (c @ replicate (off - length c) 0) @ d @ drop (off + length d) c"

definition posix :: "os \<Rightarrow> bool" where
  "posix os \<longleftrightarrow> (\<forall>off d c. let (n, c') = os_write os off d c
     in n \<le> int (length d) \<and> (if n < 0 then c' = c else c' = overwrite off (take (nat n) d) c))"

lemma overwrite_inside:
  assumes "off + length d \<le> length c"
  shows "length (overwrite off d c) = length c"
    and "i < length c \<Longrightarrow> overwrite off d c ! i = (if off \<le> i \<and> i < off + length d then d ! (i - off) else c ! i)"
  using assms by (auto simp: overwrite_def nth_append)

lemma posix_write:
  assumes "posix os" "os_write os off d c = (n, c')" "off + length d \<le> length c"
  shows "length c' = length c"
    and "i < length c \<Longrightarrow> \<not> (off \<le> i \<and> i < off + length d) \<Longrightarrow> c' ! i = c ! i"
    and "n = int (length d) \<Longrightarrow> i < length d \<Longrightarrow> c' ! (off + i) = d ! i"
proof -
  have w: "n \<le> int (length d)" "if n < 0 then c' = c else c' = overwrite off (take (nat n) d) c"
    using assms(1,2) by (auto simp: posix_def split: prod.splits dest: spec [of _ off])
  have fits: "off + length (take (nat n) d) \<le> length c" using assms(3) by simp
  show "length c' = length c" using w(2) overwrite_inside(1) [OF fits] by (auto split: if_splits)
  show "c' ! i = c ! i" if "i < length c" "\<not> (off \<le> i \<and> i < off + length d)"
    using w overwrite_inside(2) [OF fits that(1)] that(2) by (auto split: if_splits)
  show "c' ! (off + i) = d ! i" if "n = int (length d)" "i < length d"
    using w overwrite_inside(2) [OF fits, of "off + i"] that assms(3) by (auto split: if_splits)
qed

text \<open>
  A write that lies in the file leaves its size and every byte outside the destination, whatever
  fails, and on success the bytes are in place.
\<close>

lemma file_flash_write_exact:
  assumes "posix os" and r: "file_flash_write os dst src f = (r, f')"
    and "unat (dst - flash_addr f) + length src \<le> length (contents f)"
  shows "length (contents f') = length (contents f)"
    and "i < length (contents f) \<Longrightarrow>
      \<not> (unat (dst - flash_addr f) \<le> i \<and> i < unat (dst - flash_addr f) + length src) \<Longrightarrow>
      contents f' ! i = contents f ! i"
    and "r = 0 \<Longrightarrow> i < length src \<Longrightarrow> contents f' ! (unat (dst - flash_addr f) + i) = src ! i"
  using r posix_write [OF assms(1) _ assms(3)]
  by (auto simp: file_flash_write_def Let_def split: if_splits prod.splits)

lemma file_flash_write_map:
  "file_flash_write os dst src f = (r, f') \<Longrightarrow> flash_addr f' = flash_addr f \<and> flash_size f' = flash_size f"
  by (auto simp: file_flash_write_def Let_def split: if_splits prod.splits)

text \<open>
  Only the first address is checked: a write that begins inside the file and ends behind it makes
  the file longer, where the routine of the microcontroller refuses it.
\<close>

lemma file_flash_write_extends:
  "\<exists>f'. file_flash_write \<lparr>seek_ok = (\<lambda>_. True), os_write = (\<lambda>off d c. (int (length d), overwrite off d c))\<rparr> 0x1003
      [1, 2] \<lparr>flash_addr = 0x1000, flash_size = 4, contents = [0xff, 0xff, 0xff, 0xff]\<rparr> = (0, f') \<and>
    contents f' = [0xff, 0xff, 0xff, 1, 2]"
  by (simp add: file_flash_write_def outside_def overwrite_def Let_def word_sless_alt word_sle_eq)

text \<open>A halfword is written low byte first; an erased page is blank.\<close>

lemma file_flash_program_halfword:
  "file_flash_program_halfword os addr data f = file_flash_write os addr [ucast data, ucast (drop_bit 8 data)] f"
  by (simp add: file_flash_program_halfword_def file_flash_write_def Let_def low_high(5))

lemma erase_page_blank:
  assumes "posix os" "file_flash_erase_page os addr f = (0, f')"
    and "unat (addr - flash_addr f) + 1024 \<le> length (contents f)" "flash_addr f \<le> addr"
    and "addr + 1024 \<le> flash_addr f + flash_size f"
  shows "file_flash_check_blank addr 1024 f'"
proof -
  have wr: "file_flash_write os addr erased f = (0, f')"
    using assms(2) by (simp add: file_flash_erase_page_def file_flash_write_def)
  note w = file_flash_write_exact [OF assms(1) wr]
  have l: "length erased = 1024" by (simp add: erased_def)
  have "contents f' ! (unat (addr - flash_addr f) + i) = 0xff" if "i < 1024" for i
    using w(3) [of i] that assms(3) l by (simp add: erased_def)
  then show ?thesis
    using assms(3-5) w(1) l file_flash_write_map [OF wr]
    by (auto simp: file_flash_check_blank_def list_all_length)
qed

end
