(* ===== verification/Crc32.thy ===== *)
theory Crc32
  imports Chopstx_Prelude
begin

text \<open>
  The CRC32 routines of the system part for the MKL27Z (\<open>mcu/sys-mkl27z.c\<close>), with the table
  generated by \<open>gen_crc_table.py\<close>: the routines as the comments give them in C (\<open>ORIGINAL_IN_C\<close>)
  and the assembly that is built, on the memory. What they compute is defined bit by bit
  (\<open>crc_stream\<close>); the routines agree with it, and two messages that differ in one burst of at
  most 32 bits have different checksums.
\<close>

unbundle bit_operations_syntax

section \<open>The routines\<close>

definition crc32_table :: "u32 list" where
  "crc32_table =
    [
     0x00000000, 0x77073096, 0xee0e612c, 0x990951ba, 0x076dc419, 0x706af48f, 0xe963a535, 0x9e6495a3,
     0x0edb8832, 0x79dcb8a4, 0xe0d5e91e, 0x97d2d988, 0x09b64c2b, 0x7eb17cbd, 0xe7b82d07, 0x90bf1d91,
     0x1db71064, 0x6ab020f2, 0xf3b97148, 0x84be41de, 0x1adad47d, 0x6ddde4eb, 0xf4d4b551, 0x83d385c7,
     0x136c9856, 0x646ba8c0, 0xfd62f97a, 0x8a65c9ec, 0x14015c4f, 0x63066cd9, 0xfa0f3d63, 0x8d080df5,
     0x3b6e20c8, 0x4c69105e, 0xd56041e4, 0xa2677172, 0x3c03e4d1, 0x4b04d447, 0xd20d85fd, 0xa50ab56b,
     0x35b5a8fa, 0x42b2986c, 0xdbbbc9d6, 0xacbcf940, 0x32d86ce3, 0x45df5c75, 0xdcd60dcf, 0xabd13d59,
     0x26d930ac, 0x51de003a, 0xc8d75180, 0xbfd06116, 0x21b4f4b5, 0x56b3c423, 0xcfba9599, 0xb8bda50f,
     0x2802b89e, 0x5f058808, 0xc60cd9b2, 0xb10be924, 0x2f6f7c87, 0x58684c11, 0xc1611dab, 0xb6662d3d,
     0x76dc4190, 0x01db7106, 0x98d220bc, 0xefd5102a, 0x71b18589, 0x06b6b51f, 0x9fbfe4a5, 0xe8b8d433,
     0x7807c9a2, 0x0f00f934, 0x9609a88e, 0xe10e9818, 0x7f6a0dbb, 0x086d3d2d, 0x91646c97, 0xe6635c01,
     0x6b6b51f4, 0x1c6c6162, 0x856530d8, 0xf262004e, 0x6c0695ed, 0x1b01a57b, 0x8208f4c1, 0xf50fc457,
     0x65b0d9c6, 0x12b7e950, 0x8bbeb8ea, 0xfcb9887c, 0x62dd1ddf, 0x15da2d49, 0x8cd37cf3, 0xfbd44c65,
     0x4db26158, 0x3ab551ce, 0xa3bc0074, 0xd4bb30e2, 0x4adfa541, 0x3dd895d7, 0xa4d1c46d, 0xd3d6f4fb,
     0x4369e96a, 0x346ed9fc, 0xad678846, 0xda60b8d0, 0x44042d73, 0x33031de5, 0xaa0a4c5f, 0xdd0d7cc9,
     0x5005713c, 0x270241aa, 0xbe0b1010, 0xc90c2086, 0x5768b525, 0x206f85b3, 0xb966d409, 0xce61e49f,
     0x5edef90e, 0x29d9c998, 0xb0d09822, 0xc7d7a8b4, 0x59b33d17, 0x2eb40d81, 0xb7bd5c3b, 0xc0ba6cad,
     0xedb88320, 0x9abfb3b6, 0x03b6e20c, 0x74b1d29a, 0xead54739, 0x9dd277af, 0x04db2615, 0x73dc1683,
     0xe3630b12, 0x94643b84, 0x0d6d6a3e, 0x7a6a5aa8, 0xe40ecf0b, 0x9309ff9d, 0x0a00ae27, 0x7d079eb1,
     0xf00f9344, 0x8708a3d2, 0x1e01f268, 0x6906c2fe, 0xf762575d, 0x806567cb, 0x196c3671, 0x6e6b06e7,
     0xfed41b76, 0x89d32be0, 0x10da7a5a, 0x67dd4acc, 0xf9b9df6f, 0x8ebeeff9, 0x17b7be43, 0x60b08ed5,
     0xd6d6a3e8, 0xa1d1937e, 0x38d8c2c4, 0x4fdff252, 0xd1bb67f1, 0xa6bc5767, 0x3fb506dd, 0x48b2364b,
     0xd80d2bda, 0xaf0a1b4c, 0x36034af6, 0x41047a60, 0xdf60efc3, 0xa867df55, 0x316e8eef, 0x4669be79,
     0xcb61b38c, 0xbc66831a, 0x256fd2a0, 0x5268e236, 0xcc0c7795, 0xbb0b4703, 0x220216b9, 0x5505262f,
     0xc5ba3bbe, 0xb2bd0b28, 0x2bb45a92, 0x5cb36a04, 0xc2d7ffa7, 0xb5d0cf31, 0x2cd99e8b, 0x5bdeae1d,
     0x9b64c2b0, 0xec63f226, 0x756aa39c, 0x026d930a, 0x9c0906a9, 0xeb0e363f, 0x72076785, 0x05005713,
     0x95bf4a82, 0xe2b87a14, 0x7bb12bae, 0x0cb61b38, 0x92d28e9b, 0xe5d5be0d, 0x7cdcefb7, 0x0bdbdf21,
     0x86d3d2d4, 0xf1d4e242, 0x68ddb3f8, 0x1fda836e, 0x81be16cd, 0xf6b9265b, 0x6fb077e1, 0x18b74777,
     0x88085ae6, 0xff0f6a70, 0x66063bca, 0x11010b5c, 0x8f659eff, 0xf862ae69, 0x616bffd3, 0x166ccf45,
     0xa00ae278, 0xd70dd2ee, 0x4e048354, 0x3903b3c2, 0xa7672661, 0xd06016f7, 0x4969474d, 0x3e6e77db,
     0xaed16a4a, 0xd9d65adc, 0x40df0b66, 0x37d83bf0, 0xa9bcae53, 0xdebb9ec5, 0x47b2cf7f, 0x30b5ffe9,
     0xbdbdf21c, 0xcabac28a, 0x53b39330, 0x24b4a3a6, 0xbad03605, 0xcdd70693, 0x54de5729, 0x23d967bf,
     0xb3667a2e, 0xc4614ab8, 0x5d681b02, 0x2a6f2b94, 0xb40bbe37, 0xc30c8ea1, 0x5a05df1b, 0x2d02ef8d]"

text \<open>The routines in C update the word behind their pointer: here its old and new value.\<close>

definition crc32_init :: u32 where
  "crc32_init = 0xffffffff"

definition crc32_u8 :: "u32 \<Rightarrow> u8 \<Rightarrow> u32" where
  "crc32_u8 c v = (crc32_table ! unat ((c AND 0xff) XOR ucast v)) XOR drop_bit 8 c"

definition crc32_u32 :: "u32 \<Rightarrow> u32 \<Rightarrow> u32" where
  "crc32_u32 c u =
     (let c = crc32_u8 c (ucast (u AND 0xff));
          c = crc32_u8 c (ucast (drop_bit 8 u AND 0xff));
          c = crc32_u8 c (ucast (drop_bit 16 u AND 0xff))
      in crc32_u8 c (ucast (drop_bit 24 u AND 0xff)))"

text \<open>
  The assembly, one instruction a line, on a memory of words at their addresses. \<open>ldrb\<close> at the
  address of a word reads its low byte, \<open>uxtb\<close> keeps the low byte of a register. What
  \<open>crc32_u32\<close> saves on the stack is not shown.
\<close>

definition ldrb :: "(addr \<Rightarrow> u32) \<Rightarrow> addr \<Rightarrow> u32" where
  "ldrb m a = m a AND 0xff"

definition uxtb :: "u32 \<Rightarrow> u32" where
  "uxtb r = r AND 0xff"

definition crc32_init_asm :: "addr \<Rightarrow> (addr \<Rightarrow> u32) \<Rightarrow> addr \<Rightarrow> u32" where
  "crc32_init_asm p m =
     (let r3 = 1;
          r3 = - r3
      in m(p := r3))"

definition crc32_u8_asm :: "u32 \<Rightarrow> addr \<Rightarrow> (addr \<Rightarrow> u32) \<Rightarrow> addr \<Rightarrow> u32" where
  "crc32_u8_asm v p m =
     (let r3 = ldrb m p;
          v = v XOR r3;
          r3 = 0xa0;
          v = push_bit 2 v;
          r3 = push_bit 3 r3;
          v = v + r3;
          r3 = m p;
          r2 = m v;
          r3 = drop_bit 8 r3;
          r3 = r3 XOR r2
      in m(p := r3))"

definition crc32_u32_asm :: "u32 \<Rightarrow> addr \<Rightarrow> (addr \<Rightarrow> u32) \<Rightarrow> addr \<Rightarrow> u32" where
  "crc32_u32_asm u p m =
     (let r4 = u;
          r5 = p;
          r0 = uxtb u;
          m = crc32_u8_asm r0 p m;
          r0 = drop_bit 8 r4;
          p = r5;
          r0 = uxtb r0;
          m = crc32_u8_asm r0 p m;
          r0 = drop_bit 16 r4;
          p = r5;
          r0 = uxtb r0;
          m = crc32_u8_asm r0 p m;
          p = r5;
          r0 = drop_bit 24 r4
      in crc32_u8_asm r0 p m)"

section \<open>The checksum bit by bit\<close>

text \<open>
  The register of the generator script: shifted right, with the reversed polynomial added when
  the bit shifted out is set. A message is a list of bits, added at the low end.
\<close>

definition crc_bit :: "u32 \<Rightarrow> u32" where
  "crc_bit c = (if bit c 0 then 0xEDB88320 XOR drop_bit 1 c else drop_bit 1 c)"

definition crc_stream :: "u32 \<Rightarrow> bool list \<Rightarrow> u32" where
  "crc_stream = foldl (\<lambda>c b. crc_bit (c XOR of_bool b))"

text \<open>The bits of the elements of a list, the low bit of each first.\<close>

definition stream_of :: "'a::len word list \<Rightarrow> bool list" where
  "stream_of ws = concat (map (\<lambda>w. map (bit w) [0..<LENGTH('a)]) ws)"

lemma crc_stream_simps [simp]:
  "crc_stream c [] = c"
  "crc_stream c (b # bs) = crc_stream (crc_bit (c XOR of_bool b)) bs"
  "crc_stream c (as @ bs) = crc_stream (crc_stream c as) bs"
  by (simp_all add: crc_stream_def)

lemma stream_of_simps [simp]:
  "stream_of [] = []"
  "stream_of (w # ws) = map (bit (w :: 'a::len word)) [0..<LENGTH('a)] @ stream_of ws"
  by (simp_all add: stream_of_def)

text \<open>A step is linear in bits that it does not shift out.\<close>

lemma crc_bit_xor: "\<not> bit y 0 \<Longrightarrow> crc_bit (x XOR y) = crc_bit x XOR drop_bit 1 y"
  by (simp add: crc_bit_def bit_xor_iff ac_simps)

lemma crc_bits_xor:
  "take_bit n y = 0 \<Longrightarrow> (crc_bit ^^ n) (x XOR y) = (crc_bit ^^ n) x XOR drop_bit n y"
proof (induction n arbitrary: x y)
  case (Suc n)
  have low: "\<not> bit y 0" using Suc.prems bit_take_bit_iff [of "Suc n" y 0] by simp
  have "take_bit n (drop_bit 1 y) = drop_bit 1 (take_bit (Suc n) y)"
    by (rule bit_word_eqI) (simp add: bit_simps)
  then have "take_bit n (drop_bit 1 y) = 0" using Suc.prems by simp
  from Suc.IH [OF this, of "crc_bit x"] show ?case
    by (simp add: funpow_Suc_right crc_bit_xor [OF low] del: funpow.simps)
qed simp

lemma crc_stream_word:
  "n \<le> LENGTH('a) \<Longrightarrow>
    crc_stream c (map (bit (w :: 'a::len word)) [0..<n]) = (crc_bit ^^ n) (c XOR take_bit n (ucast w))"
  if "LENGTH('a) \<le> 32"
proof (induction n arbitrary: c w)
  case (Suc n)
  let ?u = "ucast w :: u32"
  have bits: "map (bit w) [0..<Suc n] = bit w 0 # map (bit (drop_bit 1 w)) [0..<n]"
    by (simp add: upt_conv_Cons map_Suc_upt [symmetric] bit_drop_bit_eq del: upt.simps)
  let ?y = "take_bit (Suc n) ?u XOR of_bool (bit w 0)"
  have "take_bit (Suc n) ?u = of_bool (bit w 0) XOR ?y" by (simp add: ac_simps)
  moreover have "drop_bit 1 ?y = take_bit n (ucast (drop_bit 1 w))"
    using that by (intro bit_word_eqI) (auto simp: bit_simps dest: bit_imp_le_length)
  moreover have "\<not> bit ?y 0" by (simp add: bit_simps)
  ultimately have "crc_bit (c XOR take_bit (Suc n) ?u) =
      crc_bit (c XOR of_bool (bit w 0)) XOR take_bit n (ucast (drop_bit 1 w))"
    using crc_bit_xor [of ?y "c XOR of_bool (bit w 0)"] by (simp add: xor.assoc)
  then show ?case
    using Suc unfolding bits by (simp add: funpow_Suc_right del: funpow.simps)
qed simp

section \<open>The table and the routines\<close>

text \<open>
  The step is linear. A linear function on the numbers below \<open>2 ^ k\<close> is known from its values
  at the powers of two: that gives its table, and the table of the source is the one of eight steps.
\<close>

lemma crc_bit_linear: "crc_bit (x XOR y) = crc_bit x XOR crc_bit y"
  by (auto simp: crc_bit_def bit_xor_iff ac_simps)

lemma crc_bits_linear: "(crc_bit ^^ n) (x XOR y) = (crc_bit ^^ n) x XOR (crc_bit ^^ n) y"
  by (induction n) (simp_all add: crc_bit_linear)

lemma crc_bits_0: "(crc_bit ^^ n) 0 = 0"
  by (induction n) (simp_all add: crc_bit_def)

primrec xor_table :: "(u32 \<Rightarrow> u32) \<Rightarrow> nat \<Rightarrow> u32 list" where
  "xor_table f 0 = [0]"
| "xor_table f (Suc k) = xor_table f k @ map (\<lambda>x. f (2 ^ k) XOR x) (xor_table f k)"

lemma length_xor_table: "length (xor_table f k) = 2 ^ k"
  by (induction k) simp_all

lemma word_of_nat_xor:
  assumes "i < 2 ^ k"
  shows "word_of_nat (2 ^ k + i) = (2 ^ k XOR word_of_nat i :: u32)"
proof -
  have "\<not> bit i k" using assms by (simp add: bit_iff_odd)
  then have "\<not> bit (word_of_nat i :: u32) k" by (simp add: bit_simps)
  then have z: "(2 ^ k :: u32) AND word_of_nat i = 0"
    by (simp add: and.commute [of "2 ^ k"] and_exp_eq_0_iff_not_bit)
  then show ?thesis
    by (simp add: disjunctive_add_eq_xor)
qed

lemma xor_table_nth:
  assumes lin: "\<And>x y. f (x XOR y) = f x XOR f y" and "f 0 = 0"
  shows "i < 2 ^ k \<Longrightarrow> xor_table f k ! i = f (word_of_nat i)"
proof (induction k arbitrary: i)
  case (Suc k)
  show ?case
  proof (cases "i < 2 ^ k")
    case True
    then show ?thesis by (simp add: Suc.IH nth_append length_xor_table)
  next
    case False
    then have "i - 2 ^ k < 2 ^ k" "i = 2 ^ k + (i - 2 ^ k)" using Suc.prems by simp_all
    then show ?thesis
      using Suc.IH [of "i - 2 ^ k"] word_of_nat_xor [of "i - 2 ^ k" k] lin [of "2 ^ k" "word_of_nat (i - 2 ^ k)"]
      by (simp add: nth_append length_xor_table)
  qed
qed (simp add: assms)

lemma crc_bits_8:
  "(crc_bit ^^ 8) x = crc_bit (crc_bit (crc_bit (crc_bit (crc_bit (crc_bit (crc_bit (crc_bit x)))))))"
  by (simp add: numeral_eq_Suc)

lemma table_powers:
  "(crc_bit ^^ 8) 1 = 0x77073096" "(crc_bit ^^ 8) 2 = 0xee0e612c" "(crc_bit ^^ 8) 4 = 0x076dc419"
  "(crc_bit ^^ 8) 8 = 0x0edb8832" "(crc_bit ^^ 8) 16 = 0x1db71064" "(crc_bit ^^ 8) 32 = 0x3b6e20c8"
  "(crc_bit ^^ 8) 64 = 0x76dc4190" "(crc_bit ^^ 8) 128 = 0xedb88320"
  unfolding crc_bits_8 by (simp_all add: crc_bit_def)

lemma table_is_xor_table: "crc32_table = xor_table (crc_bit ^^ 8) 8"
proof -
  have "8 = Suc (Suc (Suc (Suc (Suc (Suc (Suc (Suc 0)))))))" by simp
  then have "xor_table (crc_bit ^^ 8) 8 = xor_table (crc_bit ^^ 8) (Suc (Suc (Suc (Suc (Suc (Suc (Suc (Suc 0))))))))"
    by (simp only:)
  also have "\<dots> = crc32_table"
    unfolding crc32_table_def by (simp add: table_powers)
  finally show ?thesis ..
qed

lemma table_nth: "i < 256 \<Longrightarrow> crc32_table ! i = (crc_bit ^^ 8) (word_of_nat i)"
  using xor_table_nth [of "crc_bit ^^ 8" i 8] by (simp add: table_is_xor_table crc_bits_linear crc_bits_0)

lemma table_index: "unat ((c AND 0xff) XOR ucast (v :: u8) :: u32) < 256" (is "unat ?x < 256")
proof -
  have "take_bit 8 ?x = ?x"
    unfolding mask_ff32 by (auto intro!: bit_word_eqI simp: bit_simps dest: u8_bit)
  then have "unat ?x = unat (take_bit 8 ?x)" by (simp only:)
  also have "\<dots> = take_bit 8 (unat ?x)" by (rule unsigned_take_bit_eq)
  also have "\<dots> < 2 ^ 8" by (rule take_bit_nat_less_exp)
  finally show ?thesis by simp
qed

lemma u32_bit: "bit (x :: u32) (8 + n) \<Longrightarrow> n < 24"
  by (drule bit_imp_le_length) simp

lemma u32_bit24: "bit (x :: u32) (24 + n) \<Longrightarrow> n < 8"
  by (drule bit_imp_le_length) simp

lemma crc32_u8_bits: "crc32_u8 c v = (crc_bit ^^ 8) (c XOR ucast v)"
proof -
  let ?x = "(c AND 0xff) XOR ucast v" and ?y = "c AND NOT 0xff"
  have "crc32_table ! unat ?x = (crc_bit ^^ 8) ?x" using table_nth [OF table_index] by simp
  moreover have "c XOR ucast v = ?x XOR ?y"
    unfolding mask_ff32 by (auto intro!: bit_word_eqI simp: bit_simps dest: u8_bit)
  moreover have "take_bit 8 ?y = 0" "drop_bit 8 ?y = drop_bit 8 c"
    unfolding mask_ff32 by (auto intro!: bit_word_eqI simp: bit_simps dest: u32_bit)
  ultimately show ?thesis by (simp add: crc32_u8_def crc_bits_xor)
qed

lemma crc32_u8_stream: "crc32_u8 c v = crc_stream c (map (bit v) [0..<8])"
proof -
  have "take_bit 8 (ucast v :: u32) = ucast v"
    by (auto intro!: bit_word_eqI simp: bit_simps dest: u8_bit)
  then show ?thesis using crc_stream_word [of 8 c v] by (simp add: crc32_u8_bits)
qed

lemma byte_bits:
  "map (bit (ucast (drop_bit n (u :: u32) AND 0xff) :: u8)) [0..<8] = map (bit u) [n..<n + 8]"
  unfolding mask_ff32 by (rule nth_equalityI) (auto simp: bit_simps)

lemma crc32_u32_stream: "crc32_u32 c u = crc_stream c (map (bit u) [0..<32])"
proof -
  have "[0..<32] = [0..<0 + 8] @ [8..<8 + 8] @ [16..<16 + 8] @ [24..<24 + 8 :: nat]"
    using upt_add_eq_append [of 0 8 24] upt_add_eq_append [of 8 16 16] upt_add_eq_append [of 16 24 8]
    by (simp del: upt_rec_numeral)
  then show ?thesis
    by (simp only: crc32_u32_def Let_def crc32_u8_stream crc_stream_simps map_append
        byte_bits [of 0 u, unfolded drop_bit_0 id_apply] byte_bits [of 8 u] byte_bits [of 16 u] byte_bits [of 24 u])
qed

section \<open>The assembly\<close>

text \<open>The linker script puts the table at \<open>0x500\<close>.\<close>

definition table_at :: "(addr \<Rightarrow> u32) \<Rightarrow> bool" where
  "table_at m \<longleftrightarrow> (\<forall>i < 256. m (0x500 + 4 * word_of_nat i) = crc32_table ! i)"

lemma crc32_u8_asm:
  assumes "table_at m"
  shows "crc32_u8_asm (ucast v) p m = m(p := crc32_u8 (m p) v)"
proof -
  let ?x = "(m p AND 0xff) XOR ucast v"
  have "m (0x500 + 4 * ?x) = crc32_table ! unat ?x"
    using assms table_index [of "m p" v] by (auto simp: table_at_def dest: spec [of _ "unat ?x"])
  moreover have "push_bit 2 (ucast v XOR (m p AND 0xff)) + push_bit 3 0xa0 = 0x500 + 4 * ?x"
    by (simp add: push_bit_eq_mult ac_simps)
  ultimately show ?thesis
    by (simp only: crc32_u8_asm_def crc32_u8_def ldrb_def Let_def) (simp add: ac_simps)
qed

lemma table_at_update: "table_at m \<Longrightarrow> \<forall>i < 256. p \<noteq> 0x500 + 4 * word_of_nat i \<Longrightarrow> table_at (m(p := x))"
  by (auto simp: table_at_def)

lemma crc32_u32_asm:
  assumes "table_at m" and p: "\<forall>i < 256. p \<noteq> 0x500 + 4 * word_of_nat i"
  shows "crc32_u32_asm u p m = m(p := crc32_u32 (m p) u)"
proof -
  have reg: "r AND 0xff = ucast (ucast (r AND 0xff) :: u8)" "drop_bit 24 r = ucast (ucast (drop_bit 24 r AND 0xff) :: u8)" for r :: u32
    unfolding mask_ff32 by (auto intro!: bit_word_eqI simp: bit_simps dest: u32_bit24)
  show ?thesis
    unfolding crc32_u32_asm_def uxtb_def Let_def crc32_u32_def
    by (subst reg, subst (2) reg, subst (3) reg, subst reg(2))
      (simp add: crc32_u8_asm table_at_update assms)
qed

section \<open>What the checksum is\<close>

lemma crc32_u8_fold: "foldl crc32_u8 c vs = crc_stream c (stream_of vs)"
  by (induction vs arbitrary: c) (simp_all add: crc32_u8_stream)

lemma crc32_u32_fold: "foldl crc32_u32 c us = crc_stream c (stream_of us)"
  by (induction us arbitrary: c) (simp_all add: crc32_u32_stream)

text \<open>A step on the memory that updates the word at \<open>p\<close>, as long as the table stays.\<close>

lemma fold_at:
  assumes step: "\<And>m u. table_at m \<Longrightarrow> f m u = m(p := g (m p) u)"
    and p: "\<forall>i < 256. p \<noteq> 0x500 + 4 * word_of_nat i" and "table_at m"
  shows "foldl f m us = m(p := foldl g (m p) us)"
  using assms(3)
  by (induction us arbitrary: m) (simp_all add: step table_at_update p)

text \<open>
  C22: The routines compute the CRC32 of the polynomial that the script names. On any memory
  with the table at its place, with the checksum kept outside it, the assembly that initialises the
  checksum and takes a list of words, or of bytes, leaves there the bit-serial CRC of all their bits,
  the low bit of each first, from all ones on, and changes no other cell. The C routines compute the
  same.
\<close>

theorem crc32_is_bit_serial:
  assumes "table_at m" "\<forall>i < 256. p \<noteq> 0x500 + 4 * word_of_nat i"
  shows "foldl (\<lambda>m u. crc32_u32_asm u p m) (crc32_init_asm p m) us =
      m(p := crc_stream 0xffffffff (stream_of us)) \<and>
    foldl (\<lambda>m v. crc32_u8_asm (ucast v) p m) (crc32_init_asm p m) vs =
      m(p := crc_stream 0xffffffff (stream_of vs)) \<and>
    foldl crc32_u32 crc32_init us = crc_stream 0xffffffff (stream_of us) \<and>
    foldl crc32_u8 crc32_init vs = crc_stream 0xffffffff (stream_of vs)"
proof -
  have i: "crc32_init_asm p m = m(p := crc32_init)"
    by (simp only: crc32_init_asm_def crc32_init_def Let_def) (rule arg_cong [of _ _ "fun_upd m p"], simp)
  have "foldl crc32_u32 crc32_init us = crc_stream 0xffffffff (stream_of us)"
    "foldl crc32_u8 crc32_init vs = crc_stream 0xffffffff (stream_of vs)"
    by (simp_all add: crc32_u32_fold crc32_u8_fold crc32_init_def)
  then show ?thesis
    unfolding i by (simp add: fold_at [where g = crc32_u32] fold_at [where g = crc32_u8] crc32_u32_asm crc32_u8_asm assms table_at_update)
qed

text \<open>A memory that holds the table.\<close>

definition table_memory :: "addr \<Rightarrow> u32" where
  "table_memory a = (if 0x500 \<le> a \<and> a < 0x900 then crc32_table ! (unat (a - 0x500) div 4) else 0)"

lemma table_memory: "table_at table_memory" "\<forall>i < 256. (0x20000100 :: addr) \<noteq> 0x500 + 4 * word_of_nat i"
proof -
  have u: "unat (0x500 + 4 * word_of_nat i :: addr) = 0x500 + 4 * i" if "i < 256" for i
    using that by (simp add: unat_word_ariths unat_of_nat)
  then have a: "(0x500 :: addr) \<le> 0x500 + 4 * word_of_nat i \<and> 0x500 + 4 * word_of_nat i < (0x900 :: addr)" if "i < 256" for i
    using that by (simp add: word_le_nat_alt word_less_nat_alt)
  have "unat (4 * word_of_nat i :: addr) = 4 * i" if "i < 256" for i
    using that by (simp add: unat_word_ariths unat_of_nat)
  then show "table_at table_memory"
    using a by (simp add: table_at_def table_memory_def)
  show "\<forall>i < 256. (0x20000100 :: addr) \<noteq> 0x500 + 4 * word_of_nat i"
  proof (intro allI impI notI)
    fix i :: nat
    assume "i < 256" and e: "(0x20000100 :: addr) = 0x500 + 4 * word_of_nat i"
    then show False using u [of i] unfolding e [symmetric] by simp
  qed
qed

text \<open>The checksum of the digits 1 to 9, complemented, is the check value of this CRC.\<close>

theorem crc32_is_bit_serial_witness:
  "foldl (\<lambda>m v. crc32_u8_asm (ucast (v :: u8)) 0x20000100 m) (crc32_init_asm 0x20000100 table_memory)
      [0x31, 0x32, 0x33, 0x34, 0x35, 0x36, 0x37, 0x38, 0x39] 0x20000100 = NOT 0xCBF43926"
proof -
  have "crc_stream 0xffffffff (stream_of [0x31, 0x32, 0x33, 0x34, 0x35, 0x36, 0x37, 0x38, 0x39 :: u8]) = NOT 0xCBF43926"
    by (simp add: crc_bit_def upt_rec)
  then show ?thesis
    using crc32_is_bit_serial [OF table_memory, where us = "[]"
        and vs = "[0x31, 0x32, 0x33, 0x34, 0x35, 0x36, 0x37, 0x38, 0x39]"]
    by (simp only: fun_upd_same)
qed

section \<open>Errors that it detects\<close>

text \<open>A step can be undone: the high bit tells whether the polynomial was added.\<close>

lemma crc_bit_inj:
  assumes "crc_bit c = crc_bit d"
  shows "c = d"
proof (rule bit_word_eqI)
  have high: "bit (crc_bit x) 31 \<longleftrightarrow> bit x 0" for x
    by (auto simp: crc_bit_def bit_simps dest: bit_imp_le_length)
  then have low: "bit c 0 \<longleftrightarrow> bit d 0" using assms by metis
  have "drop_bit 1 x = (if bit x 0 then 0xEDB88320 XOR crc_bit x else crc_bit x)" for x
    by (simp add: crc_bit_def flip: xor.assoc)
  then have "drop_bit 1 c = drop_bit 1 d" using assms low by metis
  then have "bit (drop_bit 1 c) n \<longleftrightarrow> bit (drop_bit 1 d) n" for n by (simp only:)
  then show "bit c n \<longleftrightarrow> bit d n" for n
    using low by (cases n) (simp_all add: bit_drop_bit_eq)
qed

lemma xor_cancel:
  "x XOR y = z XOR y \<Longrightarrow> x = (z :: u32)"
  "y XOR x = y XOR z \<Longrightarrow> x = z"
proof -
  show right: "x XOR y = z XOR y \<Longrightarrow> x = z" for x y z :: u32
    by (drule arg_cong [of _ _ "\<lambda>a. a XOR y"]) (simp add: xor.assoc)
  show "y XOR x = y XOR z \<Longrightarrow> x = z" by (rule right [of x y z]) (simp only: xor.commute)
qed

lemma crc_bits_inj: "(crc_bit ^^ n) c = (crc_bit ^^ n) d \<Longrightarrow> c = d"
  by (induction n) (auto dest: crc_bit_inj)

lemma crc_stream_inj: "crc_stream c bs = crc_stream d bs \<Longrightarrow> c = d"
proof (induction bs arbitrary: c d)
  case (Cons b bs)
  then have "crc_bit (c XOR of_bool b) = crc_bit (d XOR of_bool b)" by simp
  then have "c XOR of_bool b = d XOR of_bool b" by (rule crc_bit_inj)
  then show ?case by (rule xor_cancel)
qed simp

lemma crc_stream_burst:
  assumes "length bs = length bs'" "length bs \<le> 32" "crc_stream c bs = crc_stream c bs'"
  shows "bs = bs'"
proof -
  let ?w = "\<lambda>bs. horner_sum of_bool 2 bs :: u32"
  have bits: "map (bit (?w bs)) [0..<length bs] = bs" if "length bs \<le> 32" for bs
    using that by (intro nth_equalityI) (auto simp: bit_horner_sum_bit_word_iff)
  note e = bits [OF assms(2)] bits [of bs', folded assms(1), OF assms(2)]
  have "crc_stream c (map (bit (?w bs)) [0..<length bs]) = crc_stream c (map (bit (?w bs')) [0..<length bs])"
    by (simp only: e assms(3))
  then have "(crc_bit ^^ length bs) (c XOR take_bit (length bs) (?w bs)) =
      (crc_bit ^^ length bs) (c XOR take_bit (length bs) (?w bs'))"
    using assms(2) by (simp add: crc_stream_word)
  then have "take_bit (length bs) (?w bs) = take_bit (length bs) (?w bs')"
    by (rule xor_cancel(2) [OF crc_bits_inj])
  then have "bit (?w bs) n = bit (?w bs') n" if "n < length bs" for n
    using that by (metis bit_take_bit_iff)
  then have "map (bit (?w bs)) [0..<length bs] = map (bit (?w bs')) [0..<length bs]" by simp
  then show ?thesis by (simp only: e)
qed

text \<open>
  C23: A burst of errors is detected. Two messages of bytes whose bits agree but for a stretch of at
  most 32 consecutive bits, in which they differ, have different checksums, whatever comes before and
  after, and from whichever value the checksum starts.
\<close>

theorem crc32_detects_burst:
  assumes "stream_of (vs :: u8 list) = as @ bs @ cs" "stream_of (vs' :: u8 list) = as @ bs' @ cs"
    and "length bs = length bs'" "length bs \<le> 32" "bs \<noteq> bs'"
  shows "foldl crc32_u8 c vs \<noteq> foldl crc32_u8 c vs'"
  using crc_stream_burst [OF assms(3,4)] crc_stream_inj assms(5) by (auto simp: crc32_u8_fold assms(1,2))

text \<open>One flipped bit.\<close>

theorem crc32_detects_burst_witness:
  "foldl crc32_u8 crc32_init [0x31, 0x32] \<noteq> foldl crc32_u8 crc32_init [0x31, 0x36]"
  by (rule crc32_detects_burst [where as = "stream_of [0x31 :: u8] @ [False, True]" and bs = "[False]"
        and bs' = "[True]" and cs = "[False, True, True, False, False]"])
    (simp_all add: upt_rec)

end
