(* ===== verification/Shell.thy ===== *)
theory Shell
  imports Flash_File Crc32
begin

text \<open>
  The command interpreter of \<open>example-cdc-gnu-linux/command.c\<close>, which runs on a line received from
  the virtual serial port: the parsers and printers of numbers, the commands that show memory, erase and
  write the flash memory (\<open>Flash_File\<close>), show numbers of the converter (\<open>contrib/adc-gnu-linux.c\<close>) and
  information on the system, and the dispatcher.

  A string is the list of its characters before the terminating zero. What is sent to the terminal is
  the list of the buffers given to \<open>tty_send\<close>, whose result the commands do not use. \<open>uintptr_t\<close> has 64 bits.
  The count of a command is an \<open>int\<close>: a line whose digits overflow it has no defined meaning in C, and the
  command is then \<open>None\<close>.
\<close>

unbundle bit_operations_syntax

section \<open>State\<close>

text \<open>
  What the program is given: the system calls for the file, the rest of its memory, the numbers that
  \<open>random\<close> returns, and the board.
\<close>

record shell_env =
  env_os :: os
  env_memory :: "u64 \<Rightarrow> u8"
  env_random :: "nat \<Rightarrow> u32"
  env_board_id :: u32
  env_board_name :: "u8 list"

record shell =
  sent :: "u8 list list"
  flash :: flash_file
  adc_initialized :: bool
  adc_buf :: "u32 list"
  randoms :: nat

definition str :: "string \<Rightarrow> u8 list" where
  "str s = map of_char s"

definition crlf :: "u8 list" where
  "crlf = [0x0d, 0x0a]"

definition tty_send_buf :: "u8 list \<Rightarrow> shell \<Rightarrow> shell" where
  "tty_send_buf b st = st\<lparr>sent := sent st @ [b]\<rparr>"

definition put_line :: "u8 list \<Rightarrow> shell \<Rightarrow> shell" where
  "put_line line st = tty_send_buf line st"

text \<open>A byte of memory: of the mapped file, or another.\<close>

definition read_byte :: "shell_env \<Rightarrow> shell \<Rightarrow> u64 \<Rightarrow> u8" where
  "read_byte env st a =
     (if unat (a - flash_addr (flash st)) < length (contents (flash st))
      then contents (flash st) ! unat (a - flash_addr (flash st)) else env_memory env a)"

definition sys_version :: "u8 list" where
  "sys_version = [3*2+2, 0x03, 0x33, 0, 0x2e, 0, 0x30, 0]"

section \<open>Numbers\<close>

definition hexchar :: "u8 \<Rightarrow> u8" where
  "hexchar x =
     (let x = x AND 0x0f
      in if x \<le> 0x09 then 0x30 + x else if x \<le> 0x0f then 0x61 + x - 10 else 0x3f)"

text \<open>
  \<open>compose_decimal\<close>: the loop over the powers of ten, with the digits written so far. It is compiled
  only with the touch sensor.
\<close>

function decimal_loop :: "u32 \<Rightarrow> u32 \<Rightarrow> bool \<Rightarrow> u8 list \<Rightarrow> u8 list" where
  "decimal_loop v col digit_output s =
     (if 10 \<le> col then
        (if col \<le> v then
           (let d = v div col;
                v = v - d * col;
                s = s @ [ucast d + 0x30]
            in decimal_loop v (col div 10) True s)
         else if digit_output then decimal_loop v (col div 10) digit_output (s @ [0x30])
         else decimal_loop v (col div 10) digit_output s)
      else s @ [ucast v + 0x30])"
  by auto
termination
  by (relation "measure (\<lambda>(v, col, d, s). unat col)") (simp_all add: unat_div word_le_nat_alt)

declare decimal_loop.simps [simp del]

definition compose_decimal :: "u32 \<Rightarrow> u8 list" where
  "compose_decimal value =
     (let s = [];
          (v, s) = (if value <s 0 then (1 + NOT value, s @ [0x2d]) else (value, s))
      in decimal_loop v 1000000000 False s)"

definition compose_hex_ptr :: "u64 \<Rightarrow> u8 list" where
  "compose_hex_ptr v =
     [hexchar (ucast (drop_bit 60 v)), hexchar (ucast (drop_bit 56 v)), hexchar (ucast (drop_bit 52 v)),
      hexchar (ucast (drop_bit 48 v)), hexchar (ucast (drop_bit 44 v)), hexchar (ucast (drop_bit 40 v)),
      hexchar (ucast (drop_bit 36 v)), hexchar (ucast (drop_bit 32 v)), hexchar (ucast (drop_bit 28 v)),
      hexchar (ucast (drop_bit 24 v)), hexchar (ucast (drop_bit 20 v)), hexchar (ucast (drop_bit 16 v)),
      hexchar (ucast (drop_bit 12 v)), hexchar (ucast (drop_bit 8 v)), hexchar (ucast (drop_bit 4 v)),
      hexchar (ucast v)]"

definition compose_hex :: "u32 \<Rightarrow> u8 list" where
  "compose_hex v =
     [hexchar (ucast (drop_bit 28 v)), hexchar (ucast (drop_bit 24 v)), hexchar (ucast (drop_bit 20 v)),
      hexchar (ucast (drop_bit 16 v)), hexchar (ucast (drop_bit 12 v)), hexchar (ucast (drop_bit 8 v)),
      hexchar (ucast (drop_bit 4 v)), hexchar (ucast v)]"

definition compose_hex_byte :: "u8 \<Rightarrow> u8 list" where
  "compose_hex_byte v = [hexchar (drop_bit 4 v), hexchar v]"

text \<open>The value and the rest of the line, after the blank that ended the number.\<close>

fun get_hex_loop :: "u64 \<Rightarrow> u8 list \<Rightarrow> (u64 \<times> u8 list) option" where
  "get_hex_loop v [] = Some (v, [])"
| "get_hex_loop v (c # s) =
     (if c = 0x20 then Some (v, s)
      else (let v = push_bit 4 v
            in if 0x30 \<le> c \<and> c \<le> 0x39 then get_hex_loop (v + ucast (c - 0x30)) s
               else if 0x61 \<le> c \<and> c \<le> 0x66 then get_hex_loop (v + ucast (c - 0x61) + 10) s
               else if 0x41 \<le> c \<and> c \<le> 0x46 then get_hex_loop (v + ucast (c - 0x41) + 10) s
               else None))"

definition get_hex :: "u8 list \<Rightarrow> shell \<Rightarrow> (u64 \<times> u8 list) option \<times> shell" where
  "get_hex s st =
     (let s = (if take 2 s = [0x30, 0x78] then drop 2 s else s)
      in case get_hex_loop 0 s of
           None \<Rightarrow> (None, put_line (str ''hex error'' @ crlf) st)
         | Some r \<Rightarrow> (Some r, st))"

text \<open>The count of a command, as each command parses it.\<close>

datatype count = Count int | Not_a_count | Overflow

fun get_count_loop :: "int \<Rightarrow> u8 list \<Rightarrow> count" where
  "get_count_loop count [] = Count count"
| "get_count_loop count (c # s) =
     (if c = 0x20 then Count count
      else (let count = count * 10
            in if 2 ^ 31 \<le> count then Overflow
               else if 0x30 \<le> c \<and> c \<le> 0x39 then
                 (let count = count + int (unat (c - 0x30))
                  in if 2 ^ 31 \<le> count then Overflow else get_count_loop count s)
               else Not_a_count))"

definition get_count :: "u8 list \<Rightarrow> count" where
  "get_count s = (if s = [] then Count 1 else get_count_loop 0 s)"

section \<open>The commands on memory\<close>

text \<open>
  \<open>mdb\<close>: a row shows bytes up to the end of the count or a multiple of 16; \<open>get\<close> reads a byte of memory.
\<close>

function mdb_row :: "(u64 \<Rightarrow> u8) \<Rightarrow> nat \<Rightarrow> nat \<Rightarrow> u64 \<Rightarrow> u8 list \<Rightarrow> u8 list \<times> nat \<times> u64" where
  "mdb_row get count i addr s =
     (let v = get addr;
          s = s @ compose_hex_byte v;
          i = i + 1;
          addr = addr + 1
      in if count \<le> i \<or> i mod 16 = 0 then (s, i, addr) else mdb_row get count i addr (s @ [0x20]))"
  by auto
termination by (relation "measure (\<lambda>(get, count, i, addr, s). count - i)") auto

declare mdb_row.simps [simp del]

lemma mdb_row_advances: "i < fst (snd (mdb_row get count i addr s))"
proof (induction get count i addr s rule: mdb_row.induct)
  case (1 get count i addr s)
  then show ?case by (subst mdb_row.simps) (fastforce simp: Let_def)
qed

lemma mdb_row_less: "(s', i', addr') = mdb_row get count i addr s \<Longrightarrow> i < i'"
  using mdb_row_advances [of i get count addr s] by (metis fst_conv snd_conv)

function mdb_loop :: "shell_env \<Rightarrow> nat \<Rightarrow> nat \<Rightarrow> u64 \<Rightarrow> shell \<Rightarrow> shell" where
  "mdb_loop env count i addr st =
     (if i < count then
        (let s = compose_hex_ptr addr @ [0x3a, 0x20];
             (s, i, addr) = mdb_row (read_byte env st) count i addr s
         in mdb_loop env count i addr (tty_send_buf (s @ crlf) st))
      else st)"
  by auto
termination
  by (relation "measure (\<lambda>(env, count, i, addr, st). count - i)") (auto dest!: mdb_row_less intro!: diff_less_mono2)

declare mdb_loop.simps [simp del]

definition cmd_mdb :: "shell_env \<Rightarrow> u8 list \<Rightarrow> shell \<Rightarrow> shell option" where
  "cmd_mdb env line st =
     (case get_hex line st of
        (None, st) \<Rightarrow> Some st
      | (Some (addr, s), st) \<Rightarrow>
          (let addr = addr AND NOT 3
           in case get_count s of
                Overflow \<Rightarrow> None
              | Not_a_count \<Rightarrow> Some (put_line (str ''mdb error'' @ crlf) st)
              | Count count \<Rightarrow> Some (mdb_loop env (nat count) 0 addr st)))"

definition cmd_mwh :: "shell_env \<Rightarrow> u8 list \<Rightarrow> shell \<Rightarrow> shell option" where
  "cmd_mwh env line st = Some (put_line (str ''mwh not yet supported'' @ crlf) st)"

section \<open>The commands on the flash memory\<close>

primrec fes_loop :: "os \<Rightarrow> nat \<Rightarrow> u64 \<Rightarrow> shell \<Rightarrow> shell" where
  "fes_loop os 0 addr st = st"
| "fes_loop os (Suc n) addr st =
     (let st = st\<lparr>flash := snd (file_flash_erase_page os addr (flash st))\<rparr>
      in fes_loop os n (addr + 1024) st)"

definition cmd_fes :: "shell_env \<Rightarrow> u8 list \<Rightarrow> shell \<Rightarrow> shell option" where
  "cmd_fes env line st =
     (case get_hex line st of
        (None, st) \<Rightarrow> Some st
      | (Some (addr, s), st) \<Rightarrow>
          (case get_count s of
             Overflow \<Rightarrow> None
           | Not_a_count \<Rightarrow> Some (put_line (str ''fww error'' @ crlf) st)
           | Count count \<Rightarrow> Some (fes_loop (env_os env) (nat count) addr st)))"

primrec fwh_loop :: "os \<Rightarrow> u16 \<Rightarrow> nat \<Rightarrow> u64 \<Rightarrow> shell \<Rightarrow> shell" where
  "fwh_loop os value 0 addr st = st"
| "fwh_loop os value (Suc n) addr st =
     (let st = st\<lparr>flash := snd (file_flash_program_halfword os addr value (flash st))\<rparr>
      in fwh_loop os value n (addr + 4) st)"

definition cmd_fwh :: "shell_env \<Rightarrow> u8 list \<Rightarrow> shell \<Rightarrow> shell option" where
  "cmd_fwh env line st =
     (case get_hex line st of
        (None, st) \<Rightarrow> Some st
      | (Some (addr, s), st) \<Rightarrow>
          (if s = [] then Some st
           else (case get_hex s st of
             (None, st) \<Rightarrow> Some st
           | (Some (d, s), st) \<Rightarrow>
               (let value = ucast d
                in case get_count s of
                     Overflow \<Rightarrow> None
                   | Not_a_count \<Rightarrow> Some (put_line (str ''fww error'' @ crlf) st)
                   | Count count \<Rightarrow> Some (fwh_loop (env_os env) value (nat count) addr st)))))"

section \<open>The checksum, the converter and the system\<close>

text \<open>\<open>crc32\<close> is compiled where the system part has the routines (\<open>CRC32_SUPPORT\<close>).\<close>

definition cmd_crc32 :: "shell_env \<Rightarrow> u8 list \<Rightarrow> shell \<Rightarrow> shell option" where
  "cmd_crc32 env line st =
     (let crc_value = foldl crc32_u8 crc32_init line;
          v = crc_value XOR 0xffffffff
      in Some (tty_send_buf (compose_hex v @ crlf) st))"

text \<open>The converter of the emulation: \<open>adc_init\<close> succeeds, and a conversion stores random numbers.\<close>

primrec adc_start_conversion :: "shell_env \<Rightarrow> nat \<Rightarrow> nat \<Rightarrow> shell \<Rightarrow> shell" where
  "adc_start_conversion env offset 0 st = st"
| "adc_start_conversion env offset (Suc count) st =
     (let st = st\<lparr>adc_buf := (adc_buf st)[offset := env_random env (randoms st)], randoms := randoms st + 1\<rparr>
      in adc_start_conversion env (offset + 1) count st)"

definition adc_init :: "shell \<Rightarrow> int \<times> shell" where
  "adc_init st = (0, st\<lparr>randoms := 0\<rparr>)"

definition adc_wait_completion :: int where
  "adc_wait_completion = 0"

function adc_print :: "nat \<Rightarrow> u8 list \<Rightarrow> shell \<Rightarrow> shell" where
  "adc_print i s st =
     (let s = s @ compose_hex (adc_buf st ! i);
          i = i + 1
      in if i mod 8 \<noteq> 0 then adc_print i (s @ [0x20]) st
         else (let st = tty_send_buf (s @ crlf) st
               in if 64 \<le> i then st else adc_print i [] st))"
  by auto
termination
  by (relation "measures [\<lambda>(i, s, st). 64 - i, \<lambda>(i, s, st). 8 - i mod 8]") (auto simp: mod_Suc split: if_splits)

declare adc_print.simps [simp del]

definition cmd_adc :: "shell_env \<Rightarrow> u8 list \<Rightarrow> shell \<Rightarrow> shell option" where
  "cmd_adc env line st =
     (let (ok, st) =
        (if \<not> adc_initialized st then
           (let (e, st) = adc_init st
            in if e \<noteq> 0 then (False, put_line (str ''adc_init error'' @ crlf) st)
               else (True, st\<lparr>adc_initialized := True\<rparr>))
         else (True, st))
      in if \<not> ok then Some st
         else (let st = adc_start_conversion env 0 64 st
               in Some (adc_print 0 [] st)))"

text \<open>
  The name of the board is copied to a buffer of 73 bytes behind the twelve of its title; \<open>None\<close> when it
  does not fit.
\<close>

definition cmd_sysinfo :: "shell_env \<Rightarrow> u8 list \<Rightarrow> shell \<Rightarrow> shell option" where
  "cmd_sysinfo env line st =
     (let output = str ''SYS version: '' @ [sys_version ! 2, sys_version ! 4, sys_version ! 6] @ crlf;
          st = tty_send_buf output st;
          output = str ''Board ID: '' @ compose_hex (env_board_id env) @ crlf;
          st = tty_send_buf output st;
          output = str ''Board name: '' @ take 71 (env_board_name env) @ crlf
      in if 73 < length output then None else Some (tty_send_buf output st))"

definition help_string :: "u8 list" where
  "help_string =
     str ''mdb ADDR [COUNT];       memory display byte'' @ crlf @
     str ''mwh ADDR VALUE [COUNT]; memory write halfword'' @ crlf @
     str ''fes ADDR [COUNT];       flash erase sector'' @ crlf @
     str ''fwh ADDR VALUE [COUNT]; flash write halfword'' @ crlf @
     str ''adc;                    get 256-byte from ADC'' @ crlf @
     str ''sysinfo;                system information'' @ crlf @
     str ''help'' @ crlf"

definition cmd_help :: "shell_env \<Rightarrow> u8 list \<Rightarrow> shell \<Rightarrow> shell option" where
  "cmd_help env line st = Some (put_line help_string st)"

section \<open>The dispatcher\<close>

definition command_table :: "(u8 list \<times> (shell_env \<Rightarrow> u8 list \<Rightarrow> shell \<Rightarrow> shell option)) list" where
  "command_table =
     [(str ''mdb'', cmd_mdb), (str ''mwh'', cmd_mwh), (str ''fes'', cmd_fes), (str ''fwh'', cmd_fwh),
      (str ''adc'', cmd_adc), (str ''sysinfo'', cmd_sysinfo), (str ''help'', cmd_help)]"

text \<open>The length of the first word and the rest of the line, after the blank that ends the word.\<close>

fun first_word :: "nat \<Rightarrow> u8 list \<Rightarrow> nat \<times> u8 list" where
  "first_word n [] = (n, [])"
| "first_word n (c # p) = (if c = 0x20 then (n, p) else first_word (n + 1) p)"

text \<open>\<open>strncmp\<close> of the first \<open>n\<close> characters.\<close>

definition find_command :: "nat \<Rightarrow> u8 list \<Rightarrow> (shell_env \<Rightarrow> u8 list \<Rightarrow> shell \<Rightarrow> shell option) option" where
  "find_command n line =
     map_option snd (find (\<lambda>(name, _). n = length name \<and> take n line = take n name) command_table)"

definition cmd_dispatch :: "shell_env \<Rightarrow> u8 list \<Rightarrow> shell \<Rightarrow> shell option" where
  "cmd_dispatch env line st =
     (let (n, p) = first_word 0 line
      in case find_command n line of
           Some handler \<Rightarrow> handler env p st
         | None \<Rightarrow>
             (let st = put_line (str ''No such command: '') st;
                  st = tty_send_buf (take n line) st
              in Some (tty_send_buf crlf st)))"

end
