(* ===== verification/Shell_Commands.thy ===== *)
theory Shell_Commands
  imports Shell
begin

text \<open>
  What the commands of \<open>Shell\<close> do, from the line that is typed: numbers that were printed are read
  back, \<open>mdb\<close> shows the memory, \<open>fwh\<close> writes the file. A line of dump is built by a reference
  (\<open>dump\<close>) that splits the bytes in rows of sixteen.
\<close>

unbundle bit_operations_syntax

section \<open>Hexadecimal numbers\<close>

abbreviation nibbles :: "u8 set" where
  "nibbles \<equiv> {0, 1, 2, 3, 4, 5, 6, 7, 8, 9, 10, 11, 12, 13, 14, 15}"

lemma nibble_cases: "x AND 0x0f \<in> nibbles"
proof -
  have "(0x0f :: u8) = mask 4" by (simp add: mask_eq_exp_minus_1)
  then have "unat (x AND 0x0f) = take_bit 4 (unat x)"
    by (simp only: take_bit_eq_mask [symmetric] unsigned_take_bit_eq)
  also have "\<dots> < 2 ^ 4" by (rule take_bit_nat_less_exp)
  finally have "unat (x AND 0x0f) < 16" by simp
  moreover have "n < 16 \<Longrightarrow> word_of_nat n \<in> nibbles" for n :: nat
    by (simp add: eval_nat_numeral less_Suc_eq) (elim disjE, simp_all)
  ultimately have "word_of_nat (unat (x AND 0x0f)) \<in> nibbles" by blast
  then show ?thesis by simp
qed

text \<open>A hexadecimal digit is read back, and none is the \<open>x\<close> of a prefix or a blank.\<close>

lemma nibble_digit:
  assumes "y \<in> nibbles"
  defines "c \<equiv> (if y \<le> 0x09 then 0x30 + y else if y \<le> 0x0f then 0x61 + y - 10 else 0x3f)"
  shows "get_hex_loop v (c # s) = get_hex_loop (push_bit 4 v + ucast y) s" "c \<noteq> 0x78"
proof -
  show "c \<noteq> 0x78"
    using assms(1) unfolding c_def by (elim insertE emptyE; hypsubst; simp)
  show "get_hex_loop v (c # s) = get_hex_loop (push_bit 4 v + ucast y) s"
    using assms(1) unfolding c_def get_hex_loop.simps Let_def
    by (elim insertE emptyE; hypsubst; simp add: add.commute [of "push_bit 4 v"])
qed

lemma get_hex_digit: "get_hex_loop v (hexchar x # s) = get_hex_loop (push_bit 4 v + ucast (x AND 0x0f)) s"
  unfolding hexchar_def Let_def by (rule nibble_digit(1) [OF nibble_cases])

lemma hexchar_not_x: "hexchar x \<noteq> 0x78"
  unfolding hexchar_def Let_def by (rule nibble_digit(2) [OF nibble_cases])

lemma nibble_joins:
  "push_bit 4 (drop_bit (n + 4) v) + ucast (ucast (drop_bit n v) AND 0x0f :: u8) = drop_bit n (v :: u64)"
proof -
  have f: "(0x0f :: u8) = mask 4" by (simp add: mask_eq_exp_minus_1)
  have "push_bit 4 (drop_bit (n + 4) v) AND ucast (ucast (drop_bit n v) AND 0x0f :: u8) = 0"
    unfolding f by (auto intro!: bit_word_eqI simp: bit_simps)
  then have "push_bit 4 (drop_bit (n + 4) v) + ucast (ucast (drop_bit n v) AND 0x0f :: u8) =
      push_bit 4 (drop_bit (n + 4) v) OR ucast (ucast (drop_bit n v) AND 0x0f :: u8)"
    by (rule disjunctive_add_eq_or)
  also have "\<dots> = drop_bit n v"
    unfolding f by (auto intro!: bit_word_eqI simp: bit_simps)
  finally show ?thesis .
qed

lemma drop_64: "drop_bit 64 (v :: u64) = 0"
  by (rule bit_word_eqI) (auto simp: bit_simps dest: bit_imp_le_length)

lemma get_hex_loop_compose:
  "get_hex_loop 0 (compose_hex_ptr v @ s) = get_hex_loop v s"
proof -
  have "push_bit 4 0 + ucast (ucast (drop_bit 60 v) AND 0x0f :: u8) = drop_bit 60 v"
    using nibble_joins [of 60 v] drop_64 [of v] by simp
  then show ?thesis
    using nibble_joins [of 56 v] nibble_joins [of 52 v] nibble_joins [of 48 v] nibble_joins [of 44 v]
      nibble_joins [of 40 v] nibble_joins [of 36 v] nibble_joins [of 32 v] nibble_joins [of 28 v]
      nibble_joins [of 24 v] nibble_joins [of 20 v] nibble_joins [of 16 v] nibble_joins [of 12 v]
      nibble_joins [of 8 v] nibble_joins [of 4 v] nibble_joins [of 0 v]
    by (simp add: compose_hex_ptr_def get_hex_digit del: get_hex_loop.simps)
qed

lemma get_hex_compose:
  "get_hex (compose_hex_ptr v @ 0x20 # s) st = (Some (v, s), st)"
  "get_hex (compose_hex_ptr v) st = (Some (v, []), st)"
  "get_hex (0x30 # 0x78 # compose_hex_ptr v @ 0x20 # s) st = (Some (v, s), st)"
proof -
  have p: "take 2 (compose_hex_ptr v @ t) \<noteq> [0x30, 0x78]" for t
    by (simp add: compose_hex_ptr_def hexchar_not_x)
  show "get_hex (compose_hex_ptr v @ 0x20 # s) st = (Some (v, s), st)"
    "get_hex (0x30 # 0x78 # compose_hex_ptr v @ 0x20 # s) st = (Some (v, s), st)"
    using p [of "0x20 # s"] by (simp_all add: get_hex_def get_hex_loop_compose)
  show "get_hex (compose_hex_ptr v) st = (Some (v, []), st)"
    using p [of "[]"] get_hex_loop_compose [of v "[]"] by (simp add: get_hex_def)
qed

section \<open>Decimal numbers\<close>

lemma decimal_loop_append: "decimal_loop v col b (t @ s) = t @ decimal_loop v col b s"
proof (induction v col b s rule: decimal_loop.induct)
  case (1 v col b s)
  show ?case
    by (subst (1 2) decimal_loop.simps) (use 1 in \<open>auto simp: Let_def\<close>)
qed

lemma decimal_loop_Cons: "decimal_loop v col b (x # s) = x # decimal_loop v col b s"
  using decimal_loop_append [of v col b "[x]" s] by simp

lemma get_count_digit:
  "d < 10 \<Longrightarrow> 0 \<le> c \<Longrightarrow> c * 10 + int d < 2 ^ 31 \<Longrightarrow>
    get_count_loop c ((word_of_nat d + 0x30) # s) = get_count_loop (c * 10 + int d) s"
proof -
  assume d: "d < 10" "0 \<le> c" "c * 10 + int d < 2 ^ 31"
  have u: "unat (word_of_nat d :: u8) = d" using d(1) by (simp add: unat_of_nat)
  then have "unat (word_of_nat d + 0x30 :: u8) = d + 0x30" using d(1) by (simp add: unat_word_ariths)
  then show ?thesis
    using d u by (auto simp: Let_def word_le_nat_alt word_unat_eq_iff)
qed

text \<open>
  The digits from the power \<open>10 ^ k\<close> on: once a digit was written, exactly \<open>k + 1\<close> are.
\<close>

lemma ucast_digit: "d < 10 \<Longrightarrow> ucast (word_of_nat d :: u32) = (word_of_nat d :: u8)"
  by (simp add: unsigned_of_nat take_bit_nat_eq_self)

lemma decimal_step:
  assumes "k < 9" "n < 2 ^ 31"
  defines "v \<equiv> word_of_nat n :: u32" and "col \<equiv> word_of_nat (10 ^ Suc k) :: u32"
  shows "v div col = word_of_nat (n div 10 ^ Suc k)" "v - word_of_nat (n div 10 ^ Suc k) * col = word_of_nat (n mod 10 ^ Suc k)"
    and "col \<le> v \<longleftrightarrow> 10 ^ Suc k \<le> n" "10 \<le> col" "col div 10 = word_of_nat (10 ^ k)"
proof -
  have "(10 :: nat) ^ Suc k \<le> 10 ^ 9" using assms(1) by (intro power_increasing) simp_all
  then have p: "(10 :: nat) ^ Suc k < 2 ^ 32" by (rule order.strict_trans1) simp
  have u: "unat v = n" "unat col = 10 ^ Suc k"
    unfolding v_def col_def unat_of_nat using assms(2) p by simp_all
  have small: "unat (word_of_nat j :: u32) = j" if "j \<le> n \<or> j \<le> 10 ^ Suc k" for j
    unfolding unat_of_nat using that assms(2) p by auto
  show d: "v div col = word_of_nat (n div 10 ^ Suc k)"
    by (simp only: word_unat_eq_iff unat_div u small div_le_dividend simp_thms)
  show "v - word_of_nat (n div 10 ^ Suc k) * col = word_of_nat (n mod 10 ^ Suc k)"
    unfolding d [symmetric] by (simp only: minus_div_mult_eq_mod word_unat_eq_iff unat_mod u small mod_less_eq_dividend simp_thms)
  show "col \<le> v \<longleftrightarrow> 10 ^ Suc k \<le> n" by (simp only: word_le_nat_alt u)
  show "10 \<le> col" by (simp add: word_le_nat_alt u)
  have "unat (col div 10) = 10 ^ k" by (simp add: unat_div u)
  moreover have "unat (word_of_nat (10 ^ k) :: u32) = 10 ^ k" by (rule small) simp
  ultimately show "col div 10 = word_of_nat (10 ^ k)" by (simp only: word_unat_eq_iff)
qed

lemma decimal_digit:
  assumes "k < 9" "n < 2 ^ 31" "n < 10 ^ Suc (Suc k)" "b \<or> 10 ^ Suc k \<le> n"
  shows "decimal_loop (word_of_nat n) (word_of_nat (10 ^ Suc k)) b [] =
    (word_of_nat (n div 10 ^ Suc k) + 0x30) # decimal_loop (word_of_nat (n mod 10 ^ Suc k)) (word_of_nat (10 ^ k)) True []"
proof -
  note st = decimal_step [OF assms(1,2)]
  have d: "n div 10 ^ Suc k < 10" using assms(3) by (simp add: div_less_iff_less_mult mult.commute)
  show ?thesis
  proof (cases "10 ^ Suc k \<le> n")
    case True
    then show ?thesis
      by (subst decimal_loop.simps) (simp only: st Let_def ucast_digit [OF d] if_True append_Nil decimal_loop_Cons)
  next
    case False
    then have "n div 10 ^ Suc k = 0" "n mod 10 ^ Suc k = n" "b" using assms(4) by simp_all
    moreover have "word_of_nat 0 + 0x30 = (0x30 :: u8)" by simp
    ultimately show ?thesis using False
      by (subst decimal_loop.simps)
        (simp only: st Let_def if_True if_False simp_thms append_Nil decimal_loop_Cons append_Cons)
  qed
qed

lemma int_div_mod: "int n = int (n div 10 ^ j) * 10 ^ j + int (n mod 10 ^ j)"
proof -
  have "int n = int (n div 10 ^ j * 10 ^ j + n mod 10 ^ j)" by (simp only: div_mult_mod_eq)
  then show ?thesis by simp
qed

lemma get_count_decimal:
  "k \<le> 9 \<Longrightarrow> n < 10 ^ Suc k \<Longrightarrow> n < 2 ^ 31 \<Longrightarrow> 0 \<le> c \<Longrightarrow> c * 10 ^ Suc k + int n < 2 ^ 31 \<Longrightarrow> b \<or> c = 0 \<Longrightarrow>
   get_count_loop c (decimal_loop (word_of_nat n) (word_of_nat (10 ^ k)) b [] @ s) =
   get_count_loop (c * 10 ^ Suc k + int n) s"
proof (induction k arbitrary: n c b)
  case 0
  then show ?case
    by (subst decimal_loop.simps) (simp add: ucast_digit get_count_digit word_le_nat_alt del: get_count_loop.simps)
next
  case (Suc k)
  let ?d = "n div 10 ^ Suc k" and ?m = "n mod 10 ^ Suc k"
  have k: "k < 9" "k \<le> 9" using Suc.prems(1) by simp_all
  have n: "int n = int ?d * 10 ^ Suc k + int ?m"
    by (rule int_div_mod)
  show ?case
  proof (cases "b \<or> 10 ^ Suc k \<le> n")
    case True
    have d: "?d < 10" using Suc.prems(2) by (simp add: div_less_iff_less_mult mult.commute)
    have m: "?m < 10 ^ Suc k" "?m < 2 ^ 31"
      using Suc.prems(3) by (simp_all add: order.strict_trans1 [OF mod_less_eq_dividend])
    have e: "(c * 10 + int ?d) * 10 ^ Suc k + int ?m = c * 10 ^ Suc (Suc k) + int n"
      unfolding n by (simp add: algebra_simps)
    have "c * 10 + int ?d \<le> (c * 10 + int ?d) * 10 ^ Suc k"
      using mult_left_mono [OF one_le_power [of "10 :: int" "Suc k"], of "c * 10 + int ?d"] Suc.prems(4) by simp
    then have c: "c * 10 + int ?d < 2 ^ 31" using e Suc.prems(5) by linarith
    have "get_count_loop c (decimal_loop (word_of_nat n) (word_of_nat (10 ^ Suc k)) b [] @ s) =
        get_count_loop (c * 10 + int ?d) (decimal_loop (word_of_nat ?m) (word_of_nat (10 ^ k)) True [] @ s)"
      by (simp only: decimal_digit [OF k(1) Suc.prems(3,2) True] append_Cons get_count_digit [OF d Suc.prems(4) c])
    also have "\<dots> = get_count_loop (c * 10 ^ Suc (Suc k) + int n) s"
      using Suc.IH [OF k(2) m _ _ disjI1 [OF TrueI], of "c * 10 + int ?d"] Suc.prems(4,5) unfolding e by simp
    finally show ?thesis .
  next
    case False
    then have "decimal_loop (word_of_nat n) (word_of_nat (10 ^ Suc k)) b [] =
        decimal_loop (word_of_nat n) (word_of_nat (10 ^ k)) False []"
      by (subst decimal_loop.simps) (simp only: decimal_step [OF k(1) Suc.prems(3)] if_True if_False simp_thms de_Morgan_disj)
    moreover have "c = 0" "n < 10 ^ Suc k" using False Suc.prems(6) by auto
    ultimately show ?thesis using Suc.IH [OF k(2) _ Suc.prems(3), of 0 False] Suc.prems(3) by simp
  qed
qed

section \<open>The dump\<close>

fun spaced :: "u8 list \<Rightarrow> u8 list" where
  "spaced [] = []"
| "spaced [b] = compose_hex_byte b"
| "spaced (b # bs) = compose_hex_byte b @ 0x20 # spaced bs"

text \<open>The bytes from an address on, and the lines that show them.\<close>

definition memory :: "(u64 \<Rightarrow> u8) \<Rightarrow> u64 \<Rightarrow> nat \<Rightarrow> u8 list" where
  "memory get a n = map (\<lambda>k. get (a + word_of_nat k)) [0..<n]"

function dump :: "(u64 \<Rightarrow> u8) \<Rightarrow> u64 \<Rightarrow> nat \<Rightarrow> u8 list list" where
  "dump get a n =
     (if n = 0 then []
      else (compose_hex_ptr a @ [0x3a, 0x20] @ spaced (memory get a (min 16 n)) @ crlf) # dump get (a + 16) (n - 16))"
  by auto
termination by (relation "measure (\<lambda>(get, a, n). n)") auto

declare dump.simps [simp del]

lemma memory_simps [simp]:
  "memory get a 0 = []"
  "memory get a (Suc n) = get a # memory get (a + 1) n"
  by (simp_all add: memory_def upt_conv_Cons map_Suc_upt [symmetric] ac_simps del: upt.simps)

lemma spaced_Cons: "spaced (b # bs) = compose_hex_byte b @ (if bs = [] then [] else 0x20 # spaced bs)"
  by (cases bs) simp_all

text \<open>A row of \<open>r\<close> bytes: the loop leaves at the first number that ends it.\<close>

lemma mdb_row_shows:
  "0 < r \<Longrightarrow> count \<le> i + r \<or> (i + r) mod 16 = 0 \<Longrightarrow>
   \<forall>j. 0 < j \<and> j < r \<longrightarrow> \<not> (count \<le> i + j \<or> (i + j) mod 16 = 0) \<Longrightarrow>
   mdb_row get count i a s = (s @ spaced (memory get a r), i + r, a + word_of_nat r)"
proof (induction r arbitrary: i a s)
  case (Suc r)
  show ?case
  proof (cases "r = 0")
    case True
    then have e: "count \<le> i + 1 \<or> (i + 1) mod 16 = 0" using Suc.prems(2) by simp
    show ?thesis
      by (subst mdb_row.simps) (simp only: Let_def e if_True, simp add: True)
  next
    case False
    have n: "\<not> (count \<le> i + 1 \<or> (i + 1) mod 16 = 0)"
      using Suc.prems(3) [rule_format, of 1] False by simp
    have "\<forall>j. 0 < j \<and> j < r \<longrightarrow> \<not> (count \<le> (i + 1) + j \<or> ((i + 1) + j) mod 16 = 0)"
    proof (intro allI impI)
      fix j assume "0 < j \<and> j < r"
      then show "\<not> (count \<le> (i + 1) + j \<or> ((i + 1) + j) mod 16 = 0)"
        using Suc.prems(3) [rule_format, of "Suc j"] by simp
    qed
    moreover have "count \<le> (i + 1) + r \<or> ((i + 1) + r) mod 16 = 0" using Suc.prems(2) by simp
    ultimately have "mdb_row get count (i + 1) (a + 1) ((s @ compose_hex_byte (get a)) @ [0x20]) =
        (((s @ compose_hex_byte (get a)) @ [0x20]) @ spaced (memory get (a + 1) r), (i + 1) + r, (a + 1) + word_of_nat r)"
      using False by (intro Suc.IH) simp_all
    moreover have "mdb_row get count i a s = mdb_row get count (i + 1) (a + 1) ((s @ compose_hex_byte (get a)) @ [0x20])"
      by (subst mdb_row.simps) (simp only: Let_def n if_False)
    moreover have "memory get (a + 1) r \<noteq> []" using False by (simp add: memory_def)
    ultimately show ?thesis by (simp add: spaced_Cons)
  qed
qed simp

lemma read_byte_sent [simp]: "read_byte env (st\<lparr>sent := x\<rparr>) = read_byte env st"
  by (simp add: read_byte_def fun_eq_iff)

lemma row_ends:
  fixes i :: nat
  assumes "i mod 16 = 0" "i < count"
  defines "r \<equiv> min 16 (count - i)"
  shows "0 < r" "count \<le> i + r \<or> (i + r) mod 16 = 0"
    and "\<forall>j. 0 < j \<and> j < r \<longrightarrow> \<not> (count \<le> i + j \<or> (i + j) mod 16 = 0)"
proof -
  have m: "(i + j) mod 16 = j mod 16" for j using assms(1) by (simp add: mod_add_eq [symmetric])
  show "0 < r" "count \<le> i + r \<or> (i + r) mod 16 = 0"
    "\<forall>j. 0 < j \<and> j < r \<longrightarrow> \<not> (count \<le> i + j \<or> (i + j) mod 16 = 0)"
    using assms(2) unfolding m by (auto simp: r_def min_def)
qed

lemma mdb_loop_shows:
  "i mod 16 = 0 \<or> count \<le> i \<Longrightarrow>
    mdb_loop env count i a st = st\<lparr>sent := sent st @ dump (read_byte env st) a (count - i)\<rparr>"
proof (induction env count i a st rule: mdb_loop.induct)
  case (1 env count i a st)
  show ?case
  proof (cases "i < count")
    case False
    then show ?thesis by (subst mdb_loop.simps) (simp add: dump.simps)
  next
    case True
    then have "i mod 16 = 0" using 1(2) by simp
    note e = row_ends [OF this True]
    define r where "r = min 16 (count - i)"
    let ?s = "compose_hex_ptr a @ [0x3a, 0x20]" and ?get = "read_byte env st"
    let ?st = "tty_send_buf ((?s @ spaced (memory ?get a r)) @ crlf) st"
    note row = mdb_row_shows [OF e, of ?get a ?s, folded r_def]
    have g: "read_byte env ?st = ?get" by (simp add: tty_send_buf_def)
    have next_row: "(i + r) mod 16 = 0 \<or> count \<le> i + r" using e(2) unfolding r_def by blast
    have d: "dump ?get a (count - i) =
        (?s @ spaced (memory ?get a r) @ crlf) # dump ?get (a + word_of_nat r) (count - (i + r))"
    proof (cases "16 \<le> count - i")
      case True
      then show ?thesis by (subst dump.simps) (simp add: r_def min_def)
    next
      case short: False
      then have "count - (i + r) = 0" "count - i - 16 = 0" "r = count - i" "min 16 (count - i) = count - i"
        by (simp_all add: r_def min_def)
      then show ?thesis using True by (subst dump.simps) (simp add: dump.simps [of _ _ 0])
    qed
    have "mdb_loop env count i a st = mdb_loop env count (i + r) (a + word_of_nat r) ?st"
      using True by (subst mdb_loop.simps) (simp only: Let_def row prod.case if_True)
    also have "\<dots> = ?st\<lparr>sent := sent ?st @ dump (read_byte env ?st) (a + word_of_nat r) (count - (i + r))\<rparr>"
      by (rule 1(1) [OF True refl row [symmetric] refl refl next_row])
    also have "\<dots> = st\<lparr>sent := sent st @ dump ?get a (count - i)\<rparr>"
      unfolding g d by (simp add: tty_send_buf_def)
    finally show ?thesis .
  qed
qed

text \<open>A line of the dump fits in the buffer of \<open>mdb\<close>.\<close>

lemma length_spaced: "length (spaced bs) = 3 * length bs - 1"
  by (induction bs rule: spaced.induct) (simp_all add: compose_hex_byte_def)

lemma dump_fits: "l \<in> set (dump get a n) \<Longrightarrow> length l \<le> 68"
proof (induction get a n rule: dump.induct)
  case (1 get a n)
  then show ?case
    by (subst (asm) (2) dump.simps)
      (auto simp: length_spaced compose_hex_ptr_def crlf_def memory_def split: if_splits)
qed

section \<open>From the line to the command\<close>

lemma get_count_compose:
  assumes "unat n < 2 ^ 31"
  shows "get_count (compose_decimal n) = Count (int (unat n))"
proof -
  have "\<not> bit (unat n) 31" using assms by (simp add: bit_iff_odd)
  then have "\<not> n <s 0" using bit_last_iff [of n] by (simp add: word_sless_alt bit_unsigned_iff)
  then have "compose_decimal n = decimal_loop n 1000000000 False []" by (simp add: compose_decimal_def)
  moreover have "decimal_loop n col b s \<noteq> []" for col b s
    by (induction n col b s rule: decimal_loop.induct) (subst decimal_loop.simps, auto simp: Let_def)
  moreover have "get_count_loop 0 (decimal_loop n 1000000000 False []) = Count (int (unat n))"
  proof -
    obtain k where k: "unat n = k" "n = word_of_nat k" by (rule that [of "unat n"]) simp_all
    then have "k < 2 ^ 31" using assms by (simp only:)
    then show ?thesis using get_count_decimal [of 9 k 0 False "[]"] unfolding k(1) by (simp add: k(2))
  qed
  ultimately show ?thesis by (simp add: get_count_def)
qed

lemmas dispatch_simps = cmd_dispatch_def find_command_def command_table_def str_def

lemma dispatch_mdb: "cmd_dispatch env (str ''mdb '' @ args) st = cmd_mdb env args st"
  by (simp add: dispatch_simps)

lemma dispatch_fwh: "cmd_dispatch env (str ''fwh '' @ args) st = cmd_fwh env args st"
  by (simp add: dispatch_simps)

text \<open>A file of eight erased bytes mapped at \<open>0x1000\<close>, on a system where all calls succeed.\<close>

definition demo_env :: shell_env where
  "demo_env = \<lparr>env_os = \<lparr>seek_ok = (\<lambda>_. True), os_write = (\<lambda>off d c. (int (length d), overwrite off d c))\<rparr>,
     env_memory = (\<lambda>_. 0), env_random = (\<lambda>_. 0), env_board_id = 0, env_board_name = []\<rparr>"

definition demo_shell :: shell where
  "demo_shell = \<lparr>sent = [], flash = \<lparr>flash_addr = 0x1000, flash_size = 8, contents = replicate 8 0xff\<rparr>,
     adc_initialized = False, adc_buf = replicate 64 0, randoms = 0\<rparr>"

text \<open>
  C39: mdb shows memory. For an address and a count below 2^31, printed as the program prints numbers,
  the line \<open>mdb\<close> with the two is answered by the dump of that many bytes from the address, rounded down to
  a multiple of four, on: sixteen to a row, each row behind its address; and no row is longer than the
  buffer it is composed in.
\<close>

theorem mdb_shows_memory:
  assumes "unat n < 2 ^ 31"
  shows "cmd_dispatch env (str ''mdb '' @ compose_hex_ptr a @ 0x20 # compose_decimal n) st =
      Some (st\<lparr>sent := sent st @ dump (read_byte env st) (a AND NOT 3) (unat n)\<rparr>) \<and>
    (\<forall>l \<in> set (dump (read_byte env st) (a AND NOT 3) (unat n)). length l \<le> 68)"
  using dump_fits by (auto simp: dispatch_mdb cmd_mdb_def get_hex_compose get_count_compose [OF assms] mdb_loop_shows)

theorem mdb_shows_memory_witness:
  "cmd_dispatch demo_env (str ''mdb 0000000000001003 3'') demo_shell =
    Some (demo_shell\<lparr>sent := [str ''0000000000001000: ff ff ff'' @ crlf]\<rparr>)"
proof -
  have line: "str ''mdb 0000000000001003 3'' = str ''mdb '' @ compose_hex_ptr 0x1003 @ 0x20 # compose_decimal 3"
    by (simp add: str_def compose_hex_ptr_def compose_decimal_def hexchar_def decimal_loop.simps Let_def word_le_nat_alt word_sless_alt)
  have "memory (read_byte demo_env demo_shell) 0x1000 3 = [0xff, 0xff, 0xff]"
    by (simp add: memory_def upt_rec read_byte_def demo_shell_def)
  then have "dump (read_byte demo_env demo_shell) 0x1000 3 = [str ''0000000000001000: ff ff ff'' @ crlf]"
    by (simp add: dump.simps str_def compose_hex_ptr_def compose_hex_byte_def hexchar_def Let_def)
  then show ?thesis
    using mdb_shows_memory [of 3 demo_env "0x1003" demo_shell] unfolding line by (simp add: demo_shell_def)
qed

section \<open>Writing the flash memory\<close>

text \<open>The file after \<open>n\<close> halfwords were programmed, one every four bytes from \<open>off\<close> on.\<close>

definition with_halfwords :: "nat \<Rightarrow> u16 \<Rightarrow> nat \<Rightarrow> u8 list \<Rightarrow> u8 list" where
  "with_halfwords off v n c =
     map (\<lambda>j. if \<exists>k<n. j = off + 4 * k then ucast v
              else if \<exists>k<n. j = off + 4 * k + 1 then ucast (drop_bit 8 v) else c ! j) [0..<length c]"

text \<open>A file whose seeks and writes succeed.\<close>

definition writable :: "os \<Rightarrow> bool" where
  "writable os \<longleftrightarrow> posix os \<and> (\<forall>off. seek_ok os off) \<and> (\<forall>off d c. fst (os_write os off d c) = int (length d))"

lemma writable_write: "writable os \<Longrightarrow> os_write os off d c = (int (length d), overwrite off d c)"
  by (auto simp: writable_def posix_def split_beta prod_eq_iff Let_def dest: spec [of _ off])

lemma sint_small: "unat (x :: u64) < 2 ^ 63 \<Longrightarrow> sint x = int (unat x)"
proof -
  assume x: "unat x < 2 ^ 63"
  then have "\<not> bit (unat x) 63" by (simp add: bit_iff_odd)
  then have "\<not> bit (uint x) 63" by (simp add: bit_unsigned_iff)
  moreover have "int (unat x) < int (2 ^ 63)" using x by (simp only: of_nat_less_iff)
  then have "uint x < 2 ^ 63" by simp
  ultimately show ?thesis
    by (simp add: sint_uint signed_take_bit_eq_if_positive take_bit_int_eq_self)
qed

lemma program_halfword_file:
  assumes w: "writable os" and len: "length (contents f) < 2 ^ 63" "flash_size f = word_of_nat (length (contents f))"
    and in_file: "unat (a - flash_addr f) + 2 \<le> length (contents f)"
  shows "file_flash_program_halfword os a v f =
    (0, f\<lparr>contents := overwrite (unat (a - flash_addr f)) [ucast v, ucast (drop_bit 8 v)] (contents f)\<rparr>)"
proof -
  have l: "unat (flash_size f) = length (contents f)"
    using len by (simp add: unat_of_nat)
  have s: "sint (a - flash_addr f) = int (unat (a - flash_addr f))" "sint (flash_size f) = int (length (contents f))"
    using sint_small [of "a - flash_addr f"] sint_small [of "flash_size f"] in_file len(1) unfolding l by simp_all
  have "sint (0 :: u64) = 0" by simp
  then have "\<not> outside a f"
    unfolding outside_def Let_def word_sless_alt word_sle_eq s using in_file by linarith
  then show ?thesis
    using w by (simp add: file_flash_program_halfword file_flash_write_def writable_write Let_def) (simp add: writable_def)
qed

lemma with_halfwords_Suc:
  assumes "off + 2 \<le> length c"
  shows "with_halfwords off v (Suc n) c =
    with_halfwords (off + 4) v n (overwrite off [ucast v, ucast (drop_bit 8 v)] c)" (is "?l = ?r")
proof (rule nth_equalityI)
  let ?d = "[ucast v, ucast (drop_bit 8 v)] :: u8 list"
  have o: "off + length ?d \<le> length c" using assms by simp
  show "length ?l = length ?r" by (simp add: with_halfwords_def overwrite_inside(1) [OF o])
  fix j assume "j < length ?l"
  then have j: "j < length c" by (simp add: with_halfwords_def)
  have "overwrite off ?d c ! j = (if j = off then ucast v else if j = off + 1 then ucast (drop_bit 8 v) else c ! j)"
    using overwrite_inside(2) [OF o j] by (auto simp: nth_Cons')
  moreover have "j = off + 4 * Suc k \<longleftrightarrow> j = off + 4 + 4 * k" for k by auto
  ultimately show "?l ! j = ?r ! j"
    using j by (auto simp: with_halfwords_def overwrite_inside(1) [OF o] Ex_less_Suc2)
qed

lemma fwh_loop_writes:
  assumes w: "writable os"
  shows "length (contents (flash st)) < 2 ^ 63 \<Longrightarrow> flash_size (flash st) = word_of_nat (length (contents (flash st))) \<Longrightarrow>
    0 < n \<longrightarrow> unat (a - flash_addr (flash st)) + 4 * (n - 1) + 2 \<le> length (contents (flash st)) \<Longrightarrow>
    fwh_loop os v n a st =
      st\<lparr>flash := (flash st)\<lparr>contents := with_halfwords (unat (a - flash_addr (flash st))) v n (contents (flash st))\<rparr>\<rparr>"
proof (induction n arbitrary: a st)
  case 0
  then show ?case by (simp add: with_halfwords_def map_nth)
next
  case (Suc n)
  let ?off = "unat (a - flash_addr (flash st))" and ?c = "contents (flash st)"
  let ?c' = "overwrite ?off [ucast v, ucast (drop_bit 8 v)] ?c"
  let ?st = "st\<lparr>flash := (flash st)\<lparr>contents := ?c'\<rparr>\<rparr>"
  have off: "?off + 2 \<le> length ?c" using Suc.prems(3) by simp
  then have len: "length ?c' = length ?c" by (simp add: overwrite_inside(1))
  have next_off: "unat (a + 4 - flash_addr (flash st)) = ?off + 4" if "0 < n"
  proof -
    have "?off + 4 < 2 ^ 64" using Suc.prems(1,3) that by simp
    then have "unat (a - flash_addr (flash st) + 4) = ?off + 4"
      using unat_add_lt [of "a - flash_addr (flash st)" 4] by simp
    then show ?thesis by (simp add: algebra_simps)
  qed
  have "fwh_loop os v (Suc n) a st = fwh_loop os v n (a + 4) ?st"
    using program_halfword_file [OF w Suc.prems(1,2) off] by simp
  also have "\<dots> = ?st\<lparr>flash := (flash ?st)\<lparr>contents :=
      with_halfwords (unat (a + 4 - flash_addr (flash ?st))) v n (contents (flash ?st))\<rparr>\<rparr>"
    using Suc.prems next_off by (intro Suc.IH) (auto simp: len)
  also have "\<dots> = st\<lparr>flash := (flash st)\<lparr>contents := with_halfwords ?off v (Suc n) ?c\<rparr>\<rparr>"
  proof (cases "n = 0")
    case True
    then show ?thesis by (simp add: with_halfwords_Suc [OF off] len) (simp add: with_halfwords_def)
  next
    case False
    then show ?thesis using next_off by (simp add: with_halfwords_Suc [OF off])
  qed
  finally show ?case .
qed

text \<open>
  C40: fwh writes the flash memory. With an address, a value and a positive count that are printed as the
  program prints numbers, on a file that can be written and that holds all the halfwords, the low
  halfword of the value is put, low byte first, at the address and then every four bytes, as often as the
  count says; no other byte of the file, nor its size, changes, and nothing is sent. (The halfwords are
  two bytes apart where the command is to fill the memory.)
\<close>

theorem fwh_writes_file:
  assumes w: "writable (env_os env)" and n: "0 < unat n" "unat n < 2 ^ 31"
    and len: "length (contents (flash st)) < 2 ^ 63" "flash_size (flash st) = word_of_nat (length (contents (flash st)))"
    and in_file: "unat (a - flash_addr (flash st)) + 4 * (unat n - 1) + 2 \<le> length (contents (flash st))"
  shows "cmd_dispatch env (str ''fwh '' @ compose_hex_ptr a @ 0x20 # compose_hex_ptr v @ 0x20 # compose_decimal n) st =
    Some (st\<lparr>flash := (flash st)\<lparr>contents :=
      with_halfwords (unat (a - flash_addr (flash st))) (ucast v) (unat n) (contents (flash st))\<rparr>\<rparr>)"
  using n fwh_loop_writes [OF w len, of "unat n" a "ucast v"] in_file
  by (simp add: dispatch_fwh cmd_fwh_def get_hex_compose get_count_compose)

theorem fwh_writes_file_witness:
  "map_option (contents \<circ> flash) (cmd_dispatch demo_env (str ''fwh 0000000000001000 00000000000012ab 2'') demo_shell) =
    Some [0xab, 0x12, 0xff, 0xff, 0xab, 0x12, 0xff, 0xff]"
proof -
  have line: "str ''fwh 0000000000001000 00000000000012ab 2'' =
      str ''fwh '' @ compose_hex_ptr 0x1000 @ 0x20 # compose_hex_ptr 0x12ab @ 0x20 # compose_decimal 2"
    by (simp add: str_def compose_hex_ptr_def compose_decimal_def hexchar_def decimal_loop.simps Let_def word_le_nat_alt word_sless_alt)
  have "writable (env_os demo_env)"
    by (auto simp: writable_def posix_def demo_env_def)
  moreover have "(\<exists>k<2. P k) \<longleftrightarrow> P 0 \<or> P 1" for P :: "nat \<Rightarrow> bool"
    by (auto simp: less_2_cases_iff)
  then have "with_halfwords 0 0x12ab 2 (replicate 8 0xff) = [0xab, 0x12, 0xff, 0xff, 0xab, 0x12, 0xff, 0xff]"
    by (simp add: with_halfwords_def upt_rec)
  ultimately show ?thesis
    using fwh_writes_file [of demo_env 2 demo_shell "0x1000" "0x12ab"] unfolding line by (simp add: demo_shell_def)
qed

section \<open>The other commands\<close>

text \<open>The checksum that is shown is the CRC32 of the characters, complemented.\<close>

lemma cmd_crc32_shows:
  "cmd_crc32 env line st =
    Some (tty_send_buf (compose_hex (crc_stream 0xffffffff (stream_of line) XOR 0xffffffff) @ crlf) st)"
  unfolding cmd_crc32_def Let_def crc32_u8_fold crc32_init_def ..

text \<open>\<open>sysinfo\<close> leaves its buffer for a board name of more than 59 characters.\<close>

lemma sysinfo_overflows: "cmd_sysinfo env line st = None \<longleftrightarrow> 59 < length (env_board_name env)"
  by (auto simp: cmd_sysinfo_def Let_def str_def crlf_def)

text \<open>A word that is no command is sent back.\<close>

lemma dispatch_unknown:
  assumes "first_word 0 line = (n, p)" "take n line \<notin> set (map fst command_table)"
  shows "cmd_dispatch env line st =
    Some (st\<lparr>sent := sent st @ [str ''No such command: '', take n line, crlf]\<rparr>)"
proof -
  have "find (\<lambda>(name, _). n = length name \<and> take n line = take n name) command_table = None"
    using assms(2) by (auto simp: find_None_iff image_iff)
  then show ?thesis
    using assms(1) by (simp add: cmd_dispatch_def find_command_def put_line_def tty_send_buf_def Let_def)
qed

end
