(* ===== verification/Ackbtn.thy ===== *)
theory Ackbtn
  imports Chopstx_Prelude
begin

text \<open>
  The acknowledge button of STM32F103 (\<open>contrib/ackbtn-stm32f103.c\<close>): a line of the external
  interrupts, chosen by the board. What a write does to the pending register, given what it holds, is a
  parameter; \<open>clears_ones\<close> is what the reference manual says of it.
\<close>

unbundle bit_operations_syntax

section \<open>State and constants\<close>

record exti =
  EXTICR :: "u32 list"
  IMR :: u32
  PR :: u32
  RTSR :: u32
  FTSR :: u32
  pin_config :: u32
  claimed :: "u8 option"

definition BOARD_ID_FST_01 :: u32 where "BOARD_ID_FST_01 = 0x696886af"
definition BOARD_ID_FST_01G :: u32 where "BOARD_ID_FST_01G = 0x8801277f"
definition PINCFG_EDGE :: u32 where "PINCFG_EDGE = 0x80000000"
definition PINCFG_EDGE_RISING :: u32 where "PINCFG_EDGE_RISING = PINCFG_EDGE"
definition AFIO_EXTICR1_EXTI2_PA :: u32 where "AFIO_EXTICR1_EXTI2_PA = 0x0000"
definition AFIO_EXTICR1_EXTI3_PA :: u32 where "AFIO_EXTICR1_EXTI3_PA = 0x0000"
definition EXTI2_IRQ :: u8 where "EXTI2_IRQ = 8"
definition EXTI3_IRQ :: u8 where "EXTI3_IRQ = 9"

section \<open>Operations\<close>

definition ackbtn_init :: "u32 \<Rightarrow> exti \<Rightarrow> exti" where
  "ackbtn_init board_id s =
     (let afio_exticr_index = 0;
          (afio_exticr_extiX_pY, irq_num, s) =
            (if board_id = BOARD_ID_FST_01 \<or> board_id = BOARD_ID_FST_01G then
               (AFIO_EXTICR1_EXTI2_PA, EXTI2_IRQ, s\<lparr>pin_config := 0x0004 OR PINCFG_EDGE_RISING\<rparr>)
             else (AFIO_EXTICR1_EXTI3_PA, EXTI3_IRQ, s\<lparr>pin_config := 0x0008 OR PINCFG_EDGE_RISING\<rparr>));
          s = (if afio_exticr_extiX_pY \<noteq> 0 then
                 s\<lparr>EXTICR := (EXTICR s)[afio_exticr_index := EXTICR s ! afio_exticr_index OR afio_exticr_extiX_pY]\<rparr>
               else s);
          s = s\<lparr>IMR := IMR s AND NOT (pin_config s AND NOT PINCFG_EDGE)\<rparr>
      in s\<lparr>claimed := Some irq_num\<rparr>)"

definition ackbtn_enable :: "(u32 \<Rightarrow> u32 \<Rightarrow> u32) \<Rightarrow> exti \<Rightarrow> exti" where
  "ackbtn_enable write_PR s =
     (let s = s\<lparr>PR := write_PR (PR s OR (pin_config s AND NOT PINCFG_EDGE)) (PR s)\<rparr>;
          s = s\<lparr>IMR := IMR s OR (pin_config s AND NOT PINCFG_EDGE)\<rparr>
      in if pin_config s AND PINCFG_EDGE \<noteq> 0
         then s\<lparr>RTSR := RTSR s OR (pin_config s AND NOT PINCFG_EDGE)\<rparr>
         else s\<lparr>FTSR := FTSR s OR (pin_config s AND NOT PINCFG_EDGE)\<rparr>)"

definition ackbtn_disable :: "(u32 \<Rightarrow> u32 \<Rightarrow> u32) \<Rightarrow> exti \<Rightarrow> exti" where
  "ackbtn_disable write_PR s =
     (let s = s\<lparr>IMR := IMR s AND NOT (pin_config s AND NOT PINCFG_EDGE)\<rparr>;
          s = s\<lparr>PR := write_PR (PR s OR (pin_config s AND NOT PINCFG_EDGE)) (PR s)\<rparr>;
          s = s\<lparr>RTSR := RTSR s AND NOT (pin_config s AND NOT PINCFG_EDGE)\<rparr>
      in s\<lparr>FTSR := FTSR s AND NOT (pin_config s AND NOT PINCFG_EDGE)\<rparr>)"

section \<open>The line of the button, and the others\<close>

text \<open>Writing a one to a bit of the pending register clears it.\<close>

definition clears_ones :: "(u32 \<Rightarrow> u32 \<Rightarrow> u32) \<Rightarrow> bool" where
  "clears_ones write_PR \<longleftrightarrow> (\<forall>v held. write_PR v held = held AND NOT v)"

definition button_line :: "u32 \<Rightarrow> nat" where
  "button_line board_id = (if board_id = BOARD_ID_FST_01 \<or> board_id = BOARD_ID_FST_01G then 2 else 3)"

lemma button_pin:
  "pin_config (ackbtn_init board_id s) = 2 ^ button_line board_id OR PINCFG_EDGE"
  "(2 ^ button_line board_id OR PINCFG_EDGE) AND NOT PINCFG_EDGE = 2 ^ button_line board_id"
  "(2 ^ button_line board_id OR PINCFG_EDGE) AND PINCFG_EDGE \<noteq> 0"
  by (simp_all add: ackbtn_init_def Let_def button_line_def PINCFG_EDGE_def PINCFG_EDGE_RISING_def
      AFIO_EXTICR1_EXTI2_PA_def AFIO_EXTICR1_EXTI3_PA_def)

text \<open>
  After \<open>ackbtn_init\<close>, enabling lets through the rising edges of the line of the button, disabling
  stops them, and neither changes the mask or the edges of another line.
\<close>

lemma enable_then_disable:
  assumes "pin_config s = 2 ^ button_line b OR PINCFG_EDGE" "n < 32"
  shows "bit (IMR (ackbtn_enable w s)) n \<longleftrightarrow> n = button_line b \<or> bit (IMR s) n"
    and "bit (RTSR (ackbtn_enable w s)) n \<longleftrightarrow> n = button_line b \<or> bit (RTSR s) n"
    and "FTSR (ackbtn_enable w s) = FTSR s"
    and "bit (IMR (ackbtn_disable w s)) n \<longleftrightarrow> n \<noteq> button_line b \<and> bit (IMR s) n"
    and "bit (RTSR (ackbtn_disable w s)) n \<longleftrightarrow> n \<noteq> button_line b \<and> bit (RTSR s) n"
proof -
  have m: "pin_config s AND NOT PINCFG_EDGE = 2 ^ button_line b" "pin_config s AND PINCFG_EDGE \<noteq> 0"
    unfolding assms(1) by (rule button_pin)+
  have c: "NOT (pin_config s) OR PINCFG_EDGE = NOT (2 ^ button_line b)"
    unfolding m(1) [symmetric] by simp
  show "bit (IMR (ackbtn_enable w s)) n \<longleftrightarrow> n = button_line b \<or> bit (IMR s) n"
    "bit (RTSR (ackbtn_enable w s)) n \<longleftrightarrow> n = button_line b \<or> bit (RTSR s) n"
    "FTSR (ackbtn_enable w s) = FTSR s"
    "bit (IMR (ackbtn_disable w s)) n \<longleftrightarrow> n \<noteq> button_line b \<and> bit (IMR s) n"
    "bit (RTSR (ackbtn_disable w s)) n \<longleftrightarrow> n \<noteq> button_line b \<and> bit (RTSR s) n"
    using assms(2) by (auto simp: ackbtn_enable_def ackbtn_disable_def Let_def m c bit_simps)
qed

text \<open>
  Both clear the pending bit of the button, but with it those of every other line: what is written
  holds all the bits that were read as pending.
\<close>

lemma all_lines_cleared:
  assumes "clears_ones w"
  shows "PR (ackbtn_enable w s) = 0" "PR (ackbtn_disable w s) = 0"
  using assms by (auto intro!: bit_word_eqI simp: ackbtn_enable_def ackbtn_disable_def Let_def clears_ones_def bit_simps)

end
