(* ===== verification/Adc_Kl27z.thy ===== *)
theory Adc_Kl27z
  imports Chopstx_Prelude
begin

text \<open>
  The converter of the MKL27Z as a source of noise (\<open>contrib/adc-mkl27z.c\<close>): its calibration, and a
  conversion in four phases, each of which takes \<open>count\<close> words from the hardware and keeps a byte of
  each. The registers are fields that the routines write; what the hardware makes of them is a parameter:
  what reads of its status return during the calibration, and the words that are transferred to \<open>buf\<close> when a phase ends.
\<close>

unbundle bit_operations_syntax

section \<open>State and constants\<close>

text \<open>\<open>adc_buf\<close> is an array of 64 words; the code writes its bytes through \<open>p\<close> (\<open>pos\<close>), here an index of bytes. \<open>phase\<close> and \<open>count\<close> (\<open>cnt\<close>) are bit fields of eight bits
  with a sign in C: the model is the code for counts up to 127, more than \<open>buf\<close> holds.\<close>

record adc =
  CFG1 :: u32
  CFG2 :: u32
  SC1 :: u32
  SC2 :: u32
  SC3 :: u32
  PG :: u32
  MG :: u32
  SCGC6 :: u32
  SCGC7 :: u32
  CHCFG0 :: u32
  DMA0_SAR :: addr
  DMA0_DAR :: addr
  DMA1_SAR :: addr
  DMA1_DAR :: addr
  adc_intr :: "u8 option"
  DMA0_BCR :: u32
  DMA0_DCR :: u32
  DMA1_BCR :: u32
  DMA1_DCR :: u32
  adc_bytes :: "nat \<Rightarrow> u8"
  buf :: "nat \<Rightarrow> u32"
  pos :: nat
  phase :: nat
  cnt :: nat

definition ADC_SC1_COCO :: u32 where "ADC_SC1_COCO = 0x80"
definition ADC_SC1_ADCSTOP :: u32 where "ADC_SC1_ADCSTOP = 31"
definition ADC_SC2_REFSEL_DEFAULT :: u32 where "ADC_SC2_REFSEL_DEFAULT = 1"
definition ADC_SC2_DMAEN :: u32 where "ADC_SC2_DMAEN = 4"
definition ADC_SC3_AVGS11 :: u32 where "ADC_SC3_AVGS11 = 0x03"
definition ADC_SC3_AVGE :: u32 where "ADC_SC3_AVGE = 4"
definition ADC_SC3_CALF :: u32 where "ADC_SC3_CALF = 0x40"
definition ADC_SC3_CAL :: u32 where "ADC_SC3_CAL = 0x80"

definition ADC_DMA_SLOT_NUM :: u32 where "ADC_DMA_SLOT_NUM = 40"
definition INTR_REQ_DMA0 :: u8 where "INTR_REQ_DMA0 = 0"

text \<open>The addresses of registers; those of \<open>adc.buf\<close> and \<open>adc0_sc1_setting\<close> are the linker's, \<open>buf_addr\<close> and \<open>setting_addr\<close>.\<close>

definition ADC0 :: addr where "ADC0 = 0x4003B000"
definition ADC0_R0 :: addr where "ADC0_R0 = ADC0 + 0x10"
definition ADC0_SC1_0 :: addr where "ADC0_SC1_0 = ADC0"

text \<open>\<open>CFG1\<close> and \<open>CFG2\<close> as they are set: asynchronous clock, 16 bits, low power; clock enabled.\<close>

definition ADC_CFG1 :: u32 where
  "ADC_CFG1 = push_bit 0 3 OR push_bit 2 3 OR push_bit 4 0 OR push_bit 5 0 OR push_bit 7 1"

definition ADC_CFG2 :: u32 where
  "ADC_CFG2 = 0 OR push_bit 2 0 OR push_bit 3 1 OR push_bit 4 0"

section \<open>Calibration\<close>

text \<open>
  The status is read until the conversion is complete or has failed: the \<open>n\<close>-th reads return
  \<open>sc1 n\<close> and \<open>sc3 n\<close>. \<open>None\<close> is a wait that does not end.
\<close>

partial_function (option) calibration_loop :: "(nat \<Rightarrow> u32) \<Rightarrow> (nat \<Rightarrow> u32) \<Rightarrow> nat \<Rightarrow> (bool \<times> nat) option" where
  "calibration_loop sc1 sc3 n =
     (if sc1 n AND ADC_SC1_COCO = 0 then
        (if sc3 n AND ADC_SC3_CALF \<noteq> 0 then Some (False, n + 1) else calibration_loop sc1 sc3 (n + 1))
      else Some (True, n))"

text \<open>\<open>clp\<close> and \<open>clm\<close> are the calibration values of the plus and the minus side, in the order they are added.\<close>

definition kl_adc_init ::
  "addr \<Rightarrow> (nat \<Rightarrow> u32) \<Rightarrow> (nat \<Rightarrow> u32) \<Rightarrow> u32 list \<Rightarrow> u32 list \<Rightarrow> adc \<Rightarrow> (int \<times> adc) option" where
  "kl_adc_init setting_addr sc1 sc3 clp clm s =
     do {
       let s = s\<lparr>SCGC6 := SCGC6 s OR (push_bit 27 1 OR push_bit 1 1), SCGC7 := SCGC7 s OR push_bit 8 1\<rparr>;
       let s = s\<lparr>CFG1 := ADC_CFG1, CFG2 := ADC_CFG2, SC2 := ADC_SC2_REFSEL_DEFAULT,
                 SC3 := ADC_SC3_CAL OR ADC_SC3_CALF OR ADC_SC3_AVGE OR ADC_SC3_AVGS11\<rparr>;
       (ok, n) \<leftarrow> calibration_loop sc1 sc3 0;
       if \<not> ok then Some (-1, s)
       else if sc3 n AND ADC_SC3_CALF \<noteq> 0 then Some (-1, s)
       else do {
         let v = foldl (+) 0 clp;
         let s = s\<lparr>PG := 0x8000 OR drop_bit 1 v\<rparr>;
         let v = foldl (+) 0 clm;
         let s = s\<lparr>MG := 0x8000 OR drop_bit 1 v\<rparr>;
         let s = s\<lparr>SC1 := ADC_SC1_ADCSTOP\<rparr>;
         let s = s\<lparr>CHCFG0 := push_bit 7 1 OR ADC_DMA_SLOT_NUM\<rparr>;
         let s = s\<lparr>DMA0_SAR := ADC0_R0, DMA1_SAR := setting_addr, DMA1_DAR := ADC0_SC1_0\<rparr>;
         Some (0, s\<lparr>adc_intr := Some INTR_REQ_DMA0\<rparr>) } }"

definition kl_adc_start :: "adc \<Rightarrow> adc" where
  "kl_adc_start s =
     s\<lparr>CFG1 := ADC_CFG1, CFG2 := ADC_CFG2, SC2 := ADC_SC2_REFSEL_DEFAULT OR ADC_SC2_DMAEN, SC3 := 0\<rparr>"

definition kl_adc_stop :: "adc \<Rightarrow> adc" where
  "kl_adc_stop s = s\<lparr>SCGC6 := SCGC6 s AND NOT (push_bit 27 1)\<rparr>"

section \<open>Conversion\<close>

definition adc_start_conversion_internal :: "addr \<Rightarrow> nat \<Rightarrow> adc \<Rightarrow> adc" where
  "adc_start_conversion_internal buf_addr count s =
     s\<lparr>DMA0_DAR := buf_addr,
       DMA0_BCR := 4 * word_of_nat count,
       DMA0_DCR := push_bit 31 1 OR push_bit 30 1 OR push_bit 29 1 OR push_bit 20 0 OR push_bit 19 1 OR
         push_bit 17 0 OR push_bit 7 1 OR push_bit 4 2 OR push_bit 2 1,
       DMA1_BCR := 4 * word_of_nat count,
       DMA1_DCR := push_bit 30 1 OR push_bit 29 1 OR push_bit 19 0 OR push_bit 17 0 OR push_bit 16 1 OR push_bit 7 1\<rparr>"

definition kl_adc_start_conversion :: "addr \<Rightarrow> nat \<Rightarrow> nat \<Rightarrow> adc \<Rightarrow> adc" where
  "kl_adc_start_conversion buf_addr offset count s =
     (let s = s\<lparr>pos := 4 * offset\<rparr>;
          s = s\<lparr>phase := 0\<rparr>;
          s = s\<lparr>cnt := count\<rparr>
      in adc_start_conversion_internal buf_addr count s)"

definition adc_stop_conversion :: "adc \<Rightarrow> adc" where
  "adc_stop_conversion s = s\<lparr>SC1 := ADC_SC1_ADCSTOP\<rparr>"

text \<open>The bytes that a phase keeps: from index \<open>i\<close> of \<open>buf\<close> on, \<open>n\<close> of them.\<close>

primrec copy_bytes :: "nat \<Rightarrow> nat \<Rightarrow> adc \<Rightarrow> adc" where
  "copy_bytes i 0 s = s"
| "copy_bytes i (Suc n) s =
     (let s = s\<lparr>adc_bytes := (adc_bytes s)(pos s := ucast (buf s i)), pos := pos s + 1\<rparr>
      in copy_bytes (i + 1) n s)"

lemma copy_bytes_fields [simp]:
  "phase (copy_bytes i n s) = phase s" "cnt (copy_bytes i n s) = cnt s" "buf (copy_bytes i n s) = buf s"
  "SC1 (copy_bytes i n s) = SC1 s"
  "pos (copy_bytes i n s) = pos s + n"
  by (induction n arbitrary: i s) (simp_all add: Let_def)

text \<open>\<open>noise k\<close> is what the hardware has transferred to \<open>buf\<close> by the end of phase \<open>k\<close>.\<close>

function kl_adc_wait_completion :: "addr \<Rightarrow> (nat \<Rightarrow> nat \<Rightarrow> u32) \<Rightarrow> adc \<Rightarrow> adc" where
  "kl_adc_wait_completion buf_addr noise s =
     (let s = s\<lparr>buf := (\<lambda>i. if i < cnt s then noise (phase s) i else buf s i)\<rparr>;
          s = s\<lparr>DMA0_BCR := push_bit 24 1, DMA1_BCR := push_bit 24 1\<rparr>;
          s = adc_stop_conversion s;
          s = copy_bytes 0 (cnt s) s;
          s = s\<lparr>phase := phase s + 1\<rparr>
      in if 4 \<le> phase s then s
         else kl_adc_wait_completion buf_addr noise (adc_start_conversion_internal buf_addr (cnt s) s))"
  by auto
termination
  by (relation "measure (\<lambda>(buf_addr, noise, s). 4 - phase s)")
    (auto simp: adc_start_conversion_internal_def adc_stop_conversion_def Let_def)

declare kl_adc_wait_completion.simps [simp del]

section \<open>What they do\<close>

lemma copy_bytes_at:
  "adc_bytes (copy_bytes i n s) b =
    (if pos s \<le> b \<and> b < pos s + n then ucast (buf s (i + (b - pos s))) else adc_bytes s b)"
proof (induction n arbitrary: i s)
  case (Suc n)
  consider "b \<le> pos s" | "pos s < b" by linarith
  then show ?case
  proof cases
    case 2
    then have "Suc (i + b - Suc (pos s)) = i + b - pos s" by simp
    then show ?thesis using 2 by (simp add: Let_def Suc.IH)
  qed (auto simp: Let_def Suc.IH)
qed auto

definition one_phase :: "(nat \<Rightarrow> nat \<Rightarrow> u32) \<Rightarrow> adc \<Rightarrow> adc" where
  "one_phase noise s =
     (let s = s\<lparr>buf := (\<lambda>i. if i < cnt s then noise (phase s) i else buf s i)\<rparr>;
          s = s\<lparr>DMA0_BCR := push_bit 24 1, DMA1_BCR := push_bit 24 1\<rparr>;
          s = adc_stop_conversion s;
          s = copy_bytes 0 (cnt s) s
      in s\<lparr>phase := phase s + 1\<rparr>)"

lemma wait_step:
  "kl_adc_wait_completion buf_addr noise s =
     (if 3 \<le> phase s then one_phase noise s
      else kl_adc_wait_completion buf_addr noise (adc_start_conversion_internal buf_addr (cnt s) (one_phase noise s)))"
  by (subst kl_adc_wait_completion.simps) (simp add: one_phase_def adc_stop_conversion_def Let_def)

lemma one_phase:
  "phase (one_phase noise s) = phase s + 1" "cnt (one_phase noise s) = cnt s" "pos (one_phase noise s) = pos s + cnt s"
  "SC1 (one_phase noise s) = ADC_SC1_ADCSTOP"
  "adc_bytes (one_phase noise s) b =
    (if pos s \<le> b \<and> b < pos s + cnt s then ucast (noise (phase s) (b - pos s)) else adc_bytes s b)"
  by (auto simp: one_phase_def adc_stop_conversion_def Let_def copy_bytes_at)

text \<open>
  When the wait is over, each phase has left a byte of each of its words, one phase after the
  other from the place of the offset on, and nothing else was written; the converter is stopped.
\<close>

lemma wait_completes:
  "phase s < 4 \<Longrightarrow> r = kl_adc_wait_completion buf_addr noise s \<Longrightarrow>
   adc_bytes r b =
      (if pos s \<le> b \<and> b < pos s + (4 - phase s) * cnt s
       then ucast (noise (phase s + (b - pos s) div cnt s) ((b - pos s) mod cnt s)) else adc_bytes s b) \<and>
   phase r = 4 \<and> SC1 r = ADC_SC1_ADCSTOP \<and> pos r = pos s + (4 - phase s) * cnt s"
proof (induction "3 - phase s" arbitrary: s)
  case 0
  then have "phase s = 3" by simp
  then show ?case using 0(3) by (subst (asm) wait_step) (auto simp: one_phase)
next
  case (Suc m)
  let ?s = "adc_start_conversion_internal buf_addr (cnt s) (one_phase noise s)"
  have ph: "phase s < 3" using Suc.hyps(2) by simp
  have r: "r = kl_adc_wait_completion buf_addr noise ?s" using Suc.prems(2) ph by (subst (asm) wait_step) simp
  have f: "phase ?s = phase s + 1" "cnt ?s = cnt s" "pos ?s = pos s + cnt s" "adc_bytes ?s = adc_bytes (one_phase noise s)"
    by (simp_all add: adc_start_conversion_internal_def one_phase)
  have four: "(4 - phase s) * cnt s = cnt s + (4 - (phase s + 1)) * cnt s"
  proof -
    have "4 - phase s = Suc (4 - (phase s + 1))" using ph by simp
    then show ?thesis by (simp only: mult_Suc)
  qed
  have "m = 3 - phase ?s" "phase ?s < 4" using Suc.hyps(2) ph unfolding f by simp_all
  from Suc.hyps(1) [OF this r] have IH: "adc_bytes r b =
      (if pos s + cnt s \<le> b \<and> b < pos s + cnt s + (4 - (phase s + 1)) * cnt s
       then ucast (noise (phase s + 1 + (b - (pos s + cnt s)) div cnt s) ((b - (pos s + cnt s)) mod cnt s))
       else adc_bytes (one_phase noise s) b)"
    "phase r = 4" "SC1 r = ADC_SC1_ADCSTOP" "pos r = pos s + cnt s + (4 - (phase s + 1)) * cnt s"
    unfolding f by simp_all
  consider "b < pos s" | "pos s \<le> b" "b < pos s + cnt s" | "pos s + cnt s \<le> b" by linarith
  then show ?case
  proof cases
    case 3
    then have "0 < cnt s \<Longrightarrow> (b - pos s) div cnt s = 1 + (b - (pos s + cnt s)) div cnt s"
      "(b - pos s) mod cnt s = (b - (pos s + cnt s)) mod cnt s"
      using le_div_geq [of "cnt s" "b - pos s"] le_mod_geq [of "cnt s" "b - pos s"] by simp_all
    moreover have "0 < cnt s" if "b < pos s + (cnt s + (4 - (phase s + 1)) * cnt s)" using that 3 by (cases "cnt s") simp_all
    ultimately show ?thesis using 3 IH unfolding four by (auto simp: one_phase)
  qed (use IH in \<open>auto simp: one_phase four\<close>)
qed

text \<open>A conversion from an offset: the bytes of the words from there on, phase by phase.\<close>

lemma conversion_fills:
  assumes "r = kl_adc_wait_completion buf_addr noise (kl_adc_start_conversion buf_addr offset count s)" "k < 4" "i < count"
  shows "adc_bytes r (4 * offset + k * count + i) = ucast (noise k i)"
    and "b < 4 * offset \<or> 4 * (offset + count) \<le> b \<Longrightarrow> adc_bytes r b = adc_bytes s b"
proof -
  let ?s = "kl_adc_start_conversion buf_addr offset count s"
  have f: "phase ?s = 0" "cnt ?s = count" "pos ?s = 4 * offset" "adc_bytes ?s = adc_bytes s"
    by (simp_all add: kl_adc_start_conversion_def adc_start_conversion_internal_def Let_def)
  have w: "adc_bytes r b = (if 4 * offset \<le> b \<and> b < 4 * offset + 4 * count
      then ucast (noise ((b - 4 * offset) div count) ((b - 4 * offset) mod count)) else adc_bytes s b)" for b
    using wait_completes [of ?s r buf_addr noise b] assms(1) unfolding f by simp
  have "Suc k * count \<le> 4 * count" using assms(2) by (intro mult_le_mono1) simp
  then have "k * count + i < 4 * count" using assms(3) unfolding mult_Suc by linarith
  then show "adc_bytes r (4 * offset + k * count + i) = ucast (noise k i)"
    using w [of "4 * offset + k * count + i"] assms(3) by simp
  show "adc_bytes r b = adc_bytes s b" if "b < 4 * offset \<or> 4 * (offset + count) \<le> b"
    using w [of b] that by auto
qed

text \<open>The gains are half of the sums of the calibration values, with the high bit of sixteen set.\<close>

lemma init_calibrates:
  assumes "calibration_loop sc1 sc3 0 = Some (True, n)" "sc3 n AND ADC_SC3_CALF = 0"
  obtains s' where "kl_adc_init setting_addr sc1 sc3 clp clm s = Some (0, s')"
    and "PG s' = 0x8000 OR drop_bit 1 (sum_list clp)" "MG s' = 0x8000 OR drop_bit 1 (sum_list clm)"
proof -
  have "foldl (+) 0 xs = sum_list xs" for xs :: "u32 list"
    by (simp add: fold_plus_sum_list_rev foldl_conv_fold add.commute)
  then show thesis using assms by (intro that, simp add: kl_adc_init_def, simp_all)
qed

end
