(* ===== verification/Spec2Isabelle.thy ===== *)
theory Spec2Isabelle
  imports Kernel_Properties Gnu_Linux Usb_Control Usart Eventflag Flash Usbip_Queue Usb_Kl27z_Packets Usb_Cdc_Run
    Flash_Kl27z Shell_Commands Ackbtn Adc_Kl27z
begin

text \<open>
  Chopstx is a small thread library for microcontrollers: threads with fixed priorities,
  mutexes with priority inheritance, condition variables, timeouts, interrupts received by
  threads, and drivers written on top of them. This library models the kernel
  (\<open>chopstx.c\<close>, \<open>chopstx.h\<close>), its processor layer (\<open>chopstx-cortex-m.c\<close>), the USB device driver
  of the STM32F103 (\<open>mcu/usb-stm32f103.c\<close>), that of the MKL27Z (\<open>mcu/usb-mkl27z.c\<close>), the
  emulation of one on GNU/Linux (\<open>mcu/usb-usbip.c\<close>), the serial driver (\<open>contrib/usart-stm32f103.c\<close>), the flash routines (\<open>mcu/sys-stm32f103.c\<close>,
  \<open>mcu/sys-mkl27z.c\<close>, \<open>mcu/sys-gnu-linux.c\<close>), the CRC32 routines (\<open>mcu/sys-mkl27z.c\<close>), the
  event flags (\<open>eventflag.c\<close>) and an application, the virtual serial port (\<open>example-cdc/usb-cdc.c\<close>), with the
  commands a user can type (\<open>example-cdc-gnu-linux/command.c\<close>), and proves the properties that make them correct. The C integer types are words of their width; a routine
  whose loop may fail to end, or which may follow a null pointer, returns an \<open>option\<close>, and \<open>None\<close>
  means that it does not return.

  \<^bold>\<open>The kernel.\<close> The global state of \<open>chopstx.c\<close> is a set of queues of threads (ready, timer, join,
  interrupt, and one for each mutex and condition), linked through the structs of the threads.
  \<^item> \<open>Chopstx_Prelude\<close>: word types, insertion into sorted lists, circular doubly linked lists.
  \<^item> \<open>Kernel_State\<close>: the memory, one field of the record \<open>kst\<close> for each field of a C struct (a map
    from addresses, so that aliasing is what it is in C), the globals, and the bits of the processor
    the kernel touches: SysTick's counter, the interrupt mask, PendSV, the NVIC.
  \<^item> \<open>Linked_List\<close>: \<open>ll_empty\<close> to \<open>ll_prio_enqueue\<close>, assignment by assignment. \<open>wfl\<close> says that every
    queue is a well-formed circular list with given contents; each routine changes one queue.
  \<^item> \<open>Ready_Queue\<close>: \<open>chx_ready_pop/push/enqueue\<close>; the locale \<open>prio_queue\<close> is the interface of a queue
    ordered by priority, interpreted on these three.
  \<^item> \<open>Cortex_M\<close>: SysTick, interrupt enable bits, the scheduling lock, \<open>chx_request_preemption\<close>.
  \<^item> \<open>Timer_Queue\<close>: \<open>chx_timer_insert/dequeue/expired\<close>, a list of differences driven by SysTick, and
    their refinement of a list of absolute deadlines (the locale \<open>timers\<close>).
  \<^item> \<open>Sched\<close>: \<open>chx_sched\<close> for the two kinds of Cortex-M, the PendSV handler \<open>preempt\<close>, \<open>chx_wakeup\<close>,
    \<open>chx_handle_intr\<close>.
  \<^item> \<open>Kernel_Inv\<close>, \<open>Kernel_Events\<close>: the invariant \<open>kinv\<close> (which queue a thread is in, that queues are sorted,
    who owns which mutex), and that waking up, interrupts and SysTick keep it.
  \<^item> \<open>Boot\<close>, \<open>Mutex\<close>, \<open>Cond\<close>, \<open>Thread\<close>, \<open>Poll\<close>: \<open>chx_init\<close> and the calls of the interface in the order of
    \<open>chopstx.c\<close>. A call that sleeps is cut where it calls \<open>chx_sched\<close>: the part before and the part
    after are two definitions, so that what other threads do in between is visible.
  \<^item> \<open>System\<close>: a program with any number of threads, as a step relation over all calls and
    handlers; \<open>legal\<close> states what the model requires of a caller: what the documentation asks (for instance, to
    unlock what one has locked), and some things that no document forbids, without which the code
    misbehaves or the invariant is not kept: mutexes are unlocked last locked first, a round-robin thread does not
    poll without a timeout, and a thread is not cancelled between two hooks of \<open>chopstx_poll\<close>. The list
    is at its definition. \<open>Scenarios\<close> has concrete runs; \<open>Kernel_Properties\<close> states what holds in every
    reachable state, and what each call does there.

  \<^item> \<open>Gnu_Linux\<close>: the port to GNU/Linux (\<open>chopstx-gnu-linux.c\<close>), proved to schedule as the one to Cortex-M.

  A step of \<open>System\<close> is the code between two points at which other code can run. The kernel runs
  with scheduling interrupts inhibited, so that these points are the calls of \<open>chx_sched\<close> and the
  unlocking of the scheduling lock. The saving of registers is not modelled: a thread goes on where
  it called \<open>chx_sched\<close>, with its own \<open>v\<close> as the result. Memory barriers, interrupt priorities and the
  spin locks (empty on one processor) have no effect on the model's state.

  \<^bold>\<open>USB.\<close> \<open>Usb_Lld\<close> has the endpoint registers, packet memory, control transfers, standard requests and
  events of the driver; \<open>Usb_Memory\<close> the copies between the two memories; \<open>Usb_Control\<close> what the driver
  guarantees: the data stages of control transfers deliver the bytes asked for (and stop short of the status
  stage when these are exactly 64), the address
  changes only after the status stage, refused requests stall. How the controller combines
  what is written with what a register holds is a parameter (\<open>usb_hw\<close>); \<open>ep_write_law\<close> is what the
  reference manual says of it.

  \<^bold>\<open>USB on the MKL27Z.\<close> \<open>Usb_Kl27z\<close> models the second driver, whose controller takes packets from the memory through
  pairs of buffer descriptors; \<open>Usb_Kl27z_Packets\<close> follows the controller's choice of descriptor, which is a bit of
  its own, and proves that packets are where the controller looks and of the kind (\<open>DATA0\<close> or \<open>DATA1\<close>) the host expects, and
  where they are not: after the halt of an endpoint was cleared.

  \<^bold>\<open>The virtual serial port.\<close> \<open>Usb_Cdc\<close> models \<open>example-cdc/usb-cdc.c\<close>, an application of the first driver, as a
  thread \<open>tty_main\<close> that goes round once for each event, and the calls \<open>tty_open\<close> to \<open>tty_recv\<close> of another
  thread; the state \<open>cdc\<close> is the driver's with \<open>struct tty\<close>.
  \<^item> \<open>Usb_Cdc_Line\<close>: the ring of the echo is a second interpretation of \<open>bounded_queue\<close>; packets edit the input line
    as an editor on lists does (\<open>edit\<close>), and \<open>tty_recv\<close> returns that line.
  \<^item> \<open>Usb_Cdc_Send\<close>: the packets on endpoint 1, of the echo and of \<open>tty_send\<close>. \<open>packet_taken\<close> is what the
    controller does when the host takes one, \<open>tx_rounds\<close> the rounds of \<open>tty_main\<close> that follow;
    \<open>takes_packets\<close> is what \<open>tty_send\<close> relies on while it waits.
  \<^item> \<open>Usb_Cdc_Device\<close>: the descriptors, read as a host does; the endpoints they announce are those that are set up, and
    a request for a descriptor delivers it over the data stage of \<open>Usb_Control\<close>.
  \<^item> \<open>Usb_Cdc_Rx\<close>: when endpoint 3 may receive: only \<open>usb_lld_rx_enable\<close> opens it, and \<open>rx_inv\<close> says how this
    keeps packets away from a line that waits.
  \<^item> \<open>Usb_Cdc_Run\<close>: \<open>cdc_run\<close> are the sequences of events, rounds and calls, with an invariant (\<open>controller_rule\<close> is
    what the manual says of the controller); which changes are signalled to the threads that wait for them.

  \<^bold>\<open>USB over IP.\<close> On GNU/Linux the same driver interface is implemented by two threads of the process: one is
  the device, the other emulates a host controller and serves a client over a socket (\<open>mcu/usb-usbip.c\<close>).
  \<^item> \<open>Usbip_Device\<close>: the device's side, routine by routine (suffix \<open>_ip\<close>); \<open>struct usb_control\<close> of each endpoint
    is what the two threads share, and an \<open>eventfd\<close> is a counter.
  \<^item> \<open>Usbip_Host\<close>: transactions, control requests and requests of data endpoints. The application is a parameter
    (\<open>app\<close>); where the controller waits for endpoint 0, the device takes a turn.
  \<^item> \<open>Usbip_Control\<close>: what the client gets from a control request, for every length.
  \<^item> \<open>Usbip_Server\<close>: the list of requests, the commands and replies as bytes, a round of the server.
  \<^item> \<open>Usbip_Queue\<close>: the list is one queue for each endpoint (\<open>queues_ok\<close>); \<open>served\<close> are the histories of the
    server without commands to unlink a request, and in each of them requests are answered in order.

  \<^bold>\<open>Serial driver.\<close> \<open>Ring_Buffer\<close> models the \<open>rb_\<close> routines on words of ten bits, as an
  interpretation of the locale \<open>bounded_queue\<close>; a step is what a routine does while it holds the mutex, and
  the signals it sends are part of its result. \<open>Usart\<close> has the configuration, the interrupt and
  transmit handlers and the rounds of the driver's thread; \<open>serial_run\<close> are its runs in which no port is
  configured while it sends a byte. \<open>usart_law\<close> is what the reference manual says
  of the data register.

  \<^bold>\<open>Event flags and flash.\<close> \<open>Eventflag\<close> models \<open>eventflag.c\<close> in the same way; \<open>Flash\<close> has the routines
  the system vector table offers for the flash memory, on a controller that is a parameter and that
  may report errors or time out (\<open>flash_law\<close> says only that it changes no other cell than the one written).

  \<^bold>\<open>System routines.\<close> \<open>Crc32\<close> has the checksum routines of \<open>mcu/sys-mkl27z.c\<close>, both in C, which the source keeps as
  comment, and as the assembly that is built, instruction by instruction; they compute the CRC of the polynomial bit by bit, and
  detect any burst of 32 bits. \<open>Flash_Kl27z\<close> has the flash commands of that file: the registers, and the code that is copied to the stack
  and run there. \<open>Flash_File\<close> has the flash memory of the port to GNU/Linux, a file; \<open>posix\<close> is what it relies on.

  \<^bold>\<open>The command interpreter.\<close> \<open>Shell\<close> models \<open>example-cdc-gnu-linux/command.c\<close>, which runs on the lines that the virtual serial port
  receives and works on the flash memory of \<open>Flash_File\<close>; \<open>Shell_Commands\<close> shows that numbers are read as they are printed, and what the
  commands do from the line that is typed: \<open>dump\<close> and \<open>with_halfwords\<close> are the references.

  \<^bold>\<open>Button and converter.\<close> \<open>Ackbtn\<close> has the three routines of \<open>contrib/ackbtn-stm32f103.c\<close>, and what they do to the line of the button
  and to the others; \<open>Adc_Kl27z\<close> has \<open>contrib/adc-mkl27z.c\<close>: where the four phases of a conversion leave their bytes.

  \<^bold>\<open>Bounds.\<close> Nothing is bounded but what the code bounds: lists of threads, queues and transfers have any
  length the widths of the fields allow. Loops over linked lists are
  \<open>partial_function (option)\<close>, and \<open>every_call_returns\<close> proves that they end in every reachable state. Only the waits of
  the virtual serial port count: \<open>wait_until\<close> and \<open>recv_wait\<close> take the number of wakeups after which they are given up, and the
  properties state which number is enough.

  \<^bold>\<open>Not modelled.\<close> The rest of the other ports and drivers (of \<open>mcu/sys-stm32f0.c\<close> all but \<open>flash_protect\<close>, being the text of
  \<open>mcu/sys-stm32f103.c\<close>; of \<open>mcu/sys-gnu-linux.c\<close> the opening of the file; of the commands those of the touch sensor; the analog converter of
  STM32F103, whose routines set registers), the start-up code
  and clocks (\<open>entry.c\<close>, \<open>mcu/clk_gpio_init-*.c\<close>: writes to registers without a state the program
  reads back), register addresses (\<open>board/\<close>, \<open>mcu/*.h\<close>), and the other example applications (three of them have a
  copy of \<open>usb-cdc.c\<close> for another driver). Of the virtual serial port, what runs under the mutex is one step, and so is
  a round of \<open>tty_main\<close>. Of \<open>mcu/usb-usbip.c\<close>,
  the opening and closing of sockets, failures of \<open>send\<close>, the creation of threads, and the signal that wakes
  the device.
\<close>

end
